(* ===== verification/Prelude.thy ===== *)
theory Prelude
  imports Main "HOL-Library.Word" "HOL-Library.Char_ord" "HOL-Library.List_Lexorder"
begin

text \<open>
  Shared vocabulary of the development: the machine types of \<open>Interface/Types.h\<close> as words,
  byte strings, little-endian layout of a word in memory, and the generic lemmas on lists,
  words and options that the component theories share.
\<close>

unbundle bit_operations_syntax

section \<open>Machine types\<close>

type_synonym byte = "8 word"
type_synonym u16 = "16 word"
type_synonym u32 = "32 word"
type_synonym u64 = "64 word"

named_theorems wire_simps \<open>evaluation rules for readers and writers of byte streams\<close>

section \<open>Lists\<close>

lemma take_drop_append_exact [simp]:
  "length xs = n \<Longrightarrow> take n (xs @ ys) = xs"
  "length xs = n \<Longrightarrow> drop n (xs @ ys) = ys"
  by auto

lemma list_update_append_exact:
  "i = length xs \<Longrightarrow> (xs @ y # ys)[i := z] = xs @ z # ys"
  by simp

lemma take_Suc_nth: "n < length xs \<Longrightarrow> take (Suc n) xs = take n xs @ [xs ! n]"
  by (rule take_Suc_conv_app_nth)

lemma drop_eq_append_nth:
  assumes "drop k xs = ys @ zs" and "i < length ys" and "k \<le> length xs"
  shows "xs ! (k + i) = ys ! i"
proof -
  have "drop k xs ! i = ys ! i"
    using assms by (simp add: nth_append)
  with assms(3) show ?thesis by simp
qed

section \<open>Words as little-endian bytes\<close>

text \<open>
  The bytes that \<open>memcpy\<close> of a \<open>little_endian\<close>-converted integer yields, on any host:
  the least significant byte first.
\<close>

definition le_bytes :: "nat \<Rightarrow> 'a::len word \<Rightarrow> byte list" where
  "le_bytes n w = map (\<lambda>i. ucast (drop_bit (8 * i) w)) [0..<n]"

fun le_word :: "byte list \<Rightarrow> 'a::len word" where
  "le_word [] = 0"
| "le_word (b # bs) = ucast b OR push_bit 8 (le_word bs)"

lemma length_le_bytes [simp]: "length (le_bytes n w) = n"
  by (simp add: le_bytes_def)

lemma bit_le_word:
  fixes bs :: "byte list"
  shows "bit (le_word bs :: 'a::len word) i \<longleftrightarrow>
    i < LENGTH('a) \<and> i div 8 < length bs \<and> bit (bs ! (i div 8)) (i mod 8)"
proof (induction bs arbitrary: i)
  case Nil
  then show ?case by simp
next
  case (Cons b bs)
  show ?case
  proof (cases "i < 8")
    case True
    then show ?thesis by (auto simp: bit_simps)
  next
    case False
    then have d: "i div 8 = Suc ((i - 8) div 8)" and m: "i mod 8 = (i - 8) mod 8"
      by (auto simp: le_div_geq le_mod_geq)
    from False have "\<not> bit b i" by (auto dest: bit_imp_le_length)
    with False d m show ?thesis
      by (auto simp: bit_simps Cons.IH)
  qed
qed

lemma le_word_le_bytes:
  fixes w :: "'a::len word"
  assumes "LENGTH('a) \<le> 8 * n"
  shows "le_word (le_bytes n w) = w"
proof (rule bit_word_eqI)
  fix i assume i: "i < LENGTH('a)"
  with assms have "i div 8 < n" by (auto simp: div_less_iff_less_mult)
  with i show "bit (le_word (le_bytes n w) :: 'a word) i \<longleftrightarrow> bit w i"
    by (simp add: bit_le_word le_bytes_def bit_simps)
qed

section \<open>Small naturals as words\<close>

lemma unat_of_nat_small:
  "n < 2 ^ LENGTH('a) \<Longrightarrow> unat (of_nat n :: 'a::len word) = n"
  by (simp add: unsigned_of_nat take_bit_nat_eq_self_iff)

lemma ucast_of_nat_small:
  assumes "n < 2 ^ LENGTH('a)"
  shows "(ucast (of_nat n :: 'a::len word) :: 'b::len word) = of_nat n"
proof -
  have "(of_nat (unat (of_nat n :: 'a word)) :: 'b word) = of_nat n"
    using assms by (simp only: unat_of_nat_small)
  then show ?thesis by simp
qed

lemma of_nat_less_small:
  "m < 2 ^ LENGTH('a) \<Longrightarrow> n < 2 ^ LENGTH('a) \<Longrightarrow>
   (of_nat m :: 'a::len word) < of_nat n \<longleftrightarrow> m < n"
  by (simp add: word_less_nat_alt unat_of_nat_small)

section \<open>Bits of concrete words\<close>

lemma word_eq_by_bits:
  fixes a b :: "'a::len word"
  assumes "list_all (\<lambda>n. bit a n = bit b n) [0..<LENGTH('a)]"
  shows "a = b"
  using assms by (intro bit_word_eqI) (simp add: list_all_iff)

lemma upt_64: "[0..<64] = [0,1,2,3,4,5,6,7,8,9,10,11,12,13,14,15,16,17,18,19,20,21,22,23,24,25,26,27,28,29,30,31,32,33,34,35,36,37,38,39,40,41,42,43,44,45,46,47,48,49,50,51,52,53,54,55,56,57,58,59,60,61,62,63]"
  by (simp add: upt_rec_numeral upt_conv_Cons)

lemma bit_mask_lit: 
  "bit (127 :: int) n \<longleftrightarrow> n < 7"
  "bit (128 :: int) n \<longleftrightarrow> n = 7"
proof -
  have "(127 :: int) = mask 7" by (simp add: mask_eq_exp_minus_1)
  then have "bit (127 :: int) n = bit (mask 7 :: int) n" by (rule arg_cong)
  then show "bit (127 :: int) n \<longleftrightarrow> n < 7"
    by (simp only: bit_mask_iff) simp
  have "(128 :: int) = push_bit 7 1" by (simp)
  then have "bit (128 :: int) n = bit (push_bit 7 1 :: int) n" by (rule arg_cong)
  then show "bit (128 :: int) n \<longleftrightarrow> n = 7"
    by (simp only: bit_push_bit_iff bit_1_iff) auto
qed

lemma and_0x80_eq_0: "(x :: u32) AND 0x80 = 0 \<longleftrightarrow> \<not> bit x 7"
proof -
  have *: "bit (x AND 0x80) i \<longleftrightarrow> i = 7 \<and> bit x 7" for i
    by (auto simp: bit_and_iff bit_mask_lit)
  show ?thesis
    by (metis * bit_0_eq bot_apply bit_eq_iff bot_bool_def)
qed

lemma drop_bit_0_bit: 
  assumes a: "drop_bit k (v::u64) = 0" "k \<le> n"
  shows "\<not> bit v n"
proof -
  have "bit (drop_bit k v) (n - k) = bit v n" using a(2) by (simp add: bit_drop_bit_eq)
  with a show ?thesis by simp
qed

lemma drop_bit_64: "64 \<le> k \<Longrightarrow> drop_bit k (v::u64) = 0"
  by (rule bit_word_eqI) (auto simp: bit_simps dest: bit_imp_le_length)

lemma drop_bit_zero_mono: "drop_bit k (v::u64) = 0 \<Longrightarrow> k \<le> l \<Longrightarrow> drop_bit l v = 0"
  by (rule bit_word_eqI) (simp add: bit_simps drop_bit_0_bit)

lemma drop_bit_eq_0_iff: "drop_bit k (v :: u64) = 0 \<longleftrightarrow> unat v < 2 ^ k"
proof -
  have "drop_bit k v = 0 \<longleftrightarrow> drop_bit k (unat v) = 0"
    by (simp only: unat_drop_bit_eq [symmetric] unat_eq_zero)
  then show ?thesis by (simp add: drop_bit_eq_div div_eq_0_iff)
qed

end
