(* ===== verification/Endian.thy ===== *)
theory Endian
  imports Prelude
begin

text \<open>
  The byte-order helpers of \<open>stringtools.h\<close>. The host's byte order, which \<open>is_big_endian\<close>
  finds out at run time, is the parameter \<open>be\<close> of everything that depends on it; \<open>mem_of\<close> and
  \<open>of_mem\<close> are what \<open>memcpy\<close> between an integer object and a byte array does on that host.
\<close>

section \<open>Memory of an integer object\<close>

definition mem_of :: "bool \<Rightarrow> nat \<Rightarrow> 'a::len word \<Rightarrow> byte list" where
  "mem_of be n w = (if be then rev (le_bytes n w) else le_bytes n w)"

definition of_mem :: "bool \<Rightarrow> byte list \<Rightarrow> 'a::len word" where
  "of_mem be bs = (if be then le_word (rev bs) else le_word bs)"

lemma length_mem_of [simp]: "length (mem_of be n w) = n"
  by (simp add: mem_of_def)

lemma of_mem_mem_of:
  "LENGTH('a) \<le> 8 * n \<Longrightarrow> of_mem be (mem_of be n w) = (w :: 'a::len word)"
  by (simp add: of_mem_def mem_of_def le_word_le_bytes)

section \<open>Swapping\<close>

text \<open>\<open>bint.c[0] == 1\<close> for the object \<open>0x01020304\<close>.\<close>

definition is_big_endian :: "bool \<Rightarrow> bool" where
  "is_big_endian be \<longleftrightarrow> mem_of be 4 (0x01020304 :: u32) ! 0 = 1"

definition endian_swap32 :: "u32 \<Rightarrow> u32" where
  "endian_swap32 x =
     drop_bit 24 x OR (push_bit 8 x AND 0x00FF0000) OR (drop_bit 8 x AND 0x0000FF00)
     OR push_bit 24 x"

definition endian_swap16 :: "u16 \<Rightarrow> u16" where
  "endian_swap16 x = drop_bit 8 x OR push_bit 8 x"

definition endian_swap64 :: "u64 \<Rightarrow> u64" where
  "endian_swap64 x =
     drop_bit 56 x OR
     (push_bit 40 x AND 0x00FF000000000000) OR
     (push_bit 24 x AND 0x0000FF0000000000) OR
     (push_bit 8 x AND 0x000000FF00000000) OR
     (drop_bit 8 x AND 0x00000000FF000000) OR
     (drop_bit 24 x AND 0x0000000000FF0000) OR
     (drop_bit 40 x AND 0x000000000000FF00) OR
     push_bit 56 x"

definition little_endian32 :: "bool \<Rightarrow> u32 \<Rightarrow> u32" where
  "little_endian32 be x = (if is_big_endian be then endian_swap32 x else x)"

definition little_endian16 :: "bool \<Rightarrow> u16 \<Rightarrow> u16" where
  "little_endian16 be x = (if is_big_endian be then endian_swap16 x else x)"

definition little_endian64 :: "bool \<Rightarrow> u64 \<Rightarrow> u64" where
  "little_endian64 be x = (if is_big_endian be then endian_swap64 x else x)"

definition big_endian32 :: "bool \<Rightarrow> u32 \<Rightarrow> u32" where
  "big_endian32 be x = (if \<not> is_big_endian be then endian_swap32 x else x)"

definition big_endian16 :: "bool \<Rightarrow> u16 \<Rightarrow> u16" where
  "big_endian16 be x = (if \<not> is_big_endian be then endian_swap16 x else x)"

definition big_endian64 :: "bool \<Rightarrow> u64 \<Rightarrow> u64" where
  "big_endian64 be x = (if \<not> is_big_endian be then endian_swap64 x else x)"

section \<open>Correctness\<close>

lemma is_big_endian_host [simp]: "is_big_endian be \<longleftrightarrow> be"
  by (cases be) (simp_all add: is_big_endian_def mem_of_def le_bytes_def upt_rec_numeral upt_conv_Cons)

text \<open>
  Swapping an integer reverses its bytes in memory; so the little-endian conversion puts the
  same bytes in memory on every host, and so does the big-endian one.
\<close>

lemmas swap_bit_eval = bit_simps upt_rec_numeral upt_conv_Cons

lemma le_bytes_swap:
  "le_bytes 2 (endian_swap16 x) = rev (le_bytes 2 x)"
  "le_bytes 4 (endian_swap32 y) = rev (le_bytes 4 y)"
  "le_bytes 8 (endian_swap64 z) = rev (le_bytes 8 z)"
  by (simp_all add: le_bytes_def upt_rec_numeral upt_conv_Cons)
    ((intro conjI)?; rule word_eq_by_bits;
      simp add: endian_swap16_def endian_swap32_def endian_swap64_def swap_bit_eval)+

lemma le_bytes_inject:
  fixes a b :: "'a::len word"
  assumes "LENGTH('a) \<le> 8 * n"
  shows "le_bytes n a = le_bytes n b \<longleftrightarrow> a = b"
  using le_word_le_bytes [OF assms, of a] le_word_le_bytes [OF assms, of b] by metis

lemma endian_swap_swap [simp]:
  "endian_swap16 (endian_swap16 x) = x"
  "endian_swap32 (endian_swap32 y) = y"
  "endian_swap64 (endian_swap64 z) = z"
  using le_bytes_inject [of 2 "endian_swap16 (endian_swap16 x)" x]
    le_bytes_inject [of 4 "endian_swap32 (endian_swap32 y)" y]
    le_bytes_inject [of 8 "endian_swap64 (endian_swap64 z)" z]
  by (simp_all add: le_bytes_swap)

lemma mem_of_little_endian [simp]:
  "mem_of be 2 (little_endian16 be x) = le_bytes 2 x"
  "mem_of be 4 (little_endian32 be y) = le_bytes 4 y"
  "mem_of be 8 (little_endian64 be z) = le_bytes 8 z"
  by (simp_all add: mem_of_def little_endian16_def little_endian32_def little_endian64_def
      le_bytes_swap)

lemma mem_of_big_endian [simp]:
  "mem_of be 2 (big_endian16 be x) = rev (le_bytes 2 x)"
  "mem_of be 4 (big_endian32 be y) = rev (le_bytes 4 y)"
  "mem_of be 8 (big_endian64 be z) = rev (le_bytes 8 z)"
  by (simp_all add: mem_of_def big_endian16_def big_endian32_def big_endian64_def
      le_bytes_swap)

lemma little_endian_of_mem [simp]:
  "little_endian16 be (of_mem be (le_bytes 2 x)) = x"
  "little_endian32 be (of_mem be (le_bytes 4 y)) = y"
  "little_endian64 be (of_mem be (le_bytes 8 z)) = z"
  using of_mem_mem_of [of 2 be "little_endian16 be x"]
    of_mem_mem_of [of 4 be "little_endian32 be y"]
    of_mem_mem_of [of 8 be "little_endian64 be z"]
  unfolding mem_of_little_endian
  by (simp_all add: little_endian16_def little_endian32_def little_endian64_def)

lemma big_endian_big_endian [simp]:
  "big_endian16 be (big_endian16 be x) = x"
  "big_endian32 be (big_endian32 be y) = y"
  "big_endian64 be (big_endian64 be z) = z"
  by (simp_all add: big_endian16_def big_endian32_def big_endian64_def)

end
