(* ===== verification/Wire_Data.thy ===== *)
theory Wire_Data
  imports Endian
begin

text \<open>
  \<open>common/data.cpp\<close>: the serialisation buffer \<open>CWData\<close>, the reader \<open>CRData\<close> and the
  SQLite-style variable-length integers they share. Every protocol message, LMDB value and
  metadata file of the server goes through these two classes.

  A \<open>CWData\<close> is its \<open>std::vector<char>\<close>; a \<open>CRData\<close> is the memory behind \<open>data\<close>, the clamped
  length \<open>datalen\<close> and the cursor \<open>streampos\<close>, both at their 64-bit width because the bounds
  checks of the code are additions of \<open>size_t\<close> values. A reader operation returns \<open>None\<close> for
  the code's \<open>false\<close>, together with the reader it leaves behind: some failures have moved the
  cursor already.
\<close>

section \<open>Variable-length integers\<close>

text \<open>\<open>for(i=1; (v >>= 7)!=0; i++)\<close>\<close>

function varintLenLoop :: "u64 \<Rightarrow> nat \<Rightarrow> nat" where
  "varintLenLoop v i =
     (let v' = drop_bit 7 v in if v' \<noteq> 0 then varintLenLoop v' (Suc i) else i)"
  by pat_completeness auto

lemma unat_drop_bit_7_less: "drop_bit 7 v \<noteq> 0 \<Longrightarrow> unat (drop_bit 7 v) < unat (v :: u64)"
proof -
  assume "drop_bit 7 v \<noteq> 0"
  then have "v \<noteq> 0" by auto
  then have "0 < unat v" by (simp add: unat_gt_0)
  then show ?thesis by (simp add: drop_bit_eq_div unat_div_distrib)
qed

termination varintLenLoop
  by (relation "measure (\<lambda>(v, i). unat v)") (auto simp: unat_drop_bit_7_less)

declare varintLenLoop.simps [simp del]

definition sqlite3VarintLen :: "u64 \<Rightarrow> nat" where
  "sqlite3VarintLen v = (let i = varintLenLoop v 1 in if i = 10 then 9 else i)"

text \<open>
  \<open>sqlite3GetVarint\<close>, statement by statement: \<open>a\<close>, \<open>b\<close>, \<open>s\<close> are the 32-bit accumulators, \<open>p\<close>
  the memory at the cursor. The result is the number of bytes consumed and, unless that is 0,
  the value stored through \<open>v\<close>.
\<close>

definition SLOT_2_0 :: u32 where "SLOT_2_0 = 0x001fc07f"

definition SLOT_4_2_0 :: u32 where "SLOT_4_2_0 = 0xf01fc07f"

definition slot_pair :: "u32 \<Rightarrow> u32 \<Rightarrow> u64" where
  "slot_pair s a = push_bit 32 (ucast s) OR ucast a"

definition sqlite3GetVarint :: "byte list \<Rightarrow> nat \<Rightarrow> nat \<times> u64 option" where
  "sqlite3GetVarint p max_length =
    (if max_length = 0 then (0, None) else
     let a = ucast (p ! 0) :: u32 in
     if a AND 0x80 = 0 then (1, Some (ucast a)) else
     if max_length \<le> 1 then (0, None) else
     let b = ucast (p ! 1) :: u32 in
     if b AND 0x80 = 0 then (2, Some (ucast (push_bit 7 (a AND 0x7f) OR b))) else
     if max_length \<le> 2 then (0, None) else
     let a = push_bit 14 a OR ucast (p ! 2) in
     if a AND 0x80 = 0
     then (3, Some (ucast ((a AND SLOT_2_0) OR push_bit 7 (b AND 0x7f)))) else
     let a = a AND SLOT_2_0 in
     if max_length \<le> 3 then (0, None) else
     let b = push_bit 14 b OR ucast (p ! 3) in
     if b AND 0x80 = 0 then (4, Some (ucast (push_bit 7 a OR (b AND SLOT_2_0)))) else
     let b = b AND SLOT_2_0; s = a in
     if max_length \<le> 4 then (0, None) else
     let a = push_bit 14 a OR ucast (p ! 4) in
     if a AND 0x80 = 0 then (5, Some (slot_pair (drop_bit 18 s) (a OR push_bit 7 b))) else
     let s = push_bit 7 s OR b in
     if max_length \<le> 5 then (0, None) else
     let b = push_bit 14 b OR ucast (p ! 5) in
     if b AND 0x80 = 0
     then (6, Some (slot_pair (drop_bit 18 s) (push_bit 7 (a AND SLOT_2_0) OR b))) else
     if max_length \<le> 6 then (0, None) else
     let a = push_bit 14 a OR ucast (p ! 6) in
     if a AND 0x80 = 0
     then (7, Some (slot_pair (drop_bit 11 s)
                      ((a AND SLOT_4_2_0) OR push_bit 7 (b AND SLOT_2_0)))) else
     let a = a AND SLOT_2_0 in
     if max_length \<le> 7 then (0, None) else
     let b = push_bit 14 b OR ucast (p ! 7) in
     if b AND 0x80 = 0
     then (8, Some (slot_pair (drop_bit 4 s) (push_bit 7 a OR (b AND SLOT_4_2_0)))) else
     if max_length \<le> 8 then (0, None) else
     let a = push_bit 15 a OR ucast (p ! 8);
         a = a OR push_bit 8 (b AND SLOT_2_0);
         s = push_bit 4 s OR drop_bit 3 (ucast (p ! 4) AND 0x7f) in
     (9, Some (slot_pair s a)))"

text \<open>
  \<open>putVarint64\<close>: the nine-byte form fills \<open>p[8]\<close> with the low byte and \<open>p[7..0]\<close> downwards;
  the short form collects 7-bit groups in \<open>buf\<close> and copies them out in reverse.
\<close>

definition varintGroup :: "u64 \<Rightarrow> byte" where
  "varintGroup v = ucast ((v AND 0x7f) OR 0x80)"

fun putVarintHigh :: "nat \<Rightarrow> u64 \<Rightarrow> byte list \<Rightarrow> byte list" where
  "putVarintHigh 0 v acc = acc"
| "putVarintHigh (Suc i) v acc = putVarintHigh i (drop_bit 7 v) (varintGroup v # acc)"

function putVarintBuf :: "u64 \<Rightarrow> byte list" where
  "putVarintBuf v =
     (let v' = drop_bit 7 v
      in varintGroup v # (if v' \<noteq> 0 then putVarintBuf v' else []))"
  by pat_completeness auto
termination putVarintBuf
  by (relation "measure unat") (auto simp: unat_drop_bit_7_less)

declare putVarintBuf.simps [simp del]

definition putVarint64 :: "u64 \<Rightarrow> byte list" where
  "putVarint64 v =
     (if v AND push_bit 32 0xff000000 \<noteq> 0
      then putVarintHigh 8 (drop_bit 8 v) [ucast v]
      else let buf = putVarintBuf v; buf = buf[0 := (buf ! 0) AND 0x7f] in rev buf)"

definition sqlite3PutVarint :: "u64 \<Rightarrow> byte list" where
  "sqlite3PutVarint v =
     (if v \<le> 0x7f then [ucast (v AND 0x7f)]
      else if v \<le> 0x3fff
      then [ucast ((drop_bit 7 v AND 0x7f) OR 0x80), ucast (v AND 0x7f)]
      else putVarint64 v)"


subsection \<open>Round trip\<close>

lemma bit_varintGroup [simp]: "bit (varintGroup v) n \<longleftrightarrow> n = 7 \<or> n < 7 \<and> bit v n"
  by (auto simp: varintGroup_def bit_or_iff bit_and_iff bit_ucast_iff bit_mask_lit dest: bit_imp_le_length)

lemmas varint_bit_eval = bit_simps bit_mask_lit upt_64 drop_bit_0_bit

lemmas sqlite3GetVarint_eval =
  sqlite3GetVarint_def Let_def and_0x80_eq_0 bit_simps bit_mask_lit slot_pair_def
  SLOT_2_0_def SLOT_4_2_0_def

lemma sqlite3GetVarint_groups:
  "p ! 0 = ucast (v AND 0x7f) \<Longrightarrow>
    0 < m \<Longrightarrow>
    drop_bit 7 v = 0 \<Longrightarrow>
    sqlite3GetVarint p m = (1, Some v)"
  "p ! 0 = varintGroup (drop_bit 7 v) \<Longrightarrow>
    p ! 1 = ucast (v AND 0x7f) \<Longrightarrow>
    1 < m \<Longrightarrow>
    drop_bit 14 v = 0 \<Longrightarrow>
    sqlite3GetVarint p m = (2, Some v)"
  "p ! 0 = varintGroup (drop_bit 14 v) \<Longrightarrow>
    p ! 1 = varintGroup (drop_bit 7 v) \<Longrightarrow>
    p ! 2 = ucast (v AND 0x7f) \<Longrightarrow>
    2 < m \<Longrightarrow>
    drop_bit 21 v = 0 \<Longrightarrow>
    sqlite3GetVarint p m = (3, Some v)"
  "p ! 0 = varintGroup (drop_bit 21 v) \<Longrightarrow>
    p ! 1 = varintGroup (drop_bit 14 v) \<Longrightarrow>
    p ! 2 = varintGroup (drop_bit 7 v) \<Longrightarrow>
    p ! 3 = ucast (v AND 0x7f) \<Longrightarrow>
    3 < m \<Longrightarrow>
    drop_bit 28 v = 0 \<Longrightarrow>
    sqlite3GetVarint p m = (4, Some v)"
  "p ! 0 = varintGroup (drop_bit 28 v) \<Longrightarrow>
    p ! 1 = varintGroup (drop_bit 21 v) \<Longrightarrow>
    p ! 2 = varintGroup (drop_bit 14 v) \<Longrightarrow>
    p ! 3 = varintGroup (drop_bit 7 v) \<Longrightarrow>
    p ! 4 = ucast (v AND 0x7f) \<Longrightarrow>
    4 < m \<Longrightarrow>
    drop_bit 35 v = 0 \<Longrightarrow>
    sqlite3GetVarint p m = (5, Some v)"
  "p ! 0 = varintGroup (drop_bit 35 v) \<Longrightarrow>
    p ! 1 = varintGroup (drop_bit 28 v) \<Longrightarrow>
    p ! 2 = varintGroup (drop_bit 21 v) \<Longrightarrow>
    p ! 3 = varintGroup (drop_bit 14 v) \<Longrightarrow>
    p ! 4 = varintGroup (drop_bit 7 v) \<Longrightarrow>
    p ! 5 = ucast (v AND 0x7f) \<Longrightarrow>
    5 < m \<Longrightarrow>
    drop_bit 42 v = 0 \<Longrightarrow>
    sqlite3GetVarint p m = (6, Some v)"
  "p ! 0 = varintGroup (drop_bit 42 v) \<Longrightarrow>
    p ! 1 = varintGroup (drop_bit 35 v) \<Longrightarrow>
    p ! 2 = varintGroup (drop_bit 28 v) \<Longrightarrow>
    p ! 3 = varintGroup (drop_bit 21 v) \<Longrightarrow>
    p ! 4 = varintGroup (drop_bit 14 v) \<Longrightarrow>
    p ! 5 = varintGroup (drop_bit 7 v) \<Longrightarrow>
    p ! 6 = ucast (v AND 0x7f) \<Longrightarrow>
    6 < m \<Longrightarrow>
    drop_bit 49 v = 0 \<Longrightarrow>
    sqlite3GetVarint p m = (7, Some v)"
  "p ! 0 = varintGroup (drop_bit 49 v) \<Longrightarrow>
    p ! 1 = varintGroup (drop_bit 42 v) \<Longrightarrow>
    p ! 2 = varintGroup (drop_bit 35 v) \<Longrightarrow>
    p ! 3 = varintGroup (drop_bit 28 v) \<Longrightarrow>
    p ! 4 = varintGroup (drop_bit 21 v) \<Longrightarrow>
    p ! 5 = varintGroup (drop_bit 14 v) \<Longrightarrow>
    p ! 6 = varintGroup (drop_bit 7 v) \<Longrightarrow>
    p ! 7 = ucast (v AND 0x7f) \<Longrightarrow>
    7 < m \<Longrightarrow>
    drop_bit 56 v = 0 \<Longrightarrow>
    sqlite3GetVarint p m = (8, Some v)"
  "p ! 0 = varintGroup (drop_bit 57 v) \<Longrightarrow>
    p ! 1 = varintGroup (drop_bit 50 v) \<Longrightarrow>
    p ! 2 = varintGroup (drop_bit 43 v) \<Longrightarrow>
    p ! 3 = varintGroup (drop_bit 36 v) \<Longrightarrow>
    p ! 4 = varintGroup (drop_bit 29 v) \<Longrightarrow>
    p ! 5 = varintGroup (drop_bit 22 v) \<Longrightarrow>
    p ! 6 = varintGroup (drop_bit 15 v) \<Longrightarrow>
    p ! 7 = varintGroup (drop_bit 8 v) \<Longrightarrow>
    p ! 8 = ucast v \<Longrightarrow>
    8 < m \<Longrightarrow>
    sqlite3GetVarint p m = (9, Some v)"
  by (simp_all add: sqlite3GetVarint_eval, (rule word_eq_by_bits, simp add: varint_bit_eval)+)

lemma sqlite3GetVarint_truncated:
  assumes "m \<le> 8" and "\<forall>i<m. bit (p ! i) 7"
  shows "sqlite3GetVarint p m = (0, None)"
proof -
  have "m = 0 \<or> m = 1 \<or> m = 2 \<or> m = 3 \<or> m = 4 \<or> m = 5 \<or> m = 6 \<or> m = 7 \<or> m = 8"
    using assms(1) by arith
  then show ?thesis
    using assms(2) by (elim disjE) (simp_all add: sqlite3GetVarint_eval)
qed
lemma varintLenLoop_Suc: "varintLenLoop v (Suc i) = Suc (varintLenLoop v i)"
proof (induction v i rule: varintLenLoop.induct)
  case (1 v i)
  then show ?case
    by (simp add: varintLenLoop.simps [of v "Suc i"] varintLenLoop.simps [of v i] Let_def)
qed

lemma length_putVarintBuf: "length (putVarintBuf v) = varintLenLoop v 1"
proof (induction v rule: putVarintBuf.induct)
  case (1 v)
  then show ?case
    by (simp add: putVarintBuf.simps [of v] varintLenLoop.simps [of v 0] Let_def
        varintLenLoop_Suc)
qed

lemma putVarintBuf_nth:
  "j < length (putVarintBuf v) \<Longrightarrow> putVarintBuf v ! j = varintGroup (drop_bit (7 * j) v)"
proof (induction v arbitrary: j rule: putVarintBuf.induct)
  case (1 v)
  show ?case
  proof (cases j)
    case 0
    then show ?thesis by (simp add: putVarintBuf.simps [of v] Let_def)
  next
    case (Suc i)
    with "1.prems" have nz: "drop_bit 7 v \<noteq> 0" and i: "i < length (putVarintBuf (drop_bit 7 v))"
      by (auto simp: putVarintBuf.simps [of v] Let_def split: if_splits)
    from "1.IH" [OF refl nz i] nz Suc show ?thesis
      by (simp add: putVarintBuf.simps [of v] Let_def add.commute)
  qed
qed

lemma putVarintBuf_bounds:
  "0 < length (putVarintBuf v) \<and> drop_bit (7 * length (putVarintBuf v)) v = 0 \<and>
   (length (putVarintBuf v) = 1 \<or> drop_bit (7 * (length (putVarintBuf v) - 1)) v \<noteq> 0)"
proof (induction v rule: putVarintBuf.induct)
  case (1 v)
  show ?case
  proof (cases "drop_bit 7 v = 0")
    case True
    then show ?thesis by (simp add: putVarintBuf.simps [of v] Let_def)
  next
    case False
    let ?n = "length (putVarintBuf (drop_bit 7 v))"
    have len: "length (putVarintBuf v) = Suc ?n"
      using False by (simp add: putVarintBuf.simps [of v] Let_def)
    from "1.IH" [OF refl False] have IH: "0 < ?n" "drop_bit (7 * ?n) (drop_bit 7 v) = 0"
      "?n = 1 \<or> drop_bit (7 * (?n - 1)) (drop_bit 7 v) \<noteq> 0" by auto
    then have "drop_bit (7 * ?n) v \<noteq> 0"
      using False by (cases ?n) (auto simp: add.commute)
    with IH(2) show ?thesis
      by (simp add: len add.commute)
  qed
qed

lemma length_putVarintBuf_le:
  assumes "drop_bit k v = 0" and "0 < m" and "k \<le> 7 * m"
  shows "length (putVarintBuf v) \<le> m"
proof (rule ccontr)
  assume n: "\<not> length (putVarintBuf v) \<le> m"
  then have "k \<le> 7 * (length (putVarintBuf v) - 1)" using assms by auto
  with assms(1) have "drop_bit (7 * (length (putVarintBuf v) - 1)) v = 0"
    by (rule drop_bit_zero_mono)
  with putVarintBuf_bounds [of v] n assms(2) show False by auto
qed

lemma high_byte_zero: "(v :: u64) AND push_bit 32 0xff000000 = 0 \<longleftrightarrow> drop_bit 56 v = 0"
proof -
  have m: "push_bit 32 0xff000000 = (push_bit 56 (mask 8) :: u64)"
    by (simp add: mask_eq_exp_minus_1)
  have "v AND push_bit 56 (mask 8) = push_bit 56 (drop_bit 56 v)"
    by (rule bit_word_eqI) (auto simp: bit_simps)
  moreover have "push_bit 56 (drop_bit 56 v) = 0 \<longleftrightarrow> drop_bit 56 v = 0"
  proof
    assume "push_bit 56 (drop_bit 56 v) = 0"
    then have "\<not> bit (push_bit 56 (drop_bit 56 v)) (i + 56)" for i by simp
    then have "\<not> bit v (i + 56)" for i
      using bit_imp_le_length [of v "i + 56"] by (auto simp: bit_push_bit_iff bit_drop_bit_eq add.commute)
    then show "drop_bit 56 v = 0"
      by (intro bit_word_eqI) (auto simp: bit_drop_bit_eq add.commute)
  qed simp
  ultimately show ?thesis by (simp only: m)
qed


lemma varintLenLoop_1: "varintLenLoop v (Suc 0) = length (putVarintBuf v)"
  using length_putVarintBuf [of v] by simp

lemma putVarintHigh_eq:
  "putVarintHigh k v acc = map (\<lambda>j. varintGroup (drop_bit (7 * (k - Suc j)) v)) [0..<k] @ acc"
proof (induction k arbitrary: v acc)
  case 0
  then show ?case by simp
next
  case (Suc k)
  have "map (\<lambda>j. varintGroup (drop_bit (7 * (Suc k - Suc j)) v)) [0..<k]
      = map (\<lambda>j. varintGroup (drop_bit (7 * (k - Suc j)) (drop_bit 7 v))) [0..<k]"
    by (auto simp: Suc_diff_Suc add.commute mult_Suc_right [symmetric] simp del: mult_Suc_right)
  then show ?case by (simp add: Suc.IH)
qed

lemma sqlite3PutVarint_small:
  assumes "drop_bit 56 v = 0"
  defines "n \<equiv> length (putVarintBuf v)"
  shows "length (sqlite3PutVarint v) = n"
    and "\<And>i. i < n - 1 \<Longrightarrow> sqlite3PutVarint v ! i = varintGroup (drop_bit (7 * (n - 1 - i)) v)"
    and "sqlite3PutVarint v ! (n - 1) = ucast (v AND 0x7f)"
proof -
  have low: "varintGroup v AND 0x7f = ucast (v AND 0x7f)"
    by (rule bit_word_eqI) (auto simp: bit_simps bit_mask_lit)
  have n0: "0 < n" using putVarintBuf_bounds [of v] by (simp add: n_def)
  have canon: "sqlite3PutVarint v = rev ((putVarintBuf v)[0 := putVarintBuf v ! 0 AND 0x7f])"
  proof -
    consider (one) "unat v < 2 ^ 7" | (two) "\<not> unat v < 2 ^ 7" "unat v < 2 ^ 14"
      | (more) "\<not> unat v < 2 ^ 14" by fastforce
    then show ?thesis
    proof cases
      case one
      then have "drop_bit 7 v = 0" by (simp add: drop_bit_eq_0_iff)
      with one show ?thesis
        by (simp add: sqlite3PutVarint_def putVarintBuf.simps [of v] word_le_nat_alt low)
    next
      case two
      then have "drop_bit 7 v \<noteq> 0" "drop_bit 7 (drop_bit 7 v) = 0"
        by (auto simp: drop_bit_eq_0_iff)
      with two show ?thesis
        by (simp add: sqlite3PutVarint_def putVarintBuf.simps [of v]
            putVarintBuf.simps [of "drop_bit 7 v"] word_le_nat_alt low
            varintGroup_def [of "drop_bit 7 v"])
    next
      case more
      with assms(1) show ?thesis
        by (simp add: sqlite3PutVarint_def putVarint64_def word_le_nat_alt high_byte_zero [simplified] Let_def)
    qed
  qed
  show "length (sqlite3PutVarint v) = n" by (simp add: canon n_def)
  show "sqlite3PutVarint v ! i = varintGroup (drop_bit (7 * (n - 1 - i)) v)" if "i < n - 1" for i
    using that n0 putVarintBuf_nth [of "n - 1 - i" v] by (simp add: canon n_def rev_nth)
  show "sqlite3PutVarint v ! (n - 1) = ucast (v AND 0x7f)"
    using n0 putVarintBuf_nth [of 0 v] by (simp add: canon n_def rev_nth low)
qed

lemma sqlite3PutVarint_big:
  assumes "drop_bit 56 v \<noteq> 0"
  shows "sqlite3PutVarint v =
    map (\<lambda>j. varintGroup (drop_bit (7 * (8 - Suc j) + 8) v)) [0..<8] @ [ucast v]"
proof -
  from assms have "\<not> unat v < 2 ^ 56" by (simp add: drop_bit_eq_0_iff)
  then have "\<not> v \<le> 0x7f" "\<not> v \<le> 0x3fff" by (simp_all add: word_le_nat_alt)
  then show ?thesis
    using assms
    by (simp add: sqlite3PutVarint_def putVarint64_def high_byte_zero [simplified] putVarintHigh_eq)
qed

lemma sqlite3VarintLen_big:
  assumes "drop_bit 56 v \<noteq> 0"
  shows "sqlite3VarintLen v = 9"
proof -
  let ?n = "length (putVarintBuf v)"
  have "?n \<le> 10" by (rule length_putVarintBuf_le [of 64]) (simp_all add: drop_bit_64)
  moreover have "8 < ?n"
  proof (rule ccontr)
    assume "\<not> 8 < ?n"
    then have "drop_bit 56 v = 0"
      using putVarintBuf_bounds [of v] drop_bit_zero_mono [of "7 * ?n" v 56] by simp
    with assms show False by simp
  qed
  ultimately show ?thesis
    by (auto simp: sqlite3VarintLen_def varintLenLoop_1 Let_def)
qed

lemma sqlite3VarintLen_small:
  assumes "drop_bit 56 v = 0"
  shows "sqlite3VarintLen v = length (putVarintBuf v)" and "length (putVarintBuf v) \<le> 8"
proof -
  show "length (putVarintBuf v) \<le> 8"
    by (rule length_putVarintBuf_le [OF assms]) simp_all
  then show "sqlite3VarintLen v = length (putVarintBuf v)"
    by (simp add: sqlite3VarintLen_def varintLenLoop_1 Let_def)
qed

lemma length_sqlite3PutVarint: "length (sqlite3PutVarint v) = sqlite3VarintLen v"
  by (cases "drop_bit 56 v = 0")
    (simp_all add: sqlite3PutVarint_small sqlite3VarintLen_small sqlite3PutVarint_big
      sqlite3VarintLen_big)

lemma sqlite3VarintLen_bounds: "1 \<le> sqlite3VarintLen v \<and> sqlite3VarintLen v \<le> 9"
proof (cases "drop_bit 56 v = 0")
  case True
  then show ?thesis
    using putVarintBuf_bounds [of v] sqlite3VarintLen_small [of v] by (simp add: Suc_le_eq)
next
  case False
  then show ?thesis by (simp add: sqlite3VarintLen_big)
qed

lemma sqlite3GetVarint_Put:
  assumes p: "\<And>i. i < sqlite3VarintLen v \<Longrightarrow> p ! i = sqlite3PutVarint v ! i"
    and m: "sqlite3VarintLen v \<le> m"
  shows "sqlite3GetVarint p m = (sqlite3VarintLen v, Some v)"
proof (cases "drop_bit 56 v = 0")
  case False
  then show ?thesis
    using p m by (simp add: sqlite3VarintLen_big sqlite3PutVarint_big nth_append
        sqlite3GetVarint_groups(9))
next
  case True
  let ?n = "length (putVarintBuf v)"
  note small = sqlite3VarintLen_small [OF True] sqlite3PutVarint_small [OF True]
  have "0 < ?n" and z: "drop_bit (7 * ?n) v = 0" using putVarintBuf_bounds [of v] by auto
  with small(2) consider "?n = 1" | "?n = 2" | "?n = 3" | "?n = 4" | "?n = 5" | "?n = 6" | "?n = 7" | "?n = 8"
    by linarith
  then show ?thesis
    using p m z small(1,4,5)
    by cases (simp_all add: sqlite3GetVarint_groups)
qed



section \<open>CWData: writing\<close>

text \<open>
  \<open>be\<close> is the byte order of the writing host. \<open>float\<close> and \<open>double\<close> values are carried as
  their bit patterns, which is all \<open>little_endian(float)\<close> touches.
\<close>

record cwdata =
  wd_data :: "byte list"

definition cw_empty :: cwdata where
  "cw_empty = \<lparr>wd_data = []\<rparr>"

definition insert_end :: "byte list \<Rightarrow> cwdata \<Rightarrow> cwdata" where
  "insert_end bs w = w\<lparr>wd_data := wd_data w @ bs\<rparr>"

definition getDataSize :: "cwdata \<Rightarrow> u64" where
  "getDataSize w = of_nat (length (wd_data w))"

definition addInt :: "bool \<Rightarrow> u32 \<Rightarrow> cwdata \<Rightarrow> cwdata" where
  "addInt be ta w = insert_end (mem_of be 4 (little_endian32 be ta)) w"

definition addUInt :: "bool \<Rightarrow> u32 \<Rightarrow> cwdata \<Rightarrow> cwdata" where
  "addUInt be ta w = insert_end (mem_of be 4 (little_endian32 be ta)) w"

definition addInt64 :: "bool \<Rightarrow> u64 \<Rightarrow> cwdata \<Rightarrow> cwdata" where
  "addInt64 be ta w = insert_end (mem_of be 8 (little_endian64 be ta)) w"

definition addUInt64 :: "bool \<Rightarrow> u64 \<Rightarrow> cwdata \<Rightarrow> cwdata" where
  "addUInt64 be ta w = insert_end (mem_of be 8 (little_endian64 be ta)) w"

definition addFloat :: "bool \<Rightarrow> u32 \<Rightarrow> cwdata \<Rightarrow> cwdata" where
  "addFloat be ta w = insert_end (mem_of be 4 (little_endian32 be ta)) w"

definition addDouble :: "bool \<Rightarrow> u64 \<Rightarrow> cwdata \<Rightarrow> cwdata" where
  "addDouble be ta w = insert_end (mem_of be 8 (little_endian64 be ta)) w"

definition addUShort :: "bool \<Rightarrow> u16 \<Rightarrow> cwdata \<Rightarrow> cwdata" where
  "addUShort be ta w = insert_end (mem_of be 2 (little_endian16 be ta)) w"

definition addChar :: "byte \<Rightarrow> cwdata \<Rightarrow> cwdata" where
  "addChar ta w = insert_end [ta] w"

definition addUChar :: "byte \<Rightarrow> cwdata \<Rightarrow> cwdata" where
  "addUChar ta w = insert_end [ta] w"

definition addVoidPtr :: "bool \<Rightarrow> u64 \<Rightarrow> cwdata \<Rightarrow> cwdata" where
  "addVoidPtr be ta w = insert_end (mem_of be 8 ta) w"

definition addBuffer :: "byte list \<Rightarrow> nat \<Rightarrow> cwdata \<Rightarrow> cwdata" where
  "addBuffer buffer bsize w = insert_end (take bsize buffer) w"

definition cw_clear :: "cwdata \<Rightarrow> cwdata" where
  "cw_clear w = w\<lparr>wd_data := []\<rparr>"

text \<open>
  \<open>addVarInt\<close> grows the vector by \<open>sqlite3VarintLen\<close> bytes and lets \<open>sqlite3PutVarint\<close> write at
  the old end. A write past the new end would be a heap overflow and is the result \<open>None\<close>, as is
  the failing assertion \<open>p==needed_bytes\<close>.
\<close>

definition write_at :: "nat \<Rightarrow> byte list \<Rightarrow> byte list \<Rightarrow> byte list option" where
  "write_at pos bs buf =
     (if pos + length bs \<le> length buf
      then Some (take pos buf @ bs @ drop (pos + length bs) buf) else None)"

definition addVarInt :: "u64 \<Rightarrow> cwdata \<Rightarrow> cwdata option" where
  "addVarInt ta w =
     (let cpos = length (wd_data w);
          needed_bytes = sqlite3VarintLen ta;
          bs = sqlite3PutVarint ta
      in case write_at cpos bs (wd_data w @ replicate needed_bytes 0) of
           None \<Rightarrow> None
         | Some buf \<Rightarrow> if length bs = needed_bytes then Some (w\<lparr>wd_data := buf\<rparr>) else None)"

definition addString :: "bool \<Rightarrow> byte list \<Rightarrow> cwdata \<Rightarrow> cwdata" where
  "addString be ta w =
     (let w = addUInt be (of_nat (length ta)) w
      in if ta \<noteq> [] then insert_end ta w else w)"

definition addString2 :: "byte list \<Rightarrow> cwdata \<Rightarrow> cwdata option" where
  "addString2 ta w =
     (case addVarInt (of_nat (length ta)) w of
        None \<Rightarrow> None
      | Some w \<Rightarrow> Some (if ta \<noteq> [] then insert_end ta w else w))"

section \<open>CRData: reading\<close>

record crdata =
  rd_data :: "byte list"
  streampos :: u64
  datalen :: u64

definition cr_set :: "byte list \<Rightarrow> u64 \<Rightarrow> bool \<Rightarrow> crdata" where
  "cr_set c datalength pCopy =
     (let len = min (100 * 1024 * 1024) datalength
      in \<lparr>rd_data = (if pCopy then take (unat len) c else c), streampos = 0, datalen = len\<rparr>)"

text \<open>
  The three fixed steps of every scalar getter: the bounds check, the \<open>memcpy\<close> and the advance.
\<close>

definition getRaw :: "nat \<Rightarrow> crdata \<Rightarrow> byte list option \<times> crdata" where
  "getRaw n r =
     (if streampos r + of_nat n > datalen r then (None, r)
      else (Some (take n (drop (unat (streampos r)) (rd_data r))),
            r\<lparr>streampos := streampos r + of_nat n\<rparr>))"

definition getInt :: "bool \<Rightarrow> crdata \<Rightarrow> u32 option \<times> crdata" where
  "getInt be r =
     (case getRaw 4 r of (bs, r) \<Rightarrow> (map_option (\<lambda>m. little_endian32 be (of_mem be m)) bs, r))"

definition getInt64 :: "bool \<Rightarrow> crdata \<Rightarrow> u64 option \<times> crdata" where
  "getInt64 be r =
     (case getRaw 8 r of (bs, r) \<Rightarrow> (map_option (\<lambda>m. little_endian64 be (of_mem be m)) bs, r))"

definition getUInt :: "bool \<Rightarrow> crdata \<Rightarrow> u32 option \<times> crdata" where
  "getUInt be r =
     (case getRaw 4 r of (bs, r) \<Rightarrow> (map_option (\<lambda>m. little_endian32 be (of_mem be m)) bs, r))"

definition getFloat :: "bool \<Rightarrow> crdata \<Rightarrow> u32 option \<times> crdata" where
  "getFloat be r =
     (case getRaw 4 r of (bs, r) \<Rightarrow> (map_option (\<lambda>m. little_endian32 be (of_mem be m)) bs, r))"

definition getDouble :: "bool \<Rightarrow> crdata \<Rightarrow> u64 option \<times> crdata" where
  "getDouble be r =
     (case getRaw 8 r of (bs, r) \<Rightarrow> (map_option (\<lambda>m. little_endian64 be (of_mem be m)) bs, r))"

definition getUShort :: "bool \<Rightarrow> crdata \<Rightarrow> u16 option \<times> crdata" where
  "getUShort be r =
     (case getRaw 2 r of (bs, r) \<Rightarrow> (map_option (\<lambda>m. little_endian16 be (of_mem be m)) bs, r))"

definition getChar :: "crdata \<Rightarrow> byte option \<times> crdata" where
  "getChar r = (case getRaw 1 r of (bs, r) \<Rightarrow> (map_option (\<lambda>m. m ! 0) bs, r))"

definition getUChar :: "crdata \<Rightarrow> byte option \<times> crdata" where
  "getUChar r = (case getRaw 1 r of (bs, r) \<Rightarrow> (map_option (\<lambda>m. m ! 0) bs, r))"

definition getVoidPtr :: "bool \<Rightarrow> crdata \<Rightarrow> u64 option \<times> crdata" where
  "getVoidPtr be r = (case getRaw 8 r of (bs, r) \<Rightarrow> (map_option (of_mem be) bs, r))"

definition cr_getSize :: "crdata \<Rightarrow> u32" where
  "cr_getSize r = ucast (datalen r)"

definition getLeft :: "crdata \<Rightarrow> u32" where
  "getLeft r = ucast (datalen r - streampos r)"

definition getStreampos :: "crdata \<Rightarrow> u32" where
  "getStreampos r = ucast (streampos r)"

definition setStreampos :: "u32 \<Rightarrow> crdata \<Rightarrow> crdata" where
  "setStreampos spos r = (if ucast spos \<le> datalen r then r\<lparr>streampos := ucast spos\<rparr> else r)"

definition incrementPtr :: "u32 \<Rightarrow> crdata \<Rightarrow> bool \<times> crdata" where
  "incrementPtr amount r =
     (if amount > getLeft r then (False, r)
      else (True, r\<lparr>streampos := streampos r + ucast amount\<rparr>))"

definition getVarInt :: "crdata \<Rightarrow> u64 option \<times> crdata" where
  "getVarInt r =
     (case sqlite3GetVarint (drop (unat (streampos r)) (rd_data r)) (unat (getLeft r)) of
        (b, v) \<Rightarrow> (if b \<noteq> 0 then v else None, r\<lparr>streampos := streampos r + of_nat b\<rparr>))"

definition getStr :: "bool \<Rightarrow> crdata \<Rightarrow> byte list option \<times> crdata" where
  "getStr be r =
     (case getUInt be r of
        (None, r) \<Rightarrow> (None, r)
      | (Some strlen, r) \<Rightarrow>
          if strlen > 10 * 1024 * 1024 then (None, r)
          else if streampos r + ucast strlen > datalen r then (None, r)
          else (Some (if strlen > 0
                      then take (unat strlen) (drop (unat (streampos r)) (rd_data r)) else []),
                r\<lparr>streampos := streampos r + ucast strlen\<rparr>))"

text \<open>
  In \<open>getStr2\<close> the length is a signed \<open>int64\<close>: the comparisons with the limit and with 0 are
  signed, but the sum with the \<open>size_t\<close> cursor is unsigned and wraps around.
\<close>

definition getStr2 :: "crdata \<Rightarrow> byte list option \<times> crdata" where
  "getStr2 r =
     (case getVarInt r of
        (None, r) \<Rightarrow> (None, r)
      | (Some strlen, r) \<Rightarrow>
          if sint strlen > 10 * 1024 * 1024 then (None, r)
          else if streampos r + strlen > datalen r then (None, r)
          else (Some (if sint strlen > 0
                      then take (unat strlen) (drop (unat (streampos r)) (rd_data r)) else []),
                r\<lparr>streampos := streampos r + strlen\<rparr>))"

section \<open>Correctness of the writer\<close>

lemma wd_data_insert_end [simp]: "wd_data (insert_end bs w) = wd_data w @ bs"
  by (simp add: insert_end_def)

lemma write_at_end:
  "length bs = n \<Longrightarrow> write_at (length xs) bs (xs @ replicate n 0) = Some (xs @ bs)"
  by (simp add: write_at_def)

lemma addVarInt_eq: "addVarInt ta w = Some (insert_end (sqlite3PutVarint ta) w)"
  by (simp add: addVarInt_def Let_def write_at_end length_sqlite3PutVarint insert_end_def)

lemma addString2_eq:
  "addString2 ta w = Some (insert_end (sqlite3PutVarint (of_nat (length ta)) @ ta) w)"
  by (simp add: addString2_def addVarInt_eq insert_end_def)

lemma addString_eq:
  "addString be ta w = insert_end (le_bytes 4 (of_nat (length ta) :: u32) @ ta) w"
  by (simp add: addString_def addUInt_def insert_end_def Let_def)

section \<open>Correctness of the reader\<close>

definition rd_limit :: nat where
  "rd_limit = 100 * 1024 * 1024"

definition rd_inv :: "crdata \<Rightarrow> bool" where
  "rd_inv r \<longleftrightarrow> unat (streampos r) \<le> unat (datalen r) \<and> unat (datalen r) \<le> rd_limit
     \<and> unat (datalen r) \<le> length (rd_data r)"

definition unread :: "crdata \<Rightarrow> byte list" where
  "unread r = drop (unat (streampos r)) (take (unat (datalen r)) (rd_data r))"

definition advance :: "nat \<Rightarrow> crdata \<Rightarrow> crdata" where
  "advance n r = r\<lparr>streampos := streampos r + of_nat n\<rparr>"

lemma length_unread:
  "rd_inv r \<Longrightarrow> length (unread r) = unat (datalen r) - unat (streampos r)"
  by (simp add: rd_inv_def unread_def)

lemma unread_eq:
  "rd_inv r \<Longrightarrow> unread r = take (length (unread r)) (drop (unat (streampos r)) (rd_data r))"
  by (simp add: length_unread) (simp add: unread_def drop_take)

lemma unat_plus_small:
  "unat (a :: u64) + n < 2 ^ 64 \<Longrightarrow> unat (a + of_nat n) = unat a + n"
  by (simp add: unat_word_ariths unat_of_nat)

lemma rd_inv_advance:
  assumes "rd_inv r" and "n \<le> length (unread r)"
  shows "rd_inv (advance n r)" and "unread (advance n r) = drop n (unread r)"
proof -
  have "unat (streampos r + of_nat n) = unat (streampos r) + n"
    using assms by (intro unat_plus_small) (auto simp: rd_inv_def length_unread rd_limit_def)
  with assms show "rd_inv (advance n r)" "unread (advance n r) = drop n (unread r)"
    by (auto simp: rd_inv_def unread_def advance_def length_unread add.commute)
qed

lemma getRaw_eq:
  assumes inv: "rd_inv r" and n: "n \<le> 2 ^ 63"
  shows "getRaw n r =
    (if n \<le> length (unread r) then (Some (take n (unread r)), advance n r) else (None, r))"
proof -
  have u: "unat (streampos r + of_nat n) = unat (streampos r) + n"
    using assms by (intro unat_plus_small) (auto simp: rd_inv_def rd_limit_def)
  have "streampos r + of_nat n > datalen r \<longleftrightarrow> \<not> n \<le> length (unread r)"
    using inv by (simp add: word_less_nat_alt u length_unread rd_inv_def) arith
  moreover have "take n (drop (unat (streampos r)) (rd_data r)) = take n (unread r)"
    if "n \<le> length (unread r)"
    using unread_eq [OF inv] that by (metis min.absorb1 take_take)
  ultimately show ?thesis
    by (simp add: getRaw_def advance_def)
qed

lemma getLeft_eq: "rd_inv r \<Longrightarrow> unat (getLeft r) = length (unread r)"
proof -
  assume inv: "rd_inv r"
  then have "unat (datalen r - streampos r) = unat (datalen r) - unat (streampos r)"
    by (simp add: rd_inv_def word_le_nat_alt unat_sub)
  moreover have "unat (datalen r) - unat (streampos r) < 2 ^ 32"
    using inv by (auto simp: rd_inv_def rd_limit_def intro: le_less_trans [OF diff_le_self])
  ultimately show ?thesis
    using inv by (simp add: getLeft_def length_unread unsigned_ucast_eq take_bit_nat_eq_self_iff)
qed

lemma sqlite3GetVarint_take:
  "m \<le> length p \<Longrightarrow> sqlite3GetVarint (take m p) m = sqlite3GetVarint p m"
  by (simp add: sqlite3GetVarint_def Let_def)

lemma getVarInt_eq:
  assumes inv: "rd_inv r"
  shows "getVarInt r =
    (case sqlite3GetVarint (unread r) (length (unread r)) of
       (b, v) \<Rightarrow> (if b \<noteq> 0 then v else None, advance b r))"
proof -
  have "take (length (unread r)) (drop (unat (streampos r)) (rd_data r)) = unread r"
    by (rule unread_eq [OF inv, symmetric])
  moreover have "length (unread r) \<le> length (drop (unat (streampos r)) (rd_data r))"
    using inv by (auto simp: length_unread rd_inv_def intro: diff_le_mono)
  ultimately show ?thesis
    using sqlite3GetVarint_take [of "length (unread r)" "drop (unat (streampos r)) (rd_data r)"]
    by (simp add: getVarInt_def getLeft_eq [OF inv] advance_def split: prod.splits)
qed

lemma sqlite3GetVarint_consumed:
  "sqlite3GetVarint p m = (b, v) \<Longrightarrow> b \<le> m \<and> b \<le> 9 \<and> (b = 0 \<longleftrightarrow> v = None)"
  by (auto simp: sqlite3GetVarint_def Let_def split: if_splits)

section \<open>The codec contract\<close>

text \<open>
  What a pair of an \<open>add\<close> and a \<open>get\<close> operation promises: the writer appends a fixed encoding
  of the value, and the reader, placed in front of that encoding, returns the value and stops
  right behind it, whatever follows.
\<close>

locale wire_codec =
  fixes put :: "'a \<Rightarrow> cwdata \<Rightarrow> cwdata option"
    and get :: "crdata \<Rightarrow> 'a option \<times> crdata"
    and bytes :: "'a \<Rightarrow> byte list"
    and ok :: "'a \<Rightarrow> bool"
  assumes put_bytes: "put x w = Some (insert_end (bytes x) w)"
    and get_bytes: "rd_inv r \<Longrightarrow> ok x \<Longrightarrow> unread r = bytes x @ rest \<Longrightarrow>
      get r = (Some x, advance (length (bytes x)) r)"
begin

lemma get_put:
  assumes "rd_inv r" and "ok x" and "unread r = bytes x @ rest"
  obtains r' where "get r = (Some x, r')" and "rd_inv r'" and "unread r' = rest"
  using assms get_bytes rd_inv_advance [of r "length (bytes x)"] by auto

end

lemma getRaw_append:
  assumes "rd_inv r" and "unread r = bs @ rest" and "length bs = n" and "n \<le> 2 ^ 63"
  shows "getRaw n r = (Some bs, advance n r)"
  using assms by (simp add: getRaw_eq)

lemma wire_codec_raw:
  assumes "\<And>x. length (bytes x) = n" and "n \<le> 2 ^ 63"
    and "\<And>x w. put x w = Some (insert_end (bytes x) w)"
    and "\<And>r. get r = (case getRaw n r of (bs, r) \<Rightarrow> (map_option f bs, r))"
    and "\<And>x. f (bytes x) = x"
  shows "wire_codec put get bytes (\<lambda>_. True)"
proof
  show "put x w = Some (insert_end (bytes x) w)" for x w by (rule assms(3))
next
  fix r x rest
  assume "rd_inv r" and "unread r = bytes x @ rest"
  then have "getRaw n r = (Some (bytes x), advance n r)"
    using assms(1,2) by (rule getRaw_append)
  then show "get r = (Some x, advance (length (bytes x)) r)"
    by (simp add: assms)
qed

interpretation int32: wire_codec "\<lambda>x w. Some (addInt bw x w)" "getInt br" "le_bytes 4" "\<lambda>_. True" for bw br
  by (rule wire_codec_raw [where f = "\<lambda>m. little_endian32 br (of_mem br m)"])
    (simp_all add: addInt_def getInt_def)

interpretation uint32: wire_codec "\<lambda>x w. Some (addUInt bw x w)" "getUInt br" "le_bytes 4" "\<lambda>_. True" for bw br
  by (rule wire_codec_raw [where f = "\<lambda>m. little_endian32 br (of_mem br m)"])
    (simp_all add: addUInt_def getUInt_def)

interpretation int64: wire_codec "\<lambda>x w. Some (addInt64 bw x w)" "getInt64 br" "le_bytes 8" "\<lambda>_. True" for bw br
  by (rule wire_codec_raw [where f = "\<lambda>m. little_endian64 br (of_mem br m)"])
    (simp_all add: addInt64_def getInt64_def)

interpretation uint64: wire_codec "\<lambda>x w. Some (addUInt64 bw x w)" "getInt64 br" "le_bytes 8" "\<lambda>_. True" for bw br
  by (rule wire_codec_raw [where f = "\<lambda>m. little_endian64 br (of_mem br m)"])
    (simp_all add: addUInt64_def getInt64_def)

interpretation float32: wire_codec "\<lambda>x w. Some (addFloat bw x w)" "getFloat br" "le_bytes 4" "\<lambda>_. True" for bw br
  by (rule wire_codec_raw [where f = "\<lambda>m. little_endian32 br (of_mem br m)"])
    (simp_all add: addFloat_def getFloat_def)

interpretation float64: wire_codec "\<lambda>x w. Some (addDouble bw x w)" "getDouble br" "le_bytes 8" "\<lambda>_. True" for bw br
  by (rule wire_codec_raw [where f = "\<lambda>m. little_endian64 br (of_mem br m)"])
    (simp_all add: addDouble_def getDouble_def)

interpretation uint16: wire_codec "\<lambda>x w. Some (addUShort bw x w)" "getUShort br" "le_bytes 2" "\<lambda>_. True" for bw br
  by (rule wire_codec_raw [where f = "\<lambda>m. little_endian16 br (of_mem br m)"])
    (simp_all add: addUShort_def getUShort_def)

interpretation char8: wire_codec "\<lambda>x w. Some (addChar x w)" getChar "\<lambda>x. [x]" "\<lambda>_. True"
  by (rule wire_codec_raw [where f = "\<lambda>m. m ! 0"])
    (simp_all add: addChar_def getChar_def)

interpretation uchar8: wire_codec "\<lambda>x w. Some (addUChar x w)" getUChar "\<lambda>x. [x]" "\<lambda>_. True"
  by (rule wire_codec_raw [where f = "\<lambda>m. m ! 0"])
    (simp_all add: addUChar_def getUChar_def)

text \<open>A pointer is copied in the host's own byte order, so both ends must be the same host.\<close>

interpretation voidptr: wire_codec "\<lambda>x w. Some (addVoidPtr be x w)" "getVoidPtr be" "mem_of be 8" "\<lambda>_. True" for be
  by (rule wire_codec_raw [where f = "of_mem be"])
    (simp_all add: addVoidPtr_def getVoidPtr_def of_mem_mem_of)

interpretation varint: wire_codec addVarInt getVarInt sqlite3PutVarint "\<lambda>_. True"
proof
  fix x w
  show "addVarInt x w = Some (insert_end (sqlite3PutVarint x) w)" by (rule addVarInt_eq)
next
  fix r x rest
  assume inv: "rd_inv r" and u: "unread r = sqlite3PutVarint x @ rest"
  have "sqlite3GetVarint (unread r) (length (unread r)) = (sqlite3VarintLen x, Some x)"
    by (rule sqlite3GetVarint_Put) (simp_all add: u nth_append length_sqlite3PutVarint)
  then show "getVarInt r = (Some x, advance (length (sqlite3PutVarint x)) r)"
    using sqlite3VarintLen_bounds [of x]
    by (simp add: getVarInt_eq [OF inv] length_sqlite3PutVarint)
qed

definition str_limit :: nat where
  "str_limit = 10 * 1024 * 1024"

lemma advance_advance: "advance m (advance n r) = advance (n + m) r"
  by (simp add: advance_def)

lemma get_body:
  assumes "rd_inv r" and "unread r = s @ rest"
  shows "streampos r + of_nat (length s) \<le> datalen r"
    and "take (length s) (drop (unat (streampos r)) (rd_data r)) = s"
proof -
  have "unat (streampos r + of_nat (length s)) = unat (streampos r) + length s"
    using assms by (intro unat_plus_small)
      (auto simp: rd_inv_def rd_limit_def dest!: arg_cong [of _ _ length] simp: length_unread)
  moreover have "unat (streampos r) + length s \<le> unat (datalen r)"
    using assms length_unread [of r] by (auto simp: rd_inv_def)
  ultimately show "streampos r + of_nat (length s) \<le> datalen r"
    by (simp add: word_le_nat_alt)
  show "take (length s) (drop (unat (streampos r)) (rd_data r)) = s"
    using unread_eq [OF assms(1)] assms(2)
    by (metis append_eq_conv_conj take_take length_append min.absorb1 le_add1)
qed

lemma of_nat_str:
  assumes "n \<le> str_limit"
  shows "unat (of_nat n :: u32) = n" and "unat (of_nat n :: u64) = n"
    and "ucast (of_nat n :: u32) = (of_nat n :: u64)"
    and "sint (of_nat n :: u64) = int n"
proof -
  from assms have n: "n < 2 ^ 31" by (simp add: str_limit_def)
  then show 1: "unat (of_nat n :: u32) = n" "unat (of_nat n :: u64) = n"
    by (simp_all add: unat_of_nat)
  then show "ucast (of_nat n :: u32) = (of_nat n :: u64)"
    using n by (simp add: word_unat_eq_iff unsigned_ucast_eq take_bit_nat_eq_self_iff)
  show "sint (of_nat n :: u64) = int n"
    using n by (simp add: signed_of_nat signed_take_bit_int_eq_self)
qed

interpretation str: wire_codec "\<lambda>x w. Some (addString bw x w)" "getStr br"
  "\<lambda>s. le_bytes 4 (of_nat (length s) :: u32) @ s" "\<lambda>s. length s \<le> str_limit" for bw br
proof
  fix s :: "byte list" and w
  show "Some (addString bw s w)
      = Some (insert_end (le_bytes 4 (of_nat (length s) :: u32) @ s) w)"
    by (simp add: addString_eq)
next
  fix r and s rest :: "byte list"
  let ?n = "of_nat (length s) :: u32"
  assume inv: "rd_inv r" and len: "length s \<le> str_limit"
    and u: "unread r = (le_bytes 4 ?n @ s) @ rest"
  note n = of_nat_str [OF len]
  from u have "unread r = le_bytes 4 ?n @ s @ rest" by simp
  with inv obtain r' where g: "getUInt br r = (Some ?n, advance 4 r)"
    and inv': "rd_inv (advance 4 r)" and u': "unread (advance 4 r) = s @ rest"
    using uint32.get_bytes [of r] rd_inv_advance [of r 4] by auto
  have "\<not> ?n > 10 * 1024 * 1024"
    using len by (simp add: word_less_nat_alt n(1) str_limit_def)
  then show "getStr br r =
      (Some s, advance (length (le_bytes 4 ?n @ s)) r)"
    using get_body [OF inv' u'] n
    by (auto simp: getStr_def g advance_def [of "length s"] advance_advance [of "length s" 4, symmetric]
        word_gt_0_no not_less word_gt_0)
qed

interpretation str2: wire_codec addString2 getStr2
  "\<lambda>s. sqlite3PutVarint (of_nat (length s)) @ s" "\<lambda>s. length s \<le> str_limit"
proof
  fix s :: "byte list" and w
  show "addString2 s w = Some (insert_end (sqlite3PutVarint (of_nat (length s)) @ s) w)"
    by (rule addString2_eq)
next
  fix r and s rest :: "byte list"
  let ?n = "of_nat (length s) :: u64"
  let ?k = "length (sqlite3PutVarint ?n)"
  assume inv: "rd_inv r" and len: "length s \<le> str_limit"
    and u: "unread r = (sqlite3PutVarint ?n @ s) @ rest"
  note n = of_nat_str [OF len]
  from u have "unread r = sqlite3PutVarint ?n @ s @ rest" by simp
  with inv have g: "getVarInt r = (Some ?n, advance ?k r)"
    and inv': "rd_inv (advance ?k r)" and u': "unread (advance ?k r) = s @ rest"
    using varint.get_bytes [of r] rd_inv_advance [of r ?k] by auto
  show "getStr2 r = (Some s, advance (length (sqlite3PutVarint ?n @ s)) r)"
    using get_body [OF inv' u'] n len
    by (auto simp: getStr2_def g advance_def [of "length s"] advance_advance [of "length s" ?k, symmetric]
        str_limit_def)
qed

section \<open>Whole messages\<close>

text \<open>
  A message is written field by field and read field by field by the peer, who knows the field
  types. \<open>bw\<close> and \<open>br\<close> are the byte orders of the two hosts.
\<close>

datatype wire_item =
    W_Int u32 | W_UInt u32 | W_Int64 u64 | W_Float u32 | W_Double u64 | W_UShort u16
  | W_Char byte | W_UChar byte | W_VarInt u64 | W_Str "byte list" | W_Str2 "byte list"

datatype wire_type =
    T_Int | T_UInt | T_Int64 | T_Float | T_Double | T_UShort
  | T_Char | T_UChar | T_VarInt | T_Str | T_Str2

fun wire_type_of :: "wire_item \<Rightarrow> wire_type" where
  "wire_type_of (W_Int _) = T_Int"
| "wire_type_of (W_UInt _) = T_UInt"
| "wire_type_of (W_Int64 _) = T_Int64"
| "wire_type_of (W_Float _) = T_Float"
| "wire_type_of (W_Double _) = T_Double"
| "wire_type_of (W_UShort _) = T_UShort"
| "wire_type_of (W_Char _) = T_Char"
| "wire_type_of (W_UChar _) = T_UChar"
| "wire_type_of (W_VarInt _) = T_VarInt"
| "wire_type_of (W_Str _) = T_Str"
| "wire_type_of (W_Str2 _) = T_Str2"

fun write_item :: "bool \<Rightarrow> wire_item \<Rightarrow> cwdata \<Rightarrow> cwdata option" where
  "write_item bw (W_Int x) w = Some (addInt bw x w)"
| "write_item bw (W_UInt x) w = Some (addUInt bw x w)"
| "write_item bw (W_Int64 x) w = Some (addInt64 bw x w)"
| "write_item bw (W_Float x) w = Some (addFloat bw x w)"
| "write_item bw (W_Double x) w = Some (addDouble bw x w)"
| "write_item bw (W_UShort x) w = Some (addUShort bw x w)"
| "write_item bw (W_Char x) w = Some (addChar x w)"
| "write_item bw (W_UChar x) w = Some (addUChar x w)"
| "write_item bw (W_VarInt x) w = addVarInt x w"
| "write_item bw (W_Str x) w = Some (addString bw x w)"
| "write_item bw (W_Str2 x) w = addString2 x w"

definition read_as :: "('a \<Rightarrow> wire_item) \<Rightarrow> 'a option \<times> crdata \<Rightarrow> wire_item option \<times> crdata" where
  "read_as c res = (map_option c (fst res), snd res)"

fun read_item :: "bool \<Rightarrow> wire_type \<Rightarrow> crdata \<Rightarrow> wire_item option \<times> crdata" where
  "read_item br T_Int r = read_as W_Int (getInt br r)"
| "read_item br T_UInt r = read_as W_UInt (getUInt br r)"
| "read_item br T_Int64 r = read_as W_Int64 (getInt64 br r)"
| "read_item br T_Float r = read_as W_Float (getFloat br r)"
| "read_item br T_Double r = read_as W_Double (getDouble br r)"
| "read_item br T_UShort r = read_as W_UShort (getUShort br r)"
| "read_item br T_Char r = read_as W_Char (getChar r)"
| "read_item br T_UChar r = read_as W_UChar (getUChar r)"
| "read_item br T_VarInt r = read_as W_VarInt (getVarInt r)"
| "read_item br T_Str r = read_as W_Str (getStr br r)"
| "read_item br T_Str2 r = read_as W_Str2 (getStr2 r)"

fun write_items :: "bool \<Rightarrow> wire_item list \<Rightarrow> cwdata \<Rightarrow> cwdata option" where
  "write_items bw [] w = Some w"
| "write_items bw (x # xs) w =
     (case write_item bw x w of None \<Rightarrow> None | Some w \<Rightarrow> write_items bw xs w)"

fun read_items :: "bool \<Rightarrow> wire_type list \<Rightarrow> crdata \<Rightarrow> wire_item list option \<times> crdata" where
  "read_items br [] r = (Some [], r)"
| "read_items br (t # ts) r =
     (case read_item br t r of
        (None, r) \<Rightarrow> (None, r)
      | (Some x, r) \<Rightarrow>
          (case read_items br ts r of (xs, r) \<Rightarrow> (map_option ((#) x) xs, r)))"

fun item_ok :: "wire_item \<Rightarrow> bool" where
  "item_ok (W_Str s) = (length s \<le> str_limit)"
| "item_ok (W_Str2 s) = (length s \<le> str_limit)"
| "item_ok _ = True"

fun item_bytes :: "wire_item \<Rightarrow> byte list" where
  "item_bytes (W_Int x) = le_bytes 4 x"
| "item_bytes (W_UInt x) = le_bytes 4 x"
| "item_bytes (W_Int64 x) = le_bytes 8 x"
| "item_bytes (W_Float x) = le_bytes 4 x"
| "item_bytes (W_Double x) = le_bytes 8 x"
| "item_bytes (W_UShort x) = le_bytes 2 x"
| "item_bytes (W_Char x) = [x]"
| "item_bytes (W_UChar x) = [x]"
| "item_bytes (W_VarInt x) = sqlite3PutVarint x"
| "item_bytes (W_Str s) = le_bytes 4 (of_nat (length s) :: u32) @ s"
| "item_bytes (W_Str2 s) = sqlite3PutVarint (of_nat (length s)) @ s"

lemma write_item_eq: "write_item bw x w = Some (insert_end (item_bytes x) w)"
  by (cases x)
    (simp_all add: addInt_def addUInt_def addInt64_def addFloat_def addDouble_def addUShort_def
      addChar_def addUChar_def addVarInt_eq addString_eq addString2_eq)

lemma insert_end_insert_end: "insert_end b (insert_end a w) = insert_end (a @ b) w"
  by (simp add: insert_end_def)

lemma insert_end_Nil: "insert_end [] w = w"
  by (simp add: insert_end_def)

lemma write_items_eq:
  "write_items bw xs w = Some (insert_end (concat (map item_bytes xs)) w)"
  by (induction xs arbitrary: w)
    (simp_all add: write_item_eq insert_end_insert_end insert_end_Nil)

lemma read_item_eq:
  assumes "rd_inv r" and "item_ok x" and "unread r = item_bytes x @ rest"
  shows "read_item br (wire_type_of x) r = (Some x, advance (length (item_bytes x)) r)"
  using assms
  by (cases x)
    (simp_all add: read_as_def int32.get_bytes uint32.get_bytes int64.get_bytes
      float32.get_bytes float64.get_bytes uint16.get_bytes char8.get_bytes uchar8.get_bytes
      varint.get_bytes str.get_bytes str2.get_bytes)

lemma read_items_eq:
  assumes "rd_inv r" and "list_all item_ok xs"
    and "unread r = concat (map item_bytes xs) @ rest"
  shows "\<exists>r'. read_items br (map wire_type_of xs) r = (Some xs, r') \<and> rd_inv r' \<and>
    unread r' = rest"
  using assms
proof (induction xs arbitrary: r)
  case Nil
  then show ?case by simp
next
  case (Cons x xs)
  let ?r = "advance (length (item_bytes x)) r"
  have "unread r = item_bytes x @ concat (map item_bytes xs) @ rest"
    using Cons.prems(3) by simp
  then have "read_item br (wire_type_of x) r = (Some x, ?r)" "rd_inv ?r"
    "unread ?r = concat (map item_bytes xs) @ rest"
    using Cons.prems(1,2) read_item_eq rd_inv_advance [of r "length (item_bytes x)"] by auto
  with Cons.IH [of ?r] Cons.prems(2) show ?case by auto
qed

lemma cr_set_start:
  assumes "length c \<le> rd_limit"
  shows "rd_inv (cr_set c (of_nat (length c)) pCopy)"
    and "unread (cr_set c (of_nat (length c)) pCopy) = c"
proof -
  have u: "unat (of_nat (length c) :: u64) = length c"
    using assms by (simp add: rd_limit_def unat_of_nat)
  have "min (100 * 1024 * 1024) (of_nat (length c) :: u64) = of_nat (length c)"
    using assms by (simp add: rd_limit_def min_def word_le_nat_alt u)
  with u assms show "rd_inv (cr_set c (of_nat (length c)) pCopy)"
    "unread (cr_set c (of_nat (length c)) pCopy) = c"
    by (simp_all add: cr_set_def rd_inv_def unread_def Let_def)
qed

section \<open>Reading never leaves the buffer\<close>

text \<open>What every getter promises even on hostile input.\<close>

locale safe_getter =
  fixes get :: "crdata \<Rightarrow> 'a option \<times> crdata"
  assumes keeps_inv: "rd_inv r \<Longrightarrow> rd_inv (snd (get r))"
    and keeps_buffer: "rd_data (snd (get r)) = rd_data r"
    and keeps_len: "datalen (snd (get r)) = datalen r"
begin

lemma read_as_safe: "safe_getter (\<lambda>r. read_as c (get r))"
  using keeps_inv keeps_buffer keeps_len by unfold_locales (simp_all add: read_as_def)

end

lemma safe_getter_raw:
  assumes "\<And>r. snd (get r) = snd (getRaw n r)" and "n \<le> 2 ^ 63"
  shows "safe_getter get"
proof
  show "rd_inv (snd (get r))" if "rd_inv r" for r
    using that assms rd_inv_advance [of r n] by (simp add: getRaw_eq)
qed (simp_all add: assms(1) getRaw_def)

interpretation safe_int: safe_getter "getInt be" for be
  by (rule safe_getter_raw [where n = 4]) (simp_all add: getInt_def split: prod.splits)

interpretation safe_uint: safe_getter "getUInt be" for be
  by (rule safe_getter_raw [where n = 4]) (simp_all add: getUInt_def split: prod.splits)

interpretation safe_int64: safe_getter "getInt64 be" for be
  by (rule safe_getter_raw [where n = 8]) (simp_all add: getInt64_def split: prod.splits)

interpretation safe_float: safe_getter "getFloat be" for be
  by (rule safe_getter_raw [where n = 4]) (simp_all add: getFloat_def split: prod.splits)

interpretation safe_double: safe_getter "getDouble be" for be
  by (rule safe_getter_raw [where n = 8]) (simp_all add: getDouble_def split: prod.splits)

interpretation safe_ushort: safe_getter "getUShort be" for be
  by (rule safe_getter_raw [where n = 2]) (simp_all add: getUShort_def split: prod.splits)

interpretation safe_char: safe_getter getChar
  by (rule safe_getter_raw [where n = 1]) (simp_all add: getChar_def split: prod.splits)

interpretation safe_uchar: safe_getter getUChar
  by (rule safe_getter_raw [where n = 1]) (simp_all add: getUChar_def split: prod.splits)

interpretation safe_varint: safe_getter getVarInt
proof
  show "rd_inv (snd (getVarInt r))" if "rd_inv r" for r
    using that rd_inv_advance [OF that] sqlite3GetVarint_consumed
    by (auto simp: getVarInt_eq split: prod.splits)
qed (simp_all add: getVarInt_def split: prod.splits)

lemma rd_inv_jump:
  "rd_inv r \<Longrightarrow> \<not> streampos r + d > datalen r \<Longrightarrow> rd_inv (r\<lparr>streampos := streampos r + d\<rparr>)"
  by (simp add: rd_inv_def not_less word_le_nat_alt)

interpretation safe_str: safe_getter "getStr be" for be
proof
  show "rd_inv (snd (getStr be r))" if "rd_inv r" for r
    using that safe_uint.keeps_inv [OF that, of be]
    by (auto simp: getStr_def rd_inv_jump split: prod.splits option.splits)
  show "rd_data (snd (getStr be r)) = rd_data r" for r
    using safe_uint.keeps_buffer [of be r] by (auto simp: getStr_def split: prod.splits option.splits)
  show "datalen (snd (getStr be r)) = datalen r" for r
    using safe_uint.keeps_len [of be r] by (auto simp: getStr_def split: prod.splits option.splits)
qed

interpretation safe_str2: safe_getter getStr2
proof
  show "rd_inv (snd (getStr2 r))" if "rd_inv r" for r
    using that safe_varint.keeps_inv [OF that]
    by (auto simp: getStr2_def rd_inv_jump split: prod.splits option.splits)
  show "rd_data (snd (getStr2 r)) = rd_data r" for r
    using safe_varint.keeps_buffer [of r] by (auto simp: getStr2_def split: prod.splits option.splits)
  show "datalen (snd (getStr2 r)) = datalen r" for r
    using safe_varint.keeps_len [of r] by (auto simp: getStr2_def split: prod.splits option.splits)
qed

lemma read_item_safe: "safe_getter (read_item br t)"
  by (cases t)
    (simp_all add: read_item.simps [abs_def] safe_int.read_as_safe safe_uint.read_as_safe safe_int64.read_as_safe
      safe_float.read_as_safe safe_double.read_as_safe safe_ushort.read_as_safe
      safe_char.read_as_safe safe_uchar.read_as_safe safe_varint.read_as_safe
      safe_str.read_as_safe safe_str2.read_as_safe)


lemma read_items_safe:
  assumes "rd_inv r"
  shows "rd_inv (snd (read_items br ts r)) \<and> rd_data (snd (read_items br ts r)) = rd_data r \<and>
    datalen (snd (read_items br ts r)) = datalen r"
  using assms
proof (induction ts arbitrary: r)
  case Nil
  then show ?case by simp
next
  case (Cons t ts)
  obtain x r' where r': "read_item br t r = (x, r')" by fastforce
  with safe_getter.keeps_inv [OF read_item_safe Cons.prems, of br t]
    safe_getter.keeps_buffer [OF read_item_safe, of br t r]
    safe_getter.keeps_len [OF read_item_safe, of br t r]
  have "rd_inv r'" "rd_data r' = rd_data r" "datalen r' = datalen r" by simp_all
  with Cons.IH [of r'] r' show ?case
    by (auto split: option.splits prod.splits)
qed

text \<open>
  A negative length in front of a \<open>getStr2\<close> string passes all the checks as long as it does not
  reach back beyond the start of the buffer: the wrapped sum is a smaller cursor.
\<close>

lemma getStr2_negative:
  assumes "rd_inv r" and "getVarInt r = (Some n, r')" and "sint n < 0"
    and "unat (- n) \<le> unat (streampos r')"
  shows "getStr2 r = (Some [], r'\<lparr>streampos := streampos r' + n\<rparr>)"
    and "unat (streampos (snd (getStr2 r))) = unat (streampos r') - unat (- n)"
proof -
  have "streampos r' + n = streampos r' - (- n)" by simp
  then have u: "unat (streampos r' + n) = unat (streampos r') - unat (- n)"
    using assms(4) by (simp only: unat_sub word_le_nat_alt)
  have "rd_inv r'" using safe_varint.keeps_inv [OF assms(1)] assms(2) by simp
  then have "\<not> streampos r' + n > datalen r'"
    by (auto simp: word_less_nat_alt u rd_inv_def)
  with assms(2,3) show *: "getStr2 r = (Some [], r'\<lparr>streampos := streampos r' + n\<rparr>)"
    by (simp add: getStr2_def)
  show "unat (streampos (snd (getStr2 r))) = unat (streampos r') - unat (- n)"
    by (simp add: * u)
qed

lemma sqlite3GetVarint_prefix:
  assumes "m < sqlite3VarintLen v"
  shows "sqlite3GetVarint (sqlite3PutVarint v @ rest) m = (0, None)"
proof (rule sqlite3GetVarint_truncated)
  show "m \<le> 8" using assms sqlite3VarintLen_bounds [of v] by simp
  show "\<forall>i<m. bit ((sqlite3PutVarint v @ rest) ! i) 7"
  proof (cases "drop_bit 56 v = 0")
    case True
    with assms show ?thesis
      using sqlite3PutVarint_small [OF True] sqlite3VarintLen_small [OF True]
      by (auto simp: nth_append)
  next
    case False
    with assms show ?thesis
      by (auto simp: sqlite3PutVarint_big sqlite3VarintLen_big nth_append simp del: upt_Suc)
  qed
qed

section \<open>Properties\<close>

text \<open>
  C22: every 64-bit value survives the variable-length encoding: the decoder returns it and
  consumes exactly the bytes written, between 1 and 9 and as many as \<open>sqlite3VarintLen\<close>
  announces, whatever follows in the buffer; and with any smaller number of bytes available it
  reports failure, so no encoding is a proper prefix of another.
\<close>

theorem varint_roundtrip:
  "length (sqlite3PutVarint v) = sqlite3VarintLen v \<and> sqlite3VarintLen v \<in> {1..9}
   \<and> sqlite3GetVarint (sqlite3PutVarint v @ rest) (sqlite3VarintLen v + length rest)
       = (sqlite3VarintLen v, Some v)
   \<and> sqlite3GetVarint (sqlite3PutVarint v @ rest) (min m (sqlite3VarintLen v - 1)) = (0, None)"
  using sqlite3VarintLen_bounds [of v]
  by (auto simp: length_sqlite3PutVarint nth_append intro!: sqlite3GetVarint_Put
      sqlite3GetVarint_prefix)

text \<open>
  C20: a message written with the \<open>add\<close> operations of a \<open>CWData\<close> is always written (the size
  assertion of \<open>addVarInt\<close> never fails and nothing is written past the vector), and reading it
  back with the matching \<open>get\<close> operations, on a host of either byte order, returns every field
  and ends exactly at the end of the message, provided the strings are within the 10 MiB and the
  message within the 100 MiB the reader accepts.
\<close>

theorem wire_message_roundtrip:
  assumes "list_all item_ok items"
    and "length (concat (map item_bytes items)) \<le> rd_limit"
  shows "\<exists>w r. write_items bw items cw_empty = Some w \<and>
    read_items br (map wire_type_of items) (cr_set (wd_data w) (getDataSize w) pCopy)
      = (Some items, r) \<and> unread r = []"
proof -
  let ?w = "insert_end (concat (map item_bytes items)) cw_empty"
  have d: "wd_data ?w = concat (map item_bytes items)"
    by (simp add: cw_empty_def)
  then have g: "getDataSize ?w = of_nat (length (concat (map item_bytes items)))"
    by (simp add: getDataSize_def)
  obtain r where "read_items br (map wire_type_of items)
      (cr_set (wd_data ?w) (getDataSize ?w) pCopy) = (Some items, r)" and "unread r = []"
    using read_items_eq [of _ items "[]" br, OF cr_set_start(1) [OF assms(2)] assms(1)]
    unfolding d g by (auto simp: cr_set_start(2) [OF assms(2)])
  then show ?thesis
    using write_items_eq by blast
qed

theorem wire_message_roundtrip_witness:
  "\<exists>w r. write_items False [W_Int 7, W_Str2 [1, 2, 3], W_VarInt (- 1), W_UShort 9] cw_empty = Some w \<and>
    read_items True (map wire_type_of [W_Int 7, W_Str2 [1, 2, 3], W_VarInt (- 1), W_UShort 9])
      (cr_set (wd_data w) (getDataSize w) False)
      = (Some [W_Int 7, W_Str2 [1, 2, 3], W_VarInt (- 1), W_UShort 9], r) \<and> unread r = []"
proof (rule wire_message_roundtrip)
  show "list_all item_ok [W_Int 7, W_Str2 [1, 2, 3], W_VarInt (- 1), W_UShort 9]"
    by (simp add: str_limit_def)
  show "length (concat (map item_bytes [W_Int 7, W_Str2 [1, 2, 3], W_VarInt (- 1), W_UShort 9]))
      \<le> rd_limit"
    using sqlite3VarintLen_bounds [of 3] sqlite3VarintLen_bounds [of "- 1"]
    by (simp add: length_sqlite3PutVarint rd_limit_def)
qed

text \<open>
  C23: whatever the bytes of a received message and whatever fields the program tries to read,
  including after failed reads, the cursor never passes the end of the data and the data never
  passes the end of the memory handed to the reader.
\<close>

theorem wire_reads_in_bounds:
  assumes "unat n \<le> length c"
  shows "unat (streampos (snd (read_items br ts (cr_set c n pCopy))))
      \<le> unat (datalen (snd (read_items br ts (cr_set c n pCopy))))
    \<and> unat (datalen (snd (read_items br ts (cr_set c n pCopy))))
      \<le> length (rd_data (snd (read_items br ts (cr_set c n pCopy))))"
proof -
  have "rd_inv (cr_set c n pCopy)"
    using assms by (auto simp: cr_set_def Let_def rd_inv_def rd_limit_def min_def word_le_nat_alt)
  then show ?thesis
    using read_items_safe [of "cr_set c n pCopy" br ts] unfolding rd_inv_def by blast
qed

theorem wire_reads_in_bounds_witness:
  "unat (streampos (snd (read_items True [T_Str2, T_Int] (cr_set [130, 1, 7] 3 False))))
      \<le> unat (datalen (snd (read_items True [T_Str2, T_Int] (cr_set [130, 1, 7] 3 False))))
    \<and> unat (datalen (snd (read_items True [T_Str2, T_Int] (cr_set [130, 1, 7] 3 False))))
      \<le> length (rd_data (snd (read_items True [T_Str2, T_Int] (cr_set [130, 1, 7] 3 False))))"
  by (rule wire_reads_in_bounds) simp

text \<open>
  C24: \<open>getStr2\<close> does not reject negative lengths. In front of the nine-byte encoding of -9 it
  reports success with the empty string and puts the cursor back where it was, so a loop that
  reads strings until the data is used up never ends on such a message.
\<close>

theorem getStr2_no_progress:
  assumes "rd_inv r" and "unread r = sqlite3PutVarint (- 9) @ rest"
  shows "getStr2 r = (Some [], r)"
proof -
  have len: "sqlite3VarintLen (- 9) = 9"
    by (rule sqlite3VarintLen_big) simp
  then have g: "getVarInt r = (Some (- 9), advance 9 r)"
    using varint.get_bytes [OF assms(1) _ assms(2)] by (simp add: length_sqlite3PutVarint)
  have "9 \<le> length (unread r)"
    by (simp add: assms(2) length_sqlite3PutVarint len)
  then have "unat (streampos r + 9) = unat (streampos r) + 9"
    using assms(1) unat_plus_small [of "streampos r" 9]
    by (simp add: rd_inv_def rd_limit_def)
  then have "unat (- (- 9) :: u64) \<le> unat (streampos (advance 9 r))"
    by (simp add: advance_def)
  with getStr2_negative(1) [OF assms(1) g] show ?thesis
    by (simp add: advance_def)
qed

theorem getStr2_no_progress_witness:
  "getStr2 (cr_set (sqlite3PutVarint (- 9)) 9 False) = (Some [], cr_set (sqlite3PutVarint (- 9)) 9 False)"
proof (rule getStr2_no_progress)
  have len: "length (sqlite3PutVarint (- 9)) = 9"
    unfolding length_sqlite3PutVarint by (rule sqlite3VarintLen_big) simp
  from len cr_set_start [of "sqlite3PutVarint (- 9)" False]
  show "rd_inv (cr_set (sqlite3PutVarint (- 9)) 9 False)"
    and "unread (cr_set (sqlite3PutVarint (- 9)) 9 False) = sqlite3PutVarint (- 9) @ []"
    by (simp_all add: rd_limit_def)
qed

end
