(* ===== verification/Decimal.thy ===== *)
theory Decimal
  imports Prelude
begin

text \<open>
  Decimal numbers in text: \<open>convert\<close> of \<open>stringtools.cpp\<close> (a stream insertion of an integer)
  and \<open>os_atoi64\<close> (\<open>strtoll\<close> in base 10). A \<open>std::string\<close> of text is a list of characters,
  one per byte; an \<open>int64\<close> is a 64-bit word read with \<open>sint\<close>.
\<close>

definition code :: "char \<Rightarrow> nat" where
  "code c = of_char c"

definition digit_char :: "nat \<Rightarrow> char" where
  "digit_char d = char_of (48 + d)"

definition is_digit :: "char \<Rightarrow> bool" where
  "is_digit c \<longleftrightarrow> 48 \<le> code c \<and> code c \<le> 57"

definition digit_val :: "char \<Rightarrow> int" where
  "digit_val c = int (code c) - 48"

fun show_nat :: "nat \<Rightarrow> string" where
  "show_nat n = (if n < 10 then [digit_char n] else show_nat (n div 10) @ [digit_char (n mod 10)])"

declare show_nat.simps [simp del]

definition show_int :: "int \<Rightarrow> string" where
  "show_int i = (if i < 0 then CHR ''-'' # show_nat (nat (- i)) else show_nat (nat i))"

text \<open>\<open>ss << i\<close> for \<open>int\<close>, \<open>long long\<close>, \<open>unsigned\<close> and \<open>size_t\<close> arguments.\<close>

definition convert_int :: "u32 \<Rightarrow> string" where
  "convert_int i = show_int (sint i)"

definition convert_int64 :: "u64 \<Rightarrow> string" where
  "convert_int64 i = show_int (sint i)"

definition convert_uint :: "u32 \<Rightarrow> string" where
  "convert_uint i = show_nat (unat i)"

definition convert_size_t :: "u64 \<Rightarrow> string" where
  "convert_size_t i = show_nat (unat i)"

definition convert_bool :: "bool \<Rightarrow> string" where
  "convert_bool b = (if b then ''true'' else ''false'')"

text \<open>\<open>strtoll(str, NULL, 10)\<close>: white space, an optional sign, digits, clamped to the range.\<close>

definition is_space :: "char \<Rightarrow> bool" where
  "is_space c \<longleftrightarrow> code c = 32 \<or> 9 \<le> code c \<and> code c \<le> 13"

fun digits_value :: "int \<Rightarrow> string \<Rightarrow> int" where
  "digits_value acc [] = acc"
| "digits_value acc (c # cs) =
     (if is_digit c then digits_value (10 * acc + digit_val c) cs else acc)"

definition clamp64 :: "int \<Rightarrow> int" where
  "clamp64 i = max (- (2 ^ 63)) (min (2 ^ 63 - 1) i)"

definition strtoll10 :: "string \<Rightarrow> int" where
  "strtoll10 s =
     (case dropWhile is_space s of
        [] \<Rightarrow> 0
      | c # cs \<Rightarrow>
          clamp64 (if c = CHR ''-'' then - digits_value 0 cs
                   else if c = CHR ''+'' then digits_value 0 cs
                   else digits_value 0 (c # cs)))"

definition os_atoi64 :: "string \<Rightarrow> u64" where
  "os_atoi64 s = word_of_int (strtoll10 s)"

section \<open>Printing and reading back\<close>

lemma code_digit_char: "d < 10 \<Longrightarrow> code (digit_char d) = 48 + d"
  by (simp add: code_def digit_char_def)

lemma digit_char_digit [simp]: "d < 10 \<Longrightarrow> is_digit (digit_char d)"
  by (simp add: is_digit_def code_digit_char)

lemma digit_val_digit_char [simp]: "d < 10 \<Longrightarrow> digit_val (digit_char d) = int d"
  by (simp add: digit_val_def code_digit_char)

lemma show_nat_digits: "\<forall>c \<in> set (show_nat n). is_digit c"
proof (induction n rule: show_nat.induct)
  case (1 n)
  then show ?case by (subst show_nat.simps) auto
qed

lemma show_nat_nonempty [simp]: "show_nat n \<noteq> []"
  by (subst show_nat.simps) simp

lemma digits_value_append:
  "\<forall>c \<in> set xs. is_digit c \<Longrightarrow> digits_value acc (xs @ ys) = digits_value (digits_value acc xs) ys"
  by (induction xs arbitrary: acc) auto

lemma digits_value_show_nat: "digits_value 0 (show_nat n) = int n"
proof (induction n rule: show_nat.induct)
  case (1 n)
  show ?case
  proof (cases "n < 10")
    case True
    then show ?thesis by (subst show_nat.simps) simp
  next
    case False
    with 1 have "digits_value 0 (show_nat (n div 10)) = int (n div 10)" by simp
    moreover have "10 * int (n div 10) + int (n mod 10) = int n"
      by (metis mult_div_mod_eq of_nat_add of_nat_mult of_nat_numeral)
    ultimately show ?thesis
      using False by (subst show_nat.simps) (simp add: digits_value_append show_nat_digits)
  qed
qed

lemma digits_value_stop: 
  "(\<forall>c cs. ys = c # cs \<longrightarrow> \<not> is_digit c) \<Longrightarrow> digits_value acc ys = acc"
  by (cases ys) auto

lemma digits_value_show_nat_stop:
  "(\<forall>c cs. ys = c # cs \<longrightarrow> \<not> is_digit c) \<Longrightarrow> digits_value 0 (show_nat n @ ys) = int n"
  by (simp add: digits_value_append show_nat_digits digits_value_show_nat digits_value_stop)

lemma digit_not_special:
  "is_digit c \<Longrightarrow> \<not> is_space c \<and> c \<noteq> CHR ''-'' \<and> c \<noteq> CHR ''+''"
  by (auto simp: is_digit_def is_space_def code_def)

lemma strtoll10_show_int:
  assumes "- (2 ^ 63) \<le> i" and "i < 2 ^ 63"
  shows "strtoll10 (show_int i) = i"
proof (cases "i < 0")
  case True
  have "strtoll10 (show_int i) = clamp64 (- digits_value 0 (show_nat (nat (- i))))"
    using True by (simp add: strtoll10_def show_int_def is_space_def code_def)
  with True assms show ?thesis
    by (simp add: digits_value_show_nat clamp64_def)
next
  case False
  obtain c cs where s: "show_nat (nat i) = c # cs"
    using show_nat_nonempty by (meson neq_Nil_conv)
  then have "is_digit c" using show_nat_digits [of "nat i"] by simp
  then have "strtoll10 (show_int i) = clamp64 (digits_value 0 (show_nat (nat i)))"
    using False by (simp add: strtoll10_def show_int_def s digit_not_special)
  with False assms show ?thesis
    by (simp add: digits_value_show_nat clamp64_def)
qed

lemma os_atoi64_convert [simp]: "os_atoi64 (convert_int64 i) = i"
proof -
  have "- (2 ^ 63) \<le> sint i" "sint i < 2 ^ 63"
    using sint_ge [of i] sint_less [of i] by simp_all
  then show ?thesis
    by (simp add: os_atoi64_def convert_int64_def strtoll10_show_int)
qed

lemma show_int_chars:
  "c \<in> set (show_int i) \<Longrightarrow> is_digit c \<or> c = CHR ''-''"
  using show_nat_digits by (auto simp: show_int_def split: if_splits)

lemma show_int_avoids:
  "\<not> is_digit c \<Longrightarrow> c \<noteq> CHR ''-'' \<Longrightarrow> c \<notin> set (show_int i)"
  using show_int_chars by blast

end
