(* ===== verification/String_Tools.thy ===== *)
theory String_Tools
  imports Decimal
begin

text \<open>
  The text helpers of \<open>stringtools.cpp\<close>: searching and cutting, SQL, URL-parameter and HTML
  escaping with their inverses, hexadecimal and base64 codecs, and the pretty printers. Loops over
  an index into a string that is edited in place become recursion on the characters to the right
  of the index. \<open>size_t\<close> positions are natural numbers, \<open>npos\<close> is \<open>None\<close>.
\<close>

section \<open>Searching and cutting\<close>

definition starts_with :: "string \<Rightarrow> string \<Rightarrow> bool" where
  "starts_with pat s \<longleftrightarrow> take (length pat) s = pat"

text \<open>\<open>std::string::find\<close>, from the start and from an offset.\<close>

fun str_find :: "string \<Rightarrow> string \<Rightarrow> nat option" where
  "str_find pat [] = (if pat = [] then Some 0 else None)"
| "str_find pat (c # cs) =
     (if starts_with pat (c # cs) then Some 0 else map_option Suc (str_find pat cs))"

definition str_find_from :: "string \<Rightarrow> string \<Rightarrow> nat \<Rightarrow> nat option" where
  "str_find_from pat s off =
     (if off \<le> length s then map_option ((+) off) (str_find pat (drop off s)) else None)"

definition substr :: "string \<Rightarrow> nat \<Rightarrow> nat \<Rightarrow> string" where
  "substr s pos n = take n (drop pos s)"

definition getafterinc :: "string \<Rightarrow> string \<Rightarrow> string" where
  "getafterinc str data = (case str_find str data of Some pos \<Rightarrow> drop pos data | None \<Rightarrow> [])"

definition getafter :: "string \<Rightarrow> string \<Rightarrow> string" where
  "getafter str data = drop (length str) (getafterinc str data)"

definition getbetween :: "string \<Rightarrow> string \<Rightarrow> string \<Rightarrow> string" where
  "getbetween s1 s2 data =
     (case str_find s1 data of
        None \<Rightarrow> []
      | Some off1 \<Rightarrow>
          let off1 = off1 + length s1;
              off2 = str_find_from s2 data off1;
              off2 = (if s2 = [CHR 0x0A]
                      then (case (str_find_from [CHR 0x0D, CHR 0x0A] data off1, off2) of
                              (Some off3, Some off2') \<Rightarrow> if off3 < off2' then Some off3 else off2
                            | (Some off3, None) \<Rightarrow> Some off3
                            | (None, _) \<Rightarrow> off2)
                      else off2)
          in (case off2 of None \<Rightarrow> [] | Some off2 \<Rightarrow> substr data off1 (off2 - off1)))"

definition strdelete :: "string \<Rightarrow> string \<Rightarrow> string" where
  "strdelete str data =
     (case str_find str data of
        None \<Rightarrow> data
      | Some off \<Rightarrow> take off data @ drop (off + length str) data)"

definition getuntil :: "string \<Rightarrow> string \<Rightarrow> string" where
  "getuntil str data = (case str_find str data of None \<Rightarrow> [] | Some off \<Rightarrow> take off data)"

definition getuntilinc :: "string \<Rightarrow> string \<Rightarrow> string" where
  "getuntilinc str data =
     (case str_find str data of None \<Rightarrow> [] | Some off \<Rightarrow> take (off + length str) data)"

text \<open>\<open>getline(line, str)\<close>: the loop with its line counter \<open>num\<close>.\<close>

fun getline_loop :: "nat \<Rightarrow> nat \<Rightarrow> string \<Rightarrow> string" where
  "getline_loop line num [] = []"
| "getline_loop line num (c # cs) =
     (if c = CHR 0x0A \<and> num = line then []
      else let num = (if c = CHR 0x0A then Suc num else num)
           in (if c \<noteq> CHR 0x0A \<and> c \<noteq> CHR 0x0D \<and> num = line then [c] else [])
              @ getline_loop line num cs)"

definition getline :: "nat \<Rightarrow> string \<Rightarrow> string" where
  "getline line str = getline_loop line 0 str"

definition linecount :: "string \<Rightarrow> nat" where
  "linecount str = length (filter (\<lambda>c. c = CHR 0x0A) str) + 1"

text \<open>
  \<open>ExtractFileName\<close> walks from the last character to the left; \<open>at_end\<close> tells whether it is still
  at the last character, where a separator is skipped instead of ending the walk.
\<close>

fun extract_name_loop :: "bool \<Rightarrow> string \<Rightarrow> string \<Rightarrow> string \<Rightarrow> string" where
  "extract_name_loop at_end seps [] filename = filename"
| "extract_name_loop at_end seps (c # cs) filename =
     (if c \<in> set seps \<and> \<not> at_end then filename
      else extract_name_loop False seps cs
             (if c \<noteq> CHR 0x00 \<and> c \<notin> set seps then c # filename else filename))"

definition ExtractFileName :: "string \<Rightarrow> string \<Rightarrow> string" where
  "ExtractFileName fulln separators = extract_name_loop True separators (rev fulln) []"

fun extract_path_loop :: "bool \<Rightarrow> string \<Rightarrow> string \<Rightarrow> string \<Rightarrow> string" where
  "extract_path_loop inside seps [] path = path"
| "extract_path_loop inside seps (c # cs) path =
     (if c \<in> set seps \<and> \<not> inside then extract_path_loop True seps cs path
      else extract_path_loop inside seps cs (if inside then c # path else path))"

definition ExtractFilePath :: "string \<Rightarrow> string \<Rightarrow> string" where
  "ExtractFilePath fulln separators = extract_path_loop False separators (tl (rev fulln)) []"

definition findextension :: "string \<Rightarrow> string" where
  "findextension pString = rev (takeWhile (\<lambda>c. c \<noteq> CHR ''.'') (rev pString))"

definition replaceonce :: "string \<Rightarrow> string \<Rightarrow> string \<Rightarrow> string" where
  "replaceonce tor tin data =
     (case str_find tor data of
        None \<Rightarrow> data
      | Some off \<Rightarrow> take off data @ tin @ drop (off + length tor) data)"

text \<open>
  \<open>Tokenize\<close>: a separator ends a token, two in a row give an empty one; the last token is kept
  only if it is not empty.
\<close>

fun tokenize_loop :: "string \<Rightarrow> string \<Rightarrow> string \<Rightarrow> string list" where
  "tokenize_loop seps cur [] = (if cur \<noteq> [] then [cur] else [])"
| "tokenize_loop seps cur (c # cs) =
     (if c \<in> set seps then cur # tokenize_loop seps [] cs
      else tokenize_loop seps (cur @ [c]) cs)"

definition Tokenize :: "string \<Rightarrow> string \<Rightarrow> string list" where
  "Tokenize str seps = tokenize_loop seps [] str"

text \<open>\<open>next\<close> compares in place at an offset.\<close>

definition next_at :: "string \<Rightarrow> nat \<Rightarrow> string \<Rightarrow> bool" where
  "next_at pData doff pStr \<longleftrightarrow> starts_with pStr (drop doff pData)"

text \<open>
  \<open>greplace\<close>: after a replacement the index stands on the last inserted character, so the scan
  goes on behind the insertion. With an empty \<open>tor\<close> every position matches and the index never
  gets past the insertions: on a non-empty text the loop does not end, which is \<open>None\<close>.
\<close>

function greplace_loop :: "string \<Rightarrow> string \<Rightarrow> string \<Rightarrow> string" where
  "greplace_loop tor tin [] = []"
| "greplace_loop tor tin (c # cs) =
     (if starts_with tor (c # cs) \<and> tor \<noteq> []
      then tin @ greplace_loop tor tin (drop (length tor) (c # cs))
      else c # greplace_loop tor tin cs)"
  by pat_completeness auto
termination greplace_loop
  by (relation "measure (\<lambda>(tor, tin, s). length s)") (auto simp: neq_Nil_conv)

definition greplace :: "string \<Rightarrow> string \<Rightarrow> string \<Rightarrow> string option" where
  "greplace tor tin data =
     (if tor = [] \<and> data \<noteq> [] then None else Some (greplace_loop tor tin data))"

section \<open>Character classes\<close>

text \<open>\<open>char\<close> is signed: codes from 128 are negative and fall in no class.\<close>

definition str_isnumber :: "char \<Rightarrow> bool" where
  "str_isnumber c \<longleftrightarrow> is_digit c"

definition to_upper :: "char \<Rightarrow> char" where
  "to_upper c = (if 97 \<le> code c \<and> code c \<le> 122 then char_of (code c - 32) else c)"

definition to_lower :: "char \<Rightarrow> char" where
  "to_lower c = (if 65 \<le> code c \<and> code c \<le> 90 then char_of (code c + 32) else c)"

definition isletter :: "char \<Rightarrow> bool" where
  "isletter ch \<longleftrightarrow> code (to_upper ch) \<le> 90 \<and> 65 \<le> code (to_upper ch)"

definition checkhtml :: "string \<Rightarrow> bool" where
  "checkhtml str \<longleftrightarrow> list_all (\<lambda>ch. \<not> (ch = CHR ''<'' \<or> ch = CHR ''>'' \<or> ch = CHR ''&'')) str"

definition checkStringHTML :: "string \<Rightarrow> bool" where
  "checkStringHTML str \<longleftrightarrow> list_all (\<lambda>ch.
     48 \<le> code ch \<and> code ch \<le> 57 \<or> 65 \<le> code ch \<and> code ch \<le> 90 \<or>
     97 \<le> code ch \<and> code ch \<le> 122 \<or> code ch = 95 \<or> code ch = 46 \<or> code ch = 45) str"

definition CheckForIllegalChars :: "string \<Rightarrow> bool" where
  "CheckForIllegalChars str \<longleftrightarrow> list_all (\<lambda>c. code c \<noteq> 0) str"

definition ReplaceChar :: "string \<Rightarrow> char \<Rightarrow> char \<Rightarrow> string" where
  "ReplaceChar str tr ch = map (\<lambda>c. if c = tr then ch else c) str"

definition replaceNonAlphaNumeric :: "string \<Rightarrow> char \<Rightarrow> string" where
  "replaceNonAlphaNumeric str rch =
     map (\<lambda>c. if \<not> isletter c \<and> \<not> str_isnumber c then rch else c) str"

definition conv_filename :: "string \<Rightarrow> string" where
  "conv_filename fn =
     map (\<lambda>ch. if ch \<in> {CHR '':'', CHR ''|'', CHR ''&'', CHR 0x5C, CHR ''/'', CHR ''?'', CHR ''*'',
                       CHR 0x22, CHR ''<'', CHR ''>''} then CHR ''_'' else ch) fn"

fun striptags_loop :: "bool \<Rightarrow> string \<Rightarrow> string" where
  "striptags_loop inside [] = []"
| "striptags_loop inside (c # cs) =
     (let inside = (if c = CHR ''<'' then True else inside)
      in if c = CHR ''>'' then striptags_loop False cs
         else if \<not> inside then c # striptags_loop inside cs
         else striptags_loop inside cs)"

definition striptags :: "string \<Rightarrow> string" where
  "striptags html = striptags_loop False html"

definition trim_char :: "char \<Rightarrow> bool" where
  "trim_char c \<longleftrightarrow> c = CHR '' '' \<or> c = CHR 0x0D \<or> c = CHR 0x0A \<or> c = CHR 0x09"

definition find_first_not_of_ws :: "string \<Rightarrow> nat option" where
  "find_first_not_of_ws s =
     (let n = length (takeWhile trim_char s) in if n < length s then Some n else None)"

definition find_last_not_of_ws :: "string \<Rightarrow> nat option" where
  "find_last_not_of_ws s =
     (let n = length (takeWhile trim_char (rev s))
      in if n < length s then Some (length s - 1 - n) else None)"

definition trim :: "string \<Rightarrow> string" where
  "trim str =
     (case (find_first_not_of_ws str, find_last_not_of_ws str) of
        (Some startpos, Some endpos) \<Rightarrow> substr str startpos (endpos - startpos + 1)
      | _ \<Rightarrow> [])"

section \<open>Escaping\<close>

definition EscapeSQLString :: "string \<Rightarrow> string" where
  "EscapeSQLString pStr = concat (map (\<lambda>c. if c = CHR 0x27 then [CHR 0x27, CHR 0x27] else [c]) pStr)"

fun UnescapeSQLString :: "string \<Rightarrow> string" where
  "UnescapeSQLString (c # c2 # cs) =
     (if c = CHR 0x27 \<and> c2 = CHR 0x27 then CHR 0x27 # UnescapeSQLString cs
      else c # UnescapeSQLString (c2 # cs))"
| "UnescapeSQLString s = s"

definition EscapeCh :: "string \<Rightarrow> char \<Rightarrow> string" where
  "EscapeCh pStr ch = concat (map (\<lambda>c. if c = ch then [ch, c] else [c]) pStr)"

definition escape_param_char :: "char \<Rightarrow> string" where
  "escape_param_char c =
     (if c = CHR ''%'' then ''%25''
      else if c = CHR ''&'' then ''%26''
      else if c = CHR ''$'' then ''%24''
      else if c = CHR ''/'' then ''%2F''
      else if c = CHR '' '' then ''%20''
      else if c = CHR ''#'' then ''%23''
      else if c = CHR ''+'' then ''%2B''
      else if c = CHR 0x0A then ''%0A''
      else if c = CHR 0x0D then ''%0D''
      else [c])"

definition EscapeParamString :: "string \<Rightarrow> string" where
  "EscapeParamString pStr = concat (map escape_param_char pStr)"

definition escape_html_char :: "char \<Rightarrow> string" where
  "escape_html_char c =
     (if c = CHR ''<'' then ''&lt;''
      else if c = CHR ''>'' then ''&gt;''
      else if c = CHR ''&'' then ''&amp;''
      else if c = CHR 0x22 then ''&quot;''
      else if c = CHR 0x27 then ''&#x27;''
      else if c = CHR ''/'' then ''&#x2F''
      else [c])"

definition EscapeHTML :: "string \<Rightarrow> string" where
  "EscapeHTML html = concat (map escape_html_char html)"

definition UnescapeHTML :: "string \<Rightarrow> string option" where
  "UnescapeHTML html =
     Option.bind (greplace ''&amp;'' ''&'' html) (\<lambda>ret.
     Option.bind (greplace ''&lt;'' ''<'' ret) (\<lambda>ret.
     Option.bind (greplace ''&gt;'' ''>'' ret) (\<lambda>ret.
     Option.bind (greplace ''&quot;'' [CHR 0x22] ret) (\<lambda>ret.
     Option.bind (greplace ''&#x27;'' [CHR 0x27] ret) (\<lambda>ret.
     greplace ''&#x2F'' ''/'' ret)))))"

fun nl2br :: "string \<Rightarrow> string" where
  "nl2br [] = []"
| "nl2br (c # cs) =
     (if c = CHR 0x0A then ''<br>'' @ nl2br cs
      else if starts_with ''&#10;'' (c # cs) then ''<br>'' @ nl2br (drop 4 cs)
      else c # nl2br cs)"

text \<open>\<open>transformHTML\<close> really looks for a dollar sign.\<close>

fun transformHTML :: "string \<Rightarrow> string" where
  "transformHTML [] = []"
| "transformHTML (c # cs) =
     (if starts_with ''$amp;'' (c # cs) then CHR ''&'' # transformHTML (drop 4 cs)
      else c # transformHTML cs)"

section \<open>Hexadecimal\<close>

definition hexnum_array :: string where
  "hexnum_array = ''0123456789abcdef''"

text \<open>
  \<open>strlower\<close> hands strings with a byte from 128 to the UTF-8 path, whose case table
  (\<open>towlower\<close>) belongs to the C library's locale: the parameter \<open>lu\<close>.
\<close>

definition strlower :: "(string \<Rightarrow> string) \<Rightarrow> string \<Rightarrow> string" where
  "strlower lu str = (if list_ex (\<lambda>c. 128 \<le> code c) str then lu str else map to_lower str)"

definition IsHex :: "string \<Rightarrow> bool" where
  "IsHex str \<longleftrightarrow> list_all (\<lambda>c. c \<in> set hexnum_array) str"

fun index_of :: "char \<Rightarrow> string \<Rightarrow> nat option" where
  "index_of c [] = None"
| "index_of c (x # xs) = (if c = x then Some 0 else map_option Suc (index_of c xs))"

fun hex_loop :: "u64 \<Rightarrow> string \<Rightarrow> u64" where
  "hex_loop v [] = v"
| "hex_loop v (c # cs) =
     hex_loop (case index_of c hexnum_array of None \<Rightarrow> v | Some j \<Rightarrow> v * 16 + of_nat j) cs"

definition hexToULong :: "(string \<Rightarrow> string) \<Rightarrow> string \<Rightarrow> u64" where
  "hexToULong lu data = hex_loop 0 (strlower lu data)"

definition byteToHex :: "byte \<Rightarrow> string" where
  "byteToHex ch = [hexnum_array ! (unat ch div 16), hexnum_array ! (unat ch mod 16)]"

definition bytesToHex :: "byte list \<Rightarrow> string" where
  "bytesToHex b = concat (map byteToHex b)"

text \<open>
  \<open>hexToBytes\<close> sizes its result to half the input, rounded down, and writes one byte per started
  pair of digits: with an odd number of digits the last write is past the end (\<open>None\<close>).
\<close>

fun hex_pairs :: "(string \<Rightarrow> string) \<Rightarrow> string \<Rightarrow> byte list" where
  "hex_pairs lu (a # b # cs) = ucast (hexToULong lu [a, b]) # hex_pairs lu cs"
| "hex_pairs lu [a] = [ucast (hexToULong lu [a])]"
| "hex_pairs lu [] = []"

definition hexToBytes :: "(string \<Rightarrow> string) \<Rightarrow> string \<Rightarrow> byte list option" where
  "hexToBytes lu data =
     (let ret = hex_pairs lu data
      in if length ret \<le> length data div 2 then Some ret else None)"

definition char_of_byte :: "byte \<Rightarrow> char" where
  "char_of_byte b = char_of (unat b)"

definition byte_of_char :: "char \<Rightarrow> byte" where
  "byte_of_char c = of_nat (code c)"

function htmldecode :: "(string \<Rightarrow> string) \<Rightarrow> bool \<Rightarrow> char \<Rightarrow> string \<Rightarrow> string" where
  "htmldecode lu html xc [] = []"
| "htmldecode lu html xc (c # cs) =
     (if c = xc \<and> 2 < length (c # cs)
      then let ch = ucast (hexToULong lu (take 2 cs)) :: byte;
               out = (if html \<and> ch \<noteq> 0
                      then (if ch \<noteq> byte_of_char CHR ''-'' \<and> ch \<noteq> byte_of_char CHR '',''
                               \<and> ch \<noteq> byte_of_char CHR ''#''
                            then ''&#'' @ show_nat (unat ch) @ '';'' else [char_of_byte ch])
                      else if ch \<noteq> 0 then [char_of_byte ch] else [])
           in out @ htmldecode lu html xc (drop 2 cs)
      else if c = CHR ''+'' \<and> \<not> html then CHR '' '' # htmldecode lu html xc cs
      else c # htmldecode lu html xc cs)"
  by pat_completeness auto
termination htmldecode
  by (relation "measure (\<lambda>(lu, html, xc, s). length s)") auto

section \<open>Parameter strings\<close>

text \<open>
  \<open>ParseParamStrHttp\<close>: \<open>pos\<close> is \<open>True\<close> while in a value. \<open>std::map::insert\<close> keeps the value of a
  key that is there already.
\<close>

definition map_insert :: "(string \<rightharpoonup> string) \<Rightarrow> string \<Rightarrow> string \<Rightarrow> (string \<rightharpoonup> string)" where
  "map_insert m k v = (case m k of None \<Rightarrow> m(k \<mapsto> v) | Some _ \<Rightarrow> m)"

definition param_value :: "(string \<Rightarrow> string) \<Rightarrow> bool \<Rightarrow> string \<Rightarrow> string" where
  "param_value lu escape_params value =
     (let wv = htmldecode lu False (CHR ''%'') value
      in if escape_params then EscapeSQLString wv else wv)"

fun parse_param_loop ::
  "(string \<Rightarrow> string) \<Rightarrow> bool \<Rightarrow> bool \<Rightarrow> string \<Rightarrow> string \<Rightarrow> string \<Rightarrow> (string \<rightharpoonup> string)
    \<Rightarrow> (string \<rightharpoonup> string)" where
  "parse_param_loop lu esc pos key val [] m =
     (if val \<noteq> [] \<or> key \<noteq> [] then map_insert m key (param_value lu esc val) else m)"
| "parse_param_loop lu esc pos key val (ch # cs) m =
     (if ch = CHR ''='' \<and> \<not> pos then parse_param_loop lu esc True key val cs m
      else if (ch = CHR ''&'' \<or> ch = CHR ''$'') \<and> pos
      then parse_param_loop lu esc False [] [] cs (map_insert m key (param_value lu esc val))
      else if \<not> pos then parse_param_loop lu esc pos (key @ [ch]) val cs m
      else parse_param_loop lu esc pos key (val @ [ch]) cs m)"

definition ParseParamStrHttp ::
  "(string \<Rightarrow> string) \<Rightarrow> string \<Rightarrow> (string \<rightharpoonup> string) \<Rightarrow> bool \<Rightarrow> (string \<rightharpoonup> string)" where
  "ParseParamStrHttp lu pStr pMap escape_params =
     parse_param_loop lu escape_params False [] [] pStr pMap"

section \<open>Base64\<close>

definition base64_chars :: string where
  "base64_chars = ''ABCDEFGHIJKLMNOPQRSTUVWXYZabcdefghijklmnopqrstuvwxyz0123456789+/''"

definition is_base64 :: "char \<Rightarrow> bool" where
  "is_base64 c \<longleftrightarrow>
     is_digit c \<or> 65 \<le> code c \<and> code c \<le> 90 \<or> 97 \<le> code c \<and> code c \<le> 122
     \<or> c = CHR ''+'' \<or> c = CHR ''/''"

definition b64_array_4 :: "byte \<Rightarrow> byte \<Rightarrow> byte \<Rightarrow> byte list" where
  "b64_array_4 a b c =
     [drop_bit 2 (a AND 0xfc),
      push_bit 4 (a AND 0x03) + drop_bit 4 (b AND 0xf0),
      push_bit 2 (b AND 0x0f) + drop_bit 6 (c AND 0xc0),
      c AND 0x3f]"

definition b64_text :: "byte list \<Rightarrow> string" where
  "b64_text bs = map (\<lambda>b. base64_chars ! unat b) bs"

text \<open>The text of a number of bytes, three at a time.\<close>

fun b64_groups :: "byte list \<Rightarrow> string" where
  "b64_groups (a # b # c # bs) = b64_text (b64_array_4 a b c) @ b64_groups bs"
| "b64_groups [a, b] = b64_text (take 3 (b64_array_4 a b 0)) @ ''=''"
| "b64_groups [a] = b64_text (take 2 (b64_array_4 a 0 0)) @ ''==''"
| "b64_groups [] = []"

text \<open>\<open>in_len\<close> is an \<open>unsigned int\<close>; \<open>None\<close> is a read behind the bytes.\<close>

definition base64_encode :: "byte list \<Rightarrow> u32 \<Rightarrow> string option" where
  "base64_encode bytes_to_encode in_len =
     (if unat in_len \<le> length bytes_to_encode then Some (b64_groups (take (unat in_len) bytes_to_encode)) else None)"

definition base64_encode_dash :: "byte list \<Rightarrow> string option" where
  "base64_encode_dash data =
     map_option (\<lambda>ret. ReplaceChar ret (CHR ''='') (CHR ''-'')) (base64_encode data (of_nat (length data)))"

text \<open>\<open>(unsigned char)base64_chars.find(c)\<close>: \<open>npos\<close> becomes 255.\<close>

definition b64_find :: "char \<Rightarrow> byte" where
  "b64_find c = (case index_of c base64_chars of None \<Rightarrow> 255 | Some i \<Rightarrow> of_nat i)"

definition b64_array_3 :: "byte \<Rightarrow> byte \<Rightarrow> byte \<Rightarrow> byte \<Rightarrow> byte list" where
  "b64_array_3 a b c d =
     [push_bit 2 a + drop_bit 4 (b AND 0x30),
      push_bit 4 (b AND 0xf) + drop_bit 2 (c AND 0x3c),
      push_bit 6 (c AND 0x3) + d]"

fun b64_decode_loop :: "byte list \<Rightarrow> byte list" where
  "b64_decode_loop (a # b # c # d # bs) = b64_array_3 a b c d @ b64_decode_loop bs"
| "b64_decode_loop [a, b, c] = take 2 (b64_array_3 a b c (b64_find (CHR 0x00)))"
| "b64_decode_loop [a, b] = take 1 (b64_array_3 a b (b64_find (CHR 0x00)) (b64_find (CHR 0x00)))"
| "b64_decode_loop _ = []"

text \<open>
  The characters that the loop takes. \<open>in_len\<close> is an \<open>int\<close>, negative for texts of \<open>2 ^ 31\<close> characters and more; its decrement below
  the least \<open>int\<close> is an overflow, \<open>None\<close>. The index \<open>in_\<close> stays below the number of decrements and does not overflow before. At
  the end of the text there is a zero character, which ends the loop.
\<close>

fun b64_scan :: "int \<Rightarrow> string \<Rightarrow> string option" where
  "b64_scan in_len cs =
     (if in_len = 0 then Some []
      else if in_len = - (2 ^ 31) then None
      else case cs of
             [] \<Rightarrow> Some []
           | c # cs \<Rightarrow> if c \<noteq> CHR ''='' \<and> is_base64 c then map_option ((#) c) (b64_scan (in_len - 1) cs) else Some [])"

declare b64_scan.simps [simp del]

definition base64_decode :: "string \<Rightarrow> byte list option" where
  "base64_decode encoded_string =
     map_option (\<lambda>cs. b64_decode_loop (map b64_find cs)) (b64_scan (sint (of_nat (length encoded_string) :: u32)) encoded_string)"

definition base64_decode_dash :: "string \<Rightarrow> byte list option" where
  "base64_decode_dash s =
     base64_decode (map (\<lambda>c. if c = CHR ''-'' then CHR ''=''
                             else if c = CHR '' '' then CHR ''+'' else c) s)"

section \<open>Durations\<close>

text \<open>
  \<open>PrettyPrintTime\<close>, one step per unit: a unit is split off only if the rest is greater than it.
\<close>

definition print_unit :: "int \<Rightarrow> string \<Rightarrow> string \<times> int \<Rightarrow> string \<times> int" where
  "print_unit unit_ms suffix st =
     (case st of (ret, ms) \<Rightarrow>
        if ms > unit_ms
        then let t = ms div unit_ms
             in ((if ret \<noteq> [] then ret @ '' '' else ret) @ show_int t @ suffix, ms - t * unit_ms)
        else (ret, ms))"

definition PrettyPrintTime :: "int \<Rightarrow> string" where
  "PrettyPrintTime orig =
     (let c_s = 1000; c_m = c_s * 60; c_h = c_m * 60; c_d = c_h * 24;
          (ret, ms) = print_unit c_s ''s'' (print_unit c_m ''m'' (print_unit c_h ''h''
                        (print_unit c_d '' days'' ([], orig))))
      in if orig < c_s then (if ret \<noteq> [] then ret @ '' '' else ret) @ show_int ms @ ''ms''
         else ret)"

section \<open>SQL literals\<close>

text \<open>
  The specification an escaped string has to meet: how SQLite's tokenizer reads a quoted literal (\<open>sqlite/sqlite3.c\<close>, \<open>CC_QUOTE\<close>), a doubled
  quote standing for one quote and a single one ending it. It returns the value and the unread rest, or \<open>None\<close> for
  \<open>TK_ILLEGAL\<close>, with which the statement is rejected: the text ends at its end or at a zero byte.
\<close>

fun sql_literal_body :: "string \<Rightarrow> (string \<times> string) option" where
  "sql_literal_body [] = None"
| "sql_literal_body (c # cs) =
     (if c = CHR 0x00 then None
      else if c = CHR 0x27
      then (case cs of
              c2 # cs2 \<Rightarrow>
                if c2 = CHR 0x27 then map_option (\<lambda>(s, r). (CHR 0x27 # s, r)) (sql_literal_body cs2)
                else Some ([], cs)
            | [] \<Rightarrow> Some ([], []))
      else map_option (\<lambda>(s, r). (c # s, r)) (sql_literal_body cs))"

fun sql_literal :: "string \<Rightarrow> (string \<times> string) option" where
  "sql_literal (c # cs) = (if c = CHR 0x27 then sql_literal_body cs else None)"
| "sql_literal [] = None"

lemma EscapeSQLString_Nil [simp]: "EscapeSQLString [] = []"
  by (simp add: EscapeSQLString_def)

lemma EscapeSQLString_Cons [simp]:
  "EscapeSQLString (c # cs) = (if c = CHR 0x27 then [CHR 0x27, CHR 0x27] else [c]) @ EscapeSQLString cs"
  by (simp add: EscapeSQLString_def)

lemma sql_body_escape:
  assumes "\<not> starts_with [CHR 0x27] rest"
  shows "sql_literal_body (EscapeSQLString s @ CHR 0x27 # rest) = (if CHR 0x00 \<in> set s then None else Some (s, rest))"
  using assms by (induction s) (auto simp: starts_with_def split: list.splits if_splits)

lemma Unescape_single: "c \<noteq> CHR 0x27 \<Longrightarrow> UnescapeSQLString (c # cs) = c # UnescapeSQLString cs"
  by (cases cs) auto

lemma Unescape_Escape: "UnescapeSQLString (EscapeSQLString s) = s"
  by (induction s) (auto simp: Unescape_single)


section \<open>Decoding hexadecimal digits\<close>

lemma code_char_of [simp]: "n < 256 \<Longrightarrow> code (char_of n) = n"
  by (simp add: code_def)

lemma strlower_ascii:
  "\<forall>c \<in> set s. code c < 128 \<Longrightarrow> strlower lu s = map to_lower s"
  by (auto simp: strlower_def list_ex_iff not_le)

lemma hexnum_table:
  "list_all (\<lambda>n. code (hexnum_array ! n) < 128 \<and> to_lower (hexnum_array ! n) = hexnum_array ! n
     \<and> index_of (hexnum_array ! n) hexnum_array = Some n) [0..<16]"
  by code_simp

lemma hexnum_props:
  assumes "n < 16"
  shows "code (hexnum_array ! n) < 128" "to_lower (hexnum_array ! n) = hexnum_array ! n"
    "index_of (hexnum_array ! n) hexnum_array = Some n"
  using hexnum_table assms by (simp_all add: list_all_iff)

lemma hexToULong_two:
  assumes "i < 16" "j < 16"
  shows "hexToULong lu [hexnum_array ! i, hexnum_array ! j] = of_nat (16 * i + j)"
  using assms by (simp add: hexToULong_def strlower_ascii hexnum_props)

lemma hexToULong_byteToHex: "(ucast (hexToULong lu (byteToHex b)) :: byte) = b"
proof -
  have b: "unat b < 256" using unsigned_less [of b] by simp
  then have "unat b div 16 < 16" by (simp add: less_mult_imp_div_less)
  then have "hexToULong lu (byteToHex b) = of_nat (16 * (unat b div 16) + unat b mod 16)"
    by (simp add: byteToHex_def hexToULong_two del: of_nat_add of_nat_mult)
  moreover have "take_bit 64 (unat b) = unat b"
    using b by (simp add: take_bit_nat_eq_self_iff)
  moreover have "(ucast (ucast b :: 64 word) :: byte) = b"
    by (rule bit_word_eqI) (simp add: bit_simps)
  ultimately show ?thesis by (simp add: unsigned_of_nat mult_div_mod_eq del: of_nat_add of_nat_mult)
qed

lemma hex_pairs_bytesToHex: "hex_pairs lu (bytesToHex bs) = bs"
proof (induction bs)
  case Nil then show ?case by (simp add: bytesToHex_def)
next
  case (Cons b bs)
  have "bytesToHex (b # bs) = byteToHex b @ bytesToHex bs" by (simp add: bytesToHex_def)
  then show ?case using hexToULong_byteToHex [of lu b] Cons by (simp add: byteToHex_def)
qed

lemma length_bytesToHex: "length (bytesToHex bs) = 2 * length bs"
  by (induction bs) (auto simp: bytesToHex_def byteToHex_def)

lemma hexToBytes_bytesToHex: "hexToBytes lu (bytesToHex bs) = Some bs"
  by (simp add: hexToBytes_def hex_pairs_bytesToHex length_bytesToHex)

section \<open>Decoding parameters\<close>

lemma htmldecode_Cons_plain:
  "c \<noteq> CHR ''%'' \<Longrightarrow> c \<noteq> CHR ''+'' \<Longrightarrow> htmldecode lu False (CHR ''%'') (c # cs) = c # htmldecode lu False (CHR ''%'') cs"
  by simp

lemma htmldecode_Cons_escape:
  "htmldecode lu False (CHR ''%'') (CHR ''%'' # a # b # cs) =
    (let ch = ucast (hexToULong lu [a, b]) :: byte
     in (if ch \<noteq> 0 then [char_of_byte ch] else []) @ htmldecode lu False (CHR ''%'') cs)"
  by (simp add: Let_def)

lemma hex_pair_chars:
  "hex_loop 0 (map to_lower ''25'') = 0x25" 
  "hex_loop 0 (map to_lower ''26'') = 0x26" 
  "hex_loop 0 (map to_lower ''24'') = 0x24" 
  "hex_loop 0 (map to_lower ''2F'') = 0x2F" 
  "hex_loop 0 (map to_lower ''20'') = 0x20" 
  "hex_loop 0 (map to_lower ''23'') = 0x23" 
  "hex_loop 0 (map to_lower ''2B'') = 0x2B" 
  "hex_loop 0 (map to_lower ''0A'') = 0x0A" 
  "hex_loop 0 (map to_lower ''0D'') = 0x0D" 
  by code_simp+

lemma param_char_literals:
  "char_of (37 :: nat) = CHR ''%''" "char_of (38 :: nat) = CHR ''&''" "char_of (36 :: nat) = CHR ''$''"
  "char_of (47 :: nat) = CHR ''/''" "char_of (32 :: nat) = CHR '' ''" "char_of (35 :: nat) = CHR ''#''"
  "char_of (43 :: nat) = CHR ''+''" "char_of (10 :: nat) = CHR 0x0A" "char_of (13 :: nat) = CHR 0x0D"
  by code_simp+

lemma htmldecode_escape_char:
  "htmldecode lu False (CHR ''%'') (escape_param_char c @ s) = c # htmldecode lu False (CHR ''%'') s"
  apply (cases "c \<in> {CHR ''%'', CHR ''&'', CHR ''$'', CHR ''/'', CHR '' '', CHR ''#'', CHR ''+'', CHR 0x0A, CHR 0x0D}")
   apply (elim insertE emptyE; simp add: escape_param_char_def htmldecode_Cons_escape hexToULong_def strlower_def code_def hex_pair_chars char_of_byte_def param_char_literals
      del: htmldecode.simps hex_loop.simps list.map)
  apply (auto simp add: escape_param_char_def htmldecode_Cons_plain simp del: htmldecode.simps)
  done


lemma htmldecode_Escape_append:
  "htmldecode lu False (CHR ''%'') (EscapeParamString v @ s) = v @ htmldecode lu False (CHR ''%'') s"
  by (induction v) (simp_all add: EscapeParamString_def htmldecode_escape_char)

lemma htmldecode_Escape: "htmldecode lu False (CHR ''%'') (EscapeParamString v) = v"
  using htmldecode_Escape_append [of lu v "[]"] by simp

lemma EscapeParamString_avoids: "CHR ''&'' \<notin> set (EscapeParamString v) \<and> CHR ''$'' \<notin> set (EscapeParamString v)
   \<and> CHR 0x0A \<notin> set (EscapeParamString v) \<and> CHR 0x0D \<notin> set (EscapeParamString v) \<and> CHR ''#'' \<notin> set (EscapeParamString v)"
  by (auto simp: EscapeParamString_def escape_param_char_def split: if_splits)

lemma parse_param_key:
  "CHR ''='' \<notin> set k \<Longrightarrow>
   parse_param_loop lu esc False key val (k @ s) m = parse_param_loop lu esc False (key @ k) val s m"
  by (induction k arbitrary: key) auto

lemma parse_param_val:
  "CHR ''&'' \<notin> set v \<Longrightarrow> CHR ''$'' \<notin> set v \<Longrightarrow>
   parse_param_loop lu esc True key val (v @ s) m = parse_param_loop lu esc True key (val @ v) s m"
  by (induction v arbitrary: val) auto

text \<open>One \<open>key=value&\<close> group per pair.\<close>

definition param_string :: "(string \<times> string) list \<Rightarrow> string" where
  "param_string kvs = concat (map (\<lambda>(k, v). k @ ''='' @ EscapeParamString v @ ''&'') kvs)"

section \<open>Decoding base64\<close>

lemma add_disjoint_bits:
  fixes a b :: "'a::len word"
  assumes "list_all (\<lambda>n. \<not> bit a n \<or> \<not> bit b n) [0..<LENGTH('a)]"
  shows "a + b = a OR b"
proof (rule disjunctive_add)
  fix n
  show "\<not> bit a n \<or> \<not> bit b n"
    using assms bit_imp_le_length [of a n] by (auto simp: list_all_iff)
qed

lemma byte_bit_out [simp]: "8 \<le> n \<Longrightarrow> \<not> bit (b :: byte) n"
  by (auto dest: bit_imp_le_length)

lemma upt_8: "[0..<8] = [0,1,2,3,4,5,6,7::nat]"
  by (simp add: upt_rec_numeral upt_conv_Cons)

lemma b64_array_4_eq:
  "b64_array_4 a b c =
     [drop_bit 2 a,
      push_bit 4 (take_bit 2 a) OR drop_bit 4 b,
      push_bit 2 (take_bit 4 b) OR drop_bit 6 c,
      take_bit 6 c]"
proof -
  have p1: "push_bit 4 (a AND 0x03) + drop_bit 4 (b AND 0xf0) = push_bit 4 (a AND 0x03) OR drop_bit 4 (b AND 0xf0)"
    by (rule add_disjoint_bits) (simp add: bit_simps upt_8)
  have p2: "push_bit 2 (b AND 0x0f) + drop_bit 6 (c AND 0xc0) = push_bit 2 (b AND 0x0f) OR drop_bit 6 (c AND 0xc0)"
    by (rule add_disjoint_bits) (simp add: bit_simps upt_8)
  show ?thesis
    unfolding b64_array_4_def p1 p2 list.inject
    by (intro conjI; (rule word_eq_by_bits)?; simp add: bit_simps upt_8)
qed

lemma b64_array_3_4:
  assumes "b64_array_4 a b c = [w, x, y, z]"
  shows "b64_array_3 w x y z = [a, b, c]"
    "take 2 (b64_array_3 w x y z') = [a, b]" 
    "take 1 (b64_array_3 w x y' z') = [a]"
proof -
  from assms have w: "w = drop_bit 2 a" and x: "x = push_bit 4 (take_bit 2 a) OR drop_bit 4 b"
     and y: "y = push_bit 2 (take_bit 4 b) OR drop_bit 6 c" and z: "z = take_bit 6 c"
    by (simp_all add: b64_array_4_eq)
  have p: "push_bit 2 w + drop_bit 4 (x AND 0x30) = a"
    by (subst add_disjoint_bits) (simp add: w x bit_simps upt_8, rule word_eq_by_bits, simp add: w x bit_simps upt_8, (simp add: numeral_2_eq_2 numeral_3_eq_3)?)
  have q: "push_bit 4 (x AND 0xf) + drop_bit 2 (y AND 0x3c) = b"
    by (subst add_disjoint_bits) (simp add: x y bit_simps upt_8, rule word_eq_by_bits, simp add: x y bit_simps upt_8, (simp add: numeral_2_eq_2 numeral_3_eq_3)?)
  have r: "push_bit 6 (y AND 0x3) + z = c"
    by (subst add_disjoint_bits) (simp add: y z bit_simps upt_8, rule word_eq_by_bits, simp add: y z bit_simps upt_8, (simp add: numeral_2_eq_2 numeral_3_eq_3)?)
  show "b64_array_3 w x y z = [a, b, c]" 
    "take 2 (b64_array_3 w x y z') = [a, b]" 
    "take 1 (b64_array_3 w x y' z') = [a]"
    using p q r by (simp_all add: b64_array_3_def)
qed

lemma base64_table:
  "list_all (\<lambda>n. b64_find (base64_chars ! n) = of_nat n \<and> base64_chars ! n \<noteq> CHR ''=''
     \<and> is_base64 (base64_chars ! n)) [0..<64]"
  by code_simp

lemma base64_char:
  assumes "unat (b :: byte) < 64"
  shows "b64_find (base64_chars ! unat b) = b" "base64_chars ! unat b \<noteq> CHR ''=''"
    "is_base64 (base64_chars ! unat b)"
proof -
  from base64_table assms have "b64_find (base64_chars ! unat b) = of_nat (unat b)
     \<and> base64_chars ! unat b \<noteq> CHR ''='' \<and> is_base64 (base64_chars ! unat b)"
    unfolding list_all_iff by (metis atLeastLessThan_iff le0 set_upt)
  then show "b64_find (base64_chars ! unat b) = b" "base64_chars ! unat b \<noteq> CHR ''=''"
    "is_base64 (base64_chars ! unat b)" by simp_all
qed

definition six_bit :: "byte \<Rightarrow> bool" where
  "six_bit b \<longleftrightarrow> unat b < 64"

lemma six_bitI: "\<not> bit b 6 \<Longrightarrow> \<not> bit b 7 \<Longrightarrow> six_bit b"
proof -
  assume a: "\<not> bit b 6" "\<not> bit b 7"
  have "b = take_bit 6 b" 
    using a by (intro word_eq_by_bits) (simp add: bit_simps upt_8)
  then have "unat b = take_bit 6 (unat b)" by (metis unsigned_take_bit_eq)
  also have "\<dots> < 2 ^ 6" by (rule take_bit_nat_less_exp)
  finally show ?thesis by (simp add: six_bit_def)
qed

lemma six_bit_array_4: "list_all six_bit (b64_array_4 a b c)"
  by (simp add: b64_array_4_eq) (intro conjI six_bitI; simp add: bit_simps)

lemma b64_text_decode:
  assumes "list_all six_bit bs"
  shows "map b64_find (b64_text bs) = bs"
    "list_all (\<lambda>c. c \<noteq> CHR ''='' \<and> is_base64 c) (b64_text bs)"
  using assms by (induction bs) (auto simp: b64_text_def six_bit_def base64_char)

lemma takeWhile_all: "list_all P xs \<Longrightarrow> takeWhile P (xs @ ys) = xs @ takeWhile P ys"
  by (induction xs) auto

text \<open>What is decoded of a text that is not too long.\<close>

definition b64_read :: "string \<Rightarrow> byte list" where
  "b64_read s = b64_decode_loop (map b64_find (takeWhile (\<lambda>c. c \<noteq> CHR ''='' \<and> is_base64 c) s))"

lemma b64_read_text: 
  "list_all six_bit bs \<Longrightarrow>  b64_read (b64_text bs @ s) = 
    b64_decode_loop (bs @ map b64_find (takeWhile (\<lambda>c. c \<noteq> CHR ''='' \<and> is_base64 c) s))"
  by (simp add: b64_read_def takeWhile_all b64_text_decode)

lemma b64_read_groups: "b64_read (b64_groups bs) = bs"
proof (induction bs rule: b64_groups.induct)
  case (1 a b c bs)
  obtain w x y z where d: "b64_array_4 a b c = [w, x, y, z]" by (simp add: b64_array_4_def)
  have "b64_read (b64_groups (a # b # c # bs)) = b64_array_3 w x y z @ b64_read (b64_groups bs)"
    using six_bit_array_4 [of a b c]
    by (simp add: b64_read_text) (simp add: d b64_read_def)
  then show ?case using 1 b64_array_3_4 [OF d] by simp
next
  case (2 a b)
  obtain w x y z where d: "b64_array_4 a b 0 = [w, x, y, z]" by (simp add: b64_array_4_def)
  have "list_all six_bit [w, x, y]" using six_bit_array_4 [of a b 0] by (simp add: d)
  then have "b64_read (b64_groups [a, b]) = take 2 (b64_array_3 w x y (b64_find (CHR 0x00)))"
    by (simp add: d b64_read_text)
  then show ?case using b64_array_3_4 [OF d] by simp
next
  case (3 a)
  obtain w x y z where d: "b64_array_4 a 0 0 = [w, x, y, z]" by (simp add: b64_array_4_def)
  have "list_all six_bit [w, x]" using six_bit_array_4 [of a 0 0] by (simp add: d)
  then have "b64_read (b64_groups [a]) = take 1 (b64_array_3 w x (b64_find (CHR 0x00)) (b64_find (CHR 0x00)))"
    by (simp add: d b64_read_text)
  then show ?case using b64_array_3_4 [OF d] by simp
qed (simp add: b64_read_def)


lemma b64_scan_short: "int (length s) \<le> n \<Longrightarrow> b64_scan n s = Some (takeWhile (\<lambda>c. c \<noteq> CHR ''='' \<and> is_base64 c) s)"
proof (induction s arbitrary: n)
  case Nil
  then show ?case by (subst b64_scan.simps) simp
next
  case (Cons c s)
  then have "int (length s) \<le> n - 1" "n \<noteq> 0" "n \<noteq> - (2 ^ 31)" by auto
  then show ?case using Cons.IH[of "n - 1"] by (subst b64_scan.simps) simp
qed

lemma base64_decode_short:
  assumes "length s < 2 ^ 31"
  shows "base64_decode s = Some (b64_read s)"
proof -
  have "sint (of_nat (length s) :: u32) = int (length s)"
    using assms signed_take_bit_int_eq_self[of 31 "int (length s)"] sint_sbintrunc'[of "int (length s)", where 'a = 32] by simp
  then show ?thesis using b64_scan_short[of s "int (length s)"] by (simp add: base64_decode_def b64_read_def)
qed

lemma length_b64_groups: "length (b64_groups bs) = 4 * ((length bs + 2) div 3)"
proof (induction bs rule: b64_groups.induct)
  case (1 a b c bs)
  have "(length (a # b # c # bs) + 2) div 3 = Suc ((length bs + 2) div 3)" by simp
  then show ?case using 1 by (simp add: b64_text_def b64_array_4_def)
qed (simp_all add: b64_text_def b64_array_4_def)

lemma base64_encode_all:
  assumes "length bs < 2 ^ 32"
  shows "base64_encode bs (of_nat (length bs)) = Some (b64_groups bs)"
proof -
  have "unat (of_nat (length bs) :: u32) = length bs" using assms by (simp add: unat_of_nat)
  then show ?thesis by (simp add: base64_encode_def)
qed

lemma base64_chars_dash:
  "list_all (\<lambda>c. c \<noteq> CHR ''-'' \<and> c \<noteq> CHR '' '') base64_chars"
  by code_simp

lemma b64_text_dash:
  "list_all six_bit bs \<Longrightarrow> list_all (\<lambda>c. c \<noteq> CHR ''-'' \<and> c \<noteq> CHR '' '') (b64_text bs)"
proof (induction bs)
  case (Cons b bs)
  have "length base64_chars = 64" by (simp add: base64_chars_def)
  with Cons.prems base64_chars_dash have "base64_chars ! unat b \<noteq> CHR ''-'' \<and> base64_chars ! unat b \<noteq> CHR '' ''"
    unfolding list_all_length by (auto simp: six_bit_def)
  with Cons show ?case by (simp add: b64_text_def)
qed (simp add: b64_text_def)

lemma list_all_take: "list_all P xs \<Longrightarrow> list_all P (take n xs)"
  by (auto simp: list_all_iff dest: in_set_takeD)

lemma b64_groups_dashfree:
  "list_all (\<lambda>c. c \<noteq> CHR ''-'' \<and> c \<noteq> CHR '' '') (b64_groups bs)"
  by (induction bs rule: b64_groups.induct)
    (simp_all add: b64_text_dash six_bit_array_4 list_all_take)

lemma undash:
  "list_all (\<lambda>c. c \<noteq> CHR ''-'' \<and> c \<noteq> CHR '' '') s \<Longrightarrow>
   map (\<lambda>c. if c = CHR ''-'' then CHR ''='' else if c = CHR '' '' then CHR ''+'' else c)
     (ReplaceChar s (CHR ''='') (CHR ''-'')) = s"
  by (induction s) (auto simp: ReplaceChar_def)

lemma base64_back:
  assumes "4 * ((length bs + 2) div 3) < 2 ^ 31"
  shows "Option.bind (base64_encode bs (of_nat (length bs))) base64_decode = Some bs"
    "Option.bind (base64_encode_dash bs) base64_decode_dash = Some bs"
proof -
  have l: "length bs < 2 ^ 32" "length (b64_groups bs) < 2 ^ 31" using assms by (simp_all add: length_b64_groups)
  then show "Option.bind (base64_encode bs (of_nat (length bs))) base64_decode = Some bs"
    by (simp add: base64_encode_all base64_decode_short b64_read_groups)
  show "Option.bind (base64_encode_dash bs) base64_decode_dash = Some bs"
    unfolding base64_encode_dash_def base64_encode_all[OF l(1)] base64_decode_dash_def
    using l(2) by (simp add: undash b64_groups_dashfree base64_decode_short b64_read_groups)
qed

section \<open>Properties\<close>

text \<open>
  C19: SQL escaping is safe and lossless. The quoted literal built from \<open>EscapeSQLString\<close> is read by SQLite as exactly the
  text, ending at the closing quote that the caller wrote, if the text has no zero byte; with a zero byte the literal
  is illegal and the statement is rejected. So no value can leave its literal. \<open>UnescapeSQLString\<close> restores every text.
\<close>

theorem sql_escape_safe:
  assumes "\<not> starts_with [CHR 0x27] rest"
  shows "sql_literal (CHR 0x27 # EscapeSQLString s @ CHR 0x27 # rest) = (if CHR 0x00 \<in> set s then None else Some (s, rest))
    \<and> UnescapeSQLString (EscapeSQLString s) = s"
  using sql_body_escape [OF assms] by (simp add: Unescape_Escape)

theorem sql_escape_safe_witness:
  "sql_literal (CHR 0x27 # EscapeSQLString [CHR ''a'', CHR 0x27] @ CHR 0x27 # '' OR 1'')
     = Some ([CHR ''a'', CHR 0x27], '' OR 1'')
   \<and> sql_literal (CHR 0x27 # EscapeSQLString [CHR 0x27, CHR 0x00] @ CHR 0x27 # '' OR 1'') = None"
proof -
  have "\<not> starts_with [CHR 0x27] '' OR 1''" by (simp add: starts_with_def)
  note t = sql_escape_safe[OF this]
  show ?thesis using t[of "[CHR ''a'', CHR 0x27]"] t[of "[CHR 0x27, CHR 0x00]"] by simp
qed

text \<open>
  C25: Parameter strings round trip. Key/value pairs written one \<open>key=value&\<close> group each with
  \<open>EscapeParamString\<close> on the values are parsed back by \<open>ParseParamStrHttp\<close>, whatever bytes the
  values hold, provided no key contains an equals sign: every key gets the first value written for
  it, and keys that are in the map already keep their value.
\<close>

theorem params_roundtrip:
  assumes "list_all (\<lambda>(k, v). CHR ''='' \<notin> set k) kvs"
  shows "ParseParamStrHttp lu (param_string kvs) m False = map_of kvs ++ m"
  unfolding ParseParamStrHttp_def using assms
proof (induction kvs arbitrary: m)
  case Nil
  then show ?case by (simp add: param_string_def)
next
  case (Cons kv kvs)
  obtain k v where kv: "kv = (k, v)" by fastforce
  with Cons.prems have "CHR ''='' \<notin> set k" by simp
  then have "parse_param_loop lu False False [] [] (param_string (kv # kvs)) m
      = parse_param_loop lu False False [] [] (param_string kvs) (map_insert m k v)"
    using EscapeParamString_avoids [of v]
    by (simp add: kv param_string_def parse_param_key parse_param_val param_value_def htmldecode_Escape)
  with Cons kv show ?case
    by (auto simp: map_insert_def map_add_def fun_eq_iff split: option.splits)
qed

theorem params_roundtrip_witness:
  "ParseParamStrHttp id (param_string [(''a'', ''1&2=+%''), (''b'', []), (''a'', ''x'')]) Map.empty False
     = [''a'' \<mapsto> ''1&2=+%'', ''b'' \<mapsto> []]"
proof -
  have "list_all (\<lambda>(k, v). CHR ''='' \<notin> set k) [(''a'', ''1&2=+%''), (''b'', []), (''a'', ''x'')]"
    by simp
  from params_roundtrip [OF this] show ?thesis by (auto simp: fun_eq_iff)
qed

text \<open>
  C27: The binary-to-text codecs are lossless: \<open>hexToBytes\<close> inverts \<open>bytesToHex\<close> without writing out
  of its buffer, for every byte sequence; \<open>base64_decode\<close> inverts \<open>base64_encode\<close>, and the URL variants with dashes for the
  padding do too, for every byte sequence whose text has less than \<open>2 ^ 31\<close> characters, the largest \<open>int\<close>.
\<close>

theorem text_codecs_roundtrip:
  "hexToBytes lu (bytesToHex bs) = Some bs
   \<and> (4 * ((length bs + 2) div 3) < 2 ^ 31 \<longrightarrow>
      Option.bind (base64_encode bs (of_nat (length bs))) base64_decode = Some bs
      \<and> Option.bind (base64_encode_dash bs) base64_decode_dash = Some bs)"
  by (simp add: hexToBytes_bytesToHex base64_back)

theorem text_codecs_roundtrip_witness:
  "hexToBytes id (bytesToHex [0, 255, 17, 200]) = Some [0, 255, 17, 200]
   \<and> Option.bind (base64_encode [0, 255, 17, 200] 4) base64_decode = Some [0, 255, 17, 200]
   \<and> Option.bind (base64_encode_dash [0, 255, 17, 200]) base64_decode_dash = Some [0, 255, 17, 200]"
  using text_codecs_roundtrip[of id "[0, 255, 17, 200]"] by simp

text \<open>What the HTML escapes keep out of a page, and where the helpers differ from their intent.\<close>

lemma EscapeHTML_no_markup:
  "set (EscapeHTML s) \<inter> {CHR ''<'', CHR ''>'', CHR 0x22, CHR 0x27, CHR ''/''} = {}"
  by (auto simp: EscapeHTML_def escape_html_char_def split: if_splits)

lemma UnescapeHTML_decodes_twice:
  "EscapeHTML ''&lt;'' = ''&amp;lt;'' \<and> UnescapeHTML (EscapeHTML ''&lt;'') = Some ''<''"
  by code_simp

lemma PrettyPrintTime_one_second: "PrettyPrintTime 1000 = []"
  by code_simp

end
