(* ===== verification/File_List.thy ===== *)
theory File_List
  imports String_Tools
begin

text \<open>
  The file list of a backup (\<open>idrivebmrcommon/filelist_utils.cpp\<close>): one line per entry, \<open>f"name" size
  mtime\<close>, \<open>d"name" 0 mtime\<close> or \<open>u\<close> for leaving a directory, with optional parameters behind a hash
  sign. The writer is a function from entries to text and a loop that copes with partial writes; the
  reader \<open>FileListParser\<close> is a state machine fed one character at a time.
\<close>

section \<open>Entries\<close>

record SFile =
  name :: string
  size :: u64
  last_modified :: u64
  usn :: u64
  created :: u64
  accessed :: u64
  isdir :: bool
  issym :: bool
  isspecialf :: bool
  isencrypted :: bool
  nlinks :: u64

definition SFile_init :: SFile where
  "SFile_init =
     \<lparr>name = [], size = 0, last_modified = 0, usn = 0, created = 0, accessed = 0, isdir = False,
      issym = False, isspecialf = False, isencrypted = False, nlinks = 0\<rparr>"

definition SFile_less :: "SFile \<Rightarrow> SFile \<Rightarrow> bool" where
  "SFile_less a b \<longleftrightarrow> name a < name b"

section \<open>Writing\<close>

text \<open>
  A file as the writer sees it: its bytes so far and the number of \<open>Write\<close> calls made. The
  operating system decides how much of a call it accepts: the parameter \<open>accept\<close>, from the number
  of the call and the bytes requested. After a call that writes nothing the loop waits and retries.
  \<open>written\<close> is a \<open>_u32\<close>, \<open>bsize\<close> a \<open>size_t\<close>; a loop that never ends is \<open>None\<close>.
\<close>

record ofile =
  contents :: string
  calls :: nat

definition Write :: "(nat \<Rightarrow> nat \<Rightarrow> nat) \<Rightarrow> string \<Rightarrow> ofile \<Rightarrow> nat \<times> ofile" where
  "Write accept buf f =
     (let rc = min (length buf) (accept (calls f) (length buf))
      in (rc, f\<lparr>contents := contents f @ take rc buf, calls := Suc (calls f)\<rparr>))"

partial_function (option) write_loop ::
  "(nat \<Rightarrow> nat \<Rightarrow> nat) \<Rightarrow> string \<Rightarrow> u32 \<Rightarrow> ofile \<Rightarrow> ofile option" where
  "write_loop accept buf written f =
     (let bsize = of_nat (length buf) :: u64;
          n = ucast (bsize - ucast written) :: u32;
          (rc, f) = Write accept (take (unat n) (drop (unat written) buf)) f;
          written = written + of_nat rc
      in if (ucast written :: u64) < bsize then write_loop accept buf written f else Some f)"

definition writeFileRepeat :: "(nat \<Rightarrow> nat \<Rightarrow> nat) \<Rightarrow> ofile \<Rightarrow> string \<Rightarrow> ofile option" where
  "writeFileRepeat accept f str = write_loop accept str 0 f"

fun escapeListName :: "string \<Rightarrow> string" where
  "escapeListName [] = []"
| "escapeListName (c # cs) =
     (if c = CHR 0x22 then [CHR 0x5C, CHR 0x22]
      else if c = CHR 0x5C then [CHR 0x5C, CHR 0x5C]
      else [c]) @ escapeListName cs"

definition quoted_name :: "string \<Rightarrow> string" where
  "quoted_name n = CHR 0x22 # escapeListName n @ [CHR 0x22]"

text \<open>
  The first \<open>writeFileItem\<close>: the text written, and the offset of the modification time in it that
  goes to \<open>change_identicator_off\<close> (\<open>None\<close>: the pointer is left alone).
\<close>

definition writeFileItem_text :: "SFile \<Rightarrow> string \<times> nat option" where
  "writeFileItem_text cf =
     (if isdir cf
      then (if name cf \<noteq> ''..''
            then let towrite = ''d'' @ quoted_name (name cf) @ '' 0 '';
                     change_identicator_off = length towrite
                 in (towrite @ convert_int64 (last_modified cf) @ [CHR 0x0A], Some change_identicator_off)
            else (''u'' @ [CHR 0x0A], None))
      else let towrite = ''f'' @ quoted_name (name cf) @ '' '' @ convert_int64 (size cf) @ '' '';
               change_identicator_off = length towrite
           in (towrite @ convert_int64 (last_modified cf) @ [CHR 0x0A], Some change_identicator_off))"

definition writeFileItem ::
  "(nat \<Rightarrow> nat \<Rightarrow> nat) \<Rightarrow> ofile \<Rightarrow> SFile \<Rightarrow> nat \<Rightarrow> nat option \<Rightarrow> (ofile \<times> nat \<times> nat option) option" where
  "writeFileItem accept f cf written change_off =
     (let (towrite, off) = writeFileItem_text cf
      in map_option (\<lambda>f. (f, written + length towrite,
                          case off of Some o' \<Rightarrow> Some o' | None \<Rightarrow> change_off))
           (writeFileRepeat accept f towrite))"

text \<open>The second \<open>writeFileItem\<close>, with extra parameters.\<close>

definition fix_extra :: "string \<Rightarrow> string" where
  "fix_extra extra = (case extra of c # cs \<Rightarrow> (if c = CHR ''&'' then CHR ''#'' else c) # cs | [] \<Rightarrow> [])"

definition writeFileItemExtra_text :: "SFile \<Rightarrow> string \<Rightarrow> string" where
  "writeFileItemExtra_text cf extra =
     (let extra = fix_extra extra
      in if isdir cf
         then (if name cf \<noteq> ''..''
               then ''d'' @ quoted_name (name cf) @ '' 0 '' @ convert_int64 (last_modified cf) @ extra @ [CHR 0x0A]
               else ''u'' @ [CHR 0x0A])
         else ''f'' @ quoted_name (name cf) @ '' '' @ convert_int64 (size cf) @ '' ''
                @ convert_int64 (last_modified cf) @ extra @ [CHR 0x0A])"

definition writeFileItemExtra ::
  "(nat \<Rightarrow> nat \<Rightarrow> nat) \<Rightarrow> ofile \<Rightarrow> SFile \<Rightarrow> string \<Rightarrow> ofile option" where
  "writeFileItemExtra accept f cf extra = writeFileRepeat accept f (writeFileItemExtra_text cf extra)"

section \<open>Parsing\<close>

datatype ParseState =
    ParseState_Type
  | ParseState_TypeFinish
  | ParseState_Quote
  | ParseState_Name
  | ParseState_NameEscape
  | ParseState_NameFinish
  | ParseState_Filesize
  | ParseState_ModifiedTime
  | ParseState_ExtraParams

record FileListParser =
  state :: ParseState
  t_name :: string
  pos :: u64

definition FileListParser_init :: FileListParser where
  "FileListParser_init = \<lparr>state = ParseState_Type, t_name = [], pos = 0\<rparr>"

definition parser_reset :: "FileListParser \<Rightarrow> FileListParser" where
  "parser_reset p = p\<lparr>t_name := [], state := ParseState_Type, pos := 0\<rparr>"

text \<open>
  \<open>data\<close> and \<open>extra\<close> are in-out arguments of \<open>nextEntry\<close>; \<open>extra\<close> may be the null pointer (\<open>None\<close>).
  The result is \<open>None\<close> when \<open>t_name.erase(t_name.size()-1, 1)\<close> throws \<open>out_of_range\<close>, which it does
  on an empty name. The texts it logs are left out.
\<close>

type_synonym extra_arg = "(string \<rightharpoonup> string) option"

type_synonym next_result = "(bool \<times> FileListParser \<times> SFile \<times> extra_arg) option"

definition clear_extra :: "extra_arg \<Rightarrow> extra_arg" where
  "clear_extra extra = map_option (\<lambda>_. Map.empty) extra"

definition next_type :: "char \<Rightarrow> FileListParser \<Rightarrow> SFile \<Rightarrow> extra_arg \<Rightarrow> next_result" where
  "next_type ch p data extra =
     (if ch = CHR ''f'' then Some (False, p\<lparr>state := ParseState_Quote\<rparr>, data\<lparr>isdir := False\<rparr>, extra)
      else if ch = CHR ''d'' then Some (False, p\<lparr>state := ParseState_Quote\<rparr>, data\<lparr>isdir := True\<rparr>, extra)
      else if ch = CHR ''u'' then Some (False, p\<lparr>state := ParseState_TypeFinish\<rparr>, data\<lparr>isdir := True\<rparr>, extra)
      else Some (False, p, data, extra))"

definition next_type_finish :: "char \<Rightarrow> FileListParser \<Rightarrow> SFile \<Rightarrow> extra_arg \<Rightarrow> next_result" where
  "next_type_finish ch p data extra =
     (if ch = CHR 0x0A
      then Some (True, parser_reset p, data\<lparr>name := ''..'', last_modified := 0, size := 0\<rparr>, clear_extra extra)
      else Some (False, p, data, extra))"

definition next_name :: "char \<Rightarrow> FileListParser \<Rightarrow> SFile \<Rightarrow> extra_arg \<Rightarrow> next_result" where
  "next_name ch p data extra =
     (if state p = ParseState_Name \<and> ch = CHR 0x22
      then Some (False, p\<lparr>state := ParseState_NameFinish, t_name := t_name p @ [ch]\<rparr>, data, extra)
      else if state p = ParseState_Name \<and> ch = CHR 0x5C
      then Some (False, p\<lparr>state := ParseState_NameEscape\<rparr>, data, extra)
      else if state p = ParseState_NameFinish
      then Some (False, p\<lparr>state := ParseState_Name, t_name := t_name p @ [ch]\<rparr>, data, extra)
      else Some (False, p\<lparr>t_name := t_name p @ [ch]\<rparr>, data, extra))"

definition next_name_finish :: "char \<Rightarrow> FileListParser \<Rightarrow> SFile \<Rightarrow> extra_arg \<Rightarrow> next_result" where
  "next_name_finish ch p data extra =
     (if ch \<noteq> CHR 0x22
      then (if t_name p = [] then None
            else let data = data\<lparr>name := butlast (t_name p)\<rparr>; p = p\<lparr>t_name := []\<rparr>
                 in if isdir data \<and> name data = ''..''
                    then let data = data\<lparr>last_modified := 0, size := 0\<rparr>
                         in if ch = CHR 0x0A then Some (True, parser_reset p, data, clear_extra extra)
                            else Some (False, p\<lparr>state := ParseState_ExtraParams\<rparr>, data, extra)
                    else if isdir data \<and> ch = CHR 0x0A
                    then Some (True, parser_reset p, data\<lparr>last_modified := 0, size := 0\<rparr>, clear_extra extra)
                    else Some (False, p\<lparr>state := ParseState_Filesize\<rparr>, data, extra))
      else next_name ch p data extra)"

definition next_name_escape :: "char \<Rightarrow> FileListParser \<Rightarrow> SFile \<Rightarrow> extra_arg \<Rightarrow> next_result" where
  "next_name_escape ch p data extra =
     Some (False, p\<lparr>t_name := t_name p @ (if ch \<noteq> CHR 0x22 \<and> ch \<noteq> CHR 0x5C then [CHR 0x5C] else []) @ [ch],
                    state := ParseState_Name\<rparr>, data, extra)"

definition next_filesize :: "char \<Rightarrow> FileListParser \<Rightarrow> SFile \<Rightarrow> extra_arg \<Rightarrow> next_result" where
  "next_filesize ch p data extra =
     (if ch \<noteq> CHR '' '' then Some (False, p\<lparr>t_name := t_name p @ [ch]\<rparr>, data, extra)
      else Some (False, p\<lparr>t_name := [], state := ParseState_ModifiedTime\<rparr>,
                 data\<lparr>size := os_atoi64 (t_name p)\<rparr>, extra))"

definition next_mtime :: "char \<Rightarrow> FileListParser \<Rightarrow> SFile \<Rightarrow> extra_arg \<Rightarrow> next_result" where
  "next_mtime ch p data extra =
     (if ch \<noteq> CHR 0x0A \<and> ch \<noteq> CHR ''#'' then Some (False, p\<lparr>t_name := t_name p @ [ch]\<rparr>, data, extra)
      else let data = data\<lparr>last_modified := os_atoi64 (t_name p)\<rparr>
           in if ch = CHR 0x0A then Some (True, parser_reset p, data, clear_extra extra)
              else Some (False, p\<lparr>t_name := [], state := ParseState_ExtraParams\<rparr>, data, extra))"

definition next_extra ::
  "(string \<Rightarrow> string) \<Rightarrow> char \<Rightarrow> FileListParser \<Rightarrow> SFile \<Rightarrow> extra_arg \<Rightarrow> next_result" where
  "next_extra lu ch p data extra =
     (if ch \<noteq> CHR 0x0A then Some (False, p\<lparr>t_name := t_name p @ [ch]\<rparr>, data, extra)
      else Some (True, parser_reset p, data,
                 map_option (\<lambda>_. ParseParamStrHttp lu (t_name p) Map.empty False) extra))"

definition nextEntry ::
  "(string \<Rightarrow> string) \<Rightarrow> char \<Rightarrow> FileListParser \<Rightarrow> SFile \<Rightarrow> extra_arg \<Rightarrow> next_result" where
  "nextEntry lu ch p0 data extra =
     (let p = p0\<lparr>pos := pos p0 + 1\<rparr>
      in case state p of
           ParseState_Type \<Rightarrow> next_type ch p data extra
         | ParseState_TypeFinish \<Rightarrow> next_type_finish ch p data extra
         | ParseState_Quote \<Rightarrow> Some (False, p\<lparr>state := ParseState_Name\<rparr>, data, extra)
         | ParseState_NameFinish \<Rightarrow> next_name_finish ch p data extra
         | ParseState_Name \<Rightarrow> next_name ch p data extra
         | ParseState_NameEscape \<Rightarrow> next_name_escape ch p data extra
         | ParseState_Filesize \<Rightarrow> next_filesize ch p data extra
         | ParseState_ModifiedTime \<Rightarrow> next_mtime ch p data extra
         | ParseState_ExtraParams \<Rightarrow> next_extra lu ch p data extra)"

text \<open>The loop of every caller: feed the bytes of the list, keep what each finished entry left.\<close>

fun parse_list ::
  "(string \<Rightarrow> string) \<Rightarrow> string \<Rightarrow> FileListParser \<Rightarrow> SFile \<Rightarrow> extra_arg
    \<Rightarrow> ((SFile \<times> extra_arg) list \<times> FileListParser \<times> SFile \<times> extra_arg) option" where
  "parse_list lu [] p data extra = Some ([], p, data, extra)"
| "parse_list lu (c # cs) p data extra =
     (case nextEntry lu c p data extra of
        None \<Rightarrow> None
      | Some (finished, p, data, extra) \<Rightarrow>
          map_option (\<lambda>(es, r). ((if finished then [(data, extra)] else []) @ es, r))
            (parse_list lu cs p data extra))"

section \<open>Reading back what was written\<close>

definition mid :: "ParseState \<Rightarrow> string \<Rightarrow> FileListParser \<Rightarrow> bool" where
  "mid s t p \<longleftrightarrow> state p = s \<and> t_name p = t"

lemma parse_list_append:
  "parse_list lu (xs @ ys) p d e =
     (case parse_list lu xs p d e of
        None \<Rightarrow> None
      | Some (es, p', d', e') \<Rightarrow> map_option (\<lambda>(es', r). (es @ es', r)) (parse_list lu ys p' d' e'))"
  by (induction xs arbitrary: p d e)
    (auto split: option.splits simp: option.map_comp comp_def case_prod_unfold option.map_ident)

lemmas next_defs =
  nextEntry_def next_type_def next_type_finish_def next_name_def next_name_finish_def
  next_name_escape_def next_filesize_def next_mtime_def next_extra_def parser_reset_def Let_def

type_synonym feed_state = "ParseState \<times> string \<times> SFile \<times> extra_arg"

definition feeds ::
  "(string \<Rightarrow> string) \<Rightarrow> string \<Rightarrow> feed_state \<Rightarrow> (SFile \<times> extra_arg) list \<Rightarrow> feed_state \<Rightarrow> bool" where
  "feeds lu xs a es b \<longleftrightarrow>
     (case (a, b) of ((s, t, d, e), (s', t', d', e')) \<Rightarrow>
        \<forall>n. \<exists>n'. parse_list lu xs \<lparr>state = s, t_name = t, pos = n\<rparr> d e
                  = Some (es, \<lparr>state = s', t_name = t', pos = n'\<rparr>, d', e'))"

lemma feedsI:
  assumes "\<And>n. \<exists>n'. parse_list lu xs \<lparr>state = s, t_name = t, pos = n\<rparr> d e
                  = Some (es, \<lparr>state = s', t_name = t', pos = n'\<rparr>, d', e')"
  shows "feeds lu xs (s, t, d, e) es (s', t', d', e')"
  using assms by (simp add: feeds_def)

lemma feeds_Nil [simp, intro]: "feeds lu [] a [] a"
  by (auto simp: feeds_def split: prod.splits)

lemma feeds_append:
  assumes "feeds lu xs a es b" and "feeds lu ys b es' c"
  shows "feeds lu (xs @ ys) a (es @ es') c"
proof -
  obtain s t d e s' t' d' e' s'' t'' d'' e'' where abc:
    "a = (s, t, d, e)" "b = (s', t', d', e')" "c = (s'', t'', d'', e'')"
    by (meson prod_cases4)
  show ?thesis
    unfolding abc
  proof (rule feedsI)
    fix n
    from assms(1) obtain m where m: "parse_list lu xs \<lparr>state = s, t_name = t, pos = n\<rparr> d e
        = Some (es, \<lparr>state = s', t_name = t', pos = m\<rparr>, d', e')"
      by (auto simp: feeds_def abc)
    from assms(2) obtain k where k: "parse_list lu ys \<lparr>state = s', t_name = t', pos = m\<rparr> d' e'
        = Some (es', \<lparr>state = s'', t_name = t'', pos = k\<rparr>, d'', e'')"
      by (auto simp: feeds_def abc)
    from m k show "\<exists>n'. parse_list lu (xs @ ys) \<lparr>state = s, t_name = t, pos = n\<rparr> d e
       = Some (es @ es', \<lparr>state = s'', t_name = t'', pos = n'\<rparr>, d'', e'')"
      by (simp add: parse_list_append)
  qed
qed

lemma feeds_Cons:
  assumes "feeds lu [x] a es b" and "feeds lu xs b es' c"
  shows "feeds lu (x # xs) a (es @ es') c"
  using feeds_append [OF assms] by simp

lemma feeds_name_char:
  "feeds lu (escapeListName [c]) (ParseState_Name, t, d, e) [] (ParseState_Name, t @ [c], d, e)"
  by (auto simp: feeds_def next_defs)

lemma feeds_name:
  "feeds lu (escapeListName nm) (ParseState_Name, t, d, e) [] (ParseState_Name, t @ nm, d, e)"
proof (induction nm arbitrary: t)
  case (Cons c nm)
  from feeds_append [OF feeds_name_char [of lu c t d e] Cons]
  show ?case by simp
qed simp

definition item_type :: "bool \<Rightarrow> string" where
  "item_type isd = (if isd then ''d'' else ''f'')"

lemma feeds_head:
  "feeds lu (item_type isd @ quoted_name nm) (ParseState_Type, [], d, e) []
     (ParseState_NameFinish, nm @ [CHR 0x22], d\<lparr>isdir := isd\<rparr>, e)"
proof -
  have "feeds lu (item_type isd @ [CHR 0x22]) (ParseState_Type, [], d, e) []
     (ParseState_Name, [], d\<lparr>isdir := isd\<rparr>, e)"
    by (auto simp: feeds_def next_defs item_type_def)
  moreover have "feeds lu [CHR 0x22] (ParseState_Name, nm, d\<lparr>isdir := isd\<rparr>, e) []
     (ParseState_NameFinish, nm @ [CHR 0x22], d\<lparr>isdir := isd\<rparr>, e)"
    by (auto simp: feeds_def next_defs)
  moreover note feeds_name [of lu nm "[]" "d\<lparr>isdir := isd\<rparr>" e]
  ultimately show ?thesis
    using feeds_append [OF _ feeds_append, of lu _ _ "[]" _ _ "[]" _ _ "[]"]
    by (fastforce simp: quoted_name_def)
qed

lemma feeds_name_end:
  assumes "\<not> (isdir d \<and> nm = ''..'')"
  shows "feeds lu '' '' (ParseState_NameFinish, nm @ [CHR 0x22], d, e) []
     (ParseState_Filesize, [], d\<lparr>name := nm\<rparr>, e)"
  using assms by (auto simp: feeds_def next_defs)

lemma feeds_size_text:
  "CHR '' '' \<notin> set cs \<Longrightarrow>
   feeds lu cs (ParseState_Filesize, t, d, e) [] (ParseState_Filesize, t @ cs, d, e)"
proof (induction cs arbitrary: t)
  case (Cons c cs)
  have "feeds lu [c] (ParseState_Filesize, t, d, e) [] (ParseState_Filesize, t @ [c], d, e)"
    using Cons.prems by (auto simp: feeds_def next_defs)
  from feeds_Cons [OF this Cons.IH] Cons.prems show ?case by simp
qed simp

lemma feeds_mtime_text:
  "CHR 0x0A \<notin> set cs \<Longrightarrow> CHR ''#'' \<notin> set cs \<Longrightarrow>
   feeds lu cs (ParseState_ModifiedTime, t, d, e) [] (ParseState_ModifiedTime, t @ cs, d, e)"
proof (induction cs arbitrary: t)
  case (Cons c cs)
  have "feeds lu [c] (ParseState_ModifiedTime, t, d, e) [] (ParseState_ModifiedTime, t @ [c], d, e)"
    using Cons.prems by (auto simp: feeds_def next_defs)
  from feeds_Cons [OF this Cons.IH] Cons.prems show ?case by simp
qed simp

lemma feeds_extra_text:
  "CHR 0x0A \<notin> set cs \<Longrightarrow>
   feeds lu cs (ParseState_ExtraParams, t, d, e) [] (ParseState_ExtraParams, t @ cs, d, e)"
proof (induction cs arbitrary: t)
  case (Cons c cs)
  have "feeds lu [c] (ParseState_ExtraParams, t, d, e) [] (ParseState_ExtraParams, t @ [c], d, e)"
    using Cons.prems by (auto simp: feeds_def next_defs)
  from feeds_Cons [OF this Cons.IH] Cons.prems show ?case by simp
qed simp

lemma convert_int64_plain:
  "CHR '' '' \<notin> set (convert_int64 i)" "CHR 0x0A \<notin> set (convert_int64 i)" "CHR ''#'' \<notin> set (convert_int64 i)"
  unfolding convert_int64_def by (rule show_int_avoids; simp add: is_digit_def code_def)+

lemma feeds_size:
  "feeds lu (convert_int64 sz @ '' '') (ParseState_Filesize, [], d, e) []
     (ParseState_ModifiedTime, [], d\<lparr>size := sz\<rparr>, e)"
proof -
  have "feeds lu '' '' (ParseState_Filesize, convert_int64 sz, d, e) []
     (ParseState_ModifiedTime, [], d\<lparr>size := sz\<rparr>, e)"
    by (auto simp: feeds_def next_defs)
  then show ?thesis
    using feeds_append [OF feeds_size_text [of "convert_int64 sz" lu "[]" d e, simplified]]
    by (fastforce simp: convert_int64_plain)
qed

lemma feeds_mtime:
  "feeds lu (convert_int64 mt) (ParseState_ModifiedTime, [], d, e) []
     (ParseState_ModifiedTime, convert_int64 mt, d, e)"
  using feeds_mtime_text [of "convert_int64 mt" lu "[]"] by (simp add: convert_int64_plain)

lemma convert_int64_0: "convert_int64 0 = ''0''"
  by code_simp

text \<open>A whole line up to the modification time.\<close>

definition item_size :: "SFile \<Rightarrow> u64" where
  "item_size cf = (if isdir cf then 0 else size cf)"

definition item_prefix :: "SFile \<Rightarrow> string" where
  "item_prefix cf = (item_type (isdir cf) @ quoted_name (name cf)) @ '' '' @
     (convert_int64 (item_size cf) @ '' '') @ convert_int64 (last_modified cf)"

lemma feeds_prefix:
  assumes "\<not> (isdir cf \<and> name cf = ''..'')"
  shows "feeds lu (item_prefix cf) (ParseState_Type, [], d, e) []
    (ParseState_ModifiedTime, convert_int64 (last_modified cf), d\<lparr>isdir := isdir cf, name := name cf, size := item_size cf\<rparr>, e)"
proof -
  have d: "\<not> (isdir (d\<lparr>isdir := isdir cf\<rparr>) \<and> name cf = ''..'')" using assms by simp
  note 1 = feeds_append [OF feeds_head [of lu "isdir cf" "name cf" d e] feeds_name_end [OF d]]
  note 2 = feeds_append [OF 1 feeds_size [of lu "item_size cf"]]
  note 3 = feeds_append [OF 2 feeds_mtime [of lu "last_modified cf"]]
  from 3 show ?thesis by (simp add: item_prefix_def)
qed

definition data_after :: "SFile \<Rightarrow> SFile \<Rightarrow> SFile" where
  "data_after d cf =
     (if isdir cf \<and> name cf = ''..'' then d\<lparr>isdir := True, name := ''..'', last_modified := 0, size := 0\<rparr>
      else d\<lparr>isdir := isdir cf, name := name cf, size := item_size cf, last_modified := last_modified cf\<rparr>)"

lemma feeds_item_plain:
  "feeds lu (fst (writeFileItem_text cf)) (ParseState_Type, [], d, e)
     [(data_after d cf, clear_extra e)] (ParseState_Type, [], data_after d cf, clear_extra e)"
proof (cases "isdir cf \<and> name cf = ''..''")
  case True
  then show ?thesis by (auto simp: feeds_def next_defs writeFileItem_text_def data_after_def)
next
  case False
  have "fst (writeFileItem_text cf) = item_prefix cf @ [CHR 0x0A]"
    using False by (auto simp: writeFileItem_text_def item_prefix_def item_type_def item_size_def convert_int64_0 Let_def)
  moreover have "feeds lu [CHR 0x0A] 
     (ParseState_ModifiedTime, convert_int64 (last_modified cf), d\<lparr>isdir := isdir cf, name := name cf, size := item_size cf\<rparr>, e)
     [(data_after d cf, clear_extra e)] (ParseState_Type, [], data_after d cf, clear_extra e)"
    using False by (auto simp: feeds_def next_defs data_after_def)
  ultimately show ?thesis using feeds_append [OF feeds_prefix [OF False]] by fastforce
qed

text \<open>Extra parameters: one \<open>&key=value\<close> group per pair, as the callers build them.\<close>

definition extra_string :: "(string \<times> string) list \<Rightarrow> string" where
  "extra_string kvs = concat (map (\<lambda>(k, v). ''&'' @ k @ ''='' @ EscapeParamString v) kvs)"

definition extra_ok :: "(string \<times> string) list \<Rightarrow> bool" where
  "extra_ok kvs \<longleftrightarrow> list_all (\<lambda>(k, v). k \<noteq> [] \<and> CHR ''='' \<notin> set k \<and> CHR 0x0A \<notin> set k) kvs"

lemma extra_string_Cons: "extra_string ((k, v) # kvs) = ''&'' @ k @ ''='' @ EscapeParamString v @ extra_string kvs"
  by (simp add: extra_string_def)

lemma parse_param_group:
  "CHR ''='' \<notin> set k \<Longrightarrow>
   parse_param_loop lu False False [] [] (k @ ''='' @ EscapeParamString v @ s) m
     = parse_param_loop lu False True k (EscapeParamString v) s m"
  using EscapeParamString_avoids [of v] by (simp add: parse_param_key parse_param_val)

lemma parse_param_extra:
  assumes "extra_ok kvs" and "key \<noteq> []"
  shows "parse_param_loop lu False True key (EscapeParamString v) (extra_string kvs) m
    = map_of kvs ++ map_insert m key v"
  using assms
proof (induction kvs arbitrary: key v m)
  case Nil
  then show ?case by (simp add: extra_string_def param_value_def htmldecode_Escape)
next
  case (Cons kv kvs)
  obtain k w where kv: "kv = (k, w)" by fastforce
  with Cons.prems have k: "CHR ''='' \<notin> set k" "k \<noteq> []" "extra_ok kvs" by (auto simp: extra_ok_def)
  have "parse_param_loop lu False True key (EscapeParamString v) (extra_string (kv # kvs)) m
      = map_of kvs ++ map_insert (map_insert m key v) k w"
    unfolding kv extra_string_Cons
    using Cons.IH [OF k(3) k(2)] parse_param_group [OF k(1)]
    by (simp add: param_value_def htmldecode_Escape)
  then show ?case
    by (auto simp: kv map_insert_def map_add_def fun_eq_iff split: option.splits)
qed

lemma parse_extra:
  assumes "extra_ok kvs"
  shows "ParseParamStrHttp lu (tl (extra_string kvs)) Map.empty False = map_of kvs"
proof (cases kvs)
  case Nil
  then show ?thesis by (simp add: extra_string_def ParseParamStrHttp_def)
next
  case (Cons kv kvs')
  obtain k w where kv: "kv = (k, w)" by fastforce
  with Cons assms have k: "CHR ''='' \<notin> set k" "k \<noteq> []" "extra_ok kvs'" by (auto simp: extra_ok_def)
  then have "ParseParamStrHttp lu (tl (extra_string kvs)) Map.empty False = map_of kvs' ++ map_insert Map.empty k w"
    using parse_param_group [OF k(1)]
    by (simp add: Cons kv extra_string_Cons ParseParamStrHttp_def parse_param_extra)
  then show ?thesis
    by (auto simp: Cons kv map_insert_def map_add_def fun_eq_iff split: option.splits)
qed

lemma extra_string_clean:
  "extra_ok kvs \<Longrightarrow> CHR 0x0A \<notin> set (extra_string kvs)"
  using EscapeParamString_avoids by (auto simp: extra_ok_def extra_string_def list_all_iff)

lemma fix_extra_string:
  "kvs \<noteq> [] \<Longrightarrow> fix_extra (extra_string kvs) = CHR ''#'' # tl (extra_string kvs)"
  by (cases kvs) (auto simp: extra_string_def fix_extra_def)

definition extra_after :: "extra_arg \<Rightarrow> SFile \<Rightarrow> (string \<times> string) list \<Rightarrow> extra_arg" where
  "extra_after e cf kvs =
     (if isdir cf \<and> name cf = ''..'' then clear_extra e else map_option (\<lambda>_. map_of kvs) e)"

lemma feeds_item:
  assumes "extra_ok kvs"
  shows "feeds lu (writeFileItemExtra_text cf (extra_string kvs)) (ParseState_Type, [], d, e)
     [(data_after d cf, extra_after e cf kvs)]
     (ParseState_Type, [], data_after d cf, extra_after e cf kvs)"
proof (cases "kvs = [] \<or> isdir cf \<and> name cf = ''..''")
  case True
  then have "writeFileItemExtra_text cf (extra_string kvs) = fst (writeFileItem_text cf)"
     and "extra_after e cf kvs = clear_extra e"
    by (auto simp: writeFileItemExtra_text_def writeFileItem_text_def fix_extra_def extra_string_def Let_def
        extra_after_def clear_extra_def)
  then show ?thesis using feeds_item_plain by simp
next
  case False
  then have nd: "\<not> (isdir cf \<and> name cf = ''..'')" by simp
  let ?d = "d\<lparr>isdir := isdir cf, name := name cf, size := item_size cf\<rparr>"
  let ?x = "tl (extra_string kvs)"
  have line: "writeFileItemExtra_text cf (extra_string kvs)
      = item_prefix cf @ ''#'' @ ?x @ [CHR 0x0A]"
    using False by (auto simp: writeFileItemExtra_text_def item_prefix_def item_type_def item_size_def
        convert_int64_0 Let_def fix_extra_string)
  have f1: "feeds lu ''#'' (ParseState_ModifiedTime, convert_int64 (last_modified cf), ?d, e) []
     (ParseState_ExtraParams, [], data_after d cf, e)"
    using nd by (auto simp: feeds_def next_defs data_after_def)
  have "CHR 0x0A \<notin> set ?x"
    using extra_string_clean [OF assms] by (metis list.set_sel(2) tl_Nil)
  from feeds_extra_text [OF this, of lu "[]"]
  have f2: "feeds lu ?x (ParseState_ExtraParams, [], data_after d cf, e) []
     (ParseState_ExtraParams, ?x, data_after d cf, e)" by simp
  have f3: "feeds lu [CHR 0x0A] (ParseState_ExtraParams, ?x, data_after d cf, e)
     [(data_after d cf, extra_after e cf kvs)] (ParseState_Type, [], data_after d cf, extra_after e cf kvs)"
    using nd by (auto simp: feeds_def next_defs extra_after_def parse_extra [OF assms])
  from feeds_append [OF feeds_prefix [OF nd] feeds_append [OF f1 feeds_append [OF f2 f3]]]
  show ?thesis unfolding line by simp
qed

text \<open>A whole list: what each entry leaves behind, the reader's \<open>data\<close> being threaded through.\<close>

fun list_text :: "(SFile \<times> (string \<times> string) list) list \<Rightarrow> string" where
  "list_text [] = []"
| "list_text ((cf, kvs) # es) = writeFileItemExtra_text cf (extra_string kvs) @ list_text es"

fun list_result ::
  "SFile \<Rightarrow> extra_arg \<Rightarrow> (SFile \<times> (string \<times> string) list) list \<Rightarrow> (SFile \<times> extra_arg) list" where
  "list_result d e [] = []"
| "list_result d e ((cf, kvs) # es) =
     (data_after d cf, extra_after e cf kvs) # list_result (data_after d cf) (extra_after e cf kvs) es"

lemma feeds_list:
  assumes "list_all (\<lambda>(cf, kvs). extra_ok kvs) es"
  shows "\<exists>d' e'. feeds lu (list_text es) (ParseState_Type, [], d, e) (list_result d e es)
           (ParseState_Type, [], d', e')"
  using assms
proof (induction es arbitrary: d e)
  case Nil
  then show ?case by auto
next
  case (Cons x es)
  obtain cf kvs where x: "x = (cf, kvs)" by fastforce
  from Cons.prems x have "extra_ok kvs" "list_all (\<lambda>(cf, kvs). extra_ok kvs) es" by auto
  with Cons.IH obtain d' e' where
    "feeds lu (list_text es) (ParseState_Type, [], data_after d cf, extra_after e cf kvs)
       (list_result (data_after d cf) (extra_after e cf kvs) es) (ParseState_Type, [], d', e')"
    by blast
  from feeds_append [OF feeds_item [OF \<open>extra_ok kvs\<close>] this]
  show ?case by (auto simp: x)
qed

text \<open>What the format keeps of an entry.\<close>

definition listed :: "SFile \<Rightarrow> SFile" where
  "listed cf =
     SFile_init\<lparr>isdir := isdir cf, name := name cf,
       size := (if isdir cf then 0 else size cf),
       last_modified := (if isdir cf \<and> name cf = ''..'' then 0 else last_modified cf)\<rparr>"

lemma list_result_listed:
  assumes "usn d = 0" "created d = 0" "accessed d = 0" "\<not> issym d" "\<not> isspecialf d" "\<not> isencrypted d" "nlinks d = 0"
    and "e \<noteq> None"
  shows "list_result d e es = map (\<lambda>(cf, kvs). (listed cf,
      Some (if isdir cf \<and> name cf = ''..'' then Map.empty else map_of kvs))) es"
  using assms
proof (induction es arbitrary: d e)
  case (Cons x es)
  obtain cf kvs where x: "x = (cf, kvs)" by fastforce
  have "data_after d cf = listed cf"
    using Cons.prems by (simp add: data_after_def listed_def SFile_init_def item_size_def)
  moreover have "extra_after e cf kvs = Some (if isdir cf \<and> name cf = ''..'' then Map.empty else map_of kvs)"
    using Cons.prems by (auto simp: extra_after_def clear_extra_def)
  moreover note Cons.IH [of "listed cf" "extra_after e cf kvs"]
  moreover have "usn (listed cf) = 0" "created (listed cf) = 0" "accessed (listed cf) = 0" "\<not> issym (listed cf)"
    "\<not> isspecialf (listed cf)" "\<not> isencrypted (listed cf)" "nlinks (listed cf) = 0"
    by (simp_all add: listed_def SFile_init_def)
  ultimately show ?case by (simp add: x)
qed simp

lemma parse_list_text:
  assumes "list_all (\<lambda>(cf, kvs). extra_ok kvs) es"
  shows "\<exists>p d e. parse_list lu (list_text es) FileListParser_init SFile_init (Some Map.empty)
    = Some (map (\<lambda>(cf, kvs). (listed cf,
              Some (if isdir cf \<and> name cf = ''..'' then Map.empty else map_of kvs))) es, p, d, e)
    \<and> state p = ParseState_Type \<and> t_name p = []"
proof -
  obtain d e where "feeds lu (list_text es) (ParseState_Type, [], SFile_init, Some Map.empty)
     (list_result SFile_init (Some Map.empty) es) (ParseState_Type, [], d, e)"
    using feeds_list [OF assms] by blast
  then obtain n where "parse_list lu (list_text es) FileListParser_init SFile_init (Some Map.empty)
      = Some (list_result SFile_init (Some Map.empty) es, \<lparr>state = ParseState_Type, t_name = [], pos = n\<rparr>, d, e)"
    by (auto simp: feeds_def FileListParser_init_def)
  then show ?thesis
    by (subst (asm) list_result_listed) (simp_all add: SFile_init_def)
qed

definition parser_ok :: "FileListParser \<Rightarrow> bool" where
  "parser_ok p \<longleftrightarrow> (state p = ParseState_NameFinish \<longrightarrow> t_name p \<noteq> [] \<and> last (t_name p) = CHR 0x22)"

lemma nextEntry_ok:
  assumes "parser_ok p"
  shows "case nextEntry lu ch p d e of None \<Rightarrow> False
    | Some (fin, p', d', e') \<Rightarrow> parser_ok p' \<and> (fin \<longrightarrow> ch = CHR 0x0A \<and> t_name p' = [] \<and> state p' = ParseState_Type)"
  using assms unfolding parser_ok_def
  by (cases "state p") (simp_all add: next_defs)

lemma parse_list_total:
  assumes "parser_ok p"
  shows "\<exists>es p' d' e'. parse_list lu s p d e = Some (es, p', d', e') \<and> parser_ok p'
     \<and> length es \<le> length (filter (\<lambda>c. c = CHR 0x0A) s)"
  using assms
proof (induction s arbitrary: p d e)
  case (Cons c s)
  from nextEntry_ok [OF Cons.prems, where lu = lu and ch = c and d = d and e = e] obtain fin p' d' e' where
    n: "nextEntry lu c p d e = Some (fin, p', d', e')" "parser_ok p'" "fin \<longrightarrow> c = CHR 0x0A"
    by (auto split: option.splits)
  obtain es p'' d'' e'' where
    r: "parse_list lu s p' d' e' = Some (es, p'', d'', e'')" "parser_ok p''"
      "length es \<le> length (filter (\<lambda>c. c = CHR 0x0A) s)"
    using Cons.IH [OF n(2), of d' e'] by blast
  show ?case
    by (intro exI [of _ "(if fin then [(d', e')] else []) @ es"] exI [of _ p''] exI [of _ d''] exI [of _ e''])
      (use n r in auto)
qed simp

section \<open>Complete writes\<close>

lemma write_loop_step:
  assumes len: "length buf < 2 ^ 32" and w: "w \<le> length buf"
  shows "write_loop accept buf (of_nat w) f =
    (let (rc, f') = Write accept (drop w buf) f
     in if w + rc < length buf then write_loop accept buf (of_nat (w + rc)) f' else Some f')"
proof -
  have w32: "w < 2 ^ 32" using assms by simp
  have uw: "unat (of_nat w :: u32) = w"
    by (rule unat_of_nat_small) (use w32 in simp)
  have cw: "(ucast (of_nat w :: u32) :: u64) = of_nat w"
    by (rule ucast_of_nat_small) (use w32 in simp)
  have d: "(of_nat (length buf) - of_nat w :: u64) = of_nat (length buf - w)"
    using w by simp
  have n: "unat (ucast (of_nat (length buf - w) :: u64) :: u32) = length buf - w"
    by (subst ucast_of_nat_small) (use len in \<open>auto intro: unat_of_nat_small less_le_trans\<close>)
  obtain rc f' where wr: "Write accept (drop w buf) f = (rc, f')" by fastforce
  then have rc: "rc \<le> length buf - w" by (auto simp: Write_def Let_def)
  then have wrc: "w + rc < 2 ^ 32" using w len by simp
  have c2: "(ucast (of_nat w + of_nat rc :: u32) :: u64) = of_nat (w + rc)"
    by (subst of_nat_add [symmetric], rule ucast_of_nat_small) (use wrc in simp)
  have less: "(of_nat (w + rc) :: u64) < of_nat (length buf) \<longleftrightarrow> w + rc < length buf"
    by (rule of_nat_less_small) (use wrc len in auto)
  show ?thesis
    by (subst write_loop.simps)
      (simp only: Let_def cw d n uw wr prod.case less [unfolded c2 [symmetric]] take_all length_drop
        order_refl of_nat_add)
qed

definition eventually_writes :: "(nat \<Rightarrow> nat \<Rightarrow> nat) \<Rightarrow> bool" where
  "eventually_writes accept \<longleftrightarrow> (\<forall>i. \<exists>j. \<forall>n. 0 < n \<longrightarrow> 0 < accept (i + j) n)"

lemma write_loop_done:
  assumes len: "length buf < 2 ^ 32" and "w \<le> length buf" and ev: "eventually_writes accept"
  shows "\<exists>k. write_loop accept buf (of_nat w) f
    = Some (f\<lparr>contents := contents f @ drop w buf, calls := k\<rparr>)"
  using assms(2)
proof (induction "length buf - w" arbitrary: w f rule: less_induct)
  case less
  have prog: "\<exists>k. write_loop accept buf (of_nat w) f
      = Some (f\<lparr>contents := contents f @ drop w buf, calls := k\<rparr>)"
    if "w = length buf \<or> 0 < fst (Write accept (drop w buf) f)" for f
  proof -
    obtain rc f' where wr: "Write accept (drop w buf) f = (rc, f')" by fastforce
    then have f': "f' = f\<lparr>contents := contents f @ take rc (drop w buf), calls := Suc (calls f)\<rparr>"
      and rc: "rc \<le> length buf - w" by (auto simp: Write_def Let_def)
    show ?thesis
    proof (cases "w + rc < length buf")
      case True
      with that wr have "length buf - (w + rc) < length buf - w" "w + rc \<le> length buf" by auto
      from less.hyps [OF this, of f'] obtain k where
        "write_loop accept buf (of_nat (w + rc)) f' = Some (f'\<lparr>contents := contents f' @ drop (w + rc) buf, calls := k\<rparr>)"
        by blast
      moreover have "take rc (drop w buf) @ drop (w + rc) buf = drop w buf"
        by (metis append_take_drop_id drop_drop add.commute)
      ultimately show ?thesis using True
        by (simp add: write_loop_step [OF len less.prems] wr del: of_nat_add) (auto simp: f')
    next
      case False
      with rc have "take rc (drop w buf) = drop w buf" by simp
      with False show ?thesis
        by (auto simp: write_loop_step [OF len less.prems] wr f')
    qed
  qed
  obtain j where "\<forall>n>0. 0 < accept (calls f + j) n"
    using ev by (auto simp: eventually_writes_def)
  then show ?case
  proof (induction j arbitrary: f)
    case 0
    show ?case
      by (rule prog) (use 0 less.prems in \<open>auto simp: Write_def Let_def\<close>)
  next
    case (Suc j)
    show ?case
    proof (cases "w = length buf \<or> 0 < fst (Write accept (drop w buf) f)")
      case True
      then show ?thesis by (rule prog)
    next
      case False
      then have wr: "Write accept (drop w buf) f = (0, f\<lparr>calls := Suc (calls f)\<rparr>)"
        by (auto simp: Write_def Let_def)
      have "\<forall>n>0. 0 < accept (calls (f\<lparr>calls := Suc (calls f)\<rparr>) + j) n" using Suc.prems by simp
      from Suc.IH [OF this] False less.prems wr show ?thesis
        by (simp add: write_loop_step [OF len less.prems])
    qed
  qed
qed

lemma writeFileRepeat_complete:
  assumes "length buf < 2 ^ 32" and "eventually_writes accept"
  shows "\<exists>k. writeFileRepeat accept f buf = Some (f\<lparr>contents := contents f @ buf, calls := k\<rparr>)"
  using write_loop_done [OF assms(1) le0 assms(2)] by (simp add: writeFileRepeat_def)


fun write_list ::
  "(nat \<Rightarrow> nat \<Rightarrow> nat) \<Rightarrow> (SFile \<times> (string \<times> string) list) list \<Rightarrow> ofile \<Rightarrow> ofile option" where
  "write_list accept [] f = Some f"
| "write_list accept ((cf, kvs) # es) f =
     Option.bind (writeFileItemExtra accept f cf (extra_string kvs)) (write_list accept es)"

lemma write_list_complete:
  assumes "eventually_writes accept"
    and "list_all (\<lambda>(cf, kvs). length (writeFileItemExtra_text cf (extra_string kvs)) < 2 ^ 32) es"
  shows "\<exists>k. write_list accept es f = Some (f\<lparr>contents := contents f @ list_text es, calls := k\<rparr>)"
  using assms(2)
proof (induction es arbitrary: f)
  case Nil
  show ?case by (rule exI [of _ "calls f"]) simp
next
  case (Cons x es)
  obtain cf kvs where x: "x = (cf, kvs)" by fastforce
  let ?t = "writeFileItemExtra_text cf (extra_string kvs)"
  obtain k where "writeFileItemExtra accept f cf (extra_string kvs) = Some (f\<lparr>contents := contents f @ ?t, calls := k\<rparr>)"
    using writeFileRepeat_complete [OF _ assms(1), of ?t f] Cons.prems x
    by (auto simp: writeFileItemExtra_def)
  moreover have "\<exists>k'. write_list accept es (f\<lparr>contents := contents f @ ?t, calls := k\<rparr>)
      = Some (f\<lparr>contents := contents f @ list_text (x # es), calls := k'\<rparr>)"
    using Cons.IH [of "f\<lparr>contents := contents f @ ?t, calls := k\<rparr>"] Cons.prems x by simp
  ultimately show ?case by (simp add: x)
qed

section \<open>Properties\<close>

text \<open>
  C13: A file list survives writing and reading. Entries with arbitrary bytes in their names, any
  64-bit sizes and times and any parameter values are written completely even if the operating
  system accepts the data in arbitrary pieces and sometimes nothing (as long as it does not refuse
  for ever), and the parser, fed the file character by character, reports exactly these entries in
  order, without an exception and back in its initial state. Of a directory the size is not kept,
  of a directory named \<open>..\<close> (leave the current one) nothing but the name.
\<close>

theorem file_list_roundtrip:
  assumes "eventually_writes accept"
    and "list_all (\<lambda>(cf, kvs). extra_ok kvs) es"
    and "list_all (\<lambda>(cf, kvs). length (writeFileItemExtra_text cf (extra_string kvs)) < 2 ^ 32) es"
  shows "\<exists>f p d e. write_list accept es \<lparr>contents = [], calls = 0\<rparr> = Some f
    \<and> parse_list lu (contents f) FileListParser_init SFile_init (Some Map.empty)
      = Some (map (\<lambda>(cf, kvs). (listed cf,
                Some (if isdir cf \<and> name cf = ''..'' then Map.empty else map_of kvs))) es, p, d, e)
    \<and> state p = ParseState_Type \<and> t_name p = []"
  using write_list_complete [OF assms(1,3), of "\<lparr>contents = [], calls = 0\<rparr>"]
    parse_list_text [OF assms(2), of lu] by auto

theorem file_list_roundtrip_witness:
  "\<exists>f p d e. write_list (\<lambda>i n. if even i then 0 else 3)
       [(SFile_init\<lparr>name := ''a'', isdir := True\<rparr>, []),
        (SFile_init\<lparr>name := [CHR ''b'', CHR 0x22], size := 5, last_modified := - 1\<rparr>, [(''k'', ''1&2'')]),
        (SFile_init\<lparr>name := ''..'', isdir := True\<rparr>, [])] \<lparr>contents = [], calls = 0\<rparr> = Some f
    \<and> parse_list id (contents f) FileListParser_init SFile_init (Some Map.empty)
      = Some ([(SFile_init\<lparr>name := ''a'', isdir := True\<rparr>, Some Map.empty),
         (SFile_init\<lparr>name := [CHR ''b'', CHR 0x22], size := 5, last_modified := - 1\<rparr>, Some [''k'' \<mapsto> ''1&2'']),
         (SFile_init\<lparr>name := ''..'', isdir := True\<rparr>, Some Map.empty)], p, d, e)"
proof -
  let ?es = "[(SFile_init\<lparr>name := ''a'', isdir := True\<rparr>, []),
        (SFile_init\<lparr>name := [CHR ''b'', CHR 0x22], size := 5, last_modified := - 1\<rparr>, [(''k'', ''1&2'')]),
        (SFile_init\<lparr>name := ''..'', isdir := True\<rparr>, [])]"
  have 1: "eventually_writes (\<lambda>i n. if even i then 0 else 3)"
    unfolding eventually_writes_def
  proof (rule allI)
    fix i :: nat
    show "\<exists>j. \<forall>n>0. 0 < (if even (i + j) then 0 else 3 :: nat)"
      by (rule exI [of _ "Suc i"]) simp
  qed
  have 2: "list_all (\<lambda>(cf, kvs). extra_ok kvs) ?es" by (simp add: extra_ok_def)
  have c: "convert_int64 0 = ''0''" "convert_int64 5 = ''5''" "convert_int64 (- 1) = ''-1''"
    by code_simp+
  have 3: "list_all (\<lambda>(cf, kvs). length (writeFileItemExtra_text cf (extra_string kvs)) < 2 ^ 32) ?es"
    by (simp add: writeFileItemExtra_text_def extra_string_def quoted_name_def fix_extra_def
        EscapeParamString_def escape_param_char_def SFile_init_def c)
  from file_list_roundtrip [OF 1 2 3, of id] show ?thesis
    by (simp add: listed_def SFile_init_def) blast
qed

text \<open>
  C21: The parser is total. Whatever bytes a file list holds (clients send it over the network),
  parsing it from any state the parser can be in never hits the exception of erasing from an empty
  name, every reported entry has consumed a line feed, and the invariant holds afterwards.
\<close>

theorem file_list_parser_total:
  assumes "parser_ok p"
  shows "\<exists>es p' d' e'. parse_list lu s p d e = Some (es, p', d', e') \<and> parser_ok p'
     \<and> length es \<le> length (filter (\<lambda>c. c = CHR 0x0A) s)"
  by (rule parse_list_total [OF assms])

theorem file_list_parser_total_witness:
  "\<exists>es p' d' e'. parse_list id ''xd-a'' FileListParser_init SFile_init None = Some (es, p', d', e')
     \<and> parser_ok p' \<and> length es \<le> 0"
proof -
  have "parser_ok FileListParser_init" by (simp add: parser_ok_def FileListParser_init_def)
  from file_list_parser_total [OF this, of id "''xd-a''" SFile_init None] show ?thesis by simp
qed

end
