(* ===== verification/Tree_Reader.thy ===== *)
theory Tree_Reader
  imports File_List
begin

text \<open>
  The trees the server compares to find out what changed: \<open>idrivebmrserver/treediff/TreeNode.cpp\<close> and
  \<open>TreeReader.cpp\<close>. A \<open>TreeReader\<close> holds a vector of nodes in the order of the file list; pointers to
  nodes are indices into that vector, the first child of a node is the next element. Names and data
  live in a string buffer whose size a first pass over the file computes; a write outside of it,
  an access outside the vector of nodes or the top of an empty stack is the outcome \<open>Undef\<close>.
\<close>

section \<open>Nodes\<close>

text \<open>The data of a node is one 64-bit integer for a directory and two for a file.\<close>

record TreeNode =
  node_type :: char
  node_name :: "string option"
  node_data :: "u64 list option"
  nextSibling :: "nat option"
  parent :: "nat option"
  mapped_node :: "nat option"
  num_children :: nat
  subtree_changed :: bool
  node_id :: nat

definition TreeNode_init :: TreeNode where
  "TreeNode_init =
     \<lparr>node_type = CHR 0x00, node_name = None, node_data = None, nextSibling = None, parent = None,
      mapped_node = None, num_children = 0, subtree_changed = False, node_id = 0\<rparr>"

definition getFirstChild :: "TreeNode list \<Rightarrow> nat \<Rightarrow> nat option" where
  "getFirstChild ns i = (if num_children (ns ! i) > 0 then Some (i + 1) else None)"

definition getNextSibling :: "TreeNode list \<Rightarrow> nat \<Rightarrow> nat option" where
  "getNextSibling ns i = nextSibling (ns ! i)"

text \<open>\<open>getChild\<close>, walking \<open>n\<close> siblings.\<close>

fun walk_siblings :: "TreeNode list \<Rightarrow> nat \<Rightarrow> nat option \<Rightarrow> nat option" where
  "walk_siblings ns n None = None"
| "walk_siblings ns 0 (Some i) = Some i"
| "walk_siblings ns (Suc n) (Some i) = walk_siblings ns n (getNextSibling ns i)"

definition getChild :: "TreeNode list \<Rightarrow> nat \<Rightarrow> nat \<Rightarrow> nat option" where
  "getChild ns i n = walk_siblings ns n (getFirstChild ns i)"

text \<open>The number of integers, \<open>getDataSize() / sizeof(int64)\<close>.\<close>

definition getDataSize :: "TreeNode \<Rightarrow> nat" where
  "getDataSize n = (if node_type n = CHR ''d'' then 1 else 2)"

definition getData :: "TreeNode \<Rightarrow> u64 list" where
  "getData n = (case node_data n of Some d \<Rightarrow> take (getDataSize n) d | None \<Rightarrow> [])"

definition strcmp :: "string \<Rightarrow> string \<Rightarrow> int" where
  "strcmp a b = (if a = b then 0 else if a < b then -1 else 1)"

definition nameCompare :: "TreeNode \<Rightarrow> TreeNode \<Rightarrow> int" where
  "nameCompare n other =
     (case (node_name n, node_name other) of
        (Some a, Some b) \<Rightarrow> strcmp a b
      | (None, None) \<Rightarrow> 0
      | (None, Some _) \<Rightarrow> -1
      | (Some _, None) \<Rightarrow> 1)"

definition nameEquals :: "TreeNode \<Rightarrow> TreeNode \<Rightarrow> bool" where
  "nameEquals n other =
     (case (node_name n, node_name other) of
        (Some a, Some b) \<Rightarrow> strcmp a b = 0
      | (a, b) \<Rightarrow> a = None \<and> b = None)"

definition dataEquals :: "TreeNode \<Rightarrow> TreeNode \<Rightarrow> bool" where
  "dataEquals n other =
     (if node_type n \<noteq> node_type other then False
      else (case (node_data n, node_data other) of
              (Some a, Some b) \<Rightarrow> take (getDataSize n) a = take (getDataSize n) b
            | (a, b) \<Rightarrow> a = None \<and> b = None))"

definition node_equals :: "TreeNode \<Rightarrow> TreeNode \<Rightarrow> bool" where
  "node_equals n other \<longleftrightarrow> nameEquals n other \<and> dataEquals n other"

definition update_node :: "nat \<Rightarrow> (TreeNode \<Rightarrow> TreeNode) \<Rightarrow> TreeNode list \<Rightarrow> TreeNode list" where
  "update_node i f ns = ns[i := f (ns ! i)]"

section \<open>Reading, first pass\<close>

datatype 'a outcome =
    Good 'a
  | Failed
  | Undef
  | Assertion_failed

datatype read_state = RS0 | RS1 | RS2 | RS5 | RS3 | RS4 | RS10

record scan =
  sc_state :: read_state
  sc_lines :: nat
  stringbuffer_size :: nat
  sc_name :: string
  ltype :: char

definition scan_init :: scan where
  "scan_init = \<lparr>sc_state = RS0, sc_lines = 0, stringbuffer_size = 0, sc_name = [], ltype = CHR 0x00\<rparr>"

text \<open>Case 10, at a line feed.\<close>

definition scan_finish :: "scan \<Rightarrow> scan" where
  "scan_finish sc =
     (let sc = sc\<lparr>sc_state := RS0\<rparr>;
          sc = (if ltype sc = CHR ''f'' then sc\<lparr>stringbuffer_size := stringbuffer_size sc + 16\<rparr> else sc);
          sc = (if ltype sc \<noteq> CHR ''d'' \<or> sc_name sc \<noteq> ''..''
                then sc\<lparr>stringbuffer_size := stringbuffer_size sc
                          + (if ltype sc = CHR ''d'' then 8 else 0) + (length (sc_name sc) + 1),
                        sc_lines := sc_lines sc + 1\<rparr>
                else sc)
      in sc\<lparr>sc_name := [], ltype := CHR 0x00\<rparr>)"

definition scan_char :: "scan \<Rightarrow> char \<Rightarrow> scan option" where
  "scan_char sc ch =
     (case sc_state sc of
        RS0 \<Rightarrow>
          if ch = CHR ''f'' \<or> ch = CHR ''d'' then Some (sc\<lparr>ltype := ch, sc_state := RS1\<rparr>)
          else if ch = CHR ''u'' then Some (sc\<lparr>sc_state := RS10, ltype := CHR ''d'', sc_name := ''..''\<rparr>)
          else None
      | RS1 \<Rightarrow> Some (sc\<lparr>sc_state := RS2\<rparr>)
      | RS2 \<Rightarrow>
          if ch = CHR 0x22 then Some (sc\<lparr>sc_state := RS3\<rparr>)
          else if ch = CHR 0x5C then Some (sc\<lparr>sc_state := RS5\<rparr>)
          else Some (sc\<lparr>sc_name := sc_name sc @ [ch]\<rparr>)
      | RS5 \<Rightarrow>
          Some (sc\<lparr>sc_name := sc_name sc
                     @ (if ch \<noteq> CHR 0x22 \<and> ch \<noteq> CHR 0x5C then [CHR 0x5C] else []) @ [ch],
                   sc_state := RS2\<rparr>)
      | RS3 \<Rightarrow>
          if ch = CHR '' '' then Some (sc\<lparr>sc_state := RS4\<rparr>)
          else if ch = CHR 0x0A then Some (scan_finish sc)
          else Some (sc\<lparr>sc_state := RS10\<rparr>)
      | RS4 \<Rightarrow> if ch \<noteq> CHR 0x0A then Some sc else Some (scan_finish sc)
      | RS10 \<Rightarrow> if ch = CHR 0x0A then Some (scan_finish sc) else Some sc)"

fun scan_chars :: "scan \<Rightarrow> string \<Rightarrow> scan option" where
  "scan_chars sc [] = Some sc"
| "scan_chars sc (c # cs) = Option.bind (scan_char sc c) (\<lambda>sc. scan_chars sc cs)"

section \<open>Reading, second pass\<close>

record builder =
  b_state :: read_state
  b_name :: string
  b_data :: string
  parents :: "nat list"
  lastNodes :: "nat list"
  firstChild :: bool
  b_idx :: nat
  b_nodes :: "TreeNode list"
  b_lines :: nat
  stringbuffer_pos :: nat
  stringbuffer_len :: nat

definition c_str :: "string \<Rightarrow> string" where
  "c_str s = takeWhile (\<lambda>c. c \<noteq> CHR 0x00) s"

definition builder_init :: "scan \<Rightarrow> builder" where
  "builder_init sc =
     \<lparr>b_state = RS0, b_name = [], b_data = [], parents = [0], lastNodes = [0], firstChild = True,
      b_idx = 1,
      b_nodes = TreeNode_init\<lparr>node_name := Some ''root''\<rparr> # replicate (sc_lines sc) TreeNode_init,
      b_lines = 0, stringbuffer_pos = length ''root'' + 1,
      stringbuffer_len = stringbuffer_size sc + 5\<rparr>"

text \<open>The integers stored behind the name, from the text between the name and the line feed.\<close>

definition item_data :: "string \<Rightarrow> u64 list" where
  "item_data data =
     (let sdata = tl data
      in if hd data = CHR ''f''
         then [os_atoi64 (getuntil '' '' sdata), os_atoi64 (getafter '' '' sdata)]
         else [os_atoi64 (getafter '' '' sdata)])"

definition link_sibling :: "nat \<Rightarrow> builder \<Rightarrow> builder" where
  "link_sibling idx b =
     (if firstChild b then b\<lparr>lastNodes := idx # lastNodes b, firstChild := False\<rparr>
      else b\<lparr>b_nodes := update_node (hd (lastNodes b)) (\<lambda>n. n\<lparr>nextSibling := Some idx\<rparr>) (b_nodes b),
             lastNodes := idx # tl (lastNodes b)\<rparr>)"

definition link_parent :: "nat \<Rightarrow> builder \<Rightarrow> builder" where
  "link_parent idx b =
     (case parents b of
        [] \<Rightarrow> b
      | p # ps \<Rightarrow>
          b\<lparr>b_nodes := update_node idx (\<lambda>n. n\<lparr>parent := Some p\<rparr>)
                        (update_node p (\<lambda>n. n\<lparr>num_children := num_children n + 1\<rparr>) (b_nodes b))\<rparr>)"

definition build_node :: "builder \<Rightarrow> builder outcome" where
  "build_node b =
     (let idx = b_idx b; ch = hd (b_data b); vals = item_data (b_data b);
          end_pos = stringbuffer_pos b + (length (b_name b) + 1) + 8 * length vals
      in if b_data b = [] \<or> idx \<ge> length (b_nodes b) \<or> end_pos > stringbuffer_len b
            \<or> \<not> firstChild b \<and> lastNodes b = []
         then Undef
         else let b = b\<lparr>b_nodes := update_node idx
                         (\<lambda>n. n\<lparr>node_name := Some (c_str (b_name b)), node_id := b_lines b,
                                node_type := ch, node_data := Some vals\<rparr>) (b_nodes b),
                        stringbuffer_pos := end_pos\<rparr>;
                  b = link_parent idx (link_sibling idx b);
                  b = (if ch = CHR ''d'' then b\<lparr>parents := idx # parents b, firstChild := True\<rparr> else b)
              in Good (b\<lparr>b_idx := idx + 1\<rparr>))"

definition build_up :: "builder \<Rightarrow> builder outcome" where
  "build_up b =
     (if parents b = [] then Failed
      else let b = b\<lparr>parents := tl (parents b)\<rparr>
           in if \<not> firstChild b
              then (if lastNodes b = [] then Failed
                    else Good (b\<lparr>b_nodes := update_node (hd (lastNodes b)) (\<lambda>n. n\<lparr>nextSibling := None\<rparr>) (b_nodes b),
                                 lastNodes := tl (lastNodes b), firstChild := False\<rparr>))
              else Good (b\<lparr>firstChild := False\<rparr>))"

definition build_finish :: "builder \<Rightarrow> builder outcome" where
  "build_finish b =
     (case (if b_name b \<noteq> ''..'' then build_node b else build_up b) of
        Good b \<Rightarrow> Good (b\<lparr>b_name := [], b_data := [], b_state := RS0, b_lines := b_lines b + 1\<rparr>)
      | r \<Rightarrow> r)"

definition build_char :: "builder \<Rightarrow> char \<Rightarrow> builder outcome" where
  "build_char b ch =
     (case b_state b of
        RS0 \<Rightarrow>
          if ch = CHR ''f'' then Good (b\<lparr>b_data := b_data b @ ''f'', b_state := RS1\<rparr>)
          else if ch = CHR ''d'' then Good (b\<lparr>b_data := b_data b @ ''d'', b_state := RS1\<rparr>)
          else if ch = CHR ''u'' then Good (b\<lparr>b_name := ''..'', b_state := RS10\<rparr>)
          else Failed
      | RS1 \<Rightarrow> Good (b\<lparr>b_state := RS2\<rparr>)
      | RS2 \<Rightarrow>
          if ch = CHR 0x22 then Good (b\<lparr>b_state := RS3\<rparr>)
          else if ch = CHR 0x5C then Good (b\<lparr>b_state := RS5\<rparr>)
          else Good (b\<lparr>b_name := b_name b @ [ch]\<rparr>)
      | RS5 \<Rightarrow>
          Good (b\<lparr>b_name := b_name b
                     @ (if ch \<noteq> CHR 0x22 \<and> ch \<noteq> CHR 0x5C then [CHR 0x5C] else []) @ [ch],
                   b_state := RS2\<rparr>)
      | RS3 \<Rightarrow>
          if ch = CHR '' '' then Good (b\<lparr>b_state := RS4\<rparr>)
          else if ch = CHR 0x0A then build_finish (b\<lparr>b_state := RS10\<rparr>)
          else Good (b\<lparr>b_state := RS10\<rparr>)
      | RS4 \<Rightarrow> if ch \<noteq> CHR 0x0A then Good (b\<lparr>b_data := b_data b @ [ch]\<rparr>) else build_finish b
      | RS10 \<Rightarrow> if ch = CHR 0x0A then build_finish b else Good b)"

fun bind_outcome :: "'a outcome \<Rightarrow> ('a \<Rightarrow> 'b outcome) \<Rightarrow> 'b outcome" where
  "bind_outcome (Good x) f = f x"
| "bind_outcome Failed f = Failed"
| "bind_outcome Undef f = Undef"
| "bind_outcome Assertion_failed f = Assertion_failed"

fun build_chars :: "builder \<Rightarrow> string \<Rightarrow> builder outcome" where
  "build_chars b [] = Good b"
| "build_chars b (c # cs) = bind_outcome (build_char b c) (\<lambda>b. build_chars b cs)"

text \<open>
  \<open>readTree\<close> of the bytes of the file, \<open>None\<close> if it cannot be opened. Both passes read the file in
  blocks of 4096 bytes, which only matters for the order of the bytes, and the second pass starts
  again at the beginning.
\<close>

definition readTree :: "string option \<Rightarrow> TreeNode list outcome" where
  "readTree fn =
     (case fn of
        None \<Rightarrow> Failed
      | Some bytes \<Rightarrow>
          (case scan_chars scan_init bytes of
             None \<Rightarrow> Failed
           | Some sc \<Rightarrow>
               bind_outcome (build_chars (builder_init sc) bytes) (\<lambda>b.
               if b_idx b \<noteq> length (b_nodes b) then Assertion_failed
               else if stringbuffer_pos b \<noteq> stringbuffer_len b then Assertion_failed
               else Good (update_node 0 (\<lambda>n. n\<lparr>nextSibling := None\<rparr>) (b_nodes b)))))"

section \<open>No access out of bounds\<close>

text \<open>Where the two passes are after the same bytes, the first one as \<open>sc\<close>, the second one as \<open>b\<close>.\<close>

definition in_step :: "scan \<Rightarrow> builder \<Rightarrow> bool" where
  "in_step sc b \<longleftrightarrow>
     b_state b = sc_state sc \<and> b_name b = sc_name sc
     \<and> (sc_state sc = RS0 \<longrightarrow> b_data b = [] \<and> b_name b = [])
     \<and> (sc_state sc \<noteq> RS0 \<longrightarrow>
          (if b_data b = [] then sc_state sc = RS10 \<and> b_name b = ''..'' \<and> ltype sc = CHR ''d''
           else hd (b_data b) = ltype sc \<and> ltype sc \<in> {CHR ''f'', CHR ''d''}))"

definition room :: "scan \<Rightarrow> builder \<Rightarrow> bool" where
  "room sc b \<longleftrightarrow>
     b_idx b \<le> sc_lines sc + 1 \<and> stringbuffer_pos b \<le> stringbuffer_size sc + 5 \<and> 0 < b_idx b"

definition stacks_ok :: "builder \<Rightarrow> bool" where
  "stacks_ok b \<longleftrightarrow>
     length (lastNodes b) = length (parents b) + (if firstChild b then 0 else 1)
     \<and> (parents b = [] \<longrightarrow> \<not> firstChild b)
     \<and> list_all (\<lambda>i. i < b_idx b) (parents b) \<and> list_all (\<lambda>i. i < b_idx b) (lastNodes b)"

definition capacity :: "scan \<Rightarrow> builder \<Rightarrow> bool" where
  "capacity sc b \<longleftrightarrow> length (b_nodes b) = sc_lines sc + 1 \<and> stringbuffer_len b = stringbuffer_size sc + 5"

definition scan_le :: "scan \<Rightarrow> scan \<Rightarrow> bool" where
  "scan_le sc sc' \<longleftrightarrow> sc_lines sc \<le> sc_lines sc' \<and> stringbuffer_size sc \<le> stringbuffer_size sc'"

lemma scan_char_le: "scan_char sc c = Some sc' \<Longrightarrow> scan_le sc sc'"
  by (auto simp: scan_char_def scan_finish_def scan_le_def Let_def split: read_state.splits if_splits)

lemma scan_chars_le: "scan_chars sc cs = Some sc' \<Longrightarrow> scan_le sc sc'"
proof (induction cs arbitrary: sc)
  case (Cons c cs)
  then obtain sc1 where "scan_char sc c = Some sc1" "scan_chars sc1 cs = Some sc'"
    by (auto split: Option.bind_splits)
  with Cons.IH scan_char_le show ?case by (fastforce simp: scan_le_def)
qed (simp add: scan_le_def)

text \<open>A file that is named like the parent directory is counted by the first pass only.\<close>

definition dotdot_file :: "scan \<Rightarrow> bool" where
  "dotdot_file sc \<longleftrightarrow> ltype sc = CHR ''f'' \<and> sc_name sc = ''..''"

definition exact :: "scan \<Rightarrow> builder \<Rightarrow> bool" where
  "exact sc b \<longleftrightarrow> b_idx b = sc_lines sc + 1 \<and> stringbuffer_pos b = stringbuffer_size sc + 5"

lemma build_finish_safe:
  assumes "in_step sc b" "sc_state sc \<noteq> RS0" "room sc b" "stacks_ok b" "capacity scF b" "scan_le (scan_finish sc) scF"
  shows "(\<exists>b'. build_finish b = Good b' \<and> in_step (scan_finish sc) b' \<and> room (scan_finish sc) b'
      \<and> stacks_ok b' \<and> capacity scF b' \<and> (exact sc b \<and> \<not> dotdot_file sc \<longrightarrow> exact (scan_finish sc) b')
      \<and> (b_idx b \<le> sc_lines sc \<or> dotdot_file sc \<longrightarrow> b_idx b' \<le> sc_lines (scan_finish sc)))
    \<or> build_finish b = Failed"
proof (cases "b_name b = ''..''")
  case True
  show ?thesis
  proof (cases "parents b = []")
    case False
    with True assms show ?thesis
      by (cases "parents b"; cases "lastNodes b")
        (auto simp: build_finish_def build_up_def Let_def in_step_def scan_finish_def room_def stacks_ok_def
          capacity_def update_node_def exact_def dotdot_file_def scan_le_def split: if_splits)
  qed (simp add: True build_finish_def build_up_def)
next
  case False
  have data: "b_data b \<noteq> []" "hd (b_data b) = ltype sc" "ltype sc = CHR ''f'' \<or> ltype sc = CHR ''d''"
    using assms(1,2) False by (auto simp: in_step_def split: if_splits)
  have "8 * length (item_data (b_data b)) = (if ltype sc = CHR ''f'' then 16 else 8)"
    by (simp add: item_data_def Let_def data)
  with False data assms show ?thesis
    by (cases "parents b"; cases "lastNodes b")
      (auto simp: build_finish_def build_node_def link_parent_def link_sibling_def Let_def in_step_def scan_finish_def
          room_def stacks_ok_def list_all_iff
          capacity_def update_node_def exact_def dotdot_file_def scan_le_def split: if_splits)
qed


definition both_ok :: "scan \<Rightarrow> scan \<Rightarrow> builder \<Rightarrow> bool" where
  "both_ok scF sc b \<longleftrightarrow> in_step sc b \<and> room sc b \<and> stacks_ok b \<and> capacity scF b"

text \<open>Whether a line that the scan finishes with this character is such a file.\<close>

definition finishes :: "scan \<Rightarrow> char \<Rightarrow> bool" where
  "finishes sc c \<longleftrightarrow> c = CHR 0x0A \<and> sc_state sc \<in> {RS3, RS4, RS10}"

lemma build_char_safe:
  assumes ok: "both_ok scF sc b" and s: "scan_char sc c = Some sc'" and le: "scan_le sc' scF"
  shows "(\<exists>b'. build_char b c = Good b' \<and> both_ok scF sc' b'
      \<and> (exact sc b \<and> \<not> (finishes sc c \<and> dotdot_file sc) \<longrightarrow> exact sc' b')
      \<and> (b_idx b \<le> sc_lines sc \<or> finishes sc c \<and> dotdot_file sc \<longrightarrow> b_idx b' \<le> sc_lines sc'))
    \<or> build_char b c = Failed"
proof (cases "finishes sc c")
  case True
  let ?b = "b\<lparr>b_state := RS10\<rparr>"
  let ?sc = "sc\<lparr>sc_state := RS10\<rparr>"
  have "build_char b c = build_finish b \<or> build_char b c = build_finish ?b"
    using True ok by (auto simp: finishes_def both_ok_def in_step_def build_char_def)
  moreover have "sc' = scan_finish sc" "scan_finish ?sc = scan_finish sc"
    using True s by (auto simp: finishes_def scan_char_def scan_finish_def)
  moreover have "in_step sc b" "sc_state sc \<noteq> RS0" "room sc b" "stacks_ok b" "capacity scF b"
    using ok True by (auto simp: both_ok_def finishes_def)
  moreover from this have "in_step ?sc ?b" "sc_state ?sc \<noteq> RS0" "room ?sc ?b" "stacks_ok ?b" "capacity scF ?b"
    by (auto simp: in_step_def room_def stacks_ok_def capacity_def)
  moreover have "dotdot_file ?sc = dotdot_file sc" "exact ?sc ?b = exact sc b" "b_idx ?b = b_idx b" "sc_lines ?sc = sc_lines sc"
    by (auto simp: dotdot_file_def exact_def)
  ultimately show ?thesis
    using build_finish_safe [of sc b scF] build_finish_safe [of ?sc ?b scF] le True
    unfolding both_ok_def by (metis (no_types))
next
  case False
  with s ok show ?thesis
    by (cases "sc_state sc")
      (auto simp: finishes_def scan_char_def build_char_def both_ok_def in_step_def room_def stacks_ok_def
        capacity_def exact_def split: if_splits)
qed

fun dotdot_seen :: "scan \<Rightarrow> string \<Rightarrow> bool" where
  "dotdot_seen sc [] = False"
| "dotdot_seen sc (c # cs) =
     (finishes sc c \<and> dotdot_file sc
      \<or> (case scan_char sc c of None \<Rightarrow> False | Some sc \<Rightarrow> dotdot_seen sc cs))"

lemma build_chars_safe:
  assumes "both_ok scF sc b" and "scan_chars sc cs = Some scF"
  shows "(\<exists>b'. build_chars b cs = Good b' \<and> both_ok scF scF b'
      \<and> (exact sc b \<and> \<not> dotdot_seen sc cs \<longrightarrow> exact scF b')
      \<and> (b_idx b \<le> sc_lines sc \<or> dotdot_seen sc cs \<longrightarrow> b_idx b' \<le> sc_lines scF))
    \<or> build_chars b cs = Failed"
  using assms
proof (induction cs arbitrary: sc b)
  case (Cons c cs)
  then obtain sc1 where sc1: "scan_char sc c = Some sc1" "scan_chars sc1 cs = Some scF"
    by (auto split: Option.bind_splits)
  from build_char_safe [OF Cons.prems(1) sc1(1) scan_chars_le [OF sc1(2)]]
  show ?case
  proof (elim disjE exE)
    fix b' assume b': "build_char b c = Good b' \<and> both_ok scF sc1 b'
      \<and> (exact sc b \<and> \<not> (finishes sc c \<and> dotdot_file sc) \<longrightarrow> exact sc1 b')
      \<and> (b_idx b \<le> sc_lines sc \<or> finishes sc c \<and> dotdot_file sc \<longrightarrow> b_idx b' \<le> sc_lines sc1)"
    with Cons.IH [OF _ sc1(2), of b'] show ?thesis by (auto simp: sc1)
  qed simp
qed simp

lemma both_ok_init: "both_ok sc scan_init (builder_init sc)"
  by (simp add: both_ok_def in_step_def room_def stacks_ok_def capacity_def scan_init_def builder_init_def)

lemma readTree_safe:
  "readTree fn \<noteq> Undef
   \<and> (\<forall>bytes. fn = Some bytes \<longrightarrow> \<not> dotdot_seen scan_init bytes \<longrightarrow> readTree fn \<noteq> Assertion_failed)
   \<and> (\<forall>bytes ns. fn = Some bytes \<longrightarrow> dotdot_seen scan_init bytes \<longrightarrow> readTree fn \<noteq> Good ns)"
proof (cases fn)
  case (Some bytes)
  show ?thesis
  proof (cases "scan_chars scan_init bytes")
    case sc: (Some sc)
    have "exact scan_init (builder_init sc)" by (simp add: exact_def scan_init_def builder_init_def)
    with build_chars_safe [OF both_ok_init sc] show ?thesis
      by (auto simp: readTree_def Some sc both_ok_def capacity_def exact_def)
  qed (simp add: readTree_def Some)
qed (simp add: readTree_def)

section \<open>Trees and their file lists\<close>

text \<open>What a client sends: nested directories with modification times, files with sizes.\<close>

datatype ftree = File string u64 u64 | Dir string u64 "ftree list"

fun ft_name :: "ftree \<Rightarrow> string" where
  "ft_name (File n s m) = n"
| "ft_name (Dir n m ts) = n"

fun ft_kids :: "ftree \<Rightarrow> ftree list" where
  "ft_kids (File n s m) = []"
| "ft_kids (Dir n m ts) = ts"

fun ft_type :: "ftree \<Rightarrow> char" where
  "ft_type (File n s m) = CHR ''f''"
| "ft_type (Dir n m ts) = CHR ''d''"

fun ft_data :: "ftree \<Rightarrow> u64 list" where
  "ft_data (File n s m) = [s, m]"
| "ft_data (Dir n m ts) = [m]"

definition dir_up :: SFile where
  "dir_up = SFile_init\<lparr>name := ''..'', isdir := True\<rparr>"

text \<open>The lines the server or client writes for a tree with \<open>writeFileItem\<close>.\<close>

fun tree_text :: "ftree \<Rightarrow> string" where
  "tree_text (File n s m) =
     fst (writeFileItem_text (SFile_init\<lparr>name := n, size := s, last_modified := m\<rparr>))"
| "tree_text (Dir n m ts) =
     fst (writeFileItem_text (SFile_init\<lparr>name := n, isdir := True, last_modified := m\<rparr>))
     @ concat (map tree_text ts) @ fst (writeFileItem_text dir_up)"

definition forest_text :: "ftree list \<Rightarrow> string" where
  "forest_text ts = concat (map tree_text ts)"

fun tree_count :: "ftree \<Rightarrow> nat" where
  "tree_count (File n s m) = 1"
| "tree_count (Dir n m ts) = Suc (sum_list (map tree_count ts))"

fun tree_lines :: "ftree \<Rightarrow> nat" where
  "tree_lines (File n s m) = 1"
| "tree_lines (Dir n m ts) = 2 + sum_list (map tree_lines ts)"

fun tree_space :: "ftree \<Rightarrow> nat" where
  "tree_space (File n s m) = length n + 1 + 16"
| "tree_space (Dir n m ts) = length n + 1 + 8 + sum_list (map tree_space ts)"

fun tree_ok :: "ftree \<Rightarrow> bool" where
  "tree_ok (File n s m) \<longleftrightarrow> n \<noteq> ''..''"
| "tree_ok (Dir n m ts) \<longleftrightarrow> n \<noteq> ''..'' \<and> list_all tree_ok ts"

abbreviation "forest_count ts \<equiv> sum_list (map tree_count ts)"
abbreviation "forest_lines ts \<equiv> sum_list (map tree_lines ts)"
abbreviation "forest_space ts \<equiv> sum_list (map tree_space ts)"

text \<open>The nodes of a forest in preorder, from index \<open>i\<close>, line \<open>l\<close>, below the node \<open>p\<close>.\<close>

definition tree_node :: "nat \<Rightarrow> nat \<Rightarrow> nat option \<Rightarrow> ftree \<Rightarrow> TreeNode" where
  "tree_node p l nxt t =
     TreeNode_init\<lparr>node_type := ft_type t, node_name := Some (c_str (ft_name t)),
       node_data := Some (ft_data t), nextSibling := nxt, parent := Some p,
       num_children := length (ft_kids t), node_id := l\<rparr>"

fun layout :: "nat \<Rightarrow> nat \<Rightarrow> nat \<Rightarrow> ftree list \<Rightarrow> TreeNode list" 
and layout_tree :: "nat \<Rightarrow> nat \<Rightarrow> nat \<Rightarrow> nat option \<Rightarrow> ftree \<Rightarrow> TreeNode list" where
  "layout p i l [] = []"
| "layout p i l (t # ts) =
     layout_tree p i l (if ts = [] then None else Some (i + tree_count t)) t
     @ layout p (i + tree_count t) (l + tree_lines t) ts"
| "layout_tree p i l nxt (File n s m) = [tree_node p l nxt (File n s m)]"
| "layout_tree p i l nxt (Dir n m ts) =
     tree_node p l nxt (Dir n m ts) # layout i (i + 1) (l + 1) ts"

section \<open>Reading the list of a tree\<close>

lemma build_name_char:
  "b_state b = RS2 \<Longrightarrow>
   build_chars b (escapeListName (c # cs) @ s) = build_chars (b\<lparr>b_name := b_name b @ [c]\<rparr>) (escapeListName cs @ s)"
  by (cases b) (auto simp: build_char_def)

lemma build_name:
  "b_state b = RS2 \<Longrightarrow> build_chars b (escapeListName nm @ s) = build_chars (b\<lparr>b_name := b_name b @ nm\<rparr>) s"
proof (induction nm arbitrary: b)
  case (Cons c nm)
  then show ?case by (simp add: build_name_char del: escapeListName.simps)
qed simp

lemma build_data:
  "b_state b = RS4 \<Longrightarrow> CHR 0x0A \<notin> set cs \<Longrightarrow> build_chars b (cs @ s) = build_chars (b\<lparr>b_data := b_data b @ cs\<rparr>) s"
  by (induction cs arbitrary: b) (auto simp: build_char_def)

lemma scan_name_char:
  "sc_state b = RS2 \<Longrightarrow>
   scan_chars b (escapeListName (c # cs) @ s) = scan_chars (b\<lparr>sc_name := sc_name b @ [c]\<rparr>) (escapeListName cs @ s)"
  by (cases b) (auto simp: scan_char_def)

lemma scan_name:
  "sc_state b = RS2 \<Longrightarrow> scan_chars b (escapeListName nm @ s) = scan_chars (b\<lparr>sc_name := sc_name b @ nm\<rparr>) s"
proof (induction nm arbitrary: b)
  case (Cons c nm)
  then show ?case by (simp add: scan_name_char del: escapeListName.simps)
qed simp

lemma scan_data:
  "sc_state b = RS4 \<Longrightarrow> CHR 0x0A \<notin> set cs \<Longrightarrow> scan_chars b (cs @ s) = scan_chars b s"
  by (induction cs arbitrary: b) (auto simp: scan_char_def)

definition line_start :: "builder \<Rightarrow> bool" where
  "line_start b \<longleftrightarrow> b_state b = RS0 \<and> b_name b = [] \<and> b_data b = []"

definition next_line :: "builder \<Rightarrow> builder" where
  "next_line b = b\<lparr>b_name := [], b_data := [], b_state := RS0, b_lines := b_lines b + 1\<rparr>"

lemma line_start_next [simp]: "line_start (next_line b)"
  by (simp add: line_start_def next_line_def)

text \<open>One line of either kind, as a call of \<open>build_node\<close> or \<open>build_up\<close>.\<close>

definition ft_line :: "ftree \<Rightarrow> string" where
  "ft_line t = item_prefix (case t of
      File n s m \<Rightarrow> SFile_init\<lparr>name := n, size := s, last_modified := m\<rparr>
    | Dir n m ts \<Rightarrow> SFile_init\<lparr>name := n, isdir := True, last_modified := m\<rparr>) @ [CHR 0x0A]"

definition item_text :: "ftree \<Rightarrow> string" where
  "item_text t = ft_type t # (case t of File n s m \<Rightarrow> convert_int64 s | Dir n m ts \<Rightarrow> ''0'') @ '' ''
     @ convert_int64 (case t of File n s m \<Rightarrow> m | Dir n m ts \<Rightarrow> m)"

lemma tree_text_line:
  "tree_ok t \<Longrightarrow> tree_text t = ft_line t @ (case t of File n s m \<Rightarrow> [] | Dir n m ts \<Rightarrow> forest_text ts @ [CHR ''u'', CHR 0x0A])"
  by (cases t) (auto simp: writeFileItem_text_def ft_line_def item_prefix_def item_type_def item_size_def SFile_init_def
      convert_int64_0 Let_def dir_up_def forest_text_def)

lemma ft_line_item: "ft_line t = ft_type t # quoted_name (ft_name t) @ '' '' @ tl (item_text t) @ [CHR 0x0A]"
  by (cases t) (auto simp: ft_line_def item_prefix_def item_type_def item_size_def item_text_def SFile_init_def convert_int64_0)

lemma item_text_clean: "CHR 0x0A \<notin> set (tl (item_text t))"
  by (cases t) (auto simp: item_text_def convert_int64_plain)

lemma item_text_Cons: "ft_type t # tl (item_text t) = item_text t"
  by (simp add: item_text_def)

lemma build_line:
  assumes "line_start b" and "ft_name t \<noteq> ''..''"
  shows "build_chars b (ft_line t @ s) =
     bind_outcome (build_node (b\<lparr>b_state := RS4, b_name := ft_name t, b_data := item_text t\<rparr>))
       (\<lambda>b. build_chars (next_line b) s)"
proof -
  have *: "build_chars (b\<lparr>b_state := RS4, b_name := ft_name t, b_data := item_text t\<rparr>) (CHR 0x0A # s)
     = bind_outcome (build_node (b\<lparr>b_state := RS4, b_name := ft_name t, b_data := item_text t\<rparr>))
       (\<lambda>b. build_chars (next_line b) s)"
    using assms(2) by (auto simp: build_char_def build_finish_def next_line_def split: outcome.splits)
  have "build_chars b (ft_line t @ s)
     = build_chars (b\<lparr>b_state := RS4, b_name := ft_name t, b_data := [ft_type t]\<rparr>) (tl (item_text t) @ CHR 0x0A # s)"
    using assms(1)
    by (cases t; cases b) (simp_all add: ft_line_item quoted_name_def line_start_def build_char_def build_name)
  also have "\<dots> = build_chars (b\<lparr>b_state := RS4, b_name := ft_name t, b_data := item_text t\<rparr>) (CHR 0x0A # s)"
    using item_text_clean [of t] by (subst build_data) (simp_all add: item_text_Cons)
  finally show ?thesis using * by simp
qed

lemma build_u:
  assumes "line_start b"
  shows "build_chars b (CHR ''u'' # CHR 0x0A # s) =
     bind_outcome (build_up (b\<lparr>b_name := ''..'', b_state := RS10\<rparr>)) (\<lambda>b. build_chars (next_line b) s)"
  using assms by (auto simp: build_char_def build_finish_def next_line_def line_start_def split: outcome.splits)

lemma str_find_char:
  "c \<notin> set xs \<Longrightarrow> str_find [c] (xs @ c # ys) = Some (length xs)"
  by (induction xs) (auto simp: starts_with_def)

lemma item_data_text: "item_data (item_text t) = ft_data t"
proof (cases t)
  case (File n s m)
  have "str_find '' '' (convert_int64 s @ CHR '' '' # convert_int64 m) = Some (length (convert_int64 s))"
    by (rule str_find_char) (rule convert_int64_plain)
  then show ?thesis
    by (simp add: File item_data_def item_text_def getuntil_def getafter_def getafterinc_def)
next
  case (Dir n m ts)
  have "str_find '' '' (''0'' @ CHR '' '' # convert_int64 m) = Some (length ''0'')"
    by (rule str_find_char) simp
  then show ?thesis
    by (simp add: Dir item_data_def item_text_def getafter_def getafterinc_def)
qed

lemma scan_line:
  assumes "sc_state sc = RS0" "sc_name sc = []" and "ft_name t \<noteq> ''..''"
  shows "scan_chars sc (ft_line t @ s) =
     scan_chars (sc\<lparr>sc_name := [], ltype := CHR 0x00, sc_lines := sc_lines sc + 1,
       stringbuffer_size := stringbuffer_size sc + (length (ft_name t) + 1 + 8 * length (ft_data t))\<rparr>) s"
proof -
  have "scan_chars sc (ft_line t @ s)
     = scan_chars (sc\<lparr>sc_state := RS4, sc_name := ft_name t, ltype := ft_type t\<rparr>) (tl (item_text t) @ CHR 0x0A # s)"
    using assms(1,2)
    by (cases t; cases sc) (simp_all add: ft_line_item quoted_name_def scan_char_def scan_name)
  also have "\<dots> = scan_chars (sc\<lparr>sc_name := [], ltype := CHR 0x00, sc_lines := sc_lines sc + 1,
       stringbuffer_size := stringbuffer_size sc + (length (ft_name t) + 1 + 8 * length (ft_data t))\<rparr>) s"
    using item_text_clean [of t] assms
    by (cases t; cases sc) (simp_all add: scan_data scan_char_def scan_finish_def ac_simps)
  finally show ?thesis .
qed

lemma scan_u:
  assumes "sc_state sc = RS0" 
  shows "scan_chars sc (CHR ''u'' # CHR 0x0A # s) = scan_chars (sc\<lparr>sc_name := [], ltype := CHR 0x00\<rparr>) s"
  using assms by (cases sc) (simp add: scan_char_def scan_finish_def)

definition scanned :: "scan \<Rightarrow> ftree list \<Rightarrow> scan" where
  "scanned sc ts = sc\<lparr>sc_name := [], ltype := CHR 0x00, sc_lines := sc_lines sc + forest_count ts,
     stringbuffer_size := stringbuffer_size sc + forest_space ts\<rparr>"

definition scan_start :: "scan \<Rightarrow> bool" where
  "scan_start sc \<longleftrightarrow> sc_state sc = RS0 \<and> sc_name sc = [] \<and> ltype sc = CHR 0x00"

lemma scanned_simps [simp]:
  "scan_start sc \<Longrightarrow> scanned sc [] = sc"
  "scan_start sc \<Longrightarrow> scan_start (scanned sc ts)"
  "scanned (scanned sc ts) ts' = scanned sc (ts @ ts')"
  by (simp_all add: scanned_def scan_start_def)

lemma forest_text_simps [simp]:
  "forest_text [] = []" "forest_text (t # ts) = tree_text t @ forest_text ts"
  by (simp_all add: forest_text_def)

lemma scan_forest_of:
  assumes "\<And>t sc s. t \<in> set ts \<Longrightarrow> scan_start sc \<Longrightarrow> scan_chars sc (tree_text t @ s) = scan_chars (scanned sc [t]) s"
    and "scan_start sc"
  shows "scan_chars sc (forest_text ts @ s) = scan_chars (scanned sc ts) s"
  using assms
proof (induction ts arbitrary: sc)
  case (Cons t ts)
  have "scan_chars (scanned sc [t]) (forest_text ts @ s) = scan_chars (scanned (scanned sc [t]) ts) s"
    by (rule Cons.IH) (use Cons.prems in auto)
  with Cons.prems show ?case by simp
qed simp

lemma scan_tree:
  "tree_ok t \<Longrightarrow> scan_start sc \<Longrightarrow> scan_chars sc (tree_text t @ s) = scan_chars (scanned sc [t]) s"
proof (induction t arbitrary: sc s)
  case (File n sz m)
  then show ?case
    using scan_line [of sc "File n sz m" s]
    by (simp add: tree_text_line scan_start_def scanned_def del: tree_text.simps)
next
  case (Dir n m ts)
  let ?t = "Dir n m ts"
  define sc1 where "sc1 = sc\<lparr>sc_name := [], ltype := CHR 0x00, sc_lines := sc_lines sc + 1,
       stringbuffer_size := stringbuffer_size sc + (length n + 1 + 8)\<rparr>"
  have s1: "scan_start sc1" using Dir.prems by (simp add: sc1_def scan_start_def)
  have f: "scan_chars sc1 (forest_text ts @ r) = scan_chars (scanned sc1 ts) r" for r
    by (rule scan_forest_of [OF _ s1]) (use Dir in \<open>auto simp: list_all_iff\<close>)
  have "scan_chars sc (tree_text ?t @ s) = scan_chars sc1 (forest_text ts @ CHR ''u'' # CHR 0x0A # s)"
    using scan_line [of sc ?t "forest_text ts @ CHR ''u'' # CHR 0x0A # s"] Dir.prems
    by (simp only: tree_text_line) (simp add: scan_start_def sc1_def)
  also have "\<dots> = scan_chars (scanned sc1 ts) s"
    unfolding f by (subst scan_u) (use s1 in \<open>cases sc1; simp_all add: scanned_def scan_start_def\<close>)+
  also have "scanned sc1 ts = scanned sc [?t]"
    by (simp add: sc1_def scanned_def)
  finally show ?case .
qed

lemma scan_forest:
  "list_all tree_ok ts \<Longrightarrow> scan_chars scan_init (forest_text ts) = Some (scanned scan_init ts)"
  using scan_forest_of [of ts scan_init "[]"] scan_tree
  by (simp add: list_all_iff) (simp add: scan_start_def scan_init_def)

section \<open>Building the nodes of a tree\<close>

lemma length_layout [simp]:
  "length (layout p i l ts) = forest_count ts"
  "length (layout_tree p i l nxt t) = tree_count t"
  by (induction p i l ts and p i l nxt t rule: layout_layout_tree.induct) auto

text \<open>The index of the last tree of a forest.\<close>

fun last_index :: "nat \<Rightarrow> ftree list \<Rightarrow> nat" where
  "last_index i [] = i"
| "last_index i [t] = i"
| "last_index i (t # t' # ts) = last_index (i + tree_count t) (t' # ts)"

text \<open>What reading a forest does to a builder.\<close>

definition grown :: "builder \<Rightarrow> ftree list \<Rightarrow> TreeNode list \<Rightarrow> builder" where
  "grown b ts new =
     (let p = hd (parents b); i = b_idx b;
          old = update_node p (\<lambda>n. n\<lparr>num_children := num_children n + length ts\<rparr>)
                  (if firstChild b \<or> ts = [] then b_nodes b
                   else update_node (hd (lastNodes b)) (\<lambda>n. n\<lparr>nextSibling := Some i\<rparr>) (b_nodes b))
      in b\<lparr>b_idx := i + forest_count ts, b_lines := b_lines b + forest_lines ts,
           stringbuffer_pos := stringbuffer_pos b + forest_space ts,
           b_nodes := take i old @ new @ drop (i + forest_count ts) old,
           lastNodes := (if ts = [] then lastNodes b
                         else last_index i ts # (if firstChild b then lastNodes b else tl (lastNodes b))),
           firstChild := (firstChild b \<and> ts = [])\<rparr>)"

definition can_grow :: "builder \<Rightarrow> ftree list \<Rightarrow> bool" where
  "can_grow b ts \<longleftrightarrow>
     line_start b \<and> b_idx b + forest_count ts \<le> length (b_nodes b)
     \<and> stringbuffer_pos b + forest_space ts \<le> stringbuffer_len b
     \<and> parents b \<noteq> [] \<and> hd (parents b) < b_idx b
     \<and> (\<not> firstChild b \<longrightarrow> lastNodes b \<noteq> [] \<and> hd (lastNodes b) < b_idx b \<and> hd (lastNodes b) \<noteq> hd (parents b))
     \<and> list_all (\<lambda>n. n = TreeNode_init) (drop (b_idx b) (b_nodes b))"

lemma grown_one:
  "can_grow b [t] \<Longrightarrow> p = hd (parents b) \<Longrightarrow> i = b_idx b \<Longrightarrow>
   grown b [t] new = b\<lparr>b_idx := i + tree_count t, b_lines := b_lines b + tree_lines t,
     stringbuffer_pos := stringbuffer_pos b + tree_space t, 
     b_nodes := (let old = update_node p (\<lambda>n. n\<lparr>num_children := num_children n + 1\<rparr>)
        (if firstChild b then b_nodes b
                   else update_node (hd (lastNodes b)) (\<lambda>n. n\<lparr>nextSibling := Some i\<rparr>) (b_nodes b))
        in take i old @ new @ drop (i + tree_count t) old),
     lastNodes := i # (if firstChild b then lastNodes b else tl (lastNodes b)), firstChild := False\<rparr>"
  by (simp add: grown_def Let_def)

lemma length_update_node [simp]: "length (update_node i f ns) = length ns"
  by (simp add: update_node_def)

lemma update_node_commute:
  "p \<noteq> i \<Longrightarrow> update_node p g (ns[i := v]) = (update_node p g ns)[i := v]"
  by (simp add: update_node_def list_update_swap)

lemma update_node_same:
  "i < length ns \<Longrightarrow> update_node i f (ns[i := v]) = ns[i := f v]"
  by (simp add: update_node_def)

lemma tree_space_pos: "tree_space t \<ge> length (ft_name t) + 1 + 8 * length (ft_data t)" "tree_count t \<ge> 1"
  by (cases t; simp)+

lemma build_node_eq:
  fixes b t
  defines "p \<equiv> hd (parents b)" and "i \<equiv> b_idx b"
  defines "old \<equiv> update_node p (\<lambda>n. n\<lparr>num_children := num_children n + 1\<rparr>)
                  (if firstChild b then b_nodes b
                   else update_node (hd (lastNodes b)) (\<lambda>n. n\<lparr>nextSibling := Some i\<rparr>) (b_nodes b))"
  assumes "can_grow b [t]"
  shows "build_node (b\<lparr>b_state := RS4, b_name := ft_name t, b_data := item_text t\<rparr>) =
     Good (b\<lparr>b_state := RS4, b_name := ft_name t, b_data := item_text t,
       b_idx := i + 1, 
       stringbuffer_pos := stringbuffer_pos b + length (ft_name t) + 1 + 8 * length (ft_data t),
       b_nodes := old[i := (tree_node p (b_lines b) None t)\<lparr>num_children := 0\<rparr>],
       lastNodes := i # (if firstChild b then lastNodes b else tl (lastNodes b)),
       parents := (if ft_type t = CHR ''d'' then i # parents b else parents b),
       firstChild := (ft_type t = CHR ''d'')\<rparr>)"
proof -
  have i: "i < length (b_nodes b)" using assms(4) tree_space_pos(2) [of t] by (simp add: can_grow_def i_def)
  have p: "p < i" "parents b \<noteq> []" using assms(4) by (auto simp: can_grow_def p_def i_def)
  have q: "\<not> firstChild b \<Longrightarrow> lastNodes b \<noteq> [] \<and> hd (lastNodes b) < i" using assms(4) by (auto simp: can_grow_def i_def)
  have init: "b_nodes b ! i = TreeNode_init"
  proof -
    have "\<forall>n<length (b_nodes b) - i. b_nodes b ! (i + n) = TreeNode_init"
      using assms(4) i by (simp add: can_grow_def list_all_length i_def)
    from this [rule_format, of 0] show ?thesis using i by simp
  qed
  have sp: "stringbuffer_pos b + (length (ft_name t) + 1 + 8 * length (ft_data t)) \<le> stringbuffer_len b"
    using assms(4) tree_space_pos(1) [of t] by (simp add: can_grow_def)
  have hd: "hd (item_text t) = ft_type t" "item_text t \<noteq> []" by (simp_all add: item_text_def)
  obtain ps where ps: "parents b = p # ps" using p by (cases "parents b") (auto simp: p_def)
  let ?node = "TreeNode_init\<lparr>node_name := Some (c_str (ft_name t)), node_id := b_lines b,
                                node_type := ft_type t, node_data := Some (ft_data t)\<rparr>"
  have node: "?node\<lparr>parent := Some p\<rparr> = (tree_node p (b_lines b) None t)\<lparr>num_children := 0\<rparr>"
    by (simp add: tree_node_def TreeNode_init_def)
  have old: "update_node i (\<lambda>n. n\<lparr>parent := Some p\<rparr>)
      (update_node p (\<lambda>n. n\<lparr>num_children := num_children n + 1\<rparr>)
        (if firstChild b then (b_nodes b)[i := ?node]
         else update_node (hd (lastNodes b)) (\<lambda>n. n\<lparr>nextSibling := Some i\<rparr>) ((b_nodes b)[i := ?node])))
     = old[i := (tree_node p (b_lines b) None t)\<lparr>num_children := 0\<rparr>]"
    using p q i unfolding node [symmetric] old_def
    by (auto simp: update_node_commute update_node_same)
  have upd: "update_node i (\<lambda>n. n\<lparr>node_name := Some (c_str (ft_name t)), node_id := b_lines b,
                                node_type := ft_type t, node_data := Some (ft_data t)\<rparr>) (b_nodes b) = (b_nodes b)[i := ?node]"
    by (simp add: update_node_def init)
  show ?thesis
    using i q sp ps upd old unfolding i_def [symmetric]
    by (cases "firstChild b"; cases "ft_type t = CHR ''d''")
      (simp_all add: build_node_def Let_def hd item_data_text link_sibling_def link_parent_def i_def [symmetric]
        builder.equality)
qed


lemma forest_count_0: "forest_count ts = 0 \<longleftrightarrow> ts = []"
  using tree_space_pos(2) by (cases ts) (auto simp: not_less_eq_eq [symmetric])

text \<open>Reading behind the forest \<open>ts\<close> is like reading behind \<open>ts\<close> with its last line done.\<close>

lemma build_leaf:
  assumes "can_grow b [File n sz m]" and "n \<noteq> ''..''"
  shows "build_chars b (tree_text (File n sz m) @ s)
    = build_chars (grown b [File n sz m] (layout_tree (hd (parents b)) (b_idx b) (b_lines b) None (File n sz m))) s"
proof -
  let ?t = "File n sz m"
  have i: "b_idx b < length (b_nodes b)" using assms by (simp add: can_grow_def)
  have ls: "line_start b" using assms by (simp add: can_grow_def)
  have n0: "(tree_node p l nxt ?t)\<lparr>num_children := 0\<rparr> = tree_node p l nxt ?t" for p l nxt
    by (simp add: tree_node_def TreeNode_init_def)
  have u: "xs[b_idx b := v] = take (b_idx b) xs @ v # drop (Suc (b_idx b)) xs" if "length xs = length (b_nodes b)"
    for xs and v :: TreeNode
    using i that by (simp add: upd_conv_take_nth_drop)
  have "build_chars b (tree_text ?t @ s) = bind_outcome (build_node (b\<lparr>b_state := RS4, b_name := ft_name ?t, b_data := item_text ?t\<rparr>))
       (\<lambda>b. build_chars (next_line b) s)"
    using build_line [OF ls, of ?t s] assms(2) by (simp add: tree_text_line del: tree_text.simps)
  also have "\<dots> = build_chars (grown b [?t] (layout_tree (hd (parents b)) (b_idx b) (b_lines b) None ?t)) s"
    unfolding build_node_eq [OF assms(1)] grown_one [OF assms(1) refl refl] bind_outcome.simps
    by (rule arg_cong2 [where f = build_chars, OF builder.equality refl])
      (use ls in \<open>simp_all add: n0 u next_line_def line_start_def Let_def\<close>)
  finally show ?thesis .
qed

lemma layout_last:
  "ts \<noteq> [] \<Longrightarrow> i \<le> last_index i ts \<and> last_index i ts < i + forest_count ts
    \<and> nextSibling (layout p i l ts ! (last_index i ts - i)) = None"
proof (induction i ts arbitrary: l rule: last_index.induct)
  case (2 i t)
  then show ?case by (cases t) (simp_all add: tree_node_def)
next
  case (3 i t t' ts)
  have "1 \<le> tree_count t" by (rule tree_space_pos)
  define j where "j = last_index (i + tree_count t) (t' # ts)"
  define L where "L = layout p (i + tree_count t) (l + tree_lines t) (t' # ts)"
  have j: "i + tree_count t \<le> j" "j < i + tree_count t + forest_count (t' # ts)"
    "nextSibling (L ! (j - (i + tree_count t))) = None"
    using "3.IH" [of "l + tree_lines t"] by (simp_all add: j_def L_def)
  have "\<not> j - i < tree_count t" "j - i - tree_count t = j - (i + tree_count t)" using j by auto
  moreover have "layout p i l (t # t' # ts) = layout_tree p i l (Some (i + tree_count t)) t @ L"
    by (simp add: L_def)
  moreover have "last_index i (t # t' # ts) = j" by (simp add: j_def)
  ultimately show ?case using j by (simp add: nth_append del: layout.simps(2) last_index.simps)
qed simp

lemma update_node_id: "f (ns ! i) = ns ! i \<Longrightarrow> update_node i f ns = ns"
  by (simp add: update_node_def)

text \<open>A directory: its line, the forest below it and the line that leaves it.\<close>

definition entered :: "builder \<Rightarrow> ftree \<Rightarrow> builder" where
  "entered b t =
     (let p = hd (parents b); i = b_idx b;
          old = update_node p (\<lambda>n. n\<lparr>num_children := num_children n + 1\<rparr>)
                  (if firstChild b then b_nodes b
                   else update_node (hd (lastNodes b)) (\<lambda>n. n\<lparr>nextSibling := Some i\<rparr>) (b_nodes b))
      in b\<lparr>b_idx := i + 1, b_lines := b_lines b + 1,
           stringbuffer_pos := stringbuffer_pos b + length (ft_name t) + 1 + 8 * length (ft_data t),
           b_nodes := old[i := (tree_node p (b_lines b) None t)\<lparr>num_children := 0\<rparr>],
           lastNodes := i # (if firstChild b then lastNodes b else tl (lastNodes b)),
           parents := i # parents b, firstChild := True\<rparr>)"

lemma entered_can_grow:
  assumes "can_grow b [Dir n m ts]"
  shows "can_grow (entered b (Dir n m ts)) ts"
proof -
  have "\<forall>k < length (b_nodes b) - b_idx b. b_nodes b ! (b_idx b + k) = TreeNode_init"
    using assms by (auto simp: can_grow_def list_all_length)
  then have "b_nodes b ! Suc (b_idx b + k) = TreeNode_init" if "k < length (b_nodes b) - Suc (b_idx b)" for k
    using that by (auto dest: spec [of _ "Suc k"])
  then show ?thesis
    using assms by (auto simp: can_grow_def entered_def Let_def line_start_def list_all_length update_node_def)
qed

lemma build_dir:
  assumes "can_grow b [Dir n m ts]" and "n \<noteq> ''..''" and "list_all tree_ok ts"
    and IH: "\<And>s. build_chars (entered b (Dir n m ts)) (forest_text ts @ s)
      = build_chars (grown (entered b (Dir n m ts)) ts (layout (b_idx b) (b_idx b + 1) (b_lines b + 1) ts)) s"
  shows "build_chars b (tree_text (Dir n m ts) @ s)
    = build_chars (grown b [Dir n m ts] (layout_tree (hd (parents b)) (b_idx b) (b_lines b) None (Dir n m ts))) s"
proof -
  let ?t = "Dir n m ts"
  define i where "i = b_idx b"
  define p where "p = hd (parents b)"
  define L where "L = layout i (i + 1) (b_lines b + 1) ts"
  define b1 where "b1 = entered b ?t"
  define b2 where "b2 = grown b1 ts L"
  define b3 where "b3 = b2\<lparr>parents := parents b, firstChild := False, b_lines := b_lines b2 + 1,
     lastNodes := (if ts = [] then lastNodes b2 else tl (lastNodes b2))\<rparr>"
  have ls: "line_start b" and i: "i < length (b_nodes b)" using assms(1) by (simp_all add: can_grow_def i_def)
  have b1: "parents b1 = i # parents b" "firstChild b1" "b_idx b1 = i + 1" "line_start b1"
    using ls by (simp_all add: b1_def entered_def Let_def i_def line_start_def)
  have b2: "parents b2 = i # parents b" "firstChild b2 = (ts = [])" "line_start b2"
    using b1 by (simp_all add: b2_def grown_def Let_def line_start_def)
  have last: "ts \<noteq> [] \<Longrightarrow> lastNodes b2 = last_index (i + 1) ts # lastNodes b1"
    using b1 by (simp add: b2_def grown_def Let_def)
  have len1: "length (b_nodes b1) = length (b_nodes b)"
    by (simp add: b1_def entered_def Let_def)
  have n2: "nextSibling (b_nodes b2 ! last_index (i + 1) ts) = None" if "ts \<noteq> []"
  proof -
    note ll = layout_last [OF that, of "i + 1" i "b_lines b + 1"]
    then have "last_index (i + 1) ts - (i + 1) < forest_count ts" by arith
    with ll that b1 i len1 show ?thesis
      by (simp add: b2_def grown_def Let_def nth_append L_def min_absorb2)
  qed
  have up: "build_up (b2\<lparr>b_name := ''..'', b_state := RS10\<rparr>)
      = Good (b3\<lparr>b_name := ''..'', b_state := RS10, b_lines := b_lines b2\<rparr>)"
  proof (cases "ts = []")
    case True
    then show ?thesis using b2 by (simp add: build_up_def b3_def builder.equality)
  next
    case False
    with n2 have "update_node (last_index (i + 1) ts) (\<lambda>n. n\<lparr>nextSibling := None\<rparr>) (b_nodes b2) = b_nodes b2"
      by (intro update_node_id) simp
    then show ?thesis using False b2 last [OF False]
      by (simp add: build_up_def b3_def builder.equality)
  qed
  have nl: "next_line (b3\<lparr>b_name := ''..'', b_state := RS10, b_lines := b_lines b2\<rparr>) = b3"
    using b2(3) by (simp add: next_line_def b3_def line_start_def builder.equality)
  have "build_chars b (tree_text ?t @ s) = bind_outcome (build_node (b\<lparr>b_state := RS4, b_name := ft_name ?t, b_data := item_text ?t\<rparr>))
       (\<lambda>b. build_chars (next_line b) (forest_text ts @ CHR ''u'' # CHR 0x0A # s))"
    using build_line [OF ls, of ?t "forest_text ts @ CHR ''u'' # CHR 0x0A # s"] assms(2,3)
    by (simp add: tree_text_line del: tree_text.simps)
  also have "\<dots> = build_chars b1 (forest_text ts @ CHR ''u'' # CHR 0x0A # s)"
    unfolding build_node_eq [OF assms(1)] bind_outcome.simps
    by (rule arg_cong2 [where f = build_chars, OF builder.equality refl])
      (use ls in \<open>simp_all add: b1_def entered_def next_line_def line_start_def Let_def\<close>)
  also have "\<dots> = build_chars b2 (CHR ''u'' # CHR 0x0A # s)"
    using IH by (simp add: b1_def b2_def L_def i_def)
  also have "\<dots> = build_chars b3 s"
    by (simp only: build_u [OF b2(3)] up nl bind_outcome.simps)
  also have "b3 = grown b [?t] (layout_tree p i (b_lines b) None ?t)"
  proof -
    define old where "old = update_node p (\<lambda>n. n\<lparr>num_children := num_children n + 1\<rparr>)
        (if firstChild b then b_nodes b
         else update_node (hd (lastNodes b)) (\<lambda>n. n\<lparr>nextSibling := Some i\<rparr>) (b_nodes b))"
    have len: "length old = length (b_nodes b)" by (simp add: old_def)
    have n1: "b_nodes b1 = old[i := (tree_node p (b_lines b) None ?t)\<lparr>num_children := 0\<rparr>]"
      by (simp add: b1_def entered_def Let_def old_def i_def p_def)
    have "update_node i (\<lambda>n. n\<lparr>num_children := num_children n + length ts\<rparr>) (b_nodes b1)
        = old[i := tree_node p (b_lines b) None ?t]"
      unfolding n1 using i by (simp add: update_node_same len) (simp add: tree_node_def TreeNode_init_def)
    then have n2: "b_nodes b2 = take (i + 1) (old[i := tree_node p (b_lines b) None ?t]) @ L
        @ drop (i + 1 + forest_count ts) (old[i := tree_node p (b_lines b) None ?t])"
      using b1 by (simp add: b2_def grown_def Let_def)
    have "b_nodes b2 = take i old @ (tree_node p (b_lines b) None ?t # L) @ drop (i + tree_count ?t) old"
      unfolding n2 using i by (simp add: len take_Suc_conv_app_nth)
    then show ?thesis
      by (intro builder.equality)
        (use b1 b2 in \<open>simp_all add: b3_def grown_def b2_def b1_def entered_def Let_def old_def i_def p_def L_def\<close>)
  qed
  finally show ?thesis by (simp add: p_def i_def)
qed

lemma can_grow_first:
  assumes "can_grow b (t # ts)"
  shows "can_grow b [t]"
  using assms by (simp add: can_grow_def)

lemma can_grow_rest:
  assumes "can_grow b (t # ts)" and "length new = tree_count t"
  shows "can_grow (grown b [t] new) ts"
proof -
  have "\<forall>k < length (b_nodes b) - b_idx b. b_nodes b ! (b_idx b + k) = TreeNode_init"
    using assms by (auto simp: can_grow_def list_all_length)
  then have "b_nodes b ! (b_idx b + tree_count t + k) = TreeNode_init"
    if "k < length (b_nodes b) - (b_idx b + tree_count t)" for k
    using that by (auto dest: spec [of _ "tree_count t + k"] simp: add.assoc)
  then show ?thesis
    using assms tree_space_pos(2) [of t]
    by (auto simp: can_grow_def grown_def Let_def line_start_def list_all_length update_node_def)
qed

lemma layout_tree_next:
  "layout_tree p i l nxt t = (let ns = layout_tree p i l None t in update_node 0 (\<lambda>n. n\<lparr>nextSibling := nxt\<rparr>) ns)"
  by (cases t) (simp_all add: update_node_def tree_node_def)

lemma grown_grown:
  assumes "can_grow b (t # ts)" and "ts \<noteq> []" and L: "length L = forest_count ts"
    and p: "p = hd (parents b)" and i: "i = b_idx b" and l: "l = b_lines b"
  shows "grown (grown b [t] (layout_tree p i l None t)) ts L
    = grown b (t # ts) (layout_tree p i l (Some (i + tree_count t)) t @ L)"
proof -
  define c where "c = tree_count t"
  define k where "k = length ts"
  define LT where "LT = layout_tree p i l None t"
  define LT' where "LT' = layout_tree p i l (Some (i + c)) t"
  define X where "X = (if firstChild b then b_nodes b
      else update_node (hd (lastNodes b)) (\<lambda>n. n\<lparr>nextSibling := Some i\<rparr>) (b_nodes b))"
  define old1 where "old1 = update_node p (\<lambda>n. n\<lparr>num_children := num_children n + 1\<rparr>) X"
  define old where "old = update_node p (\<lambda>n. n\<lparr>num_children := num_children n + (1 + k)\<rparr>) X"
  have c: "0 < c" using tree_space_pos(2) [of t] by (simp add: c_def)
  have pi: "p < i" and room: "i + c \<le> length (b_nodes b)" using assms(1) p i by (auto simp: can_grow_def c_def)
  have len: "length X = length (b_nodes b)" "length old1 = length (b_nodes b)" "length old = length (b_nodes b)"
    "length LT = c" "length LT' = c"
    by (simp_all add: X_def old1_def old_def LT_def LT'_def c_def)
  have LT': "LT' = LT[0 := (LT ! 0)\<lparr>nextSibling := Some (i + c)\<rparr>]"
    unfolding LT'_def LT_def by (subst layout_tree_next) (simp add: Let_def update_node_def)
  have pp: "update_node p (\<lambda>n. n\<lparr>num_children := num_children n + k\<rparr>) old1 = old"
    using pi room by (simp add: old1_def old_def update_node_def len add.commute add.left_commute)
  define N1 where "N1 = take i old1 @ LT @ drop (i + c) old1"
  have ui: "update_node i (\<lambda>n. n\<lparr>nextSibling := Some (i + c)\<rparr>) N1 = take i old1 @ LT' @ drop (i + c) old1"
    using c room len by (simp add: N1_def update_node_def nth_append list_update_append LT')
  have up: "update_node p f (take i old1 @ ys) = take i (update_node p f old1) @ ys" for f ys
    using pi room len by (simp add: update_node_def nth_append list_update_append take_update_swap)
  have dr: "drop (i + c) old1 = drop (i + c) old" "drop (i + c + m) old1 = drop (i + c + m) old" for m
    using pi by (simp_all add: old1_def old_def update_node_def)
  have old2: "update_node p (\<lambda>n. n\<lparr>num_children := num_children n + k\<rparr>)
       (update_node i (\<lambda>n. n\<lparr>nextSibling := Some (i + c)\<rparr>) N1) = take i old @ LT' @ drop (i + c) old"
    by (simp add: ui up pp dr)
  have g1: "b_nodes (grown b [t] LT) = N1" "lastNodes (grown b [t] LT) = i # (if firstChild b then lastNodes b else tl (lastNodes b))"
    "b_idx (grown b [t] LT) = i + c" "parents (grown b [t] LT) = parents b" "\<not> firstChild (grown b [t] LT)"
    by (simp_all add: grown_def Let_def N1_def old1_def X_def p i c_def)
  have li: "last_index i (t # ts) = last_index (i + c) ts" using assms(2) by (cases ts) (simp_all add: c_def)
  have nodes: "b_nodes (grown (grown b [t] LT) ts L) = take i old @ LT' @ L @ drop (i + c + forest_count ts) old"
    using assms(2) room len by (simp add: grown_def [of "grown b [t] LT"] Let_def g1 p [symmetric] k_def [symmetric] old2)
        (simp add: ac_simps)
  have "b_nodes (grown b (t # ts) (LT' @ L)) = take i old @ (LT' @ L) @ drop (i + c + forest_count ts) old"
    by (simp add: grown_def Let_def old_def X_def p i c_def k_def add.assoc)
  moreover have "lastNodes (grown (grown b [t] LT) ts L) = lastNodes (grown b (t # ts) (LT' @ L))"
    using assms(2) by (simp add: grown_def [of "grown b [t] LT"] Let_def g1) (simp add: grown_def Let_def li [unfolded i] i)
  moreover note nodes
  ultimately show ?thesis
    unfolding LT_def [symmetric] LT'_def [symmetric] c_def [symmetric]
    using assms(2) by (intro builder.equality) (simp_all add: grown_def Let_def)
qed

lemma build_forest_lemma:
  "can_grow b ts \<Longrightarrow> list_all tree_ok ts \<Longrightarrow> hd (parents b) = p \<Longrightarrow> b_idx b = i \<Longrightarrow> b_lines b = l \<Longrightarrow>
     build_chars b (forest_text ts @ s) = build_chars (grown b ts (layout p i l ts)) s"
  "(nxt :: nat option) = x \<Longrightarrow> can_grow b [t] \<Longrightarrow> tree_ok t \<Longrightarrow> hd (parents b) = p \<Longrightarrow> b_idx b = i \<Longrightarrow> b_lines b = l \<Longrightarrow>
     build_chars b (tree_text t @ s) = build_chars (grown b [t] (layout_tree p i l None t)) s"
proof (induction p i l ts and p i l nxt t arbitrary: b s and b s x rule: layout_layout_tree.induct)
  case (1 p i l)
  have "grown b [] [] = b" using 1 by (intro builder.equality) (simp_all add: grown_def Let_def update_node_def)
  then show ?case by simp
next
  case (2 p i l t ts)
  let ?b1 = "grown b [t] (layout_tree p i l None t)"
  have g: "can_grow b [t]" "can_grow ?b1 ts" 
    using "2.prems" by (auto intro: can_grow_first can_grow_rest)
  have b1: "parents ?b1 = parents b" "b_idx ?b1 = i + tree_count t" "b_lines ?b1 = l + tree_lines t"
    using "2.prems" by (simp_all add: grown_def Let_def)
  have "build_chars b (forest_text (t # ts) @ s) = build_chars ?b1 (forest_text ts @ s)"
    using "2.IH"(1) [OF refl g(1)] "2.prems" by simp
  also have "\<dots> = build_chars (grown ?b1 ts (layout p (i + tree_count t) (l + tree_lines t) ts)) s"
    using "2.IH"(2) [OF g(2)] "2.prems" b1 by simp
  also have "\<dots> = build_chars (grown b (t # ts) (layout p i l (t # ts))) s"
  proof (cases "ts = []")
    case True
    have "grown ?b1 [] [] = ?b1"
      by (intro builder.equality) (simp_all add: grown_def Let_def update_node_def)
    then show ?thesis by (simp add: True)
  next
    case False
    then show ?thesis using "2.prems" by (simp add: grown_grown)
  qed
  finally show ?case .
next
  case (3 p i l nxt n s m)
  then show ?case using build_leaf by (auto simp del: tree_text.simps)
next
  case (4 p i l nxt n m ts)
  have t: "list_all tree_ok ts" "n \<noteq> ''..''" using "4.prems" by auto
  have e: "hd (parents (entered b (Dir n m ts))) = i" "b_idx (entered b (Dir n m ts)) = i + 1" 
     "b_lines (entered b (Dir n m ts)) = l + 1"
    using "4.prems" by (simp_all add: entered_def Let_def)
  have IH: "build_chars (entered b (Dir n m ts)) (forest_text ts @ s)
      = build_chars (grown (entered b (Dir n m ts)) ts (layout (b_idx b) (b_idx b + 1) (b_lines b + 1) ts)) s" for s
    using "4.IH" [OF entered_can_grow t(1) e] "4.prems" by simp
  from build_dir [OF "4.prems"(2) t(2,1) IH] "4.prems" show ?case by (simp del: tree_text.simps)
qed


definition root_node :: "ftree list \<Rightarrow> TreeNode" where
  "root_node ts = TreeNode_init\<lparr>node_name := Some ''root'', num_children := length ts\<rparr>"

lemma readTree_layout:
  assumes "list_all tree_ok ts"
  shows "readTree (Some (forest_text ts)) = Good (root_node ts # layout 0 1 0 ts)"
proof -
  let ?sc = "scanned scan_init ts"
  let ?b = "builder_init ?sc"
  let ?b' = "grown ?b ts (layout 0 1 0 ts)"
  have sc: "sc_lines ?sc = forest_count ts" "stringbuffer_size ?sc = forest_space ts"
    by (simp_all add: scanned_def scan_init_def)
  have "can_grow ?b ts"
    by (simp add: can_grow_def builder_init_def line_start_def sc list_all_length)
  then have "build_chars ?b (forest_text ts @ []) = build_chars ?b' []"
    by (rule build_forest_lemma(1) [OF _ assms]) (simp_all add: builder_init_def)
  moreover have "b_idx ?b' = length (b_nodes ?b')" "stringbuffer_pos ?b' = stringbuffer_len ?b'"
    "b_nodes ?b' = root_node ts # layout 0 1 0 ts"
    by (simp_all add: grown_def Let_def builder_init_def sc root_node_def update_node_def TreeNode_init_def)
  ultimately show ?thesis
    by (simp add: readTree_def scan_forest [OF assms] update_node_def root_node_def TreeNode_init_def)
qed


section \<open>Properties\<close>

text \<open>
  C11: Reading a file list never leaves the buffers. For any file contents the second pass writes
  only inside the string buffer and the node vector that the first pass sized, and never takes the
  top of an empty stack; the closing size assertions hold unless the list has a file (not a
  directory) whose name is two dots, and with such a file the tree is never accepted.
\<close>

theorem tree_reader_safe:
  "readTree fn \<noteq> Undef
   \<and> (\<forall>bytes. fn = Some bytes \<longrightarrow> \<not> dotdot_seen scan_init bytes \<longrightarrow> readTree fn \<noteq> Assertion_failed)
   \<and> (\<forall>bytes ns. fn = Some bytes \<longrightarrow> dotdot_seen scan_init bytes \<longrightarrow> readTree fn \<noteq> Good ns)"
  by (rule readTree_safe)

text \<open>The list that trips the assertion, which any client can send.\<close>

theorem tree_reader_safe_witness:
  "readTree (Some (''f'' @ quoted_name ''..'' @ '' 0 0'' @ [CHR 0x0A])) = Assertion_failed
   \<and> readTree (Some (''f'' @ quoted_name ''a'' @ '' 0 0'' @ [CHR 0x0A])) \<noteq> Assertion_failed"
proof -
  have "\<not> dotdot_seen scan_init (''f'' @ quoted_name ''a'' @ '' 0 0'' @ [CHR 0x0A])" by code_simp
  with tree_reader_safe [of "Some (''f'' @ quoted_name ''a'' @ '' 0 0'' @ [CHR 0x0A])"]
  have "readTree (Some (''f'' @ quoted_name ''a'' @ '' 0 0'' @ [CHR 0x0A])) \<noteq> Assertion_failed" by blast
  moreover have "readTree (Some (''f'' @ quoted_name ''..'' @ '' 0 0'' @ [CHR 0x0A])) = Assertion_failed"
    by code_simp
  ultimately show ?thesis by blast
qed

text \<open>
  C10: Reading is correct. The list written for nested directories (no name being two dots) is read
  as a root followed by the nodes of the forest in preorder, each with its name up to the first
  zero byte, type, sizes and times, the number of its line, and the right parent, next sibling and
  number of children.
\<close>

theorem tree_reader_correct:
  assumes "list_all tree_ok ts"
  shows "readTree (Some (forest_text ts)) = Good (root_node ts # layout 0 1 0 ts)"
  by (rule readTree_layout [OF assms])

theorem tree_reader_correct_witness:
  "readTree (Some (forest_text [Dir ''a'' 7 [File ''b'' 1 2, Dir ''c'' 3 []], File ''d'' 5 6]))
    = Good [root_node [Dir ''a'' 7 [], File ''d'' 5 6],
        tree_node 0 0 (Some 4) (Dir ''a'' 7 [File ''b'' 1 2, Dir ''c'' 3 []]),
        tree_node 1 1 (Some 3) (File ''b'' 1 2),
        tree_node 1 2 None (Dir ''c'' 3 []),
        tree_node 0 5 None (File ''d'' 5 6)]"
proof -
  have "list_all tree_ok [Dir ''a'' 7 [File ''b'' 1 2, Dir ''c'' 3 []], File ''d'' 5 6]" by simp
  from tree_reader_correct [OF this] show ?thesis by (simp add: root_node_def eval_nat_numeral)
qed

end
