(* ===== verification/Tree_Diff.thy ===== *)
theory Tree_Diff
  imports Tree_Reader "HOL-Library.Product_Lexorder"
begin

text \<open>
  Comparing two trees: \<open>idrivebmrserver/treediff/TreeDiff.cpp\<close>. The nodes of both trees live in two
  vectors; the walk marks matching nodes in both (\<open>mapped_node\<close>) and changed ancestors in the new one
  (\<open>subtree_changed\<close>) and collects line numbers. A walk over pointers that never ends is \<open>None\<close>.
\<close>

section \<open>The walk\<close>

text \<open>The two vectors and the result lists; a result pointer that is null is \<open>None\<close>.\<close>

record diff_state =
  nodes1 :: "TreeNode list"
  nodes2 :: "TreeNode list"
  diffs :: "nat list"
  modified_inplace_ids :: "nat list option"
  dir_diffs :: "nat list"
  deleted_inplace_ids :: "nat list option"

definition isSymlink :: "TreeNode \<Rightarrow> bool \<Rightarrow> bool \<Rightarrow> bool" where
  "isSymlink n has_symbit is_windows =
     (let d = (case node_data n of Some d \<Rightarrow> d | None \<Rightarrow> []);
          change_indicator = (if node_type n = CHR ''d'' \<and> getDataSize n = 1 then d ! 0
                              else if node_type n = CHR ''f'' \<and> getDataSize n = 2 then d ! 1
                              else 0)
      in if has_symbit then change_indicator AND 0x4000000000000000 \<noteq> 0
         else if is_windows
         then (change_indicator AND 0x8000000000000000 = 0 \<or> node_type n = CHR ''d'')
              \<and> change_indicator AND 0x7000000000000000 > 0
         else change_indicator AND 0x8000000000000000 \<noteq> 0)"

text \<open>The loop of \<open>subtreeChangedParent\<close> climbs until the root or a node that is marked already.\<close>

definition unmarked :: "TreeNode list \<Rightarrow> nat" where
  "unmarked ns = length (filter (\<lambda>n. \<not> subtree_changed n) ns)"

lemma unmarked_mark:
  "p < length ns \<Longrightarrow> \<not> subtree_changed (ns ! p) \<Longrightarrow>
   unmarked (update_node p (\<lambda>n. n\<lparr>subtree_changed := True\<rparr>) ns) < unmarked ns"
  unfolding unmarked_def update_node_def
proof (induction ns arbitrary: p)
  case (Cons n ns)
  then show ?case by (cases p) auto
qed simp

function subtreeChangedParent :: "TreeNode list \<Rightarrow> nat \<Rightarrow> TreeNode list" where
  "subtreeChangedParent ns p =
     (if p \<ge> length ns \<or> subtree_changed (ns ! p) then ns
      else let ns' = update_node p (\<lambda>n. n\<lparr>subtree_changed := True\<rparr>) ns
           in case parent (ns ! p) of None \<Rightarrow> ns' | Some q \<Rightarrow> subtreeChangedParent ns' q)"
  by pat_completeness auto
termination subtreeChangedParent
  by (relation "measure (\<lambda>(ns, p). unmarked ns)") (auto simp: unmarked_mark)

declare subtreeChangedParent.simps [simp del]

definition subtreeChanged :: "TreeNode list \<Rightarrow> nat \<Rightarrow> TreeNode list" where
  "subtreeChanged ns t2 = (case parent (ns ! t2) of None \<Rightarrow> ns | Some p \<Rightarrow> subtreeChangedParent ns p)"

definition node_cmp :: "TreeNode \<Rightarrow> TreeNode \<Rightarrow> int" where
  "node_cmp c1 c2 =
     (if node_type c1 = CHR ''f'' \<and> node_type c2 = CHR ''d'' then -1
      else if node_type c1 = CHR ''d'' \<and> node_type c2 = CHR ''f'' then 1
      else nameCompare c1 c2)"

text \<open>The search among the children of the root, which need not be sorted.\<close>

partial_function (option) search_unmapped ::
  "TreeNode list \<Rightarrow> TreeNode \<Rightarrow> nat option \<Rightarrow> nat option option" where
  "search_unmapped ns c2 sn =
     (case sn of
        None \<Rightarrow> Some None
      | Some i \<Rightarrow>
          if node_type c2 = node_type (ns ! i) \<and> nameEquals c2 (ns ! i) \<and> mapped_node (ns ! i) = None
          then Some (Some i)
          else search_unmapped ns c2 (getNextSibling ns i))"

definition push_opt :: "nat \<Rightarrow> nat list option \<Rightarrow> nat list option" where
  "push_opt x = map_option (\<lambda>xs. xs @ [x])"

text \<open>The ids a pair of matching, but different nodes adds.\<close>

definition note_changed :: "bool \<Rightarrow> bool \<Rightarrow> nat \<Rightarrow> nat \<Rightarrow> diff_state \<Rightarrow> diff_state" where
  "note_changed has_symbit is_windows i1 i2 s =
     (let c1 = nodes1 s ! i1; c2 = nodes2 s ! i2;
          s = (if node_type c1 = node_type c2
               then s\<lparr>modified_inplace_ids := push_opt (node_id c2) (modified_inplace_ids s)\<rparr> else s);
          s = (if node_type c1 = node_type c2
                  \<and> isSymlink c1 has_symbit is_windows = isSymlink c2 has_symbit is_windows
               then s\<lparr>deleted_inplace_ids := push_opt (node_id c1) (deleted_inplace_ids s)\<rparr> else s)
      in s\<lparr>diffs := diffs s @ [node_id c2], nodes2 := subtreeChanged (nodes2 s) i2\<rparr>)"

definition note_dir_diff :: "nat \<Rightarrow> diff_state \<Rightarrow> diff_state" where
  "note_dir_diff i2 s =
     s\<lparr>dir_diffs := dir_diffs s @ [node_id (nodes2 s ! i2)], nodes2 := subtreeChanged (nodes2 s) i2\<rparr>"

definition note_new :: "nat \<Rightarrow> diff_state \<Rightarrow> diff_state" where
  "note_new i2 s =
     s\<lparr>diffs := diffs s @ [node_id (nodes2 s ! i2)], nodes2 := subtreeChanged (nodes2 s) i2\<rparr>"

definition map_pair :: "nat \<Rightarrow> nat \<Rightarrow> diff_state \<Rightarrow> diff_state" where
  "map_pair i1 i2 s =
     s\<lparr>nodes2 := update_node i2 (\<lambda>n. n\<lparr>mapped_node := Some i1\<rparr>) (nodes2 s),
       nodes1 := update_node i1 (\<lambda>n. n\<lparr>mapped_node := Some i2\<rparr>) (nodes1 s)\<rparr>"

definition mark_symlink :: "bool \<Rightarrow> bool \<Rightarrow> nat \<Rightarrow> diff_state \<Rightarrow> diff_state" where
  "mark_symlink has_symbit is_windows i2 s =
     (if isSymlink (nodes2 s ! i2) has_symbit is_windows
      then s\<lparr>nodes2 := subtreeChanged (nodes2 s) i2\<rparr> else s)"

text \<open>
  The while loop of \<open>gatherDiffs(t1, t2, depth, ...)\<close>, with the current children \<open>c1\<close> and \<open>c2\<close>; the
  recursive call for a pair of children is the same loop at their first children. This is the
  version for Linux, which marks the ancestors of symbolic links as changed.
\<close>

partial_function (option) gather_loop ::
  "bool \<Rightarrow> bool \<Rightarrow> nat \<Rightarrow> nat \<Rightarrow> nat \<Rightarrow> nat option \<Rightarrow> nat option \<Rightarrow> diff_state \<Rightarrow> diff_state option" where
  "gather_loop has_symbit is_windows t1 t2 depth c1 c2 s =
     (case c2 of
        None \<Rightarrow> Some s
      | Some i2 \<Rightarrow>
          let cmp = (case c1 of None \<Rightarrow> 1 | Some i1 \<Rightarrow> node_cmp (nodes1 s ! i1) (nodes2 s ! i2))
          in Option.bind (if cmp \<noteq> 0 \<and> depth = 0
                          then search_unmapped (nodes1 s) (nodes2 s ! i2) (getFirstChild (nodes1 s) t1)
                          else Some None) (\<lambda>found.
             let (cmp, c1) = (case found of Some sn \<Rightarrow> (0, Some sn) | None \<Rightarrow> (cmp, c1))
             in if cmp = 0
                then (case c1 of
                        None \<Rightarrow> Some s
                      | Some i1 \<Rightarrow>
                          let equal_dir = (node_type (nodes1 s ! i1) = CHR ''d'' \<and> node_type (nodes2 s ! i2) = CHR ''d'');
                              data_equals = dataEquals (nodes1 s ! i1) (nodes2 s ! i2);
                              s = (if equal_dir \<and> \<not> data_equals then note_dir_diff i2 s else s)
                          in Option.bind
                               (if equal_dir \<or> data_equals
                                then Option.bind
                                       (gather_loop has_symbit is_windows i1 i2 (depth + 1)
                                          (getFirstChild (nodes1 s) i1) (getFirstChild (nodes2 s) i2) s)
                                       (\<lambda>s. Some (map_pair i1 i2 s))
                                else Some (note_changed has_symbit is_windows i1 i2 s)) (\<lambda>s.
                             let s = mark_symlink has_symbit is_windows i2 s
                             in gather_loop has_symbit is_windows t1 t2 depth
                                  (getNextSibling (nodes1 s) i1) (getNextSibling (nodes2 s) i2) s))
                else if cmp < 0
                then gather_loop has_symbit is_windows t1 t2 depth
                       (case c1 of Some i1 \<Rightarrow> getNextSibling (nodes1 s) i1 | None \<Rightarrow> None) c2
                       (s\<lparr>nodes2 := subtreeChangedParent (nodes2 s) t2\<rparr>)
                else gather_loop has_symbit is_windows t1 t2 depth
                       c1 (getNextSibling (nodes2 s) i2) (note_new i2 s)))"

definition gatherDiffs :: "bool \<Rightarrow> bool \<Rightarrow> nat \<Rightarrow> nat \<Rightarrow> nat \<Rightarrow> diff_state \<Rightarrow> diff_state option" where
  "gatherDiffs has_symbit is_windows t1 t2 depth s =
     gather_loop has_symbit is_windows t1 t2 depth
       (getFirstChild (nodes1 s) t1) (getFirstChild (nodes2 s) t2) s"

section \<open>Deleted nodes and large unchanged subtrees\<close>

partial_function (option) gather_deletes_loop ::
  "TreeNode list \<Rightarrow> nat option \<Rightarrow> nat list \<Rightarrow> nat list option" where
  "gather_deletes_loop ns c1 deleted_ids =
     (case c1 of
        None \<Rightarrow> Some deleted_ids
      | Some i \<Rightarrow>
          Option.bind (gather_deletes_loop ns (getFirstChild ns i)
             (if mapped_node (ns ! i) = None then deleted_ids @ [node_id (ns ! i)] else deleted_ids))
            (\<lambda>deleted_ids. gather_deletes_loop ns (getNextSibling ns i) deleted_ids))"

definition gatherDeletes :: "TreeNode list \<Rightarrow> nat \<Rightarrow> nat list \<Rightarrow> nat list option" where
  "gatherDeletes ns t1 deleted_ids = gather_deletes_loop ns (getFirstChild ns t1) deleted_ids"

text \<open>\<open>getTreesize\<close> stops counting children once it is past the limit.\<close>

partial_function (option) treesize_loop :: "TreeNode list \<Rightarrow> nat \<Rightarrow> nat option \<Rightarrow> nat \<Rightarrow> nat option" where
  "treesize_loop ns limit c treesize =
     (case c of
        None \<Rightarrow> Some treesize
      | Some i \<Rightarrow>
          Option.bind (treesize_loop ns limit (getFirstChild ns i) 1) (\<lambda>sz.
          if treesize + sz > limit then Some (treesize + sz)
          else treesize_loop ns limit (getNextSibling ns i) (treesize + sz)))"

definition getTreesize :: "TreeNode list \<Rightarrow> nat \<Rightarrow> nat \<Rightarrow> nat option" where
  "getTreesize ns t limit = treesize_loop ns limit (getFirstChild ns t) 1"

partial_function (option) gather_large_loop ::
  "TreeNode list \<Rightarrow> nat option \<Rightarrow> nat list \<Rightarrow> nat list option" where
  "gather_large_loop ns c2 large =
     (case c2 of
        None \<Rightarrow> Some large
      | Some i \<Rightarrow>
          Option.bind (if \<not> subtree_changed (ns ! i) \<and> mapped_node (ns ! i) \<noteq> None
                       then map_option (\<lambda>sz. sz > 10) (getTreesize ns i 10) else Some False) (\<lambda>is_large.
          Option.bind (if is_large then Some (large @ [node_id (ns ! i)])
                       else gather_large_loop ns (getFirstChild ns i) large) (\<lambda>large.
          gather_large_loop ns (getNextSibling ns i) large)))"

definition gatherLargeUnchangedSubtrees :: "TreeNode list \<Rightarrow> nat \<Rightarrow> nat list \<Rightarrow> nat list option" where
  "gatherLargeUnchangedSubtrees ns t2 large = gather_large_loop ns (getFirstChild ns t2) large"

declare gather_loop.simps [code] search_unmapped.simps [code]
declare gather_deletes_loop.simps [code] treesize_loop.simps [code] gather_large_loop.simps [code]

section \<open>The comparison of two files\<close>

record diff_result =
  r_diffs :: "nat list"
  r_deleted_ids :: "nat list option"
  r_large_unchanged_subtrees :: "nat list option"
  r_modified_inplace_ids :: "nat list option"
  r_dir_diffs :: "nat list"
  r_deleted_inplace_ids :: "nat list option"

text \<open>
  \<open>diffTrees\<close> on the contents of the two files; \<open>want_x\<close> tells whether the pointer for the result \<open>x\<close>
  is given, with an empty list behind it. \<open>Failed\<close> is the return with \<open>error\<close> set.
\<close>

definition diffTrees ::
  "string option \<Rightarrow> string option \<Rightarrow> bool \<Rightarrow> bool \<Rightarrow> bool \<Rightarrow> bool \<Rightarrow> bool \<Rightarrow> bool
    \<Rightarrow> diff_result outcome option" where
  "diffTrees t1 t2 want_deleted want_large want_modified want_deleted_inplace has_symbit is_windows =
     (case readTree t1 of
        Good ns1 \<Rightarrow>
          (case readTree t2 of
             Good ns2 \<Rightarrow>
               Option.bind (gatherDiffs has_symbit is_windows 0 0 0
                   \<lparr>nodes1 = ns1, nodes2 = ns2, diffs = [],
                    modified_inplace_ids = (if want_modified then Some [] else None), dir_diffs = [],
                    deleted_inplace_ids = (if want_deleted_inplace then Some [] else None)\<rparr>) (\<lambda>s.
               Option.bind (if want_deleted then map_option Some (gatherDeletes (nodes1 s) 0 [])
                            else Some None) (\<lambda>deleted.
               Option.bind (if want_large then map_option Some (gatherLargeUnchangedSubtrees (nodes2 s) 0 [])
                            else Some None) (\<lambda>large.
               Some (Good
                 \<lparr>r_diffs = sort (diffs s), r_deleted_ids = map_option sort deleted,
                  r_large_unchanged_subtrees = map_option sort large,
                  r_modified_inplace_ids = map_option sort (modified_inplace_ids s),
                  r_dir_diffs = sort (dir_diffs s),
                  r_deleted_inplace_ids = map_option sort (deleted_inplace_ids s)\<rparr>))))
           | Failed \<Rightarrow> Some Failed | Undef \<Rightarrow> Some Undef | Assertion_failed \<Rightarrow> Some Assertion_failed)
      | Failed \<Rightarrow> Some Failed | Undef \<Rightarrow> Some Undef | Assertion_failed \<Rightarrow> Some Assertion_failed)"

section \<open>Trees in a vector of nodes\<close>

text \<open>The index of a node and the trees below it.\<close>

datatype shape = Sh (ix: nat) (kids: "shape list")

fun addrs :: "shape list \<Rightarrow> nat list" where
  "addrs [] = []"
| "addrs (Sh i ks # ss) = i # addrs ks @ addrs ss"

text \<open>The pointer \<open>p\<close> leads to the siblings \<open>ss\<close>, children of \<open>t\<close>.\<close>

fun rep :: "TreeNode list \<Rightarrow> nat \<Rightarrow> nat option \<Rightarrow> shape list \<Rightarrow> bool" where
  "rep ns t p [] \<longleftrightarrow> p = None"
| "rep ns t p (Sh i ks # ss) \<longleftrightarrow>
     p = Some i \<and> i < length ns \<and> parent (ns ! i) = Some t
     \<and> rep ns i (getFirstChild ns i) ks \<and> rep ns t (getNextSibling ns i) ss"

text \<open>What the walk never changes of a node.\<close>

definition core :: "TreeNode \<Rightarrow> TreeNode" where
  "core n = n\<lparr>mapped_node := None, subtree_changed := False\<rparr>"

lemma core_simps [simp]:
  "node_type (core n) = node_type n" "node_name (core n) = node_name n" "node_data (core n) = node_data n"
  "nextSibling (core n) = nextSibling n" "parent (core n) = parent n" "num_children (core n) = num_children n"
  "node_id (core n) = node_id n" "core (n\<lparr>mapped_node := m\<rparr>) = core n" "core (n\<lparr>subtree_changed := b\<rparr>) = core n"
  by (simp_all add: core_def)

definition same_core :: "TreeNode list \<Rightarrow> TreeNode list \<Rightarrow> bool" where
  "same_core ns N \<longleftrightarrow> map core ns = map core N"

lemma same_core_length: "same_core ns N \<Longrightarrow> length ns = length N"
  unfolding same_core_def by (metis length_map)

lemma same_core_nth: "same_core ns N \<Longrightarrow> i < length N \<Longrightarrow> core (ns ! i) = core (N ! i)"
  unfolding same_core_def by (metis length_map nth_map)

lemma same_core_fields:
  assumes "same_core ns N" and "i < length N"
  shows "node_type (ns ! i) = node_type (N ! i)" "node_name (ns ! i) = node_name (N ! i)"
    "node_data (ns ! i) = node_data (N ! i)" "nextSibling (ns ! i) = nextSibling (N ! i)"
    "parent (ns ! i) = parent (N ! i)" "num_children (ns ! i) = num_children (N ! i)"
    "node_id (ns ! i) = node_id (N ! i)"
  using same_core_nth [OF assms] by (metis core_simps)+

lemma same_core_getters:
  assumes "same_core ns N" and "i < length N"
  shows "getFirstChild ns i = getFirstChild N i" "getNextSibling ns i = getNextSibling N i"
  using same_core_fields [OF assms] by (simp_all add: getFirstChild_def getNextSibling_def)

lemma same_core_refl [simp, intro]: "same_core ns ns" by (simp add: same_core_def)

lemma same_core_trans: "same_core a b \<Longrightarrow> same_core b c \<Longrightarrow> same_core a c" by (simp add: same_core_def)

lemma same_core_sym: "same_core a b \<Longrightarrow> same_core b a" by (simp add: same_core_def)

lemma same_core_update:
  "(\<And>n. core (f n) = core n) \<Longrightarrow> same_core (update_node i f ns) ns"
  by (auto simp: same_core_def update_node_def map_update list_update_same_conv)
    (metis length_map list_update_beyond list_update_id map_update not_le nth_map)

section \<open>The order of siblings\<close>

definition key :: "TreeNode \<Rightarrow> bool \<times> string" where
  "key n = (node_type n = CHR ''d'', the (node_name n))"

definition good_node :: "TreeNode \<Rightarrow> bool" where
  "good_node n \<longleftrightarrow> node_type n \<in> {CHR ''f'', CHR ''d''} \<and> node_name n \<noteq> None \<and> node_data n \<noteq> None"

lemma node_cmp_key:
  assumes "good_node a" and "good_node b"
  shows "node_cmp a b = (if key a = key b then 0 else if key a < key b then -1 else 1)"
  using assms by (auto simp: node_cmp_def key_def good_node_def nameCompare_def strcmp_def less_prod_def)

lemma name_type_key:
  assumes "good_node a" and "good_node b"
  shows "node_type a = node_type b \<and> nameEquals a b \<longleftrightarrow> key a = key b"
  using assms by (auto simp: key_def good_node_def nameEquals_def strcmp_def split: if_splits)

fun good :: "TreeNode list \<Rightarrow> shape list \<Rightarrow> bool" where
  "good ns [] \<longleftrightarrow> True"
| "good ns (Sh i ks # ss) \<longleftrightarrow> good_node (ns ! i) \<and> good ns ks \<and> good ns ss"

fun ordered :: "TreeNode list \<Rightarrow> shape list \<Rightarrow> bool" where
  "ordered ns [] \<longleftrightarrow> True"
| "ordered ns (Sh i ks # ss) \<longleftrightarrow>
     (\<forall>s \<in> set ss. key (ns ! i) < key (ns ! ix s)) \<and> ordered ns ks \<and> ordered ns ss"

section \<open>What the walk reports\<close>

text \<open>Everything one walk does, in order, with nodes named by their indices.\<close>

datatype event =
    EDiff nat
  | EDirDiff nat
  | EModified nat
  | EDeletedInplace nat
  | EMatch nat nat

text \<open>The specification: a node of the new tree is looked up among the old siblings by type and name.\<close>

fun diff_spec :: "bool \<Rightarrow> bool \<Rightarrow> TreeNode list \<Rightarrow> TreeNode list \<Rightarrow> shape list \<Rightarrow> shape list \<Rightarrow> event list" where
  "diff_spec hs iw N1 N2 ss1 [] = []"
| "diff_spec hs iw N1 N2 ss1 (Sh i2 k2 # ss2) =
     (case find (\<lambda>s. key (N1 ! ix s) = key (N2 ! i2)) ss1 of
        None \<Rightarrow> [EDiff i2]
      | Some s1 \<Rightarrow>
          let c1 = N1 ! ix s1; c2 = N2 ! i2
          in if node_type c2 = CHR ''d'' \<or> dataEquals c1 c2
             then (if node_type c2 = CHR ''d'' \<and> \<not> dataEquals c1 c2 then [EDirDiff i2] else [])
                  @ diff_spec hs iw N1 N2 (kids s1) k2 @ [EMatch (ix s1) i2]
             else [EModified i2] @ (if isSymlink c1 hs iw = isSymlink c2 hs iw then [EDeletedInplace (ix s1)] else [])
                  @ [EDiff i2])
     @ diff_spec hs iw N1 N2 ss1 ss2"

definition diffs_of :: "event list \<Rightarrow> nat list" where
  "diffs_of ev = concat (map (\<lambda>e. case e of EDiff i \<Rightarrow> [i] | _ \<Rightarrow> []) ev)"

definition dir_diffs_of :: "event list \<Rightarrow> nat list" where
  "dir_diffs_of ev = concat (map (\<lambda>e. case e of EDirDiff i \<Rightarrow> [i] | _ \<Rightarrow> []) ev)"

definition modified_of :: "event list \<Rightarrow> nat list" where
  "modified_of ev = concat (map (\<lambda>e. case e of EModified i \<Rightarrow> [i] | _ \<Rightarrow> []) ev)"

definition deleted_inplace_of :: "event list \<Rightarrow> nat list" where
  "deleted_inplace_of ev = concat (map (\<lambda>e. case e of EDeletedInplace i \<Rightarrow> [i] | _ \<Rightarrow> []) ev)"

lemmas events_of_defs = diffs_of_def dir_diffs_of_def modified_of_def deleted_inplace_of_def

definition match1 :: "event list \<Rightarrow> nat \<Rightarrow> nat option \<Rightarrow> nat option" where
  "match1 ev i m = fold (\<lambda>e m. case e of EMatch a b \<Rightarrow> if a = i then Some b else m | _ \<Rightarrow> m) ev m"

definition match2 :: "event list \<Rightarrow> nat \<Rightarrow> nat option \<Rightarrow> nat option" where
  "match2 ev i m = fold (\<lambda>e m. case e of EMatch a b \<Rightarrow> if b = i then Some a else m | _ \<Rightarrow> m) ev m"

definition ids :: "TreeNode list \<Rightarrow> nat list \<Rightarrow> nat list" where
  "ids ns is = map (\<lambda>i. node_id (ns ! i)) is"

text \<open>Marked nodes have marked parents.\<close>

definition marks_closed :: "TreeNode list \<Rightarrow> bool" where
  "marks_closed ns \<longleftrightarrow>
     (\<forall>i < length ns. subtree_changed (ns ! i) \<longrightarrow>
        (case parent (ns ! i) of None \<Rightarrow> True | Some p \<Rightarrow> p < length ns \<and> subtree_changed (ns ! p)))"

definition parent_marked :: "TreeNode list \<Rightarrow> nat \<Rightarrow> bool" where
  "parent_marked ns i \<longleftrightarrow> (case parent (ns ! i) of None \<Rightarrow> True | Some p \<Rightarrow> p < length ns \<and> subtree_changed (ns ! p))"

text \<open>The new state \<open>s'\<close> is the old one \<open>s\<close> with the events \<open>ev\<close> done.\<close>

definition done_ev :: "TreeNode list \<Rightarrow> TreeNode list \<Rightarrow> event list \<Rightarrow> diff_state \<Rightarrow> diff_state \<Rightarrow> bool" where
  "done_ev N1 N2 ev s s' \<longleftrightarrow>
     same_core (nodes1 s') N1 \<and> same_core (nodes2 s') N2
     \<and> diffs s' = diffs s @ ids N2 (diffs_of ev)
     \<and> dir_diffs s' = dir_diffs s @ ids N2 (dir_diffs_of ev)
     \<and> modified_inplace_ids s' = map_option (\<lambda>xs. xs @ ids N2 (modified_of ev)) (modified_inplace_ids s)
     \<and> deleted_inplace_ids s' = map_option (\<lambda>xs. xs @ ids N1 (deleted_inplace_of ev)) (deleted_inplace_ids s)
     \<and> (\<forall>i < length N1. mapped_node (nodes1 s' ! i) = match1 ev i (mapped_node (nodes1 s ! i)))
     \<and> (\<forall>i < length N2. mapped_node (nodes2 s' ! i) = match2 ev i (mapped_node (nodes2 s ! i)))
     \<and> marks_closed (nodes2 s')
     \<and> (\<forall>i < length N2. subtree_changed (nodes2 s ! i) \<longrightarrow> subtree_changed (nodes2 s' ! i))
     \<and> (\<forall>i \<in> set (diffs_of ev @ dir_diffs_of ev). parent_marked (nodes2 s') i)"

definition in_state :: "TreeNode list \<Rightarrow> TreeNode list \<Rightarrow> diff_state \<Rightarrow> bool" where
  "in_state N1 N2 s \<longleftrightarrow> same_core (nodes1 s) N1 \<and> same_core (nodes2 s) N2 \<and> marks_closed (nodes2 s)
     \<and> (\<forall>i < length N2. \<forall>p. parent (N2 ! i) = Some p \<longrightarrow> p < length N2)"

lemma events_append:
  "diffs_of (a @ b) = diffs_of a @ diffs_of b"
  "dir_diffs_of (a @ b) = dir_diffs_of a @ dir_diffs_of b"
  "modified_of (a @ b) = modified_of a @ modified_of b"
  "deleted_inplace_of (a @ b) = deleted_inplace_of a @ deleted_inplace_of b"
  "match1 (a @ b) i m = match1 b i (match1 a i m)"
  "match2 (a @ b) i m = match2 b i (match2 a i m)"
  "ids ns (xs @ ys) = ids ns xs @ ids ns ys"
  by (simp_all add: events_of_defs match1_def match2_def ids_def)

lemma events_simps [simp]:
  "diffs_of [] = []" "dir_diffs_of [] = []" "modified_of [] = []" "deleted_inplace_of [] = []"
  "diffs_of (e # ev) = (case e of EDiff i \<Rightarrow> [i] | _ \<Rightarrow> []) @ diffs_of ev"
  "dir_diffs_of (e # ev) = (case e of EDirDiff i \<Rightarrow> [i] | _ \<Rightarrow> []) @ dir_diffs_of ev"
  "modified_of (e # ev) = (case e of EModified i \<Rightarrow> [i] | _ \<Rightarrow> []) @ modified_of ev"
  "deleted_inplace_of (e # ev) = (case e of EDeletedInplace i \<Rightarrow> [i] | _ \<Rightarrow> []) @ deleted_inplace_of ev"
  by (simp_all add: events_of_defs)

lemma match_simps [simp]:
  "match1 [] i m = m" "match2 [] i m = m"
  "match1 (e # ev) i m = match1 ev i (case e of EMatch a b \<Rightarrow> if a = i then Some b else m | _ \<Rightarrow> m)"
  "match2 (e # ev) i m = match2 ev i (case e of EMatch a b \<Rightarrow> if b = i then Some a else m | _ \<Rightarrow> m)"
  by (simp_all add: match1_def match2_def)

lemma done_ev_in_state: "in_state N1 N2 s \<Longrightarrow> done_ev N1 N2 ev s s' \<Longrightarrow> in_state N1 N2 s'"
  by (simp add: in_state_def done_ev_def)

lemma parent_marked_mono:
  assumes "same_core (nodes2 s) N2" "same_core (nodes2 s') N2"
    and "\<forall>i < length N2. subtree_changed (nodes2 s ! i) \<longrightarrow> subtree_changed (nodes2 s' ! i)"
    and "i < length N2" and "parent_marked (nodes2 s) i"
  shows "parent_marked (nodes2 s') i"
  using assms same_core_fields(5) [OF assms(1,4)] same_core_fields(5) [OF assms(2,4)]
    same_core_length [OF assms(1)] same_core_length [OF assms(2)]
  by (auto simp: parent_marked_def split: option.splits)

lemma done_ev_nil: "in_state N1 N2 s \<Longrightarrow> done_ev N1 N2 [] s s"
  by (simp add: done_ev_def in_state_def ids_def option.map_ident)

lemma done_ev_append:
  assumes "done_ev N1 N2 a s s1" and "done_ev N1 N2 b s1 s2"
    and "\<forall>i \<in> set (diffs_of a @ dir_diffs_of a). i < length N2"
  shows "done_ev N1 N2 (a @ b) s s2"
proof -
  have "parent_marked (nodes2 s2) i" if "i \<in> set (diffs_of a @ dir_diffs_of a)" for i
    using parent_marked_mono [of s1 N2 s2 i] assms that by (auto simp: done_ev_def)
  then show ?thesis
    using assms(1,2)
    by (auto simp: done_ev_def events_append option.map_comp comp_def)
qed


section \<open>Marking\<close>

lemma nth_update_node:
  "update_node j f ns ! i = (if j = i \<and> i < length ns then f (ns ! i) else ns ! i)"
  by (cases "j = i"; cases "i < length ns") (simp_all add: update_node_def list_update_beyond)

lemma mark_fields:
  "i < length ns \<Longrightarrow> subtree_changed (update_node p (\<lambda>n. n\<lparr>subtree_changed := True\<rparr>) ns ! i)
     \<longleftrightarrow> i = p \<or> subtree_changed (ns ! i)"
  "i < length ns \<Longrightarrow> mapped_node (update_node p (\<lambda>n. n\<lparr>subtree_changed := True\<rparr>) ns ! i) = mapped_node (ns ! i)"
  by (auto simp: nth_update_node)

text \<open>Closed except at one node whose parent is about to be marked.\<close>

definition closed_but :: "nat option \<Rightarrow> TreeNode list \<Rightarrow> bool" where
  "closed_but x ns \<longleftrightarrow>
     (\<forall>i < length ns. subtree_changed (ns ! i) \<longrightarrow>
        (case parent (ns ! i) of None \<Rightarrow> True
         | Some p \<Rightarrow> p < length ns \<and> (subtree_changed (ns ! p) \<or> x = Some p)))"

lemma subtreeChangedParent_marks:
  assumes "closed_but (Some p) ns" and "p < length ns"
    and "\<forall>i < length ns. \<forall>q. parent (ns ! i) = Some q \<longrightarrow> q < length ns"
  shows "same_core (subtreeChangedParent ns p) ns
    \<and> marks_closed (subtreeChangedParent ns p)
    \<and> (\<forall>i < length ns. mapped_node (subtreeChangedParent ns p ! i) = mapped_node (ns ! i)
         \<and> (subtree_changed (ns ! i) \<longrightarrow> subtree_changed (subtreeChangedParent ns p ! i)))
    \<and> subtree_changed (subtreeChangedParent ns p ! p)"
  using assms
proof (induction ns p rule: subtreeChangedParent.induct)
  case (1 ns p)
  show ?case
  proof (cases "subtree_changed (ns ! p)")
    case True
    then have "marks_closed ns" using "1.prems"(1)
      by (auto simp: closed_but_def marks_closed_def split: option.splits)
    with True show ?thesis by (subst (1 2 3 4 5) subtreeChangedParent.simps) (simp add: True)
  next
    case False
    define ns' where "ns' = update_node p (\<lambda>n. n\<lparr>subtree_changed := True\<rparr>) ns"
    have sc: "same_core ns' ns" unfolding ns'_def by (rule same_core_update) simp
    have len: "length ns' = length ns" by (simp add: ns'_def)
    have par: "i < length ns \<Longrightarrow> parent (ns' ! i) = parent (ns ! i)" for i
      using same_core_fields(5) [OF sc] by simp
    note mf = mark_fields [of _ ns p, folded ns'_def]
    show ?thesis
    proof (cases "parent (ns ! p)")
      case None
      have "subtreeChangedParent ns p = ns'"
        using False "1.prems"(2) None by (subst subtreeChangedParent.simps) (simp add: ns'_def)
      moreover have "marks_closed ns'"
        unfolding marks_closed_def len
      proof (intro allI impI)
        fix i assume i: "i < length ns" "subtree_changed (ns' ! i)"
        show "case parent (ns' ! i) of None \<Rightarrow> True | Some q \<Rightarrow> q < length ns \<and> subtree_changed (ns' ! q)"
          using i "1.prems" None mf by (cases "i = p") (auto simp: par closed_but_def split: option.splits)
      qed
      ultimately show ?thesis using sc mf "1.prems"(2) by simp
    next
      case (Some q)
      have q: "q < length ns" using "1.prems"(2,3) Some by blast
      have eq: "subtreeChangedParent ns p = subtreeChangedParent ns' q"
        using False "1.prems"(2) Some by (subst subtreeChangedParent.simps) (simp add: ns'_def)
      have "closed_but (Some q) ns'"
        unfolding closed_but_def len
      proof (intro allI impI)
        fix i assume i: "i < length ns" "subtree_changed (ns' ! i)"
        show "case parent (ns' ! i) of None \<Rightarrow> True
          | Some r \<Rightarrow> r < length ns \<and> (subtree_changed (ns' ! r) \<or> Some q = Some r)"
          using i "1.prems" Some mf by (cases "i = p") (auto simp: par closed_but_def split: option.splits)
      qed
      from "1.IH" [OF _ ns'_def Some this] False "1.prems" q len par
      have IH: "same_core (subtreeChangedParent ns' q) ns' \<and> marks_closed (subtreeChangedParent ns' q)
        \<and> (\<forall>i < length ns'. mapped_node (subtreeChangedParent ns' q ! i) = mapped_node (ns' ! i)
           \<and> (subtree_changed (ns' ! i) \<longrightarrow> subtree_changed (subtreeChangedParent ns' q ! i)))"
        by simp
      then show ?thesis
        unfolding eq using sc mf "1.prems"(2) len by (auto intro: same_core_trans)
    qed
  qed
qed

lemma closed_but_closed: "marks_closed ns \<Longrightarrow> closed_but x ns"
  by (auto simp: closed_but_def marks_closed_def split: option.splits)

text \<open>Marking as a step of the walk.\<close>

lemma done_mark:
  assumes "in_state N1 N2 s" and "p < length N2"
  shows "done_ev N1 N2 [] s (s\<lparr>nodes2 := subtreeChangedParent (nodes2 s) p\<rparr>)
    \<and> subtree_changed (subtreeChangedParent (nodes2 s) p ! p)"
proof -
  have sc: "same_core (nodes2 s) N2" and len: "length (nodes2 s) = length N2"
    using assms same_core_length by (auto simp: in_state_def)
  have "\<forall>i < length (nodes2 s). \<forall>q. parent (nodes2 s ! i) = Some q \<longrightarrow> q < length (nodes2 s)"
    using assms(1) same_core_fields(5) [OF sc] len by (simp add: in_state_def)
  from subtreeChangedParent_marks [OF _ _ this, of p] assms
  have "same_core (subtreeChangedParent (nodes2 s) p) (nodes2 s)
    \<and> marks_closed (subtreeChangedParent (nodes2 s) p)
    \<and> (\<forall>i < length (nodes2 s). mapped_node (subtreeChangedParent (nodes2 s) p ! i) = mapped_node (nodes2 s ! i)
         \<and> (subtree_changed (nodes2 s ! i) \<longrightarrow> subtree_changed (subtreeChangedParent (nodes2 s) p ! i)))
    \<and> subtree_changed (subtreeChangedParent (nodes2 s) p ! p)"
    by (simp add: len in_state_def closed_but_closed)
  then show ?thesis
    using assms sc by (auto simp: done_ev_def in_state_def ids_def len option.map_ident intro: same_core_trans)
qed

lemma done_subtreeChanged:
  assumes "in_state N1 N2 s" and "i < length N2"
  shows "done_ev N1 N2 [] s (s\<lparr>nodes2 := subtreeChanged (nodes2 s) i\<rparr>)
    \<and> parent_marked (subtreeChanged (nodes2 s) i) i"
proof -
  have sc: "same_core (nodes2 s) N2" and len: "length (nodes2 s) = length N2"
    using assms same_core_length by (auto simp: in_state_def)
  have par: "parent (nodes2 s ! i) = parent (N2 ! i)" using same_core_fields(5) [OF sc assms(2)] .
  show ?thesis
  proof (cases "parent (N2 ! i)")
    case None
    then show ?thesis using done_ev_nil [OF assms(1)] par
      by (simp add: subtreeChanged_def parent_marked_def)
  next
    case (Some p)
    then have p: "p < length N2" using assms by (auto simp: in_state_def)
    note d = done_mark [OF assms(1) p]
    then have "same_core (subtreeChangedParent (nodes2 s) p) N2" by (simp add: done_ev_def)
    then have "parent (subtreeChangedParent (nodes2 s) p ! i) = Some p" "length (subtreeChangedParent (nodes2 s) p) = length N2"
      using same_core_fields(5) [OF _ assms(2)] same_core_length Some by metis+
    then show ?thesis using d par Some p by (simp add: subtreeChanged_def parent_marked_def)
  qed
qed

lemma done_note_new:
  assumes "in_state N1 N2 s" and "i < length N2"
  shows "done_ev N1 N2 [EDiff i] s (note_new i s)"
proof -
  have "node_id (nodes2 s ! i) = node_id (N2 ! i)"
    using assms same_core_fields(7) by (auto simp: in_state_def)
  then show ?thesis
    using done_subtreeChanged [OF assms] by (auto simp: done_ev_def note_new_def ids_def)
qed

lemma done_note_dir_diff:
  assumes "in_state N1 N2 s" and "i < length N2"
  shows "done_ev N1 N2 [EDirDiff i] s (note_dir_diff i s)"
proof -
  have "node_id (nodes2 s ! i) = node_id (N2 ! i)"
    using assms same_core_fields(7) by (auto simp: in_state_def)
  then show ?thesis
    using done_subtreeChanged [OF assms] by (auto simp: done_ev_def note_dir_diff_def ids_def)
qed

lemma done_mark_symlink:
  assumes "in_state N1 N2 s" and "i < length N2"
  shows "done_ev N1 N2 [] s (mark_symlink hs iw i s)"
  using done_subtreeChanged [OF assms] done_ev_nil [OF assms(1)] by (simp add: mark_symlink_def)

lemma map_fields:
  "subtree_changed (update_node j (\<lambda>n. n\<lparr>mapped_node := m\<rparr>) ns ! i) = subtree_changed (ns ! i)"
  "parent (update_node j (\<lambda>n. n\<lparr>mapped_node := m\<rparr>) ns ! i) = parent (ns ! i)"
  "i < length ns \<Longrightarrow> mapped_node (update_node j (\<lambda>n. n\<lparr>mapped_node := m\<rparr>) ns ! i)
     = (if j = i then m else mapped_node (ns ! i))"
  by (simp_all add: nth_update_node)

lemma done_map_pair:
  assumes "in_state N1 N2 s" and "i1 < length N1" and "i2 < length N2"
  shows "done_ev N1 N2 [EMatch i1 i2] s (map_pair i1 i2 s)"
proof -
  have len: "length (nodes1 s) = length N1" "length (nodes2 s) = length N2"
    using assms same_core_length by (auto simp: in_state_def)
  let ?n1 = "update_node i1 (\<lambda>n. n\<lparr>mapped_node := Some i2\<rparr>) (nodes1 s)"
  let ?n2 = "update_node i2 (\<lambda>n. n\<lparr>mapped_node := Some i1\<rparr>) (nodes2 s)"
  have "same_core ?n1 (nodes1 s)" "same_core ?n2 (nodes2 s)"
    by (rule same_core_update; simp)+
  then have "same_core ?n1 N1" "same_core ?n2 N2"
    using assms(1) same_core_trans by (auto simp: in_state_def)
  moreover have "marks_closed ?n2"
    using assms(1) by (simp add: marks_closed_def map_fields in_state_def cong: option.case_cong)
  ultimately show ?thesis
    using assms len
    by (simp add: done_ev_def map_pair_def ids_def option.map_ident map_fields)
qed

lemma done_note_changed:
  assumes "in_state N1 N2 s" and "i1 < length N1" and "i2 < length N2"
    and "node_type (N1 ! i1) = node_type (N2 ! i2)"
  shows "done_ev N1 N2 ([EModified i2]
     @ (if isSymlink (N1 ! i1) hs iw = isSymlink (N2 ! i2) hs iw then [EDeletedInplace i1] else [])
     @ [EDiff i2]) s (note_changed hs iw i1 i2 s)"
proof -
  have sc: "same_core (nodes1 s) N1" "same_core (nodes2 s) N2" using assms by (auto simp: in_state_def)
  note f1 = same_core_fields [OF sc(1) assms(2)] and f2 = same_core_fields [OF sc(2) assms(3)]
  have sym: "isSymlink (nodes1 s ! i1) hs iw = isSymlink (N1 ! i1) hs iw"
    "isSymlink (nodes2 s ! i2) hs iw = isSymlink (N2 ! i2) hs iw"
    by (simp_all add: isSymlink_def getDataSize_def f1 f2)
  have n: "done_ev N1 N2 [EDiff i2] s (note_new i2 s)" by (rule done_note_new [OF assms(1,3)])
  then show ?thesis
    using assms(4) unfolding note_changed_def Let_def sym f1 f2
    by (cases "modified_inplace_ids s"; cases "deleted_inplace_ids s")
      (auto simp: done_ev_def note_new_def push_opt_def events_append ids_def)
qed


section \<open>The walk below the root\<close>

lemma rep_addrs: "rep ns t p ss \<Longrightarrow> i \<in> set (addrs ss) \<Longrightarrow> i < length ns"
  by (induction ss arbitrary: t p rule: addrs.induct) auto

lemma rep_heads: "rep ns t p ss \<Longrightarrow> x \<in> set ss \<Longrightarrow> ix x < length ns \<and> rep ns (ix x) (getFirstChild ns (ix x)) (kids x)"
  by (induction ss arbitrary: p rule: addrs.induct) auto

lemma good_heads: "good ns ss \<Longrightarrow> x \<in> set ss \<Longrightarrow> good_node (ns ! ix x) \<and> good ns (kids x)"
  by (induction ss rule: addrs.induct) auto

lemma ordered_heads: "ordered ns ss \<Longrightarrow> x \<in> set ss \<Longrightarrow> ordered ns (kids x)"
  by (induction ss rule: addrs.induct) auto

lemma spec_addrs:
  "i \<in> set (diffs_of (diff_spec hs iw N1 N2 ss1 ss2) @ dir_diffs_of (diff_spec hs iw N1 N2 ss1 ss2))
     \<Longrightarrow> i \<in> set (addrs ss2)"
  by (induction hs iw N1 N2 ss1 ss2 rule: diff_spec.induct)
    (auto simp: events_append Let_def split: option.splits if_splits)

lemma match_not_in:
  assumes "i \<notin> set (addrs ss1)"
  shows "match1 (diff_spec hs iw N1 N2 ss1 ss2) i m = m"
  using assms
proof (induction hs iw N1 N2 ss1 ss2 arbitrary: m rule: diff_spec.induct)
  case (2 hs iw N1 N2 ss1 i2 k2 ss2)
  show ?case
  proof (cases "find (\<lambda>s. key (N1 ! ix s) = key (N2 ! i2)) ss1")
    case None
    with 2 show ?thesis by (simp add: events_append)
  next
    case (Some s1)
    then have "s1 \<in> set ss1" by (auto simp: find_Some_iff in_set_conv_nth)
    then have "ix s1 \<in> set (addrs ss1)" "set (addrs (kids s1)) \<subseteq> set (addrs ss1)"
      by (induction ss1 rule: addrs.induct) auto
    moreover have "match1 (diff_spec hs iw N1 N2 (kids s1) k2) i m = m"
      if "node_type (N2 ! i2) = CHR ''d'' \<or> dataEquals (N1 ! ix s1) (N2 ! i2)" for m
      by (rule "2.IH"(1) [OF Some refl refl that]) (use 2 calculation in auto)
    ultimately show ?thesis
      using "2.prems" "2.IH"(2) Some by (auto simp: events_append Let_def)
  qed
qed simp

lemma in_addrs:
  assumes "x \<in> set ss"
  shows "ix x \<in> set (addrs ss)" "set (addrs (kids x)) \<subseteq> set (addrs ss)"
  using assms by (induction ss rule: addrs.induct) auto

lemma done_ev_trans2:
  assumes "in_state N1 N2 s" and "done_ev N1 N2 a s s1"
    and "in_state N1 N2 s1 \<Longrightarrow> \<exists>s2. X = Some s2 \<and> done_ev N1 N2 b s1 s2"
    and "\<forall>i \<in> set (diffs_of a @ dir_diffs_of a). i < length N2"
  shows "\<exists>s2. X = Some s2 \<and> done_ev N1 N2 (a @ b) s s2"
  using assms done_ev_in_state done_ev_append by meson

text \<open>What one pair of matching nodes contributes.\<close>

definition pair_events :: "bool \<Rightarrow> bool \<Rightarrow> TreeNode list \<Rightarrow> TreeNode list \<Rightarrow> shape \<Rightarrow> shape \<Rightarrow> event list" where
  "pair_events hs iw N1 N2 s1 s2 =
     (let c1 = N1 ! ix s1; c2 = N2 ! ix s2
      in if node_type c2 = CHR ''d'' \<or> dataEquals c1 c2
         then (if node_type c2 = CHR ''d'' \<and> \<not> dataEquals c1 c2 then [EDirDiff (ix s2)] else [])
              @ diff_spec hs iw N1 N2 (kids s1) (kids s2) @ [EMatch (ix s1) (ix s2)]
         else [EModified (ix s2)] @ (if isSymlink c1 hs iw = isSymlink c2 hs iw then [EDeletedInplace (ix s1)] else [])
              @ [EDiff (ix s2)])"

lemma diff_spec_Cons:
  "diff_spec hs iw N1 N2 ss1 (s2 # ss2) =
     (case find (\<lambda>s. key (N1 ! ix s) = key (N2 ! ix s2)) ss1 of
        None \<Rightarrow> [EDiff (ix s2)] | Some s1 \<Rightarrow> pair_events hs iw N1 N2 s1 s2)
     @ diff_spec hs iw N1 N2 ss1 ss2"
  by (cases s2) (auto simp: pair_events_def Let_def split: option.split)

text \<open>The part of the loop body for \<open>cmp == 0\<close>, before it goes on with the next siblings.\<close>

definition pair_step :: "bool \<Rightarrow> bool \<Rightarrow> nat \<Rightarrow> nat \<Rightarrow> nat \<Rightarrow> diff_state \<Rightarrow> diff_state option" where
  "pair_step has_symbit is_windows depth i1 i2 s =
     (let equal_dir = (node_type (nodes1 s ! i1) = CHR ''d'' \<and> node_type (nodes2 s ! i2) = CHR ''d'');
          data_equals = dataEquals (nodes1 s ! i1) (nodes2 s ! i2);
          s = (if equal_dir \<and> \<not> data_equals then note_dir_diff i2 s else s)
      in Option.bind
           (if equal_dir \<or> data_equals
            then Option.bind
                   (gather_loop has_symbit is_windows i1 i2 (depth + 1)
                      (getFirstChild (nodes1 s) i1) (getFirstChild (nodes2 s) i2) s)
                   (\<lambda>s. Some (map_pair i1 i2 s))
            else Some (note_changed has_symbit is_windows i1 i2 s)) (\<lambda>s.
         Some (mark_symlink has_symbit is_windows i2 s)))"

lemma gather_loop_match:
  assumes "node_cmp (nodes1 s ! i1) (nodes2 s ! i2) = 0"
  shows "gather_loop hs iw t1 t2 depth (Some i1) (Some i2) s =
    Option.bind (pair_step hs iw depth i1 i2 s) (\<lambda>s'.
      gather_loop hs iw t1 t2 depth (getNextSibling (nodes1 s') i1) (getNextSibling (nodes2 s') i2) s')"
  by (subst gather_loop.simps) (simp add: assms pair_step_def Let_def)

lemma gather_loop_found:
  assumes "search_unmapped (nodes1 s) (nodes2 s ! i2) (getFirstChild (nodes1 s) t1) = Some (Some i1)"
    and "c1 = None \<or> node_cmp (nodes1 s ! the c1) (nodes2 s ! i2) \<noteq> 0"
  shows "gather_loop hs iw t1 t2 0 c1 (Some i2) s =
    Option.bind (pair_step hs iw 0 i1 i2 s) (\<lambda>s'.
      gather_loop hs iw t1 t2 0 (getNextSibling (nodes1 s') i1) (getNextSibling (nodes2 s') i2) s')"
  using assms(2) by (subst gather_loop.simps) (cases c1; simp add: assms(1) pair_step_def Let_def)

lemma gather_loop_old:
  assumes "node_cmp (nodes1 s ! i1) (nodes2 s ! i2) < 0"
    and "depth = 0 \<longrightarrow> search_unmapped (nodes1 s) (nodes2 s ! i2) (getFirstChild (nodes1 s) t1) = Some None"
  shows "gather_loop hs iw t1 t2 depth (Some i1) (Some i2) s =
    gather_loop hs iw t1 t2 depth (getNextSibling (nodes1 s) i1) (Some i2)
      (s\<lparr>nodes2 := subtreeChangedParent (nodes2 s) t2\<rparr>)"
  using assms by (subst gather_loop.simps) (simp add: Let_def)

lemma gather_loop_new:
  assumes "c1 = None \<or> 0 < node_cmp (nodes1 s ! the c1) (nodes2 s ! i2)"
    and "depth = 0 \<longrightarrow> search_unmapped (nodes1 s) (nodes2 s ! i2) (getFirstChild (nodes1 s) t1) = Some None"
  shows "gather_loop hs iw t1 t2 depth c1 (Some i2) s =
    gather_loop hs iw t1 t2 depth c1 (getNextSibling (nodes2 s) i2) (note_new i2 s)"
  using assms by (subst gather_loop.simps) (cases c1; simp add: Let_def)

lemma gather_loop_end: "gather_loop hs iw t1 t2 depth c1 None s = Some s"
  by (subst gather_loop.simps) simp

lemma pair_step_done:
  assumes st: "in_state N1 N2 s" and i: "i1 < length N1" "i2 < length N2"
    and g: "good_node (N1 ! i1)" "good_node (N2 ! i2)" and k: "key (N1 ! i1) = key (N2 ! i2)"
    and sub: "\<And>s'. in_state N1 N2 s' \<Longrightarrow> \<exists>s''. gather_loop hs iw i1 i2 (depth + 1)
        (getFirstChild N1 i1) (getFirstChild N2 i2) s' = Some s''
      \<and> done_ev N1 N2 (diff_spec hs iw N1 N2 k1 k2) s' s''"
    and a: "set (addrs k2) \<subseteq> {..< length N2}"
  shows "\<exists>s'. pair_step hs iw depth i1 i2 s = Some s' \<and> done_ev N1 N2 (pair_events hs iw N1 N2 (Sh i1 k1) (Sh i2 k2)) s s'"
proof -
  have sc: "same_core (nodes1 s) N1" "same_core (nodes2 s) N2" using st by (auto simp: in_state_def)
  note f = same_core_fields [OF sc(1) i(1)] same_core_fields [OF sc(2) i(2)]
  have ty: "node_type (N1 ! i1) = node_type (N2 ! i2)"
    using k g by (auto simp: key_def good_node_def)
  have "getDataSize (nodes1 s ! i1) = getDataSize (N1 ! i1)" by (simp add: getDataSize_def f)
  then have de: "dataEquals (nodes1 s ! i1) (nodes2 s ! i2) = dataEquals (N1 ! i1) (N2 ! i2)"
    by (simp add: dataEquals_def f split: option.split)
  let ?dir = "node_type (N2 ! i2) = CHR ''d''"
  let ?eq = "dataEquals (N1 ! i1) (N2 ! i2)"
  let ?pre = "if ?dir \<and> \<not> ?eq then [EDirDiff i2] else []"
  let ?s1 = "if ?dir \<and> \<not> ?eq then note_dir_diff i2 s else s"
  have fin: "\<exists>s'. Some (mark_symlink hs iw i2 s'') = Some s' \<and> done_ev N1 N2 ev s s'"
    if "done_ev N1 N2 ev s s''" and "\<forall>i \<in> set (diffs_of ev @ dir_diffs_of ev). i < length N2" for ev s''
    using done_ev_append [OF that(1) done_mark_symlink [OF done_ev_in_state [OF st that(1)] i(2)] that(2)] by auto
  show ?thesis
  proof (cases "?dir \<or> ?eq")
    case True
    have d1: "done_ev N1 N2 ?pre s ?s1"
      using done_note_dir_diff [OF st i(2)] done_ev_nil [OF st] by auto
    have st1: "in_state N1 N2 ?s1" by (rule done_ev_in_state [OF st d1])
    then have gc: "getFirstChild (nodes1 ?s1) i1 = getFirstChild N1 i1" "getFirstChild (nodes2 ?s1) i2 = getFirstChild N2 i2"
      using same_core_getters i unfolding in_state_def by blast+
    obtain s2 where s2: "gather_loop hs iw i1 i2 (depth + 1) (getFirstChild N1 i1) (getFirstChild N2 i2) ?s1 = Some s2"
      "done_ev N1 N2 (diff_spec hs iw N1 N2 k1 k2) ?s1 s2"
      using sub [OF st1] by blast
    have d3: "done_ev N1 N2 [EMatch i1 i2] s2 (map_pair i1 i2 s2)"
      by (rule done_map_pair [OF done_ev_in_state [OF st1 s2(2)] i])
    have b: "\<forall>i \<in> set (diffs_of (diff_spec hs iw N1 N2 k1 k2) @ dir_diffs_of (diff_spec hs iw N1 N2 k1 k2)). i < length N2"
      using spec_addrs a by blast
    have "done_ev N1 N2 (?pre @ diff_spec hs iw N1 N2 k1 k2 @ [EMatch i1 i2]) s (map_pair i1 i2 s2)"
      by (rule done_ev_append [OF d1 done_ev_append [OF s2(2) d3 b]]) (use i in auto)
    from fin [OF this] have
      "\<exists>s'. Some (mark_symlink hs iw i2 (map_pair i1 i2 s2)) = Some s' \<and> done_ev N1 N2 (?pre @ diff_spec hs iw N1 N2 k1 k2 @ [EMatch i1 i2]) s s'"
      using b i by (auto simp: events_append split: if_splits)
    then show ?thesis
      using True s2(1) gc by (auto simp: pair_step_def Let_def f de ty pair_events_def)
  next
    case False
    from fin [OF done_note_changed [OF st i ty, where hs = hs and iw = iw]] False show ?thesis
      using i by (auto simp: pair_step_def Let_def f de ty pair_events_def events_append split: if_splits)
  qed
qed


lemma find_ordered_skip:
  assumes "\<forall>s \<in> set ss. key (N1 ! i1) < key (N2 ! ix s)"
  shows "diff_spec hs iw N1 N2 (Sh i1 k1 # ss1) ss = diff_spec hs iw N1 N2 ss1 ss"
  using assms
proof (induction ss)
  case (Cons s ss)
  then have "key (N1 ! i1) \<noteq> key (N2 ! ix s)" by auto
  with Cons show ?case by (simp add: diff_spec_Cons)
qed simp

lemma find_key_None: "(\<forall>s \<in> set ss. key (N1 ! ix s) \<noteq> k) \<Longrightarrow> find (\<lambda>s. key (N1 ! ix s) = k) ss = None"
  by (simp add: find_None_iff)

abbreviation "both_size a b \<equiv> length (addrs a) + length (addrs b)"

lemma gather_below:
  assumes "in_state N1 N2 s" and "0 < depth"
    and "rep N1 t1 c1 cs1" "rep N2 t2 c2 ss2" "good N1 cs1" "good N2 ss2" "ordered N1 cs1" "ordered N2 ss2"
    and "t2 < length N2"
  shows "\<exists>s'. gather_loop hs iw t1 t2 depth c1 c2 s = Some s'
    \<and> done_ev N1 N2 (diff_spec hs iw N1 N2 cs1 ss2) s s'"
  using assms
proof (induction "both_size cs1 ss2" arbitrary: s depth t1 t2 c1 c2 cs1 ss2 rule: less_induct)
  case less
  note prems = less.prems
  show ?case
  proof (cases ss2)
    case Nil
    then show ?thesis using done_ev_nil [OF prems(1)] prems(4) by (simp add: gather_loop_end)
  next
    case (Cons x2 rest2)
    obtain i2 k2 where x2: "x2 = Sh i2 k2" by (cases x2)
    have c2: "c2 = Some i2" and i2: "i2 < length N2" and g2: "good_node (N2 ! i2)"
      and r2: "rep N2 t2 (getNextSibling N2 i2) rest2" and k2: "rep N2 i2 (getFirstChild N2 i2) k2" "good N2 k2" "ordered N2 k2"
      and o2: "\<forall>s \<in> set rest2. key (N2 ! i2) < key (N2 ! ix s)" and q2: "good N2 rest2" "ordered N2 rest2"
      using prems by (auto simp: Cons x2)
    have sc: "same_core (nodes1 s) N1" "same_core (nodes2 s) N2" using prems(1) by (auto simp: in_state_def)
    have b2: "set (addrs k2) \<subseteq> {..< length N2}" using rep_addrs [OF k2(1)] by auto
    have new: ?thesis if nf: "find (\<lambda>s. key (N1 ! ix s) = key (N2 ! i2)) cs1 = None"
      and cmp: "c1 = None \<or> 0 < node_cmp (nodes1 s ! the c1) (nodes2 s ! i2)"
    proof -
      have n: "done_ev N1 N2 [EDiff i2] s (note_new i2 s)" by (rule done_note_new [OF prems(1) i2])
      have "\<exists>s'. gather_loop hs iw t1 t2 depth c1 (getNextSibling N2 i2) (note_new i2 s) = Some s'
          \<and> done_ev N1 N2 ([EDiff i2] @ diff_spec hs iw N1 N2 cs1 rest2) s s'"
        by (rule done_ev_trans2 [OF prems(1) n less.hyps]) (use prems r2 q2 i2 in \<open>auto simp: Cons x2\<close>)
      then show ?thesis
        using nf cmp prems(2) same_core_getters(2) [OF sc(2) i2]
        by (simp add: c2 Cons x2 gather_loop_new)
    qed
    show ?thesis
    proof (cases cs1)
      case Nil
      then show ?thesis using new prems(3) by simp
    next
      case c1s: (Cons x1 rest1)
      obtain i1 k1 where x1: "x1 = Sh i1 k1" by (cases x1)
      have c1: "c1 = Some i1" and i1: "i1 < length N1" and g1: "good_node (N1 ! i1)"
        and r1: "rep N1 t1 (getNextSibling N1 i1) rest1" and k1: "rep N1 i1 (getFirstChild N1 i1) k1" "good N1 k1" "ordered N1 k1"
        and o1: "\<forall>s \<in> set rest1. key (N1 ! i1) < key (N1 ! ix s)" and q1: "good N1 rest1" "ordered N1 rest1"
        using prems by (auto simp: c1s x1)
      have "node_cmp (nodes1 s ! i1) (nodes2 s ! i2) = node_cmp (N1 ! i1) (N2 ! i2)"
        using same_core_fields [OF sc(1) i1] same_core_fields [OF sc(2) i2]
        by (simp add: node_cmp_def nameCompare_def)
      note cmp = this [unfolded node_cmp_key [OF g1 g2]]
      consider (eq) "key (N1 ! i1) = key (N2 ! i2)" | (lt) "key (N1 ! i1) < key (N2 ! i2)"
        | (gt) "key (N2 ! i2) < key (N1 ! i1)" by fastforce
      then show ?thesis
      proof cases
        case eq
        have sub: "\<exists>s''. gather_loop hs iw i1 i2 (depth + 1) (getFirstChild N1 i1) (getFirstChild N2 i2) s' = Some s''
            \<and> done_ev N1 N2 (diff_spec hs iw N1 N2 k1 k2) s' s''" if "in_state N1 N2 s'" for s'
          by (rule less.hyps [OF _ that]) (use k1 k2 i2 in \<open>auto simp: Cons x2 c1s x1\<close>)
        obtain s1 where s1: "pair_step hs iw depth i1 i2 s = Some s1"
          "done_ev N1 N2 (pair_events hs iw N1 N2 x1 x2) s s1"
          using pair_step_done [OF prems(1) i1 i2 g1 g2 eq sub b2] by (auto simp: x1 x2)
        have st1: "in_state N1 N2 s1" by (rule done_ev_in_state [OF prems(1) s1(2)])
        then have nx: "getNextSibling (nodes1 s1) i1 = getNextSibling N1 i1" "getNextSibling (nodes2 s1) i2 = getNextSibling N2 i2"
          using same_core_getters i1 i2 unfolding in_state_def by blast+
        have pa: "\<forall>i \<in> set (diffs_of (pair_events hs iw N1 N2 x1 x2) @ dir_diffs_of (pair_events hs iw N1 N2 x1 x2)). i < length N2"
          using spec_addrs [of _ hs iw N1 N2 k1 k2] b2 i2
          by (auto simp: pair_events_def Let_def events_append x1 x2 split: if_splits)
        have "\<exists>s'. gather_loop hs iw t1 t2 depth (getNextSibling N1 i1) (getNextSibling N2 i2) s1 = Some s'
          \<and> done_ev N1 N2 (pair_events hs iw N1 N2 x1 x2 @ diff_spec hs iw N1 N2 rest1 rest2) s s'"
          by (rule done_ev_trans2 [OF prems(1) s1(2) less.hyps pa]) (use prems r1 q1 r2 q2 in \<open>auto simp: Cons x2 c1s x1\<close>)
        moreover have "diff_spec hs iw N1 N2 cs1 rest2 = diff_spec hs iw N1 N2 rest1 rest2"
          unfolding c1s x1 by (rule find_ordered_skip) (use o2 eq in auto)
        ultimately show ?thesis
          using s1(1) nx cmp eq by (simp add: c1 c2 gather_loop_match Cons diff_spec_Cons) (simp add: c1s x1 x2)
      next
        case lt
        let ?s = "s\<lparr>nodes2 := subtreeChangedParent (nodes2 s) t2\<rparr>"
        have m: "done_ev N1 N2 [] s ?s" using done_mark [OF prems(1,9)] by simp
        have "\<exists>s'. gather_loop hs iw t1 t2 depth (getNextSibling N1 i1) c2 ?s = Some s'
          \<and> done_ev N1 N2 ([] @ diff_spec hs iw N1 N2 rest1 ss2) s s'"
          by (rule done_ev_trans2 [OF prems(1) m less.hyps]) (use prems r1 q1 in \<open>auto simp: c1s x1\<close>)
        moreover have "diff_spec hs iw N1 N2 cs1 ss2 = diff_spec hs iw N1 N2 rest1 ss2"
          unfolding c1s x1 by (rule find_ordered_skip) (use o2 lt in \<open>auto simp: Cons x2\<close>)
        ultimately show ?thesis
          using lt cmp prems(2) same_core_getters(2) [OF sc(1) i1] by (simp add: c1 c2 gather_loop_old)
      next
        case gt
        have "find (\<lambda>s. key (N1 ! ix s) = key (N2 ! i2)) cs1 = None"
          by (rule find_key_None) (use gt o1 in \<open>auto simp: c1s x1\<close>)
        moreover have "0 < node_cmp (nodes1 s ! the c1) (nodes2 s ! i2)" using gt cmp by (auto simp: c1)
        ultimately show ?thesis using new by blast
      qed
    qed
  qed
qed


section \<open>The walk at the root\<close>

lemma search_unmapped_find:
  assumes "same_core ns N1" and "rep N1 t p ss" and "good N1 ss" and "good_node c2"
  shows "search_unmapped ns c2 p
    = Some (map_option ix (find (\<lambda>s. key (N1 ! ix s) = key c2 \<and> mapped_node (ns ! ix s) = None) ss))"
  using assms(2,3)
proof (induction ss arbitrary: p rule: addrs.induct)
  case 1
  then show ?case by (subst search_unmapped.simps) simp
next
  case (2 i ks ss)
  then have i: "p = Some i" "i < length N1" "good_node (N1 ! i)" by auto
  note f = same_core_fields [OF assms(1) i(2)]
  have "node_type c2 = node_type (ns ! i) \<and> nameEquals c2 (ns ! i) \<longleftrightarrow> key (N1 ! i) = key c2"
    using name_type_key [OF assms(4) i(3)] f by (auto simp: nameEquals_def)
  then show ?case
    using 2 i same_core_getters(2) [OF assms(1) i(2)]
    by (subst search_unmapped.simps) auto
qed

lemma rep_suffix:
  assumes "rep ns t p (pre @ Sh i k # ss)"
  shows "rep ns t (getNextSibling ns i) ss"
  using assms by (induction pre arbitrary: p rule: addrs.induct) auto

lemma addrs_append: "addrs (a @ b) = addrs a @ addrs b"
  by (induction a rule: addrs.induct) auto

lemma distinct_heads:
  assumes "distinct (addrs ss)" and "x \<in> set ss" and "y \<in> set ss" and "x \<noteq> y"
  shows "ix y \<notin> set (addrs [x])"
  using assms
proof (induction ss rule: addrs.induct)
  case (2 i ks ss)
  show ?case
  proof (cases "x = Sh i ks")
    case True
    with 2 have "ix y \<in> set (addrs ss)" using in_addrs(1) by auto
    with 2 True show ?thesis by auto
  next
    case False
    with 2 have x: "x \<in> set ss" by auto
    have "set (addrs [x]) = insert (ix x) (set (addrs (kids x)))" by (cases x) simp
    then have sub: "set (addrs [x]) \<subseteq> set (addrs ss)" using in_addrs [OF x] by simp
    show ?thesis
    proof (cases "y = Sh i ks")
      case True
      with 2 sub show ?thesis by auto
    next
      case False
      with 2 x show ?thesis by auto
    qed
  qed
qed simp

lemma pair_match_not_in:
  assumes "i \<notin> set (addrs [x])"
  shows "match1 (pair_events hs iw N1 N2 x y) i m = m"
  using assms match_not_in [of i "kids x"] by (cases x) (auto simp: pair_events_def Let_def events_append)

definition level_ok :: "TreeNode list \<Rightarrow> nat \<Rightarrow> nat option \<Rightarrow> shape list \<Rightarrow> bool" where
  "level_ok ns t p ss \<longleftrightarrow> rep ns t p ss \<and> good ns ss \<and> distinct (map (\<lambda>s. key (ns ! ix s)) ss)
     \<and> (\<forall>s \<in> set ss. ordered ns (kids s)) \<and> distinct (addrs ss)"

definition fresh :: "TreeNode list \<Rightarrow> TreeNode list \<Rightarrow> shape list \<Rightarrow> shape list \<Rightarrow> diff_state \<Rightarrow> bool" where
  "fresh N1 N2 ss1 ss2 s \<longleftrightarrow>
     (\<forall>x \<in> set ss1. \<forall>y \<in> set ss2. key (N1 ! ix x) = key (N2 ! ix y) \<longrightarrow> mapped_node (nodes1 s ! ix x) = None)"

lemma find_cong_fresh:
  assumes "fresh N1 N2 ss1 ss2 s" and "y \<in> set ss2"
  shows "find (\<lambda>x. key (N1 ! ix x) = key (N2 ! ix y) \<and> mapped_node (nodes1 s ! ix x) = None) ss1
    = find (\<lambda>x. key (N1 ! ix x) = key (N2 ! ix y)) ss1"
  using assms by (induction ss1) (auto simp: fresh_def)

lemma find_distinct:
  assumes "distinct (map f ss)" and "x \<in> set ss"
  shows "find (\<lambda>y. f y = f x) ss = Some x"
  using assms by (induction ss) (auto simp: image_iff)

lemma pair_events_bounds:
  assumes "rep N2 t p ss2" "y \<in> set ss2"
  shows "\<forall>i \<in> set (diffs_of (pair_events hs iw N1 N2 x y) @ dir_diffs_of (pair_events hs iw N1 N2 x y)). i < length N2"
proof -
  have "ix y < length N2" "set (addrs (kids y)) \<subseteq> {..< length N2}"
    using rep_heads [OF assms] rep_addrs by auto
  then show ?thesis
    using spec_addrs [of _ hs iw N1 N2 "kids x" "kids y"]
    by (auto simp: pair_events_def Let_def events_append split: if_splits)
qed

lemma gather_root:
  assumes "in_state N1 N2 s" and "level_ok N1 t1 (getFirstChild N1 t1) ss1" and "level_ok N2 t2 c2 ss2"
    and "fresh N1 N2 ss1 ss2 s" and "ss1 = pre @ cs1" and "rep N1 t1 c1 cs1"
    and t: "t1 < length N1" "t2 < length N2"
  shows "\<exists>s'. gather_loop hs iw t1 t2 0 c1 c2 s = Some s'
    \<and> done_ev N1 N2 (diff_spec hs iw N1 N2 ss1 ss2) s s'"
  using assms(1-6)
proof (induction ss2 arbitrary: s c1 c2 pre cs1)
  case Nil
  then show ?case using done_ev_nil by (simp add: gather_loop_end level_ok_def)
next
  case (Cons x2 rest2)
  note outer = Cons.IH
  obtain i2 k2 where x2: "x2 = Sh i2 k2" by (cases x2)
  have l2: "level_ok N2 t2 (getNextSibling N2 i2) rest2" and c2: "c2 = Some i2" and i2: "i2 < length N2"
    and g2: "good_node (N2 ! i2)" and o2: "ordered N2 k2" and r2: "rep N2 i2 (getFirstChild N2 i2) k2" "good N2 k2"
    using Cons.prems(3) by (auto simp: level_ok_def x2)
  have d2: "\<forall>y \<in> set rest2. key (N2 ! ix y) \<noteq> key (N2 ! i2)"
    using Cons.prems(3) by (force simp: level_ok_def x2)
  have l1: "rep N1 t1 (getFirstChild N1 t1) ss1" "good N1 ss1" "distinct (map (\<lambda>s. key (N1 ! ix s)) ss1)"
    "\<And>x. x \<in> set ss1 \<Longrightarrow> ordered N1 (kids x)" "distinct (addrs ss1)"
    using Cons.prems(2) by (auto simp: level_ok_def)
  have fresh_rest: "fresh N1 N2 ss1 rest2 s" if "fresh N1 N2 ss1 (x2 # rest2) s" for s
    using that by (simp add: fresh_def)
  have search: "search_unmapped (nodes1 s) (nodes2 s ! i2) (getFirstChild (nodes1 s) t1)
      = Some (map_option ix (find (\<lambda>x. key (N1 ! ix x) = key (N2 ! i2)) ss1))"
    if st: "in_state N1 N2 s" and fr: "fresh N1 N2 ss1 (x2 # rest2) s" for s
  proof -
    have sc: "same_core (nodes1 s) N1" "same_core (nodes2 s) N2" using st by (auto simp: in_state_def)
    note f = same_core_fields [OF sc(2) i2]
    have "good_node (nodes2 s ! i2)" "key (nodes2 s ! i2) = key (N2 ! i2)"
      using g2 f by (simp_all add: good_node_def key_def)
    then show ?thesis
      using search_unmapped_find [OF sc(1) l1(1,2), of "nodes2 s ! i2"] find_cong_fresh [OF fr, of x2]
        same_core_getters(1) [OF sc(1) t(1)] by (simp add: x2)
  qed
  have node_cmp_s: "node_cmp (nodes1 s ! i1) (nodes2 s ! i2) = node_cmp (N1 ! i1) (N2 ! i2)"
    if "in_state N1 N2 s" "i1 < length N1" for s i1
  proof -
    have sc: "same_core (nodes1 s) N1" "same_core (nodes2 s) N2" using that by (auto simp: in_state_def)
    show ?thesis
      using same_core_fields [OF sc(1) that(2)] same_core_fields [OF sc(2) i2]
      by (simp add: node_cmp_def nameCompare_def)
  qed
  show ?case
  proof (cases "find (\<lambda>x. key (N1 ! ix x) = key (N2 ! i2)) ss1")
    case (Some x1)
    then have x1: "x1 \<in> set ss1" and keq: "key (N1 ! ix x1) = key (N2 ! i2)"
      by (auto simp: find_Some_iff in_set_conv_nth)
    obtain i1 k1 where x1s: "x1 = Sh i1 k1" by (cases x1)
    have i1: "i1 < length N1" and g1: "good_node (N1 ! i1)" and r1: "rep N1 i1 (getFirstChild N1 i1) k1" "good N1 k1" "ordered N1 k1"
      using rep_heads [OF l1(1) x1] good_heads [OF l1(2) x1] l1(4) [OF x1] by (simp_all add: x1s)
    obtain pre1 post1 where split1: "ss1 = pre1 @ Sh i1 k1 # post1" using x1 x1s by (meson split_list)
    have walk: "\<exists>s'. gather_loop hs iw t1 t2 0 c1 c2 s = Some s' \<and> done_ev N1 N2 (diff_spec hs iw N1 N2 ss1 (x2 # rest2)) s s'"
      if st: "in_state N1 N2 s" and fr: "fresh N1 N2 ss1 (x2 # rest2) s"
        and eq: "gather_loop hs iw t1 t2 0 c1 (Some i2) s = Option.bind (pair_step hs iw 0 i1 i2 s) (\<lambda>s'.
          gather_loop hs iw t1 t2 0 (getNextSibling (nodes1 s') i1) (getNextSibling (nodes2 s') i2) s')" for s c1
    proof -
      have sub: "\<exists>s''. gather_loop hs iw i1 i2 (0 + 1) (getFirstChild N1 i1) (getFirstChild N2 i2) s' = Some s''
            \<and> done_ev N1 N2 (diff_spec hs iw N1 N2 k1 k2) s' s''" if "in_state N1 N2 s'" for s'
        by (rule gather_below [OF that _ r1(1) r2(1) r1(2) r2(2) r1(3) o2 i2]) simp
      have b2: "set (addrs k2) \<subseteq> {..< length N2}" using rep_addrs [OF r2(1)] by auto
      obtain s1 where s1: "pair_step hs iw 0 i1 i2 s = Some s1" "done_ev N1 N2 (pair_events hs iw N1 N2 x1 x2) s s1"
        using pair_step_done [OF st i1 i2 g1 g2 _ sub b2] keq by (auto simp: x1s x2)
      have st1: "in_state N1 N2 s1" by (rule done_ev_in_state [OF st s1(2)])
      then have nx: "getNextSibling (nodes1 s1) i1 = getNextSibling N1 i1" "getNextSibling (nodes2 s1) i2 = getNextSibling N2 i2"
        using same_core_getters i1 i2 unfolding in_state_def by blast+
      have fr1: "fresh N1 N2 ss1 rest2 s1"
        unfolding fresh_def
      proof (intro ballI impI)
        fix x y assume xy: "x \<in> set ss1" "y \<in> set rest2" "key (N1 ! ix x) = key (N2 ! ix y)"
        then have "x \<noteq> x1" using d2 keq by auto
        then have "ix x \<notin> set (addrs [x1])" using distinct_heads [OF l1(5) x1 xy(1)] by auto
        moreover have "mapped_node (nodes1 s ! ix x) = None" using fr xy by (auto simp: fresh_def)
        moreover have "ix x < length N1" using rep_heads [OF l1(1) xy(1)] by simp
        ultimately show "mapped_node (nodes1 s1 ! ix x) = None"
          using s1(2) by (simp add: done_ev_def pair_match_not_in)
      qed
      have rs: "rep N1 t1 (getNextSibling N1 i1) post1" using rep_suffix l1(1) split1 by metis
      have pb: "\<forall>i \<in> set (diffs_of (pair_events hs iw N1 N2 x1 x2) @ dir_diffs_of (pair_events hs iw N1 N2 x1 x2)). i < length N2"
        by (rule pair_events_bounds [of N2 t2 c2 "x2 # rest2"]) (use Cons.prems(3) in \<open>simp_all add: level_ok_def\<close>)
      have split1': "ss1 = (pre1 @ [Sh i1 k1]) @ post1" by (simp add: split1)
      have "\<exists>s'. gather_loop hs iw t1 t2 0 (getNextSibling N1 i1) (getNextSibling N2 i2) s1 = Some s'
          \<and> done_ev N1 N2 (pair_events hs iw N1 N2 x1 x2 @ diff_spec hs iw N1 N2 ss1 rest2) s s'"
        by (rule done_ev_trans2 [OF st s1(2) outer [OF _ Cons.prems(2) l2 fr1 split1'] pb]) (use rs in auto)
      then show ?thesis using eq s1(1) nx keq Some by (simp add: c2 diff_spec_Cons) (simp add: x2)
    qed
    show ?thesis
    proof (cases "c1 = None \<or> node_cmp (nodes1 s ! the c1) (nodes2 s ! i2) \<noteq> 0")
      case True
      show ?thesis
        by (rule walk [OF Cons.prems(1,4) gather_loop_found])
          (use search [OF Cons.prems(1,4)] Some True in \<open>auto simp: x1s\<close>)
    next
      case False
      then obtain j where j: "c1 = Some j" "node_cmp (nodes1 s ! j) (nodes2 s ! i2) = 0" by auto
      then obtain kj rj where cs1: "cs1 = Sh j kj # rj" using Cons.prems(6) by (cases cs1 rule: addrs.cases) auto
      then have xj: "Sh j kj \<in> set ss1" using Cons.prems(5) by simp
      then have jl: "j < length N1" "good_node (N1 ! j)" using rep_heads [OF l1(1) xj] good_heads [OF l1(2) xj] by auto
      have "key (N1 ! j) = key (N2 ! i2)"
        using j(2) node_cmp_s [OF Cons.prems(1) jl(1)] node_cmp_key [OF jl(2) g2] by (auto split: if_splits)
      then have "Sh j kj = x1" using find_distinct [OF l1(3) xj] Some by simp
      then show ?thesis using walk [OF Cons.prems(1,4) gather_loop_match] j by (simp add: x1s)
    qed
  next
    case None
    have new: "\<exists>s'. gather_loop hs iw t1 t2 0 c1 c2 s = Some s' \<and> done_ev N1 N2 (diff_spec hs iw N1 N2 ss1 (x2 # rest2)) s s'"
      if st: "in_state N1 N2 s" and fr: "fresh N1 N2 ss1 (x2 # rest2) s" and pre: "ss1 = pre @ cs1" and rc: "rep N1 t1 c1 cs1"
        and cmp: "c1 = None \<or> 0 < node_cmp (nodes1 s ! the c1) (nodes2 s ! i2)" for s c1 cs1 pre
    proof -
      have n: "done_ev N1 N2 [EDiff i2] s (note_new i2 s)" by (rule done_note_new [OF st i2])
      have sc: "same_core (nodes2 s) N2" using st by (simp add: in_state_def)
      have "fresh N1 N2 ss1 rest2 (note_new i2 s)"
        using fr by (simp add: fresh_def note_new_def)
      then have "\<exists>s'. gather_loop hs iw t1 t2 0 c1 (getNextSibling N2 i2) (note_new i2 s) = Some s'
          \<and> done_ev N1 N2 ([EDiff i2] @ diff_spec hs iw N1 N2 ss1 rest2) s s'"
        by (intro done_ev_trans2 [OF st n outer])
          (use Cons.prems(2) l2 pre rc i2 in auto)
      then show ?thesis
        using None cmp search [OF st fr] same_core_getters(2) [OF sc i2]
        by (simp add: c2 gather_loop_new diff_spec_Cons) (simp add: x2)
    qed
    have "\<exists>s'. gather_loop hs iw t1 t2 0 c1 c2 s = Some s' \<and> done_ev N1 N2 (diff_spec hs iw N1 N2 ss1 (x2 # rest2)) s s'"
      if st: "in_state N1 N2 s" and fr: "fresh N1 N2 ss1 (x2 # rest2) s" and pre: "ss1 = pre @ cs1" and rc: "rep N1 t1 c1 cs1" for s c1 cs1 pre
      using that
    proof (induction cs1 arbitrary: s c1 pre)
      case Nil
      show ?case by (rule new [OF Nil]) (use Nil(4) in simp)
    next
      case (Cons x1 rest1)
      obtain i1 k1 where x1: "x1 = Sh i1 k1" by (cases x1)
      have xin: "x1 \<in> set ss1" using Cons.prems(3) by simp
      have c1: "c1 = Some i1" and i1: "i1 < length N1" and g1: "good_node (N1 ! i1)" and r1: "rep N1 t1 (getNextSibling N1 i1) rest1"
        using Cons.prems(4) good_heads [OF l1(2) xin] by (auto simp: x1)
      have sc: "same_core (nodes1 s) N1" using Cons.prems(1) by (simp add: in_state_def)
      have "key (N1 ! i1) \<noteq> key (N2 ! i2)" using None xin by (auto simp: find_None_iff x1)
      then have "node_cmp (nodes1 s ! i1) (nodes2 s ! i2) \<noteq> 0"
        using node_cmp_s [OF Cons.prems(1) i1] node_cmp_key [OF g1 g2] by simp
      then consider "node_cmp (nodes1 s ! i1) (nodes2 s ! i2) < 0" | "0 < node_cmp (nodes1 s ! i1) (nodes2 s ! i2)"
        by linarith
      then show ?case
      proof cases
        case 1
        let ?s = "s\<lparr>nodes2 := subtreeChangedParent (nodes2 s) t2\<rparr>"
        have m: "done_ev N1 N2 [] s ?s" using done_mark [OF Cons.prems(1) t(2)] by simp
        have "\<exists>s'. gather_loop hs iw t1 t2 0 (getNextSibling N1 i1) c2 ?s = Some s'
          \<and> done_ev N1 N2 ([] @ diff_spec hs iw N1 N2 ss1 (x2 # rest2)) s s'"
          by (rule done_ev_trans2 [OF Cons.prems(1) m Cons.IH [where pre = "pre @ [x1]"]])
            (use Cons.prems r1 in \<open>auto simp: fresh_def\<close>)
        then show ?thesis
          using 1 search [OF Cons.prems(1,2)] None same_core_getters(2) [OF sc i1]
          by (simp add: c1 c2 gather_loop_old)
      next
        case 2
        then show ?thesis using new [OF Cons.prems] by (simp add: c1)
      qed
    qed
    from this [OF Cons.prems(1,4,5,6)] show ?thesis .
  qed
qed

end
