(* ===== verification/Tree_Compare.thy ===== *)
theory Tree_Compare
  imports Tree_Diff
begin

text \<open>
  What a comparison of two file lists means: the lines that are new, changed or deleted, defined on
  the directory trees themselves, and the proof that \<open>TreeDiff::diffTrees\<close>, which walks over vectors
  of nodes with pointers and marks, computes them.
\<close>

section \<open>What changed between two directory trees\<close>

definition ft_key :: "ftree \<Rightarrow> bool \<times> string" where
  "ft_key t = (ft_type t = CHR ''d'', ft_name t)"

definition find_old :: "ftree \<Rightarrow> ftree list \<Rightarrow> ftree option" where
  "find_old t ts = find (\<lambda>o'. ft_key o' = ft_key t) ts"

text \<open>
  Two entries of the same type and name are kept together if they are directories or equal files;
  a file with another size or time counts as new.
\<close>

definition kept :: "ftree \<Rightarrow> ftree \<Rightarrow> bool" where
  "kept t t' \<longleftrightarrow> ft_type t' = CHR ''d'' \<or> ft_data t = ft_data t'"

text \<open>
  The lines of the new list, from line \<open>l\<close>, whose entry is new or changed; below a new directory
  nothing is reported.
\<close>

fun changed_lines :: "nat \<Rightarrow> ftree list \<Rightarrow> ftree list \<Rightarrow> nat list" where
  "changed_lines l old [] = []"
| "changed_lines l old (File n s m # ts) =
     (case find_old (File n s m) old of
        Some t' \<Rightarrow> if kept t' (File n s m) then [] else [l]
      | None \<Rightarrow> [l])
     @ changed_lines (l + 1) old ts"
| "changed_lines l old (Dir n m ks # ts) =
     (case find_old (Dir n m ks) old of
        Some t' \<Rightarrow> changed_lines (l + 1) (ft_kids t') ks
      | None \<Rightarrow> [l])
     @ changed_lines (l + tree_lines (Dir n m ks)) old ts"

text \<open>The directories that are kept but have another modification time.\<close>

fun changed_dir_lines :: "nat \<Rightarrow> ftree list \<Rightarrow> ftree list \<Rightarrow> nat list" where
  "changed_dir_lines l old [] = []"
| "changed_dir_lines l old (File n s m # ts) = changed_dir_lines (l + 1) old ts"
| "changed_dir_lines l old (Dir n m ks # ts) =
     (case find_old (Dir n m ks) old of
        Some t' \<Rightarrow> (if ft_data t' \<noteq> [m] then [l] else []) @ changed_dir_lines (l + 1) (ft_kids t') ks
      | None \<Rightarrow> [])
     @ changed_dir_lines (l + tree_lines (Dir n m ks)) old ts"

text \<open>The lines of the old list whose entry is gone or replaced, with everything below.\<close>

fun all_lines :: "nat \<Rightarrow> ftree list \<Rightarrow> nat list" where
  "all_lines l [] = []"
| "all_lines l (File n s m # ts) = l # all_lines (l + 1) ts"
| "all_lines l (Dir n m ks # ts) = l # all_lines (l + 1) ks @ all_lines (l + tree_lines (Dir n m ks)) ts"

fun deleted_lines :: "nat \<Rightarrow> ftree list \<Rightarrow> ftree list \<Rightarrow> nat list" where
  "deleted_lines l [] new = []"
| "deleted_lines l (File n s m # ts) new =
     (case find_old (File n s m) new of
        Some t' \<Rightarrow> if kept (File n s m) t' then [] else [l]
      | None \<Rightarrow> [l])
     @ deleted_lines (l + 1) ts new"
| "deleted_lines l (Dir n m ks # ts) new =
     (case find_old (Dir n m ks) new of
        Some t' \<Rightarrow> deleted_lines (l + 1) ks (ft_kids t')
      | None \<Rightarrow> l # all_lines (l + 1) ks)
     @ deleted_lines (l + tree_lines (Dir n m ks)) ts new"

text \<open>
  What the walk relies on: no name has a zero byte or is two dots, siblings differ in type or name,
  and below the first level they are sorted, files before directories and then by name.
\<close>

fun sorted_tree :: "ftree \<Rightarrow> bool" where
  "sorted_tree (File n s m) \<longleftrightarrow> CHR 0x00 \<notin> set n"
| "sorted_tree (Dir n m ts) \<longleftrightarrow>
     CHR 0x00 \<notin> set n \<and> sorted_wrt (<) (map ft_key ts) \<and> list_all sorted_tree ts"

definition list_ok :: "ftree list \<Rightarrow> bool" where
  "list_ok ts \<longleftrightarrow> list_all tree_ok ts \<and> list_all sorted_tree ts \<and> distinct (map ft_key ts)"

section \<open>Trees and shapes\<close>

fun shapes :: "nat \<Rightarrow> ftree list \<Rightarrow> shape list" where
  "shapes i [] = []"
| "shapes i (File n s m # ts) = Sh i [] # shapes (i + 1) ts"
| "shapes i (Dir n m ks # ts) = Sh i (shapes (i + 1) ks) # shapes (i + tree_count (Dir n m ks)) ts"

lemma shapes_Cons: "shapes i (t # ts) = Sh i (shapes (i + 1) (ft_kids t)) # shapes (i + tree_count t) ts"
  by (cases t) simp_all

text \<open>The nodes from index \<open>i\<close> on are those of the forest \<open>ts\<close>, whose first line is \<open>l\<close>.\<close>

definition lies_at :: "TreeNode list \<Rightarrow> nat \<Rightarrow> nat \<Rightarrow> nat \<Rightarrow> ftree list \<Rightarrow> bool" where
  "lies_at N p i l ts \<longleftrightarrow> take (forest_count ts) (drop i N) = layout p i l ts"

lemma lies_at_Nil [simp]: "lies_at N p i l []"
  by (simp add: lies_at_def)

lemma take_eq_append:
  "take (m + n) xs = a @ b \<longleftrightarrow> take m xs = a \<and> take n (drop m xs) = b" if "length a = m" "length b = n"
proof
  assume *: "take (m + n) xs = a @ b"
  have "take m (take (m + n) xs) = a" "drop m (take (m + n) xs) = b"
    unfolding * using that by simp_all
  then show "take m xs = a \<and> take n (drop m xs) = b" by (simp add: drop_take)
qed (use that in \<open>simp add: take_add\<close>)

lemma layout_tree_split: "layout_tree p i l nxt t = tree_node p l nxt t # layout i (i + 1) (l + 1) (ft_kids t)"
  by (cases t) simp_all

lemma tree_count_kids: "tree_count t = Suc (forest_count (ft_kids t))"
  by (cases t) simp_all

lemma lies_at_Cons:
  "lies_at N p i l (t # ts) \<longleftrightarrow>
     i < length N \<and> N ! i = tree_node p l (if ts = [] then None else Some (i + tree_count t)) t
     \<and> lies_at N i (i + 1) (l + 1) (ft_kids t) \<and> lies_at N p (i + tree_count t) (l + tree_lines t) ts"
  (is "?L \<longleftrightarrow> ?R")
proof -
  have "?L \<longleftrightarrow> take (Suc (forest_count (ft_kids t)) + forest_count ts) (drop i N)
      = (tree_node p l (if ts = [] then None else Some (i + tree_count t)) t # layout i (i + 1) (l + 1) (ft_kids t))
        @ layout p (i + tree_count t) (l + tree_lines t) ts"
    by (simp add: lies_at_def layout_tree_split tree_count_kids)
  also have "\<dots> \<longleftrightarrow> take (Suc (forest_count (ft_kids t))) (drop i N)
      = tree_node p l (if ts = [] then None else Some (i + tree_count t)) t # layout i (i + 1) (l + 1) (ft_kids t)
    \<and> take (forest_count ts) (drop (Suc (forest_count (ft_kids t))) (drop i N)) = layout p (i + tree_count t) (l + tree_lines t) ts"
    by (rule take_eq_append) simp_all
  also have "\<dots> \<longleftrightarrow> ?R"
    by (cases "i < length N")
      (auto simp: lies_at_def tree_count_kids add.commute Cons_nth_drop_Suc [symmetric])
  finally show ?thesis .
qed

lemma c_str_id: "CHR 0x00 \<notin> set n \<Longrightarrow> c_str n = n"
  unfolding c_str_def by (rule takeWhile_eq_all_conv [THEN iffD2]) auto

lemma tree_node_facts [simp]:
  "node_type (tree_node p l nxt t) = ft_type t" "node_id (tree_node p l nxt t) = l"
  "node_data (tree_node p l nxt t) = Some (ft_data t)" "parent (tree_node p l nxt t) = Some p"
  "nextSibling (tree_node p l nxt t) = nxt" "num_children (tree_node p l nxt t) = length (ft_kids t)"
  "node_name (tree_node p l nxt t) = Some (c_str (ft_name t))" "mapped_node (tree_node p l nxt t) = None"
  "subtree_changed (tree_node p l nxt t) = False"
  by (simp_all add: tree_node_def TreeNode_init_def)

lemma sorted_tree_name: "sorted_tree t \<Longrightarrow> c_str (ft_name t) = ft_name t"
  by (cases t) (simp_all add: c_str_id)

lemma sorted_tree_kids: "sorted_tree t \<Longrightarrow> sorted_wrt (<) (map ft_key (ft_kids t)) \<and> list_all sorted_tree (ft_kids t)"
  by (cases t) simp_all

lemma good_tree_node: "good_node (tree_node p l nxt t)"
  by (cases t) (simp_all add: good_node_def)

lemma key_tree_node: "sorted_tree t \<Longrightarrow> key (tree_node p l nxt t) = ft_key t"
  by (simp add: key_def ft_key_def sorted_tree_name)

lemma getFirstChild_lies:
  "N ! i = tree_node p l nxt t \<Longrightarrow> getFirstChild N i = (if ft_kids t = [] then None else Some (i + 1))"
  by (simp add: getFirstChild_def)

lemma lies_rep:
  "lies_at N p i l ts \<Longrightarrow> rep N p (if ts = [] then None else Some i) (shapes i ts)"
proof (induction i ts arbitrary: p l rule: shapes.induct)
  case (2 i n s m ts)
  then show ?case
    by (auto simp: lies_at_Cons getFirstChild_lies getNextSibling_def)
next
  case (3 i n m ks ts)
  then show ?case
    by (force simp: lies_at_Cons getFirstChild_lies getNextSibling_def)
qed simp

lemma lies_good: "lies_at N p i l ts \<Longrightarrow> good N (shapes i ts)"
  by (induction i ts arbitrary: p l rule: shapes.induct) (auto simp: lies_at_Cons good_tree_node)

lemma lies_keys:
  "lies_at N p i l ts \<Longrightarrow> list_all sorted_tree ts \<Longrightarrow> map (\<lambda>s. key (N ! ix s)) (shapes i ts) = map ft_key ts"
  by (induction i ts arbitrary: p l rule: shapes.induct) (auto simp: lies_at_Cons key_tree_node)

lemma image_less:
  assumes "a = k" and "f ` set xs = g ` set ys" and "\<forall>y \<in> set ys. k < g y"
  shows "\<forall>x \<in> set xs. a < f x"
proof
  fix x assume "x \<in> set xs"
  then have "f x \<in> g ` set ys" using assms(2) by blast
  with assms(1,3) show "a < f x" by auto
qed

lemma lies_ordered:
  "lies_at N p i l ts \<Longrightarrow> list_all sorted_tree ts \<Longrightarrow> sorted_wrt (<) (map ft_key ts) \<Longrightarrow> ordered N (shapes i ts)"
proof (induction i ts arbitrary: p l rule: shapes.induct)
  case (2 i n s m ts)
  let ?t = "File n s m"
  have l: "lies_at N p (i + 1) (l + 1) ts" using "2.prems" by (simp add: lies_at_Cons)
  have "key (N ! i) = ft_key ?t" using "2.prems" by (simp add: lies_at_Cons key_tree_node)
  moreover have "(\<lambda>s. key (N ! ix s)) ` set (shapes (i + 1) ts) = ft_key ` set ts"
    using arg_cong [OF lies_keys [OF l], of set] "2.prems"(2) by simp
  ultimately have "\<forall>s \<in> set (shapes (i + 1) ts). key (N ! i) < key (N ! ix s)"
  proof (rule image_less)
    show "\<forall>t' \<in> set ts. ft_key ?t < ft_key t'" using "2.prems"(3) by simp
  qed
  then show ?case using "2.IH" [OF l] "2.prems" by simp
next
  case (3 i n m ks ts)
  let ?t = "Dir n m ks"
  have l: "lies_at N p (i + tree_count ?t) (l + tree_lines ?t) ts" "lies_at N i (i + 1) (l + 1) ks"
    using "3.prems" by (simp_all add: lies_at_Cons)
  have "key (N ! i) = ft_key ?t" using "3.prems"(1,2) by (simp add: lies_at_Cons) (simp add: key_def ft_key_def c_str_id)
  moreover have "(\<lambda>s. key (N ! ix s)) ` set (shapes (i + tree_count ?t) ts) = ft_key ` set ts"
    using arg_cong [OF lies_keys [OF l(1)], of set] "3.prems"(2) by simp
  ultimately have "\<forall>s \<in> set (shapes (i + tree_count ?t) ts). key (N ! i) < key (N ! ix s)"
  proof (rule image_less)
    show "\<forall>t' \<in> set ts. ft_key ?t < ft_key t'" using "3.prems"(3) by simp
  qed
  then show ?case using "3.IH"(1) [OF l(2)] "3.IH"(2) [OF l(1)] "3.prems" by simp
qed simp

lemma addrs_shapes: "addrs (shapes i ts) = [i ..< i + forest_count ts]"
proof (induction i ts rule: shapes.induct)
  case (2 i n s m ts)
  have "[i ..< i + forest_count (File n s m # ts)] = i # [i + 1 ..< i + 1 + forest_count ts]"
    using upt_conv_Cons [of i "i + 1 + forest_count ts"] by (simp del: upt_Suc)
  with 2 show ?case by simp
next
  case (3 i n m ks ts)
  let ?a = "i + 1 + forest_count ks"
  have "[i + 1 ..< ?a + forest_count ts] = [i + 1 ..< ?a] @ [?a ..< ?a + forest_count ts]"
    by (rule upt_add_eq_append) simp
  moreover have "[i ..< ?a + forest_count ts] = i # [i + 1 ..< ?a + forest_count ts]"
    using upt_conv_Cons [of i "?a + forest_count ts"] by simp
  moreover have "i + tree_count (Dir n m ks) = ?a" "i + forest_count (Dir n m ks # ts) = ?a + forest_count ts"
    by simp_all
  ultimately show ?case using 3 by (simp add: add.assoc del: upt_Suc)
qed simp

lemma kids_ordered:
  "lies_at N p i l ts \<Longrightarrow> list_all sorted_tree ts \<Longrightarrow> \<forall>s \<in> set (shapes i ts). ordered N (kids s)"
proof (induction i ts arbitrary: p l rule: shapes.induct)
  case (3 i n m ks ts)
  then have "ordered N (shapes (i + 1) ks)"
    using lies_ordered [of N i "i + 1" "l + 1" ks] by (auto simp: lies_at_Cons)
  with 3 show ?case by (fastforce simp: lies_at_Cons)
qed (auto simp: lies_at_Cons)

lemma lies_level_ok:
  assumes "lies_at N p i l ts" and "list_ok ts"
  shows "level_ok N p (if ts = [] then None else Some i) (shapes i ts)"
  using lies_rep [OF assms(1)] lies_good [OF assms(1)] lies_keys [OF assms(1)] kids_ordered [OF assms(1)] assms(2)
  by (simp add: level_ok_def list_ok_def addrs_shapes)


section \<open>The walk on the lists of two trees\<close>

lemma find_lies:
  assumes "lies_at N p i l ts" and "list_all sorted_tree ts"
  shows "case find (\<lambda>t. ft_key t = k) ts of
      None \<Rightarrow> find (\<lambda>s. key (N ! ix s) = k) (shapes i ts) = None
    | Some t \<Rightarrow> \<exists>j l' nxt. find (\<lambda>s. key (N ! ix s) = k) (shapes i ts) = Some (Sh j (shapes (j + 1) (ft_kids t)))
        \<and> N ! j = tree_node p l' nxt t \<and> lies_at N j (j + 1) (l' + 1) (ft_kids t) \<and> sorted_tree t \<and> ft_key t = k"
  using assms
proof (induction ts arbitrary: i l)
  case (Cons t ts)
  have l: "lies_at N p (i + tree_count t) (l + tree_lines t) ts" "lies_at N i (i + 1) (l + 1) (ft_kids t)"
    and n: "N ! i = tree_node p l (if ts = [] then None else Some (i + tree_count t)) t"
    using Cons.prems(1) by (simp_all add: lies_at_Cons)
  have k: "key (N ! i) = ft_key t" using Cons.prems(2) n by (simp add: key_tree_node)
  show ?case
  proof (cases "ft_key t = k")
    case True
    then show ?thesis using k l(2) n Cons.prems(2) by (auto simp: shapes_Cons)
  next
    case False
    then show ?thesis using Cons.IH [OF l(1)] Cons.prems(2) k by (auto simp: shapes_Cons split: option.splits)
  qed
qed simp

lemma data_eq_tree_node:
  "ft_type t = ft_type t' \<Longrightarrow>
   dataEquals (tree_node p l nxt t) (tree_node p' l' nxt' t') \<longleftrightarrow> ft_data t = ft_data t'"
  by (cases t; cases t') (auto simp: dataEquals_def getDataSize_def)

lemma ids_Nil [simp]: "ids N [] = []" by (simp add: ids_def)

lemma ids_Cons [simp]: "ids N (i # is) = node_id (N ! i) # ids N is" by (simp add: ids_def)

text \<open>The old partner of a new entry, in both views.\<close>

lemma partner_cases:
  assumes "lies_at N p i l ts" and "list_all sorted_tree ts"
  obtains "find_old t ts = None" "find (\<lambda>s. key (N ! ix s) = ft_key t) (shapes i ts) = None"
  | t' j l' nxt where "find_old t ts = Some t'"
      "find (\<lambda>s. key (N ! ix s) = ft_key t) (shapes i ts) = Some (Sh j (shapes (j + 1) (ft_kids t')))"
      "N ! j = tree_node p l' nxt t'" "lies_at N j (j + 1) (l' + 1) (ft_kids t')" "sorted_tree t'"
      "ft_type t' = ft_type t"
proof -
  have ty: "ft_key t' = ft_key t \<Longrightarrow> ft_type t' = ft_type t" for t'
    by (cases t; cases t') (simp_all add: ft_key_def)
  note fl = find_lies [OF assms, of "ft_key t", folded find_old_def]
  show ?thesis
  proof (cases "find_old t ts")
    case None
    with fl have "find (\<lambda>s. key (N ! ix s) = ft_key t) (shapes i ts) = None" by simp
    with None show ?thesis by (rule that(1))
  next
    case (Some t')
    with fl obtain j l' nxt where
      a: "find (\<lambda>s. key (N ! ix s) = ft_key t) (shapes i ts) = Some (Sh j (shapes (j + 1) (ft_kids t')))"
      "N ! j = tree_node p l' nxt t'" "lies_at N j (j + 1) (l' + 1) (ft_kids t')" "sorted_tree t'" "ft_key t' = ft_key t"
      by (simp only: option.case) blast
    show ?thesis by (rule that(2) [OF Some a(1-4) ty [OF a(5)]])
  qed
qed

lemma spec_changed_lines:
  assumes "lies_at N1 p1 i1 l1 old" and "lies_at N2 p2 i2 l2 new"
    and "list_all sorted_tree old" and "list_all sorted_tree new"
  shows "ids N2 (diffs_of (diff_spec hs iw N1 N2 (shapes i1 old) (shapes i2 new))) = changed_lines l2 old new"
  using assms
proof (induction l2 old new arbitrary: p1 i1 l1 p2 i2 rule: changed_lines.induct)
  case (2 l old n s m ts)
  let ?t = "File n s m"
  obtain nxt2 where n2: "N2 ! i2 = tree_node p2 l nxt2 ?t"
    and l2: "lies_at N2 p2 (i2 + 1) (l + 1) ts" using "2.prems"(2) by (simp add: lies_at_Cons)
  have k: "key (N2 ! i2) = ft_key ?t" using "2.prems"(4) n2 by (simp add: key_tree_node)
  have IH: "ids N2 (diffs_of (diff_spec hs iw N1 N2 (shapes i1 old) (shapes (i2 + 1) ts))) = changed_lines (l + 1) old ts"
    using "2.IH" [OF "2.prems"(1) l2 "2.prems"(3)] "2.prems"(4) by simp
  show ?case
  proof (rule partner_cases [OF "2.prems"(1,3), of ?t])
    assume "find_old ?t old = None" "find (\<lambda>s. key (N1 ! ix s) = ft_key ?t) (shapes i1 old) = None"
    then show ?thesis using IH k n2 by (simp add: events_append)
  next
    fix t' j l' nxt
    assume a: "find_old ?t old = Some t'"
      "find (\<lambda>s. key (N1 ! ix s) = ft_key ?t) (shapes i1 old) = Some (Sh j (shapes (j + 1) (ft_kids t')))"
      "N1 ! j = tree_node p1 l' nxt t'" "ft_type t' = ft_type ?t"
    have kids: "ft_kids t' = []" using a(4) by (cases t') auto
    have "dataEquals (N1 ! j) (N2 ! i2) \<longleftrightarrow> ft_data t' = ft_data ?t"
      unfolding a(3) n2 by (rule data_eq_tree_node [OF a(4)])
    then show ?thesis using IH k n2 a kids by (simp add: events_append kept_def Let_def)
  qed
next
  case (3 l old n m ks ts)
  let ?t = "Dir n m ks"
  obtain nxt2 where n2: "N2 ! i2 = tree_node p2 l nxt2 ?t"
    and l2: "lies_at N2 p2 (i2 + tree_count ?t) (l + tree_lines ?t) ts" "lies_at N2 i2 (i2 + 1) (l + 1) ks"
    using "3.prems"(2) by (simp add: lies_at_Cons)
  have st: "sorted_tree ?t" "list_all sorted_tree ks" "list_all sorted_tree ts" using "3.prems"(4) by simp_all
  have k: "key (N2 ! i2) = ft_key ?t" unfolding n2 by (rule key_tree_node [OF st(1)])
  have IH: "ids N2 (diffs_of (diff_spec hs iw N1 N2 (shapes i1 old) (shapes (i2 + tree_count ?t) ts)))
      = changed_lines (l + tree_lines ?t) old ts"
    by (rule "3.IH"(2) [OF "3.prems"(1) l2(1) "3.prems"(3) st(3)])
  show ?case
  proof (rule partner_cases [OF "3.prems"(1,3), of ?t])
    assume "find_old ?t old = None" "find (\<lambda>s. key (N1 ! ix s) = ft_key ?t) (shapes i1 old) = None"
    then show ?thesis using IH k n2 by (simp add: events_append)
  next
    fix t' j l' nxt
    assume a: "find_old ?t old = Some t'"
      "find (\<lambda>s. key (N1 ! ix s) = ft_key ?t) (shapes i1 old) = Some (Sh j (shapes (j + 1) (ft_kids t')))"
      "N1 ! j = tree_node p1 l' nxt t'" "lies_at N1 j (j + 1) (l' + 1) (ft_kids t')" "sorted_tree t'" "ft_type t' = ft_type ?t"
    have "ids N2 (diffs_of (diff_spec hs iw N1 N2 (shapes (j + 1) (ft_kids t')) (shapes (i2 + 1) ks)))
      = changed_lines (l + 1) (ft_kids t') ks"
      by (rule "3.IH"(1) [OF a(1,4) l2(2) _ st(2)]) (use sorted_tree_kids [OF a(5)] in simp)
    then show ?thesis using IH k n2 a by (simp add: events_append Let_def)
  qed
qed simp

lemma spec_changed_dir_lines:
  assumes "lies_at N1 p1 i1 l1 old" and "lies_at N2 p2 i2 l2 new"
    and "list_all sorted_tree old" and "list_all sorted_tree new"
  shows "ids N2 (dir_diffs_of (diff_spec hs iw N1 N2 (shapes i1 old) (shapes i2 new))) = changed_dir_lines l2 old new"
  using assms
proof (induction l2 old new arbitrary: p1 i1 l1 p2 i2 rule: changed_dir_lines.induct)
  case (2 l old n s m ts)
  let ?t = "File n s m"
  obtain nxt2 where n2: "N2 ! i2 = tree_node p2 l nxt2 ?t"
    and l2: "lies_at N2 p2 (i2 + 1) (l + 1) ts" using "2.prems"(2) by (simp add: lies_at_Cons)
  have k: "key (N2 ! i2) = ft_key ?t" using "2.prems"(4) n2 by (simp add: key_tree_node)
  have IH: "ids N2 (dir_diffs_of (diff_spec hs iw N1 N2 (shapes i1 old) (shapes (i2 + 1) ts))) = changed_dir_lines (l + 1) old ts"
    using "2.IH" [OF "2.prems"(1) l2 "2.prems"(3)] "2.prems"(4) by simp
  show ?case
  proof (rule partner_cases [OF "2.prems"(1,3), of ?t])
    assume "find_old ?t old = None" "find (\<lambda>s. key (N1 ! ix s) = ft_key ?t) (shapes i1 old) = None"
    then show ?thesis using IH k n2 by (simp add: events_append)
  next
    fix t' j l' nxt
    assume a: "find_old ?t old = Some t'"
      "find (\<lambda>s. key (N1 ! ix s) = ft_key ?t) (shapes i1 old) = Some (Sh j (shapes (j + 1) (ft_kids t')))"
      "ft_type t' = ft_type ?t"
    have kids: "ft_kids t' = []" using a(3) by (cases t') auto
    then show ?thesis using IH k n2 a by (simp add: events_append Let_def)
  qed
next
  case (3 l old n m ks ts)
  let ?t = "Dir n m ks"
  obtain nxt2 where n2: "N2 ! i2 = tree_node p2 l nxt2 ?t"
    and l2: "lies_at N2 p2 (i2 + tree_count ?t) (l + tree_lines ?t) ts" "lies_at N2 i2 (i2 + 1) (l + 1) ks"
    using "3.prems"(2) by (simp add: lies_at_Cons)
  have st: "sorted_tree ?t" "list_all sorted_tree ks" "list_all sorted_tree ts" using "3.prems"(4) by simp_all
  have k: "key (N2 ! i2) = ft_key ?t" unfolding n2 by (rule key_tree_node [OF st(1)])
  have IH: "ids N2 (dir_diffs_of (diff_spec hs iw N1 N2 (shapes i1 old) (shapes (i2 + tree_count ?t) ts)))
      = changed_dir_lines (l + tree_lines ?t) old ts"
    by (rule "3.IH"(2) [OF "3.prems"(1) l2(1) "3.prems"(3) st(3)])
  show ?case
  proof (rule partner_cases [OF "3.prems"(1,3), of ?t])
    assume "find_old ?t old = None" "find (\<lambda>s. key (N1 ! ix s) = ft_key ?t) (shapes i1 old) = None"
    then show ?thesis using IH k n2 by (simp add: events_append)
  next
    fix t' j l' nxt
    assume a: "find_old ?t old = Some t'"
      "find (\<lambda>s. key (N1 ! ix s) = ft_key ?t) (shapes i1 old) = Some (Sh j (shapes (j + 1) (ft_kids t')))"
      "N1 ! j = tree_node p1 l' nxt t'" "lies_at N1 j (j + 1) (l' + 1) (ft_kids t')" "sorted_tree t'" "ft_type t' = ft_type ?t"
    have "ids N2 (dir_diffs_of (diff_spec hs iw N1 N2 (shapes (j + 1) (ft_kids t')) (shapes (i2 + 1) ks)))
      = changed_dir_lines (l + 1) (ft_kids t') ks"
      by (rule "3.IH"(1) [OF a(1,4) l2(2) _ st(2)]) (use sorted_tree_kids [OF a(5)] in simp)
    moreover have "dataEquals (N1 ! j) (N2 ! i2) \<longleftrightarrow> ft_data t' = ft_data ?t"
      unfolding a(3) n2 by (rule data_eq_tree_node [OF a(6)])
    ultimately show ?thesis using IH k n2 a by (simp add: events_append Let_def)
  qed
qed simp


section \<open>What is gone\<close>

lemma addrs_Cons: "addrs (s # ss) = addrs [s] @ addrs ss"
  by (cases s) simp

lemma addrs_single: "addrs [s] = ix s # addrs (kids s)"
  by (cases s) simp

lemma in_addrs_single: "x \<in> set ss \<Longrightarrow> set (addrs [x]) \<subseteq> set (addrs ss)"
proof (induction ss)
  case (Cons s ss)
  then show ?case using addrs_Cons [of s ss] by auto
qed simp

lemma distinct_blocks:
  assumes "distinct (addrs ss)" and "x \<in> set ss" and "y \<in> set ss" and "x \<noteq> y"
  shows "set (addrs [x]) \<inter> set (addrs [y]) = {}"
  using assms
proof (induction ss)
  case (Cons s ss)
  have d: "distinct (addrs ss)" "set (addrs [s]) \<inter> set (addrs ss) = {}"
    using Cons.prems(1) addrs_Cons [of s ss] by auto
  consider "x = s" "y \<in> set ss" | "y = s" "x \<in> set ss" | "x \<in> set ss" "y \<in> set ss"
    using Cons.prems by auto
  then show ?case
  proof cases
    case 1
    then show ?thesis using d in_addrs_single [of y ss] by blast
  next
    case 2
    then show ?thesis using d in_addrs_single [of x ss] by blast
  next
    case 3
    then show ?thesis using Cons.IH [OF d(1)] Cons.prems(4) by blast
  qed
qed simp

text \<open>The match of a node below the old sibling \<open>x\<close> comes from the pair that \<open>x\<close> belongs to.\<close>

definition partner_match ::
  "bool \<Rightarrow> bool \<Rightarrow> TreeNode list \<Rightarrow> TreeNode list \<Rightarrow> shape list \<Rightarrow> shape \<Rightarrow> nat \<Rightarrow> nat option" where
  "partner_match hs iw N1 N2 ss2 x i =
     (case find (\<lambda>y. key (N2 ! ix y) = key (N1 ! ix x)) ss2 of
        None \<Rightarrow> None
      | Some y \<Rightarrow> match1 (pair_events hs iw N1 N2 x y) i None)"

lemma match_other:
  assumes "distinct (addrs ss1)" and "distinct (map (\<lambda>s. key (N1 ! ix s)) ss1)" and "x \<in> set ss1"
    and "i \<in> set (addrs [x])" and "\<forall>y \<in> set ss2. key (N2 ! ix y) \<noteq> key (N1 ! ix x)"
  shows "match1 (diff_spec hs iw N1 N2 ss1 ss2) i m = m"
  using assms(5)
proof (induction ss2 arbitrary: m)
  case (Cons y ss2)
  show ?case
  proof (cases "find (\<lambda>s. key (N1 ! ix s) = key (N2 ! ix y)) ss1")
    case None
    then show ?thesis using Cons by (simp add: diff_spec_Cons events_append)
  next
    case (Some x')
    then have x': "x' \<in> set ss1" "key (N1 ! ix x') = key (N2 ! ix y)"
      by (auto simp: find_Some_iff in_set_conv_nth)
    then have "x' \<noteq> x" using Cons.prems by auto
    then have "i \<notin> set (addrs [x'])" using distinct_blocks [OF assms(1) x'(1) assms(3)] assms(4) by blast
    then show ?thesis using Cons Some by (simp add: diff_spec_Cons events_append pair_match_not_in)
  qed
qed simp

lemma match_partner:
  assumes "distinct (addrs ss1)" and "distinct (map (\<lambda>s. key (N1 ! ix s)) ss1)" and "x \<in> set ss1"
    and "i \<in> set (addrs [x])" and "distinct (map (\<lambda>s. key (N2 ! ix s)) ss2)"
  shows "match1 (diff_spec hs iw N1 N2 ss1 ss2) i None = partner_match hs iw N1 N2 ss2 x i"
  using assms(5)
proof (induction ss2)
  case (Cons y ss2)
  show ?case
  proof (cases "key (N2 ! ix y) = key (N1 ! ix x)")
    case True
    have "find (\<lambda>s. key (N1 ! ix s) = key (N2 ! ix y)) ss1 = Some x"
      unfolding True by (rule find_distinct [OF assms(2,3)])
    moreover have "\<forall>y' \<in> set ss2. key (N2 ! ix y') \<noteq> key (N1 ! ix x)"
    proof
      fix y' assume "y' \<in> set ss2"
      then have "key (N2 ! ix y') \<in> (\<lambda>s. key (N2 ! ix s)) ` set ss2" by (rule imageI)
      with Cons.prems show "key (N2 ! ix y') \<noteq> key (N1 ! ix x)" unfolding True [symmetric] by auto
    qed
    ultimately show ?thesis
      using match_other [OF assms(1-4)] True by (simp add: diff_spec_Cons events_append partner_match_def)
  next
    case False
    have "match1 (case find (\<lambda>s. key (N1 ! ix s) = key (N2 ! ix y)) ss1 of None \<Rightarrow> [EDiff (ix y)]
      | Some s1 \<Rightarrow> pair_events hs iw N1 N2 s1 y) i None = None"
      using match_other [OF assms(1-4), of "[y]" N2 hs iw None] False by (simp add: diff_spec_Cons)
    then show ?thesis
      using Cons False by (simp add: diff_spec_Cons events_append partner_match_def)
  qed
qed (simp add: partner_match_def)

definition unmatched ::
  "bool \<Rightarrow> bool \<Rightarrow> TreeNode list \<Rightarrow> TreeNode list \<Rightarrow> shape list \<Rightarrow> shape list \<Rightarrow> nat list" where
  "unmatched hs iw N1 N2 ss1 ss2 =
     concat (map (\<lambda>x. filter (\<lambda>i. partner_match hs iw N1 N2 ss2 x i = None) (addrs [x])) ss1)"

lemma filter_concat_blocks:
  "(\<And>x i. x \<in> set ss \<Longrightarrow> i \<in> set (addrs [x]) \<Longrightarrow> P i = Q x i) \<Longrightarrow>
   filter P (addrs ss) = concat (map (\<lambda>x. filter (Q x) (addrs [x])) ss)"
proof (induction ss)
  case (Cons s ss)
  have "filter P (addrs [s]) = filter (Q s) (addrs [s])"
    by (rule filter_cong [OF refl]) (simp add: Cons.prems)
  moreover have "filter P (addrs ss) = concat (map (\<lambda>x. filter (Q x) (addrs [x])) ss)"
    by (rule Cons.IH) (use Cons.prems in auto)
  ultimately show ?case by (simp add: addrs_Cons [of s ss])
qed simp

lemma unmatched_filter:
  assumes "distinct (addrs ss1)" and "distinct (map (\<lambda>s. key (N1 ! ix s)) ss1)"
    and "distinct (map (\<lambda>s. key (N2 ! ix s)) ss2)"
  shows "filter (\<lambda>i. match1 (diff_spec hs iw N1 N2 ss1 ss2) i None = None) (addrs ss1)
    = unmatched hs iw N1 N2 ss1 ss2"
  unfolding unmatched_def
  by (rule filter_concat_blocks) (simp add: match_partner [OF assms(1,2) _ _ assms(3)])

lemma unmatched_Cons:
  "unmatched hs iw N1 N2 (x # ss1) ss2
    = filter (\<lambda>i. partner_match hs iw N1 N2 ss2 x i = None) (addrs [x]) @ unmatched hs iw N1 N2 ss1 ss2"
  by (simp add: unmatched_def)

lemma ids_all_lines:
  "lies_at N p i l ts \<Longrightarrow> ids N (addrs (shapes i ts)) = all_lines l ts"
proof (induction l ts arbitrary: p i rule: all_lines.induct)
  case (3 l n m ks ts)
  then show ?case using "3.IH"(1) [of i "i + 1"] "3.IH"(2) [of p "i + tree_count (Dir n m ks)"]
    by (simp add: lies_at_Cons events_append)
qed (auto simp: lies_at_Cons)

lemma sorted_distinct_keys: "sorted_wrt (<) (map ft_key ts) \<Longrightarrow> distinct (map ft_key ts)"
  by (simp add: strict_sorted_iff)

lemma spec_deleted_lines:
  assumes "lies_at N1 p1 i1 l1 old" and "lies_at N2 p2 i2 l2 new"
    and "list_all sorted_tree old" and "list_all sorted_tree new"
    and "distinct (map ft_key old)" and "distinct (map ft_key new)"
  shows "ids N1 (unmatched hs iw N1 N2 (shapes i1 old) (shapes i2 new)) = deleted_lines l1 old new"
  using assms
proof (induction l1 old new arbitrary: p1 i1 p2 i2 l2 rule: deleted_lines.induct)
  case (1 l new)
  then show ?case by (simp add: unmatched_def)
next
  case (2 l n s m ts new)
  let ?t = "File n s m"
  obtain nxt1 where n1: "N1 ! i1 = tree_node p1 l nxt1 ?t"
    and l1: "lies_at N1 p1 (i1 + 1) (l + 1) ts" using "2.prems"(1) by (simp add: lies_at_Cons)
  have k: "key (N1 ! i1) = ft_key ?t" using "2.prems"(3) n1 by (simp add: key_tree_node)
  have IH: "ids N1 (unmatched hs iw N1 N2 (shapes (i1 + 1) ts) (shapes i2 new)) = deleted_lines (l + 1) ts new"
    by (rule "2.IH" [OF l1 "2.prems"(2)]) (use "2.prems" in simp_all)
  show ?case
  proof (rule partner_cases [OF "2.prems"(2,4), of ?t])
    assume "find_old ?t new = None" "find (\<lambda>s. key (N2 ! ix s) = ft_key ?t) (shapes i2 new) = None"
    then show ?thesis using IH k n1 by (simp add: unmatched_Cons partner_match_def events_append)
  next
    fix t' j l' nxt
    assume a: "find_old ?t new = Some t'"
      "find (\<lambda>s. key (N2 ! ix s) = ft_key ?t) (shapes i2 new) = Some (Sh j (shapes (j + 1) (ft_kids t')))"
      "N2 ! j = tree_node p2 l' nxt t'" "ft_type t' = ft_type ?t"
    have kids: "ft_kids t' = []" using a(4) by (cases t') auto
    have "dataEquals (N1 ! i1) (N2 ! j) \<longleftrightarrow> ft_data ?t = ft_data t'"
      unfolding a(3) n1 by (rule data_eq_tree_node [OF a(4) [symmetric]])
    then show ?thesis using IH k n1 a kids
      by (simp add: unmatched_Cons partner_match_def events_append kept_def pair_events_def Let_def)
  qed
next
  case (3 l n m ks ts new)
  let ?t = "Dir n m ks"
  obtain nxt1 where n1: "N1 ! i1 = tree_node p1 l nxt1 ?t"
    and l1: "lies_at N1 p1 (i1 + tree_count ?t) (l + tree_lines ?t) ts" "lies_at N1 i1 (i1 + 1) (l + 1) ks"
    using "3.prems"(1) by (simp add: lies_at_Cons)
  have st: "sorted_tree ?t" "list_all sorted_tree ks" "list_all sorted_tree ts" "distinct (map ft_key ks)"
    using "3.prems"(3) sorted_distinct_keys by simp_all
  have k: "key (N1 ! i1) = ft_key ?t" unfolding n1 by (rule key_tree_node [OF st(1)])
  have i1: "i1 \<notin> set (addrs (shapes (i1 + 1) ks))" by (simp add: addrs_shapes del: upt_Suc)
  have IH: "ids N1 (unmatched hs iw N1 N2 (shapes (i1 + tree_count ?t) ts) (shapes i2 new))
      = deleted_lines (l + tree_lines ?t) ts new"
    by (rule "3.IH"(2) [OF l1(1) "3.prems"(2) st(3)]) (use "3.prems" in simp_all)
  show ?case
  proof (rule partner_cases [OF "3.prems"(2,4), of ?t])
    assume "find_old ?t new = None" "find (\<lambda>s. key (N2 ! ix s) = ft_key ?t) (shapes i2 new) = None"
    then show ?thesis using IH k n1 ids_all_lines [OF l1(2)] by (simp add: unmatched_Cons partner_match_def events_append)
  next
    fix t' j l' nxt
    assume a: "find_old ?t new = Some t'"
      "find (\<lambda>s. key (N2 ! ix s) = ft_key ?t) (shapes i2 new) = Some (Sh j (shapes (j + 1) (ft_kids t')))"
      "N2 ! j = tree_node p2 l' nxt t'" "lies_at N2 j (j + 1) (l' + 1) (ft_kids t')" "sorted_tree t'" "ft_type t' = ft_type ?t"
    have sk: "list_all sorted_tree (ft_kids t')" "distinct (map ft_key (ft_kids t'))"
      using sorted_tree_kids [OF a(5)] sorted_distinct_keys by simp_all
    have "filter (\<lambda>i. match1 (diff_spec hs iw N1 N2 (shapes (i1 + 1) ks) (shapes (j + 1) (ft_kids t'))) i None = None)
        (addrs (shapes (i1 + 1) ks)) = unmatched hs iw N1 N2 (shapes (i1 + 1) ks) (shapes (j + 1) (ft_kids t'))"
      by (rule unmatched_filter)
        (use lies_keys [OF l1(2) st(2)] lies_keys [OF a(4) sk(1)] st(4) sk(2) in \<open>simp_all add: addrs_shapes\<close>)
    moreover have "ids N1 (unmatched hs iw N1 N2 (shapes (i1 + 1) ks) (shapes (j + 1) (ft_kids t')))
      = deleted_lines (l + 1) ks (ft_kids t')"
      by (rule "3.IH"(1) [OF a(1) l1(2) a(4) st(2) sk(1) st(4) sk(2)])
    moreover have "filter (\<lambda>i. partner_match hs iw N1 N2 (shapes i2 new) (Sh i1 (shapes (i1 + 1) ks)) i = None)
        (addrs [Sh i1 (shapes (i1 + 1) ks)])
      = filter (\<lambda>i. match1 (diff_spec hs iw N1 N2 (shapes (i1 + 1) ks) (shapes (j + 1) (ft_kids t'))) i None = None)
        (addrs (shapes (i1 + 1) ks))"
      using i1 k a by (auto simp: partner_match_def pair_events_def Let_def events_append intro!: filter_cong)
    ultimately show ?thesis using IH a by (simp add: unmatched_Cons events_append)
  qed
qed

lemma gather_deletes:
  assumes "same_core ns N" and "rep N t p ss"
  shows "gather_deletes_loop ns p acc = Some (acc @ ids N (filter (\<lambda>i. mapped_node (ns ! i) = None) (addrs ss)))"
  using assms(2)
proof (induction ss arbitrary: t p acc rule: addrs.induct)
  case 1
  then show ?case by (subst gather_deletes_loop.simps) simp
next
  case (2 i ks ss)
  then have i: "p = Some i" "i < length N" by auto
  note f = same_core_getters [OF assms(1) i(2)] same_core_fields(7) [OF assms(1) i(2)]
  show ?case
    using 2 i f by (subst gather_deletes_loop.simps) (auto simp: events_append)
qed


section \<open>The result of a comparison\<close>

lemma changed_lines_bounds:
  "x \<in> set (changed_lines l old new) \<Longrightarrow> l \<le> x \<and> x < l + forest_lines new"
  by (induction l old new rule: changed_lines.induct) (fastforce split: option.splits if_splits)+

lemma changed_dir_lines_bounds:
  "x \<in> set (changed_dir_lines l old new) \<Longrightarrow> l \<le> x \<and> x < l + forest_lines new"
proof (induction l old new rule: changed_dir_lines.induct)
  case (3 l old n m ks ts)
  show ?case
  proof (cases "find_old (Dir n m ks) old")
    case None
    with 3 show ?thesis by fastforce
  next
    case (Some t')
    with "3.IH"(1) [OF Some] "3.IH"(2) "3.prems" show ?thesis by (auto split: if_splits)
  qed
qed fastforce+

lemma all_lines_bounds: "x \<in> set (all_lines l ts) \<Longrightarrow> l \<le> x \<and> x < l + forest_lines ts"
  by (induction l ts rule: all_lines.induct) fastforce+

lemma deleted_lines_bounds:
  "x \<in> set (deleted_lines l old new) \<Longrightarrow> l \<le> x \<and> x < l + forest_lines old"
  by (induction l old new rule: deleted_lines.induct)
    (fastforce split: option.splits if_splits dest: all_lines_bounds)+

lemma sorted_changed_lines: "sorted (changed_lines l old new)"
  by (induction l old new rule: changed_lines.induct)
    (fastforce simp: sorted_append split: option.splits dest: changed_lines_bounds)+

lemma sorted_changed_dir_lines: "sorted (changed_dir_lines l old new)"
  by (induction l old new rule: changed_dir_lines.induct)
    (fastforce simp: sorted_append split: option.splits dest: changed_dir_lines_bounds)+

lemma sorted_all_lines: "sorted (all_lines l ts)"
  by (induction l ts rule: all_lines.induct) (fastforce simp: sorted_append dest: all_lines_bounds)+

lemma sorted_deleted_lines: "sorted (deleted_lines l old new)"
  by (induction l old new rule: deleted_lines.induct)
    (fastforce simp: sorted_append sorted_all_lines split: option.splits dest: deleted_lines_bounds all_lines_bounds)+

section \<open>Directories that are linked instead of copied\<close>

text \<open>The new entry in line \<open>r\<close> with the old entry at the same path.\<close>

fun pair_at :: "nat \<Rightarrow> ftree list \<Rightarrow> ftree list \<Rightarrow> nat \<Rightarrow> (ftree \<times> ftree) option" where
  "pair_at l old [] r = None"
| "pair_at l old (File n s m # ts) r =
     (if r = l then map_option (\<lambda>t'. (t', File n s m)) (find_old (File n s m) old)
      else pair_at (l + 1) old ts r)"
| "pair_at l old (Dir n m ks # ts) r =
     (if r = l then map_option (\<lambda>t'. (t', Dir n m ks)) (find_old (Dir n m ks) old)
      else if r < l + tree_lines (Dir n m ks)
      then (case find_old (Dir n m ks) old of
              Some t' \<Rightarrow> pair_at (l + 1) (ft_kids t') ks r
            | None \<Rightarrow> None)
      else pair_at (l + tree_lines (Dir n m ks)) old ts r)"

lemma treesize_total:
  assumes "same_core ns N" and "rep N t p ss"
  shows "\<exists>n. treesize_loop ns limit p acc = Some n"
  using assms(2)
proof (induction ss arbitrary: t p acc rule: addrs.induct)
  case 1
  then show ?case by (subst treesize_loop.simps) simp
next
  case (2 i ks ss)
  then have i: "p = Some i" "i < length N" by auto
  note f = same_core_getters [OF assms(1) i(2)]
  obtain sz where "treesize_loop ns limit (getFirstChild N i) 1 = Some sz" using 2 by fastforce
  moreover obtain n where "treesize_loop ns limit (getNextSibling N i) (acc + sz) = Some n" using 2 by fastforce
  ultimately show ?case using i f by (subst treesize_loop.simps) auto
qed

lemma gather_large:
  assumes "same_core ns N" and "rep N t p ss"
  shows "\<exists>js. gather_large_loop ns p acc = Some (acc @ ids N js)
    \<and> (\<forall>i \<in> set js. i \<in> set (addrs ss) \<and> \<not> subtree_changed (ns ! i) \<and> mapped_node (ns ! i) \<noteq> None)"
  using assms(2)
proof (induction ss arbitrary: t p acc rule: addrs.induct)
  case 1
  then show ?case by (subst gather_large_loop.simps) (auto intro: exI [of _ "[]"])
next
  case (2 i ks ss)
  then have i: "p = Some i" "i < length N" and r: "rep N i (getFirstChild N i) ks" "rep N t (getNextSibling N i) ss" by auto
  note f = same_core_getters [OF assms(1) i(2)] same_core_fields(7) [OF assms(1) i(2)]
  obtain n where n: "getTreesize ns i 10 = Some n"
    using treesize_total [OF assms(1) r(1)] f(1) by (fastforce simp: getTreesize_def)
  define large where "large \<longleftrightarrow> \<not> subtree_changed (ns ! i) \<and> mapped_node (ns ! i) \<noteq> None \<and> n > 10"
  obtain js1 where js1: "gather_large_loop ns (getFirstChild N i) acc = Some (acc @ ids N js1)"
    "\<forall>i \<in> set js1. i \<in> set (addrs ks) \<and> \<not> subtree_changed (ns ! i) \<and> mapped_node (ns ! i) \<noteq> None"
    using "2.IH"(1) [OF r(1)] by blast
  define js where "js = (if large then [i] else js1)"
  obtain js2 where js2: "gather_large_loop ns (getNextSibling N i) (acc @ ids N js) = Some (acc @ ids N js @ ids N js2)"
    "\<forall>i \<in> set js2. i \<in> set (addrs ss) \<and> \<not> subtree_changed (ns ! i) \<and> mapped_node (ns ! i) \<noteq> None"
    using "2.IH"(2) [OF r(2), of "acc @ ids N js"] by auto
  have "gather_large_loop ns p acc = Some (acc @ ids N (js @ js2))"
    using js1(1) js2(1) n f by (subst gather_large_loop.simps) (auto simp: i large_def js_def events_append)
  then show ?case
    using js1(2) js2(2) by (intro exI [of _ "js @ js2"]) (auto simp: js_def large_def split: if_splits)
qed

lemma match2_event: "match2 ev i None \<noteq> None \<Longrightarrow> \<exists>a. EMatch a i \<in> set ev"
proof (induction ev rule: rev_induct)
  case (snoc e ev)
  then show ?case by (auto simp: events_append split: event.splits if_splits)
qed simp

lemma marked_above:
  assumes "rep N t p ss" and "same_core ns N" and "marks_closed ns" and "j \<in> set (addrs ss)" and "parent_marked ns j"
  shows "subtree_changed (ns ! t)"
  using assms(1,4)
proof (induction ss arbitrary: t p rule: addrs.induct)
  case (2 i ks ss)
  then have i: "i < length N" "parent (N ! i) = Some t" and r: "rep N i (getFirstChild N i) ks" "rep N t (getNextSibling N i) ss"
    by auto
  have pi: "parent (ns ! i) = Some t" "length ns = length N"
    using same_core_fields(5) [OF assms(2) i(1)] i(2) same_core_length [OF assms(2)] by simp_all
  consider "j = i" | "j \<in> set (addrs ks)" | "j \<in> set (addrs ss)" using "2.prems"(2) by auto
  then show ?case
  proof cases
    case 1
    then show ?thesis using assms(5) pi by (simp add: parent_marked_def)
  next
    case 2
    then have "subtree_changed (ns ! i)" using "2.IH"(1) [OF r(1)] by simp
    then show ?thesis using assms(3) pi i(1) by (auto simp: marks_closed_def)
  next
    case 3
    then show ?thesis using "2.IH"(2) [OF r(2)] by simp
  qed
qed simp

definition partners ::
  "bool \<Rightarrow> bool \<Rightarrow> TreeNode list \<Rightarrow> TreeNode list \<Rightarrow> event list \<Rightarrow> nat \<Rightarrow> ftree \<Rightarrow> ftree \<Rightarrow> bool" where
  "partners hs iw N1 N2 ev i t' t \<longleftrightarrow>
     (\<exists>p l nxt j l'. i < length N2 \<and> N2 ! i = tree_node p l nxt t \<and> lies_at N2 i (i + 1) (l + 1) (ft_kids t)
        \<and> lies_at N1 j (j + 1) (l' + 1) (ft_kids t') \<and> sorted_tree t' \<and> sorted_tree t
        \<and> set (diff_spec hs iw N1 N2 (shapes (j + 1) (ft_kids t')) (shapes (i + 1) (ft_kids t))) \<subseteq> set ev)"

lemma partners_mono: "partners hs iw N1 N2 ev i t' t \<Longrightarrow> set ev \<subseteq> set ev' \<Longrightarrow> partners hs iw N1 N2 ev' i t' t"
  unfolding partners_def by (meson order_trans)

lemma forest_lines_pos: "1 \<le> tree_lines t"
  by (cases t) simp_all

lemma match_pair_at:
  assumes "lies_at N1 p1 i1 l1 old" and "lies_at N2 p2 i2 l2 new"
    and "list_all sorted_tree old" and "list_all sorted_tree new"
    and "EMatch a i \<in> set (diff_spec hs iw N1 N2 (shapes i1 old) (shapes i2 new))"
    and "r = node_id (N2 ! i)"
  shows "l2 \<le> r \<and> r < l2 + forest_lines new
    \<and> (\<exists>t' t. pair_at l2 old new r = Some (t', t)
        \<and> partners hs iw N1 N2 (diff_spec hs iw N1 N2 (shapes i1 old) (shapes i2 new)) i t' t)"
  using assms
proof (induction l2 old new arbitrary: p1 i1 l1 p2 i2 rule: changed_lines.induct)
  case (2 l old n s m ts)
  let ?t = "File n s m"
  let ?ev = "diff_spec hs iw N1 N2 (shapes i1 old) (shapes i2 (?t # ts))"
  let ?rest = "diff_spec hs iw N1 N2 (shapes i1 old) (shapes (i2 + 1) ts)"
  obtain nxt2 where n2: "N2 ! i2 = tree_node p2 l nxt2 ?t" and il: "i2 < length N2"
    and l2: "lies_at N2 p2 (i2 + 1) (l + 1) ts" "lies_at N2 i2 (i2 + 1) (l + 1) (ft_kids ?t)"
    using "2.prems"(2) by (simp add: lies_at_Cons)
  have st: "sorted_tree ?t" "list_all sorted_tree ts" using "2.prems"(4) by simp_all
  have k: "key (N2 ! i2) = ft_key ?t" unfolding n2 by (rule key_tree_node [OF st(1)])
  have sub: "set ?rest \<subseteq> set ?ev" by auto
  show ?case
  proof (cases "EMatch a i \<in> set ?rest")
    case True
    from "2.IH" [OF "2.prems"(1) l2(1) "2.prems"(3) st(2) True "2.prems"(6)]
    show ?thesis using partners_mono [OF _ sub] by auto
  next
    case False
    show ?thesis
    proof (rule partner_cases [OF "2.prems"(1,3), of ?t])
      assume "find (\<lambda>s. key (N1 ! ix s) = ft_key ?t) (shapes i1 old) = None"
      with False "2.prems"(5) k show ?thesis by simp
    next
      fix t' j l' nxt
      assume a: "find_old ?t old = Some t'"
        "find (\<lambda>s. key (N1 ! ix s) = ft_key ?t) (shapes i1 old) = Some (Sh j (shapes (j + 1) (ft_kids t')))"
        "lies_at N1 j (j + 1) (l' + 1) (ft_kids t')" "sorted_tree t'"
      from False "2.prems"(5) k a(2) have i: "i = i2"
        by (auto simp: Let_def split: if_splits)
      have "partners hs iw N1 N2 ?ev i t' ?t"
        unfolding partners_def i using il n2 l2(2) a(3,4) st(1) by (auto intro!: exI)
      then show ?thesis using "2.prems"(6) n2 a(1) by (simp add: i)
    qed
  qed
next
  case (3 l old n m ks ts)
  let ?t = "Dir n m ks"
  let ?ev = "diff_spec hs iw N1 N2 (shapes i1 old) (shapes i2 (?t # ts))"
  let ?rest = "diff_spec hs iw N1 N2 (shapes i1 old) (shapes (i2 + tree_count ?t) ts)"
  obtain nxt2 where n2: "N2 ! i2 = tree_node p2 l nxt2 ?t" and il: "i2 < length N2"
    and l2: "lies_at N2 p2 (i2 + tree_count ?t) (l + tree_lines ?t) ts" "lies_at N2 i2 (i2 + 1) (l + 1) ks"
    using "3.prems"(2) by (simp add: lies_at_Cons)
  have st: "sorted_tree ?t" "list_all sorted_tree ks" "list_all sorted_tree ts" using "3.prems"(4) by simp_all
  have k: "key (N2 ! i2) = ft_key ?t" unfolding n2 by (rule key_tree_node [OF st(1)])
  have sub: "set ?rest \<subseteq> set ?ev" by auto
  show ?case
  proof (cases "EMatch a i \<in> set ?rest")
    case True
    from "3.IH"(2) [OF "3.prems"(1) l2(1) "3.prems"(3) st(3) True "3.prems"(6)]
    show ?thesis using partners_mono [OF _ sub] by auto
  next
    case False
    show ?thesis
    proof (rule partner_cases [OF "3.prems"(1,3), of ?t])
      assume "find (\<lambda>s. key (N1 ! ix s) = ft_key ?t) (shapes i1 old) = None"
      with False "3.prems"(5) k show ?thesis by simp
    next
      fix t' j l' nxt
      assume a: "find_old ?t old = Some t'"
        "find (\<lambda>s. key (N1 ! ix s) = ft_key ?t) (shapes i1 old) = Some (Sh j (shapes (j + 1) (ft_kids t')))"
        "lies_at N1 j (j + 1) (l' + 1) (ft_kids t')" "sorted_tree t'"
      let ?sub = "diff_spec hs iw N1 N2 (shapes (j + 1) (ft_kids t')) (shapes (i2 + 1) ks)"
      have ssub: "set ?sub \<subseteq> set ?ev" using k a(2) n2 by (auto simp: Let_def)
      from False "3.prems"(5) k a(2) n2 have "i = i2 \<or> EMatch a i \<in> set ?sub"
        by (auto simp: Let_def split: if_splits)
      then show ?thesis
      proof
        assume i: "i = i2"
        have "partners hs iw N1 N2 ?ev i t' ?t"
          unfolding partners_def i using il n2 l2(2) a(3,4) st(1) ssub
          by (intro exI [of _ p2] exI [of _ l] exI [of _ nxt2] exI [of _ j] exI [of _ l']) simp
        then show ?thesis using "3.prems"(6) n2 a(1) by (simp add: i)
      next
        assume "EMatch a i \<in> set ?sub"
        from "3.IH"(1) [OF a(1,3) l2(2) _ st(2) this "3.prems"(6)] sorted_tree_kids [OF a(4)]
        show ?thesis using partners_mono [OF _ ssub] a(1) by auto
      qed
    qed
  qed
qed simp

section \<open>The comparison of two lists\<close>

lemma lies_at_root: "lies_at (root_node ts # layout 0 1 0 ts) 0 1 0 ts"
  by (simp add: lies_at_def)

lemma layout_unmapped:
  "n \<in> set (layout p i l ts) \<Longrightarrow> mapped_node n = None \<and> \<not> subtree_changed n
     \<and> (\<exists>q. parent n = Some q \<and> (q = p \<or> q < i + forest_count ts))"
  "n \<in> set (layout_tree p i l nxt t) \<Longrightarrow> mapped_node n = None \<and> \<not> subtree_changed n
     \<and> (\<exists>q. parent n = Some q \<and> (q = p \<or> q < i + tree_count t))"
proof (induction p i l ts and p i l nxt t rule: layout_layout_tree.induct)
  case (2 p i l t ts)
  then show ?case by fastforce
next
  case (4 p i l nxt n m ts)
  then show ?case by fastforce
qed auto

lemma start_state:
  fixes old new :: "ftree list"
  defines "N1 \<equiv> root_node old # layout 0 1 0 old" and "N2 \<equiv> root_node new # layout 0 1 0 new"
  shows "in_state N1 N2 \<lparr>nodes1 = N1, nodes2 = N2, diffs = [], modified_inplace_ids = wm, dir_diffs = [],
      deleted_inplace_ids = wd\<rparr>" (is "in_state _ _ ?s")
    and "i < length N1 \<Longrightarrow> mapped_node (N1 ! i) = None"
    and "i < length N2 \<Longrightarrow> mapped_node (N2 ! i) = None"
proof -
  have n: "mapped_node n = None \<and> \<not> subtree_changed n
      \<and> (case parent n of None \<Rightarrow> True | Some q \<Rightarrow> q < Suc (forest_count ts))"
    if "n \<in> set (root_node ts # layout 0 1 0 ts)" for n and ts :: "ftree list"
    using that layout_unmapped(1) [of n 0 1 0 ts]
    by (auto simp: root_node_def TreeNode_init_def split: option.splits)
  have m: "mapped_node ((root_node ts # layout 0 1 0 ts) ! i) = None \<and> \<not> subtree_changed ((root_node ts # layout 0 1 0 ts) ! i)
      \<and> (case parent ((root_node ts # layout 0 1 0 ts) ! i) of None \<Rightarrow> True | Some q \<Rightarrow> q < Suc (forest_count ts))"
    if "i < length (root_node ts # layout 0 1 0 ts)" for i and ts :: "ftree list"
    using n [OF nth_mem [OF that]] .
  have "p < length N2" if "i < length N2" "parent (N2 ! i) = Some p" for i p
    using m [of i new] that by (simp add: N2_def)
  moreover have "marks_closed N2"
    using m [of _ new] by (auto simp: marks_closed_def N2_def)
  ultimately show "in_state N1 N2 ?s" by (simp add: in_state_def)
  show "i < length N1 \<Longrightarrow> mapped_node (N1 ! i) = None" "i < length N2 \<Longrightarrow> mapped_node (N2 ! i) = None"
    using m [of i old] m [of i new] by (auto simp: N1_def N2_def)
qed

lemma root_first_child:
  "getFirstChild (root_node ts # layout 0 1 0 ts) 0 = (if ts = [] then None else Some 1)"
  by (simp add: getFirstChild_def root_node_def)

text \<open>What a large unchanged subtree is worth: nothing below it is new or changed.\<close>

definition unchanged_at :: "ftree list \<Rightarrow> ftree list \<Rightarrow> nat \<Rightarrow> bool" where
  "unchanged_at old new r \<longleftrightarrow>
     (case pair_at 0 old new r of
        None \<Rightarrow> False
      | Some (t', t) \<Rightarrow> changed_lines (r + 1) (ft_kids t') (ft_kids t) = []
                       \<and> changed_dir_lines (r + 1) (ft_kids t') (ft_kids t) = [])"

lemma diffTrees_result:
  assumes "list_ok old" and "list_ok new"
  shows "\<exists>res. diffTrees (Some (forest_text old)) (Some (forest_text new)) wdel wlarge wmod wdi hs iw = Some (Good res)
    \<and> r_diffs res = changed_lines 0 old new
    \<and> r_dir_diffs res = changed_dir_lines 0 old new
    \<and> r_deleted_ids res = (if wdel then Some (deleted_lines 0 old new) else None)
    \<and> (case r_large_unchanged_subtrees res of None \<Rightarrow> \<not> wlarge
       | Some ls \<Rightarrow> wlarge \<and> (\<forall>r \<in> set ls. unchanged_at old new r))"
proof -
  define N1 where "N1 = root_node old # layout 0 1 0 old"
  define N2 where "N2 = root_node new # layout 0 1 0 new"
  define s where "s = \<lparr>nodes1 = N1, nodes2 = N2, diffs = [],
      modified_inplace_ids = (if wmod then Some [] else None), dir_diffs = [],
      deleted_inplace_ids = (if wdi then Some [] else None)\<rparr>"
  let ?ev = "diff_spec hs iw N1 N2 (shapes 1 old) (shapes 1 new)"
  have ok: "list_all tree_ok old" "list_all tree_ok new" "list_all sorted_tree old" "list_all sorted_tree new"
    "distinct (map ft_key old)" "distinct (map ft_key new)"
    using assms by (auto simp: list_ok_def)
  have rd: "readTree (Some (forest_text old)) = Good N1" "readTree (Some (forest_text new)) = Good N2"
    using ok by (simp_all add: readTree_layout N1_def N2_def)
  have l: "lies_at N1 0 1 0 old" "lies_at N2 0 1 0 new" by (simp_all only: N1_def N2_def lies_at_root)
  have st: "in_state N1 N2 s" unfolding s_def N1_def N2_def by (rule start_state(1))
  have un: "i < length N1 \<Longrightarrow> mapped_node (nodes1 s ! i) = None" "i < length N2 \<Longrightarrow> mapped_node (nodes2 s ! i) = None" for i
    using start_state(2,3) [of i] by (auto simp: s_def N1_def N2_def)
  have fc: "getFirstChild N1 0 = (if old = [] then None else Some 1)" "getFirstChild N2 0 = (if new = [] then None else Some 1)"
    by (simp_all only: N1_def N2_def root_first_child)
  have lv: "level_ok N1 0 (getFirstChild N1 0) (shapes 1 old)" "level_ok N2 0 (getFirstChild N2 0) (shapes 1 new)"
    unfolding fc by (rule lies_level_ok [OF l(1) assms(1)], rule lies_level_ok [OF l(2) assms(2)])
  have rp: "rep N1 0 (getFirstChild N1 0) (shapes 1 old)" "rep N2 0 (getFirstChild N2 0) (shapes 1 new)"
    using lv by (auto simp: level_ok_def)
  have fr: "fresh N1 N2 (shapes 1 old) (shapes 1 new) s"
    using un(1) rep_heads [OF rp(1)] by (simp add: fresh_def)
  obtain s' where s': "gather_loop hs iw 0 0 0 (getFirstChild N1 0) (getFirstChild N2 0) s = Some s'"
    "done_ev N1 N2 ?ev s s'"
    using gather_root [OF st lv fr _ rp(1), of "[]"] by (auto simp: N1_def N2_def)
  have sc: "same_core (nodes1 s') N1" "same_core (nodes2 s') N2" "marks_closed (nodes2 s')"
    "\<And>i. i \<in> set (diffs_of ?ev @ dir_diffs_of ?ev) \<Longrightarrow> parent_marked (nodes2 s') i"
    using s'(2) by (auto simp: done_ev_def)
  have g: "gatherDiffs hs iw 0 0 0 s = Some s'"
    using s'(1) by (simp add: gatherDiffs_def s_def)
  have d: "diffs s' = changed_lines 0 old new" "dir_diffs s' = changed_dir_lines 0 old new"
    using s'(2) spec_changed_lines [OF l ok(3,4)] spec_changed_dir_lines [OF l ok(3,4)]
    by (simp_all add: done_ev_def s_def)
  have "filter (\<lambda>i. mapped_node (nodes1 s' ! i) = None) (addrs (shapes 1 old))
      = filter (\<lambda>i. match1 ?ev i None = None) (addrs (shapes 1 old))"
    by (rule filter_cong [OF refl]) (use s'(2) un(1) rep_addrs [OF rp(1)] in \<open>simp add: done_ev_def\<close>)
  also have "\<dots> = unmatched hs iw N1 N2 (shapes 1 old) (shapes 1 new)"
    by (rule unmatched_filter) (use lies_keys [OF l(1) ok(3)] lies_keys [OF l(2) ok(4)] ok(5,6) in \<open>simp_all add: addrs_shapes\<close>)
  finally have "ids N1 (filter (\<lambda>i. mapped_node (nodes1 s' ! i) = None) (addrs (shapes 1 old))) = deleted_lines 0 old new"
    using spec_deleted_lines [OF l ok(3-6)] by simp
  then have del: "gatherDeletes (nodes1 s') 0 [] = Some (deleted_lines 0 old new)"
    using gather_deletes [OF sc(1) rp(1), of "[]"] same_core_getters(1) [OF sc(1), of 0]
    by (simp add: gatherDeletes_def N1_def)
  obtain js where js: "gatherLargeUnchangedSubtrees (nodes2 s') 0 [] = Some (ids N2 js)"
    "\<forall>i \<in> set js. i \<in> set (addrs (shapes 1 new)) \<and> \<not> subtree_changed (nodes2 s' ! i) \<and> mapped_node (nodes2 s' ! i) \<noteq> None"
    using gather_large [OF sc(2) rp(2), of "[]"] same_core_getters(1) [OF sc(2), of 0]
    by (auto simp: gatherLargeUnchangedSubtrees_def N2_def)
  have large: "unchanged_at old new (node_id (N2 ! i))" if i: "i \<in> set js" for i
  proof -
    have "i < length N2" using js(2) i rep_addrs [OF rp(2)] by blast
    then have "mapped_node (nodes2 s' ! i) = match2 ?ev i None" using un(2) s'(2) by (simp add: done_ev_def)
    then have "match2 ?ev i None \<noteq> None" using js(2) i by metis
    then obtain a where "EMatch a i \<in> set ?ev" using match2_event by blast
    from match_pair_at [OF l ok(3,4) this refl] obtain t' t where
      p: "pair_at 0 old new (node_id (N2 ! i)) = Some (t', t)" "partners hs iw N1 N2 ?ev i t' t"
      by blast
    then obtain q r nxt j l' where
      n: "N2 ! i = tree_node q r nxt t" "lies_at N2 i (i + 1) (r + 1) (ft_kids t)"
        "lies_at N1 j (j + 1) (l' + 1) (ft_kids t')" "sorted_tree t'" "sorted_tree t"
        "set (diff_spec hs iw N1 N2 (shapes (j + 1) (ft_kids t')) (shapes (i + 1) (ft_kids t))) \<subseteq> set ?ev"
      unfolding partners_def by blast
    let ?sub = "diff_spec hs iw N1 N2 (shapes (j + 1) (ft_kids t')) (shapes (i + 1) (ft_kids t))"
    have "diffs_of ?sub @ dir_diffs_of ?sub = []"
    proof (rule ccontr)
      assume "diffs_of ?sub @ dir_diffs_of ?sub \<noteq> []"
      then obtain k where k: "k \<in> set (diffs_of ?sub @ dir_diffs_of ?sub)" by (meson last_in_set)
      then have "k \<in> set (addrs (shapes (i + 1) (ft_kids t)))" by (rule spec_addrs)
      moreover have "k \<in> set (diffs_of ?ev @ dir_diffs_of ?ev)"
        using k n(6) by (auto simp: events_of_defs)
      then have "parent_marked (nodes2 s') k" by (rule sc(4))
      ultimately have "subtree_changed (nodes2 s' ! i)"
        using marked_above [OF lies_rep [OF n(2)] sc(2,3)] by blast
      then show False using js(2) i by blast
    qed
    moreover have "list_all sorted_tree (ft_kids t')" "list_all sorted_tree (ft_kids t)"
      using sorted_tree_kids n(4,5) by auto
    ultimately have "changed_lines (r + 1) (ft_kids t') (ft_kids t) = []" "changed_dir_lines (r + 1) (ft_kids t') (ft_kids t) = []"
      using spec_changed_lines [OF n(3,2), of hs iw] spec_changed_dir_lines [OF n(3,2), of hs iw] by auto
    then show ?thesis using p(1) n(1) by (simp add: unchanged_at_def)
  qed
  show ?thesis
    using g d del js(1) large
    by (auto simp: diffTrees_def rd s_def [symmetric] sorted_sort_id sorted_changed_lines sorted_changed_dir_lines
        sorted_deleted_lines ids_def)
qed


section \<open>Properties\<close>

text \<open>
  C2: The comparison of two file lists is right. For the lists of any two trees whose names have no
  zero byte and whose siblings differ, sorted below the first level, the walk over the two vectors
  of nodes ends and reports exactly the lines of new and changed entries (nothing below a new
  directory), the kept directories with another time, and the lines of the old list that are gone
  or replaced with everything below, all in ascending order; the first level may be unsorted.
\<close>

theorem diff_trees_correct:
  assumes "list_ok old" and "list_ok new"
  shows "\<exists>res. diffTrees (Some (forest_text old)) (Some (forest_text new)) True wlarge wmod wdi hs iw = Some (Good res)
    \<and> r_diffs res = changed_lines 0 old new
    \<and> r_dir_diffs res = changed_dir_lines 0 old new
    \<and> r_deleted_ids res = Some (deleted_lines 0 old new)"
  using diffTrees_result [OF assms, of True] by fastforce

theorem diff_trees_correct_witness:
  "\<exists>res. diffTrees (Some (forest_text [Dir ''b'' 1 [File ''x'' 1 1], File ''a'' 5 5]))
      (Some (forest_text [File ''a'' 5 6, Dir ''b'' 2 [File ''x'' 1 1, File ''y'' 2 2]]))
      True False False False True False = Some (Good res)
    \<and> r_diffs res = [0, 3] \<and> r_dir_diffs res = [1] \<and> r_deleted_ids res = Some [3]"
proof -
  let ?old = "[Dir ''b'' 1 [File ''x'' 1 1], File ''a'' 5 5]"
  let ?new = "[File ''a'' 5 6, Dir ''b'' 2 [File ''x'' 1 1, File ''y'' 2 2]]"
  have ok: "list_ok ?old" "list_ok ?new"
    by (simp_all add: list_ok_def ft_key_def less_prod_def)
  have "changed_lines 0 ?old ?new = [0, 3]" "changed_dir_lines 0 ?old ?new = [1]" "deleted_lines 0 ?old ?new = [3]"
    by (simp_all add: find_old_def ft_key_def kept_def)
  with diff_trees_correct [OF ok, of False False False True False] show ?thesis by simp
qed

text \<open>Files with one-letter names.\<close>

definition many_files :: "string \<Rightarrow> ftree list" where
  "many_files ns = map (\<lambda>c. File [c] 1 1) ns"

text \<open>
  C7: Directories that a new backup replaces by a link to the old ones have no new or changed
  content. Every line reported as a large unchanged subtree is an entry of the new list that has a
  partner at the same path in the old one, and below it nothing is new or changed.
\<close>

theorem linked_subtrees_unchanged:
  assumes "list_ok old" and "list_ok new"
  shows "\<exists>res ls. diffTrees (Some (forest_text old)) (Some (forest_text new)) wdel True wmod wdi hs iw = Some (Good res)
    \<and> r_large_unchanged_subtrees res = Some ls \<and> (\<forall>r \<in> set ls. unchanged_at old new r)"
  using diffTrees_result [OF assms, of wdel True wmod wdi hs iw] by (fastforce split: option.splits)


theorem linked_subtrees_unchanged_witness:
  "\<exists>res ls. diffTrees (Some (forest_text [Dir ''d'' 1 (many_files ''abcdefghij'')]))
       (Some (forest_text [Dir ''d'' 1 (many_files ''abcdefghij''), File ''n'' 1 1])) False True False False True False
         = Some (Good res)
    \<and> r_large_unchanged_subtrees res = Some ls
    \<and> (\<forall>r \<in> set ls. unchanged_at [Dir ''d'' 1 (many_files ''abcdefghij'')]
          [Dir ''d'' 1 (many_files ''abcdefghij''), File ''n'' 1 1] r)"
proof -
  have "list_ok [Dir ''d'' 1 (many_files ''abcdefghij'')]"
    "list_ok [Dir ''d'' 1 (many_files ''abcdefghij''), File ''n'' 1 1]"
    by (simp_all add: list_ok_def many_files_def ft_key_def less_prod_def less_char_def)
  then show ?thesis by (rule linked_subtrees_unchanged)
qed

text \<open>
  What the report of large unchanged subtrees does not look at are deletions behind the last kept
  entry: the walk ends with the new siblings and marks nothing for the old ones that are left. A
  directory that lost its last file is still reported for linking, with the deleted file in it.
\<close>

lemma linked_subtree_keeps_deleted_file:
  "(case diffTrees (Some (forest_text [Dir ''d'' 1 (many_files ''abcdefghijk'')]))
          (Some (forest_text [Dir ''d'' 2 (many_files ''abcdefghij'')])) True True False False True False of
      Some (Good res) \<Rightarrow> (r_large_unchanged_subtrees res, r_deleted_ids res)
    | _ \<Rightarrow> (None, None)) = (Some [0], Some [11])"
  by code_simp

end
