(* ===== verification/Memory.thy ===== *)
theory Memory
  imports Prelude "HOL-Library.Monad_Syntax" "HOL-Library.Multiset"
begin

text \<open>
  Arrays with checked access, shared by the components that sort, merge or search in place. A read
  or write outside the array is undefined in C; here it is \<open>None\<close>, so a theorem that an operation
  returns \<open>Some\<close> says, beside what the result is, that no access was out of bounds.
\<close>

section \<open>Checked access\<close>

definition rd :: "'a list \<Rightarrow> nat \<Rightarrow> 'a option" where
  "rd xs i = (if i < length xs then Some (xs ! i) else None)"

definition wr :: "'a list \<Rightarrow> nat \<Rightarrow> 'a \<Rightarrow> 'a list option" where
  "wr xs i v = (if i < length xs then Some (xs[i := v]) else None)"

definition swap :: "'a list \<Rightarrow> nat \<Rightarrow> nat \<Rightarrow> 'a list option" where
  "swap xs i j = do { x \<leftarrow> rd xs i; y \<leftarrow> rd xs j; ys \<leftarrow> wr xs i y; wr ys j x }"

lemma rd_Some [simp]: "i < length xs \<Longrightarrow> rd xs i = Some (xs ! i)"
  by (simp add: rd_def)

lemma wr_Some [simp]: "i < length xs \<Longrightarrow> wr xs i v = Some (xs[i := v])"
  by (simp add: wr_def)

lemma rd_eq_Some: "rd xs i = Some v \<longleftrightarrow> i < length xs \<and> v = xs ! i"
  by (auto simp: rd_def)

lemma wr_eq_Some: "wr xs i v = Some ys \<longleftrightarrow> i < length xs \<and> ys = xs[i := v]"
  by (auto simp: wr_def)

lemma swap_Some [simp]:
  "i < length xs \<Longrightarrow> j < length xs \<Longrightarrow> swap xs i j = Some (xs[i := xs ! j, j := xs ! i])"
  by (simp add: swap_def)

section \<open>Changes confined to a segment\<close>

text \<open>\<open>ys\<close> is \<open>xs\<close> with the elements at the positions \<open>l\<close> to \<open>r\<close> permuted.\<close>

definition permuted :: "nat \<Rightarrow> nat \<Rightarrow> 'a list \<Rightarrow> 'a list \<Rightarrow> bool" where
  "permuted l r xs ys \<longleftrightarrow>
     length ys = length xs \<and> mset ys = mset xs \<and> (\<forall>p. p < l \<or> r < p \<longrightarrow> ys ! p = xs ! p)"

lemma permuted_refl [simp]: "permuted l r xs xs"
  by (simp add: permuted_def)

lemma permuted_trans [trans]: "permuted l r xs ys \<Longrightarrow> permuted l r ys zs \<Longrightarrow> permuted l r xs zs"
  by (simp add: permuted_def)

lemma permuted_mono: "permuted l r xs ys \<Longrightarrow> l' \<le> l \<Longrightarrow> r \<le> r' \<Longrightarrow> permuted l' r' xs ys"
  by (auto simp: permuted_def)

lemma permuted_length: "permuted l r xs ys \<Longrightarrow> length ys = length xs"
  by (simp add: permuted_def)

lemma permuted_outside: "permuted l r xs ys \<Longrightarrow> p < l \<or> r < p \<Longrightarrow> ys ! p = xs ! p"
  by (auto simp: permuted_def)

lemma permuted_swap:
  assumes "i < length xs" "j < length xs" "l \<le> i" "i \<le> r" "l \<le> j" "j \<le> r"
  shows "permuted l r xs (xs[i := xs ! j, j := xs ! i])"
  using assms by (auto simp: permuted_def mset_swap nth_list_update)

text \<open>What holds of every element of the segment still does.\<close>

lemma permuted_all:
  assumes p: "permuted l r xs ys" and all: "\<And>p. l \<le> p \<Longrightarrow> p \<le> r \<Longrightarrow> P (xs ! p)"
    and r: "r < length xs" and q: "l \<le> q" "q \<le> r"
  shows "P (ys ! q)"
proof -
  have len: "length ys = length xs" using p by (rule permuted_length)
  have tk: "take l ys = take l xs"
    using p len by (intro nth_equalityI) (auto simp: permuted_def)
  have dr: "drop (Suc r) ys = drop (Suc r) xs"
    using p len by (intro nth_equalityI) (auto simp: permuted_def)
  define mid where "mid zs = take (Suc r - l) (drop l zs)" for zs :: "'a list"
  have split: "zs = take l zs @ mid zs @ drop (Suc r) zs" if "length zs = length xs" for zs :: "'a list"
  proof -
    have "drop (Suc r) zs = drop (Suc r - l) (drop l zs)" using q by simp
    then have "zs = take l zs @ take (Suc r - l) (drop l zs) @ drop (Suc r - l) (drop l zs)"
      by (simp only: append_take_drop_id)
    then show ?thesis using \<open>drop (Suc r) zs = _\<close> by (simp only: mid_def)
  qed
  have "mset (mid ys) = mset (mid xs)"
  proof -
    have "mset (take l ys) + mset (mid ys) + mset (drop (Suc r) ys) =
          mset (take l xs) + mset (mid xs) + mset (drop (Suc r) xs)"
      using split[OF len] split[OF refl] p
      by (metis mset_append permuted_def union_assoc)
    then show ?thesis by (simp add: tk dr)
  qed
  then have "set (mid ys) = set (mid xs)" by (rule mset_eq_setD)
  moreover have "ys ! q \<in> set (mid ys)"
    unfolding mid_def in_set_conv_nth using q r len
    by (intro exI[of _ "q - l"]) auto
  ultimately obtain k where "k < length (mid xs)" "ys ! q = mid xs ! k"
    by (metis in_set_conv_nth)
  then have "ys ! q = xs ! (l + k)" "l + k \<le> r" using r q by (auto simp: mid_def)
  with all show ?thesis by simp
qed

text \<open>Descending and ascending order of a segment.\<close>

definition descending :: "nat \<Rightarrow> nat \<Rightarrow> 'a::linorder list \<Rightarrow> bool" where
  "descending l r xs \<longleftrightarrow> (\<forall>p q. l \<le> p \<longrightarrow> p < q \<longrightarrow> q \<le> r \<longrightarrow> xs ! q \<le> xs ! p)"

lemma descendingD: "descending l r xs \<Longrightarrow> l \<le> p \<Longrightarrow> p < q \<Longrightarrow> q \<le> r \<Longrightarrow> xs ! q \<le> xs ! p"
  by (simp add: descending_def)

lemma descendingD_le: "descending l r xs \<Longrightarrow> l \<le> p \<Longrightarrow> p \<le> q \<Longrightarrow> q \<le> r \<Longrightarrow> xs ! q \<le> xs ! p"
  by (cases "p = q") (simp_all add: descending_def)

end
