(* ===== verification/Midl.thy ===== *)
theory Midl
  imports Memory
begin

text \<open>
  ID lists of the key-value store: \<open>idrivebmrserver/lmdb/midl.c\<close>. An \<open>MDB_IDL\<close> points into an
  allocated block: the word before it holds the number of entries there is room for, word 0 the
  number of entries in use, and the entries follow, largest first once sorted. Allocation may fail
  (\<open>ok\<close>), and memory that was not written yet has arbitrary contents (\<open>junk\<close>). Positions are
  natural numbers where they cannot overflow; the properties are about lists of less than \<open>2 ^ 31\<close> ids, for the sort of less than \<open>2 ^ 30\<close>.
\<close>

section \<open>Lists\<close>

record MDB_IDL =
  alloclen :: u64
  cells :: "u64 list"

definition MDB_IDL_UM_MAX :: nat where
  "MDB_IDL_UM_MAX = 2 ^ 17 - 1"

definition idl_count :: "u64 list \<Rightarrow> nat" where
  "idl_count xs = unat (xs ! 0)"

text \<open>\<open>realloc\<close>: the old contents up to the new size, anything behind them.\<close>

definition resize :: "(nat \<Rightarrow> u64) \<Rightarrow> u64 list \<Rightarrow> nat \<Rightarrow> u64 list" where
  "resize junk xs n = take n xs @ map junk [length xs..<n]"

definition mdb_midl_alloc :: "bool \<Rightarrow> (nat \<Rightarrow> u64) \<Rightarrow> nat \<Rightarrow> MDB_IDL option" where
  "mdb_midl_alloc ok junk num =
     (if ok then Some \<lparr>alloclen = of_nat num, cells = (resize junk [] (num + 1))[0 := 0]\<rparr> else None)"

definition mdb_midl_shrink :: "bool \<Rightarrow> (nat \<Rightarrow> u64) \<Rightarrow> MDB_IDL \<Rightarrow> MDB_IDL" where
  "mdb_midl_shrink ok junk idp =
     (if of_nat MDB_IDL_UM_MAX < alloclen idp \<and> ok
      then \<lparr>alloclen = of_nat MDB_IDL_UM_MAX, cells = resize junk (cells idp) (MDB_IDL_UM_MAX + 1)\<rparr>
      else idp)"

text \<open>The operations that may run out of memory return the list unchanged and \<open>ENOMEM\<close>.\<close>

datatype midl_status = MIDL_SUCCESS | MIDL_ENOMEM



text \<open>The size computation of \<open>mdb_midl_need\<close> is in \<open>unsigned\<close> arithmetic.\<close>

definition midl_need_size :: "u32 \<Rightarrow> u32" where
  "midl_need_size num = (num + num div 4 + (256 + 2)) AND - 256"

definition mdb_midl_need :: "bool \<Rightarrow> (nat \<Rightarrow> u64) \<Rightarrow> MDB_IDL \<Rightarrow> u32 \<Rightarrow> MDB_IDL \<times> midl_status" where
  "mdb_midl_need ok junk idp num =
     (let num = num + ucast (cells idp ! 0)
      in if alloclen idp < ucast num
         then let num = midl_need_size num
              in if \<not> ok then (idp, MIDL_ENOMEM)
                 else (\<lparr>alloclen = ucast (num - 2), cells = resize junk (cells idp) (unat num - 1)\<rparr>,
                       MIDL_SUCCESS)
         else (idp, MIDL_SUCCESS))"






section \<open>Search\<close>

text \<open>\<open>CMP(x, y)\<close>\<close>

definition CMP :: "u64 \<Rightarrow> u64 \<Rightarrow> int" where
  "CMP x y = (if x < y then - 1 else if y < x then 1 else 0)"

text \<open>
  The loop of both binary searches; \<open>cmp\<close> compares the entry at a position with the wanted one.
\<close>

function midl_search_loop :: "(nat \<Rightarrow> int option) \<Rightarrow> nat \<Rightarrow> nat \<Rightarrow> nat \<Rightarrow> int \<Rightarrow> nat option" where
  "midl_search_loop cmp base n cursor val =
     (if 0 < n then
        let pivot = n div 2;
            cursor = base + pivot + 1
        in do {
             val \<leftarrow> cmp cursor;
             if val < 0 then midl_search_loop cmp base pivot cursor val
             else if 0 < val then midl_search_loop cmp cursor (n - (pivot + 1)) cursor val
             else Some cursor
           }
      else Some (if 0 < val then cursor + 1 else cursor))"
  by pat_completeness auto

termination midl_search_loop
  by (relation "measure (\<lambda>(cmp, base, n, cursor, val). n)") auto

declare midl_search_loop.simps [simp del]

definition mdb_midl_search :: "u64 list \<Rightarrow> u64 \<Rightarrow> nat option" where
  "mdb_midl_search ids ident = do {
     n \<leftarrow> rd ids 0;
     midl_search_loop (\<lambda>c. do { x \<leftarrow> rd ids c; Some (CMP x ident) }) 0 (unat (ucast n :: u32)) 1 0
   }"

section \<open>Merging\<close>

text \<open>\<open>for (; old_id < merge_id; old_id = idl[--j]) idl[k--] = old_id;\<close>\<close>

fun xmerge_shift :: "u64 list \<Rightarrow> nat \<Rightarrow> nat \<Rightarrow> u64 \<Rightarrow> u64 \<Rightarrow> (u64 list \<times> nat \<times> nat \<times> u64) option" where
  "xmerge_shift idl j k old_id merge_id =
     (if old_id < merge_id then
        (case j of
           0 \<Rightarrow> None
         | Suc j' \<Rightarrow> do {
             idl \<leftarrow> wr idl k old_id;
             old_id \<leftarrow> rd idl j';
             xmerge_shift idl j' (k - 1) old_id merge_id
           })
      else Some (idl, j, k, old_id))"

declare xmerge_shift.simps [simp del]

fun xmerge_loop :: "u64 list \<Rightarrow> u64 list \<Rightarrow> nat \<Rightarrow> nat \<Rightarrow> nat \<Rightarrow> u64 \<Rightarrow> u64 list option" where
  "xmerge_loop idl merge 0 j k old_id = Some idl"
| "xmerge_loop idl merge (Suc i) j k old_id = do {
     merge_id \<leftarrow> rd merge (Suc i);
     (idl, j, k, old_id) \<leftarrow> xmerge_shift idl j k old_id merge_id;
     idl \<leftarrow> wr idl k merge_id;
     xmerge_loop idl merge i j (k - 1) old_id
   }"

definition mdb_midl_xmerge :: "u64 list \<Rightarrow> u64 list \<Rightarrow> u64 list option" where
  "mdb_midl_xmerge idl merge = do {
     i \<leftarrow> rd merge 0;
     j \<leftarrow> rd idl 0;
     idl \<leftarrow> wr idl 0 (- 1);
     old_id \<leftarrow> rd idl (unat j);
     idl \<leftarrow> xmerge_loop idl merge (unat i) (unat j) (unat i + unat j) old_id;
     wr idl 0 (of_nat (unat i + unat j))
   }"

section \<open>Sorting\<close>

definition SMALL :: nat where "SMALL = 8"

text \<open>\<open>for (i = j - 1; i >= 1; i--) { if (ids[i] >= a) break; ids[i+1] = ids[i]; }\<close>\<close>

fun midl_shift :: "u64 list \<Rightarrow> nat \<Rightarrow> u64 \<Rightarrow> (u64 list \<times> nat) option" where
  "midl_shift ids 0 a = Some (ids, 0)"
| "midl_shift ids (Suc i) a = do {
     x \<leftarrow> rd ids (Suc i);
     if a \<le> x then Some (ids, Suc i)
     else do {
       ids \<leftarrow> wr ids (Suc (Suc i)) x;
       midl_shift ids i a
     }
   }"

text \<open>The insertion sort over the positions \<open>j\<close> from \<open>l + 1\<close> to \<open>ir\<close>.\<close>

fun midl_insertion :: "u64 list \<Rightarrow> nat list \<Rightarrow> u64 list option" where
  "midl_insertion ids [] = Some ids"
| "midl_insertion ids (j # js) = do {
     a \<leftarrow> rd ids j;
     (ids, i) \<leftarrow> midl_shift ids (j - 1) a;
     ids \<leftarrow> wr ids (i + 1) a;
     midl_insertion ids js
   }"

text \<open>\<open>do i++; while (ids[i] > a);\<close> and \<open>do j--; while (ids[j] < a);\<close>\<close>

function scan_up :: "u64 list \<Rightarrow> nat \<Rightarrow> u64 \<Rightarrow> nat option" where
  "scan_up ids i a =
     (case rd ids (Suc i) of
        None \<Rightarrow> None
      | Some x \<Rightarrow> if a < x then scan_up ids (Suc i) a else Some (Suc i))"
  by pat_completeness auto

termination scan_up
  by (relation "measure (\<lambda>(ids, i, a). length ids - i)") (auto simp: rd_eq_Some)

declare scan_up.simps [simp del]

fun scan_down :: "u64 list \<Rightarrow> nat \<Rightarrow> u64 \<Rightarrow> nat option" where
  "scan_down ids 0 a = None"
| "scan_down ids (Suc j) a = do {
     x \<leftarrow> rd ids j;
     if x < a then scan_down ids j a else Some j
   }"

lemma scan_up_bounds: "scan_up ids i a = Some i' \<Longrightarrow> i < i' \<and> i' < length ids"
proof (induction ids i a rule: scan_up.induct)
  case (1 ids i a)
  from "1.prems" obtain x where x: "rd ids (Suc i) = Some x"
    by (subst (asm) scan_up.simps) (auto split: option.splits)
  show ?case
  proof (cases "a < x")
    case True
    with "1.prems" x have "scan_up ids (Suc i) a = Some i'" by (subst (asm) scan_up.simps) simp
    from "1.IH"[OF x True this] show ?thesis by simp
  next
    case False
    with "1.prems" x have "i' = Suc i" by (subst (asm) scan_up.simps) simp
    with x show ?thesis by (simp add: rd_eq_Some)
  qed
qed

text \<open>The partitioning loop, which returns the array and the final \<open>i\<close> and \<open>j\<close>.\<close>

function midl_partition :: "u64 list \<Rightarrow> nat \<Rightarrow> nat \<Rightarrow> u64 \<Rightarrow> (u64 list \<times> nat \<times> nat) option" where
  "midl_partition ids i j a =
     (case scan_up ids i a of
        None \<Rightarrow> None
      | Some i \<Rightarrow>
          (case scan_down ids j a of
             None \<Rightarrow> None
           | Some j \<Rightarrow>
               if j < i then Some (ids, i, j)
               else (case swap ids i j of
                       None \<Rightarrow> None
                     | Some ids \<Rightarrow> midl_partition ids i j a)))"
  by pat_completeness auto

lemma swap_length: "swap xs i j = Some ys \<Longrightarrow> length ys = length xs"
  by (auto simp: swap_def rd_eq_Some wr_eq_Some bind_eq_Some_conv)

termination midl_partition
  by (relation "measure (\<lambda>(ids, i, j, a). length ids - i)")
     (auto dest!: scan_up_bounds swap_length)

declare midl_partition.simps [simp del]

text \<open>\<open>if (ids[x] < ids[y]) MIDL_SWAP(ids[x], ids[y]);\<close>\<close>

definition swap_less :: "u64 list \<Rightarrow> nat \<Rightarrow> nat \<Rightarrow> u64 list option" where
  "swap_less ids x y = do {
     u \<leftarrow> rd ids x;
     v \<leftarrow> rd ids y;
     if u < v then swap ids x y else Some ids
   }"

text \<open>
  The positions \<open>l\<close>, \<open>ir\<close>, \<open>i\<close> and \<open>j\<close> are of the type \<open>int\<close>. The sum \<open>l + ir\<close> may leave it, an overflow, which is \<open>None\<close>. The others
  stay between 0 and \<open>ir + 1\<close>; this is too large only for \<open>ir = 2 ^ 31 - 1\<close>, where the sum of the first round overflows before.
\<close>

definition median_to_front :: "u64 list \<Rightarrow> nat \<Rightarrow> nat \<Rightarrow> u64 list option" where
  "median_to_front ids l ir =
     (if 2 ^ 31 \<le> l + ir then None
      else do {
        let k = (l + ir) div 2;
        ids \<leftarrow> swap ids k (l + 1);
        ids \<leftarrow> swap_less ids l ir;
        ids \<leftarrow> swap_less ids (l + 1) ir;
        swap_less ids l (l + 1)
      })"

text \<open>
  One round with a large segment: the array with the pivot in place and the positions \<open>i\<close> and \<open>j\<close>
  between which it is cut.
\<close>

definition midl_split :: "u64 list \<Rightarrow> nat \<Rightarrow> nat \<Rightarrow> (u64 list \<times> nat \<times> nat) option" where
  "midl_split ids l ir = do {
     ids \<leftarrow> median_to_front ids l ir;
     a \<leftarrow> rd ids (l + 1);
     (ids, i, j) \<leftarrow> midl_partition ids (l + 1) ir a;
     x \<leftarrow> rd ids j;
     ids \<leftarrow> wr ids (l + 1) x;
     ids \<leftarrow> wr ids j a;
     Some (ids, i, j)
   }"

text \<open>
  \<open>istack\<close> has 64 cells and its entries start at cell 1, two per segment, so there is room for 31
  segments \<open>(l, ir)\<close>; pushing another one would write behind it.
\<close>

definition istack_room :: nat where "istack_room = 31"

definition push_segment :: "(nat \<times> nat) list \<Rightarrow> nat \<times> nat \<Rightarrow> (nat \<times> nat) list option" where
  "push_segment st s = (if length st < istack_room then Some (s # st) else None)"

partial_function (option) midl_sort_loop ::
  "u64 list \<Rightarrow> nat \<Rightarrow> nat \<Rightarrow> (nat \<times> nat) list \<Rightarrow> u64 list option" where
  "midl_sort_loop ids l ir st =
     (if ir < l + SMALL then
        Option.bind (midl_insertion ids [l + 1..<ir + 1])
          (\<lambda>ids. case st of
                   [] \<Rightarrow> Some ids
                 | (l', ir') # st' \<Rightarrow> midl_sort_loop ids l' ir' st')
      else
        Option.bind (midl_split ids l ir)
          (\<lambda>(ids, i, j).
             if int j - int l \<le> int ir - int i + 1
             then Option.bind (push_segment st (i, ir)) (\<lambda>st. midl_sort_loop ids l (j - 1) st)
             else Option.bind (push_segment st (l, j - 1)) (\<lambda>st. midl_sort_loop ids i ir st)))"

declare midl_sort_loop.simps [code]

text \<open>\<open>ir = (int) ids[0]\<close>; when this is negative there is nothing to sort, as for an empty list.\<close>

definition mdb_midl_sort :: "u64 list \<Rightarrow> u64 list option" where
  "mdb_midl_sort ids = do {
     n \<leftarrow> rd ids 0;
     let ir = sint (ucast n :: u32);
     if ir - 1 < - (2 ^ 31) then None else midl_sort_loop ids 1 (nat ir) []
   }"

section \<open>Sorted lists of pairs\<close>

text \<open>\<open>MDB_ID2\<close>: an ident and a pointer; the list is ascending, the count is the \<open>mid\<close> of entry 0.\<close>

record 'p MDB_ID2 =
  mid :: u64
  mptr :: 'p

definition mdb_mid2l_search :: "'p MDB_ID2 list \<Rightarrow> u64 \<Rightarrow> nat option" where
  "mdb_mid2l_search ids ident = do {
     n \<leftarrow> rd ids 0;
     midl_search_loop (\<lambda>c. do { x \<leftarrow> rd ids c; Some (CMP ident (mid x)) }) 0
       (unat (ucast (mid n) :: u32)) 1 0
   }"

text \<open>\<open>for (i = ids[0].mid; i > x; i--) ids[i] = ids[i-1];\<close>\<close>

fun mid2l_shift :: "'p MDB_ID2 list \<Rightarrow> nat \<Rightarrow> nat \<Rightarrow> 'p MDB_ID2 list option" where
  "mid2l_shift ids 0 x = Some ids"
| "mid2l_shift ids (Suc i) x =
     (if x < Suc i then do {
        y \<leftarrow> rd ids i;
        ids \<leftarrow> wr ids (Suc i) y;
        mid2l_shift ids i x
      } else Some ids)"

definition mdb_mid2l_insert :: "'p MDB_ID2 list \<Rightarrow> 'p MDB_ID2 \<Rightarrow> ('p MDB_ID2 list \<times> int) option" where
  "mdb_mid2l_insert ids ident = do {
     x \<leftarrow> mdb_mid2l_search ids (mid ident);
     if x < 1 then Some (ids, - 2)
     else do {
       n \<leftarrow> rd ids 0;
       dup \<leftarrow> (if of_nat x \<le> mid n then do { y \<leftarrow> rd ids x; Some (mid y = mid ident) } else Some False);
       if dup then Some (ids, - 1)
       else if of_nat MDB_IDL_UM_MAX \<le> mid n then Some (ids, - 2)
       else do {
         ids \<leftarrow> wr ids 0 (n\<lparr>mid := mid n + 1\<rparr>);
         ids \<leftarrow> mid2l_shift ids (unat (ucast (mid n + 1) :: u32)) x;
         ids \<leftarrow> wr ids x ident;
         Some (ids, 0)
       }
     }
   }"

definition mdb_mid2l_append :: "'p MDB_ID2 list \<Rightarrow> 'p MDB_ID2 \<Rightarrow> ('p MDB_ID2 list \<times> int) option" where
  "mdb_mid2l_append ids ident = do {
     n \<leftarrow> rd ids 0;
     if of_nat MDB_IDL_UM_MAX \<le> mid n then Some (ids, - 2)
     else do {
       ids \<leftarrow> wr ids 0 (n\<lparr>mid := mid n + 1\<rparr>);
       ids \<leftarrow> wr ids (unat (mid n + 1)) ident;
       Some (ids, 0)
     }
   }"


section \<open>Sorting is correct\<close>

lemma midl_shift_spec:
  assumes "Suc i < length ids"
  shows "\<exists>ids' i'. midl_shift ids i a = Some (ids', i') \<and> i' \<le> i \<and> length ids' = length ids \<and>
    (\<forall>p. i' < p \<longrightarrow> p \<le> i \<longrightarrow> ids ! p < a \<and> ids' ! Suc p = ids ! p) \<and>
    (\<forall>p. p \<le> i' \<or> Suc i < p \<longrightarrow> ids' ! p = ids ! p) \<and>
    (i' = 0 \<or> a \<le> ids ! i') \<and> mset (ids'[Suc i' := a]) = mset (ids[Suc i := a])"
  using assms
proof (induction i arbitrary: ids)
  case 0
  then show ?case by simp
next
  case (Suc i)
  show ?case
  proof (cases "a \<le> ids ! Suc i")
    case True
    with Suc.prems show ?thesis
      by (intro exI[of _ ids] exI[of _ "Suc i"]) simp
  next
    case False
    let ?x = "ids ! Suc i" and ?ids = "ids[Suc (Suc i) := ids ! Suc i]"
    have "Suc i < length ?ids" using Suc.prems by simp
    from Suc.IH[OF this] obtain ids' i' where
      1: "midl_shift ?ids i a = Some (ids', i')" "i' \<le> i" "length ids' = length ids"
      "\<And>p. i' < p \<Longrightarrow> p \<le> i \<Longrightarrow> ?ids ! p < a \<and> ids' ! Suc p = ?ids ! p"
      "\<And>p. p \<le> i' \<or> Suc i < p \<Longrightarrow> ids' ! p = ?ids ! p"
      "i' = 0 \<or> a \<le> ?ids ! i'" "mset (ids'[Suc i' := a]) = mset (?ids[Suc i := a])"
      by (simp only: length_list_update) blast
    have m: "mset (?ids[Suc i := a]) = mset (ids[Suc (Suc i) := a])"
    proof -
      let ?zs = "ids[Suc (Suc i) := a]"
      have "?ids[Suc i := a] = ?zs[Suc i := ?zs ! Suc (Suc i), Suc (Suc i) := ?zs ! Suc i]"
        using Suc.prems by (intro nth_equalityI) (auto simp: nth_list_update)
      then show ?thesis using Suc.prems by (simp only:) (subst mset_swap; simp)
    qed
    show ?thesis
    proof (intro exI conjI allI impI)
      show "midl_shift ids (Suc i) a = Some (ids', i')" using False Suc.prems 1(1) by simp
      show "i' \<le> Suc i" "length ids' = length ids" using 1(2,3) by simp_all
      fix p
      {
        assume "i' < p" "p \<le> Suc i"
        then show "ids ! p < a" "ids' ! Suc p = ids ! p"
          using 1(4)[of p] 1(5)[of "Suc p"] False Suc.prems
          by (auto simp: nth_list_update le_Suc_eq not_le split: if_splits)
      }
      assume "p \<le> i' \<or> Suc (Suc i) < p"
      then show "ids' ! p = ids ! p" using 1(5)[of p] 1(2) by (auto simp: nth_list_update)
    next
      show "i' = 0 \<or> a \<le> ids ! i'" using 1(6) 1(2) by (auto simp: nth_list_update)
      show "mset (ids'[Suc i' := a]) = mset (ids[Suc (Suc i) := a])" using 1(7) m by simp
    qed
  qed
qed

text \<open>Everything to the left of the segment is at least as large as what is in it.\<close>

definition left_bound :: "nat \<Rightarrow> nat \<Rightarrow> u64 list \<Rightarrow> bool" where
  "left_bound l r ids \<longleftrightarrow> (\<forall>p q. 1 \<le> p \<longrightarrow> p < l \<longrightarrow> l \<le> q \<longrightarrow> q \<le> r \<longrightarrow> ids ! q \<le> ids ! p)"

lemma left_boundD: "left_bound l r ids \<Longrightarrow> 1 \<le> p \<Longrightarrow> p < l \<Longrightarrow> l \<le> q \<Longrightarrow> q \<le> r \<Longrightarrow> ids ! q \<le> ids ! p"
  by (simp add: left_bound_def)

lemma left_bound_permuted:
  assumes "left_bound l r ids" "permuted l r ids ids'" "r < length ids"
  shows "left_bound l r ids'"
  unfolding left_bound_def
proof (intro allI impI)
  fix p q assume a: "1 \<le> p" "p < l" "l \<le> q" "q \<le> r"
  have "ids' ! p = ids ! p" using assms(2) a by (simp add: permuted_outside)
  moreover have "ids' ! q \<le> ids ! p"
  proof (rule permuted_all[OF assms(2) _ assms(3)])
    show "ids ! k \<le> ids ! p" if "l \<le> k" "k \<le> r" for k using left_boundD[OF assms(1)] a that by simp
  qed (use a in simp_all)
  ultimately show "ids' ! q \<le> ids' ! p" by simp
qed

lemma insertion_step:
  assumes "1 \<le> l" "l < j" "j \<le> r" "r < length ids" "left_bound l r ids" "descending l (j - 1) ids"
  shows "\<exists>ids1 i ids'. midl_shift ids (j - 1) (ids ! j) = Some (ids1, i) \<and>
    wr ids1 (i + 1) (ids ! j) = Some ids' \<and> permuted l r ids ids' \<and> descending l j ids'"
proof -
  let ?a = "ids ! j"
  have j: "Suc (j - 1) = j" using assms by simp
  from midl_shift_spec[of "j - 1" ids ?a] assms obtain ids1 i where
    1: "midl_shift ids (j - 1) ?a = Some (ids1, i)" "i \<le> j - 1" "length ids1 = length ids"
    "\<And>p. i < p \<Longrightarrow> p \<le> j - 1 \<Longrightarrow> ids ! p < ?a \<and> ids1 ! Suc p = ids ! p"
    "\<And>p. p \<le> i \<or> j < p \<Longrightarrow> ids1 ! p = ids ! p"
    "i = 0 \<or> ?a \<le> ids ! i" "mset (ids1[Suc i := ?a]) = mset (ids[j := ?a])"
    by (auto simp: j)
  have ij: "Suc i \<le> j" using 1(2) assms by simp
  have il: "l - 1 \<le> i"
  proof (rule ccontr)
    assume "\<not> l - 1 \<le> i"
    then have "ids ! (l - 1) < ?a" "1 \<le> l - 1" using 1(4)[of "l - 1"] assms by auto
    with left_boundD[OF assms(5), of "l - 1" j] assms show False by auto
  qed
  let ?ids = "ids1[Suc i := ?a]"
  have nth: "?ids ! p = (if p \<le> i \<or> j < p then ids ! p else if p = Suc i then ?a else ids ! (p - 1))"
    if "p < length ids" for p
    using that ij 1(2,3) 1(4)[of "p - 1"] 1(5)[of p] by (auto simp: nth_list_update)
  have w: "wr ids1 (i + 1) ?a = Some ?ids" using 1(2,3) assms by (simp add: wr_def)
  have p: "permuted l r ids ?ids"
    unfolding permuted_def using 1(2,3,7) il ij assms 1(5)
    by (auto simp: list_update_id)
  have d: "descending l j ?ids"
    unfolding descending_def
  proof (intro allI impI)
    fix p q assume pq: "l \<le> p" "p < q" "q \<le> j"
    have up: "?a \<le> ids ! p" if "p \<le> i"
      using 1(6) that pq assms(1) descendingD_le[OF assms(6), of p i] 1(2) by fastforce
    have "ids ! (q - 1) \<le> ?a" if "i < q - 1" using 1(4)[OF that] pq by (simp add: less_imp_le)
    then show "?ids ! q \<le> ?ids ! p"
      using pq assms(1-4) up 1(2)
        descendingD_le[OF assms(6), of p q] descendingD_le[OF assms(6), of p "q - 1"]
        descendingD_le[OF assms(6), of "p - 1" "q - 1"] il
      by (auto simp: nth[of p] nth[of q])
  qed
  from 1(1) w p d show ?thesis by blast
qed

lemma midl_insertion_spec:
  assumes "1 \<le> l" "l < j" "j \<le> r + 1" "r < length ids" "left_bound l r ids" "descending l (j - 1) ids"
  shows "\<exists>ids'. midl_insertion ids [j..<r + 1] = Some ids' \<and> permuted l r ids ids' \<and> descending l r ids'"
  using assms
proof (induction "r + 1 - j" arbitrary: j ids)
  case 0
  then have "j = r + 1" by simp
  with 0 show ?case by auto
next
  case (Suc n)
  then have "j \<le> r" by simp
  from insertion_step[OF Suc.prems(1,2) this Suc.prems(4-6)] obtain ids1 i ids' where
    1: "midl_shift ids (j - 1) (ids ! j) = Some (ids1, i)" "wr ids1 (i + 1) (ids ! j) = Some ids'"
       "permuted l r ids ids'" "descending l j ids'" by blast
  have "\<exists>zs. midl_insertion ids' [j + 1..<r + 1] = Some zs \<and> permuted l r ids' zs \<and> descending l r zs"
  proof (rule Suc.hyps(1))
    show "left_bound l r ids'" using left_bound_permuted[OF Suc.prems(5) 1(3) Suc.prems(4)] .
    show "r < length ids'" using Suc.prems(4) permuted_length[OF 1(3)] by simp
  qed (use Suc.hyps(2) Suc.prems \<open>j \<le> r\<close> 1(4) in auto)
  then obtain zs where 2: "midl_insertion ids' [j + 1..<r + 1] = Some zs" "permuted l r ids' zs"
    "descending l r zs" by blast
  have "[j..<r + 1] = j # [j + 1..<r + 1]" using \<open>j \<le> r\<close> by (simp add: upt_conv_Cons)
  then have "midl_insertion ids [j..<r + 1] = Some zs"
    using 1 2(1) Suc.prems(4) \<open>j \<le> r\<close> by simp
  with 1(3) 2 show ?case by (meson permuted_trans)
qed



text \<open>The two scans stop at the first element that is not larger (smaller) than the pivot.\<close>

lemma scan_up_spec:
  assumes "i < s" "s < length ids" "ids ! s \<le> a"
  shows "\<exists>i'. scan_up ids i a = Some i' \<and> i < i' \<and> i' \<le> s \<and> ids ! i' \<le> a \<and>
    (\<forall>p. i < p \<longrightarrow> p < i' \<longrightarrow> a < ids ! p)"
  using assms
proof (induction "s - i" arbitrary: i)
  case 0
  then show ?case by simp
next
  case (Suc n)
  show ?case
  proof (cases "a < ids ! Suc i")
    case True
    with Suc.prems have "Suc i < s" by (metis leD le_neq_implies_less Suc_leI)
    with Suc obtain i' where "scan_up ids (Suc i) a = Some i'" "Suc i < i'" "i' \<le> s" "ids ! i' \<le> a"
      "\<forall>p. Suc i < p \<longrightarrow> p < i' \<longrightarrow> a < ids ! p"
      by (metis Suc_diff_Suc diff_Suc_1 Suc_lessD)
    moreover have "scan_up ids i a = scan_up ids (Suc i) a"
      using True Suc.prems by (subst scan_up.simps) simp
    moreover have "\<forall>p. i < p \<longrightarrow> p < i' \<longrightarrow> a < ids ! p"
      using True calculation(5) by (metis Suc_lessI)
    ultimately show ?thesis by (metis Suc_lessD)
  next
    case False
    moreover have "scan_up ids i a = Some (Suc i)"
      using False Suc.prems by (subst scan_up.simps) simp
    ultimately show ?thesis using Suc.prems by (auto simp: not_less)
  qed
qed

lemma scan_down_spec:
  assumes "s < j" "j \<le> length ids" "a \<le> ids ! s"
  shows "\<exists>j'. scan_down ids j a = Some j' \<and> j' < j \<and> s \<le> j' \<and> a \<le> ids ! j' \<and>
    (\<forall>p. j' < p \<longrightarrow> p < j \<longrightarrow> ids ! p < a)"
  using assms
proof (induction j)
  case (Suc j)
  show ?case
  proof (cases "ids ! j < a")
    case True
    then have "s \<noteq> j" using Suc.prems(3) by auto
    with Suc.prems(1) have "s < j" by simp
    have "j \<le> length ids" using Suc.prems by simp
    from Suc.IH[OF \<open>s < j\<close> this Suc.prems(3)] obtain j' where
      1: "scan_down ids j a = Some j'" "j' < j" "s \<le> j'" "a \<le> ids ! j'"
      "\<forall>p. j' < p \<longrightarrow> p < j \<longrightarrow> ids ! p < a" by blast
    have "scan_down ids (Suc j) a = Some j'" using 1(1) True Suc.prems(2) by simp
    with 1 True show ?thesis by (auto simp: less_Suc_eq)
  next
    case False
    then have "scan_down ids (Suc j) a = Some j" using Suc.prems(2) by simp
    with False Suc.prems(1) show ?thesis by (auto simp: not_less)
  qed
qed simp

definition around :: "nat \<Rightarrow> nat \<Rightarrow> nat \<Rightarrow> nat \<Rightarrow> u64 \<Rightarrow> u64 list \<Rightarrow> bool" where
  "around l r i j a ids \<longleftrightarrow>
     (\<forall>p. l \<le> p \<longrightarrow> p \<le> i \<longrightarrow> a \<le> ids ! p) \<and> (\<forall>q. j \<le> q \<longrightarrow> q \<le> r \<longrightarrow> ids ! q \<le> a)"

lemma midl_partition_spec:
  assumes "l + 1 \<le> i" "i \<le> j" "j \<le> r" "i < r" "r < length ids" "i < j \<or> l + 2 \<le> i"
    "around l r i j a ids"
  shows "\<exists>ids' i' j'. midl_partition ids i j a = Some (ids', i', j') \<and>
    permuted (l + 2) r ids ids' \<and> j' < i' \<and> l + 1 \<le> j' \<and> i' \<le> r \<and> j' < r \<and>
    (\<forall>p. l \<le> p \<longrightarrow> p < i' \<longrightarrow> a \<le> ids' ! p) \<and> (\<forall>q. j' < q \<longrightarrow> q \<le> r \<longrightarrow> ids' ! q \<le> a)"
  using assms
proof (induction "length ids - i" arbitrary: ids i j rule: less_induct)
  case less
  have "\<exists>s. i < s \<and> s < length ids \<and> ids ! s \<le> a \<and> s \<le> r"
    using less.prems by (intro exI[of _ "max j (Suc i)"]) (auto simp: around_def max_def)
  then obtain s where s: "i < s" "s < length ids" "ids ! s \<le> a" "s \<le> r" by blast
  from scan_up_spec[OF s(1-3)] obtain i' where i': "scan_up ids i a = Some i'" "i < i'" "i' \<le> s"
    "ids ! i' \<le> a" "\<And>p. i < p \<Longrightarrow> p < i' \<Longrightarrow> a < ids ! p" by blast
  have t: "min i (j - 1) < j" "a \<le> ids ! min i (j - 1)"
    using less.prems by (auto simp: around_def)
  from scan_down_spec[OF t(1) _ t(2)] less.prems obtain j' where
    j': "scan_down ids j a = Some j'" "j' < j" "min i (j - 1) \<le> j'" "a \<le> ids ! j'"
    "\<And>p. j' < p \<Longrightarrow> p < j \<Longrightarrow> ids ! p < a" by (meson less_imp_le_nat less_le_trans order_le_less_trans)
  have up: "a \<le> ids ! p" if "l \<le> p" "p < i'" for p
    using that less.prems(7) i'(5)[of p] by (cases "p \<le> i") (auto simp: around_def less_imp_le)
  have down: "ids ! q \<le> a" if "j' < q" "q \<le> r" for q
    using that less.prems(7) j'(5)[of q] by (cases "j \<le> q") (auto simp: around_def less_imp_le)
  show ?case
  proof (cases "j' < i'")
    case True
    have "l + 1 \<le> j'" using j'(3) less.prems(1,2,6) by (auto simp: min_def split: if_splits)
    then show ?thesis
      using True i' j' up down s less.prems
      by (intro exI[of _ ids] exI[of _ i'] exI[of _ j']) (subst midl_partition.simps, auto)
  next
    case False
    let ?ids = "ids[i' := ids ! j', j' := ids ! i']"
    have sw: "swap ids i' j' = Some ?ids" using False i' j' s less.prems by simp
    have perm: "permuted (l + 2) r ids ?ids"
      using False i' j' s less.prems by (intro permuted_swap) auto
    have nth: "?ids ! p = (if p = j' then ids ! i' else if p = i' then ids ! j' else ids ! p)" if "p \<le> r" for p
      using that less.prems(5) by (auto simp: nth_list_update)
    have ar: "around l r i' j' a ?ids"
      unfolding around_def
    proof (intro conjI allI impI)
      fix p assume "l \<le> p" "p \<le> i'"
      then show "a \<le> ?ids ! p" using up[of p] j'(4) i' s False less.prems
        by (auto simp: nth)
    next
      fix q assume "j' \<le> q" "q \<le> r"
      then show "?ids ! q \<le> a" using down[of q] i'(4) False less.prems
        by (auto simp: nth)
    qed
    have "length ?ids - i' < length ids - i" using i' s by auto
    from less.hyps[OF this _ _ _ _ _ _ ar] obtain zs k m where
      r: "midl_partition ?ids i' j' a = Some (zs, k, m)" "permuted (l + 2) r ?ids zs" "m < k" "l + 1 \<le> m"
      "k \<le> r" "m < r" "\<forall>p. l \<le> p \<longrightarrow> p < k \<longrightarrow> a \<le> zs ! p" "\<forall>q. m < q \<longrightarrow> q \<le> r \<longrightarrow> zs ! q \<le> a"
      using False i' j' s less.prems by auto
    have "midl_partition ids i j a = Some (zs, k, m)"
      using i'(1) j'(1) False sw r(1) by (subst midl_partition.simps) simp
    with r perm show ?thesis by (meson permuted_trans)
  qed
qed

lemma swap_less_spec:
  assumes "x < length ids" "y < length ids" "l \<le> x" "x \<le> r" "l \<le> y" "y \<le> r" "x \<noteq> y"
  shows "\<exists>ids'. swap_less ids x y = Some ids' \<and> permuted l r ids ids' \<and> ids' ! y \<le> ids' ! x \<and>
    {ids' ! x, ids' ! y} = {ids ! x, ids ! y} \<and> (\<forall>p. p \<noteq> x \<longrightarrow> p \<noteq> y \<longrightarrow> ids' ! p = ids ! p)"
proof (cases "ids ! x < ids ! y")
  case True
  let ?ids = "ids[x := ids ! y, y := ids ! x]"
  have "swap_less ids x y = Some ?ids" using True assms(1,2) by (simp add: swap_less_def)
  moreover have "?ids ! x = ids ! y" "?ids ! y = ids ! x" "\<forall>p. p \<noteq> x \<longrightarrow> p \<noteq> y \<longrightarrow> ?ids ! p = ids ! p"
    using assms(1,2,7) by (simp_all add: nth_list_update)
  ultimately show ?thesis using permuted_swap[OF assms(1-6)] True
    by (intro exI[of _ ?ids]) (simp add: less_imp_le insert_commute)
next
  case False
  with assms show ?thesis by (intro exI[of _ ids]) (auto simp: swap_less_def)
qed

lemma median_to_front_spec:
  assumes "1 \<le> l" "l + 2 \<le> r" "r < length ids" "r < 2 ^ 30"
  shows "\<exists>ids'. median_to_front ids l r = Some ids' \<and> permuted l r ids ids' \<and>
    ids' ! (l + 1) \<le> ids' ! l \<and> ids' ! r \<le> ids' ! (l + 1)"
proof -
  let ?k = "(l + r) div 2"
  have k: "l \<le> ?k" "?k \<le> r" "?k < length ids" using assms by auto
  define i0 where "i0 = ids[?k := ids ! (l + 1), l + 1 := ids ! ?k]"
  have 0: "swap ids ?k (l + 1) = Some i0" "permuted l r ids i0"
    using k assms permuted_swap[of ?k ids "l + 1" l r] by (auto simp: i0_def)
  have len: "length i0 = length ids" by (simp add: i0_def)
  obtain i1 where 1: "swap_less i0 l r = Some i1" "permuted l r i0 i1" "i1 ! r \<le> i1 ! l"
    "\<forall>p. p \<noteq> l \<longrightarrow> p \<noteq> r \<longrightarrow> i1 ! p = i0 ! p"
    using swap_less_spec[of l i0 r l r] len assms by auto
  have len1: "length i1 = length ids" using 1(2) len by (simp add: permuted_length)
  obtain i2 where 2: "swap_less i1 (l + 1) r = Some i2" "permuted l r i1 i2" "i2 ! r \<le> i2 ! (l + 1)"
    "{i2 ! (l + 1), i2 ! r} = {i1 ! (l + 1), i1 ! r}" "i2 ! l = i1 ! l"
    using swap_less_spec[of "l + 1" i1 r l r] len1 assms by auto
  have len2: "length i2 = length ids" using 2(2) len1 by (simp add: permuted_length)
  obtain i3 where 3: "swap_less i2 l (l + 1) = Some i3" "permuted l r i2 i3" "i3 ! (l + 1) \<le> i3 ! l"
    "{i3 ! l, i3 ! (l + 1)} = {i2 ! l, i2 ! (l + 1)}" "i3 ! r = i2 ! r"
    using swap_less_spec[of l i2 "l + 1" l r] len2 assms by auto
  have "i2 ! r \<le> i1 ! r" using 2(3,4) by (auto simp: doubleton_eq_iff)
  then have "i2 ! r \<le> i2 ! l" using 1(3) 2(5) by simp
  then have "i3 ! r \<le> i3 ! (l + 1)" using 2(3) 3(4,5) by (auto simp: doubleton_eq_iff)
  moreover have "median_to_front ids l r = Some i3"
    using 0(1) 1(1) 2(1) 3(1) assms(2,4) by (simp add: median_to_front_def)
  moreover have "permuted l r ids i3" using 0(2) 1(2) 2(2) 3(2) by (meson permuted_trans)
  ultimately show ?thesis using 3(3) by blast
qed

lemma midl_split_spec:
  assumes "1 \<le> l" "l + 2 \<le> r" "r < length ids" "r < 2 ^ 30"
  shows "\<exists>ids' i j a. midl_split ids l r = Some (ids', i, j) \<and> permuted l r ids ids' \<and>
    j < i \<and> l + 1 \<le> j \<and> i \<le> r \<and> j < r \<and>
    (\<forall>p. l \<le> p \<longrightarrow> p < i \<longrightarrow> a \<le> ids' ! p) \<and> (\<forall>q. j \<le> q \<longrightarrow> q \<le> r \<longrightarrow> ids' ! q \<le> a)"
proof -
  obtain i0 where 0: "median_to_front ids l r = Some i0" "permuted l r ids i0"
    "i0 ! (l + 1) \<le> i0 ! l" "i0 ! r \<le> i0 ! (l + 1)" using median_to_front_spec[OF assms] by blast
  have len: "length i0 = length ids" using 0(2) by (simp add: permuted_length)
  let ?a = "i0 ! (l + 1)"
  have "around l r (l + 1) r ?a i0"
    using 0(3,4) assms by (auto simp: around_def le_Suc_eq)
  from midl_partition_spec[OF _ _ _ _ _ _ this] assms len obtain i1 i j where
    1: "midl_partition i0 (l + 1) r ?a = Some (i1, i, j)" "permuted (l + 2) r i0 i1" "j < i" "l + 1 \<le> j"
       "i \<le> r" "j < r" "\<forall>p. l \<le> p \<longrightarrow> p < i \<longrightarrow> ?a \<le> i1 ! p"
       "\<forall>q. j < q \<longrightarrow> q \<le> r \<longrightarrow> i1 ! q \<le> ?a" by auto
  have len1: "length i1 = length ids" using 1(2) len by (simp add: permuted_length)
  have a: "i1 ! (l + 1) = ?a" using 1(2) by (simp add: permuted_outside)
  let ?ids = "i1[l + 1 := i1 ! j, j := i1 ! (l + 1)]"
  have "permuted l r i1 ?ids" using 1 len1 assms by (intro permuted_swap) auto
  then have p: "permuted l r ids ?ids"
    using 0(2) permuted_mono[OF 1(2), of l r] by (meson permuted_trans le_add1 order_refl)
  have "midl_split ids l r = Some (?ids, i, j)"
    using 0(1) 1 len len1 a assms by (simp add: midl_split_def)
  moreover have "\<forall>p. l \<le> p \<longrightarrow> p < i \<longrightarrow> ?a \<le> ?ids ! p"
    using 1 len1 a assms by (auto simp: nth_list_update)
  moreover have "\<forall>q. j \<le> q \<longrightarrow> q \<le> r \<longrightarrow> ?ids ! q \<le> ?a"
    using 1 len1 a assms by (auto simp: nth_list_update)
  ultimately show ?thesis using 1 p by blast
qed



text \<open>
  \<open>ids\<close> is cut: what is left of \<open>i\<close> is at least the pivot, what is right of \<open>j\<close> at most. Sorting
  either side keeps that.
\<close>

definition cut :: "nat \<Rightarrow> nat \<Rightarrow> nat \<Rightarrow> nat \<Rightarrow> u64 \<Rightarrow> u64 list \<Rightarrow> bool" where
  "cut l r i j a ids \<longleftrightarrow> j < i \<and> l < j \<and> i \<le> r \<and> r < length ids \<and>
     (\<forall>p. l \<le> p \<longrightarrow> p < i \<longrightarrow> a \<le> ids ! p) \<and> (\<forall>q. j \<le> q \<longrightarrow> q \<le> r \<longrightarrow> ids ! q \<le> a)"

lemma cut_left:
  assumes c: "cut l r i j a ids" and p: "permuted l (j - 1) ids ids'"
  shows "cut l r i j a ids'"
proof -
  have "a \<le> ids' ! q" if "l \<le> q" "q < i" for q
  proof (cases "q < j")
    case True
    have "\<And>k. l \<le> k \<Longrightarrow> k \<le> j - 1 \<Longrightarrow> a \<le> ids ! k" using c by (auto simp: cut_def)
    from permuted_all[where P = "\<lambda>x. a \<le> x", OF p this, of q] show ?thesis using True that c by (auto simp: cut_def)
  next
    case False
    then show ?thesis using that c permuted_outside[OF p, of q] by (auto simp: cut_def)
  qed
  moreover have "ids' ! q = ids ! q" if "j \<le> q" for q
    using that c permuted_outside[OF p, of q] by (auto simp: cut_def)
  ultimately show ?thesis using c permuted_length[OF p] by (auto simp: cut_def)
qed

lemma cut_right:
  assumes c: "cut l r i j a ids" and p: "permuted i r ids ids'"
  shows "cut l r i j a ids'"
proof -
  have "ids' ! q \<le> a" if "j \<le> q" "q \<le> r" for q
  proof (cases "i \<le> q")
    case True
    have "\<And>k. i \<le> k \<Longrightarrow> k \<le> r \<Longrightarrow> ids ! k \<le> a" using c by (auto simp: cut_def)
    from permuted_all[where P = "\<lambda>x. x \<le> a", OF p this, of q] show ?thesis using True that c by (auto simp: cut_def)
  next
    case False
    then show ?thesis using that c permuted_outside[OF p, of q] by (auto simp: cut_def)
  qed
  moreover have "ids' ! q = ids ! q" if "q < i" for q
    using that permuted_outside[OF p, of q] by auto
  ultimately show ?thesis using c permuted_length[OF p] by (auto simp: cut_def)
qed

lemma cut_descending:
  assumes "cut l r i j a ids" "descending l (j - 1) ids" "descending i r ids"
  shows "descending l r ids"
  unfolding descending_def
proof (intro allI impI)
  fix p q assume pq: "l \<le> p" "p < q" "q \<le> r"
  consider "q < j" | "i \<le> p" | "p < i" "j \<le> q" by linarith
  then show "ids ! q \<le> ids ! p"
  proof cases
    case 1
    with pq show ?thesis by (intro descendingD[OF assms(2)]) auto
  next
    case 2
    with pq show ?thesis by (intro descendingD[OF assms(3)]) auto
  next
    case 3
    with pq assms(1) have "ids ! q \<le> a" "a \<le> ids ! p" by (auto simp: cut_def)
    then show ?thesis by simp
  qed
qed

lemma cut_left_bound:
  assumes "cut l r i j a ids" "left_bound l r ids"
  shows "left_bound l (j - 1) ids" "left_bound i r ids"
proof -
  show "left_bound l (j - 1) ids"
    using assms by (auto simp: left_bound_def cut_def)
  show "left_bound i r ids"
    unfolding left_bound_def
  proof (intro allI impI)
    fix p q assume a: "1 \<le> p" "p < i" "i \<le> q" "q \<le> r"
    show "ids ! q \<le> ids ! p"
    proof (cases "p < l")
      case True
      with a assms show ?thesis by (intro left_boundD[OF assms(2)]) (auto simp: cut_def)
    next
      case False
      with a assms(1) have "ids ! q \<le> a" "a \<le> ids ! p" by (auto simp: cut_def)
      then show ?thesis by simp
    qed
  qed
qed

lemma descending_outside:
  assumes "descending l r xs" "permuted l' r' xs ys" "r < l' \<or> r' < l"
  shows "descending l r ys"
  unfolding descending_def
proof (intro allI impI)
  fix p q assume pq: "l \<le> p" "p < q" "q \<le> r"
  then have "ys ! p = xs ! p" "ys ! q = xs ! q"
    using assms(3) by (auto intro!: permuted_outside[OF assms(2)])
  then show "ys ! q \<le> ys ! p" using descendingD[OF assms(1) pq] by simp
qed

definition pop_segment :: "u64 list \<Rightarrow> (nat \<times> nat) list \<Rightarrow> u64 list option" where
  "pop_segment ids st = (case st of [] \<Rightarrow> Some ids | (l, ir) # st' \<Rightarrow> midl_sort_loop ids l ir st')"

text \<open>
  The segment on top of the stack is sorted before anything below it is touched, and the stack does
  not overflow because the smaller part is always sorted first.
\<close>

lemma midl_sort_loop_spec:
  assumes "1 \<le> l" "l \<le> Suc r" "r < length ids" "left_bound l r ids"
    "(Suc r - l) * 2 ^ length st < 2 ^ 31" "r < 2 ^ 30"
  shows "\<exists>ids'. midl_sort_loop ids l r st = pop_segment ids' st \<and> permuted l r ids ids' \<and>
    descending l r ids'"
  using assms
proof (induction "Suc r - l" arbitrary: ids l r st rule: less_induct)
  case less
  show ?case
  proof (cases "r < l + SMALL")
    case True
    have "\<exists>ids'. midl_insertion ids [l + 1..<r + 1] = Some ids' \<and> permuted l r ids ids' \<and>
      descending l r ids'"
    proof (cases "l \<le> r")
      case True
      with less.prems show ?thesis
        by (intro midl_insertion_spec) (auto simp: descending_def)
    next
      case False
      then show ?thesis by (intro exI[of _ ids]) (auto simp: descending_def)
    qed
    then obtain ids' where "midl_insertion ids [l + 1..<r + 1] = Some ids'" "permuted l r ids ids'"
      "descending l r ids'" by blast
    with True show ?thesis
      by (subst midl_sort_loop.simps) (auto simp: pop_segment_def)
  next
    case False
    then have big: "l + 8 \<le> r" by (simp add: SMALL_def)
    then have "l + 2 \<le> r" by simp
    from midl_split_spec[OF less.prems(1) this less.prems(3,6)] obtain ids1 i j a where
      sp: "midl_split ids l r = Some (ids1, i, j)" "permuted l r ids ids1" "j < i" "l + 1 \<le> j" "i \<le> r"
        "\<forall>p. l \<le> p \<longrightarrow> p < i \<longrightarrow> a \<le> ids1 ! p" "\<forall>q. j \<le> q \<longrightarrow> q \<le> r \<longrightarrow> ids1 ! q \<le> a" by blast
    have c1: "cut l r i j a ids1"
      using sp less.prems(3) permuted_length[OF sp(2)] by (auto simp: cut_def)
    have len1: "j - 1 < length ids1" "r < length ids1" using c1 by (auto simp: cut_def)
    have lb1: "left_bound l r ids1" using left_bound_permuted[OF less.prems(4) sp(2) less.prems(3)] .
    have lbs: "left_bound l (j - 1) zs" "left_bound i r zs" if "cut l r i j a zs" "permuted l r ids1 zs" for zs
    proof -
      have "r < length ids1" using c1 by (simp add: cut_def)
      from cut_left_bound[OF that(1) left_bound_permuted[OF lb1 that(2) this]]
      show "left_bound l (j - 1) zs" "left_bound i r zs" .
    qed
    have sizes: "Suc (j - 1) - l < Suc r - l" "Suc r - i < Suc r - l"
      "1 \<le> i" "l \<le> Suc (j - 1)" "i \<le> Suc r" "j - 1 < 2 ^ 30" using sp(3-5) big less.prems(1,6) by auto
    have "9 * 2 ^ length st \<le> (Suc r - l) * 2 ^ length st" using big by (intro mult_right_mono) auto
    then have "9 * 2 ^ length st < (2 :: nat) ^ 31" using less.prems(5) by (rule le_less_trans)
    then have "2 ^ length st < (2 :: nat) ^ 28" by simp
    then have "length st < 28" by (rule power_less_imp_less_exp [rotated]) simp
    then have room: "length st < istack_room" by (simp add: istack_room_def)
    have part: "(s :: nat) * 2 ^ length st < 2 ^ 31" if "s \<le> Suc r - l" for s
      using that less.prems(5) by (meson le_less_trans mult_le_mono1)
    have half: "(s :: nat) * 2 ^ Suc (length st) < 2 ^ 31" if "2 * s \<le> Suc r - l" for s
      using part[OF that] by simp
    have outL: "permuted l r zs zs'" if "permuted l (j - 1) zs zs'" for zs zs' :: "u64 list"
      using that sp(3-5) by (auto intro: permuted_mono)
    have outR: "permuted l r zs zs'" if "permuted i r zs zs'" for zs zs' :: "u64 list"
      using that sp(3-5) by (auto intro: permuted_mono)
    show ?thesis
    proof (cases "int j - int l \<le> int r - int i + 1")
      case True
      from True sp(3-5) have "2 * (Suc (j - 1) - l) \<le> Suc r - l" by auto
      from half[OF this] have "(Suc (j - 1) - l) * 2 ^ length ((i, r) # st) < 2 ^ 31" by (simp only: length_Cons)
      from less.hyps[OF sizes(1) less.prems(1) sizes(4) len1(1) lbs(1)[OF c1 permuted_refl] this sizes(6)] obtain ids2
        where 2: "midl_sort_loop ids1 l (j - 1) ((i, r) # st) = midl_sort_loop ids2 i r st"
          "permuted l (j - 1) ids1 ids2" "descending l (j - 1) ids2"
        by (auto simp: pop_segment_def)
      have c2: "cut l r i j a ids2" using cut_left[OF c1 2(2)] .
      have "r < length ids2" using c2 by (simp add: cut_def)
      from less.hyps[OF sizes(2,3,5) this lbs(2)[OF c2 outL[OF 2(2)]] part less.prems(6)] obtain ids3
        where 3: "midl_sort_loop ids2 i r st = pop_segment ids3 st" "permuted i r ids2 ids3"
          "descending i r ids3" using sizes by auto
      have "descending l (j - 1) ids3"
        using descending_outside[OF 2(3) 3(2)] sp(3) by (metis less_imp_diff_less)
      with cut_descending[OF cut_right[OF c2 3(2)]] 3(3) have "descending l r ids3" by simp
      moreover have "permuted l r ids ids3"
        using sp(2) outL[OF 2(2)] outR[OF 3(2)] by (meson permuted_trans)
      moreover have "midl_sort_loop ids l r st = pop_segment ids3 st"
        using False True sp(1) room 2(1) 3(1)
        by (subst midl_sort_loop.simps) (simp add: push_segment_def)
      ultimately show ?thesis by blast
    next
      case no: False
      from no sp(3-5) have "2 * (Suc r - i) \<le> Suc r - l" by auto
      from half[OF this] have "(Suc r - i) * 2 ^ length ((l, j - 1) # st) < 2 ^ 31" by (simp only: length_Cons)
      from less.hyps[OF sizes(2,3,5) len1(2) lbs(2)[OF c1 permuted_refl] this less.prems(6)] obtain ids2
        where 2: "midl_sort_loop ids1 i r ((l, j - 1) # st) = midl_sort_loop ids2 l (j - 1) st"
          "permuted i r ids1 ids2" "descending i r ids2"
        by (auto simp: pop_segment_def)
      have c2: "cut l r i j a ids2" using cut_right[OF c1 2(2)] .
      have "j - 1 < length ids2" using c2 by (auto simp: cut_def)
      from less.hyps[OF sizes(1) less.prems(1) sizes(4) this lbs(1)[OF c2 outR[OF 2(2)]] part sizes(6)] obtain ids3
        where 3: "midl_sort_loop ids2 l (j - 1) st = pop_segment ids3 st" "permuted l (j - 1) ids2 ids3"
          "descending l (j - 1) ids3" using sizes by auto
      have "descending i r ids3"
        using descending_outside[OF 2(3) 3(2)] sp(3) by (metis less_imp_diff_less)
      with cut_descending[OF cut_left[OF c2 3(2)] 3(3)] have "descending l r ids3" by simp
      moreover have "permuted l r ids ids3"
        using sp(2) outR[OF 2(2)] outL[OF 3(2)] by (meson permuted_trans)
      moreover have "midl_sort_loop ids l r st = pop_segment ids3 st"
        using False no sp(1) room 2(1) 3(1)
        by (subst midl_sort_loop.simps) (simp add: push_segment_def)
      ultimately show ?thesis by blast
    qed
  qed
qed

section \<open>The entries of a list\<close>

definition idl_members :: "u64 list \<Rightarrow> u64 list" where
  "idl_members ids = take (idl_count ids) (tl ids)"

text \<open>An ID list in a block that has room for it.\<close>

definition idl_ok :: "u64 list \<Rightarrow> bool" where
  "idl_ok ids \<longleftrightarrow> idl_count ids < length ids \<and> idl_count ids < 2 ^ 31"

lemma idl_split:
  assumes "idl_count ids < length ids"
  shows "ids = ids ! 0 # idl_members ids @ drop (Suc (idl_count ids)) ids"
  using assms by (cases ids) (auto simp: idl_members_def)

lemma idl_member_nth:
  assumes "idl_count ids < length ids" "i < idl_count ids"
  shows "idl_members ids ! i = ids ! Suc i"
  using assms by (cases ids) (auto simp: idl_members_def)

lemma length_idl_members: "idl_count ids < length ids \<Longrightarrow> length (idl_members ids) = idl_count ids"
  by (cases ids) (auto simp: idl_members_def)

lemma idl_members_descending:
  assumes "idl_count ids < length ids"
  shows "sorted_wrt (\<ge>) (idl_members ids) \<longleftrightarrow> descending 1 (idl_count ids) ids"
proof
  assume "sorted_wrt (\<ge>) (idl_members ids)"
  then have *: "\<And>p q. p < q \<Longrightarrow> q < idl_count ids \<Longrightarrow> ids ! Suc q \<le> ids ! Suc p"
    using assms by (simp add: sorted_wrt_iff_nth_less length_idl_members idl_member_nth)
  show "descending 1 (idl_count ids) ids"
    unfolding descending_def
  proof (intro allI impI)
    fix p q assume "1 \<le> p" "p < q" "q \<le> idl_count ids"
    then show "ids ! q \<le> ids ! p" using *[of "p - 1" "q - 1"] by simp
  qed
next
  assume "descending 1 (idl_count ids) ids"
  then show "sorted_wrt (\<ge>) (idl_members ids)"
    using assms by (auto simp: sorted_wrt_iff_nth_less length_idl_members idl_member_nth descending_def)
qed

lemma int_of_count:
  assumes "idl_count ids < 2 ^ 31"
  shows "sint (ucast (ids ! 0) :: u32) = int (idl_count ids)"
proof -
  have "unat (ucast (ids ! 0) :: u32) = idl_count ids"
    using assms by (simp add: idl_count_def unsigned_ucast_eq take_bit_nat_eq_self_iff)
  then have "(ucast (ids ! 0) :: u32) = of_nat (idl_count ids)" by (metis of_nat_unat ucast_id)
  then show ?thesis
    using assms signed_take_bit_int_eq_self[of 31 "int (idl_count ids)"]
      sint_sbintrunc'[of "int (idl_count ids)", where 'a = 32] by simp
qed

text \<open>The bound is needed: with \<open>2 ^ 31 - 1\<close> ids the sum \<open>l + ir\<close> of the first round overflows.\<close>

lemma midl_sort_overflows:
  assumes "ids \<noteq> []" "idl_count ids = 2 ^ 31 - 1"
  shows "mdb_midl_sort ids = None"
proof -
  have c: "idl_count ids < 2 ^ 31" using assms(2) by simp
  have "midl_split ids 1 (2 ^ 31 - 1) = None" by (simp add: midl_split_def median_to_front_def)
  then have "midl_sort_loop ids 1 (2 ^ 31 - 1) [] = None" by (subst midl_sort_loop.simps) (simp add: SMALL_def)
  then show ?thesis using assms by (simp add: mdb_midl_sort_def int_of_count[OF c] rd_def)
qed

lemma midl_sort_members:
  assumes "idl_ok ids" "idl_count ids < 2 ^ 30"
  shows "\<exists>ids'. mdb_midl_sort ids = Some ids' \<and> idl_count ids' = idl_count ids \<and>
    sorted_wrt (\<ge>) (idl_members ids') \<and> mset (idl_members ids') = mset (idl_members ids) \<and>
    drop (Suc (idl_count ids)) ids' = drop (Suc (idl_count ids)) ids"
proof -
  let ?n = "idl_count ids"
  from assms have n: "?n < length ids" "?n < 2 ^ 31" "0 < length ids" "?n < 2 ^ 30" by (auto simp: idl_ok_def)
  have ir: "sint (ucast (ids ! 0) :: u32) = int ?n" using n(2) by (rule int_of_count)
  have "left_bound 1 ?n ids" by (simp add: left_bound_def)
  from midl_sort_loop_spec[of 1 ?n ids "[]"] this n obtain ids' where
    1: "midl_sort_loop ids 1 ?n [] = Some ids'" "permuted 1 ?n ids ids'" "descending 1 ?n ids'"
    by (auto simp: pop_segment_def)
  have 0: "ids' ! 0 = ids ! 0" using 1(2) by (simp add: permuted_outside)
  then have c: "idl_count ids' = ?n" by (simp add: idl_count_def)
  have len: "length ids' = length ids" using 1(2) by (rule permuted_length)
  have d: "drop (Suc ?n) ids' = drop (Suc ?n) ids"
    using len 1(2) by (intro nth_equalityI) (auto simp: permuted_outside)
  have "mset ids' = mset ids" using 1(2) by (simp add: permuted_def)
  then have "mset (ids' ! 0 # idl_members ids' @ drop (Suc ?n) ids') =
             mset (ids ! 0 # idl_members ids @ drop (Suc ?n) ids)"
    using idl_split[of ids'] idl_split[of ids] c len n by metis
  then have "mset (idl_members ids') = mset (idl_members ids)" by (simp add: 0 d)
  moreover have "mdb_midl_sort ids = Some ids'"
    using 1(1) n ir by (simp add: mdb_midl_sort_def)
  moreover have "sorted_wrt (\<ge>) (idl_members ids')"
    using 1(3) c len n by (simp add: idl_members_descending)
  ultimately show ?thesis using c d by blast
qed




section \<open>Merging is correct\<close>

lemma wr_append: "i = length xs \<Longrightarrow> wr (xs @ y # ys) i v = Some (xs @ v # ys)"
  by (simp add: wr_def)

text \<open>What the merge computes, on ascending lists.\<close>

fun asc_merge :: "u64 list \<Rightarrow> u64 list \<Rightarrow> u64 list" where
  "asc_merge A [] = A"
| "asc_merge A (m # M) = takeWhile (\<lambda>a. a < m) A @ m # asc_merge (dropWhile (\<lambda>a. a < m) A) M"

lemma mset_asc_merge: "mset (asc_merge A M) = mset A + mset M"
proof (induction A M rule: asc_merge.induct)
  case (2 A m M)
  have "mset (takeWhile (\<lambda>a. a < m) A) + mset (dropWhile (\<lambda>a. a < m) A) = mset A"
    by (metis mset_append takeWhile_dropWhile_id)
  with 2 show ?case by (simp add: add.assoc [symmetric])
qed simp

lemma set_asc_merge: "set (asc_merge A M) = set A \<union> set M"
  using mset_asc_merge[of A M] by (metis set_mset_mset set_mset_union)

lemma dropWhile_at_least:
  "sorted A \<Longrightarrow> x \<in> set (dropWhile (\<lambda>a. a < m) A) \<Longrightarrow> (m :: u64) \<le> x"
  by (induction A) (auto split: if_splits simp: not_less)

lemma sorted_asc_merge: "sorted A \<Longrightarrow> sorted M \<Longrightarrow> sorted (asc_merge A M)"
proof (induction A M rule: asc_merge.induct)
  case (2 A m M)
  have "sorted (takeWhile (\<lambda>a. a < m) A)" "sorted (dropWhile (\<lambda>a. a < m) A)"
    using 2(2) by (auto intro: sorted_takeWhile sorted_dropWhile)
  moreover have "m \<le> x" if "x \<in> set (asc_merge (dropWhile (\<lambda>a. a < m) A) M)" for x
    using that 2(2,3) by (auto simp: set_asc_merge dropWhile_at_least)
  moreover have "x < m" if "x \<in> set (takeWhile (\<lambda>a. a < m) A)" for x
    using that by (auto dest: set_takeWhileD)
  ultimately show ?case using 2
    by (simp add: sorted_append) (meson less_imp_le order_less_imp_le order_trans)
qed simp

text \<open>
  During the merge the block is the delimiter, the rest of the list, as many free cells as there are
  ids left to merge, and the output.
\<close>

lemma xmerge_shift_spec:
  assumes "idl = - 1 # rev A @ gap @ out" "gap \<noteq> []"
  shows "\<exists>gap'. length gap' = length gap \<and>
    xmerge_shift idl (length A) (length A + length gap) (hd (A @ [- 1])) m =
      Some (- 1 # rev (dropWhile (\<lambda>a. a < m) A) @ gap' @ rev (takeWhile (\<lambda>a. a < m) A) @ out,
        length (dropWhile (\<lambda>a. a < m) A), length (dropWhile (\<lambda>a. a < m) A) + length gap,
        hd (dropWhile (\<lambda>a. a < m) A @ [- 1]))"
  using assms
proof (induction A arbitrary: idl gap out)
  case Nil
  have "\<not> (- 1 :: u64) < m" using word_n1_ge[of m] by (simp only: not_less)
  with Nil show ?case
    by (intro exI[of _ gap]) (subst xmerge_shift.simps, auto)
next
  case (Cons a A)
  show ?case
  proof (cases "a < m")
    case True
    obtain g z where g: "gap = g @ [z]" using Cons.prems(2) by (metis rev_exhaust)
    let ?idl = "- 1 # rev A @ (a # g) @ a # out"
    have w: "wr idl (length (a # A) + length gap) a = Some ?idl"
      using Cons.prems(1) g by (simp add: wr_def list_update_append nth_append)
    have r: "rd ?idl (length A) = Some (hd (A @ [- 1]))"
      by (cases A) (simp_all add: rd_def nth_append nth_Cons')
    from Cons.IH[OF refl, of "a # g" "a # out"] obtain gap' where
      IH: "length gap' = length gap" "xmerge_shift ?idl (length A) (length A + length gap) (hd (A @ [- 1])) m =
      Some (- 1 # rev (dropWhile (\<lambda>a. a < m) A) @ gap' @ rev (takeWhile (\<lambda>a. a < m) A) @ a # out,
        length (dropWhile (\<lambda>a. a < m) A), length (dropWhile (\<lambda>a. a < m) A) + length gap,
        hd (dropWhile (\<lambda>a. a < m) A @ [- 1]))" using g by auto
    show ?thesis
      using True w r IH by (intro exI[of _ gap'], subst xmerge_shift.simps) (simp add: add.commute)
  next
    case False
    with Cons.prems show ?thesis
      by (intro exI[of _ gap]) (subst xmerge_shift.simps, auto)
  qed
qed

lemma xmerge_loop_spec:
  assumes "idl = - 1 # rev A @ gap @ out" "merge = c # rev M @ rest" "length gap = length M"
  shows "xmerge_loop idl merge (length M) (length A) (length A + length M) (hd (A @ [- 1])) =
    Some (- 1 # rev (asc_merge A M) @ out)"
  using assms
proof (induction M arbitrary: idl A gap out rest)
  case Nil
  then show ?case by simp
next
  case (Cons m M)
  have "gap \<noteq> []" using Cons.prems(3) by auto
  let ?D = "dropWhile (\<lambda>a. a < m) A" and ?T = "takeWhile (\<lambda>a. a < m) A"
  from xmerge_shift_spec[OF Cons.prems(1) \<open>gap \<noteq> []\<close>, of m] obtain gap' where
    s: "length gap' = length gap" "xmerge_shift idl (length A) (length A + length gap) (hd (A @ [- 1])) m =
      Some (- 1 # rev ?D @ gap' @ rev ?T @ out, length ?D, length ?D + length gap, hd (?D @ [- 1]))" by blast
  obtain g z where g: "gap' = g @ [z]" using s(1) \<open>gap \<noteq> []\<close> by (metis length_0_conv rev_exhaust)
  have r: "rd merge (Suc (length M)) = Some m"
    using Cons.prems(2) by (simp add: rd_def nth_append)
  have w: "wr (- 1 # rev ?D @ gap' @ rev ?T @ out) (length ?D + length gap) m =
    Some (- 1 # rev ?D @ g @ m # rev ?T @ out)"
  proof -
    have "length (- 1 # rev ?D @ g) = length ?D + length gap" using s(1) g by simp
    from wr_append[OF this [symmetric], of z "rev ?T @ out" m] show ?thesis using g by simp
  qed
  have "merge = c # rev M @ m # rest" using Cons.prems(2) by simp
  from Cons.IH[where A = ?D and gap = g and out = "m # rev ?T @ out", OF refl this] have
    "xmerge_loop (- 1 # rev ?D @ g @ m # rev ?T @ out) merge (length M) (length ?D)
      (length ?D + length M) (hd (?D @ [- 1])) = Some (- 1 # rev (asc_merge ?D M) @ m # rev ?T @ out)"
    using s(1) g Cons.prems(3) by simp
  then show ?case
    using s(2) r w Cons.prems(3) by simp
qed

lemma midl_xmerge_members:
  assumes "idl_ok idl" "idl_ok merge" "idl_count idl + idl_count merge < length idl"
    "idl_count idl + idl_count merge < 2 ^ 31"
    "sorted_wrt (\<ge>) (idl_members idl)" "sorted_wrt (\<ge>) (idl_members merge)"
  shows "\<exists>idl'. mdb_midl_xmerge idl merge = Some idl' \<and>
    idl_count idl' = idl_count idl + idl_count merge \<and> sorted_wrt (\<ge>) (idl_members idl') \<and>
    mset (idl_members idl') = mset (idl_members idl) + mset (idl_members merge) \<and>
    drop (Suc (idl_count idl')) idl' = drop (Suc (idl_count idl')) idl"
proof -
  let ?n = "idl_count idl" and ?m = "idl_count merge"
  define A where "A = rev (idl_members idl)"
  define M where "M = rev (idl_members merge)"
  have c: "?n < length idl" "?m < length merge" using assms(1,2) by (auto simp: idl_ok_def)
  then have ne: "idl \<noteq> []" "merge \<noteq> []" by auto
  have lA: "length A = ?n" and lM: "length M = ?m"
    using c by (simp_all add: A_def M_def length_idl_members)
  define gap where "gap = take ?m (drop (Suc ?n) idl)"
  define out where "out = drop (Suc (?n + ?m)) idl"
  have dr: "drop (Suc ?n) idl = gap @ out"
    using append_take_drop_id[of ?m "drop (Suc ?n) idl"] by (simp add: gap_def out_def add.commute)
  have idl: "idl = idl ! 0 # rev A @ gap @ out"
    using idl_split[OF c(1)] unfolding A_def dr rev_rev_ident .
  have lg: "length gap = length M" using assms(3) lM by (simp add: gap_def)
  have mg: "merge = merge ! 0 # rev M @ drop (Suc ?m) merge"
    using idl_split[OF c(2)] unfolding M_def by simp
  let ?idl = "- 1 # rev A @ gap @ out"
  have "wr (idl ! 0 # rev A @ gap @ out) 0 (- 1) = Some ?idl" by (simp add: wr_def)
  then have w: "wr idl 0 (- 1) = Some ?idl" by (simp only: idl [symmetric])
  have r: "rd ?idl (length A) = Some (hd (A @ [- 1]))"
    by (cases A) (simp_all add: rd_def nth_append nth_Cons')
  have "xmerge_loop ?idl merge (length M) (length A) (length A + length M) (hd (A @ [- 1])) =
    Some (- 1 # rev (asc_merge A M) @ out)" by (rule xmerge_loop_spec[OF refl mg lg])
  then have res: "mdb_midl_xmerge idl merge = Some (of_nat (?n + ?m) # rev (asc_merge A M) @ out)"
    using w r lA lM c ne unfolding mdb_midl_xmerge_def idl_count_def
    by (simp add: add.commute rd_def)
  let ?res = "of_nat (?n + ?m) # rev (asc_merge A M) @ out"
  have cnt: "idl_count ?res = ?n + ?m"
    using assms(4) by (simp add: idl_count_def unat_of_nat_small del: of_nat_add)
  have ln: "length (asc_merge A M) = ?n + ?m"
    using arg_cong[OF mset_asc_merge, of size A M] lA lM by simp
  then have mem: "idl_members ?res = rev (asc_merge A M)"
    unfolding idl_members_def cnt by simp
  have "sorted A" "sorted M"
    using assms(5,6) by (simp_all add: A_def M_def sorted_wrt_rev)
  then have "sorted_wrt (\<ge>) (idl_members ?res)"
    unfolding mem by (simp add: sorted_wrt_rev sorted_asc_merge)
  moreover have "mset (idl_members ?res) = mset (idl_members idl) + mset (idl_members merge)"
    unfolding mem by (simp add: mset_asc_merge A_def M_def)
  moreover have "drop (Suc (idl_count ?res)) ?res = drop (Suc (idl_count ?res)) idl"
    unfolding cnt using ln by (simp add: out_def)
  ultimately show ?thesis using res cnt by blast
qed

section \<open>Searching is correct\<close>

text \<open>
  A comparison that is positive on the entries before the wanted position, negative on those behind
  it and zero only in between.
\<close>

definition monotone_cmp :: "nat \<Rightarrow> (nat \<Rightarrow> int option) \<Rightarrow> (nat \<Rightarrow> int) \<Rightarrow> bool" where
  "monotone_cmp n cmp v \<longleftrightarrow>
     (\<forall>p. 1 \<le> p \<longrightarrow> p \<le> n \<longrightarrow> cmp p = Some (v p)) \<and>
     (\<forall>p q. 1 \<le> p \<longrightarrow> p < q \<longrightarrow> q \<le> n \<longrightarrow> (v p < 0 \<longrightarrow> v q < 0) \<and> (0 < v q \<longrightarrow> 0 < v p))"

lemma monotone_cmpD:
  assumes "monotone_cmp n cmp v" "1 \<le> p" "p < q" "q \<le> n"
  shows "v p < 0 \<Longrightarrow> v q < 0" "0 < v q \<Longrightarrow> 0 < v p"
  using assms unfolding monotone_cmp_def by blast+

definition found_at :: "nat \<Rightarrow> (nat \<Rightarrow> int) \<Rightarrow> nat \<Rightarrow> bool" where
  "found_at n v c \<longleftrightarrow> 1 \<le> c \<and> c \<le> n + 1 \<and>
     (if c \<le> n \<and> v c = 0 then True
      else (\<forall>p. 1 \<le> p \<longrightarrow> p < c \<longrightarrow> 0 < v p) \<and> (\<forall>p. c \<le> p \<longrightarrow> p \<le> n \<longrightarrow> v p < 0))"

lemma midl_search_loop_spec:
  assumes "monotone_cmp N cmp v" "base + m \<le> N"
    "\<And>p. 1 \<le> p \<Longrightarrow> p \<le> base \<Longrightarrow> 0 < v p" "\<And>p. base + m < p \<Longrightarrow> p \<le> N \<Longrightarrow> v p < 0"
    "m = 0 \<Longrightarrow> (if 0 < val then cursor + 1 else cursor) = base + 1"
  shows "\<exists>c. midl_search_loop cmp base m cursor val = Some c \<and> found_at N v c"
  using assms(2-)
proof (induction m arbitrary: base cursor val rule: less_induct)
  case (less m)
  show ?case
  proof (cases "m = 0")
    case True
    with less.prems have "found_at N v (base + 1)" by (auto simp: found_at_def)
    with True less.prems(4) show ?thesis by (subst midl_search_loop.simps) simp
  next
    case False
    let ?c = "base + m div 2 + 1"
    have c: "1 \<le> ?c" "?c \<le> base + m" using False by auto
    then have "?c \<le> N" using less.prems(1) by simp
    then have cmp: "cmp ?c = Some (v ?c)" using assms(1) by (simp add: monotone_cmp_def)
    consider "v ?c < 0" | "0 < v ?c" | "v ?c = 0" by linarith
    then show ?thesis
    proof cases
      case 1
      have "\<exists>r. midl_search_loop cmp base (m div 2) ?c (v ?c) = Some r \<and> found_at N v r"
      proof (rule less.IH)
        fix p assume "base + m div 2 < p" "p \<le> N"
        then show "v p < 0" using 1 monotone_cmpD(1)[OF assms(1) c(1), of p] by (cases "p = ?c") auto
      qed (use False less.prems 1 in auto)
      with 1 False cmp show ?thesis by (subst midl_search_loop.simps) (simp add: Let_def)
    next
      case 2
      have "\<exists>r. midl_search_loop cmp ?c (m - (m div 2 + 1)) ?c (v ?c) = Some r \<and> found_at N v r"
      proof (rule less.IH)
        fix p assume "1 \<le> p" "p \<le> ?c"
        then show "0 < v p" using 2 monotone_cmpD(2)[OF assms(1), of p ?c] \<open>?c \<le> N\<close> by (cases "p = ?c") auto
      next
        fix p assume "?c + (m - (m div 2 + 1)) < p" "p \<le> N"
        then show "v p < 0" using less.prems(3)[of p] False by auto
      qed (use False less.prems c 2 in auto)
      with 2 False cmp show ?thesis by (subst midl_search_loop.simps) (simp add: Let_def)
    next
      case 3
      with False cmp \<open>?c \<le> N\<close> show ?thesis
        by (subst midl_search_loop.simps) (simp add: Let_def found_at_def)
    qed
  qed
qed



text \<open>The two searches: on a descending list of ids and on an ascending list of pairs.\<close>

lemma CMP_simps: "CMP x y = 0 \<longleftrightarrow> x = y" "0 < CMP x y \<longleftrightarrow> y < x" "CMP x y < 0 \<longleftrightarrow> x < y"
  by (auto simp: CMP_def)

lemma midl_search_found:
  assumes "idl_ok ids" "sorted_wrt (\<ge>) (idl_members ids)"
  shows "\<exists>c. mdb_midl_search ids x = Some c \<and> 1 \<le> c \<and> c \<le> idl_count ids + 1 \<and>
    (if x \<in> set (idl_members ids) then c \<le> idl_count ids \<and> ids ! c = x
     else (\<forall>y \<in> set (take (c - 1) (idl_members ids)). x < y) \<and>
          (\<forall>y \<in> set (drop (c - 1) (idl_members ids)). y < x))"
proof -
  let ?n = "idl_count ids" and ?ms = "idl_members ids"
  have n: "?n < length ids" "?n < 2 ^ 31" using assms(1) by (auto simp: idl_ok_def)
  then have ne: "ids \<noteq> []" by auto
  have d: "\<And>p q. 1 \<le> p \<Longrightarrow> p < q \<Longrightarrow> q \<le> ?n \<Longrightarrow> ids ! q \<le> ids ! p"
    using assms(2) n by (simp add: idl_members_descending descending_def)
  define cmp where "cmp = (\<lambda>c. do { y \<leftarrow> rd ids c; Some (CMP y x) })"
  have m: "monotone_cmp ?n cmp (\<lambda>p. CMP (ids ! p) x)"
    unfolding monotone_cmp_def
  proof (intro conjI allI impI)
    fix p q assume "1 \<le> p" "p < q" "q \<le> ?n"
    note le = d[OF this]
    show "CMP (ids ! p) x < 0 \<Longrightarrow> CMP (ids ! q) x < 0"
      using le unfolding CMP_simps by simp
    show "0 < CMP (ids ! q) x \<Longrightarrow> 0 < CMP (ids ! p) x"
      using le unfolding CMP_simps by simp
  qed (use n in \<open>auto simp: cmp_def\<close>)
  have cnt: "unat (ucast (ids ! 0) :: u32) = ?n"
    using n(2) by (simp add: idl_count_def unsigned_ucast_eq take_bit_nat_eq_self_iff)
  from midl_search_loop_spec[OF m, of 0 ?n 0 1] obtain c where
    c: "midl_search_loop cmp 0 ?n 1 0 = Some c" "found_at ?n (\<lambda>p. CMP (ids ! p) x) c" by auto
  have s: "mdb_midl_search ids x = Some c"
    using c(1) cnt n ne by (simp add: mdb_midl_search_def cmp_def rd_def)
  have len: "length ?ms = ?n" using n(1) by (rule length_idl_members)
  have nth: "\<And>i. i < ?n \<Longrightarrow> ?ms ! i = ids ! Suc i" using n(1) by (rule idl_member_nth)
  show ?thesis
  proof (cases "c \<le> ?n \<and> ids ! c = x")
    case True
    then have "x = ?ms ! (c - 1)" "c - 1 < length ?ms" using c(2) nth[of "c - 1"] len
      by (auto simp: found_at_def)
    then have "x \<in> set ?ms" by simp
    with s c(2) True show ?thesis by (auto simp: found_at_def)
  next
    case False
    then have *: "\<forall>p. 1 \<le> p \<longrightarrow> p < c \<longrightarrow> x < ids ! p" "\<forall>p. c \<le> p \<longrightarrow> p \<le> ?n \<longrightarrow> ids ! p < x"
      "1 \<le> c" "c \<le> ?n + 1"
      using c(2) unfolding found_at_def CMP_simps by simp_all
    have up: "\<forall>y \<in> set (take (c - 1) ?ms). x < y"
      using *(1,3,4) len nth by (auto simp: in_set_conv_nth)
    have down: "\<forall>y \<in> set (drop (c - 1) ?ms). y < x"
      using *(2,3,4) len nth by (auto simp: in_set_conv_nth)
    have "set ?ms = set (take (c - 1) ?ms) \<union> set (drop (c - 1) ?ms)"
      by (metis append_take_drop_id set_append)
    then have "x \<notin> set ?ms" using up down by auto
    then show ?thesis using s *(3,4) up down by (intro exI[of _ c]) simp
  qed
qed

section \<open>The dirty list is a map\<close>

text \<open>The entries of a list of pairs; the list has the fixed size \<open>MDB_IDL_UM_SIZE\<close>.\<close>

definition mid2l_count :: "'p MDB_ID2 list \<Rightarrow> nat" where
  "mid2l_count ids = unat (mid (ids ! 0))"

definition mid2l_entries :: "'p MDB_ID2 list \<Rightarrow> (u64 \<times> 'p) list" where
  "mid2l_entries ids = map (\<lambda>e. (mid e, mptr e)) (take (mid2l_count ids) (tl ids))"

definition mid2l_ok :: "'p MDB_ID2 list \<Rightarrow> bool" where
  "mid2l_ok ids \<longleftrightarrow> length ids = MDB_IDL_UM_MAX + 1 \<and> mid2l_count ids \<le> MDB_IDL_UM_MAX \<and>
     sorted_wrt (<) (map fst (mid2l_entries ids))"

lemma mid2l_shift_eq:
  assumes "x \<le> n" "n < length ids" "1 \<le> x"
  shows "\<exists>y. mid2l_shift ids n x = Some (take x ids @ y # drop x (take n ids) @ drop (Suc n) ids)"
  using assms
proof (induction n arbitrary: ids)
  case (Suc n)
  show ?case
  proof (cases "x < Suc n")
    case True
    let ?ids = "ids[Suc n := ids ! n]"
    have len: "n < length ids" "Suc n < length ids" using Suc.prems by auto
    obtain y where y: "mid2l_shift ?ids n x = Some (take x ?ids @ y # drop x (take n ?ids) @ drop (Suc n) ?ids)"
      using Suc.IH[of ?ids] True Suc.prems by auto
    have "drop (Suc n) ?ids = ids ! n # drop (Suc (Suc n)) ids"
      using len by (subst Cons_nth_drop_Suc [symmetric]) auto
    moreover have "drop x (take (Suc n) ids) = drop x (take n ids) @ [ids ! n]"
      using len True by (simp add: take_Suc_conv_app_nth)
    ultimately have "take x ?ids @ y # drop x (take n ?ids) @ drop (Suc n) ?ids =
      take x ids @ y # drop x (take (Suc n) ids) @ drop (Suc (Suc n)) ids"
      using True by simp
    with y True len show ?thesis by (auto intro!: exI[of _ y])
  next
    case False
    with Suc.prems have "x = Suc n" by simp
    with Suc.prems show ?thesis
      by (intro exI[of _ "ids ! Suc n"]) (simp add: id_take_nth_drop)
  qed
qed simp

lemma mid2l_search_found:
  assumes "mid2l_ok ids"
  shows "\<exists>c. mdb_mid2l_search ids x = Some c \<and> found_at (mid2l_count ids) (\<lambda>p. CMP x (mid (ids ! p))) c"
proof -
  let ?n = "mid2l_count ids"
  have n: "?n < length ids" "?n < 2 ^ 31" using assms by (auto simp: mid2l_ok_def MDB_IDL_UM_MAX_def)
  then have ne: "ids \<noteq> []" by auto
  have d: "mid (ids ! p) < mid (ids ! q)" if "1 \<le> p" "p < q" "q \<le> ?n" for p q
  proof -
    have "sorted_wrt (<) (map mid (take ?n (tl ids)))"
      using assms by (simp add: mid2l_ok_def mid2l_entries_def comp_def)
    moreover have "length (take ?n (tl ids)) = ?n" using n by simp
    ultimately have "mid (take ?n (tl ids) ! (p - 1)) < mid (take ?n (tl ids) ! (q - 1))"
      using that sorted_wrt_nth_less[of "(<)" "map mid (take ?n (tl ids))" "p - 1" "q - 1"] by simp
    then show ?thesis using that n by (simp add: nth_tl)
  qed
  define cmp where "cmp = (\<lambda>c. do { y \<leftarrow> rd ids c; Some (CMP x (mid y)) })"
  have m: "monotone_cmp ?n cmp (\<lambda>p. CMP x (mid (ids ! p)))"
    unfolding monotone_cmp_def
  proof (intro conjI allI impI)
    fix p q assume "1 \<le> p" "p < q" "q \<le> ?n"
    note le = d[OF this]
    show "CMP x (mid (ids ! p)) < 0 \<Longrightarrow> CMP x (mid (ids ! q)) < 0"
      using le unfolding CMP_simps by simp
    show "0 < CMP x (mid (ids ! q)) \<Longrightarrow> 0 < CMP x (mid (ids ! p))"
      using le unfolding CMP_simps by simp
  qed (use n in \<open>auto simp: cmp_def\<close>)
  have cnt: "unat (ucast (mid (ids ! 0)) :: u32) = ?n"
    using n(2) by (simp add: mid2l_count_def unsigned_ucast_eq take_bit_nat_eq_self_iff)
  from midl_search_loop_spec[OF m, of 0 ?n 0 1] obtain c where
    c: "midl_search_loop cmp 0 ?n 1 0 = Some c" "found_at ?n (\<lambda>p. CMP x (mid (ids ! p))) c" by auto
  then show ?thesis
    using cnt n ne by (intro exI[of _ c]) (simp add: mdb_mid2l_search_def cmp_def rd_def)
qed



lemma mid2l_layout:
  assumes "mid2l_count ids < length ids"
  shows "\<exists>es rest. ids = ids ! 0 # es @ rest \<and> length es = mid2l_count ids \<and>
    mid2l_entries ids = map (\<lambda>e. (mid e, mptr e)) es"
proof (intro exI conjI)
  let ?es = "take (mid2l_count ids) (tl ids)"
  have "ids \<noteq> []" using assms by auto
  then show "ids = ids ! 0 # ?es @ drop (mid2l_count ids) (tl ids)" by (cases ids) simp_all
  show "length ?es = mid2l_count ids" using assms by simp
  show "mid2l_entries ids = map (\<lambda>e. (mid e, mptr e)) ?es" by (simp add: mid2l_entries_def)
qed

lemma mid2l_entries_of:
  "mid h = of_nat (length es) \<Longrightarrow> length es < 2 ^ 31 \<Longrightarrow>
   mid2l_count (h # es @ rest) = length es \<and>
   mid2l_entries (h # es @ rest) = map (\<lambda>e. (mid e, mptr e)) es"
  by (simp add: mid2l_entries_def mid2l_count_def unat_of_nat_small)

text \<open>What happens once the place is known and there is room.\<close>

lemma mid2l_insert_place:
  assumes "ids = h # es @ y # rest" "c \<le> length es" "length es < 2 ^ 30"
  shows "\<exists>ids'. mid2l_shift (ids[0 := h']) (Suc (length es)) (Suc c) = Some ids' \<and>
    wr ids' (Suc c) e = Some (h' # take c es @ e # drop c es @ rest)"
proof -
  let ?ids = "h' # es @ y # rest"
  from mid2l_shift_eq[of "Suc c" "Suc (length es)" ?ids] assms obtain z where
    "mid2l_shift ?ids (Suc (length es)) (Suc c) =
      Some (take (Suc c) ?ids @ z # drop (Suc c) (take (Suc (length es)) ?ids) @ drop (Suc (Suc (length es))) ?ids)"
    by auto
  then have "mid2l_shift (ids[0 := h']) (Suc (length es)) (Suc c) =
    Some ((h' # take c es) @ z # drop c es @ rest)" using assms(1,2) by simp
  moreover have "wr ((h' # take c es) @ z # drop c es @ rest) (Suc c) e =
    Some ((h' # take c es) @ e # drop c es @ rest)"
    using assms(2) by (intro wr_append) simp
  ultimately show ?thesis by auto
qed

lemma map_of_insert_between:
  assumes "x \<notin> fst ` set (as @ bs)"
  shows "map_of (as @ (x, v) # bs) = (map_of (as @ bs))(x \<mapsto> v)"
proof -
  have "x \<notin> dom (map_of as)" using assms by (auto simp: dom_map_of_conv_image_fst)
  then show ?thesis by (auto simp: map_add_def fun_eq_iff dom_def split: option.splits)
qed

lemma sorted_insert_between:
  "sorted_wrt (<) (map f (as @ bs)) \<Longrightarrow> \<forall>y \<in> set as. f y < f e \<Longrightarrow> \<forall>y \<in> set bs. f e < f y \<Longrightarrow>
   sorted_wrt (<) (map f (as @ e # bs) :: 'a::order list)"
  by (auto simp: sorted_wrt_append intro: order_less_trans)

lemma mid2l_insert_map:
  assumes ok: "mid2l_ok ids"
  shows "\<exists>ids' r. mdb_mid2l_insert ids e = Some (ids', r) \<and> mid2l_ok ids' \<and>
    (if mid e \<in> dom (map_of (mid2l_entries ids)) then r = - 1 \<and> ids' = ids
     else if mid2l_count ids = MDB_IDL_UM_MAX then r = - 2 \<and> ids' = ids
     else r = 0 \<and> mid2l_count ids' = mid2l_count ids + 1 \<and>
       map_of (mid2l_entries ids') = (map_of (mid2l_entries ids))(mid e \<mapsto> mptr e))"
proof -
  let ?n = "mid2l_count ids" and ?x = "mid e"
  have n: "?n < length ids" "?n \<le> MDB_IDL_UM_MAX" "?n < 2 ^ 30" "length ids = MDB_IDL_UM_MAX + 1"
    using ok by (auto simp: mid2l_ok_def MDB_IDL_UM_MAX_def)
  then have ne: "ids \<noteq> []" by auto
  from mid2l_layout[OF n(1)] obtain es rest where
    es: "ids = ids ! 0 # es @ rest" "length es = ?n" "mid2l_entries ids = map (\<lambda>e. (mid e, mptr e)) es"
    by blast
  have nth: "ids ! Suc i = es ! i" if "i < ?n" for i
    using that es(1,2) by (metis nth_Cons_Suc nth_append)
  have srt: "sorted_wrt (<) (map mid es)" using ok es(3) by (simp add: mid2l_ok_def comp_def)
  have cnt: "mid (ids ! 0) = of_nat ?n" by (simp add: mid2l_count_def)
  from mid2l_search_found[OF ok, of ?x] obtain c where
    c: "mdb_mid2l_search ids ?x = Some c" "found_at ?n (\<lambda>p. CMP ?x (mid (ids ! p))) c" by blast
  have c1: "1 \<le> c" "c \<le> ?n + 1" using c(2) by (auto simp: found_at_def)
  have le: "of_nat c \<le> mid (ids ! 0) \<longleftrightarrow> c \<le> ?n"
    using c1 n(3) by (simp add: cnt word_le_nat_alt unat_of_nat_small)
  have full: "of_nat MDB_IDL_UM_MAX \<le> mid (ids ! 0) \<longleftrightarrow> ?n = MDB_IDL_UM_MAX"
    using n(2,3) by (auto simp: cnt word_le_nat_alt unat_of_nat_small MDB_IDL_UM_MAX_def)
  have keys: "dom (map_of (mid2l_entries ids)) = mid ` set es"
    by (simp add: es(3) dom_map_of_conv_image_fst image_image)
  show ?thesis
  proof (cases "c \<le> ?n \<and> mid (ids ! c) = ?x")
    case True
    then have "mdb_mid2l_insert ids e = Some (ids, - 1)"
      using c(1) c1 n(1) ne le by (simp add: mdb_mid2l_insert_def rd_def)
    moreover have "?x \<in> mid ` set es"
    proof -
      have k: "c - 1 < ?n" using True c1(1) by linarith
      then have "mid (es ! (c - 1)) = ?x" using True c1(1) nth[OF k] by simp
      moreover have "es ! (c - 1) \<in> set es" using k es(2) by simp
      ultimately show ?thesis by (metis image_eqI)
    qed
    ultimately show ?thesis using ok keys by simp
  next
    case False
    then have lo: "\<forall>p. 1 \<le> p \<longrightarrow> p < c \<longrightarrow> mid (ids ! p) < ?x" and hi: "\<forall>p. c \<le> p \<longrightarrow> p \<le> ?n \<longrightarrow> ?x < mid (ids ! p)"
      using c(2) False unfolding found_at_def CMP_simps by (simp_all add: eq_commute)
    obtain k where k: "c = Suc k" "k \<le> ?n" using c1 by (cases c) auto
    have "mid (es ! i) < ?x" if "i < k" for i
      using lo[rule_format, of "Suc i"] nth[of i] that k by simp
    then have lo': "\<forall>y \<in> set (take k es). mid y < ?x"
      using es(2) k by (auto simp: in_set_conv_nth)
    have "?x < mid (es ! (k + i))" if "k + i < ?n" for i
      using hi[rule_format, of "Suc (k + i)"] nth[of "k + i"] that k by simp
    then have hi': "\<forall>y \<in> set (drop k es). ?x < mid y"
      using es(2) k by (auto simp: in_set_conv_nth)
    have "set es = set (take k es) \<union> set (drop k es)" by (metis append_take_drop_id set_append)
    then have new: "?x \<notin> mid ` set es" using lo' hi' by auto
    show ?thesis
    proof (cases "?n = MDB_IDL_UM_MAX")
      case True
      then have "mdb_mid2l_insert ids e = Some (ids, - 2)"
        using c(1) c1 n(1) ne le full False by (simp add: mdb_mid2l_insert_def rd_def)
      with ok keys new True show ?thesis by simp
    next
      case room: False
      then obtain y rest' where rest: "rest = y # rest'"
      proof (cases rest)
        case Nil
        with es(1) have "length ids = Suc (length es)" by (metis append_Nil2 length_Cons)
        with es(2) n(2,4) room show ?thesis by simp
      qed blast
      let ?h = "(ids ! 0)\<lparr>mid := mid (ids ! 0) + 1\<rparr>"
      have u: "unat (ucast (mid (ids ! 0) + 1) :: u32) = Suc (length es)"
      proof -
        have w: "mid (ids ! 0) + 1 = of_nat (Suc ?n)" by (simp add: cnt)
        have "(ucast (of_nat (Suc ?n) :: u64) :: u32) = of_nat (Suc ?n)"
          using n(3) by (intro ucast_of_nat_small) simp
        moreover have "unat (of_nat (Suc ?n) :: u32) = Suc ?n"
          using n(3) by (intro unat_of_nat_small) simp
        ultimately show ?thesis unfolding w es(2) by simp
      qed
      let ?res = "?h # take k es @ e # drop k es @ rest'"
      from mid2l_insert_place[of ids "ids ! 0" es y rest' k ?h e] es(1,2) rest k(2) n(3) obtain ids' where
        i: "mid2l_shift (ids[0 := ?h]) (Suc (length es)) c = Some ids'" "wr ids' c e = Some ?res"
        by (auto simp: k(1))
      have "mdb_mid2l_insert ids e = Some (?res, 0)"
        using c(1) c1 n(1) ne le full False room i u by (simp add: mdb_mid2l_insert_def rd_def wr_def)
      moreover have "mid ?h = of_nat (length (take k es @ e # drop k es))" by (simp add: cnt es(2) k(2))
      then have ent: "mid2l_count ?res = Suc ?n"
        "mid2l_entries ?res = map (\<lambda>e. (mid e, mptr e)) (take k es @ e # drop k es)"
        using mid2l_entries_of[of ?h "take k es @ e # drop k es" rest'] es(2) k(2) n(3) by simp_all
      moreover have "map_of (mid2l_entries ?res) = (map_of (mid2l_entries ids))(?x \<mapsto> mptr e)"
      proof -
        have "?x \<notin> fst ` set (map (\<lambda>e. (mid e, mptr e)) (take k es) @ map (\<lambda>e. (mid e, mptr e)) (drop k es))"
          using new by (auto dest: in_set_takeD in_set_dropD)
        note ins = map_of_insert_between[OF this, of "mptr e"]
        have "map (\<lambda>e. (mid e, mptr e)) (take k es) @ map (\<lambda>e. (mid e, mptr e)) (drop k es) =
          map (\<lambda>e. (mid e, mptr e)) es" by (metis append_take_drop_id map_append)
        with ins show ?thesis unfolding ent es(3) map_append list.map by (simp only:)
      qed
      moreover have "mid2l_ok ?res"
      proof -
        have "sorted_wrt (<) (map mid (take k es @ e # drop k es))"
          using srt lo' hi' by (intro sorted_insert_between) simp_all
        moreover have "length ?res = length ids"
          using arg_cong[OF es(1), of length] rest k(2) es(2) by simp
        ultimately show ?thesis using ent n room by (simp add: mid2l_ok_def comp_def)
      qed
      ultimately show ?thesis using keys new room by simp
    qed
  qed
qed



section \<open>Appending and growing\<close>

text \<open>The word before the list tells the truth about the block.\<close>

definition midl_ok :: "MDB_IDL \<Rightarrow> bool" where
  "midl_ok m \<longleftrightarrow> length (cells m) = unat (alloclen m) + 1 \<and> idl_count (cells m) \<le> unat (alloclen m)"


lemma length_resize: "length (resize junk xs n) = n"
  by (simp add: resize_def)

lemma nth_resize: "i < length xs \<Longrightarrow> i < n \<Longrightarrow> resize junk xs n ! i = xs ! i"
  by (simp add: resize_def nth_append)

lemma take_resize: "k \<le> length xs \<Longrightarrow> k \<le> n \<Longrightarrow> take k (resize junk xs n) = take k xs"
  by (simp add: resize_def min_def)

lemma resize_members:
  assumes "idl_count xs < length xs" "length xs \<le> n"
  shows "idl_count (resize junk xs n) = idl_count xs"
    "idl_members (resize junk xs n) = idl_members xs"
proof -
  show c: "idl_count (resize junk xs n) = idl_count xs"
  proof -
    have "0 < length xs" "0 < n" using assms by auto
    then show ?thesis by (simp add: idl_count_def nth_resize)
  qed
  show "idl_members (resize junk xs n) = idl_members xs"
  proof -
    have tl: "take k (tl zs) = tl (take (Suc k) zs)" for k and zs :: "u64 list" by (simp add: tl_take)
    show ?thesis
      unfolding idl_members_def c tl using assms by (subst take_resize) simp_all
  qed
qed











lemma unat_ucast_u64: "unat (ucast (w :: u32) :: u64) = unat w"
proof -
  have "unat w < 2 ^ 64" by (rule order.strict_trans2[OF unsigned_less]) simp
  then show ?thesis by (simp add: unsigned_ucast_eq take_bit_nat_eq_self_iff)
qed






lemma and_minus_256: "unat ((w :: u32) AND - 256) + 255 \<ge> unat w"
proof -
  have m: "(- 256 :: u32) = NOT (mask 8)" by (simp add: mask_eq_exp_minus_1 not_eq_complement)
  have "w AND - 256 = push_bit 8 (drop_bit 8 w)"
    unfolding m by (rule bit_word_eqI) (auto simp: bit_simps)
  then have "w = (w AND - 256) + take_bit 8 w" by (simp add: bits_ident)
  then have "unat w \<le> unat (w AND - 256) + unat (take_bit 8 w)" by (metis unat_word_ariths(1) mod_less_eq_dividend)
  moreover have "unat (take_bit 8 w) < 2 ^ 8" by (simp only: unsigned_take_bit_eq) (simp only: take_bit_nat_less_exp)
  ultimately show ?thesis by simp
qed

text \<open>After a successful \<open>mdb_midl_need\<close> there is room for that many more ids.\<close>

lemma midl_need_ok:
  assumes "midl_ok m" "idl_count (cells m) + unat num < 2 ^ 31"
    "mdb_midl_need ok junk m num = (m', st)"
  shows "midl_ok m' \<and> idl_members (cells m') = idl_members (cells m) \<and>
    (case st of MIDL_SUCCESS \<Rightarrow> idl_count (cells m') + unat num \<le> unat (alloclen m') | MIDL_ENOMEM \<Rightarrow> m' = m)"
proof -
  let ?n = "idl_count (cells m)"
  define k where "k = num + ucast (cells m ! 0)"
  have uc: "unat (ucast (cells m ! 0) :: u32) = ?n"
    using assms(2) by (simp add: idl_count_def unsigned_ucast_eq take_bit_nat_eq_self_iff)
  have uk: "unat k = ?n + unat num"
    using assms(2) uc by (simp add: k_def unat_word_ariths)
  have uk64: "unat (ucast k :: u64) = unat k" by (simp add: unat_ucast_u64)
  show ?thesis
  proof (cases "alloclen m < ucast k \<and> ok")
    case True
    let ?s = "midl_need_size k"
    have "unat (k + k div 4 + (256 + 2)) = unat k + unat k div 4 + 258"
      using assms(2) uk by (simp add: unat_word_ariths unat_div_distrib)
    then have s: "unat k + 3 \<le> unat ?s"
      using and_minus_256[of "k + k div 4 + (256 + 2)"] by (simp add: midl_need_size_def)
    have s2: "unat (?s - 2) = unat ?s - 2" using s by (simp add: unat_sub_if_size)
    have m': "m' = \<lparr>alloclen = ucast (?s - 2), cells = resize junk (cells m) (unat ?s - 1)\<rparr>" "st = MIDL_SUCCESS"
      using assms(3) True by (auto simp: mdb_midl_need_def k_def Let_def)
    have al: "unat (alloclen m') = unat ?s - 2" using m' s2 by (simp add: unat_ucast_u64)
    have lt: "idl_count (cells m) < length (cells m)" "length (cells m) \<le> unat ?s - 1"
      using assms(1) True uk64 s by (auto simp: midl_ok_def word_less_nat_alt)
    note rs = resize_members[OF lt, of junk]
    show ?thesis using m' al s uk rs by (auto simp: midl_ok_def length_resize)
  next
    case False
    then show ?thesis
      using assms uk uk64 by (auto simp: mdb_midl_need_def k_def Let_def word_less_nat_alt not_less split: if_splits)
  qed
qed





section \<open>Properties\<close>

text \<open>
  C15: Sorting an ID list of less than \<open>2 ^ 30\<close> ids. Whatever the ids, \<open>mdb_midl_sort\<close> ends, no \<open>int\<close> overflows, it reads and writes only inside the
  block, never overflows its stack of segments, and leaves the same ids, largest first, in front of
  an unchanged rest of the block.
\<close>

theorem midl_sort_correct:
  assumes "idl_ok ids" "idl_count ids < 2 ^ 30"
  shows "\<exists>ids'. mdb_midl_sort ids = Some ids' \<and> idl_count ids' = idl_count ids \<and>
    sorted_wrt (\<ge>) (idl_members ids') \<and> mset (idl_members ids') = mset (idl_members ids) \<and>
    drop (Suc (idl_count ids)) ids' = drop (Suc (idl_count ids)) ids"
  using assms by (rule midl_sort_members)

theorem midl_sort_correct_witness:
  "\<exists>ids'. mdb_midl_sort [11, 3, 9, 4, 4, 8, 1, 12, 2, 0, 7, 30, 99] = Some ids' \<and>
    sorted_wrt (\<ge>) (idl_members ids') \<and>
    mset (idl_members ids') = mset (idl_members [11, 3, 9, 4, 4, 8, 1, 12, 2, 0, 7, 30, 99])"
proof -
  have "idl_ok [11, 3, 9, 4, 4, 8, 1, 12, 2, 0, 7, 30, 99]"
    "idl_count [11, 3, 9, 4, 4, 8, 1, 12, 2, 0, 7, 30, 99] < 2 ^ 30"
    by (simp_all add: idl_ok_def idl_count_def)
  from midl_sort_correct[OF this] show ?thesis by blast
qed

text \<open>
  C28: Merging. Two sorted lists, the first with room for both, are merged in place into one sorted list
  of all their ids; the delimiter in the first word is gone again at the end.
\<close>

theorem midl_xmerge_correct:
  assumes "idl_ok idl" "idl_ok merge" "idl_count idl + idl_count merge < length idl"
    "idl_count idl + idl_count merge < 2 ^ 31"
    "sorted_wrt (\<ge>) (idl_members idl)" "sorted_wrt (\<ge>) (idl_members merge)"
  shows "\<exists>idl'. mdb_midl_xmerge idl merge = Some idl' \<and>
    idl_count idl' = idl_count idl + idl_count merge \<and> sorted_wrt (\<ge>) (idl_members idl') \<and>
    mset (idl_members idl') = mset (idl_members idl) + mset (idl_members merge)"
  using midl_xmerge_members[OF assms] by blast

theorem midl_xmerge_correct_witness:
  "\<exists>idl'. mdb_midl_xmerge [3, 9, 5, 2, 0, 0] [2, 7, 2] = Some idl' \<and> idl_count idl' = 5 \<and>
    sorted_wrt (\<ge>) (idl_members idl')"
proof -
  let ?a = "[3, 9, 5, 2, 0, 0] :: u64 list" and ?b = "[2, 7, 2] :: u64 list"
  have m: "idl_count ?a = 3" "idl_count ?b = 2" "idl_members ?a = [9, 5, 2]" "idl_members ?b = [7, 2]"
    by code_simp+
  have "idl_ok ?a" "idl_ok ?b" by (simp_all add: idl_ok_def m)
  from midl_xmerge_correct[OF this] have "\<exists>idl'. mdb_midl_xmerge ?a ?b = Some idl' \<and> idl_count idl' = 5 \<and>
    sorted_wrt (\<ge>) (idl_members idl') \<and> mset (idl_members idl') = mset (idl_members ?a) + mset (idl_members ?b)"
    by (simp add: m)
  then show ?thesis by blast
qed

text \<open>
  C29: Searching. In a sorted list \<open>mdb_midl_search\<close> returns the position of the id if it is there, and
  otherwise the position where it would have to be inserted: lists are sorted largest first, so this is the position of the first smaller
  id, or the one behind the list, and not of the first id that is greater or equal, as \<open>midl.h\<close> has it.
\<close>

theorem midl_search_correct:
  assumes "idl_ok ids" "sorted_wrt (\<ge>) (idl_members ids)"
  shows "\<exists>c. mdb_midl_search ids x = Some c \<and> 1 \<le> c \<and> c \<le> idl_count ids + 1 \<and>
    (if x \<in> set (idl_members ids) then c \<le> idl_count ids \<and> ids ! c = x
     else (\<forall>y \<in> set (take (c - 1) (idl_members ids)). x < y) \<and>
          (\<forall>y \<in> set (drop (c - 1) (idl_members ids)). y < x))"
  using assms by (rule midl_search_found)

theorem midl_search_correct_witness:
  "(\<exists>c. mdb_midl_search [3, 9, 5, 2] 5 = Some c \<and> [3, 9, 5, 2] ! c = (5 :: u64)) \<and>
   (\<exists>c. mdb_midl_search [3, 9, 5, 2] 6 = Some c \<and> (\<forall>y \<in> set (take (c - 1) [9, 5, 2]). (6 :: u64) < y) \<and> (\<forall>y \<in> set (drop (c - 1) [9, 5, 2]). y < (6 :: u64)))"
proof -
  let ?a = "[3, 9, 5, 2] :: u64 list"
  have m: "idl_count ?a = 3" "idl_members ?a = [9, 5, 2]"
    by code_simp+
  have "idl_ok ?a" "sorted_wrt (\<ge>) (idl_members ?a)" by (simp_all add: idl_ok_def m)
  from midl_search_correct[OF this, of 5] midl_search_correct[OF this, of 6] show ?thesis by (auto simp: m)
qed

text \<open>
  C30: The dirty-page list of a transaction is a map. Inserting a pair into the sorted list of pairs
  stores it under its id, keeps the list sorted, and reports a duplicate (-1) or a full list (-2)
  without changing anything.
\<close>

theorem mid2l_insert_correct:
  assumes "mid2l_ok ids"
  shows "\<exists>ids' r. mdb_mid2l_insert ids e = Some (ids', r) \<and> mid2l_ok ids' \<and>
    (if mid e \<in> dom (map_of (mid2l_entries ids)) then r = - 1 \<and> ids' = ids
     else if mid2l_count ids = MDB_IDL_UM_MAX then r = - 2 \<and> ids' = ids
     else r = 0 \<and> mid2l_count ids' = mid2l_count ids + 1 \<and>
       map_of (mid2l_entries ids') = (map_of (mid2l_entries ids))(mid e \<mapsto> mptr e))"
  using assms by (rule mid2l_insert_map)

theorem mid2l_insert_correct_witness:
  "\<exists>ids'. mdb_mid2l_insert (replicate (MDB_IDL_UM_MAX + 1) \<lparr>mid = 0, mptr = ()\<rparr>) \<lparr>mid = 7, mptr = ()\<rparr> =
    Some (ids', 0) \<and> map_of (mid2l_entries ids') = [7 \<mapsto> ()]"
proof -
  let ?ids = "replicate (MDB_IDL_UM_MAX + 1) \<lparr>mid = 0, mptr = ()\<rparr>"
  have c: "mid2l_count ?ids = 0" by (simp add: mid2l_count_def)
  then have "mid2l_entries ?ids = []" by (simp add: mid2l_entries_def)
  moreover from this c have "mid2l_ok ?ids" by (simp add: mid2l_ok_def)
  ultimately show ?thesis
    using mid2l_insert_correct[of ?ids "\<lparr>mid = 7, mptr = ()\<rparr>"] c by (auto simp: MDB_IDL_UM_MAX_def)
qed



end
