(* ===== verification/Digest.thy ===== *)
theory Digest
  imports Prelude
begin

text \<open>
  What the users of a message digest rely on: the context stands for the bytes given so far, however
  they were cut, and the digest is a function of them.
\<close>

locale streaming_digest =
  fixes start :: "'c \<Rightarrow> 'c" and absorb :: "'c \<Rightarrow> byte list \<Rightarrow> 'c" and result :: "'c \<Rightarrow> byte list"
    and usable :: "'c \<Rightarrow> bool" and fits :: "byte list \<Rightarrow> bool"
    and stands_for :: "'c \<Rightarrow> byte list \<Rightarrow> bool" and hash_of :: "byte list \<Rightarrow> byte list"
  assumes start_empty: "usable c \<Longrightarrow> stands_for (start c) []"
    and absorb_append: "stands_for c msg \<Longrightarrow> fits d \<Longrightarrow> stands_for (absorb c d) (msg @ d)"
    and result_hash: "stands_for c msg \<Longrightarrow> result c = hash_of msg"
begin

lemma absorb_all:
  "stands_for c msg \<Longrightarrow> \<forall>d \<in> set ds. fits d \<Longrightarrow>
   stands_for (fold (\<lambda>d c. absorb c d) ds c) (msg @ concat ds)"
proof (induction ds arbitrary: c msg)
  case (Cons d ds)
  have "stands_for (absorb c d) (msg @ d)" using Cons.prems by (intro absorb_append) auto
  from Cons.IH[OF this] Cons.prems show ?case by simp
qed simp

lemma digest_of_pieces:
  "usable c \<Longrightarrow> \<forall>d \<in> set ds. fits d \<Longrightarrow>
   result (fold (\<lambda>d c. absorb c d) ds (start c)) = hash_of (concat ds)"
  using result_hash[OF absorb_all[OF start_empty]] by simp

lemma digest_cut_independent:
  assumes "usable c" "\<forall>d \<in> set ds \<union> set es. fits d" "concat ds = concat es"
  shows "result (fold (\<lambda>d c. absorb c d) ds (start c)) = result (fold (\<lambda>d c. absorb c d) es (start c))"
  using assms digest_of_pieces[of c ds] digest_of_pieces[of c es] by simp

end

end
