(* ===== verification/Md5.thy ===== *)
theory Md5
  imports Memory Digest
begin

text \<open>
  The MD5 digest of the file hashes: \<open>md5.cpp\<close> (the implementation used unless the one of Crypto++ is
  configured). The message may be given in any number of pieces; the context keeps the chaining
  values, the number of bits and the bytes that do not fill a block yet. A piece is shorter than
  \<open>2 ^ 32 - 64\<close> bytes, so positions in it are natural numbers.
\<close>

section \<open>The basic functions\<close>

definition F_md5 :: "u32 \<Rightarrow> u32 \<Rightarrow> u32 \<Rightarrow> u32" where
  "F_md5 x y z = (x AND y) OR (NOT x AND z)"

definition G_md5 :: "u32 \<Rightarrow> u32 \<Rightarrow> u32 \<Rightarrow> u32" where
  "G_md5 x y z = (x AND z) OR (y AND NOT z)"

definition H_md5 :: "u32 \<Rightarrow> u32 \<Rightarrow> u32 \<Rightarrow> u32" where
  "H_md5 x y z = x XOR y XOR z"

definition I_md5 :: "u32 \<Rightarrow> u32 \<Rightarrow> u32 \<Rightarrow> u32" where
  "I_md5 x y z = y XOR (x OR NOT z)"

definition rotate_left :: "u32 \<Rightarrow> nat \<Rightarrow> u32" where
  "rotate_left x n = push_bit n x OR drop_bit (32 - n) x"

definition FF :: "u32 \<Rightarrow> u32 \<Rightarrow> u32 \<Rightarrow> u32 \<Rightarrow> u32 \<Rightarrow> nat \<Rightarrow> u32 \<Rightarrow> u32" where
  "FF a b c d x s ac = (let a = a + (F_md5 b c d + x + ac) in rotate_left a s + b)"

definition GG :: "u32 \<Rightarrow> u32 \<Rightarrow> u32 \<Rightarrow> u32 \<Rightarrow> u32 \<Rightarrow> nat \<Rightarrow> u32 \<Rightarrow> u32" where
  "GG a b c d x s ac = (let a = a + (G_md5 b c d + x + ac) in rotate_left a s + b)"

definition HH :: "u32 \<Rightarrow> u32 \<Rightarrow> u32 \<Rightarrow> u32 \<Rightarrow> u32 \<Rightarrow> nat \<Rightarrow> u32 \<Rightarrow> u32" where
  "HH a b c d x s ac = (let a = a + (H_md5 b c d + x + ac) in rotate_left a s + b)"

definition II :: "u32 \<Rightarrow> u32 \<Rightarrow> u32 \<Rightarrow> u32 \<Rightarrow> u32 \<Rightarrow> nat \<Rightarrow> u32 \<Rightarrow> u32" where
  "II a b c d x s ac = (let a = a + (I_md5 b c d + x + ac) in rotate_left a s + b)"

definition S11 :: nat where "S11 = 7"
definition S12 :: nat where "S12 = 12"
definition S13 :: nat where "S13 = 17"
definition S14 :: nat where "S14 = 22"
definition S21 :: nat where "S21 = 5"
definition S22 :: nat where "S22 = 9"
definition S23 :: nat where "S23 = 14"
definition S24 :: nat where "S24 = 20"
definition S31 :: nat where "S31 = 4"
definition S32 :: nat where "S32 = 11"
definition S33 :: nat where "S33 = 16"
definition S34 :: nat where "S34 = 23"
definition S41 :: nat where "S41 = 6"
definition S42 :: nat where "S42 = 10"
definition S43 :: nat where "S43 = 15"
definition S44 :: nat where "S44 = 21"

lemmas S_defs = S11_def S12_def S13_def S14_def S21_def S22_def S23_def S24_def
  S31_def S32_def S33_def S34_def S41_def S42_def S43_def S44_def

text \<open>\<open>encode\<close> and \<open>decode\<close>: four bytes per word, the lowest first.\<close>

definition encode_word :: "u32 \<Rightarrow> byte list" where
  "encode_word w = [ucast (w AND 0xff), ucast (drop_bit 8 w AND 0xff), ucast (drop_bit 16 w AND 0xff),
     ucast (drop_bit 24 w AND 0xff)]"

definition md5_encode :: "u32 list \<Rightarrow> byte list" where
  "md5_encode ws = concat (map encode_word ws)"

definition md5_decode :: "byte list \<Rightarrow> u32 list" where
  "md5_decode bs = map (\<lambda>i. ucast (bs ! (4 * i)) OR push_bit 8 (ucast (bs ! (4 * i + 1))) OR
     push_bit 16 (ucast (bs ! (4 * i + 2))) OR push_bit 24 (ucast (bs ! (4 * i + 3)))) [0..<length bs div 4]"

section \<open>The transformation of one block\<close>

definition md5_round1 :: "u32 list \<Rightarrow> u32 \<times> u32 \<times> u32 \<times> u32 \<Rightarrow> u32 \<times> u32 \<times> u32 \<times> u32" where
  "md5_round1 x = (\<lambda>(a, b, c, d).
     let a = FF a b c d (x ! 0) S11 0xd76aa478 in
     let d = FF d a b c (x ! 1) S12 0xe8c7b756 in
     let c = FF c d a b (x ! 2) S13 0x242070db in
     let b = FF b c d a (x ! 3) S14 0xc1bdceee in
     let a = FF a b c d (x ! 4) S11 0xf57c0faf in
     let d = FF d a b c (x ! 5) S12 0x4787c62a in
     let c = FF c d a b (x ! 6) S13 0xa8304613 in
     let b = FF b c d a (x ! 7) S14 0xfd469501 in
     let a = FF a b c d (x ! 8) S11 0x698098d8 in
     let d = FF d a b c (x ! 9) S12 0x8b44f7af in
     let c = FF c d a b (x ! 10) S13 0xffff5bb1 in
     let b = FF b c d a (x ! 11) S14 0x895cd7be in
     let a = FF a b c d (x ! 12) S11 0x6b901122 in
     let d = FF d a b c (x ! 13) S12 0xfd987193 in
     let c = FF c d a b (x ! 14) S13 0xa679438e in
     let b = FF b c d a (x ! 15) S14 0x49b40821 in
     (a, b, c, d))"

definition md5_round2 :: "u32 list \<Rightarrow> u32 \<times> u32 \<times> u32 \<times> u32 \<Rightarrow> u32 \<times> u32 \<times> u32 \<times> u32" where
  "md5_round2 x = (\<lambda>(a, b, c, d).
     let a = GG a b c d (x ! 1) S21 0xf61e2562 in
     let d = GG d a b c (x ! 6) S22 0xc040b340 in
     let c = GG c d a b (x ! 11) S23 0x265e5a51 in
     let b = GG b c d a (x ! 0) S24 0xe9b6c7aa in
     let a = GG a b c d (x ! 5) S21 0xd62f105d in
     let d = GG d a b c (x ! 10) S22 0x2441453 in
     let c = GG c d a b (x ! 15) S23 0xd8a1e681 in
     let b = GG b c d a (x ! 4) S24 0xe7d3fbc8 in
     let a = GG a b c d (x ! 9) S21 0x21e1cde6 in
     let d = GG d a b c (x ! 14) S22 0xc33707d6 in
     let c = GG c d a b (x ! 3) S23 0xf4d50d87 in
     let b = GG b c d a (x ! 8) S24 0x455a14ed in
     let a = GG a b c d (x ! 13) S21 0xa9e3e905 in
     let d = GG d a b c (x ! 2) S22 0xfcefa3f8 in
     let c = GG c d a b (x ! 7) S23 0x676f02d9 in
     let b = GG b c d a (x ! 12) S24 0x8d2a4c8a in
     (a, b, c, d))"

definition md5_round3 :: "u32 list \<Rightarrow> u32 \<times> u32 \<times> u32 \<times> u32 \<Rightarrow> u32 \<times> u32 \<times> u32 \<times> u32" where
  "md5_round3 x = (\<lambda>(a, b, c, d).
     let a = HH a b c d (x ! 5) S31 0xfffa3942 in
     let d = HH d a b c (x ! 8) S32 0x8771f681 in
     let c = HH c d a b (x ! 11) S33 0x6d9d6122 in
     let b = HH b c d a (x ! 14) S34 0xfde5380c in
     let a = HH a b c d (x ! 1) S31 0xa4beea44 in
     let d = HH d a b c (x ! 4) S32 0x4bdecfa9 in
     let c = HH c d a b (x ! 7) S33 0xf6bb4b60 in
     let b = HH b c d a (x ! 10) S34 0xbebfbc70 in
     let a = HH a b c d (x ! 13) S31 0x289b7ec6 in
     let d = HH d a b c (x ! 0) S32 0xeaa127fa in
     let c = HH c d a b (x ! 3) S33 0xd4ef3085 in
     let b = HH b c d a (x ! 6) S34 0x4881d05 in
     let a = HH a b c d (x ! 9) S31 0xd9d4d039 in
     let d = HH d a b c (x ! 12) S32 0xe6db99e5 in
     let c = HH c d a b (x ! 15) S33 0x1fa27cf8 in
     let b = HH b c d a (x ! 2) S34 0xc4ac5665 in
     (a, b, c, d))"

definition md5_round4 :: "u32 list \<Rightarrow> u32 \<times> u32 \<times> u32 \<times> u32 \<Rightarrow> u32 \<times> u32 \<times> u32 \<times> u32" where
  "md5_round4 x = (\<lambda>(a, b, c, d).
     let a = II a b c d (x ! 0) S41 0xf4292244 in
     let d = II d a b c (x ! 7) S42 0x432aff97 in
     let c = II c d a b (x ! 14) S43 0xab9423a7 in
     let b = II b c d a (x ! 5) S44 0xfc93a039 in
     let a = II a b c d (x ! 12) S41 0x655b59c3 in
     let d = II d a b c (x ! 3) S42 0x8f0ccc92 in
     let c = II c d a b (x ! 10) S43 0xffeff47d in
     let b = II b c d a (x ! 1) S44 0x85845dd1 in
     let a = II a b c d (x ! 8) S41 0x6fa87e4f in
     let d = II d a b c (x ! 15) S42 0xfe2ce6e0 in
     let c = II c d a b (x ! 6) S43 0xa3014314 in
     let b = II b c d a (x ! 13) S44 0x4e0811a1 in
     let a = II a b c d (x ! 4) S41 0xf7537e82 in
     let d = II d a b c (x ! 11) S42 0xbd3af235 in
     let c = II c d a b (x ! 2) S43 0x2ad7d2bb in
     let b = II b c d a (x ! 9) S44 0xeb86d391 in
     (a, b, c, d))"

definition md5_transform :: "u32 \<times> u32 \<times> u32 \<times> u32 \<Rightarrow> byte list \<Rightarrow> u32 \<times> u32 \<times> u32 \<times> u32" where
  "md5_transform state block =
     (let x = md5_decode (take 64 block);
          (a, b, c, d) = md5_round4 x (md5_round3 x (md5_round2 x (md5_round1 x state)));
          (s0, s1, s2, s3) = state
      in (s0 + a, s1 + b, s2 + c, s3 + d))"

section \<open>The context\<close>

record MD5 =
  state :: "u32 \<times> u32 \<times> u32 \<times> u32"
  count0 :: u32
  count1 :: u32
  buffer :: "byte list"
  digest :: "byte list"
  finalized :: bool

definition md5_init_state :: "u32 \<times> u32 \<times> u32 \<times> u32" where
  "md5_init_state = (0x67452301, 0xefcdab89, 0x98badcfe, 0x10325476)"

definition md5_init :: "MD5 \<Rightarrow> MD5" where
  "md5_init m = m\<lparr>finalized := False, count0 := 0, count1 := 0, state := md5_init_state\<rparr>"

text \<open>\<open>for (; input_index + 63 < input_length; input_index += 64) transform(input + input_index);\<close>\<close>

function transform_loop ::
  "u32 \<times> u32 \<times> u32 \<times> u32 \<Rightarrow> byte list \<Rightarrow> nat \<Rightarrow> (u32 \<times> u32 \<times> u32 \<times> u32) \<times> nat" where
  "transform_loop st input input_index =
     (if input_index + 63 < length input
      then transform_loop (md5_transform st (drop input_index input)) input (input_index + 64)
      else (st, input_index))"
  by pat_completeness auto

termination transform_loop
  by (relation "measure (\<lambda>(st, input, i). length input - i)") auto

declare transform_loop.simps [simp del]

definition put_bytes :: "byte list \<Rightarrow> nat \<Rightarrow> byte list \<Rightarrow> byte list" where
  "put_bytes buf i bs = take i buf @ bs @ drop (i + length bs) buf"

definition buffer_index :: "MD5 \<Rightarrow> nat" where
  "buffer_index m = unat (drop_bit 3 (count0 m) AND 0x3F)"

definition md5_update :: "MD5 \<Rightarrow> byte list \<Rightarrow> MD5" where
  "md5_update m input =
     (if finalized m then m
      else
        let index = buffer_index m;
            len = of_nat (length input) :: u32;
            c0 = count0 m + push_bit 3 len;
            c1 = (if c0 < push_bit 3 len then count1 m + 1 else count1 m) + drop_bit 29 len;
            space = 64 - index;
            m = m\<lparr>count0 := c0, count1 := c1\<rparr>
        in if space \<le> length input then
             let buf = put_bytes (buffer m) index (take space input);
                 st = md5_transform (state m) buf;
                 (st, input_index) = transform_loop st input space
             in m\<lparr>state := st, buffer := put_bytes buf 0 (drop input_index input)\<rparr>
           else m\<lparr>buffer := put_bytes (buffer m) index input\<rparr>)"

definition PADDING :: "byte list" where
  "PADDING = 0x80 # replicate 63 0"

definition md5_finalize :: "MD5 \<Rightarrow> MD5" where
  "md5_finalize m =
     (if finalized m then m
      else
        let bits = md5_encode [count0 m, count1 m];
            index = buffer_index m;
            padLen = (if index < 56 then 56 - index else 120 - index);
            m = md5_update m (take padLen PADDING);
            m = md5_update m bits;
            (s0, s1, s2, s3) = state m
        in m\<lparr>digest := md5_encode [s0, s1, s2, s3], buffer := (buffer m)[0 := 0], finalized := True\<rparr>)"

definition raw_digest_int :: "MD5 \<Rightarrow> byte list option" where
  "raw_digest_int m = (if finalized m then Some (digest m) else None)"

section \<open>The algorithm as a loop over tables\<close>

text \<open>
  MD5 as RFC 1321 describes it: 64 steps with a table of constants, shifts by the position in the
  round, and a message word picked by a linear function of the step.
\<close>

definition md5_K :: "u32 list" where
  "md5_K =
     [0xd76aa478, 0xe8c7b756, 0x242070db, 0xc1bdceee, 0xf57c0faf, 0x4787c62a, 0xa8304613,
     0xfd469501, 0x698098d8, 0x8b44f7af, 0xffff5bb1, 0x895cd7be, 0x6b901122, 0xfd987193,
     0xa679438e, 0x49b40821, 0xf61e2562, 0xc040b340, 0x265e5a51, 0xe9b6c7aa, 0xd62f105d,
     0x2441453, 0xd8a1e681, 0xe7d3fbc8, 0x21e1cde6, 0xc33707d6, 0xf4d50d87, 0x455a14ed,
     0xa9e3e905, 0xfcefa3f8, 0x676f02d9, 0x8d2a4c8a, 0xfffa3942, 0x8771f681, 0x6d9d6122,
     0xfde5380c, 0xa4beea44, 0x4bdecfa9, 0xf6bb4b60, 0xbebfbc70, 0x289b7ec6, 0xeaa127fa,
     0xd4ef3085, 0x4881d05, 0xd9d4d039, 0xe6db99e5, 0x1fa27cf8, 0xc4ac5665, 0xf4292244,
     0x432aff97, 0xab9423a7, 0xfc93a039, 0x655b59c3, 0x8f0ccc92, 0xffeff47d, 0x85845dd1,
     0x6fa87e4f, 0xfe2ce6e0, 0xa3014314, 0x4e0811a1, 0xf7537e82, 0xbd3af235, 0x2ad7d2bb,
     0xeb86d391]"

definition md5_shift :: "nat \<Rightarrow> nat" where
  "md5_shift i = [[7, 12, 17, 22], [5, 9, 14, 20], [4, 11, 16, 23], [6, 10, 15, 21]] ! (i div 16) ! (i mod 4)"

definition md5_word_index :: "nat \<Rightarrow> nat" where
  "md5_word_index i = (if i < 16 then i else if i < 32 then (5 * i + 1) mod 16
     else if i < 48 then (3 * i + 5) mod 16 else 7 * i mod 16)"

definition md5_mix :: "nat \<Rightarrow> u32 \<Rightarrow> u32 \<Rightarrow> u32 \<Rightarrow> u32" where
  "md5_mix i b c d = (if i < 16 then F_md5 b c d else if i < 32 then G_md5 b c d
     else if i < 48 then H_md5 b c d else I_md5 b c d)"

definition md5_step :: "u32 list \<Rightarrow> nat \<Rightarrow> u32 \<times> u32 \<times> u32 \<times> u32 \<Rightarrow> u32 \<times> u32 \<times> u32 \<times> u32" where
  "md5_step x i = (\<lambda>(a, b, c, d).
     (d, rotate_left (a + (md5_mix i b c d + x ! md5_word_index i + md5_K ! i)) (md5_shift i) + b, b, c))"

definition md5_block :: "u32 \<times> u32 \<times> u32 \<times> u32 \<Rightarrow> byte list \<Rightarrow> u32 \<times> u32 \<times> u32 \<times> u32" where
  "md5_block st block =
     (let (a, b, c, d) = fold (md5_step (md5_decode block)) [0..<64] st; (s0, s1, s2, s3) = st
      in (s0 + a, s1 + b, s2 + c, s3 + d))"

function md5_blocks :: "u32 \<times> u32 \<times> u32 \<times> u32 \<Rightarrow> byte list \<Rightarrow> u32 \<times> u32 \<times> u32 \<times> u32" where
  "md5_blocks st bs = (if length bs < 64 then st else md5_blocks (md5_block st (take 64 bs)) (drop 64 bs))"
  by pat_completeness auto

termination md5_blocks
  by (relation "measure (\<lambda>(st, bs). length bs)") auto

declare md5_blocks.simps [simp del]

text \<open>A one bit, zeros up to 56 modulo 64, and the number of bits as two words.\<close>

definition md5_pad :: "nat \<Rightarrow> byte list" where
  "md5_pad n = 0x80 # replicate ((119 - n mod 64) mod 64) 0 @
     md5_encode [of_nat (8 * n), of_nat (8 * n div 2 ^ 32)]"

definition md5_of :: "byte list \<Rightarrow> byte list" where
  "md5_of msg =
     (let (s0, s1, s2, s3) = md5_blocks md5_init_state (msg @ md5_pad (length msg))
      in md5_encode [s0, s1, s2, s3])"


section \<open>The unrolled rounds are the loop\<close>

lemma md5_chain:
  "j = md5_word_index i \<Longrightarrow> s = md5_shift i \<Longrightarrow> k = md5_K ! i \<Longrightarrow> i < 16 \<Longrightarrow>
   (\<And>v. f v = fold (md5_step x) is (d, v, b, c)) \<Longrightarrow>
   Let (FF a b c d (x ! j) s k) f = fold (md5_step x) (i # is) (a, b, c, d)"
  "j = md5_word_index i \<Longrightarrow> s = md5_shift i \<Longrightarrow> k = md5_K ! i \<Longrightarrow> 16 \<le> i \<and> i < 32 \<Longrightarrow>
   (\<And>v. f v = fold (md5_step x) is (d, v, b, c)) \<Longrightarrow>
   Let (GG a b c d (x ! j) s k) f = fold (md5_step x) (i # is) (a, b, c, d)"
  "j = md5_word_index i \<Longrightarrow> s = md5_shift i \<Longrightarrow> k = md5_K ! i \<Longrightarrow> 32 \<le> i \<and> i < 48 \<Longrightarrow>
   (\<And>v. f v = fold (md5_step x) is (d, v, b, c)) \<Longrightarrow>
   Let (HH a b c d (x ! j) s k) f = fold (md5_step x) (i # is) (a, b, c, d)"
  "j = md5_word_index i \<Longrightarrow> s = md5_shift i \<Longrightarrow> k = md5_K ! i \<Longrightarrow> 48 \<le> i \<Longrightarrow>
   (\<And>v. f v = fold (md5_step x) is (d, v, b, c)) \<Longrightarrow>
   Let (II a b c d (x ! j) s k) f = fold (md5_step x) (i # is) (a, b, c, d)"
  by (simp_all add: md5_step_def md5_mix_def FF_def GG_def HH_def II_def)

lemma md5_chain_end: "s = fold (md5_step x) [] s"
  by simp

lemma upt_16:
  "[0..<16] = [0, 1, 2, 3, 4, 5, 6, 7, 8, 9, 10, 11, 12, 13, 14, 15]"
  "[16..<32] = [16, 17, 18, 19, 20, 21, 22, 23, 24, 25, 26, 27, 28, 29, 30, 31]"
  "[32..<48] = [32, 33, 34, 35, 36, 37, 38, 39, 40, 41, 42, 43, 44, 45, 46, 47]"
  "[48..<64] = [48, 49, 50, 51, 52, 53, 54, 55, 56, 57, 58, 59, 60, 61, 62, 63]"
  by (simp_all add: upt_rec_numeral upt_conv_Cons)

lemma md5_round1_fold: "md5_round1 x (a, b, c, d) = fold (md5_step x) [0..<16] (a, b, c, d)"
  unfolding md5_round1_def prod.case upt_16
  by (intro md5_chain(1) md5_chain_end) (simp_all add: md5_K_def S_defs md5_shift_def md5_word_index_def)

lemma md5_round2_fold: "md5_round2 x (a, b, c, d) = fold (md5_step x) [16..<32] (a, b, c, d)"
  unfolding md5_round2_def prod.case upt_16
  by (intro md5_chain(2) md5_chain_end) (simp_all add: md5_K_def S_defs md5_shift_def md5_word_index_def)

lemma md5_round3_fold: "md5_round3 x (a, b, c, d) = fold (md5_step x) [32..<48] (a, b, c, d)"
  unfolding md5_round3_def prod.case upt_16
  by (intro md5_chain(3) md5_chain_end) (simp_all add: md5_K_def S_defs md5_shift_def md5_word_index_def)

lemma md5_round4_fold: "md5_round4 x (a, b, c, d) = fold (md5_step x) [48..<64] (a, b, c, d)"
  unfolding md5_round4_def prod.case upt_16
  by (intro md5_chain(4) md5_chain_end) (simp_all add: md5_K_def S_defs md5_shift_def md5_word_index_def)

lemma upt_64_rounds: "[0..<64] = [0..<16] @ [16..<32] @ [32..<48] @ [48..<64]"
  using upt_add_eq_append[of 0 16 48] upt_add_eq_append[of 16 32 32] upt_add_eq_append[of 32 48 16] by simp

lemma md5_rounds_fold:
  "md5_round4 x (md5_round3 x (md5_round2 x (md5_round1 x st))) = fold (md5_step x) [0..<64] st"
proof -
  have 1: "md5_round1 x s = fold (md5_step x) [0..<16] s" for s
    by (cases s) (simp only: md5_round1_fold)
  have 2: "md5_round2 x s = fold (md5_step x) [16..<32] s" for s
    by (cases s) (simp only: md5_round2_fold)
  have 3: "md5_round3 x s = fold (md5_step x) [32..<48] s" for s
    by (cases s) (simp only: md5_round3_fold)
  have 4: "md5_round4 x s = fold (md5_step x) [48..<64] s" for s
    by (cases s) (simp only: md5_round4_fold)
  show ?thesis by (simp only: upt_64_rounds 1 2 3 4 fold_append comp_apply)
qed

lemma md5_transform_block: "md5_transform st bs = md5_block st (take 64 bs)"
  by (simp add: md5_transform_def md5_block_def md5_rounds_fold Let_def)



section \<open>The context stands for the message so far\<close>

definition md5_inv :: "MD5 \<Rightarrow> byte list \<Rightarrow> bool" where
  "md5_inv m msg \<longleftrightarrow> \<not> finalized m \<and> length (buffer m) = 64 \<and>
     state m = md5_blocks md5_init_state msg \<and>
     unat (count0 m) + 2 ^ 32 * unat (count1 m) = 8 * length msg mod 2 ^ 64 \<and>
     take (length msg mod 64) (buffer m) = drop (64 * (length msg div 64)) msg"

lemma md5_blocks_step:
  "64 \<le> length bs \<Longrightarrow> md5_blocks st bs = md5_blocks (md5_block st (take 64 bs)) (drop 64 bs)"
  by (subst md5_blocks.simps) simp

lemma md5_blocks_append:
  "length bs mod 64 = 0 \<Longrightarrow> md5_blocks st (bs @ cs) = md5_blocks (md5_blocks st bs) cs"
proof (induction st bs rule: md5_blocks.induct)
  case (1 st bs)
  show ?case
  proof (cases "length bs < 64")
    case True
    with "1.prems" have "bs = []" by simp
    then show ?thesis by (simp add: md5_blocks.simps[of st "[]"])
  next
    case False
    then have "length (drop 64 bs) mod 64 = 0" using "1.prems" by (simp add: le_mod_geq [symmetric] not_less)
    from "1.IH"[OF False this] False show ?thesis
      using md5_blocks_step[of bs st] md5_blocks_step[of "bs @ cs" st] by simp
  qed
qed

lemma md5_blocks_short: "length bs < 64 \<Longrightarrow> md5_blocks st bs = st"
  by (subst md5_blocks.simps) simp

lemma md5_blocks_one: "length b = 64 \<Longrightarrow> md5_blocks st b = md5_block st b"
  by (subst md5_blocks.simps) (simp add: md5_blocks_short)

lemma transform_loop_blocks:
  assumes "i \<le> length input" "transform_loop st input i = (st', k)"
  shows "st' = md5_blocks st (drop i input) \<and> k \<le> length input \<and>
    length input - k = (length input - i) mod 64 \<and> i \<le> k"
  using assms
proof (induction st input i rule: transform_loop.induct)
  case (1 st input i)
  show ?case
  proof (cases "i + 63 < length input")
    case True
    let ?st = "md5_block st (take 64 (drop i input))"
    have "transform_loop ?st input (i + 64) = (st', k)"
      using "1.prems"(2) True by (subst (asm) transform_loop.simps) (simp add: md5_transform_block)
    with "1.IH"[OF True] True have IH: "st' = md5_blocks ?st (drop (i + 64) input)" "k \<le> length input"
      "length input - k = (length input - (i + 64)) mod 64" "i + 64 \<le> k"
      by (simp_all add: md5_transform_block)
    have "md5_blocks st (drop i input) = md5_blocks ?st (drop (i + 64) input)"
      using True md5_blocks_step[of "drop i input" st] by (simp add: add.commute)
    moreover have "(length input - i) mod 64 = (length input - (i + 64)) mod 64"
      using True by (subst le_mod_geq) simp_all
    ultimately show ?thesis using IH by simp
  next
    case False
    with "1.prems"(2) have "st' = st" "k = i" by (auto simp: transform_loop.simps)
    moreover have "(length input - i) mod 64 = length input - i" using False by simp
    ultimately show ?thesis using False "1.prems"(1) by (simp add: md5_blocks_short)
  qed
qed

lemma two_words: "d < M \<Longrightarrow> (d + M * h) mod (M * M) = d + M * (h mod M)" for M :: nat
  by (simp add: mod_mult2_eq)

lemma split_words:
  fixes M :: nat
  assumes "d < M" "e < M" "d + M * e = N mod (M * M)"
  shows "d = N mod M" "e = N div M mod M"
proof -
  have eq: "d + M * e = N mod M + M * (N div M mod M)" using assms(3) by (simp add: mod_mult2_eq)
  have M: "0 < M" using assms(1) by simp
  then show "d = N mod M" using arg_cong[OF eq, of "\<lambda>x. x mod M"] assms(1) by simp
  from M show "e = N div M mod M" using arg_cong[OF eq, of "\<lambda>x. x div M"] assms(1) by simp
qed

text \<open>The two counters are one 64-bit counter of bits.\<close>

lemma md5_count:
  fixes c0 c1 :: u32
  assumes "unat c0 + 2 ^ 32 * unat c1 = 8 * n mod 2 ^ 64" "k < 2 ^ 32"
  defines "d0 \<equiv> c0 + push_bit 3 (of_nat k)"
  defines "d1 \<equiv> (if d0 < push_bit 3 (of_nat k) then c1 + 1 else c1) + drop_bit 29 (of_nat k)"
  shows "unat d0 + 2 ^ 32 * unat d1 = 8 * (n + k) mod 2 ^ 64"
proof -
  let ?M = "2 ^ 32 :: nat"
  have uk: "unat (of_nat k :: u32) = k" using assms(2) by (simp add: unat_of_nat_small)
  define lo where "lo = 8 * k mod ?M"
  define hi where "hi = 8 * k div ?M"
  have k8: "8 * k = lo + ?M * hi" unfolding lo_def hi_def by (rule mod_mult_div_eq [symmetric])
  have pl: "unat (push_bit 3 (of_nat k) :: u32) = lo"
    by (simp add: push_bit_eq_mult unat_word_ariths uk lo_def mult.commute)
  have ph: "unat (drop_bit 29 (of_nat k) :: u32) = hi"
  proof -
    have "unat (drop_bit 29 (of_nat k) :: u32) = drop_bit 29 (take_bit 32 k)"
      by (simp only: unsigned_drop_bit_eq uk) simp
    also have "take_bit 32 k = k" using assms(2) by (rule take_bit_nat_eq_self)
    also have "drop_bit 29 k = hi"
      using div_mult_mult1[of 8 k "2 ^ 29"] by (simp add: hi_def drop_bit_eq_div)
    finally show ?thesis .
  qed
  have c: "unat c0 < ?M" "unat c1 < ?M" using unsigned_less[of c0] unsigned_less[of c1] by simp_all
  have lo: "lo < ?M" "hi < 8" using assms(2) by (simp_all add: lo_def hi_def)
  define carry where "carry = (if unat c0 + lo < ?M then 0 else 1 :: nat)"
  have d0: "unat d0 = unat c0 + lo - ?M * carry"
    using c lo by (auto simp: d0_def unat_word_ariths pl carry_def mod_if)
  have "d0 < push_bit 3 (of_nat k) \<longleftrightarrow> carry = 1"
    using d0 c lo by (auto simp: word_less_nat_alt pl carry_def)
  then have d1: "unat d1 = (unat c1 + carry + hi) mod ?M"
    by (auto simp: d1_def unat_word_ariths ph carry_def mod_simps)
  have d0': "unat c0 + lo = unat d0 + ?M * carry" using d0 by (auto simp: carry_def)
  have "(8 * (n + k)) mod (?M * ?M) = (unat c0 + ?M * unat c1 + (lo + ?M * hi)) mod (?M * ?M)"
    using assms(1) k8 by (simp add: distrib_left) (metis mod_add_left_eq)
  also have "\<dots> = (unat d0 + ?M * (unat c1 + carry + hi)) mod (?M * ?M)"
  proof -
    have "unat c0 + ?M * unat c1 + (lo + ?M * hi) = (unat c0 + lo) + ?M * unat c1 + ?M * hi" by simp
    also have "\<dots> = unat d0 + ?M * (unat c1 + carry + hi)" unfolding d0' by (simp add: distrib_left)
    finally show ?thesis by (simp only:)
  qed
  also have "\<dots> = unat d0 + ?M * unat d1"
  proof -
    have "unat d0 < ?M" using unsigned_less[of d0] by simp
    then show ?thesis unfolding d1 by (rule two_words)
  qed
  finally have "(8 * (n + k)) mod (?M * ?M) = unat d0 + ?M * unat d1" .
  moreover have "(2 :: nat) ^ 64 = ?M * ?M" by simp
  ultimately show ?thesis by (simp only:)
qed

lemma md5_buffer_index:
  assumes "md5_inv m msg"
  shows "buffer_index m = length msg mod 64"
proof -
  have m: "(0x3F :: u32) = mask 6" by (simp add: mask_eq_exp_minus_1)
  have "unat (count0 m) = (8 * length msg mod 2 ^ 64) mod 2 ^ 32"
  proof -
    have "unat (count0 m) < 2 ^ 32" using unsigned_less[of "count0 m"] by simp
    then have "unat (count0 m) = (unat (count0 m) + 2 ^ 32 * unat (count1 m)) mod 2 ^ 32" by simp
    then show ?thesis using assms by (simp only: md5_inv_def)
  qed
  also have "\<dots> = 8 * length msg mod 2 ^ 32" by (simp add: mod_mod_cancel)
  finally have c: "unat (count0 m) = 8 * (length msg mod 2 ^ 29)" by (simp add: mult_mod_right)
  have "unat (take_bit 6 (drop_bit 3 (count0 m))) = take_bit 6 (unat (drop_bit 3 (count0 m)))"
    by (rule unsigned_take_bit_eq)
  also have "\<dots> = length msg mod 2 ^ 29 mod 64"
    by (simp only: unsigned_drop_bit_eq c) (simp add: drop_bit_eq_div take_bit_eq_mod)
  finally have "buffer_index m = length msg mod 2 ^ 29 mod 64"
    unfolding buffer_index_def m by (simp only: take_bit_eq_mask)
  then show ?thesis by (simp add: mod_mod_cancel)
qed



lemma length_put_bytes: "i + length bs \<le> length buf \<Longrightarrow> length (put_bytes buf i bs) = length buf"
  by (simp add: put_bytes_def)

lemma take_put_bytes: "i \<le> length buf \<Longrightarrow> take (i + length bs) (put_bytes buf i bs) = take i buf @ bs"
  by (simp add: put_bytes_def)

lemma md5_update_inv:
  assumes inv: "md5_inv m msg" and small: "length input < 2 ^ 32 - 64"
  shows "md5_inv (md5_update m input) (msg @ input)"
proof -
  let ?n = "length msg" and ?k = "length input"
  let ?i = "?n mod 64" and ?whole = "take (64 * (?n div 64)) msg"
  have b: "length (buffer m) = 64" "\<not> finalized m" "state m = md5_blocks md5_init_state msg"
    "take ?i (buffer m) = drop (64 * (?n div 64)) msg" using inv by (auto simp: md5_inv_def)
  have k: "?k < 2 ^ 32" using small by simp
  note idx = md5_buffer_index[OF inv]
  have i: "?i < 64" by simp
  have msg: "msg = ?whole @ take ?i (buffer m)" using b(4) by simp
  have lw: "length ?whole = 64 * (?n div 64)" by simp
  have lw0: "length ?whole mod 64 = 0" unfolding lw by simp
  have st: "state m = md5_blocks md5_init_state ?whole"
    using b(1,3) i msg md5_blocks_append[OF lw0, of md5_init_state "take ?i (buffer m)"]
    by (simp add: md5_blocks_short)
  have cnt: "unat (count0 (md5_update m input)) + 2 ^ 32 * unat (count1 (md5_update m input)) =
    8 * (?n + ?k) mod 2 ^ 64"
    using md5_count[OF _ k, of "count0 m" "count1 m" ?n] inv b(2)
    by (auto simp: md5_update_def md5_inv_def Let_def split: prod.splits)
  show ?thesis
  proof (cases "64 - ?i \<le> ?k")
    case True
    let ?s = "64 - ?i" and ?buf = "put_bytes (buffer m) ?i (take (64 - ?i) input)"
    have lb: "length ?buf = 64" using b(1) True i by (simp add: length_put_bytes)
    have buf: "?buf = take ?i (buffer m) @ take ?s input"
      using take_put_bytes[of ?i "buffer m" "take ?s input"] b(1) i True lb by (simp add: min_def)
    obtain st' j where tl: "transform_loop (md5_block (state m) ?buf) input ?s = (st', j)"
      by (cases "transform_loop (md5_block (state m) ?buf) input ?s") auto
    note j = transform_loop_blocks[OF True tl]
    have dj: "length (drop j input) < 64" using j by simp
    have upd: "md5_update m input = m\<lparr>count0 := count0 (md5_update m input), count1 := count1 (md5_update m input),
      state := st', buffer := put_bytes ?buf 0 (drop j input)\<rparr>"
      using b(2) True tl lb by (simp add: md5_update_def idx Let_def md5_transform_block)
    have all: "msg @ input = (?whole @ ?buf) @ drop ?s input"
      using msg buf by (metis append.assoc append_take_drop_id)
    have l2: "length (?whole @ ?buf) mod 64 = 0" using lb by simp
    have "st' = md5_blocks (md5_block (state m) ?buf) (drop ?s input)" using j by simp
    also have "md5_block (state m) ?buf = md5_blocks md5_init_state (?whole @ ?buf)"
      unfolding md5_blocks_append[OF lw0] st by (rule md5_blocks_one[OF lb, symmetric])
    also have "md5_blocks (md5_blocks md5_init_state (?whole @ ?buf)) (drop ?s input) = md5_blocks md5_init_state (msg @ input)"
      unfolding all by (rule md5_blocks_append[OF l2, symmetric])
    finally have st': "st' = md5_blocks md5_init_state (msg @ input)" .
    have nk: "?n + ?k = 64 * (?n div 64 + 1) + (?k - ?s)" using True i by simp
    have rem: "(?n + ?k) mod 64 = ?k - j" unfolding nk mod_mult_self4 using j by simp
    have len: "length (msg @ input) = ?n + ?k" by simp
    have "64 * ((?n + ?k) div 64) = ?n + ?k - (?k - j)" unfolding rem[symmetric] by (simp add: minus_mod_eq_mult_div)
    moreover have "j \<le> ?k" using j by blast
    then have "?n + ?k - (?k - j) = ?n + j" by linarith
    ultimately have dv: "64 * ((?n + ?k) div 64) = ?n + j" by (simp only:)
    have "take ((?n + ?k) mod 64) (put_bytes ?buf 0 (drop j input)) = drop (64 * ((?n + ?k) div 64)) (msg @ input)"
      unfolding rem dv by (simp add: put_bytes_def)
    moreover have "length (put_bytes ?buf 0 (drop j input)) = 64" using lb dj by (simp add: length_put_bytes)
    ultimately show ?thesis
      unfolding md5_inv_def len using cnt st' b(2) by (subst (1 2 3 6) upd) simp
  next
    case False
    have upd: "md5_update m input = m\<lparr>count0 := count0 (md5_update m input), count1 := count1 (md5_update m input),
      buffer := put_bytes (buffer m) ?i input\<rparr>"
      using b(2) False by (simp add: md5_update_def idx Let_def)
    have rem: "(?n + ?k) mod 64 = ?i + ?k"
      using False by (metis add.commute mod_add_left_eq mod_less less_diff_conv not_le)
    have dv: "64 * ((?n + ?k) div 64) = 64 * (?n div 64)"
      using rem mult_div_mod_eq[of 64 "?n + ?k"] mult_div_mod_eq[of 64 ?n] by linarith
    have tk: "take (?i + ?k) (put_bytes (buffer m) ?i input) = drop (64 * (?n div 64)) (msg @ input)"
      using take_put_bytes[of ?i "buffer m" input] b(1,4) i by simp
    have all: "msg @ input = ?whole @ (take ?i (buffer m) @ input)" using msg by (metis append.assoc)
    have "length (take ?i (buffer m) @ input) < 64" using False i b(1) by simp
    then have st': "state m = md5_blocks md5_init_state (msg @ input)"
      unfolding all md5_blocks_append[OF lw0] st by (rule md5_blocks_short[symmetric])
    have len: "length (msg @ input) = ?n + ?k" by simp
    have "length (put_bytes (buffer m) ?i input) = 64" using False b(1) by (simp add: length_put_bytes)
    then show ?thesis
      unfolding md5_inv_def len rem dv using cnt st' tk b(2) by (subst (1 2 3 6) upd) simp
  qed
qed

lemma md5_init_inv: "length (buffer m) = 64 \<Longrightarrow> md5_inv (md5_init m) []"
  by (simp add: md5_inv_def md5_init_def md5_blocks_short)

lemma length_md5_encode: "length (md5_encode ws) = 4 * length ws"
  by (induction ws) (simp_all add: md5_encode_def encode_word_def)

lemma md5_finalize_buffer: "md5_inv m msg \<Longrightarrow> length (buffer (md5_finalize m)) = 64"
proof -
  assume inv: "md5_inv m msg"
  have "md5_inv (md5_update m (take k PADDING)) (msg @ take k PADDING)" for k
    by (rule md5_update_inv[OF inv]) (simp add: PADDING_def)
  then have "md5_inv (md5_update (md5_update m (take k PADDING)) (md5_encode [a, b])) ((msg @ take k PADDING) @ md5_encode [a, b])" for k a b
    by (rule md5_update_inv) (simp add: length_md5_encode)
  then have l: "length (buffer (md5_update (md5_update m (take k PADDING)) (md5_encode [a, b]))) = 64" for k a b
    by (simp add: md5_inv_def)
  have "\<not> finalized m" using inv by (simp add: md5_inv_def)
  then show ?thesis by (simp add: md5_finalize_def Let_def l split: prod.split)
qed

lemma md5_finalize_digest:
  assumes "md5_inv m msg"
  shows "raw_digest_int (md5_finalize m) = Some (md5_of msg)"
proof -
  let ?n = "length msg"
  note idx = md5_buffer_index[OF assms]
  define padLen where "padLen = (if ?n mod 64 < 56 then 56 - ?n mod 64 else 120 - ?n mod 64)"
  have pl: "1 \<le> padLen" "padLen \<le> 64" by (auto simp: padLen_def)
  have pad: "take padLen PADDING = 0x80 # replicate ((119 - ?n mod 64) mod 64) 0"
  proof -
    have "padLen - 1 = (119 - ?n mod 64) mod 64"
    proof (cases "?n mod 64 < 56")
      case True
      then have "119 - ?n mod 64 = 64 + (55 - ?n mod 64)" by simp
      then have "(119 - ?n mod 64) mod 64 = (55 - ?n mod 64) mod 64" by (simp only: mod_add_self1)
      with True show ?thesis by (simp add: padLen_def)
    next
      case False
      moreover have "?n mod 64 < 64" by simp
      ultimately have "(119 - ?n mod 64) mod 64 = 119 - ?n mod 64" by (intro mod_less) linarith
      with False show ?thesis by (simp add: padLen_def)
    qed
    moreover have "take padLen PADDING = 0x80 # replicate (padLen - 1) 0"
      using pl by (cases padLen) (simp_all add: PADDING_def)
    ultimately show ?thesis by simp
  qed
  define bits where "bits = md5_encode [count0 m, count1 m]"
  have lbits: "length bits = 8" by (simp add: bits_def length_md5_encode)
  let ?m1 = "md5_update m (take padLen PADDING)"
  have inv1: "md5_inv ?m1 (msg @ take padLen PADDING)"
    using assms pl by (intro md5_update_inv) (simp_all add: PADDING_def)
  have inv2: "md5_inv (md5_update ?m1 bits) ((msg @ take padLen PADDING) @ bits)"
    by (rule md5_update_inv[OF inv1]) (simp add: lbits)
  have "\<not> finalized m" using assms by (simp add: md5_inv_def)
  then have "raw_digest_int (md5_finalize m) =
    Some (let (s0, s1, s2, s3) = state (md5_update ?m1 bits) in md5_encode [s0, s1, s2, s3])"
    by (simp add: md5_finalize_def raw_digest_int_def idx Let_def bits_def padLen_def split: prod.splits)
  also have "state (md5_update ?m1 bits) = md5_blocks md5_init_state (msg @ take padLen PADDING @ bits)"
    using inv2 by (simp add: md5_inv_def)
  also have "take padLen PADDING @ bits = md5_pad ?n"
  proof -
    have c: "unat (count0 m) + 2 ^ 32 * unat (count1 m) = 8 * ?n mod 2 ^ 64"
      using assms by (simp add: md5_inv_def)
    have b: "unat (count0 m) < 2 ^ 32" "unat (count1 m) < 2 ^ 32"
      using unsigned_less[of "count0 m"] unsigned_less[of "count1 m"] by simp_all
    have "(2 :: nat) ^ 64 = 2 ^ 32 * 2 ^ 32" by simp
    with c have "unat (count0 m) + 2 ^ 32 * unat (count1 m) = 8 * ?n mod (2 ^ 32 * 2 ^ 32)"
      by (simp only:)
    note w = split_words[OF b this]
    have "count0 m = of_nat (8 * ?n)" "count1 m = of_nat (8 * ?n div 2 ^ 32)"
      using w by (simp_all add: word_unat_eq_iff unsigned_of_nat take_bit_eq_mod del: of_nat_mult)
    then show ?thesis by (simp add: md5_pad_def pad bits_def)
  qed
  finally show ?thesis by (simp add: md5_of_def)
qed



interpretation md5: streaming_digest md5_init md5_update "\<lambda>m. the (raw_digest_int (md5_finalize m))"
  "\<lambda>m. length (buffer m) = 64" "\<lambda>d. length d < 2 ^ 32 - 64" md5_inv md5_of
  by unfold_locales (simp_all only: md5_init_inv md5_update_inv md5_finalize_digest option.sel)

text \<open>Evaluation: the words are kept below \<open>2 ^ 32\<close> after every step.\<close>

definition nrm :: "u32 \<Rightarrow> u32" where
  "nrm w = w"

lemma nrm_simps:
  "nrm (numeral k) = of_nat (numeral k mod 4294967296)" "nrm 0 = 0" "nrm 1 = 1"
proof -
  have m: "(4294967296 :: nat) = 2 ^ LENGTH(32)" by simp
  have "(of_nat (numeral k mod 2 ^ LENGTH(32)) :: u32) = of_nat (numeral k)"
    by (simp only: word_of_nat_eq_iff take_bit_eq_mod mod_mod_trivial)
  then show "nrm (numeral k) = of_nat (numeral k mod 4294967296)" by (simp only: m nrm_def of_nat_numeral)
qed (simp_all add: nrm_def)

lemma md5_step_nrm:
  "md5_step x i (a, b, c, d) =
     (d, nrm (rotate_left (nrm (a + (md5_mix i b c d + x ! md5_word_index i + md5_K ! i))) (md5_shift i) + b), b, c)"
  by (simp add: md5_step_def nrm_def)

lemma I_md5_minus: "I_md5 x y z = y XOR (x OR (0xffffffff - z))"
proof -
  have "(0xffffffff :: u32) = - 1" by simp
  then show ?thesis by (simp only: I_md5_def not_eq_complement minus_diff_commute)
qed

lemmas md5_eval = md5_step_nrm nrm_simps md5_mix_def F_md5_def G_md5_def H_md5_def I_md5_minus md5_K_def rotate_left_def md5_shift_def
    md5_word_index_def

lemma md5_bytes_abc:
  "[97, 98, 99] @ md5_pad 3 = [97, 98, 99, 128] @ replicate 52 0 @ [24, 0, 0, 0, 0, 0, 0, 0]"
  by (simp add: md5_pad_def md5_encode_def encode_word_def)

lemma md5_words_abc:
  "md5_decode ([97, 98, 99, 128] @ replicate 52 0 @ [24, 0, 0, 0, 0, 0, 0, 0]) =
   [0x80636261, 0, 0, 0, 0, 0, 0, 0, 0, 0, 0, 0, 0, 0, 24, 0]"
  by code_simp

lemma md5_fold_abc:
  "fold (md5_step [0x80636261, 0, 0, 0, 0, 0, 0, 0, 0, 0, 0, 0, 0, 0, 24, 0]) [0..<16] (1732584193, 4023233417, 2562383102, 271733878) =
     (3718887846, 1924133600, 3818292587, 2701465749)"
  "fold (md5_step [0x80636261, 0, 0, 0, 0, 0, 0, 0, 0, 0, 0, 0, 0, 0, 24, 0]) [16..<32] (3718887846, 1924133600, 3818292587, 2701465749) =
     (2030729211, 1919107795, 2787673258, 2672289016)"
  "fold (md5_step [0x80636261, 0, 0, 0, 0, 0, 0, 0, 0, 0, 0, 0, 0, 0, 24, 0]) [32..<48] (2030729211, 1919107795, 2787673258, 2672289016) =
     (2133741691, 2079037184, 2410570649, 2581161885)"
  "fold (md5_step [0x80636261, 0, 0, 0, 0, 0, 0, 0, 0, 0, 0, 0, 0, 0, 24, 0]) [48..<64] (2133741691, 2079037184, 2410570649, 2581161885) =
     (822795919, 3229755059, 3833903576, 1649249458)"
  by (simp_all add: upt_16 md5_eval)

lemma md5_of_abc:
  "md5_of [97, 98, 99] =
    [0x90, 0x01, 0x50, 0x98, 0x3c, 0xd2, 0x4f, 0xb0, 0xd6, 0x96, 0x3f, 0x7d, 0x28, 0xe1, 0x7f, 0x72]"
proof -
  let ?x = "[0x80636261, 0, 0, 0, 0, 0, 0, 0, 0, 0, 0, 0, 0, 0, 24, 0] :: u32 list"
  let ?b = "[97, 98, 99, 128] @ replicate 52 0 @ [24, 0, 0, 0, 0, 0, 0, 0] :: byte list"
  have "fold (md5_step ?x) [0..<64] md5_init_state = (822795919, 3229755059, 3833903576, 1649249458)"
    unfolding upt_64_rounds fold_append comp_apply md5_init_state_def
    by (simp only: md5_fold_abc)
  then have "md5_block md5_init_state ?b =
    (nrm (0x67452301 + 822795919), nrm (0xefcdab89 + 3229755059), nrm (0x98badcfe + 3833903576), nrm (0x10325476 + 1649249458))"
    unfolding md5_block_def md5_words_abc by (simp only: md5_init_state_def Let_def prod.case nrm_def)
  then have "md5_blocks md5_init_state ([97, 98, 99] @ md5_pad 3) = (2555380112, 2958021180, 2101319382, 1920983336)"
    unfolding md5_bytes_abc by (subst md5_blocks_one) (simp_all add: nrm_simps)
  moreover have "length [97, 98, 99 :: byte] = 3" by simp
  ultimately have "md5_of [97, 98, 99] = md5_encode [2555380112, 2958021180, 2101319382, 1920983336]"
    by (simp only: md5_of_def Let_def prod.case)
  then show ?thesis by (simp add: md5_encode_def encode_word_def)
qed



text \<open>
  C33: The digest of a message. Whatever pieces the message arrives in, the digest is the one of the
  whole message as RFC 1321 defines it, by a loop over tables instead of 64 unrolled steps.
\<close>

theorem md5_correct:
  assumes "length (buffer m) = 64" "\<forall>c \<in> set cs. length c < 2 ^ 32 - 64"
  shows "raw_digest_int (md5_finalize (fold (\<lambda>c m. md5_update m c) cs (md5_init m))) =
    Some (md5_of (concat cs))"
  using md5_finalize_digest[OF md5.absorb_all[OF md5.start_empty[OF assms(1)] assms(2)]] by simp

theorem md5_correct_witness:
  "raw_digest_int (md5_finalize (fold (\<lambda>c m. md5_update m c) [[97], [98, 99]]
     (md5_init \<lparr>state = (0, 0, 0, 0), count0 = 7, count1 = 7, buffer = replicate 64 9, digest = [], finalized = True\<rparr>))) =
   Some [0x90, 0x01, 0x50, 0x98, 0x3c, 0xd2, 0x4f, 0xb0, 0xd6, 0x96, 0x3f, 0x7d, 0x28, 0xe1, 0x7f, 0x72]"
proof -
  have "length (replicate 64 (9 :: byte)) = 64" "\<forall>c \<in> set [[97], [98, 99 :: byte]]. length c < 2 ^ 32 - 64"
    by simp_all
  then show ?thesis
    using md5_of_abc md5_correct[of "\<lparr>state = (0, 0, 0, 0), count0 = 7, count1 = 7, buffer = replicate 64 9, digest = [], finalized = True\<rparr>"
      "[[97], [98, 99]]"] by simp
qed



end
