(* ===== verification/Sha512.thy ===== *)
theory Sha512
  imports Endian Md5
begin

text \<open>
  The SHA-512 digest of the tree hashes: the part of \<open>idrivebmrcommon/sha2/sha2.cpp\<close> behind
  \<open>sha512_init\<close>, \<open>sha512_update\<close> and \<open>sha512_final\<close>, in the build without unrolled rounds. The byte
  order of the host (\<open>BYTE_ORDER\<close>) is the parameter \<open>be\<close>. The block is expanded inside the context's
  buffer, which the model does too: the buffer holds the last sixteen words of the schedule afterwards.
\<close>

section \<open>Macros\<close>

definition REVERSE64 :: "u64 \<Rightarrow> u64" where
  "REVERSE64 w =
     (let tmp = drop_bit 32 w OR push_bit 32 w;
          tmp = drop_bit 8 (tmp AND 0xff00ff00ff00ff00) OR push_bit 8 (tmp AND 0x00ff00ff00ff00ff)
      in drop_bit 16 (tmp AND 0xffff0000ffff0000) OR push_bit 16 (tmp AND 0x0000ffff0000ffff))"

definition S64 :: "nat \<Rightarrow> u64 \<Rightarrow> u64" where
  "S64 b x = drop_bit b x OR push_bit (64 - b) x"

definition R_shift :: "nat \<Rightarrow> u64 \<Rightarrow> u64" where
  "R_shift b x = drop_bit b x"

definition Ch :: "u64 \<Rightarrow> u64 \<Rightarrow> u64 \<Rightarrow> u64" where
  "Ch x y z = (x AND y) XOR (NOT x AND z)"

definition Maj :: "u64 \<Rightarrow> u64 \<Rightarrow> u64 \<Rightarrow> u64" where
  "Maj x y z = (x AND y) XOR (x AND z) XOR (y AND z)"

definition Sigma0_512 :: "u64 \<Rightarrow> u64" where
  "Sigma0_512 x = S64 28 x XOR S64 34 x XOR S64 39 x"

definition Sigma1_512 :: "u64 \<Rightarrow> u64" where
  "Sigma1_512 x = S64 14 x XOR S64 18 x XOR S64 41 x"

definition sigma0_512 :: "u64 \<Rightarrow> u64" where
  "sigma0_512 x = S64 1 x XOR S64 8 x XOR R_shift 7 x"

definition sigma1_512 :: "u64 \<Rightarrow> u64" where
  "sigma1_512 x = S64 19 x XOR S64 61 x XOR R_shift 6 x"

text \<open>The eighty round constants, in decimal.\<close>

definition K512 :: "u64 list" where
  "K512 =
   [4794697086780616226, 8158064640168781261, 13096744586834688815, 16840607885511220156,
    4131703408338449720, 6480981068601479193, 10538285296894168987, 12329834152419229976,
    15566598209576043074, 1334009975649890238, 2608012711638119052, 6128411473006802146,
    8268148722764581231, 9286055187155687089, 11230858885718282805, 13951009754708518548,
    16472876342353939154, 17275323862435702243, 1135362057144423861, 2597628984639134821,
    3308224258029322869, 5365058923640841347, 6679025012923562964, 8573033837759648693,
    10970295158949994411, 12119686244451234320, 12683024718118986047, 13788192230050041572,
    14330467153632333762, 15395433587784984357, 489312712824947311, 1452737877330783856,
    2861767655752347644, 3322285676063803686, 5560940570517711597, 5996557281743188959,
    7280758554555802590, 8532644243296465576, 9350256976987008742, 10552545826968843579,
    11727347734174303076, 12113106623233404929, 14000437183269869457, 14369950271660146224,
    15101387698204529176, 15463397548674623760, 17586052441742319658, 1182934255886127544,
    1847814050463011016, 2177327727835720531, 2830643537854262169, 3796741975233480872,
    4115178125766777443, 5681478168544905931, 6601373596472566643, 7507060721942968483,
    8399075790359081724, 8693463985226723168, 9568029438360202098, 10144078919501101548,
    10430055236837252648, 11840083180663258601, 13761210420658862357, 14299343276471374635,
    14566680578165727644, 15097957966210449927, 16922976911328602910, 17689382322260857208,
    500013540394364858, 748580250866718886, 1242879168328830382, 1977374033974150939,
    2944078676154940804, 3659926193048069267, 4368137639120453308, 4836135668995329356,
    5532061633213252278, 6448918945643986474, 6902733635092675308, 7801388544844847127]"

type_synonym sha_regs = "u64 \<times> u64 \<times> u64 \<times> u64 \<times> u64 \<times> u64 \<times> u64 \<times> u64"

definition sha512_initial_hash_value :: sha_regs where
  "sha512_initial_hash_value =
     (0x6a09e667f3bcc908, 0xbb67ae8584caa73b, 0x3c6ef372fe94f82b, 0xa54ff53a5f1d36f1, 0x510e527fade682d1, 0x9b05688c2b3e6c1f, 0x1f83d9abfb41bd6b, 0x5be0cd19137e2179)"

text \<open>\<open>ADDINC128\<close> on the pair of counters.\<close>

definition ADDINC128 :: "u64 \<times> u64 \<Rightarrow> u64 \<Rightarrow> u64 \<times> u64" where
  "ADDINC128 w n = (let w0 = fst w + n in (w0, if w0 < n then snd w + 1 else snd w))"

section \<open>The transformation of one block\<close>

text \<open>The word \<open>*data\<close> reads from memory, converted from big endian; and the words of a buffer.\<close>

definition data_word :: "bool \<Rightarrow> byte list \<Rightarrow> nat \<Rightarrow> u64" where
  "data_word be bs j =
     (let w = of_mem be (take 8 (drop (8 * j) bs)) in if be then w else REVERSE64 w)"

definition buffer_words :: "bool \<Rightarrow> byte list \<Rightarrow> u64 list" where
  "buffer_words be bs = map (\<lambda>j. of_mem be (take 8 (drop (8 * j) bs))) [0..<16]"

definition sha_round :: "nat \<Rightarrow> u64 \<Rightarrow> sha_regs \<Rightarrow> sha_regs" where
  "sha_round j w = (\<lambda>(a, b, c, d, e, f, g, h).
     let T1 = h + Sigma1_512 e + Ch e f g + K512 ! j + w;
         T2 = Sigma0_512 a + Maj a b c
     in (T1 + T2, a, b, c, d + T1, e, f, g))"

definition load_step :: "bool \<Rightarrow> byte list \<Rightarrow> nat \<Rightarrow> sha_regs \<times> u64 list \<Rightarrow> sha_regs \<times> u64 list" where
  "load_step be data j = (\<lambda>(regs, W512).
     let W512 = W512[j := data_word be data j] in (sha_round j (W512 ! j) regs, W512))"

definition expand_step :: "nat \<Rightarrow> sha_regs \<times> u64 list \<Rightarrow> sha_regs \<times> u64 list" where
  "expand_step j = (\<lambda>(regs, W512).
     let s0 = sigma0_512 (W512 ! ((j + 1) AND 0x0f));
         s1 = sigma1_512 (W512 ! ((j + 14) AND 0x0f));
         W512 = W512[j AND 0x0f := W512 ! (j AND 0x0f) + (s1 + W512 ! ((j + 9) AND 0x0f) + s0)]
     in (sha_round j (W512 ! (j AND 0x0f)) regs, W512))"

fun add_regs :: "sha_regs \<Rightarrow> sha_regs \<Rightarrow> sha_regs" where
  "add_regs (a, b, c, d, e, f, g, h) (a', b', c', d', e', f', g', h') =
     (a + a', b + b', c + c', d + d', e + e', f + f', g + g', h + h')"

record SHA512_CTX =
  sha_state :: sha_regs
  bitcount :: "u64 \<times> u64"
  sha_buffer :: "byte list"

definition SHA512_Transform :: "bool \<Rightarrow> SHA512_CTX \<Rightarrow> byte list \<Rightarrow> SHA512_CTX" where
  "SHA512_Transform be ctx data =
     (let s = fold (load_step be data) [0..<16] (sha_state ctx, buffer_words be (sha_buffer ctx));
          (regs, W512) = fold expand_step [16..<80] s
      in ctx\<lparr>sha_state := add_regs (sha_state ctx) regs, sha_buffer := concat (map (mem_of be 8) W512)\<rparr>)"

section \<open>The context\<close>

definition SHA512_Init :: "SHA512_CTX \<Rightarrow> SHA512_CTX" where
  "SHA512_Init ctx = ctx\<lparr>sha_state := sha512_initial_hash_value, sha_buffer := replicate 128 0, bitcount := (0, 0)\<rparr>"

definition usedspace :: "SHA512_CTX \<Rightarrow> nat" where
  "usedspace ctx = unat (drop_bit 3 (fst (bitcount ctx)) mod 128)"

text \<open>\<open>MEMCPY_BCOPY(&context->buffer[i], data, len)\<close> and \<open>ADDINC128(context->bitcount, len << 3)\<close>.\<close>

definition buffer_data :: "SHA512_CTX \<Rightarrow> nat \<Rightarrow> byte list \<Rightarrow> SHA512_CTX" where
  "buffer_data ctx i data =
     ctx\<lparr>sha_buffer := put_bytes (sha_buffer ctx) i data,
         bitcount := ADDINC128 (bitcount ctx) (push_bit 3 (of_nat (length data)))\<rparr>"

function whole_blocks :: "bool \<Rightarrow> SHA512_CTX \<Rightarrow> byte list \<Rightarrow> SHA512_CTX \<times> byte list" where
  "whole_blocks be ctx data =
     (if 128 \<le> length data
      then let ctx = SHA512_Transform be ctx data
           in whole_blocks be (ctx\<lparr>bitcount := ADDINC128 (bitcount ctx) (push_bit 3 128)\<rparr>) (drop 128 data)
      else (ctx, data))"
  by pat_completeness auto

termination whole_blocks
  by (relation "measure (\<lambda>(be, ctx, data). length data)") auto

declare whole_blocks.simps [simp del]

definition SHA512_Update :: "bool \<Rightarrow> SHA512_CTX \<Rightarrow> byte list \<Rightarrow> SHA512_CTX" where
  "SHA512_Update be ctx data =
     (if data = [] then ctx
      else
        let used = usedspace ctx; freespace = 128 - used
        in if 0 < used \<and> length data < freespace then buffer_data ctx used data
           else
             let (ctx, data) =
               (if 0 < used
                then let ctx = buffer_data ctx used (take freespace data)
                     in (SHA512_Transform be ctx (sha_buffer ctx), drop freespace data)
                else (ctx, data));
                 (ctx, data) = whole_blocks be ctx data
             in if data \<noteq> [] then buffer_data ctx 0 data else ctx)"

text \<open>The bit that ends the message and the zeros after it; a block without room for the length is done first.\<close>

definition pad_buffer :: "bool \<Rightarrow> nat \<Rightarrow> SHA512_CTX \<Rightarrow> SHA512_CTX" where
  "pad_buffer be used ctx =
     (if 0 < used then
        let buf = (sha_buffer ctx)[used := 0x80]; used = used + 1
        in if used \<le> 112 then ctx\<lparr>sha_buffer := put_bytes buf used (replicate (112 - used) 0)\<rparr>
           else
             let buf = (if used < 128 then put_bytes buf used (replicate (128 - used) 0) else buf);
                 ctx = SHA512_Transform be (ctx\<lparr>sha_buffer := buf\<rparr>) buf
             in ctx\<lparr>sha_buffer := put_bytes (sha_buffer ctx) 0 (replicate (128 - 2) 0)\<rparr>
      else ctx\<lparr>sha_buffer := (put_bytes (sha_buffer ctx) 0 (replicate 112 0))[0 := 0x80]\<rparr>)"

text \<open>The counters are converted to big endian before they are stored.\<close>

definition SHA512_Last :: "bool \<Rightarrow> SHA512_CTX \<Rightarrow> SHA512_CTX" where
  "SHA512_Last be ctx =
     (let used = usedspace ctx;
          (b0, b1) = bitcount ctx;
          b0 = (if be then b0 else REVERSE64 b0);
          b1 = (if be then b1 else REVERSE64 b1);
          ctx = pad_buffer be used (ctx\<lparr>bitcount := (b0, b1)\<rparr>);
          buf = put_bytes (sha_buffer ctx) 112 (mem_of be 8 b1);
          buf = put_bytes buf (112 + 8) (mem_of be 8 b0)
      in SHA512_Transform be (ctx\<lparr>sha_buffer := buf\<rparr>) buf)"

text \<open>The digest and the context, which is overwritten with zeros.\<close>

definition SHA512_Final :: "bool \<Rightarrow> SHA512_CTX \<Rightarrow> byte list \<times> SHA512_CTX" where
  "SHA512_Final be ctx =
     (let ctx = SHA512_Last be ctx;
          (a, b, c, d, e, f, g, h) = sha_state ctx;
          out = (\<lambda>w. mem_of be 8 (if be then w else REVERSE64 w))
      in (concat (map out [a, b, c, d, e, f, g, h]),
          \<lparr>sha_state = (0, 0, 0, 0, 0, 0, 0, 0), bitcount = (0, 0), sha_buffer = replicate 128 0\<rparr>))"

section \<open>The algorithm as FIPS 180-4 defines it\<close>

definition be_word64 :: "byte list \<Rightarrow> u64" where
  "be_word64 bs = le_word (rev bs)"

definition be_bytes64 :: "u64 \<Rightarrow> byte list" where
  "be_bytes64 w = rev (le_bytes 8 w)"

definition block_words :: "byte list \<Rightarrow> u64 list" where
  "block_words bs = map (\<lambda>j. be_word64 (take 8 (drop (8 * j) bs))) [0..<16]"

definition schedule_step :: "nat \<Rightarrow> u64 list \<Rightarrow> u64 list" where
  "schedule_step t W = W @ [sigma1_512 (W ! (t - 2)) + W ! (t - 7) + sigma0_512 (W ! (t - 15)) + W ! (t - 16)]"

definition schedule :: "byte list \<Rightarrow> u64 list" where
  "schedule bs = fold schedule_step [16..<80] (block_words bs)"

definition sha_compress :: "sha_regs \<Rightarrow> byte list \<Rightarrow> sha_regs" where
  "sha_compress st bs = (let W = schedule bs in add_regs st (fold (\<lambda>t. sha_round t (W ! t)) [0..<80] st))"

function sha_blocks :: "sha_regs \<Rightarrow> byte list \<Rightarrow> sha_regs" where
  "sha_blocks st bs = (if length bs < 128 then st else sha_blocks (sha_compress st (take 128 bs)) (drop 128 bs))"
  by pat_completeness auto

termination sha_blocks
  by (relation "measure (\<lambda>(st, bs). length bs)") auto

declare sha_blocks.simps [simp del]

definition sha_pad :: "nat \<Rightarrow> byte list" where
  "sha_pad n = 0x80 # replicate ((239 - n mod 128) mod 128) 0 @
     be_bytes64 (of_nat (8 * n div 2 ^ 64)) @ be_bytes64 (of_nat (8 * n))"

definition sha512_of :: "byte list \<Rightarrow> byte list" where
  "sha512_of msg =
     (let (a, b, c, d, e, f, g, h) = sha_blocks sha512_initial_hash_value (msg @ sha_pad (length msg))
      in concat (map be_bytes64 [a, b, c, d, e, f, g, h]))"

section \<open>Byte order\<close>

lemma bit_u64_ge: "64 \<le> n \<Longrightarrow> \<not> bit (z :: u64) n"
  by (auto dest: bit_imp_le_length)

lemma le_bytes_REVERSE64: "le_bytes 8 (REVERSE64 z) = rev (le_bytes 8 z)"
  by (simp add: le_bytes_def upt_rec_numeral upt_conv_Cons, (intro conjI)?;
      rule word_eq_by_bits; simp add: REVERSE64_def Let_def swap_bit_eval bit_u64_ge)

lemma le_bytes_le_word:
  assumes "length bs = n" "8 * n \<le> LENGTH('a)"
  shows "le_bytes n (le_word bs :: 'a::len word) = bs"
proof (rule nth_equalityI)
  fix i assume i: "i < length (le_bytes n (le_word bs :: 'a word))"
  show "le_bytes n (le_word bs :: 'a word) ! i = bs ! i"
  proof (rule bit_word_eqI)
    fix j :: nat assume "j < LENGTH(8)"
    then have j: "j < 8" by simp
    have "8 * i + j < LENGTH('a)" using i j assms(2) by simp
    then show "bit (le_bytes n (le_word bs :: 'a word) ! i) j \<longleftrightarrow> bit (bs ! i) j"
      using i j assms by (simp add: le_bytes_def bit_simps bit_le_word)
  qed
qed (simp add: assms)

lemma REVERSE64_le_word:
  assumes "length bs = 8"
  shows "REVERSE64 (le_word bs) = be_word64 bs"
proof -
  have "le_bytes 8 (REVERSE64 (le_word bs)) = le_bytes 8 (be_word64 bs)"
    using assms by (simp add: le_bytes_REVERSE64 be_word64_def le_bytes_le_word)
  then show ?thesis by (subst (asm) le_bytes_inject) simp_all
qed

lemma data_word_be: "8 * j + 8 \<le> length bs \<Longrightarrow> data_word be bs j = be_word64 (take 8 (drop (8 * j) bs))"
  by (simp add: data_word_def of_mem_def be_word64_def REVERSE64_le_word)

lemma mem_of_reversed: "mem_of be 8 (if be then w else REVERSE64 w) = be_bytes64 w"
  by (simp add: mem_of_def be_bytes64_def le_bytes_REVERSE64)

section \<open>The circular schedule\<close>

lemma and_15: "n AND 15 = n mod (16 :: nat)"
proof -
  have "(15 :: nat) = mask 4" by (simp add: mask_eq_exp_minus_1)
  then show ?thesis by (simp only: take_bit_eq_mask [symmetric] take_bit_eq_mod) simp
qed

lemma length_block_words [simp]: "length (block_words bs) = 16"
  by (simp add: block_words_def)

lemma length_buffer_words [simp]: "length (buffer_words be bs) = 16"
  by (simp add: buffer_words_def)

text \<open>\<open>schedule_to bs t\<close>: the first \<open>t\<close> words.\<close>

definition schedule_to :: "byte list \<Rightarrow> nat \<Rightarrow> u64 list" where
  "schedule_to bs t = fold schedule_step [16..<t] (block_words bs)"

lemma schedule_to_16: "schedule_to bs 16 = block_words bs"
  by (simp add: schedule_to_def)

lemma schedule_to_Suc: "16 \<le> t \<Longrightarrow> schedule_to bs (Suc t) = schedule_step t (schedule_to bs t)"
  by (simp add: schedule_to_def)

lemma length_schedule_to: "16 \<le> t \<Longrightarrow> length (schedule_to bs t) = t"
proof (induction t rule: dec_induct)
  case (step t) then show ?case by (simp add: schedule_to_Suc schedule_step_def)
qed (simp add: schedule_to_16)

lemma schedule_to_mono:
  assumes "16 \<le> t" "t \<le> u" "i < t"
  shows "schedule_to bs u ! i = schedule_to bs t ! i"
  using assms(2)
proof (induction u rule: dec_induct)
  case (step u)
  then have "16 \<le> u" "i < u" using assms by simp_all
  with step.IH show ?case by (simp add: schedule_to_Suc schedule_step_def nth_append length_schedule_to)
qed simp

text \<open>The first sixteen rounds fill the window; afterwards it holds the last sixteen words.\<close>

lemma load_steps:
  assumes "128 \<le> length bs" "length W = 16" "n \<le> 16"
  shows "fold (load_step be bs) [0..<n] (st, W) =
    (fold (\<lambda>t. sha_round t (block_words bs ! t)) [0..<n] st, take n (block_words bs) @ drop n W)"
  using assms(3)
proof (induction n)
  case (Suc n)
  have "data_word be bs n = block_words bs ! n"
    using Suc.prems assms(1) by (simp add: data_word_be block_words_def)
  moreover have "(take n (block_words bs) @ drop n W)[n := block_words bs ! n] = take (Suc n) (block_words bs) @ drop (Suc n) W"
    using Suc.prems assms(2) by (simp add: take_Suc_nth list_update_append Cons_nth_drop_Suc[symmetric])
  moreover have "(take (Suc n) (block_words bs) @ drop (Suc n) W) ! n = block_words bs ! n"
    using Suc.prems by (simp add: nth_append)
  ultimately show ?case using Suc by (simp add: load_step_def Let_def)
qed simp

definition window :: "byte list \<Rightarrow> nat \<Rightarrow> u64 list \<Rightarrow> bool" where
  "window bs t W \<longleftrightarrow> length W = 16 \<and> (\<forall>i. t - 16 \<le> i \<and> i < t \<longrightarrow> W ! (i mod 16) = schedule_to bs t ! i)"

lemma window_step:
  assumes t: "16 \<le> t" and w: "window bs t W"
  shows "expand_step t (regs, W) =
      (sha_round t (schedule_to bs (Suc t) ! t) regs, W[t mod 16 := schedule_to bs (Suc t) ! t])"
    and "window bs (Suc t) (W[t mod 16 := schedule_to bs (Suc t) ! t])"
proof -
  note l = length_schedule_to[OF t]
  have W: "W ! ((t - k) mod 16) = schedule_to bs t ! (t - k)" if "1 \<le> k" "k \<le> 16" for k
    using w that t by (simp add: window_def)
  have m: "(t + 1) mod 16 = (t - 15) mod 16" "(t + 14) mod 16 = (t - 2) mod 16"
    "(t + 9) mod 16 = (t - 7) mod 16" "t mod 16 = (t - 16) mod 16"
  proof -
    have "t + 1 = (t - 15) + 16" "t + 14 = (t - 2) + 16" "t + 9 = (t - 7) + 16" "t = (t - 16) + 16"
      using t by simp_all
    then show "(t + 1) mod 16 = (t - 15) mod 16" "(t + 14) mod 16 = (t - 2) mod 16"
      "(t + 9) mod 16 = (t - 7) mod 16" "t mod 16 = (t - 16) mod 16"
      by (metis mod_add_self2)+
  qed
  have new: "schedule_to bs (Suc t) ! t = sigma1_512 (schedule_to bs t ! (t - 2)) + schedule_to bs t ! (t - 7) +
    sigma0_512 (schedule_to bs t ! (t - 15)) + schedule_to bs t ! (t - 16)"
    by (simp add: schedule_to_Suc t schedule_step_def nth_append l)
  have v: "W ! (t mod 16) + (sigma1_512 (W ! ((t + 14) mod 16)) + W ! ((t + 9) mod 16) + sigma0_512 (W ! ((t + 1) mod 16))) =
    schedule_to bs (Suc t) ! t"
    unfolding m new using W[of 2] W[of 7] W[of 15] W[of 16] by (simp add: ac_simps)
  have "length W = 16" using w by (simp add: window_def)
  then show "expand_step t (regs, W) =
      (sha_round t (schedule_to bs (Suc t) ! t) regs, W[t mod 16 := schedule_to bs (Suc t) ! t])"
    using v by (simp add: expand_step_def Let_def and_15)
  show "window bs (Suc t) (W[t mod 16 := schedule_to bs (Suc t) ! t])"
    unfolding window_def
  proof (intro conjI allI impI)
    fix i assume i: "Suc t - 16 \<le> i \<and> i < Suc t"
    show "W[t mod 16 := schedule_to bs (Suc t) ! t] ! (i mod 16) = schedule_to bs (Suc t) ! i"
    proof (cases "i = t")
      case True
      then show ?thesis using \<open>length W = 16\<close> by simp
    next
      case False
      then have d: "0 < t - i" "t - i < 16" "i < t" using i t by auto
      have "i mod 16 \<noteq> t mod 16"
      proof
        assume "i mod 16 = t mod 16"
        then have "16 dvd t - i" using mod_eq_dvd_iff_nat[of i t 16] d(3) by simp
        then show False using d(1,2) by (auto dest: dvd_imp_le)
      qed
      moreover have "W ! (i mod 16) = schedule_to bs t ! i" using w i d by (simp add: window_def)
      moreover have "schedule_to bs (Suc t) ! i = schedule_to bs t ! i"
        using d(3) t schedule_to_mono[of t "Suc t" i bs] by simp
      ultimately show ?thesis by simp
    qed
  qed (simp add: \<open>length W = 16\<close>)
qed

lemma expand_steps:
  assumes "window bs 16 W" "16 \<le> u"
  shows "\<exists>W'. length W' = 16 \<and> window bs u W' \<and> fold expand_step [16..<u] (regs, W) =
    (fold (\<lambda>t. sha_round t (schedule_to bs u ! t)) [16..<u] regs, W')"
  using assms(2)
proof (induction u rule: dec_induct)
  case base
  then show ?case using assms(1) by (auto simp: window_def)
next
  case (step u)
  then obtain W' where W': "window bs u W'" "fold expand_step [16..<u] (regs, W) =
    (fold (\<lambda>t. sha_round t (schedule_to bs u ! t)) [16..<u] regs, W')" by blast
  note s = window_step[OF step.hyps(1) W'(1)]
  have "fold (\<lambda>t. sha_round t (schedule_to bs u ! t)) [16..<u] regs =
    fold (\<lambda>t. sha_round t (schedule_to bs (Suc u) ! t)) [16..<u] regs"
    using step.hyps(1) by (intro fold_cong) (simp_all add: schedule_to_mono[of u "Suc u" _ bs])
  with s W'(2) step.hyps(1) show ?case by (auto simp: window_def)
qed

lemma SHA512_Transform_compress:
  assumes "128 \<le> length bs"
  shows "sha_state (SHA512_Transform be ctx bs) = sha_compress (sha_state ctx) bs"
    and "length (sha_buffer (SHA512_Transform be ctx bs)) = 128"
    and "bitcount (SHA512_Transform be ctx bs) = bitcount ctx"
proof -
  let ?st = "sha_state ctx"
  let ?r = "fold (\<lambda>t. sha_round t (block_words bs ! t)) [0..<16] ?st"
  have f16: "fold (load_step be bs) [0..<16] (?st, buffer_words be (sha_buffer ctx)) = (?r, block_words bs)"
    using load_steps[OF assms, of "buffer_words be (sha_buffer ctx)" 16 be ?st] by simp
  have "window bs 16 (block_words bs)" by (simp add: window_def schedule_to_16)
  then obtain W where W: "length W = 16" "fold expand_step [16..<80] (?r, block_words bs) =
    (fold (\<lambda>t. sha_round t (schedule_to bs 80 ! t)) [16..<80] ?r, W)"
    using expand_steps[of bs "block_words bs" 80 ?r] by auto
  have r: "?r = fold (\<lambda>t. sha_round t (schedule_to bs 80 ! t)) [0..<16] ?st"
    using schedule_to_mono[of 16 80 _ bs] by (intro fold_cong) (simp_all add: schedule_to_16)
  have "[0..<80] = [0..<16] @ [16..<80]" using upt_add_eq_append[of 0 16 64] by simp
  then have fin: "fold (\<lambda>t. sha_round t (schedule_to bs 80 ! t)) [16..<80] ?r =
    fold (\<lambda>t. sha_round t (schedule_to bs 80 ! t)) [0..<80] ?st"
    unfolding r by (simp only: fold_append comp_apply)
  have eq: "SHA512_Transform be ctx bs =
    ctx\<lparr>sha_state := sha_compress ?st bs, sha_buffer := concat (map (mem_of be 8) W)\<rparr>"
    unfolding SHA512_Transform_def f16 Let_def W(2) prod.case fin
    by (simp add: sha_compress_def schedule_def schedule_to_def Let_def)
  show "sha_state (SHA512_Transform be ctx bs) = sha_compress (sha_state ctx) bs"
    "bitcount (SHA512_Transform be ctx bs) = bitcount ctx" by (simp_all add: eq)
  have "length (concat (map (mem_of be 8) W)) = 8 * length W" by (induction W) simp_all
  then show "length (sha_buffer (SHA512_Transform be ctx bs)) = 128" by (simp add: eq W(1))
qed

section \<open>The context stands for the message so far\<close>

definition sha_inv :: "SHA512_CTX \<Rightarrow> byte list \<Rightarrow> bool" where
  "sha_inv ctx msg \<longleftrightarrow> length (sha_buffer ctx) = 128 \<and>
     sha_state ctx = sha_blocks sha512_initial_hash_value msg \<and>
     unat (fst (bitcount ctx)) + 2 ^ 64 * unat (snd (bitcount ctx)) = 8 * length msg mod 2 ^ 128 \<and>
     take (length msg mod 128) (sha_buffer ctx) = drop (128 * (length msg div 128)) msg"

lemma sha_blocks_append:
  "length bs mod 128 = 0 \<Longrightarrow> sha_blocks st (bs @ cs) = sha_blocks (sha_blocks st bs) cs"
proof (induction st bs rule: sha_blocks.induct)
  case (1 st bs)
  show ?case
  proof (cases "length bs < 128")
    case True
    with "1.prems" have "bs = []" by simp
    then show ?thesis by (simp add: sha_blocks.simps[of st "[]"])
  next
    case False
    then have "length (drop 128 bs) mod 128 = 0" using "1.prems" by (simp add: le_mod_geq [symmetric] not_less)
    from "1.IH"[OF False this] False show ?thesis
      using sha_blocks.simps[of st bs] sha_blocks.simps[of st "bs @ cs"] by simp
  qed
qed

lemma sha_blocks_short: "length bs < 128 \<Longrightarrow> sha_blocks st bs = st"
  by (subst sha_blocks.simps) simp

lemma sha_blocks_one: "length b = 128 \<Longrightarrow> sha_blocks st b = sha_compress st b"
  by (subst sha_blocks.simps) (simp add: sha_blocks_short)

lemma sha_compress_take: "128 \<le> length bs \<Longrightarrow> sha_compress st (take 128 bs) = sha_compress st bs"
proof -
  have "block_words (take 128 bs) = block_words bs"
    by (auto simp: block_words_def drop_take min_def)
  then show ?thesis by (simp add: sha_compress_def schedule_def)
qed

lemma ADDINC128_count:
  fixes w :: "u64 \<times> u64"
  assumes c: "unat (fst w) + 2 ^ 64 * unat (snd w) = 8 * n mod 2 ^ 128" and k: "k \<le> 128"
  defines "v \<equiv> ADDINC128 w (push_bit 3 (of_nat k))"
  shows "unat (fst v) + 2 ^ 64 * unat (snd v) = 8 * (n + k) mod 2 ^ 128"
proof -
  let ?M = "2 ^ 64 :: nat"
  have u: "unat (push_bit 3 (of_nat k) :: u64) = 8 * k"
  proof -
    have "unat (of_nat k :: u64) = k" using k by (simp add: unat_of_nat_small)
    then show ?thesis using k by (simp add: push_bit_eq_mult unat_word_ariths)
  qed
  have b: "unat (fst w) < ?M" "unat (snd w) < ?M"
    using unsigned_less[of "fst w"] unsigned_less[of "snd w"] by simp_all
  define carry where "carry = (if unat (fst w) + 8 * k < ?M then 0 else 1 :: nat)"
  have v0: "unat (fst v) = unat (fst w) + 8 * k - ?M * carry"
  proof (cases "unat (fst w) + 8 * k < ?M")
    case True
    then show ?thesis by (simp add: v_def ADDINC128_def Let_def unat_word_ariths u carry_def)
  next
    case False
    then have "(unat (fst w) + 8 * k) mod ?M = unat (fst w) + 8 * k - ?M"
      using b k by (simp add: le_mod_geq)
    with False show ?thesis by (simp add: v_def ADDINC128_def Let_def unat_word_ariths u carry_def)
  qed
  have "fst v < push_bit 3 (of_nat k) \<longleftrightarrow> carry = 1"
    using v0 b k by (auto simp: word_less_nat_alt u carry_def)
  moreover have "fst v = fst w + push_bit 3 (of_nat k)" by (simp add: v_def ADDINC128_def Let_def)
  ultimately have v1: "unat (snd v) = (unat (snd w) + carry) mod ?M"
    using b(2) by (auto simp: v_def ADDINC128_def Let_def unat_word_ariths carry_def split: if_splits)
  have sum: "unat (fst w) + 8 * k = unat (fst v) + ?M * carry"
    using v0 by (auto simp: carry_def)
  have "8 * (n + k) mod (?M * ?M) = (8 * n mod (?M * ?M) + 8 * k) mod (?M * ?M)"
    by (simp only: distrib_left mod_add_left_eq)
  also have "8 * n mod (?M * ?M) = unat (fst w) + ?M * unat (snd w)" using c by simp
  also have "unat (fst w) + ?M * unat (snd w) + 8 * k = unat (fst v) + ?M * (unat (snd w) + carry)"
    using sum by (simp only: distrib_left)
  also have "\<dots> mod (?M * ?M) = unat (fst v) + ?M * unat (snd v)"
  proof -
    have "unat (fst v) < ?M" using unsigned_less[of "fst v"] by simp
    then show ?thesis unfolding v1 by (rule two_words)
  qed
  finally have "8 * (n + k) mod (?M * ?M) = unat (fst v) + ?M * unat (snd v)" .
  moreover have "(2 :: nat) ^ 128 = ?M * ?M" by simp
  ultimately show ?thesis by (simp only:)
qed

lemma sha_usedspace:
  assumes "sha_inv ctx msg"
  shows "usedspace ctx = length msg mod 128"
proof -
  let ?b = "fst (bitcount ctx)"
  have "unat ?b < 2 ^ 64" using unsigned_less[of ?b] by simp
  then have "unat ?b = (unat ?b + 2 ^ 64 * unat (snd (bitcount ctx))) mod 2 ^ 64" by simp
  also have "\<dots> = 8 * length msg mod 2 ^ 64" using assms by (simp add: sha_inv_def mod_mod_cancel)
  finally have b: "unat ?b = 8 * (length msg mod 2 ^ 61)" by (simp add: mult_mod_right)
  have "usedspace ctx = unat (drop_bit 3 ?b) mod 128" by (simp add: usedspace_def unat_mod_distrib)
  also have "\<dots> = length msg mod 2 ^ 61 mod 128"
    by (simp only: unat_drop_bit_eq b) (simp add: drop_bit_eq_div)
  finally show ?thesis by (simp add: mod_mod_cancel)
qed

text \<open>The whole blocks of the message, and the rest of it.\<close>

lemma sha_inv_parts:
  assumes "sha_inv ctx msg"
  obtains whole where "msg = whole @ take (length msg mod 128) (sha_buffer ctx)" "length whole mod 128 = 0"
    "sha_state ctx = sha_blocks sha512_initial_hash_value whole" "length whole = 128 * (length msg div 128)"
proof
  let ?w = "take (128 * (length msg div 128)) msg"
  let ?r = "take (length msg mod 128) (sha_buffer ctx)"
  have r: "?r = drop (128 * (length msg div 128)) msg" using assms by (simp add: sha_inv_def)
  then show m: "msg = ?w @ ?r" by simp
  show l: "length ?w = 128 * (length msg div 128)" by simp
  then show l0: "length ?w mod 128 = 0" by simp
  have "length ?r < 128" by simp
  then show "sha_state ctx = sha_blocks sha512_initial_hash_value ?w"
    using assms m sha_blocks_append[OF l0, of sha512_initial_hash_value ?r]
    by (simp add: sha_inv_def sha_blocks_short del: length_take)
qed

lemma mod_128_add:
  assumes "n mod 128 + k < (128 :: nat)"
  shows "(n + k) mod 128 = n mod 128 + k" "(n + k) div 128 = n div 128"
proof -
  have "(n + k) mod 128 = (n mod 128 + k) mod 128" by (simp add: mod_add_left_eq)
  then show m: "(n + k) mod 128 = n mod 128 + k" using assms by simp
  show "(n + k) div 128 = n div 128"
    using m mult_div_mod_eq[of 128 "n + k"] mult_div_mod_eq[of 128 n] by linarith
qed

lemma buffer_data_inv:
  assumes inv: "sha_inv ctx msg" and k: "length msg mod 128 + length d < 128"
  shows "sha_inv (buffer_data ctx (length msg mod 128) d) (msg @ d)"
proof -
  let ?i = "length msg mod 128"
  have b: "length (sha_buffer ctx) = 128" using inv by (simp add: sha_inv_def)
  obtain whole where w: "msg = whole @ take ?i (sha_buffer ctx)" "length whole mod 128 = 0"
    "sha_state ctx = sha_blocks sha512_initial_hash_value whole" "length whole = 128 * (length msg div 128)"
    using sha_inv_parts[OF inv] by blast
  note m = mod_128_add[OF k]
  have md: "msg @ d = whole @ (take ?i (sha_buffer ctx) @ d)" using w(1) by (metis append.assoc)
  have st: "sha_blocks sha512_initial_hash_value (msg @ d) = sha_state ctx"
    unfolding md sha_blocks_append[OF w(2)] w(3) using k b by (intro sha_blocks_short) simp
  have tk: "take (?i + length d) (put_bytes (sha_buffer ctx) ?i d) = drop (128 * (length msg div 128)) (msg @ d)"
    unfolding md using b by (simp add: take_put_bytes w(4)[symmetric])
  have c: "unat (fst (bitcount (buffer_data ctx ?i d))) + 2 ^ 64 * unat (snd (bitcount (buffer_data ctx ?i d))) =
    8 * (length msg + length d) mod 2 ^ 128"
    unfolding buffer_data_def using inv k ADDINC128_count[of "bitcount ctx" "length msg" "length d"]
    by (simp add: sha_inv_def)
  show ?thesis
    unfolding sha_inv_def length_append m
    using b k tk c st by (simp add: buffer_data_def length_put_bytes)
qed

lemma buffer_fill_inv:
  assumes inv: "sha_inv ctx msg" and k: "length msg mod 128 + length d = 128"
  defines "c \<equiv> buffer_data ctx (length msg mod 128) d"
  shows "sha_inv (SHA512_Transform be c (sha_buffer c)) (msg @ d)"
proof -
  let ?i = "length msg mod 128"
  have b: "length (sha_buffer ctx) = 128" using inv by (simp add: sha_inv_def)
  obtain whole where w: "msg = whole @ take ?i (sha_buffer ctx)" "length whole mod 128 = 0"
    "sha_state ctx = sha_blocks sha512_initial_hash_value whole" "length whole = 128 * (length msg div 128)"
    using sha_inv_parts[OF inv] by blast
  have cb: "sha_buffer c = take ?i (sha_buffer ctx) @ d" "sha_state c = sha_state ctx"
    using take_put_bytes[of ?i "sha_buffer ctx" d] k b length_put_bytes[of ?i d "sha_buffer ctx"]
    by (simp_all add: c_def buffer_data_def)
  have lc: "length (sha_buffer c) = 128" using cb b k by simp
  have md: "msg @ d = whole @ sha_buffer c" unfolding cb using w(1) by (metis append.assoc)
  have len: "length msg + length d = 128 * (length msg div 128 + 1)"
    unfolding distrib_left using k mult_div_mod_eq[of 128 "length msg"] by linarith
  have mm: "(length msg + length d) mod 128 = 0" "128 * ((length msg + length d) div 128) = length msg + length d"
    unfolding len by simp_all
  note t = SHA512_Transform_compress[of "sha_buffer c" be c]
  have st: "sha_state (SHA512_Transform be c (sha_buffer c)) = sha_blocks sha512_initial_hash_value (msg @ d)"
    unfolding md sha_blocks_append[OF w(2)] using t(1) lc cb(2) w(3) sha_blocks_one[OF lc] by simp
  have cc: "unat (fst (bitcount c)) + 2 ^ 64 * unat (snd (bitcount c)) = 8 * (length msg + length d) mod 2 ^ 128"
    unfolding c_def buffer_data_def using inv k ADDINC128_count[of "bitcount ctx" "length msg" "length d"]
    by (simp add: sha_inv_def)
  show ?thesis
    unfolding sha_inv_def length_append mm using t lc st cc by simp
qed

lemma whole_blocks_inv:
  assumes "sha_inv ctx msg" "length msg mod 128 = 0" "whole_blocks be ctx d = (ctx', r)"
  shows "length r < 128 \<and> (\<exists>p. d = p @ r \<and> sha_inv ctx' (msg @ p) \<and> length (msg @ p) mod 128 = 0)"
  using assms
proof (induction be ctx d arbitrary: msg rule: whole_blocks.induct)
  case (1 be ctx d)
  show ?case
  proof (cases "128 \<le> length d")
    case True
    let ?t = "SHA512_Transform be ctx d"
    let ?c = "?t\<lparr>bitcount := ADDINC128 (bitcount ?t) (push_bit 3 128)\<rparr>"
    let ?p = "take 128 d"
    note t = SHA512_Transform_compress[OF True, of be ctx]
    have lp: "length ?p = 128" using True by simp
    have mm: "(length msg + 128) mod 128 = 0" "128 * ((length msg + 128) div 128) = length msg + 128"
      using "1.prems"(2) mult_div_mod_eq[of 128 "length msg + 128"] by simp_all
    have st: "sha_state ?c = sha_blocks sha512_initial_hash_value (msg @ ?p)"
      using t(1) "1.prems"(1) sha_blocks_append[OF "1.prems"(2), of sha512_initial_hash_value ?p] sha_blocks_one[OF lp] True
      by (simp add: sha_inv_def sha_compress_take)
    have "unat (fst (bitcount ?c)) + 2 ^ 64 * unat (snd (bitcount ?c)) = 8 * (length msg + 128) mod 2 ^ 128"
      using "1.prems"(1) ADDINC128_count[of "bitcount ctx" "length msg" 128] t(3) by (simp add: sha_inv_def)
    moreover have "length (sha_buffer ?c) = 128" using t(2) by simp
    moreover have "take 0 (sha_buffer ?c) = drop (length msg + 128) (msg @ ?p)" using lp by simp
    ultimately have inv: "sha_inv ?c (msg @ ?p)"
      unfolding sha_inv_def length_append lp mm using st by (intro conjI)
    have m0: "length (msg @ ?p) mod 128 = 0" using lp mm by simp
    have "whole_blocks be ?c (drop 128 d) = (ctx', r)"
      using "1.prems"(3) True by (subst (asm) whole_blocks.simps) (simp add: Let_def)
    note IH = "1.IH"[OF True refl inv m0 this]
    from conjunct2[OF IH] obtain p where p: "drop 128 d = p @ r" "sha_inv ctx' ((msg @ ?p) @ p)"
      "length ((msg @ ?p) @ p) mod 128 = 0" by (elim exE conjE)
    have "d = ?p @ drop 128 d" by simp
    also have "\<dots> = (?p @ p) @ r" unfolding p(1) by simp
    finally have "d = (?p @ p) @ r" .
    moreover have "sha_inv ctx' (msg @ ?p @ p)" using p(2) by (simp only: append.assoc)
    moreover have "length (msg @ ?p @ p) mod 128 = 0" using p(3) by (simp only: append.assoc)
    ultimately show ?thesis using conjunct1[OF IH] by (intro conjI exI[of _ "?p @ p"])
  next
    case False
    with "1.prems"(3) have "ctx' = ctx" "r = d" by (simp_all add: whole_blocks.simps)
    with False "1.prems" show ?thesis by auto
  qed
qed

lemma SHA512_Update_inv:
  assumes inv: "sha_inv ctx msg"
  shows "sha_inv (SHA512_Update be ctx d) (msg @ d)"
proof (cases "d = []")
  case True
  with inv show ?thesis by (simp add: SHA512_Update_def)
next
  case d: False
  let ?i = "length msg mod 128"
  note u = sha_usedspace[OF inv]
  show ?thesis
  proof (cases "0 < ?i \<and> length d < 128 - ?i")
    case True
    then have "SHA512_Update be ctx d = buffer_data ctx ?i d"
      using d by (simp add: SHA512_Update_def Let_def u)
    moreover have "?i + length d < 128" using True by linarith
    ultimately show ?thesis using buffer_data_inv[OF inv] by (simp only:)
  next
    case False
    define f where "f = (if 0 < ?i then 128 - ?i else 0)"
    define c where "c = (if 0 < ?i then let ctx = buffer_data ctx ?i (take f d) in SHA512_Transform be ctx (sha_buffer ctx) else ctx)"
    obtain c' r where w: "whole_blocks be c (drop f d) = (c', r)" by fastforce
    have upd: "SHA512_Update be ctx d = (if r \<noteq> [] then buffer_data c' 0 r else c')"
    proof (cases "0 < ?i")
      case True
      with False d w show ?thesis by (simp add: SHA512_Update_def u Let_def f_def c_def)
    next
      case False
      with d w show ?thesis by (simp add: SHA512_Update_def u Let_def f_def c_def)
    qed
    have c: "sha_inv c (msg @ take f d) \<and> length (msg @ take f d) mod 128 = 0"
    proof (cases "0 < ?i")
      case True
      with False have "128 - ?i \<le> length d" by simp
      moreover have "?i < 128" by simp
      ultimately have l: "?i + length (take f d) = 128" using True by (simp add: f_def)
      have "(length msg + length (take f d)) mod 128 = (?i + length (take f d)) mod 128" by (simp only: mod_add_left_eq)
      then have "length (msg @ take f d) mod 128 = 0" by (simp only: l length_append mod_self)
      then show ?thesis using buffer_fill_inv[OF inv l, of be] True by (simp add: c_def Let_def)
    next
      case False
      then show ?thesis using inv by (simp add: c_def f_def)
    qed
    from whole_blocks_inv[OF conjunct1[OF c] conjunct2[OF c] w] obtain p where p: "length r < 128"
      "drop f d = p @ r" "sha_inv c' ((msg @ take f d) @ p)" "length ((msg @ take f d) @ p) mod 128 = 0"
      by (elim exE conjE)
    have all: "msg @ d = ((msg @ take f d) @ p) @ r"
      using p(2) by (metis append.assoc append_take_drop_id)
    show ?thesis
    proof (cases "r = []")
      case True
      then show ?thesis using p(3) unfolding upd all by simp
    next
      case False
      have "length ((msg @ take f d) @ p) mod 128 + length r < 128" using p(1) p(4) by (simp only:)
      from buffer_data_inv[OF p(3) this] show ?thesis unfolding upd all using False p(4) by simp
    qed
  qed
qed

lemma SHA512_Init_inv: "sha_inv (SHA512_Init ctx) []"
  by (simp add: sha_inv_def SHA512_Init_def sha_blocks_short)

text \<open>What is left of the message with the padding, up to the length of the last block.\<close>

lemma pad_buffer_state:
  fixes be :: bool
  assumes u: "u < 128" and lb: "length (sha_buffer ctx) = 128"
  defines "c \<equiv> pad_buffer be u ctx"
  defines "tail \<equiv> take u (sha_buffer ctx) @ 0x80 # replicate ((239 - u) mod 128) 0"
  shows "sha_compress (sha_state c) (take 112 (sha_buffer c) @ lenb) = sha_blocks (sha_state ctx) (tail @ lenb)
    \<or> length lenb \<noteq> 16"
    and "length (sha_buffer c) = 128"
proof -
  let ?b = "sha_buffer ctx"
  have upd: "?b[u := 0x80] = take u ?b @ 0x80 # drop (u + 1) ?b"
    using u lb by (simp add: upd_conv_take_nth_drop)
  consider (none) "u = 0" | (room) "0 < u" "u + 1 \<le> 112" | (full) "112 \<le> u" using u by linarith
  then have "(length lenb = 16 \<longrightarrow>
      sha_compress (sha_state c) (take 112 (sha_buffer c) @ lenb) = sha_blocks (sha_state ctx) (tail @ lenb))
    \<and> length (sha_buffer c) = 128"
  proof cases
    case none
    have c: "c = ctx\<lparr>sha_buffer := (put_bytes ?b 0 (replicate 112 0))[0 := 0x80]\<rparr>"
      using none by (simp add: c_def pad_buffer_def)
    have "replicate 112 (0 :: byte) = 0 # replicate 111 0"
      using replicate_Suc[of 111 "0 :: byte"] by simp
    then have "(put_bytes ?b 0 (replicate 112 0))[0 := 0x80] = tail @ drop 112 ?b"
      using none by (simp only: put_bytes_def tail_def) simp
    moreover have "length tail = 112" using none by (simp add: tail_def)
    ultimately have "take 112 (sha_buffer c) = tail" "length (sha_buffer c) = 128" "length tail = 112"
      using lb by (simp_all add: c)
    then show ?thesis by (simp add: c sha_blocks_one)
  next
    case room
    let ?z = "replicate (111 - u) 0 :: byte list"
    have "239 - u = 128 + (111 - u)" using room by linarith
    then have "(239 - u) mod 128 = (111 - u) mod 128" by (simp only: mod_add_self1)
    then have "(239 - u) mod 128 = 111 - u" using room by simp
    then have tail: "tail = take u ?b @ 0x80 # ?z" by (simp add: tail_def)
    have "put_bytes (?b[u := 0x80]) (u + 1) (replicate (112 - (u + 1)) 0) = take u ?b @ 0x80 # ?z @ drop 112 ?b"
      unfolding upd using room lb u by (simp add: put_bytes_def drop_Cons')
    then have c: "c = ctx\<lparr>sha_buffer := tail @ drop 112 ?b\<rparr>"
      using room by (simp add: c_def pad_buffer_def Let_def tail)
    have "length tail = 112" using room lb by (simp add: tail)
    then show ?thesis using lb by (simp add: c sha_blocks_one)
  next
    case full
    let ?z = "replicate (127 - u) 0 :: byte list"
    let ?blk = "take u ?b @ 0x80 # ?z"
    have buf: "(if u + 1 < 128 then put_bytes (?b[u := 0x80]) (u + 1) (replicate (128 - (u + 1)) 0) else ?b[u := 0x80]) = ?blk"
    proof (cases "u + 1 < 128")
      case True
      then show ?thesis unfolding upd using lb u by (simp add: put_bytes_def drop_Cons')
    next
      case False
      then have "u = 127" using u by linarith
      then show ?thesis unfolding upd using lb by simp
    qed
    have lblk: "length ?blk = 128" using lb u by simp
    have tail: "tail = ?blk @ replicate 112 0"
    proof -
      have "(239 - u) mod 128 = (127 - u) + 112" using full u by simp
      then show ?thesis unfolding tail_def by (simp only: replicate_add) simp
    qed
    let ?t = "SHA512_Transform be (ctx\<lparr>sha_buffer := ?blk\<rparr>) ?blk"
    note t = SHA512_Transform_compress[of ?blk be "ctx\<lparr>sha_buffer := ?blk\<rparr>"]
    have nif: "\<not> u + 1 \<le> 112" "0 < u" using full by simp_all
    have c: "c = ?t\<lparr>sha_buffer := put_bytes (sha_buffer ?t) 0 (replicate (128 - 2) 0)\<rparr>"
      unfolding c_def pad_buffer_def Let_def buf by (simp only: nif if_True if_False)
    have "take 112 (sha_buffer c) = replicate 112 0" "length (sha_buffer c) = 128"
      using t lblk by (simp_all add: c put_bytes_def)
    moreover have "sha_state c = sha_blocks (sha_state ctx) ?blk"
      using t(1) lblk by (simp add: c sha_blocks_one)
    moreover have "sha_blocks (sha_state ctx) (tail @ lenb) = sha_blocks (sha_blocks (sha_state ctx) ?blk) (replicate 112 0 @ lenb)"
      using sha_blocks_append[of ?blk "sha_state ctx" "replicate 112 0 @ lenb"] lblk unfolding tail by simp
    ultimately show ?thesis by (simp add: sha_blocks_one)
  qed
  then show "sha_compress (sha_state c) (take 112 (sha_buffer c) @ lenb) = sha_blocks (sha_state ctx) (tail @ lenb)
    \<or> length lenb \<noteq> 16" and "length (sha_buffer c) = 128" by blast+
qed

lemma SHA512_Last_blocks:
  assumes inv: "sha_inv ctx msg"
  shows "sha_state (SHA512_Last be ctx) = sha_blocks sha512_initial_hash_value (msg @ sha_pad (length msg))"
proof -
  let ?i = "length msg mod 128" and ?b = "sha_buffer ctx" and ?n = "length msg"
  note u = sha_usedspace[OF inv]
  obtain b0 b1 where bc: "bitcount ctx = (b0, b1)" by fastforce
  have lb: "length ?b = 128" and i: "?i < 128" using inv by (simp_all add: sha_inv_def)
  obtain whole where w: "msg = whole @ take ?i ?b" "length whole mod 128 = 0"
    "sha_state ctx = sha_blocks sha512_initial_hash_value whole" by (rule sha_inv_parts[OF inv])
  define lenb where "lenb = be_bytes64 b1 @ be_bytes64 b0"
  have ll: "length (be_bytes64 w) = 8" for w by (simp add: be_bytes64_def)
  then have llen: "length lenb = 16" by (simp add: lenb_def)
  have pad: "sha_pad ?n = 0x80 # replicate ((239 - ?i) mod 128) 0 @ lenb"
  proof -
    have "unat b0 < 2 ^ 64" "unat b1 < 2 ^ 64"
      using unsigned_less[of b0] unsigned_less[of b1] by simp_all
    moreover have "unat b0 + 2 ^ 64 * unat b1 = 8 * ?n mod (2 ^ 64 * 2 ^ 64)"
      using inv bc by (simp add: sha_inv_def)
    ultimately have "unat b0 = 8 * ?n mod 2 ^ 64" "unat b1 = 8 * ?n div 2 ^ 64 mod 2 ^ 64"
      by (rule split_words)+
    then have "b0 = of_nat (8 * ?n)" "b1 = of_nat (8 * ?n div 2 ^ 64)"
      by (simp_all add: word_unat_eq_iff unsigned_of_nat take_bit_eq_mod del: of_nat_mult)
    then show ?thesis by (simp add: sha_pad_def lenb_def)
  qed
  define c0 where "c0 = ctx\<lparr>bitcount := (if be then b0 else REVERSE64 b0, if be then b1 else REVERSE64 b1)\<rparr>"
  have c0: "sha_state c0 = sha_state ctx" "sha_buffer c0 = ?b" by (simp_all add: c0_def)
  let ?c = "pad_buffer be ?i c0"
  have lb0: "length (sha_buffer c0) = 128" using lb by (simp add: c0)
  note p = pad_buffer_state(1)[OF i lb0, where be = be and lenb = lenb] pad_buffer_state(2)[OF i lb0, of be]
  have fin: "put_bytes (put_bytes (sha_buffer ?c) 112 (be_bytes64 b1)) (112 + 8) (be_bytes64 b0) =
    take 112 (sha_buffer ?c) @ lenb"
    using p(2) by (simp add: put_bytes_def ll lenb_def)
  have "SHA512_Last be ctx = SHA512_Transform be (?c\<lparr>sha_buffer := take 112 (sha_buffer ?c) @ lenb\<rparr>)
    (take 112 (sha_buffer ?c) @ lenb)"
    unfolding SHA512_Last_def Let_def u bc prod.case mem_of_reversed c0_def [symmetric] fin ..
  then have "sha_state (SHA512_Last be ctx) = sha_compress (sha_state ?c) (take 112 (sha_buffer ?c) @ lenb)"
    using SHA512_Transform_compress(1)[of "take 112 (sha_buffer ?c) @ lenb"] p(2) llen by simp
  also have "\<dots> = sha_blocks (sha_state ctx) ((take ?i ?b @ 0x80 # replicate ((239 - ?i) mod 128) 0) @ lenb)"
    using p(1) llen by (simp add: c0)
  also have "\<dots> = sha_blocks sha512_initial_hash_value (whole @ take ?i ?b @ sha_pad ?n)"
    unfolding w(3) pad by (subst sha_blocks_append[OF w(2)]) simp
  also have "whole @ take ?i ?b @ sha_pad ?n = msg @ sha_pad ?n" using w(1) by (metis append.assoc)
  finally show ?thesis .
qed

lemma SHA512_Final_digest:
  "sha_inv ctx msg \<Longrightarrow> fst (SHA512_Final be ctx) = sha512_of msg"
  by (simp add: SHA512_Final_def Let_def sha512_of_def SHA512_Last_blocks mem_of_reversed split: prod.splits)

interpretation sha512: streaming_digest SHA512_Init "SHA512_Update be" "\<lambda>c. fst (SHA512_Final be c)"
  "\<lambda>_. True" "\<lambda>_. True" sha_inv sha512_of for be
  by unfold_locales (simp_all add: SHA512_Init_inv SHA512_Update_inv SHA512_Final_digest)

lemma length_sha512_of: "length (sha512_of msg) = 64"
  by (simp add: sha512_of_def be_bytes64_def split: prod.split)

text \<open>
  C34: The digest of a message. Whatever pieces the message arrives in, and on hosts of both byte
  orders, the digest is the one FIPS 180-4 defines for the whole message with a schedule of eighty words.
\<close>

theorem sha512_correct:
  "fst (SHA512_Final be (fold (\<lambda>d c. SHA512_Update be c d) ds (SHA512_Init ctx))) = sha512_of (concat ds)"
  by (rule sha512.digest_of_pieces) simp_all


end
