(* ===== verification/Adler.thy ===== *)
theory Adler
  imports Memory
begin

text \<open>
  The rolling checksum of the file transfer: \<open>common/adler32.cpp\<close>. The two sums are 32-bit words that
  the code reduces as rarely as it can; the proofs show that they never wrap around before that.
\<close>

section \<open>The code\<close>

definition BASE :: nat where "BASE = 65521"

definition NMAX :: nat where "NMAX = 5552"

text \<open>\<open>{adler += (buf)[i]; sum2 += adler;}\<close> and its unrolled form for 16 bytes.\<close>

definition DO1 :: "byte \<Rightarrow> u32 \<times> u32 \<Rightarrow> u32 \<times> u32" where
  "DO1 b = (\<lambda>(adler, sum2). let adler = adler + ucast b in (adler, sum2 + adler))"

definition DO16 :: "byte list \<Rightarrow> u32 \<times> u32 \<Rightarrow> u32 \<times> u32" where
  "DO16 buf s = fold DO1 (take 16 buf) s"

definition MODs :: "u32 \<times> u32 \<Rightarrow> u32 \<times> u32" where
  "MODs = (\<lambda>(adler, sum2). (adler mod of_nat BASE, sum2 mod of_nat BASE))"

text \<open>\<open>do { DO16(buf); buf += 16; } while (--n);\<close>\<close>

fun do_blocks :: "nat \<Rightarrow> byte list \<Rightarrow> u32 \<times> u32 \<Rightarrow> byte list \<times> (u32 \<times> u32)" where
  "do_blocks 0 buf s = (buf, s)"
| "do_blocks (Suc n) buf s = do_blocks n (drop 16 buf) (DO16 buf s)"

text \<open>\<open>while (len >= NMAX) { ... }\<close>\<close>

function nmax_loop :: "byte list \<Rightarrow> u32 \<times> u32 \<Rightarrow> byte list \<times> (u32 \<times> u32)" where
  "nmax_loop buf s =
     (if NMAX \<le> length buf then
        let (rest, s) = do_blocks (NMAX div 16) buf s
        in nmax_loop (drop NMAX buf) (MODs s)
      else (buf, s))"
  by pat_completeness auto

termination nmax_loop
  by (relation "measure (\<lambda>(buf, s). length buf)") (auto simp: NMAX_def)

declare nmax_loop.simps [simp del]

text \<open>\<open>while (len >= 16) { ... }\<close>\<close>

function by16_loop :: "byte list \<Rightarrow> u32 \<times> u32 \<Rightarrow> byte list \<times> (u32 \<times> u32)" where
  "by16_loop buf s = (if 16 \<le> length buf then by16_loop (drop 16 buf) (DO16 buf s) else (buf, s))"
  by pat_completeness auto

termination by16_loop
  by (relation "measure (\<lambda>(buf, s). length buf)") auto

declare by16_loop.simps [simp del]

definition subtract_base :: "u32 \<Rightarrow> u32" where
  "subtract_base x = (if of_nat BASE \<le> x then x - of_nat BASE else x)"

definition urb_adler32 :: "u32 \<Rightarrow> byte list option \<Rightarrow> u32" where
  "urb_adler32 adler pbuf =
     (let sum2 = drop_bit 16 adler AND 0xffff;
          adler = adler AND 0xffff
      in case pbuf of
           None \<Rightarrow> 1
         | Some buf \<Rightarrow>
             if length buf = 1 then
               let adler = subtract_base (adler + ucast (buf ! 0));
                   sum2 = subtract_base (sum2 + adler)
               in adler OR push_bit 16 sum2
             else if length buf < 16 then
               let (adler, sum2) = fold DO1 buf (adler, sum2);
                   adler = subtract_base adler;
                   sum2 = sum2 mod of_nat BASE
               in adler OR push_bit 16 sum2
             else
               let (buf, s) = nmax_loop buf (adler, sum2);
                   (adler, sum2) = (if buf = [] then s
                     else let (buf, s) = by16_loop buf s in MODs (fold DO1 buf s))
               in adler OR push_bit 16 sum2)"

text \<open>
  \<open>urb_adler32_combine\<close>: \<open>sum1\<close> and \<open>sum2\<close> are \<open>unsigned long\<close> (64 bits), \<open>rem\<close> is \<open>unsigned\<close>, and
  the result is truncated to 32 bits.
\<close>

definition sub_if :: "u64 \<Rightarrow> u64 \<Rightarrow> u64" where
  "sub_if m x = (if m \<le> x then x - m else x)"

definition urb_adler32_combine :: "u32 \<Rightarrow> u32 \<Rightarrow> u32 \<Rightarrow> u32" where
  "urb_adler32_combine adler1 adler2 len2 =
     (let rem = len2 mod of_nat BASE;
          sum1 = ucast (adler1 AND 0xffff) :: u64;
          sum2 = ucast rem * sum1;
          sum2 = sum2 mod of_nat BASE;
          sum1 = sum1 + ucast ((adler2 AND 0xffff) + of_nat BASE - 1);
          sum2 = sum2 + ucast ((drop_bit 16 adler1 AND 0xffff) + (drop_bit 16 adler2 AND 0xffff)
                   + of_nat BASE - rem);
          sum1 = sub_if (of_nat BASE) (sub_if (of_nat BASE) sum1);
          sum2 = sub_if (of_nat BASE) (sub_if (push_bit 1 (of_nat BASE)) sum2)
      in ucast (sum1 OR push_bit 16 sum2))"

section \<open>The checksum as two sums\<close>

text \<open>The definition of the checksum: one plus the sum of the bytes, and the sum of those sums.\<close>

fun adler_sums :: "byte list \<Rightarrow> nat \<times> nat \<Rightarrow> nat \<times> nat" where
  "adler_sums [] s = s"
| "adler_sums (b # bs) (x, y) = adler_sums bs (x + unat b, y + (x + unat b))"

definition adler_pair :: "nat \<times> nat \<Rightarrow> u32" where
  "adler_pair = (\<lambda>(x, y). of_nat (x mod BASE) OR push_bit 16 (of_nat (y mod BASE)))"

definition adler32_of :: "byte list \<Rightarrow> u32" where
  "adler32_of bs = adler_pair (adler_sums bs (1, 0))"

lemma unat_byte: "unat (b :: byte) < 256"
proof -
  have "unat b < 2 ^ LENGTH(8)" by (rule unsigned_less)
  then show ?thesis by simp
qed

lemma adler_sums_append: "adler_sums (xs @ ys) s = adler_sums ys (adler_sums xs s)"
  by (induction xs s rule: adler_sums.induct) auto

text \<open>The sums grow linearly in the starting values.\<close>

lemma adler_sums_shift:
  "adler_sums bs (x + dx, y + dy) =
     (fst (adler_sums bs (x, y)) + dx, snd (adler_sums bs (x, y)) + dy + length bs * dx)"
proof (induction bs arbitrary: x y dx dy)
  case (Cons b bs)
  have "adler_sums (b # bs) (x + dx, y + dy) = adler_sums bs ((x + unat b) + dx, (y + (x + unat b)) + (dy + dx))"
    by (simp add: algebra_simps)
  also have "\<dots> = (fst (adler_sums (b # bs) (x, y)) + dx, snd (adler_sums (b # bs) (x, y)) + (dy + dx) + length bs * dx)"
    by (subst Cons.IH) simp
  finally show ?case by simp
qed simp

lemma adler_sums_bound:
  "fst (adler_sums bs (x, y)) \<le> x + 255 * length bs \<and>
   snd (adler_sums bs (x, y)) \<le> y + length bs * x + 255 * (length bs * (length bs + 1) div 2)"
proof (induction bs arbitrary: x y)
  case (Cons b bs)
  have b: "unat b \<le> 255" using unat_byte[of b] by simp
  have tri: "length (b # bs) * (length (b # bs) + 1) div 2 = length bs * (length bs + 1) div 2 + length bs + 1"
    by simp
  have "length bs * unat b \<le> length bs * 255" using b by (rule mult_le_mono2)
  define T where "T = length bs * (length bs + 1) div 2"
  define L where "L = length bs * x"
  define K where "K = length bs * unat b"
  note IH = Cons[of "x + unat b" "y + (x + unat b)"]
  have "snd (adler_sums (b # bs) (x, y)) \<le> y + (x + unat b) + (L + K) + 255 * T"
    using conjunct2[OF IH] by (simp add: distrib_left T_def L_def K_def)
  then have "snd (adler_sums (b # bs) (x, y)) \<le> y + (x + L) + 255 * (T + length bs + 1)"
    using b \<open>length bs * unat b \<le> length bs * 255\<close> by (simp add: K_def [symmetric])
  then have "snd (adler_sums (b # bs) (x, y)) \<le> y + length (b # bs) * x + 255 * (T + length bs + 1)"
    by (simp add: L_def)
  moreover have "fst (adler_sums (b # bs) (x, y)) \<le> x + 255 * length (b # bs)"
    using conjunct1[OF IH] b by simp
  ultimately show ?case unfolding tri T_def by blast
qed simp

lemma adler_sums_mono:
  "x \<le> fst (adler_sums bs (x, y)) \<and> y \<le> snd (adler_sums bs (x, y))"
proof (induction bs arbitrary: x y)
  case (Cons b bs)
  from Cons[of "x + unat b" "y + (x + unat b)"] show ?case by auto
qed simp

text \<open>As long as the bounds hold, the words are the sums.\<close>

lemma fold_DO1:
  assumes "adler_sums bs (unat a, unat s) = (x, y)" "x < 2 ^ 32" "y < 2 ^ 32"
  shows "fold DO1 bs (a, s) = (of_nat x, of_nat y)"
  using assms
proof (induction bs arbitrary: a s)
  case Nil
  then show ?case by auto
next
  case (Cons b bs)
  have m: "unat a + unat b \<le> x" "unat s + (unat a + unat b) \<le> y"
    using Cons.prems(1) adler_sums_mono[of "unat a + unat b" bs "unat s + (unat a + unat b)"] by auto
  have ub: "unat (ucast b :: u32) = unat b"
    using unat_byte[of b] by (simp add: unsigned_ucast_eq take_bit_nat_eq_self_iff)
  have u1: "unat (a + ucast b) = unat a + unat b"
    using m(1) Cons.prems(2) by (simp add: unat_word_ariths ub)
  have u2: "unat (s + (a + ucast b)) = unat s + (unat a + unat b)"
    using m(2) Cons.prems(3) u1 by (simp add: unat_word_ariths(1)[of s])
  have "adler_sums bs (unat (a + ucast b), unat (s + (a + ucast b))) = (x, y)"
    using Cons.prems(1) by (simp add: u1 u2)
  from Cons.IH[OF this Cons.prems(2,3)] show ?case by (simp add: DO1_def Let_def)
qed


section \<open>The code computes the checksum\<close>

lemma adler_sums_eq:
  "adler_sums bs (x, y) =
     (x + fst (adler_sums bs (0, 0)), y + length bs * x + snd (adler_sums bs (0, 0)))"
  using adler_sums_shift[of bs 0 x 0 y] by simp

lemma mod_lin:
  assumes "x mod BASE = x' mod BASE" "y mod BASE = y' mod BASE"
  shows "(x + p) mod BASE = (x' + p) mod BASE" "(y + n * x + q) mod BASE = (y' + n * x' + q) mod BASE"
  by (intro mod_add_cong mod_mult_cong refl assms)+

lemma of_nat_mod_u32: "x < 2 ^ 32 \<Longrightarrow> (of_nat x :: u32) mod of_nat BASE = of_nat (x mod BASE)"
proof -
  assume x: "x < 2 ^ 32"
  then have "x mod BASE < 2 ^ 32" by (rule le_less_trans[OF mod_less_eq_dividend])
  with x have "unat ((of_nat x :: u32) mod of_nat BASE) = unat (of_nat (x mod BASE) :: u32)"
    by (simp add: unat_mod unat_of_nat_small BASE_def)
  then show ?thesis by (simp only: word_unat_eq_iff)
qed

definition reduced :: "u32 \<times> u32 \<Rightarrow> nat \<times> nat \<Rightarrow> bool" where
  "reduced = (\<lambda>(a, s) (x, y). a = of_nat (x mod BASE) \<and> s = of_nat (y mod BASE))"

lemma base_mod: "x mod BASE < BASE" "x mod BASE < 2 ^ 32" "x mod BASE < 2 ^ 16"
proof -
  show b: "x mod BASE < BASE" by (simp add: BASE_def)
  show "x mod BASE < 2 ^ 32" by (rule less_trans[OF b]) (simp add: BASE_def)
  show "x mod BASE < 2 ^ 16" by (rule less_trans[OF b]) (simp add: BASE_def)
qed

text \<open>Up to \<open>NMAX\<close> bytes can be added before reducing.\<close>

lemma fold_small:
  assumes "length bs \<le> NMAX" "reduced (a, s) (x, y)"
  shows "\<exists>x' y'. fold DO1 bs (a, s) = (of_nat x', of_nat y') \<and> x' < 2 ^ 32 \<and> y' < 2 ^ 32 \<and>
    (x', y') = adler_sums bs (x mod BASE, y mod BASE) \<and> x' \<le> x mod BASE + 255 * length bs"
proof -
  let ?x = "x mod BASE" and ?y = "y mod BASE" and ?n = "length bs"
  obtain x' y' where s: "adler_sums bs (?x, ?y) = (x', y')" by fastforce
  have b: "x' \<le> ?x + 255 * ?n" "y' \<le> ?y + ?n * ?x + 255 * (?n * (?n + 1) div 2)"
    using adler_sums_bound[of bs ?x ?y] by (simp_all add: s)
  have m: "?x \<le> 65520" "?y \<le> 65520" using base_mod(1)[of x] base_mod(1)[of y] by (simp_all add: BASE_def)
  have n: "?n \<le> 5552" using assms(1) by (simp add: NMAX_def)
  have "?n * ?x \<le> 5552 * 65520" using n m(1) by (rule mult_le_mono)
  moreover have "?n * (?n + 1) div 2 \<le> 5552 * 5553 div 2"
    using mult_le_mono[OF n, of "?n + 1" 5553] n by (intro div_le_mono) simp
  ultimately have "x' < 2 ^ 32" "y' < 2 ^ 32" using b m n by simp_all
  moreover have "unat a = ?x" "unat s = ?y"
    using assms(2) base_mod(2) by (auto simp: reduced_def unat_of_nat_small)
  ultimately show ?thesis using fold_DO1[of bs a s x' y'] s b(1) by (auto intro!: exI)
qed

lemma adler_sums_mod:
  "fst (adler_sums bs (x mod BASE, y mod BASE)) mod BASE = fst (adler_sums bs (x, y)) mod BASE"
  "snd (adler_sums bs (x mod BASE, y mod BASE)) mod BASE = snd (adler_sums bs (x, y)) mod BASE"
  unfolding adler_sums_eq[of bs "x mod BASE"] adler_sums_eq[of bs x]
  unfolding prod.sel by (rule mod_lin; simp)+

lemma reduced_step:
  assumes "length bs \<le> NMAX" "reduced s (x, y)"
  shows "reduced (MODs (fold DO1 bs s)) (adler_sums bs (x, y))"
proof -
  obtain a s' where s: "s = (a, s')" by fastforce
  from fold_small[OF assms(1), of a s' x y] assms(2) s obtain x' y' where
    1: "fold DO1 bs (a, s') = (of_nat x', of_nat y')" "x' < 2 ^ 32" "y' < 2 ^ 32"
    "(x', y') = adler_sums bs (x mod BASE, y mod BASE)" by blast
  obtain p q where pq: "adler_sums bs (x, y) = (p, q)" by fastforce
  have "x' mod BASE = p mod BASE" "y' mod BASE = q mod BASE"
    using adler_sums_mod[of bs x y] by (simp_all add: 1(4)[symmetric] pq)
  then show ?thesis using 1(1-3) by (simp add: s pq reduced_def MODs_def of_nat_mod_u32)
qed

lemma do_blocks_fold:
  "16 * n \<le> length buf \<Longrightarrow> do_blocks n buf s = (drop (16 * n) buf, fold DO1 (take (16 * n) buf) s)"
proof (induction n arbitrary: buf s)
  case (Suc n)
  have "take (16 * Suc n) buf = take 16 buf @ take (16 * n) (drop 16 buf)"
    by (simp add: take_add)
  with Suc show ?case by (simp add: DO16_def add.commute)
qed simp

lemma by16_loop_fold: "by16_loop buf s = (rest, s') \<Longrightarrow> fold DO1 rest s' = fold DO1 buf s"
proof (induction buf s rule: by16_loop.induct)
  case (1 buf s)
  show ?case
  proof (cases "16 \<le> length buf")
    case True
    with "1.prems" have "by16_loop (drop 16 buf) (DO16 buf s) = (rest, s')"
      by (subst (asm) by16_loop.simps) simp
    from "1.IH"[OF True this] have "fold DO1 rest s' = fold DO1 (drop 16 buf) (fold DO1 (take 16 buf) s)"
      by (simp add: DO16_def)
    then show ?thesis by (metis append_take_drop_id fold_append comp_apply)
  next
    case False
    with "1.prems" show ?thesis by (subst (asm) by16_loop.simps) simp
  qed
qed

lemma nmax_loop_reduced:
  assumes "reduced s (x, y)"
  shows "\<exists>rest s' x' y' pre. nmax_loop buf s = (rest, s') \<and> buf = pre @ rest \<and> length rest < NMAX \<and>
    (x', y') = adler_sums pre (x, y) \<and> reduced s' (x', y')"
  using assms
proof (induction buf s arbitrary: x y rule: nmax_loop.induct)
  case (1 buf s)
  show ?case
  proof (cases "NMAX \<le> length buf")
    case True
    let ?s = "MODs (fold DO1 (take NMAX buf) s)"
    have eq: "nmax_loop buf s = nmax_loop (drop NMAX buf) ?s"
      using True do_blocks_fold[of "NMAX div 16" buf s] by (subst nmax_loop.simps) (simp add: NMAX_def)
    obtain p q where pq: "adler_sums (take NMAX buf) (x, y) = (p, q)" by fastforce
    have "reduced ?s (p, q)" using reduced_step[of "take NMAX buf" s x y] "1.prems" pq by simp
    moreover have "do_blocks (NMAX div 16) buf s = (drop NMAX buf, fold DO1 (take NMAX buf) s)"
      using True do_blocks_fold[of "NMAX div 16" buf s] by (simp add: NMAX_def)
    ultimately obtain rest s' x' y' pre where
      2: "nmax_loop (drop NMAX buf) ?s = (rest, s')" "drop NMAX buf = pre @ rest" "length rest < NMAX"
         "(x', y') = adler_sums pre (p, q)" "reduced s' (x', y')"
      using "1.IH"[OF True, of "(drop NMAX buf, fold DO1 (take NMAX buf) s)" "drop NMAX buf" "fold DO1 (take NMAX buf) s" p q]
      by auto
    have "buf = (take NMAX buf @ pre) @ rest" using 2(2) by (metis append_assoc append_take_drop_id)
    moreover have "(x', y') = adler_sums (take NMAX buf @ pre) (x, y)"
      using 2(4) pq by (simp add: adler_sums_append)
    ultimately show ?thesis using eq 2(1,3,5) by metis
  next
    case False
    then have "nmax_loop buf s = (buf, s)" by (subst nmax_loop.simps) simp
    with False "1.prems" show ?thesis
      by (intro exI[of _ buf] exI[of _ s] exI[of _ x] exI[of _ y] exI[of _ "[]"]) simp
  qed
qed

lemma adler_pair_parts:
  "adler_pair (x, y) AND 0xffff = of_nat (x mod BASE)"
  "drop_bit 16 (adler_pair (x, y)) AND 0xffff = of_nat (y mod BASE)"
proof -
  have m: "(0xffff :: u32) = mask 16" by (simp add: mask_eq_exp_minus_1)
  have hi: "\<not> bit (z mod BASE) i" if "16 \<le> i" for z i
  proof
    assume "bit (z mod BASE) i"
    then have "2 ^ i \<le> z mod BASE" by (metis bit_iff_odd div_less even_zero not_less)
    moreover have "(2 :: nat) ^ 16 \<le> 2 ^ i" using that by (rule power_increasing) simp
    ultimately show False using base_mod(3)[of z] by simp
  qed
  show "adler_pair (x, y) AND 0xffff = of_nat (x mod BASE)"
    unfolding m adler_pair_def prod.case
    by (rule bit_word_eqI) (use hi in \<open>auto simp: bit_simps not_less not_le intro: leI\<close>)
  show "drop_bit 16 (adler_pair (x, y)) AND 0xffff = of_nat (y mod BASE)"
    unfolding m adler_pair_def prod.case
    by (rule bit_word_eqI) (use hi in \<open>auto simp: bit_simps not_less not_le intro: leI\<close>)
qed




lemma of_nat_u32:
  assumes "x < 2 ^ 32"
  shows "unat (of_nat x :: u32) = x" "(ucast (of_nat x :: u32) :: u64) = of_nat x"
proof -
  have "x < 2 ^ LENGTH(32)" using assms by simp
  then show "unat (of_nat x :: u32) = x" "(ucast (of_nat x :: u32) :: u64) = of_nat x"
    by (rule unat_of_nat_small, rule ucast_of_nat_small)
qed

lemma of_nat_u64: "x < 2 ^ 64 \<Longrightarrow> unat (of_nat x :: u64) = x"
proof -
  assume "x < 2 ^ 64"
  then have "x < 2 ^ LENGTH(64)" by simp
  then show ?thesis by (rule unat_of_nat_small)
qed

lemma of_nat_mod_u64: "x < 2 ^ 64 \<Longrightarrow> (of_nat x :: u64) mod of_nat BASE = of_nat (x mod BASE)"
proof -
  assume x: "x < 2 ^ 64"
  then have "x mod BASE < 2 ^ 64" by (rule le_less_trans[OF mod_less_eq_dividend])
  with x have "unat ((of_nat x :: u64) mod of_nat BASE) = unat (of_nat (x mod BASE) :: u64)"
    by (simp add: unat_mod unat_of_nat_small BASE_def)
  then show ?thesis by (simp only: word_unat_eq_iff)
qed

lemma subtract_base_mod: "x < 2 * BASE \<Longrightarrow> subtract_base (of_nat x) = of_nat (x mod BASE)"
proof -
  assume x: "x < 2 * BASE"
  then have s: "x < 2 ^ 32" by (simp add: BASE_def)
  then have u: "unat (of_nat x :: u32) = x" by (rule of_nat_u32)
  have b: "unat (of_nat BASE :: u32) = BASE" by (simp add: BASE_def)
  show ?thesis
  proof (cases "BASE \<le> x")
    case True
    then have "x mod BASE = x - BASE" using x by (simp add: mod_if mod_less)
    then show ?thesis using True u b by (simp add: subtract_base_def word_le_nat_alt of_nat_diff)
  next
    case False
    then show ?thesis using u b by (simp add: subtract_base_def word_le_nat_alt)
  qed
qed

lemma adler_pair_of: "adler_pair (x, y) = of_nat (x mod BASE) OR push_bit 16 (of_nat (y mod BASE))"
  by (simp add: adler_pair_def)

text \<open>Continuing a checksum with more bytes.\<close>

lemma urb_adler32_pair:
  "urb_adler32 (adler_pair (x, y)) (Some bs) = adler_pair (adler_sums bs (x, y))"
proof -
  let ?a = "of_nat (x mod BASE) :: u32" and ?s = "of_nat (y mod BASE) :: u32"
  have red: "reduced (?a, ?s) (x, y)" by (simp add: reduced_def)
  obtain p q where pq: "adler_sums bs (x, y) = (p, q)" by fastforce
  have start: "urb_adler32 (adler_pair (x, y)) (Some bs) =
    (if length bs = 1 then
       let adler = subtract_base (?a + ucast (bs ! 0)); sum2 = subtract_base (?s + adler)
       in adler OR push_bit 16 sum2
     else if length bs < 16 then
       let (adler, sum2) = fold DO1 bs (?a, ?s); adler = subtract_base adler; sum2 = sum2 mod of_nat BASE
       in adler OR push_bit 16 sum2
     else
       let (buf, s) = nmax_loop bs (?a, ?s);
           (adler, sum2) = (if buf = [] then s else let (buf, s) = by16_loop buf s in MODs (fold DO1 buf s))
       in adler OR push_bit 16 sum2)"
    by (simp add: urb_adler32_def adler_pair_parts)
  consider "length bs = 1" | "length bs \<noteq> 1" "length bs < 16" | "16 \<le> length bs" by linarith
  then show ?thesis
  proof cases
    case 1
    then obtain b where bs: "bs = [b]" by (metis length_0_conv length_Suc_conv One_nat_def)
    let ?x = "x mod BASE + unat b"
    have e: "?a + ucast b = of_nat ?x" by simp
    have x: "?x < 2 * BASE" using base_mod(1)[of x] unat_byte[of b] by (simp add: BASE_def)
    have "subtract_base (?a + ucast b) = of_nat (?x mod BASE)"
      unfolding e by (rule subtract_base_mod[OF x])
    moreover have y: "y mod BASE + ?x mod BASE < 2 * BASE" using base_mod(1)[of y] base_mod(1)[of ?x] by linarith
    then have "subtract_base (?s + of_nat (?x mod BASE)) = of_nat ((y mod BASE + ?x mod BASE) mod BASE)"
      using subtract_base_mod[OF y] by (simp only: of_nat_add)
    moreover have "?x mod BASE = (x + unat b) mod BASE" by (simp add: mod_add_left_eq)
    moreover have "(y mod BASE + ?x mod BASE) mod BASE = (y + (x + unat b)) mod BASE"
      by (simp add: mod_simps)
    ultimately show ?thesis using start by (simp add: bs adler_pair_of Let_def)
  next
    case 2
    have n: "length bs \<le> NMAX" using 2 by (simp add: NMAX_def)
    from fold_small[OF n red] obtain x' y' where
      f: "fold DO1 bs (?a, ?s) = (of_nat x', of_nat y')" "x' < 2 ^ 32" "y' < 2 ^ 32"
      "(x', y') = adler_sums bs (x mod BASE, y mod BASE)" "x' \<le> x mod BASE + 255 * length bs" by blast
    have "x' < 2 * BASE" using f(5) 2 base_mod(1)[of x] by (simp add: BASE_def)
    moreover have "x' mod BASE = p mod BASE" "y' mod BASE = q mod BASE"
      using adler_sums_mod[of bs x y] by (simp_all add: f(4)[symmetric] pq)
    ultimately show ?thesis
      using start 2 f(1,3) by (simp add: subtract_base_mod of_nat_mod_u32 adler_pair_of pq)
  next
    case 3
    from nmax_loop_reduced[OF red, of bs] obtain rest s' x' y' pre where
      r: "nmax_loop bs (?a, ?s) = (rest, s')" "bs = pre @ rest" "length rest < NMAX"
      "(x', y') = adler_sums pre (x, y)" "reduced s' (x', y')" by metis
    obtain buf s'' where by16: "by16_loop rest s' = (buf, s'')" by (cases "by16_loop rest s'") auto
    have res: "reduced (MODs (fold DO1 rest s')) (adler_sums rest (x', y'))"
      using r(3,5) by (intro reduced_step) simp_all
    have all: "adler_sums rest (x', y') = (p, q)"
      using pq r(2,4) by (simp add: adler_sums_append)
    show ?thesis
    proof (cases "rest = []")
      case True
      with all r(5) show ?thesis using start 3 r(1) True
        by (cases s') (auto simp: reduced_def adler_pair_of pq)
    next
      case False
      from res all show ?thesis using start 3 r(1) False by16 by16_loop_fold[OF by16]
        by (cases "MODs (fold DO1 rest s')") (auto simp: reduced_def adler_pair_of pq)
    qed
  qed
qed

lemma unat_u64: "unat (ucast (w :: u32) :: u64) = unat w"
proof -
  have "unat w < 2 ^ LENGTH(32)" by (rule unsigned_less)
  then have "unat w < 2 ^ 64" by simp
  then show ?thesis by (simp add: unsigned_ucast_eq take_bit_nat_eq_self_iff)
qed

lemma sub_if_nat: "m < 2 ^ 64 \<Longrightarrow> x < 2 ^ 64 \<Longrightarrow> sub_if (of_nat m) (of_nat x) = of_nat (if m \<le> x then x - m else x)"
  by (simp add: sub_if_def word_le_nat_alt unat_of_nat_small of_nat_diff)

lemma sub_mod2: "s < 2 * BASE \<Longrightarrow> (if BASE \<le> s then s - BASE else s) = s mod BASE"
  by (simp add: le_mod_geq)

lemma sub_mod3:
  assumes "s < 3 * BASE"
  shows "(let t = (if BASE \<le> s then s - BASE else s) in if BASE \<le> t then t - BASE else t) = s mod BASE"
proof (cases "BASE \<le> s")
  case True
  then have "s - BASE < 2 * BASE" "s mod BASE = (s - BASE) mod BASE" using assms by (simp_all add: le_mod_geq)
  then show ?thesis using sub_mod2[of "s - BASE"] True by (simp add: Let_def)
next
  case False
  then show ?thesis by (simp add: Let_def)
qed

lemma sub_mod4:
  assumes "s < 4 * BASE"
  shows "(let t = (if 2 * BASE \<le> s then s - 2 * BASE else s) in if BASE \<le> t then t - BASE else t) = s mod BASE"
proof (cases "2 * BASE \<le> s")
  case True
  have "s mod BASE = (s - BASE) mod BASE" using True by (intro le_mod_geq) simp
  also have "\<dots> = (s - BASE - BASE) mod BASE" using True by (intro le_mod_geq) simp
  finally have "s mod BASE = (s - 2 * BASE) mod BASE" by (simp add: mult_2)
  moreover have "s - 2 * BASE < 2 * BASE" using assms True by simp
  ultimately show ?thesis using sub_mod2[of "s - 2 * BASE"] True by (simp add: Let_def)
next
  case False
  then show ?thesis using sub_mod2[of s] by (simp add: Let_def)
qed

text \<open>The sums after a concatenation, from the sums of the parts.\<close>

lemma adler_sums_concat:
  assumes "adler_sums xs (1, 0) = (x, y)" "adler_sums ys (1, 0) = (p, q)"
  shows "adler_sums (xs @ ys) (1, 0) = (x + p - 1, y + q + length ys * x - length ys)"
    "1 \<le> p" "length ys \<le> q + length ys * x"
proof -
  let ?p = "fst (adler_sums ys (0, 0))" and ?q = "snd (adler_sums ys (0, 0))"
  have pq: "p = 1 + ?p" "q = length ys + ?q"
    using assms(2) adler_sums_eq[of ys 1 0] by simp_all
  show "adler_sums (xs @ ys) (1, 0) = (x + p - 1, y + q + length ys * x - length ys)"
    unfolding adler_sums_append assms(1) adler_sums_eq[of ys x y] pq by simp
  show "1 \<le> p" "length ys \<le> q + length ys * x" unfolding pq by simp_all
qed

lemma urb_adler32_combine_pair:
  assumes "n < 2 ^ 32" "1 \<le> p"
  shows "urb_adler32_combine (adler_pair (x, y)) (adler_pair (p, q)) (of_nat n) =
    adler_pair (x + p - 1, y + q + n * x + (BASE - 1) * n)"
proof -
  let ?r = "n mod BASE" and ?x = "x mod BASE" and ?y = "y mod BASE" and ?p = "p mod BASE" and ?q = "q mod BASE"
  have B: "BASE = 65521" by (rule BASE_def)
  have m: "?r < BASE" "?x < BASE" "?y < BASE" "?p < BASE" "?q < BASE" by (simp_all add: B)
  have rem: "(of_nat n :: u32) mod of_nat BASE = of_nat ?r" by (rule of_nat_mod_u32[OF assms(1)])
  have uc: "(ucast (of_nat k :: u32) :: u64) = of_nat k" if "k < 2 ^ 32" for k
    using that by (rule of_nat_u32)
  have small: "?r < 2 ^ 32" "?x < 2 ^ 32" using m by (simp_all add: B)
  define s1 where "s1 = ?x + (?p + BASE - 1)"
  define s2 where "s2 = ?r * ?x mod BASE + (?y + ?q + BASE - ?r)"
  have rx: "?r * ?x < 2 ^ 64"
    using mult_strict_mono[OF m(1) m(2)] by (simp add: B)
  have w1: "(of_nat ?x :: u64) + ucast ((of_nat ?p :: u32) + of_nat BASE - 1) = of_nat s1"
  proof -
    have "(of_nat ?p :: u32) + of_nat BASE - 1 = of_nat (?p + BASE - 1)" by (simp add: B of_nat_diff)
    moreover have "?p + BASE - 1 < 2 ^ 32" using m(4) by (simp add: B)
    ultimately show ?thesis by (simp add: uc s1_def)
  qed
  have w2: "(ucast (of_nat ?r :: u32) * of_nat ?x) mod of_nat BASE + ucast ((of_nat ?y :: u32) + of_nat ?q + of_nat BASE - of_nat ?r) = (of_nat s2 :: u64)"
  proof -
    have "(of_nat ?y :: u32) + of_nat ?q + of_nat BASE - of_nat ?r = of_nat (?y + ?q + BASE - ?r)"
      using m(1) by (simp add: of_nat_diff)
    moreover have "?y + ?q + BASE - ?r < 2 ^ 32" using m by (simp add: B)
    moreover have "(of_nat (?r * ?x) :: u64) mod of_nat BASE = of_nat (?r * ?x mod BASE)"
    proof -
      from rx show ?thesis by (rule of_nat_mod_u64)
    qed
    ultimately show ?thesis using small by (simp add: uc s2_def)
  qed
  have s1: "(let t = (if BASE \<le> s1 then s1 - BASE else s1) in if BASE \<le> t then t - BASE else t) = (x + p - 1) mod BASE"
  proof -
    have "s1 < 3 * BASE" using m unfolding s1_def by linarith
    moreover have "s1 mod BASE = (x + p - 1) mod BASE"
    proof -
      have "(x + p - 1) + BASE = x + p + (BASE - 1)" using assms(2) B by simp
      then have "(x + p - 1) mod BASE = (x + p + (BASE - 1)) mod BASE" by (metis mod_add_self2)
      moreover have "s1 = ?x + ?p + (BASE - 1)" using B by (simp add: s1_def)
      moreover have "(?x + ?p + (BASE - 1)) mod BASE = (x + p + (BASE - 1)) mod BASE"
        by (intro mod_add_cong) simp_all
      ultimately show ?thesis by (simp only:)
    qed
    ultimately show ?thesis by (simp only: sub_mod3)
  qed
  have s2: "(let t = (if 2 * BASE \<le> s2 then s2 - 2 * BASE else s2) in if BASE \<le> t then t - BASE else t) =
    (y + q + n * x + (BASE - 1) * n) mod BASE"
  proof -
    have "s2 < 4 * BASE" using m base_mod(1)[of "?r * ?x"] unfolding s2_def by linarith
    moreover have "s2 mod BASE = (y + q + n * x + (BASE - 1) * n) mod BASE"
    proof -
      have "s2 = ?r * ?x mod BASE + (?y + ?q) + (BASE - ?r)" using m(1) by (simp add: s2_def)
      moreover have "(BASE - ?r) mod BASE = ((BASE - 1) * n) mod BASE"
      proof -
        have "int (BASE - ?r) - int ((BASE - 1) * n) = int BASE * (1 + int (n div BASE) - int n)"
          using m(1) mult_div_mod_eq[of BASE n] B
          by (simp add: of_nat_diff algebra_simps flip: of_nat_add of_nat_mult)
        then show ?thesis by (metis dvd_triv_left mod_eq_dvd_iff of_nat_eq_iff zmod_int)
      qed
      ultimately show ?thesis by (metis (no_types, lifting) add.commute mod_add_eq mod_mult_eq mod_mod_trivial)
    qed
    ultimately show ?thesis by (simp only: sub_mod4)
  qed
  have b64: "BASE < 2 ^ 64" "2 * BASE < 2 ^ 64" by (simp_all add: B)
  have l1: "s1 < 2 ^ 64" "(if BASE \<le> s1 then s1 - BASE else s1) < 2 ^ 64"
  proof -
    have "s1 < 3 * BASE" using m unfolding s1_def by linarith
    then show "s1 < 2 ^ 64" "(if BASE \<le> s1 then s1 - BASE else s1) < 2 ^ 64" by (auto simp: B)
  qed
  have l2: "s2 < 2 ^ 64" "(if 2 * BASE \<le> s2 then s2 - 2 * BASE else s2) < 2 ^ 64"
  proof -
    have "s2 < 4 * BASE" using m base_mod(1)[of "?r * ?x"] unfolding s2_def by linarith
    then show "s2 < 2 ^ 64" "(if 2 * BASE \<le> s2 then s2 - 2 * BASE else s2) < 2 ^ 64" by (auto simp: B)
  qed
  have f1: "sub_if (of_nat BASE) (sub_if (of_nat BASE) (of_nat s1)) = of_nat ((x + p - 1) mod BASE)"
    unfolding sub_if_nat[OF b64(1) l1(1)] sub_if_nat[OF b64(1) l1(2)] using s1 by (simp only: Let_def)
  have p1: "push_bit 1 (of_nat BASE) = (of_nat (2 * BASE) :: u64)" by (simp add: B)
  have f2: "sub_if (of_nat BASE) (sub_if (push_bit 1 (of_nat BASE)) (of_nat s2)) =
    of_nat ((y + q + n * x + (BASE - 1) * n) mod BASE)"
    unfolding p1 sub_if_nat[OF b64(2) l2(1)] sub_if_nat[OF b64(1) l2(2)] using s2 by (simp only: Let_def)
  have xx: "ucast (of_nat ?x :: u32) = (of_nat ?x :: u64)" using small(2) by (rule uc)
  have "urb_adler32_combine (adler_pair (x, y)) (adler_pair (p, q)) (of_nat n) =
    ucast (of_nat ((x + p - 1) mod BASE) OR push_bit 16 (of_nat ((y + q + n * x + (BASE - 1) * n) mod BASE)) :: u64)"
    unfolding urb_adler32_combine_def adler_pair_parts rem Let_def xx w1 w2 f1 f2 by (rule refl)
  also have "\<dots> = adler_pair (x + p - 1, y + q + n * x + (BASE - 1) * n)"
    unfolding adler_pair_def prod.case by (rule bit_word_eqI) (auto simp: bit_simps)
  finally show ?thesis .
qed

text \<open>What the two operations of the code compute, on the bytes.\<close>

lemma adler_pair_mod_eq:
  "x mod BASE = x' mod BASE \<Longrightarrow> y mod BASE = y' mod BASE \<Longrightarrow> adler_pair (x, y) = adler_pair (x', y')"
  by (simp add: adler_pair_def)

lemma adler32_update: "urb_adler32 (adler32_of xs) (Some ys) = adler32_of (xs @ ys)"
  by (cases "adler_sums xs (1, 0)") (simp add: adler32_of_def urb_adler32_pair adler_sums_append)

lemma adler32_start: "urb_adler32 v None = adler32_of []"
  by (simp add: urb_adler32_def adler32_of_def adler_pair_def BASE_def)

lemma adler32_combine:
  assumes "length ys < 2 ^ 32"
  shows "urb_adler32_combine (adler32_of xs) (adler32_of ys) (of_nat (length ys)) = adler32_of (xs @ ys)"
proof -
  obtain x y p q where s: "adler_sums xs (1, 0) = (x, y)" "adler_sums ys (1, 0) = (p, q)" by fastforce
  note c = adler_sums_concat[OF s]
  let ?n = "length ys"
  have "urb_adler32_combine (adler32_of xs) (adler32_of ys) (of_nat ?n) =
    adler_pair (x + p - 1, y + q + ?n * x + (BASE - 1) * ?n)"
    unfolding adler32_of_def s by (rule urb_adler32_combine_pair[OF assms c(2)])
  also have "\<dots> = adler_pair (x + p - 1, y + q + ?n * x - ?n)"
  proof (rule adler_pair_mod_eq[OF refl])
    have "y + q + ?n * x + (BASE - 1) * ?n = (y + q + ?n * x - ?n) + BASE * ?n"
      using c(3) by (simp add: BASE_def)
    then show "(y + q + ?n * x + (BASE - 1) * ?n) mod BASE = (y + q + ?n * x - ?n) mod BASE"
      by simp
  qed
  also have "\<dots> = adler32_of (xs @ ys)" unfolding adler32_of_def c(1) ..
  finally show ?thesis .
qed

text \<open>
  C32: The rolling checksum. Continuing a checksum with more bytes gives the checksum of the
  concatenation, however the bytes are cut and although the sums are reduced only every 5552 bytes;
  combining the checksums of two parts with the length of the second gives the same.
\<close>

theorem adler32_correct:
  assumes "length ys < 2 ^ 32"
  shows "urb_adler32 (urb_adler32 0 None) (Some xs) = adler32_of xs \<and>
    urb_adler32 (adler32_of xs) (Some ys) = adler32_of (xs @ ys) \<and>
    urb_adler32_combine (adler32_of xs) (adler32_of ys) (of_nat (length ys)) = adler32_of (xs @ ys)"
  using adler32_update[of "[]" xs] adler32_combine[OF assms] by (simp add: adler32_start adler32_update)

theorem adler32_correct_witness:
  "urb_adler32 (adler32_of [87, 105, 107]) (Some [105]) = adler32_of [87, 105, 107, 105] \<and>
   adler32_of [87, 105, 107, 105, 112, 101, 100, 105, 97] = 0x11E60398"
proof -
  have "length [105 :: byte] < 2 ^ 32" by simp
  from adler32_correct[OF this, of "[87, 105, 107]"]
  have "urb_adler32 (adler32_of [87, 105, 107]) (Some [105]) = adler32_of [87, 105, 107, 105]" by simp
  moreover have "adler32_of [87, 105, 107, 105, 112, 101, 100, 105, 97] = 0x11E60398"
    by (simp add: adler32_of_def adler_pair_def BASE_def)
  ultimately show ?thesis by blast
qed



end
