(* ===== verification/Tree_Hash.thy ===== *)
theory Tree_Hash
  imports Sha512 Adler "HOL-Library.Monad_Syntax"
begin

text \<open>
  The tree hash of a file: \<open>idrivebmrcommon/TreeHash.cpp\<close>. The file is cut into blocks of 512 KiB; the leaf
  of a block is its MD5 digest with twelve rolling checksums, and sixteen hashes at a time are
  combined with SHA-512. \<open>None\<close> stands for a failed assertion, a read of a hash that is not there, a
  write past the end of a vector, or a loop that does not end. The byte order of the host is \<open>be\<close>;
  \<open>unsigned int\<close> positions are numbers with the wrap-around written out.
\<close>

section \<open>The object\<close>

definition treehash_blocksize :: nat where "treehash_blocksize = 512 * 1024"

definition treehash_smallblock :: nat where "treehash_smallblock = 4096"

definition max_level_size :: nat where "max_level_size = 16"

definition UINT_MAX :: nat where "UINT_MAX = 2 ^ 32 - 1"

text \<open>
  \<open>hash_output\<close> says whether there is an output object; \<open>outputs\<close> are the calls it got. The constructor
  of the MD5 context leaves its buffer as it is in memory (\<open>garbage\<close>).
\<close>

record TreeHash =
  has_sparse :: bool
  sparse_ctx :: SHA512_CTX
  md5sum :: MD5
  adlers :: "u32 list"
  offset :: nat
  hash_all_adlers :: "byte list"
  hash_output :: bool
  outputs :: "(int \<times> byte list) list"
  hash_pos :: int
  level_hash :: "byte list list list"

definition blank_ctx :: SHA512_CTX where
  "blank_ctx = \<lparr>sha_state = (0, 0, 0, 0, 0, 0, 0, 0), bitcount = (0, 0), sha_buffer = replicate 128 0\<rparr>"

definition new_TreeHash :: "bool \<Rightarrow> MD5 \<Rightarrow> TreeHash" where
  "new_TreeHash output garbage =
     \<lparr>has_sparse = False, sparse_ctx = SHA512_Init blank_ctx, md5sum = md5_init garbage,
      adlers = replicate 12 (urb_adler32 0 None), offset = 0,
      hash_all_adlers = (if output then replicate 528 0 else []), hash_output = output, outputs = [],
      hash_pos = 0, level_hash = [[]]\<rparr>"

section \<open>The levels\<close>

text \<open>\<open>sha512_init\<close>, \<open>sha512_update\<close> for each string, \<open>sha512_final\<close>.\<close>

definition sha512_all :: "bool \<Rightarrow> byte list list \<Rightarrow> byte list" where
  "sha512_all be hs = fst (SHA512_Final be (fold (\<lambda>h c. SHA512_Update be c h) hs (SHA512_Init blank_ctx)))"

definition finalize_level :: "bool \<Rightarrow> nat \<Rightarrow> byte list list list \<Rightarrow> byte list list list" where
  "finalize_level be idx lv =
     (let nh = sha512_all be (lv ! idx);
          lv = (if length lv \<le> idx + 1 then lv @ [[]] else lv);
          lv = lv[idx + 1 := lv ! (idx + 1) @ [nh]]
      in lv[idx := []])"

text \<open>The loop of \<open>addHash\<close> over the levels, which may grow while it runs.\<close>

function carry_levels :: "bool \<Rightarrow> nat \<Rightarrow> byte list list list \<Rightarrow> byte list list list option" where
  "carry_levels be i lv =
     (if i < length lv then
        if length (lv ! i) \<le> max_level_size then
          if length (lv ! i) = max_level_size then carry_levels be (i + 1) (finalize_level be i lv)
          else carry_levels be (i + 1) lv
        else None
      else Some lv)"
  by pat_completeness auto

lemma sum_list_update_nat:
  fixes ns :: "nat list"
  assumes "i < length ns"
  shows "sum_list (ns[i := v]) + ns ! i = sum_list ns + v"
  using assms
proof (induction ns arbitrary: i)
  case (Cons n ns) then show ?case by (cases i) auto
qed simp

lemma finalize_level_shape:
  assumes "i < length lv"
  shows "finalize_level be i lv =
    (if i + 1 < length lv then lv[i := [], i + 1 := lv ! (i + 1) @ [sha512_all be (lv ! i)]]
     else lv[i := []] @ [[sha512_all be (lv ! i)]])"
proof (cases "i + 1 < length lv")
  case True
  then show ?thesis by (simp add: finalize_level_def Let_def list_update_swap)
next
  case False
  with assms have "length lv = i + 1" by simp
  then show ?thesis by (simp add: finalize_level_def Let_def nth_append list_update_append)
qed

lemma finalize_level_total:
  assumes "i < length lv"
  shows "sum_list (map length (finalize_level be i lv)) + length (lv ! i) = sum_list (map length lv) + 1"
proof (cases "i + 1 < length lv")
  case True
  have "sum_list ((map length lv)[i := 0, i + 1 := length (lv ! (i + 1)) + 1]) + length (lv ! i) = sum_list (map length lv) + 1"
    using True sum_list_update_nat[of "i + 1" "(map length lv)[i := 0]" "length (lv ! (i + 1)) + 1"]
      sum_list_update_nat[of i "map length lv" 0] by simp
  then show ?thesis using True assms by (simp add: finalize_level_shape map_update)
next
  case False
  then show ?thesis using assms sum_list_update_nat[of i "map length lv" 0]
    by (simp add: finalize_level_shape map_update)
qed

termination carry_levels
proof (relation "measures [\<lambda>(be, i, lv). sum_list (map length lv), \<lambda>(be, i, lv). length lv - i]")
  fix be :: bool and i :: nat and lv :: "byte list list list"
  assume "i < length lv" "length (lv ! i) \<le> max_level_size" "length (lv ! i) = max_level_size"
  then have "sum_list (map length (finalize_level be i lv)) < sum_list (map length lv)"
    using finalize_level_total[of i lv be] by (simp add: max_level_size_def)
  then show "((be, i + 1, finalize_level be i lv), be, i, lv) \<in>
    measures [\<lambda>(be, i, lv). sum_list (map length lv), \<lambda>(be, i, lv). length lv - i]" by simp
qed auto

declare carry_levels.simps [simp del]

definition addHash :: "bool \<Rightarrow> byte list \<Rightarrow> nat \<Rightarrow> TreeHash \<Rightarrow> TreeHash option" where
  "addHash be h hashed_size t =
     (if offset t = 0 \<and> level_hash t \<noteq> [] then
        let lv = level_hash t; lv = lv[0 := lv ! 0 @ [take 64 h]]
        in do { lv \<leftarrow> carry_levels be 0 lv;
                Some (t\<lparr>level_hash := lv, hash_pos := hash_pos t + int hashed_size\<rparr>) }
      else None)"

section \<open>Hashing the bytes of a block\<close>

definition finalize_curr :: "bool \<Rightarrow> TreeHash \<Rightarrow> TreeHash option" where
  "finalize_curr be t =
     (let m = md5_finalize (md5sum t) in
      do { dig \<leftarrow> raw_digest_int m;
           let ads = map (little_endian32 be) (adlers t);
           let h = take 16 dig @ concat (map (mem_of be 4) ads);
           let t = t\<lparr>md5sum := m, adlers := ads\<rparr>;
           let t = (if hash_output t
                    then let all = put_bytes (hash_all_adlers t) 0 (take 16 dig)
                         in t\<lparr>hash_all_adlers := all, outputs := outputs t @ [(hash_pos t, all)]\<rparr>
                    else t);
           t \<leftarrow> addHash be h 0 t;
           Some (t\<lparr>md5sum := md5_init (md5sum t), adlers := replicate 12 (urb_adler32 0 None)\<rparr>) })"

definition hash_small :: "bool \<Rightarrow> nat \<Rightarrow> byte list \<Rightarrow> TreeHash \<Rightarrow> TreeHash option" where
  "hash_small be i piece t =
     (let adler_idx = (i div treehash_smallblock) mod 12 in
      if hash_output t then
        let adler_curr = urb_adler32 (urb_adler32 0 None) (Some piece);
            pos = 16 + (i div treehash_smallblock) * 4
        in if pos + 4 \<le> length (hash_all_adlers t)
           then Some (t\<lparr>adlers := (adlers t)[adler_idx :=
                   urb_adler32_combine (adlers t ! adler_idx) adler_curr (of_nat (length piece))],
                 hash_all_adlers := put_bytes (hash_all_adlers t) pos (mem_of be 4 (little_endian32 be adler_curr))\<rparr>)
           else None
      else Some (t\<lparr>adlers := (adlers t)[adler_idx := urb_adler32 (adlers t ! adler_idx) (Some piece)]\<rparr>))"

text \<open>The body of the loop of \<open>hash\<close>: the piece at \<open>buf_off\<close>, and a finished block.\<close>

definition hash_step :: "bool \<Rightarrow> byte list \<Rightarrow> nat \<Rightarrow> nat \<Rightarrow> nat \<Rightarrow> TreeHash \<Rightarrow> (nat \<times> nat \<times> TreeHash) option" where
  "hash_step be buf i offset_end buf_off t =
     (let tohash = min treehash_smallblock (offset_end - i);
          tohash = (if offset t mod treehash_smallblock \<noteq> 0
                    then min tohash (treehash_smallblock - offset t mod treehash_smallblock) else tohash);
          piece = take tohash (drop buf_off buf)
      in do {
        t \<leftarrow> hash_small be i piece t;
        let t = t\<lparr>md5sum := md5_update (md5sum t) piece, offset := offset t + tohash,
                  hash_pos := hash_pos t + int tohash\<rparr>;
        if offset t \<le> treehash_blocksize then
          if offset t = treehash_blocksize then do {
            t \<leftarrow> finalize_curr be (t\<lparr>offset := 0\<rparr>);
            Some (if treehash_blocksize < offset_end then offset_end - treehash_blocksize else offset_end,
                  buf_off + tohash, t) }
          else Some (offset_end, buf_off + tohash, t)
        else None })"

partial_function (option) hash_loop :: "bool \<Rightarrow> byte list \<Rightarrow> nat \<Rightarrow> nat \<Rightarrow> nat \<Rightarrow> TreeHash \<Rightarrow> TreeHash option" where
  "hash_loop be buf i offset_end buf_off t =
     (if i < offset_end then do {
        (offset_end, buf_off, t) \<leftarrow> hash_step be buf i offset_end buf_off t;
        hash_loop be buf ((i + treehash_smallblock) mod 2 ^ 32) offset_end buf_off t }
      else Some t)"

definition tree_hash :: "bool \<Rightarrow> byte list \<Rightarrow> TreeHash \<Rightarrow> TreeHash option" where
  "tree_hash be buf t =
     (if offset t = UINT_MAX then None
      else hash_loop be buf (offset t) ((offset t + length buf) mod 2 ^ 32) 0 t)"

definition tree_sparse_hash :: "bool \<Rightarrow> byte list \<Rightarrow> TreeHash \<Rightarrow> TreeHash option" where
  "tree_sparse_hash be buf t =
     (if offset t = UINT_MAX then None
      else Some (t\<lparr>has_sparse := True, sparse_ctx := SHA512_Update be (sparse_ctx t) buf\<rparr>))"

section \<open>The result\<close>

definition finalize_nonempty :: "bool \<Rightarrow> nat \<Rightarrow> byte list list list \<Rightarrow> byte list list list" where
  "finalize_nonempty be i lv = (if lv ! i \<noteq> [] then finalize_level be i lv else lv)"

definition root_level :: "bool \<Rightarrow> byte list list list \<Rightarrow> byte list list list" where
  "root_level be lv =
     (let lv = fold (finalize_nonempty be) [0..<length lv - 1] lv in
      if 1 < length (lv ! (length lv - 1)) then finalize_level be (length lv - 1) lv else lv)"

definition tree_finalize :: "bool \<Rightarrow> TreeHash \<Rightarrow> (byte list \<times> TreeHash) option" where
  "tree_finalize be t =
     do { t \<leftarrow> (if offset t \<noteq> 0 then finalize_curr be (t\<lparr>offset := 0\<rparr>) else Some t);
          let t = t\<lparr>offset := UINT_MAX\<rparr>;
          if level_hash t = [[]] then Some (fst (SHA512_Final be (SHA512_Init blank_ctx)), t)
          else
            let lv = root_level be (level_hash t); t = t\<lparr>level_hash := lv\<rparr>
            in case lv ! (length lv - 1) of
                 [] \<Rightarrow> None
               | tree_h # _ \<Rightarrow>
                   if has_sparse t then
                     let (nh, c) = SHA512_Final be (SHA512_Update be (sparse_ctx t) tree_h)
                     in Some (nh, t\<lparr>sparse_ctx := c\<rparr>)
                   else Some (tree_h, t) }"

section \<open>Leaves from the hashes of the small blocks\<close>

definition input_adler :: "bool \<Rightarrow> byte list \<Rightarrow> nat \<Rightarrow> u32" where
  "input_adler be h i = of_mem be (take 4 (drop (16 + 4 * i) h))"

definition combine_column :: "bool \<Rightarrow> byte list \<Rightarrow> nat \<Rightarrow> nat \<Rightarrow> nat \<Rightarrow> u32 list \<Rightarrow> u32 list" where
  "combine_column be h num_adlers hashed_size i n_adlers =
     (let curr_len2 = (if i + 1 = num_adlers \<and> hashed_size mod treehash_smallblock \<noteq> 0
                       then hashed_size mod treehash_smallblock else treehash_smallblock)
      in n_adlers[i mod 12 := urb_adler32_combine (n_adlers ! (i mod 12)) (input_adler be h i) (of_nat curr_len2)])"

definition allAdlerTo64byteHash :: "bool \<Rightarrow> byte list \<Rightarrow> nat \<Rightarrow> nat \<Rightarrow> byte list" where
  "allAdlerTo64byteHash be h hsize hashed_size =
     (let num_adlers = (hsize - 16) div 4;
          n_adlers = map (\<lambda>i. if num_adlers \<le> i then urb_adler32 0 None else input_adler be h i) [0..<12];
          n_adlers = fold (combine_column be h num_adlers hashed_size) [12..<num_adlers] n_adlers
      in take 16 h @ concat (map (\<lambda>a. mem_of be 4 (little_endian32 be a)) n_adlers))"

definition addHashAllAdler :: "bool \<Rightarrow> byte list \<Rightarrow> nat \<Rightarrow> nat \<Rightarrow> TreeHash \<Rightarrow> TreeHash option" where
  "addHashAllAdler be h hsize hashed_size t =
     (if offset t = 0 then addHash be (allAdlerTo64byteHash be h hsize hashed_size) hashed_size t else None)"

section \<open>What the tree hash is\<close>

function chunks_of :: "nat \<Rightarrow> 'a list \<Rightarrow> 'a list list" where
  "chunks_of n xs = (if xs = [] \<or> n = 0 then [] else take n xs # chunks_of n (drop n xs))"
  by pat_completeness auto

termination chunks_of
  by (relation "measure (\<lambda>(n, xs). length xs)") auto

declare chunks_of.simps [simp del]

definition column :: "nat \<Rightarrow> 'a list \<Rightarrow> 'a list" where
  "column j xs = map ((!) xs) (filter (\<lambda>i. i mod 12 = j) [0..<length xs])"

definition column_adler :: "nat \<Rightarrow> byte list \<Rightarrow> u32" where
  "column_adler j block = adler32_of (concat (column j (chunks_of 4096 block)))"

definition leaf_of :: "byte list \<Rightarrow> byte list" where
  "leaf_of block = md5_of block @ concat (map (\<lambda>j. le_bytes 4 (column_adler j block)) [0..<12])"

definition combine16 :: "byte list list \<Rightarrow> byte list list" where
  "combine16 hs = map (\<lambda>c. sha512_of (concat c)) (chunks_of 16 hs)"

lemma length_chunks_of: "0 < n \<Longrightarrow> length (chunks_of n xs) = (length xs + n - 1) div n"
proof (induction n xs rule: chunks_of.induct)
  case (1 n xs)
  show ?case
  proof (cases "xs = []")
    case True
    then show ?thesis using 1(2) by (simp add: chunks_of.simps)
  next
    case False
    then have IH: "length (chunks_of n (drop n xs)) = (length xs - n + n - 1) div n" using 1 by simp
    have e: "length (chunks_of n xs) = Suc (length (chunks_of n (drop n xs)))"
      using False 1(2) by (subst chunks_of.simps) simp
    have "0 < length xs" using False by simp
    show ?thesis
    proof (cases "n \<le> length xs")
      case True
      then have "(length xs + n - 1) = n + (length xs - n + n - 1)" using 1(2) by simp
      then have "(length xs + n - 1) div n = Suc ((length xs - n + n - 1) div n)"
        using div_add_self1[of n "length xs - n + n - 1"] 1(2) by (simp only:)
      then show ?thesis using e IH by simp
    next
      case False
      then have "(length xs + n - 1) = n + (length xs - 1)" using \<open>0 < length xs\<close> by linarith
      then have "(length xs + n - 1) div n = Suc ((length xs - 1) div n)"
        using div_add_self1[of n "length xs - 1"] 1(2) by (simp only:)
      then show ?thesis using e IH False by simp
    qed
  qed
qed

function merkle :: "byte list list \<Rightarrow> byte list" where
  "merkle hs = (if length hs \<le> 1 then hs ! 0 else merkle (combine16 hs))"
  by pat_completeness auto

termination merkle
proof (relation "measure length")
  fix hs :: "byte list list"
  assume "\<not> length hs \<le> 1"
  then show "(combine16 hs, hs) \<in> measure length"
    by (simp add: combine16_def length_chunks_of)
qed simp

declare merkle.simps [simp del]

section \<open>The levels hold the hashes added so far\<close>

lemma sha512_all_of: "sha512_all be hs = sha512_of (concat hs)"
  by (simp add: sha512_all_def sha512.digest_of_pieces)

lemma chunks_of_Nil [simp]: "chunks_of n [] = []"
  by (simp add: chunks_of.simps)

lemma chunks_of_short: "xs \<noteq> [] \<Longrightarrow> length xs \<le> n \<Longrightarrow> chunks_of n xs = [xs]"
  by (subst chunks_of.simps, cases xs) auto

lemma chunks_of_step: "n \<le> length xs \<Longrightarrow> 0 < n \<Longrightarrow> chunks_of n xs = take n xs # chunks_of n (drop n xs)"
  by (subst chunks_of.simps) auto

lemma chunks_of_append: "length xs mod n = 0 \<Longrightarrow> chunks_of n (xs @ ys) = chunks_of n xs @ chunks_of n ys"
proof (induction n xs rule: chunks_of.induct)
  case (1 n xs)
  show ?case
  proof (cases "xs = [] \<or> n = 0")
    case True
    then show ?thesis by (auto simp: chunks_of.simps[of 0])
  next
    case False
    then have le: "n \<le> length xs" using 1(2) by (metis length_0_conv mod_less not_le)
    then have "length (drop n xs) mod n = 0" using 1(2) by (simp add: le_mod_geq)
    from 1(1)[OF False this] le False show ?thesis
      using chunks_of_step[of n xs] chunks_of_step[of n "xs @ ys"] by simp
  qed
qed

lemma chunks_of_snoc: "length xs mod n = 0 \<Longrightarrow> ys \<noteq> [] \<Longrightarrow> length ys \<le> n \<Longrightarrow> chunks_of n (xs @ ys) = chunks_of n xs @ [ys]"
  by (simp add: chunks_of_append chunks_of_short)

lemma concat_chunks_of: "0 < n \<Longrightarrow> concat (chunks_of n xs) = xs"
proof (induction n xs rule: chunks_of.induct)
  case (1 n xs)
  then show ?case by (subst chunks_of.simps) simp
qed

text \<open>\<open>full hs\<close> are the hashes in complete groups of sixteen, \<open>rest hs\<close> the others.\<close>

definition full :: "'a list \<Rightarrow> 'a list" where
  "full hs = take (16 * (length hs div 16)) hs"

definition rest :: "'a list \<Rightarrow> 'a list" where
  "rest hs = drop (16 * (length hs div 16)) hs"

lemma full_rest: "full hs @ rest hs = hs"
  by (simp add: full_def rest_def)

lemma length_full: "length (full hs) mod 16 = 0" "length (full hs) = 16 * (length hs div 16)"
  by (simp_all add: full_def)

lemma length_rest: "length (rest hs) = length hs mod 16"
  by (simp add: rest_def minus_mult_div_eq_mod)

lemma rest_short: "length hs < 16 \<Longrightarrow> rest hs = hs"
  by (simp add: rest_def)

lemma length_combine16_full: "length (combine16 (full hs)) = length hs div 16"
proof -
  have "(16 * (length hs div 16) + 16 - 1) div 16 = length hs div 16"
    using div_mult_self4[of 16 15 "length hs div 16"] by (simp add: add.commute)
  then show ?thesis by (simp add: combine16_def length_chunks_of length_full(2))
qed

function forest :: "byte list list \<Rightarrow> byte list list list" where
  "forest hs = (if length hs < 16 then [hs] else rest hs # forest (combine16 (full hs)))"
  by pat_completeness auto

termination forest
  by (relation "measure length") (auto simp: length_combine16_full)

declare forest.simps [simp del]

lemma forest_short: "length hs < 16 \<Longrightarrow> forest hs = [hs]"
  by (simp add: forest.simps)

lemma forest_Nil: "forest [] = [[]]"
  by (simp add: forest.simps)

lemma forest_Cons: obtains ts where "forest hs = rest hs # ts"
proof (cases "length hs < 16")
  case True
  then have "forest hs = [hs]" by (simp add: forest.simps)
  moreover have "rest hs = hs" using True by (rule rest_short)
  ultimately show ?thesis using that by metis
next
  case False
  then have "forest hs = rest hs # forest (combine16 (full hs))" by (subst forest.simps) simp
  then show ?thesis using that by metis
qed

lemma forest_small: "l \<in> set (forest hs) \<Longrightarrow> length l < 16"
proof (induction hs rule: forest.induct)
  case (1 hs)
  show ?case
  proof (cases "length hs < 16")
    case True
    then show ?thesis using "1.prems" by (simp add: forest.simps)
  next
    case False
    then have "l = rest hs \<or> l \<in> set (forest (combine16 (full hs)))"
      using "1.prems" by (subst (asm) forest.simps) auto
    then show ?thesis using "1.IH"[OF False] by (auto simp: length_rest)
  qed
qed

lemma carry_levels_done:
  assumes "\<forall>l \<in> set (drop i lv). length l < 16"
  shows "carry_levels be i lv = Some lv"
  using assms
proof (induction be i lv rule: carry_levels.induct)
  case (1 be i lv)
  show ?case
  proof (cases "i < length lv")
    case True
    then have d: "drop i lv = lv ! i # drop (i + 1) lv" by (simp add: Cons_nth_drop_Suc)
    then have "length (lv ! i) < 16" "\<forall>l \<in> set (drop (i + 1) lv). length l < 16" using "1.prems" by auto
    then show ?thesis using "1.IH"(2)[OF True] by (subst carry_levels.simps) (simp add: max_level_size_def)
  next
    case False
    then show ?thesis by (subst carry_levels.simps) simp
  qed
qed

lemma finalize_level_at:
  assumes "length p = i"
  shows "finalize_level be i (p @ [l]) = (p @ [[]]) @ [[sha512_of (concat l)]]"
    and "finalize_level be i (p @ l # l' # ts) = (p @ [[]]) @ (l' @ [sha512_of (concat l)]) # ts"
proof -
  have "(p @ [l]) ! i = l" "(p @ l # l' # ts) ! i = l" "(p @ l # l' # ts) ! (i + 1) = l'"
    using assms by (auto simp: nth_append)
  then show "finalize_level be i (p @ [l]) = (p @ [[]]) @ [[sha512_of (concat l)]]"
    and "finalize_level be i (p @ l # l' # ts) = (p @ [[]]) @ (l' @ [sha512_of (concat l)]) # ts"
    using assms by (simp_all add: finalize_level_shape sha512_all_of list_update_append)
qed

text \<open>Adding a hash carries full levels upwards, as when counting.\<close>

lemma carry_levels_forest:
  "length p = i \<Longrightarrow> forest hs = l # ts \<Longrightarrow>
   carry_levels be i (p @ (l @ [h]) # ts) = Some (p @ forest (hs @ [h]))"
proof (induction hs arbitrary: p i l ts h rule: forest.induct)
  case (1 hs)
  have l: "l = rest hs" using "1.prems"(2) by (metis forest_Cons list.inject)
  let ?lv = "p @ (l @ [h]) # ts"
  have len: "length (hs @ [h]) = length hs + 1" by simp
  show ?case
  proof (cases "length l + 1 < 16")
    case True
    have dm: "(length hs + 1) div 16 = length hs div 16"
    proof -
      have "(length hs + 1) mod 16 = length hs mod 16 + 1"
        using True l by (simp add: length_rest mod_Suc)
      then show ?thesis using mult_div_mod_eq[of 16 "length hs"] mult_div_mod_eq[of 16 "length hs + 1"] by linarith
    qed
    have f: "full (hs @ [h]) = full hs" "rest (hs @ [h]) = l @ [h]"
      using div_times_less_eq_dividend[of "length hs" 16] by (simp_all add: full_def rest_def dm[simplified] l mult.commute)
    have "forest (hs @ [h]) = (l @ [h]) # ts"
    proof (cases "length hs < 16")
      case True
      then have "l = hs" "ts = []" using "1.prems"(2) l by (simp_all add: forest.simps rest_short)
      then show ?thesis using \<open>length l + 1 < 16\<close> by (subst forest.simps) simp
    next
      case False
      then have "ts = forest (combine16 (full hs))" using "1.prems"(2) by (subst (asm) forest.simps) simp
      then show ?thesis using False by (subst forest.simps) (simp add: f)
    qed
    moreover have "carry_levels be i ?lv = Some ?lv"
    proof (rule carry_levels_done)
      have "drop i ?lv = (l @ [h]) # ts" using "1.prems"(1) by simp
      moreover have "\<forall>x \<in> set ts. length x < 16" using forest_small[of _ hs] "1.prems"(2) by simp
      ultimately show "\<forall>x \<in> set (drop i ?lv). length x < 16" using True by simp
    qed
    ultimately show ?thesis by simp
  next
    case False
    moreover have "length l < 16" by (simp add: l length_rest)
    ultimately have l15: "length l = 15" by linarith
    let ?H = "sha512_of (concat (l @ [h]))"
    have dm: "(length hs + 1) div 16 = length hs div 16 + 1" "(length hs + 1) mod 16 = 0"
    proof -
      have m: "length hs mod 16 = 15" using l15 l by (simp add: length_rest)
      then show "(length hs + 1) mod 16 = 0" by (simp add: mod_Suc)
      then show "(length hs + 1) div 16 = length hs div 16 + 1"
        using m mult_div_mod_eq[of 16 "length hs"] mult_div_mod_eq[of 16 "length hs + 1"] by linarith
    qed
    have "16 * (length (hs @ [h]) div 16) = length (hs @ [h])"
      using mult_div_mod_eq[of 16 "length (hs @ [h])"] dm(2) by (simp only: len add_0_right)
    then have "full (hs @ [h]) = hs @ [h]" "rest (hs @ [h]) = []" by (simp_all only: full_def rest_def take_all drop_all order_refl)
    moreover have "combine16 (hs @ [h]) = combine16 (full hs) @ [?H]"
    proof -
      have e: "hs @ [h] = full hs @ (l @ [h])" using full_rest[of hs] l by simp
      show ?thesis
        unfolding e combine16_def by (subst chunks_of_snoc[OF length_full(1)]) (simp_all add: l15)
    qed
    moreover have "\<not> length (hs @ [h]) < 16"
      using l15 l length_rest[of hs] mod_less_eq_dividend[of "length hs" 16] by simp
    ultimately have f: "forest (hs @ [h]) = [] # forest (combine16 (full hs) @ [?H])"
      by (subst forest.simps) simp
    have st: "carry_levels be i ?lv = carry_levels be (i + 1) (finalize_level be i ?lv)"
    proof -
      have "?lv ! i = l @ [h]" "i < length ?lv" using "1.prems"(1) by auto
      then show ?thesis using l15 by (subst carry_levels.simps) (simp add: max_level_size_def)
    qed
    show ?thesis
    proof (cases "length hs < 16")
      case True
      then have ts: "ts = []" using "1.prems"(2) by (simp add: forest.simps)
      have e: "combine16 (full hs) = []" using True by (simp add: full_def combine16_def)
      have "finalize_level be i ?lv = (p @ [[]]) @ [[?H]]"
        using finalize_level_at(1)[OF "1.prems"(1)] by (simp add: ts)
      moreover have "carry_levels be (i + 1) ((p @ [[]]) @ [[?H]]) = Some ((p @ [[]]) @ [[?H]])"
        by (rule carry_levels_done) (use "1.prems"(1) in simp)
      ultimately show ?thesis using st f e by (simp add: forest_short)
    next
      case False
      then have ts: "ts = forest (combine16 (full hs))" using "1.prems"(2) by (subst (asm) forest.simps) simp
      obtain l' ts' where f': "forest (combine16 (full hs)) = l' # ts'" using forest_Cons by metis
      have "finalize_level be i ?lv = (p @ [[]]) @ (l' @ [?H]) # ts'"
        using finalize_level_at(2)[OF "1.prems"(1)] by (simp add: ts f')
      moreover have "carry_levels be (i + 1) ((p @ [[]]) @ (l' @ [?H]) # ts') =
        Some ((p @ [[]]) @ forest (combine16 (full hs) @ [?H]))"
        by (rule "1.IH"[OF False _ f']) (use "1.prems"(1) in simp)
      ultimately show ?thesis using st f by simp
    qed
  qed
qed


text \<open>Finishing the levels from below gives the root of the tree over all hashes.\<close>

lemma combine16_append:
  assumes "length x \<le> 1"
  shows "combine16 (hs @ x) = combine16 (full hs) @ (if rest hs @ x = [] then [] else [sha512_of (concat (rest hs @ x))])"
proof -
  have e: "hs @ x = full hs @ (rest hs @ x)" using full_rest[of hs] by simp
  have le: "length (rest hs @ x) \<le> 16"
    using assms length_rest[of hs] mod_less_divisor[of 16 "length hs"] by (simp only: length_append)
  show ?thesis
  proof (cases "rest hs @ x = []")
    case True
    then show ?thesis unfolding e combine16_def by simp
  next
    case False
    show ?thesis
      unfolding e combine16_def by (subst chunks_of_snoc[OF length_full(1) False le]) (use False in simp)
  qed
qed

lemma merkle_one: "merkle [h] = h"
  by (subst merkle.simps) simp

lemma merkle_step: "1 < length hs \<Longrightarrow> merkle hs = merkle (combine16 hs)"
  by (subst merkle.simps) simp

lemma merkle_top:
  assumes "1 < length hs" "length hs \<le> 16"
  shows "merkle hs = sha512_of (concat hs)"
proof -
  have "hs \<noteq> []" using assms(1) by auto
  then have "combine16 hs = [sha512_of (concat hs)]"
    using assms(2) by (simp add: combine16_def chunks_of_short)
  then show ?thesis using merkle_step[OF assms(1)] by (simp only: merkle_one)
qed

lemma finalize_levels:
  "length p = i \<Longrightarrow> forest hs = r # ts \<Longrightarrow> length x \<le> 1 \<Longrightarrow> hs @ x \<noteq> [] \<Longrightarrow>
   \<exists>q top. fold (finalize_nonempty be) [i..<i + length ts] (p @ (r @ x) # ts) = q @ [top] \<and>
     length q = i + length ts \<and> top \<noteq> [] \<and> length top \<le> 16 \<and>
     merkle (hs @ x) = (if 1 < length top then sha512_of (concat top) else hd top)"
proof (induction hs arbitrary: p i r ts x rule: forest.induct)
  case (1 hs)
  have r: "r = rest hs" using "1.prems"(2) by (metis forest_Cons list.inject)
  show ?case
  proof (cases "length hs < 16")
    case True
    then have ts: "ts = []" "r = hs" using "1.prems"(2) by (simp_all add: forest_short)
    have "merkle (hs @ x) = (if 1 < length (hs @ x) then sha512_of (concat (hs @ x)) else hd (hs @ x))"
    proof (cases "1 < length (hs @ x)")
      case t: True
      moreover have "length (hs @ x) \<le> 16" using True "1.prems"(3) by simp
      ultimately show ?thesis using merkle_top by simp
    next
      case False
      with "1.prems"(4) obtain h where "hs @ x = [h]"
        by (metis One_nat_def length_0_conv length_Suc_conv less_one linorder_neqE_nat)
      then show ?thesis by (simp add: merkle_one)
    qed
    moreover have "length (hs @ x) \<le> 16" using True "1.prems"(3) by simp
    ultimately show ?thesis using "1.prems"(1,4) by (intro exI[of _ p] exI[of _ "hs @ x"]) (simp add: ts)
  next
    case False
    then have t: "ts = forest (combine16 (full hs))" using "1.prems"(2) by (subst (asm) forest.simps) simp
    obtain l' ts' where f': "forest (combine16 (full hs)) = l' # ts'" using forest_Cons by metis
    define x' where "x' = (if rest hs @ x = [] then [] else [sha512_of (concat (rest hs @ x))])"
    have ne: "combine16 (full hs) @ x' \<noteq> []"
    proof -
      have "length (combine16 (full hs)) \<noteq> 0" using False length_combine16_full[of hs] by (simp add: div_eq_0_iff)
      then show ?thesis by (simp add: combine16_def)
    qed
    have step: "finalize_nonempty be i (p @ (r @ x) # ts) = (p @ [[]]) @ (l' @ x') # ts'"
    proof (cases "r @ x = []")
      case True
      moreover have "(p @ [] # l' # ts') ! i = []" using "1.prems"(1) by auto
      ultimately show ?thesis by (simp add: finalize_nonempty_def x'_def r[symmetric] t f')
    next
      case False
      have n: "(p @ (r @ x) # l' # ts') ! i = r @ x" using "1.prems"(1) by auto
      show ?thesis
        unfolding finalize_nonempty_def x'_def r[symmetric] t f' n
        using False finalize_level_at(2)[OF "1.prems"(1), of be "r @ x" l' ts'] by (simp only: if_False not_False_eq_True if_True)
    qed
    have "length (p @ [[]]) = i + 1" "length x' \<le> 1" using "1.prems"(1) by (simp_all add: x'_def)
    from "1.IH"[OF False this(1) f' this(2) ne] obtain q top where
      q: "fold (finalize_nonempty be) [i + 1..<i + 1 + length ts'] ((p @ [[]]) @ (l' @ x') # ts') = q @ [top]"
      "length q = i + 1 + length ts'" "top \<noteq> []" "length top \<le> 16"
      "merkle (combine16 (full hs) @ x') = (if 1 < length top then sha512_of (concat top) else hd top)"
      by (elim exE conjE)
    have "i + length ts = i + 1 + length ts'" by (simp add: t f')
    then have "[i..<i + length ts] = i # [i + 1..<i + 1 + length ts']"
      using upt_conv_Cons[of i "i + length ts"] by (simp only: Suc_eq_plus1)
    then have "fold (finalize_nonempty be) [i..<i + length ts] (p @ (r @ x) # ts) = q @ [top]"
      by (simp only: fold_Cons comp_apply step q(1))
    moreover have "merkle (hs @ x) = merkle (combine16 (full hs) @ x')"
    proof -
      have "1 < length (hs @ x)" using False by simp
      then show ?thesis using combine16_append[OF "1.prems"(3), of hs] by (simp only: merkle_step x'_def)
    qed
    ultimately show ?thesis using q(2-5) by (intro exI[of _ q] exI[of _ top]) (simp add: t f')
  qed
qed

lemma root_level_merkle:
  assumes "hs \<noteq> []"
  shows "\<exists>q tops. root_level be (forest hs) = q @ [merkle hs # tops]"
proof -
  obtain r ts where f: "forest hs = r # ts" using forest_Cons by metis
  obtain q top where q: "fold (finalize_nonempty be) [0..<length ts] (r # ts) = q @ [top]"
    "length q = length ts" "top \<noteq> []" "merkle hs = (if 1 < length top then sha512_of (concat top) else hd top)"
    using finalize_levels[of "[]" 0 hs r ts "[]" be] f assms by auto
  have n: "(q @ [top]) ! (length (q @ [top]) - 1) = top" by simp
  have lf: "length (r # ts) - 1 = length ts" by simp
  have root: "root_level be (forest hs) = (if 1 < length top then finalize_level be (length q) (q @ [top]) else q @ [top])"
    unfolding root_level_def f Let_def lf q(1) n by simp
  show ?thesis
  proof (cases "1 < length top")
    case True
    then show ?thesis using root q(4) finalize_level_at(1)[of q "length q" be top] by simp
  next
    case False
    then obtain h where "top = [h]" using q(3) by (cases top) auto
    then show ?thesis using root q(4) by simp
  qed
qed


section \<open>The leaf of a block\<close>

lemma column_snoc: "column j (cs @ [c]) = column j cs @ (if length cs mod 12 = j then [c] else [])"
proof -
  have "map ((!) (cs @ [c])) (filter (\<lambda>i. i mod 12 = j) [0..<length cs]) = column j cs"
    unfolding column_def by (rule map_cong) (auto simp: nth_append)
  then show ?thesis by (simp add: column_def)
qed

lemma length_chunks_exact:
  assumes "length xs mod n = 0" "0 < n"
  shows "length (chunks_of n xs) = length xs div n"
proof -
  obtain k where k: "length xs = n * k" using assms(1) by (auto simp: mod_eq_0_iff_dvd)
  have "n * k + n - 1 = n * k + (n - 1)" using assms(2) by simp
  also have "(n * k + (n - 1)) div n = k + (n - 1) div n" using assms(2) by (intro div_mult_self4) simp
  finally have "(n * k + n - 1) div n = k" using assms(2) by simp
  then show ?thesis using assms(2) by (simp only: length_chunks_of k) simp
qed

lemma column_adler_step:
  assumes "length cur mod 4096 = 0" "c \<noteq> []" "length c \<le> 4096"
  shows "column_adler j (cur @ c) =
    (if length cur div 4096 mod 12 = j then urb_adler32 (column_adler j cur) (Some c) else column_adler j cur)"
  using assms by (simp add: column_adler_def chunks_of_snoc column_snoc length_chunks_exact adler32_update)

lemma column_adler_Nil: "column_adler j [] = urb_adler32 0 None"
  by (simp add: column_adler_def column_def adler32_start)

definition columns :: "byte list \<Rightarrow> u32 list" where
  "columns cur = map (\<lambda>j. column_adler j cur) [0..<12]"

lemma length_columns [simp]: "length (columns cur) = 12"
  by (simp add: columns_def)

lemma columns_Nil: "columns [] = replicate 12 (urb_adler32 0 None)"
  by (simp add: columns_def column_adler_Nil map_replicate_const)

lemma columns_step:
  assumes "length cur mod 4096 = 0" "c \<noteq> []" "length c \<le> 4096"
  shows "columns (cur @ c) = (columns cur)[length cur div 4096 mod 12 :=
    urb_adler32 (columns cur ! (length cur div 4096 mod 12)) (Some c)]"
proof (rule nth_equalityI)
  fix j assume "j < length (columns (cur @ c))"
  then have "j < 12" by simp
  then show "columns (cur @ c) ! j = (columns cur)[length cur div 4096 mod 12 :=
    urb_adler32 (columns cur ! (length cur div 4096 mod 12)) (Some c)] ! j"
    using column_adler_step[OF assms, of j] by (simp add: columns_def nth_list_update)
qed simp

lemma leaf_of_columns: "leaf_of cur = md5_of cur @ concat (map (le_bytes 4) (columns cur))"
  by (simp add: leaf_of_def columns_def comp_def)

lemma length_md5_of: "length (md5_of msg) = 16"
  by (simp add: md5_of_def length_md5_encode split: prod.split)

lemma length_leaf_of: "length (leaf_of cur) = 64"
proof -
  have "length (concat (map (le_bytes 4) (columns cur))) = 4 * length (columns cur)"
    by (induction "columns cur") (simp_all add: length_concat sum_list_triv comp_def)
  then show ?thesis by (simp add: leaf_of_columns length_md5_of)
qed

text \<open>Combining with a rolling checksum of the piece is the same as continuing with the piece.\<close>

lemma columns_adler:
  assumes "j < 12"
  obtains xs where "columns cur ! j = adler32_of xs"
  using assms by (simp add: columns_def column_adler_def)

lemma combine_is_update:
  assumes "length c \<le> 4096"
  shows "urb_adler32_combine (adler32_of xs) (urb_adler32 (urb_adler32 0 None) (Some c)) (of_nat (length c)) =
    urb_adler32 (adler32_of xs) (Some c)"
proof -
  have "urb_adler32 (urb_adler32 0 None) (Some c) = adler32_of c"
    using adler32_update[of "[]" c] by (simp add: adler32_start)
  moreover have "length c < 2 ^ 32" using assms by simp
  ultimately show ?thesis using adler32_combine[of c xs] by (simp add: adler32_update)
qed

section \<open>What the object stands for\<close>

text \<open>\<open>ls\<close>: the leaves so far; \<open>cur\<close>: the bytes of the block that is not complete; \<open>sp\<close>: the bytes about holes.\<close>

definition tree_rep :: "TreeHash \<Rightarrow> byte list list \<Rightarrow> byte list \<Rightarrow> byte list option \<Rightarrow> bool" where
  "tree_rep t ls cur sp \<longleftrightarrow>
     offset t = length cur \<and> length cur < treehash_blocksize \<and> md5_inv (md5sum t) cur \<and> adlers t = columns cur \<and>
     level_hash t = forest ls \<and> has_sparse t = (sp \<noteq> None) \<and> sha_inv (sparse_ctx t) (case sp of None \<Rightarrow> [] | Some s \<Rightarrow> s) \<and>
     (hash_output t \<longrightarrow> length (hash_all_adlers t) = 528)"

lemma tree_rep_new: "length (buffer g) = 64 \<Longrightarrow> tree_rep (new_TreeHash out g) [] [] None"
  by (simp add: tree_rep_def new_TreeHash_def treehash_blocksize_def md5_init_inv columns_Nil forest_Nil SHA512_Init_inv)

lemma hash_small_rep:
  assumes "length cur mod 4096 = 0" "c \<noteq> []" "length c \<le> 4096" "length cur + length c \<le> treehash_blocksize"
    and "adlers t = columns cur" "hash_output t \<longrightarrow> length (hash_all_adlers t) = 528"
  shows "\<exists>all. hash_small be (length cur) c t = Some (t\<lparr>adlers := columns (cur @ c), hash_all_adlers := all\<rparr>) \<and>
    (hash_output t \<longrightarrow> length all = 528)"
proof -
  have j: "length cur div 4096 mod 12 < 12" by simp
  obtain xs where xs: "columns cur ! (length cur div 4096 mod 12) = adler32_of xs" by (rule columns_adler[OF j])
  have "length cur < treehash_blocksize" using assms(2,4) by (cases c) auto
  then have "length cur div 4096 < 128" by (simp add: treehash_blocksize_def div_less_iff_less_mult)
  then have p: "16 + length cur div 4096 * 4 + 4 \<le> 528" by simp
  show ?thesis
  proof (cases "hash_output t")
    case True
    then have "hash_small be (length cur) c t = Some (t\<lparr>adlers := columns (cur @ c),
      hash_all_adlers := put_bytes (hash_all_adlers t) (16 + length cur div 4096 * 4)
        (le_bytes 4 (urb_adler32 (urb_adler32 0 None) (Some c)))\<rparr>)"
      using assms p combine_is_update[OF assms(3), of xs]
      by (simp add: hash_small_def treehash_smallblock_def Let_def xs columns_step)
    moreover have "length (put_bytes (hash_all_adlers t) (16 + length cur div 4096 * 4)
        (le_bytes 4 (urb_adler32 (urb_adler32 0 None) (Some c)))) = 528"
      using True assms(6) p by (simp add: length_put_bytes)
    ultimately show ?thesis by blast
  next
    case False
    then show ?thesis
      using assms by (intro exI[of _ "hash_all_adlers t"])
        (simp add: hash_small_def treehash_smallblock_def Let_def columns_step)
  qed
qed

lemma addHash_rep:
  assumes "offset t = 0" "level_hash t = forest ls" "length h = 64"
  shows "addHash be h k t = Some (t\<lparr>level_hash := forest (ls @ [h]), hash_pos := hash_pos t + int k\<rparr>)"
proof -
  obtain r ts where f: "forest ls = r # ts" using forest_Cons by metis
  show ?thesis using carry_levels_forest[of "[]" 0 ls r ts be h] f assms by (simp add: addHash_def)
qed

lemma finalize_curr_rep:
  assumes "offset t = 0" "md5_inv (md5sum t) cur" "adlers t = columns cur" "level_hash t = forest ls"
    "has_sparse t = (sp \<noteq> None)" "sha_inv (sparse_ctx t) (case sp of None \<Rightarrow> [] | Some s \<Rightarrow> s)"
    "hash_output t \<longrightarrow> length (hash_all_adlers t) = 528"
  shows "\<exists>t'. finalize_curr be t = Some t' \<and> tree_rep t' (ls @ [leaf_of cur]) [] sp"
proof -
  let ?m = "md5_finalize (md5sum t)"
  have d: "raw_digest_int ?m = Some (md5_of cur)" by (rule md5_finalize_digest[OF assms(2)])
  have b: "length (buffer ?m) = 64" by (rule md5_finalize_buffer[OF assms(2)])
  have h: "take 16 (md5_of cur) @ concat (map (mem_of be 4) (map (little_endian32 be) (adlers t))) = leaf_of cur"
    by (simp add: leaf_of_columns assms(3) comp_def length_md5_of)
  let ?all = "put_bytes (hash_all_adlers t) 0 (take 16 (md5_of cur))"
  let ?t1 = "t\<lparr>md5sum := ?m, adlers := map (little_endian32 be) (adlers t)\<rparr>"
  define t2 where "t2 = (if hash_output t then ?t1\<lparr>hash_all_adlers := ?all, outputs := outputs t @ [(hash_pos t, ?all)]\<rparr> else ?t1)"
  have l2: "offset t2 = 0" "level_hash t2 = forest ls" "md5sum t2 = ?m" using assms by (simp_all add: t2_def)
  have "finalize_curr be t = addHash be (leaf_of cur) 0 t2 \<bind>
    (\<lambda>t. Some (t\<lparr>md5sum := md5_init (md5sum t), adlers := replicate 12 (urb_adler32 0 None)\<rparr>))"
    unfolding finalize_curr_def d Let_def Option.bind.bind_lunit h t2_def by (cases "hash_output t") simp_all
  also have "\<dots> = Some ((t2\<lparr>level_hash := forest (ls @ [leaf_of cur]), hash_pos := hash_pos t2 + int 0\<rparr>)
    \<lparr>md5sum := md5_init ?m, adlers := replicate 12 (urb_adler32 0 None)\<rparr>)"
    using addHash_rep[OF l2(1,2) length_leaf_of, of be cur 0] l2(3) by simp
  finally have "finalize_curr be t = Some ((t2\<lparr>level_hash := forest (ls @ [leaf_of cur]), hash_pos := hash_pos t2 + int 0\<rparr>)
    \<lparr>md5sum := md5_init ?m, adlers := replicate 12 (urb_adler32 0 None)\<rparr>)" .
  moreover have "hash_output t \<longrightarrow> length ?all = 528"
    using assms(7) by (simp add: length_put_bytes length_md5_of)
  ultimately show ?thesis
    using assms b by (auto simp: tree_rep_def treehash_blocksize_def md5_init_inv columns_Nil t2_def)
qed


section \<open>Hashing aligned pieces\<close>

lemma hash_step_rep:
  assumes rep: "tree_rep t ls cur sp" and al: "length cur mod 4096 = 0" and r: "drop buf_off buf = r" "r \<noteq> []"
    and le: "length cur + length r \<le> treehash_blocksize"
  shows "\<exists>t'. hash_step be buf (length cur) (length cur + length r) buf_off t =
      Some (length cur + length r, buf_off + length (take 4096 r), t') \<and>
    (if length cur + length (take 4096 r) = treehash_blocksize
     then tree_rep t' (ls @ [leaf_of (cur @ take 4096 r)]) [] sp else tree_rep t' ls (cur @ take 4096 r) sp)"
proof -
  let ?c = "take 4096 r"
  have c: "?c \<noteq> []" "length ?c \<le> 4096" "length ?c \<le> length r" using r(2) by simp_all
  have t: "offset t = length cur" "md5_inv (md5sum t) cur" "adlers t = columns cur"
    "hash_output t \<longrightarrow> length (hash_all_adlers t) = 528" "level_hash t = forest ls" "has_sparse t = (sp \<noteq> None)"
    "sha_inv (sparse_ctx t) (case sp of None \<Rightarrow> [] | Some s \<Rightarrow> s)" "length cur < treehash_blocksize"
    using rep by (simp_all add: tree_rep_def)
  have le': "length cur + length ?c \<le> treehash_blocksize" using le c(3) by linarith
  obtain all where s: "hash_small be (length cur) ?c t = Some (t\<lparr>adlers := columns (cur @ ?c), hash_all_adlers := all\<rparr>)"
    "hash_output t \<longrightarrow> length all = 528"
    using hash_small_rep[OF al c(1,2) le' t(3,4), of be] by blast
  have th: "min treehash_smallblock (length r) = length ?c" by (simp add: treehash_smallblock_def min.commute)
  have tk: "take (length ?c) r = ?c" by (cases "4096 \<le> length r") simp_all
  let ?t = "t\<lparr>adlers := columns (cur @ ?c), hash_all_adlers := all, md5sum := md5_update (md5sum t) ?c,
    offset := length cur + length ?c, hash_pos := hash_pos t + int (length ?c)\<rparr>"
  have md: "md5_inv (md5_update (md5sum t) ?c) (cur @ ?c)"
    by (rule md5_update_inv[OF t(2)]) simp
  have step: "hash_step be buf (length cur) (length cur + length r) buf_off t =
    (if length cur + length ?c = treehash_blocksize then
       do { t \<leftarrow> finalize_curr be (?t\<lparr>offset := 0\<rparr>); Some (length cur + length r, buf_off + length ?c, t) }
     else Some (length cur + length r, buf_off + length ?c, ?t))"
    unfolding hash_step_def Let_def r(1) t(1) add_diff_cancel_left' th
    using al le le' s(1) t(1) by (simp add: treehash_smallblock_def tk del: length_take)
  show ?thesis
  proof (cases "length cur + length ?c = treehash_blocksize")
    case True
    have "\<exists>t'. finalize_curr be (?t\<lparr>offset := 0\<rparr>) = Some t' \<and> tree_rep t' (ls @ [leaf_of (cur @ ?c)]) [] sp"
      by (rule finalize_curr_rep) (simp_all add: md t s(2))
    then show ?thesis using step True by auto
  next
    case False
    then have "tree_rep ?t ls (cur @ ?c) sp" using md t s(2) le' by (simp add: tree_rep_def)
    then show ?thesis using step False by auto
  qed
qed

text \<open>The state after a piece that stays within the block.\<close>

definition rep_after :: "TreeHash \<Rightarrow> byte list list \<Rightarrow> byte list \<Rightarrow> byte list option \<Rightarrow> bool" where
  "rep_after t ls cur sp \<longleftrightarrow>
     (if length cur = treehash_blocksize then tree_rep t (ls @ [leaf_of cur]) [] sp else tree_rep t ls cur sp)"

lemma hash_loop_rep:
  "tree_rep t ls cur sp \<Longrightarrow> length cur mod 4096 = 0 \<Longrightarrow> drop buf_off buf = r \<Longrightarrow>
   length cur + length r \<le> treehash_blocksize \<Longrightarrow>
   \<exists>t'. hash_loop be buf (length cur) (length cur + length r) buf_off t = Some t' \<and> rep_after t' ls (cur @ r) sp"
proof (induction "length r" arbitrary: t cur buf_off r rule: less_induct)
  case less
  have lt: "length cur < treehash_blocksize" using less.prems(1) by (simp add: tree_rep_def)
  show ?case
  proof (cases "r = []")
    case True
    then show ?thesis using less.prems(1) lt by (subst hash_loop.simps) (simp add: rep_after_def)
  next
    case False
    let ?c = "take 4096 r" and ?k = "length cur + length r"
    obtain t' where s: "hash_step be buf (length cur) ?k buf_off t = Some (?k, buf_off + length ?c, t')"
      "if length cur + length ?c = treehash_blocksize
       then tree_rep t' (ls @ [leaf_of (cur @ ?c)]) [] sp else tree_rep t' ls (cur @ ?c) sp"
      using hash_step_rep[OF less.prems(1,2,3) False less.prems(4), of be] by auto
    have "(length cur + treehash_smallblock) mod 2 ^ 32 = length cur + 4096"
      using lt by (simp add: treehash_smallblock_def treehash_blocksize_def)
    then have loop: "hash_loop be buf (length cur) ?k buf_off t = hash_loop be buf (length cur + 4096) ?k (buf_off + length ?c) t'"
      using False by (subst hash_loop.simps) (simp add: s(1))
    show ?thesis
    proof (cases "4096 < length r")
      case True
      then have lc: "length ?c = 4096" by simp
      then have ne: "length cur + length ?c \<noteq> treehash_blocksize" using True less.prems(4) by linarith
      have rep: "tree_rep t' ls (cur @ ?c) sp" using s(2) ne by simp
      have d: "drop (buf_off + length ?c) buf = drop 4096 r"
        using less.prems(3) lc by (metis add.commute drop_drop)
      have k: "length (cur @ ?c) = length cur + 4096" "length cur + 4096 + length (drop 4096 r) = ?k" using True lc by simp_all
      have al: "length (cur @ ?c) mod 4096 = 0" using less.prems(2) lc by simp
      have "length (drop 4096 r) < length r" using True by simp
      from less.hyps[OF this rep al d] have
        "\<exists>t''. hash_loop be buf (length (cur @ ?c)) (length (cur @ ?c) + length (drop 4096 r)) (buf_off + length ?c) t' = Some t'' \<and>
          rep_after t'' ls ((cur @ ?c) @ drop 4096 r) sp"
        unfolding k using less.prems(4) by simp
      then show ?thesis unfolding loop k by (simp only: append.assoc append_take_drop_id)
    next
      case False
      then have c: "?c = r" by simp
      have "\<not> length cur + 4096 < ?k" using False by simp
      then have "hash_loop be buf (length cur + 4096) ?k (buf_off + length ?c) t' = Some t'"
        by (subst hash_loop.simps) simp
      then show ?thesis using loop s(2) unfolding c by (simp add: rep_after_def)
    qed
  qed
qed

lemma tree_hash_rep:
  assumes "tree_rep t ls cur sp" "length cur mod 4096 = 0" "length cur + length p \<le> treehash_blocksize"
  shows "\<exists>t'. tree_hash be p t = Some t' \<and> rep_after t' ls (cur @ p) sp"
proof -
  have o: "offset t = length cur" "length cur < treehash_blocksize" using assms(1) by (simp_all add: tree_rep_def)
  have "offset t \<noteq> UINT_MAX" using o by (simp add: treehash_blocksize_def UINT_MAX_def)
  moreover have "(offset t + length p) mod 2 ^ 32 = length cur + length p"
    using assms(3) o(1) by (simp add: treehash_blocksize_def)
  ultimately show ?thesis
    using hash_loop_rep[OF assms(1,2), of 0 p p be] assms(3) by (simp add: tree_hash_def o(1))
qed

lemma tree_sparse_hash_rep:
  assumes "tree_rep t ls cur sp"
  shows "\<exists>t'. tree_sparse_hash be p t = Some t' \<and> tree_rep t' ls cur (Some ((case sp of None \<Rightarrow> [] | Some s \<Rightarrow> s) @ p))"
proof -
  have "offset t \<noteq> UINT_MAX" using assms by (simp add: tree_rep_def treehash_blocksize_def UINT_MAX_def)
  then show ?thesis using assms by (simp add: tree_sparse_hash_def tree_rep_def SHA512_Update_inv)
qed

section \<open>The result\<close>

definition tree_result :: "byte list list \<Rightarrow> byte list option \<Rightarrow> byte list" where
  "tree_result ls sp =
     (if ls = [] then sha512_of []
      else case sp of None \<Rightarrow> merkle ls | Some s \<Rightarrow> sha512_of (s @ merkle ls))"

lemma forest_empty_iff: "forest ls = [[]] \<longleftrightarrow> ls = []"
proof
  assume f: "forest ls = [[]]"
  show "ls = []"
  proof (cases "length ls < 16")
    case True then show ?thesis using f by (simp add: forest_short)
  next
    case False
    obtain r ts where "forest (combine16 (full ls)) = r # ts" using forest_Cons by metis
    then show ?thesis using False f by (subst (asm) forest.simps) simp
  qed
qed (simp add: forest_Nil)

lemma tree_finalize_rep:
  assumes "tree_rep t ls cur sp"
  shows "\<exists>t'. tree_finalize be t = Some (tree_result (if cur = [] then ls else ls @ [leaf_of cur]) sp, t')"
proof -
  define ls' where "ls' = (if cur = [] then ls else ls @ [leaf_of cur])"
  have "\<exists>t1. (if offset t \<noteq> 0 then finalize_curr be (t\<lparr>offset := 0\<rparr>) else Some t) = Some t1 \<and> tree_rep t1 ls' [] sp"
  proof (cases "cur = []")
    case True
    then show ?thesis using assms by (auto simp: tree_rep_def ls'_def)
  next
    case False
    have "\<exists>t'. finalize_curr be (t\<lparr>offset := 0\<rparr>) = Some t' \<and> tree_rep t' (ls @ [leaf_of cur]) [] sp"
      using assms by (intro finalize_curr_rep) (simp_all add: tree_rep_def)
    moreover have "offset t \<noteq> 0" using False assms by (simp add: tree_rep_def)
    ultimately show ?thesis using False by (simp add: ls'_def)
  qed
  then obtain t1 where t1: "(if offset t \<noteq> 0 then finalize_curr be (t\<lparr>offset := 0\<rparr>) else Some t) = Some t1" "tree_rep t1 ls' [] sp"
    by blast
  have l: "level_hash t1 = forest ls'" "has_sparse t1 = (sp \<noteq> None)"
    "sha_inv (sparse_ctx t1) (case sp of None \<Rightarrow> [] | Some s \<Rightarrow> s)"
    using t1(2) by (simp_all add: tree_rep_def)
  show ?thesis
  proof (cases "ls' = []")
    case True
    then have "tree_finalize be t = Some (fst (SHA512_Final be (SHA512_Init blank_ctx)), t1\<lparr>offset := UINT_MAX\<rparr>)"
      unfolding tree_finalize_def t1(1) Option.bind.bind_lunit Let_def by (simp add: l forest_Nil)
    moreover have "fst (SHA512_Final be (SHA512_Init blank_ctx)) = sha512_of []"
      using sha512.digest_of_pieces[where ds = "[]"] by simp
    ultimately show ?thesis using True by (simp add: ls'_def[symmetric] tree_result_def)
  next
    case False
    obtain q tops where root: "root_level be (forest ls') = q @ [merkle ls' # tops]" using root_level_merkle[OF False] by blast
    then have n: "root_level be (forest ls') ! (length (root_level be (forest ls')) - 1) = merkle ls' # tops" by simp
    have f: "forest ls' \<noteq> [[]]" using False by (simp add: forest_empty_iff)
    show ?thesis
    proof (cases sp)
      case None
      then show ?thesis
        unfolding tree_finalize_def t1(1) Option.bind.bind_lunit Let_def ls'_def[symmetric]
        using f n l False by (simp add: tree_result_def)
    next
      case (Some s)
      then have "sha_inv (SHA512_Update be (sparse_ctx t1) (merkle ls')) (s @ merkle ls')"
        using l(3) by (simp add: SHA512_Update_inv)
      from SHA512_Final_digest[OF this, of be]
      obtain c where "SHA512_Final be (SHA512_Update be (sparse_ctx t1) (merkle ls')) = (sha512_of (s @ merkle ls'), c)"
        by (metis prod.collapse)
      then show ?thesis
        unfolding tree_finalize_def t1(1) Option.bind.bind_lunit Let_def ls'_def[symmetric]
        using f n l False Some by (simp add: tree_result_def)
    qed
  qed
qed


section \<open>Leaves from the hashes of the small blocks\<close>

text \<open>What a chunk hash file holds for a block: its MD5 digest and the checksum of each small block.\<close>

definition chunk_hash :: "bool \<Rightarrow> byte list \<Rightarrow> byte list" where
  "chunk_hash be block = md5_of block @ concat (map (\<lambda>c. mem_of be 4 (adler32_of c)) (chunks_of 4096 block))"

lemma length_concat_words: "length (concat (map (\<lambda>c. mem_of be 4 (f c)) cs)) = 4 * length cs"
  by (induction cs) simp_all

lemma length_chunk_hash: "length (chunk_hash be block) = 16 + 4 * length (chunks_of 4096 block)"
  by (simp add: chunk_hash_def length_md5_of length_concat_words)

lemma take_drop_words:
  "i < length cs \<Longrightarrow> take 4 (drop (4 * i) (concat (map (\<lambda>c. mem_of be 4 (f c)) cs))) = mem_of be 4 (f (cs ! i))"
proof (induction cs arbitrary: i)
  case (Cons c cs)
  show ?case
  proof (cases i)
    case (Suc k)
    then show ?thesis using Cons by (simp add: drop_append)
  qed simp
qed simp

lemma input_adler_chunk:
  assumes "i < length (chunks_of 4096 block)"
  shows "input_adler be (chunk_hash be block) i = adler32_of (chunks_of 4096 block ! i)"
proof -
  have "drop (16 + 4 * i) (chunk_hash be block) =
    drop (4 * i) (concat (map (\<lambda>c. mem_of be 4 (adler32_of c)) (chunks_of 4096 block)))"
    by (simp add: chunk_hash_def length_md5_of)
  then show ?thesis
    using take_drop_words[OF assms, of be adler32_of] by (simp add: input_adler_def of_mem_mem_of)
qed

lemma length_chunks_nth:
  "0 < n \<Longrightarrow> i < length (chunks_of n xs) \<Longrightarrow> length (chunks_of n xs ! i) =
   (if i + 1 = length (chunks_of n xs) \<and> length xs mod n \<noteq> 0 then length xs mod n else n)"
proof (induction n xs arbitrary: i rule: chunks_of.induct)
  case (1 n xs)
  then have ne: "\<not> (xs = [] \<or> n = 0)" by auto
  have c: "chunks_of n xs = take n xs # chunks_of n (drop n xs)" using ne by (subst chunks_of.simps) auto
  show ?case
  proof (cases "length xs \<le> n")
    case True
    then have "chunks_of n xs = [xs]" using ne by (simp add: chunks_of_short)
    moreover have "length xs = n \<or> length xs mod n = length xs \<and> length xs mod n \<noteq> 0"
      using True ne by (cases "length xs = n") simp_all
    ultimately show ?thesis using "1.prems"(2) by auto
  next
    case False
    then have m: "length (drop n xs) mod n = length xs mod n" by (simp add: le_mod_geq)
    show ?thesis
    proof (cases i)
      case 0
      have "drop n xs \<noteq> []" using False by simp
      then have "chunks_of n (drop n xs) \<noteq> []" using ne by (subst chunks_of.simps) simp
      then show ?thesis using 0 False c by simp
    next
      case (Suc k)
      then have "k < length (chunks_of n (drop n xs))" using "1.prems"(2) c by simp
      from "1.IH"[OF ne "1.prems"(1) this] show ?thesis using Suc m c by simp
    qed
  qed
qed

text \<open>The checksums of the columns over the first \<open>k\<close> small blocks.\<close>

definition columns_to :: "byte list list \<Rightarrow> nat \<Rightarrow> u32 list" where
  "columns_to cs k = map (\<lambda>j. adler32_of (concat (column j (take k cs)))) [0..<12]"

lemma columns_to_all: "columns_to (chunks_of 4096 block) (length (chunks_of 4096 block)) = columns block"
  by (simp add: columns_to_def columns_def column_adler_def)

lemma columns_to_Suc:
  assumes "k < length cs" "length (cs ! k) < 2 ^ 32"
  shows "columns_to cs (Suc k) = (columns_to cs k)[k mod 12 :=
    urb_adler32_combine (columns_to cs k ! (k mod 12)) (adler32_of (cs ! k)) (of_nat (length (cs ! k)))]"
proof (rule nth_equalityI)
  fix j assume "j < length (columns_to cs (Suc k))"
  then have "j < 12" by (simp add: columns_to_def)
  then show "columns_to cs (Suc k) ! j = (columns_to cs k)[k mod 12 :=
    urb_adler32_combine (columns_to cs k ! (k mod 12)) (adler32_of (cs ! k)) (of_nat (length (cs ! k)))] ! j"
    using assms by (simp add: columns_to_def nth_list_update take_Suc_nth column_snoc adler32_combine)
qed (simp add: columns_to_def)

lemma column_first: "k \<le> 12 \<Longrightarrow> k \<le> length cs \<Longrightarrow> j < 12 \<Longrightarrow> column j (take k cs) = (if j < k then [cs ! j] else [])"
proof (induction k)
  case (Suc k)
  then show ?case by (auto simp: take_Suc_nth column_snoc)
qed (simp add: column_def)

lemma combine_columns:
  assumes "h = chunk_hash be block" "cs = chunks_of 4096 block" "12 \<le> k" "k \<le> length cs"
  shows "fold (combine_column be h (length cs) (length block)) [12..<k] (columns_to cs 12) = columns_to cs k"
  using assms(3,4)
proof (induction k rule: dec_induct)
  case (step k)
  have l: "length (cs ! k) = (if k + 1 = length cs \<and> length block mod 4096 \<noteq> 0 then length block mod 4096 else 4096)"
    using length_chunks_nth[of 4096 k block] step.prems assms(2) by simp
  then have "length (cs ! k) \<le> 4096" using mod_less_divisor[of 4096 "length block"] by (simp split: if_splits)
  then have "length (cs ! k) < 2 ^ 32" by simp
  then have "combine_column be h (length cs) (length block) k (columns_to cs k) = columns_to cs (Suc k)"
    using l step.prems input_adler_chunk[of k block be] assms(1,2) columns_to_Suc[of k cs]
    by (simp add: combine_column_def treehash_smallblock_def Let_def)
  then show ?case using step by simp
qed simp

lemma allAdler_leaf:
  "allAdlerTo64byteHash be (chunk_hash be block) (length (chunk_hash be block)) (length block) = leaf_of block"
proof -
  let ?h = "chunk_hash be block" and ?cs = "chunks_of 4096 block"
  have n: "(length ?h - 16) div 4 = length ?cs" by (simp add: length_chunk_hash)
  have start: "map (\<lambda>i. if length ?cs \<le> i then urb_adler32 0 None else input_adler be ?h i) [0..<12] =
    columns_to ?cs (min 12 (length ?cs))"
    unfolding columns_to_def
  proof (rule map_cong)
    fix i :: nat assume i: "i \<in> set [0..<12]"
    then have "column i (take (min 12 (length ?cs)) ?cs) = (if i < length ?cs then [?cs ! i] else [])"
      using column_first[of "min 12 (length ?cs)" ?cs i] by auto
    then show "(if length ?cs \<le> i then urb_adler32 0 None else input_adler be ?h i) =
      adler32_of (concat (column i (take (min 12 (length ?cs)) ?cs)))"
      by (simp add: input_adler_chunk adler32_start)
  qed simp
  have "fold (combine_column be ?h (length ?cs) (length block)) [12..<length ?cs] (columns_to ?cs (min 12 (length ?cs))) =
    columns block"
  proof (cases "12 \<le> length ?cs")
    case True
    then show ?thesis using combine_columns[OF refl refl True order_refl] by (simp add: columns_to_all min_def)
  next
    case False
    then show ?thesis by (simp add: columns_to_all min_def)
  qed
  then have "allAdlerTo64byteHash be ?h (length ?h) (length block) = take 16 ?h @ concat (map (le_bytes 4) (columns block))"
    unfolding allAdlerTo64byteHash_def n Let_def start by (simp add: comp_def)
  also have "take 16 ?h = md5_of block" by (simp add: chunk_hash_def length_md5_of)
  finally show ?thesis by (simp add: leaf_of_columns)
qed

lemma addHashAllAdler_rep:
  assumes "tree_rep t ls [] sp"
  shows "\<exists>t'. addHashAllAdler be (chunk_hash be block) (length (chunk_hash be block)) (length block) t = Some t' \<and>
    tree_rep t' (ls @ [leaf_of block]) [] sp"
proof -
  have "offset t = 0" "level_hash t = forest ls" using assms by (simp_all add: tree_rep_def)
  then have "addHashAllAdler be (chunk_hash be block) (length (chunk_hash be block)) (length block) t =
    Some (t\<lparr>level_hash := forest (ls @ [leaf_of block]), hash_pos := hash_pos t + int (length block)\<rparr>)"
    using addHash_rep[OF _ _ length_leaf_of] by (simp add: addHashAllAdler_def allAdler_leaf)
  then show ?thesis using assms by (simp add: tree_rep_def)
qed

section \<open>Sequences of calls\<close>

datatype tree_call = Bytes "byte list" | Hole "byte list" | Block "byte list"

fun run_call :: "bool \<Rightarrow> tree_call \<Rightarrow> TreeHash \<Rightarrow> TreeHash option" where
  "run_call be (Bytes p) t = tree_hash be p t"
| "run_call be (Hole p) t = tree_sparse_hash be p t"
| "run_call be (Block b) t = addHashAllAdler be (chunk_hash be b) (length (chunk_hash be b)) (length b) t"

fun run_calls :: "bool \<Rightarrow> tree_call list \<Rightarrow> TreeHash \<Rightarrow> TreeHash option" where
  "run_calls be [] t = Some t"
| "run_calls be (c # cs) t = do { t \<leftarrow> run_call be c t; run_calls be cs t }"

text \<open>
  Pieces start at multiples of 4096 bytes and end within the block; blocks whose hashes come from
  elsewhere start at a multiple of the block size; a shorter block is the last one.
\<close>

fun calls_ok :: "nat \<Rightarrow> tree_call list \<Rightarrow> bool" where
  "calls_ok n [] = True"
| "calls_ok n (Bytes p # cs) = (n mod 4096 = 0 \<and> n + length p \<le> treehash_blocksize \<and>
     calls_ok ((n + length p) mod treehash_blocksize) cs)"
| "calls_ok n (Hole p # cs) = calls_ok n cs"
| "calls_ok n (Block b # cs) = (n = 0 \<and> b \<noteq> [] \<and>
     (length b = treehash_blocksize \<and> calls_ok 0 cs \<or>
      length b < treehash_blocksize \<and> (\<forall>c \<in> set cs. \<exists>p. c = Hole p)))"

fun content :: "tree_call list \<Rightarrow> byte list" where
  "content [] = []"
| "content (Bytes p # cs) = p @ content cs"
| "content (Hole p # cs) = content cs"
| "content (Block b # cs) = b @ content cs"

fun hole_bytes :: "tree_call list \<Rightarrow> byte list option" where
  "hole_bytes [] = None"
| "hole_bytes (Hole p # cs) = Some (p @ (case hole_bytes cs of None \<Rightarrow> [] | Some s \<Rightarrow> s))"
| "hole_bytes (_ # cs) = hole_bytes cs"

definition tree_hash_of :: "byte list \<Rightarrow> byte list option \<Rightarrow> byte list" where
  "tree_hash_of bs sp = tree_result (map leaf_of (chunks_of treehash_blocksize bs)) sp"

fun add_holes :: "byte list option \<Rightarrow> byte list option \<Rightarrow> byte list option" where
  "add_holes sp None = sp"
| "add_holes sp (Some s) = Some ((case sp of None \<Rightarrow> [] | Some s0 \<Rightarrow> s0) @ s)"

lemma add_holes_Hole:
  "add_holes (Some ((case sp of None \<Rightarrow> [] | Some s \<Rightarrow> s) @ p)) (hole_bytes cs) = add_holes sp (hole_bytes (Hole p # cs))"
  by (cases "hole_bytes cs") simp_all

lemma run_holes:
  "tree_rep t ls cur sp \<Longrightarrow> \<forall>c \<in> set cs. \<exists>p. c = Hole p \<Longrightarrow>
   \<exists>t'. run_calls be cs t = Some t' \<and> tree_rep t' ls cur (add_holes sp (hole_bytes cs)) \<and> content cs = []"
proof (induction cs arbitrary: t sp)
  case (Cons c cs)
  then obtain p where c: "c = Hole p" by auto
  obtain t1 where t1: "tree_sparse_hash be p t = Some t1"
    "tree_rep t1 ls cur (Some ((case sp of None \<Rightarrow> [] | Some s \<Rightarrow> s) @ p))"
    using tree_sparse_hash_rep[OF Cons.prems(1)] by blast
  have "\<forall>c \<in> set cs. \<exists>p. c = Hole p" using Cons.prems(2) by simp
  from Cons.IH[OF t1(2) this] show ?case unfolding add_holes_Hole by (simp add: c t1(1))
qed simp

lemma run_calls_rep:
  "tree_rep t ls cur sp \<Longrightarrow> calls_ok (length cur) cs \<Longrightarrow>
   \<exists>t' ls' cur'. run_calls be cs t = Some t' \<and> tree_rep t' ls' cur' (add_holes sp (hole_bytes cs)) \<and>
     (if cur' = [] then ls' else ls' @ [leaf_of cur']) = ls @ map leaf_of (chunks_of treehash_blocksize (cur @ content cs))"
proof (induction cs arbitrary: t ls cur sp)
  case Nil
  then have "length cur < treehash_blocksize" by (simp add: tree_rep_def)
  then have "(if cur = [] then ls else ls @ [leaf_of cur]) = ls @ map leaf_of (chunks_of treehash_blocksize (cur @ content []))"
    by (simp add: chunks_of_short)
  then show ?case using Nil by (intro exI[of _ t] exI[of _ ls] exI[of _ cur]) simp
next
  case (Cons c cs)
  have B: "0 < treehash_blocksize" by (simp add: treehash_blocksize_def)
  show ?case
  proof (cases c)
    case (Bytes p)
    then have ok: "length cur mod 4096 = 0" "length cur + length p \<le> treehash_blocksize"
      "calls_ok ((length cur + length p) mod treehash_blocksize) cs" using Cons.prems(2) by simp_all
    obtain t1 where t1: "tree_hash be p t = Some t1" "rep_after t1 ls (cur @ p) sp"
      using tree_hash_rep[OF Cons.prems(1) ok(1,2)] by blast
    have h: "hole_bytes (c # cs) = hole_bytes cs" by (simp add: Bytes)
    show ?thesis
    proof (cases "length (cur @ p) = treehash_blocksize")
      case True
      then have r: "tree_rep t1 (ls @ [leaf_of (cur @ p)]) [] sp" using t1(2) by (simp add: rep_after_def)
      have "calls_ok (length []) cs" using ok(3) True by simp
      moreover have "chunks_of treehash_blocksize ((cur @ p) @ content cs) = (cur @ p) # chunks_of treehash_blocksize (content cs)"
        using True B by (subst chunks_of_step) simp_all
      ultimately show ?thesis using Cons.IH[OF r] unfolding h by (simp add: Bytes t1(1))
    next
      case False
      then have r: "tree_rep t1 ls (cur @ p) sp" using t1(2) by (simp add: rep_after_def)
      have "calls_ok (length (cur @ p)) cs" using ok(2,3) False by simp
      then show ?thesis using Cons.IH[OF r] unfolding h by (simp add: Bytes t1(1))
    qed
  next
    case (Hole p)
    obtain t1 where t1: "tree_sparse_hash be p t = Some t1"
      "tree_rep t1 ls cur (Some ((case sp of None \<Rightarrow> [] | Some s \<Rightarrow> s) @ p))"
      using tree_sparse_hash_rep[OF Cons.prems(1)] by blast
    have "calls_ok (length cur) cs" using Cons.prems(2) by (simp add: Hole)
    from Cons.IH[OF t1(2) this] show ?thesis unfolding add_holes_Hole by (simp add: Hole t1(1))
  next
    case (Block b)
    then have ok: "cur = []" "b \<noteq> []" using Cons.prems(2) by simp_all
    obtain t1 where t1: "addHashAllAdler be (chunk_hash be b) (length (chunk_hash be b)) (length b) t = Some t1"
      "tree_rep t1 (ls @ [leaf_of b]) [] sp"
      using addHashAllAdler_rep Cons.prems(1) ok(1) by blast
    have h: "hole_bytes (c # cs) = hole_bytes cs" by (simp add: Block)
    show ?thesis
    proof (cases "length b = treehash_blocksize")
      case True
      then have "calls_ok (length []) cs" using Cons.prems(2) by (simp add: Block)
      moreover have "chunks_of treehash_blocksize (b @ content cs) = b # chunks_of treehash_blocksize (content cs)"
        using True B by (subst chunks_of_step) simp_all
      ultimately show ?thesis using Cons.IH[OF t1(2)] unfolding h by (simp add: Block t1(1) ok(1))
    next
      case False
      then have l: "length b < treehash_blocksize" "\<forall>c \<in> set cs. \<exists>p. c = Hole p"
        using Cons.prems(2) by (simp_all add: Block)
      obtain t2 where "run_calls be cs t1 = Some t2" "tree_rep t2 (ls @ [leaf_of b]) [] (add_holes sp (hole_bytes cs))" "content cs = []"
        using run_holes[OF t1(2) l(2)] by blast
      then show ?thesis unfolding h using l(1) ok
        by (intro exI[of _ t2] exI[of _ "ls @ [leaf_of b]"] exI[of _ "[]"]) (simp add: Block t1(1) chunks_of_short)
    qed
  qed
qed

lemma add_holes_None: "add_holes None sp = sp"
  by (cases sp) simp_all

lemma run_calls_digest:
  assumes "length (buffer g) = 64" "calls_ok 0 cs"
  shows "\<exists>t t'. run_calls be cs (new_TreeHash out g) = Some t \<and>
    tree_finalize be t = Some (tree_hash_of (content cs) (hole_bytes cs), t')"
proof -
  have "calls_ok (length []) cs" using assms(2) by simp
  from run_calls_rep[OF tree_rep_new[OF assms(1), of out] this, of be]
  obtain t ls cur where t: "run_calls be cs (new_TreeHash out g) = Some t" "tree_rep t ls cur (hole_bytes cs)"
    "(if cur = [] then ls else ls @ [leaf_of cur]) = map leaf_of (chunks_of treehash_blocksize (content cs))"
    unfolding add_holes_None append_Nil by (elim exE conjE)
  from tree_finalize_rep[OF t(2), of be] show ?thesis unfolding t(3) tree_hash_of_def[symmetric] using t(1) by blast
qed

text \<open>
  C16: The tree hash of a file. For every sequence of calls (bytes of the file in pieces, blocks whose
  hashes are known, notes about holes) that keeps the pieces aligned, on hosts of both byte orders, with
  or without an output object, no assertion fails and the result is the root of the tree over the file's blocks of
  512 KiB, combined with the notes about holes. So the hash does not depend on who hashed a block.
\<close>

theorem tree_hash_correct:
  assumes "length (buffer g) = 64" "calls_ok 0 cs"
  shows "\<exists>t t'. run_calls be cs (new_TreeHash out g) = Some t \<and>
    tree_finalize be t = Some (tree_hash_of (content cs) (hole_bytes cs), t')"
  by (rule run_calls_digest[OF assms])

theorem tree_hash_correct_witness:
  "\<exists>t t'. run_calls False [Block [1, 2, 3], Hole [7]] (new_TreeHash True \<lparr>state = (0, 0, 0, 0), count0 = 7, count1 = 7,
     buffer = replicate 64 9, digest = [], finalized = True\<rparr>) = Some t \<and>
   tree_finalize False t = Some (sha512_of ([7] @ leaf_of [1, 2, 3]), t')"
proof -
  have "calls_ok 0 [Block [1, 2, 3], Hole [7]]" by (simp add: treehash_blocksize_def)
  moreover have "tree_hash_of (content [Block [1, 2, 3], Hole [7]]) (hole_bytes [Block [1, 2, 3], Hole [7]]) =
    sha512_of ([7] @ leaf_of [1, 2, 3])"
    by (simp add: tree_hash_of_def tree_result_def chunks_of_short treehash_blocksize_def merkle_one)
  ultimately show ?thesis
    using tree_hash_correct[of "\<lparr>state = (0, 0, 0, 0), count0 = 7, count1 = 7,
     buffer = replicate 64 9, digest = [], finalized = True\<rparr>" "[Block [1, 2, 3], Hole [7]]" False True] by simp
qed

lemma hash_small_total:
  assumes "i < treehash_blocksize" "hash_output t \<longrightarrow> length (hash_all_adlers t) = 528"
  shows "\<exists>t'. hash_small be i x t = Some t' \<and> offset t' = offset t \<and> md5sum t' = md5sum t \<and> hash_pos t' = hash_pos t \<and>
    hash_output t' = hash_output t \<and> (hash_output t' \<longrightarrow> length (hash_all_adlers t') = 528)"
proof -
  have "i div 4096 \<le> 127" using assms(1) by (simp add: treehash_blocksize_def)
  then show ?thesis using assms(2) by (simp add: hash_small_def Let_def treehash_smallblock_def length_put_bytes)
qed

text \<open>One turn inside a block: \<open>h\<close> bytes are hashed.\<close>

lemma hash_step_inside:
  assumes i: "i < treehash_blocksize" and a: "hash_output t \<longrightarrow> length (hash_all_adlers t) = 528" and m: "md5_inv (md5sum t) w"
    and h: "h = (if offset t mod 4096 \<noteq> 0 then min (min 4096 (e - i)) (4096 - offset t mod 4096) else min 4096 (e - i))"
    and o: "offset t + h < treehash_blocksize"
  shows "\<exists>t'. hash_step be p i e k t = Some (e, k + h, t') \<and> offset t' = offset t + h \<and> md5_inv (md5sum t') (w @ take h (drop k p)) \<and>
    (hash_output t' \<longrightarrow> length (hash_all_adlers t') = 528)"
proof -
  let ?x = "take h (drop k p)"
  obtain t1 where t1: "hash_small be i ?x t = Some t1" "offset t1 = offset t" "md5sum t1 = md5sum t" "hash_pos t1 = hash_pos t"
    "hash_output t1 \<longrightarrow> length (hash_all_adlers t1) = 528"
    using hash_small_total[OF i a] by blast
  let ?t = "t1\<lparr>md5sum := md5_update (md5sum t1) ?x, offset := offset t1 + h, hash_pos := hash_pos t1 + int h\<rparr>"
  have hl: "h \<le> 4096" unfolding h by (auto simp: min_def)
  have "hash_step be p i e k t = Some (e, k + h, ?t)"
    unfolding hash_step_def Let_def treehash_smallblock_def h[symmetric] t1(1) using o t1(2) by simp
  moreover have "md5_inv (md5sum ?t) (w @ ?x)" using md5_update_inv[OF m, of ?x] t1(3) hl by simp
  ultimately show ?thesis using t1(2,5) by simp
qed

text \<open>The turns from a small block on.\<close>

lemma hash_loop_aligned:
  assumes "hash_output t \<longrightarrow> length (hash_all_adlers t) = 528" "md5_inv (md5sum t) w" "offset t mod 4096 = 0"
    "offset t \<le> i" "e < treehash_blocksize" "i < treehash_blocksize + 4096"
  shows "\<exists>t'. hash_loop be p i e k t = Some t' \<and> offset t' = offset t + (e - i) \<and> md5_inv (md5sum t') (w @ take (e - i) (drop k p))"
  using assms
proof (induction "e - i" arbitrary: i k t w rule: less_induct)
  case less
  show ?case
  proof (cases "i < e")
    case False
    then show ?thesis using less.prems(2) by (subst hash_loop.simps) simp
  next
    case True
    let ?h = "min 4096 (e - i)"
    have i: "i < treehash_blocksize" "offset t + ?h < treehash_blocksize" using True less.prems(4,5) by simp_all
    obtain t1 where t1: "hash_step be p i e k t = Some (e, k + ?h, t1)" "offset t1 = offset t + ?h" "md5_inv (md5sum t1) (w @ take ?h (drop k p))"
      "hash_output t1 \<longrightarrow> length (hash_all_adlers t1) = 528"
      using hash_step_inside[OF i(1) less.prems(1,2) _ i(2), of e be p k] less.prems(3) by auto
    have n: "(i + treehash_smallblock) mod 2 ^ 32 = i + 4096" using i(1) by (simp add: treehash_smallblock_def treehash_blocksize_def)
    have l: "hash_loop be p i e k t = hash_loop be p (i + 4096) e (k + ?h) t1" using True by (subst hash_loop.simps) (simp add: t1(1) n[simplified])
    show ?thesis
    proof (cases "i + 4096 < e")
      case True
      then have h: "?h = 4096" by simp
      have f: "e - (i + 4096) < e - i" "offset t1 mod 4096 = 0" "offset t1 \<le> i + 4096" "i + 4096 < treehash_blocksize + 4096"
        using True less.prems(3-5) t1(2) h by simp_all
      obtain t2 where "hash_loop be p (i + 4096) e (k + ?h) t1 = Some t2" "offset t2 = offset t1 + (e - (i + 4096))"
        "md5_inv (md5sum t2) ((w @ take ?h (drop k p)) @ take (e - (i + 4096)) (drop (k + ?h) p))"
        using less.hyps[OF f(1) t1(4,3) f(2,3) less.prems(5) f(4), of "k + ?h"] by blast
      moreover have "take ?h (drop k p) @ take (e - (i + 4096)) (drop (k + ?h) p) = take (e - i) (drop k p)"
        using take_add[of 4096 "e - (i + 4096)" "drop k p"] True unfolding h by (simp add: add.commute)
      ultimately show ?thesis using l t1(2) h True by simp
    next
      case False
      then have h: "?h = e - i" using \<open>i < e\<close> by simp
      have "hash_loop be p (i + 4096) e (k + ?h) t1 = Some t1" using False by (subst hash_loop.simps) simp
      then show ?thesis using l t1 h by simp
    qed
  qed
qed

text \<open>
  C35: Pieces must be aligned. When a piece starts inside a small block, at \<open>r\<close> bytes, and goes past its end, the first turn of the loop
  hashes only the bytes up to the end of the small block but steps over 4096 bytes like the others: of a piece of at
  most 4096 bytes all bytes after the small block are dropped, and of a longer piece its last \<open>r\<close> bytes. The piece stays inside the
  current block of 512 KB.
\<close>

theorem tree_hash_drops_bytes:
  assumes rep: "tree_rep t ls cur sp" and r: "length cur mod 4096 = r" "0 < r" and p: "4096 - r < length p"
    and b: "length cur + length p < treehash_blocksize" "length cur + 4096 < treehash_blocksize"
  shows "\<exists>t'. tree_hash be p t = Some t' \<and> offset t' = length cur + (max 4096 (length p) - r) \<and>
    md5_inv (md5sum t') (cur @ take (max 4096 (length p) - r) p)"
proof -
  let ?o = "length cur" and ?h = "4096 - r" and ?e = "length cur + length p"
  have r4: "r < 4096" using r(1) by auto
  have o: "offset t = ?o" "md5_inv (md5sum t) cur" and out: "hash_output t \<longrightarrow> length (hash_all_adlers t) = 528"
    using rep by (simp_all add: tree_rep_def)
  have u: "offset t \<noteq> UINT_MAX" using o b by (simp add: UINT_MAX_def treehash_blocksize_def)
  have e: "(offset t + length p) mod 2 ^ 32 = ?e" using o(1) b by (simp add: treehash_blocksize_def)
  have h: "?h = (if offset t mod 4096 \<noteq> 0 then min (min 4096 (?e - ?o)) (4096 - offset t mod 4096) else min 4096 (?e - ?o))"
    using o(1) r p by simp
  have i: "?o < treehash_blocksize" "offset t + ?h < treehash_blocksize" using b o(1) by simp_all
  obtain t1 where t1: "hash_step be p ?o ?e 0 t = Some (?e, 0 + ?h, t1)" "offset t1 = offset t + ?h" "md5_inv (md5sum t1) (cur @ take ?h (drop 0 p))"
    "hash_output t1 \<longrightarrow> length (hash_all_adlers t1) = 528"
    using hash_step_inside[OF i(1) out o(2) h i(2), of be p 0] by blast
  have n: "(?o + treehash_smallblock) mod 2 ^ 32 = ?o + 4096" using b by (simp add: treehash_smallblock_def treehash_blocksize_def)
  have l: "hash_loop be p ?o ?e 0 t = hash_loop be p (?o + 4096) ?e ?h t1" using p r4 by (subst hash_loop.simps) (auto simp: t1(1) n[simplified])
  have al: "offset t1 mod 4096 = 0"
  proof -
    have "(?o + ?h) mod 4096 = (?o mod 4096 + ?h) mod 4096" by (rule mod_add_left_eq[symmetric])
    also have "?o mod 4096 + ?h = 4096" using r(1) r4 by simp
    finally show ?thesis using t1(2) o(1) by simp
  qed
  have f: "offset t1 \<le> ?o + 4096" "?o + 4096 < treehash_blocksize + 4096" using t1(2) o(1) b by simp_all
  have m1: "md5_inv (md5sum t1) (cur @ take ?h p)" using t1(3) by simp
  obtain t2 where t2: "hash_loop be p (?o + 4096) ?e ?h t1 = Some t2" "offset t2 = offset t1 + (?e - (?o + 4096))"
    "md5_inv (md5sum t2) ((cur @ take ?h p) @ take (?e - (?o + 4096)) (drop ?h p))"
    using hash_loop_aligned[OF t1(4) m1 al f(1) b(1) f(2), of be p ?h] by blast
  have n1: "?h + (?e - (?o + 4096)) = max 4096 (length p) - r" using r4 by simp
  have "take ?h p @ take (?e - (?o + 4096)) (drop ?h p) = take (max 4096 (length p) - r) p"
    unfolding n1[symmetric] by (rule take_add[symmetric])
  then have "md5_inv (md5sum t2) (cur @ take (max 4096 (length p) - r) p)" using t2(3) by (simp only: append_assoc)
  moreover have "offset t2 = ?o + (max 4096 (length p) - r)" using t2(2) t1(2) o(1) n1 by (simp only: add.assoc)
  moreover have "tree_hash be p t = Some t2" unfolding tree_hash_def e using u o(1) l t2(1) by simp
  ultimately show ?thesis by blast
qed

theorem tree_hash_drops_bytes_witness:
  "\<exists>t t'. run_calls False [Bytes [1]] (new_TreeHash True \<lparr>state = (0, 0, 0, 0), count0 = 7, count1 = 7,
     buffer = replicate 64 9, digest = [], finalized = True\<rparr>) = Some t \<and>
   tree_hash False (replicate 8192 5) t = Some t' \<and> offset t' = 8192 \<and> md5_inv (md5sum t') ([1] @ replicate 8191 5)"
proof -
  let ?g = "\<lparr>state = (0, 0, 0, 0), count0 = 7, count1 = 7, buffer = replicate 64 9, digest = [], finalized = True\<rparr>"
  have "tree_rep (new_TreeHash True ?g) [] [] None" by (rule tree_rep_new) simp
  from hash_step_rep[OF this, of 0 "[1]" "[1]" False]
  obtain t where "hash_step False [1] 0 1 0 (new_TreeHash True ?g) = Some (1, 1, t)" and rep: "tree_rep t [] [1] None"
    by (auto simp: treehash_blocksize_def)
  then have "run_calls False [Bytes [1]] (new_TreeHash True ?g) = Some t"
    by (simp add: tree_hash_def new_TreeHash_def UINT_MAX_def hash_loop.simps treehash_smallblock_def)
  then show ?thesis
    using tree_hash_drops_bytes[OF rep, of 1 "replicate 8192 5" False] by (simp add: treehash_blocksize_def)
qed

end
