(* ===== verification/Files.thy ===== *)
theory Files
  imports Memory "HOL-Library.Monad_Syntax"
begin

text \<open>
  Open files as the program sees them: the methods of \<open>File\<close> in \<open>file_linux.cpp\<close> that work on an open
  file. The operating system is the field \<open>faults\<close>: the os_outcome of the \<open>n\<close>-th system call on the file is a failure
  (\<open>None\<close>) or a bound on the number of bytes it transfers (\<open>Some\<close>), so short reads, short writes and
  errors are all possible. Writing past the end fills the gap with zeros.
\<close>

section \<open>The object\<close>

record File =
  fbytes :: "byte list"
  fpos :: nat
  ops :: nat
  faults :: "nat \<Rightarrow> nat option"

definition new_file :: "byte list \<Rightarrow> (nat \<Rightarrow> nat option) \<Rightarrow> File" where
  "new_file bs flt = \<lparr>fbytes = bs, fpos = 0, ops = 0, faults = flt\<rparr>"

definition os_outcome :: "File \<Rightarrow> nat option" where
  "os_outcome f = faults f (ops f)"

definition next_op :: "File \<Rightarrow> File" where
  "next_op f = f\<lparr>ops := Suc (ops f)\<rparr>"

definition overwrite :: "byte list \<Rightarrow> nat \<Rightarrow> byte list \<Rightarrow> byte list" where
  "overwrite bs pos d =
     (if d = [] then bs else take pos (bs @ replicate (pos - length bs) 0) @ d @ drop (pos + length d) bs)"

section \<open>Operations\<close>

text \<open>\<open>Read\<close> at the position and \<open>Read\<close> at a given place: the bytes, and whether \<open>has_error\<close> is set.\<close>

definition File_Read :: "nat \<Rightarrow> File \<Rightarrow> byte list \<times> bool \<times> File" where
  "File_Read bsize f =
     (case os_outcome f of
        None \<Rightarrow> ([], True, next_op f)
      | Some m \<Rightarrow>
          let d = take (min bsize m) (drop (fpos f) (fbytes f))
          in (d, False, next_op (f\<lparr>fpos := fpos f + length d\<rparr>)))"

definition File_Read_at :: "nat \<Rightarrow> nat \<Rightarrow> File \<Rightarrow> byte list \<times> bool \<times> File" where
  "File_Read_at spos bsize f =
     (case os_outcome f of
        None \<Rightarrow> ([], True, next_op f)
      | Some m \<Rightarrow> (take (min bsize m) (drop spos (fbytes f)), False, next_op f))"

text \<open>\<open>Write\<close>: the number of bytes written, and whether \<open>has_error\<close> is set.\<close>

definition File_Write :: "byte list \<Rightarrow> File \<Rightarrow> nat \<times> bool \<times> File" where
  "File_Write buffer f =
     (case os_outcome f of
        None \<Rightarrow> (0, True, next_op f)
      | Some m \<Rightarrow>
          let d = take m buffer
          in (length d, False, next_op (f\<lparr>fbytes := overwrite (fbytes f) (fpos f) d, fpos := fpos f + length d\<rparr>)))"

definition File_Seek :: "int \<Rightarrow> File \<Rightarrow> bool \<times> File" where
  "File_Seek spos f =
     (if os_outcome f = None \<or> spos < 0 then (False, next_op f)
      else (True, next_op (f\<lparr>fpos := nat spos\<rparr>)))"

definition File_Size :: "File \<Rightarrow> int \<times> File" where
  "File_Size f = (if os_outcome f = None then - 1 else int (length (fbytes f)), next_op f)"

definition File_PunchHole :: "int \<Rightarrow> int \<Rightarrow> File \<Rightarrow> bool \<times> File" where
  "File_PunchHole spos hsize f =
     (if os_outcome f = None \<or> spos < 0 \<or> hsize \<le> 0 then (False, next_op f)
      else
        let n = min (nat hsize) (length (fbytes f) - nat spos)
        in (True, next_op (f\<lparr>fbytes := overwrite (fbytes f) (nat spos) (replicate n 0)\<rparr>)))"

definition File_Resize :: "int \<Rightarrow> File \<Rightarrow> bool \<times> File" where
  "File_Resize new_size f =
     (if os_outcome f = None \<or> new_size < 0 then (False, next_op f)
      else
        let n = nat new_size
        in (True, next_op (f\<lparr>fbytes := take n (fbytes f) @ replicate (n - length (fbytes f)) 0\<rparr>)))"

section \<open>Lemmas\<close>

text \<open>Every system call on the file fails or transfers everything; nothing fails.\<close>

definition no_short :: "File \<Rightarrow> bool" where
  "no_short f \<longleftrightarrow> (\<forall>k m. faults f k = Some m \<longrightarrow> 2 ^ 32 \<le> m)"

definition no_fault :: "File \<Rightarrow> bool" where
  "no_fault f \<longleftrightarrow> (\<forall>k. \<exists>m. faults f k = Some m \<and> 2 ^ 32 \<le> m)"

lemma no_fault_short: "no_fault f \<Longrightarrow> no_short f"
  unfolding no_fault_def no_short_def by (metis option.inject)

lemma next_op_simps [simp]:
  "fbytes (next_op f) = fbytes f" "fpos (next_op f) = fpos f" "faults (next_op f) = faults f"
  by (simp_all add: next_op_def)

lemma no_short_eq: "faults g = faults f \<Longrightarrow> no_short g = no_short f"
  by (simp add: no_short_def)

lemma no_fault_eq: "faults g = faults f \<Longrightarrow> no_fault g = no_fault f"
  by (simp add: no_fault_def)

lemma no_fault_outcome: "no_fault f \<Longrightarrow> \<exists>m. os_outcome f = Some m \<and> 2 ^ 32 \<le> m"
  by (simp add: no_fault_def os_outcome_def)

lemma length_overwrite: "length (overwrite bs pos d) = (if d = [] then length bs else max (length bs) (pos + length d))"
  by (auto simp: overwrite_def)

lemma overwrite_inside: "pos + length d \<le> length bs \<Longrightarrow> overwrite bs pos d = take pos bs @ d @ drop (pos + length d) bs"
  by (simp add: overwrite_def)

lemma overwrite_end: "overwrite bs (length bs) d = bs @ d"
  by (simp add: overwrite_def)

lemma take_overwrite: "pos \<le> length bs \<Longrightarrow> take (pos + length d) (overwrite bs pos d) = take pos bs @ d"
  by (simp add: overwrite_def)

lemma take_overwrite_before: "n \<le> pos \<Longrightarrow> n \<le> length bs \<Longrightarrow> take n (overwrite bs pos d) = take n bs"
  by (simp add: overwrite_def)

lemma take_length_take: "take (length (take k xs)) xs = take k xs"
  by (cases "k \<le> length xs") simp_all

lemma length_take_bounds: "length (take k xs) \<le> length xs" "length (take (min n k) xs) \<le> n"
  by simp_all

lemma File_Read_fields:
  assumes "File_Read n f = (d, e, f')"
  shows "fbytes f' = fbytes f" "faults f' = faults f" "e \<Longrightarrow> d = []" "length d \<le> n" "fpos f' = fpos f + length d"
    "d = take (length d) (drop (fpos f) (fbytes f))"
  using assms take_length_take[of _ "drop (fpos f) (fbytes f)"]
  by (auto simp: File_Read_def Let_def simp: length_take_bounds simp del: length_take split: option.splits)

lemma File_Read_full:
  assumes "File_Read n f = (d, False, f')" "no_short f" "n \<le> 2 ^ 32"
  shows "d = take n (drop (fpos f) (fbytes f))"
proof -
  obtain m where "os_outcome f = Some m" "d = take (min n m) (drop (fpos f) (fbytes f))"
    using assms(1) by (auto simp: File_Read_def Let_def split: option.splits)
  moreover have "n \<le> m" using calculation(1) assms(2,3) unfolding no_short_def os_outcome_def by (meson order_trans)
  ultimately show ?thesis by (simp add: min_def)
qed

lemma File_Write_fields:
  assumes "File_Write d f = (n, e, f')"
  shows "faults f' = faults f" "n \<le> length d" "fbytes f' = overwrite (fbytes f) (fpos f) (take n d)" "fpos f' = fpos f + n"
  using assms take_length_take[of _ d]
  by (auto simp: File_Write_def Let_def overwrite_def simp: length_take_bounds simp del: length_take split: option.splits)

lemma File_Write_all:
  assumes "no_fault f" "length d \<le> 2 ^ 32"
  shows "File_Write d f = (length d, False, next_op (f\<lparr>fbytes := overwrite (fbytes f) (fpos f) d, fpos := fpos f + length d\<rparr>))"
proof -
  obtain m where "os_outcome f = Some m" "2 ^ 32 \<le> m" using no_fault_outcome[OF assms(1)] by blast
  then show ?thesis using assms(2) by (simp add: File_Write_def Let_def)
qed

lemma File_Seek_fields:
  assumes "File_Seek p f = (b, f')"
  shows "fbytes f' = fbytes f" "faults f' = faults f" "b \<Longrightarrow> fpos f' = nat p \<and> 0 \<le> p"
  using assms by (auto simp: File_Seek_def split: if_splits)

lemma File_Seek_ok: "no_fault f \<Longrightarrow> 0 \<le> p \<Longrightarrow> File_Seek p f = (True, next_op (f\<lparr>fpos := nat p\<rparr>))"
  using no_fault_outcome by (auto simp: File_Seek_def)

lemma File_Size_ok: "no_fault f \<Longrightarrow> File_Size f = (int (length (fbytes f)), next_op f)"
  using no_fault_outcome by (auto simp: File_Size_def)

lemma overwrite_overwrite: "overwrite (overwrite bs p d) (p + length d) e = overwrite bs p (d @ e)"
proof (cases "d = [] \<or> e = []")
  case False
  define b where "b = take p (bs @ replicate (p - length bs) 0)"
  have l: "length b = p" by (simp add: b_def)
  have 1: "overwrite bs p d = b @ d @ drop (p + length d) bs" using False by (simp add: overwrite_def b_def)
  have 2: "take (p + length d) ((b @ d @ drop (p + length d) bs) @ z) = b @ d" for z
    using l by simp
  have 3: "drop (p + length d + length e) (b @ d @ drop (p + length d) bs) = drop (p + length d + length e) bs"
    using l by (simp add: add.commute add.left_commute)
  have 4: "overwrite bs p (d @ e) = b @ (d @ e) @ drop (p + length d + length e) bs"
    using False by (simp add: overwrite_def add.assoc b_def)
  show ?thesis
    unfolding 4 unfolding overwrite_def[of "overwrite bs p d"] unfolding 1 2 3 using False by simp
qed (auto simp: overwrite_def)

text \<open>A file read with zeros after its end.\<close>

definition pad_nth :: "byte list \<Rightarrow> nat \<Rightarrow> byte" where
  "pad_nth bs i = (if i < length bs then bs ! i else 0)"

lemma pad_nth_append: "pad_nth (xs @ ys) i = (if i < length xs then xs ! i else pad_nth ys (i - length xs))"
  by (auto simp: pad_nth_def nth_append)

lemma pad_nth_drop: "pad_nth (drop k bs) j = pad_nth bs (k + j)"
  by (auto simp: pad_nth_def)

lemma pad_nth_overwrite:
  "pad_nth (overwrite bs p d) i = (if p \<le> i \<and> i < p + length d then d ! (i - p) else pad_nth bs i)"
proof (cases "d = []")
  case False
  define b where "b = take p (bs @ replicate (p - length bs) 0)"
  have o: "overwrite bs p d = b @ d @ drop (p + length d) bs" using False by (simp add: overwrite_def b_def)
  have l: "length b = p" by (simp add: b_def)
  have n: "b ! i = pad_nth bs i" if "i < p" for i
    using that by (simp add: pad_nth_def nth_append b_def)
  have d: "p + length d + (i - p - length d) = i" if "\<not> i < p" "\<not> i - p < length d"
    using that by simp
  show ?thesis
    using l n[of i] d by (auto simp: o pad_nth_append pad_nth_drop)
qed (auto simp: overwrite_def)

lemma pad_nth_list: "length bs = n \<Longrightarrow> (\<And>i. i < n \<Longrightarrow> pad_nth cs i = bs ! i) \<Longrightarrow> n \<le> length cs \<Longrightarrow> take n cs = bs"
  by (rule nth_equalityI) (auto simp: pad_nth_def)


section \<open>Runs\<close>

text \<open>A computation that ends with \<open>Q\<close>, and that can only be given up when \<open>ok\<close> does not hold.\<close>

definition runs :: "bool \<Rightarrow> 'a option \<Rightarrow> ('a \<Rightarrow> bool) \<Rightarrow> bool" where
  "runs ok x Q = (case x of None \<Rightarrow> \<not> ok | Some y \<Rightarrow> Q y)"

lemma runs_Some [simp]: "runs ok (Some y) Q = Q y"
  by (simp add: runs_def)

lemma runs_None [simp]: "runs ok None Q \<longleftrightarrow> \<not> ok"
  by (simp add: runs_def)

lemma runs_bind: "runs ok x P \<Longrightarrow> (\<And>y. P y \<Longrightarrow> runs ok (g y) Q) \<Longrightarrow> runs ok (Option.bind x g) Q"
  by (cases x) (simp_all add: runs_def)

lemma runs_mono: "runs ok x P \<Longrightarrow> (\<And>y. P y \<Longrightarrow> Q y) \<Longrightarrow> runs ok x Q"
  by (cases x) (simp_all add: runs_def)

lemma runs_if: "(c \<Longrightarrow> runs ok x Q) \<Longrightarrow> (\<not> c \<Longrightarrow> runs ok y Q) \<Longrightarrow> runs ok (if c then x else y) Q"
  by simp

lemma runs_ok: "runs ok x Q \<Longrightarrow> ok \<Longrightarrow> \<exists>y. x = Some y \<and> Q y"
  by (cases x) (simp_all add: runs_def)

lemma runs_Some_post: "runs ok x Q \<Longrightarrow> x = Some y \<Longrightarrow> Q y"
  by (simp add: runs_def)

end
