(* ===== verification/Chunk_Hasher.thy ===== *)
theory Chunk_Hasher
  imports Tree_Hash Files
begin

text \<open>
  Hashing (and copying) a file chunk by chunk: \<open>idrivebmrcommon/chunk_hasher.cpp\<close>, and the hash objects of
  \<open>TreeHash.h\<close>. \<open>None\<close> is the return value \<open>false\<close> or a failed assertion; the value \<open>-1\<close> of an offset is \<open>None\<close> of an
  optional number. The answers of the callback that may free space can depend on the number
  of system calls made on the file. The branch for a changed-block index (\<open>cbt_hash_file\<close>) is not
  modelled: it is off when there is no such index.
\<close>

definition c_checkpoint_dist :: nat where "c_checkpoint_dist = 512 * 1024"

definition c_small_hash_dist :: nat where "c_small_hash_dist = 4096"

section \<open>Writing with retries\<close>

function write_rest :: "byte list \<Rightarrow> nat \<Rightarrow> File \<Rightarrow> nat \<times> File" where
  "write_rest buf written f =
     (let (rc, err, f) = File_Write (drop written buf) f; written = written + rc
      in if written < length buf \<and> 0 < rc then write_rest buf written f else (rc, f))"
  by pat_completeness auto

termination write_rest
  by (relation "measure (\<lambda>(buf, written, f). length buf - written)") auto

declare write_rest.simps [simp del]

function write_tries :: "byte list \<Rightarrow> nat \<Rightarrow> nat \<Rightarrow> File \<Rightarrow> nat \<times> File" where
  "write_tries buf written tries f =
     (let (rc, err, f) = File_Write (drop written buf) f; written = written + rc;
          tries = (if rc = 0 then tries - 1 else tries)
      in if written < length buf \<and> (0 < rc \<or> 0 < tries) then write_tries buf written tries f else (rc, f))"
  by pat_completeness auto

termination write_tries
  by (relation "measure (\<lambda>(buf, written, tries, f). (length buf - written) + tries)") auto

declare write_tries.simps [simp del]

definition writeFileRepeatTries :: "File \<Rightarrow> byte list \<Rightarrow> bool \<times> File" where
  "writeFileRepeatTries f buf = (let (rc, f) = write_tries buf 0 50 f in (rc \<noteq> 0, f))"

text \<open>The result, and the file also when it is \<open>false\<close>; \<open>writeRepeatFreeSpace\<close> leaves out the file then.\<close>

definition write_free_space :: "(nat \<Rightarrow> bool) option \<Rightarrow> File \<Rightarrow> byte list \<Rightarrow> bool \<times> File" where
  "write_free_space cb f buf =
     (case cb of
        None \<Rightarrow> writeFileRepeatTries f buf
      | Some handle_not_enough_space \<Rightarrow>
          let (rc, err, f) = File_Write buf f
          in if rc \<noteq> length buf then
               if handle_not_enough_space (ops f) then
                 let (rc, f) = write_rest buf rc f in (rc \<noteq> 0, f)
               else (False, f)
             else (True, f))"

definition writeRepeatFreeSpace :: "(nat \<Rightarrow> bool) option \<Rightarrow> File \<Rightarrow> byte list \<Rightarrow> File option" where
  "writeRepeatFreeSpace cb f buf = (let (ok, f) = write_free_space cb f buf in if ok then Some f else None)"

section \<open>Hash objects\<close>

record HashSha512 =
  sha_has_sparse :: bool
  sha_ctx :: SHA512_CTX
  sha_sparse_ctx :: SHA512_CTX

definition new_HashSha512 :: HashSha512 where
  "new_HashSha512 = \<lparr>sha_has_sparse = False, sha_ctx = SHA512_Init blank_ctx, sha_sparse_ctx = SHA512_Init blank_ctx\<rparr>"

definition sha512_hash :: "bool \<Rightarrow> byte list \<Rightarrow> HashSha512 \<Rightarrow> HashSha512" where
  "sha512_hash be buf h = h\<lparr>sha_ctx := SHA512_Update be (sha_ctx h) buf\<rparr>"

definition sha512_sparse_hash :: "bool \<Rightarrow> byte list \<Rightarrow> HashSha512 \<Rightarrow> HashSha512" where
  "sha512_sparse_hash be buf h = h\<lparr>sha_has_sparse := True, sha_sparse_ctx := SHA512_Update be (sha_sparse_ctx h) buf\<rparr>"

definition sha512_finalize :: "bool \<Rightarrow> HashSha512 \<Rightarrow> byte list" where
  "sha512_finalize be h =
     (let ctx = (if sha_has_sparse h
                 then SHA512_Update be (sha_ctx h) (fst (SHA512_Final be (sha_sparse_ctx h))) else sha_ctx h)
      in fst (SHA512_Final be ctx))"

text \<open>The pointer \<open>hashf\<close>: null, a tree hash, or another hash object.\<close>

datatype hash_func = No_Hash | Tree TreeHash | Plain HashSha512

fun hashf_hash :: "bool \<Rightarrow> byte list \<Rightarrow> hash_func \<Rightarrow> hash_func option" where
  "hashf_hash be buf No_Hash = None"
| "hashf_hash be buf (Tree t) = map_option Tree (tree_hash be buf t)"
| "hashf_hash be buf (Plain h) = Some (Plain (sha512_hash be buf h))"

fun hashf_sparse_hash :: "bool \<Rightarrow> byte list \<Rightarrow> hash_func \<Rightarrow> hash_func option" where
  "hashf_sparse_hash be buf No_Hash = None"
| "hashf_sparse_hash be buf (Tree t) = map_option Tree (tree_sparse_hash be buf t)"
| "hashf_sparse_hash be buf (Plain h) = Some (Plain (sha512_sparse_hash be buf h))"

section \<open>The hash of a chunk of zeros\<close>

definition build_sparse_extent_content :: "bool \<Rightarrow> MD5 \<Rightarrow> byte list option" where
  "build_sparse_extent_content be garbage =
     (let buf = replicate c_small_hash_dist 0;
          small_hash = mem_of be 4 (little_endian32 be (urb_adler32 (urb_adler32 0 None) (Some buf)));
          big_hash = md5_finalize (fold (\<lambda>i m. md5_update m buf) [0..<c_checkpoint_dist div c_small_hash_dist] (md5_init garbage))
      in do { dig \<leftarrow> raw_digest_int big_hash;
              Some (take 16 dig @ concat (map (\<lambda>i. small_hash) [0..<c_checkpoint_dist div c_small_hash_dist])) })"

definition buf_is_zero :: "byte list \<Rightarrow> bool" where
  "buf_is_zero buf = list_all (\<lambda>b. b = 0) buf"

section \<open>The state of \<open>build_chunk_hashs\<close>\<close>

text \<open>
  The parameters that do not change: the byte order, the callback, whether \<open>copy\<close> is changed in
  place, the hash of a chunk of zeros (\<open>get_sparse_extent_content\<close>) and the memory of a new MD5 context.
\<close>

record chunk_config =
  big_end :: bool
  space_cb :: "(nat \<Rightarrow> bool) option"
  modify_inplace :: bool
  sparse_content :: "byte list"
  md5_mem :: MD5

record chunker =
  c_f :: File
  c_out :: File
  c_copy :: "File option"
  c_in :: "File option"
  c_input_size :: u64
  c_chunk :: "(byte list \<times> byte list) option"
  c_hash :: hash_func
  c_extents :: "(nat \<times> nat) list"
  curr_extent :: "(nat \<times> nat) option"
  sha_buf :: "byte list"
  copy_write_pos :: nat
  copy_read_eof :: bool
  hashoutputpos :: nat
  sparse_extent_start :: "nat option"
  copy_sparse_extent_start :: "nat option"
  copy_max_sparse :: "nat option"
  inplace_written :: nat

text \<open>The locals of a chunk: the two MD5 contexts, the index of the small block, the checksums so far.\<close>

record chunk_locals =
  big_hash :: MD5
  big_hash_copy_control :: MD5
  chunkidx :: nat
  small_hash :: "byte list"
  buf_read :: nat
  all_zeros :: bool

definition nextExtent :: "chunker \<Rightarrow> chunker" where
  "nextExtent st =
     (case c_extents st of
        [] \<Rightarrow> st\<lparr>curr_extent := None\<rparr>
      | e # es \<Rightarrow> st\<lparr>curr_extent := Some e, c_extents := es\<rparr>)"

function skip_extents :: "nat \<Rightarrow> chunker \<Rightarrow> chunker" where
  "skip_extents pos st =
     (case curr_extent st of
        None \<Rightarrow> st
      | Some (off, sz) \<Rightarrow> if off + sz < pos then skip_extents pos (nextExtent st) else st)"
  by pat_completeness auto

termination skip_extents
  by (relation "measure (\<lambda>(pos, st). length (c_extents st) + (case curr_extent st of None \<Rightarrow> 0 | Some _ \<Rightarrow> 1))")
    (auto simp: nextExtent_def split: list.splits)

declare skip_extents.simps [simp del]

definition write_out :: "chunk_config \<Rightarrow> byte list \<Rightarrow> chunker \<Rightarrow> chunker option" where
  "write_out cfg buf st = do { f \<leftarrow> writeRepeatFreeSpace (space_cb cfg) (c_out st) buf; Some (st\<lparr>c_out := f\<rparr>) }"

definition write_copy :: "chunk_config \<Rightarrow> byte list \<Rightarrow> chunker \<Rightarrow> chunker option" where
  "write_copy cfg buf st =
     (case c_copy st of None \<Rightarrow> None
      | Some f \<Rightarrow> do { f \<leftarrow> writeRepeatFreeSpace (space_cb cfg) f buf; Some (st\<lparr>c_copy := Some f\<rparr>) })"

text \<open>A seek of \<open>copy\<close> whose result is not looked at; reading from it; a seek that must succeed.\<close>

definition seek_copy :: "nat \<Rightarrow> chunker \<Rightarrow> chunker" where
  "seek_copy pos st = st\<lparr>c_copy := map_option (\<lambda>f. snd (File_Seek (int pos) f)) (c_copy st)\<rparr>"

definition read_copy :: "chunker \<Rightarrow> byte list \<times> chunker" where
  "read_copy st =
     (case c_copy st of None \<Rightarrow> ([], st)
      | Some f \<Rightarrow> let (d, err, f) = File_Read c_small_hash_dist f in (d, st\<lparr>c_copy := Some f\<rparr>))"

definition must_seek_copy :: "nat \<Rightarrow> chunker \<Rightarrow> chunker option" where
  "must_seek_copy pos st =
     (case c_copy st of None \<Rightarrow> Some st
      | Some f \<Rightarrow> let (ok, f) = File_Seek (int pos) f in if ok then Some (st\<lparr>c_copy := Some f\<rparr>) else None)"

definition must_seek_f :: "nat \<Rightarrow> chunker \<Rightarrow> chunker option" where
  "must_seek_f pos st = (let (ok, f) = File_Seek (int pos) (c_f st) in if ok then Some (st\<lparr>c_f := f\<rparr>) else None)"

section \<open>Chunks inside a hole\<close>

text \<open>\<open>for (written = 0; written < extent_size;)\<close>\<close>

function write_zeros :: "chunk_config \<Rightarrow> nat \<Rightarrow> nat \<Rightarrow> chunker \<Rightarrow> chunker option" where
  "write_zeros cfg written extent_size st =
     (if written < extent_size then
        let towrite = min (extent_size - written) 32768
        in do { st \<leftarrow> write_copy cfg (replicate towrite 0) st; write_zeros cfg (written + towrite) extent_size st }
      else Some st)"
  by pat_completeness auto

termination write_zeros
  by (relation "measure (\<lambda>(cfg, written, extent_size, st). extent_size - written)") auto

declare write_zeros.simps [simp del]

definition punch_copy :: "chunk_config \<Rightarrow> nat \<Rightarrow> nat \<times> nat \<Rightarrow> chunker \<Rightarrow> chunker option" where
  "punch_copy cfg fsize ext st =
     (let (off, sz) = ext;
          extent_size = (if fsize < off + sz then fsize - off else sz);
          sparse_end = min fsize (off + sz)
      in case c_copy st of
           None \<Rightarrow> Some (st\<lparr>copy_max_sparse := Some sparse_end\<rparr>)
         | Some f \<Rightarrow>
             let (ok, f) = File_PunchHole (int off) (int extent_size) f; st = st\<lparr>c_copy := Some f\<rparr>
             in if \<not> ok then do { st \<leftarrow> must_seek_copy off st; write_zeros cfg 0 extent_size st }
                else Some (st\<lparr>copy_max_sparse := Some sparse_end\<rparr>))"

definition hole_chunk :: "chunk_config \<Rightarrow> nat \<Rightarrow> nat \<Rightarrow> nat \<times> nat \<Rightarrow> chunker \<Rightarrow> chunker option" where
  "hole_chunk cfg fsize pos ext st =
     do { st \<leftarrow> write_out cfg (sparse_content cfg) st;
          let st = st\<lparr>hashoutputpos := hashoutputpos st + length (sparse_content cfg)\<rparr>;
          let st = (if c_hash st \<noteq> No_Hash \<and> sparse_extent_start st = None then st\<lparr>sparse_extent_start := Some pos\<rparr> else st);
          st \<leftarrow> (if copy_sparse_extent_start st = None then
                   let st = st\<lparr>copy_sparse_extent_start := Some pos\<rparr>
                   in if fst ext < fsize then punch_copy cfg fsize ext st else Some st
                 else Some st);
          let st = st\<lparr>copy_write_pos := copy_write_pos st + c_checkpoint_dist\<rparr>;
          st \<leftarrow> must_seek_copy (copy_write_pos st) st;
          must_seek_f (pos + c_checkpoint_dist) st }"

section \<open>Chunks with data\<close>

definition small_slot :: "nat \<Rightarrow> byte list \<Rightarrow> byte list" where
  "small_slot i hs = take 4 (drop (4 * i) hs)"

text \<open>What happens to the copy for the small block \<open>r\<close>.\<close>

definition copy_inplace_hashed ::
  "chunk_config \<Rightarrow> byte list \<Rightarrow> byte list \<Rightarrow> chunker \<Rightarrow> chunk_locals \<Rightarrow> (chunker \<times> chunk_locals) option" where
  "copy_inplace_hashed cfg old_small r st loc =
     do { (st, loc) \<leftarrow>
            (if small_slot (chunkidx loc) (small_hash loc) = small_slot (chunkidx loc) old_small
             then Some (st, loc\<lparr>big_hash_copy_control := md5_update (big_hash_copy_control loc) r\<rparr>)
             else
               let st = seek_copy (copy_write_pos st) st;
                   (copy_buf, st) = read_copy st;
                   st = (if length copy_buf < c_small_hash_dist then st\<lparr>copy_read_eof := True\<rparr> else st);
                   loc = loc\<lparr>big_hash_copy_control := md5_update (big_hash_copy_control loc) copy_buf\<rparr>;
                   st = seek_copy (copy_write_pos st) st
               in do { st \<leftarrow> write_copy cfg r st;
                       Some (st\<lparr>inplace_written := inplace_written st + length r\<rparr>, loc) });
          Some (st\<lparr>copy_write_pos := copy_write_pos st + length r\<rparr>, loc) }"

definition copy_inplace_compared :: "chunk_config \<Rightarrow> byte list \<Rightarrow> chunker \<Rightarrow> chunker option" where
  "copy_inplace_compared cfg r st =
     (let (copy_buf, st) =
            (if copy_read_eof st then ([], st)
             else
               let st = seek_copy (copy_write_pos st) st;
                   (copy_buf, st) = read_copy st
               in (copy_buf, if length copy_buf < c_small_hash_dist then st\<lparr>copy_read_eof := True\<rparr> else st))
      in do { st \<leftarrow> (if copy_read_eof st \<or> length copy_buf \<noteq> length r \<or> copy_buf \<noteq> r
                     then do { st \<leftarrow> write_copy cfg r (seek_copy (copy_write_pos st) st);
                               Some (st\<lparr>inplace_written := inplace_written st + length r\<rparr>) }
                     else Some st);
              Some (st\<lparr>copy_write_pos := copy_write_pos st + length r\<rparr>) })"

definition copy_small :: "chunk_config \<Rightarrow> byte list \<Rightarrow> chunker \<Rightarrow> chunk_locals \<Rightarrow> (chunker \<times> chunk_locals) option" where
  "copy_small cfg r st loc =
     (if c_copy st = None then Some (st, loc)
      else if modify_inplace cfg then
        case c_chunk st of
          Some (old_big, old_small) \<Rightarrow> copy_inplace_hashed cfg old_small r st loc
        | None \<Rightarrow> do { st \<leftarrow> copy_inplace_compared cfg r st; Some (st, loc) }
      else do { st \<leftarrow> write_copy cfg r st; Some (st\<lparr>copy_write_pos := copy_write_pos st + length r\<rparr>, loc) })"

definition is_tree :: "hash_func \<Rightarrow> bool" where
  "is_tree h = (case h of Tree _ \<Rightarrow> True | _ \<Rightarrow> False)"

definition is_plain :: "hash_func \<Rightarrow> bool" where
  "is_plain h = (case h of Plain _ \<Rightarrow> True | _ \<Rightarrow> False)"

definition read_small ::
  "chunk_config \<Rightarrow> nat \<Rightarrow> chunker \<Rightarrow> chunk_locals \<Rightarrow> (chunker \<times> chunk_locals) option" where
  "read_small cfg pos st loc =
     (let (r, has_read_error, f) = File_Read c_small_hash_dist (c_f st); st = st\<lparr>c_f := f\<rparr>
      in if has_read_error then None
         else
           let loc = (if is_tree (c_hash st) \<and> \<not> buf_is_zero r then loc\<lparr>all_zeros := False\<rparr> else loc);
               adler = urb_adler32 (urb_adler32 0 None) (Some r);
               loc = loc\<lparr>small_hash := put_bytes (small_hash loc) (chunkidx loc * 4) (mem_of (big_end cfg) 4 adler),
                         big_hash := md5_update (big_hash loc) r, buf_read := buf_read loc + length r\<rparr>;
               st = (if is_plain (c_hash st)
                     then st\<lparr>sha_buf := put_bytes (sha_buf st) (pos mod length (sha_buf st)) r\<rparr> else st)
           in copy_small cfg r st loc)"

function read_chunk ::
  "chunk_config \<Rightarrow> nat \<Rightarrow> nat \<Rightarrow> nat \<Rightarrow> chunker \<Rightarrow> chunk_locals \<Rightarrow> (nat \<times> chunker \<times> chunk_locals) option" where
  "read_chunk cfg fsize epos pos st loc =
     (if pos < epos \<and> pos < fsize then
        do { (st, loc) \<leftarrow> read_small cfg pos st loc;
             read_chunk cfg fsize epos (pos + c_small_hash_dist) st (loc\<lparr>chunkidx := chunkidx loc + 1\<rparr>) }
      else Some (pos, st, loc))"
  by pat_completeness auto

termination read_chunk
  by (relation "measure (\<lambda>(cfg, fsize, epos, pos, st, loc). epos - pos)") (auto simp: c_small_hash_dist_def)

declare read_chunk.simps [simp del]

text \<open>\<open>hashf->sparse_hash\<close> with the two 64-bit numbers of a hole.\<close>

definition hole_note :: "bool \<Rightarrow> nat \<Rightarrow> nat \<Rightarrow> byte list" where
  "hole_note be start len = mem_of be 8 (of_nat start :: u64) @ mem_of be 8 (of_nat len :: u64)"

definition flush_hole :: "chunk_config \<Rightarrow> nat \<Rightarrow> chunker \<Rightarrow> chunker option" where
  "flush_hole cfg end_pos st =
     (case sparse_extent_start st of
        None \<Rightarrow> Some st
      | Some start \<Rightarrow>
          do { h \<leftarrow> hashf_sparse_hash (big_end cfg) (hole_note (big_end cfg) start (end_pos - start)) (c_hash st);
               Some (st\<lparr>c_hash := h, sparse_extent_start := None\<rparr>) })"

text \<open>Handing the chunk to the hash object; \<open>h\<close> is the structure with both kinds of hashes.\<close>

definition hash_chunk :: "chunk_config \<Rightarrow> nat \<Rightarrow> byte list \<Rightarrow> chunker \<Rightarrow> chunk_locals \<Rightarrow> chunker option" where
  "hash_chunk cfg start_pos h st loc =
     (let end_pos = (start_pos div c_checkpoint_dist) * c_checkpoint_dist in
      case c_hash st of
        No_Hash \<Rightarrow> Some st
      | _ \<Rightarrow>
        if buf_read loc = c_checkpoint_dist then
          if is_tree (c_hash st) \<and> all_zeros loc \<or> is_plain (c_hash st) \<and> buf_is_zero (sha_buf st) then
            Some (if sparse_extent_start st = None then st\<lparr>sparse_extent_start := Some end_pos\<rparr> else st)
          else
            do { st \<leftarrow> flush_hole cfg end_pos st;
                 case c_hash st of
                   Tree t \<Rightarrow> do { t \<leftarrow> addHashAllAdler (big_end cfg) h 528 c_checkpoint_dist t; Some (st\<lparr>c_hash := Tree t\<rparr>) }
                 | g \<Rightarrow> do { g \<leftarrow> hashf_hash (big_end cfg) (sha_buf st) g; Some (st\<lparr>c_hash := g\<rparr>) } }
        else
          do { st \<leftarrow> flush_hole cfg end_pos st;
               case c_hash st of
                 Tree t \<Rightarrow> do { t \<leftarrow> addHashAllAdler (big_end cfg) h (16 + chunkidx loc * 4) (buf_read loc) t;
                                Some (st\<lparr>c_hash := Tree t\<rparr>) }
               | g \<Rightarrow> do { g \<leftarrow> hashf_hash (big_end cfg) (take (buf_read loc) (sha_buf st)) g; Some (st\<lparr>c_hash := g\<rparr>) } })"

text \<open>\<open>small_hash[i] = little_endian(small_hash[i])\<close> for the first \<open>chunkidx\<close> characters, converted to \<open>int\<close> and back.\<close>

definition char_little_endian :: "bool \<Rightarrow> byte \<Rightarrow> byte" where
  "char_little_endian be b = ucast (little_endian32 be (scast b))"

text \<open>The chunk is written again from the start when the hashes of the old copy do not fit.\<close>

function recopy_chunk :: "chunk_config \<Rightarrow> nat \<Rightarrow> nat \<Rightarrow> nat \<Rightarrow> chunker \<Rightarrow> (nat \<times> chunker) option" where
  "recopy_chunk cfg fsize epos pos st =
     (if pos < epos \<and> pos < fsize then
        let (r, has_read_error, f) = File_Read c_small_hash_dist (c_f st);
            st = seek_copy (copy_write_pos st) (st\<lparr>c_f := f\<rparr>)
        in do { st \<leftarrow> write_copy cfg r st;
                recopy_chunk cfg fsize epos (pos + c_small_hash_dist)
                  (st\<lparr>inplace_written := inplace_written st + length r, copy_write_pos := copy_write_pos st + length r\<rparr>) }
      else Some (pos, st))"
  by pat_completeness auto

termination recopy_chunk
  by (relation "measure (\<lambda>(cfg, fsize, epos, pos, st). epos - pos)") (auto simp: c_small_hash_dist_def)

declare recopy_chunk.simps [simp del]

text \<open>Changing the copy in place by hash: was the old chunk what the hashes said?\<close>

definition check_copy ::
  "chunk_config \<Rightarrow> nat \<Rightarrow> nat \<Rightarrow> nat \<Rightarrow> chunk_locals \<Rightarrow> nat \<Rightarrow> chunker \<Rightarrow> (nat \<times> chunker) option" where
  "check_copy cfg fsize epos copy_write_pos_start loc pos' st =
     (case c_chunk st of
        None \<Rightarrow> Some (pos', st)
      | Some (old_big, old_small) \<Rightarrow>
          if c_copy st \<noteq> None \<and> modify_inplace cfg then
            do { cdig \<leftarrow> raw_digest_int (md5_finalize (big_hash_copy_control loc));
                 if cdig \<noteq> old_big then
                   let p = epos - c_checkpoint_dist;
                       st = st\<lparr>copy_write_pos := copy_write_pos_start, c_f := snd (File_Seek (int p) (c_f st))\<rparr>
                   in recopy_chunk cfg fsize epos p st
                 else Some (pos', st) }
          else Some (pos', st))"

definition data_chunk :: "chunk_config \<Rightarrow> nat \<Rightarrow> nat \<Rightarrow> chunker \<Rightarrow> (nat \<times> chunker) option" where
  "data_chunk cfg fsize pos st =
     (let epos = pos + c_checkpoint_dist;
          st = st\<lparr>copy_sparse_extent_start := None\<rparr>;
          copy_write_pos_start = copy_write_pos st;
          loc = \<lparr>big_hash = md5_init (md5_mem cfg), big_hash_copy_control = md5_init (md5_mem cfg), chunkidx = 0,
                 small_hash = replicate 512 0, buf_read = 0, all_zeros = True\<rparr>
      in do { (pos', st, loc) \<leftarrow> read_chunk cfg fsize epos pos st loc;
              dig \<leftarrow> raw_digest_int (md5_finalize (big_hash loc));
              let h = take 16 dig @ small_hash loc;
              st \<leftarrow> hash_chunk cfg pos h st loc;
              let sm = map (char_little_endian (big_end cfg)) (take (chunkidx loc) (small_hash loc)) @
                       drop (chunkidx loc) (small_hash loc);
              st \<leftarrow> write_out cfg (take (16 + chunkidx loc * 4) (take 16 dig @ sm)) st;
              let st = st\<lparr>hashoutputpos := hashoutputpos st + (16 + chunkidx loc * 4)\<rparr>;
              check_copy cfg fsize epos copy_write_pos_start loc pos' st })"

section \<open>The whole loop\<close>

text \<open>The hashes of the old file: \<open>Read\<close> into the structure keeps what it does not overwrite.\<close>

definition load_chunk_hashes :: "nat \<Rightarrow> chunker \<Rightarrow> chunker" where
  "load_chunk_hashes pos st =
     (case (c_chunk st, c_in st) of
        (Some (old_big, old_small), Some hin) \<Rightarrow>
          if (of_nat pos :: u64) <s c_input_size st then
            let hin = snd (File_Seek (int (hashoutputpos st)) hin);
                (d, err, hin) = File_Read 528 hin;
                all = put_bytes (old_big @ old_small) 0 d
            in if d = [] then st\<lparr>c_in := Some hin, c_chunk := None\<rparr>
               else st\<lparr>c_in := Some hin, c_chunk := Some (take 16 all, drop 16 all)\<rparr>
          else st\<lparr>c_chunk := None\<rparr>
      | _ \<Rightarrow> st)"

definition chunk_step :: "chunk_config \<Rightarrow> nat \<Rightarrow> nat \<Rightarrow> chunker \<Rightarrow> (nat \<times> chunker) option" where
  "chunk_step cfg fsize pos st =
     (let st = skip_extents pos (load_chunk_hashes pos st); epos = pos + c_checkpoint_dist
      in case curr_extent st of
           None \<Rightarrow> data_chunk cfg fsize pos st
         | Some (off, sz) \<Rightarrow>
             if off \<le> pos \<and> epos \<le> off + sz \<and> epos \<le> fsize
             then do { st \<leftarrow> hole_chunk cfg fsize pos (off, sz) st; Some (epos, st) }
             else data_chunk cfg fsize pos st)"

partial_function (option) chunk_loop :: "chunk_config \<Rightarrow> nat \<Rightarrow> nat \<Rightarrow> chunker \<Rightarrow> chunker option" where
  "chunk_loop cfg fsize pos st =
     (if pos < fsize then do { (pos, st) \<leftarrow> chunk_step cfg fsize pos st; chunk_loop cfg fsize pos st } else Some st)"

definition finish_copy :: "chunker \<Rightarrow> chunker option" where
  "finish_copy st =
     (case (c_copy st, copy_max_sparse st) of
        (Some f, Some m) \<Rightarrow>
          let (n, f) = File_Size f
          in if n < int m then
               let (ok, f) = File_Resize (int m) f in if ok then Some (st\<lparr>c_copy := Some f\<rparr>) else None
             else Some (st\<lparr>c_copy := Some f\<rparr>)
      | _ \<Rightarrow> Some st)"

definition open_hash_input :: "bool \<Rightarrow> File option \<Rightarrow> (File option \<times> u64) option" where
  "open_hash_input be hashinput =
     (case hashinput of
        None \<Rightarrow> Some (None, 0)
      | Some hin \<Rightarrow>
          let (d, err, hin) = File_Read 8 (snd (File_Seek 0 hin))
          in if length d = 8 then Some (Some hin, little_endian64 be (of_mem be d)) else None)"

definition build_chunk_hashs ::
  "chunk_config \<Rightarrow> File \<Rightarrow> File \<Rightarrow> File option \<Rightarrow> File option \<Rightarrow> hash_func \<Rightarrow> (nat \<times> nat) list \<Rightarrow> chunker option" where
  "build_chunk_hashs cfg f hashoutput copy hashinput hashf extents =
     (let f = snd (File_Seek 0 f);
          hashoutput = snd (File_Seek 0 hashoutput);
          (fsize, f) = File_Size f
      in do {
        hashoutput \<leftarrow> writeRepeatFreeSpace (space_cb cfg) hashoutput (le_bytes 8 (of_int fsize :: u64));
        (hashinput, input_size) \<leftarrow> open_hash_input (big_end cfg) hashinput;
        let st = \<lparr>c_f = f, c_out = hashoutput, c_copy = copy, c_in = hashinput, c_input_size = input_size,
                  c_chunk = map_option (\<lambda>_. (replicate 16 0, replicate 512 0)) hashinput, c_hash = hashf,
                  c_extents = extents, curr_extent = None,
                  sha_buf = (if is_plain hashf then replicate c_checkpoint_dist 0 else []), copy_write_pos = 0,
                  copy_read_eof = False, hashoutputpos = 8, sparse_extent_start = None,
                  copy_sparse_extent_start = None, copy_max_sparse = None, inplace_written = 0\<rparr>;
        st \<leftarrow> chunk_loop cfg (nat fsize) 0 (nextExtent st);
        st \<leftarrow> (if sparse_extent_start st \<noteq> None
               then if nat fsize mod c_checkpoint_dist = 0 then flush_hole cfg (nat fsize) st else None
               else Some st);
        finish_copy st })"

section \<open>Writing\<close>

text \<open>After a successful write the bytes are at the position, whatever failed on the way.\<close>

definition written :: "File \<Rightarrow> byte list \<Rightarrow> File \<Rightarrow> bool" where
  "written f buf f' \<longleftrightarrow> fbytes f' = overwrite (fbytes f) (fpos f) buf \<and> fpos f' = fpos f + length buf \<and> faults f' = faults f"

definition partly_written :: "File \<Rightarrow> byte list \<Rightarrow> nat \<Rightarrow> File \<Rightarrow> bool" where
  "partly_written f0 buf w f \<longleftrightarrow> fbytes f = overwrite (fbytes f0) (fpos f0) (take w buf) \<and> fpos f = fpos f0 + w \<and>
     faults f = faults f0 \<and> w \<le> length buf"

lemma partly_written_all: "partly_written f0 buf w f \<Longrightarrow> length buf \<le> w \<Longrightarrow> written f0 buf f"
  by (simp add: partly_written_def written_def)

lemma partly_written_step:
  assumes "partly_written f0 buf w f" "File_Write (drop w buf) f = (rc, err, f')"
  shows "partly_written f0 buf (w + rc) f'"
proof -
  have w: "fbytes f = overwrite (fbytes f0) (fpos f0) (take w buf)" "fpos f = fpos f0 + w" "faults f = faults f0" "w \<le> length buf"
    using assms(1) by (simp_all add: partly_written_def)
  note r = File_Write_fields[OF assms(2)]
  have lw: "length (take w buf) = w" using w(4) by simp
  have "fbytes f' = overwrite (overwrite (fbytes f0) (fpos f0) (take w buf)) (fpos f0 + length (take w buf)) (take rc (drop w buf))"
    using r(3) w(1,2) lw by simp
  also have "\<dots> = overwrite (fbytes f0) (fpos f0) (take (w + rc) buf)"
    unfolding overwrite_overwrite by (simp add: take_add)
  finally show ?thesis using r w by (simp add: partly_written_def)
qed

lemma write_rest_written:
  "partly_written f0 buf w f \<Longrightarrow> write_rest buf w f = (rc, f') \<Longrightarrow> rc \<noteq> 0 \<Longrightarrow> written f0 buf f'"
proof (induction buf w f rule: write_rest.induct)
  case (1 buf w f)
  obtain n err g where wr: "File_Write (drop w buf) f = (n, err, g)" by (metis prod_cases3)
  note step = partly_written_step[OF "1.prems"(1) wr]
  show ?case
  proof (cases "w + n < length buf \<and> 0 < n")
    case True
    have "write_rest buf (w + n) g = (rc, f')"
      using "1.prems"(2) True wr by (subst (asm) write_rest.simps) simp
    then show ?thesis using "1.IH"[OF wr[symmetric] refl refl refl True step] "1.prems"(3) by blast
  next
    case False
    then have "n = rc" "g = f'" using "1.prems"(2) wr by (subst (asm) write_rest.simps; auto)+
    then show ?thesis using False "1.prems"(3) step partly_written_all by auto
  qed
qed

lemma write_tries_written:
  "partly_written f0 buf w f \<Longrightarrow> write_tries buf w tries f = (rc, f') \<Longrightarrow> rc \<noteq> 0 \<Longrightarrow> written f0 buf f'"
proof (induction buf w tries f rule: write_tries.induct)
  case (1 buf w tries f)
  obtain n err g where wr: "File_Write (drop w buf) f = (n, err, g)" by (metis prod_cases3)
  note step = partly_written_step[OF "1.prems"(1) wr]
  let ?tr = "if n = 0 then tries - 1 else tries"
  show ?case
  proof (cases "w + n < length buf \<and> (0 < n \<or> 0 < ?tr)")
    case True
    have "write_tries buf (w + n) ?tr g = (rc, f')"
      using "1.prems"(2) True wr by (subst (asm) write_tries.simps) (simp add: Let_def split: if_splits)
    then show ?thesis using "1.IH"[OF wr[symmetric] refl refl refl refl True step] "1.prems"(3) by blast
  next
    case False
    have "(n, g) = (rc, f')"
      using "1.prems"(2) False wr by (subst (asm) write_tries.simps) (simp add: Let_def split: if_splits)
    then show ?thesis using False "1.prems"(3) step partly_written_all by auto
  qed
qed

lemma writeRepeatFreeSpace_runs:
  assumes "ok \<Longrightarrow> no_fault f \<and> buf \<noteq> [] \<and> length buf \<le> 2 ^ 32"
  shows "runs ok (writeRepeatFreeSpace cb f buf) (written f buf)"
proof -
  have p0: "partly_written f buf 0 f" by (simp add: partly_written_def overwrite_def)
  have full: "File_Write (drop 0 buf) f = (length buf, False, next_op (f\<lparr>fbytes := overwrite (fbytes f) (fpos f) buf, fpos := fpos f + length buf\<rparr>))"
    if ok using File_Write_all[of f buf] assms[OF that] by simp
  show ?thesis
  proof (cases cb)
    case None
    obtain rc g where t: "write_tries buf 0 50 f = (rc, g)" by fastforce
    show ?thesis
    proof (cases "rc = 0")
      case True
      moreover have "\<not> ok"
      proof
        assume o: ok
        have "write_tries buf 0 50 f = (length buf, snd (snd (File_Write (drop 0 buf) f)))"
          by (subst write_tries.simps) (simp only: full[OF o] Let_def prod.case, simp)
        then show False using t True assms[OF o] by simp
      qed
      ultimately show ?thesis using None t by (simp add: writeRepeatFreeSpace_def write_free_space_def writeFileRepeatTries_def)
    next
      case False
      then show ?thesis using None t write_tries_written[OF p0 t]
        by (simp add: writeRepeatFreeSpace_def write_free_space_def writeFileRepeatTries_def)
    qed
  next
    case (Some h)
    obtain rc err g where w: "File_Write (drop 0 buf) f = (rc, err, g)" by (metis prod_cases3)
    note step = partly_written_step[OF p0 w]
    show ?thesis
    proof (cases "rc = length buf")
      case True
      then show ?thesis using Some w partly_written_all[OF step] by (simp add: writeRepeatFreeSpace_def write_free_space_def)
    next
      case False
      then have "\<not> ok" using full w by auto
      moreover obtain rc' g' where r: "write_rest buf rc g = (rc', g')" by fastforce
      ultimately show ?thesis using Some w False write_rest_written[OF _ r] step
        by (simp add: writeRepeatFreeSpace_def write_free_space_def)
    qed
  qed
qed

end
