(* ===== verification/Chunk_Copy.thy ===== *)
theory Chunk_Copy
  imports Chunk_Hasher
begin

text \<open>
  Reading the data of a chunk (\<open>read_small\<close>, \<open>read_chunk\<close>) and what it does to the copy: invariants of the
  locals of a chunk (\<open>locals_inv\<close>) and of the copy (\<open>copy_inv\<close>), kept by every small block.
\<close>

section \<open>What the copy goes through\<close>

text \<open>The fields that reading a chunk and copying it leave alone.\<close>

definition frame :: "chunker \<Rightarrow> chunker \<Rightarrow> bool" where
  "frame st st' \<longleftrightarrow> c_out st' = c_out st \<and> c_in st' = c_in st \<and> c_input_size st' = c_input_size st \<and> c_chunk st' = c_chunk st \<and>
     c_hash st' = c_hash st \<and> c_extents st' = c_extents st \<and> curr_extent st' = curr_extent st \<and>
     hashoutputpos st' = hashoutputpos st \<and> sparse_extent_start st' = sparse_extent_start st \<and>
     copy_sparse_extent_start st' = copy_sparse_extent_start st \<and> copy_max_sparse st' = copy_max_sparse st \<and>
     map_option faults (c_copy st') = map_option faults (c_copy st)"

lemma frame_refl [simp]: "frame st st"
  by (simp add: frame_def)

lemma frame_trans [trans]: "frame a b \<Longrightarrow> frame b c \<Longrightarrow> frame a c"
  by (simp add: frame_def)

definition copy_no_fault :: "chunker \<Rightarrow> bool" where
  "copy_no_fault st \<longleftrightarrow> (\<forall>cp. c_copy st = Some cp \<longrightarrow> no_fault cp)"

lemma copy_no_fault_frame: "frame st st' \<Longrightarrow> copy_no_fault st \<Longrightarrow> copy_no_fault st'"
proof -
  assume f: "frame st st'" and n: "copy_no_fault st"
  have "no_fault cp'" if "c_copy st' = Some cp'" for cp'
  proof -
    have "map_option faults (c_copy st) = Some (faults cp')" using f that by (simp add: frame_def)
    then obtain cp where cp: "c_copy st = Some cp" "faults cp' = faults cp" by auto
    then show ?thesis using n no_fault_eq[OF cp(2)] by (simp add: copy_no_fault_def)
  qed
  then show ?thesis by (simp add: copy_no_fault_def)
qed

text \<open>
  The copy agrees with the file up to \<open>pos\<close> (as far as it goes, and where it ends the file has zeros);
  it is not longer than before or than the file; the next write goes to \<open>pos\<close>.
\<close>

definition copy_inv :: "chunk_config \<Rightarrow> byte list \<Rightarrow> nat \<Rightarrow> nat \<Rightarrow> chunker \<Rightarrow> bool" where
  "copy_inv cfg data cap pos st \<longleftrightarrow>
     (\<forall>cp. c_copy st = Some cp \<longrightarrow>
        (\<forall>i < pos. pad_nth (fbytes cp) i = data ! i) \<and> length (fbytes cp) \<le> max cap (length data) \<and>
        copy_write_pos st = pos \<and> (\<not> modify_inplace cfg \<longrightarrow> fpos cp = pos))"

definition copy_reaches :: "nat \<Rightarrow> chunker \<Rightarrow> bool" where
  "copy_reaches pos st \<longleftrightarrow> (\<forall>cp. c_copy st = Some cp \<longrightarrow> pos \<le> length (fbytes cp))"

text \<open>The invariant is claimed for a copy that is written anew or compared with the old bytes.\<close>

definition copy_mode :: "chunk_config \<Rightarrow> chunker \<Rightarrow> bool" where
  "copy_mode cfg st \<longleftrightarrow> \<not> (modify_inplace cfg \<and> c_chunk st \<noteq> None)"

lemma copy_mode_frame: "frame st st' \<Longrightarrow> copy_mode cfg st' = copy_mode cfg st"
  by (simp add: frame_def copy_mode_def)

lemma seek_copy_frame: "frame st (seek_copy p st)"
proof (cases "c_copy st")
  case (Some f)
  obtain b g where "File_Seek (int p) f = (b, g)" by fastforce
  then show ?thesis using Some File_Seek_fields(2) by (simp add: frame_def seek_copy_def)
qed (simp add: frame_def seek_copy_def)

lemma read_copy_frame: "frame st (snd (read_copy st))"
proof (cases "c_copy st")
  case (Some f)
  obtain d e g where "File_Read c_small_hash_dist f = (d, e, g)" by (metis prod_cases3)
  then show ?thesis using Some File_Read_fields(2) by (simp add: frame_def read_copy_def)
qed (simp add: frame_def read_copy_def)

lemma other_fields:
  "c_f (seek_copy p st) = c_f st" "sha_buf (seek_copy p st) = sha_buf st" "copy_write_pos (seek_copy p st) = copy_write_pos st"
  "copy_read_eof (seek_copy p st) = copy_read_eof st"
  "c_f (snd (read_copy st)) = c_f st" "sha_buf (snd (read_copy st)) = sha_buf st"
  "copy_write_pos (snd (read_copy st)) = copy_write_pos st" "copy_read_eof (snd (read_copy st)) = copy_read_eof st"
  by (simp_all add: seek_copy_def read_copy_def split: option.splits prod.splits)

lemma write_copy_runs:
  assumes "c_copy st = Some cp" "ok \<Longrightarrow> copy_no_fault st \<and> buf \<noteq> [] \<and> length buf \<le> 2 ^ 32"
  shows "runs ok (write_copy cfg buf st) (\<lambda>st'. \<exists>cp'. written cp buf cp' \<and> st' = st\<lparr>c_copy := Some cp'\<rparr> \<and> frame st st')"
proof -
  have "runs ok (writeRepeatFreeSpace (space_cb cfg) cp buf) (written cp buf)"
    by (rule writeRepeatFreeSpace_runs) (use assms in \<open>simp add: copy_no_fault_def\<close>)
  then show ?thesis
    unfolding write_copy_def assms(1) option.case
    by (rule runs_bind) (use assms(1) in \<open>auto simp: written_def frame_def\<close>)
qed

lemma nth_piece:
  assumes "r = take (length r) (drop pos xs)" "pos + length r \<le> length xs" "pos \<le> i" "i < pos + length r"
  shows "r ! (i - pos) = xs ! i"
proof -
  have "r ! (i - pos) = take (length r) (drop pos xs) ! (i - pos)" using assms(1) by (rule arg_cong)
  then show ?thesis using assms(2-4) by simp
qed

lemma piece_fits: "r = take (length r) (drop pos xs) \<Longrightarrow> r \<noteq> [] \<Longrightarrow> pos + length r \<le> length xs"
proof -
  assume r: "r = take (length r) (drop pos xs)" "r \<noteq> []"
  have "length r = length (take (length r) (drop pos xs))" using r(1) by (rule arg_cong)
  then have "length r \<le> length xs - pos" by simp
  moreover have "0 < length r" using r(2) by simp
  ultimately show ?thesis by linarith
qed

text \<open>Writing the small block at its place keeps the invariant.\<close>

lemma copy_inv_written:
  assumes "copy_inv cfg data cap pos st" "c_copy st = Some cp" "written (cp\<lparr>fpos := pos\<rparr>) r cp'"
    and r: "r = take (length r) (drop pos data)" "pos + length r \<le> length data"
    and st': "c_copy st' = Some cp'" "copy_write_pos st' = pos + length r"
  shows "copy_inv cfg data cap (pos + length r) st' \<and> (r \<noteq> [] \<longrightarrow> copy_reaches (pos + length r) st')"
proof -
  have b: "fbytes cp' = overwrite (fbytes cp) pos r" "fpos cp' = pos + length r"
    using assms(3) by (simp_all add: written_def)
  have i: "\<forall>i < pos. pad_nth (fbytes cp) i = data ! i" "length (fbytes cp) \<le> max cap (length data)"
    using assms(1,2) by (simp_all add: copy_inv_def)
  have "pad_nth (fbytes cp') i = data ! i" if "i < pos + length r" for i
  proof (cases "i < pos")
    case True then show ?thesis using i(1) by (simp add: b pad_nth_overwrite)
  next
    case False
    then show ?thesis using that nth_piece[OF r] by (simp add: b pad_nth_overwrite)
  qed
  moreover have "length (fbytes cp') \<le> max cap (length data)"
    using i(2) r(2) by (auto simp: b length_overwrite)
  ultimately show ?thesis
    using st' b(2) by (simp add: copy_inv_def copy_reaches_def b(1) length_overwrite)
qed

lemma seek_copy_ok:
  "c_copy st = Some cp \<Longrightarrow> no_fault cp \<Longrightarrow> seek_copy p st = st\<lparr>c_copy := Some (next_op (cp\<lparr>fpos := p\<rparr>))\<rparr>"
  by (simp add: seek_copy_def File_Seek_ok)

lemma written_next_op: "written (next_op f) buf f' = written f buf f'"
  by (simp add: written_def)

text \<open>The locals that the copy does not touch.\<close>

definition same_locals :: "chunk_locals \<Rightarrow> chunk_locals \<Rightarrow> bool" where
  "same_locals l l' \<longleftrightarrow> (\<exists>m. l' = l\<lparr>big_hash_copy_control := m\<rparr>)"

lemma same_locals_refl [simp]: "same_locals l l"
  unfolding same_locals_def by (rule exI[of _ "big_hash_copy_control l"]) simp

definition copied :: "chunk_config \<Rightarrow> bool \<Rightarrow> byte list \<Rightarrow> nat \<Rightarrow> nat \<Rightarrow> byte list \<Rightarrow> chunker \<Rightarrow> chunker \<Rightarrow> bool" where
  "copied cfg ok data cap pos r st st' \<longleftrightarrow>
     frame st st' \<and> c_f st' = c_f st \<and> sha_buf st' = sha_buf st \<and>
     (ok \<and> copy_mode cfg st \<and> copy_inv cfg data cap pos st \<longrightarrow>
        copy_inv cfg data cap (pos + length r) st' \<and> copy_reaches (pos + length r) st')"

lemma copy_inplace_hashed_runs:
  assumes "c_copy st = Some cp" "modify_inplace cfg" "c_chunk st = Some (ob, os)"
    and "ok \<Longrightarrow> copy_no_fault st \<and> r \<noteq> [] \<and> length r \<le> 2 ^ 32"
  shows "runs ok (copy_inplace_hashed cfg os r st loc)
    (\<lambda>(st', loc'). copied cfg ok data cap pos r st st' \<and> same_locals loc loc')"
proof -
  have m: "\<not> copy_mode cfg st" using assms(2,3) by (simp add: copy_mode_def)
  show ?thesis
  proof (cases "small_slot (chunkidx loc) (small_hash loc) = small_slot (chunkidx loc) os")
    case True
    then show ?thesis using m by (auto simp: copy_inplace_hashed_def copied_def frame_def same_locals_def)
  next
    case False
    obtain cb s2 where rc: "read_copy (seek_copy (copy_write_pos st) st) = (cb, s2)" by fastforce
    define s3 where "s3 = (if length cb < c_small_hash_dist then s2\<lparr>copy_read_eof := True\<rparr> else s2)"
    define s4 where "s4 = seek_copy (copy_write_pos s3) s3"
    have f2: "frame st s2" "c_f s2 = c_f st" "sha_buf s2 = sha_buf st"
    proof -
      have s2: "s2 = snd (read_copy (seek_copy (copy_write_pos st) st))" using rc by simp
      show "frame st s2" "c_f s2 = c_f st" "sha_buf s2 = sha_buf st"
        unfolding s2 by (rule frame_trans[OF seek_copy_frame read_copy_frame]) (simp_all add: other_fields)
    qed
    have f3: "frame s2 s3" "c_f s3 = c_f s2" "sha_buf s3 = sha_buf s2" by (simp_all add: s3_def frame_def)
    have f4: "frame st s4" "c_f s4 = c_f st" "sha_buf s4 = sha_buf st"
      using frame_trans[OF frame_trans[OF f2(1) f3(1)] seek_copy_frame, of "copy_write_pos s3"] f2 f3
      by (simp_all add: s4_def other_fields)
    then obtain cp4 where c4: "c_copy s4 = Some cp4" using assms(1) by (auto simp: frame_def)
    have "runs ok (write_copy cfg r s4) (\<lambda>st'. \<exists>cp'. written cp4 r cp' \<and> st' = s4\<lparr>c_copy := Some cp'\<rparr> \<and> frame s4 st')"
      by (rule write_copy_runs[OF c4]) (use assms(4) f4(1) copy_no_fault_frame in blast)
    then show ?thesis
      unfolding copy_inplace_hashed_def using False
      apply (simp add: rc Let_def s3_def[symmetric])
      apply (simp add: s4_def[symmetric])
      apply (rule runs_bind)
       apply assumption
      apply (use m f4 in \<open>auto simp: copied_def same_locals_def frame_def\<close>)
      done
  qed
qed

text \<open>Changes of the copy that leave its bytes alone.\<close>

definition same_copy :: "chunker \<Rightarrow> chunker \<Rightarrow> bool" where
  "same_copy st st' \<longleftrightarrow> frame st st' \<and> c_f st' = c_f st \<and> sha_buf st' = sha_buf st \<and> copy_write_pos st' = copy_write_pos st \<and>
     map_option fbytes (c_copy st') = map_option fbytes (c_copy st)"

lemma same_copy_refl [simp]: "same_copy st st"
  by (simp add: same_copy_def)

lemma same_copy_trans: "same_copy a b \<Longrightarrow> same_copy b c \<Longrightarrow> same_copy a c"
  by (auto simp: same_copy_def intro: frame_trans)

lemma same_copy_eof: "same_copy st (st\<lparr>copy_read_eof := b\<rparr>)"
  by (simp add: same_copy_def frame_def)

lemma seek_same_copy: "same_copy st (seek_copy p st)"
proof (cases "c_copy st")
  case (Some f)
  obtain b g where s: "File_Seek (int p) f = (b, g)" by fastforce
  then show ?thesis using Some File_Seek_fields[OF s] by (simp add: same_copy_def frame_def seek_copy_def)
qed (simp add: same_copy_def frame_def seek_copy_def)

lemma read_same_copy: "same_copy st (snd (read_copy st))"
proof (cases "c_copy st")
  case (Some f)
  obtain d e g where r: "File_Read c_small_hash_dist f = (d, e, g)" by (metis prod_cases3)
  then show ?thesis using Some File_Read_fields[OF r] by (simp add: same_copy_def frame_def read_copy_def)
qed (simp add: same_copy_def frame_def read_copy_def)

lemma same_copy_inv: "same_copy st st' \<Longrightarrow> modify_inplace cfg \<Longrightarrow> copy_inv cfg data cap pos st \<Longrightarrow> copy_inv cfg data cap pos st'"
  by (cases "c_copy st") (auto simp: same_copy_def copy_inv_def)

lemma same_copy_Some: "same_copy st st' \<Longrightarrow> c_copy st = Some cp \<Longrightarrow> \<exists>cp'. c_copy st' = Some cp' \<and> fbytes cp' = fbytes cp"
  by (auto simp: same_copy_def)

lemma write_at_pos_runs:
  assumes "c_copy st = Some cp" and m: "modify_inplace cfg"
    and ok: "ok \<Longrightarrow> copy_no_fault st \<and> r \<noteq> [] \<and> length r \<le> 2 ^ 32"
    and r: "r = take (length r) (drop pos data)" "pos + length r \<le> length data"
  shows "runs ok (write_copy cfg r (seek_copy (copy_write_pos st) st)) (\<lambda>st'. copied cfg ok data cap pos r st
    (st'\<lparr>inplace_written := k st', copy_write_pos := copy_write_pos st' + length r\<rparr>) \<and> copy_write_pos st' = copy_write_pos st)"
proof -
  let ?s = "seek_copy (copy_write_pos st) st"
  have sc: "same_copy st ?s" by (rule seek_same_copy)
  obtain cp2 where c2: "c_copy ?s = Some cp2" using same_copy_Some[OF sc assms(1)] by blast
  have fr: "frame st ?s" using sc by (simp add: same_copy_def)
  have "runs ok (write_copy cfg r ?s) (\<lambda>st'. \<exists>cp'. written cp2 r cp' \<and> st' = ?s\<lparr>c_copy := Some cp'\<rparr> \<and> frame ?s st')"
    by (rule write_copy_runs[OF c2]) (use ok copy_no_fault_frame[OF fr] in blast)
  then show ?thesis
  proof (rule runs_mono)
    fix st' assume "\<exists>cp'. written cp2 r cp' \<and> st' = ?s\<lparr>c_copy := Some cp'\<rparr> \<and> frame ?s st'"
    then obtain cp' where w: "written cp2 r cp'" "st' = ?s\<lparr>c_copy := Some cp'\<rparr>" "frame ?s st'" by blast
    let ?t = "st'\<lparr>inplace_written := k st', copy_write_pos := copy_write_pos st' + length r\<rparr>"
    have "frame st ?t" using frame_trans[OF fr w(3)] by (simp add: frame_def)
    moreover have "c_f ?t = c_f st" "sha_buf ?t = sha_buf st" "copy_write_pos st' = copy_write_pos st"
      by (simp_all add: w(2) other_fields)
    moreover have "copy_inv cfg data cap (pos + length r) ?t \<and> copy_reaches (pos + length r) ?t"
      if "ok \<and> copy_mode cfg st \<and> copy_inv cfg data cap pos st"
    proof -
      have p: "copy_write_pos st = pos" using that assms(1) by (simp add: copy_inv_def)
      have "no_fault cp" using ok that assms(1) by (simp add: copy_no_fault_def)
      then have "cp2 = next_op (cp\<lparr>fpos := pos\<rparr>)" using c2 seek_copy_ok[OF assms(1)] p by simp
      then have "written (cp\<lparr>fpos := pos\<rparr>) r cp'" using w(1) by (simp add: written_next_op)
      from copy_inv_written[OF _ assms(1) this r, where cfg = cfg and cap = cap and st' = ?t] that ok show ?thesis
        using calculation(4) p by (simp add: w(2))
    qed
    ultimately show "copied cfg ok data cap pos r st ?t \<and> copy_write_pos st' = copy_write_pos st"
      by (simp add: copied_def)
  qed
qed

lemma copied_same_copy:
  assumes "copied cfg ok data cap pos r st2 st'" "same_copy st st2" "modify_inplace cfg"
  shows "copied cfg ok data cap pos r st st'"
  using assms same_copy_inv[OF assms(2,3)] frame_trans copy_mode_frame[of st st2 cfg]
  unfolding copied_def same_copy_def by metis

lemma copy_inplace_compared_runs:
  assumes "c_copy st = Some cp" and m: "modify_inplace cfg"
    and ok: "ok \<Longrightarrow> copy_no_fault st \<and> r \<noteq> [] \<and> length r \<le> 2 ^ 32"
    and r: "r = take (length r) (drop pos data)" "pos + length r \<le> length data"
  shows "runs ok (copy_inplace_compared cfg r st) (\<lambda>st'. copied cfg ok data cap pos r st st')"
proof -
  define x where "x = (if copy_read_eof st then ([], st)
             else
               let st = seek_copy (copy_write_pos st) st;
                   (copy_buf, st) = read_copy st
               in (copy_buf, if length copy_buf < c_small_hash_dist then st\<lparr>copy_read_eof := True\<rparr> else st))"
  obtain cb s2 where x: "x = (cb, s2)" by fastforce
  have s2: "same_copy st s2"
  proof (cases "copy_read_eof st")
    case True
    then show ?thesis using x by (simp add: x_def)
  next
    case False
    obtain d s where rd: "read_copy (seek_copy (copy_write_pos st) st) = (d, s)" by fastforce
    then have s: "s = snd (read_copy (seek_copy (copy_write_pos st) st))" by simp
    have "same_copy st s" unfolding s by (rule same_copy_trans[OF seek_same_copy read_same_copy])
    moreover have "s2 = (if length cb < c_small_hash_dist then s\<lparr>copy_read_eof := True\<rparr> else s)"
      using x False rd by (auto simp: x_def Let_def)
    ultimately show ?thesis using same_copy_trans[OF _ same_copy_eof] by auto
  qed
  obtain cp2 where c2: "c_copy s2 = Some cp2" "fbytes cp2 = fbytes cp" using same_copy_Some[OF s2 assms(1)] by blast
  have fr: "frame st s2" using s2 by (simp add: same_copy_def)
  show ?thesis
  proof (cases "copy_read_eof s2 \<or> length cb \<noteq> length r \<or> cb \<noteq> r")
    case True
    let ?P = "\<lambda>st'. copied cfg ok data cap pos r st
      (st'\<lparr>inplace_written := inplace_written st' + length r, copy_write_pos := copy_write_pos st' + length r\<rparr>)"
    have w: "runs ok (write_copy cfg r (seek_copy (copy_write_pos s2) s2)) ?P"
      by (rule runs_mono[OF write_at_pos_runs[OF c2(1) m _ r, where k = "\<lambda>s. inplace_written s + length r"]])
        (use ok copy_no_fault_frame[OF fr] copied_same_copy[OF _ s2 m] in blast)+
    show ?thesis
      unfolding copy_inplace_compared_def x_def[symmetric] unfolding x Let_def prod.case if_P[OF True]
    proof (rule runs_bind)
      show "runs ok (write_copy cfg r (seek_copy (copy_write_pos s2) s2) \<bind>
        (\<lambda>st. Some (st\<lparr>inplace_written := inplace_written st + length r\<rparr>)))
        (\<lambda>st'. copied cfg ok data cap pos r st (st'\<lparr>copy_write_pos := copy_write_pos st' + length r\<rparr>))"
        by (rule runs_bind[OF w]) simp
    qed simp
  next
    case False
    then have e: "\<not> copy_read_eof st" "cb = r"
      using x by (auto simp: x_def Let_def split: if_splits prod.splits)
    obtain d s where rd: "read_copy (seek_copy (copy_write_pos st) st) = (d, s)" by fastforce
    then have d: "d = r" using x e by (auto simp: x_def Let_def split: if_splits)
    let ?t = "s2\<lparr>copy_write_pos := copy_write_pos s2 + length r\<rparr>"
    have "frame st ?t" "c_f ?t = c_f st" "sha_buf ?t = sha_buf st" using s2 by (simp_all add: same_copy_def frame_def)
    moreover have "copy_inv cfg data cap (pos + length r) ?t \<and> copy_reaches (pos + length r) ?t"
      if o: "ok \<and> copy_mode cfg st \<and> copy_inv cfg data cap pos st"
    proof -
      have p: "copy_write_pos st = pos" "\<forall>i<pos. pad_nth (fbytes cp) i = data ! i" "length (fbytes cp) \<le> max cap (length data)"
        using o assms(1) by (simp_all add: copy_inv_def)
      have nf: "no_fault cp" using ok o assms(1) by (simp add: copy_no_fault_def)
      then have "seek_copy (copy_write_pos st) st = st\<lparr>c_copy := Some (next_op (cp\<lparr>fpos := pos\<rparr>))\<rparr>"
        using seek_copy_ok[OF assms(1)] p(1) by simp
      then have "\<exists>e g. File_Read c_small_hash_dist (next_op (cp\<lparr>fpos := pos\<rparr>)) = (r, e, g)"
        using rd d by (auto simp: read_copy_def split: prod.splits)
      then obtain e g where "File_Read c_small_hash_dist (next_op (cp\<lparr>fpos := pos\<rparr>)) = (r, e, g)" by blast
      from File_Read_fields(6)[OF this] have rb: "r = take (length r) (drop pos (fbytes cp))" by simp
      have lr: "r \<noteq> [] \<longrightarrow> pos + length r \<le> length (fbytes cp)" using piece_fits[OF rb] by blast
      have "pad_nth (fbytes cp) i = data ! i" if "i < pos + length r" for i
      proof (cases "i < pos")
        case False
        then have ne: "r \<noteq> []" and i: "pos \<le> i" using that by auto
        have "r ! (i - pos) = data ! i" by (rule nth_piece[OF r i that])
        moreover have "r ! (i - pos) = fbytes cp ! i" using lr ne by (intro nth_piece[OF rb _ i that]) simp
        ultimately show ?thesis using that lr ne by (simp add: pad_nth_def)
      qed (use p(2) in simp)
      then show ?thesis using c2 p(3) m lr ok o p(1) s2 by (simp add: copy_inv_def copy_reaches_def same_copy_def)
    qed
    ultimately show ?thesis
      unfolding copy_inplace_compared_def x_def[symmetric] unfolding x Let_def prod.case using False by (simp add: copied_def)
  qed
qed

lemma copy_small_runs:
  assumes ok: "ok \<Longrightarrow> copy_no_fault st \<and> r \<noteq> [] \<and> length r \<le> 2 ^ 32"
    and r: "r = take (length r) (drop pos data)" "pos + length r \<le> length data"
  shows "runs ok (copy_small cfg r st loc)
    (\<lambda>(st', loc'). copied cfg ok data cap pos r st st' \<and> same_locals loc loc')"
proof (cases "c_copy st")
  case None
  then show ?thesis by (simp add: copy_small_def copied_def copy_inv_def copy_reaches_def)
next
  case (Some cp)
  show ?thesis
  proof (cases "modify_inplace cfg")
    case m: True
    show ?thesis
    proof (cases "c_chunk st")
      case None
      have "runs ok (copy_inplace_compared cfg r st) (\<lambda>st'. copied cfg ok data cap pos r st st')"
        by (rule copy_inplace_compared_runs[OF Some m ok r])
      then show ?thesis using Some m None by (simp add: copy_small_def) (erule runs_bind, simp)
    next
      case c: (Some x)
      obtain ob os where "x = (ob, os)" by fastforce
      then show ?thesis using copy_inplace_hashed_runs[OF Some m, of ob os ok r] ok Some m c
        by (simp add: copy_small_def)
    qed
  next
    case False
    have "runs ok (write_copy cfg r st) (\<lambda>st'. \<exists>cp'. written cp r cp' \<and> st' = st\<lparr>c_copy := Some cp'\<rparr> \<and> frame st st')"
      by (rule write_copy_runs[OF Some ok])
    then show ?thesis
      unfolding copy_small_def
    proof (simp add: Some False, elim runs_bind)
      fix st' assume "\<exists>cp'. written cp r cp' \<and> st' = st\<lparr>c_copy := Some cp'\<rparr> \<and> frame st st'"
      then obtain cp' where w: "written cp r cp'" "st' = st\<lparr>c_copy := Some cp'\<rparr>" "frame st st'" by blast
      let ?t = "st'\<lparr>copy_write_pos := copy_write_pos st' + length r\<rparr>"
      have "copy_inv cfg data cap (pos + length r) ?t \<and> copy_reaches (pos + length r) ?t"
        if o: "ok \<and> copy_mode cfg st \<and> copy_inv cfg data cap pos st"
      proof -
        have p: "copy_write_pos st = pos" "fpos cp = pos" using o Some False by (simp_all add: copy_inv_def)
        then have "written (cp\<lparr>fpos := pos\<rparr>) r cp'" using w(1) by (simp add: written_def)
        from copy_inv_written[OF _ Some this r, where cfg = cfg and cap = cap and st' = ?t] o ok show ?thesis
          using p by (simp add: w(2))
      qed
      then show "runs ok (Some (?t, loc)) (\<lambda>(st', loc'). copied cfg ok data cap pos r st st' \<and> same_locals loc loc')"
        using w by (simp add: copied_def frame_def)
    qed
  qed
qed

section \<open>Reading a chunk\<close>

definition chunk_copied :: "chunk_config \<Rightarrow> bool \<Rightarrow> byte list \<Rightarrow> nat \<Rightarrow> nat \<Rightarrow> nat \<Rightarrow> chunker \<Rightarrow> chunker \<Rightarrow> bool" where
  "chunk_copied cfg ok data cap pos n st st' \<longleftrightarrow>
     frame st st' \<and>
     (ok \<and> copy_mode cfg st \<and> copy_inv cfg data cap pos st \<longrightarrow>
        copy_inv cfg data cap (pos + n) st' \<and> (0 < n \<or> copy_reaches pos st \<longrightarrow> copy_reaches (pos + n) st'))"

lemma chunk_copied_refl: "chunk_copied cfg ok data cap pos 0 st st"
  by (simp add: chunk_copied_def)

lemma chunk_copied_trans:
  assumes "chunk_copied cfg ok data cap pos n a b" "chunk_copied cfg ok data cap (pos + n) m b c"
  shows "chunk_copied cfg ok data cap pos (n + m) a c"
  using assms frame_trans[of a b c] copy_mode_frame[of a b cfg]
  by (auto simp: chunk_copied_def add.assoc)

definition words_of :: "bool \<Rightarrow> byte list list \<Rightarrow> byte list" where
  "words_of be cs = concat (map (\<lambda>c. mem_of be 4 (adler32_of c)) cs)"

lemma length_words_of: "length (words_of be cs) = 4 * length cs"
  by (simp add: words_of_def length_concat_words)

lemma chunk_hash_words: "chunk_hash be b = md5_of b @ words_of be (chunks_of 4096 b)"
  by (simp add: chunk_hash_def words_of_def)

text \<open>The locals after the bytes \<open>cur\<close> of the chunk.\<close>

definition locals_inv :: "bool \<Rightarrow> hash_func \<Rightarrow> byte list \<Rightarrow> byte list \<Rightarrow> chunk_locals \<Rightarrow> bool" where
  "locals_inv be h sb cur loc \<longleftrightarrow>
     md5_inv (big_hash loc) cur \<and> length (small_hash loc) = 512 \<and> chunkidx loc = length (chunks_of 4096 cur) \<and>
     take (4 * chunkidx loc) (small_hash loc) = words_of be (chunks_of 4096 cur) \<and> buf_read loc = length cur \<and>
     (is_tree h \<longrightarrow> all_zeros loc = buf_is_zero cur) \<and>
     (is_plain h \<longrightarrow> length sb = c_checkpoint_dist \<and> take (length cur) sb = cur)"

lemma buf_is_zero_append [simp]: "buf_is_zero (a @ b) = (buf_is_zero a \<and> buf_is_zero b)"
  by (simp add: buf_is_zero_def)

lemma locals_inv_step:
  assumes inv: "locals_inv be h sb cur loc" and al: "length cur mod 4096 = 0" "length cur < c_checkpoint_dist"
    and r: "r \<noteq> []" "length r \<le> 4096" "length cur + length r \<le> c_checkpoint_dist" and p: "pos mod c_checkpoint_dist = length cur"
    and loc': "md5_inv (big_hash loc') (cur @ r)" "small_hash loc' = put_bytes (small_hash loc) (chunkidx loc * 4) (mem_of be 4 (adler32_of r))"
      "buf_read loc' = buf_read loc + length r" "chunkidx loc' = chunkidx loc + 1"
      "is_tree h \<longrightarrow> all_zeros loc' = (all_zeros loc \<and> buf_is_zero r)"
    and sb': "is_plain h \<longrightarrow> sb' = put_bytes sb (pos mod length sb) r"
  shows "locals_inv be h sb' (cur @ r) loc'"
proof -
  have i: "length (small_hash loc) = 512" "chunkidx loc = length (chunks_of 4096 cur)"
    "take (4 * chunkidx loc) (small_hash loc) = words_of be (chunks_of 4096 cur)"
    "is_tree h \<longrightarrow> all_zeros loc = buf_is_zero cur"
    "is_plain h \<longrightarrow> length sb = c_checkpoint_dist \<and> take (length cur) sb = cur" "buf_read loc = length cur"
    using inv unfolding locals_inv_def by blast+
  have c: "chunks_of 4096 (cur @ r) = chunks_of 4096 cur @ [r]" using al(1) r by (simp add: chunks_of_snoc)
  have k: "chunkidx loc = length cur div 4096" using i(2) al(1) by (simp add: length_chunks_exact)
  then have k128: "4 * chunkidx loc + 4 \<le> 512"
    using al(2) by (simp add: c_checkpoint_dist_def)
  have sm: "take (4 * chunkidx loc') (small_hash loc') = words_of be (chunks_of 4096 (cur @ r))"
    unfolding loc'(2,4) c using i(1,3) k128
    take_put_bytes[of "chunkidx loc * 4" "small_hash loc" "mem_of be 4 (adler32_of r)"]
    by (simp add: words_of_def mult.commute add.commute)
  have "length (small_hash loc') = 512"
    unfolding loc'(2) using i(1) k128 by (simp add: length_put_bytes mult.commute)
  moreover have "is_plain h \<longrightarrow> length sb' = c_checkpoint_dist \<and> take (length (cur @ r)) sb' = cur @ r"
  proof
    assume pl: "is_plain h"
    then have s: "length sb = c_checkpoint_dist" "take (length cur) sb = cur" "sb' = put_bytes sb (length cur) r"
      using i(5) sb' p by simp_all
    then show "length sb' = c_checkpoint_dist \<and> take (length (cur @ r)) sb' = cur @ r"
      using r(3) take_put_bytes[of "length cur" sb r] by (simp add: length_put_bytes)
  qed
  ultimately show ?thesis using loc' sm i c by (simp add: locals_inv_def)
qed

definition source_at :: "byte list \<Rightarrow> nat \<Rightarrow> File \<Rightarrow> bool" where
  "source_at data pos f \<longleftrightarrow> fbytes f = data \<and> fpos f = pos \<and> no_fault f"

lemma source_read:
  assumes "source_at data pos f"
  shows "\<exists>f'. File_Read 4096 f = (take 4096 (drop pos data), False, f') \<and>
    source_at data (pos + length (take 4096 (drop pos data))) f'"
proof -
  obtain m where m: "os_outcome f = Some m" "2 ^ 32 \<le> m" using assms no_fault_outcome by (auto simp: source_at_def)
  then have mm: "min 4096 m = 4096" by simp
  have f: "fbytes f = data" "fpos f = pos" "no_fault f" using assms by (simp_all add: source_at_def)
  let ?d = "take 4096 (drop pos data)"
  let ?g = "next_op (f\<lparr>fpos := pos + length ?d\<rparr>)"
  have "File_Read 4096 f = (?d, False, ?g)"
    by (simp only: File_Read_def m(1) option.case mm f Let_def)
  moreover have "no_fault ?g" using f(3) no_fault_eq[of ?g f] by (simp del: length_take)
  ultimately show ?thesis using f(1) by (intro exI[of _ ?g]) (simp add: source_at_def del: length_take)
qed

lemma read_small_runs:
  assumes src: "source_at data pos (c_f st)" and inv: "locals_inv (big_end cfg) (c_hash st) (sha_buf st) cur loc"
    and al: "length cur mod 4096 = 0" "length cur < c_checkpoint_dist" "pos mod c_checkpoint_dist = length cur" "pos < length data"
    and ok: "ok \<Longrightarrow> copy_no_fault st"
  defines "r \<equiv> take 4096 (drop pos data)"
  shows "runs ok (read_small cfg pos st loc) (\<lambda>(st', loc').
    source_at data (pos + length r) (c_f st') \<and> chunk_copied cfg ok data cap pos (length r) st st' \<and>
    locals_inv (big_end cfg) (c_hash st) (sha_buf st') (cur @ r) (loc'\<lparr>chunkidx := chunkidx loc' + 1\<rparr>))"
proof -
  obtain f where f: "File_Read 4096 (c_f st) = (r, False, f)" "source_at data (pos + length r) f"
    using source_read[OF src] by (auto simp: r_def)
  have r: "r \<noteq> []" "length r \<le> 4096" "pos + length r \<le> length data" "r = take (length r) (drop pos data)"
    using al(4) take_length_take[of 4096 "drop pos data"] by (simp_all add: r_def del: length_take) simp_all
  have le: "length cur + length r \<le> c_checkpoint_dist"
  proof -
    have "(4096 :: nat) dvd c_checkpoint_dist - length cur"
      using al(1) by (intro dvd_diff_nat) (simp_all add: c_checkpoint_dist_def mod_0_imp_dvd)
    then have "4096 \<le> c_checkpoint_dist - length cur" using al(2) by (intro dvd_imp_le) simp_all
    then show ?thesis using r(2) by linarith
  qed
  define loc1 where "loc1 = (if is_tree (c_hash st) \<and> \<not> buf_is_zero r then loc\<lparr>all_zeros := False\<rparr> else loc)"
  define loc2 where "loc2 = loc1\<lparr>small_hash := put_bytes (small_hash loc1) (chunkidx loc1 * 4)
    (mem_of (big_end cfg) 4 (urb_adler32 (urb_adler32 0 None) (Some r))),
    big_hash := md5_update (big_hash loc1) r, buf_read := buf_read loc1 + length r\<rparr>"
  define st2 where "st2 = (if is_plain (c_hash st)
    then (st\<lparr>c_f := f\<rparr>)\<lparr>sha_buf := put_bytes (sha_buf st) (pos mod length (sha_buf st)) r\<rparr> else st\<lparr>c_f := f\<rparr>)"
  have fr: "frame st st2" "c_f st2 = f" "c_copy st2 = c_copy st" "copy_write_pos st2 = copy_write_pos st"
    by (simp_all add: st2_def frame_def)
  have step: "read_small cfg pos st loc = copy_small cfg r st2 loc2"
    by (simp add: read_small_def c_small_hash_dist_def f(1) st2_def loc2_def loc1_def Let_def)
  have ad: "urb_adler32 (urb_adler32 0 None) (Some r) = adler32_of r"
    using adler32_update[of "[]" r] by (simp add: adler32_start)
  have "runs ok (copy_small cfg r st2 loc2) (\<lambda>(st', loc'). copied cfg ok data cap pos r st2 st' \<and> same_locals loc2 loc')"
    by (rule copy_small_runs[OF _ r(4,3)]) (use ok fr r(1,2) in \<open>auto simp: copy_no_fault_def\<close>)
  then show ?thesis unfolding step
  proof (rule runs_mono, clarify)
    fix st' loc' assume c: "copied cfg ok data cap pos r st2 st'" "same_locals loc2 loc'"
    have l1: "big_hash loc1 = big_hash loc" "chunkidx loc1 = chunkidx loc" "buf_read loc1 = buf_read loc"
      "small_hash loc1 = small_hash loc" "is_tree (c_hash st) \<longrightarrow> all_zeros loc1 = (all_zeros loc \<and> buf_is_zero r)"
      by (simp_all add: loc1_def)
    have l: "big_hash loc' = md5_update (big_hash loc) r" "chunkidx loc' = chunkidx loc" "buf_read loc' = buf_read loc + length r"
      "small_hash loc' = put_bytes (small_hash loc) (chunkidx loc * 4) (mem_of (big_end cfg) 4 (adler32_of r))"
      "is_tree (c_hash st) \<longrightarrow> all_zeros loc' = (all_zeros loc \<and> buf_is_zero r)"
      using c(2) l1 by (auto simp: same_locals_def loc2_def ad)
    have "source_at data (pos + length r) (c_f st')" using c(1) f(2) fr(2) by (simp add: copied_def)
    moreover have "chunk_copied cfg ok data cap pos (length r) st st'"
    proof -
      have ci: "copy_inv cfg data cap pos st2 = copy_inv cfg data cap pos st" by (simp add: copy_inv_def fr)
      have "frame st2 st'" using c(1) by (simp add: copied_def)
      then have "frame st st'" by (rule frame_trans[OF fr(1)])
      then show ?thesis
        using c(1) unfolding chunk_copied_def copied_def ci copy_mode_frame[OF fr(1)] by blast
    qed
    moreover have "locals_inv (big_end cfg) (c_hash st) (sha_buf st') (cur @ r) (loc'\<lparr>chunkidx := chunkidx loc' + 1\<rparr>)"
    proof (rule locals_inv_step[OF inv al(1,2) r(1,2) le al(3)])
      have "md5_inv (big_hash loc) cur" using inv by (simp add: locals_inv_def)
      then have "md5_inv (md5_update (big_hash loc) r) (cur @ r)" using r(2) by (intro md5_update_inv) simp_all
      then show "md5_inv (big_hash (loc'\<lparr>chunkidx := chunkidx loc' + 1\<rparr>)) (cur @ r)" by (simp add: l)
      show "is_plain (c_hash st) \<longrightarrow> sha_buf st' = put_bytes (sha_buf st) (pos mod length (sha_buf st)) r"
        using c(1) by (simp add: copied_def st2_def)
    qed (simp_all add: l)
    ultimately show "source_at data (pos + length r) (c_f st') \<and> chunk_copied cfg ok data cap pos (length r) st st' \<and>
      locals_inv (big_end cfg) (c_hash st) (sha_buf st') (cur @ r) (loc'\<lparr>chunkidx := chunkidx loc' + 1\<rparr>)" by blast
  qed
qed

lemma read_chunk_done: "\<not> (pos < epos \<and> pos < fsize) \<Longrightarrow> read_chunk cfg fsize epos pos st loc = Some (pos, st, loc)"
  by (subst read_chunk.simps) (simp only: if_False)

lemma read_chunk_runs:
  assumes "source_at data (p0 + length cur) (c_f st)" "locals_inv (big_end cfg) (c_hash st) (sha_buf st) cur loc"
    "length cur mod 4096 = 0" "length cur \<le> c_checkpoint_dist" "p0 mod c_checkpoint_dist = 0" "p0 + length cur \<le> length data"
    "ok \<Longrightarrow> copy_no_fault st" and todo: "todo = take (c_checkpoint_dist - length cur) (drop (p0 + length cur) data)"
  shows "runs ok (read_chunk cfg (length data) (p0 + c_checkpoint_dist) (p0 + length cur) st loc) (\<lambda>(pos', st', loc').
    source_at data (p0 + length cur + length todo) (c_f st') \<and>
    chunk_copied cfg ok data cap (p0 + length cur) (length todo) st st' \<and>
    locals_inv (big_end cfg) (c_hash st) (sha_buf st') (cur @ todo) loc' \<and>
    (if length (cur @ todo) = c_checkpoint_dist then pos' = p0 + c_checkpoint_dist else length data \<le> pos'))"
  using assms
proof (induction "c_checkpoint_dist - length cur" arbitrary: cur st loc todo rule: less_induct)
  case less
  let ?pos = "p0 + length cur"
  show ?case
  proof (cases "?pos < p0 + c_checkpoint_dist \<and> ?pos < length data")
    case False
    then have "todo = []" using less.prems(8) by auto
    moreover have "length cur = c_checkpoint_dist \<or> length data \<le> ?pos" using False less.prems(4) by auto
    ultimately show ?thesis using less.prems(1-4) by (auto simp: read_chunk_done[OF False] chunk_copied_refl)
  next
    case True
    define r where "r = take 4096 (drop ?pos data)"
    have lc: "length cur < c_checkpoint_dist" "?pos < length data" using True by simp_all
    have pm: "?pos mod c_checkpoint_dist = length cur"
      using less.prems(5) lc(1) by (metis add.left_neutral mod_add_left_eq mod_less)
    have rne: "r \<noteq> []" "length r \<le> 4096" using lc(2) by (simp_all add: r_def)
    have d4: "4096 \<le> c_checkpoint_dist - length cur"
    proof -
      have "(4096 :: nat) dvd c_checkpoint_dist - length cur"
        using less.prems(3) by (intro dvd_diff_nat) (simp_all add: c_checkpoint_dist_def mod_0_imp_dvd)
      then show ?thesis using lc(1) by (intro dvd_imp_le) simp_all
    qed
    show ?thesis
      unfolding read_chunk.simps[of cfg "length data" "p0 + c_checkpoint_dist" ?pos st loc] if_P[OF True]
    proof (rule runs_bind)
      show "runs ok (read_small cfg ?pos st loc) (\<lambda>(st', loc').
        source_at data (?pos + length r) (c_f st') \<and> chunk_copied cfg ok data cap ?pos (length r) st st' \<and>
        locals_inv (big_end cfg) (c_hash st) (sha_buf st') (cur @ r) (loc'\<lparr>chunkidx := chunkidx loc' + 1\<rparr>))"
        unfolding r_def by (rule read_small_runs[OF less.prems(1,2,3) lc(1) pm lc(2) less.prems(7)])
    next
      fix y assume y: "case y of (st', loc') \<Rightarrow>
        source_at data (?pos + length r) (c_f st') \<and> chunk_copied cfg ok data cap ?pos (length r) st st' \<and>
        locals_inv (big_end cfg) (c_hash st) (sha_buf st') (cur @ r) (loc'\<lparr>chunkidx := chunkidx loc' + 1\<rparr>)"
      obtain st1 loc1 where y1: "y = (st1, loc1)" by fastforce
      have 1: "source_at data (?pos + length r) (c_f st1)" "chunk_copied cfg ok data cap ?pos (length r) st st1"
        "locals_inv (big_end cfg) (c_hash st) (sha_buf st1) (cur @ r) (loc1\<lparr>chunkidx := chunkidx loc1 + 1\<rparr>)"
        using y y1 by simp_all
      have fr: "frame st st1" using 1(2) by (simp add: chunk_copied_def)
      then have h: "c_hash st1 = c_hash st" by (simp add: frame_def)
      have nf: "ok \<Longrightarrow> copy_no_fault st1" using less.prems(7) copy_no_fault_frame[OF fr] by blast
      have "runs ok (read_chunk cfg (length data) (p0 + c_checkpoint_dist) (?pos + c_small_hash_dist) st1 (loc1\<lparr>chunkidx := chunkidx loc1 + 1\<rparr>))
        (\<lambda>(pos', st', loc'). source_at data (?pos + length todo) (c_f st') \<and>
          chunk_copied cfg ok data cap ?pos (length todo) st st' \<and>
          locals_inv (big_end cfg) (c_hash st) (sha_buf st') (cur @ todo) loc' \<and>
          (if length (cur @ todo) = c_checkpoint_dist then pos' = p0 + c_checkpoint_dist else length data \<le> pos'))"
      proof (cases "length r = 4096")
        case True
        let ?cur = "cur @ r"
        define todo' where "todo' = take (c_checkpoint_dist - length ?cur) (drop (p0 + length ?cur) data)"
        have todo: "todo = r @ todo'"
        proof -
          have "c_checkpoint_dist - length cur = 4096 + (c_checkpoint_dist - length ?cur)" using True d4 by simp
          moreover have "p0 + length ?cur = 4096 + ?pos" using True by simp
          ultimately show ?thesis unfolding less.prems(8) todo'_def r_def by (simp only: take_add drop_drop)
        qed
        have p: "?pos + c_small_hash_dist = p0 + length ?cur" using True by (simp add: c_small_hash_dist_def)
        have "c_checkpoint_dist - length ?cur < c_checkpoint_dist - length cur" using True d4 by simp
        from less.hyps[OF this _ _ _ _ less.prems(5) _ nf todo'_def, of "loc1\<lparr>chunkidx := chunkidx loc1 + 1\<rparr>"]
        have "runs ok (read_chunk cfg (length data) (p0 + c_checkpoint_dist) (p0 + length ?cur) st1 (loc1\<lparr>chunkidx := chunkidx loc1 + 1\<rparr>))
          (\<lambda>(pos', st', loc'). source_at data (p0 + length ?cur + length todo') (c_f st') \<and>
            chunk_copied cfg ok data cap (p0 + length ?cur) (length todo') st1 st' \<and>
            locals_inv (big_end cfg) (c_hash st1) (sha_buf st') (?cur @ todo') loc' \<and>
            (if length (?cur @ todo') = c_checkpoint_dist then pos' = p0 + c_checkpoint_dist else length data \<le> pos'))"
          using 1 True d4 less.prems(3) lc(2) h piece_fits[of r ?pos data] rne
          by (simp add: add.assoc r_def)
        then show ?thesis
          unfolding p
        proof (rule runs_mono, clarify)
          fix a s l assume a: "source_at data (p0 + length ?cur + length todo') (c_f s)"
            "chunk_copied cfg ok data cap (p0 + length ?cur) (length todo') st1 s"
            "locals_inv (big_end cfg) (c_hash st1) (sha_buf s) (?cur @ todo') l"
            "if length (?cur @ todo') = c_checkpoint_dist then a = p0 + c_checkpoint_dist else length data \<le> a"
          have "chunk_copied cfg ok data cap ?pos (length todo) st s"
            using chunk_copied_trans[OF 1(2), of "length todo'" s] a(2) by (simp add: todo add.assoc)
          then show "source_at data (?pos + length todo) (c_f s) \<and> chunk_copied cfg ok data cap ?pos (length todo) st s \<and>
            locals_inv (big_end cfg) (c_hash st) (sha_buf s) (cur @ todo) l \<and>
            (if length (cur @ todo) = c_checkpoint_dist then a = p0 + c_checkpoint_dist else length data \<le> a)"
            using a h by (simp add: todo add.assoc)
        qed
      next
        case False
        then have lr: "length r < 4096" "?pos + length r = length data" using rne(2) lc(2) by (auto simp: r_def min_def split: if_splits)
        then have todo: "todo = r" unfolding less.prems(8) r_def using d4 by simp
        have nd: "\<not> (?pos + c_small_hash_dist < p0 + c_checkpoint_dist \<and> ?pos + c_small_hash_dist < length data)"
          using lr by (simp add: c_small_hash_dist_def)
        have "length cur + length r \<noteq> c_checkpoint_dist" using lr d4 by linarith
        then show ?thesis using 1 lr unfolding todo read_chunk_done[OF nd] by (simp add: c_small_hash_dist_def)
      qed
      then show "runs ok (case y of (st, loc) \<Rightarrow>
        read_chunk cfg (length data) (p0 + c_checkpoint_dist) (?pos + c_small_hash_dist) st (loc\<lparr>chunkidx := chunkidx loc + 1\<rparr>))
        (\<lambda>(pos', st', loc'). source_at data (?pos + length todo) (c_f st') \<and>
          chunk_copied cfg ok data cap ?pos (length todo) st st' \<and>
          locals_inv (big_end cfg) (c_hash st) (sha_buf st') (cur @ todo) loc' \<and>
          (if length (cur @ todo) = c_checkpoint_dist then pos' = p0 + c_checkpoint_dist else length data \<le> pos'))"
        unfolding y1 prod.case .
    qed
  qed
qed

end
