(* ===== verification/Chunk_Run.thy ===== *)
theory Chunk_Run
  imports Chunk_Copy
begin

text \<open>
  The chunks of a file: what the hash object is told (\<open>scan_chunk\<close>), a chunk with data, a chunk inside a hole,
  and the invariant of the loop over the chunks.
\<close>

section \<open>The calls that the hash object gets for a file\<close>

definition hole_calls :: "bool \<Rightarrow> nat \<Rightarrow> nat option \<Rightarrow> tree_call list" where
  "hole_calls be pos start = (case start of None \<Rightarrow> [] | Some s \<Rightarrow> [Hole (hole_note be s (pos - s))])"

text \<open>Chunks of zeros extend the current hole; any other chunk ends it and is hashed.\<close>

fun scan_chunk :: "bool \<Rightarrow> nat \<times> nat option \<times> tree_call list \<Rightarrow> byte list \<Rightarrow> nat \<times> nat option \<times> tree_call list" where
  "scan_chunk be (pos, start, calls) c =
     (if length c = c_checkpoint_dist \<and> buf_is_zero c
      then (pos + c_checkpoint_dist, Some (case start of None \<Rightarrow> pos | Some s \<Rightarrow> s), calls)
      else (pos + length c, None, calls @ hole_calls be pos start @ [Block c]))"

definition file_calls :: "bool \<Rightarrow> byte list \<Rightarrow> tree_call list" where
  "file_calls be data =
     (let (pos, start, calls) = foldl (scan_chunk be) (0, None, []) (chunks_of c_checkpoint_dist data)
      in calls @ hole_calls be pos start)"

lemma run_calls_append: "run_calls be (xs @ ys) t = Option.bind (run_calls be xs t) (run_calls be ys)"
proof (induction xs arbitrary: t)
  case (Cons a xs)
  then show ?case by (cases "run_call be a t") simp_all
qed simp

lemma content_append [simp]: "content (xs @ ys) = content xs @ content ys"
proof (induction xs)
  case (Cons c xs) then show ?case by (cases c) simp_all
qed simp

lemma hole_bytes_append: "hole_bytes (xs @ ys) = add_holes (hole_bytes xs) (hole_bytes ys)"
proof (induction xs)
  case Nil then show ?case by (cases "hole_bytes ys") simp_all
next
  case (Cons c xs)
  then show ?case by (cases c; cases "hole_bytes ys"; cases "hole_bytes xs") simp_all
qed

definition hash_start :: "hash_func \<Rightarrow> bool" where
  "hash_start h = (case h of No_Hash \<Rightarrow> True | Tree t \<Rightarrow> tree_rep t [] [] None
     | Plain p \<Rightarrow> sha_inv (sha_ctx p) [] \<and> sha_inv (sha_sparse_ctx p) [] \<and> \<not> sha_has_sparse p)"

text \<open>\<open>h\<close> is \<open>h0\<close> after the calls, between two chunks.\<close>

definition hash_view :: "bool \<Rightarrow> hash_func \<Rightarrow> hash_func \<Rightarrow> tree_call list \<Rightarrow> bool" where
  "hash_view be h0 h calls =
     (case h of
        No_Hash \<Rightarrow> h0 = No_Hash
      | Tree t \<Rightarrow> (\<exists>t0 ls sp. h0 = Tree t0 \<and> run_calls be calls t0 = Some t \<and> tree_rep t ls [] sp)
      | Plain p \<Rightarrow> is_plain h0 \<and> sha_inv (sha_ctx p) (content calls) \<and> sha_has_sparse p = (hole_bytes calls \<noteq> None) \<and>
          sha_inv (sha_sparse_ctx p) (case hole_bytes calls of None \<Rightarrow> [] | Some s \<Rightarrow> s))"

lemma hash_view_start: "hash_start h \<Longrightarrow> hash_view be h h []"
  by (auto simp: hash_start_def hash_view_def is_plain_def split: hash_func.splits)

lemma hash_view_No: "hash_view be h0 h calls \<Longrightarrow> (h = No_Hash) = (h0 = No_Hash)"
  by (cases h) (auto simp: hash_view_def is_plain_def)

lemma hash_view_hole:
  assumes "hash_view be h0 h calls" "h \<noteq> No_Hash"
  shows "\<exists>h'. hashf_sparse_hash be p h = Some h' \<and> hash_view be h0 h' (calls @ [Hole p]) \<and> is_tree h' = is_tree h \<and> is_plain h' = is_plain h \<and> h' \<noteq> No_Hash"
proof (cases h)
  case (Tree t)
  then obtain t0 ls sp where t: "h0 = Tree t0" "run_calls be calls t0 = Some t" "tree_rep t ls [] sp"
    using assms(1) by (auto simp: hash_view_def)
  obtain t' where "tree_sparse_hash be p t = Some t'" "tree_rep t' ls [] (Some ((case sp of None \<Rightarrow> [] | Some s \<Rightarrow> s) @ p))"
    using tree_sparse_hash_rep[OF t(3)] by blast
  then show ?thesis using t by (simp add: Tree hash_view_def run_calls_append is_tree_def is_plain_def) blast
next
  case (Plain x)
  have empty: "sha_inv c [] \<Longrightarrow> sha_inv (SHA512_Update be c p) p" for c
    using SHA512_Update_inv[of c "[]" be p] by simp
  show ?thesis using assms(1) empty
    by (cases "hole_bytes calls")
      (simp_all add: Plain hash_view_def hole_bytes_append sha512_sparse_hash_def SHA512_Update_inv is_tree_def is_plain_def)
qed (use assms in simp)

lemma input_adler_take: "i < m \<Longrightarrow> input_adler be (take (16 + 4 * m) h) i = input_adler be h i"
  by (simp add: input_adler_def drop_take min_def)

lemma allAdler_take:
  "allAdlerTo64byteHash be (take (16 + 4 * m) h) (16 + 4 * m) k = allAdlerTo64byteHash be h (16 + 4 * m) k"
proof -
  have m: "(16 + 4 * m - 16) div 4 = m" by simp
  have "fold (combine_column be (take (16 + 4 * m) h) m k) [12..<m] xs = fold (combine_column be h m k) [12..<m] xs" for xs
    by (rule fold_cong) (simp_all add: combine_column_def input_adler_take fun_eq_iff)
  moreover have "map (\<lambda>i. if m \<le> i then urb_adler32 0 None else input_adler be (take (16 + 4 * m) h) i) [0..<12] =
    map (\<lambda>i. if m \<le> i then urb_adler32 0 None else input_adler be h i) [0..<12]"
    by (simp add: input_adler_take)
  moreover have "take 16 (take (16 + 4 * m) h) = take 16 h" by (simp add: min_def)
  ultimately show ?thesis unfolding allAdlerTo64byteHash_def m Let_def by (simp only:)
qed

lemma addHashAllAdler_prefix:
  assumes "tree_rep t ls [] sp" "take (16 + 4 * m) h = chunk_hash be block" "m = length (chunks_of 4096 block)"
  shows "addHashAllAdler be h (16 + 4 * m) (length block) t = run_call be (Block block) t"
  using allAdler_take[of be m h "length block"] assms(2,3) by (simp add: addHashAllAdler_def length_chunk_hash)

lemma buf_is_zero_take: "take n xs = ys \<Longrightarrow> length xs = n \<Longrightarrow> buf_is_zero xs = buf_is_zero ys"
  by simp

lemma hash_chunk_scan:
  assumes view: "hash_view be h0 (c_hash st) calls"
    and start: "sparse_extent_start st = (if c_hash st = No_Hash then None else start)"
    and loc: "locals_inv be (c_hash st) (sha_buf st) block loc"
    and b: "block \<noteq> []" "length block \<le> c_checkpoint_dist" "p0 mod c_checkpoint_dist = 0"
    and cfg: "big_end cfg = be"
    and scan_file: "scan_chunk be (p0, start, calls) block = (p', start', calls')"
  shows "\<exists>h'. hash_chunk cfg p0 (md5_of block @ small_hash loc) st loc =
      Some (st\<lparr>c_hash := h', sparse_extent_start := if h' = No_Hash then None else start'\<rparr>) \<and> hash_view be h0 h' calls'"
proof -
  have e: "p0 div c_checkpoint_dist * c_checkpoint_dist = p0" using b(3) by (simp add: minus_mod_eq_div_mult[symmetric])
  have l: "buf_read loc = length block" "chunkidx loc = length (chunks_of 4096 block)"
    "take (4 * chunkidx loc) (small_hash loc) = words_of be (chunks_of 4096 block)"
    "is_tree (c_hash st) \<longrightarrow> all_zeros loc = buf_is_zero block"
    "is_plain (c_hash st) \<longrightarrow> length (sha_buf st) = c_checkpoint_dist \<and> take (length block) (sha_buf st) = block"
    using loc unfolding locals_inv_def by blast+
  show ?thesis
  proof (cases "c_hash st = No_Hash")
    case True
    then have "h0 = No_Hash" using view by (simp add: hash_view_def)
    moreover have "st = st\<lparr>c_hash := No_Hash, sparse_extent_start := None\<rparr>" using True start by simp
    ultimately show ?thesis using True by (intro exI[of _ No_Hash]) (simp add: hash_chunk_def hash_view_def)
  next
    case no: False
    then have s: "sparse_extent_start st = start" using start by simp
    have zero: "(is_tree (c_hash st) \<and> all_zeros loc \<or> is_plain (c_hash st) \<and> buf_is_zero (sha_buf st)) = buf_is_zero block"
      if "length block = c_checkpoint_dist"
      using that no l(4,5) by (cases "c_hash st") (auto simp: is_tree_def is_plain_def)
    show ?thesis
    proof (cases "length block = c_checkpoint_dist \<and> buf_is_zero block")
      case True
      then have "start' = Some (case start of None \<Rightarrow> p0 | Some s \<Rightarrow> s)" "calls' = calls" using scan_file by auto
      moreover have "hash_chunk cfg p0 (md5_of block @ small_hash loc) st loc =
        Some (if sparse_extent_start st = None then st\<lparr>sparse_extent_start := Some p0\<rparr> else st)"
        using True zero no by (cases "c_hash st") (simp_all add: hash_chunk_def l(1) e Let_def)
      ultimately show ?thesis using no s view
        by (intro exI[of _ "c_hash st"]) (cases start; simp)
    next
      case False
      then have sc: "start' = None" "calls' = (calls @ hole_calls be p0 start) @ [Block block]" using scan_file by auto
      have "\<exists>h1. flush_hole cfg p0 st = Some (st\<lparr>c_hash := h1, sparse_extent_start := None\<rparr>) \<and>
        hash_view be h0 h1 (calls @ hole_calls be p0 start) \<and> is_tree h1 = is_tree (c_hash st) \<and> is_plain h1 = is_plain (c_hash st) \<and> h1 \<noteq> No_Hash"
      proof (cases start)
        case None
        then have "st = st\<lparr>c_hash := c_hash st, sparse_extent_start := None\<rparr>" using s by simp
        then show ?thesis using None s view no by (intro exI[of _ "c_hash st"]) (simp add: flush_hole_def hole_calls_def)
      next
        case (Some s0)
        then show ?thesis using s hash_view_hole[OF view no, of "hole_note be s0 (p0 - s0)"] cfg
          by (auto simp: flush_hole_def hole_calls_def)
      qed
      then obtain h1 where f: "flush_hole cfg p0 st = Some (st\<lparr>c_hash := h1, sparse_extent_start := None\<rparr>)"
        "hash_view be h0 h1 (calls @ hole_calls be p0 start)" "is_tree h1 = is_tree (c_hash st)" "is_plain h1 = is_plain (c_hash st)"
        "h1 \<noteq> No_Hash" by blast
      have pre: "take (16 + 4 * chunkidx loc) (md5_of block @ small_hash loc) = chunk_hash be block"
        using l(3) by (simp add: chunk_hash_words length_md5_of)
      have "\<exists>h'. hash_chunk cfg p0 (md5_of block @ small_hash loc) st loc =
          Some (st\<lparr>c_hash := h', sparse_extent_start := None\<rparr>) \<and> hash_view be h0 h' ((calls @ hole_calls be p0 start) @ [Block block])"
      proof (cases h1)
        case (Tree t)
        then obtain t0 ls sp where t: "h0 = Tree t0" "run_calls be (calls @ hole_calls be p0 start) t0 = Some t" "tree_rep t ls [] sp"
          using f(2) by (auto simp: hash_view_def)
        obtain t' where t': "run_call be (Block block) t = Some t'" "tree_rep t' (ls @ [leaf_of block]) [] sp"
          using addHashAllAdler_rep[OF t(3), of be block] by auto
        have a: "addHashAllAdler be (md5_of block @ small_hash loc) (16 + 4 * chunkidx loc) (length block) t = Some t'"
          using addHashAllAdler_prefix[OF t(3) pre l(2)] t'(1) by simp
        have 528: "length block = c_checkpoint_dist \<Longrightarrow> 16 + 4 * chunkidx loc = 528"
          by (simp add: l(2) length_chunks_exact c_checkpoint_dist_def)
        have "hash_chunk cfg p0 (md5_of block @ small_hash loc) st loc = Some (st\<lparr>c_hash := Tree t', sparse_extent_start := None\<rparr>)"
        proof (cases "length block = c_checkpoint_dist")
          case full: True
          then have nz: "\<not> (is_tree (c_hash st) \<and> all_zeros loc \<or> is_plain (c_hash st) \<and> buf_is_zero (sha_buf st))"
            using False zero by simp
          have "hash_chunk cfg p0 (md5_of block @ small_hash loc) st loc = (flush_hole cfg p0 st \<bind> (\<lambda>st. case c_hash st of
              Tree t \<Rightarrow> do { t \<leftarrow> addHashAllAdler (big_end cfg) (md5_of block @ small_hash loc) 528 c_checkpoint_dist t; Some (st\<lparr>c_hash := Tree t\<rparr>) }
            | g \<Rightarrow> do { g \<leftarrow> hashf_hash (big_end cfg) (sha_buf st) g; Some (st\<lparr>c_hash := g\<rparr>) }))"
            using no full nz by (cases "c_hash st") (simp_all add: hash_chunk_def l(1) e Let_def is_tree_def is_plain_def)
          then show ?thesis using f(1) Tree a 528[OF full] full cfg by simp
        next
          case part: False
          have "hash_chunk cfg p0 (md5_of block @ small_hash loc) st loc = (flush_hole cfg p0 st \<bind> (\<lambda>st. case c_hash st of
              Tree t \<Rightarrow> do { t \<leftarrow> addHashAllAdler (big_end cfg) (md5_of block @ small_hash loc) (16 + chunkidx loc * 4) (buf_read loc) t;
                Some (st\<lparr>c_hash := Tree t\<rparr>) }
            | g \<Rightarrow> do { g \<leftarrow> hashf_hash (big_end cfg) (take (buf_read loc) (sha_buf st)) g; Some (st\<lparr>c_hash := g\<rparr>) }))"
            using no part by (cases "c_hash st") (simp_all add: hash_chunk_def l(1) e Let_def)
          then show ?thesis using f(1) Tree a cfg l(1) by (simp add: mult.commute)
        qed
        moreover have "hash_view be h0 (Tree t') ((calls @ hole_calls be p0 start) @ [Block block])"
          using t t' by (auto simp: hash_view_def run_calls_append[of be "calls @ hole_calls be p0 start" "[Block block]"] simp del: append_assoc)
        ultimately show ?thesis by blast
      next
        case (Plain x)
        then have pl: "is_plain (c_hash st)" using f(4) by (simp add: is_plain_def)
        let ?x = "sha512_hash be block x"
        have "hash_chunk cfg p0 (md5_of block @ small_hash loc) st loc = Some (st\<lparr>c_hash := Plain ?x, sparse_extent_start := None\<rparr>)"
        proof (cases "length block = c_checkpoint_dist")
          case full: True
          then have nz: "\<not> (is_tree (c_hash st) \<and> all_zeros loc \<or> is_plain (c_hash st) \<and> buf_is_zero (sha_buf st))"
            using False zero by simp
          have sb: "sha_buf st = block" using l(5) pl full take_all[of "sha_buf st" c_checkpoint_dist] by simp
          have "hash_chunk cfg p0 (md5_of block @ small_hash loc) st loc = (flush_hole cfg p0 st \<bind> (\<lambda>st. case c_hash st of
              Tree t \<Rightarrow> do { t \<leftarrow> addHashAllAdler (big_end cfg) (md5_of block @ small_hash loc) 528 c_checkpoint_dist t; Some (st\<lparr>c_hash := Tree t\<rparr>) }
            | g \<Rightarrow> do { g \<leftarrow> hashf_hash (big_end cfg) (sha_buf st) g; Some (st\<lparr>c_hash := g\<rparr>) }))"
            using no full nz by (cases "c_hash st") (simp_all add: hash_chunk_def l(1) e Let_def is_tree_def is_plain_def)
          then show ?thesis using f(1) Plain sb cfg by simp
        next
          case part: False
          have sb: "take (buf_read loc) (sha_buf st) = block" using l(1,5) pl by simp
          have "hash_chunk cfg p0 (md5_of block @ small_hash loc) st loc = (flush_hole cfg p0 st \<bind> (\<lambda>st. case c_hash st of
              Tree t \<Rightarrow> do { t \<leftarrow> addHashAllAdler (big_end cfg) (md5_of block @ small_hash loc) (16 + chunkidx loc * 4) (buf_read loc) t;
                Some (st\<lparr>c_hash := Tree t\<rparr>) }
            | g \<Rightarrow> do { g \<leftarrow> hashf_hash (big_end cfg) (take (buf_read loc) (sha_buf st)) g; Some (st\<lparr>c_hash := g\<rparr>) }))"
            using no part by (cases "c_hash st") (simp_all add: hash_chunk_def l(1) e Let_def)
          then show ?thesis using f(1) Plain sb cfg by simp
        qed
        moreover have "hash_view be h0 (Plain ?x) ((calls @ hole_calls be p0 start) @ [Block block])"
          using f(2) SHA512_Update_inv[of "sha_ctx x" "content calls @ content (hole_calls be p0 start)" be block]
          unfolding Plain hash_view_def by (simp add: sha512_hash_def hole_bytes_append)
        ultimately show ?thesis by blast
      qed (use f(5) in simp)
      then show ?thesis unfolding sc by (auto intro: exI)
    qed
  qed
qed

section \<open>A chunk with data\<close>

definition chunk_out :: "bool \<Rightarrow> byte list \<Rightarrow> byte list" where
  "chunk_out be b =
     (let n = length (chunks_of 4096 b); w = words_of be (chunks_of 4096 b)
      in md5_of b @ map (char_little_endian be) (take n w) @ drop n w)"

lemma char_little_endian_False: "char_little_endian False b = b"
  by (simp add: char_little_endian_def little_endian32_def is_big_endian_host bit_eq_iff bit_simps)

lemma map_char_False: "map (char_little_endian False) bs = bs"
  by (rule map_idI) (rule char_little_endian_False)

lemma chunk_out_False: "chunk_out False b = chunk_hash False b"
  by (simp add: chunk_out_def chunk_hash_words map_char_False Let_def)

lemma length_chunk_out: "length (chunk_out be b) = 16 + 4 * length (chunks_of 4096 b)"
  by (simp add: chunk_out_def Let_def length_md5_of length_words_of)

lemma finalize_total: "\<exists>d. raw_digest_int (md5_finalize m) = Some d"
  by (simp add: md5_finalize_def raw_digest_int_def Let_def split: prod.split)

text \<open>The output has the bytes \<open>d\<close>, from the position \<open>o0\<close>.\<close>

definition out_at :: "byte list \<Rightarrow> nat \<Rightarrow> byte list \<Rightarrow> chunker \<Rightarrow> bool" where
  "out_at out0 o0 d st \<longleftrightarrow> fbytes (c_out st) = overwrite out0 o0 d \<and> fpos (c_out st) = o0 + length d"

lemma write_out_runs:
  assumes "out_at out0 o0 d st" "ok \<Longrightarrow> no_fault (c_out st) \<and> buf \<noteq> [] \<and> length buf \<le> 2 ^ 32"
  shows "runs ok (write_out cfg buf st) (\<lambda>st'. \<exists>f. st' = st\<lparr>c_out := f\<rparr> \<and> out_at out0 o0 (d @ buf) st' \<and> faults f = faults (c_out st))"
proof -
  have "runs ok (writeRepeatFreeSpace (space_cb cfg) (c_out st) buf) (written (c_out st) buf)"
    by (rule writeRepeatFreeSpace_runs) (use assms(2) in simp)
  then show ?thesis
    unfolding write_out_def
    by (rule runs_bind) (use assms(1) in \<open>auto simp: written_def out_at_def overwrite_overwrite\<close>)
qed

text \<open>What both kinds of chunks do to the output and the hash object; \<open>cur\<close> is the part of the file done.\<close>

definition scan_file :: "bool \<Rightarrow> byte list \<Rightarrow> nat \<times> nat option \<times> tree_call list" where
  "scan_file be data = foldl (scan_chunk be) (0, None, []) (chunks_of c_checkpoint_dist data)"

lemma scan_Nil: "scan_file be [] = (0, None, [])"
  by (simp add: scan_file_def)

lemma scan_snoc:
  "length a mod c_checkpoint_dist = 0 \<Longrightarrow> b \<noteq> [] \<Longrightarrow> length b \<le> c_checkpoint_dist \<Longrightarrow> scan_file be (a @ b) = scan_chunk be (scan_file be a) b"
  by (simp add: scan_file_def chunks_of_snoc)

lemma scan_chunk_parts:
  "fst (scan_chunk be s c) = fst s + length c"
  "fst (snd (scan_chunk be s c)) \<noteq> None \<Longrightarrow> length c = c_checkpoint_dist"
  by (cases s; simp split: if_splits)+

lemma fst_foldl_scan: "fst (foldl (scan_chunk be) s cs) = fst s + length (concat cs)"
  by (induction cs arbitrary: s) (simp_all add: scan_chunk_parts del: scan_chunk.simps)

lemma fst_scan: "fst (scan_file be data) = length data"
  by (simp add: scan_file_def fst_foldl_scan concat_chunks_of c_checkpoint_dist_def)

definition hash_at :: "bool \<Rightarrow> hash_func \<Rightarrow> byte list \<Rightarrow> chunker \<Rightarrow> bool" where
  "hash_at be h0 cur st \<longleftrightarrow>
     (\<exists>start calls. scan_file be cur = (length cur, start, calls) \<and> hash_view be h0 (c_hash st) calls \<and>
        sparse_extent_start st = (if c_hash st = No_Hash then None else start)) \<and>
     (is_plain h0 \<longrightarrow> length (sha_buf st) = c_checkpoint_dist)"

lemma hash_view_kind: "hash_view be h0 h calls \<Longrightarrow> is_plain h = is_plain h0 \<and> is_tree h = is_tree h0"
  by (cases h; cases h0) (auto simp: hash_view_def is_plain_def is_tree_def)

lemma md5_start: "length (buffer m) = 64 \<Longrightarrow> md5_inv (md5_init m) []"
  by (rule md5_init_inv)

lemma source_seek:
  assumes "source_at data p0 f"
  shows "\<exists>g. File_Seek (int p) f = (True, g) \<and> source_at data p g"
proof -
  have nf: "no_fault f" "fbytes f = data" using assms by (simp_all add: source_at_def)
  let ?g = "next_op (f\<lparr>fpos := p\<rparr>)"
  have "source_at data p ?g" using nf no_fault_eq[of ?g f] by (simp add: source_at_def)
  then show ?thesis using File_Seek_ok[OF nf(1), of "int p"] by simp
qed

text \<open>What recopying changes: the source position, the copy and two counters.\<close>

lemma recopy_chunk_runs:
  assumes "source_at data pos (c_f st)" "pos \<le> length data" "c_copy st \<noteq> None" "ok \<Longrightarrow> copy_no_fault st"
    "pos mod 4096 = 0" "epos mod 4096 = 0"
  shows "runs ok (recopy_chunk cfg (length data) epos pos st) (\<lambda>(pos', st').
    frame st st' \<and> sha_buf st' = sha_buf st \<and> c_copy st' \<noteq> None \<and>
    (pos \<le> epos \<longrightarrow> (if epos \<le> length data then pos' = epos \<and> source_at data epos (c_f st') else length data \<le> pos')))"
  using assms
proof (induction "epos - pos" arbitrary: pos st rule: less_induct)
  case less
  show ?case
  proof (cases "pos < epos \<and> pos < length data")
    case False
    then show ?thesis using less.prems by (subst recopy_chunk.simps) auto
  next
    case True
    define r where "r = take 4096 (drop pos data)"
    obtain f where f: "File_Read 4096 (c_f st) = (r, False, f)" "source_at data (pos + length r) f"
      using source_read[OF less.prems(1)] by (auto simp: r_def)
    have r: "r \<noteq> []" "length r \<le> 4096" "pos + length r \<le> length data" using True by (auto simp: r_def)
    define s where "s = seek_copy (copy_write_pos (st\<lparr>c_f := f\<rparr>)) (st\<lparr>c_f := f\<rparr>)"
    have s_alt: "seek_copy (copy_write_pos st) (st\<lparr>c_f := f\<rparr>) = s" by (simp add: s_def)
    have s: "frame st s" "c_f s = f" "sha_buf s = sha_buf st"
    proof -
      show "frame st s" unfolding s_def by (rule frame_trans[OF _ seek_copy_frame]) (simp add: frame_def)
    qed (simp_all add: s_def other_fields)
    obtain cp where cp: "c_copy s = Some cp"
      using less.prems(3) by (auto simp: s_def seek_copy_def)
    have w: "runs ok (write_copy cfg r s) (\<lambda>st'. \<exists>cp'. written cp r cp' \<and> st' = s\<lparr>c_copy := Some cp'\<rparr> \<and> frame s st')"
      by (rule write_copy_runs[OF cp]) (use less.prems(4) r copy_no_fault_frame[OF s(1)] in auto)
    show ?thesis
      unfolding recopy_chunk.simps[of cfg "length data" epos pos st] if_P[OF True] c_small_hash_dist_def f(1) Let_def prod.case s_alt
    proof (rule runs_bind[OF w])
      fix s1 assume "\<exists>cp'. written cp r cp' \<and> s1 = s\<lparr>c_copy := Some cp'\<rparr> \<and> frame s s1"
      then obtain cp' where s1: "s1 = s\<lparr>c_copy := Some cp'\<rparr>" "frame s s1" by blast
      define t where "t = s1\<lparr>inplace_written := inplace_written s1 + length r, copy_write_pos := copy_write_pos s1 + length r\<rparr>"
      have t: "frame st t" "c_f t = f" "sha_buf t = sha_buf st" "c_copy t \<noteq> None"
        using frame_trans[OF s(1) s1(2)] s by (simp_all add: t_def s1(1) frame_def)
      have nf: "ok \<Longrightarrow> copy_no_fault t" using less.prems(4) copy_no_fault_frame[OF t(1)] by blast
      have "runs ok (recopy_chunk cfg (length data) epos (pos + 4096) t) (\<lambda>(pos', st').
        frame st st' \<and> sha_buf st' = sha_buf st \<and> c_copy st' \<noteq> None \<and>
        (pos \<le> epos \<longrightarrow> (if epos \<le> length data then pos' = epos \<and> source_at data epos (c_f st') else length data \<le> pos')))"
      proof (cases "length r = 4096")
        case lr: True
        have src: "source_at data (pos + 4096) (c_f t)" using f(2) t(2) lr by simp
        have "(4096 :: nat) dvd epos - pos"
          using less.prems(5,6) by (intro dvd_diff_nat) (simp_all add: mod_0_imp_dvd)
        then have e: "pos + 4096 \<le> epos" using True dvd_imp_le[of 4096 "epos - pos"] by linarith
        have m: "(pos + 4096) mod 4096 = 0" using less.prems(5) by simp
        have "runs ok (recopy_chunk cfg (length data) epos (pos + 4096) t) (\<lambda>(pos', st').
          frame t st' \<and> sha_buf st' = sha_buf t \<and> c_copy st' \<noteq> None \<and>
          (pos + 4096 \<le> epos \<longrightarrow> (if epos \<le> length data then pos' = epos \<and> source_at data epos (c_f st') else length data \<le> pos')))"
          by (rule less.hyps[OF _ src _ t(4) nf m less.prems(6)]) (use r(3) lr True in auto)
        then show ?thesis
          by (rule runs_mono) (use frame_trans[OF t(1)] t(3) e in auto)
      next
        case False
        then have "pos + length r = length data" "length r < 4096" using r(2) True by (auto simp: r_def)
        moreover have "epos \<le> length data \<longrightarrow> False"
        proof
          assume "epos \<le> length data"
          moreover have "(4096 :: nat) dvd epos - pos"
            using less.prems(5,6) by (intro dvd_diff_nat) (simp_all add: mod_0_imp_dvd)
          then have "4096 \<le> epos - pos" using True by (intro dvd_imp_le) simp_all
          ultimately show False using \<open>pos + length r = length data\<close> \<open>length r < 4096\<close> by linarith
        qed
        ultimately show ?thesis using t by (subst recopy_chunk.simps) auto
      qed
      then show "runs ok (recopy_chunk cfg (length data) epos (pos + 4096)
          (s1\<lparr>inplace_written := inplace_written s1 + length r, copy_write_pos := copy_write_pos s1 + length r\<rparr>)) (\<lambda>(pos', st').
        frame st st' \<and> sha_buf st' = sha_buf st \<and> c_copy st' \<noteq> None \<and>
        (pos \<le> epos \<longrightarrow> (if epos \<le> length data then pos' = epos \<and> source_at data epos (c_f st') else length data \<le> pos')))"
        by (simp add: t_def)
    qed
  qed
qed

section \<open>One chunk\<close>

definition chunk_at :: "byte list \<Rightarrow> nat \<Rightarrow> byte list" where
  "chunk_at data pos = take c_checkpoint_dist (drop pos data)"

text \<open>What a chunk at \<open>pos\<close> leaves for the next one.\<close>

definition chunk_done :: "chunk_config \<Rightarrow> byte list \<Rightarrow> hash_func \<Rightarrow> byte list \<Rightarrow> nat \<Rightarrow> byte list \<Rightarrow> nat \<Rightarrow> chunker \<Rightarrow> nat \<Rightarrow> chunker \<Rightarrow> bool" where
  "chunk_done cfg data h0 out0 o0 d pos st pos' st' \<longleftrightarrow>
     hash_at (big_end cfg) h0 (take (pos + c_checkpoint_dist) data) st' \<and>
     out_at out0 o0 (d @ chunk_out (big_end cfg) (chunk_at data pos)) st' \<and> faults (c_out st') = faults (c_out st) \<and>
     map_option faults (c_copy st') = map_option faults (c_copy st) \<and> c_chunk st' = c_chunk st \<and>
     c_extents st' = c_extents st \<and> curr_extent st' = curr_extent st \<and>
     (if pos + c_checkpoint_dist \<le> length data
      then pos' = pos + c_checkpoint_dist \<and> source_at data pos' (c_f st') else length data \<le> pos')"

lemma chunk_at_parts:
  assumes "pos < length data" "pos mod c_checkpoint_dist = 0"
  shows "chunk_at data pos \<noteq> []" "length (chunk_at data pos) \<le> c_checkpoint_dist"
    "take (pos + c_checkpoint_dist) data = take pos data @ chunk_at data pos"
    "length (take pos data) = pos" "length (chunk_at data pos) = c_checkpoint_dist \<longleftrightarrow> pos + c_checkpoint_dist \<le> length data"
    "pos + length (chunk_at data pos) = min (pos + c_checkpoint_dist) (length data)"
  using assms by (auto simp: chunk_at_def take_add c_checkpoint_dist_def min_def)

lemma hash_at_step:
  assumes "hash_at (big_end cfg) h0 (take pos data) st" "pos < length data" "pos mod c_checkpoint_dist = 0"
    and loc: "locals_inv (big_end cfg) (c_hash st) (sha_buf st) (chunk_at data pos) loc"
  shows "\<exists>h' s'. hash_chunk cfg pos (md5_of (chunk_at data pos) @ small_hash loc) st loc =
      Some (st\<lparr>c_hash := h', sparse_extent_start := s'\<rparr>) \<and>
    hash_at (big_end cfg) h0 (take (pos + c_checkpoint_dist) data) (st\<lparr>c_hash := h', sparse_extent_start := s'\<rparr>)"
proof -
  note c = chunk_at_parts[OF assms(2,3)]
  obtain start calls where a: "scan_file (big_end cfg) (take pos data) = (pos, start, calls)"
    "hash_view (big_end cfg) h0 (c_hash st) calls" "sparse_extent_start st = (if c_hash st = No_Hash then None else start)"
    using assms(1) c(4) by (auto simp: hash_at_def)
  obtain p' start' calls' where b: "scan_chunk (big_end cfg) (pos, start, calls) (chunk_at data pos) = (p', start', calls')"
    by (metis prod_cases3)
  have s: "scan_file (big_end cfg) (take (pos + c_checkpoint_dist) data) = (p', start', calls')"
    using scan_snoc[OF _ c(1,2), of "take pos data" "big_end cfg"] a(1) b assms(3) by (simp only: c(3,4))
  have p': "p' = length (take (pos + c_checkpoint_dist) data)" using fst_scan[of "big_end cfg"] s by (metis fst_conv)
  obtain h' where h: "hash_chunk cfg pos (md5_of (chunk_at data pos) @ small_hash loc) st loc =
      Some (st\<lparr>c_hash := h', sparse_extent_start := if h' = No_Hash then None else start'\<rparr>)" "hash_view (big_end cfg) h0 h' calls'"
    using hash_chunk_scan[OF a(2,3) loc c(1,2) assms(3) refl b] by blast
  have "is_plain h0 \<longrightarrow> length (sha_buf st) = c_checkpoint_dist" using assms(1) by (simp add: hash_at_def)
  then show ?thesis using h s p'
    by (intro exI[of _ h'] exI[of _ "if h' = No_Hash then None else start'"]) (simp add: hash_at_def)
qed

lemma written_hash:
  assumes "locals_inv be h sb block loc" "length block \<le> c_checkpoint_dist"
  shows "take (16 + chunkidx loc * 4) (md5_of block @ map (char_little_endian be) (take (chunkidx loc) (small_hash loc)) @
    drop (chunkidx loc) (small_hash loc)) = chunk_out be block"
proof -
  let ?n = "length (chunks_of 4096 block)"
  have l: "chunkidx loc = ?n" "take (4 * ?n) (small_hash loc) = words_of be (chunks_of 4096 block)" "length (small_hash loc) = 512"
    using assms(1) unfolding locals_inv_def by metis+
  have w: "length (words_of be (chunks_of 4096 block)) = 4 * ?n" by (rule length_words_of)
  have n: "4 * ?n \<le> 512" using arg_cong[OF l(2), of length] w l(3) by simp
  have t: "take ?n (small_hash loc) = take ?n (words_of be (chunks_of 4096 block))"
    unfolding l(2)[symmetric] by (simp add: min_def)
  have d: "take (3 * ?n) (drop ?n (small_hash loc)) = drop ?n (words_of be (chunks_of 4096 block))"
    unfolding l(2)[symmetric] by (simp add: drop_take)
  have lt: "length (take ?n (small_hash loc)) = ?n" using n l(3) by simp
  have e: "16 + ?n * 4 - 16 - ?n = 3 * ?n" by simp
  have "take (16 + ?n * 4) (md5_of block @ map (char_little_endian be) (take ?n (small_hash loc)) @ drop ?n (small_hash loc)) =
    md5_of block @ map (char_little_endian be) (take ?n (small_hash loc)) @ take (3 * ?n) (drop ?n (small_hash loc))"
    using lt by (simp add: length_md5_of)
  then show ?thesis by (simp only: l(1) t d chunk_out_def Let_def)
qed

definition copy_done :: "chunk_config \<Rightarrow> bool \<Rightarrow> byte list \<Rightarrow> nat \<Rightarrow> nat \<Rightarrow> chunker \<Rightarrow> chunker \<Rightarrow> bool" where
  "copy_done cfg ok data cap pos st st' \<longleftrightarrow>
     (ok \<and> copy_mode cfg st \<and> copy_inv cfg data cap pos st \<longrightarrow>
        copy_inv cfg data cap (min (pos + c_checkpoint_dist) (length data)) st' \<and>
        copy_reaches (min (pos + c_checkpoint_dist) (length data)) st')"

lemma copy_mode_in_place: "copy_mode cfg st \<Longrightarrow> c_chunk st = Some x \<Longrightarrow> modify_inplace cfg \<Longrightarrow> P"
  by (simp add: copy_mode_def)

lemma copy_inv_cong:
  "c_copy st' = c_copy st \<Longrightarrow> copy_write_pos st' = copy_write_pos st \<Longrightarrow> copy_inv cfg data cap p st' = copy_inv cfg data cap p st"
  "c_copy st' = c_copy st \<Longrightarrow> copy_reaches p st' = copy_reaches p st"
  by (simp_all add: copy_inv_def copy_reaches_def)

lemma data_chunk_runs:
  assumes src: "source_at data pos (c_f st)" and pos: "pos < length data" "pos mod c_checkpoint_dist = 0"
    and h: "hash_at (big_end cfg) h0 (take pos data) st" and o: "out_at out0 o0 d st"
    and mem: "length (buffer (md5_mem cfg)) = 64"
    and ok: "ok \<Longrightarrow> copy_no_fault st \<and> no_fault (c_out st)"
  shows "runs ok (data_chunk cfg (length data) pos st) (\<lambda>(pos', st').
    chunk_done cfg data h0 out0 o0 d pos st pos' st' \<and> copy_done cfg ok data cap pos st st' \<and>
    copy_sparse_extent_start st' = None \<and> copy_max_sparse st' = copy_max_sparse st)"
proof -
  let ?be = "big_end cfg" and ?b = "chunk_at data pos"
  note c = chunk_at_parts[OF pos]
  define st0 where "st0 = st\<lparr>copy_sparse_extent_start := None\<rparr>"
  define loc0 where "loc0 = \<lparr>big_hash = md5_init (md5_mem cfg), big_hash_copy_control = md5_init (md5_mem cfg), chunkidx = 0,
    small_hash = replicate 512 0, buf_read = 0, all_zeros = True\<rparr>"
  have v: "is_plain (c_hash st) = is_plain h0" "is_plain h0 \<longrightarrow> length (sha_buf st) = c_checkpoint_dist"
    using h hash_view_kind by (auto simp: hash_at_def)
  have li: "locals_inv ?be (c_hash st0) (sha_buf st0) [] loc0"
    using v by (simp add: locals_inv_def loc0_def md5_start[OF mem] words_of_def buf_is_zero_def st0_def chunks_of_Nil)
  have src0: "source_at data (pos + length ([] :: byte list)) (c_f st0)" using src by (simp add: st0_def)
  have rd: "runs ok (read_chunk cfg (length data) (pos + c_checkpoint_dist) (pos + length ([] :: byte list)) st0 loc0) (\<lambda>(pos', st', loc').
    source_at data (pos + length ([] :: byte list) + length ?b) (c_f st') \<and> chunk_copied cfg ok data cap (pos + length ([] :: byte list)) (length ?b) st0 st' \<and>
    locals_inv ?be (c_hash st0) (sha_buf st') ([] @ ?b) loc' \<and>
    (if length ([] @ ?b) = c_checkpoint_dist then pos' = pos + c_checkpoint_dist else length data \<le> pos'))"
    by (rule read_chunk_runs[OF src0 li]) (use pos ok in \<open>auto simp: chunk_at_def st0_def copy_no_fault_def\<close>)
  define goal where "goal = (\<lambda>(pos', st'). chunk_done cfg data h0 out0 o0 d pos st pos' st' \<and> copy_done cfg ok data cap pos st st' \<and>
    copy_sparse_extent_start st' = None \<and> copy_max_sparse st' = copy_max_sparse st)"
  have "runs ok (data_chunk cfg (length data) pos st) goal"
    unfolding data_chunk_def Let_def st0_def[symmetric] loc0_def[symmetric]
  proof (rule runs_bind[OF rd[unfolded list.size add_0_right append_Nil]])
    fix y assume y: "case y of (pos', st', loc') \<Rightarrow> source_at data (pos + length ?b) (c_f st') \<and> chunk_copied cfg ok data cap pos (length ?b) st0 st' \<and>
      locals_inv ?be (c_hash st0) (sha_buf st') ?b loc' \<and>
      (if length ?b = c_checkpoint_dist then pos' = pos + c_checkpoint_dist else length data \<le> pos')"
    obtain p s l where y1: "y = (p, s, l)" by (metis prod_cases3)
    have a: "source_at data (pos + length ?b) (c_f s)" "chunk_copied cfg ok data cap pos (length ?b) st0 s"
      "locals_inv ?be (c_hash st0) (sha_buf s) ?b l"
      "if length ?b = c_checkpoint_dist then p = pos + c_checkpoint_dist else length data \<le> p"
      using y y1 by simp_all
    have fr: "frame st0 s" using a(2) by (simp add: chunk_copied_def)
    have f: "c_out s = c_out st" "c_chunk s = c_chunk st" "c_hash s = c_hash st" "c_extents s = c_extents st"
      "curr_extent s = curr_extent st" "sparse_extent_start s = sparse_extent_start st" "copy_sparse_extent_start s = None"
      "copy_max_sparse s = copy_max_sparse st" "map_option faults (c_copy s) = map_option faults (c_copy st)"
      using fr by (simp_all add: frame_def st0_def)
    have li': "locals_inv ?be (c_hash s) (sha_buf s) ?b l" using a(3) f(3) by (simp add: st0_def)
    have "md5_inv (big_hash l) ?b" using li' by (simp add: locals_inv_def)
    then have dig: "raw_digest_int (md5_finalize (big_hash l)) = Some (md5_of ?b)" by (rule md5_finalize_digest)
    have hs: "hash_at ?be h0 (take pos data) s"
      using h v(1) f(3,6) li' by (auto simp: hash_at_def locals_inv_def)
    obtain h' s' where hc: "hash_chunk cfg pos (md5_of ?b @ small_hash l) s l = Some (s\<lparr>c_hash := h', sparse_extent_start := s'\<rparr>)"
      "hash_at ?be h0 (take (pos + c_checkpoint_dist) data) (s\<lparr>c_hash := h', sparse_extent_start := s'\<rparr>)"
      using hash_at_step[OF hs pos li'] by blast
    define s1 where "s1 = s\<lparr>c_hash := h', sparse_extent_start := s'\<rparr>"
    have t16: "take 16 (md5_of ?b) = md5_of ?b" by (simp add: length_md5_of)
    have o1: "out_at out0 o0 d s1" using o f(1) by (simp add: out_at_def s1_def)
    have n128: "length (chunks_of 4096 ?b) \<le> 128"
    proof -
      have "length (chunks_of 4096 ?b) * 4 = length (words_of ?be (chunks_of 4096 ?b))" by (simp add: length_words_of)
      also have "\<dots> = length (take (4 * chunkidx l) (small_hash l))" using li' unfolding locals_inv_def by metis
      also have "\<dots> \<le> 512" using li' by (simp add: locals_inv_def)
      finally show ?thesis by simp
    qed
    have wo: "runs ok (write_out cfg (chunk_out ?be ?b) s1)
      (\<lambda>st'. \<exists>f. st' = s1\<lparr>c_out := f\<rparr> \<and> out_at out0 o0 (d @ chunk_out ?be ?b) st' \<and> faults f = faults (c_out s1))"
      by (rule write_out_runs[OF o1]) (use ok f(1) n128 length_chunk_out[of ?be ?b] in \<open>auto simp: s1_def\<close>)
    define s2 where "s2 f = s1\<lparr>c_out := f, hashoutputpos := hashoutputpos s1 + (16 + chunkidx l * 4)\<rparr>" for f
    have s2: "c_f (s2 f) = c_f s" "c_out (s2 f) = f" "c_chunk (s2 f) = c_chunk st" "c_copy (s2 f) = c_copy s"
      "c_extents (s2 f) = c_extents st" "curr_extent (s2 f) = curr_extent st" "copy_sparse_extent_start (s2 f) = None"
      "copy_max_sparse (s2 f) = copy_max_sparse st" "copy_write_pos (s2 f) = copy_write_pos s" for f
      by (simp_all add: s2_def s1_def f)
    have h2: "hash_at ?be h0 (take (pos + c_checkpoint_dist) data) (s2 f)" for f
      using hc(2) by (simp add: hash_at_def s2_def s1_def)
    have fin: "goal (p, s2 f)" if "out_at out0 o0 (d @ chunk_out ?be ?b) (s1\<lparr>c_out := f\<rparr>)" "faults f = faults (c_out s1)" for f
    proof -
      have "out_at out0 o0 (d @ chunk_out ?be ?b) (s2 f)" using that(1) by (simp add: out_at_def s2_def)
      moreover have "faults f = faults (c_out st)" using that(2) f(1) by (simp add: s1_def)
      moreover have "copy_done cfg ok data cap pos st (s2 f)"
      proof -
        have e: "copy_inv cfg data cap pos st0 = copy_inv cfg data cap pos st" "copy_mode cfg st0 = copy_mode cfg st"
          by (simp_all add: copy_inv_def copy_mode_def st0_def)
        have "ok \<and> copy_mode cfg st \<and> copy_inv cfg data cap pos st \<longrightarrow>
          copy_inv cfg data cap (min (pos + c_checkpoint_dist) (length data)) s \<and>
          copy_reaches (min (pos + c_checkpoint_dist) (length data)) s"
          using a(2) c(1,6) unfolding chunk_copied_def e by simp
        then show ?thesis using s2 by (simp add: copy_done_def copy_inv_cong[of "s2 f" s])
      qed
      moreover have "pos + c_checkpoint_dist \<le> length data \<longrightarrow> source_at data (pos + c_checkpoint_dist) (c_f s)"
        using a(1) c(6) by (auto simp: min_def)
      ultimately show ?thesis using h2 s2 f a(4) c(5) by (simp add: goal_def chunk_done_def)
    qed
    show "runs ok (case y of (pos', st, loc) \<Rightarrow> raw_digest_int (md5_finalize (big_hash loc)) \<bind>
      (\<lambda>dig. hash_chunk cfg pos (take 16 dig @ small_hash loc) st loc \<bind>
      (\<lambda>st. write_out cfg (take (16 + chunkidx loc * 4) (take 16 dig @
              map (char_little_endian ?be) (take (chunkidx loc) (small_hash loc)) @ drop (chunkidx loc) (small_hash loc))) st \<bind>
      (\<lambda>st. check_copy cfg (length data) (pos + c_checkpoint_dist) (copy_write_pos st0) loc pos'
          (st\<lparr>hashoutputpos := hashoutputpos st + (16 + chunkidx loc * 4)\<rparr>))))) goal"
      unfolding y1 prod.case dig Option.bind.bind_lunit t16 hc(1) written_hash[OF li' c(2)] s1_def[symmetric]
    proof (rule runs_bind[OF wo], clarify)
      fix s' f assume w: "out_at out0 o0 (d @ chunk_out ?be ?b) (s1\<lparr>c_out := f\<rparr>)" "faults f = faults (c_out s1)"
      show "runs ok (check_copy cfg (length data) (pos + c_checkpoint_dist) (copy_write_pos st0) l p
          (s1\<lparr>c_out := f\<rparr>\<lparr>hashoutputpos := hashoutputpos (s1\<lparr>c_out := f\<rparr>) + (16 + chunkidx l * 4)\<rparr>)) goal"
      proof (cases "c_chunk st \<noteq> None \<and> c_copy s \<noteq> None \<and> modify_inplace cfg")
        case False
        then have "check_copy cfg (length data) (pos + c_checkpoint_dist) (copy_write_pos st0) l p (s2 f) = Some (p, s2 f)"
          using s2 by (auto simp: check_copy_def split: option.splits)
        then show ?thesis using fin[OF w] by (simp add: s2_def)
      next
        case True
        then obtain ob os where ch: "c_chunk st = Some (ob, os)" by auto
        obtain dc where dc: "raw_digest_int (md5_finalize (big_hash_copy_control l)) = Some dc" using finalize_total by blast
        show ?thesis
        proof (cases "dc = ob")
          case eq: True
          then have "check_copy cfg (length data) (pos + c_checkpoint_dist) (copy_write_pos st0) l p (s2 f) = Some (p, s2 f)"
            using s2 True ch dc by (simp add: check_copy_def)
          then show ?thesis using fin[OF w] by (simp add: s2_def)
        next
          case ne: False
          define s3 where "s3 = (s2 f)\<lparr>copy_write_pos := copy_write_pos st0, c_f := snd (File_Seek (int pos) (c_f (s2 f)))\<rparr>"
          have eq: "check_copy cfg (length data) (pos + c_checkpoint_dist) (copy_write_pos st0) l p (s2 f) =
            recopy_chunk cfg (length data) (pos + c_checkpoint_dist) pos s3"
            using s2 True ch dc ne by (simp add: check_copy_def s3_def Let_def)
          have "source_at data pos (c_f s3)" using source_seek[OF a(1), of pos] s2 by (auto simp: s3_def)
          moreover have "copy_no_fault s3" if ok
          proof -
            have "copy_no_fault st0" using ok[OF that] by (simp add: copy_no_fault_def st0_def)
            then have "copy_no_fault s" by (rule copy_no_fault_frame[OF fr])
            then show ?thesis by (simp add: copy_no_fault_def s3_def s2)
          qed
          moreover have "pos mod 4096 = 0" using pos(2) by (auto simp: c_checkpoint_dist_def)
          moreover have "(pos + c_checkpoint_dist) mod 4096 = 0" using calculation(3) mod_mult_self1[of pos 128 4096] by (simp add: c_checkpoint_dist_def)
          ultimately have "runs ok (recopy_chunk cfg (length data) (pos + c_checkpoint_dist) pos s3) (\<lambda>(pos', st').
            frame s3 st' \<and> sha_buf st' = sha_buf s3 \<and> c_copy st' \<noteq> None \<and>
            (pos \<le> pos + c_checkpoint_dist \<longrightarrow> (if pos + c_checkpoint_dist \<le> length data
              then pos' = pos + c_checkpoint_dist \<and> source_at data (pos + c_checkpoint_dist) (c_f st') else length data \<le> pos')))"
            using pos(1) True s2 by (intro recopy_chunk_runs) (simp_all add: s3_def)
          then have "runs ok (recopy_chunk cfg (length data) (pos + c_checkpoint_dist) pos s3) goal"
          proof (rule runs_mono, clarify)
            fix q t assume t: "frame s3 t" "sha_buf t = sha_buf s3" "pos \<le> pos + c_checkpoint_dist \<longrightarrow> (if pos + c_checkpoint_dist \<le> length data
              then q = pos + c_checkpoint_dist \<and> source_at data (pos + c_checkpoint_dist) (c_f t) else length data \<le> q)"
            have "frame (s2 f) t" using t(1) by (simp add: frame_def s3_def)
            moreover have "hash_at ?be h0 (take (pos + c_checkpoint_dist) data) t"
              using h2[of f] t(1,2) by (simp add: hash_at_def frame_def s3_def)
            moreover have "copy_done cfg ok data cap pos st t" using ch True by (simp add: copy_done_def copy_mode_def)
            ultimately show "goal (q, t)"
              using fin[OF w] t(3) by (simp add: goal_def chunk_done_def frame_def out_at_def)
          qed
          then show ?thesis using eq by (simp add: s2_def)
        qed
      qed
    qed
  qed
  then show ?thesis by (simp add: goal_def)
qed

section \<open>A chunk inside a hole\<close>

definition zero_range :: "byte list \<Rightarrow> nat \<times> nat \<Rightarrow> bool" where
  "zero_range data ext \<longleftrightarrow> (\<forall>i. fst ext \<le> i \<and> i < fst ext + snd ext \<and> i < length data \<longrightarrow> data ! i = 0)"

text \<open>
  Between two chunks: a copy that ends before \<open>pos\<close> is in the middle of a hole, the rest of that hole is
  zero in the copy, and the size that the copy gets at the end is the end of the hole.
\<close>

definition hole_inv :: "byte list \<Rightarrow> nat \<Rightarrow> chunker \<Rightarrow> bool" where
  "hole_inv data pos st \<longleftrightarrow>
     (\<forall>m. copy_max_sparse st = Some m \<longrightarrow> m \<le> length data) \<and>
     (case copy_sparse_extent_start st of
        None \<Rightarrow> copy_reaches (min pos (length data)) st
      | Some _ \<Rightarrow> \<exists>off sz. curr_extent st = Some (off, sz) \<and> pos \<le> off + sz \<and> pos \<le> length data \<and>
          copy_max_sparse st = Some (min (length data) (off + sz)) \<and>
          (\<forall>cp. c_copy st = Some cp \<longrightarrow> (\<forall>i. pos \<le> i \<and> i < min (length data) (off + sz) \<longrightarrow> pad_nth (fbytes cp) i = 0)))"

definition copy_good :: "chunk_config \<Rightarrow> bool \<Rightarrow> byte list \<Rightarrow> nat \<Rightarrow> nat \<Rightarrow> chunker \<Rightarrow> bool" where
  "copy_good cfg ok data cap pos st \<longleftrightarrow>
     (ok \<and> copy_mode cfg st \<longrightarrow> copy_inv cfg data cap (min pos (length data)) st \<and> hole_inv data pos st)"

text \<open>What the writes into the copy for a hole leave alone.\<close>

definition hole_frame :: "chunker \<Rightarrow> chunker \<Rightarrow> bool" where
  "hole_frame st st' \<longleftrightarrow> c_f st' = c_f st \<and> c_out st' = c_out st \<and> c_chunk st' = c_chunk st \<and>
     c_hash st' = c_hash st \<and> c_extents st' = c_extents st \<and> curr_extent st' = curr_extent st \<and> sha_buf st' = sha_buf st \<and>
     sparse_extent_start st' = sparse_extent_start st \<and> copy_sparse_extent_start st' = copy_sparse_extent_start st \<and>
     copy_write_pos st' = copy_write_pos st \<and> map_option faults (c_copy st') = map_option faults (c_copy st)"

lemma hole_frame_refl [simp]: "hole_frame st st"
  by (simp add: hole_frame_def)

lemma hole_frame_trans: "hole_frame a b \<Longrightarrow> hole_frame b c \<Longrightarrow> hole_frame a c"
  by (simp add: hole_frame_def)

lemma copy_no_fault_eq: "map_option faults (c_copy st') = map_option faults (c_copy st) \<Longrightarrow> copy_no_fault st \<Longrightarrow> copy_no_fault st'"
  using copy_no_fault_frame[of st "st\<lparr>c_copy := c_copy st'\<rparr>"] by (simp add: frame_def copy_no_fault_def)

lemma must_seek_copy_runs:
  assumes "ok \<Longrightarrow> copy_no_fault st"
  shows "runs ok (must_seek_copy p st) (\<lambda>st'. hole_frame st st' \<and> copy_max_sparse st' = copy_max_sparse st \<and>
    map_option fbytes (c_copy st') = map_option fbytes (c_copy st) \<and> (\<forall>cp. c_copy st' = Some cp \<longrightarrow> fpos cp = p) \<and>
    hashoutputpos st' = hashoutputpos st)"
proof (cases "c_copy st")
  case None
  then show ?thesis by (simp add: must_seek_copy_def)
next
  case (Some f)
  obtain b g where s: "File_Seek (int p) f = (b, g)" by fastforce
  have b: "\<not> b \<longrightarrow> \<not> ok" using File_Seek_ok[of f "int p"] s assms Some by (auto simp: copy_no_fault_def)
  show ?thesis
  proof (cases b)
    case True
    then show ?thesis using Some s File_Seek_fields[OF s] by (simp add: must_seek_copy_def hole_frame_def)
  qed (use Some s b in \<open>simp add: must_seek_copy_def\<close>)
qed

lemma write_copy_frame: "write_copy cfg buf st = Some st' \<Longrightarrow> hole_frame st st' \<and> copy_max_sparse st' = copy_max_sparse st"
proof -
  assume a: "write_copy cfg buf st = Some st'"
  then obtain f g where f: "c_copy st = Some f" "writeRepeatFreeSpace (space_cb cfg) f buf = Some g" "st' = st\<lparr>c_copy := Some g\<rparr>"
    by (auto simp: write_copy_def split: option.splits bind_splits)
  have "written f buf g" by (rule runs_Some_post[OF writeRepeatFreeSpace_runs[of False] f(2)]) simp
  then show ?thesis using f by (simp add: hole_frame_def written_def)
qed

lemma write_zeros_frame: "write_zeros cfg w n st = Some st' \<Longrightarrow> hole_frame st st'"
proof (induction cfg w n st rule: write_zeros.induct)
  case (1 cfg w n st)
  show ?case
  proof (cases "w < n")
    case True
    let ?t = "min (n - w) 32768"
    obtain s where s: "write_copy cfg (replicate ?t 0) st = Some s" "write_zeros cfg (w + ?t) n s = Some st'"
      using "1.prems" True by (subst (asm) write_zeros.simps) (auto simp: Let_def split: bind_splits)
    show ?thesis using "1.IH"[OF True refl s] write_copy_frame[OF s(1)] hole_frame_trans by blast
  qed (use "1.prems" in \<open>subst (asm) write_zeros.simps, simp\<close>)
qed

lemma File_PunchHole_fields:
  assumes "File_PunchHole p n f = (b, f')"
  shows "faults f' = faults f"
    "no_fault f \<Longrightarrow> 0 \<le> p \<Longrightarrow> 0 < n \<Longrightarrow> b \<and> (\<forall>i. pad_nth (fbytes f') i =
       (if nat p \<le> i \<and> i < nat p + nat n then 0 else pad_nth (fbytes f) i)) \<and> length (fbytes f') = length (fbytes f)"
proof -
  show "faults f' = faults f" using assms by (auto simp: File_PunchHole_def Let_def split: if_splits)
  assume a: "no_fault f" "0 \<le> p" "0 < n"
  define k where "k = min (nat n) (length (fbytes f) - nat p)"
  have f': "b" "fbytes f' = overwrite (fbytes f) (nat p) (replicate k 0)"
    using assms a no_fault_outcome[OF a(1)] by (auto simp: File_PunchHole_def Let_def k_def)
  have "pad_nth (fbytes f) i = 0" if "nat p \<le> i" "\<not> i < nat p + k" "i < nat p + nat n" for i
    using that by (auto simp: pad_nth_def k_def)
  moreover have "k \<le> nat n" "0 < k \<longrightarrow> nat p + k \<le> length (fbytes f)" by (auto simp: k_def)
  ultimately show "b \<and> (\<forall>i. pad_nth (fbytes f') i = (if nat p \<le> i \<and> i < nat p + nat n then 0 else pad_nth (fbytes f) i)) \<and>
    length (fbytes f') = length (fbytes f)"
    using f' by (auto simp: pad_nth_overwrite length_overwrite)
qed

lemma punch_copy_runs:
  assumes e: "off \<le> pos" "pos < min fsize (off + sz)" and ok: "ok \<Longrightarrow> copy_no_fault st"
  shows "runs ok (punch_copy cfg fsize (off, sz) st) (\<lambda>st'. hole_frame st st' \<and>
    (ok \<longrightarrow> copy_max_sparse st' = Some (min fsize (off + sz)) \<and>
      (\<forall>cp. c_copy st = Some cp \<longrightarrow> (\<exists>cp'. c_copy st' = Some cp' \<and> length (fbytes cp') = length (fbytes cp) \<and>
        (\<forall>i. pad_nth (fbytes cp') i = (if off \<le> i \<and> i < min fsize (off + sz) then 0 else pad_nth (fbytes cp) i))))))"
proof (cases "c_copy st")
  case None
  then show ?thesis by (simp add: punch_copy_def hole_frame_def)
next
  case (Some f)
  define n where "n = (if fsize < off + sz then fsize - off else sz)"
  have n: "0 < n" "off + n = min fsize (off + sz)" using e by (auto simp: n_def)
  obtain b g where p: "File_PunchHole (int off) (int n) f = (b, g)" by fastforce
  note pf = File_PunchHole_fields[OF p]
  define t where "t = st\<lparr>c_copy := Some g\<rparr>"
  have t: "hole_frame st t" using Some pf(1) by (simp add: t_def hole_frame_def)
  show ?thesis
  proof (cases b)
    case True
    have "no_fault f" if ok using ok[OF that] Some by (simp add: copy_no_fault_def)
    then show ?thesis
      using pf n(2) True Some n(1) p t
      by (auto simp: punch_copy_def n_def[symmetric] t_def hole_frame_def Let_def)
  next
    case False
    then have nok: "\<not> ok" using pf(2) n(1) ok Some by (auto simp: copy_no_fault_def)
    have "runs ok (must_seek_copy off t) (\<lambda>st'. hole_frame st st')"
      by (rule runs_mono[OF must_seek_copy_runs]) (use nok hole_frame_trans[OF t] in auto)
    then have "runs ok (must_seek_copy off t \<bind> write_zeros cfg 0 n) (\<lambda>st'. hole_frame st st')"
    proof (rule runs_bind)
      fix y assume "hole_frame st y"
      then show "runs ok (write_zeros cfg 0 n y) (hole_frame st)"
        using nok write_zeros_frame[of cfg 0 n y] hole_frame_trans by (auto simp: runs_def split: option.splits)
    qed
    moreover have "punch_copy cfg fsize (off, sz) st = (must_seek_copy off t \<bind> write_zeros cfg 0 n)"
      using False Some p by (simp add: punch_copy_def n_def[symmetric] t_def Let_def)
    ultimately show ?thesis using nok by (simp add: runs_mono)
  qed
qed

lemma zero_chunk:
  assumes "zero_range data (off, sz)" "off \<le> pos" "pos + c_checkpoint_dist \<le> off + sz" "pos + c_checkpoint_dist \<le> length data"
  shows "chunk_at data pos = replicate c_checkpoint_dist 0"
  using assms by (intro nth_equalityI) (auto simp: chunk_at_def zero_range_def)

lemma must_seek_f_runs:
  assumes "source_at data p0 (c_f st)"
  shows "\<exists>f. must_seek_f p st = Some (st\<lparr>c_f := f\<rparr>) \<and> source_at data p f"
  using source_seek[OF assms, of p] by (auto simp: must_seek_f_def)

text \<open>The invariant of the copy across a chunk inside a hole.\<close>

lemma copy_good_hole:
  assumes z: "zero_range data (off, sz)"
    and e: "off \<le> pos" "pos + c_checkpoint_dist \<le> off + sz" "pos + c_checkpoint_dist \<le> length data"
    and inv: "copy_inv cfg data cap pos st" "hole_inv data pos st" "curr_extent st = Some (off, sz)"
    and st': "curr_extent st' = Some (off, sz)" "copy_sparse_extent_start st' \<noteq> None" "copy_max_sparse st' = Some (min (length data) (off + sz))"
      "copy_write_pos st' = copy_write_pos st + c_checkpoint_dist" "\<forall>cp. c_copy st' = Some cp \<longrightarrow> fpos cp = copy_write_pos st'"
    and cp: "\<And>cp'. c_copy st' = Some cp' \<Longrightarrow> \<exists>cp. c_copy st = Some cp \<and> length (fbytes cp') = length (fbytes cp) \<and>
      (\<forall>i. pad_nth (fbytes cp') i = (if (copy_sparse_extent_start st = None \<and> off \<le> i) \<and> i < min (length data) (off + sz)
        then 0 else pad_nth (fbytes cp) i))"
  shows "copy_inv cfg data cap (pos + c_checkpoint_dist) st' \<and> hole_inv data (pos + c_checkpoint_dist) st'"
proof -
  have zero: "pad_nth (fbytes cp') i = 0" if c: "c_copy st' = Some cp'" and i: "pos \<le> i" "i < min (length data) (off + sz)" for cp' i
  proof (cases "copy_sparse_extent_start st")
    case None
    then show ?thesis using cp[OF c] i e(1) by auto
  next
    case (Some k)
    obtain cp where a: "c_copy st = Some cp" "pad_nth (fbytes cp') i = pad_nth (fbytes cp) i"
      using cp[OF c] Some by auto
    then show ?thesis using inv(2,3) i Some by (auto simp: hole_inv_def)
  qed
  have "pad_nth (fbytes cp') i = data ! i" if c: "c_copy st' = Some cp'" and i: "i < pos + c_checkpoint_dist" for cp' i
  proof (cases "pos \<le> i")
    case True
    then have "data ! i = 0" using z e i by (auto simp: zero_range_def)
    moreover have "i < min (length data) (off + sz)" using i e by simp
    ultimately show ?thesis using zero[OF c True] by simp
  next
    case False
    obtain cp where a: "c_copy st = Some cp" "pad_nth (fbytes cp') i = (if copy_sparse_extent_start st = None \<and> off \<le> i
        then 0 else pad_nth (fbytes cp) i)"
      using cp[OF c] False i e by auto
    moreover have "off \<le> i \<longrightarrow> data ! i = 0" using z e i by (auto simp: zero_range_def)
    ultimately show ?thesis using inv(1) False by (auto simp: copy_inv_def)
  qed
  moreover have "length (fbytes cp') \<le> max cap (length data) \<and> fpos cp' = pos + c_checkpoint_dist \<and> copy_write_pos st' = pos + c_checkpoint_dist"
    if c: "c_copy st' = Some cp'" for cp'
    using cp[OF c] inv(1) st'(4,5) c by (auto simp: copy_inv_def)
  ultimately show ?thesis using zero st' e inv(1) by (auto simp: copy_inv_def hole_inv_def split: option.splits)
qed

lemma hash_at_hole:
  assumes "hash_at be h0 (take pos data) st" "pos + c_checkpoint_dist \<le> length data" "pos mod c_checkpoint_dist = 0"
    "chunk_at data pos = replicate c_checkpoint_dist 0"
    "c_hash st' = c_hash st" "sha_buf st' = sha_buf st"
    "sparse_extent_start st' = (if c_hash st \<noteq> No_Hash \<and> sparse_extent_start st = None then Some pos else sparse_extent_start st)"
  shows "hash_at be h0 (take (pos + c_checkpoint_dist) data) st'"
proof -
  have pos: "pos < length data" using assms(2) by (simp add: c_checkpoint_dist_def)
  note c = chunk_at_parts[OF pos assms(3)]
  have l: "length (chunk_at data pos) = c_checkpoint_dist" "buf_is_zero (chunk_at data pos)"
    by (simp_all add: assms(4) buf_is_zero_def list_all_iff)
  obtain start calls where a: "scan_file be (take pos data) = (pos, start, calls)" "hash_view be h0 (c_hash st) calls"
    "sparse_extent_start st = (if c_hash st = No_Hash then None else start)"
    using assms(1) c(4) by (auto simp: hash_at_def)
  have "scan_file be (take (pos + c_checkpoint_dist) data) = scan_chunk be (pos, start, calls) (chunk_at data pos)"
    using scan_snoc[OF _ c(1,2), of "take pos data" be] a(1) assms(3) by (simp only: c(3,4))
  then have "scan_file be (take (pos + c_checkpoint_dist) data) =
      (pos + c_checkpoint_dist, Some (case start of None \<Rightarrow> pos | Some s \<Rightarrow> s), calls)"
    using l by simp
  moreover have "length (take (pos + c_checkpoint_dist) data) = pos + c_checkpoint_dist" using assms(2) by simp
  ultimately show ?thesis
    using a(2,3) assms(1,5-7) by (cases start) (simp_all add: hash_at_def)
qed

text \<open>The copy in a chunk inside a hole: punched at the first such chunk of an extent.\<close>

lemma hole_copy_runs:
  assumes e: "off \<le> pos" "pos + c_checkpoint_dist \<le> off + sz" "pos + c_checkpoint_dist \<le> length data"
    and ok: "ok \<Longrightarrow> copy_no_fault st" and z: "zero_range data (off, sz)" and cur: "curr_extent st = Some (off, sz)"
  shows "runs ok
    (if copy_sparse_extent_start st = None then
       let st = st\<lparr>copy_sparse_extent_start := Some pos\<rparr>
       in if fst (off, sz) < length data then punch_copy cfg (length data) (off, sz) st else Some st
     else Some st)
    (\<lambda>st'. copy_sparse_extent_start st' \<noteq> None \<and> hole_frame (st\<lparr>copy_sparse_extent_start := copy_sparse_extent_start st'\<rparr>) st' \<and>
      (ok \<and> hole_inv data pos st \<longrightarrow> copy_max_sparse st' = Some (min (length data) (off + sz)) \<and>
        (\<forall>cp'. c_copy st' = Some cp' \<longrightarrow> (\<exists>cp. c_copy st = Some cp \<and> length (fbytes cp') = length (fbytes cp) \<and>
          (\<forall>i. pad_nth (fbytes cp') i = (if (copy_sparse_extent_start st = None \<and> off \<le> i) \<and> i < min (length data) (off + sz)
            then 0 else pad_nth (fbytes cp) i))))))"
proof (cases "copy_sparse_extent_start st")
  case (Some k)
  then show ?thesis using cur by (auto simp: hole_inv_def hole_frame_def)
next
  case None
  let ?s = "st\<lparr>copy_sparse_extent_start := Some pos\<rparr>"
  have p: "pos < min (length data) (off + sz)" "off < length data" using e by (simp_all add: c_checkpoint_dist_def)
  have nf: "ok \<Longrightarrow> copy_no_fault ?s" using ok by (simp add: copy_no_fault_def)
  have "runs ok (punch_copy cfg (length data) (off, sz) ?s) (\<lambda>st'. copy_sparse_extent_start st' \<noteq> None \<and>
      hole_frame (st\<lparr>copy_sparse_extent_start := copy_sparse_extent_start st'\<rparr>) st' \<and>
      (ok \<and> hole_inv data pos st \<longrightarrow> copy_max_sparse st' = Some (min (length data) (off + sz)) \<and>
        (\<forall>cp'. c_copy st' = Some cp' \<longrightarrow> (\<exists>cp. c_copy st = Some cp \<and> length (fbytes cp') = length (fbytes cp) \<and>
          (\<forall>i. pad_nth (fbytes cp') i = (if (copy_sparse_extent_start st = None \<and> off \<le> i) \<and> i < min (length data) (off + sz)
            then 0 else pad_nth (fbytes cp) i))))))"
  proof (rule runs_mono[OF punch_copy_runs[OF e(1) p(1) nf]], assumption, elim conjE)
    fix s assume s: "hole_frame ?s s" "ok \<longrightarrow> copy_max_sparse s = Some (min (length data) (off + sz)) \<and>
      (\<forall>cp. c_copy ?s = Some cp \<longrightarrow> (\<exists>cp'. c_copy s = Some cp' \<and> length (fbytes cp') = length (fbytes cp) \<and>
        (\<forall>i. pad_nth (fbytes cp') i = (if off \<le> i \<and> i < min (length data) (off + sz) then 0 else pad_nth (fbytes cp) i))))"
    have k: "copy_sparse_extent_start s = Some pos" using s(1) by (simp add: hole_frame_def)
    have "map_option faults (c_copy s) = map_option faults (c_copy st)" using s(1) by (simp add: hole_frame_def)
    then have "(c_copy s = None) = (c_copy st = None)" by auto
    then show "copy_sparse_extent_start s \<noteq> None \<and>
      hole_frame (st\<lparr>copy_sparse_extent_start := copy_sparse_extent_start s\<rparr>) s \<and>
      (ok \<and> hole_inv data pos st \<longrightarrow> copy_max_sparse s = Some (min (length data) (off + sz)) \<and>
        (\<forall>cp'. c_copy s = Some cp' \<longrightarrow> (\<exists>cp. c_copy st = Some cp \<and> length (fbytes cp') = length (fbytes cp) \<and>
          (\<forall>i. pad_nth (fbytes cp') i = (if (copy_sparse_extent_start st = None \<and> off \<le> i) \<and> i < min (length data) (off + sz)
            then 0 else pad_nth (fbytes cp) i)))))"
      using s k None by auto
  qed
  then show ?thesis using None p(2) by (simp add: Let_def)
qed

lemma hole_chunk_runs:
  assumes src: "source_at data pos (c_f st)" and pos: "pos mod c_checkpoint_dist = 0"
    and e: "off \<le> pos" "pos + c_checkpoint_dist \<le> off + sz" "pos + c_checkpoint_dist \<le> length data"
    and h: "hash_at (big_end cfg) h0 (take pos data) st" and o: "out_at out0 o0 d st"
    and sc: "sparse_content cfg = chunk_out (big_end cfg) (replicate c_checkpoint_dist 0)"
    and cur: "curr_extent st = Some (off, sz)" and z: "zero_range data (off, sz)"
    and ok: "ok \<Longrightarrow> copy_no_fault st \<and> no_fault (c_out st)"
  shows "runs ok (hole_chunk cfg (length data) pos (off, sz) st) (\<lambda>st'.
    chunk_done cfg data h0 out0 o0 d pos st (pos + c_checkpoint_dist) st' \<and>
    (copy_good cfg ok data cap pos st \<longrightarrow> copy_good cfg ok data cap (pos + c_checkpoint_dist) st'))"
proof -
  note zc = zero_chunk[OF z e]
  have len: "length (sparse_content cfg) = 528"
    by (simp add: sc length_chunk_out length_chunks_exact c_checkpoint_dist_def)
  define goal where "goal = (\<lambda>st'. chunk_done cfg data h0 out0 o0 d pos st (pos + c_checkpoint_dist) st' \<and>
    (copy_good cfg ok data cap pos st \<longrightarrow> copy_good cfg ok data cap (pos + c_checkpoint_dist) st'))"
  have "runs ok (hole_chunk cfg (length data) pos (off, sz) st) goal"
    unfolding hole_chunk_def Let_def
  proof (rule runs_bind[OF write_out_runs[OF o]], goal_cases)
    case 1 then show ?case using ok len by auto
  next
    case (2 st1)
    then obtain f where f: "st1 = st\<lparr>c_out := f\<rparr>" "out_at out0 o0 (d @ sparse_content cfg) st1" "faults f = faults (c_out st)" by blast
    define st2 where "st2 = (if c_hash (st1\<lparr>hashoutputpos := hashoutputpos st1 + length (sparse_content cfg)\<rparr>) \<noteq> No_Hash \<and>
        sparse_extent_start (st1\<lparr>hashoutputpos := hashoutputpos st1 + length (sparse_content cfg)\<rparr>) = None
      then st1\<lparr>hashoutputpos := hashoutputpos st1 + length (sparse_content cfg), sparse_extent_start := Some pos\<rparr>
      else st1\<lparr>hashoutputpos := hashoutputpos st1 + length (sparse_content cfg)\<rparr>)"
    have s2: "c_out st2 = f" "c_f st2 = c_f st" "c_copy st2 = c_copy st" "c_chunk st2 = c_chunk st" "c_hash st2 = c_hash st"
      "c_extents st2 = c_extents st" "curr_extent st2 = curr_extent st" "sha_buf st2 = sha_buf st" "copy_write_pos st2 = copy_write_pos st"
      "copy_sparse_extent_start st2 = copy_sparse_extent_start st" "copy_max_sparse st2 = copy_max_sparse st"
      "sparse_extent_start st2 = (if c_hash st \<noteq> No_Hash \<and> sparse_extent_start st = None then Some pos else sparse_extent_start st)"
      by (simp_all add: st2_def f(1))
    have nf: "ok \<Longrightarrow> copy_no_fault st2" using ok s2 by (simp add: copy_no_fault_def)
    have hi: "hole_inv data pos st2 = hole_inv data pos st" unfolding hole_inv_def copy_reaches_def s2 ..
    have c2: "curr_extent st2 = Some (off, sz)" using cur s2 by simp
    show ?case
      unfolding st2_def[symmetric]
    proof (rule runs_bind[OF hole_copy_runs[where data = data, OF e nf z c2, unfolded Let_def]], assumption, goal_cases)
      case (1 st3)
      note a = 1
      define st4 where "st4 = st3\<lparr>copy_write_pos := copy_write_pos st3 + c_checkpoint_dist\<rparr>"
      have hf: "map_option faults (c_copy st4) = map_option faults (c_copy st)"
        using a s2 by (simp add: st4_def hole_frame_def)
      have nf4: "ok \<Longrightarrow> copy_no_fault st4" using copy_no_fault_eq[OF hf] ok by blast
      show ?case
        unfolding st4_def[symmetric]
      proof (rule runs_bind[OF must_seek_copy_runs[OF nf4]], assumption, goal_cases)
        case (1 st5)
        note b = 1
        have f3: "c_f st5 = c_f st" "c_out st5 = f" "c_chunk st5 = c_chunk st" "c_hash st5 = c_hash st" "c_extents st5 = c_extents st"
          "curr_extent st5 = Some (off, sz)" "sha_buf st5 = sha_buf st" "sparse_extent_start st5 = sparse_extent_start st2"
          "copy_sparse_extent_start st5 \<noteq> None" "copy_write_pos st5 = copy_write_pos st + c_checkpoint_dist"
          "map_option faults (c_copy st5) = map_option faults (c_copy st)"
          "copy_max_sparse st5 = copy_max_sparse st3" "map_option fbytes (c_copy st5) = map_option fbytes (c_copy st3)"
          using a b hf s2 cur by (auto simp: hole_frame_def st4_def)
        obtain g where g: "must_seek_f (pos + c_checkpoint_dist) st5 = Some (st5\<lparr>c_f := g\<rparr>)" "source_at data (pos + c_checkpoint_dist) g"
          using must_seek_f_runs[of data pos st5] src f3(1) by auto
        define t where "t = st5\<lparr>c_f := g\<rparr>"
        have "hash_at (big_end cfg) h0 (take (pos + c_checkpoint_dist) data) t"
          by (rule hash_at_hole[OF h e(3) pos zc]) (simp_all add: t_def f3 s2)
        moreover have "out_at out0 o0 (d @ chunk_out (big_end cfg) (chunk_at data pos)) t"
          using f(2) f3(2) by (simp add: out_at_def t_def f(1) sc zc)
        ultimately have cd: "chunk_done cfg data h0 out0 o0 d pos st (pos + c_checkpoint_dist) t"
          using f3 f(3) g(2) cur e(3) by (simp add: chunk_done_def t_def)
        have "copy_good cfg ok data cap (pos + c_checkpoint_dist) t" if cg: "copy_good cfg ok data cap pos st"
          unfolding copy_good_def
        proof
          assume k: "ok \<and> copy_mode cfg t"
          then have m: "copy_mode cfg st" using f3(3) by (simp add: copy_mode_def t_def)
          have i: "copy_inv cfg data cap pos st" "hole_inv data pos st" using cg k m e(3) by (simp_all add: copy_good_def)
          have r: "copy_max_sparse st3 = Some (min (length data) (off + sz))"
            "\<forall>cp'. c_copy st3 = Some cp' \<longrightarrow> (\<exists>cp. c_copy st = Some cp \<and> length (fbytes cp') = length (fbytes cp) \<and>
              (\<forall>i. pad_nth (fbytes cp') i = (if (copy_sparse_extent_start st = None \<and> off \<le> i) \<and> i < min (length data) (off + sz)
                then 0 else pad_nth (fbytes cp) i)))"
            using a k i(2) unfolding hi s2 by blast+
          have "copy_inv cfg data cap (pos + c_checkpoint_dist) t \<and> hole_inv data (pos + c_checkpoint_dist) t"
          proof (rule copy_good_hole[OF z e i cur])
            fix cp' assume "c_copy t = Some cp'"
            then obtain x where "c_copy st3 = Some x" "fbytes x = fbytes cp'" using f3(13) by (cases "c_copy st3") (auto simp: t_def)
            then show "\<exists>cp. c_copy st = Some cp \<and> length (fbytes cp') = length (fbytes cp) \<and>
              (\<forall>i. pad_nth (fbytes cp') i = (if (copy_sparse_extent_start st = None \<and> off \<le> i) \<and> i < min (length data) (off + sz)
                then 0 else pad_nth (fbytes cp) i))"
              using r(2) by metis
          qed (use f3 r(1) b in \<open>auto simp: t_def st4_def hole_frame_def\<close>)
          then show "copy_inv cfg data cap (min (pos + c_checkpoint_dist) (length data)) t \<and> hole_inv data (pos + c_checkpoint_dist) t"
            using e(3) by simp
        qed
        then show ?case using cd g(1) by (simp add: goal_def t_def)
      qed
    qed
  qed
  then show ?thesis by (simp add: goal_def)
qed

section \<open>All chunks\<close>

definition hashes_of :: "bool \<Rightarrow> byte list \<Rightarrow> byte list" where
  "hashes_of be data = concat (map (chunk_out be) (chunks_of c_checkpoint_dist data))"

lemma hashes_of_step:
  assumes "pos < length data" "pos mod c_checkpoint_dist = 0"
  shows "hashes_of be (take (pos + c_checkpoint_dist) data) = hashes_of be (take pos data) @ chunk_out be (chunk_at data pos)"
proof -
  note c = chunk_at_parts[OF assms]
  show ?thesis unfolding c(3) hashes_of_def using c(1,2,4) assms(2) by (simp add: chunks_of_snoc del: length_take)
qed

lemma scan_start:
  assumes "fst (snd (scan_file be data)) \<noteq> None"
  shows "length data mod c_checkpoint_dist = 0"
proof (cases "data = []")
  case False
  define k where "k = (length data - 1) div c_checkpoint_dist * c_checkpoint_dist"
  have p: "0 < c_checkpoint_dist" by (simp add: c_checkpoint_dist_def)
  have "k \<le> length data - 1" unfolding k_def by simp
  moreover have "0 < length data" using False by simp
  ultimately have k: "k < length data" "k mod c_checkpoint_dist = 0" by (linarith, simp add: k_def)
  have "length data - 1 < k + c_checkpoint_dist"
    using p mod_less_divisor[OF p, of "length data - 1"] div_mult_mod_eq[of "length data - 1" c_checkpoint_dist]
    unfolding k_def by linarith
  then have e: "take (k + c_checkpoint_dist) data = data" by simp
  note c = chunk_at_parts[OF k]
  have "scan_file be data = scan_chunk be (scan_file be (take k data)) (chunk_at data k)"
    using scan_snoc[OF _ c(1,2), of "take k data" be] k(2) c(3,4) e by simp
  then have "length (chunk_at data k) = c_checkpoint_dist" using assms scan_chunk_parts(2) by metis
  then have "length data = k + c_checkpoint_dist" using c(4) arg_cong[OF c(3), of length] e by simp
  then show ?thesis using k(2) by simp
qed simp

lemma load_chunk_hashes_fields:
  "c_f (load_chunk_hashes p st) = c_f st" "c_out (load_chunk_hashes p st) = c_out st" "c_copy (load_chunk_hashes p st) = c_copy st"
  "c_hash (load_chunk_hashes p st) = c_hash st" "c_extents (load_chunk_hashes p st) = c_extents st"
  "curr_extent (load_chunk_hashes p st) = curr_extent st" "sha_buf (load_chunk_hashes p st) = sha_buf st"
  "copy_write_pos (load_chunk_hashes p st) = copy_write_pos st" "sparse_extent_start (load_chunk_hashes p st) = sparse_extent_start st"
  "copy_sparse_extent_start (load_chunk_hashes p st) = copy_sparse_extent_start st"
  "copy_max_sparse (load_chunk_hashes p st) = copy_max_sparse st"
  "c_chunk st = None \<Longrightarrow> c_chunk (load_chunk_hashes p st) = None"
  by (auto simp: load_chunk_hashes_def Let_def split: option.splits prod.splits)

lemma skip_extents_fields:
  "c_f (skip_extents p st) = c_f st \<and> c_out (skip_extents p st) = c_out st \<and> c_copy (skip_extents p st) = c_copy st \<and>
   c_hash (skip_extents p st) = c_hash st \<and> c_chunk (skip_extents p st) = c_chunk st \<and> sha_buf (skip_extents p st) = sha_buf st \<and>
   copy_write_pos (skip_extents p st) = copy_write_pos st \<and> sparse_extent_start (skip_extents p st) = sparse_extent_start st \<and>
   copy_sparse_extent_start (skip_extents p st) = copy_sparse_extent_start st \<and>
   copy_max_sparse (skip_extents p st) = copy_max_sparse st"
proof (induction p st rule: skip_extents.induct)
  case (1 p st)
  show ?case
  proof (cases "curr_extent st")
    case (Some e)
    obtain off sz where e: "e = (off, sz)" by fastforce
    show ?thesis
    proof (cases "off + sz < p")
      case True
      have "skip_extents p st = skip_extents p (nextExtent st)" using Some e True by (subst skip_extents.simps) simp
      then show ?thesis using "1.IH"[OF Some e[symmetric] True] by (auto simp: nextExtent_def split: list.splits)
    qed (use Some e in \<open>subst skip_extents.simps, simp\<close>)+
  qed (subst skip_extents.simps, simp)+
qed

definition extents_in :: "(nat \<times> nat) set \<Rightarrow> chunker \<Rightarrow> bool" where
  "extents_in E st \<longleftrightarrow> set (c_extents st) \<subseteq> E \<and> (\<forall>e. curr_extent st = Some e \<longrightarrow> e \<in> E)"

lemma skip_extents_in: "extents_in E st \<Longrightarrow> extents_in E (skip_extents p st)"
proof (induction p st rule: skip_extents.induct)
  case (1 p st)
  show ?case
  proof (cases "curr_extent st")
    case (Some e)
    obtain off sz where e: "e = (off, sz)" by fastforce
    show ?thesis
    proof (cases "off + sz < p")
      case True
      have "skip_extents p st = skip_extents p (nextExtent st)" using Some e True by (subst skip_extents.simps) simp
      moreover have "extents_in E (nextExtent st)"
        using "1.prems" by (auto simp: extents_in_def nextExtent_def split: list.splits)
      ultimately show ?thesis using "1.IH"[OF Some e[symmetric] True] by simp
    qed (use Some e "1.prems" in \<open>subst skip_extents.simps, simp\<close>)
  qed (use "1.prems" in \<open>subst skip_extents.simps, simp\<close>)
qed

lemma skip_extents_same: "curr_extent st = Some (off, sz) \<Longrightarrow> p \<le> off + sz \<Longrightarrow> skip_extents p st = st"
  by (subst skip_extents.simps) simp

text \<open>\<open>md\<close>: the copy is written anew or compared with its old bytes.\<close>

definition loop_inv :: "chunk_config \<Rightarrow> bool \<Rightarrow> bool \<Rightarrow> byte list \<Rightarrow> nat \<Rightarrow> hash_func \<Rightarrow> byte list \<Rightarrow> (nat \<Rightarrow> nat option) option \<Rightarrow> byte list \<Rightarrow> nat \<Rightarrow> chunker \<Rightarrow> bool" where
  "loop_inv cfg ok md data cap h0 out0 cf pre pos st \<longleftrightarrow>
     (pos < length data \<longrightarrow> pos mod c_checkpoint_dist = 0 \<and> source_at data pos (c_f st)) \<and>
     hash_at (big_end cfg) h0 (take pos data) st \<and>
     out_at out0 0 (pre @ hashes_of (big_end cfg) (take pos data)) st \<and>
     (md \<longrightarrow> copy_mode cfg st) \<and> map_option faults (c_copy st) = cf \<and>
     (ok \<and> md \<longrightarrow> copy_inv cfg data cap (min pos (length data)) st \<and> hole_inv data pos st) \<and>
     (ok \<longrightarrow> copy_no_fault st \<and> no_fault (c_out st)) \<and>
     extents_in {e. zero_range data e} st"

lemma loop_inv_skip:
  assumes "loop_inv cfg ok md data cap h0 out0 cf pre pos st"
  shows "loop_inv cfg ok md data cap h0 out0 cf pre pos (skip_extents pos (load_chunk_hashes pos st))"
proof -
  let ?l = "load_chunk_hashes pos st" and ?s = "skip_extents pos (load_chunk_hashes pos st)"
  note l = load_chunk_hashes_fields[where p = pos and st = st] and s = skip_extents_fields[where p = pos and st = ?l]
  have hl: "hole_inv data pos ?l = hole_inv data pos st"
    unfolding hole_inv_def copy_reaches_def l ..
  have hs: "hole_inv data pos ?s" if h: "hole_inv data pos ?l"
  proof (cases "copy_sparse_extent_start ?l")
    case None
    then show ?thesis using h s by (simp add: hole_inv_def copy_reaches_def)
  next
    case (Some k)
    then obtain off sz where "curr_extent ?l = Some (off, sz)" "pos \<le> off + sz" using h by (auto simp: hole_inv_def)
    then show ?thesis using h by (simp add: skip_extents_same)
  qed
  have "extents_in {e. zero_range data e} ?l" using assms by (simp add: loop_inv_def extents_in_def l)
  then have "extents_in {e. zero_range data e} ?s" by (rule skip_extents_in)
  moreover have "copy_mode cfg ?s" if "copy_mode cfg st" using that l(12) s by (cases "c_chunk st") (auto simp: copy_mode_def)
  moreover have "copy_inv cfg data cap p ?s = copy_inv cfg data cap p st" for p
    using l s by (simp add: copy_inv_def)
  moreover have "hash_at (big_end cfg) h0 d ?s = hash_at (big_end cfg) h0 d st" for d using l s by (simp add: hash_at_def)
  moreover have "out_at out0 0 d ?s = out_at out0 0 d st" for d using l s by (simp add: out_at_def)
  moreover have "copy_no_fault ?s = copy_no_fault st" using l s by (simp add: copy_no_fault_def)
  ultimately show ?thesis using assms hl hs l s by (simp add: loop_inv_def)
qed

lemma loop_inv_done:
  assumes inv: "loop_inv cfg ok md data cap h0 out0 cf pre pos st" and pos: "pos < length data" "pos mod c_checkpoint_dist = 0"
    and cd: "chunk_done cfg data h0 out0 0 (pre @ hashes_of (big_end cfg) (take pos data)) pos st pos' st'"
    and cp: "ok \<and> md \<Longrightarrow> copy_inv cfg data cap (min pos' (length data)) st' \<and> hole_inv data pos' st'"
  shows "pos < pos' \<and> loop_inv cfg ok md data cap h0 out0 cf pre pos' st'"
proof -
  have t: "take pos' data = take (pos + c_checkpoint_dist) data"
    using cd by (auto simp: chunk_done_def split: if_splits)
  have cf: "map_option faults (c_copy st') = map_option faults (c_copy st)" "faults (c_out st') = faults (c_out st)"
    using cd by (simp_all add: chunk_done_def)
  have "ok \<longrightarrow> copy_no_fault st' \<and> no_fault (c_out st')"
    using inv copy_no_fault_eq[OF cf(1)] no_fault_eq[OF cf(2)] by (simp add: loop_inv_def)
  moreover have "pos < pos'" using cd pos(1) by (auto simp: chunk_done_def c_checkpoint_dist_def split: if_splits)
  moreover have "pos' < length data \<longrightarrow> pos' mod c_checkpoint_dist = 0 \<and> source_at data pos' (c_f st')"
    using cd pos(2) by (auto simp: chunk_done_def split: if_splits)
  moreover have "extents_in {e. zero_range data e} st'" using inv cd by (simp add: loop_inv_def extents_in_def chunk_done_def)
  ultimately show ?thesis
    using inv cd cp hashes_of_step[OF pos] by (simp add: loop_inv_def t chunk_done_def copy_mode_def)
qed

lemma chunk_step_runs:
  assumes inv: "loop_inv cfg ok md data cap h0 out0 cf pre pos st" and pos: "pos < length data"
    and mem: "length (buffer (md5_mem cfg)) = 64"
    and sc: "sparse_content cfg = chunk_out (big_end cfg) (replicate c_checkpoint_dist 0)"
  shows "runs ok (chunk_step cfg (length data) pos st) (\<lambda>(pos', st'). pos < pos' \<and> loop_inv cfg ok md data cap h0 out0 cf pre pos' st')"
proof -
  define s where "s = skip_extents pos (load_chunk_hashes pos st)"
  have iv: "loop_inv cfg ok md data cap h0 out0 cf pre pos s" unfolding s_def by (rule loop_inv_skip[OF inv])
  have a: "pos mod c_checkpoint_dist = 0" "source_at data pos (c_f s)" "hash_at (big_end cfg) h0 (take pos data) s"
    "out_at out0 0 (pre @ hashes_of (big_end cfg) (take pos data)) s" "ok \<Longrightarrow> copy_no_fault s \<and> no_fault (c_out s)"
    "\<And>e. curr_extent s = Some e \<Longrightarrow> zero_range data e" "md \<longrightarrow> copy_mode cfg s"
    "ok \<and> md \<longrightarrow> copy_inv cfg data cap pos s \<and> hole_inv data pos s"
    using iv pos by (simp_all add: loop_inv_def extents_in_def)
  have data: "runs ok (data_chunk cfg (length data) pos s) (\<lambda>(pos', st'). pos < pos' \<and> loop_inv cfg ok md data cap h0 out0 cf pre pos' st')"
  proof (rule runs_mono[OF data_chunk_runs[OF a(2) pos a(1,3,4) mem a(5), where cap = cap]], assumption, clarify)
    fix p t assume t: "chunk_done cfg data h0 out0 0 (pre @ hashes_of (big_end cfg) (take pos data)) pos s p t"
      "copy_done cfg ok data cap pos s t" "copy_sparse_extent_start t = None" "copy_max_sparse t = copy_max_sparse s"
    show "pos < p \<and> loop_inv cfg ok md data cap h0 out0 cf pre p t"
    proof (rule loop_inv_done[OF iv pos a(1) t(1)])
      assume k: "ok \<and> md"
      have m: "min p (length data) = min (pos + c_checkpoint_dist) (length data)"
        using t(1) by (auto simp: chunk_done_def split: if_splits)
      have "copy_inv cfg data cap (min p (length data)) t" "copy_reaches (min p (length data)) t"
        unfolding m using t(2) a(7,8) k by (simp_all add: copy_done_def)
      then show "copy_inv cfg data cap (min p (length data)) t \<and> hole_inv data p t"
        using t(3,4) a(8) k by (simp add: hole_inv_def)
    qed
  qed
  show ?thesis
  proof (cases "\<exists>off sz. curr_extent s = Some (off, sz) \<and> off \<le> pos \<and> pos + c_checkpoint_dist \<le> off + sz \<and> pos + c_checkpoint_dist \<le> length data")
    case False
    then have "chunk_step cfg (length data) pos st = data_chunk cfg (length data) pos s"
      unfolding chunk_step_def s_def[symmetric] by (auto simp: Let_def split: option.splits)
    then show ?thesis using data by simp
  next
    case True
    then obtain off sz where e: "curr_extent s = Some (off, sz)" "off \<le> pos" "pos + c_checkpoint_dist \<le> off + sz"
      "pos + c_checkpoint_dist \<le> length data" by blast
    have eq: "chunk_step cfg (length data) pos st =
      (hole_chunk cfg (length data) pos (off, sz) s \<bind> (\<lambda>st. Some (pos + c_checkpoint_dist, st)))"
      unfolding chunk_step_def s_def[symmetric] using e by (simp add: Let_def)
    show ?thesis
      unfolding eq
    proof (rule runs_bind[OF hole_chunk_runs[OF a(2,1) e(2-4) a(3,4) sc e(1) a(6)[OF e(1)] a(5), where cap = cap]], assumption, goal_cases)
      case (1 t)
      have "pos < pos + c_checkpoint_dist \<and> loop_inv cfg ok md data cap h0 out0 cf pre (pos + c_checkpoint_dist) t"
      proof (rule loop_inv_done[OF iv pos a(1) conjunct1[OF 1]])
        assume k: "ok \<and> md"
        have "copy_good cfg ok data cap pos s" using a(8) k pos by (simp add: copy_good_def)
        then have "copy_good cfg ok data cap (pos + c_checkpoint_dist) t" using 1 by blast
        moreover have "copy_mode cfg t" using 1 a(7) k by (simp add: chunk_done_def copy_mode_def)
        ultimately show "copy_inv cfg data cap (min (pos + c_checkpoint_dist) (length data)) t \<and> hole_inv data (pos + c_checkpoint_dist) t"
          using k by (simp add: copy_good_def)
      qed
      then show ?case by simp
    qed
  qed
qed

lemma chunk_loop_runs:
  assumes "loop_inv cfg ok md data cap h0 out0 cf pre pos st" "length (buffer (md5_mem cfg)) = 64"
    "sparse_content cfg = chunk_out (big_end cfg) (replicate c_checkpoint_dist 0)"
  shows "runs ok (chunk_loop cfg (length data) pos st) (\<lambda>st'. \<exists>p. length data \<le> p \<and> loop_inv cfg ok md data cap h0 out0 cf pre p st')"
  using assms
proof (induction "length data - pos" arbitrary: pos st rule: less_induct)
  case less
  show ?case
  proof (cases "pos < length data")
    case False
    then show ?thesis using less.prems(1) unfolding chunk_loop.simps[of cfg "length data" pos st] by (auto intro!: exI[of _ pos])
  next
    case True
    show ?thesis
      unfolding chunk_loop.simps[of cfg "length data" pos st] if_P[OF True]
    proof (rule runs_bind[OF chunk_step_runs[OF less.prems(1) True less.prems(2,3)]])
      fix y assume y: "case y of (pos', st') \<Rightarrow> pos < pos' \<and> loop_inv cfg ok md data cap h0 out0 cf pre pos' st'"
      obtain p s where y1: "y = (p, s)" by fastforce
      have "pos < p" using y y1 by simp
      then have "length data - p < length data - pos" by (rule diff_less_mono2[OF _ True])
      then show "runs ok (case y of (pos, st) \<Rightarrow> chunk_loop cfg (length data) pos st)
        (\<lambda>st'. \<exists>p. length data \<le> p \<and> loop_inv cfg ok md data cap h0 out0 cf pre p st')"
        unfolding y1 prod.case using less.hyps[of p s] y y1 less.prems(2,3) by simp
    qed
  qed
qed

end
