(* ===== verification/Chunk_Hash_File.thy ===== *)
theory Chunk_Hash_File
  imports Chunk_Run
begin

text \<open>
  The whole of \<open>build_chunk_hashs\<close>: the hash file, the digest of the hash object and the copy.
\<close>

section \<open>The whole file\<close>

lemma flush_hole_view:
  assumes "hash_at (big_end cfg) h0 data st"
  shows "\<exists>h. (if sparse_extent_start st \<noteq> None
      then if length data mod c_checkpoint_dist = 0 then flush_hole cfg (length data) st else None
      else Some st) = Some (st\<lparr>c_hash := h, sparse_extent_start := None\<rparr>) \<and> hash_view (big_end cfg) h0 h (file_calls (big_end cfg) data)"
proof -
  let ?be = "big_end cfg"
  obtain start calls where a: "scan_file ?be data = (length data, start, calls)" "hash_view ?be h0 (c_hash st) calls"
    "sparse_extent_start st = (if c_hash st = No_Hash then None else start)"
    using assms by (auto simp: hash_at_def)
  have fc: "file_calls ?be data = calls @ hole_calls ?be (length data) start"
    using a(1) by (simp add: file_calls_def scan_file_def)
  show ?thesis
  proof (cases "sparse_extent_start st")
    case None
    then have e: "st = st\<lparr>c_hash := c_hash st, sparse_extent_start := None\<rparr>" by simp
    show ?thesis
    proof (cases "c_hash st = No_Hash")
      case True
      then show ?thesis using None a(2) e by (intro exI[of _ No_Hash]) (simp add: hash_view_def)
    next
      case False
      then have "start = None" using a(3) None by simp
      then show ?thesis using None a(2) e fc by (intro exI[of _ "c_hash st"]) (simp add: hole_calls_def)
    qed
  next
    case (Some s0)
    then have s: "start = Some s0" "c_hash st \<noteq> No_Hash" using a(3) by (simp_all split: if_splits)
    have m: "length data mod c_checkpoint_dist = 0" using scan_start[of ?be data] a(1) s(1) by simp
    obtain h where h: "hashf_sparse_hash ?be (hole_note ?be s0 (length data - s0)) (c_hash st) = Some h"
      "hash_view ?be h0 h (calls @ [Hole (hole_note ?be s0 (length data - s0))])"
      using hash_view_hole[OF a(2) s(2)] by blast
    show ?thesis using Some m h by (intro exI[of _ h]) (simp add: flush_hole_def fc s(1) hole_calls_def)
  qed
qed

lemma File_Resize_fields:
  assumes "File_Resize n f = (b, f')"
  shows "no_fault f \<Longrightarrow> 0 \<le> n \<Longrightarrow> b \<and> fbytes f' = take (nat n) (fbytes f) @ replicate (nat n - length (fbytes f)) 0"
  using assms no_fault_outcome[of f] by (auto simp: File_Resize_def Let_def split: if_splits)

lemma finish_copy_runs:
  assumes inv: "loop_inv cfg ok md data cap h0 out0 cf pre p st" and p: "length data \<le> p"
    and st1: "c_copy st1 = c_copy st" "copy_max_sparse st1 = copy_max_sparse st"
  shows "runs ok (finish_copy st1) (\<lambda>st'. c_out st' = c_out st1 \<and> c_hash st' = c_hash st1 \<and>
    (\<forall>cp. c_copy st = Some cp \<longrightarrow> (\<exists>cp'. c_copy st' = Some cp' \<and>
      (ok \<and> md \<longrightarrow> length data \<le> length (fbytes cp') \<and> length (fbytes cp') \<le> max cap (length data) \<and>
        take (length data) (fbytes cp') = data))))"
proof -
  have m: "min p (length data) = length data" using p by simp
  have good: "(\<forall>i < length data. pad_nth (fbytes cp) i = data ! i) \<and> length (fbytes cp) \<le> max cap (length data) \<and>
      (length data \<le> length (fbytes cp) \<or> copy_max_sparse st = Some (length data)) \<and>
      (\<forall>k. copy_max_sparse st = Some k \<longrightarrow> k \<le> length data)"
    if "ok \<and> md" "c_copy st = Some cp" for cp
  proof -
    have i: "copy_inv cfg data cap (length data) st" "hole_inv data p st"
      using inv that(1) unfolding loop_inv_def m by blast+
    have "length data \<le> length (fbytes cp) \<or> copy_max_sparse st = Some (length data)"
    proof (cases "copy_sparse_extent_start st")
      case None then show ?thesis using i(2) that(2) m by (simp add: hole_inv_def copy_reaches_def)
    next
      case (Some k) then show ?thesis using i(2) p by (auto simp: hole_inv_def min_def)
    qed
    then show ?thesis using i that(2) by (simp add: copy_inv_def hole_inv_def)
  qed
  have take_ok: "take (length data) bs = data" if "\<forall>i < length data. pad_nth bs i = data ! i" "length data \<le> length bs" for bs
    by (rule pad_nth_list) (use that in auto)
  show ?thesis
  proof (cases "c_copy st")
    case None then show ?thesis using st1 by (simp add: finish_copy_def)
  next
    case (Some f)
    show ?thesis
    proof (cases "copy_max_sparse st")
      case n: None
      then show ?thesis using Some st1 good take_ok by (simp add: finish_copy_def)
    next
      case k: (Some k)
      obtain n g where s: "File_Size f = (n, g)" by fastforce
      have sz: "n = int (length (fbytes f)) \<and> fbytes g = fbytes f \<and> no_fault g" if ok
      proof -
        have "no_fault f" using inv that Some by (simp add: loop_inv_def copy_no_fault_def)
        then show ?thesis using File_Size_ok[of f] s no_fault_eq[of g f] by auto
      qed
      show ?thesis
      proof (cases "n < int k")
        case False
        then have "length data \<le> length (fbytes f)" if "ok \<and> md"
          using sz good[OF that Some] that k by auto
        then show ?thesis using False s Some k st1 sz good take_ok by (simp add: finish_copy_def)
      next
        case True
        obtain b h where r: "File_Resize (int k) g = (b, h)" by fastforce
        have ro: "b \<and> fbytes h = take k (fbytes f) @ replicate (k - length (fbytes f)) 0" if ok
          using File_Resize_fields[OF r] sz[OF that] by simp
        have "length data \<le> length (fbytes h) \<and> length (fbytes h) \<le> max cap (length data) \<and> take (length data) (fbytes h) = data"
          if o: "ok \<and> md"
        proof -
          note q = good[OF o Some]
          have lt: "length (fbytes f) < k" using True sz o by simp
          then have kd: "k = length data" using q k by auto
          have h: "fbytes h = fbytes f @ replicate (k - length (fbytes f)) 0" using ro o lt by simp
          have "pad_nth (fbytes h) i = pad_nth (fbytes f) i" for i by (auto simp: h pad_nth_def nth_append)
          then show ?thesis using q take_ok[of "fbytes h"] kd lt h by simp
        qed
        then show ?thesis using True s Some k st1 r ro by (auto simp: finish_copy_def)
      qed
    qed
  qed
qed

lemma build_chunk_hashs_runs:
  assumes f: "no_fault f" and out: "fpos hashoutput = 0"
    and mem: "length (buffer (md5_mem cfg)) = 64"
    and sc: "sparse_content cfg = chunk_out (big_end cfg) (replicate c_checkpoint_dist 0)"
    and h: "hash_start hashf" and ext: "\<forall>e \<in> set extents. zero_range (fbytes f) e"
    and ok: "ok \<Longrightarrow> no_fault hashoutput \<and> (\<forall>cp. copy = Some cp \<longrightarrow> no_fault cp) \<and>
      (\<forall>hin. hashinput = Some hin \<longrightarrow> no_fault hin \<and> 8 \<le> length (fbytes hin))"
    and md: "md \<Longrightarrow> \<not> (modify_inplace cfg \<and> hashinput \<noteq> None) \<and> (\<forall>cp. copy = Some cp \<longrightarrow> fpos cp = 0 \<and> length (fbytes cp) \<le> cap)"
  shows "runs ok (build_chunk_hashs cfg f hashoutput copy hashinput hashf extents) (\<lambda>st.
    fbytes (c_out st) = overwrite (fbytes hashoutput) 0 (le_bytes 8 (of_nat (length (fbytes f)) :: u64) @ hashes_of (big_end cfg) (fbytes f)) \<and>
    hash_view (big_end cfg) hashf (c_hash st) (file_calls (big_end cfg) (fbytes f)) \<and>
    (\<forall>cp. copy = Some cp \<longrightarrow> (\<exists>cp'. c_copy st = Some cp' \<and>
      (ok \<and> md \<longrightarrow> length (fbytes f) \<le> length (fbytes cp') \<and> length (fbytes cp') \<le> max cap (length (fbytes f)) \<and>
        take (length (fbytes f)) (fbytes cp') = fbytes f))))"
proof -
  define data where "data = fbytes f"
  define f2 where "f2 = next_op (snd (File_Seek 0 f))"
  define o2 where "o2 = snd (File_Seek 0 hashoutput)"
  define pre where "pre = le_bytes 8 (of_nat (length data) :: u64)"
  obtain f1 where f1: "File_Seek 0 f = (True, f1)" "source_at data 0 f1"
    using source_seek[of data "fpos f" f 0] f by (auto simp: source_at_def data_def)
  have nf1: "no_fault f1" "fbytes f1 = data" using f1(2) by (simp_all add: source_at_def)
  have fs: "File_Size (snd (File_Seek 0 f)) = (int (length data), f2)"
    using File_Size_ok[OF nf1(1)] nf1(2) f1(1) by (simp add: f2_def)
  have src: "source_at data 0 f2" using f1 no_fault_eq[of f2 f1] by (simp add: f2_def source_at_def)
  have o2: "fbytes o2 = fbytes hashoutput" "faults o2 = faults hashoutput" "fpos o2 = 0"
    using out File_Seek_fields[of 0 hashoutput "fst (File_Seek 0 hashoutput)" o2]
    by (simp_all add: o2_def File_Seek_def)
  have "length pre = 8" by (simp add: pre_def)
  then have lp: "pre \<noteq> []" "length pre \<le> 2 ^ 32" by auto
  have w: "runs ok (writeRepeatFreeSpace (space_cb cfg) o2 pre) (written o2 pre)"
    by (rule writeRepeatFreeSpace_runs) (use ok lp no_fault_eq[OF o2(2)] in auto)
  have hi: "runs ok (open_hash_input (big_end cfg) hashinput) (\<lambda>(hin, sz). (hin = None) = (hashinput = None))"
  proof (cases hashinput)
    case (Some hin)
    obtain d e g where rd: "File_Read 8 (snd (File_Seek 0 hin)) = (d, e, g)" by (metis prod_cases3)
    have "length d = 8" if ok
    proof -
      have n: "no_fault hin" "8 \<le> length (fbytes hin)" using ok[OF that] Some by simp_all
      obtain hs where hs: "File_Seek 0 hin = (True, hs)" "source_at (fbytes hin) 0 hs"
        using source_seek[of "fbytes hin" "fpos hin" hin 0] n by (auto simp: source_at_def)
      have nh: "no_fault hs" "fbytes hs = fbytes hin" "fpos hs = 0" using hs(2) by (simp_all add: source_at_def)
      obtain m where "os_outcome hs = Some m" "2 ^ 32 \<le> m" using no_fault_outcome[OF nh(1)] by blast
      then have "\<not> e" using rd hs(1) by (auto simp: File_Read_def Let_def)
      then show ?thesis using File_Read_full[of 8 hs d g] rd hs(1) no_fault_short[OF nh(1)] nh n by simp
    qed
    then show ?thesis using Some rd by (auto simp: open_hash_input_def)
  qed (simp add: open_hash_input_def)
  show ?thesis
    unfolding build_chunk_hashs_def Let_def fs prod.case o2_def[symmetric] nat_int of_int_of_nat_eq data_def[symmetric] pre_def[symmetric]
  proof (rule runs_bind[OF w], rule runs_bind[OF hi], goal_cases)
    case (1 ho y)
    obtain hin sz where y: "y = (hin, sz)" by fastforce
    define st0 where "st0 = nextExtent \<lparr>c_f = f2, c_out = ho, c_copy = copy, c_in = hin, c_input_size = sz,
      c_chunk = map_option (\<lambda>_. (replicate 16 0, replicate 512 0)) hin, c_hash = hashf,
      c_extents = extents, curr_extent = None,
      sha_buf = (if is_plain hashf then replicate c_checkpoint_dist 0 else []), copy_write_pos = 0,
      copy_read_eof = False, hashoutputpos = 8, sparse_extent_start = None,
      copy_sparse_extent_start = None, copy_max_sparse = None, inplace_written = 0\<rparr>"
    have s: "c_f st0 = f2" "c_out st0 = ho" "c_copy st0 = copy" "c_hash st0 = hashf"
      "c_chunk st0 = map_option (\<lambda>_. (replicate 16 0, replicate 512 0)) hin" "copy_write_pos st0 = 0" "sparse_extent_start st0 = None"
      "copy_sparse_extent_start st0 = None" "copy_max_sparse st0 = None"
      "sha_buf st0 = (if is_plain hashf then replicate c_checkpoint_dist 0 else [])"
      by (simp_all add: st0_def nextExtent_def split: list.splits)
    have "extents_in {e. zero_range data e} st0"
      using ext by (auto simp: st0_def extents_in_def nextExtent_def data_def split: list.splits)
    moreover have "out_at (fbytes hashoutput) 0 (pre @ hashes_of (big_end cfg) []) st0"
      using 1(1) o2 by (simp add: out_at_def written_def s hashes_of_def chunks_of_Nil)
    moreover have "hash_at (big_end cfg) hashf [] st0"
      using hash_view_start[OF h] by (simp add: hash_at_def scan_Nil s)
    moreover have "md \<longrightarrow> copy_mode cfg st0" using md 1(2) y by (auto simp: copy_mode_def s)
    moreover have "ok \<and> md \<longrightarrow> copy_inv cfg data cap 0 st0 \<and> hole_inv data 0 st0"
      using md by (fastforce simp: copy_inv_def hole_inv_def copy_reaches_def s le_max_iff_disj)
    moreover have "ok \<longrightarrow> copy_no_fault st0 \<and> no_fault (c_out st0)"
    proof
      assume o: ok
      have "faults ho = faults hashoutput" using 1(1) o2 by (simp add: written_def)
      from no_fault_eq[OF this] show "copy_no_fault st0 \<and> no_fault (c_out st0)"
        using ok[OF o] by (simp add: copy_no_fault_def s)
    qed
    ultimately have inv: "loop_inv cfg ok md data cap hashf (fbytes hashoutput) (map_option faults copy) pre 0 st0"
      using src by (simp add: loop_inv_def s)
    show ?case
      unfolding y prod.case st0_def[symmetric]
    proof (rule runs_bind[OF chunk_loop_runs[OF inv mem sc]], elim exE conjE)
      fix st p assume p: "length data \<le> p" and li: "loop_inv cfg ok md data cap hashf (fbytes hashoutput) (map_option faults copy) pre p st"
      have t: "take p data = data" using p by simp
      have ha: "hash_at (big_end cfg) hashf data st" "out_at (fbytes hashoutput) 0 (pre @ hashes_of (big_end cfg) data) st"
        "map_option faults (c_copy st) = map_option faults copy"
        using li by (simp_all add: loop_inv_def t)
      obtain hh where hh: "(if sparse_extent_start st \<noteq> None
          then if length data mod c_checkpoint_dist = 0 then flush_hole cfg (length data) st else None
          else Some st) = Some (st\<lparr>c_hash := hh, sparse_extent_start := None\<rparr>)"
        "hash_view (big_end cfg) hashf hh (file_calls (big_end cfg) data)" using flush_hole_view[OF ha(1)] by blast
      have "runs ok (finish_copy (st\<lparr>c_hash := hh, sparse_extent_start := None\<rparr>)) (\<lambda>st'. c_out st' = c_out st \<and> c_hash st' = hh \<and>
        (\<forall>cp. c_copy st = Some cp \<longrightarrow> (\<exists>cp'. c_copy st' = Some cp' \<and>
          (ok \<and> md \<longrightarrow> length data \<le> length (fbytes cp') \<and> length (fbytes cp') \<le> max cap (length data) \<and>
            take (length data) (fbytes cp') = data))))"
        using finish_copy_runs[OF li p, of "st\<lparr>c_hash := hh, sparse_extent_start := None\<rparr>"] by simp
      then show "runs ok ((if sparse_extent_start st \<noteq> None
          then if length data mod c_checkpoint_dist = 0 then flush_hole cfg (length data) st else None
          else Some st) \<bind> finish_copy) (\<lambda>st.
        fbytes (c_out st) = overwrite (fbytes hashoutput) 0 (pre @ hashes_of (big_end cfg) data) \<and>
        hash_view (big_end cfg) hashf (c_hash st) (file_calls (big_end cfg) data) \<and>
        (\<forall>cp. copy = Some cp \<longrightarrow> (\<exists>cp'. c_copy st = Some cp' \<and>
          (ok \<and> md \<longrightarrow> length data \<le> length (fbytes cp') \<and> length (fbytes cp') \<le> max cap (length data) \<and>
            take (length data) (fbytes cp') = data))))"
        unfolding hh(1) Option.bind.bind_lunit
        by (rule runs_mono) (use ha(2,3) hh(2) in \<open>auto simp: out_at_def\<close>)
    qed
  qed
qed

section \<open>What is computed, and for which calls\<close>

text \<open>The hashes of a file: its size and the hash of every chunk; the chunks that are hashed as data.\<close>

definition hash_file :: "byte list \<Rightarrow> byte list" where
  "hash_file data = le_bytes 8 (of_nat (length data) :: u64) @ concat (map (chunk_hash False) (chunks_of c_checkpoint_dist data))"

definition is_zero_chunk :: "byte list \<Rightarrow> bool" where
  "is_zero_chunk c \<longleftrightarrow> length c = c_checkpoint_dist \<and> buf_is_zero c"

definition dense_content :: "byte list \<Rightarrow> byte list" where
  "dense_content data = concat (filter (\<lambda>c. \<not> is_zero_chunk c) (chunks_of c_checkpoint_dist data))"

definition chunk_setup :: "chunk_config \<Rightarrow> File \<Rightarrow> File \<Rightarrow> hash_func \<Rightarrow> (nat \<times> nat) list \<Rightarrow> bool" where
  "chunk_setup cfg f hashoutput hashf extents \<longleftrightarrow>
     no_fault f \<and> fpos hashoutput = 0 \<and> \<not> big_end cfg \<and> length (buffer (md5_mem cfg)) = 64 \<and>
     build_sparse_extent_content False (md5_mem cfg) = Some (sparse_content cfg) \<and>
     hash_start hashf \<and> (\<forall>e \<in> set extents. zero_range (fbytes f) e)"

definition no_faults :: "File \<Rightarrow> File option \<Rightarrow> File option \<Rightarrow> bool" where
  "no_faults hashoutput copy hashinput \<longleftrightarrow> no_fault hashoutput \<and> (\<forall>cp. copy = Some cp \<longrightarrow> no_fault cp) \<and>
     (\<forall>hin. hashinput = Some hin \<longrightarrow> no_fault hin \<and> 8 \<le> length (fbytes hin))"

lemma hashes_of_False: "hashes_of False data = concat (map (chunk_hash False) (chunks_of c_checkpoint_dist data))"
  by (simp add: hashes_of_def chunk_out_False[abs_def])

lemma chunks_of_zeros: "chunks_of 4096 (replicate (n * 4096) (0 :: byte)) = replicate n (replicate 4096 0)"
proof (induction n)
  case (Suc n)
  have "replicate (Suc n * 4096) (0 :: byte) = replicate 4096 0 @ replicate (n * 4096) 0" by (simp add: replicate_add)
  then show ?case using Suc by (simp add: chunks_of_append chunks_of_short)
qed (simp add: chunks_of_Nil)

lemma fold_const: "fold (\<lambda>i m. g m) [0..<n] m = fold (\<lambda>x m. g m) (replicate n x) m"
proof (induction n arbitrary: m)
  case (Suc n)
  have "replicate (Suc n) x = replicate n x @ [x]" by (simp add: replicate_append_same)
  then show ?case using Suc by simp
qed simp

lemma map_const_upt: "map (\<lambda>i. x) [0..<n] = replicate n x"
  by (induction n) (simp_all add: replicate_append_same)

lemma sparse_content_hash:
  assumes "length (buffer g) = 64"
  shows "build_sparse_extent_content False g = Some (chunk_hash False (replicate c_checkpoint_dist 0))"
proof -
  let ?z = "replicate 4096 (0 :: byte)"
  define zs where "zs = replicate (128 * 4096) (0 :: byte)"
  have c: "chunks_of 4096 zs = replicate 128 ?z" unfolding zs_def by (rule chunks_of_zeros)
  have con: "concat (replicate 128 ?z) = zs" using concat_chunks_of[of 4096 zs] c by simp
  have "md5_inv (fold (\<lambda>d m. md5_update m d) (replicate 128 ?z) (md5_init g)) ([] @ concat (replicate 128 ?z))"
    by (rule md5.absorb_all) (use md5_init_inv[OF assms] in auto)
  then have "raw_digest_int (md5_finalize (fold (\<lambda>d m. md5_update m d) (replicate 128 ?z) (md5_init g))) = Some (md5_of zs)"
    using md5_finalize_digest con by simp
  moreover have "fold (\<lambda>d m. md5_update m d) (replicate 128 ?z) m = fold (\<lambda>i m. md5_update m ?z) [0..<128] m" for m
    unfolding fold_const[where x = "?z"] by (rule fold_cong) auto
  moreover have "urb_adler32 (urb_adler32 0 None) (Some ?z) = adler32_of ?z"
    using adler32_update[of "[]" ?z] by (simp add: adler32_start)
  moreover have "replicate c_checkpoint_dist (0 :: byte) = zs" by (simp add: c_checkpoint_dist_def zs_def)
  ultimately show ?thesis
    by (simp add: build_sparse_extent_content_def c_small_hash_dist_def c_checkpoint_dist_def chunk_hash_words words_of_def c
      length_md5_of little_endian32_def is_big_endian_host map_const_upt Let_def)
qed

lemma chunk_setup_runs:
  assumes "chunk_setup cfg f hashoutput hashf extents"
  shows "runs (no_faults hashoutput copy hashinput) (build_chunk_hashs cfg f hashoutput copy hashinput hashf extents) (\<lambda>st.
    fbytes (c_out st) = overwrite (fbytes hashoutput) 0 (hash_file (fbytes f)) \<and>
    hash_view False hashf (c_hash st) (file_calls False (fbytes f)) \<and>
    (\<forall>cp. copy = Some cp \<longrightarrow> (\<exists>cp'. c_copy st = Some cp' \<and>
      (no_faults hashoutput copy hashinput \<and> \<not> (modify_inplace cfg \<and> hashinput \<noteq> None) \<and> fpos cp = 0 \<longrightarrow>
        length (fbytes f) \<le> length (fbytes cp') \<and> length (fbytes cp') \<le> max (length (fbytes cp)) (length (fbytes f)) \<and>
        take (length (fbytes f)) (fbytes cp') = fbytes f))))"
proof -
  have s: "no_fault f" "fpos hashoutput = 0" "big_end cfg = False" "length (buffer (md5_mem cfg)) = 64"
    "sparse_content cfg = chunk_out (big_end cfg) (replicate c_checkpoint_dist 0)" "hash_start hashf"
    "\<forall>e \<in> set extents. zero_range (fbytes f) e"
    using assms sparse_content_hash by (auto simp: chunk_setup_def chunk_out_False)
  define md where "md = (\<not> (modify_inplace cfg \<and> hashinput \<noteq> None) \<and> (\<forall>cp. copy = Some cp \<longrightarrow> fpos cp = 0))"
  define cap where "cap = (case copy of None \<Rightarrow> 0 | Some cp \<Rightarrow> length (fbytes cp))"
  show ?thesis
    by (rule runs_mono[OF build_chunk_hashs_runs[OF s(1,2,4,5,6,7), where md = md and cap = cap and copy = copy and hashinput = hashinput]])
      (auto simp: no_faults_def md_def cap_def s(3) hash_file_def hashes_of_False)
qed

lemma full_calls_ok: "(\<forall>c \<in> set cs. case c of Block b \<Rightarrow> length b = treehash_blocksize | Hole _ \<Rightarrow> True | Bytes _ \<Rightarrow> False) \<Longrightarrow>
  calls_ok 0 (cs @ ds) = calls_ok 0 ds"
proof (induction cs)
  case (Cons c cs)
  then show ?case by (cases c) (auto simp: treehash_blocksize_def)
qed simp

lemma scan_full_calls:
  assumes "\<forall>c \<in> set cs. length c = c_checkpoint_dist"
    "\<forall>c \<in> set calls. case c of Block b \<Rightarrow> length b = treehash_blocksize | Hole _ \<Rightarrow> True | Bytes _ \<Rightarrow> False"
    "foldl (scan_chunk be) (pos, start, calls) cs = (pos', start', calls')"
  shows "\<forall>c \<in> set calls'. case c of Block b \<Rightarrow> length b = treehash_blocksize | Hole _ \<Rightarrow> True | Bytes _ \<Rightarrow> False"
  using assms
proof (induction cs arbitrary: pos start calls)
  case (Cons c cs)
  obtain p s k where sc: "scan_chunk be (pos, start, calls) c = (p, s, k)" by (metis prod_cases3)
  have "\<forall>c \<in> set k. case c of Block b \<Rightarrow> length b = treehash_blocksize | Hole _ \<Rightarrow> True | Bytes _ \<Rightarrow> False"
    using sc Cons.prems(1,2)
    by (auto simp: hole_calls_def treehash_blocksize_def c_checkpoint_dist_def split: if_splits option.splits)
  then show ?case using Cons.IH[of k p s] Cons.prems(1,3) sc by simp
qed simp

lemma file_calls_ok: "calls_ok 0 (file_calls be data)"
proof -
  define k where "k = length data div c_checkpoint_dist * c_checkpoint_dist"
  have p: "0 < c_checkpoint_dist" by (simp add: c_checkpoint_dist_def)
  have "k \<le> length data" unfolding k_def by simp
  then have a: "length (take k data) = k" "k mod c_checkpoint_dist = 0" by (simp_all add: k_def)
  have b: "length (drop k data) < c_checkpoint_dist" by (simp add: k_def p minus_div_mult_eq_mod)
  have full: "\<forall>c \<in> set (chunks_of c_checkpoint_dist (take k data)). length c = c_checkpoint_dist"
  proof
    fix c assume "c \<in> set (chunks_of c_checkpoint_dist (take k data))"
    then obtain i where "i < length (chunks_of c_checkpoint_dist (take k data))" "c = chunks_of c_checkpoint_dist (take k data) ! i"
      by (auto simp: in_set_conv_nth)
    then show "length c = c_checkpoint_dist" using length_chunks_nth[OF p, of i "take k data"] by (simp only: a) simp
  qed
  have ch: "chunks_of c_checkpoint_dist data = chunks_of c_checkpoint_dist (take k data) @ (if drop k data = [] then [] else [drop k data])"
    using chunks_of_append[of "take k data" c_checkpoint_dist "drop k data"] a b
    by (simp add: chunks_of_short chunks_of_Nil del: drop_eq_Nil length_drop length_take)
  obtain pos start calls where s: "foldl (scan_chunk be) (0, None, []) (chunks_of c_checkpoint_dist (take k data)) = (pos, start, calls)"
    by (metis prod_cases3)
  have fc: "\<forall>c \<in> set calls. case c of Block b \<Rightarrow> length b = treehash_blocksize | Hole _ \<Rightarrow> True | Bytes _ \<Rightarrow> False"
    by (rule scan_full_calls[OF full _ s]) simp
  have h: "\<forall>c \<in> set (hole_calls be q st). case c of Block b \<Rightarrow> length b = treehash_blocksize | Hole _ \<Rightarrow> True | Bytes _ \<Rightarrow> False" for q st
    by (cases st) (simp_all add: hole_calls_def)
  have c1: "calls_ok 0 (calls @ ds) = calls_ok 0 ds" for ds by (rule full_calls_ok[OF fc])
  have c2: "calls_ok 0 (hole_calls be q st @ ds) = calls_ok 0 ds" for q st ds by (rule full_calls_ok[OF h])
  show ?thesis
  proof (cases "drop k data = []")
    case True
    then have "chunks_of c_checkpoint_dist data = chunks_of c_checkpoint_dist (take k data)" unfolding ch by simp
    then have "file_calls be data = calls @ hole_calls be pos start" unfolding file_calls_def by (simp only: s prod.case Let_def)
    then show ?thesis using c2[of pos start "[]"] by (simp add: c1)
  next
    case False
    then have "chunks_of c_checkpoint_dist data = chunks_of c_checkpoint_dist (take k data) @ [drop k data]" unfolding ch by simp
    moreover have "scan_chunk be (pos, start, calls) (drop k data) = (pos + length (drop k data), None, calls @ hole_calls be pos start @ [Block (drop k data)])"
      using b by simp
    ultimately have "file_calls be data = calls @ hole_calls be pos start @ [Block (drop k data)]"
      unfolding file_calls_def by (simp only: foldl_append foldl.simps s prod.case Let_def) (simp add: hole_calls_def)
    moreover have "calls_ok 0 [Block (drop k data)]"
      using False b by (simp add: treehash_blocksize_def c_checkpoint_dist_def del: length_drop)
    ultimately show ?thesis by (simp only: c1 c2)
  qed
qed

lemma content_holes: "content (hole_calls be p s) = []"
  by (simp add: hole_calls_def split: option.split)

lemma content_scan:
  "foldl (scan_chunk be) (pos, start, calls) cs = (pos', start', calls') \<Longrightarrow>
   content calls' = content calls @ concat (filter (\<lambda>c. \<not> is_zero_chunk c) cs)"
proof (induction cs arbitrary: pos start calls)
  case (Cons c cs)
  obtain p s k where sc: "scan_chunk be (pos, start, calls) c = (p, s, k)" by (metis prod_cases3)
  then have "content k = content calls @ concat (filter (\<lambda>c. \<not> is_zero_chunk c) [c])"
    by (auto simp: is_zero_chunk_def content_holes split: if_splits)
  then show ?case using Cons.IH[of p s k] Cons.prems sc by simp
qed simp

lemma content_file_calls: "content (file_calls be data) = dense_content data"
proof -
  obtain pos start calls where s: "foldl (scan_chunk be) (0, None, []) (chunks_of c_checkpoint_dist data) = (pos, start, calls)"
    by (metis prod_cases3)
  then show ?thesis using content_scan[OF s] by (simp add: file_calls_def dense_content_def content_holes)
qed

lemma new_hash_starts:
  "length (buffer g) = 64 \<Longrightarrow> hash_start (Tree (new_TreeHash out g))" "hash_start (Plain new_HashSha512)"
  by (simp_all add: hash_start_def tree_rep_new new_HashSha512_def SHA512_Init_inv)

lemma tree_view_digest:
  assumes "hash_view be (Tree (new_TreeHash out g)) h (file_calls be data)" "length (buffer g) = 64"
  shows "\<exists>t t'. h = Tree t \<and> tree_finalize be t = Some (tree_hash_of (dense_content data) (hole_bytes (file_calls be data)), t')"
proof -
  obtain t where t: "h = Tree t" "run_calls be (file_calls be data) (new_TreeHash out g) = Some t"
    using assms(1) by (auto simp: hash_view_def is_plain_def split: hash_func.splits)
  have "calls_ok (length []) (file_calls be data)" by (simp add: file_calls_ok)
  from run_calls_rep[OF tree_rep_new[OF assms(2), of out] this, of be]
  obtain t' ls cur where r: "run_calls be (file_calls be data) (new_TreeHash out g) = Some t'"
    "tree_rep t' ls cur (hole_bytes (file_calls be data))"
    "(if cur = [] then ls else ls @ [leaf_of cur]) = map leaf_of (chunks_of treehash_blocksize (dense_content data))"
    unfolding add_holes_None append_Nil content_file_calls by (elim exE conjE)
  have "t' = t" using t(2) r(1) by simp
  with tree_finalize_rep[OF r(2), of be] show ?thesis unfolding r(3) tree_hash_of_def[symmetric] using t(1) by blast
qed

lemma plain_view_digest:
  assumes "hash_view be (Plain new_HashSha512) h (file_calls be data)"
  shows "\<exists>p. h = Plain p \<and> sha512_finalize be p = sha512_of (dense_content data @
    (case hole_bytes (file_calls be data) of None \<Rightarrow> [] | Some s \<Rightarrow> sha512_of s))"
proof -
  obtain p where p: "h = Plain p" "sha_inv (sha_ctx p) (dense_content data)" "sha_has_sparse p = (hole_bytes (file_calls be data) \<noteq> None)"
    "sha_inv (sha_sparse_ctx p) (case hole_bytes (file_calls be data) of None \<Rightarrow> [] | Some s \<Rightarrow> s)"
    using assms by (cases h) (auto simp: hash_view_def content_file_calls)
  show ?thesis
  proof (cases "hole_bytes (file_calls be data)")
    case None
    then show ?thesis using p by (intro exI[of _ p]) (simp add: sha512_finalize_def SHA512_Final_digest)
  next
    case (Some s)
    have "sha_inv (SHA512_Update be (sha_ctx p) (sha512_of s)) (dense_content data @ sha512_of s)"
      using p(2) by (rule SHA512_Update_inv)
    then show ?thesis using p Some by (intro exI[of _ p]) (simp add: sha512_finalize_def SHA512_Final_digest)
  qed
qed

section \<open>Properties\<close>

text \<open>A file of two chunks of zeros, which the file system reports as one hole, and a byte; files without faults.\<close>

definition example_mem :: MD5 where
  "example_mem = \<lparr>state = (0, 0, 0, 0), count0 = 7, count1 = 7, buffer = replicate 64 9, digest = [], finalized = True\<rparr>"

definition example_cfg :: "bool \<Rightarrow> chunk_config" where
  "example_cfg inplace = \<lparr>big_end = False, space_cb = None, modify_inplace = inplace,
     sparse_content = chunk_hash False (replicate c_checkpoint_dist 0), md5_mem = example_mem\<rparr>"

definition example_file :: "byte list \<Rightarrow> File" where
  "example_file bs = new_file bs (\<lambda>_. Some (2 ^ 32))"

definition example_data :: "byte list" where
  "example_data = replicate (2 * c_checkpoint_dist) 0 @ [1]"

lemma example_no_fault: "no_fault (example_file bs)"
  by (simp add: example_file_def new_file_def no_fault_def)

lemma example_fields: "fbytes (example_file bs) = bs" "fpos (example_file bs) = 0"
  by (simp_all add: example_file_def new_file_def)

lemma example_setup:
  assumes "hash_start h"
  shows "chunk_setup (example_cfg inplace) (example_file example_data) (example_file out) h [(0, 2 * c_checkpoint_dist)]"
proof -
  have m: "length (buffer example_mem) = 64" by (simp add: example_mem_def)
  have "zero_range example_data (0, 2 * c_checkpoint_dist)"
    by (simp add: zero_range_def example_data_def nth_append)
  then show ?thesis
    using assms m sparse_content_hash[OF m] example_no_fault
    by (simp add: chunk_setup_def example_cfg_def example_fields)
qed

lemma example_no_faults: "no_faults (example_file a) (map_option example_file b) None"
  using example_no_fault by (auto simp: no_faults_def)

text \<open>
  C6: The hash file. Whenever hashing a file succeeds, the output has the length of the file and, for
  every chunk of 512 kB, its MD5 and the checksums of its blocks of 4 kB, whatever holes the file
  system reports, whether or not there are old hashes, a copy or a hash object, and whichever
  writes were short or had to be repeated.
\<close>

theorem chunk_hash_file_correct:
  assumes "chunk_setup cfg f hashoutput hashf extents"
    and "build_chunk_hashs cfg f hashoutput copy hashinput hashf extents = Some st"
  shows "fbytes (c_out st) = overwrite (fbytes hashoutput) 0 (hash_file (fbytes f))"
  using runs_Some_post[OF chunk_setup_runs[OF assms(1)] assms(2)] by simp

theorem chunk_hash_file_correct_witness:
  "\<exists>st. build_chunk_hashs (example_cfg False) (example_file example_data) (example_file []) None None No_Hash
      [(0, 2 * c_checkpoint_dist)] = Some st \<and> fbytes (c_out st) = overwrite [] 0 (hash_file example_data)"
proof -
  have s: "chunk_setup (example_cfg False) (example_file example_data) (example_file []) No_Hash [(0, 2 * c_checkpoint_dist)]"
    by (rule example_setup) (simp add: hash_start_def)
  obtain st where st: "build_chunk_hashs (example_cfg False) (example_file example_data) (example_file []) None None No_Hash
      [(0, 2 * c_checkpoint_dist)] = Some st"
    using runs_ok[OF chunk_setup_runs[OF s, of None None]] example_no_faults[of "[]" None] by auto
  then show ?thesis using chunk_hash_file_correct[OF s st] by (simp add: example_fields)
qed

text \<open>
  C18: Hashing ends. The loop over the chunks is not bounded by a counter; when no file operation fails it
  ends, the assertion on the last hole holds, and the function reports success.
\<close>

theorem chunk_hashing_ends:
  assumes "chunk_setup cfg f hashoutput hashf extents" "no_faults hashoutput copy hashinput"
  shows "\<exists>st. build_chunk_hashs cfg f hashoutput copy hashinput hashf extents = Some st"
  using runs_ok[OF chunk_setup_runs[OF assms(1)] assms(2)] by blast

theorem chunk_hashing_ends_witness:
  "\<exists>st. build_chunk_hashs (example_cfg True) (example_file example_data) (example_file []) (Some (example_file [7, 7])) None
      (Plain new_HashSha512) [(0, 2 * c_checkpoint_dist)] = Some st"
  using chunk_hashing_ends[OF example_setup[OF new_hash_starts(2)], of "[]" "map_option example_file (Some [7, 7])" None True]
    example_no_faults[of "[]" "Some [7, 7]"] by simp

text \<open>
  C17: The tree hash of a file. The calls that hashing makes on a new tree hash are allowed ones, and the
  digest afterwards is the tree hash of the chunks that are not zero, together with the list of
  the runs of zero chunks; it depends on nothing but the bytes of the file.
\<close>

theorem chunk_tree_digest:
  assumes "chunk_setup cfg f hashoutput (Tree (new_TreeHash out g)) extents" "length (buffer g) = 64"
    and "build_chunk_hashs cfg f hashoutput copy hashinput (Tree (new_TreeHash out g)) extents = Some st"
  shows "\<exists>t t'. c_hash st = Tree t \<and> tree_finalize False t =
    Some (tree_hash_of (dense_content (fbytes f)) (hole_bytes (file_calls False (fbytes f))), t')"
proof -
  have "hash_view False (Tree (new_TreeHash out g)) (c_hash st) (file_calls False (fbytes f))"
    using runs_Some_post[OF chunk_setup_runs[OF assms(1)] assms(3)] by simp
  then show ?thesis by (rule tree_view_digest[OF _ assms(2)])
qed

theorem chunk_tree_digest_witness:
  "\<exists>st t t'. build_chunk_hashs (example_cfg False) (example_file example_data) (example_file []) None None
      (Tree (new_TreeHash False example_mem)) [(0, 2 * c_checkpoint_dist)] = Some st \<and> c_hash st = Tree t \<and>
    tree_finalize False t = Some (tree_hash_of (dense_content example_data) (hole_bytes (file_calls False example_data)), t')"
proof -
  have m: "length (buffer example_mem) = 64" by (simp add: example_mem_def)
  note s = example_setup[OF new_hash_starts(1)[OF m, of False], of False "[]"]
  obtain st where st: "build_chunk_hashs (example_cfg False) (example_file example_data) (example_file []) None None
      (Tree (new_TreeHash False example_mem)) [(0, 2 * c_checkpoint_dist)] = Some st"
    using runs_ok[OF chunk_setup_runs[OF s, of None None]] example_no_faults[of "[]" None] by auto
  then show ?thesis using chunk_tree_digest[OF s m st] by (simp only: example_fields) blast
qed

text \<open>
  C36: The SHA-512 of a file: the digest of the chunks that are not zero, followed by the digest of the list
  of runs of zero chunks when there is one.
\<close>

theorem chunk_sha512_digest:
  assumes "chunk_setup cfg f hashoutput (Plain new_HashSha512) extents"
    and "build_chunk_hashs cfg f hashoutput copy hashinput (Plain new_HashSha512) extents = Some st"
  shows "\<exists>p. c_hash st = Plain p \<and> sha512_finalize False p = sha512_of (dense_content (fbytes f) @
    (case hole_bytes (file_calls False (fbytes f)) of None \<Rightarrow> [] | Some s \<Rightarrow> sha512_of s))"
proof -
  have "hash_view False (Plain new_HashSha512) (c_hash st) (file_calls False (fbytes f))"
    using runs_Some_post[OF chunk_setup_runs[OF assms(1)] assms(2)] by simp
  then show ?thesis by (rule plain_view_digest)
qed

theorem chunk_sha512_digest_witness:
  "\<exists>st p. build_chunk_hashs (example_cfg False) (example_file example_data) (example_file []) None None
      (Plain new_HashSha512) [(0, 2 * c_checkpoint_dist)] = Some st \<and> c_hash st = Plain p \<and>
    sha512_finalize False p = sha512_of (dense_content example_data @
      (case hole_bytes (file_calls False example_data) of None \<Rightarrow> [] | Some s \<Rightarrow> sha512_of s))"
proof -
  note s = example_setup[OF new_hash_starts(2), of False "[]"]
  obtain st where st: "build_chunk_hashs (example_cfg False) (example_file example_data) (example_file []) None None
      (Plain new_HashSha512) [(0, 2 * c_checkpoint_dist)] = Some st"
    using runs_ok[OF chunk_setup_runs[OF s, of None None]] example_no_faults[of "[]" None] by auto
  then show ?thesis using chunk_sha512_digest[OF s st] by (simp only: example_fields) blast
qed

text \<open>
  C12: The copy. With a copy that is written anew or compared with its old bytes, and no faults, the copy starts
  with the bytes of the file afterwards; holes are punched or left out, and a hole at the end is
  restored by the resize. A copy that was not longer than the file is the file.
\<close>

theorem chunk_copy_correct:
  assumes "chunk_setup cfg f hashoutput hashf extents" "no_faults hashoutput (Some cp) hashinput"
    and "\<not> modify_inplace cfg \<or> hashinput = None" "fpos cp = 0"
  shows "\<exists>st cp'. build_chunk_hashs cfg f hashoutput (Some cp) hashinput hashf extents = Some st \<and> c_copy st = Some cp' \<and>
    take (length (fbytes f)) (fbytes cp') = fbytes f \<and>
    (length (fbytes cp) \<le> length (fbytes f) \<longrightarrow> fbytes cp' = fbytes f)"
proof -
  obtain st where st: "build_chunk_hashs cfg f hashoutput (Some cp) hashinput hashf extents = Some st"
    "\<exists>cp'. c_copy st = Some cp' \<and> (no_faults hashoutput (Some cp) hashinput \<and> \<not> (modify_inplace cfg \<and> hashinput \<noteq> None) \<and> fpos cp = 0 \<longrightarrow>
        length (fbytes f) \<le> length (fbytes cp') \<and> length (fbytes cp') \<le> max (length (fbytes cp)) (length (fbytes f)) \<and>
        take (length (fbytes f)) (fbytes cp') = fbytes f)"
    using runs_ok[OF chunk_setup_runs[OF assms(1)] assms(2)] by auto
  then obtain cp' where c: "c_copy st = Some cp'" "length (fbytes f) \<le> length (fbytes cp')"
    "length (fbytes cp') \<le> max (length (fbytes cp)) (length (fbytes f))" "take (length (fbytes f)) (fbytes cp') = fbytes f"
    using assms(2-4) by auto
  have "fbytes cp' = fbytes f" if "length (fbytes cp) \<le> length (fbytes f)" using that c(2-4) by simp
  then show ?thesis using st(1) c(1,4) by blast
qed

theorem chunk_copy_correct_witness:
  "\<exists>st cp'. build_chunk_hashs (example_cfg True) (example_file example_data) (example_file []) (Some (example_file [7, 7])) None No_Hash
      [(0, 2 * c_checkpoint_dist)] = Some st \<and> c_copy st = Some cp' \<and> fbytes cp' = example_data"
proof -
  have s: "chunk_setup (example_cfg True) (example_file example_data) (example_file []) No_Hash [(0, 2 * c_checkpoint_dist)]"
    by (rule example_setup) (simp add: hash_start_def)
  have l: "length [7 :: byte, 7] \<le> length example_data" by (simp add: example_data_def c_checkpoint_dist_def)
  show ?thesis
    using chunk_copy_correct[OF s, of "example_file [7, 7]" None] example_no_faults[of "[]" "Some [7, 7]"] l
    by (simp add: example_fields) blast
qed

text \<open>
  C37: The hash of a hole. The chunk hash that is computed once, without reading the file, and written for every
  chunk inside a hole is the hash that a chunk of zeros gets when it is read.
\<close>

theorem sparse_chunk_hash:
  "length (buffer g) = 64 \<Longrightarrow> build_sparse_extent_content False g = Some (chunk_hash False (replicate c_checkpoint_dist 0))"
  by (rule sparse_content_hash)

theorem sparse_chunk_hash_witness:
  "build_sparse_extent_content False example_mem = Some (chunk_hash False (replicate c_checkpoint_dist 0))"
  by (rule sparse_chunk_hash) (simp add: example_mem_def)

text \<open>
  C38: Repeated writes. When a write is reported as successful, every byte is in the file, at the position
  and in order, and nothing else has changed, whatever was short, failed or was retried after
  freeing space.
\<close>

theorem retried_write_complete:
  assumes "writeRepeatFreeSpace cb f buf = Some f'"
  shows "fbytes f' = overwrite (fbytes f) (fpos f) buf \<and> fpos f' = fpos f + length buf"
proof -
  have "runs False (writeRepeatFreeSpace cb f buf) (written f buf)" by (rule writeRepeatFreeSpace_runs) simp
  from runs_Some_post[OF this assms] show ?thesis by (simp add: written_def)
qed

theorem retried_write_complete_witness:
  "\<exists>f'. writeRepeatFreeSpace None (new_file [9] (\<lambda>n. if n = 0 then Some 1 else if n = 1 then None else Some 5)) [1, 2, 3] = Some f' \<and>
    fbytes f' = [1, 2, 3]"
proof -
  let ?f = "new_file [9] (\<lambda>n. if n = 0 then Some 1 else if n = 1 then None else Some 5)"
  have "\<exists>f'. writeRepeatFreeSpace None ?f [1, 2, 3] = Some f'"
    by (simp add: writeRepeatFreeSpace_def write_free_space_def writeFileRepeatTries_def write_tries.simps File_Write_def os_outcome_def next_op_def
      new_file_def Let_def)
  then obtain f' where f': "writeRepeatFreeSpace None ?f [1, 2, 3] = Some f'" by blast
  from retried_write_complete[OF f'] have "fbytes f' = [1, 2, 3]" by (simp add: new_file_def overwrite_def)
  then show ?thesis using f' by blast
qed

text \<open>
  On a big-endian host the conversion of the checksums to little endian is applied to single characters, and
  a character in the ASCII range becomes zero.
\<close>

lemma char_little_endian_big: "char_little_endian True 0x7f = 0" "char_little_endian True 0x80 = 0xff"
  by (simp_all add: char_little_endian_def little_endian32_def is_big_endian_host) (code_simp+)

end
