(* ===== verification/Extents.thy ===== *)
theory Extents
  imports Files Endian "HOL-Library.Signed_Division"
begin

text \<open>
  Iterating over the holes of a file: \<open>idrivebmrcommon/ExtentIterator.cpp\<close>. \<open>ExtentIterator\<close> reads a file with
  a number of extents and the extents, \<open>FsExtentIterator\<close> gets them from the file system; both round them inwards to whole
  blocks. An extent with the offset \<open>- 1\<close>, which stands for the end, is \<open>None\<close>.
\<close>

text \<open>
  The result of an operation on \<open>int64\<close>. Where it does not fit the model wraps around like the machine; C++ leaves this undefined,
  and the properties are about extents for which it does not happen.
\<close>

definition wrap64 :: "int \<Rightarrow> int" where
  "wrap64 k = sint (of_int k :: u64)"

lemma wrap64_id: "- (2 ^ 63) \<le> k \<Longrightarrow> k < 2 ^ 63 \<Longrightarrow> wrap64 k = k"
  using signed_take_bit_int_eq_self[of 63 k] sint_sbintrunc'[of k, where 'a = 64] by (simp add: wrap64_def)

definition ext_roundUp :: "int \<Rightarrow> int \<Rightarrow> int" where
  "ext_roundUp n multiple = wrap64 (wrap64 (wrap64 (n + multiple) - 1) sdiv multiple * multiple)"

text \<open>Here no operation can leave \<open>int64\<close>, as \<open>multiple\<close> is positive.\<close>

definition ext_roundDown :: "int \<Rightarrow> int \<Rightarrow> int" where
  "ext_roundDown n multiple = n sdiv multiple * multiple"

record ExtentIterator =
  sparse_extents_f :: "File option"
  num_sparse_extents :: int
  next_sparse_extent_num :: int
  blocksize :: int

definition reset_extents :: "ExtentIterator \<Rightarrow> ExtentIterator" where
  "reset_extents it =
     it\<lparr>num_sparse_extents := - 1, next_sparse_extent_num := 0,
        sparse_extents_f := map_option (\<lambda>f. snd (File_Seek 0 f)) (sparse_extents_f it)\<rparr>"

definition new_ExtentIterator :: "File option \<Rightarrow> int \<Rightarrow> ExtentIterator" where
  "new_ExtentIterator f bsize =
     \<lparr>sparse_extents_f = map_option (\<lambda>f. snd (File_Seek 0 f)) f, num_sparse_extents = - 1, next_sparse_extent_num = 0, blocksize = bsize\<rparr>"

text \<open>An \<open>int64\<close> in memory.\<close>

definition int64_of :: "bool \<Rightarrow> byte list \<Rightarrow> int" where
  "int64_of be d = sint (of_mem be d :: u64)"

definition load_count :: "bool \<Rightarrow> ExtentIterator \<Rightarrow> ExtentIterator" where
  "load_count be it =
     (if num_sparse_extents it = - 1 then
        case sparse_extents_f it of
          None \<Rightarrow> it\<lparr>num_sparse_extents := 0\<rparr>
        | Some f \<Rightarrow>
            let (d, err, f) = File_Read 8 f
            in it\<lparr>sparse_extents_f := Some f, num_sparse_extents := (if length d = 8 then int64_of be d else 0)\<rparr>
      else it)"

text \<open>The loop ends as soon as the offset of the extent that was read, rounded up, is not \<open>- 1\<close>.\<close>

function next_extent_loop :: "bool \<Rightarrow> ExtentIterator \<Rightarrow> (int \<times> int) option \<times> ExtentIterator" where
  "next_extent_loop be it =
     (if next_sparse_extent_num it < num_sparse_extents it then
        case sparse_extents_f it of
          None \<Rightarrow> (None, it)
        | Some f \<Rightarrow>
            let (d, err, f) = File_Read 16 f; it = it\<lparr>sparse_extents_f := Some f\<rparr>
            in if length d \<noteq> 16 then (None, it\<lparr>num_sparse_extents := 0\<rparr>)
               else
                 let it = it\<lparr>next_sparse_extent_num := next_sparse_extent_num it + 1\<rparr>;
                     off = int64_of be (take 8 d); sz = int64_of be (drop 8 d);
                     ret_end = ext_roundDown (wrap64 (off + sz)) (blocksize it); off = ext_roundUp off (blocksize it)
                 in if off < ret_end then (if off = - 1 then None else Some (off, wrap64 (ret_end - off)), it)
                    else if off = - 1 then next_extent_loop be it else (None, it)
      else (None, it))"
  by pat_completeness auto

termination next_extent_loop
  by (relation "measure (\<lambda>(be, it). nat (num_sparse_extents it - next_sparse_extent_num it))") auto

declare next_extent_loop.simps [simp del]

definition iter_nextExtent :: "bool \<Rightarrow> ExtentIterator \<Rightarrow> (int \<times> int) option \<times> ExtentIterator" where
  "iter_nextExtent be it = next_extent_loop be (load_count be it)"

text \<open>\<open>FsExtentIterator::nextExtent\<close>: the extents that the file system still has.\<close>

fun fs_nextExtent :: "int \<Rightarrow> (int \<times> int) list \<Rightarrow> (int \<times> int) option \<times> (int \<times> int) list" where
  "fs_nextExtent bsize [] = (None, [])"
| "fs_nextExtent bsize ((off, sz) # es) =
     (let next_end = ext_roundDown (wrap64 (off + sz)) bsize; off' = ext_roundUp off bsize
      in if off' < next_end then (Some (off', wrap64 (next_end - off')), es) else fs_nextExtent bsize es)"

section \<open>All extents\<close>

text \<open>What a loop \<open>while (extent.offset != -1) extent = nextExtent()\<close> gets.\<close>

partial_function (option) all_extents :: "bool \<Rightarrow> ExtentIterator \<Rightarrow> (int \<times> int) list option" where
  "all_extents be it =
     (case iter_nextExtent be it of
        (None, it) \<Rightarrow> Some []
      | (Some e, it) \<Rightarrow> Option.bind (all_extents be it) (\<lambda>es. Some (e # es)))"

fun fs_all_extents :: "nat \<Rightarrow> int \<Rightarrow> (int \<times> int) list \<Rightarrow> (int \<times> int) list" where
  "fs_all_extents 0 bsize es = []"
| "fs_all_extents (Suc n) bsize es =
     (case fs_nextExtent bsize es of (None, es) \<Rightarrow> [] | (Some e, es) \<Rightarrow> e # fs_all_extents n bsize es)"

text \<open>The results of a number of calls of \<open>nextExtent\<close>.\<close>

fun extent_calls :: "bool \<Rightarrow> nat \<Rightarrow> ExtentIterator \<Rightarrow> (int \<times> int) option list" where
  "extent_calls be 0 it = []"
| "extent_calls be (Suc n) it = (case iter_nextExtent be it of (e, it) \<Rightarrow> e # extent_calls be n it)"

text \<open>The whole blocks inside an extent.\<close>

definition first_block :: "int \<Rightarrow> int \<times> int \<Rightarrow> int" where
  "first_block bsize e = (fst e + bsize - 1) div bsize * bsize"

definition end_block :: "int \<Rightarrow> int \<times> int \<Rightarrow> int" where
  "end_block bsize e = (fst e + snd e) div bsize * bsize"

definition has_block :: "int \<Rightarrow> int \<times> int \<Rightarrow> bool" where
  "has_block bsize e \<longleftrightarrow> first_block bsize e < end_block bsize e"

definition inner_blocks :: "int \<Rightarrow> int \<times> int \<Rightarrow> int \<times> int" where
  "inner_blocks bsize e = (first_block bsize e, end_block bsize e - first_block bsize e)"

text \<open>Extents for which no operation overflows.\<close>

definition extent_ok :: "int \<Rightarrow> int \<times> int \<Rightarrow> bool" where
  "extent_ok bsize e \<longleftrightarrow> 0 \<le> fst e \<and> 0 \<le> snd e \<and> fst e + snd e < 2 ^ 63 \<and> fst e + bsize < 2 ^ 63"

lemma block_bounds:
  assumes "0 < b" "0 \<le> n"
  shows "0 \<le> n div b * b" "n div b * (b :: int) \<le> n" "n < n div b * b + b"
proof -
  have "n div b * b + n mod b = n" "0 \<le> n mod b" "n mod b < b" using assms by simp_all
  then show "n div b * b \<le> n" "n < n div b * b + b" by linarith+
  show "0 \<le> n div b * b" using assms by (simp add: pos_imp_zdiv_nonneg_iff)
qed

lemma extent_bounds:
  assumes "extent_ok b e" "0 < b"
  shows "0 \<le> first_block b e" "fst e \<le> first_block b e" "first_block b e < 2 ^ 63" "0 \<le> end_block b e" "end_block b e \<le> fst e + snd e"
proof -
  have e: "0 \<le> fst e" "0 \<le> snd e" "fst e + b < 2 ^ 63" using assms(1) by (simp_all add: extent_ok_def)
  have "0 \<le> fst e + b - 1" using e(1) assms(2) by simp
  note u = block_bounds[OF assms(2) this]
  show "0 \<le> first_block b e" "fst e \<le> first_block b e" "first_block b e < 2 ^ 63" unfolding first_block_def using u e(3) by linarith+
  have "0 \<le> fst e + snd e" using e by simp
  note d = block_bounds[OF assms(2) this]
  show "0 \<le> end_block b e" "end_block b e \<le> fst e + snd e" unfolding end_block_def by (rule d)+
qed

lemma extent_rounded:
  assumes "extent_ok b e" "0 < b"
  shows "ext_roundUp (fst e) b = first_block b e" "ext_roundDown (wrap64 (fst e + snd e)) b = end_block b e"
    "first_block b e < end_block b e \<Longrightarrow> wrap64 (end_block b e - first_block b e) = end_block b e - first_block b e"
proof -
  have e: "0 \<le> fst e" "0 \<le> snd e" "fst e + b < 2 ^ 63" "fst e + snd e < 2 ^ 63" using assms(1) by (simp_all add: extent_ok_def)
  note f = extent_bounds[OF assms]
  have w: "wrap64 (fst e + b) = fst e + b" "wrap64 (fst e + b - 1) = fst e + b - 1" "wrap64 (fst e + snd e) = fst e + snd e"
    using e assms(2) by (simp_all add: wrap64_id)
  have d: "(fst e + b - 1) sdiv b = (fst e + b - 1) div b" "(fst e + snd e) sdiv b = (fst e + snd e) div b"
    using e assms(2) by (auto simp: signed_divide_int_def sgn_if)
  show "ext_roundUp (fst e) b = first_block b e"
    unfolding ext_roundUp_def w d(1) first_block_def[symmetric] by (rule wrap64_id) (use f in simp_all)
  show "ext_roundDown (wrap64 (fst e + snd e)) b = end_block b e" unfolding ext_roundDown_def w d(2) end_block_def ..
  show "wrap64 (end_block b e - first_block b e) = end_block b e - first_block b e" if "first_block b e < end_block b e"
    by (rule wrap64_id) (use that f e in linarith)+
qed

text \<open>The file with the extents.\<close>

definition extent_bytes :: "bool \<Rightarrow> int \<times> int \<Rightarrow> byte list" where
  "extent_bytes be e = mem_of be 8 (of_int (fst e) :: u64) @ mem_of be 8 (of_int (snd e) :: u64)"

definition extents_file :: "bool \<Rightarrow> (int \<times> int) list \<Rightarrow> byte list" where
  "extents_file be es = mem_of be 8 (of_nat (length es) :: u64) @ concat (map (extent_bytes be) es)"

lemma length_extent_bytes [simp]: "length (extent_bytes be e) = 16"
  by (simp add: extent_bytes_def)

lemma int64_of_mem:
  assumes "- (2 ^ 63) \<le> k" "k < 2 ^ 63"
  shows "int64_of be (mem_of be 8 (of_int k :: u64)) = k"
proof -
  have "signed_take_bit 63 k = k" using assms by (intro signed_take_bit_int_eq_self) simp_all
  then show ?thesis using sint_sbintrunc'[of k, where 'a = 64] by (simp add: int64_of_def of_mem_mem_of)
qed

lemma File_Read_ok:
  assumes "no_fault f" "n \<le> 2 ^ 32"
  shows "\<exists>g. File_Read n f = (take n (drop (fpos f) (fbytes f)), False, g) \<and> fbytes g = fbytes f \<and>
    fpos g = fpos f + length (take n (drop (fpos f) (fbytes f))) \<and> no_fault g"
proof -
  obtain m where m: "os_outcome f = Some m" "2 ^ 32 \<le> m" using no_fault_outcome[OF assms(1)] by blast
  then have mm: "min n m = n" using assms(2) by simp
  let ?g = "next_op (f\<lparr>fpos := fpos f + length (take n (drop (fpos f) (fbytes f)))\<rparr>)"
  have "no_fault ?g" using assms(1) no_fault_eq[of ?g f] by (simp del: length_take)
  then show ?thesis by (intro exI[of _ ?g]) (simp add: File_Read_def m(1) mm Let_def del: length_take)
qed

text \<open>The iterator before the extents \<open>es\<close>.\<close>

definition iter_at :: "bool \<Rightarrow> (int \<times> int) list \<Rightarrow> ExtentIterator \<Rightarrow> bool" where
  "iter_at be es it \<longleftrightarrow> (\<exists>f. sparse_extents_f it = Some f \<and> no_fault f \<and> drop (fpos f) (fbytes f) = concat (map (extent_bytes be) es)) \<and>
     0 < blocksize it \<and> 0 \<le> next_sparse_extent_num it \<and> num_sparse_extents it = next_sparse_extent_num it + int (length es)"

lemma nextExtent_step:
  assumes "iter_at be (e # es) it" "extent_ok (blocksize it) e"
  shows "\<exists>it'. iter_nextExtent be it = (if has_block (blocksize it) e then Some (inner_blocks (blocksize it) e) else None, it') \<and>
    iter_at be es it' \<and> blocksize it' = blocksize it"
proof -
  obtain f where f: "sparse_extents_f it = Some f" "no_fault f" "drop (fpos f) (fbytes f) = extent_bytes be e @ concat (map (extent_bytes be) es)"
    and it: "0 < blocksize it" "0 \<le> next_sparse_extent_num it" "num_sparse_extents it = next_sparse_extent_num it + int (Suc (length es))"
    using assms(1) by (auto simp: iter_at_def)
  obtain g where g: "File_Read 16 f = (extent_bytes be e, False, g)" "fbytes g = fbytes f" "fpos g = fpos f + 16" "no_fault g"
    using File_Read_ok[OF f(2), of 16] f(3) by auto
  have d: "int64_of be (take 8 (extent_bytes be e)) = fst e" "int64_of be (drop 8 (extent_bytes be e)) = snd e"
    using assms(2) it(1) by (simp_all add: extent_bytes_def int64_of_mem extent_ok_def)
  note r = extent_rounded[OF assms(2) it(1)]
  have no1: "first_block (blocksize it) e \<noteq> - 1" using extent_bounds(1)[OF assms(2) it(1)] by simp
  let ?it = "it\<lparr>sparse_extents_f := Some g, next_sparse_extent_num := next_sparse_extent_num it + 1\<rparr>"
  have c: "load_count be it = it" using it by (simp add: load_count_def)
  have "iter_nextExtent be it = (if has_block (blocksize it) e then Some (inner_blocks (blocksize it) e) else None, ?it)"
    unfolding iter_nextExtent_def c using it no1
    by (subst next_extent_loop.simps) (simp add: f(1) g(1) d r has_block_def inner_blocks_def Let_def)
  moreover have "drop (fpos g) (fbytes g) = concat (map (extent_bytes be) es)"
    using g(2,3) f(3) by (metis append_eq_conv_conj drop_drop add.commute length_extent_bytes)
  then have "iter_at be es ?it" using it g(4) by (simp add: iter_at_def)
  ultimately show ?thesis by (intro exI[of _ ?it]) simp
qed

lemma nextExtent_end: "iter_at be [] it \<Longrightarrow> iter_nextExtent be it = (None, it)"
proof -
  assume a: "iter_at be [] it"
  then have "load_count be it = it" by (auto simp: load_count_def iter_at_def)
  then show ?thesis using a by (simp add: iter_nextExtent_def next_extent_loop.simps[of be it] iter_at_def)
qed

lemma extent_calls_end: "iter_at be [] it \<Longrightarrow> extent_calls be n it = replicate n None"
  by (induction n) (simp_all add: nextExtent_end)

lemma extent_calls_at:
  "iter_at be es it \<Longrightarrow> list_all (extent_ok (blocksize it)) es \<Longrightarrow>
   extent_calls be (length es + n) it =
     map (\<lambda>e. if has_block (blocksize it) e then Some (inner_blocks (blocksize it) e) else None) es @ replicate n None"
proof (induction es arbitrary: it)
  case Nil
  then show ?case by (simp add: extent_calls_end)
next
  case (Cons e es)
  then obtain it' where "iter_nextExtent be it = (if has_block (blocksize it) e then Some (inner_blocks (blocksize it) e) else None, it')"
    "iter_at be es it'" "blocksize it' = blocksize it"
    using nextExtent_step[OF Cons.prems(1)] by auto
  then show ?case using Cons by simp
qed

lemma all_extents_at:
  "iter_at be es it \<Longrightarrow> list_all (extent_ok (blocksize it)) es \<Longrightarrow>
   all_extents be it = Some (map (inner_blocks (blocksize it)) (takeWhile (has_block (blocksize it)) es))"
proof (induction es arbitrary: it)
  case Nil
  then show ?case by (simp add: all_extents.simps[of be it] nextExtent_end)
next
  case (Cons e es)
  obtain it' where n: "iter_nextExtent be it = (if has_block (blocksize it) e then Some (inner_blocks (blocksize it) e) else None, it')"
    "iter_at be es it'" "blocksize it' = blocksize it"
    using nextExtent_step[OF Cons.prems(1)] Cons.prems(2) by auto
  show ?case
    using n(1) Cons.IH[OF n(2)] Cons.prems(2) n(3) by (subst all_extents.simps) simp
qed

lemma new_iterator_at:
  assumes "no_fault f" "fbytes f = extents_file be es" "0 < bsize" "length es < 2 ^ 63"
  shows "\<exists>it. iter_nextExtent be (new_ExtentIterator (Some f) bsize) = iter_nextExtent be it \<and> iter_at be es it \<and> blocksize it = bsize"
proof -
  define g where "g = snd (File_Seek 0 f)"
  have g: "no_fault g" "fbytes g = extents_file be es" "fpos g = 0"
    using File_Seek_ok[OF assms(1), of 0] assms(1,2) no_fault_eq[of g f] by (simp_all add: g_def)
  obtain h where h: "File_Read 8 g = (mem_of be 8 (of_nat (length es) :: u64), False, h)" "fbytes h = fbytes g" "fpos h = 8" "no_fault h"
    using File_Read_ok[OF g(1), of 8] g(2,3) by (auto simp: extents_file_def)
  have "int (length es) < 2 ^ 63" using assms(4) by simp
  then have n: "int64_of be (mem_of be 8 (of_nat (length es) :: u64)) = int (length es)"
    using int64_of_mem[of "int (length es)" be] by simp
  define it where "it = \<lparr>sparse_extents_f = Some h, num_sparse_extents = int (length es), next_sparse_extent_num = 0, blocksize = bsize\<rparr>"
  have l: "load_count be (new_ExtentIterator (Some f) bsize) = it"
    by (simp add: load_count_def new_ExtentIterator_def g_def[symmetric] h(1) n it_def)
  moreover have "load_count be it = it" by (simp add: load_count_def it_def)
  moreover have "iter_at be es it" using h g assms(3) by (simp add: iter_at_def it_def extents_file_def)
  ultimately show ?thesis by (intro exI[of _ it]) (simp add: iter_nextExtent_def it_def)
qed

lemma fs_nextExtent_eq:
  "0 < bsize \<Longrightarrow> list_all (extent_ok bsize) es \<Longrightarrow> fs_nextExtent bsize es =
     (case dropWhile (\<lambda>e. \<not> has_block bsize e) es of [] \<Rightarrow> (None, []) | e # es' \<Rightarrow> (Some (inner_blocks bsize e), es'))"
proof (induction bsize es rule: fs_nextExtent.induct)
  case (2 bsize off sz es)
  have r: "ext_roundUp off bsize = first_block bsize (off, sz)" "ext_roundDown (wrap64 (off + sz)) bsize = end_block bsize (off, sz)"
    "has_block bsize (off, sz) \<Longrightarrow> wrap64 (end_block bsize (off, sz) - first_block bsize (off, sz)) = end_block bsize (off, sz) - first_block bsize (off, sz)"
    using extent_rounded[of bsize "(off, sz)"] 2 by (simp_all add: has_block_def)
  show ?case using 2 r by (simp add: has_block_def inner_blocks_def Let_def)
qed simp

lemma fs_all_extents_eq: "0 < bsize \<Longrightarrow> list_all (extent_ok bsize) es \<Longrightarrow> length es < n \<Longrightarrow> fs_all_extents n bsize es = map (inner_blocks bsize) (filter (has_block bsize) es)"
proof (induction n arbitrary: es)
  case (Suc n)
  show ?case
  proof (cases "dropWhile (\<lambda>e. \<not> has_block bsize e) es")
    case Nil
    then have "filter (has_block bsize) es = []" by (simp add: dropWhile_eq_Nil_conv filter_empty_conv)
    moreover have "fs_nextExtent bsize es = (None, [])" unfolding fs_nextExtent_eq[OF Suc.prems(1,2)] Nil by simp
    ultimately show ?thesis by simp
  next
    case (Cons e es')
    have s: "es = takeWhile (\<lambda>e. \<not> has_block bsize e) es @ e # es'" using Cons takeWhile_dropWhile_id[of "\<lambda>e. \<not> has_block bsize e" es] by simp
    have ok: "list_all (extent_ok bsize) es'" using Suc.prems(2) by (subst (asm) s) simp
    have he: "has_block bsize e" using Cons hd_dropWhile[of "\<lambda>e. \<not> has_block bsize e" es] by simp
    have t: "filter (has_block bsize) (takeWhile (\<lambda>e. \<not> has_block bsize e) es) = []"
      by (auto simp: filter_empty_conv dest: set_takeWhileD)
    have "filter (has_block bsize) es = e # filter (has_block bsize) es'" by (subst s) (simp add: t he)
    moreover have "length es' < length es" by (subst s) simp
    ultimately show ?thesis using Cons Suc ok by (simp add: fs_nextExtent_eq[OF Suc.prems(1,2)])
  qed
qed simp

section \<open>Property\<close>

text \<open>
  C39: Which holes are seen. An iterator over a file of extents reports, call by call, every extent rounded inwards to whole blocks,
  but the end marker for an extent without a whole block, and the end marker for every call after the last extent. So a loop that
  stops at the first end marker, as the loops of the code do, gets only the extents before the first one without a whole
  block. The iterator over the extents of the file system skips such an extent and delivers the others. The extents are
  such that no sum overflows.
\<close>

theorem extent_iterator_stops:
  assumes "no_fault f" "fbytes f = extents_file be es" "list_all (extent_ok bsize) es" "length es < 2 ^ 63" "0 < bsize"
  shows "extent_calls be (length es + n) (new_ExtentIterator (Some f) bsize) =
      map (\<lambda>e. if has_block bsize e then Some (inner_blocks bsize e) else None) es @ replicate n None \<and>
    all_extents be (new_ExtentIterator (Some f) bsize) = Some (map (inner_blocks bsize) (takeWhile (has_block bsize) es)) \<and>
    fs_all_extents (Suc (length es)) bsize es = map (inner_blocks bsize) (filter (has_block bsize) es)"
proof -
  obtain it where it: "iter_nextExtent be (new_ExtentIterator (Some f) bsize) = iter_nextExtent be it" "iter_at be es it" "blocksize it = bsize"
    using new_iterator_at[OF assms(1,2,5,4)] by blast
  have "all_extents be (new_ExtentIterator (Some f) bsize) = all_extents be it"
    by (simp add: all_extents.simps[of be "new_ExtentIterator (Some f) bsize"] all_extents.simps[of be it] it(1))
  moreover have "extent_calls be k (new_ExtentIterator (Some f) bsize) = extent_calls be k it" for k by (cases k) (simp_all add: it(1))
  ultimately show ?thesis
    using all_extents_at[OF it(2)] extent_calls_at[OF it(2), of n] assms(3) it(3) fs_all_extents_eq[OF assms(5,3), of "Suc (length es)"] by simp
qed

theorem extent_iterator_stops_witness:
  "all_extents False (new_ExtentIterator (Some (new_file (extents_file False [(5, 3), (4096, 8192)]) (\<lambda>_. Some (2 ^ 32)))) 4096) = Some [] \<and>
   extent_calls False 3 (new_ExtentIterator (Some (new_file (extents_file False [(5, 3), (4096, 8192)]) (\<lambda>_. Some (2 ^ 32)))) 4096) =
     [None, Some (4096, 8192), None] \<and>
   fs_all_extents 3 4096 [(5, 3), (4096, 8192)] = [(4096, 8192)]"
proof -
  have h: "has_block 4096 (5, 3) = False" "has_block 4096 (4096, 8192) = True" "inner_blocks 4096 (4096, 8192) = (4096, 8192)"
    by code_simp+
  have "no_fault (new_file bs (\<lambda>_. Some (2 ^ 32)))" for bs by (simp add: new_file_def no_fault_def)
  from extent_iterator_stops[OF this, of _ False "[(5, 3), (4096, 8192)]" 4096 1]
  show ?thesis by (simp add: new_file_def extent_ok_def h numeral_3_eq_3)
qed

end
