(* ===== verification/Chunk_Patcher.thy ===== *)
theory Chunk_Patcher
  imports Chunk_Hasher Extents
begin

text \<open>
  Applying a patch to a file: \<open>idrivebmrserver/ChunkPatcher.cpp\<close>. A patch is
  the size of the new file and a list of pieces, each with its offset; what lies between them is taken
  from the old file. The patched file goes to a callback, in order. \<open>None\<close> is not returning; the left
  side of the sum is the return value \<open>false\<close>, or a failed assertion.
\<close>

section \<open>Results\<close>

datatype patch_error = Read_Error | Write_Error | Patch_Corrupt | Assertion_Failed

definition and_then :: "('e + 'a) option \<Rightarrow> ('a \<Rightarrow> ('e + 'b) option) \<Rightarrow> ('e + 'b) option" where
  "and_then x f = Option.bind x (\<lambda>r. case r of Inl e \<Rightarrow> Some (Inl e) | Inr a \<Rightarrow> f a)"

lemma and_then_simps [simp]:
  "and_then None f = None" "and_then (Some (Inl e)) f = Some (Inl e)" "and_then (Some (Inr a)) f = f a"
  by (simp_all add: and_then_def)

lemma and_then_mono [partial_function_mono]:
  assumes "mono_option (\<lambda>f. x f)" "\<And>y. mono_option (\<lambda>f. g y f)"
  shows "mono_option (\<lambda>f. and_then (x f) (\<lambda>y. g y f))"
proof -
  have "mono_option (\<lambda>f. case r of Inl e \<Rightarrow> Some (Inl e) | Inr a \<Rightarrow> g a f)" for r
    by (cases r) (simp_all add: assms(2) option.const_mono)
  then show ?thesis unfolding and_then_def by (intro bind_mono assms(1))
qed

section \<open>Rounding\<close>

definition roundUp :: "nat \<Rightarrow> nat \<Rightarrow> nat" where
  "roundUp n multiple = (n + multiple - 1) div multiple * multiple"

definition roundDown :: "nat \<Rightarrow> nat \<Rightarrow> nat" where
  "roundDown n multiple = n div multiple * multiple"

section \<open>The callback and the state\<close>

record 'c patch_callback =
  next_chunk_patcher_bytes :: "byte list option \<Rightarrow> nat \<Rightarrow> bool \<Rightarrow> bool option \<Rightarrow> 'c \<Rightarrow> bool option \<times> 'c"
  next_sparse_extent_bytes :: "byte list \<Rightarrow> 'c \<Rightarrow> 'c"
  chunk_patcher_pos :: "'c \<Rightarrow> int"

record 'c patcher =
  cb :: "'c patch_callback"
  cbs :: 'c
  host_be :: bool
  base_f :: File
  patch_f :: File
  patchf_pos :: nat
  file_pos :: nat
  base_size :: int
  filesize :: int
  patch_off :: int
  patch_size :: nat
  has_header :: bool
  extent_iterator :: "ExtentIterator option"
  curr_sparse :: "(int \<times> int) option"
  require_unchanged :: bool
  with_sparse :: bool
  last_sparse_start :: int
  curr_only_zeros :: bool
  curr_changed :: bool
  sparse_buf :: "byte list"
  unchanged_align :: nat
  unchanged_align_start :: int
  unchanged_align_end :: int
  unchanged_align_end_next :: int
  last_unchanged :: bool

text \<open>The constructor; \<open>lss\<close> and \<open>sbuf\<close> are what members have that it leaves alone, \<open>f\<close> stands for a file that is not open.\<close>

definition new_ChunkPatcher :: "bool \<Rightarrow> 'c patch_callback \<Rightarrow> 'c \<Rightarrow> File \<Rightarrow> int \<Rightarrow> byte list \<Rightarrow> 'c patcher" where
  "new_ChunkPatcher be pCb c f lss sbuf =
     \<lparr>cb = pCb, cbs = c, host_be = be, base_f = f, patch_f = f, patchf_pos = 0, file_pos = 0, base_size = 0, filesize = 0,
      patch_off = - 1, patch_size = 0, has_header = False, extent_iterator = None, curr_sparse = None,
      require_unchanged = True, with_sparse = False, last_sparse_start = lss, curr_only_zeros = True, curr_changed = False,
      sparse_buf = sbuf, unchanged_align = 0, unchanged_align_start = - 1, unchanged_align_end = - 1, unchanged_align_end_next = - 1,
      last_unchanged = False\<rparr>"

definition sparse_blocksize :: nat where "sparse_blocksize = 512 * 1024"

definition buffer_size :: nat where "buffer_size = 512 * 1024"

definition UINT_MAX :: nat where "UINT_MAX = 2 ^ 32 - 1"

text \<open>Calling the callback; the assertion on its position.\<close>

definition cb_next :: "byte list option \<Rightarrow> nat \<Rightarrow> bool \<Rightarrow> bool option \<Rightarrow> 'c patcher \<Rightarrow> bool option \<times> 'c patcher" where
  "cb_next buf bsize changed is_sparse st =
     (let (sp, c) = next_chunk_patcher_bytes (cb st) buf bsize changed is_sparse (cbs st) in (sp, st\<lparr>cbs := c\<rparr>))"

definition cb_at :: "nat \<Rightarrow> 'c patcher \<Rightarrow> bool" where
  "cb_at pos st \<longleftrightarrow> chunk_patcher_pos (cb st) (cbs st) < 0 \<or> chunk_patcher_pos (cb st) (cbs st) = int pos"

type_synonym 'c patch_result = "(patch_error + 'c patcher) option"

section \<open>Blocks of zeros\<close>

definition finishSparse :: "nat \<Rightarrow> 'c patcher \<Rightarrow> 'c patcher" where
  "finishSparse pos st =
     (if last_sparse_start st \<noteq> - 1 \<and> last_sparse_start st < int (roundDown pos sparse_blocksize) then
        let ext = mem_of (host_be st) 8 (of_int (last_sparse_start st) :: u64) @
                  mem_of (host_be st) 8 (of_int (int (roundDown pos sparse_blocksize) - last_sparse_start st) :: u64)
        in st\<lparr>cbs := next_sparse_extent_bytes (cb st) ext (cbs st), last_sparse_start := - 1\<rparr>
      else st)"

text \<open>\<open>nextChunkPatcherBytes\<close> with a null buffer, and its loop over a buffer.\<close>

definition next_sparse_bytes :: "nat \<Rightarrow> nat \<Rightarrow> bool \<Rightarrow> 'c patcher \<Rightarrow> 'c patch_result" where
  "next_sparse_bytes pos bsize changed st =
     (if pos mod sparse_blocksize = 0 \<and> (unchanged_align st = 0 \<or> pos mod unchanged_align st = 0) then
        let st = (if last_sparse_start st = - 1 then st\<lparr>last_sparse_start := int (roundUp pos sparse_blocksize)\<rparr> else st)
        in if cb_at pos st then Some (Inr (snd (cb_next None bsize changed (Some True) st))) else Some (Inl Assertion_Failed)
      else Some (Inl Assertion_Failed))"

definition next_whole_block :: "nat \<Rightarrow> byte list \<Rightarrow> bool \<Rightarrow> 'c patcher \<Rightarrow> 'c patch_result" where
  "next_whole_block pos buf changed st =
     (let st = st\<lparr>curr_only_zeros := buf_is_zero buf\<rparr>
      in if curr_only_zeros st then
           let st = (if last_sparse_start st = - 1 then st\<lparr>last_sparse_start := int pos\<rparr> else st)
           in if cb_at pos st then Some (Inr (snd (cb_next None (length buf) changed (Some True) st)))
              else Some (Inl Assertion_Failed)
         else
           let st = (if last_sparse_start st \<noteq> - 1 then finishSparse pos st else st)
           in if cb_at pos st then
                Some (Inr ((snd (cb_next (Some buf) (length buf) changed None st))\<lparr>curr_only_zeros := True, curr_changed := False\<rparr>))
              else Some (Inl Assertion_Failed))"

definition fill_sparse_buf :: "nat \<Rightarrow> byte list \<Rightarrow> bool \<Rightarrow> 'c patcher \<Rightarrow> 'c patcher" where
  "fill_sparse_buf pos piece changed st =
     (let st = (if curr_only_zeros st \<and> \<not> buf_is_zero piece then st\<lparr>curr_only_zeros := False\<rparr> else st);
          st = (if changed then st\<lparr>curr_changed := True\<rparr> else st)
      in st\<lparr>sparse_buf := put_bytes (sparse_buf st) (pos mod sparse_blocksize) piece\<rparr>)"

definition flush_sparse_buf :: "nat \<Rightarrow> nat \<Rightarrow> 'c patcher \<Rightarrow> 'c patch_result" where
  "flush_sparse_buf pos next_checkpoint st =
     (let st = (if curr_only_zeros st
                then if last_sparse_start st = - 1 then st\<lparr>last_sparse_start := int (next_checkpoint - sparse_blocksize)\<rparr> else st
                else if last_sparse_start st \<noteq> - 1 then finishSparse pos st else st);
          st = (if \<not> curr_only_zeros st
                then snd (cb_next (Some (take sparse_blocksize (sparse_buf st))) sparse_blocksize (curr_changed st) None st)
                else snd (cb_next None sparse_blocksize (curr_changed st) (Some True) st))
      in if cb_at next_checkpoint st then Some (Inr (st\<lparr>curr_only_zeros := True, curr_changed := False\<rparr>))
         else Some (Inl Assertion_Failed))"

text \<open>The bytes up to the next multiple of the block size go to \<open>sparse_buf\<close>, which is passed on when it is full.\<close>

definition next_piece :: "nat \<Rightarrow> byte list \<Rightarrow> bool \<Rightarrow> 'c patcher \<Rightarrow> 'c patch_result" where
  "next_piece pos piece changed st =
     (let next_checkpoint = roundDown pos sparse_blocksize + sparse_blocksize; st = fill_sparse_buf pos piece changed st
      in if pos + length piece = next_checkpoint then flush_sparse_buf pos next_checkpoint st else Some (Inr st))"

definition to_checkpoint :: "nat \<Rightarrow> nat \<Rightarrow> nat" where
  "to_checkpoint pos bsize = min bsize (roundDown pos sparse_blocksize + sparse_blocksize - pos)"

lemma to_checkpoint_pos: "0 < bsize \<Longrightarrow> 0 < to_checkpoint pos bsize"
proof -
  have "0 < sparse_blocksize" by (simp add: sparse_blocksize_def)
  then have "pos < roundDown pos sparse_blocksize + sparse_blocksize"
    using mod_less_divisor[of sparse_blocksize pos] div_mult_mod_eq[of pos sparse_blocksize] unfolding roundDown_def by linarith
  then show "0 < bsize \<Longrightarrow> 0 < to_checkpoint pos bsize" by (simp add: to_checkpoint_def)
qed

function next_data_bytes :: "nat \<Rightarrow> byte list \<Rightarrow> bool \<Rightarrow> 'c patcher \<Rightarrow> 'c patch_result" where
  "next_data_bytes pos buf changed st =
     (if buf = [] then Some (Inr st)
      else if pos mod sparse_blocksize = 0 \<and> length buf = sparse_blocksize then next_whole_block pos buf changed st
      else and_then (next_piece pos (take (to_checkpoint pos (length buf)) buf) changed st)
        (\<lambda>st. next_data_bytes (pos + to_checkpoint pos (length buf)) (drop (to_checkpoint pos (length buf)) buf) changed st))"
  by pat_completeness auto

termination next_data_bytes
  by (relation "measure (\<lambda>(pos, buf, changed, st). length buf)") (use to_checkpoint_pos in auto)

declare next_data_bytes.simps [simp del]

definition nextChunkPatcherBytes :: "nat \<Rightarrow> byte list \<Rightarrow> bool \<Rightarrow> 'c patcher \<Rightarrow> 'c patch_result" where
  "nextChunkPatcherBytes pos buf changed st = next_data_bytes pos buf changed (st\<lparr>last_unchanged := False\<rparr>)"

definition finishChunkPatcher :: "nat \<Rightarrow> 'c patcher \<Rightarrow> 'c patch_result" where
  "finishChunkPatcher pos st =
     (let st = finishSparse pos st; used = pos mod sparse_blocksize
      in if 0 < used \<and> \<not> last_unchanged st then
           let st = snd (cb_next (Some (take used (sparse_buf st))) used (curr_changed st) None st)
           in if cb_at pos st then Some (Inr st) else Some (Inl Assertion_Failed)
         else Some (Inr st))"

text \<open>Passing on bytes at the current position.\<close>

definition emit_bytes :: "byte list \<Rightarrow> bool \<Rightarrow> 'c patcher \<Rightarrow> 'c patch_result" where
  "emit_bytes buf changed st =
     (if with_sparse st then nextChunkPatcherBytes (file_pos st) buf changed st
      else if cb_at (file_pos st) st then Some (Inr (snd (cb_next (Some buf) (length buf) changed None st)))
      else Some (Inl Assertion_Failed))"

section \<open>Reading the patch\<close>

partial_function (option) readNextValidPatch :: "'c patcher \<Rightarrow> (bool \<times> bool \<times> 'c patcher) option" where
  "readNextValidPatch st =
     (let (d, has_read_error, f) = File_Read 12 (patch_f st);
          st = st\<lparr>patch_f := f, patchf_pos := patchf_pos st + length d\<rparr>
      in if length d \<noteq> 12 then Some (False, has_read_error, st\<lparr>patch_off := - 1, patch_size := 0\<rparr>)
         else
           let off = sint (little_endian64 (host_be st) (of_mem (host_be st) (take 8 d)));
               n = unat (little_endian32 (host_be st) (of_mem (host_be st) (drop 8 d)));
               st = st\<lparr>patch_off := off, patch_size := n\<rparr>
           in if off = - 1 then
                let st = st\<lparr>patchf_pos := patchf_pos st + n\<rparr>
                in readNextValidPatch (st\<lparr>patch_f := snd (File_Seek (int (patchf_pos st)) (patch_f st))\<rparr>)
              else Some (True, has_read_error, st))"

text \<open>\<open>while (next_header.patch_size > 0)\<close>\<close>

partial_function (option) apply_patch_data :: "'c patcher \<Rightarrow> 'c patch_result" where
  "apply_patch_data st =
     (if 0 < patch_size st then
        let (d, has_read_error, f) = File_Read (min buffer_size (patch_size st)) (patch_f st); st = st\<lparr>patch_f := f\<rparr>
        in if has_read_error then Some (Inl Read_Error)
           else and_then (emit_bytes d True (st\<lparr>patchf_pos := patchf_pos st + length d\<rparr>))
             (\<lambda>st. apply_patch_data (st\<lparr>patch_size := patch_size st - length d, file_pos := file_pos st + length d\<rparr>))
      else Some (Inr st))"

section \<open>The parts that do not change\<close>

text \<open>Whether the bytes at the position must be read, and how many of them.\<close>

definition align_read :: "nat \<Rightarrow> 'c patcher \<Rightarrow> bool \<times> nat \<times> 'c patcher" where
  "align_read tr st =
     (if unchanged_align st \<noteq> 0 then
        let pos = int (file_pos st);
            near = (unchanged_align_start st \<noteq> - 1 \<and> unchanged_align_end_next st \<noteq> - 1 \<and>
                    unchanged_align_start st \<le> pos \<and> pos < unchanged_align_end_next st) \<or>
                   (unchanged_align_end st \<noteq> - 1 \<and> pos < unchanged_align_end st);
            req = (near \<or> require_unchanged st);
            st = (if near then st\<lparr>base_f := snd (File_Seek pos (base_f st))\<rparr> else st);
            tr = (if \<not> req \<and> unchanged_align_start st \<noteq> - 1 \<and> pos < unchanged_align_start st \<and>
                     unchanged_align_start st < pos + int tr
                  then nat (unchanged_align_start st - pos)
                  else if unchanged_align_end st \<noteq> - 1 \<and> pos < unchanged_align_end st \<and> unchanged_align_end st < pos + int tr
                  then nat (unchanged_align_end st - pos) else tr)
        in (req, tr, st)
      else (require_unchanged st, tr, st))"

definition read_unchanged :: "nat \<Rightarrow> 'c patcher \<Rightarrow> (patch_error + nat \<times> 'c patcher) option" where
  "read_unchanged tr st =
     (let (d, has_read_error, f) = File_Read tr (base_f st); st = st\<lparr>base_f := f\<rparr>
      in if has_read_error then Some (Inl Read_Error)
         else and_then (emit_bytes d False st)
           (\<lambda>st. Some (Inr (tr - length d, st\<lparr>file_pos := file_pos st + length d\<rparr>))))"

definition skip_unchanged :: "nat \<Rightarrow> 'c patcher \<Rightarrow> (patch_error + nat \<times> 'c patcher) option" where
  "skip_unchanged tr st =
     (let tr = (if base_size st < int (file_pos st) + int tr then nat (base_size st - int (file_pos st)) else tr);
          p_is_sparse = (if unchanged_align st \<noteq> 0 \<and> tr < unchanged_align st \<and> last_sparse_start st = - 1 then None else Some False)
      in if cb_at (file_pos st) st then
           let (sp, st) = cb_next None tr False p_is_sparse st;
               st = st\<lparr>last_unchanged := True\<rparr>;
               st = (if p_is_sparse \<noteq> None \<and> sp = Some True
                     then if last_sparse_start st = - 1 then st\<lparr>last_sparse_start := int (file_pos st)\<rparr> else st
                     else if last_sparse_start st \<noteq> - 1 then finishSparse (file_pos st) st else st)
           in Some (Inr (0, st\<lparr>file_pos := file_pos st + tr\<rparr>))
         else Some (Inl Assertion_Failed))"

partial_function (option) unchanged_loop :: "nat \<Rightarrow> 'c patcher \<Rightarrow> 'c patch_result" where
  "unchanged_loop tr st =
     (if 0 < tr \<and> int (file_pos st) < base_size st \<and> int (file_pos st) < filesize st then
        let (req, tr, st) = align_read (min tr buffer_size) st
        in and_then (if req then read_unchanged tr st else skip_unchanged tr st)
             (\<lambda>(tr, st). unchanged_loop tr
                (if unchanged_align st \<noteq> 0 \<and> int (file_pos st) = unchanged_align_end st
                 then st\<lparr>unchanged_align_end := - 1\<rparr> else st))
      else Some (Inr st))"

text \<open>There is an iterator when there is an extent.\<close>

partial_function (option) skip_sparse_extents :: "'c patcher \<Rightarrow> 'c patcher option" where
  "skip_sparse_extents st =
     (case curr_sparse st of
        None \<Rightarrow> Some st
      | Some (off, sz) \<Rightarrow>
          if off + sz \<le> int (file_pos st) then
            case extent_iterator st of
              None \<Rightarrow> None
            | Some it \<Rightarrow>
                let (e, it) = iter_nextExtent (host_be st) it
                in skip_sparse_extents (st\<lparr>curr_sparse := e, extent_iterator := Some it\<rparr>)
          else Some st)"

text \<open>A position in the old file: inside a hole whole blocks are passed on as zeros.\<close>

definition sparse_part :: "nat \<Rightarrow> 'c patcher \<Rightarrow> 'c patch_result" where
  "sparse_part tr st =
     (let pos = file_pos st; align = unchanged_align st;
          tr = tr - tr mod sparse_blocksize; tr = (if align \<noteq> 0 then tr - tr mod align else tr)
      in and_then
           (if with_sparse st then next_sparse_bytes pos tr False (st\<lparr>last_unchanged := False\<rparr>)
            else if cb_at pos st then Some (Inr (snd (cb_next None tr False (Some True) st)))
            else Some (Inl Assertion_Failed))
           (\<lambda>st. Some (Inr (st\<lparr>file_pos := pos + tr\<rparr>))))"

definition to_block :: "nat \<Rightarrow> 'c patcher \<Rightarrow> nat" where
  "to_block tr st =
     (let pos = file_pos st; align = unchanged_align st;
          tr = (if align \<noteq> 0 \<and> pos mod align \<noteq> 0 then min tr (align - pos mod align) else tr)
      in if pos mod sparse_blocksize \<noteq> 0 then min tr (sparse_blocksize - pos mod sparse_blocksize) else tr)"

definition unchanged_part :: "nat \<Rightarrow> 'c patcher \<Rightarrow> 'c patch_result" where
  "unchanged_part tr st = Option.bind (skip_sparse_extents st) (\<lambda>st.
     let pos = file_pos st; align = unchanged_align st;
         tr = (if filesize st < int pos + int tr then nat (filesize st - int pos) else tr)
     in case curr_sparse st of
          None \<Rightarrow> unchanged_loop tr st
        | Some (off, sz) \<Rightarrow>
            if sparse_blocksize \<le> tr \<and> align \<le> tr \<and> off \<le> int pos \<and> int pos + int tr \<le> off + sz then
              if pos mod sparse_blocksize = 0 \<and> (align = 0 \<or> pos mod align = 0) then sparse_part tr st
              else unchanged_loop (to_block tr st) st
            else unchanged_loop tr st)"

section \<open>The whole patch\<close>

definition next_header :: "'c patcher \<Rightarrow> 'c patch_result" where
  "next_header st =
     (if has_header st \<and> patch_off st = - 1 then
        Option.bind (readNextValidPatch st) (\<lambda>(hh, has_read_error, st).
          if has_read_error then Some (Inl Read_Error)
          else
            let st = st\<lparr>has_header := hh\<rparr>
            in Some (Inr (if patch_off st \<noteq> - 1 \<and> unchanged_align st \<noteq> 0
                 then st\<lparr>unchanged_align_start := int (roundDown (nat (patch_off st)) (unchanged_align st)),
                         unchanged_align_end_next := int (roundUp (nat (patch_off st) + patch_size st) (unchanged_align st))\<rparr>
                 else st)))
      else Some (Inr st))"

text \<open>The number of bytes before the next piece; one round of the loop, whose flag says that the loop is left.\<close>

definition bytes_before :: "'c patcher \<Rightarrow> nat" where
  "bytes_before st =
     (let max_read = (if unchanged_align st \<noteq> 0 then UINT_MAX - UINT_MAX mod unchanged_align st else UINT_MAX);
          hoff = patch_off st - int (file_pos st)
      in if patch_off st \<noteq> - 1 \<and> 0 \<le> hoff \<and> hoff < int max_read then nat hoff else max_read)"

definition patch_data_round :: "bool \<Rightarrow> 'c patcher \<Rightarrow> (patch_error + bool \<times> 'c patcher) option" where
  "patch_data_round finished st =
     (if int (file_pos st) = patch_off st then
        and_then (apply_patch_data (st\<lparr>unchanged_align_end := unchanged_align_end_next st\<rparr>)) (\<lambda>st.
          let st = (if require_unchanged st then st\<lparr>base_f := snd (File_Seek (int (file_pos st)) (base_f st))\<rparr> else st)
          in Some (Inr (finished, st\<lparr>patch_off := - 1\<rparr>)))
      else Some (Inl Assertion_Failed))"

definition patch_round :: "nat \<Rightarrow> 'c patcher \<Rightarrow> (patch_error + bool \<times> 'c patcher) option" where
  "patch_round tr st =
     (let pos = int (file_pos st); finished = (tr = 0 \<and> filesize st < pos + int (patch_size st));
          st = (if finished then st\<lparr>patch_size := nat ((filesize st - pos) mod 2 ^ 32)\<rparr> else st)
      in if \<not> finished \<and> filesize st \<le> pos then Some (Inl Patch_Corrupt)
         else if tr = 0 then patch_data_round finished st
         else if pos < base_size st \<and> pos < filesize st then
           and_then (unchanged_part tr st) (\<lambda>st. Some (Inr (finished, st)))
         else Some (Inl Patch_Corrupt))"

definition patch_step :: "'c patcher \<Rightarrow> (patch_error + bool \<times> 'c patcher) option" where
  "patch_step st = and_then (next_header st) (\<lambda>st.
     let pos = int (file_pos st) in
     if \<not> has_header st \<and> (filesize st \<le> pos \<or> base_size st \<le> pos) then Some (Inr (True, st))
     else if patch_off st \<noteq> - 1 \<and> patch_off st < pos then Some (Inl Assertion_Failed)
     else patch_round (bytes_before st) st)"

partial_function (option) patch_loop :: "'c patcher \<Rightarrow> 'c patch_result" where
  "patch_loop st =
     (if (int (file_pos st) < base_size st \<and> int (file_pos st) < filesize st) \<or> has_header st then
        and_then (patch_step st) (\<lambda>(finished, st). if finished then Some (Inr st) else patch_loop st)
      else Some (Inr st))"

text \<open>
  \<open>ApplyPatch\<close> on the object with its callback and settings. Without an iterator of extents and without
  \<open>with_sparse\<close> the field \<open>last_sparse_start\<close> keeps what was in memory.
\<close>

definition start_sparse :: "ExtentIterator option \<Rightarrow> 'c patcher \<Rightarrow> 'c patcher" where
  "start_sparse it st =
     (let st = (if with_sparse st \<or> it \<noteq> None
                then st\<lparr>last_sparse_start := - 1, curr_only_zeros := True, curr_changed := False,
                        sparse_buf := take sparse_blocksize (sparse_buf st @ replicate sparse_blocksize 0)\<rparr>
                else st)
      in case it of
           None \<Rightarrow> st\<lparr>extent_iterator := None, curr_sparse := None\<rparr>
         | Some it \<Rightarrow> let (e, it) = iter_nextExtent (host_be st) it in st\<lparr>extent_iterator := Some it, curr_sparse := e\<rparr>)"

definition ApplyPatch :: "File \<Rightarrow> File \<Rightarrow> ExtentIterator option \<Rightarrow> 'c patcher \<Rightarrow> 'c patch_result" where
  "ApplyPatch file patch it st =
     (let patch = snd (File_Seek 0 patch); file = snd (File_Seek 0 file);
          (d, err, patch) = File_Read 8 patch;
          st = st\<lparr>unchanged_align_start := - 1, unchanged_align_end := - 1, unchanged_align_end_next := - 1, last_unchanged := False\<rparr>
      in if length d \<noteq> 8 then Some (Inl Read_Error)
         else
           let st = st\<lparr>filesize := sint (little_endian64 (host_be st) (of_mem (host_be st) d)), patchf_pos := 8, patch_f := patch\<rparr>;
               st = start_sparse it st;
               (n, file) = File_Size file;
               st = st\<lparr>base_f := file, base_size := n, file_pos := 0, patch_off := - 1, patch_size := 0, has_header := True\<rparr>
           in and_then (patch_loop st) (\<lambda>st.
                if with_sparse st then finishChunkPatcher (file_pos st) st else Some (Inr st)))"

end
