(* ===== verification/Patch_Sink.thy ===== *)
theory Patch_Sink
  imports Chunk_Patcher
begin

text \<open>
  What the callback of the patcher is told, as a list of events, and the contract of a callback as the locale
  \<open>patch_sink\<close>: bytes, whole blocks of zeros, bytes that stay as they are, and notes about holes. The lemmas say
  that every way the patcher passes on bytes keeps the trace in step with the bytes.
\<close>

section \<open>What the callback is told\<close>

datatype patch_event = Data "byte list" | Zeros nat | Kept nat | Note nat nat

fun event_size :: "patch_event \<Rightarrow> nat" where
  "event_size (Data d) = length d"
| "event_size (Zeros n) = n"
| "event_size (Kept n) = n"
| "event_size (Note s l) = 0"

definition trace_size :: "patch_event list \<Rightarrow> nat" where
  "trace_size tr = sum_list (map event_size tr)"

lemma trace_size_simps [simp]:
  "trace_size [] = 0" "trace_size (tr @ [e]) = trace_size tr + event_size e"
  by (simp_all add: trace_size_def)

lemma trace_size_Cons [simp]: "trace_size (e # tr) = event_size e + trace_size tr"
  by (simp add: trace_size_def)

text \<open>The bytes that a trace stands for, when the old file is \<open>base\<close>.\<close>

fun event_bytes :: "byte list \<Rightarrow> byte list \<Rightarrow> patch_event \<Rightarrow> byte list" where
  "event_bytes base cur (Data d) = cur @ d"
| "event_bytes base cur (Zeros n) = cur @ replicate n 0"
| "event_bytes base cur (Kept n) = cur @ take n (drop (length cur) base)"
| "event_bytes base cur (Note s l) = cur"

definition trace_bytes :: "byte list \<Rightarrow> patch_event list \<Rightarrow> byte list" where
  "trace_bytes base tr = foldl (event_bytes base) [] tr"

text \<open>
  The contract of a callback: \<open>told tr c\<close> says that \<open>c\<close> has been told \<open>tr\<close>. \<open>only_changed\<close>: data that is not
  marked as changed is not taken over; \<open>accepts\<close>: the events the callback can deal with.
\<close>

locale patch_sink =
  fixes be :: bool and sink :: "'c patch_callback" and told :: "patch_event list \<Rightarrow> 'c \<Rightarrow> bool"
    and only_changed :: bool and accepts :: "patch_event list \<Rightarrow> patch_event \<Rightarrow> bool"
  assumes take_data: "told tr c \<Longrightarrow> accepts tr (Data d) \<Longrightarrow> changed \<or> \<not> only_changed \<Longrightarrow>
      told (tr @ [Data d]) (snd (next_chunk_patcher_bytes sink (Some d) (length d) changed None c))"
    and take_zeros: "told tr c \<Longrightarrow> accepts tr (Zeros n) \<Longrightarrow>
      told (tr @ [Zeros n]) (snd (next_chunk_patcher_bytes sink None n changed (Some True) c))"
    and take_kept: "told tr c \<Longrightarrow> accepts tr (Kept n) \<Longrightarrow>
      fst (next_chunk_patcher_bytes sink None n False (Some False) c) \<noteq> Some True \<and>
      told (tr @ [Kept n]) (snd (next_chunk_patcher_bytes sink None n False (Some False) c))"
    and take_note: "told tr c \<Longrightarrow> accepts tr (Note s l) \<Longrightarrow>
      told (tr @ [Note s l]) (next_sparse_extent_bytes sink (hole_note be s l) c)"
    and position: "told tr c \<Longrightarrow> chunk_patcher_pos sink c < 0 \<or> chunk_patcher_pos sink c = int (trace_size tr)"
begin

text \<open>The callback of the patcher is the sink, and it has been told the trace.\<close>

definition hears :: "patch_event list \<Rightarrow> 'c patcher \<Rightarrow> bool" where
  "hears tr st \<longleftrightarrow> cb st = sink \<and> host_be st = be \<and> told tr (cbs st)"

lemma hears_at: "hears tr st \<Longrightarrow> trace_size tr = pos \<Longrightarrow> cb_at pos st"
  using position by (auto simp: hears_def cb_at_def)

lemma hears_data:
  "hears tr st \<Longrightarrow> accepts tr (Data d) \<Longrightarrow> changed \<or> \<not> only_changed \<Longrightarrow> n = length d \<Longrightarrow>
   hears (tr @ [Data d]) (snd (cb_next (Some d) n changed None st))"
  using take_data by (simp add: hears_def cb_next_def split: prod.split) (metis snd_conv)

lemma hears_zeros:
  "hears tr st \<Longrightarrow> accepts tr (Zeros n) \<Longrightarrow> hears (tr @ [Zeros n]) (snd (cb_next None n changed (Some True) st))"
  using take_zeros by (simp add: hears_def cb_next_def split: prod.split) (metis snd_conv)

lemma hears_kept:
  "hears tr st \<Longrightarrow> accepts tr (Kept n) \<Longrightarrow>
   fst (cb_next None n False (Some False) st) \<noteq> Some True \<and> hears (tr @ [Kept n]) (snd (cb_next None n False (Some False) st))"
  using take_kept by (simp add: hears_def cb_next_def split: prod.split) (metis fst_conv snd_conv)

end

text \<open>The fields that passing on bytes leaves alone.\<close>

definition sink_frame :: "'c patcher \<Rightarrow> 'c patcher \<Rightarrow> bool" where
  "sink_frame st st' \<longleftrightarrow> cb st' = cb st \<and> host_be st' = host_be st \<and> base_f st' = base_f st \<and> patch_f st' = patch_f st \<and>
     patchf_pos st' = patchf_pos st \<and> file_pos st' = file_pos st \<and> base_size st' = base_size st \<and> filesize st' = filesize st \<and>
     patch_off st' = patch_off st \<and> patch_size st' = patch_size st \<and> has_header st' = has_header st \<and>
     curr_sparse st' = curr_sparse st \<and> extent_iterator st' = extent_iterator st \<and>
     require_unchanged st' = require_unchanged st \<and> with_sparse st' = with_sparse st \<and> unchanged_align st' = unchanged_align st"

lemma sink_frame_refl [simp]: "sink_frame st st"
  by (simp add: sink_frame_def)

lemma sink_frame_trans [trans]: "sink_frame a b \<Longrightarrow> sink_frame b c \<Longrightarrow> sink_frame a c"
  by (simp add: sink_frame_def)

lemma cb_next_frame: "sink_frame st (snd (cb_next b n ch sp st))"
  by (simp add: cb_next_def sink_frame_def split: prod.split)

lemma finishSparse_frame: "sink_frame st (finishSparse pos st)"
  by (simp add: finishSparse_def sink_frame_def Let_def)

lemma cb_next_fields:
  "last_sparse_start (snd (cb_next b n ch sp st)) = last_sparse_start st"
  "curr_only_zeros (snd (cb_next b n ch sp st)) = curr_only_zeros st"
  "curr_changed (snd (cb_next b n ch sp st)) = curr_changed st"
  "sparse_buf (snd (cb_next b n ch sp st)) = sparse_buf st"
  "last_unchanged (snd (cb_next b n ch sp st)) = last_unchanged st"
  by (simp_all add: cb_next_def split: prod.split)

lemma finishSparse_fields:
  "curr_only_zeros (finishSparse pos st) = curr_only_zeros st" "curr_changed (finishSparse pos st) = curr_changed st"
  "sparse_buf (finishSparse pos st) = sparse_buf st" "last_unchanged (finishSparse pos st) = last_unchanged st"
  by (simp_all add: finishSparse_def Let_def)

section \<open>The trace of a file in blocks\<close>

text \<open>Whole blocks of zeros are told as such, a run of them is noted before the next block.\<close>

definition hole_notes :: "nat \<Rightarrow> nat option \<Rightarrow> patch_event list" where
  "hole_notes pos start = (case start of None \<Rightarrow> [] | Some s \<Rightarrow> [Note s (pos - s)])"

fun block_event :: "nat \<times> nat option \<times> patch_event list \<Rightarrow> byte list \<Rightarrow> nat \<times> nat option \<times> patch_event list" where
  "block_event (pos, start, tr) c =
     (if length c = sparse_blocksize \<and> buf_is_zero c
      then (pos + sparse_blocksize, Some (case start of None \<Rightarrow> pos | Some s \<Rightarrow> s), tr @ [Zeros sparse_blocksize])
      else (pos + length c, None, tr @ hole_notes pos start @ [Data c]))"

definition block_scan :: "byte list \<Rightarrow> nat \<times> nat option \<times> patch_event list" where
  "block_scan data = foldl block_event (0, None, []) (chunks_of sparse_blocksize data)"

definition block_trace :: "byte list \<Rightarrow> patch_event list" where
  "block_trace data =
     (let k = roundDown (length data) sparse_blocksize; (pos, start, tr) = block_scan (take k data)
      in tr @ hole_notes k start @ (if k < length data then [Data (drop k data)] else []))"

lemma block_scan_Nil: "block_scan [] = (0, None, [])"
  by (simp add: block_scan_def chunks_of_Nil)

lemma block_scan_snoc:
  "length a mod sparse_blocksize = 0 \<Longrightarrow> length b = sparse_blocksize \<Longrightarrow> block_scan (a @ b) = block_event (block_scan a) b"
proof -
  assume a: "length a mod sparse_blocksize = 0" "length b = sparse_blocksize"
  then have "b \<noteq> []" by (auto simp: sparse_blocksize_def)
  then show ?thesis using a by (simp add: block_scan_def chunks_of_snoc)
qed

lemma trace_size_append [simp]: "trace_size (a @ b) = trace_size a + trace_size b"
  by (simp add: trace_size_def)

lemma trace_size_notes [simp]: "trace_size (hole_notes p s) = 0"
  by (cases s) (simp_all add: hole_notes_def trace_size_def)

lemma block_event_size:
  "block_event (pos, start, tr) c = (pos', start', tr') \<Longrightarrow> trace_size tr = pos \<Longrightarrow> trace_size tr' = pos' \<and> pos' = pos + length c"
  using trace_size_simps(2)[of tr "Zeros sparse_blocksize"] trace_size_simps(2)[of "tr @ hole_notes pos start" "Data c"]
  by (auto split: if_splits)

lemma block_scan_size: "block_scan data = (pos, start, tr) \<Longrightarrow> pos = length data \<and> trace_size tr = pos"
proof -
  have "foldl block_event (p, s, t) cs = (pos, start, tr) \<Longrightarrow> trace_size t = p \<Longrightarrow> pos = p + length (concat cs) \<and> trace_size tr = pos" for p s t cs
  proof (induction cs arbitrary: p s t)
    case (Cons c cs)
    obtain p' s' t' where e: "block_event (p, s, t) c = (p', s', t')" by (metis prod_cases3)
    have "foldl block_event (p', s', t') cs = (pos, start, tr)" using Cons.prems(1) e by simp
    then show ?case using Cons.IH[of p' s' t'] block_event_size[OF e Cons.prems(2)] by simp
  qed simp
  note r = this[of 0 None "[]" "chunks_of sparse_blocksize data"]
  have "concat (chunks_of sparse_blocksize data) = data" by (rule concat_chunks_of) (simp add: sparse_blocksize_def)
  then show "block_scan data = (pos, start, tr) \<Longrightarrow> pos = length data \<and> trace_size tr = pos"
    using r by (simp add: block_scan_def)
qed

text \<open>The bytes \<open>cur\<close> have been passed on, the last ones perhaps only to \<open>sparse_buf\<close>.\<close>

definition start_int :: "nat option \<Rightarrow> int" where
  "start_int start = (case start of None \<Rightarrow> - 1 | Some s \<Rightarrow> int s)"

definition done_part :: "byte list \<Rightarrow> byte list" where
  "done_part cur = take (roundDown (length cur) sparse_blocksize) cur"

definition open_part :: "byte list \<Rightarrow> byte list" where
  "open_part cur = drop (roundDown (length cur) sparse_blocksize) cur"

context patch_sink
begin

definition blocks_told :: "byte list \<Rightarrow> 'c patcher \<Rightarrow> bool" where
  "blocks_told cur st \<longleftrightarrow>
     (\<exists>start tr. block_scan (done_part cur) = (length (done_part cur), start, tr) \<and> hears tr st \<and>
        last_sparse_start st = start_int start \<and>
        curr_only_zeros st = buf_is_zero (open_part cur) \<and> length (sparse_buf st) = sparse_blocksize \<and>
        take (length (open_part cur)) (sparse_buf st) = open_part cur)"

text \<open>The events of a trace in blocks are accepted.\<close>

definition blocks_accepted :: bool where
  "blocks_accepted \<longleftrightarrow> \<not> only_changed \<and>
     (\<forall>tr d. trace_size tr mod sparse_blocksize = 0 \<and> d \<noteq> [] \<and> length d \<le> sparse_blocksize \<longrightarrow> accepts tr (Data d)) \<and>
     (\<forall>tr. accepts tr (Zeros sparse_blocksize)) \<and> (\<forall>tr s l. accepts tr (Note s l))"

end

lemma block_pos: "0 < sparse_blocksize"
  by (simp add: sparse_blocksize_def)

lemma roundDown_le: "roundDown n b \<le> n"
  by (simp add: roundDown_def)

lemma roundDown_mod: "roundDown n b mod b = 0"
  by (simp add: roundDown_def)

lemma roundDown_eq: "n mod b = 0 \<Longrightarrow> roundDown n b = n"
  by (simp add: roundDown_def mod_eq_0_iff_dvd)

lemma minus_roundDown: "n - roundDown n b = n mod b"
  by (simp add: roundDown_def minus_div_mult_eq_mod)

lemma roundDown_add: "n mod b + k < b \<Longrightarrow> roundDown (n + k) b = roundDown n b"
proof -
  assume a: "n mod b + k < b"
  have e: "b * (n div b) + n mod b = n" by (rule mult_div_mod_eq)
  have "(n + k) div b = n div b"
  proof (rule div_nat_eqI)
    show "b * (n div b) \<le> n + k" using e by linarith
    show "n + k < b * Suc (n div b)" unfolding mult_Suc_right using e a by linarith
  qed
  then show ?thesis by (simp add: roundDown_def)
qed

lemma done_open: "cur = done_part cur @ open_part cur"
  by (simp add: done_part_def open_part_def)

lemma length_parts: "length (done_part cur) = roundDown (length cur) sparse_blocksize" "length (open_part cur) = length cur mod sparse_blocksize"
  by (simp_all add: done_part_def open_part_def roundDown_le minus_roundDown)

text \<open>Bytes that stay inside the block, and bytes that complete it.\<close>

lemma parts_inside:
  assumes "length cur mod sparse_blocksize + length d < sparse_blocksize"
  shows "done_part (cur @ d) = done_part cur" "open_part (cur @ d) = open_part cur @ d"
proof -
  have r: "roundDown (length (cur @ d)) sparse_blocksize = roundDown (length cur) sparse_blocksize"
    using roundDown_add[OF assms] by simp
  show "done_part (cur @ d) = done_part cur" "open_part (cur @ d) = open_part cur @ d"
    unfolding done_part_def open_part_def r using roundDown_le[of "length cur" sparse_blocksize] by simp_all
qed

lemma parts_full:
  assumes "length cur mod sparse_blocksize + length d = sparse_blocksize"
  shows "done_part (cur @ d) = done_part cur @ (open_part cur @ d)" "open_part (cur @ d) = []"
    "length (open_part cur @ d) = sparse_blocksize"
proof -
  have "length cur = roundDown (length cur) sparse_blocksize + length cur mod sparse_blocksize"
    by (simp add: roundDown_def)
  then have "length (cur @ d) = roundDown (length cur) sparse_blocksize + sparse_blocksize" using assms by simp
  then have m: "length (cur @ d) mod sparse_blocksize = 0" using roundDown_mod[of "length cur" sparse_blocksize] by simp
  then have r: "roundDown (length (cur @ d)) sparse_blocksize = length (cur @ d)" by (rule roundDown_eq)
  show "open_part (cur @ d) = []" unfolding open_part_def r by (rule drop_all) (rule order_refl)
  have "done_part (cur @ d) = cur @ d" unfolding done_part_def r by (rule take_all) (rule order_refl)
  then show "done_part (cur @ d) = done_part cur @ (open_part cur @ d)" using done_open[of cur] by simp
  show "length (open_part cur @ d) = sparse_blocksize" using assms by (simp add: length_parts)
qed

context patch_sink
begin

lemma finishSparse_hears:
  assumes "hears tr st" "last_sparse_start st = start_int start" "start \<noteq> None \<longrightarrow> the start < roundDown pos sparse_blocksize"
    "\<And>s l. accepts tr (Note s l)"
  shows "hears (tr @ hole_notes (roundDown pos sparse_blocksize) start) (finishSparse pos st)"
    "last_sparse_start (finishSparse pos st) = - 1"
proof -
  have "hears (tr @ hole_notes (roundDown pos sparse_blocksize) start) (finishSparse pos st) \<and> last_sparse_start (finishSparse pos st) = - 1"
  proof (cases start)
    case None
    then show ?thesis using assms(1,2) by (simp add: finishSparse_def start_int_def hole_notes_def)
  next
    case (Some s)
    have r: "s < roundDown pos sparse_blocksize" using assms(3) Some by simp
    have w: "(of_int (int (roundDown pos sparse_blocksize) - int s) :: u64) = of_nat (roundDown pos sparse_blocksize - s)"
      using r by (simp add: of_nat_diff)
    show ?thesis
      using assms(1,2) r take_note[of tr "cbs st" s "roundDown pos sparse_blocksize - s"] assms(4)
      by (simp add: Some finishSparse_def start_int_def hole_notes_def hears_def hole_note_def w Let_def del: of_int_diff)
  qed
  then show "hears (tr @ hole_notes (roundDown pos sparse_blocksize) start) (finishSparse pos st)"
    "last_sparse_start (finishSparse pos st) = - 1" by simp_all
qed

end

lemma start_before:
  assumes "block_scan cur = (length cur, start, tr)" "length cur mod sparse_blocksize = 0" "start = Some s"
  shows "s < length cur"
proof -
  have step: "fst (snd (block_event (p, st, t) c)) = Some s \<Longrightarrow> (st = Some s \<longrightarrow> s < p) \<Longrightarrow> s < p + length c \<and> 0 < length c" for p st t c
    by (cases st) (auto simp: sparse_blocksize_def split: if_splits)
  have "foldl block_event (p, st, t) cs = (p', Some s, t') \<Longrightarrow> (st = Some s \<longrightarrow> s < p) \<Longrightarrow> s < p'" for p st t cs p' t'
  proof (induction cs arbitrary: p st t)
    case (Cons c cs)
    obtain q u v where e: "block_event (p, st, t) c = (q, u, v)" by (metis prod_cases3)
    have q: "q = p + length c" using e by (auto split: if_splits)
    have "u = Some s \<longrightarrow> s < q" using step[of p st t c] e q Cons.prems(2) by auto
    then show ?case using Cons.IH[of q u v] Cons.prems(1) e by simp
  qed simp
  from this[of 0 None "[]"] show ?thesis using assms(1,3) by (simp add: block_scan_def)
qed

lemma finishSparse_none: "last_sparse_start st = - 1 \<Longrightarrow> finishSparse pos st = st"
  by (simp add: finishSparse_def)

lemma start_int_eq: "start_int start = - 1 \<longleftrightarrow> start = None"
  by (cases start) (simp_all add: start_int_def)

context patch_sink
begin

text \<open>A whole block, at its place: zeros are told, other bytes end the hole and are passed on.\<close>

lemma tell_zero_block:
  assumes "block_scan c = (length c, start, tr)" "length c mod sparse_blocksize = 0" "hears tr st"
    "length blk = sparse_blocksize" "buf_is_zero blk" blocks_accepted "last_sparse_start st = start_int start"
  defines "st1 \<equiv> (if last_sparse_start st = - 1 then st\<lparr>last_sparse_start := int (length c)\<rparr> else st)"
  shows "\<exists>start' tr'. block_scan (c @ blk) = (length (c @ blk), start', tr') \<and>
    hears tr' (snd (cb_next None sparse_blocksize ch (Some True) st1)) \<and>
    last_sparse_start st1 = start_int start'" "cb_at (length c) st1"
proof -
  have h1: "hears tr st1" using assms(3) by (simp add: st1_def hears_def)
  have sz: "trace_size tr = length c" using block_scan_size[OF assms(1)] by simp
  show "cb_at (length c) st1" by (rule hears_at[OF h1 sz])
  have "accepts tr (Zeros sparse_blocksize)" using assms(6) by (simp add: blocks_accepted_def)
  from hears_zeros[OF h1 this, of ch]
  have "hears (tr @ [Zeros sparse_blocksize]) (snd (cb_next None sparse_blocksize ch (Some True) st1))" .
  moreover have "block_scan (c @ blk) = (length (c @ blk), Some (case start of None \<Rightarrow> length c | Some s \<Rightarrow> s), tr @ [Zeros sparse_blocksize])"
    using block_scan_snoc[OF assms(2,4)] assms(1,4,5) by simp
  moreover have "last_sparse_start st1 = start_int (Some (case start of None \<Rightarrow> length c | Some s \<Rightarrow> s))"
    using assms(7) by (cases start) (simp_all add: st1_def start_int_def)
  ultimately show "\<exists>start' tr'. block_scan (c @ blk) = (length (c @ blk), start', tr') \<and>
    hears tr' (snd (cb_next None sparse_blocksize ch (Some True) st1)) \<and>
    last_sparse_start st1 = start_int start'" by blast
qed

lemma tell_data_block:
  assumes "block_scan c = (length c, start, tr)" "length c mod sparse_blocksize = 0" "hears tr st"
    "length blk = sparse_blocksize" "\<not> buf_is_zero blk" blocks_accepted "last_sparse_start st = start_int start"
    "roundDown pos sparse_blocksize = length c"
  defines "st1 \<equiv> finishSparse pos st"
  shows "\<exists>tr'. block_scan (c @ blk) = (length (c @ blk), None, tr') \<and>
    hears tr' (snd (cb_next (Some blk) sparse_blocksize ch None st1)) \<and> last_sparse_start st1 = - 1"
    "cb_at (length c) st1"
proof -
  have n: "\<And>tr s l. accepts tr (Note s l)" using assms(6) by (simp add: blocks_accepted_def)
  have b: "start \<noteq> None \<longrightarrow> the start < roundDown pos sparse_blocksize"
    using start_before[OF assms(1,2)] assms(8) by auto
  have h1: "hears (tr @ hole_notes (length c) start) st1" "last_sparse_start st1 = - 1"
    using finishSparse_hears[OF assms(3,7) b n] by (simp_all add: assms(8) st1_def)
  have sz: "trace_size (tr @ hole_notes (length c) start) = length c" using block_scan_size[OF assms(1)] by simp
  show "cb_at (length c) st1" by (rule hears_at[OF h1(1) sz])
  have "blk \<noteq> []" using assms(4) by (auto simp: sparse_blocksize_def)
  then have "accepts (tr @ hole_notes (length c) start) (Data blk)"
    using assms(2,4,6) sz by (simp add: blocks_accepted_def del: trace_size_append)
  then have "hears ((tr @ hole_notes (length c) start) @ [Data blk]) (snd (cb_next (Some blk) sparse_blocksize ch None st1))"
    using assms(4,6) by (intro hears_data[OF h1(1)]) (simp_all add: blocks_accepted_def)
  moreover have "block_scan (c @ blk) = (length (c @ blk), None, (tr @ hole_notes (length c) start) @ [Data blk])"
    using block_scan_snoc[OF assms(2,4)] assms(1,4,5) by simp
  ultimately show "\<exists>tr'. block_scan (c @ blk) = (length (c @ blk), None, tr') \<and>
    hears tr' (snd (cb_next (Some blk) sparse_blocksize ch None st1)) \<and> last_sparse_start st1 = - 1"
    using h1(2) by blast
qed

lemma next_piece_told:
  assumes t: "blocks_told cur st" and acc: blocks_accepted
    and p: "length cur mod sparse_blocksize + length piece \<le> sparse_blocksize"
  shows "\<exists>st'. next_piece (length cur) piece changed st = Some (Inr st') \<and> blocks_told (cur @ piece) st' \<and> sink_frame st st' \<and>
    last_unchanged st' = last_unchanged st"
proof -
  obtain start tr where b: "block_scan (done_part cur) = (length (done_part cur), start, tr)" "hears tr st"
    "last_sparse_start st = start_int start" "curr_only_zeros st = buf_is_zero (open_part cur)"
    "length (sparse_buf st) = sparse_blocksize" "take (length (open_part cur)) (sparse_buf st) = open_part cur"
    using t by (auto simp: blocks_told_def)
  define st1 where "st1 = fill_sparse_buf (length cur) piece changed st"
  have f: "sink_frame st st1" "hears tr st1" "last_sparse_start st1 = start_int start" "last_unchanged st1 = last_unchanged st"
    "curr_only_zeros st1 = buf_is_zero (open_part cur @ piece)"
    "sparse_buf st1 = put_bytes (sparse_buf st) (length (open_part cur)) piece"
    using b by (auto simp: st1_def fill_sparse_buf_def sink_frame_def hears_def Let_def length_parts buf_is_zero_def)
  have sb: "length (sparse_buf st1) = sparse_blocksize" "take (length (open_part cur @ piece)) (sparse_buf st1) = open_part cur @ piece"
    using p b(5,6) take_put_bytes[of "length (open_part cur)" "sparse_buf st" piece]
    by (simp_all add: f(6) length_put_bytes length_parts)
  have dl: "length (done_part cur) = roundDown (length cur) sparse_blocksize" by (rule length_parts)
  have lc: "length cur = length (done_part cur) + length cur mod sparse_blocksize"
    by (simp add: dl roundDown_def)
  show ?thesis
  proof (cases "length cur mod sparse_blocksize + length piece < sparse_blocksize")
    case True
    have "next_piece (length cur) piece changed st = Some (Inr st1)"
      using True lc dl by (simp add: next_piece_def st1_def)
    moreover have "blocks_told (cur @ piece) st1"
      unfolding blocks_told_def parts_inside[OF True] using b(1) f sb by blast
    ultimately show ?thesis using f by blast
  next
    case False
    then have e: "length cur mod sparse_blocksize + length piece = sparse_blocksize" using p by simp
    note pf = parts_full[OF e]
    define blk where "blk = open_part cur @ piece"
    define nc where "nc = roundDown (length cur) sparse_blocksize + sparse_blocksize"
    have nc: "nc - sparse_blocksize = length (done_part cur)" "length (done_part cur @ blk) = nc"
      using pf(3) dl by (simp_all add: nc_def blk_def)
    have lb: "length blk = sparse_blocksize" "take sparse_blocksize (sparse_buf st1) = blk"
      using pf(3) sb by (simp_all add: blk_def)
    have dm: "length (done_part cur) mod sparse_blocksize = 0" unfolding dl by (rule roundDown_mod)
    have np: "next_piece (length cur) piece changed st = flush_sparse_buf (length cur) nc st1"
      using e lc dl by (simp add: next_piece_def st1_def nc_def)
    have fin: "blocks_told (cur @ piece) (st2\<lparr>curr_only_zeros := True, curr_changed := False\<rparr>)"
      if "block_scan (done_part cur @ blk) = (length (done_part cur @ blk), start', tr')" "hears tr' st2"
        "last_sparse_start st2 = start_int start'" "sparse_buf st2 = sparse_buf st1" for st2 start' tr'
      unfolding blocks_told_def pf(1,2) blk_def[symmetric]
      using that sb(1) by (intro exI[of _ start'] exI[of _ tr']) (simp add: hears_def buf_is_zero_def)
    have at: "cb_at nc s" if "block_scan (done_part cur @ blk) = (length (done_part cur @ blk), start', tr')" "hears tr' s" for s start' tr'
      using hears_at[OF that(2)] block_scan_size[OF that(1)] nc(2) by simp
    show ?thesis
    proof (cases "buf_is_zero blk")
      case True
      define s where "s = (if last_sparse_start st1 = - 1 then st1\<lparr>last_sparse_start := int (length (done_part cur))\<rparr> else st1)"
      define s2 where "s2 = snd (cb_next None sparse_blocksize (curr_changed s) (Some True) s)"
      obtain start' tr' where r: "block_scan (done_part cur @ blk) = (length (done_part cur @ blk), start', tr')" "hears tr' s2"
        "last_sparse_start s = start_int start'"
        using tell_zero_block(1)[OF b(1) dm f(2) lb(1) True acc f(3), of "curr_changed s"] by (auto simp: s_def s2_def)
      have s: "sink_frame st1 s" "sparse_buf s = sparse_buf st1" "last_unchanged s = last_unchanged st1" "curr_only_zeros s = curr_only_zeros st1"
        by (simp_all add: s_def sink_frame_def)
      have z: "curr_only_zeros st1" using True f(5) by (simp add: blk_def)
      have "flush_sparse_buf (length cur) nc st1 = Some (Inr (s2\<lparr>curr_only_zeros := True, curr_changed := False\<rparr>))"
        using z at[OF r(1,2)] s(4) unfolding flush_sparse_buf_def nc(1) by (simp add: s_def s2_def Let_def)
      moreover have "blocks_told (cur @ piece) (s2\<lparr>curr_only_zeros := True, curr_changed := False\<rparr>)"
        by (rule fin[OF r(1,2)]) (simp_all add: s2_def cb_next_fields s r(3))
      moreover have "sink_frame st (s2\<lparr>curr_only_zeros := True, curr_changed := False\<rparr>)"
        using sink_frame_trans[OF f(1) sink_frame_trans[OF s(1) cb_next_frame[of s None sparse_blocksize "curr_changed s" "Some True"]]]
        by (simp add: s2_def sink_frame_def)
      ultimately show ?thesis using np f(4) s(3) by (simp add: s2_def cb_next_fields)
    next
      case False
      define s where "s = finishSparse (length cur) st1"
      define s2 where "s2 = snd (cb_next (Some blk) sparse_blocksize (curr_changed s) None s)"
      obtain tr' where r: "block_scan (done_part cur @ blk) = (length (done_part cur @ blk), None, tr')" "hears tr' s2"
        "last_sparse_start s = - 1"
        using tell_data_block(1)[OF b(1) dm f(2) lb(1) False acc f(3) dl[symmetric], of "curr_changed s"] by (auto simp: s_def s2_def)
      have s: "sink_frame st1 s" "sparse_buf s = sparse_buf st1" "last_unchanged s = last_unchanged st1" "curr_only_zeros s = curr_only_zeros st1"
        by (simp_all add: s_def finishSparse_frame finishSparse_fields)
      have z: "\<not> curr_only_zeros st1" using False f(5) by (simp add: blk_def)
      have se: "(if last_sparse_start st1 \<noteq> - 1 then finishSparse (length cur) st1 else st1) = s"
        by (simp add: s_def finishSparse_none)
      have "flush_sparse_buf (length cur) nc st1 = Some (Inr (s2\<lparr>curr_only_zeros := True, curr_changed := False\<rparr>))"
        using z at[OF r(1,2)] s(4) se lb(2) s(2) unfolding flush_sparse_buf_def by (simp add: s2_def Let_def)
      moreover have "blocks_told (cur @ piece) (s2\<lparr>curr_only_zeros := True, curr_changed := False\<rparr>)"
        by (rule fin[OF r(1,2)]) (simp_all add: s2_def cb_next_fields s r(3) start_int_def)
      moreover have "sink_frame st (s2\<lparr>curr_only_zeros := True, curr_changed := False\<rparr>)"
        using sink_frame_trans[OF f(1) sink_frame_trans[OF s(1) cb_next_frame[of s "Some blk" sparse_blocksize "curr_changed s" None]]]
        by (simp add: s2_def sink_frame_def)
      ultimately show ?thesis using np f(4) s(3) by (simp add: s2_def cb_next_fields)
    qed
  qed
qed

end

text \<open>The events without blocks: only data, when everything is read.\<close>

definition all_plain :: "bool \<Rightarrow> patch_event list \<Rightarrow> bool" where
  "all_plain r tr \<longleftrightarrow> (\<forall>e \<in> set tr. (\<forall>n. e \<noteq> Zeros n) \<and> (r \<longrightarrow> (\<exists>d. e = Data d)))"

context patch_sink
begin

lemma next_whole_block_told:
  assumes t: "blocks_told cur st" and acc: blocks_accepted
    and p: "length cur mod sparse_blocksize = 0" "length buf = sparse_blocksize"
  shows "\<exists>st'. next_whole_block (length cur) buf changed st = Some (Inr st') \<and> blocks_told (cur @ buf) st' \<and> sink_frame st st' \<and>
    last_unchanged st' = last_unchanged st"
proof -
  have o: "open_part cur = []" "done_part cur = cur"
    using roundDown_eq[OF p(1)] by (simp_all add: open_part_def done_part_def)
  have e: "length cur mod sparse_blocksize + length buf = sparse_blocksize" using p by simp
  note pf = parts_full[OF e, unfolded o append_Nil]
  obtain start tr where b: "block_scan cur = (length cur, start, tr)" "hears tr st"
    "last_sparse_start st = start_int start" "length (sparse_buf st) = sparse_blocksize"
    using t by (auto simp: blocks_told_def o)
  define st0 where "st0 = st\<lparr>curr_only_zeros := buf_is_zero buf\<rparr>"
  have f: "sink_frame st st0" "hears tr st0" "last_sparse_start st0 = start_int start" "last_unchanged st0 = last_unchanged st"
    "curr_only_zeros st0 = buf_is_zero buf" "sparse_buf st0 = sparse_buf st"
    using b by (simp_all add: st0_def sink_frame_def hears_def)
  have fin: "blocks_told (cur @ buf) st2"
    if "block_scan (cur @ buf) = (length (cur @ buf), start', tr')" "hears tr' st2"
      "last_sparse_start st2 = start_int start'" "sparse_buf st2 = sparse_buf st" "curr_only_zeros st2" for st2 start' tr'
    unfolding blocks_told_def pf(1,2) using that b(4)
    by (intro exI[of _ start'] exI[of _ tr']) (simp add: buf_is_zero_def)
  show ?thesis
  proof (cases "buf_is_zero buf")
    case True
    define s where "s = (if last_sparse_start st0 = - 1 then st0\<lparr>last_sparse_start := int (length cur)\<rparr> else st0)"
    define s2 where "s2 = snd (cb_next None sparse_blocksize changed (Some True) s)"
    obtain start' tr' where r: "block_scan (cur @ buf) = (length (cur @ buf), start', tr')" "hears tr' s2"
      "last_sparse_start s = start_int start'"
      using tell_zero_block(1)[OF b(1) p(1) f(2) p(2) True acc f(3), of changed] by (auto simp: s_def s2_def)
    have at: "cb_at (length cur) s" using tell_zero_block(2)[OF b(1) p(1) f(2) p(2) True acc f(3)] by (simp add: s_def)
    have s: "sink_frame st0 s" "sparse_buf s = sparse_buf st0" "last_unchanged s = last_unchanged st0" "curr_only_zeros s = curr_only_zeros st0"
      by (simp_all add: s_def sink_frame_def)
    have "next_whole_block (length cur) buf changed st = Some (Inr s2)"
      using True at unfolding next_whole_block_def st0_def[symmetric] by (simp add: s_def s2_def Let_def f(5) p(2))
    moreover have "blocks_told (cur @ buf) s2"
      by (rule fin[OF r(1,2)]) (simp_all add: s2_def cb_next_fields s f r(3) True)
    moreover have "sink_frame st s2"
      using sink_frame_trans[OF f(1) sink_frame_trans[OF s(1) cb_next_frame[of s None sparse_blocksize changed "Some True"]]]
      by (simp add: s2_def)
    ultimately show ?thesis using f(4) s(3) by (simp add: s2_def cb_next_fields)
  next
    case False
    define s where "s = finishSparse (length cur) st0"
    define s2 where "s2 = snd (cb_next (Some buf) sparse_blocksize changed None s)"
    note tb = tell_data_block[OF b(1) p(1) f(2) p(2) False acc f(3) roundDown_eq[OF p(1)]]
    obtain tr' where r: "block_scan (cur @ buf) = (length (cur @ buf), None, tr')" "hears tr' s2" "last_sparse_start s = - 1"
      using tb(1)[of changed] by (auto simp: s_def s2_def)
    have at: "cb_at (length cur) s" using tb(2) by (simp add: s_def)
    have s: "sink_frame st0 s" "sparse_buf s = sparse_buf st0" "last_unchanged s = last_unchanged st0"
      by (simp_all add: s_def finishSparse_frame finishSparse_fields)
    have se: "(if last_sparse_start st0 \<noteq> - 1 then finishSparse (length cur) st0 else st0) = s"
      by (simp add: s_def finishSparse_none)
    have "next_whole_block (length cur) buf changed st = Some (Inr (s2\<lparr>curr_only_zeros := True, curr_changed := False\<rparr>))"
      using False at se unfolding next_whole_block_def st0_def[symmetric] by (simp add: s2_def Let_def f(5) p(2))
    moreover have "blocks_told (cur @ buf) (s2\<lparr>curr_only_zeros := True, curr_changed := False\<rparr>)"
      by (rule fin[OF r(1)]) (use r(2) in \<open>simp_all add: hears_def s2_def cb_next_fields s f r(3) start_int_def\<close>)
    moreover have "sink_frame st (s2\<lparr>curr_only_zeros := True, curr_changed := False\<rparr>)"
      using sink_frame_trans[OF f(1) sink_frame_trans[OF s(1) cb_next_frame[of s "Some buf" sparse_blocksize changed None]]]
      by (simp add: s2_def sink_frame_def)
    ultimately show ?thesis using f(4) s(3) by (simp add: s2_def cb_next_fields)
  qed
qed

lemma next_data_bytes_told:
  assumes "blocks_told cur st" blocks_accepted
  shows "\<exists>st'. next_data_bytes (length cur) buf changed st = Some (Inr st') \<and> blocks_told (cur @ buf) st' \<and> sink_frame st st' \<and>
    last_unchanged st' = last_unchanged st"
  using assms
proof (induction "length buf" arbitrary: cur buf st rule: less_induct)
  case less
  show ?case
  proof (cases "buf = []")
    case True
    then show ?thesis using less.prems by (subst next_data_bytes.simps) simp
  next
    case ne: False
    show ?thesis
    proof (cases "length cur mod sparse_blocksize = 0 \<and> length buf = sparse_blocksize")
      case True
      then have "next_data_bytes (length cur) buf changed st = next_whole_block (length cur) buf changed st"
        using ne by (subst next_data_bytes.simps) simp
      then show ?thesis using next_whole_block_told[OF less.prems, of buf changed] True by simp
    next
      case False
      define n where "n = to_checkpoint (length cur) (length buf)"
      have n: "0 < n" "n \<le> length buf" "length cur mod sparse_blocksize + n \<le> sparse_blocksize"
      proof -
        show "0 < n" using to_checkpoint_pos[of "length buf"] ne by (simp add: n_def)
        show "n \<le> length buf" by (simp add: n_def to_checkpoint_def)
        have "n \<le> roundDown (length cur) sparse_blocksize + sparse_blocksize - length cur" by (simp add: n_def to_checkpoint_def)
        moreover have "length cur = roundDown (length cur) sparse_blocksize + length cur mod sparse_blocksize" by (simp add: roundDown_def)
        moreover have "length cur mod sparse_blocksize < sparse_blocksize" using block_pos by simp
        ultimately show "length cur mod sparse_blocksize + n \<le> sparse_blocksize" by linarith
      qed
      have l: "length (take n buf) = n" using n by simp
      obtain s where s: "next_piece (length cur) (take n buf) changed st = Some (Inr s)" "blocks_told (cur @ take n buf) s"
        "sink_frame st s" "last_unchanged s = last_unchanged st"
        using next_piece_told[OF less.prems, of "take n buf" changed] n(3) l by auto
      have "next_data_bytes (length cur) buf changed st = next_data_bytes (length cur + n) (drop n buf) changed s"
        unfolding next_data_bytes.simps[of "length cur" buf changed st] if_not_P[OF ne] if_not_P[OF False] n_def[symmetric] s(1)
        by (rule and_then_simps)
      moreover have "length (drop n buf) < length buf" using n ne by simp
      from less.hyps[OF this s(2) less.prems(2)]
      obtain t where "next_data_bytes (length cur + n) (drop n buf) changed s = Some (Inr t)" "blocks_told (cur @ buf) t"
        "sink_frame s t" "last_unchanged t = last_unchanged s"
        using l by auto
      ultimately show ?thesis using s(4) sink_frame_trans[OF s(3)] by auto
    qed
  qed
qed

text \<open>What has been passed on, with and without blocks.\<close>

definition plain_accepted :: "byte list \<Rightarrow> bool \<Rightarrow> bool" where
  "plain_accepted base r \<longleftrightarrow> (\<forall>tr d. length d \<le> buffer_size \<longrightarrow> accepts tr (Data d)) \<and>
     (\<not> r \<longrightarrow> (\<forall>tr n. trace_size tr + n \<le> length base \<longrightarrow> accepts tr (Kept n)) \<and> (\<forall>tr s l. accepts tr (Note s l)))"

definition passed_on :: "byte list \<Rightarrow> byte list \<Rightarrow> 'c patcher \<Rightarrow> bool" where
  "passed_on base cur st \<longleftrightarrow>
     (if with_sparse st then blocks_accepted \<and> blocks_told cur st \<and> \<not> last_unchanged st
      else plain_accepted base (require_unchanged st) \<and>
        (\<exists>tr. hears tr st \<and> trace_bytes base tr = cur \<and> trace_size tr = length cur \<and> all_plain (require_unchanged st) tr))"

lemma emit_bytes_passed:
  assumes "passed_on base cur st" "file_pos st = length cur" "changed \<or> \<not> only_changed" "length d \<le> buffer_size"
  shows "\<exists>st'. emit_bytes d changed st = Some (Inr st') \<and> passed_on base (cur @ d) st' \<and> sink_frame st st'"
proof (cases "with_sparse st")
  case True
  have "blocks_told cur (st\<lparr>last_unchanged := False\<rparr>)"
    using assms(1) True by (simp add: passed_on_def blocks_told_def hears_def)
  moreover have acc: blocks_accepted using assms(1) True by (simp add: passed_on_def)
  ultimately obtain s where s: "next_data_bytes (length cur) d changed (st\<lparr>last_unchanged := False\<rparr>) = Some (Inr s)"
    "blocks_told (cur @ d) s" "sink_frame (st\<lparr>last_unchanged := False\<rparr>) s" "\<not> last_unchanged s"
    using next_data_bytes_told[of cur "st\<lparr>last_unchanged := False\<rparr>" d changed] by auto
  have "sink_frame st s" using s(3) by (simp add: sink_frame_def)
  then show ?thesis using s True acc assms(2) by (simp add: emit_bytes_def nextChunkPatcherBytes_def passed_on_def sink_frame_def)
next
  case False
  obtain tr where t: "hears tr st" "trace_bytes base tr = cur" "trace_size tr = length cur" "all_plain (require_unchanged st) tr"
    "plain_accepted base (require_unchanged st)"
    using assms(1) False by (auto simp: passed_on_def)
  define s where "s = snd (cb_next (Some d) (length d) changed None st)"
  have "hears (tr @ [Data d]) s" unfolding s_def
    by (rule hears_data[OF t(1) _ assms(3) refl]) (use t(5) assms(4) in \<open>simp add: plain_accepted_def\<close>)
  moreover have "trace_bytes base (tr @ [Data d]) = cur @ d" using t(2) by (simp add: trace_bytes_def)
  moreover have "all_plain (require_unchanged st) (tr @ [Data d])" using t(4) by (simp add: all_plain_def)
  moreover have fr: "sink_frame st s" unfolding s_def by (rule cb_next_frame)
  ultimately have "passed_on base (cur @ d) s"
    using False t(3,5) by (auto simp: passed_on_def sink_frame_def intro!: exI[of _ "tr @ [Data d]"])
  moreover have "emit_bytes d changed st = Some (Inr s)"
    using False hears_at[OF t(1,3)] assms(2) by (simp add: emit_bytes_def s_def)
  ultimately show ?thesis using fr by blast
qed

lemma finishChunkPatcher_told:
  assumes "passed_on base cur st" "with_sparse st"
  shows "\<exists>st'. finishChunkPatcher (length cur) st = Some (Inr st') \<and> hears (block_trace cur) st' \<and> filesize st' = filesize st"
proof -
  have acc: blocks_accepted and nl: "\<not> last_unchanged st" using assms by (simp_all add: passed_on_def)
  obtain start tr where b: "block_scan (done_part cur) = (length (done_part cur), start, tr)" "hears tr st"
    "last_sparse_start st = start_int start" "take (length (open_part cur)) (sparse_buf st) = open_part cur"
    using assms by (auto simp: passed_on_def blocks_told_def)
  have dl: "roundDown (length cur) sparse_blocksize = length (done_part cur)" by (simp add: length_parts)
  have dm: "length (done_part cur) mod sparse_blocksize = 0" by (simp only: length_parts roundDown_mod)
  have n: "\<And>tr s l. accepts tr (Note s l)" using acc by (simp add: blocks_accepted_def)
  have sb: "start \<noteq> None \<longrightarrow> the start < roundDown (length cur) sparse_blocksize"
    using start_before[OF b(1) dm] dl by auto
  define s where "s = finishSparse (length cur) st"
  define ns where "ns = tr @ hole_notes (length (done_part cur)) start"
  have h: "hears ns s" using finishSparse_hears(1)[OF b(2,3) sb n] by (simp add: s_def ns_def dl)
  have sz: "trace_size ns = length (done_part cur)" using block_scan_size[OF b(1)] by (simp add: ns_def)
  have s: "sparse_buf s = sparse_buf st" "last_unchanged s = last_unchanged st" "filesize s = filesize st"
    using finishSparse_frame[of st "length cur"] by (simp_all add: s_def finishSparse_fields sink_frame_def)
  have lo: "length (open_part cur) = length cur mod sparse_blocksize" by (rule length_parts)
  have bt: "block_trace cur = ns @ (if length (done_part cur) < length cur then [Data (open_part cur)] else [])"
  proof -
    have "take (roundDown (length cur) sparse_blocksize) cur = done_part cur" "drop (roundDown (length cur) sparse_blocksize) cur = open_part cur"
      by (simp_all add: done_part_def open_part_def)
    then show ?thesis by (simp only: block_trace_def Let_def b(1) prod.case dl ns_def append_assoc)
  qed
  show ?thesis
  proof (cases "0 < length cur mod sparse_blocksize")
    case False
    then have "\<not> length (done_part cur) < length cur" using minus_roundDown[of "length cur" sparse_blocksize] dl by simp
    then show ?thesis using False h bt s by (simp add: finishChunkPatcher_def Let_def s_def[symmetric])
  next
    case True
    define t where "t = snd (cb_next (Some (open_part cur)) (length cur mod sparse_blocksize) (curr_changed s) None s)"
    have "open_part cur \<noteq> []" using True lo by auto
    moreover have "length cur mod sparse_blocksize < sparse_blocksize" using block_pos by simp
    ultimately have a: "accepts ns (Data (open_part cur))" using acc sz dm lo by (simp add: blocks_accepted_def)
    have h2: "hears (ns @ [Data (open_part cur)]) t"
      unfolding t_def by (rule hears_data[OF h a]) (use acc lo in \<open>simp_all add: blocks_accepted_def\<close>)
    have lc: "length cur = length (done_part cur) + length cur mod sparse_blocksize"
      using dl minus_roundDown[of "length cur" sparse_blocksize] roundDown_le[of "length cur" sparse_blocksize] by linarith
    have "trace_size (ns @ [Data (open_part cur)]) = length cur" using sz lo lc by simp
    then have "cb_at (length cur) t" by (rule hears_at[OF h2])
    moreover have "filesize t = filesize st"
      using cb_next_frame[of s "Some (open_part cur)" "length cur mod sparse_blocksize" "curr_changed s" None] s(3)
      by (simp add: t_def sink_frame_def)
    moreover have "block_trace cur = ns @ [Data (open_part cur)]" using bt True lc by simp
    moreover have "take (length cur mod sparse_blocksize) (sparse_buf s) = open_part cur" using b(4) s(1) lo by simp
    ultimately show ?thesis using True h2 s nl by (simp add: finishChunkPatcher_def Let_def s_def[symmetric] t_def)
  qed
qed

end

section \<open>Data of the old file and of the patch\<close>

text \<open>The settings without alignment and extents; data that is not read is only skipped.\<close>

definition base_at :: "byte list \<Rightarrow> 'c patcher \<Rightarrow> bool" where
  "base_at base st \<longleftrightarrow> fbytes (base_f st) = base \<and> no_fault (base_f st) \<and> base_size st = int (length base) \<and>
     (require_unchanged st \<longrightarrow> fpos (base_f st) = file_pos st) \<and> unchanged_align st = 0 \<and> curr_sparse st = None \<and>
     (require_unchanged st \<or> \<not> with_sparse st)"

text \<open>Only the old file, the position in it and what the callback gets have changed.\<close>

definition base_frame :: "'c patcher \<Rightarrow> 'c patcher \<Rightarrow> bool" where
  "base_frame st st' \<longleftrightarrow> sink_frame (st\<lparr>base_f := base_f st', file_pos := file_pos st'\<rparr>) st'"

lemma base_frame_trans: "base_frame a b \<Longrightarrow> base_frame b c \<Longrightarrow> base_frame a c"
  by (simp add: base_frame_def sink_frame_def)

lemma base_frame_refl [simp]: "base_frame st st"
  by (simp add: base_frame_def sink_frame_def)

context patch_sink
begin

text \<open>The other fields do not matter for what has been passed on.\<close>

lemma hears_updates [simp]:
  "hears tr (st\<lparr>base_f := g\<rparr>) = hears tr st" "hears tr (st\<lparr>file_pos := n\<rparr>) = hears tr st"
  "hears tr (st\<lparr>patch_f := g\<rparr>) = hears tr st" "hears tr (st\<lparr>patchf_pos := n\<rparr>) = hears tr st"
  "hears tr (st\<lparr>patch_off := i\<rparr>) = hears tr st" "hears tr (st\<lparr>patch_size := n\<rparr>) = hears tr st"
  "hears tr (st\<lparr>has_header := b\<rparr>) = hears tr st" "hears tr (st\<lparr>unchanged_align_end := i\<rparr>) = hears tr st"
  by (simp_all add: hears_def)

lemma passed_on_updates [simp]:
  "passed_on base cur (st\<lparr>base_f := g\<rparr>) = passed_on base cur st"
  "passed_on base cur (st\<lparr>file_pos := n\<rparr>) = passed_on base cur st"
  "passed_on base cur (st\<lparr>patch_f := g\<rparr>) = passed_on base cur st"
  "passed_on base cur (st\<lparr>patchf_pos := n\<rparr>) = passed_on base cur st"
  "passed_on base cur (st\<lparr>patch_off := i\<rparr>) = passed_on base cur st"
  "passed_on base cur (st\<lparr>patch_size := n\<rparr>) = passed_on base cur st"
  "passed_on base cur (st\<lparr>has_header := b\<rparr>) = passed_on base cur st"
  "passed_on base cur (st\<lparr>unchanged_align_end := i\<rparr>) = passed_on base cur st"
  by (simp_all add: passed_on_def blocks_told_def)

lemma finishSparse_any:
  assumes "hears tr st" "\<And>s l. accepts tr (Note s l)"
  shows "\<exists>ns. hears (tr @ ns) (finishSparse pos st) \<and> (ns = [] \<or> (\<exists>s l. ns = [Note s l]))"
proof (cases "last_sparse_start st \<noteq> - 1 \<and> last_sparse_start st < int (roundDown pos sparse_blocksize)")
  case False
  then show ?thesis using assms(1) by (intro exI[of _ "[]"]) (auto simp: finishSparse_def)
next
  case True
  define s where "s = unat (of_int (last_sparse_start st) :: u64)"
  define l where "l = unat (of_int (int (roundDown pos sparse_blocksize) - last_sparse_start st) :: u64)"
  have "mem_of be 8 (of_int (last_sparse_start st) :: u64) @
      mem_of be 8 (of_int (int (roundDown pos sparse_blocksize) - last_sparse_start st) :: u64) = hole_note be s l"
    by (simp add: hole_note_def s_def l_def)
  then show ?thesis
    using assms True take_note[of tr "cbs st" s l] by (intro exI[of _ "[Note s l]"]) (simp add: finishSparse_def hears_def Let_def)
qed

lemma read_unchanged_told:
  assumes p: "passed_on base cur st" and b: "base_at base st" and pos: "file_pos st = length cur"
    and rq: "require_unchanged st" and oc: "\<not> only_changed" and tr: "tr \<le> buffer_size"
    and d_def: "d = take tr (drop (length cur) base)"
  shows "\<exists>st'. read_unchanged tr st = Some (Inr (tr - length d, st')) \<and> passed_on base (cur @ d) st' \<and>
    base_at base st' \<and> file_pos st' = length (cur @ d) \<and> base_frame st st'"
proof -
  have bf: "fbytes (base_f st) = base" "no_fault (base_f st)" "fpos (base_f st) = length cur"
    using b rq pos by (simp_all add: base_at_def)
  obtain g where g: "File_Read tr (base_f st) = (d, False, g)" "fbytes g = base" "fpos g = length cur + length d" "no_fault g"
    using File_Read_ok[OF bf(2), of tr] bf tr by (auto simp: d_def buffer_size_def)
  have ld: "length d \<le> buffer_size" using tr by (simp add: d_def)
  have "passed_on base cur (st\<lparr>base_f := g\<rparr>)" using p by simp
  then obtain s where s: "emit_bytes d False (st\<lparr>base_f := g\<rparr>) = Some (Inr s)" "passed_on base (cur @ d) s" "sink_frame (st\<lparr>base_f := g\<rparr>) s"
    using emit_bytes_passed[of base cur "st\<lparr>base_f := g\<rparr>" False d] pos oc ld by auto
  let ?t = "s\<lparr>file_pos := file_pos s + length d\<rparr>"
  have "read_unchanged tr st = Some (Inr (tr - length d, ?t))" by (simp add: read_unchanged_def g(1) s(1))
  moreover have "passed_on base (cur @ d) ?t" using s(2) by simp
  moreover have "base_at base ?t \<and> file_pos ?t = length (cur @ d) \<and> base_frame st ?t"
    using s(3) b g pos by (simp add: base_at_def base_frame_def sink_frame_def)
  ultimately show ?thesis by blast
qed

lemma skip_unchanged_told:
  assumes p: "passed_on base cur st" and b: "base_at base st" and pos: "file_pos st = length cur"
    and rq: "\<not> require_unchanged st" and ne: "length cur < length base"
    and d_def: "d = take tr (drop (length cur) base)"
  shows "\<exists>st'. skip_unchanged tr st = Some (Inr (0, st')) \<and> passed_on base (cur @ d) st' \<and>
    base_at base st' \<and> file_pos st' = length (cur @ d) \<and> base_frame st st'"
proof -
  have m: "unchanged_align st = 0" "\<not> with_sparse st" "base_size st = int (length base)" using b rq by (simp_all add: base_at_def)
  obtain tr' where t: "hears tr' st" "trace_bytes base tr' = cur" "trace_size tr' = length cur" "all_plain False tr'"
    "plain_accepted base False"
    using p m(2) rq by (auto simp: passed_on_def)
  define n where "n = (if base_size st < int (file_pos st) + int tr then nat (base_size st - int (file_pos st)) else tr)"
  have n: "n = length d" using m(3) pos ne by (simp add: n_def d_def) linarith
  define s where "s = snd (cb_next None n False (Some False) st)"
  have nb: "trace_size tr' + n \<le> length base" using n t(3) ne by (simp add: d_def)
  have k: "fst (cb_next None n False (Some False) st) \<noteq> Some True" "hears (tr' @ [Kept n]) s"
    using hears_kept[OF t(1), of n] t(5) nb by (simp_all add: s_def plain_accepted_def)
  define s1 where "s1 = s\<lparr>last_unchanged := True\<rparr>"
  define s2 where "s2 = (if last_sparse_start s1 \<noteq> - 1 then finishSparse (file_pos s1) s1 else s1)"
  have h1: "hears (tr' @ [Kept n]) s1" using k(2) by (simp add: s1_def hears_def)
  have "\<exists>ns. hears ((tr' @ [Kept n]) @ ns) s2 \<and> (ns = [] \<or> (\<exists>s l. ns = [Note s l]))"
  proof (cases "last_sparse_start s1 = - 1")
    case True then show ?thesis using h1 by (intro exI[of _ "[]"]) (simp add: s2_def)
  next
    case False
    then show ?thesis using finishSparse_any[OF h1, of "file_pos s1"] t(5) by (simp add: s2_def plain_accepted_def)
  qed
  then obtain ns where ns: "hears ((tr' @ [Kept n]) @ ns) s2" "ns = [] \<or> (\<exists>s l. ns = [Note s l])" by blast
  have tn: "take n (drop (length cur) base) = d" unfolding n unfolding d_def by (rule take_length_take)
  have "trace_bytes base (tr' @ [Kept n]) = cur @ d" using t(2) tn by (simp add: trace_bytes_def)
  then have "trace_bytes base ((tr' @ [Kept n]) @ ns) = cur @ d" using ns(2) by (auto simp: trace_bytes_def)
  moreover have "trace_size ((tr' @ [Kept n]) @ ns) = length (cur @ d)" using ns(2) t(3) n by auto
  moreover have "all_plain False ((tr' @ [Kept n]) @ ns)" using ns(2) t(4) by (auto simp: all_plain_def)
  moreover have fr: "sink_frame st s2"
  proof -
    have "sink_frame st s1" using cb_next_frame[of st None n False "Some False"] by (simp add: s1_def s_def sink_frame_def)
    then show ?thesis using finishSparse_frame[of s1 "file_pos s1"] sink_frame_trans by (auto simp: s2_def)
  qed
  ultimately have po: "passed_on base (cur @ d) (s2\<lparr>file_pos := file_pos s2 + n\<rparr>)"
    using ns(1) m(2) t(5) rq by (auto simp: passed_on_def sink_frame_def hears_def)
  have at: "cb_at (file_pos st) st" using hears_at[OF t(1,3)] pos by simp
  obtain sp where sp: "cb_next None n False (Some False) st = (sp, s)" "sp \<noteq> Some True"
    using k(1) s_def by (metis fst_conv prod.collapse)
  have fp: "file_pos s1 = file_pos st" using cb_next_frame[of st None n False "Some False"] by (simp add: s1_def s_def sink_frame_def)
  have "skip_unchanged tr st = Some (Inr (0, s2\<lparr>file_pos := file_pos s2 + n\<rparr>))"
    using at m(1) sp
    unfolding skip_unchanged_def n_def[symmetric] Let_def
    by (simp add: sp(1) s1_def s2_def)
  moreover have "base_at base (s2\<lparr>file_pos := file_pos s2 + n\<rparr>) \<and> file_pos (s2\<lparr>file_pos := file_pos s2 + n\<rparr>) = length (cur @ d) \<and>
    base_frame st (s2\<lparr>file_pos := file_pos s2 + n\<rparr>)"
    using fr b rq pos n by (simp add: base_at_def base_frame_def sink_frame_def)
  ultimately show ?thesis using po by blast
qed

lemma unchanged_loop_told:
  assumes "passed_on base cur st" "base_at base st" "file_pos st = length cur" "require_unchanged st \<longrightarrow> \<not> only_changed"
    "int (length cur + tr) \<le> filesize st" "d = take tr (drop (length cur) base)"
  shows "\<exists>st' k. unchanged_loop tr st = Some (Inr st') \<and> k \<le> length d \<and> (d \<noteq> [] \<longrightarrow> 0 < k) \<and> passed_on base (cur @ take k d) st' \<and>
    base_at base st' \<and> file_pos st' = length cur + k \<and> base_frame st st'"
  using assms
proof (induction tr arbitrary: cur st d rule: less_induct)
  case (less tr)
  have bs: "base_size st = int (length base)" "unchanged_align st = 0" using less.prems(2) by (simp_all add: base_at_def)
  show ?case
  proof (cases "0 < tr \<and> length cur < length base")
    case False
    then have "unchanged_loop tr st = Some (Inr st)"
      using less.prems(3) bs by (subst unchanged_loop.simps) auto
    moreover have "d = []" using False less.prems(6) by auto
    ultimately show ?thesis using less.prems(1-3) by (intro exI[of _ st] exI[of _ 0]) simp
  next
    case True
    define t where "t = min tr buffer_size"
    define e where "e = take t (drop (length cur) base)"
    have t: "0 < t" "t \<le> buffer_size" "t \<le> tr" using True by (simp_all add: t_def buffer_size_def)
    have e: "e \<noteq> []" "length e \<le> t" using t True by (auto simp: e_def)
    have fs: "int (length cur) < filesize st" using less.prems(5) True by simp
    have eq: "unchanged_loop tr st =
      and_then (if require_unchanged st then read_unchanged t st else skip_unchanged t st)
        (\<lambda>(tr, st). unchanged_loop tr (if unchanged_align st \<noteq> 0 \<and> int (file_pos st) = unchanged_align_end st
                 then st\<lparr>unchanged_align_end := - 1\<rparr> else st))"
      using True less.prems(3) bs fs
      unfolding unchanged_loop.simps[of tr st] by (simp add: align_read_def t_def[symmetric])
    show ?thesis
    proof (cases "require_unchanged st")
      case rq: True
      obtain s where s: "read_unchanged t st = Some (Inr (t - length e, s))" "passed_on base (cur @ e) s" "base_at base s"
        "file_pos s = length (cur @ e)" "base_frame st s"
        using read_unchanged_told[OF less.prems(1-3) rq _ t(2)] less.prems(4) rq by (auto simp: e_def)
      have fr: "unchanged_align s = 0" "filesize s = filesize st" "require_unchanged s = require_unchanged st"
        using s(3,5) by (simp_all add: base_at_def base_frame_def sink_frame_def)
      define r where "r = t - length e"
      have r: "r < tr" using e t by (cases e) (simp_all add: r_def)
      have d: "int (length (cur @ e) + r) \<le> filesize s"
        using less.prems(5) fr t e by (simp add: r_def)
      obtain u k where u: "unchanged_loop r s = Some (Inr u)" "k \<le> length (take r (drop (length (cur @ e)) base))"
        "passed_on base ((cur @ e) @ take k (take r (drop (length (cur @ e)) base))) u" "base_at base u"
        "file_pos u = length (cur @ e) + k" "base_frame s u"
        using less.IH[OF r s(2,3,4) _ d refl] less.prems(4) fr(3) by blast
      have re: "take r (drop (length (cur @ e)) base) = []"
      proof (cases "length e = t")
        case False
        then have "length base \<le> length cur + length e" using e by (auto simp: e_def)
        then show ?thesis by simp
      qed (simp add: r_def)
      have ke: "k = 0" using u(2) unfolding re by simp
      have pre: "e = take (length e) d"
      proof -
        have "take t d = e" using t(3) by (simp add: less.prems(6) e_def min_def)
        then show ?thesis using take_length_take[of t d] by simp
      qed
      have "length e \<le> length d" using arg_cong[OF pre, of length] by simp
      moreover have "unchanged_loop tr st = Some (Inr u)" using eq rq s(1) u(1) fr(1) by (simp add: r_def)
      moreover have "passed_on base (cur @ take (length e) d) u" using u(3) ke pre by simp
      ultimately show ?thesis
        using u(4,5) ke e(1) base_frame_trans[OF s(5) u(6)] by (intro exI[of _ u] exI[of _ "length e"]) simp
    next
      case rq: False
      obtain s where s: "skip_unchanged t st = Some (Inr (0, s))" "passed_on base (cur @ e) s" "base_at base s"
        "file_pos s = length (cur @ e)" "base_frame st s"
        using skip_unchanged_told[OF less.prems(1-3) rq] True by (auto simp: e_def)
      have fr: "unchanged_align s = 0" using s(3) by (simp add: base_at_def)
      have z: "unchanged_loop 0 s = Some (Inr s)" by (subst unchanged_loop.simps) simp
      have pre: "e = take (length e) d"
      proof -
        have "take t d = e" using t(3) by (simp add: less.prems(6) e_def min_def)
        then show ?thesis using take_length_take[of t d] by simp
      qed
      have "length e \<le> length d" using arg_cong[OF pre, of length] by simp
      moreover have "unchanged_loop tr st = Some (Inr s)" using eq rq s(1) z fr by simp
      ultimately show ?thesis using s pre e(1) by (intro exI[of _ s] exI[of _ "length e"]) simp
    qed
  qed
qed

end

end
