(* ===== verification/Patch_Run.thy ===== *)
theory Patch_Run
  imports Patch_Sink "HOL-Library.Product_Lexorder"
begin

text \<open>
  The format of a patch file, the file that a patch stands for (\<open>patched\<close>), and the run of \<open>ApplyPatch\<close> over it: for every
  callback that keeps the contract, it is told a trace of exactly the patched file, and the loops end.
\<close>

section \<open>Patch files\<close>

text \<open>
  The items of a patch: an offset and the data for it. An item with the offset \<open>- 1\<close> has been invalidated.
\<close>

definition patch_item :: "int \<times> byte list \<Rightarrow> byte list" where
  "patch_item p = le_bytes 8 (of_int (fst p) :: u64) @ le_bytes 4 (of_nat (length (snd p)) :: u32) @ snd p"

definition patch_items :: "(int \<times> byte list) list \<Rightarrow> byte list" where
  "patch_items ps = concat (map patch_item ps)"

definition patch_bytes :: "nat \<Rightarrow> (int \<times> byte list) list \<Rightarrow> byte list" where
  "patch_bytes fs ps = le_bytes 8 (of_nat fs :: u64) @ patch_items ps"

definition item_fits :: "int \<times> byte list \<Rightarrow> bool" where
  "item_fits p \<longleftrightarrow> - 1 \<le> fst p \<and> fst p < 2 ^ 63 \<and> length (snd p) < 2 ^ 32"

text \<open>The items that count.\<close>

definition live :: "(int \<times> byte list) list \<Rightarrow> (int \<times> byte list) list" where
  "live ps = dropWhile (\<lambda>p. fst p = - 1) ps"

text \<open>The file that is \<open>base\<close> with the patch, from \<open>pos\<close>; and what makes a patch fit the old file.\<close>

fun patched_from :: "byte list \<Rightarrow> nat \<Rightarrow> nat \<Rightarrow> (int \<times> byte list) list \<Rightarrow> byte list" where
  "patched_from base fs pos [] = take (fs - pos) (drop pos base)"
| "patched_from base fs pos ((off, d) # ps) =
     (if off = - 1 then patched_from base fs pos ps
      else drop pos (take (nat off) base) @ take (fs - nat off) d @
        (if fs < nat off + length d then [] else patched_from base fs (nat off + length d) ps))"

fun patch_fits :: "byte list \<Rightarrow> nat \<Rightarrow> nat \<Rightarrow> (int \<times> byte list) list \<Rightarrow> bool" where
  "patch_fits base fs pos [] \<longleftrightarrow> True"
| "patch_fits base fs pos ((off, d) # ps) \<longleftrightarrow>
     item_fits (off, d) \<and>
     (if off = - 1 then patch_fits base fs pos ps
      else d \<noteq> [] \<and> pos \<le> nat off \<and> nat off \<le> fs \<and> (nat off \<le> length base \<or> nat off = pos) \<and>
        (nat off + length d \<le> fs \<longrightarrow> patch_fits base fs (nat off + length d) ps))"

lemma live_simps: "live [] = []" "live ((off, d) # ps) = (if off = - 1 then live ps else (off, d) # ps)"
  by (simp_all add: live_def)

lemma patched_from_live: "patched_from base fs pos (live ps) = patched_from base fs pos ps"
  by (induction ps) (auto simp: live_simps)

lemma patch_fits_live: "patch_fits base fs pos ps \<Longrightarrow> patch_fits base fs pos (live ps)"
  by (induction ps) (auto simp: live_simps)

lemma live_length: "length (live ps) \<le> length ps"
  by (simp add: live_def length_dropWhile_le)

text \<open>What is left of the patch file.\<close>

definition patch_at :: "byte list \<Rightarrow> 'c patcher \<Rightarrow> bool" where
  "patch_at left st \<longleftrightarrow> no_fault (patch_f st) \<and> patchf_pos st = fpos (patch_f st) \<and>
     drop (fpos (patch_f st)) (fbytes (patch_f st)) = left"

lemma item_header:
  assumes "item_fits (off, d)" "h = take 12 (patch_item (off, d) @ bs)"
  shows "length h = 12" "sint (little_endian64 be (of_mem be (take 8 h))) = off"
    "unat (little_endian32 be (of_mem be (drop 8 h))) = length d"
proof -
  have h: "h = le_bytes 8 (of_int off :: u64) @ le_bytes 4 (of_nat (length d) :: u32)"
    using assms(2) by (simp add: patch_item_def)
  then show "length h = 12" by simp
  have 8: "take 8 h = le_bytes 8 (of_int off :: u64)" using h by simp
  have 4: "drop 8 h = le_bytes 4 (of_nat (length d) :: u32)" using h by simp
  have "sint (of_int off :: u64) = off"
    using assms(1) sint_sbintrunc'[of off, where 'a = 64] by (simp add: item_fits_def signed_take_bit_int_eq_self)
  then show "sint (little_endian64 be (of_mem be (take 8 h))) = off"
    unfolding 8 by (simp add: le_word_le_bytes)
  have "unat (of_nat (length d) :: u32) = length d"
    using assms(1) by (simp add: item_fits_def unat_of_nat take_bit_nat_eq_self)
  then show "unat (little_endian32 be (of_mem be (drop 8 h))) = length d"
    unfolding 4 by (simp add: le_word_le_bytes)
qed

lemma readNextValidPatch_items:
  assumes "patch_at (patch_items ps) st" "\<forall>p\<in>set ps. item_fits p"
  shows "\<exists>g n. readNextValidPatch st =
      Some (case live ps of
        [] \<Rightarrow> (False, False, st\<lparr>patch_f := g, patchf_pos := n, patch_off := - 1, patch_size := 0\<rparr>)
      | (off, d) # qs \<Rightarrow> (True, False, st\<lparr>patch_f := g, patchf_pos := n, patch_off := off, patch_size := length d\<rparr>)) \<and>
    no_fault g \<and> n = fpos g \<and>
    drop (fpos g) (fbytes g) = (case live ps of [] \<Rightarrow> [] | (off, d) # qs \<Rightarrow> d @ patch_items qs)"
  using assms
proof (induction ps arbitrary: st)
  case Nil
  obtain g where g: "File_Read 12 (patch_f st) = ([], False, g)" "fbytes g = fbytes (patch_f st)" "fpos g = fpos (patch_f st)" "no_fault g"
    using File_Read_ok[of "patch_f st" 12] Nil.prems(1) by (auto simp: patch_at_def patch_items_def)
  then show ?case
    using Nil.prems(1) by (intro exI[of _ g] exI[of _ "fpos g"])
      (simp add: readNextValidPatch.simps[of st] live_def patch_at_def patch_items_def)
next
  case (Cons p ps)
  obtain off d where p: "p = (off, d)" by (cases p)
  define f where "f = patch_f st"
  have f: "no_fault f" "patchf_pos st = fpos f" "drop (fpos f) (fbytes f) = patch_item (off, d) @ patch_items ps"
    using Cons.prems(1) by (simp_all add: f_def patch_at_def p patch_items_def)
  define h where "h = take 12 (patch_item (off, d) @ patch_items ps)"
  obtain g where g: "File_Read 12 f = (h, False, g)" "fbytes g = fbytes f" "fpos g = fpos f + length h" "no_fault g"
    using File_Read_ok[OF f(1), of 12] f(3) by (auto simp: h_def)
  note hd = item_header[of off d h "patch_items ps"]
  have it: "item_fits (off, d)" using Cons.prems(2) p by simp
  have left: "drop (fpos g) (fbytes g) = d @ patch_items ps"
  proof -
    have "drop (12 + fpos f) (fbytes f) = drop 12 (patch_item (off, d) @ patch_items ps)" by (simp only: f(3)[symmetric] drop_drop)
    then show ?thesis using hd(1)[OF it h_def] g(2,3) by (simp add: patch_item_def add.commute)
  qed
  have go: "readNextValidPatch st =
    (let s = st\<lparr>patch_f := g, patchf_pos := fpos g, patch_off := off, patch_size := length d\<rparr>
     in if off = - 1 then
          let s = s\<lparr>patchf_pos := fpos g + length d\<rparr>
          in readNextValidPatch (s\<lparr>patch_f := snd (File_Seek (int (fpos g + length d)) g)\<rparr>)
        else Some (True, False, s))"
    using hd(1)[OF it h_def] hd(2)[OF it h_def] hd(3)[OF it h_def] g(3) f(2)
    by (subst readNextValidPatch.simps) (simp add: f_def[symmetric] g(1) Let_def)
  show ?case
  proof (cases "off = - 1")
    case False
    then show ?thesis
      using go left g(4) by (intro exI[of _ g] exI[of _ "fpos g"]) (simp add: p live_simps Let_def)
  next
    case True
    define g' where "g' = next_op (g\<lparr>fpos := fpos g + length d\<rparr>)"
    have sk: "File_Seek (int (fpos g + length d)) g = (True, g')" using File_Seek_ok[OF g(4), of "int (fpos g + length d)"] unfolding g'_def nat_int by simp
    define s where "s = st\<lparr>patch_f := g', patchf_pos := fpos g + length d, patch_off := off, patch_size := length d\<rparr>"
    have st1: "readNextValidPatch st = readNextValidPatch s" 
    proof -
      have "st\<lparr>patch_off := - 1, patch_size := length d, patchf_pos := fpos g + length d, patch_f := g'\<rparr> = s"
        using True by (simp add: s_def)
      then show ?thesis using go True sk by simp
    qed
    have nf: "no_fault g'" using g(4) no_fault_eq[of g' g] by (simp add: g'_def)
    have "drop (fpos g + length d) (fbytes g) = patch_items ps"
      using arg_cong[OF left, of "drop (length d)"] by (simp add: add.commute)
    then have "patch_at (patch_items ps) s" using nf by (simp add: patch_at_def s_def g'_def)
    from Cons.IH[OF this] Cons.prems(2)
    obtain u n where "readNextValidPatch s =
      Some (case live ps of
        [] \<Rightarrow> (False, False, s\<lparr>patch_f := u, patchf_pos := n, patch_off := - 1, patch_size := 0\<rparr>)
      | (off, d) # qs \<Rightarrow> (True, False, s\<lparr>patch_f := u, patchf_pos := n, patch_off := off, patch_size := length d\<rparr>))"
      "no_fault u" "n = fpos u" "drop (fpos u) (fbytes u) = (case live ps of [] \<Rightarrow> [] | (off, d) # qs \<Rightarrow> d @ patch_items qs)"
      by auto
    then show ?thesis
      using st1 True by (intro exI[of _ u] exI[of _ n]) (simp add: p live_simps s_def split: list.split)
  qed
qed

section \<open>The loop over the patch\<close>

text \<open>Only the patch file, the position and what the callback gets have changed.\<close>

definition data_frame :: "'c patcher \<Rightarrow> 'c patcher \<Rightarrow> bool" where
  "data_frame st st' \<longleftrightarrow>
     sink_frame (st\<lparr>patch_f := patch_f st', patchf_pos := patchf_pos st', patch_size := patch_size st', file_pos := file_pos st'\<rparr>) st'"

lemma data_frame_trans: "data_frame a b \<Longrightarrow> data_frame b c \<Longrightarrow> data_frame a c"
  by (simp add: data_frame_def sink_frame_def)

lemma data_frame_refl [simp]: "data_frame st st"
  by (simp add: data_frame_def sink_frame_def)

context patch_sink
begin

lemma apply_patch_data_told:
  assumes "passed_on base cur st" "file_pos st = length cur" "patch_at left st" "patch_size st \<le> length left"
  shows "\<exists>st'. apply_patch_data st = Some (Inr st') \<and> passed_on base (cur @ take (patch_size st) left) st' \<and>
    patch_at (drop (patch_size st) left) st' \<and> file_pos st' = length cur + patch_size st \<and> data_frame st st'"
  using assms
proof (induction "patch_size st" arbitrary: cur st left rule: less_induct)
  case less
  show ?case
  proof (cases "0 < patch_size st")
    case False
    then show ?thesis using less.prems by (intro exI[of _ st]) (simp add: apply_patch_data.simps[of st])
  next
    case True
    define n where "n = min buffer_size (patch_size st)"
    define f where "f = patch_f st"
    define d where "d = take n left"
    have n: "0 < n" "n \<le> 2 ^ 32" "n \<le> patch_size st" using True by (simp_all add: n_def buffer_size_def)
    have f: "no_fault f" "patchf_pos st = fpos f" "drop (fpos f) (fbytes f) = left"
      using less.prems(3) by (simp_all add: patch_at_def f_def)
    have d: "length d = n" using n(3) less.prems(4) by (simp add: d_def)
    obtain g where g: "File_Read n f = (d, False, g)" "fbytes g = fbytes f" "fpos g = fpos f + length d" "no_fault g"
      using File_Read_ok[OF f(1) n(2)] f(3) by (auto simp: d_def)
    define s where "s = st\<lparr>patch_f := g, patchf_pos := fpos g\<rparr>"
    have s: "passed_on base cur s" "file_pos s = length cur" using less.prems(1,2) by (simp_all add: s_def)
    obtain t where t: "emit_bytes d True s = Some (Inr t)" "passed_on base (cur @ d) t" "sink_frame s t"
      using emit_bytes_passed[OF s, of True d] d by (auto simp: n_def)
    define u where "u = t\<lparr>patch_size := patch_size st - n, file_pos := file_pos st + n\<rparr>"
    have go: "apply_patch_data st = apply_patch_data u"
    proof -
      have "st\<lparr>patch_f := g, patchf_pos := patchf_pos st + length d\<rparr> = s" by (simp add: s_def g(3) f(2))
      moreover have "patch_size t = patch_size st" "file_pos t = file_pos st" using t(3) by (simp_all add: s_def sink_frame_def)
      ultimately show ?thesis
        using True t(1) by (simp add: apply_patch_data.simps[of st] n_def[symmetric] f_def[symmetric] g(1) u_def d)
    qed
    have pf: "patch_f t = g" "patchf_pos t = fpos g" using t(3) by (simp_all add: s_def sink_frame_def)
    have "drop (fpos g) (fbytes g) = drop n left"
      using g(2,3) f(3) d by (metis add.commute drop_drop)
    then have 1: "patch_at (drop n left) u" using g(4) pf by (simp add: patch_at_def u_def)
    have 2: "passed_on base (cur @ d) u" using t(2) by (simp add: u_def)
    have 3: "file_pos u = length (cur @ d)" using less.prems(2) d by (simp add: u_def)
    have sz: "patch_size u = patch_size st - n" by (simp add: u_def)
    have 4: "patch_size u \<le> length (drop n left)" using sz less.prems(4) by simp
    have "patch_size u < patch_size st" using sz n by simp
    from less.hyps[OF this 2 3 1 4]
    obtain v where v: "apply_patch_data u = Some (Inr v)" "passed_on base ((cur @ d) @ take (patch_size u) (drop n left)) v"
      "patch_at (drop (patch_size u) (drop n left)) v" "file_pos v = length (cur @ d) + patch_size u" "data_frame u v"
      by blast
    have "d @ take (patch_size u) (drop n left) = take (patch_size st) left"
      unfolding sz d_def using n(3) by (metis le_add_diff_inverse take_add)
    moreover have "drop (patch_size u) (drop n left) = drop (patch_size st) left" using sz n(3) by simp
    moreover have "data_frame st u" using t(3) by (simp add: u_def s_def data_frame_def sink_frame_def)
    ultimately show ?thesis
      using go v sz n(3) d data_frame_trans[of st u v] by (intro exI[of _ v]) simp
  qed
qed

text \<open>The state between two rounds: before the next item is read, and after that.\<close>

definition going :: "byte list \<Rightarrow> nat \<Rightarrow> byte list \<Rightarrow> 'c patcher \<Rightarrow> bool" where
  "going base fs cur st \<longleftrightarrow> passed_on base cur st \<and> base_at base st \<and> file_pos st = length cur \<and> filesize st = int fs \<and>
     (require_unchanged st \<longrightarrow> \<not> only_changed)"

definition pending :: "(int \<times> byte list) list \<Rightarrow> 'c patcher \<Rightarrow> bool" where
  "pending ps st \<longleftrightarrow> has_header st \<and> patch_off st = - 1 \<and> patch_at (patch_items ps) st \<and> (\<forall>p\<in>set ps. item_fits p)"

definition loaded :: "(int \<times> byte list) list \<Rightarrow> 'c patcher \<Rightarrow> bool" where
  "loaded ps st \<longleftrightarrow> (\<forall>p\<in>set ps. item_fits p) \<and>
     (case ps of [] \<Rightarrow> \<not> has_header st \<and> patch_off st = - 1 \<and> patch_size st = 0
      | (off, d) # qs \<Rightarrow> off \<noteq> - 1 \<and> has_header st \<and> patch_off st = off \<and> patch_size st = length d \<and> patch_at (d @ patch_items qs) st)"

lemma next_header_pending:
  assumes "pending ps st" "going base fs cur st"
  shows "\<exists>st'. next_header st = Some (Inr st') \<and> loaded (live ps) st' \<and> going base fs cur st' \<and> with_sparse st' = with_sparse st \<and>
    require_unchanged st' = require_unchanged st"
proof -
  have al: "unchanged_align st = 0" using assms(2) by (simp add: going_def base_at_def)
  have st: "has_header st" "patch_off st = - 1" using assms(1) by (simp_all add: pending_def)
  obtain g n where r: "readNextValidPatch st =
      Some (case live ps of
        [] \<Rightarrow> (False, False, st\<lparr>patch_f := g, patchf_pos := n, patch_off := - 1, patch_size := 0\<rparr>)
      | (off, d) # qs \<Rightarrow> (True, False, st\<lparr>patch_f := g, patchf_pos := n, patch_off := off, patch_size := length d\<rparr>))"
    "no_fault g" "n = fpos g" "drop (fpos g) (fbytes g) = (case live ps of [] \<Rightarrow> [] | (off, d) # qs \<Rightarrow> d @ patch_items qs)"
    using readNextValidPatch_items[of ps st] assms(1) by (auto simp: pending_def)
  have sub: "set (live ps) \<subseteq> set ps" by (auto simp: live_def dest: set_dropWhileD)
  show ?thesis
  proof (cases "live ps")
    case Nil
    let ?s = "st\<lparr>patch_f := g, patchf_pos := n, patch_off := - 1, patch_size := 0, has_header := False\<rparr>"
    have "next_header st = Some (Inr ?s)" using st al r(1) Nil by (simp add: next_header_def)
    moreover have "going base fs cur ?s" using assms(2) by (simp add: going_def base_at_def)
    ultimately show ?thesis using Nil by (simp add: loaded_def)
  next
    case (Cons p qs)
    obtain off d where p: "p = (off, d)" by (cases p)
    have "off \<noteq> - 1" using Cons p hd_dropWhile[of "\<lambda>p. fst p = - 1" ps] by (auto simp: live_def)
    let ?s = "st\<lparr>patch_f := g, patchf_pos := n, patch_off := off, patch_size := length d, has_header := True\<rparr>"
    have "next_header st = Some (Inr ?s)" using st al r(1) Cons p by (simp add: next_header_def)
    moreover have "going base fs cur ?s" using assms(2) by (simp add: going_def base_at_def)
    moreover have "loaded (live ps) ?s"
      using \<open>off \<noteq> - 1\<close> Cons p r(2-4) assms(1) sub by (auto simp: loaded_def patch_at_def pending_def)
    ultimately show ?thesis by simp
  qed
qed

lemma next_header_loaded: "loaded ps st \<Longrightarrow> next_header st = Some (Inr st)"
  by (auto simp: next_header_def loaded_def split: list.splits)

lemma unchanged_part_told:
  assumes "going base fs cur st" "length cur < length base" "length cur < fs" "0 < tr"
  shows "\<exists>st' k. unchanged_part tr st = Some (Inr st') \<and> 0 < k \<and> k \<le> tr \<and> k \<le> fs - length cur \<and> length cur + k \<le> length base \<and>
    going base fs (cur @ take k (drop (length cur) base)) st' \<and> base_frame st st'"
proof -
  have cs: "curr_sparse st = None" "unchanged_align st = 0" and fp: "file_pos st = length cur" "filesize st = int fs"
    and b: "passed_on base cur st" "base_at base st" "require_unchanged st \<longrightarrow> \<not> only_changed"
    using assms(1) by (simp_all add: going_def base_at_def)
  define n where "n = min tr (fs - length cur)"
  define d where "d = take n (drop (length cur) base)"
  have n: "(if filesize st < int (file_pos st) + int tr then nat (filesize st - int (file_pos st)) else tr) = n"
    using fp assms(3) by (simp add: n_def) linarith
  have "int (length cur + n) \<le> filesize st" using fp assms(3) by (simp add: n_def)
  from unchanged_loop_told[OF b(1,2) fp(1) b(3) this d_def]
  obtain s k where s: "unchanged_loop n st = Some (Inr s)" "k \<le> length d" "d \<noteq> [] \<longrightarrow> 0 < k"
    "passed_on base (cur @ take k d) s" "base_at base s" "file_pos s = length cur + k" "base_frame st s" by blast
  have dn: "d \<noteq> []" using assms(2-4) by (simp add: d_def n_def)
  have "skip_sparse_extents st = Some st" using cs(1) by (simp add: skip_sparse_extents.simps)
  then have "unchanged_part tr st = unchanged_loop n st"
    using n by (simp add: unchanged_part_def cs(1))
  moreover have kn: "k \<le> n" using s(2) by (simp add: d_def)
  moreover have "take k d = take k (drop (length cur) base)" using kn by (simp add: d_def min_absorb1)
  moreover have "k \<le> n \<and> length cur + k \<le> length base" using s(2) assms(2) by (auto simp: d_def)
  moreover have "length (take k d) = k" using s(2) by simp
  ultimately have "unchanged_part tr st = Some (Inr s) \<and> 0 < k \<and> k \<le> tr \<and> k \<le> fs - length cur \<and> length cur + k \<le> length base \<and>
    going base fs (cur @ take k (drop (length cur) base)) s \<and> base_frame st s"
    using s dn b(3) fp(2) by (simp add: going_def n_def base_frame_def sink_frame_def)
  then show ?thesis by blast
qed

end

context patch_sink
begin

lemma going_frame: "going base fs cur st \<Longrightarrow> base_frame s st \<Longrightarrow> loaded ps s \<Longrightarrow> loaded ps st"
  by (auto simp: base_frame_def sink_frame_def loaded_def patch_at_def split: list.splits)

text \<open>The whole of what follows for the items \<open>ps\<close>.\<close>

abbreviation all_of :: "byte list \<Rightarrow> nat \<Rightarrow> byte list \<Rightarrow> (int \<times> byte list) list \<Rightarrow> byte list" where
  "all_of base fs cur ps \<equiv> cur @ patched_from base fs (length cur) ps"

lemma patch_step_keeps:
  assumes g: "going base fs cur st" and l: "loaded ps st" and f: "patch_fits base fs (length cur) ps"
    and more: "length cur < length base" "length cur < fs" and off: "ps \<noteq> [] \<longrightarrow> length cur < nat (fst (hd ps))"
  shows "\<exists>st' k. patch_step st = Some (Inr (False, st')) \<and> 0 < k \<and> length cur + k \<le> length base \<and>
    going base fs (cur @ take k (drop (length cur) base)) st' \<and> loaded ps st' \<and> with_sparse st' = with_sparse st \<and>
    require_unchanged st' = require_unchanged st \<and>
    length cur + k \<le> fs \<and> (ps \<noteq> [] \<longrightarrow> length cur + k \<le> nat (fst (hd ps)))"
proof -
  have al: "unchanged_align st = 0" "base_size st = int (length base)" and fp: "file_pos st = length cur" "filesize st = int fs"
    using g by (simp_all add: going_def base_at_def)
  have um: "0 < UINT_MAX" by (simp add: UINT_MAX_def)
  define tr where "tr = bytes_before st"
  have h: "patch_off st \<noteq> - 1 \<longrightarrow> int (length cur) < patch_off st"
    using l off fp f by (cases ps) (auto simp: loaded_def split: prod.splits)
  have tr: "0 < tr" "patch_off st \<noteq> - 1 \<longrightarrow> int (length cur + tr) \<le> patch_off st"
    using h um al fp by (auto simp: tr_def bytes_before_def Let_def)
  obtain s k where s: "unchanged_part tr st = Some (Inr s)" "0 < k" "k \<le> tr" "k \<le> fs - length cur" "length cur + k \<le> length base"
    "going base fs (cur @ take k (drop (length cur) base)) s" "base_frame st s"
    using unchanged_part_told[OF g more tr(1)] by blast
  have "patch_round tr st = Some (Inr (False, s))"
    using tr(1) more fp al s(1) by (simp add: patch_round_def)
  then have step: "patch_step st = Some (Inr (False, s))"
    using next_header_loaded[OF l] more fp al h by (auto simp: patch_step_def Let_def tr_def)
  have "k \<le> tr \<Longrightarrow> ps \<noteq> [] \<Longrightarrow> length cur + k \<le> nat (fst (hd ps))"
    using l tr(2) by (cases ps) (auto simp: loaded_def split: prod.splits)
  then show ?thesis
    using step s going_frame[OF s(6,7) l] by (intro exI[of _ s] exI[of _ k]) (auto simp: base_frame_def sink_frame_def)
qed

end

context patch_sink
begin

lemma patch_step_data:
  assumes g: "going base fs cur st" and l: "loaded ((off, d) # ps) st" and off: "nat off = length cur" and d: "d \<noteq> []"
    and fs: "length cur \<le> fs" "0 \<le> off"
  shows "\<exists>st'. patch_step st = Some (Inr (fs < length cur + length d, st')) \<and> with_sparse st' = with_sparse st \<and>
    require_unchanged st' = require_unchanged st \<and>
    going base fs (cur @ take (fs - length cur) d) st' \<and> (length cur + length d \<le> fs \<longrightarrow> pending ps st')"
proof -
  have al: "base_at base st" "unchanged_align st = 0" and fp: "file_pos st = length cur" "filesize st = int fs"
    and po: "passed_on base cur st" and oc: "require_unchanged st \<longrightarrow> \<not> only_changed"
    using g by (simp_all add: going_def base_at_def)
  have hd: "has_header st" "patch_off st = off" "patch_size st = length d" "patch_at (d @ patch_items ps) st" "length d < 2 ^ 32"
    and it: "\<forall>p\<in>set ps. item_fits p"
    using l by (simp_all add: loaded_def item_fits_def)
  define fin where "fin = (fs < length cur + length d)"
  have oi: "off = int (length cur)" using off fs(2) by simp
  have tr: "bytes_before st = 0"
    using hd(2) fp oi al(2) by (simp add: bytes_before_def UINT_MAX_def)
  define s where "s = (if fin then st\<lparr>patch_size := nat ((filesize st - int (file_pos st)) mod 2 ^ 32)\<rparr> else st)"
  define n where "n = patch_size s"
  have n: "n = length (take (fs - length cur) d)"
  proof (cases fin)
    case True
    have "(int fs - int (length cur)) mod 2 ^ 32 = int (fs - length cur)"
      using True fs(1) hd(5) by (simp add: fin_def of_nat_diff zmod_trivial_iff)
    then have "n = fs - length cur" using True fp by (simp add: n_def s_def)
    then show ?thesis using True by (simp add: fin_def)
  qed (use hd(3) in \<open>simp add: n_def s_def fin_def\<close>)
  have td: "take n (d @ patch_items ps) = take (fs - length cur) d"
    unfolding n by (cases "fs - length cur \<le> length d") simp_all
  define s1 where "s1 = s\<lparr>unchanged_align_end := unchanged_align_end_next s\<rparr>"
  have s1: "passed_on base cur s1" "file_pos s1 = length cur" "patch_at (d @ patch_items ps) s1" "patch_size s1 \<le> length (d @ patch_items ps)"
    "patch_size s1 = n"
    using po fp hd(4) n by (auto simp: s1_def s_def n_def patch_at_def)
  obtain t where t: "apply_patch_data s1 = Some (Inr t)" "passed_on base (cur @ take (fs - length cur) d) t"
    "patch_at (drop n (d @ patch_items ps)) t" "file_pos t = length cur + n" "data_frame s1 t"
    using apply_patch_data_told[OF s1(1-4)] unfolding s1(5) td by blast
  have tf: "unchanged_align t = 0" "base_f t = base_f st" "base_size t = base_size st" "require_unchanged t = require_unchanged st"
    "with_sparse t = with_sparse st" "curr_sparse t = curr_sparse st" "filesize t = filesize st" "has_header t"
    using t(5) al hd(1) by (simp_all add: data_frame_def sink_frame_def s1_def s_def)
  define u where "u = (if require_unchanged t then t\<lparr>base_f := snd (File_Seek (int (file_pos t)) (base_f t))\<rparr> else t)\<lparr>patch_off := - 1\<rparr>"
  have rnd: "patch_round 0 st = patch_data_round fin s"
  proof -
    have "\<not> (\<not> fin \<and> filesize st \<le> int (file_pos st))"
      using d fp by (cases d) (auto simp: fin_def)
    then show ?thesis
      using fp hd(3) by (simp add: patch_round_def fin_def[symmetric] s_def[symmetric] Let_def) (auto simp: s_def fin_def)
  qed
  have dat: "patch_data_round fin s = Some (Inr (fin, u))"
    using fp hd(2) oi t(1) by (simp add: patch_data_round_def s1_def[symmetric] u_def Let_def) (auto simp: s_def)
  have step: "patch_step st = Some (Inr (fin, u))"
    using next_header_loaded[OF l] hd(1,2) fp oi rnd dat by (simp add: patch_step_def Let_def tr)
  have po2: "passed_on base (cur @ take (fs - length cur) d) u" using t(2) by (simp add: u_def)
  have bs: "base_at base u"
  proof -
    have nf: "no_fault (base_f st)" using al(1) by (simp add: base_at_def)
    have "File_Seek (int (file_pos t)) (base_f t) = (True, next_op ((base_f t)\<lparr>fpos := file_pos t\<rparr>))"
      using File_Seek_ok[of "base_f t" "int (file_pos t)"] nf tf(2) by simp
    moreover have "no_fault (next_op ((base_f t)\<lparr>fpos := file_pos t\<rparr>))" using nf tf(2) no_fault_eq[of "next_op ((base_f t)\<lparr>fpos := file_pos t\<rparr>)" "base_f st"] by simp
    ultimately show ?thesis using al(1) tf by (auto simp: base_at_def u_def)
  qed
  have "length (cur @ take (fs - length cur) d) = length cur + n" using n by simp
  then have go: "going base fs (cur @ take (fs - length cur) d) u"
    using po2 bs t(4) tf(4,7) fp(2) oc by (auto simp: going_def u_def)
  have "pending ps u" if "length cur + length d \<le> fs"
  proof -
    have "n = length d" using that n by simp
    then show ?thesis using t(3) tf(8) it by (simp add: pending_def u_def patch_at_def)
  qed
  then show ?thesis using step go tf(4,5) by (intro exI[of _ u]) (simp add: fin_def u_def)
qed

end

lemma patched_from_keep:
  assumes "k \<le> fs - length cur" "length cur + k \<le> length base"
  defines "cur' \<equiv> cur @ take k (drop (length cur) base)"
  shows "cur' @ patched_from base fs (length cur') [] = cur @ patched_from base fs (length cur) []"
    "0 \<le> off \<Longrightarrow> length cur + k \<le> nat off \<Longrightarrow>
     cur' @ patched_from base fs (length cur') ((off, d) # ps) = cur @ patched_from base fs (length cur) ((off, d) # ps)"
proof -
  have l: "length cur' = length cur + k" using assms(2) by (simp add: cur'_def)
  have e: "fs - length cur = k + (fs - (length cur + k))" using assms(1) by simp
  have "take (fs - length cur) (drop (length cur) base) = take k (drop (length cur) base) @ take (fs - (length cur + k)) (drop (length cur + k) base)"
    by (subst e) (simp add: take_add add.commute)
  then show "cur' @ patched_from base fs (length cur') [] = cur @ patched_from base fs (length cur) []"
    unfolding patched_from.simps l by (simp add: cur'_def)
  assume o: "0 \<le> off" "length cur + k \<le> nat off"
  have "drop (length cur) (take (nat off) base) = take k (drop (length cur) base) @ drop (length cur + k) (take (nat off) base)"
  proof -
    have "take k (drop (length cur) (take (nat off) base)) = take k (drop (length cur) base)"
      using o(2) by (simp add: drop_take min_absorb1)
    then show ?thesis using append_take_drop_id[of k "drop (length cur) (take (nat off) base)"] by (simp add: add.commute)
  qed
  then show "cur' @ patched_from base fs (length cur') ((off, d) # ps) = cur @ patched_from base fs (length cur) ((off, d) # ps)"
    using o(1) unfolding patched_from.simps l by (simp add: cur'_def)
qed

context patch_sink
begin

lemma patch_loop_pending:
  assumes "going base fs cur st" "pending ps st"
  shows "\<exists>st1. patch_loop st = patch_loop st1 \<and> loaded (live ps) st1 \<and> going base fs cur st1 \<and> with_sparse st1 = with_sparse st \<and>
    require_unchanged st1 = require_unchanged st"
proof -
  obtain s where s: "next_header st = Some (Inr s)" "loaded (live ps) s" "going base fs cur s" "with_sparse s = with_sparse st" "require_unchanged s = require_unchanged st"
    using next_header_pending[OF assms(2,1)] by blast
  have eq: "patch_step st = patch_step s" by (simp add: patch_step_def s(1) next_header_loaded[OF s(2)])
  have "patch_loop st = patch_loop s"
  proof (cases "(int (file_pos s) < base_size s \<and> int (file_pos s) < filesize s) \<or> has_header s")
    case True
    then show ?thesis using assms(2) eq by (simp add: patch_loop.simps[of st] patch_loop.simps[of s] pending_def)
  next
    case False
    have "patch_step s = Some (Inr (True, s))" using False next_header_loaded[OF s(2)] by (auto simp: patch_step_def Let_def)
    then show ?thesis using assms(2) eq False by (simp add: patch_loop.simps[of st] patch_loop.simps[of s] pending_def)
  qed
  then show ?thesis using s by blast
qed

definition ends_with :: "byte list \<Rightarrow> nat \<Rightarrow> byte list \<Rightarrow> 'c patcher \<Rightarrow> 'c patcher \<Rightarrow> bool" where
  "ends_with base fs tgt st st' \<longleftrightarrow> passed_on base tgt st' \<and> file_pos st' = length tgt \<and> with_sparse st' = with_sparse st \<and>
     require_unchanged st' = require_unchanged st \<and> filesize st' = int fs"

lemma patch_loop_told:
  assumes "going base fs cur st" "loaded ps st" "patch_fits base fs (length cur) ps"
  shows "\<exists>st'. patch_loop st = Some (Inr st') \<and> ends_with base fs (all_of base fs cur ps) st st'"
  using assms
proof (induction "(length ps, length base - length cur)" arbitrary: ps cur st rule: less_induct)
  case less
  note g = less.prems(1) and l = less.prems(2) and f = less.prems(3)
  have al: "base_size st = int (length base)" and fp: "file_pos st = length cur" "filesize st = int fs" and po: "passed_on base cur st"
    using g by (simp_all add: going_def base_at_def)
  have keep: ?case if more: "length cur < length base" "length cur < fs" and off: "ps \<noteq> [] \<longrightarrow> length cur < nat (fst (hd ps))"
  proof -
    obtain s k where s: "patch_step st = Some (Inr (False, s))" "0 < k" "length cur + k \<le> length base"
      "going base fs (cur @ take k (drop (length cur) base)) s" "loaded ps s" "with_sparse s = with_sparse st"
      "require_unchanged s = require_unchanged st" "length cur + k \<le> fs"
      "ps \<noteq> [] \<longrightarrow> length cur + k \<le> nat (fst (hd ps))"
      using patch_step_keeps[OF g l f more off] by blast
    define cur' where "cur' = cur @ take k (drop (length cur) base)"
    have lc: "length cur' = length cur + k" using s(3) by (simp add: cur'_def)
    have kf: "k \<le> fs - length cur" using s(8) by simp
    have fit: "patch_fits base fs (length cur') ps" using f s(9) lc by (cases ps) (auto split: if_splits)
    have "(length ps, length base - length cur') < (length ps, length base - length cur)" using more s(2) lc by simp
    from less.hyps[OF this s(4)[folded cur'_def] s(5) fit]
    obtain t where t: "patch_loop s = Some (Inr t)" "ends_with base fs (all_of base fs cur' ps) s t" by blast
    have eq: "all_of base fs cur' ps = all_of base fs cur ps"
    proof (cases ps)
      case Nil then show ?thesis using patched_from_keep(1)[OF kf s(3)] by (simp only: cur'_def)
    next
      case (Cons p qs)
      obtain off d where p: "p = (off, d)" by (cases p)
      have "0 \<le> off" "length cur + k \<le> nat off" using s(9) Cons p less.prems(2) off by (simp_all add: loaded_def)
      then show ?thesis unfolding Cons p cur'_def by (rule patched_from_keep(2)[OF kf s(3)])
    qed
    have "patch_loop st = patch_loop s" using more al fp s(1) by (simp add: patch_loop.simps[of st])
    then show ?thesis using t eq s(6,7) by (auto simp: ends_with_def)
  qed
  show ?case
  proof (cases ps)
    case Nil
    show ?thesis
    proof (cases "length cur < length base \<and> length cur < fs")
      case False
      then have "patch_loop st = Some (Inr st)" using Nil l fp al by (subst patch_loop.simps) (auto simp: loaded_def)
      moreover have "patched_from base fs (length cur) ps = []" using False Nil by auto
      ultimately show ?thesis using po fp by (simp add: ends_with_def)
    qed (use keep Nil in simp)
  next
    case (Cons p qs)
    obtain off d where p: "p = (off, d)" by (cases p)
    have o: "off \<noteq> - 1" "0 \<le> off" "d \<noteq> []" "length cur \<le> nat off" "nat off \<le> fs" "nat off \<le> length base \<or> nat off = length cur"
      "nat off + length d \<le> fs \<longrightarrow> patch_fits base fs (nat off + length d) qs"
      using f l Cons p by (auto simp: loaded_def item_fits_def)
    show ?thesis
    proof (cases "nat off = length cur")
      case False
      have "length cur < length base" "length cur < fs" using False o(4-6) by auto
      moreover have "length cur < nat (fst (hd ps))" using False o(4) by (simp add: Cons p)
      ultimately show ?thesis using keep by blast
    next
      case True
      obtain s where s: "patch_step st = Some (Inr (fs < length cur + length d, s))" "with_sparse s = with_sparse st" "require_unchanged s = require_unchanged st"
        "going base fs (cur @ take (fs - length cur) d) s" "length cur + length d \<le> fs \<longrightarrow> pending qs s"
        using patch_step_data[OF g l[unfolded Cons p] True o(3) _ o(2)] True o(5) by auto
      have hh: "has_header st" using l by (simp add: loaded_def Cons p)
      have go: "patch_loop st = (if fs < length cur + length d then Some (Inr s) else patch_loop s)"
        using hh s(1) by (simp add: patch_loop.simps[of st])
      define cur' where "cur' = cur @ take (fs - length cur) d"
      have eq: "all_of base fs cur ps = cur' @ (if fs < length cur + length d then [] else patched_from base fs (length cur + length d) qs)"
        using o(1) True by (simp add: Cons p cur'_def)
      show ?thesis
      proof (cases "fs < length cur + length d")
        case True
        then show ?thesis using go s(2-4) eq by (auto simp: ends_with_def going_def cur'_def[symmetric])
      next
        case False
        have lc: "length cur' = length cur + length d" using False by (simp add: cur'_def)
        obtain t where t: "patch_loop s = patch_loop t" "loaded (live qs) t" "going base fs cur' t" "with_sparse t = with_sparse s"
          "require_unchanged t = require_unchanged s"
          using patch_loop_pending[of base fs cur' s qs] s(4,5) False by (auto simp: cur'_def)
        have fit: "patch_fits base fs (length cur') (live qs)"
          using o(7) True False lc patch_fits_live[of base fs "length cur'" qs] by simp
        have "(length (live qs), length base - length cur') < (length ps, length base - length cur)"
          using live_length[of qs] by (simp add: Cons)
        from less.hyps[OF this t(3,2) fit]
        obtain u where "patch_loop t = Some (Inr u)" "ends_with base fs (all_of base fs cur' (live qs)) t u" by blast
        moreover have "all_of base fs cur ps = all_of base fs cur' (live qs)" using eq False lc patched_from_live[of base fs "length cur'" qs] by simp
        ultimately show ?thesis using go False t(1,4,5) s(2,3) by (auto simp: ends_with_def)
      qed
    qed
  qed
qed

end

text \<open>The old file, the patch and the settings.\<close>

definition patch_setup :: "byte list \<Rightarrow> nat \<Rightarrow> (int \<times> byte list) list \<Rightarrow> File \<Rightarrow> File \<Rightarrow> bool" where
  "patch_setup base fs ps basef patchf \<longleftrightarrow> fbytes basef = base \<and> no_fault basef \<and> fbytes patchf = patch_bytes fs ps \<and>
     no_fault patchf \<and> fs < 2 ^ 63 \<and> patch_fits base fs 0 ps \<and> (\<forall>p\<in>set ps. item_fits p)"

lemma sint_of_nat64:
  assumes "k < 2 ^ 63"
  shows "sint (of_nat k :: u64) = int k"
proof -
  have "int k < 2 ^ 63" using assms by simp
  then have "signed_take_bit 63 (int k) = int k" by (intro signed_take_bit_int_eq_self) simp_all
  then show ?thesis using sint_sbintrunc'[of "int k", where 'a = 64] by simp
qed

definition patched :: "byte list \<Rightarrow> nat \<Rightarrow> (int \<times> byte list) list \<Rightarrow> byte list" where
  "patched base fs ps = patched_from base fs 0 ps"

context patch_sink
begin

lemma no_fault_seek:
  assumes "no_fault f" "snd (File_Seek 0 f) = g"
  shows "fbytes g = fbytes f" "fpos g = 0" "no_fault g"
  using assms File_Seek_ok[OF assms(1), of 0] no_fault_eq[of g f] by auto

lemma ApplyPatch_told:
  assumes s: "patch_setup base fs ps basef patchf"
    and st: "cb st = sink" "host_be st = be" "told [] (cbs st)" "unchanged_align st = 0"
    and rq: "require_unchanged st \<longrightarrow> \<not> only_changed" "require_unchanged st \<or> \<not> with_sparse st"
    and acc: "if with_sparse st then blocks_accepted else plain_accepted base (require_unchanged st)"
  shows "\<exists>st'. ApplyPatch basef patchf None st = Some (Inr st') \<and> filesize st' = int fs \<and>
    (if with_sparse st then hears (block_trace (patched base fs ps)) st'
     else \<exists>tr. hears tr st' \<and> trace_bytes base tr = patched base fs ps \<and> all_plain (require_unchanged st) tr)"
proof -
  define f where "f = snd (File_Seek 0 basef)"
  define pf where "pf = snd (File_Seek 0 patchf)"
  have f: "fbytes f = base" "fpos f = 0" "no_fault f"
    using no_fault_seek[of basef f] s by (simp_all add: f_def patch_setup_def)
  have pf: "fbytes pf = patch_bytes fs ps" "fpos pf = 0" "no_fault pf"
    using no_fault_seek[of patchf pf] s by (simp_all add: pf_def patch_setup_def)
  define h where "h = le_bytes 8 (of_nat fs :: u64)"
  obtain g where g: "File_Read 8 pf = (h, False, g)" "fbytes g = patch_bytes fs ps" "fpos g = 8" "no_fault g"
    using File_Read_ok[OF pf(3), of 8] pf(1,2) by (auto simp: patch_bytes_def h_def)
  have fsz: "sint (little_endian64 be (of_mem be h)) = int fs"
    using s sint_of_nat64[of fs] by (simp add: h_def patch_setup_def le_word_le_bytes)
  have sz: "File_Size f = (int (length base), next_op f)" using File_Size_ok[OF f(3)] f(1) by simp
  define s1 where "s1 = st\<lparr>unchanged_align_start := - 1, unchanged_align_end := - 1, unchanged_align_end_next := - 1, last_unchanged := False,
      filesize := int fs, patchf_pos := 8, patch_f := g\<rparr>"
  define s2 where "s2 = (if with_sparse st then s1\<lparr>last_sparse_start := - 1, curr_only_zeros := True, curr_changed := False,
      sparse_buf := take sparse_blocksize (sparse_buf st @ replicate sparse_blocksize 0)\<rparr> else s1)"
  define s3 where "s3 = s2\<lparr>extent_iterator := None, curr_sparse := None, base_f := next_op f, base_size := int (length base), file_pos := 0,
      patch_off := - 1, patch_size := 0, has_header := True\<rparr>"
  have go: "ApplyPatch basef patchf None st =
    and_then (patch_loop s3) (\<lambda>st. if with_sparse st then finishChunkPatcher (file_pos st) st else Some (Inr st))"
    unfolding ApplyPatch_def f_def[symmetric] pf_def[symmetric] Let_def g(1) prod.case
    using st(2) fsz sz by (simp add: s1_def s2_def s3_def h_def start_sparse_def)
  have ws: "with_sparse s3 = with_sparse st" "require_unchanged s3 = require_unchanged st" by (simp_all add: s3_def s2_def s1_def)
  have h3: "hears [] s3" using st(1-3) by (simp add: hears_def s3_def s2_def s1_def)
  have "passed_on base [] s3"
  proof (cases "with_sparse st")
    case True
    have "blocks_told [] s3"
      using h3 True by (auto simp: blocks_told_def done_part_def open_part_def block_scan_Nil s3_def s2_def start_int_def buf_is_zero_def)
    then show ?thesis using True ws acc by (simp add: passed_on_def) (simp add: s3_def s2_def s1_def)
  next
    case False
    then show ?thesis using ws acc h3 by (auto simp: passed_on_def trace_bytes_def all_plain_def intro!: exI[of _ "[]"])
  qed
  moreover have "no_fault (next_op f)" using f(3) no_fault_eq[of "next_op f" f] by simp
  ultimately have gg: "going base fs [] s3"
    using st(4) rq f(1,2) ws by (simp add: going_def base_at_def) (simp add: s3_def s2_def s1_def)
  have "pending ps s3"
    using g s by (simp add: pending_def s3_def s2_def s1_def patch_at_def patch_bytes_def patch_setup_def)
  with gg obtain s4 where s4: "patch_loop s3 = patch_loop s4" "loaded (live ps) s4" "going base fs [] s4" "with_sparse s4 = with_sparse s3"
    "require_unchanged s4 = require_unchanged s3"
    using patch_loop_pending by blast
  have "patch_fits base fs (length []) (live ps)" using s patch_fits_live by (simp add: patch_setup_def)
  from patch_loop_told[OF s4(3,2) this]
  obtain s5 where s5: "patch_loop s4 = Some (Inr s5)" "passed_on base (patched base fs ps) s5" "file_pos s5 = length (patched base fs ps)"
    "with_sparse s5 = with_sparse st" "require_unchanged s5 = require_unchanged st" "filesize s5 = int fs"
    using s4(4,5) ws by (auto simp: ends_with_def patched_def patched_from_live)
  show ?thesis
  proof (cases "with_sparse st")
    case True
    then have "with_sparse s5" using s5(4) by simp
    from finishChunkPatcher_told[OF s5(2) this]
    obtain s6 where "finishChunkPatcher (file_pos s5) s5 = Some (Inr s6)" "hears (block_trace (patched base fs ps)) s6" "filesize s6 = int fs"
      using s5(3,6) by auto
    then show ?thesis using go s4(1) s5(1,4) True by simp
  next
    case False
    then have "ApplyPatch basef patchf None st = Some (Inr s5)" using go s4(1) s5(1,4) by simp
    moreover obtain tr where "hears tr s5" "trace_bytes base tr = patched base fs ps" "all_plain (require_unchanged st) tr"
      using s5(2,4,5) False by (auto simp: passed_on_def)
    ultimately show ?thesis using False s5(6) by auto
  qed
qed

end

section \<open>A patch that is cut off\<close>

context patch_sink
begin

text \<open>At the end of the patch file the loop over the data of a piece reads nothing, again and again.\<close>

definition data_missing :: "'c patcher \<Rightarrow> bool" where
  "data_missing st \<longleftrightarrow> (\<exists>base cur. passed_on base cur st \<and> file_pos st = length cur) \<and> patch_at [] st \<and> 0 < patch_size st"

lemma data_missing_round:
  assumes "data_missing st"
  shows "\<exists>u. data_missing u \<and> (\<forall>f. (if 0 < patch_size st then
        let (d, has_read_error, pf) = File_Read (min buffer_size (patch_size st)) (patch_f st); st = st\<lparr>patch_f := pf\<rparr>
        in if has_read_error then Some (Inl Read_Error)
           else and_then (emit_bytes d True (st\<lparr>patchf_pos := patchf_pos st + length d\<rparr>))
             (\<lambda>st. f (st\<lparr>patch_size := patch_size st - length d, file_pos := file_pos st + length d\<rparr>))
      else Some (Inr st)) = f u)"
proof -
  obtain base cur where p: "passed_on base cur st" "file_pos st = length cur" "patch_at [] st" "0 < patch_size st"
    using assms by (auto simp: data_missing_def)
  have f: "no_fault (patch_f st)" "patchf_pos st = fpos (patch_f st)" "drop (fpos (patch_f st)) (fbytes (patch_f st)) = []"
    using p(3) by (simp_all add: patch_at_def)
  have n: "min buffer_size (patch_size st) \<le> 2 ^ 32" by (simp add: buffer_size_def)
  obtain g where g: "File_Read (min buffer_size (patch_size st)) (patch_f st) = ([], False, g)" "fbytes g = fbytes (patch_f st)"
    "fpos g = fpos (patch_f st)" "no_fault g"
    using File_Read_ok[OF f(1) n] f(3) by auto
  let ?s = "st\<lparr>patch_f := g, patchf_pos := patchf_pos st\<rparr>"
  have s: "passed_on base cur ?s" "file_pos ?s = length cur" using p by simp_all
  obtain t where t: "emit_bytes [] True ?s = Some (Inr t)" "passed_on base (cur @ []) t" "sink_frame ?s t"
    using emit_bytes_passed[OF s, of True "[]"] by auto
  let ?u = "t\<lparr>patch_size := patch_size t, file_pos := file_pos t\<rparr>"
  have "data_missing ?u"
    using t(2,3) g f p unfolding data_missing_def patch_at_def sink_frame_def by auto
  moreover have "(if 0 < patch_size st then
        let (d, has_read_error, pf) = File_Read (min buffer_size (patch_size st)) (patch_f st); st = st\<lparr>patch_f := pf\<rparr>
        in if has_read_error then Some (Inl Read_Error)
           else and_then (emit_bytes d True (st\<lparr>patchf_pos := patchf_pos st + length d\<rparr>))
             (\<lambda>st. f (st\<lparr>patch_size := patch_size st - length d, file_pos := file_pos st + length d\<rparr>))
      else Some (Inr st)) = f ?u" for f
    using p(4) g(1) t(1) by simp
  ultimately show ?thesis by blast
qed

lemma data_missing_hangs: "data_missing st \<Longrightarrow> apply_patch_data st = None"
proof -
  have "\<not> data_missing st" if "apply_patch_data st = Some y" for st y
  proof (rule apply_patch_data.raw_induct[where P = "\<lambda>st y. \<not> data_missing st", OF _ that], goal_cases)
    case (1 f st y)
    show ?case
    proof
      assume "data_missing st"
      from data_missing_round[OF this] obtain u where "data_missing u" and eq: "\<forall>f. (if 0 < patch_size st then
        let (d, has_read_error, pf) = File_Read (min buffer_size (patch_size st)) (patch_f st); st = st\<lparr>patch_f := pf\<rparr>
        in if has_read_error then Some (Inl Read_Error)
           else and_then (emit_bytes d True (st\<lparr>patchf_pos := patchf_pos st + length d\<rparr>))
             (\<lambda>st. f (st\<lparr>patch_size := patch_size st - length d, file_pos := file_pos st + length d\<rparr>))
      else Some (Inr st)) = f u" by (elim exE conjE)
      then have "data_missing u" "f u = Some y" using 1(2) unfolding eq[rule_format, of f] by simp_all
      then show False using 1(1) by blast
    qed
  qed
  then show "data_missing st \<Longrightarrow> apply_patch_data st = None" by (metis not_Some_eq)
qed

text \<open>What is there of the data is passed on first.\<close>

lemma apply_patch_data_cut:
  assumes "passed_on base cur st" "file_pos st = length cur" "patch_at left st" "length left < patch_size st"
  shows "apply_patch_data st = None"
  using assms
proof (induction "length left" arbitrary: cur st left rule: less_induct)
  case less
  show ?case
  proof (cases "left = []")
    case True
    have "data_missing st" unfolding data_missing_def using less.prems True by auto
    then show ?thesis by (rule data_missing_hangs)
  next
    case ne: False
    define n where "n = min buffer_size (patch_size st)"
    define d where "d = take n left"
    have f: "no_fault (patch_f st)" "patchf_pos st = fpos (patch_f st)" "drop (fpos (patch_f st)) (fbytes (patch_f st)) = left"
      using less.prems(3) by (simp_all add: patch_at_def)
    have n: "n \<le> 2 ^ 32" "n \<le> buffer_size" "0 < n" using less.prems(4) by (simp_all add: n_def buffer_size_def)
    have d: "d \<noteq> []" "length d \<le> buffer_size" "length d \<le> length left" using ne n by (simp_all add: d_def)
    obtain g where g: "File_Read n (patch_f st) = (d, False, g)" "fbytes g = fbytes (patch_f st)" "fpos g = fpos (patch_f st) + length d" "no_fault g"
      using File_Read_ok[OF f(1) n(1)] f(3) by (auto simp: d_def)
    let ?s = "st\<lparr>patch_f := g, patchf_pos := patchf_pos st + length d\<rparr>"
    have s: "passed_on base cur ?s" "file_pos ?s = length cur" using less.prems by simp_all
    obtain t where t: "emit_bytes d True ?s = Some (Inr t)" "passed_on base (cur @ d) t" "sink_frame ?s t"
      using emit_bytes_passed[OF s, of True d] d by auto
    let ?u = "t\<lparr>patch_size := patch_size t - length d, file_pos := file_pos t + length d\<rparr>"
    have go: "apply_patch_data st = apply_patch_data ?u"
      using less.prems(4) g(1) t(1) by (simp add: apply_patch_data.simps[of st] n_def[symmetric])
    have "drop (length d) left = drop n left"
      by (cases "n \<le> length left") (simp_all add: d_def)
    then have left: "drop (fpos g) (fbytes g) = drop (length d) left"
      using g(2,3) f(3) by (metis add.commute drop_drop)
    have 1: "passed_on base (cur @ d) ?u" "file_pos ?u = length (cur @ d)" "patch_at (drop (length d) left) ?u"
      "length (drop (length d) left) < patch_size ?u"
      using t(2,3) s g(3,4) f(2) left less.prems(4) d(3) by (auto simp: patch_at_def sink_frame_def)
    have "length (drop (length d) left) < length left" using d(1,3) by (cases d) simp_all
    from less.hyps[OF this 1] show ?thesis using go by simp
  qed
qed

lemma ApplyPatch_cut:
  assumes f: "fbytes basef = base" "no_fault basef" "no_fault patchf" "fbytes patchf = take (20 + k) (patch_bytes fs [(0, d)])"
    and d: "k < length d" "length d \<le> fs" "length d < 2 ^ 32" "fs < 2 ^ 63"
    and st: "cb st = sink" "host_be st = be" "told [] (cbs st)" "unchanged_align st = 0" "\<not> with_sparse st"
    and acc: "plain_accepted base (require_unchanged st)"
  shows "ApplyPatch basef patchf None st = None"
proof -
  define pf where "pf = snd (File_Seek 0 patchf)"
  define h where "h = le_bytes 8 (of_nat fs :: u64)"
  define h2 where "h2 = take 12 (patch_item (0, d) @ [])"
  have fit: "item_fits (0, d)" using d(3) by (simp add: item_fits_def)
  note hd = item_header(1)[OF fit h2_def] item_header(2,3)[OF fit h2_def, of be]
  have bytes: "fbytes patchf = h @ h2 @ take k d"
    unfolding f(4) by (simp add: patch_bytes_def patch_items_def patch_item_def h_def h2_def)
  have pf: "fbytes pf = h @ h2 @ take k d" "fpos pf = 0" "no_fault pf"
    using no_fault_seek[of patchf pf] f(3) bytes by (simp_all add: pf_def)
  obtain g where g: "File_Read 8 pf = (h, False, g)" "fbytes g = h @ h2 @ take k d" "fpos g = 8" "no_fault g"
    using File_Read_ok[OF pf(3), of 8] pf(1,2) by (auto simp: h_def)
  obtain g2 where g2: "File_Read 12 g = (h2, False, g2)" "fbytes g2 = h @ h2 @ take k d" "fpos g2 = 20" "no_fault g2"
    using File_Read_ok[OF g(4), of 12] g(2,3) hd(1) by (auto simp: h_def)
  have fsz: "sint (little_endian64 be (of_mem be h)) = int fs"
    using d(4) sint_of_nat64[of fs] by (simp add: h_def le_word_le_bytes)
  obtain n bf where sz: "File_Size (snd (File_Seek 0 basef)) = (n, bf)" by fastforce
  define s where "s = st\<lparr>unchanged_align_start := - 1, unchanged_align_end := - 1, unchanged_align_end_next := - 1, last_unchanged := False,
      filesize := int fs, patchf_pos := 8, patch_f := g, extent_iterator := None, curr_sparse := None, base_f := bf, base_size := n,
      file_pos := 0, patch_off := - 1, patch_size := 0, has_header := True\<rparr>"
  have go: "ApplyPatch basef patchf None st = and_then (patch_loop s) (\<lambda>st. if with_sparse st then finishChunkPatcher (file_pos st) st else Some (Inr st))"
    unfolding ApplyPatch_def pf_def[symmetric] Let_def g(1) prod.case
    using st(2,5) fsz sz by (simp add: s_def h_def start_sparse_def)
  define s2 where "s2 = s\<lparr>patch_f := g2, patchf_pos := 20, patch_off := 0, patch_size := length d\<rparr>"
  have s: "patch_f s = g" "patchf_pos s = 8" "host_be s = be" "has_header s" "patch_off s = - 1" "unchanged_align s = 0"
    using st(2,4) by (simp_all add: s_def)
  have "readNextValidPatch s = Some (True, False, s2)"
    using hd g2(1) by (subst readNextValidPatch.simps) (simp add: s s2_def Let_def)
  moreover have "s2\<lparr>has_header := True\<rparr> = s2" by (simp add: s2_def s_def)
  ultimately have nh: "next_header s = Some (Inr s2)" using s by (simp add: next_header_def s2_def)
  have fs: "0 < fs" using d by linarith
  define s3 where "s3 = s2\<lparr>unchanged_align_end := unchanged_align_end_next s2\<rparr>"
  have "passed_on base [] s3"
    using st acc by (auto simp: passed_on_def s3_def s2_def s_def hears_def trace_bytes_def all_plain_def intro!: exI[of _ "[]"])
  moreover have "file_pos s3 = length []" "patch_at (take k d) s3" "length (take k d) < patch_size s3"
    using g2 hd(1) d(1) by (simp_all add: s3_def s2_def s_def patch_at_def h_def)
  ultimately have "apply_patch_data s3 = None" by (rule apply_patch_data_cut)
  then have "patch_data_round False s2 = None"
    by (simp add: patch_data_round_def s3_def[symmetric]) (simp add: s2_def s_def)
  moreover have "bytes_before s2 = 0" "file_pos s2 = 0" "filesize s2 = int fs" "patch_size s2 = length d" "has_header s2" "patch_off s2 = 0"
    using st(4) by (simp_all add: s2_def s_def bytes_before_def UINT_MAX_def)
  ultimately have "patch_step s = None"
    using nh fs d(2) by (simp add: patch_step_def patch_round_def)
  then have "patch_loop s = None" using s(4) by (simp add: patch_loop.simps[of s])
  then show ?thesis using go by simp
qed

end

end
