(* ===== verification/Prepare_Hash.thy ===== *)
theory Prepare_Hash
  imports Chunk_Hash_File Patch_Run
begin

text \<open>
  Hashing on the server: \<open>BackupServerPrepareHash\<close> of \<open>idrivebmrserver/server_prepare_hash.cpp\<close>. A file that was sent
  whole is hashed by \<open>hash_sha\<close>; for a file that was sent as a patch \<open>hash_with_patch\<close> hashes what the patcher passes on.
  The hash object gets the bytes themselves here, and the hashes of blocks in the client's \<open>build_chunk_hashs\<close>.
\<close>

definition hash_bsize :: nat where "hash_bsize = 512 * 1024"

section \<open>Hashing a file\<close>

text \<open>An iterator over holes, as the interface \<open>IExtentIterator\<close> offers it.\<close>

record 'i extent_ops =
  nextExtent_op :: "'i \<Rightarrow> (int \<times> int) option \<times> 'i"
  reset_op :: "'i \<Rightarrow> 'i"

definition FsExtents :: "int \<Rightarrow> (int \<times> int) list \<Rightarrow> (int \<times> int) list extent_ops" where
  "FsExtents bsize es = \<lparr>nextExtent_op = fs_nextExtent bsize, reset_op = (\<lambda>_. es)\<rparr>"

definition FileExtents :: "bool \<Rightarrow> ExtentIterator extent_ops" where
  "FileExtents be = \<lparr>nextExtent_op = iter_nextExtent be, reset_op = reset_extents\<rparr>"

record 'i sha_run =
  sr_f :: File
  sr_it :: 'i
  sr_extent :: "(int \<times> int) option"
  sr_pos :: nat
  skip_start :: "nat option"
  sr_hash :: hash_func

partial_function (option) skip_passed :: "'i extent_ops \<Rightarrow> 'i sha_run \<Rightarrow> 'i sha_run option" where
  "skip_passed xops st =
     (case sr_extent st of
        None \<Rightarrow> Some st
      | Some (off, sz) \<Rightarrow>
          if off + sz < int (sr_pos st) then
            let (e, it) = nextExtent_op xops (sr_it st) in skip_passed xops (st\<lparr>sr_extent := e, sr_it := it\<rparr>)
          else Some st)"

definition skip_block :: "'i sha_run \<Rightarrow> 'i sha_run" where
  "skip_block st =
     st\<lparr>skip_start := Some (case skip_start st of None \<Rightarrow> sr_pos st | Some s \<Rightarrow> s), sr_pos := sr_pos st + hash_bsize\<rparr>"

definition or_assert :: "'a option \<Rightarrow> (patch_error + 'a) option" where
  "or_assert x = Some (case x of None \<Rightarrow> Inl Assertion_Failed | Some a \<Rightarrow> Inr a)"

definition end_skip :: "bool \<Rightarrow> 'i sha_run \<Rightarrow> (patch_error + 'i sha_run) option" where
  "end_skip be st =
     (case skip_start st of
        None \<Rightarrow> Some (Inr st)
      | Some start \<Rightarrow>
          and_then (or_assert (hashf_sparse_hash be (hole_note be start (sr_pos st - start)) (sr_hash st)))
            (\<lambda>h. Some (Inr (st\<lparr>sr_hash := h, skip_start := None\<rparr>))))"

text \<open>One round of the loop; the flag is \<open>rc > 0\<close>.\<close>

definition hash_read :: "bool \<Rightarrow> bool \<Rightarrow> 'i sha_run \<Rightarrow> (patch_error + bool \<times> 'i sha_run) option" where
  "hash_read be hash_with_sparse st =
     (let st = (if skip_start st \<noteq> None then st\<lparr>sr_f := snd (File_Seek (int (sr_pos st)) (sr_f st))\<rparr> else st);
          (d, has_read_error, f) = File_Read hash_bsize (sr_f st); st = st\<lparr>sr_f := f\<rparr>
      in if has_read_error then Some (Inl Read_Error)
         else if hash_with_sparse \<and> length d = hash_bsize \<and> buf_is_zero d then Some (Inr (True, skip_block st))
         else and_then (end_skip be st) (\<lambda>st.
           if d \<noteq> [] then
             and_then (or_assert (hashf_hash be d (sr_hash st)))
               (\<lambda>h. Some (Inr (True, st\<lparr>sr_hash := h, sr_pos := sr_pos st + length d\<rparr>)))
           else Some (Inr (False, st))))"

definition hash_round :: "bool \<Rightarrow> 'i extent_ops \<Rightarrow> bool \<Rightarrow> 'i sha_run \<Rightarrow> (patch_error + bool \<times> 'i sha_run) option" where
  "hash_round be xops hash_with_sparse st = Option.bind (skip_passed xops st) (\<lambda>st.
     if (case sr_extent st of None \<Rightarrow> False
         | Some (off, sz) \<Rightarrow> off \<le> int (sr_pos st) \<and> int (sr_pos st) + int hash_bsize \<le> off + sz)
     then Some (Inr (True, skip_block st)) else hash_read be hash_with_sparse st)"

partial_function (option) hash_rounds :: "bool \<Rightarrow> 'i extent_ops \<Rightarrow> bool \<Rightarrow> 'i sha_run \<Rightarrow> (patch_error + 'i sha_run) option" where
  "hash_rounds be xops hash_with_sparse st =
     and_then (hash_round be xops hash_with_sparse st)
       (\<lambda>(more, st). if more then hash_rounds be xops hash_with_sparse st else Some (Inr st))"

definition hash_sha ::
  "bool \<Rightarrow> 'i extent_ops \<Rightarrow> File \<Rightarrow> 'i option \<Rightarrow> 'i \<Rightarrow> bool \<Rightarrow> hash_func \<Rightarrow> (patch_error + 'i sha_run) option" where
  "hash_sha be xops f iter no_it hash_with_sparse hashf =
     (let f = snd (File_Seek 0 f);
          (e, it) = (case iter of None \<Rightarrow> (None, no_it) | Some it \<Rightarrow> nextExtent_op xops (reset_op xops it))
      in hash_rounds be xops hash_with_sparse
           \<lparr>sr_f = f, sr_it = it, sr_extent = e, sr_pos = 0, skip_start = None, sr_hash = hashf\<rparr>)"

text \<open>
  \<open>calc_hash\<close> of a file whose holes the file system reports as \<open>es\<close>; the empty string when hashing fails. \<open>g\<close> is the memory
  of a new MD5 context.
\<close>

definition calc_hash :: "bool \<Rightarrow> MD5 \<Rightarrow> File \<Rightarrow> (int \<times> int) list \<Rightarrow> string \<Rightarrow> (patch_error + byte list) option" where
  "calc_hash be g f es method =
     (let xops = FsExtents (int hash_bsize) es;
          hash_func = (if method = ''sha512-nosparse'' \<or> method = ''sha512-sparse'' then Plain new_HashSha512 else Tree (new_TreeHash False g));
          hash_with_sparse = (method \<noteq> ''sha512-nosparse'')
      in Option.bind (hash_sha be xops f (Some es) [] hash_with_sparse hash_func) (\<lambda>r.
           case r of
             Inl Assertion_Failed \<Rightarrow> Some (Inl Assertion_Failed)
           | Inl _ \<Rightarrow> Some (Inr [])
           | Inr st \<Rightarrow>
               (case sr_hash st of
                  Plain h \<Rightarrow> Some (Inr (sha512_finalize be h))
                | Tree t \<Rightarrow> or_assert (map_option fst (tree_finalize be t))
                | No_Hash \<Rightarrow> Some (Inl Assertion_Failed))))"

section \<open>Hashing what a patch makes of a file\<close>

text \<open>
  The object as the callback of its patcher. \<open>prep_hashf\<close> is \<open>None\<close> when an assertion of it, or of its hash object, has failed.
  \<open>sparse_hashes\<close> is \<open>get_sparse_extent_content\<close>, \<open>patched_size\<close> what \<open>getFilesize\<close> of the patcher returns.
\<close>

record prep_hash =
  prep_hashf :: "hash_func option"
  hashoutput_f :: "File option"
  prep_pos :: nat
  prep_has_error :: bool
  has_sparse_extents :: bool

definition chunkhash_single_size :: nat where "chunkhash_single_size = 16 + 4 * (c_checkpoint_dist div c_small_hash_dist)"

definition unchanged_size :: "nat \<Rightarrow> nat" where
  "unchanged_size sz = 16 + 4 * (sz div c_small_hash_dist + (if sz mod c_small_hash_dist = 0 then 0 else 1))"

definition add_known_hash :: "bool \<Rightarrow> byte list \<Rightarrow> nat \<Rightarrow> hash_func option \<Rightarrow> hash_func option" where
  "add_known_hash be hashes sz h =
     (case h of Some (Tree t) \<Rightarrow> map_option Tree (addHashAllAdler be hashes (length hashes) sz t) | _ \<Rightarrow> None)"

definition addUnchangedHashes ::
  "bool \<Rightarrow> byte list \<Rightarrow> nat \<Rightarrow> nat \<Rightarrow> nat \<Rightarrow> bool option \<Rightarrow> prep_hash \<Rightarrow> bool option \<times> prep_hash" where
  "addUnchangedHashes be sparse_hashes patched_size start sz is_sparse p =
     (case hashoutput_f p of
        None \<Rightarrow> (is_sparse, p\<lparr>prep_hashf := None\<rparr>)
      | Some f \<Rightarrow>
          let (ok, f) = File_Seek (int (8 + start div hash_bsize * chunkhash_single_size)) f;
              (chunkhashes, has_read_error, f) = File_Read chunkhash_single_size f;
              r = length chunkhashes; last = (start + sz = patched_size);
              p = p\<lparr>hashoutput_f := Some f, prep_has_error := (prep_has_error p \<or> \<not> ok \<or> has_read_error)\<rparr>
          in if start mod hash_bsize \<noteq> 0 \<or> (sz \<noteq> hash_bsize \<and> \<not> last) \<or> (r \<noteq> chunkhash_single_size \<and> \<not> last) \<or>
                (unchanged_size sz \<noteq> chunkhash_single_size \<and> \<not> last)
             then (is_sparse, p\<lparr>prep_hashf := None\<rparr>)
             else
               let n = min (unchanged_size sz) r
               in if is_sparse \<noteq> None \<and> take n sparse_hashes = take n chunkhashes then (Some True, p)
                  else (is_sparse, p\<lparr>prep_hashf := add_known_hash be chunkhashes sz (prep_hashf p)\<rparr>))"

definition prep_next_bytes ::
  "bool \<Rightarrow> byte list \<Rightarrow> nat \<Rightarrow> byte list option \<Rightarrow> nat \<Rightarrow> bool \<Rightarrow> bool option \<Rightarrow> prep_hash \<Rightarrow> bool option \<times> prep_hash" where
  "prep_next_bytes be sparse_hashes patched_size buf bsize changed is_sparse p =
     (let (sp, p) =
            (case buf of
               Some d \<Rightarrow> (is_sparse, p\<lparr>prep_hashf := Option.bind (prep_hashf p) (hashf_hash be d)\<rparr>)
             | None \<Rightarrow>
                 if hashoutput_f p \<noteq> None \<and> (is_sparse = None \<or> is_sparse = Some False)
                 then addUnchangedHashes be sparse_hashes patched_size (prep_pos p) bsize is_sparse p else (is_sparse, p))
      in (sp, p\<lparr>prep_pos := prep_pos p + bsize\<rparr>))"

definition prep_sparse_bytes :: "bool \<Rightarrow> byte list \<Rightarrow> prep_hash \<Rightarrow> prep_hash" where
  "prep_sparse_bytes be buf p = p\<lparr>prep_hashf := Option.bind (prep_hashf p) (hashf_sparse_hash be buf)\<rparr>"

definition prep_callback :: "bool \<Rightarrow> byte list \<Rightarrow> nat \<Rightarrow> prep_hash patch_callback" where
  "prep_callback be sparse_hashes patched_size =
     \<lparr>next_chunk_patcher_bytes = prep_next_bytes be sparse_hashes patched_size,
      next_sparse_extent_bytes = prep_sparse_bytes be, chunk_patcher_pos = (\<lambda>p. int (prep_pos p))\<rparr>"

definition hash_with_patch ::
  "bool \<Rightarrow> byte list \<Rightarrow> nat \<Rightarrow> File \<Rightarrow> File \<Rightarrow> ExtentIterator option \<Rightarrow> bool \<Rightarrow> prep_hash \<Rightarrow> prep_hash patcher \<Rightarrow>
   prep_hash patch_result" where
  "hash_with_patch be sparse_hashes patched_size f patch it hash_with_sparse p pt =
     (let p = p\<lparr>has_sparse_extents := False, prep_pos := 0\<rparr>; known = (hashoutput_f p \<noteq> None)
      in ApplyPatch f patch it
           (pt\<lparr>cb := prep_callback be sparse_hashes patched_size, cbs := p, host_be := be,
               require_unchanged := \<not> known, unchanged_align := (if known then hash_bsize else 0), with_sparse := hash_with_sparse\<rparr>))"

end
