(* ===== verification/Prepare_Run.thy ===== *)
theory Prepare_Run
  imports Prepare_Hash
begin

text \<open>
  What the server's hashing computes: \<open>hash_sha\<close> and \<open>hash_with_patch\<close> give the digest that the client's hashing gives.
\<close>

section \<open>Calls with bytes instead of hashes\<close>

fun piece_of :: "tree_call \<Rightarrow> tree_call" where
  "piece_of (Block b) = Bytes b"
| "piece_of c = c"

definition file_pieces :: "bool \<Rightarrow> byte list \<Rightarrow> tree_call list" where
  "file_pieces be data = map piece_of (file_calls be data)"

fun run_hash_call :: "bool \<Rightarrow> tree_call \<Rightarrow> hash_func \<Rightarrow> hash_func option" where
  "run_hash_call be (Bytes p) h = hashf_hash be p h"
| "run_hash_call be (Hole p) h = hashf_sparse_hash be p h"
| "run_hash_call be (Block b) h = None"

fun hash_calls :: "bool \<Rightarrow> tree_call list \<Rightarrow> hash_func \<Rightarrow> hash_func option" where
  "hash_calls be [] h = Some h"
| "hash_calls be (c # cs) h = Option.bind (run_hash_call be c h) (hash_calls be cs)"

lemma hash_calls_append: "hash_calls be (xs @ ys) h = Option.bind (hash_calls be xs h) (hash_calls be ys)"
  by (induction xs arbitrary: h) (simp_all split: bind_split)

definition no_block :: "tree_call list \<Rightarrow> bool" where
  "no_block cs \<longleftrightarrow> (\<forall>b. Block b \<notin> set cs)"

lemma no_block_pieces: "no_block (map piece_of cs)"
proof -
  have "piece_of c \<noteq> Block b" for c b by (cases c) simp_all
  then show ?thesis by (auto simp: no_block_def) metis
qed

lemma hash_calls_tree: "no_block cs \<Longrightarrow> hash_calls be cs (Tree t) = map_option Tree (run_calls be cs t)"
proof (induction cs arbitrary: t)
  case (Cons c cs)
  have nb: "no_block cs" using Cons.prems by (simp add: no_block_def)
  show ?case
  proof (cases c)
    case (Bytes p) then show ?thesis using Cons.IH[OF nb] by (cases "tree_hash be p t") simp_all
  next
    case (Hole p) then show ?thesis using Cons.IH[OF nb] by (cases "tree_sparse_hash be p t") simp_all
  qed (use Cons.prems in \<open>auto simp: no_block_def\<close>)
qed simp

lemma content_pieces: "content (map piece_of cs) = content cs"
proof (induction cs)
  case (Cons c cs) then show ?case by (cases c) simp_all
qed simp

lemma hole_bytes_pieces: "hole_bytes (map piece_of cs) = hole_bytes cs"
proof (induction cs)
  case (Cons c cs) then show ?case by (cases c) simp_all
qed simp

lemma calls_ok_holes: "\<forall>c \<in> set cs. \<exists>p. c = Hole p \<Longrightarrow> calls_ok n (map piece_of cs)"
proof (induction cs)
  case (Cons c cs)
  then obtain p where "c = Hole p" by auto
  then show ?case using Cons by simp
qed simp

definition no_bytes :: "tree_call list \<Rightarrow> bool" where
  "no_bytes cs \<longleftrightarrow> (\<forall>b. Bytes b \<notin> set cs)"

lemma calls_ok_pieces: "calls_ok n cs \<Longrightarrow> no_bytes cs \<Longrightarrow> calls_ok n (map piece_of cs)"
proof (induction cs arbitrary: n)
  case (Cons c cs)
  have nb: "no_bytes cs" using Cons.prems(2) by (simp add: no_bytes_def)
  show ?case
  proof (cases c)
    case (Block b)
    then have b: "n = 0" "length b = treehash_blocksize \<and> calls_ok 0 cs \<or> length b < treehash_blocksize \<and> (\<forall>c \<in> set cs. \<exists>p. c = Hole p)"
      using Cons.prems(1) by simp_all
    from b(2) show ?thesis
    proof
      assume "length b = treehash_blocksize \<and> calls_ok 0 cs"
      then show ?thesis using Cons.IH[OF _ nb] b(1) by (simp add: Block)
    next
      assume a: "length b < treehash_blocksize \<and> (\<forall>c \<in> set cs. \<exists>p. c = Hole p)"
      then show ?thesis using calls_ok_holes b(1) by (simp add: Block)
    qed
  qed (use Cons nb in \<open>auto simp: no_bytes_def\<close>)
qed simp

lemma calls_ok_prefix: "calls_ok n (xs @ ys) \<Longrightarrow> calls_ok n xs"
proof (induction xs arbitrary: n)
  case (Cons c xs) then show ?case by (cases c) auto
qed simp

lemma scan_no_bytes: "no_bytes calls \<Longrightarrow> no_bytes (snd (snd (scan_chunk be (pos, start, calls) c)))"
  by (auto simp: no_bytes_def hole_calls_def split: option.splits)

lemma foldl_scan_no_bytes: "no_bytes calls \<Longrightarrow> no_bytes (snd (snd (foldl (scan_chunk be) (pos, start, calls) cs)))"
proof (induction cs arbitrary: pos start calls)
  case (Cons c cs)
  obtain p s cl where e: "scan_chunk be (pos, start, calls) c = (p, s, cl)" by (metis prod_cases3)
  have "no_bytes cl" using scan_no_bytes[OF Cons.prems, of be pos start c] unfolding e by simp
  then show ?case using Cons.IH[of cl p s] by (simp only: foldl_Cons e)
qed simp

lemma scan_pieces_ok:
  assumes "scan_file be data = (p, start, calls)"
  shows "calls_ok 0 (map piece_of (calls @ hole_calls be p start))" "file_pieces be data = map piece_of (calls @ hole_calls be p start)"
proof -
  have fc: "file_calls be data = calls @ hole_calls be p start" using assms by (simp add: file_calls_def scan_file_def)
  have "no_bytes calls" using foldl_scan_no_bytes[of "[]" be 0 None "chunks_of c_checkpoint_dist data"] assms
    by (simp add: scan_file_def no_bytes_def)
  then have "no_bytes (calls @ hole_calls be p start)" by (auto simp: no_bytes_def hole_calls_def split: option.splits)
  then show "calls_ok 0 (map piece_of (calls @ hole_calls be p start))"
    using calls_ok_pieces file_calls_ok[of be data] fc by (simp del: map_append)
  show "file_pieces be data = map piece_of (calls @ hole_calls be p start)" by (simp add: file_pieces_def fc)
qed

text \<open>A hash object that takes every allowed sequence of calls: a new tree hash, a new SHA-512.\<close>

definition hash_ready :: "bool \<Rightarrow> hash_func \<Rightarrow> bool" where
  "hash_ready be h \<longleftrightarrow> (\<forall>cs. calls_ok 0 cs \<and> no_block cs \<longrightarrow> hash_calls be cs h \<noteq> None)"

lemma new_tree_ready: "length (buffer g) = 64 \<Longrightarrow> hash_ready be (Tree (new_TreeHash out g))"
  unfolding hash_ready_def using run_calls_digest[of g _ be out] by (auto simp: hash_calls_tree)

lemma plain_calls:
  assumes "no_block cs" "sha_inv (sha_ctx p) a" "sha_has_sparse p = (sp \<noteq> None)"
    "sha_inv (sha_sparse_ctx p) (case sp of None \<Rightarrow> [] | Some s \<Rightarrow> s)"
  shows "\<exists>q. hash_calls be cs (Plain p) = Some (Plain q) \<and> sha_inv (sha_ctx q) (a @ content cs) \<and>
    sha_has_sparse q = (add_holes sp (hole_bytes cs) \<noteq> None) \<and>
    sha_inv (sha_sparse_ctx q) (case add_holes sp (hole_bytes cs) of None \<Rightarrow> [] | Some s \<Rightarrow> s)"
  using assms
proof (induction cs arbitrary: p a sp)
  case (Cons c cs)
  have nb: "no_block cs" using Cons.prems(1) by (simp add: no_block_def)
  show ?case
  proof (cases c)
    case (Bytes b)
    have 1: "sha_inv (sha_ctx (sha512_hash be b p)) (a @ b)" using Cons.prems(2) by (simp add: sha512_hash_def SHA512_Update_inv)
    from Cons.IH[OF nb 1, of sp] show ?thesis using Cons.prems(3,4) by (simp add: Bytes sha512_hash_def)
  next
    case (Hole b)
    let ?sp = "Some ((case sp of None \<Rightarrow> [] | Some s \<Rightarrow> s) @ b)"
    have "sha_inv (sha_sparse_ctx (sha512_sparse_hash be b p)) ((case sp of None \<Rightarrow> [] | Some s \<Rightarrow> s) @ b)"
      using Cons.prems(4) by (simp add: sha512_sparse_hash_def SHA512_Update_inv)
    with Cons.IH[OF nb, of "sha512_sparse_hash be b p" a ?sp] Cons.prems(2)
    show ?thesis by (simp add: Hole add_holes_Hole[symmetric] sha512_sparse_hash_def del: add_holes.simps hole_bytes.simps)
  qed (use Cons.prems in \<open>auto simp: no_block_def\<close>)
qed simp

lemma new_plain:
  "sha_inv (sha_ctx new_HashSha512) []" "sha_inv (sha_sparse_ctx new_HashSha512) []" "\<not> sha_has_sparse new_HashSha512"
  using new_hash_starts(2) by (simp_all add: hash_start_def)

lemma new_plain_ready: "hash_ready be (Plain new_HashSha512)"
  unfolding hash_ready_def using plain_calls[OF _ new_plain(1), of _ None be] new_plain(2,3) by auto

text \<open>The digests after all calls.\<close>

definition tree_digest_of :: "byte list \<Rightarrow> byte list" where
  "tree_digest_of data = tree_hash_of (dense_content data) (hole_bytes (file_calls False data))"

definition sha512_digest_of :: "byte list \<Rightarrow> byte list" where
  "sha512_digest_of data = sha512_of (dense_content data @ (case hole_bytes (file_calls False data) of None \<Rightarrow> [] | Some s \<Rightarrow> sha512_of s))"

lemma tree_pieces_digest:
  assumes "hash_calls False (file_pieces False data) (Tree (new_TreeHash out g)) = Some h" "length (buffer g) = 64"
  shows "\<exists>t t'. h = Tree t \<and> tree_finalize False t = Some (tree_digest_of data, t')"
proof -
  obtain p start calls where s: "scan_file False data = (p, start, calls)" by (metis prod_cases3)
  have ok: "calls_ok 0 (file_pieces False data)" using scan_pieces_ok[OF s] by simp
  obtain t t' where t: "run_calls False (file_pieces False data) (new_TreeHash out g) = Some t"
    "tree_finalize False t = Some (tree_hash_of (content (file_pieces False data)) (hole_bytes (file_pieces False data)), t')"
    using run_calls_digest[OF assms(2) ok, of False out] by blast
  have "no_block (file_pieces False data)" by (simp add: file_pieces_def no_block_pieces)
  then have "h = Tree t" using assms(1) t(1) hash_calls_tree by simp
  then show ?thesis using t(2)
    by (simp add: file_pieces_def content_pieces hole_bytes_pieces content_file_calls tree_digest_of_def)
qed

lemma plain_pieces_digest:
  assumes "hash_calls False cs (Plain new_HashSha512) = Some h" "no_block cs"
  shows "\<exists>p. h = Plain p \<and> sha512_finalize False p = sha512_of (content cs @ (case hole_bytes cs of None \<Rightarrow> [] | Some s \<Rightarrow> sha512_of s))"
proof -
  obtain p where p: "h = Plain p" "sha_inv (sha_ctx p) (content cs)" "sha_has_sparse p = (hole_bytes cs \<noteq> None)"
    "sha_inv (sha_sparse_ctx p) (case hole_bytes cs of None \<Rightarrow> [] | Some s \<Rightarrow> s)"
    using plain_calls[OF assms(2) new_plain(1), of None False] new_plain(2,3) assms(1) by (auto simp: add_holes_None)
  show ?thesis
  proof (cases "hole_bytes cs")
    case None
    then show ?thesis using p by (intro exI[of _ p]) (simp add: sha512_finalize_def SHA512_Final_digest)
  next
    case (Some s)
    have "sha_inv (SHA512_Update False (sha_ctx p) (sha512_of s)) (content cs @ sha512_of s)"
      using p(2) by (rule SHA512_Update_inv)
    then show ?thesis using p Some by (intro exI[of _ p]) (simp add: sha512_finalize_def SHA512_Final_digest)
  qed
qed

section \<open>Hashing a file on the server\<close>

text \<open>The iterator delivers the extents \<open>es\<close> and then the end.\<close>

fun delivers :: "'i extent_ops \<Rightarrow> 'i \<Rightarrow> (int \<times> int) list \<Rightarrow> bool" where
  "delivers xops it [] \<longleftrightarrow> fst (nextExtent_op xops it) = None"
| "delivers xops it (e # es) \<longleftrightarrow> fst (nextExtent_op xops it) = Some e \<and> delivers xops (snd (nextExtent_op xops it)) es"

text \<open>
  An extent inside the file in which there are only zeros. Its end is a file offset after which a block still fits into \<open>int64\<close>, so that
  rounding it does not overflow.
\<close>

definition zero_extent :: "byte list \<Rightarrow> int \<times> int \<Rightarrow> bool" where
  "zero_extent data e \<longleftrightarrow> 0 \<le> fst e \<and> 0 \<le> snd e \<and> fst e + snd e < 2 ^ 63 - int hash_bsize \<and> fst e + snd e \<le> int (length data) \<and>
     (\<forall>i < length data. fst e \<le> int i \<and> int i < fst e + snd e \<longrightarrow> data ! i = 0)"

text \<open>The current extent and those that follow.\<close>

definition extents_left :: "'i extent_ops \<Rightarrow> byte list \<Rightarrow> 'i sha_run \<Rightarrow> bool" where
  "extents_left xops data st \<longleftrightarrow>
     (case sr_extent st of None \<Rightarrow> True
      | Some e \<Rightarrow> zero_extent data e \<and> (\<exists>es. delivers xops (sr_it st) es \<and> (\<forall>e \<in> set es. zero_extent data e)))"

lemma skip_passed_ok:
  assumes "delivers xops (sr_it st) es" "\<forall>e \<in> set es. zero_extent data e" "\<forall>e. sr_extent st = Some e \<longrightarrow> zero_extent data e"
  shows "\<exists>e it. skip_passed xops st = Some (st\<lparr>sr_extent := e, sr_it := it\<rparr>) \<and> extents_left xops data (st\<lparr>sr_extent := e, sr_it := it\<rparr>)"
  using assms
proof (induction es arbitrary: st)
  case Nil
  show ?case
  proof (cases "sr_extent st")
    case None
    have "skip_passed xops st = Some (st\<lparr>sr_extent := None, sr_it := sr_it st\<rparr>)"
      using None by (subst skip_passed.simps) simp
    then show ?thesis by (intro exI[of _ None] exI[of _ "sr_it st"]) (simp add: extents_left_def)
  next
    case (Some e)
    obtain off sz where e: "e = (off, sz)" by (cases e)
    obtain it where it: "nextExtent_op xops (sr_it st) = (None, it)" using Nil.prems(1) by (cases "nextExtent_op xops (sr_it st)") simp
    show ?thesis
    proof (cases "off + sz < int (sr_pos st)")
      case True
      have "skip_passed xops st = Some (st\<lparr>sr_extent := None, sr_it := it\<rparr>)"
        using True Some e it by (subst skip_passed.simps) (simp add: skip_passed.simps[of xops "st\<lparr>sr_extent := None, sr_it := it\<rparr>"])
      then show ?thesis by (intro exI[of _ None] exI[of _ it]) (simp add: extents_left_def)
    next
      case False
      have "skip_passed xops st = Some (st\<lparr>sr_extent := Some e, sr_it := sr_it st\<rparr>)"
        using False Some e by (subst skip_passed.simps) simp
      then show ?thesis using Nil.prems Some
        by (intro exI[of _ "Some e"] exI[of _ "sr_it st"]) (simp add: extents_left_def exI[of _ "[]"])
    qed
  qed
next
  case (Cons x es)
  show ?case
  proof (cases "sr_extent st")
    case None
    have "skip_passed xops st = Some (st\<lparr>sr_extent := None, sr_it := sr_it st\<rparr>)"
      using None by (subst skip_passed.simps) simp
    then show ?thesis by (intro exI[of _ None] exI[of _ "sr_it st"]) (simp add: extents_left_def)
  next
    case (Some e)
    obtain off sz where e: "e = (off, sz)" by (cases e)
    obtain it where it: "nextExtent_op xops (sr_it st) = (Some x, it)" "delivers xops it es"
      using Cons.prems(1) by (cases "nextExtent_op xops (sr_it st)") simp
    show ?thesis
    proof (cases "off + sz < int (sr_pos st)")
      case True
      let ?s = "st\<lparr>sr_extent := Some x, sr_it := it\<rparr>"
      have "skip_passed xops st = skip_passed xops ?s" using True Some e it by (subst skip_passed.simps) simp
      then show ?thesis using Cons.IH[of ?s] it(2) Cons.prems(2) by simp
    next
      case False
      have "skip_passed xops st = Some (st\<lparr>sr_extent := Some e, sr_it := sr_it st\<rparr>)"
        using False Some e by (subst skip_passed.simps) simp
      moreover have "\<exists>es. delivers xops (sr_it st) es \<and> (\<forall>e \<in> set es. zero_extent data e)"
        using Cons.prems(1,2) by blast
      ultimately show ?thesis using Cons.prems(3) Some
        by (intro exI[of _ "Some e"] exI[of _ "sr_it st"]) (simp add: extents_left_def)
    qed
  qed
qed

lemma extents_left_skip:
  assumes "extents_left xops data st"
  shows "\<exists>e it. skip_passed xops st = Some (st\<lparr>sr_extent := e, sr_it := it\<rparr>) \<and> extents_left xops data (st\<lparr>sr_extent := e, sr_it := it\<rparr>)"
proof (cases "sr_extent st")
  case None
  have "skip_passed xops st = Some (st\<lparr>sr_extent := None, sr_it := sr_it st\<rparr>)"
    using None by (subst skip_passed.simps) simp
  then show ?thesis by (intro exI[of _ None] exI[of _ "sr_it st"]) (simp add: extents_left_def)
next
  case (Some e)
  then show ?thesis using assms skip_passed_ok[of xops st _ data] by (auto simp: extents_left_def)
qed

text \<open>The part of the file before the position has been hashed.\<close>

definition sha_inv_at :: "bool \<Rightarrow> hash_func \<Rightarrow> byte list \<Rightarrow> 'i sha_run \<Rightarrow> bool" where
  "sha_inv_at be h0 data st \<longleftrightarrow> fbytes (sr_f st) = data \<and> no_fault (sr_f st) \<and> sr_pos st \<le> length data \<and>
     (sr_pos st mod hash_bsize = 0 \<or> sr_pos st = length data) \<and> (skip_start st = None \<longrightarrow> fpos (sr_f st) = sr_pos st) \<and>
     (\<exists>calls. scan_file be (take (sr_pos st) data) = (sr_pos st, skip_start st, calls) \<and>
        hash_calls be (map piece_of calls) h0 = Some (sr_hash st))"

definition sha_done :: "bool \<Rightarrow> hash_func \<Rightarrow> byte list \<Rightarrow> 'i sha_run \<Rightarrow> bool" where
  "sha_done be h0 data st \<longleftrightarrow> hash_calls be (file_pieces be data) h0 = Some (sr_hash st)"

lemma hash_bsize_eq: "hash_bsize = c_checkpoint_dist"
  by (simp add: hash_bsize_def c_checkpoint_dist_def)

lemma scan_next:
  assumes "p mod hash_bsize = 0" "p < length data"
  defines "b \<equiv> take hash_bsize (drop p data)"
  shows "scan_file be (take (p + length b) data) = scan_chunk be (scan_file be (take p data)) b"
proof -
  have "take (p + length b) data = take p data @ b" by (simp add: b_def take_add min_def)
  moreover have "length (take p data) mod c_checkpoint_dist = 0" using assms(1,2) by (simp add: hash_bsize_eq min_def)
  moreover have "b \<noteq> []" "length b \<le> c_checkpoint_dist" using assms(2) by (simp_all add: b_def hash_bsize_eq c_checkpoint_dist_def)
  ultimately show ?thesis using scan_snoc by metis
qed

text \<open>Ending a run of zeros, then hashing bytes: the object takes the calls.\<close>

lemma end_skip_calls:
  assumes "hash_calls be (map piece_of calls) h0 = Some (sr_hash st)"
    "hash_calls be (map piece_of (calls @ hole_calls be (sr_pos st) (skip_start st))) h0 \<noteq> None"
  shows "\<exists>h. end_skip be st = Some (Inr (st\<lparr>sr_hash := h, skip_start := None\<rparr>)) \<and>
    hash_calls be (map piece_of (calls @ hole_calls be (sr_pos st) (skip_start st))) h0 = Some h"
proof (cases "skip_start st")
  case None
  then have "st = st\<lparr>sr_hash := sr_hash st, skip_start := None\<rparr>" by simp
  then show ?thesis using None assms(1) by (intro exI[of _ "sr_hash st"]) (simp add: end_skip_def hole_calls_def)
next
  case (Some s)
  then obtain h where "hashf_sparse_hash be (hole_note be s (sr_pos st - s)) (sr_hash st) = Some h"
    using assms by (auto simp: hole_calls_def hash_calls_append split: bind_splits)
  then show ?thesis using Some assms(1) by (intro exI[of _ h]) (simp add: end_skip_def hole_calls_def hash_calls_append or_assert_def)
qed

lemma zero_block:
  assumes "zero_extent data (off, sz)" "off \<le> int p" "int p + int hash_bsize \<le> off + sz"
  shows "length (take hash_bsize (drop p data)) = hash_bsize" "buf_is_zero (take hash_bsize (drop p data))" "p + hash_bsize \<le> length data"
proof -
  have z: "off + sz \<le> int (length data)" "\<forall>i < length data. off \<le> int i \<and> int i < off + sz \<longrightarrow> data ! i = 0"
    using assms(1) by (simp_all add: zero_extent_def)
  show l: "p + hash_bsize \<le> length data" using z(1) assms(3) by linarith
  then show "length (take hash_bsize (drop p data)) = hash_bsize" by simp
  show "buf_is_zero (take hash_bsize (drop p data))"
    unfolding buf_is_zero_def list_all_length
  proof (intro allI impI)
    fix i assume "i < length (take hash_bsize (drop p data))"
    then have i: "i < hash_bsize" "p + i < length data" using l by simp_all
    then have "data ! (p + i) = 0" using z(2) assms(2,3) by simp
    then show "take hash_bsize (drop p data) ! i = 0" using i by simp
  qed
qed

lemma mod_step: "p mod hash_bsize = 0 \<Longrightarrow> (p + hash_bsize) mod hash_bsize = 0"
  by simp

lemma take_nil: "take n (drop p xs) \<noteq> [] \<Longrightarrow> p < length xs"
  by simp

text \<open>A block of zeros that is skipped, whether or not it was read.\<close>

lemma skip_block_inv:
  assumes inv: "sha_inv_at be h0 data st" and b: "length (take hash_bsize (drop (sr_pos st) data)) = hash_bsize"
    "buf_is_zero (take hash_bsize (drop (sr_pos st) data))"
    and st': "fbytes (sr_f st') = data" "no_fault (sr_f st')" "sr_pos st' = sr_pos st" "skip_start st' = skip_start st" "sr_hash st' = sr_hash st"
  shows "sha_inv_at be h0 data (skip_block st')" "sr_pos (skip_block st') = sr_pos st + hash_bsize" "sr_pos st < length data"
proof -
  define p where "p = sr_pos st"
  define d where "d = take hash_bsize (drop p data)"
  have d: "length d = hash_bsize" "buf_is_zero d" using b by (simp_all add: d_def p_def)
  have pl: "p < length data" using d(1) by (simp add: d_def hash_bsize_def)
  then show "sr_pos st < length data" by (simp add: p_def)
  show "sr_pos (skip_block st') = sr_pos st + hash_bsize" using st'(3) by (simp add: skip_block_def)
  obtain calls where c: "scan_file be (take p data) = (p, skip_start st, calls)" "hash_calls be (map piece_of calls) h0 = Some (sr_hash st)"
    using inv by (auto simp: sha_inv_at_def p_def)
  have m: "p mod hash_bsize = 0" using inv pl by (simp add: sha_inv_at_def p_def)
  have "p + hash_bsize \<le> length data" using d(1) pl unfolding d_def length_take length_drop by (auto simp: min_def split: if_splits)
  moreover have "scan_file be (take (p + hash_bsize) data) = (p + hash_bsize, skip_start (skip_block st'), calls)"
  proof -
    have "scan_file be (take (p + hash_bsize) data) = scan_chunk be (scan_file be (take p data)) d"
      using scan_next[OF m pl, of be] unfolding d_def[symmetric] d(1) .
    moreover have "length d = c_checkpoint_dist" using d(1) by (simp add: hash_bsize_eq)
    ultimately show ?thesis
      using d(2) c(1) st'(3,4) by (cases "skip_start st") (simp_all add: hash_bsize_eq skip_block_def p_def)
  qed
  ultimately show "sha_inv_at be h0 data (skip_block st')"
    using st' c(2) m mod_step[OF m] by (simp add: sha_inv_at_def skip_block_def p_def)
qed

lemma hash_read_step:
  assumes inv: "sha_inv_at be h0 data st" and ready: "hash_ready be h0"
  shows "\<exists>more st'. hash_read be True st = Some (Inr (more, st')) \<and> sr_it st' = sr_it st \<and> sr_extent st' = sr_extent st \<and>
    (if more then sha_inv_at be h0 data st' \<and> sr_pos st < sr_pos st' \<and> sr_pos st' \<le> length data else sha_done be h0 data st')"
proof -
  define p where "p = sr_pos st"
  define d where "d = take hash_bsize (drop p data)"
  have i: "fbytes (sr_f st) = data" "no_fault (sr_f st)" "p \<le> length data" "p mod hash_bsize = 0 \<or> p = length data"
    "skip_start st = None \<longrightarrow> fpos (sr_f st) = p"
    using inv by (simp_all add: sha_inv_at_def p_def)
  obtain calls where c: "scan_file be (take p data) = (p, skip_start st, calls)" "hash_calls be (map piece_of calls) h0 = Some (sr_hash st)"
    using inv by (auto simp: sha_inv_at_def p_def)
  define f where "f = (if skip_start st \<noteq> None then snd (File_Seek (int p) (sr_f st)) else sr_f st)"
  have f: "fbytes f = data" "no_fault f" "fpos f = p"
    using i(1,2,5) File_Seek_ok[OF i(2), of "int p"] no_fault_eq[of f "sr_f st"] by (simp_all add: f_def)
  have h32: "hash_bsize \<le> 2 ^ 32" by (simp add: hash_bsize_def)
  obtain g where g: "File_Read hash_bsize f = (d, False, g)" "fbytes g = data" "fpos g = p + length d" "no_fault g"
    using File_Read_ok[OF f(2) h32] f by (auto simp: d_def)
  define s where "s = st\<lparr>sr_f := g\<rparr>"
  have s: "sr_pos s = p" "skip_start s = skip_start st" "sr_hash s = sr_hash st" "sr_it s = sr_it st" "sr_extent s = sr_extent st" "sr_f s = g"
    by (simp_all add: s_def p_def)
  have go: "hash_read be True st =
    (if length d = hash_bsize \<and> buf_is_zero d then Some (Inr (True, skip_block s))
     else and_then (end_skip be s) (\<lambda>st. if d \<noteq> [] then
             and_then (or_assert (hashf_hash be d (sr_hash st))) (\<lambda>h. Some (Inr (True, st\<lparr>sr_hash := h, sr_pos := sr_pos st + length d\<rparr>)))
           else Some (Inr (False, st))))"
  proof -
    have "File_Read hash_bsize (sr_f (if skip_start st \<noteq> None then st\<lparr>sr_f := snd (File_Seek (int (sr_pos st)) (sr_f st))\<rparr> else st)) = (d, False, g)"
      using g(1) by (simp add: f_def p_def split: if_splits)
    moreover have "(if skip_start st \<noteq> None then st\<lparr>sr_f := snd (File_Seek (int (sr_pos st)) (sr_f st))\<rparr> else st)\<lparr>sr_f := g\<rparr> = s"
      by (simp add: s_def)
    ultimately show ?thesis unfolding hash_read_def Let_def by simp
  qed
  show ?thesis
  proof (cases "length d = hash_bsize \<and> buf_is_zero d")
    case True
    have "fbytes (sr_f s) = data" "no_fault (sr_f s)" using g s(6) by simp_all
    note sb = skip_block_inv[OF inv _ _ this s(1)[unfolded p_def] s(2,3)]
    have "sha_inv_at be h0 data (skip_block s)" "sr_pos (skip_block s) = sr_pos st + hash_bsize"
      using sb True by (simp_all add: d_def p_def)
    moreover have "sr_it (skip_block s) = sr_it st" "sr_extent (skip_block s) = sr_extent st" by (simp_all add: skip_block_def s)
    moreover have "sr_pos (skip_block s) \<le> length data" using calculation(1) by (simp add: sha_inv_at_def)
    moreover have "0 < hash_bsize" by (simp add: hash_bsize_def)
    ultimately show ?thesis using go True by (intro exI[of _ True] exI[of _ "skip_block s"]) simp
  next
    case False
    have pre: "hash_calls be (map piece_of calls) h0 = Some (sr_hash s)" using c(2) s(3) by simp
    have holes: "hash_calls be (map piece_of (calls @ hole_calls be (sr_pos s) (skip_start s))) h0 \<noteq> None"
      using scan_pieces_ok(1)[OF c(1)] ready no_block_pieces s(1,2) unfolding hash_ready_def by metis
    obtain h where h: "end_skip be s = Some (Inr (s\<lparr>sr_hash := h, skip_start := None\<rparr>))"
      "hash_calls be (map piece_of (calls @ hole_calls be p (skip_start st))) h0 = Some h"
      using end_skip_calls[OF pre holes] s(1,2) by auto
    define t where "t = s\<lparr>sr_hash := h, skip_start := None\<rparr>"
    show ?thesis
    proof (cases "d = []")
      case nil: True
      then have "take p data = data" by (simp add: d_def hash_bsize_def)
      then have "sha_done be h0 data t" using h(2) scan_pieces_ok(2)[OF c(1)] by (simp add: sha_done_def t_def)
      then show ?thesis using go False nil h(1) s by (intro exI[of _ False] exI[of _ t]) (simp add: t_def)
    next
      case ne: False
      then have pl: "p < length data" unfolding d_def by (rule take_nil)
      then have m: "p mod hash_bsize = 0" using i(4) by simp
      have nx: "scan_file be (take (p + length d) data) = (p + length d, None, calls @ hole_calls be p (skip_start st) @ [Block d])"
        using scan_next[OF m pl, of be] c(1) False unfolding d_def[symmetric] by (auto simp: hash_bsize_eq)
      have "hash_calls be (map piece_of ((calls @ hole_calls be p (skip_start st)) @ [Block d])) h0 \<noteq> None"
        using scan_pieces_ok(1)[OF nx] ready no_block_pieces unfolding hash_ready_def by (metis append_Nil2 append_assoc hole_calls_def option.case(1))
      then obtain h' where h': "hashf_hash be d h = Some h'"
        "hash_calls be (map piece_of (calls @ hole_calls be p (skip_start st) @ [Block d])) h0 = Some h'"
        using h(2) by (auto simp: hash_calls_append split: bind_splits)
      define u where "u = t\<lparr>sr_hash := h', sr_pos := p + length d\<rparr>"
      have ld: "p + length d \<le> length data" using i(3) by (simp add: d_def)
      have "(p + length d) mod hash_bsize = 0 \<or> p + length d = length data"
        using mod_step[OF m] by (cases "length d = hash_bsize") (auto simp: d_def min_def split: if_splits)
      then have "sha_inv_at be h0 data u"
        using g nx h'(2) ld by (simp add: sha_inv_at_def u_def t_def s_def)
      moreover have "hash_read be True st = Some (Inr (True, u))"
        using go False ne h(1) h'(1) s(1) by (simp add: u_def t_def or_assert_def)
      moreover have "sr_pos u = p + length d" "sr_it u = sr_it st" "sr_extent u = sr_extent st" by (simp_all add: u_def t_def s)
      ultimately show ?thesis using ne ld by (intro exI[of _ True] exI[of _ u]) (simp add: p_def)
    qed
  qed
qed

lemma hash_round_step:
  assumes inv: "sha_inv_at be h0 data st" and ready: "hash_ready be h0" and ext: "extents_left xops data st"
  shows "\<exists>more st'. hash_round be xops True st = Some (Inr (more, st')) \<and> extents_left xops data st' \<and>
    (if more then sha_inv_at be h0 data st' \<and> sr_pos st < sr_pos st' \<and> sr_pos st' \<le> length data else sha_done be h0 data st')"
proof -
  obtain e it where sk: "skip_passed xops st = Some (st\<lparr>sr_extent := e, sr_it := it\<rparr>)" "extents_left xops data (st\<lparr>sr_extent := e, sr_it := it\<rparr>)"
    using extents_left_skip[OF ext] by blast
  define s where "s = st\<lparr>sr_extent := e, sr_it := it\<rparr>"
  have si: "sha_inv_at be h0 data s" using inv by (simp add: sha_inv_at_def s_def)
  have sp: "sr_pos s = sr_pos st" "sr_extent s = e" by (simp_all add: s_def)
  show ?thesis
  proof (cases "case e of None \<Rightarrow> False | Some (off, sz) \<Rightarrow> off \<le> int (sr_pos s) \<and> int (sr_pos s) + int hash_bsize \<le> off + sz")
    case True
    then obtain off sz where o: "e = Some (off, sz)" "off \<le> int (sr_pos s)" "int (sr_pos s) + int hash_bsize \<le> off + sz"
      by (auto split: option.splits)
    have "zero_extent data (off, sz)" using sk(2) o(1) by (simp add: extents_left_def)
    note z = zero_block[OF this o(2,3)]
    have f: "fbytes (sr_f s) = data" "no_fault (sr_f s)" using si by (simp_all add: sha_inv_at_def)
    note sb = skip_block_inv[OF si z(1,2) f refl refl refl]
    have "hash_round be xops True st = Some (Inr (True, skip_block s))"
      using sk(1) True sp by (simp add: hash_round_def s_def[symmetric])
    moreover have "extents_left xops data (skip_block s)" using sk(2) by (cases e) (simp_all add: s_def extents_left_def skip_block_def)
    moreover have "0 < hash_bsize" by (simp add: hash_bsize_def)
    ultimately show ?thesis using sb z(3) sp by (intro exI[of _ True] exI[of _ "skip_block s"]) simp
  next
    case False
    have go: "hash_round be xops True st = hash_read be True s"
      using sk(1) False sp by (simp add: hash_round_def s_def[symmetric])
    obtain more s' where r: "hash_read be True s = Some (Inr (more, s'))" "sr_it s' = sr_it s" "sr_extent s' = sr_extent s"
      "if more then sha_inv_at be h0 data s' \<and> sr_pos s < sr_pos s' \<and> sr_pos s' \<le> length data else sha_done be h0 data s'"
      using hash_read_step[OF si ready] by blast
    have "extents_left xops data s'" using sk(2) r(2,3) by (cases e) (simp_all add: extents_left_def s_def)
    then show ?thesis using go r sp by (intro exI[of _ more] exI[of _ s']) (auto split: if_splits)
  qed
qed

lemma hash_rounds_done:
  assumes "sha_inv_at be h0 data st" "hash_ready be h0" "extents_left xops data st"
  shows "\<exists>st'. hash_rounds be xops True st = Some (Inr st') \<and> sha_done be h0 data st'"
  using assms
proof (induction "length data - sr_pos st" arbitrary: st rule: less_induct)
  case less
  obtain more s where s: "hash_round be xops True st = Some (Inr (more, s))" "extents_left xops data s"
    "if more then sha_inv_at be h0 data s \<and> sr_pos st < sr_pos s \<and> sr_pos s \<le> length data else sha_done be h0 data s"
    using hash_round_step[OF less.prems] by blast
  show ?case
  proof (cases more)
    case False
    then show ?thesis using s by (simp add: hash_rounds.simps[of be xops True st])
  next
    case True
    then have "sr_pos st < sr_pos s" "sr_pos s \<le> length data" using s(3) by simp_all
    then have "length data - sr_pos s < length data - sr_pos st" by linarith
    then show ?thesis using less.hyps[of s] s True less.prems(2) by (simp add: hash_rounds.simps[of be xops True st])
  qed
qed

lemma hash_sha_done:
  assumes f: "no_fault f" "fbytes f = data" and ready: "hash_ready be h0"
    and ext: "\<forall>it. iter = Some it \<longrightarrow> (\<exists>es. delivers xops (reset_op xops it) es \<and> (\<forall>e \<in> set es. zero_extent data e))"
  shows "\<exists>st. hash_sha be xops f iter no_it True h0 = Some (Inr st) \<and> sha_done be h0 data st"
proof -
  define g where "g = snd (File_Seek 0 f)"
  have g: "fbytes g = data" "no_fault g" "fpos g = 0" using File_Seek_ok[OF f(1), of 0] f no_fault_eq[of g f] by (simp_all add: g_def)
  obtain e it where ei: "(case iter of None \<Rightarrow> (None, no_it) | Some it \<Rightarrow> nextExtent_op xops (reset_op xops it)) = (e, it)"
    by (metis surj_pair)
  define st where "st = \<lparr>sr_f = g, sr_it = it, sr_extent = e, sr_pos = 0, skip_start = None, sr_hash = h0\<rparr>"
  have go: "hash_sha be xops f iter no_it True h0 = hash_rounds be xops True st"
    by (simp add: hash_sha_def g_def[symmetric] ei st_def)
  have "sha_inv_at be h0 data st" using g by (simp add: sha_inv_at_def st_def scan_Nil)
  moreover have "extents_left xops data st"
  proof (cases iter)
    case None then show ?thesis using ei by (auto simp: extents_left_def st_def)
  next
    case (Some i)
    obtain es where es: "delivers xops (reset_op xops i) es" "\<forall>e \<in> set es. zero_extent data e" using ext Some by blast
    then show ?thesis using ei Some by (cases es) (auto simp: extents_left_def st_def)
  qed
  ultimately show ?thesis using hash_rounds_done[OF _ ready] go by simp
qed

section \<open>Hashing a patch on the server\<close>

fun event_call :: "bool \<Rightarrow> patch_event \<Rightarrow> tree_call list" where
  "event_call be (Data d) = [Bytes d]"
| "event_call be (Note s l) = [Hole (hole_note be s l)]"
| "event_call be _ = []"

definition event_calls :: "bool \<Rightarrow> patch_event list \<Rightarrow> tree_call list" where
  "event_calls be tr = concat (map (event_call be) tr)"

lemma event_calls_simps [simp]:
  "event_calls be [] = []" "event_calls be (a @ b) = event_calls be a @ event_calls be b"
  "event_calls be (e # tr) = event_call be e @ event_calls be tr"
  by (simp_all add: event_calls_def)

lemma no_block_events: "no_block (event_calls be tr)"
proof (induction tr)
  case (Cons e tr) then show ?case by (cases e) (simp_all add: no_block_def)
qed (simp add: no_block_def)

text \<open>The object has heard the trace: the hash object has got its calls.\<close>

definition prep_told :: "bool \<Rightarrow> hash_func \<Rightarrow> patch_event list \<Rightarrow> prep_hash \<Rightarrow> bool" where
  "prep_told be h0 tr p \<longleftrightarrow> prep_pos p = trace_size tr \<and> hashoutput_f p = None \<and> prep_hashf p = hash_calls be (event_calls be tr) h0"

lemma hash_calls_one: "hash_calls be [Bytes d] = hashf_hash be d" "hash_calls be [Hole d] = hashf_sparse_hash be d"
  by (rule ext, simp split: bind_split)+

interpretation prep: patch_sink be "prep_callback be sparse_hashes n" "prep_told be h0" False "\<lambda>_ _. True"
  for be sparse_hashes n h0
  by unfold_locales
    (auto simp: prep_told_def prep_callback_def prep_next_bytes_def prep_sparse_bytes_def hash_calls_append hash_calls_one hole_note_def)

lemma event_calls_notes: "event_calls be (hole_notes p s) = map piece_of (hole_calls be p s)"
  by (cases s) (simp_all add: hole_notes_def hole_calls_def)

lemma block_scan_calls:
  "foldl block_event (p, s, tr) cs = (p', s', tr') \<Longrightarrow> event_calls be tr = map piece_of calls \<Longrightarrow>
   \<exists>calls'. foldl (scan_chunk be) (p, s, calls) cs = (p', s', calls') \<and> event_calls be tr' = map piece_of calls'"
proof (induction cs arbitrary: p s tr calls)
  case (Cons c cs)
  obtain q t u where e: "block_event (p, s, tr) c = (q, t, u)" by (metis prod_cases3)
  have "\<exists>calls1. scan_chunk be (p, s, calls) c = (q, t, calls1) \<and> event_calls be u = map piece_of calls1"
    using e Cons.prems(2) by (auto simp: sparse_blocksize_def c_checkpoint_dist_def event_calls_notes split: if_splits)
  then obtain calls1 where "scan_chunk be (p, s, calls) c = (q, t, calls1)" "event_calls be u = map piece_of calls1" by blast
  then show ?case using Cons.IH[of q t u calls1] Cons.prems(1) e by (simp del: block_event.simps scan_chunk.simps)
qed simp

lemma block_trace_pieces: "event_calls be (block_trace data) = file_pieces be data"
proof -
  define k where "k = roundDown (length data) sparse_blocksize"
  have k: "k \<le> length data" "k mod c_checkpoint_dist = 0" "length (drop k data) < c_checkpoint_dist"
    using roundDown_le[of "length data" sparse_blocksize] roundDown_mod[of "length data" sparse_blocksize]
      minus_roundDown[of "length data" sparse_blocksize] mod_less_divisor[OF block_pos, of "length data"]
    by (simp_all add: k_def sparse_blocksize_def c_checkpoint_dist_def)
  obtain p start tr where b: "block_scan (take k data) = (p, start, tr)" by (metis prod_cases3)
  have p: "p = k" using block_scan_size[OF b] k(1) by simp
  have "foldl block_event (0, None, []) (chunks_of c_checkpoint_dist (take k data)) = (k, start, tr)"
    using b p by (simp add: block_scan_def sparse_blocksize_def c_checkpoint_dist_def)
  then obtain calls where c: "scan_file be (take k data) = (k, start, calls)" "event_calls be tr = map piece_of calls"
    using block_scan_calls[of 0 None "[]" "chunks_of c_checkpoint_dist (take k data)" k start tr be "[]"] by (auto simp: scan_file_def)
  have bt: "block_trace data = tr @ hole_notes k start @ (if k < length data then [Data (drop k data)] else [])"
    unfolding block_trace_def Let_def k_def[symmetric] b p prod.case ..
  show ?thesis
  proof (cases "k < length data")
    case False
    then have "take k data = data" using k(1) by simp
    then have "file_pieces be data = map piece_of (calls @ hole_calls be k start)" using scan_pieces_ok(2)[OF c(1)] by simp
    then show ?thesis using bt False c(2) by (simp add: event_calls_notes)
  next
    case True
    have "scan_file be (take k data @ drop k data) = scan_chunk be (scan_file be (take k data)) (drop k data)"
      by (rule scan_snoc) (use k True in \<open>simp_all add: min_def\<close>)
    then have s: "scan_file be data = (k + length (drop k data), None, calls @ hole_calls be k start @ [Block (drop k data)])"
      using c(1) k(3) by simp
    show ?thesis using bt True c(2) scan_pieces_ok(2)[OF s] by (simp add: event_calls_notes hole_calls_def)
  qed
qed

lemma hash_with_patch_calls:
  assumes s: "patch_setup base fs ps basef patchf" and p: "hashoutput_f p = None" "prep_hashf p = Some h0"
  shows "\<exists>st. hash_with_patch be sparse_hashes n basef patchf None sparse p pt = Some (Inr st) \<and>
    (if sparse then prep_hashf (cbs st) = hash_calls be (file_pieces be (patched base fs ps)) h0
     else \<exists>tr. prep_hashf (cbs st) = hash_calls be (event_calls be tr) h0 \<and> trace_bytes base tr = patched base fs ps \<and> all_plain True tr)"
proof -
  let ?p = "p\<lparr>has_sparse_extents := False, prep_pos := 0\<rparr>"
  let ?pt = "pt\<lparr>cb := prep_callback be sparse_hashes n, cbs := ?p, host_be := be, require_unchanged := True, unchanged_align := 0, with_sparse := sparse\<rparr>"
  have go: "hash_with_patch be sparse_hashes n basef patchf None sparse p pt = ApplyPatch basef patchf None ?pt"
    using p(1) by (simp add: hash_with_patch_def)
  have t: "prep_told be h0 [] (cbs ?pt)" using p by (simp add: prep_told_def)
  have acc: "if with_sparse ?pt then prep.blocks_accepted else prep.plain_accepted base (require_unchanged ?pt)"
    by (simp add: prep.blocks_accepted_def prep.plain_accepted_def)
  have c: "cb ?pt = prep_callback be sparse_hashes n" "host_be ?pt = be" "unchanged_align ?pt = 0" "require_unchanged ?pt \<longrightarrow> \<not> False"
    "require_unchanged ?pt \<or> \<not> with_sparse ?pt" by simp_all
  obtain st where st: "ApplyPatch basef patchf None ?pt = Some (Inr st)"
    "if with_sparse ?pt then patch_sink.hears be (prep_callback be sparse_hashes n) (prep_told be h0) (block_trace (patched base fs ps)) st
     else \<exists>tr. patch_sink.hears be (prep_callback be sparse_hashes n) (prep_told be h0) tr st \<and> trace_bytes base tr = patched base fs ps \<and>
       all_plain (require_unchanged ?pt) tr"
    using prep.ApplyPatch_told[OF s c(1,2) t c(3-5) acc] by blast
  have "patch_sink.hears be (prep_callback be sparse_hashes n) (prep_told be h0) tr st \<Longrightarrow> prep_hashf (cbs st) = hash_calls be (event_calls be tr) h0" for tr
    by (simp add: prep.hears_def prep_told_def)
  then show ?thesis using go st by (auto simp: block_trace_pieces split: if_splits)
qed

lemma plain_events:
  "all_plain True tr \<Longrightarrow> trace_bytes base tr = content (event_calls be tr) \<and> hole_bytes (event_calls be tr) = None"
proof (induction tr rule: rev_induct)
  case (snoc e tr)
  then obtain d where e: "e = Data d" by (auto simp: all_plain_def)
  have "all_plain True tr" using snoc.prems by (simp add: all_plain_def)
  then show ?case using snoc.IH by (simp add: e trace_bytes_def hole_bytes_append)
qed (simp add: trace_bytes_def)

section \<open>Properties\<close>

lemma zero_extent_fits: "zero_extent data e \<Longrightarrow> extent_ok (int hash_bsize) e"
  by (simp add: zero_extent_def extent_ok_def)

lemma inner_zero:
  assumes "zero_extent data e" "has_block (int hash_bsize) e"
  shows "zero_extent data (inner_blocks (int hash_bsize) e)"
proof -
  define b where "b = int hash_bsize"
  have b: "0 < b" by (simp add: b_def hash_bsize_def)
  have o: "0 \<le> fst e" "fst e + snd e < 2 ^ 63 - b" "fst e + snd e \<le> int (length data)"
    "\<forall>i < length data. fst e \<le> int i \<and> int i < fst e + snd e \<longrightarrow> data ! i = 0"
    using assms(1) by (simp_all add: zero_extent_def b_def)
  have x: "0 \<le> first_block b e" "fst e \<le> first_block b e" "end_block b e \<le> fst e + snd e"
    using extent_bounds[OF zero_extent_fits[OF assms(1)]] b by (simp_all add: b_def)
  have lt: "first_block b e < end_block b e" using assms(2) by (simp add: has_block_def b_def)
  show ?thesis
    unfolding zero_extent_def b_def[symmetric] using x lt o by (auto simp: inner_blocks_def)
qed

lemma fs_delivers:
  assumes b: "0 < b"
  shows "list_all (extent_ok b) es \<Longrightarrow> delivers (FsExtents b es0) es (map (inner_blocks b) (filter (has_block b) es))"
proof (induction es)
  case Nil show ?case by (simp add: FsExtents_def)
next
  case (Cons e es)
  obtain off sz where e: "e = (off, sz)" by (cases e)
  have ok: "extent_ok b e" "list_all (extent_ok b) es" using Cons.prems by simp_all
  note n = fs_nextExtent_eq[OF b Cons.prems]
  show ?case
  proof (cases "has_block b e")
    case True
    then show ?thesis using Cons.IH[OF ok(2)] n by (simp add: FsExtents_def)
  next
    case False
    then have "fs_nextExtent b (e # es) = fs_nextExtent b es" using n fs_nextExtent_eq[OF b ok(2)] by simp
    then have "nextExtent_op (FsExtents b es0) (e # es) = nextExtent_op (FsExtents b es0) es" by (simp add: FsExtents_def)
    then have "delivers (FsExtents b es0) (e # es) zs = delivers (FsExtents b es0) es zs" for zs
      by (cases zs) simp_all
    then show ?thesis using Cons.IH[OF ok(2)] False by simp
  qed
qed

lemma calc_hash_sha:
  assumes "no_fault f" "fbytes f = data" "\<forall>e \<in> set es. zero_extent data e" "hash_ready be h0"
  shows "\<exists>st. hash_sha be (FsExtents (int hash_bsize) es) f (Some es) [] True h0 = Some (Inr st) \<and>
    hash_calls be (file_pieces be data) h0 = Some (sr_hash st)"
proof -
  have p: "0 < int hash_bsize" by (simp add: hash_bsize_def)
  have ok: "list_all (extent_ok (int hash_bsize)) es" using assms(3) zero_extent_fits by (auto simp: list_all_iff)
  have "delivers (FsExtents (int hash_bsize) es) (reset_op (FsExtents (int hash_bsize) es) es)
      (map (inner_blocks (int hash_bsize)) (filter (has_block (int hash_bsize)) es))"
    using fs_delivers[OF p ok] by (simp add: FsExtents_def)
  moreover have "\<forall>e \<in> set (map (inner_blocks (int hash_bsize)) (filter (has_block (int hash_bsize)) es)). zero_extent data e"
    using assms(3) inner_zero by auto
  ultimately have ex: "\<exists>es'. delivers (FsExtents (int hash_bsize) es) (reset_op (FsExtents (int hash_bsize) es) es) es' \<and> (\<forall>e \<in> set es'. zero_extent data e)"
    by blast
  then have "\<forall>it. Some es = Some it \<longrightarrow> (\<exists>es'. delivers (FsExtents (int hash_bsize) es) (reset_op (FsExtents (int hash_bsize) es) it) es' \<and>
      (\<forall>e \<in> set es'. zero_extent data e))" by simp
  from hash_sha_done[OF assms(1,2,4) this, of "[]"] show ?thesis unfolding sha_done_def by blast
qed

lemma calc_hash_tree:
  assumes "no_fault f" "\<forall>e \<in> set es. zero_extent (fbytes f) e" "length (buffer g) = 64"
  shows "calc_hash False g f es ''treehash'' = Some (Inr (tree_digest_of (fbytes f)))"
proof -
  obtain st where st: "hash_sha False (FsExtents (int hash_bsize) es) f (Some es) [] True (Tree (new_TreeHash False g)) = Some (Inr st)"
    "hash_calls False (file_pieces False (fbytes f)) (Tree (new_TreeHash False g)) = Some (sr_hash st)"
    using calc_hash_sha[OF assms(1) refl assms(2) new_tree_ready[OF assms(3)]] by blast
  obtain t t' where "sr_hash st = Tree t" "tree_finalize False t = Some (tree_digest_of (fbytes f), t')"
    using tree_pieces_digest[OF st(2) assms(3)] by blast
  then show ?thesis using st(1) by (simp add: calc_hash_def or_assert_def)
qed

lemma calc_hash_sha512:
  assumes "no_fault f" "\<forall>e \<in> set es. zero_extent (fbytes f) e"
  shows "calc_hash False g f es ''sha512-sparse'' = Some (Inr (sha512_digest_of (fbytes f)))"
proof -
  obtain st where st: "hash_sha False (FsExtents (int hash_bsize) es) f (Some es) [] True (Plain new_HashSha512) = Some (Inr st)"
    "hash_calls False (file_pieces False (fbytes f)) (Plain new_HashSha512) = Some (sr_hash st)"
    using calc_hash_sha[OF assms(1) refl assms(2) new_plain_ready] by blast
  obtain p where "sr_hash st = Plain p" "sha512_finalize False p = sha512_digest_of (fbytes f)"
    using plain_pieces_digest[OF st(2)] no_block_pieces
    by (auto simp: file_pieces_def content_pieces hole_bytes_pieces content_file_calls sha512_digest_of_def)
  then show ?thesis using st(1) by (simp add: calc_hash_def)
qed

lemma new_tree_start: "length (buffer g) = 64 \<Longrightarrow> hash_start (Tree (new_TreeHash out g))"
  by (rule new_hash_starts)

text \<open>
  C4: Client and server agree on the tree hash. The client hashes a file from the hashes of its blocks, the server
  from the bytes; the holes that the file systems report, the way blocks of zeros are found and the output
  object may differ. Whenever the client succeeds the server computes the same digest for a file with the same bytes. The holes reported
  to the server are extents of zeros in the file, at a position and of a size that are not negative and end a block before \<open>2 ^ 63\<close>.
\<close>

theorem client_server_hash_agree:
  assumes "chunk_setup cfg f hashoutput (Tree (new_TreeHash out g)) extents" "length (buffer g) = 64"
    and "build_chunk_hashs cfg f hashoutput copy hashinput (Tree (new_TreeHash out g)) extents = Some st"
    and "no_fault f'" "fbytes f' = fbytes f" "\<forall>e \<in> set es. zero_extent (fbytes f') e" "length (buffer g') = 64"
  shows "\<exists>t t' d. c_hash st = Tree t \<and> tree_finalize False t = Some (d, t') \<and> calc_hash False g' f' es ''treehash'' = Some (Inr d)"
proof -
  have "hash_view False (Tree (new_TreeHash out g)) (c_hash st) (file_calls False (fbytes f))"
    using runs_Some_post[OF chunk_setup_runs[OF assms(1)] assms(3)] by simp
  from tree_view_digest[OF this assms(2)]
  obtain t t' where "c_hash st = Tree t" "tree_finalize False t = Some (tree_digest_of (fbytes f), t')" by (auto simp: tree_digest_of_def)
  then show ?thesis using calc_hash_tree[OF assms(4,6,7)] assms(5) by auto
qed

theorem client_server_hash_agree_witness:
  "\<exists>st t t' d. build_chunk_hashs (example_cfg False) (example_file example_data) (example_file []) None None
      (Tree (new_TreeHash False example_mem)) [(0, 2 * c_checkpoint_dist)] = Some st \<and> c_hash st = Tree t \<and>
    tree_finalize False t = Some (d, t') \<and> calc_hash False example_mem (example_file example_data) [(0, 5)] ''treehash'' = Some (Inr d)"
proof -
  have m: "length (buffer example_mem) = 64" by (simp add: example_mem_def)
  note s = example_setup[OF new_hash_starts(1)[OF m, of False], of False "[]"]
  obtain st where st: "build_chunk_hashs (example_cfg False) (example_file example_data) (example_file []) None None
      (Tree (new_TreeHash False example_mem)) [(0, 2 * c_checkpoint_dist)] = Some st"
    using runs_ok[OF chunk_setup_runs[OF s, of None None]] example_no_faults[of "[]" None] by auto
  have z: "\<forall>e \<in> set [(0, 5)]. zero_extent (fbytes (example_file example_data)) e"
    by (auto simp: zero_extent_def example_fields example_data_def nth_append c_checkpoint_dist_def hash_bsize_def)
  from client_server_hash_agree[OF s m st example_no_fault refl z m] st show ?thesis by blast
qed

text \<open>
  C8: Hashing a patch. The server hashes a file that was sent as a patch without building it first: the digest is
  the one it computes for the patched file itself; and without the treatment of zeros it is the SHA-512 of the patched bytes. The holes
  reported for the patched file are as for \<open>calc_hash\<close> above: extents of zeros whose ends do not overflow.
\<close>

theorem patch_sha512_agree:
  assumes "patch_setup base fs ps basef patchf" "hashoutput_f p = None" "prep_hashf p = Some (Plain new_HashSha512)"
    and "no_fault f'" "fbytes f' = patched base fs ps" "\<forall>e \<in> set es. zero_extent (fbytes f') e"
  shows "\<exists>st h. hash_with_patch False sparse_hashes n basef patchf None sparse p pt = Some (Inr st) \<and>
    prep_hashf (cbs st) = Some (Plain h) \<and>
    (if sparse then calc_hash False g f' es ''sha512-sparse'' = Some (Inr (sha512_finalize False h))
     else sha512_finalize False h = sha512_of (patched base fs ps))"
proof -
  obtain st where st: "hash_with_patch False sparse_hashes n basef patchf None sparse p pt = Some (Inr st)"
    "if sparse then prep_hashf (cbs st) = hash_calls False (file_pieces False (patched base fs ps)) (Plain new_HashSha512)
     else \<exists>tr. prep_hashf (cbs st) = hash_calls False (event_calls False tr) (Plain new_HashSha512) \<and> trace_bytes base tr = patched base fs ps \<and> all_plain True tr"
    using hash_with_patch_calls[OF assms(1-3), of False sparse_hashes n sparse pt] by blast
  show ?thesis
  proof (cases sparse)
    case True
    obtain st' :: "(int \<times> int) list sha_run" where "hash_calls False (file_pieces False (fbytes f')) (Plain new_HashSha512) = Some (sr_hash st')"
      using calc_hash_sha[OF assms(4) refl assms(6) new_plain_ready[of False]] by blast
    then have h: "hash_calls False (file_pieces False (patched base fs ps)) (Plain new_HashSha512) = Some (sr_hash st')" using assms(5) by simp
    obtain q where "sr_hash st' = Plain q" "sha512_finalize False q = sha512_digest_of (fbytes f')"
      using plain_pieces_digest[OF h] no_block_pieces assms(5)
      by (auto simp: file_pieces_def content_pieces hole_bytes_pieces content_file_calls sha512_digest_of_def)
    then show ?thesis using st h True calc_hash_sha512[OF assms(4,6)] by simp
  next
    case False
    then obtain tr where tr: "prep_hashf (cbs st) = hash_calls False (event_calls False tr) (Plain new_HashSha512)"
      "trace_bytes base tr = patched base fs ps" "all_plain True tr" using st(2) by auto
    obtain h where h: "hash_calls False (event_calls False tr) (Plain new_HashSha512) = Some h"
      using plain_calls[OF no_block_events new_plain(1), of None False False tr] new_plain(2,3) by auto
    obtain q where "h = Plain q" "sha512_finalize False q = sha512_of (patched base fs ps)"
      using plain_pieces_digest[OF h no_block_events] plain_events[OF tr(3), of base False] tr(2) by auto
    then show ?thesis using st(1) tr(1) h False by simp
  qed
qed

definition example_prep :: prep_hash where
  "example_prep = \<lparr>prep_hashf = Some (Plain new_HashSha512), hashoutput_f = None, prep_pos = 7, prep_has_error = False,
     has_sparse_extents = True\<rparr>"

theorem patch_sha512_agree_witness:
  "\<exists>st h. hash_with_patch False [] 0 (example_file [1, 2, 3, 4]) (example_file (patch_bytes 5 [(1, [9]), (- 1, [8]), (4, [7])])) None False
      example_prep (new_ChunkPatcher False (prep_callback False [] 0) example_prep (example_file []) 5 []) = Some (Inr st) \<and>
    prep_hashf (cbs st) = Some (Plain h) \<and> sha512_finalize False h = sha512_of [1, 9, 3, 4, 7]"
proof -
  have s: "patch_setup [1, 2, 3, 4] 5 [(1, [9]), (- 1, [8]), (4, [7])] (example_file [1, 2, 3, 4])
      (example_file (patch_bytes 5 [(1, [9]), (- 1, [8]), (4, [7])]))"
    using example_no_fault by (simp add: patch_setup_def example_fields item_fits_def)
  have p: "patched [1, 2, 3, 4] 5 [(1, [9]), (- 1, [8]), (4, [7])] = [1, 9, 3, 4, 7]"
    by (simp add: patched_def)
  have h: "hashoutput_f example_prep = None" "prep_hashf example_prep = Some (Plain new_HashSha512)" by (simp_all add: example_prep_def)
  from patch_sha512_agree[OF s h example_no_fault, of "[1, 9, 3, 4, 7]" "[]" "[]" 0 False
      "new_ChunkPatcher False (prep_callback False [] 0) example_prep (example_file []) 5 []"]
  show ?thesis using p by (simp add: example_fields)
qed

end
