(* ===== verification/Block_Send.thy ===== *)
theory Block_Send
  imports Chunk_Patcher Wire_Data
begin

text \<open>
  The client's side of a block difference: requests for blocks as \<open>CClientThread::Handle_ID_BLOCK_REQUEST\<close> reads them and
  their answers by \<open>fileservplugin/ChunkSendThread.cpp\<close>. \<open>None\<close> is not returning; the left side of the sum is the return value
  \<open>false\<close> with what had been sent before, or any other return. The changed-block index (\<open>cbt_hash_file\<close>) is absent; waiting while the
  server is paused and log texts are left out.
\<close>

section \<open>Packet ids and sizes\<close>

definition ID_FILESIZE :: byte where "ID_FILESIZE = 1"
definition ID_FILESIZE_AND_EXTENTS :: byte where "ID_FILESIZE_AND_EXTENTS = 19"
definition ID_BASE_DIR_LOST :: byte where "ID_BASE_DIR_LOST = 2"
definition ID_READ_ERROR :: byte where "ID_READ_ERROR = 20"
definition ID_COULDNT_OPEN :: byte where "ID_COULDNT_OPEN = 0"
definition ID_BLOCK_REQUEST :: byte where "ID_BLOCK_REQUEST = 9"
definition ID_WHOLE_BLOCK :: byte where "ID_WHOLE_BLOCK = 13"
definition ID_UPDATE_CHUNK :: byte where "ID_UPDATE_CHUNK = 14"
definition ID_NO_CHANGE :: byte where "ID_NO_CHANGE = 15"
definition ID_BLOCK_HASH :: byte where "ID_BLOCK_HASH = 16"
definition ID_BLOCK_ERROR :: byte where "ID_BLOCK_ERROR = 18"

lemmas packet_ids = ID_FILESIZE_def ID_FILESIZE_AND_EXTENTS_def ID_BASE_DIR_LOST_def ID_READ_ERROR_def ID_COULDNT_OPEN_def
  ID_BLOCK_REQUEST_def ID_WHOLE_BLOCK_def ID_UPDATE_CHUNK_def ID_NO_CHANGE_def ID_BLOCK_HASH_def ID_BLOCK_ERROR_def

definition ERR_SEEKING_FAILED :: u32 where "ERR_SEEKING_FAILED = 0"
definition ERR_READING_FAILED :: u32 where "ERR_READING_FAILED = 1"

definition c_chunk_size :: nat where "c_chunk_size = 4096"
definition small_hash_size :: nat where "small_hash_size = 4"
definition big_hash_size :: nat where "big_hash_size = 16"
definition chunkhash_file_off :: nat where "chunkhash_file_off = 8"
definition chunkhash_single_size :: nat where
  "chunkhash_single_size = big_hash_size + small_hash_size * (c_checkpoint_dist div c_small_hash_dist)"

lemmas chunk_settings = c_chunk_size_def small_hash_size_def big_hash_size_def chunkhash_file_off_def chunkhash_single_size_def
  c_checkpoint_dist_def c_small_hash_dist_def

section \<open>Requests\<close>

text \<open>A request; the hashes of a block that is to be sent whole are not set.\<close>

record SChunk =
  startpos :: int
  transfer_all :: byte
  sent_big_hash :: "byte list"
  sent_small_hash :: "byte list"

definition Handle_ID_BLOCK_REQUEST :: "bool \<Rightarrow> crdata \<Rightarrow> SChunk option" where
  "Handle_ID_BLOCK_REQUEST be data =
     (case getInt64 be data of
        (None, data) \<Rightarrow> None
      | (Some spos, data) \<Rightarrow>
          case getChar data of
            (None, data) \<Rightarrow> None
          | (Some all, data) \<Rightarrow>
              let hs = drop (unat (streampos data)) (rd_data data); chunk = \<lparr>startpos = sint spos, transfer_all = all, sent_big_hash = [], sent_small_hash = []\<rparr>
              in if getLeft data = of_nat (big_hash_size + small_hash_size * (c_checkpoint_dist div c_small_hash_dist)) then
                   Some (chunk\<lparr>sent_big_hash := take big_hash_size hs,
                     sent_small_hash := take (small_hash_size * (c_checkpoint_dist div c_small_hash_dist)) (drop big_hash_size hs)\<rparr>)
                 else if all = 0 then None
                 else Some chunk)"

section \<open>The thread\<close>

text \<open>
  \<open>send_ok\<close> tells which calls of \<open>SendInt\<close> succeed, \<open>sys_error\<close> what \<open>getSystemErrorCode\<close> returns after the \<open>n\<close>-th
  operation on the file; \<open>sent_data\<close> is what went into the pipe.
\<close>

record chunk_sender =
  send_file :: "File option"
  curr_hash_size :: int
  curr_file_size :: int
  send_md5 :: MD5
  sent_data :: "byte list"
  sends :: nat
  send_ok :: "nat \<Rightarrow> bool"
  sys_error :: "nat \<Rightarrow> u32"
  pipe_shut :: bool

definition SendInt :: "byte list \<Rightarrow> chunk_sender \<Rightarrow> bool \<times> chunk_sender" where
  "SendInt buf s =
     (if buf = [] then (True, s\<lparr>pipe_shut := True\<rparr>)
      else if send_ok s (sends s) then (True, s\<lparr>sent_data := sent_data s @ buf, sends := Suc (sends s)\<rparr>)
      else (False, s\<lparr>sends := Suc (sends s)\<rparr>))"

definition getSystemErrorCode :: "File \<Rightarrow> chunk_sender \<Rightarrow> u32" where
  "getSystemErrorCode f s = sys_error s (ops f)"

text \<open>The error codes are sent as they are in memory.\<close>

definition sendError :: "bool \<Rightarrow> u32 \<Rightarrow> u32 \<Rightarrow> chunk_sender \<Rightarrow> bool \<times> chunk_sender" where
  "sendError be errorcode1 errorcode2 s = SendInt (ID_BLOCK_ERROR # mem_of be 4 errorcode1 @ mem_of be 4 errorcode2) s"

text \<open>The first thing sent for a file: its size, and the extents of its holes with their hash.\<close>

definition ext_mem :: "bool \<Rightarrow> (int \<times> int) list \<Rightarrow> byte list" where
  "ext_mem be es = concat (map (extent_bytes be) es)"

definition send_file_info :: "bool \<Rightarrow> MD5 \<Rightarrow> (int \<times> int) list \<Rightarrow> chunk_sender \<Rightarrow> (bool \<times> chunk_sender) option" where
  "send_file_info be garbage sparse_extents s =
     (let hd = le_bytes 8 (of_int (curr_file_size s) :: u64)
      in if sparse_extents = [] then Some (SendInt (ID_FILESIZE # hd) s)
         else
           let (ok, s) = SendInt (ID_FILESIZE_AND_EXTENTS # hd @ le_bytes 8 (of_nat (length sparse_extents) :: u64)) s
           in if \<not> ok then Some (False, s)
              else do { dig \<leftarrow> raw_digest_int (md5_finalize (md5_update (md5_init garbage) (ext_mem be sparse_extents)));
                        Some (SendInt (ext_mem be sparse_extents @ take 16 dig) s) })"

section \<open>A whole block\<close>

record whole_locals =
  w_r :: nat
  w_spos :: int
  off_sent :: bool
  w_readerr :: "u32 option"
  w_script_eof :: bool

text \<open>
  One turn of \<open>while (r < toread)\<close>. The bytes read go behind the header in \<open>chunk_buf\<close>; the first time the header is sent
  with them. A read error fills the rest with zeros. At the end of the file \<open>r\<close> is set and nothing is sent.
\<close>

definition whole_read :: "bool \<Rightarrow> byte list \<Rightarrow> nat \<Rightarrow> whole_locals \<Rightarrow> File \<Rightarrow> chunk_sender \<Rightarrow> chunk_sender + (whole_locals \<times> chunk_sender)" where
  "whole_read be header toread loc f s =
     (let (d, err, f) = File_Read_at (nat (w_spos loc)) (toread - w_r loc) f;
          loc = (if err then loc\<lparr>w_readerr := Some (getSystemErrorCode f s)\<rparr> else loc);
          d = (if err then d @ replicate (toread - w_r loc - length d) 0 else d);
          loc = loc\<lparr>w_spos := w_spos loc + int (length d)\<rparr>
      in if d = [] then
           let (size, f) = File_Size f
           in if size \<noteq> - 1 then
                Inr (loc\<lparr>w_script_eof := (w_script_eof loc \<or> curr_file_size s = - 1), w_r := toread\<rparr>, s\<lparr>send_file := Some f\<rparr>)
              else Inr (loc, s\<lparr>send_file := Some f\<rparr>)
         else
           let s = s\<lparr>send_file := Some f, send_md5 := md5_update (send_md5 s) d\<rparr>;
               (ok, s) = SendInt ((if off_sent loc then [] else header) @ d) s
           in if \<not> ok then Inl s else Inr (loc\<lparr>off_sent := True, w_r := w_r loc + length d\<rparr>, s))"

partial_function (option) whole_fill ::
  "bool \<Rightarrow> byte list \<Rightarrow> nat \<Rightarrow> whole_locals \<Rightarrow> chunk_sender \<Rightarrow> (chunk_sender + (whole_locals \<times> chunk_sender)) option" where
  "whole_fill be header toread loc s =
     (if w_r loc < toread then
        case send_file s of
          None \<Rightarrow> None
        | Some f \<Rightarrow> and_then (Some (whole_read be header toread loc f s)) (\<lambda>r. whole_fill be header toread (fst r) (snd r))
      else Some (Inr (loc, s)))"

partial_function (option) whole_loop ::
  "bool \<Rightarrow> byte list \<Rightarrow> nat \<Rightarrow> whole_locals \<Rightarrow> chunk_sender \<Rightarrow> (chunk_sender + (whole_locals \<times> chunk_sender)) option" where
  "whole_loop be header blockleft loc s =
     and_then (if 0 < blockleft then whole_fill be header (min blockleft c_chunk_size) (loc\<lparr>w_r := 0\<rparr>) s else Some (Inr (loc\<lparr>w_r := 0\<rparr>, s)))
       (\<lambda>r. let blockleft = blockleft - w_r (fst r)
            in if w_r (fst r) = c_chunk_size \<and> 0 < blockleft then whole_loop be header blockleft (fst r) (snd r) else Some (Inr r))"

definition block_left :: "SChunk \<Rightarrow> chunk_sender \<Rightarrow> nat" where
  "block_left chunk s =
     (if curr_file_size s \<le> startpos chunk \<and> 0 < curr_file_size s then 0
      else if curr_file_size s - startpos chunk < int c_checkpoint_dist \<and> 0 < curr_file_size s
      then nat (curr_file_size s - startpos chunk) else c_checkpoint_dist)"

definition hash_packet :: "int \<Rightarrow> byte list \<Rightarrow> byte list" where
  "hash_packet pos dig = ID_BLOCK_HASH # le_bytes 8 (of_int pos :: u64) @ dig"

definition data_header :: "byte \<Rightarrow> int \<Rightarrow> nat \<Rightarrow> byte list" where
  "data_header ident pos n = ident # le_bytes 8 (of_int pos :: u64) @ le_bytes 4 (of_nat n :: u32)"

text \<open>The end of both branches: a script that has ended closes the pipe.\<close>

definition send_last :: "byte list \<Rightarrow> bool \<Rightarrow> chunk_sender \<Rightarrow> bool \<times> chunk_sender" where
  "send_last packet script_eof s =
     (let (ok, s) = SendInt packet s
      in if \<not> ok then (False, s) else if script_eof then (False, snd (SendInt [] s)) else (True, s))"

definition send_whole :: "bool \<Rightarrow> SChunk \<Rightarrow> chunk_sender \<Rightarrow> (bool \<times> chunk_sender) option" where
  "send_whole be chunk s =
     (let blockleft = block_left chunk s; header = data_header ID_WHOLE_BLOCK (startpos chunk) blockleft;
          loc = \<lparr>w_r = 0, w_spos = startpos chunk, off_sent = False, w_readerr = None, w_script_eof = False\<rparr>
      in Option.bind (whole_loop be header blockleft loc (s\<lparr>send_md5 := md5_init (send_md5 s)\<rparr>))
           (\<lambda>res. case res of
              Inl s \<Rightarrow> Some (False, s)
            | Inr (loc, s) \<Rightarrow>
                case w_readerr loc of
                  Some code \<Rightarrow> Some (sendError be ERR_READING_FAILED code s)
                | None \<Rightarrow>
                    let s = s\<lparr>send_md5 := md5_finalize (send_md5 s)\<rparr>
                    in do { dig \<leftarrow> raw_digest_int (send_md5 s);
                            Some (send_last (hash_packet (startpos chunk) (take big_hash_size dig)) (w_script_eof loc) s) }))"

section \<open>A block with changes\<close>

text \<open>
  \<open>u_blk\<close> is what \<open>chunk_buf\<close> has behind its first \<open>c_chunk_padding\<close> bytes. The header of an update is written over the bytes
  before the chunk, which are restored afterwards.
\<close>

record update_locals =
  u_blk :: "byte list"
  u_spos :: int
  curr_pos :: int
  small_hash_num :: nat
  next_smallhash :: nat
  c_adler :: u32
  sent_update :: bool
  u_script_eof :: bool

definition chunk_to_read :: "int \<Rightarrow> chunk_sender \<Rightarrow> nat" where
  "chunk_to_read cpos s =
     (if curr_file_size s \<le> cpos \<and> 0 < curr_file_size s then 0
      else if curr_file_size s - cpos < int c_chunk_size \<and> 0 < curr_file_size s then nat (curr_file_size s - cpos)
      else c_chunk_size)"

text \<open>
  \<open>while (r < to_read)\<close>: the bytes in \<open>cptr\<close>, how many of them were read (\<open>real_r\<close>), the next position, whether a script
  ended; the left side is a read error.
\<close>

partial_function (option) update_fill ::
  "nat \<Rightarrow> byte list \<Rightarrow> nat \<Rightarrow> int \<Rightarrow> bool \<Rightarrow> File \<Rightarrow> int \<Rightarrow> (File + (byte list \<times> nat \<times> int \<times> bool \<times> File)) option" where
  "update_fill to_read c real_r spos eof f fsize =
     (if length c < to_read then
        let (d, err, f) = File_Read_at (nat spos) (to_read - length c) f; spos = spos + int (length d)
        in if err then Some (Inl f)
           else if d = [] then
             let (size, f) = File_Size f
             in if size \<noteq> - 1 then
                  if fsize = - 1 then Some (Inr (c, real_r, spos, True, f))
                  else update_fill to_read (c @ replicate (to_read - length c) 0) real_r spos eof f fsize
                else update_fill to_read c real_r spos eof f fsize
           else update_fill to_read (c @ d) (real_r + length d) spos eof f fsize
      else Some (Inr (c, real_r, spos, eof, f)))"

definition read_piece :: "nat \<Rightarrow> int \<Rightarrow> bool \<Rightarrow> File \<Rightarrow> int \<Rightarrow> (File + (byte list \<times> nat \<times> int \<times> bool \<times> File)) option" where
  "read_piece to_read spos eof f fsize =
     (let (d, err, f) = File_Read_at (nat spos) to_read f; spos = spos + int (length d)
      in if err then Some (Inl f) else update_fill to_read d (length d) spos eof f fsize)"

text \<open>The comparison with the checksum of the server, and the update.\<close>

definition compare_piece ::
  "bool \<Rightarrow> SChunk \<Rightarrow> byte list \<Rightarrow> update_locals \<Rightarrow> chunk_sender \<Rightarrow> chunk_sender + (update_locals \<times> chunk_sender)" where
  "compare_piece be chunk c loc s =
     (let adler_other = little_endian32 be (of_mem be (take 4 (drop (small_hash_size * small_hash_num loc) (sent_small_hash chunk))));
          next = loc\<lparr>c_adler := urb_adler32 0 None, small_hash_num := Suc (small_hash_num loc),
                      next_smallhash := next_smallhash loc + c_small_hash_dist\<rparr>
      in if c_adler loc \<noteq> adler_other \<or> curr_hash_size s < curr_pos loc + int (length c) then
           let (ok, s) = SendInt (data_header ID_UPDATE_CHUNK (curr_pos loc) (length c) @ c) s
           in if \<not> ok then Inl s else Inr (next\<lparr>sent_update := True\<rparr>, s)
         else Inr (next, s))"

definition piece_hashed ::
  "bool \<Rightarrow> SChunk \<Rightarrow> byte list \<Rightarrow> update_locals \<Rightarrow> chunk_sender \<Rightarrow> chunk_sender + (update_locals \<times> chunk_sender)" where
  "piece_hashed be chunk c loc s =
     (let s = s\<lparr>send_md5 := md5_update (send_md5 s) c\<rparr>;
          loc = loc\<lparr>c_adler := urb_adler32 (c_adler loc) (Some c), u_blk := u_blk loc @ c\<rparr>
      in case (if length (u_blk loc) = next_smallhash loc \<or> length c \<noteq> c_chunk_size then compare_piece be chunk c loc s else Inr (loc, s)) of
           Inl s \<Rightarrow> Inl s
         | Inr (loc, s) \<Rightarrow> Inr (loc\<lparr>curr_pos := curr_pos loc + int (length c)\<rparr>, s))"

partial_function (option) update_loop ::
  "bool \<Rightarrow> SChunk \<Rightarrow> update_locals \<Rightarrow> chunk_sender \<Rightarrow> ((bool \<times> chunk_sender) + (update_locals \<times> chunk_sender)) option" where
  "update_loop be chunk loc s =
     (case send_file s of
        None \<Rightarrow> None
      | Some f \<Rightarrow>
          Option.bind (read_piece (chunk_to_read (curr_pos loc) s) (u_spos loc) (u_script_eof loc) f (curr_file_size s))
            (\<lambda>res. case res of
               Inl f \<Rightarrow> Some (Inl (sendError be ERR_READING_FAILED (getSystemErrorCode f s) (s\<lparr>send_file := Some f\<rparr>)))
             | Inr (c, real_r, spos, eof, f) \<Rightarrow>
                 case piece_hashed be chunk c (loc\<lparr>u_spos := spos, u_script_eof := eof\<rparr>) (s\<lparr>send_file := Some f\<rparr>) of
                   Inl s \<Rightarrow> Some (Inl (False, s))
                 | Inr (loc, s) \<Rightarrow>
                     if real_r = c_chunk_size \<and> length (u_blk loc) < c_checkpoint_dist then update_loop be chunk loc s
                     else Some (Inr (loc, s))))"

definition finish_updates :: "bool \<Rightarrow> SChunk \<Rightarrow> update_locals \<Rightarrow> chunk_sender \<Rightarrow> (bool \<times> chunk_sender) option" where
  "finish_updates be chunk loc s =
     (let s = s\<lparr>send_md5 := md5_finalize (send_md5 s)\<rparr>
      in do { dig \<leftarrow> raw_digest_int (send_md5 s);
              Some (if \<not> sent_update loc \<and> take big_hash_size dig \<noteq> sent_big_hash chunk then
                      let (ok, s) = SendInt (data_header ID_WHOLE_BLOCK (startpos chunk) (length (u_blk loc)) @ u_blk loc) s
                      in if \<not> ok then (False, s)
                         else send_last (hash_packet (startpos chunk) (take big_hash_size dig)) (u_script_eof loc) s
                    else if \<not> sent_update loc then
                      send_last (ID_NO_CHANGE # le_bytes 8 (of_int (startpos chunk) :: u64)) (u_script_eof loc) s
                    else send_last (hash_packet (startpos chunk) (take big_hash_size dig)) (u_script_eof loc) s) })"

definition send_updates :: "bool \<Rightarrow> SChunk \<Rightarrow> chunk_sender \<Rightarrow> (bool \<times> chunk_sender) option" where
  "send_updates be chunk s =
     Option.bind
       (update_loop be chunk
          \<lparr>u_blk = [], u_spos = startpos chunk, curr_pos = startpos chunk, small_hash_num = 0, next_smallhash = c_small_hash_dist,
            c_adler = urb_adler32 0 None, sent_update = False, u_script_eof = False\<rparr>
          (s\<lparr>send_md5 := md5_init (send_md5 s)\<rparr>))
       (\<lambda>res. case res of Inl r \<Rightarrow> Some r | Inr (loc, s) \<Rightarrow> finish_updates be chunk loc s)"

definition sendChunk :: "bool \<Rightarrow> SChunk \<Rightarrow> chunk_sender \<Rightarrow> (bool \<times> chunk_sender) option" where
  "sendChunk be chunk s =
     (case send_file s of
        None \<Rightarrow> Some (False, s)
      | Some f \<Rightarrow>
          let (sought, f) = File_Seek (startpos chunk) f; s = s\<lparr>send_file := Some f\<rparr>
          in if \<not> sought then Some (sendError be ERR_SEEKING_FAILED (getSystemErrorCode f s) s)
             else if transfer_all chunk \<noteq> 0 then send_whole be chunk s else send_updates be chunk s)"

end
