(* ===== verification/Chunk_Client.thy ===== *)
theory Chunk_Client
  imports Block_Send
begin

text \<open>
  The server's side of a block difference: \<open>idrivebmrcommon/fileclient/FileClientChunked.cpp\<close>. The bytes that arrive
  run through a state machine, which writes a patch (or the file itself) and the hash file of the new file, and checks
  the hash of every block. \<open>None\<close> is not returning: a loop without end, a failed assertion or a read through a null pointer.
  Statistics, time and log texts are left out.
\<close>

section \<open>The object\<close>

definition ERR_CONTINUE :: u32 where "ERR_CONTINUE = 0"
definition ERR_SUCCESS :: u32 where "ERR_SUCCESS = 1"
definition ERR_TIMEOUT :: u32 where "ERR_TIMEOUT = 2"
definition ERR_CANNOT_OPEN_FILE :: u32 where "ERR_CANNOT_OPEN_FILE = 3"
definition ERR_ERROR :: u32 where "ERR_ERROR = 6"
definition ERR_BASE_DIR_LOST :: u32 where "ERR_BASE_DIR_LOST = 7"
definition ERR_HASH :: u32 where "ERR_HASH = 8"
definition ERR_INT_ERROR :: u32 where "ERR_INT_ERROR = 9"
definition ERR_CONN_LOST :: u32 where "ERR_CONN_LOST = 10"
definition ERR_ERRORCODES :: u32 where "ERR_ERRORCODES = 11"
definition ERR_READ_ERROR :: u32 where "ERR_READ_ERROR = 12"

lemmas err_codes = ERR_CONTINUE_def ERR_SUCCESS_def ERR_TIMEOUT_def ERR_CANNOT_OPEN_FILE_def ERR_ERROR_def ERR_BASE_DIR_LOST_def
  ERR_HASH_def ERR_INT_ERROR_def ERR_CONN_LOST_def ERR_ERRORCODES_def ERR_READ_ERROR_def

definition fc_buffersize :: nat where "fc_buffersize = 32768"

definition LLONG_MAX :: int where "LLONG_MAX = 2 ^ 63 - 1"

datatype chunked_state = CS_ID_FIRST | CS_ID_ACC | CS_BLOCK | CS_CHUNK | CS_SPARSE_EXTENTS

text \<open>
  What happens on the second connection, one entry for each turn of the loop that waits for it: a number of bytes at most that arrive,
  nothing, an error, or the time limit without data. Its end is the limit on the whole loop. \<open>Attempt\<close>: a try to open a
  connection, and whether the first request could be sent over it.
\<close>

datatype pipe_event = Arrive nat | Quiet | Broken | Stalled

datatype attempt = No_Connection | Connection bool

text \<open>
  What does not change: the byte order, the callback for a full disk, what the other side sends over the second
  connection when it is asked for the block at a position, whether \<open>sparse_extents_f\<close> is not null, and a new temporary file.
\<close>

record client_config =
  cl_be :: bool
  nofreespace :: "(nat \<Rightarrow> bool) option"
  ofb_answer :: "int \<Rightarrow> byte list"
  want_extents :: bool
  temp_file :: File
  patch_mode :: bool

text \<open>
  The object. \<open>pending_chunks\<close> has the entries of the map, \<open>bufptr\<close> is the rest of the data buffer, \<open>patch_buf\<close> the first \<open>patch_buf_pos\<close> bytes of the array; a pending
  chunk has its two hashes in one list. \<open>next_client\<close> is the client queued behind this one, with its \<open>initial_bytes\<close>.
  \<open>ofb_pipe\<close> holds what is to arrive over the second connection.
\<close>

record chunk_client =
  m_file :: File
  fc_file_pos :: int
  m_patchfile :: File
  patchfile_pos :: int
  m_chunkhashes :: File
  m_hashoutput :: "File option"
  last_chunk_patches :: "int list"
  last_patch_output_fsize :: int
  patch_buf :: "byte list"
  patch_buf_start :: int
  next_chunk :: int
  num_chunks :: int
  remote_filesize :: int
  num_total_chunks :: int
  curr_output_fsize :: int
  queued_chunks :: nat
  cs_state :: chunked_state
  curr_id :: byte
  need_bytes :: nat
  total_need_bytes :: nat
  packet_buf :: "byte list"
  packet_buf_off :: nat
  whole_block_remaining :: nat
  hash_for_whole_block :: bool
  bufptr :: "byte list"
  remaining_bufptr_bytes :: nat
  bufptr_bytes_done :: nat
  chunk_start :: int
  block_for_chunk_start :: int
  md5_hash :: MD5
  adler_hash :: u32
  adler_remaining :: nat
  block_pos :: nat
  retval :: u32
  getfile_done :: bool
  pending_chunks :: "(int \<times> byte list) list"
  reconnected :: bool
  hashfilesize :: int
  errorcode1 :: u32
  errorcode2 :: u32
  reconnect_tries :: int
  attempts :: "attempt list"
  next_client :: "byte list option"
  ofb_pipe :: "byte list option"
  ofb_events :: "pipe_event list"
  ofb_attempts :: "bool list"
  fc_sparse_extents_f :: "File option"
  fc_extent_iterator :: "ExtentIterator option"
  curr_sparse_extent :: "(int \<times> int) option"

section \<open>Writing\<close>

text \<open>\<open>do ... while (written < bsize && (rc > 0 || tries > 0))\<close>\<close>

function write_repeat :: "(nat \<Rightarrow> bool) option \<Rightarrow> byte list \<Rightarrow> nat \<Rightarrow> nat \<Rightarrow> File \<Rightarrow> File" where
  "write_repeat space buf wpos tries f =
     (let (rc, err, f) = File_Write (drop wpos buf) f
      in if rc = 0 then
           if (case space of None \<Rightarrow> False | Some handle_not_enough_space \<Rightarrow> \<not> handle_not_enough_space (ops f)) then f
           else if wpos < length buf \<and> 0 < tries - 1 then write_repeat space buf wpos (tries - 1) f else f
         else if wpos + rc < length buf then write_repeat space buf (wpos + rc) tries f else f)"
  by pat_completeness auto

termination write_repeat
  by (relation "measure (\<lambda>(space, buf, wpos, tries, f). (length buf - wpos) + tries)") auto

declare write_repeat.simps [simp del]

definition fc_writeFileRepeat :: "client_config \<Rightarrow> File \<Rightarrow> byte list \<Rightarrow> File" where
  "fc_writeFileRepeat cfg f buf = write_repeat (nofreespace cfg) buf 0 50 f"

definition patch_write :: "client_config \<Rightarrow> byte list \<Rightarrow> chunk_client \<Rightarrow> chunk_client" where
  "patch_write cfg buf c = c\<lparr>m_patchfile := fc_writeFileRepeat cfg (m_patchfile c) buf\<rparr>"

definition patch_seek :: "int \<Rightarrow> chunk_client \<Rightarrow> chunk_client" where
  "patch_seek pos c = c\<lparr>m_patchfile := snd (File_Seek pos (m_patchfile c))\<rparr>"

text \<open>Writing to \<open>m_hashoutput\<close> unless it is null: at its position, or at a position that is sought first.\<close>

definition hash_write :: "client_config \<Rightarrow> byte list \<Rightarrow> chunk_client \<Rightarrow> chunk_client" where
  "hash_write cfg buf c = c\<lparr>m_hashoutput := map_option (\<lambda>f. fc_writeFileRepeat cfg f buf) (m_hashoutput c)\<rparr>"

definition hash_seek :: "int \<Rightarrow> chunk_client \<Rightarrow> chunk_client" where
  "hash_seek pos c = c\<lparr>m_hashoutput := map_option (\<lambda>f. snd (File_Seek pos f)) (m_hashoutput c)\<rparr>"

definition block_slot :: "int \<Rightarrow> int" where
  "block_slot pos = int chunkhash_file_off + pos sdiv int c_checkpoint_dist * int chunkhash_single_size"

definition writePatchInt :: "client_config \<Rightarrow> int \<Rightarrow> byte list \<Rightarrow> chunk_client \<Rightarrow> chunk_client" where
  "writePatchInt cfg pos buf c =
     (let pd = le_bytes 8 (of_int pos :: u64) @ le_bytes 4 (of_nat (length buf) :: u32);
          c = patch_write cfg buf (patch_write cfg pd c);
          c = (if last_chunk_patches c = [] then c\<lparr>last_patch_output_fsize := curr_output_fsize c\<rparr> else c)
      in c\<lparr>last_chunk_patches := last_chunk_patches c @ [patchfile_pos c],
           patchfile_pos := patchfile_pos c + int (length pd + length buf),
           curr_output_fsize := max (curr_output_fsize c) (pos + int (length buf))\<rparr>)"

definition writePatch :: "client_config \<Rightarrow> int \<Rightarrow> byte list \<Rightarrow> bool \<Rightarrow> chunk_client \<Rightarrow> chunk_client" where
  "writePatch cfg pos buf is_last c =
     (if length buf \<le> c_chunk_size - length (patch_buf c) \<and>
         (patch_buf c = [] \<or> pos = patch_buf_start c + int (length (patch_buf c))) then
        let c = c\<lparr>patch_buf_start := (if patch_buf c = [] then pos else patch_buf_start c), patch_buf := patch_buf c @ buf\<rparr>
        in if is_last \<or> length (patch_buf c) = c_chunk_size \<or> buf = []
           then (writePatchInt cfg (patch_buf_start c) (patch_buf c) c)\<lparr>patch_buf := []\<rparr> else c
      else
        let c = (if patch_buf c \<noteq> [] then (writePatchInt cfg (patch_buf_start c) (patch_buf c) c)\<lparr>patch_buf := []\<rparr> else c)
        in if \<not> is_last \<and> buf \<noteq> [] \<and> length buf < c_chunk_size then c\<lparr>patch_buf_start := pos, patch_buf := buf\<rparr>
           else writePatchInt cfg pos buf c)"

definition writePatchSize :: "client_config \<Rightarrow> int \<Rightarrow> chunk_client \<Rightarrow> chunk_client" where
  "writePatchSize cfg remote_fs c =
     (let c = patch_write cfg (le_bytes 8 (of_int remote_fs :: u64)) (patch_seek 0 c)
      in if patchfile_pos c = 0 then c\<lparr>patchfile_pos := 8\<rparr> else patch_seek (patchfile_pos c) c)"

definition invalidate_at :: "client_config \<Rightarrow> int \<Rightarrow> chunk_client \<Rightarrow> chunk_client" where
  "invalidate_at cfg pos c = patch_write cfg (le_bytes 8 (- 1 :: u64)) (patch_seek pos c)"

definition invalidateLastPatches :: "client_config \<Rightarrow> chunk_client \<Rightarrow> chunk_client" where
  "invalidateLastPatches cfg c =
     (let c = (if patch_mode cfg then
                 let c = (if last_chunk_patches c \<noteq> [] then c\<lparr>curr_output_fsize := last_patch_output_fsize c\<rparr> else c);
                     c = fold (invalidate_at cfg) (last_chunk_patches c) c
                 in (patch_seek (patchfile_pos c) c)\<lparr>patch_buf := []\<rparr>
               else c)
      in c\<lparr>last_chunk_patches := []\<rparr>)"

text \<open>The data of a chunk goes to the patch or into the file.\<close>

definition write_data :: "client_config \<Rightarrow> byte list \<Rightarrow> bool \<Rightarrow> chunk_client \<Rightarrow> chunk_client" where
  "write_data cfg buf is_last c =
     (if \<not> patch_mode cfg then
        let c = c\<lparr>m_file := fc_writeFileRepeat cfg (m_file c) buf, fc_file_pos := fc_file_pos c + int (length buf)\<rparr>
        in c\<lparr>curr_output_fsize := max (curr_output_fsize c) (fc_file_pos c)\<rparr>
      else
        let c = writePatch cfg (fc_file_pos c) buf is_last c in c\<lparr>fc_file_pos := fc_file_pos c + int (length buf)\<rparr>)"

definition calcTotalChunks :: "chunk_client \<Rightarrow> chunk_client" where
  "calcTotalChunks c =
     c\<lparr>num_total_chunks := remote_filesize c sdiv int c_checkpoint_dist +
         (if remote_filesize c smod int c_checkpoint_dist \<noteq> 0 then 1 else 0)\<rparr>"

definition get_hashdata_size :: "int \<Rightarrow> int" where
  "get_hashdata_size hfs =
     (if hfs = - 1 then int chunkhash_file_off
      else
        let d = int c_checkpoint_dist; nchunks = hfs sdiv d; sz = int chunkhash_file_off + nchunks * int chunkhash_single_size; r = hfs smod d
        in if r \<noteq> 0 then
             sz + int big_hash_size + r sdiv int c_chunk_size * int small_hash_size +
               (if r smod int c_chunk_size \<noteq> 0 then int small_hash_size else 0)
           else sz)"

section \<open>Connections\<close>

text \<open>\<open>requestOfbChunk\<close> and \<open>constructOutOfBandPipe\<close>; a new connection has nothing to deliver yet.\<close>

definition constructOutOfBandPipe :: "chunk_client \<Rightarrow> bool \<times> chunk_client" where
  "constructOutOfBandPipe c =
     (case ofb_attempts c of
        ok # as \<Rightarrow> (ok, c\<lparr>ofb_pipe := (if ok then Some [] else None), ofb_attempts := as\<rparr>)
      | [] \<Rightarrow> (False, c\<lparr>ofb_pipe := None\<rparr>))"

definition requestOfbChunk :: "client_config \<Rightarrow> int \<Rightarrow> chunk_client \<Rightarrow> chunk_client" where
  "requestOfbChunk cfg chunk_pos c =
     invalidateLastPatches cfg
       (c\<lparr>ofb_pipe := map_option (\<lambda>p. p @ ofb_answer cfg chunk_pos) (ofb_pipe c), cs_state := CS_ID_FIRST, remaining_bufptr_bytes := 0,
          packet_buf_off := 0\<rparr>)"

text \<open>
  \<open>Reconnect\<close>: a number of attempts until one succeeds; its end is the time limit. The blocks that are pending will be
  requested again, from the first of them on.
\<close>

definition first_pending :: "chunk_client \<Rightarrow> int" where
  "first_pending c =
     fold (\<lambda>it n. if fst it sdiv int c_checkpoint_dist < n then fst it sdiv int c_checkpoint_dist else n) (pending_chunks c) (next_chunk c)"

definition reset_connection :: "chunk_client \<Rightarrow> chunk_client" where
  "reset_connection c =
     c\<lparr>remote_filesize := - 1, num_total_chunks := 0, queued_chunks := 0, block_for_chunk_start := - 1, cs_state := CS_ID_FIRST,
       patch_buf := [], md5_hash := md5_init (md5_hash c), reconnected := True\<rparr>"

fun connect :: "client_config \<Rightarrow> bool \<Rightarrow> attempt list \<Rightarrow> chunk_client \<Rightarrow> bool \<times> chunk_client" where
  "connect cfg rerequest [] c = (False, c\<lparr>attempts := []\<rparr>)"
| "connect cfg rerequest (No_Connection # as) c = connect cfg rerequest as c"
| "connect cfg rerequest (Connection request_sent # as) c =
     (let c = reset_connection c; f = snd (File_Seek 0 (m_chunkhashes c)); (d, err, f) = File_Read 8 f; c = c\<lparr>m_chunkhashes := f\<rparr>
      in if length d \<noteq> 8 then (False, c\<lparr>attempts := as\<rparr>)
         else if rerequest then
           if \<not> request_sent then connect cfg rerequest as c
           else
             let c = invalidateLastPatches cfg (c\<lparr>next_chunk := first_pending c\<rparr>)
             in (True, c\<lparr>pending_chunks := [], attempts := as\<rparr>)
         else (True, c\<lparr>pending_chunks := [], attempts := as\<rparr>))"

definition fc_Reconnect :: "client_config \<Rightarrow> bool \<Rightarrow> chunk_client \<Rightarrow> bool \<times> chunk_client" where
  "fc_Reconnect cfg rerequest c =
     (let tries = reconnect_tries c; c = c\<lparr>next_client := None, reconnect_tries := tries - 1\<rparr>
      in if tries \<le> 0 then (False, c) else connect cfg rerequest (attempts c) c)"

text \<open>\<open>if (!allow_reconnect || !Reconnect(...))\<close> and what follows.\<close>

definition reconnect_or_fail :: "client_config \<Rightarrow> bool \<Rightarrow> bool \<Rightarrow> chunk_client \<Rightarrow> chunk_client" where
  "reconnect_or_fail cfg allow_reconnect rerequest c =
     (let (ok, c) = (if allow_reconnect then fc_Reconnect cfg rerequest c else (False, c))
      in if \<not> ok then c\<lparr>getfile_done := True, retval := ERR_CONN_LOST\<rparr> else c)"

section \<open>Reading for a hash\<close>

partial_function (option) hash_upto_loop :: "int \<Rightarrow> chunk_client \<Rightarrow> chunk_client option" where
  "hash_upto_loop new_chunk_start c =
     (let toread = min fc_buffersize (unat (of_int (new_chunk_start - chunk_start c) :: u32)); (d, err, f) = File_Read toread (m_file c);
          c = c\<lparr>m_file := f\<rparr>
      in if length d < toread then Some (c\<lparr>chunk_start := new_chunk_start\<rparr>)
         else
           let c = c\<lparr>chunk_start := chunk_start c + int (length d), md5_hash := md5_update (md5_hash c) d\<rparr>
           in if chunk_start c < new_chunk_start then hash_upto_loop new_chunk_start c else Some c)"

definition block_of :: "int \<Rightarrow> int" where
  "block_of pos = pos sdiv int c_checkpoint_dist * int c_checkpoint_dist"

definition Hash_upto :: "int \<Rightarrow> chunk_client \<Rightarrow> (bool \<times> chunk_client) option" where
  "Hash_upto new_chunk_start c =
     (let block_start = block_of new_chunk_start; new_block = (block_start \<noteq> block_for_chunk_start c);
          c = (if new_block then c\<lparr>block_for_chunk_start := block_start, md5_hash := md5_init (md5_hash c), last_chunk_patches := [],
                 patch_buf := [], hash_for_whole_block := False, chunk_start := block_start\<rparr> else c)
      in if chunk_start c \<noteq> new_chunk_start then
           let (sought, f) = File_Seek (chunk_start c) (m_file c); c = c\<lparr>m_file := f\<rparr>
           in do { c \<leftarrow> (if sought then hash_upto_loop new_chunk_start c else Some (c\<lparr>chunk_start := new_chunk_start\<rparr>));
                   Some (new_block, c\<lparr>fc_file_pos := new_chunk_start\<rparr>) }
         else Some (new_block, c))"

text \<open>\<open>while (chunk_start < dest_pos)\<close>; the result tells whether the whole block must be loaded.\<close>

function hash_rest :: "int \<Rightarrow> chunk_client \<Rightarrow> bool \<times> chunk_client" where
  "hash_rest dest_pos c =
     (if chunk_start c < dest_pos then
        let toread = min fc_buffersize (unat (of_int (dest_pos - chunk_start c) :: u32)); (d, err, f) = File_Read toread (m_file c);
            c = c\<lparr>m_file := f\<rparr>
        in if d = [] then (True, c\<lparr>fc_file_pos := fc_file_pos c + (dest_pos - chunk_start c), chunk_start := dest_pos\<rparr>)
           else hash_rest dest_pos
             (c\<lparr>fc_file_pos := fc_file_pos c + int (length d), chunk_start := chunk_start c + int (length d), md5_hash := md5_update (md5_hash c) d\<rparr>)
      else (False, c))"
  by pat_completeness auto

termination hash_rest
  by (relation "measure (\<lambda>(dest_pos, c). nat (dest_pos - chunk_start c))") (auto simp: Let_def)

declare hash_rest.simps [simp del]

definition block_end :: "int \<Rightarrow> chunk_client \<Rightarrow> int" where
  "block_end pos c = min (pos + int c_checkpoint_dist) (remote_filesize c)"

definition finish_block_hash :: "int \<Rightarrow> chunk_client \<Rightarrow> bool \<times> chunk_client" where
  "finish_block_hash cpos c =
     (let (load_whole_block, c) =
            (if cpos = block_for_chunk_start c \<and> block_for_chunk_start c \<noteq> - 1 then
               let dest_pos = block_end cpos c; (sought, f) = File_Seek (chunk_start c) (m_file c); c = c\<lparr>m_file := f\<rparr>
               in if sought then hash_rest dest_pos c
                  else (True, c\<lparr>fc_file_pos := fc_file_pos c + (dest_pos - chunk_start c), chunk_start := dest_pos\<rparr>)
             else (False, c))
      in (load_whole_block, c\<lparr>block_for_chunk_start := - 1, md5_hash := md5_finalize (md5_hash c)\<rparr>))"

text \<open>\<open>find\<close>, \<open>insert\<close> and \<open>erase\<close> of the map; a block that is done is no longer pending.\<close>

definition pending_find :: "int \<Rightarrow> chunk_client \<Rightarrow> byte list option" where
  "pending_find pos c = map_of (pending_chunks c) pos"

definition pending_insert :: "int \<Rightarrow> byte list \<Rightarrow> chunk_client \<Rightarrow> chunk_client" where
  "pending_insert pos hs c = (if pending_find pos c = None then c\<lparr>pending_chunks := pending_chunks c @ [(pos, hs)]\<rparr> else c)"

definition chunk_received :: "int \<Rightarrow> chunk_client \<Rightarrow> chunk_client" where
  "chunk_received pos c = c\<lparr>pending_chunks := filter (\<lambda>it. fst it \<noteq> pos) (pending_chunks c), queued_chunks := queued_chunks c - 1\<rparr>"

definition accept_block :: "client_config \<Rightarrow> int \<Rightarrow> byte list \<Rightarrow> chunk_client \<Rightarrow> chunk_client option" where
  "accept_block cfg cpos hash_from_client c =
     (let c = hash_write cfg (take big_hash_size hash_from_client) (hash_seek (block_slot cpos) c);
          c = c\<lparr>curr_output_fsize := max (curr_output_fsize c) (block_end cpos c)\<rparr>
      in if pending_find cpos c = None then None else Some (chunk_received cpos c))"

text \<open>The block is loaded over the second connection, by \<open>load\<close>; the position in the data buffer is kept meanwhile.\<close>

definition load_instead ::
  "client_config \<Rightarrow> (int \<Rightarrow> chunk_client \<Rightarrow> (u32 \<times> chunk_client) option) \<Rightarrow> int \<Rightarrow> chunk_client \<Rightarrow> chunk_client option" where
  "load_instead cfg load cpos c =
     Option.bind (load cpos ((invalidateLastPatches cfg c)\<lparr>remaining_bufptr_bytes := 0, packet_buf_off := 0, cs_state := CS_ID_FIRST\<rparr>))
       (\<lambda>(rc, d).
         let d = d\<lparr>remaining_bufptr_bytes := remaining_bufptr_bytes c, bufptr := bufptr c, packet_buf_off := packet_buf_off c,
                    bufptr_bytes_done := bufptr_bytes_done c, packet_buf := packet_buf c\<rparr>
         in Some (if rc \<noteq> ERR_SUCCESS then d\<lparr>retval := rc, getfile_done := True\<rparr> else d))"

definition Hash_finalize ::
  "client_config \<Rightarrow> (int \<Rightarrow> chunk_client \<Rightarrow> (u32 \<times> chunk_client) option) \<Rightarrow> int \<Rightarrow> byte list \<Rightarrow> chunk_client \<Rightarrow> chunk_client option" where
  "Hash_finalize cfg load cpos hash_from_client c =
     (let (load_whole_block, c) = (if \<not> hash_for_whole_block c then finish_block_hash cpos c else (False, c))
      in Option.bind (raw_digest_int (md5_hash c))
           (\<lambda>dig. Option.bind
             (if load_whole_block \<or> take big_hash_size hash_from_client \<noteq> take big_hash_size dig then
                if \<not> hash_for_whole_block c then load_instead cfg load cpos c
                else Some (c\<lparr>retval := ERR_HASH, getfile_done := True\<rparr>)
              else accept_block cfg cpos hash_from_client c)
             (\<lambda>c. Some (c\<lparr>last_chunk_patches := []\<rparr>))))"

text \<open>The hashes of a block as far as the file goes.\<close>

definition missing_chunks :: "int \<Rightarrow> chunk_client \<Rightarrow> nat" where
  "missing_chunks block_start c = nat ((block_start + int c_checkpoint_dist - remote_filesize c) sdiv int c_chunk_size)"

definition Hash_nochange :: "client_config \<Rightarrow> int \<Rightarrow> chunk_client \<Rightarrow> chunk_client" where
  "Hash_nochange cfg cpos c =
     (case pending_find cpos c of
        Some hs \<Rightarrow>
          let c = hash_seek (block_slot cpos) c;
              c = (if cpos + int c_checkpoint_dist \<le> remote_filesize c then
                     (hash_write cfg (take chunkhash_single_size hs) c)\<lparr>curr_output_fsize := max (curr_output_fsize c) (cpos + int c_checkpoint_dist)\<rparr>
                   else
                     (hash_write cfg (take (chunkhash_single_size - missing_chunks cpos c * small_hash_size) hs) c)
                       \<lparr>curr_output_fsize := max (curr_output_fsize c) (remote_filesize c)\<rparr>)
          in chunk_received cpos c
      | None \<Rightarrow> c\<lparr>retval := ERR_ERROR, getfile_done := True\<rparr>)"

section \<open>The state machine\<close>

text \<open>A field of a packet; a packet is only looked at when all of it is there, so the getters of \<open>CRData\<close> do not fail.\<close>

definition pkt_int64 :: "bool \<Rightarrow> nat \<Rightarrow> byte list \<Rightarrow> int" where
  "pkt_int64 be i msg = sint (little_endian64 be (of_mem be (take 8 (drop i msg))))"

definition pkt_uint :: "bool \<Rightarrow> nat \<Rightarrow> byte list \<Rightarrow> u32" where
  "pkt_uint be i msg = little_endian32 be (of_mem be (take 4 (drop i msg)))"

definition packet_size :: "byte \<Rightarrow> nat option" where
  "packet_size ident =
     (if ident = ID_FILESIZE then Some 8 else if ident = ID_FILESIZE_AND_EXTENTS then Some 16
      else if ident = ID_BASE_DIR_LOST \<or> ident = ID_READ_ERROR \<or> ident = ID_COULDNT_OPEN then Some 0
      else if ident = ID_WHOLE_BLOCK \<or> ident = ID_UPDATE_CHUNK then Some 12
      else if ident = ID_NO_CHANGE then Some 8
      else if ident = ID_BLOCK_HASH then Some (8 + big_hash_size)
      else if ident = ID_BLOCK_ERROR then Some 8 else None)"

definition State_First :: "chunk_client \<Rightarrow> chunk_client" where
  "State_First c =
     (let ident = hd (bufptr c); c = c\<lparr>curr_id := ident, bufptr := tl (bufptr c), remaining_bufptr_bytes := remaining_bufptr_bytes c - 1\<rparr>;
          c = (case packet_size ident of
                 Some n \<Rightarrow> c\<lparr>need_bytes := n\<rparr>
               | None \<Rightarrow> c\<lparr>need_bytes := 0, getfile_done := True, retval := ERR_ERROR\<rparr>)
      in c\<lparr>packet_buf_off := 0, total_need_bytes := need_bytes c\<rparr>)"

text \<open>The file size. The left side ends the handling of the packet.\<close>

definition set_filesize :: "client_config \<Rightarrow> bool \<Rightarrow> int \<Rightarrow> chunk_client \<Rightarrow> chunk_client + chunk_client" where
  "set_filesize cfg allow_reconnect new_remote_filesize c =
     (if 0 \<le> new_remote_filesize then
        if remote_filesize c \<noteq> - 1 \<and> remote_filesize c < new_remote_filesize \<and> next_client c \<noteq> None then
          Inl (reconnect_or_fail cfg allow_reconnect True c)
        else if remote_filesize c \<noteq> - 1 \<and> new_remote_filesize < remote_filesize c then
          let c = calcTotalChunks (c\<lparr>remote_filesize := new_remote_filesize\<rparr>)
          in if num_total_chunks c \<le> next_chunk c then Inl (reconnect_or_fail cfg allow_reconnect True c) else Inr c
        else
          let c = calcTotalChunks (c\<lparr>remote_filesize := new_remote_filesize\<rparr>)
          in Inr (c\<lparr>m_hashoutput := map_option (\<lambda>f.
               let max_hashoutput_size = get_hashdata_size new_remote_filesize; (size, f) = File_Size f
               in if max_hashoutput_size < size then snd (File_Resize max_hashoutput_size f) else f) (m_hashoutput c)\<rparr>)
      else Inr (calcTotalChunks (c\<lparr>remote_filesize := LLONG_MAX\<rparr>)))"

definition got_filesize :: "client_config \<Rightarrow> bool \<Rightarrow> int \<Rightarrow> int \<Rightarrow> chunk_client \<Rightarrow> chunk_client + chunk_client" where
  "got_filesize cfg allow_reconnect new_remote_filesize num_extents c =
     (case set_filesize cfg allow_reconnect new_remote_filesize c of
        Inl c \<Rightarrow> Inl c
      | Inr c \<Rightarrow>
          let c = calcTotalChunks (c\<lparr>cs_state := CS_ID_FIRST\<rparr>);
              c = (if patch_mode cfg then writePatchSize cfg (remote_filesize c) c else c)
          in if remote_filesize c = 0 \<and> num_extents = 0 then Inl (c\<lparr>getfile_done := True, retval := ERR_SUCCESS\<rparr>)
             else Inr (hash_write cfg (le_bytes 8 (of_int (remote_filesize c) :: u64)) (hash_seek 0 c)))"

text \<open>\<open>FileClient::writeFileRetry\<close>.\<close>

partial_function (option) writeFileRetry :: "byte list \<Rightarrow> File \<Rightarrow> (bool \<times> File) option" where
  "writeFileRetry buf f =
     (if buf = [] then Some (True, f)
      else let (rc, has_error, f) = File_Write buf f in if has_error then Some (False, f) else writeFileRetry (drop rc buf) f)"

definition start_extents :: "client_config \<Rightarrow> bool \<Rightarrow> int \<Rightarrow> chunk_client \<Rightarrow> chunk_client option" where
  "start_extents cfg extents num_extents c =
     (let c = c\<lparr>cs_state := CS_SPARSE_EXTENTS, whole_block_remaining := unat (of_int (num_extents * 16 + int big_hash_size) :: u32),
                md5_hash := md5_init (md5_hash c)\<rparr>
      in if \<not> extents then Some c
         else
           let c = (if fc_sparse_extents_f c \<noteq> None then c\<lparr>fc_extent_iterator := None, curr_sparse_extent := None\<rparr> else c)
           in Option.bind (writeFileRetry (mem_of (cl_be cfg) 8 (of_int num_extents :: u64)) (temp_file cfg))
                (\<lambda>(ok, f). let c = c\<lparr>fc_sparse_extents_f := Some f\<rparr>
                  in Some (if ok then c else c\<lparr>retval := ERR_ERROR, getfile_done := True\<rparr>)))"

definition acc_filesize ::
  "client_config \<Rightarrow> bool \<Rightarrow> bool \<Rightarrow> bool \<Rightarrow> byte list \<Rightarrow> chunk_client \<Rightarrow> chunk_client option" where
  "acc_filesize cfg ignore_filesize allow_reconnect extents msg c =
     (let new_remote_filesize = pkt_int64 (cl_be cfg) 0 msg;
          num_extents = (if curr_id c = ID_FILESIZE_AND_EXTENTS then pkt_int64 (cl_be cfg) 8 msg else 0)
      in case (if ignore_filesize then Inr c else got_filesize cfg allow_reconnect new_remote_filesize num_extents c) of
           Inl c \<Rightarrow> Some c
         | Inr c \<Rightarrow> if 0 < num_extents then start_extents cfg extents num_extents c else Some c)"

definition acc_gone :: "client_config \<Rightarrow> bool \<Rightarrow> u32 \<Rightarrow> chunk_client \<Rightarrow> chunk_client" where
  "acc_gone cfg allow_reconnect err c =
     (let c = c\<lparr>getfile_done := True, retval := err\<rparr>
      in if remote_filesize c \<noteq> - 1 then reconnect_or_fail cfg allow_reconnect False c else c)"

definition acc_whole_block :: "client_config \<Rightarrow> byte list \<Rightarrow> chunk_client \<Rightarrow> chunk_client option" where
  "acc_whole_block cfg msg c =
     (let block_start = pkt_int64 (cl_be cfg) 0 msg; c = c\<lparr>chunk_start := block_start\<rparr>
      in if pending_find block_start c = None then None
         else
           let c = c\<lparr>fc_file_pos := block_start\<rparr>; (sought, f) = File_Seek block_start (m_file c); c = c\<lparr>m_file := f\<rparr>
           in if \<not> sought then None
              else
                let c = c\<lparr>block_for_chunk_start := block_start, whole_block_remaining := unat (pkt_uint (cl_be cfg) 8 msg), cs_state := CS_BLOCK,
                          md5_hash := md5_init (md5_hash c), hash_for_whole_block := False, adler_hash := urb_adler32 0 None,
                          adler_remaining := c_chunk_size, block_pos := 0\<rparr>
                in Some (hash_write cfg (replicate big_hash_size 0) (hash_seek (block_slot block_start) c)))"

definition acc_update_chunk :: "client_config \<Rightarrow> byte list \<Rightarrow> chunk_client \<Rightarrow> chunk_client option" where
  "acc_update_chunk cfg msg c =
     Option.bind (Hash_upto (pkt_int64 (cl_be cfg) 0 msg) c)
       (\<lambda>(new_block, c).
         let c = c\<lparr>adler_remaining := unat (pkt_uint (cl_be cfg) 8 msg), fc_file_pos := chunk_start c\<rparr>; block_start = block_of (chunk_start c)
         in case pending_find block_start c of
              None \<Rightarrow> None
            | Some hs \<Rightarrow>
                let c = (if new_block then
                           hash_write cfg
                             (take (if remote_filesize c < block_start + int c_checkpoint_dist
                                    then chunkhash_single_size - missing_chunks block_start c * small_hash_size else chunkhash_single_size) hs)
                             (hash_seek (block_slot (chunk_start c)) c)
                         else c);
                    c = c\<lparr>m_file := snd (File_Seek (chunk_start c) (m_file c))\<rparr>;
                    chunknum = unat (of_int (chunk_start c smod int c_checkpoint_dist sdiv int c_chunk_size) :: u32);
                    c = hash_seek (block_slot block_start + int (big_hash_size + chunknum * small_hash_size)) c
                in Some (c\<lparr>cs_state := (if 0 < adler_remaining c then CS_CHUNK else CS_ID_FIRST), adler_hash := urb_adler32 0 None\<rparr>))"

definition acc_block_error :: "client_config \<Rightarrow> bool \<Rightarrow> byte list \<Rightarrow> chunk_client \<Rightarrow> chunk_client" where
  "acc_block_error cfg allow_reconnect msg c =
     acc_gone cfg allow_reconnect ERR_ERRORCODES
       (c\<lparr>errorcode1 := pkt_uint (cl_be cfg) 0 msg, errorcode2 := pkt_uint (cl_be cfg) 4 msg\<rparr>)"

text \<open>The packet in the data buffer, or what has been accumulated of it with what is in the buffer.\<close>

definition acc_packet ::
  "client_config \<Rightarrow> bool \<Rightarrow> bool \<Rightarrow> bool \<Rightarrow> (int \<Rightarrow> chunk_client \<Rightarrow> (u32 \<times> chunk_client) option) \<Rightarrow> byte list \<Rightarrow> chunk_client \<Rightarrow> chunk_client option" where
  "acc_packet cfg ignore_filesize allow_reconnect extents load msg c =
     (let ident = curr_id c
      in if ident = ID_FILESIZE \<or> ident = ID_FILESIZE_AND_EXTENTS then acc_filesize cfg ignore_filesize allow_reconnect extents msg c
         else if ident = ID_BASE_DIR_LOST then Some (acc_gone cfg allow_reconnect ERR_BASE_DIR_LOST c)
         else if ident = ID_COULDNT_OPEN then Some (acc_gone cfg allow_reconnect ERR_CANNOT_OPEN_FILE c)
         else if ident = ID_READ_ERROR then Some (acc_gone cfg allow_reconnect ERR_READ_ERROR c)
         else if ident = ID_WHOLE_BLOCK then acc_whole_block cfg msg c
         else if ident = ID_UPDATE_CHUNK then acc_update_chunk cfg msg c
         else if ident = ID_NO_CHANGE then Some ((Hash_nochange cfg (pkt_int64 (cl_be cfg) 0 msg) c)\<lparr>cs_state := CS_ID_FIRST\<rparr>)
         else if ident = ID_BLOCK_HASH then
           Option.bind (Hash_finalize cfg load (pkt_int64 (cl_be cfg) 0 msg) (drop 8 msg) c) (\<lambda>c. Some (c\<lparr>cs_state := CS_ID_FIRST\<rparr>))
         else if ident = ID_BLOCK_ERROR then Some (acc_block_error cfg allow_reconnect msg c)
         else Some c)"

definition State_Acc ::
  "client_config \<Rightarrow> bool \<Rightarrow> bool \<Rightarrow> bool \<Rightarrow> (int \<Rightarrow> chunk_client \<Rightarrow> (u32 \<times> chunk_client) option) \<Rightarrow> chunk_client \<Rightarrow> chunk_client option" where
  "State_Acc cfg ignore_filesize allow_reconnect extents load c =
     (if need_bytes c \<le> remaining_bufptr_bytes c then
        let new = take (need_bytes c) (bufptr c);
            c' = (if cs_state c = CS_ID_FIRST then c else c\<lparr>packet_buf := put_bytes (packet_buf c) (packet_buf_off c) new\<rparr>);
            msg = (if cs_state c = CS_ID_FIRST then new else take (total_need_bytes c) (packet_buf c'))
        in if cs_state c \<noteq> CS_ID_FIRST \<and> 24 < packet_buf_off c + need_bytes c then None
           else acc_packet cfg ignore_filesize allow_reconnect extents load msg
                  (c'\<lparr>bufptr_bytes_done := bufptr_bytes_done c + need_bytes c, remaining_bufptr_bytes := remaining_bufptr_bytes c - need_bytes c\<rparr>)
      else if 24 < packet_buf_off c + remaining_bufptr_bytes c then None
      else
        let n = remaining_bufptr_bytes c
        in Some (c\<lparr>packet_buf := put_bytes (packet_buf c) (packet_buf_off c) (take n (bufptr c)), packet_buf_off := packet_buf_off c + n,
                   need_bytes := need_bytes c - n, cs_state := CS_ID_ACC, bufptr_bytes_done := bufptr_bytes_done c + n,
                   remaining_bufptr_bytes := 0\<rparr>))"

text \<open>The checksums of a whole block.\<close>

function adler_loop :: "client_config \<Rightarrow> byte list \<Rightarrow> chunk_client \<Rightarrow> chunk_client" where
  "adler_loop cfg d c =
     (if d = [] then c
      else
        let n = min (adler_remaining c) (length d);
            c = c\<lparr>adler_hash := urb_adler32 (adler_hash c) (Some (take n d)), adler_remaining := adler_remaining c - n\<rparr>;
            c = (if adler_remaining c = 0 \<or> whole_block_remaining c = 0 then
                   (hash_write cfg (le_bytes 4 (adler_hash c)) c)\<lparr>adler_hash := urb_adler32 0 None, adler_remaining := c_chunk_size\<rparr>
                 else c)
        in adler_loop cfg (drop n d) (c\<lparr>block_pos := block_pos c + n\<rparr>))"
  by pat_completeness auto

termination adler_loop
  by (relation "measure (\<lambda>(cfg, d, c). 2 * length d + (if adler_remaining c = 0 then 1 else 0))")
    (auto simp: Let_def hash_write_def c_chunk_size_def)

declare adler_loop.simps [simp del]

definition State_Block :: "client_config \<Rightarrow> chunk_client \<Rightarrow> chunk_client option" where
  "State_Block cfg c =
     (let rbytes = min (remaining_bufptr_bytes c) (whole_block_remaining c); d = take rbytes (bufptr c);
          c = c\<lparr>remaining_bufptr_bytes := remaining_bufptr_bytes c - rbytes, bufptr_bytes_done := bufptr_bytes_done c + rbytes,
                whole_block_remaining := whole_block_remaining c - rbytes, md5_hash := md5_update (md5_hash c) d\<rparr>;
          c = write_data cfg d (whole_block_remaining c = 0) c;
          c = adler_loop cfg d (c\<lparr>chunk_start := chunk_start c + int rbytes\<rparr>)
      in if whole_block_remaining c = 0 then
           let c = c\<lparr>md5_hash := md5_finalize (md5_hash c), hash_for_whole_block := True\<rparr>
           in do { dig \<leftarrow> raw_digest_int (md5_hash c);
                   Some ((hash_write cfg (take big_hash_size dig) (hash_seek (block_slot (block_for_chunk_start c)) c))\<lparr>cs_state := CS_ID_FIRST\<rparr>) }
         else Some c)"

definition State_Chunk :: "client_config \<Rightarrow> chunk_client \<Rightarrow> chunk_client" where
  "State_Chunk cfg c =
     (let rbytes = min (remaining_bufptr_bytes c) (adler_remaining c); d = take rbytes (bufptr c);
          c = c\<lparr>adler_remaining := adler_remaining c - rbytes, chunk_start := chunk_start c + int rbytes\<rparr>;
          c = (if 0 < rbytes then
                 let c = c\<lparr>adler_hash := urb_adler32 (adler_hash c) (Some d), md5_hash := md5_update (md5_hash c) d\<rparr>;
                     c = write_data cfg d (adler_remaining c = 0) c
                 in c\<lparr>remaining_bufptr_bytes := remaining_bufptr_bytes c - rbytes, bufptr_bytes_done := bufptr_bytes_done c + rbytes\<rparr>
               else c)
      in if adler_remaining c = 0 then (hash_write cfg (le_bytes 4 (adler_hash c)) c)\<lparr>cs_state := CS_ID_FIRST\<rparr> else c)"

definition finish_extents :: "client_config \<Rightarrow> File \<Rightarrow> chunk_client \<Rightarrow> chunk_client option" where
  "finish_extents cfg f c =
     (let (size, f) = File_Size f; f = snd (File_Seek (size - 16) f); (received_hash, err, f) = File_Read 16 f
      in do { dig \<leftarrow> raw_digest_int (md5_hash c);
              let c = (if take 16 dig \<noteq> received_hash then c\<lparr>retval := ERR_HASH, getfile_done := True\<rparr> else c);
              let (ext, it) = iter_nextExtent (cl_be cfg) (new_ExtentIterator (Some f) 1);
              Some (c\<lparr>fc_sparse_extents_f := Some f, fc_extent_iterator := Some it, curr_sparse_extent := ext\<rparr>) })"

definition State_SparseExtents :: "client_config \<Rightarrow> bool \<Rightarrow> chunk_client \<Rightarrow> chunk_client option" where
  "State_SparseExtents cfg extents c =
     (let c = (if big_hash_size < whole_block_remaining c then
                 c\<lparr>md5_hash := md5_update (md5_hash c)
                     (take (min (remaining_bufptr_bytes c) (whole_block_remaining c - big_hash_size)) (bufptr c))\<rparr> else c);
          rbytes = min (remaining_bufptr_bytes c) (whole_block_remaining c)
      in do { c \<leftarrow> (if extents then
                      case fc_sparse_extents_f c of
                        None \<Rightarrow> None
                      | Some f \<Rightarrow> Option.bind (writeFileRetry (take rbytes (bufptr c)) f)
                          (\<lambda>(ok, f). let c = c\<lparr>fc_sparse_extents_f := Some f\<rparr>
                            in Some (if ok then c else c\<lparr>retval := ERR_HASH, getfile_done := True\<rparr>))
                    else Some c);
              let c = c\<lparr>remaining_bufptr_bytes := remaining_bufptr_bytes c - rbytes, bufptr_bytes_done := bufptr_bytes_done c + rbytes,
                        whole_block_remaining := whole_block_remaining c - rbytes\<rparr>;
              if whole_block_remaining c = 0 then
                do { let c = c\<lparr>md5_hash := md5_finalize (md5_hash c)\<rparr>;
                     c \<leftarrow> (if extents then case fc_sparse_extents_f c of None \<Rightarrow> None | Some f \<Rightarrow> finish_extents cfg f c else Some c);
                     Some (c\<lparr>cs_state := CS_ID_FIRST\<rparr>) }
              else Some c })"

section \<open>Handling data\<close>

definition state_step ::
  "client_config \<Rightarrow> bool \<Rightarrow> bool \<Rightarrow> bool \<Rightarrow> (int \<Rightarrow> chunk_client \<Rightarrow> (u32 \<times> chunk_client) option) \<Rightarrow> chunk_client \<Rightarrow> chunk_client option" where
  "state_step cfg ignore_filesize allow_reconnect extents load c =
     (case cs_state c of
        CS_ID_FIRST \<Rightarrow> State_Acc cfg ignore_filesize allow_reconnect extents load (State_First c)
      | CS_ID_ACC \<Rightarrow> State_Acc cfg ignore_filesize allow_reconnect extents load c
      | CS_BLOCK \<Rightarrow> State_Block cfg c
      | CS_CHUNK \<Rightarrow> Some (State_Chunk cfg c)
      | CS_SPARSE_EXTENTS \<Rightarrow> State_SparseExtents cfg extents c)"

text \<open>What the loop does after a state: what is returned, if anything.\<close>

definition all_received :: "chunk_client \<Rightarrow> bool" where
  "all_received c \<longleftrightarrow> remote_filesize c \<noteq> - 1 \<and> 0 < remote_filesize c \<and> num_total_chunks c \<le> next_chunk c \<and> pending_chunks c = []"

definition after_state :: "bool \<Rightarrow> chunk_client \<Rightarrow> u32 option \<times> chunk_client" where
  "after_state ignore_filesize c =
     (let c = c\<lparr>bufptr := drop (bufptr_bytes_done c) (bufptr c)\<rparr>;
          done = (\<not> ignore_filesize \<and> (all_received c \<or> getfile_done c));
          c = (if done \<and> (\<not> getfile_done c \<or> retval c = ERR_BASE_DIR_LOST \<or> retval c = ERR_CANNOT_OPEN_FILE \<or> retval c = ERR_SUCCESS)
                  \<and> 0 < remaining_bufptr_bytes c
               then c\<lparr>next_client := map_option (\<lambda>_. take (remaining_bufptr_bytes c) (bufptr c)) (next_client c)\<rparr> else c)
      in (if done \<and> \<not> getfile_done c then Some ERR_SUCCESS
          else if getfile_done c then Some (retval c)
          else if reconnected c then Some ERR_CONTINUE else None, c))"

text \<open>
  The two loops that call each other: the one of \<open>handle_data\<close> over a buffer, and the one of \<open>loadChunkOutOfBand\<close> until the
  block has arrived.
\<close>

datatype client_loop = Handle bool bool bool | Load int

definition start_handle :: "byte list \<Rightarrow> chunk_client \<Rightarrow> chunk_client" where
  "start_handle buf c = c\<lparr>reconnected := False, bufptr := buf, remaining_bufptr_bytes := length buf\<rparr>"

definition start_load :: "client_config \<Rightarrow> (chunk_client \<Rightarrow> (u32 \<times> chunk_client) option) \<Rightarrow> int \<Rightarrow> chunk_client \<Rightarrow> (u32 \<times> chunk_client) option" where
  "start_load cfg loop chunk_pos c =
     (let (ok, c) = (if ofb_pipe c = None then constructOutOfBandPipe c else (True, c))
      in if \<not> ok then Some (ERR_CONN_LOST, c) else loop (requestOfbChunk cfg chunk_pos c))"

definition load_again ::
  "client_config \<Rightarrow> u32 \<Rightarrow> (chunk_client \<Rightarrow> (u32 \<times> chunk_client) option) \<Rightarrow> int \<Rightarrow> chunk_client \<Rightarrow> (u32 \<times> chunk_client) option" where
  "load_again cfg err loop chunk_pos c =
     (let (ok, c) = constructOutOfBandPipe c in if \<not> ok then Some (err, c) else loop (requestOfbChunk cfg chunk_pos c))"

definition load_event ::
  "client_config \<Rightarrow> (chunk_client \<Rightarrow> (u32 \<times> chunk_client) option) \<Rightarrow> (chunk_client \<Rightarrow> (u32 \<times> chunk_client) option) \<Rightarrow>
   pipe_event \<Rightarrow> int \<Rightarrow> chunk_client \<Rightarrow> (u32 \<times> chunk_client) option" where
  "load_event cfg handle loop ev chunk_pos c =
     (case ev of
        Arrive n \<Rightarrow>
          (case ofb_pipe c of
             None \<Rightarrow> None
           | Some p \<Rightarrow>
               let buf = take (min n fc_buffersize) p
               in if buf = [] then loop c
                  else Option.bind (handle (start_handle buf (c\<lparr>ofb_pipe := Some (drop (length buf) p)\<rparr>)))
                    (\<lambda>r. if fst r \<noteq> ERR_CONTINUE then Some r else loop (snd r)))
      | Quiet \<Rightarrow> loop c
      | Broken \<Rightarrow> load_again cfg ERR_CONN_LOST loop chunk_pos c
      | Stalled \<Rightarrow> load_again cfg ERR_TIMEOUT loop chunk_pos c)"

lemma State_Acc_mono [partial_function_mono]:
  assumes "\<And>pos c. mono_option (\<lambda>f. load f pos c)"
  shows "mono_option (\<lambda>f. State_Acc cfg ig al ext (load f) c)"
proof -
  have l: "mono_option (\<lambda>f. load_instead cfg (load f) pos c)" for pos c
    unfolding load_instead_def by (intro bind_mono assms option.const_mono)
  have h: "mono_option (\<lambda>f. Hash_finalize cfg (load f) pos hs c)" for pos hs c
    unfolding Hash_finalize_def Let_def split_beta by (intro bind_mono option.const_mono partial_function_mono l)
  have "mono_option (\<lambda>f. acc_packet cfg ig al ext (load f) msg c)" for msg c
    unfolding acc_packet_def Let_def by (intro bind_mono option.const_mono partial_function_mono h)
  then show ?thesis unfolding State_Acc_def Let_def by (intro partial_function_mono option.const_mono)
qed

lemma state_step_mono [partial_function_mono]:
  assumes "\<And>pos c. mono_option (\<lambda>f. load f pos c)"
  shows "mono_option (\<lambda>f. state_step cfg ig al ext (load f) c)"
  unfolding state_step_def by (cases "cs_state c") (simp_all add: State_Acc_mono[OF assms] option.const_mono)

lemma start_load_mono [partial_function_mono]:
  assumes "\<And>c. mono_option (\<lambda>f. loop f c)"
  shows "mono_option (\<lambda>f. start_load cfg (loop f) pos c)"
  unfolding start_load_def Let_def split_beta by (intro partial_function_mono option.const_mono assms)

lemma load_event_mono [partial_function_mono]:
  assumes "\<And>c. mono_option (\<lambda>f. handle f c)" "\<And>c. mono_option (\<lambda>f. loop f c)"
  shows "mono_option (\<lambda>f. load_event cfg (handle f) (loop f) ev pos c)"
proof -
  have a: "mono_option (\<lambda>f. load_again cfg err (loop f) pos c)" for err c
    unfolding load_again_def Let_def split_beta by (intro partial_function_mono option.const_mono assms)
  show ?thesis
  proof (cases ev)
    case (Arrive n)
    show ?thesis
    proof (cases "ofb_pipe c")
      case (Some p)
      then show ?thesis
        unfolding load_event_def Arrive Let_def pipe_event.case Some option.case
        by (intro bind_mono partial_function_mono option.const_mono assms)
    qed (simp add: load_event_def Arrive option.const_mono)
  qed (simp_all add: load_event_def assms a)
qed

text \<open>\<open>handle_data\<close> and \<open>loadChunkOutOfBand\<close>: the loops.\<close>

partial_function (option) fc_run :: "client_config \<Rightarrow> client_loop \<Rightarrow> chunk_client \<Rightarrow> (u32 \<times> chunk_client) option" where
  "fc_run cfg which c =
     (case which of
        Handle ignore_filesize allow_reconnect extents \<Rightarrow>
          if bufptr c = [] then Some (ERR_CONTINUE, c)
          else
            Option.bind (state_step cfg ignore_filesize allow_reconnect extents
                (\<lambda>pos. start_load cfg (fc_run cfg (Load pos)) pos) (c\<lparr>bufptr_bytes_done := 0\<rparr>))
              (\<lambda>c. case fst (after_state ignore_filesize c) of
                 Some err \<Rightarrow> Some (err, snd (after_state ignore_filesize c))
               | None \<Rightarrow> fc_run cfg which (snd (after_state ignore_filesize c)))
      | Load chunk_pos \<Rightarrow>
          if pending_find chunk_pos c = None then Some (ERR_SUCCESS, c)
          else case ofb_events c of
            [] \<Rightarrow> Some (ERR_TIMEOUT, c)
          | ev # evs \<Rightarrow>
              load_event cfg (fc_run cfg (Handle True False False)) (fc_run cfg (Load chunk_pos)) ev chunk_pos (c\<lparr>ofb_events := evs\<rparr>))"

definition handle_data :: "client_config \<Rightarrow> bool \<Rightarrow> bool \<Rightarrow> bool \<Rightarrow> byte list \<Rightarrow> chunk_client \<Rightarrow> (u32 \<times> chunk_client) option" where
  "handle_data cfg ignore_filesize allow_reconnect extents buf c =
     fc_run cfg (Handle ignore_filesize allow_reconnect extents) (start_handle buf c)"

definition loadChunkOutOfBand :: "client_config \<Rightarrow> int \<Rightarrow> chunk_client \<Rightarrow> (u32 \<times> chunk_client) option" where
  "loadChunkOutOfBand cfg chunk_pos c = start_load cfg (fc_run cfg (Load chunk_pos)) chunk_pos c"

section \<open>Starting, and asking for blocks\<close>

text \<open>
  \<open>GetFilePatch\<close> and \<open>GetFileChunked\<close> up to the request; \<open>m\<close> is the memory of the object before, and the left side the error code that
  is returned.
\<close>

definition init_transfer ::
  "client_config \<Rightarrow> File \<Rightarrow> File \<Rightarrow> File \<Rightarrow> File option \<Rightarrow> int \<Rightarrow> chunk_client \<Rightarrow> chunk_client" where
  "init_transfer cfg orig_file patchfile chunkhashes hashoutput predicted_filesize m =
     (let m = m\<lparr>m_file := orig_file, m_chunkhashes := chunkhashes, m_hashoutput := hashoutput, m_patchfile := patchfile,
                remote_filesize := predicted_filesize, curr_output_fsize := 0, fc_file_pos := 0, fc_extent_iterator := None,
                curr_sparse_extent := None\<rparr>
      in if patch_mode cfg then m\<lparr>patchfile_pos := 0, patch_buf := []\<rparr> else m)"

definition read_hashfilesize :: "client_config \<Rightarrow> chunk_client \<Rightarrow> u32 + chunk_client" where
  "read_hashfilesize cfg c =
     (let f = snd (File_Seek 0 (m_chunkhashes c)); (d, err, f) = File_Read 8 f; hfs = pkt_int64 (cl_be cfg) 0 d;
          c = c\<lparr>m_chunkhashes := f, hashfilesize := hfs\<rparr>
      in if length d \<noteq> 8 \<or> hfs < 0 then Inl ERR_INT_ERROR
         else
           let (size, mf) = File_Size (m_file c)
           in if hfs = size then Inr (c\<lparr>m_file := mf\<rparr>)
              else
                let (size, mf) = File_Size mf
                in if size < hfs then let (size, mf) = File_Size mf in Inr (c\<lparr>m_file := mf, hashfilesize := size\<rparr>)
                   else Inr (c\<lparr>m_file := mf\<rparr>))"

definition begin_transfer :: "client_config \<Rightarrow> chunk_client \<Rightarrow> u32 + chunk_client" where
  "begin_transfer cfg c =
     (case read_hashfilesize cfg (c\<lparr>getfile_done := False, retval := ERR_SUCCESS\<rparr>) of
        Inl err \<Rightarrow> Inl err
      | Inr c \<Rightarrow>
          let d = int c_checkpoint_dist;
              c = c\<lparr>reconnect_tries := 50, next_chunk := 0,
                    num_chunks := hashfilesize c sdiv d + (if hashfilesize c smod d \<noteq> 0 then 1 else 0),
                    block_for_chunk_start := - 1, md5_hash := md5_init (md5_hash c), cs_state := CS_ID_FIRST\<rparr>
          in Inr (if remote_filesize c \<noteq> - 1 then calcTotalChunks c else c\<lparr>num_total_chunks := 0\<rparr>))"

text \<open>
  Asking for the next block. Blocks that the server has hashes of are asked for with the hashes, the others whole. The request
  is the message for the connection; blocks inside a hole are not asked for.
\<close>

definition block_request :: "int \<Rightarrow> byte \<Rightarrow> byte list \<Rightarrow> byte list" where
  "block_request pos all hs = ID_BLOCK_REQUEST # le_bytes 8 (of_int pos :: u64) @ all # hs"

definition read_block_hashes :: "chunk_client \<Rightarrow> byte list \<times> chunk_client" where
  "read_block_hashes c =
     (if next_chunk c < num_chunks c then
        let (sought, f) = File_Seek (int chunkhash_file_off + next_chunk c * int chunkhash_single_size) (m_chunkhashes c)
        in if sought then
             let (d, err, f) = File_Read chunkhash_single_size f in (d, c\<lparr>m_chunkhashes := f\<rparr>)
           else ([], c\<lparr>m_chunkhashes := f\<rparr>)
      else ([], c))"

definition request_block :: "chunk_client \<Rightarrow> byte list \<times> chunk_client" where
  "request_block c =
     (let pos = next_chunk c * int c_checkpoint_dist; (hs, c) = read_block_hashes c
      in if hs \<noteq> [] then
           let hs = hs @ replicate (chunkhash_single_size - length hs) 0 in (block_request pos 0 hs, pending_insert pos hs c)
         else (block_request pos 1 [], pending_insert pos (replicate chunkhash_single_size 0) c))"

definition block_requested :: "chunk_client \<Rightarrow> chunk_client" where
  "block_requested c = c\<lparr>queued_chunks := Suc (queued_chunks c), next_chunk := next_chunk c + 1\<rparr>"

text \<open>\<open>while (curr_sparse_extent.offset != -1 && next_chunk * c_checkpoint_dist < curr_sparse_extent.offset)\<close>\<close>

partial_function (option) skip_sparse :: "client_config \<Rightarrow> chunk_client \<Rightarrow> chunk_client option" where
  "skip_sparse cfg c =
     (case curr_sparse_extent c of
        None \<Rightarrow> Some c
      | Some (off, sz) \<Rightarrow>
          if next_chunk c * int c_checkpoint_dist < off then
            case fc_extent_iterator c of
              None \<Rightarrow> None
            | Some it \<Rightarrow>
                let (ext, it) = iter_nextExtent (cl_be cfg) it
                in skip_sparse cfg (c\<lparr>curr_sparse_extent := ext, fc_extent_iterator := Some it\<rparr>)
          else Some c)"

definition write_sparse_hashes :: "client_config \<Rightarrow> byte list \<Rightarrow> nat \<Rightarrow> chunk_client \<Rightarrow> chunk_client" where
  "write_sparse_hashes cfg sparse_hashdata n c =
     fold (\<lambda>i c. hash_write cfg sparse_hashdata c) [0..<n]
       (hash_seek (int chunkhash_file_off + next_chunk c * int chunkhash_single_size) c)"

definition sparse_blocks :: "client_config \<Rightarrow> byte list \<Rightarrow> int \<Rightarrow> int \<Rightarrow> chunk_client \<Rightarrow> chunk_client" where
  "sparse_blocks cfg sparse_hashdata off sz c =
     (let d = int c_checkpoint_dist; n = ((off + sz) - next_chunk c * d) sdiv d; c = write_sparse_hashes cfg sparse_hashdata (nat n) c;
          c = (if patch_mode cfg then c else c\<lparr>m_file := snd (File_PunchHole (next_chunk c * d) (n * d) (m_file c))\<rparr>)
      in c\<lparr>curr_output_fsize := max (curr_output_fsize c) (off + sz), next_chunk := next_chunk c + n\<rparr>)"

text \<open>One turn of the loop over the requests: the request, unless the turn skipped blocks inside a hole.\<close>

definition next_request :: "client_config \<Rightarrow> byte list \<Rightarrow> chunk_client \<Rightarrow> (byte list option \<times> chunk_client) option" where
  "next_request cfg sparse_hashdata c =
     Option.bind (skip_sparse cfg c)
       (\<lambda>c. let d = int c_checkpoint_dist
            in case curr_sparse_extent c of
                 Some (off, sz) \<Rightarrow>
                   if off \<le> next_chunk c * d \<and> (next_chunk c + 1) * d \<le> off + sz then Some (None, sparse_blocks cfg sparse_hashdata off sz c)
                   else Some (apfst Some (request_block c))
               | None \<Rightarrow> Some (apfst Some (request_block c)))"

text \<open>After an error: the size of what there is of the new file, at least the size of the old one.\<close>

partial_function (option) copy_hashes :: "client_config \<Rightarrow> File \<Rightarrow> File \<Rightarrow> (File \<times> File) option" where
  "copy_hashes cfg chunkhashes hashoutput =
     (let (d, err, chunkhashes) = File_Read 4096 chunkhashes; hashoutput = fc_writeFileRepeat cfg hashoutput d
      in if length d = 4096 then copy_hashes cfg chunkhashes hashoutput else Some (chunkhashes, hashoutput))"

definition copy_hash_data :: "client_config \<Rightarrow> File \<Rightarrow> chunk_client \<Rightarrow> chunk_client option" where
  "copy_hash_data cfg ho c =
     (let (size, ho) = File_Size ho; (sought, ho) = File_Seek size ho
      in if \<not> sought then Some (c\<lparr>m_hashoutput := Some ho\<rparr>)
         else
           let (size, ho) = File_Size ho; (sought, ch) = File_Seek size (m_chunkhashes c)
           in if \<not> sought then Some (c\<lparr>m_hashoutput := Some ho, m_chunkhashes := ch\<rparr>)
              else Option.bind (copy_hashes cfg ch ho)
                (\<lambda>(ch, ho). let (size, ho) = File_Size ho; (csize, ch) = File_Size ch
                  in if size \<noteq> csize then None else Some (c\<lparr>m_hashoutput := Some ho, m_chunkhashes := ch\<rparr>)))"

definition adjustOutputFilesizeOnFailure :: "client_config \<Rightarrow> chunk_client \<Rightarrow> (int \<times> chunk_client) option" where
  "adjustOutputFilesizeOnFailure cfg c =
     (let filesize_out = max (curr_output_fsize c) (hashfilesize c)
      in do { c \<leftarrow> (if curr_output_fsize c < hashfilesize c then
                      case m_hashoutput c of None \<Rightarrow> Some c | Some ho \<Rightarrow> copy_hash_data cfg ho c
                    else Some c);
              let c = (if patch_mode cfg then writePatchSize cfg filesize_out c else c);
              Some (filesize_out, hash_write cfg (le_bytes 8 (of_int filesize_out :: u64)) (hash_seek 0 c)) })"

end
