(* ===== verification/Block_Answer.thy ===== *)
theory Block_Answer
  imports Block_Send
begin

text \<open>
  What \<open>sendChunk\<close> answers when nothing fails: a list of messages that depends only on the bytes of the block and on the hashes
  in the request.
\<close>

section \<open>Messages\<close>

datatype block_msg = File_Size_Msg nat | Whole nat "byte list" | Update nat "byte list" | Hash nat "byte list" | No_Change nat

fun msg_bytes :: "block_msg \<Rightarrow> byte list" where
  "msg_bytes (File_Size_Msg n) = ID_FILESIZE # le_bytes 8 (of_nat n :: u64)"
| "msg_bytes (Whole p d) = data_header ID_WHOLE_BLOCK (int p) (length d) @ d"
| "msg_bytes (Update p d) = data_header ID_UPDATE_CHUNK (int p) (length d) @ d"
| "msg_bytes (Hash p h) = hash_packet (int p) h"
| "msg_bytes (No_Change p) = ID_NO_CHANGE # le_bytes 8 (of_nat p :: u64)"

definition msgs_bytes :: "block_msg list \<Rightarrow> byte list" where
  "msgs_bytes ms = concat (map msg_bytes ms)"

lemma msgs_bytes_simps [simp]:
  "msgs_bytes [] = []" "msgs_bytes (m # ms) = msg_bytes m @ msgs_bytes ms" "msgs_bytes (ms @ ns) = msgs_bytes ms @ msgs_bytes ns"
  by (simp_all add: msgs_bytes_def)

text \<open>
  The chunks of a block as the loop reads them: after a block that ends with a whole chunk before its time, there is an empty one.
\<close>

fun pieces_from :: "nat \<Rightarrow> byte list \<Rightarrow> byte list list" where
  "pieces_from 0 r = []"
| "pieces_from (Suc n) r = take 4096 r # (if 4096 \<le> length r then pieces_from n (drop 4096 r) else [])"

definition small_hash_at :: "nat \<Rightarrow> byte list \<Rightarrow> u32" where
  "small_hash_at j hs = le_word (take 4 (drop (4 * j) hs))"

definition piece_differs :: "nat \<Rightarrow> byte list \<Rightarrow> nat \<Rightarrow> nat \<Rightarrow> byte list \<Rightarrow> bool" where
  "piece_differs hsize hs p j c \<longleftrightarrow> adler32_of c \<noteq> small_hash_at j hs \<or> hsize < p + length c"

fun piece_updates :: "nat \<Rightarrow> byte list \<Rightarrow> nat \<Rightarrow> nat \<Rightarrow> byte list list \<Rightarrow> block_msg list" where
  "piece_updates hsize hs p j [] = []"
| "piece_updates hsize hs p j (c # cs) =
     (if piece_differs hsize hs p j c then [Update p c] else []) @ piece_updates hsize hs (p + 4096) (Suc j) cs"

definition block_bytes :: "byte list \<Rightarrow> nat \<Rightarrow> byte list" where
  "block_bytes data p = take c_checkpoint_dist (drop p data)"

definition block_answer :: "byte list \<Rightarrow> nat \<Rightarrow> nat \<Rightarrow> byte list \<Rightarrow> byte list \<Rightarrow> block_msg list" where
  "block_answer data hsize p big hs =
     (let b = block_bytes data p; us = piece_updates hsize hs p 0 (pieces_from 128 b)
      in if us \<noteq> [] then us @ [Hash p (md5_of b)]
         else if md5_of b \<noteq> big then [Whole p b, Hash p (md5_of b)] else [No_Change p])"

definition whole_answer :: "byte list \<Rightarrow> nat \<Rightarrow> block_msg list" where
  "whole_answer data p = [Whole p (block_bytes data p), Hash p (md5_of (block_bytes data p))]"

section \<open>The sender\<close>

definition sender_ok :: "byte list \<Rightarrow> nat \<Rightarrow> chunk_sender \<Rightarrow> bool" where
  "sender_ok data hsize s \<longleftrightarrow> (\<exists>f. send_file s = Some f \<and> no_fault f \<and> fbytes f = data) \<and> curr_file_size s = int (length data) \<and>
     curr_hash_size s = int hsize \<and> (\<forall>n. send_ok s n) \<and> length (buffer (send_md5 s)) = 64"

lemma sender_okE:
  assumes "sender_ok data hsize s"
  obtains f where "send_file s = Some f" "no_fault f" "fbytes f = data"
  using assms by (auto simp: sender_ok_def)

lemma sender_ok_size: "sender_ok data hsize s \<Longrightarrow> curr_file_size s = int (length data) \<and> curr_hash_size s = int hsize"
  by (simp add: sender_ok_def)

lemma File_Read_at_ok:
  "no_fault f \<Longrightarrow> n \<le> 2 ^ 32 \<Longrightarrow> File_Read_at p n f = (take n (drop p (fbytes f)), False, next_op f)"
  by (drule no_fault_outcome) (auto simp: File_Read_at_def min_def)

lemma no_fault_next: "no_fault f \<Longrightarrow> no_fault (next_op f)"
  by (rule iffD2[OF no_fault_eq]) simp_all

lemma SendInt_ok:
  "\<forall>n. send_ok s n \<Longrightarrow> buf \<noteq> [] \<Longrightarrow> SendInt buf s = (True, s\<lparr>sent_data := sent_data s @ buf, sends := Suc (sends s)\<rparr>)"
  by (simp add: SendInt_def)

lemma md5_inv_buffer: "md5_inv m msg \<Longrightarrow> length (buffer m) = 64"
  by (simp add: md5_inv_def)

subsection \<open>A whole block\<close>

lemma whole_fill_done: "\<not> w_r loc < n \<Longrightarrow> whole_fill be header n loc s = Some (Inr (loc, s))"
  by (subst whole_fill.simps) simp

lemma whole_fill_ok:
  assumes s: "sender_ok data hsize s" "md5_inv (send_md5 s) msg" and p: "w_spos loc = int p" "w_r loc = 0" and n: "0 < n" "n \<le> 4096" "p + n \<le> length data"
  shows "\<exists>loc' s'. whole_fill be header n loc s = Some (Inr (loc', s')) \<and> sender_ok data hsize s' \<and>
    md5_inv (send_md5 s') (msg @ take n (drop p data)) \<and> sent_data s' = sent_data s @ (if off_sent loc then [] else header) @ take n (drop p data) \<and>
    w_spos loc' = int (p + n) \<and> w_r loc' = n \<and> off_sent loc' \<and> w_readerr loc' = w_readerr loc \<and> w_script_eof loc' = w_script_eof loc"
proof -
  define d where "d = take n (drop p data)"
  have d: "length d = n" "d \<noteq> []" using n by (auto simp: d_def)
  obtain f where f: "send_file s = Some f" "no_fault f" "fbytes f = data" using s(1) by (rule sender_okE)
  have r: "File_Read_at p n f = (d, False, next_op f)" using File_Read_at_ok[OF f(2), of n p] n f(3) by (simp add: d_def)
  let ?s = "s\<lparr>send_file := Some (next_op f), send_md5 := md5_update (send_md5 s) d\<rparr>"
  let ?t = "?s\<lparr>sent_data := sent_data s @ (if off_sent loc then [] else header) @ d, sends := Suc (sends s)\<rparr>"
  have w: "whole_read be header n loc f s = Inr (loc\<lparr>w_spos := int (p + n), off_sent := True, w_r := n\<rparr>, ?t)"
    using r p d s(1) by (simp add: whole_read_def SendInt_ok sender_ok_def)
  have i: "md5_inv (md5_update (send_md5 s) d) (msg @ d)" using md5_update_inv[OF s(2), of d] d n by simp
  have "whole_fill be header n loc s = Some (Inr (loc\<lparr>w_spos := int (p + n), off_sent := True, w_r := n\<rparr>, ?t))"
    by (subst whole_fill.simps, simp add: p n f(1) w) (simp_all add: whole_fill_done)
  moreover have "sender_ok data hsize ?t" using s(1) f no_fault_next i md5_inv_buffer by (auto simp: sender_ok_def)
  ultimately show ?thesis using i by (auto simp: d_def)
qed

lemma whole_loop_ok:
  assumes "sender_ok data hsize s" "md5_inv (send_md5 s) msg" "w_spos loc = int p" "0 < n" "p + n \<le> length data"
  shows "\<exists>loc' s'. whole_loop be header n loc s = Some (Inr (loc', s')) \<and> sender_ok data hsize s' \<and>
    md5_inv (send_md5 s') (msg @ take n (drop p data)) \<and> sent_data s' = sent_data s @ (if off_sent loc then [] else header) @ take n (drop p data) \<and>
    w_readerr loc' = w_readerr loc \<and> w_script_eof loc' = w_script_eof loc"
  using assms
proof (induction n arbitrary: p loc s msg rule: less_induct)
  case (less n)
  define k where "k = min n 4096"
  have k: "0 < k" "k \<le> 4096" "p + k \<le> length data" "min n c_chunk_size = k" using less.prems by (auto simp: k_def c_chunk_size_def)
  obtain loc1 s1 where f: "whole_fill be header k (loc\<lparr>w_r := 0\<rparr>) s = Some (Inr (loc1, s1))" "sender_ok data hsize s1"
    "md5_inv (send_md5 s1) (msg @ take k (drop p data))" "sent_data s1 = sent_data s @ (if off_sent loc then [] else header) @ take k (drop p data)"
    "w_spos loc1 = int (p + k)" "w_r loc1 = k" "off_sent loc1" "w_readerr loc1 = w_readerr loc" "w_script_eof loc1 = w_script_eof loc"
    using whole_fill_ok[of data hsize s msg "loc\<lparr>w_r := 0\<rparr>" p k be header] less.prems k by auto
  show ?case
  proof (cases "4096 < n")
    case True
    then have k4: "k = 4096" by (simp add: k_def)
    obtain loc2 s2 where g: "whole_loop be header (n - k) loc1 s1 = Some (Inr (loc2, s2))" "sender_ok data hsize s2"
      "md5_inv (send_md5 s2) ((msg @ take k (drop p data)) @ take (n - k) (drop (p + k) data))"
      "sent_data s2 = sent_data s1 @ (if off_sent loc1 then [] else header) @ take (n - k) (drop (p + k) data)"
      "w_readerr loc2 = w_readerr loc1" "w_script_eof loc2 = w_script_eof loc1"
      using less.IH[of "n - k" s1 "msg @ take k (drop p data)" loc1 "p + k"] f True k less.prems by auto
    have "take k (drop p data) @ take (n - k) (drop (p + k) data) = take n (drop p data)"
      using take_add[of k "n - k" "drop p data"] True k4 by (simp add: add.commute)
    moreover have "whole_loop be header n loc s = Some (Inr (loc2, s2))"
      by (subst whole_loop.simps) (use less.prems k f(1,6) g(1) True k4 in \<open>simp add: c_chunk_size_def\<close>)
    ultimately show ?thesis using f g by (simp add: append.assoc)
  next
    case False
    then have "k = n" by (simp add: k_def)
    moreover have "whole_loop be header n loc s = Some (Inr (loc1, s1))"
      by (subst whole_loop.simps) (use less.prems k f(1,6) calculation in \<open>simp add: c_chunk_size_def\<close>)
    ultimately show ?thesis using f by auto
  qed
qed

definition in_block :: "byte list \<Rightarrow> nat \<Rightarrow> bool" where
  "in_block data p \<longleftrightarrow> p < length data \<and> c_checkpoint_dist dvd p \<and> length data < 2 ^ 63"

lemma block_bytes_length: "length (block_bytes data p) = min c_checkpoint_dist (length data - p)"
  by (simp add: block_bytes_def)

lemma send_last_ok:
  "\<forall>n. send_ok s n \<Longrightarrow> packet \<noteq> [] \<Longrightarrow> send_last packet False s = (True, s\<lparr>sent_data := sent_data s @ packet, sends := Suc (sends s)\<rparr>)"
  by (simp add: send_last_def SendInt_ok)

lemma send_whole_ok:
  assumes s: "sender_ok data hsize s" and p: "in_block data p" "startpos chunk = int p"
  shows "\<exists>s'. send_whole be chunk s = Some (True, s') \<and> sender_ok data hsize s' \<and> sent_data s' = sent_data s @ msgs_bytes (whole_answer data p)"
proof -
  define b where "b = block_bytes data p"
  define n where "n = length b"
  have n: "0 < n" "p + n \<le> length data" "block_left chunk s = n" "take n (drop p data) = b"
    using sender_ok_size[OF s] p
    by (auto simp: n_def b_def block_bytes_length in_block_def block_left_def c_checkpoint_dist_def block_bytes_def min_def)
  let ?s = "s\<lparr>send_md5 := md5_init (send_md5 s)\<rparr>"
  let ?h = "data_header ID_WHOLE_BLOCK (int p) n"
  let ?loc = "\<lparr>w_r = 0, w_spos = int p, off_sent = False, w_readerr = None, w_script_eof = False\<rparr>"
  have i: "md5_inv (md5_init (send_md5 s)) []" using s by (intro md5_init_inv) (simp add: sender_ok_def)
  have s0: "sender_ok data hsize ?s" using s md5_inv_buffer[OF i] by (simp add: sender_ok_def)
  obtain loc1 s1 where l: "whole_loop be ?h n ?loc ?s = Some (Inr (loc1, s1))" "sender_ok data hsize s1" "md5_inv (send_md5 s1) b"
    "sent_data s1 = sent_data s @ ?h @ b" "w_readerr loc1 = None" "\<not> w_script_eof loc1"
    using whole_loop_ok[OF s0, of "[]" ?loc p n be ?h] i n by auto
  have dig: "raw_digest_int (md5_finalize (send_md5 s1)) = Some (md5_of b)" by (rule md5_finalize_digest[OF l(3)])
  have bf: "length (buffer (md5_finalize (send_md5 s1))) = 64" by (rule md5_finalize_buffer[OF l(3)])
  have so: "\<forall>n. send_ok s1 n" using l(2) by (simp add: sender_ok_def)
  let ?t = "s1\<lparr>send_md5 := md5_finalize (send_md5 s1)\<rparr>"
  have "send_last (hash_packet (int p) (md5_of b)) False ?t = (True, ?t\<lparr>sent_data := sent_data s1 @ hash_packet (int p) (md5_of b), sends := Suc (sends s1)\<rparr>)"
    using send_last_ok[of ?t "hash_packet (int p) (md5_of b)"] so by (simp add: hash_packet_def)
  then have "send_whole be chunk s = Some (True, ?t\<lparr>sent_data := sent_data s1 @ hash_packet (int p) (md5_of b), sends := Suc (sends s1)\<rparr>)"
    using l(1,5,6) dig n(3) p(2) by (simp add: send_whole_def Let_def big_hash_size_def length_md5_of)
  then show ?thesis using l(2,4) bf n_def by (auto simp: sender_ok_def whole_answer_def b_def)
qed

subsection \<open>A block with changes\<close>

lemma little_endian32_le_word: "length bs = 4 \<Longrightarrow> little_endian32 be (of_mem be bs) = le_word bs"
  using little_endian_of_mem(2)[of be "le_word bs"] le_bytes_le_word[of bs 4, where 'a = 32] by simp

definition at_piece :: "nat \<Rightarrow> nat \<Rightarrow> byte list \<Rightarrow> update_locals \<Rightarrow> bool" where
  "at_piece p j blk loc \<longleftrightarrow> curr_pos loc = int (p + 4096 * j) \<and> u_blk loc = blk \<and>
     length blk = 4096 * j \<and> small_hash_num loc = j \<and> next_smallhash loc = 4096 * Suc j \<and> c_adler loc = adler32_of [] \<and>
     \<not> u_script_eof loc"

lemma update_fill_done: "\<not> length c < n \<Longrightarrow> update_fill n c rr spos eof f fs = Some (Inr (c, rr, spos, eof, f))"
  by (subst update_fill.simps) simp

lemma read_piece_ok:
  assumes "no_fault f" "p + n \<le> length (fbytes f)" "n \<le> 4096"
  shows "read_piece n (int p) eof f fs = Some (Inr (take n (drop p (fbytes f)), n, int (p + n), eof, next_op f))"
  using assms File_Read_at_ok[OF assms(1), of n p] update_fill_done[of "take n (drop p (fbytes f))" n]
  by (simp add: read_piece_def)

lemma piece_step:
  assumes s: "sender_ok data hsize s" "md5_inv (send_md5 s) blk" and loc: "at_piece p j blk loc" and j: "j < 128"
    and hs: "length (sent_small_hash chunk) = 512" and c: "length c \<le> 4096"
  shows "\<exists>loc' s'. piece_hashed be chunk c loc s = Inr (loc', s') \<and> sender_ok data hsize s' \<and> send_file s' = send_file s \<and>
    md5_inv (send_md5 s') (blk @ c) \<and> u_blk loc' = blk @ c \<and> u_spos loc' = u_spos loc \<and> \<not> u_script_eof loc' \<and>
    (length c = 4096 \<longrightarrow> at_piece p (Suc j) (blk @ c) loc') \<and>
    sent_update loc' = (sent_update loc \<or> piece_differs hsize (sent_small_hash chunk) (p + 4096 * j) j c) \<and>
    sent_data s' = sent_data s @ msgs_bytes (if piece_differs hsize (sent_small_hash chunk) (p + 4096 * j) j c then [Update (p + 4096 * j) c] else [])"
proof -
  have l: "curr_pos loc = int (p + 4096 * j)" "u_blk loc = blk" "length blk = 4096 * j" "small_hash_num loc = j"
    "next_smallhash loc = 4096 * Suc j" "c_adler loc = adler32_of []" "\<not> u_script_eof loc"
    using loc by (simp_all add: at_piece_def)
  have i: "md5_inv (md5_update (send_md5 s) c) (blk @ c)" using md5_update_inv[OF s(2), of c] c by simp
  let ?hs = "sent_small_hash chunk"
  have w: "little_endian32 be (of_mem be (take 4 (drop (4 * j) ?hs))) = small_hash_at j ?hs"
    using little_endian32_le_word[of "take 4 (drop (4 * j) ?hs)"] hs j by (simp add: small_hash_at_def)
  have cmp: "length blk + length c = next_smallhash loc \<or> length c \<noteq> 4096" using l(3,5) by simp
  have z: "length data = nat (curr_file_size s)" "curr_hash_size s = int hsize" using sender_ok_size[OF s(1)] by simp_all
  have d: "(adler32_of c \<noteq> small_hash_at j ?hs \<or> int hsize < int (p + 4096 * j) + int (length c)) =
      piece_differs hsize ?hs (p + 4096 * j) j c"
    unfolding piece_differs_def by linarith
  have so: "\<forall>n. send_ok s n" using s(1) by (simp add: sender_ok_def)
  show ?thesis
    using l i w cmp z d so s(1) md5_inv_buffer[OF i]
    by (auto simp: piece_hashed_def compare_piece_def Let_def chunk_settings adler32_start adler32_update SendInt_ok data_header_def
        sender_ok_def at_piece_def)
qed

lemma update_turn:
  assumes s: "sender_ok data hsize s" "md5_inv (send_md5 s) blk" and loc: "at_piece p j blk loc" "u_spos loc = int (p + 4096 * j)"
    and j: "j < 128" and hs: "length (sent_small_hash chunk) = 512" and p: "p + 4096 * j \<le> length data" "data \<noteq> []"
    and c: "c = take 4096 (drop (p + 4096 * j) data)" and d: "df = piece_differs hsize (sent_small_hash chunk) (p + 4096 * j) j c"
  shows "\<exists>loc' s'. sender_ok data hsize s' \<and> md5_inv (send_md5 s') (blk @ c) \<and> u_blk loc' = blk @ c \<and> \<not> u_script_eof loc' \<and>
    u_spos loc' = int (p + 4096 * j + length c) \<and> (length c = 4096 \<longrightarrow> at_piece p (Suc j) (blk @ c) loc') \<and>
    sent_update loc' = (sent_update loc \<or> df) \<and> sent_data s' = sent_data s @ msgs_bytes (if df then [Update (p + 4096 * j) c] else []) \<and>
    update_loop be chunk loc s = (if length c = 4096 \<and> Suc j < 128 then update_loop be chunk loc' s' else Some (Inr (loc', s')))"
proof -
  define q where "q = p + 4096 * j"
  obtain f where f: "send_file s = Some f" "no_fault f" "fbytes f = data" using s(1) by (rule sender_okE)
  have l: "curr_pos loc = int q" "u_spos loc = int q" "\<not> u_script_eof loc" "length blk = 4096 * j" "u_blk loc = blk"
    using loc by (simp_all add: at_piece_def q_def)
  have cl: "chunk_to_read (int q) s = length c" "q + length c \<le> length data" "length c \<le> 4096" "take (length c) (drop q data) = c"
    using sender_ok_size[OF s(1)] p by (auto simp: chunk_to_read_def c_chunk_size_def c q_def min_def)
  have rd: "read_piece (chunk_to_read (curr_pos loc) s) (u_spos loc) (u_script_eof loc) f (curr_file_size s) =
      Some (Inr (c, length c, int (q + length c), False, next_op f))"
    using read_piece_ok[OF f(2), of q "length c"] cl l f(3) by simp
  let ?s = "s\<lparr>send_file := Some (next_op f)\<rparr>" and ?loc = "loc\<lparr>u_spos := int (q + length c), u_script_eof := False\<rparr>"
  have s0: "sender_ok data hsize ?s" using s(1) f no_fault_next by (auto simp: sender_ok_def)
  have m0: "md5_inv (send_md5 ?s) blk" using s(2) by simp
  have l0: "at_piece p j blk ?loc" using loc(1) by (simp add: at_piece_def)
  obtain loc1 s1 where t: "piece_hashed be chunk c ?loc ?s = Inr (loc1, s1)" "sender_ok data hsize s1" "md5_inv (send_md5 s1) (blk @ c)"
    "u_blk loc1 = blk @ c" "u_spos loc1 = int (q + length c)" "\<not> u_script_eof loc1" "length c = 4096 \<longrightarrow> at_piece p (Suc j) (blk @ c) loc1"
    "sent_update loc1 = (sent_update loc \<or> df)" "sent_data s1 = sent_data s @ msgs_bytes (if df then [Update q c] else [])"
    using piece_step[OF s0 m0 l0 j hs cl(3), of be] unfolding d q_def by auto
  have "update_loop be chunk loc s = (if length c = 4096 \<and> Suc j < 128 then update_loop be chunk loc1 s1 else Some (Inr (loc1, s1)))"
    by (subst update_loop.simps)
      (use f(1) rd t(1,4) l in \<open>simp add: c_chunk_size_def c_checkpoint_dist_def\<close>)
  then show ?thesis using t unfolding q_def by blast
qed

lemma update_loop_ok:
  assumes "sender_ok data hsize s" "md5_inv (send_md5 s) blk" "at_piece p j blk loc" "u_spos loc = int (p + 4096 * j)" "j + Suc n = 128"
    and "length (sent_small_hash chunk) = 512" "p + 4096 * j \<le> length data" "data \<noteq> []"
    and "r = take (4096 * Suc n) (drop (p + 4096 * j) data)"
    and "us = piece_updates hsize (sent_small_hash chunk) (p + 4096 * j) j (pieces_from (Suc n) r)"
  shows "\<exists>loc' s'. update_loop be chunk loc s = Some (Inr (loc', s')) \<and> sender_ok data hsize s' \<and> md5_inv (send_md5 s') (blk @ r) \<and>
    u_blk loc' = blk @ r \<and> \<not> u_script_eof loc' \<and> sent_update loc' = (sent_update loc \<or> us \<noteq> []) \<and>
    sent_data s' = sent_data s @ msgs_bytes us"
  using assms
proof (induction n arbitrary: s blk j loc r us)
  case 0
  define q where "q = p + 4096 * j"
  define c where "c = take 4096 (drop q data)"
  define df where "df = piece_differs hsize (sent_small_hash chunk) q j c"
  have j: "j = 127" and r: "r = c" using 0 by (simp_all add: c_def q_def)
  have us: "us = (if df then [Update q c] else [])" using 0(10) by (simp add: r df_def q_def c_def)
  show ?case
    using update_turn[OF 0(1-4) _ 0(6-8) c_def[unfolded q_def] df_def[unfolded q_def], of be] j
    by (auto simp: us r q_def)
next
  case (Suc n)
  define q where "q = p + 4096 * j"
  define c where "c = take 4096 (drop q data)"
  define df where "df = piece_differs hsize (sent_small_hash chunk) q j c"
  have j: "j < 128" using Suc.prems(5) by simp
  obtain loc1 s1 where t: "sender_ok data hsize s1" "md5_inv (send_md5 s1) (blk @ c)" "u_blk loc1 = blk @ c" "\<not> u_script_eof loc1"
    "u_spos loc1 = int (q + length c)" "length c = 4096 \<longrightarrow> at_piece p (Suc j) (blk @ c) loc1"
    "sent_update loc1 = (sent_update loc \<or> df)" "sent_data s1 = sent_data s @ msgs_bytes (if df then [Update q c] else [])"
    "update_loop be chunk loc s = (if length c = 4096 \<and> Suc j < 128 then update_loop be chunk loc1 s1 else Some (Inr (loc1, s1)))"
    using update_turn[OF Suc.prems(1-4) j Suc.prems(6-8) c_def[unfolded q_def] df_def[unfolded q_def], of be] unfolding q_def[symmetric] by blast
  have r: "r = take (4096 * Suc (Suc n)) (drop q data)" using Suc.prems(9) by (simp add: q_def)
  have us: "us = piece_updates hsize (sent_small_hash chunk) q j (pieces_from (Suc (Suc n)) r)" using Suc.prems(10) by (simp add: q_def)
  show ?case
  proof (cases "length c = 4096")
    case True
    define r' where "r' = take (4096 * Suc n) (drop (q + 4096) data)"
    define us' where "us' = piece_updates hsize (sent_small_hash chunk) (q + 4096) (Suc j) (pieces_from (Suc n) r')"
    have rr: "r = c @ r'" using take_add[of 4096 "4096 * Suc n" "drop q data"] by (simp add: r r'_def c_def add.commute)
    have q': "q + 4096 = p + 4096 * Suc j" by (simp add: q_def)
    have ul: "us = (if df then [Update q c] else []) @ us'"
      unfolding us us'_def rr by (subst pieces_from.simps) (use True in \<open>simp add: df_def\<close>)
    have le: "p + 4096 * Suc j \<le> length data" using True by (simp add: c_def q_def)
    obtain loc2 s2 where g: "update_loop be chunk loc1 s1 = Some (Inr (loc2, s2))" "sender_ok data hsize s2"
      "md5_inv (send_md5 s2) ((blk @ c) @ r')" "u_blk loc2 = (blk @ c) @ r'" "\<not> u_script_eof loc2"
      "sent_update loc2 = (sent_update loc1 \<or> us' \<noteq> [])" "sent_data s2 = sent_data s1 @ msgs_bytes us'"
      using Suc.IH[of s1 "blk @ c" "Suc j" loc1 r' us'] t(1,2,5,6) True Suc.prems(5,6,8) le q' by (auto simp: r'_def us'_def)
    show ?thesis using g t(7-9) True Suc.prems(5) rr ul by (auto simp: append.assoc)
  next
    case False
    then have rc: "r = c" by (simp add: r c_def)
    have cl: "length c < 4096" using False by (simp add: c_def)
    have "us = (if df then [Update q c] else [])"
      unfolding us rc by (subst pieces_from.simps) (use cl in \<open>simp add: df_def\<close>)
    then show ?thesis using t False rc by auto
  qed
qed

lemma send_updates_ok:
  assumes s: "sender_ok data hsize s" and p: "in_block data p" "startpos chunk = int p" and hs: "length (sent_small_hash chunk) = 512"
  shows "\<exists>s'. send_updates be chunk s = Some (True, s') \<and> sender_ok data hsize s' \<and>
    sent_data s' = sent_data s @ msgs_bytes (block_answer data hsize p (sent_big_hash chunk) (sent_small_hash chunk))"
proof -
  define b where "b = block_bytes data p"
  define us where "us = piece_updates hsize (sent_small_hash chunk) p 0 (pieces_from 128 b)"
  let ?s = "s\<lparr>send_md5 := md5_init (send_md5 s)\<rparr>"
  let ?loc = "\<lparr>u_blk = [], u_spos = int p, curr_pos = int p, small_hash_num = 0, next_smallhash = c_small_hash_dist,
            c_adler = urb_adler32 0 None, sent_update = False, u_script_eof = False\<rparr>"
  have i: "md5_inv (md5_init (send_md5 s)) []" using s by (intro md5_init_inv) (simp add: sender_ok_def)
  have s0: "sender_ok data hsize ?s" using s md5_inv_buffer[OF i] by (simp add: sender_ok_def)
  have l0: "at_piece p 0 [] ?loc" by (simp add: at_piece_def c_small_hash_dist_def adler32_start)
  have i': "md5_inv (send_md5 ?s) []" using i by simp
  have b: "b = take (4096 * Suc 127) (drop (p + 4096 * 0) data)" by (simp add: b_def block_bytes_def c_checkpoint_dist_def)
  have us: "us = piece_updates hsize (sent_small_hash chunk) (p + 4096 * 0) 0 (pieces_from (Suc 127) b)"
  proof -
    have "Suc 127 = (128 :: nat)" by simp
    then show ?thesis unfolding us_def by (simp only: mult_0_right add_0_right)
  qed
  have side: "p + 4096 * 0 \<le> length data" "data \<noteq> []" "u_spos ?loc = int (p + 4096 * 0)" "0 + Suc 127 = 128"
    using p by (auto simp: in_block_def)
  obtain loc1 s1 where l: "update_loop be chunk ?loc ?s = Some (Inr (loc1, s1))" "sender_ok data hsize s1" "md5_inv (send_md5 s1) ([] @ b)"
    "u_blk loc1 = [] @ b" "\<not> u_script_eof loc1" "sent_update loc1 = (sent_update ?loc \<or> us \<noteq> [])" "sent_data s1 = sent_data ?s @ msgs_bytes us"
    using update_loop_ok[OF s0 i' l0 side(3,4) hs side(1,2) b us, of be] by blast
  have l': "md5_inv (send_md5 s1) b" "u_blk loc1 = b" "sent_update loc1 = (us \<noteq> [])" "sent_data s1 = sent_data s @ msgs_bytes us"
    using l(3,4,6,7) by simp_all
  have dig: "raw_digest_int (md5_finalize (send_md5 s1)) = Some (md5_of b)" by (rule md5_finalize_digest[OF l'(1)])
  let ?t = "s1\<lparr>send_md5 := md5_finalize (send_md5 s1)\<rparr>"
  have t: "sender_ok data hsize ?t" using l(2) md5_finalize_buffer[OF l'(1)] by (simp add: sender_ok_def)
  then have so: "\<forall>n. send_ok ?t n" by (simp add: sender_ok_def)
  have "\<exists>s'. finish_updates be chunk loc1 s1 = Some (True, s') \<and> sender_ok data hsize s' \<and>
      sent_data s' = sent_data s @ msgs_bytes (block_answer data hsize p (sent_big_hash chunk) (sent_small_hash chunk))"
  proof (cases "us = []")
    case True
    then show ?thesis using length_md5_of[of b] dig l'(2-4) l(5) so t p(2)
      by (cases "md5_of b = sent_big_hash chunk")
        (simp_all add: finish_updates_def Let_def big_hash_size_def length_md5_of SendInt_ok send_last_ok hash_packet_def data_header_def
          block_answer_def sender_ok_def flip: b_def us_def)
  next
    case False
    then show ?thesis using length_md5_of[of b] dig l'(2-4) l(5) so t p(2)
      by (simp add: finish_updates_def Let_def big_hash_size_def length_md5_of send_last_ok hash_packet_def
          block_answer_def sender_ok_def flip: b_def us_def)
  qed
  then show ?thesis using l(1) p(2) by (simp add: send_updates_def)
qed

text \<open>The answer to a request.\<close>

definition request_answer :: "byte list \<Rightarrow> nat \<Rightarrow> SChunk \<Rightarrow> block_msg list" where
  "request_answer data hsize chunk =
     (if transfer_all chunk \<noteq> 0 then whole_answer data (nat (startpos chunk))
      else block_answer data hsize (nat (startpos chunk)) (sent_big_hash chunk) (sent_small_hash chunk))"

lemma sendChunk_answer:
  assumes s: "sender_ok data hsize s" and p: "in_block data p" "startpos chunk = int p"
    and hs: "transfer_all chunk = 0 \<longrightarrow> length (sent_small_hash chunk) = 512"
  shows "\<exists>s'. sendChunk be chunk s = Some (True, s') \<and> sender_ok data hsize s' \<and>
    sent_data s' = sent_data s @ msgs_bytes (request_answer data hsize chunk)"
proof -
  obtain f where f: "send_file s = Some f" "no_fault f" "fbytes f = data" using s by (rule sender_okE)
  have sk: "File_Seek (int p) f = (True, next_op (f\<lparr>fpos := p\<rparr>))" using File_Seek_ok[OF f(2), of "int p"] by simp
  let ?s = "s\<lparr>send_file := Some (next_op (f\<lparr>fpos := p\<rparr>))\<rparr>"
  have "no_fault (next_op (f\<lparr>fpos := p\<rparr>))" using f(2) by (rule iffD2[OF no_fault_eq, rotated]) simp
  then have s0: "sender_ok data hsize ?s" using s f by (simp add: sender_ok_def)
  show ?thesis
    using f(1) sk p send_whole_ok[OF s0 p, of be] send_updates_ok[OF s0 p, of be] hs by (auto simp: sendChunk_def request_answer_def)
qed

end
