(* ===== verification/Client_Write.thy ===== *)
theory Client_Write
  imports Chunk_Client Block_Answer Patch_Run
begin

text \<open>
  What the server's side of a block difference writes when no file operation fails: the patch file as a list of items, the
  invalidation of the last ones, and the file that a growing list of items stands for.
\<close>

section \<open>Files without failures\<close>

definition file_at :: "File \<Rightarrow> byte list \<Rightarrow> nat \<Rightarrow> bool" where
  "file_at f bs p \<longleftrightarrow> no_fault f \<and> fbytes f = bs \<and> fpos f = p"

lemma write_repeat_at:
  assumes "no_fault f" "length buf \<le> 2 ^ 32"
  shows "file_at (fc_writeFileRepeat cfg f buf) (overwrite (fbytes f) (fpos f) buf) (fpos f + length buf)"
proof -
  let ?g = "next_op (f\<lparr>fbytes := overwrite (fbytes f) (fpos f) buf, fpos := fpos f + length buf\<rparr>)"
  have w: "File_Write (drop 0 buf) f = (length buf, False, ?g)" using File_Write_all[OF assms] by simp
  have "fc_writeFileRepeat cfg f buf = ?g"
    unfolding fc_writeFileRepeat_def
    by (subst write_repeat.simps) (simp only: w Let_def prod.case, simp split: option.splits)
  then show ?thesis using no_fault_eq[of ?g f] assms(1) by (simp add: file_at_def)
qed

lemma seek_at: "no_fault f \<Longrightarrow> file_at (snd (File_Seek (int p) f)) (fbytes f) p"
  using File_Seek_ok[of f "int p"] no_fault_eq[of "next_op (f\<lparr>fpos := p\<rparr>)" f] by (simp add: file_at_def)

lemma read_at:
  assumes "file_at f bs p" "n \<le> 2 ^ 32"
  shows "\<exists>g. File_Read n f = (take n (drop p bs), False, g) \<and> file_at g bs (p + length (take n (drop p bs)))"
  using File_Read_ok[of f n] assms by (auto simp: file_at_def simp del: length_take)

lemma no_fault_at: "no_fault f \<Longrightarrow> file_at f (fbytes f) (fpos f)"
  by (simp add: file_at_def)

section \<open>The patch file\<close>

fun item_positions :: "nat \<Rightarrow> (int \<times> byte list) list \<Rightarrow> int list" where
  "item_positions off [] = []"
| "item_positions off (p # ps) = int off # item_positions (off + 12 + length (snd p)) ps"

lemma length_patch_item: "length (patch_item p) = 12 + length (snd p)"
  by (simp add: patch_item_def)

lemma patch_items_simps [simp]:
  "patch_items [] = []" "patch_items (p # ps) = patch_item p @ patch_items ps" "patch_items (ps @ qs) = patch_items ps @ patch_items qs"
  by (simp_all add: patch_items_def)

lemma item_positions_append:
  "item_positions off (ps @ qs) = item_positions off ps @ item_positions (off + length (patch_items ps)) qs"
  by (induction ps arbitrary: off) (simp_all add: length_patch_item add.assoc add.commute add.left_commute)

lemma length_patch_bytes: "length (patch_bytes fs ps) = 8 + length (patch_items ps)"
  by (simp add: patch_bytes_def)

definition invalid :: "int \<times> byte list \<Rightarrow> int \<times> byte list" where
  "invalid p = (- 1, snd p)"

text \<open>The items of the finished blocks and those of the block that is being received.\<close>

definition patch_rep :: "nat \<Rightarrow> (int \<times> byte list) list \<Rightarrow> (int \<times> byte list) list \<Rightarrow> chunk_client \<Rightarrow> bool" where
  "patch_rep fs items cur c \<longleftrightarrow>
     file_at (m_patchfile c) (patch_bytes fs (items @ cur)) (length (patch_bytes fs (items @ cur))) \<and>
     patchfile_pos c = int (length (patch_bytes fs (items @ cur))) \<and>
     last_chunk_patches c = item_positions (8 + length (patch_items items)) cur"

text \<open>Two objects that differ in the fields of the patch only.\<close>

definition patch_only :: "chunk_client \<Rightarrow> chunk_client \<Rightarrow> bool" where
  "patch_only c d \<longleftrightarrow> d = c\<lparr>m_patchfile := m_patchfile d, patchfile_pos := patchfile_pos d, last_chunk_patches := last_chunk_patches d,
     last_patch_output_fsize := last_patch_output_fsize d, curr_output_fsize := curr_output_fsize d, patch_buf := patch_buf d,
     patch_buf_start := patch_buf_start d\<rparr>"

lemma patch_only_iff: "patch_only c d \<longleftrightarrow> (\<exists>mp pp lp lf co pb ps. d = c\<lparr>m_patchfile := mp, patchfile_pos := pp, last_chunk_patches := lp,
     last_patch_output_fsize := lf, curr_output_fsize := co, patch_buf := pb, patch_buf_start := ps\<rparr>)"
  (is "_ \<longleftrightarrow> ?ex")
proof
  show "patch_only c d \<Longrightarrow> ?ex" unfolding patch_only_def by blast
  show "?ex \<Longrightarrow> patch_only c d" unfolding patch_only_def by (elim exE) simp
qed

lemma patch_only_refl [simp]: "patch_only c c"
  by (simp add: patch_only_def)

lemma patch_only_trans:
  assumes "patch_only c d" "patch_only d e"
  shows "patch_only c e"
proof -
  from assms(1) obtain mp pp lp lf co pb ps where "d = c\<lparr>m_patchfile := mp, patchfile_pos := pp, last_chunk_patches := lp,
     last_patch_output_fsize := lf, curr_output_fsize := co, patch_buf := pb, patch_buf_start := ps\<rparr>"
    unfolding patch_only_iff by blast
  with assms(2) show ?thesis unfolding patch_only_def by simp
qed

lemma writePatchInt_rep:
  assumes r: "patch_rep fs items cur c" and d: "length d < 2 ^ 32" and pos: "- 1 \<le> pos" "pos < 2 ^ 63"
  shows "patch_rep fs items (cur @ [(pos, d)]) (writePatchInt cfg pos d c)" "patch_only c (writePatchInt cfg pos d c)"
    "patch_buf (writePatchInt cfg pos d c) = patch_buf c" "patch_buf_start (writePatchInt cfg pos d c) = patch_buf_start c"
proof -
  define pd where "pd = le_bytes 8 (of_int pos :: u64) @ le_bytes 4 (of_nat (length d) :: u32)"
  define f where "f = fc_writeFileRepeat cfg (fc_writeFileRepeat cfg (m_patchfile c) pd) d"
  have it: "pd @ d = patch_item (pos, d)" by (simp add: pd_def patch_item_def)
  have pl: "length pd = 12" by (simp add: pd_def)
  let ?bs = "patch_bytes fs (items @ cur)"
  have c0: "no_fault (m_patchfile c)" "fbytes (m_patchfile c) = ?bs" "fpos (m_patchfile c) = length ?bs"
    using r by (simp_all add: patch_rep_def file_at_def)
  have 1: "file_at (fc_writeFileRepeat cfg (m_patchfile c) pd) (?bs @ pd) (length ?bs + 12)"
    using write_repeat_at[OF c0(1), of pd cfg] c0 pl by (simp add: overwrite_end)
  have "file_at f ((?bs @ pd) @ d) (length ?bs + 12 + length d)"
    using write_repeat_at[of "fc_writeFileRepeat cfg (m_patchfile c) pd" d cfg] 1 d pl overwrite_end[of "?bs @ pd" d]
    by (simp add: file_at_def f_def)
  moreover have "(?bs @ pd) @ d = patch_bytes fs (items @ cur @ [(pos, d)])"
    using it by (simp add: patch_bytes_def)
  ultimately have f: "file_at f (patch_bytes fs (items @ cur @ [(pos, d)])) (length (patch_bytes fs (items @ cur @ [(pos, d)])))"
    by (simp add: length_patch_bytes length_patch_item add.assoc)
  have w: "writePatchInt cfg pos d c = c\<lparr>m_patchfile := f, last_patch_output_fsize := (if last_chunk_patches c = [] then curr_output_fsize c else last_patch_output_fsize c),
      last_chunk_patches := last_chunk_patches c @ [patchfile_pos c], patchfile_pos := patchfile_pos c + int (12 + length d),
      curr_output_fsize := max (curr_output_fsize c) (pos + int (length d))\<rparr>"
    by (simp add: writePatchInt_def patch_write_def f_def Let_def flip: pd_def) (simp add: pl)
  show "patch_rep fs items (cur @ [(pos, d)]) (writePatchInt cfg pos d c)"
    using r f by (simp add: w patch_rep_def item_positions_append length_patch_bytes length_patch_item add.commute add.left_commute)
  show "patch_only c (writePatchInt cfg pos d c)"
    by (simp add: w patch_only_def)
  show "patch_buf (writePatchInt cfg pos d c) = patch_buf c" "patch_buf_start (writePatchInt cfg pos d c) = patch_buf_start c"
    by (simp_all add: w)
qed

text \<open>Invalidating items.\<close>

lemma invalid_bytes: "patch_item (invalid p) = le_bytes 8 (- 1 :: u64) @ drop 8 (patch_item p)"
  by (simp add: patch_item_def invalid_def)

lemma overwrite_inside_item:
  "overwrite (a @ patch_item p @ b) (length a) (le_bytes 8 (- 1 :: u64)) = a @ patch_item (invalid p) @ b"
  by (simp add: overwrite_def invalid_bytes length_patch_item le_bytes_def)

lemma invalidate_fold:
  assumes "file_at (m_patchfile c) (a @ patch_items cur @ b) n"
  shows "\<exists>m f. fold (invalidate_at cfg) (item_positions (length a) cur) c = c\<lparr>m_patchfile := f\<rparr> \<and>
    file_at f (a @ patch_items (map invalid cur) @ b) m"
  using assms
proof (induction cur arbitrary: a c n)
  case Nil
  then show ?case by (intro exI[of _ n] exI[of _ "m_patchfile c"]) simp
next
  case (Cons p cur)
  let ?s = "snd (File_Seek (int (length a)) (m_patchfile c))"
  let ?f = "fc_writeFileRepeat cfg ?s (le_bytes 8 (- 1 :: u64))"
  have s: "file_at ?s (a @ patch_item p @ (patch_items cur @ b)) (length a)"
    using seek_at[of "m_patchfile c" "length a"] Cons.prems by (simp add: file_at_def)
  have f: "file_at ?f (a @ patch_item (invalid p) @ (patch_items cur @ b)) (length a + 8)"
    using write_repeat_at[of ?s "le_bytes 8 (- 1 :: u64)" cfg] s overwrite_inside_item[of a p "patch_items cur @ b"]
    by (simp add: file_at_def)
  have i: "invalidate_at cfg (int (length a)) c = c\<lparr>m_patchfile := ?f\<rparr>"
    by (simp add: invalidate_at_def patch_seek_def patch_write_def)
  have l: "length a + 12 + length (snd p) = length (a @ patch_item (invalid p))"
    by (simp add: length_patch_item invalid_def)
  have "file_at (m_patchfile (c\<lparr>m_patchfile := ?f\<rparr>)) ((a @ patch_item (invalid p)) @ patch_items cur @ b) (length a + 8)"
    using f by simp
  then obtain m g where "fold (invalidate_at cfg) (item_positions (length (a @ patch_item (invalid p))) cur) (c\<lparr>m_patchfile := ?f\<rparr>) =
      c\<lparr>m_patchfile := ?f\<rparr>\<lparr>m_patchfile := g\<rparr>" "file_at g ((a @ patch_item (invalid p)) @ patch_items (map invalid cur) @ b) m"
    using Cons.IH by blast
  then show ?case using l by (intro exI[of _ m] exI[of _ g]) (simp add: i add.assoc)
qed

lemma length_patch_items_invalid: "length (patch_items (map invalid cur)) = length (patch_items cur)"
  by (induction cur) (simp_all add: length_patch_item invalid_def)

lemma invalidate_rep:
  assumes r: "patch_rep fs items cur c" and m: "patch_mode cfg"
  shows "patch_rep fs (items @ map invalid cur) [] (invalidateLastPatches cfg c)" "patch_only c (invalidateLastPatches cfg c)"
    "patch_buf (invalidateLastPatches cfg c) = []" "last_chunk_patches (invalidateLastPatches cfg c) = []"
proof -
  let ?a = "le_bytes 8 (of_nat fs :: u64) @ patch_items items"
  let ?c = "if last_chunk_patches c \<noteq> [] then c\<lparr>curr_output_fsize := last_patch_output_fsize c\<rparr> else c"
  have "file_at (m_patchfile ?c) (?a @ patch_items cur @ []) (length (patch_bytes fs (items @ cur)))"
    using r by (simp add: patch_rep_def patch_bytes_def)
  then obtain n f where f: "fold (invalidate_at cfg) (item_positions (length ?a) cur) ?c = ?c\<lparr>m_patchfile := f\<rparr>"
    "file_at f (?a @ patch_items (map invalid cur) @ []) n"
    using invalidate_fold by blast
  have l: "last_chunk_patches c = item_positions (length ?a) cur" using r by (simp add: patch_rep_def)
  define g where "g = snd (File_Seek (patchfile_pos c) f)"
  have g: "file_at g (patch_bytes fs (items @ map invalid cur)) (length (patch_bytes fs (items @ cur)))"
    using seek_at[of f "length (patch_bytes fs (items @ cur))"] f(2) r
    by (simp add: g_def patch_rep_def file_at_def patch_bytes_def)
  have f': "fold (invalidate_at cfg) (last_chunk_patches c) ?c = ?c\<lparr>m_patchfile := f\<rparr>" using f(1) l by simp
  define co where "co = curr_output_fsize ?c"
  have i: "invalidateLastPatches cfg c = c\<lparr>m_patchfile := g, curr_output_fsize := co, patch_buf := [], last_chunk_patches := []\<rparr>"
  proof (cases "last_chunk_patches c = []")
    case True
    then have "c\<lparr>m_patchfile := f\<rparr> = c" using f' by simp
    then have "f = m_patchfile c" by (metis chunk_client.select_convs(3) chunk_client.surjective chunk_client.update_convs(3))
    then show ?thesis using True m by (simp add: invalidateLastPatches_def Let_def patch_seek_def g_def co_def)
  next
    case False
    then show ?thesis using f' m by (simp add: invalidateLastPatches_def Let_def patch_seek_def g_def co_def)
  qed
  show "patch_rep fs (items @ map invalid cur) [] (invalidateLastPatches cfg c)"
    using g r by (simp add: i patch_rep_def length_patch_bytes length_patch_items_invalid)
  show "patch_only c (invalidateLastPatches cfg c)"
    by (simp add: i patch_only_def)
  show "patch_buf (invalidateLastPatches cfg c) = []" "last_chunk_patches (invalidateLastPatches cfg c) = []" by (simp_all add: i)
qed

text \<open>The size in front.\<close>

lemma writePatchSize_rep:
  assumes "file_at (m_patchfile c) [] p \<and> patchfile_pos c = 0 \<and> items = [] \<and> last_chunk_patches c = [] \<or> patch_rep fs items [] c"
  shows "patch_rep fs items [] (writePatchSize cfg (int fs) c)" "patch_only c (writePatchSize cfg (int fs) c)"
    "patch_buf (writePatchSize cfg (int fs) c) = patch_buf c"
proof -
  let ?s = "snd (File_Seek 0 (m_patchfile c))" and ?h = "le_bytes 8 (of_nat fs :: u64)"
  let ?f = "fc_writeFileRepeat cfg ?s ?h"
  have dd: "writePatchSize cfg (int fs) c =
      (if patchfile_pos c = 0 then c\<lparr>m_patchfile := ?f, patchfile_pos := 8\<rparr> else patch_seek (patchfile_pos c) (c\<lparr>m_patchfile := ?f\<rparr>))"
    by (simp add: writePatchSize_def Let_def patch_write_def patch_seek_def)
  have nf: "no_fault (m_patchfile c)" using assms by (auto simp: patch_rep_def file_at_def)
  have s: "file_at ?s (fbytes (m_patchfile c)) 0" using seek_at[OF nf, of 0] by simp
  have f: "file_at ?f (overwrite (fbytes (m_patchfile c)) 0 ?h) 8"
    using write_repeat_at[of ?s ?h cfg] s by (simp add: file_at_def)
  have "patch_rep fs items [] (writePatchSize cfg (int fs) c) \<and> patch_only c (writePatchSize cfg (int fs) c) \<and>
    patch_buf (writePatchSize cfg (int fs) c) = patch_buf c"
  proof (cases "patchfile_pos c = 0")
    case True
    then have e: "fbytes (m_patchfile c) = []" "items = []" "last_chunk_patches c = []"
      using assms by (auto simp: patch_rep_def file_at_def length_patch_bytes)
    show ?thesis
      using True f e overwrite_end[of "[]" ?h] unfolding dd
      by (auto simp: patch_rep_def patch_bytes_def patch_only_def)
  next
    case False
    then have r: "patch_rep fs items [] c" using assms by auto
    let ?n = "length (patch_bytes fs items)"
    have b: "fbytes (m_patchfile c) = patch_bytes fs items" and pp: "patchfile_pos c = int ?n"
      using r by (simp_all add: patch_rep_def file_at_def)
    have "overwrite (patch_bytes fs items) 0 ?h = patch_bytes fs items" by (simp add: overwrite_def patch_bytes_def)
    then have "file_at (snd (File_Seek (int ?n) ?f)) (patch_bytes fs items) ?n"
      using f b seek_at[of ?f ?n] by (simp add: file_at_def)
    then show ?thesis
      using False r pp unfolding dd
      by (auto simp: patch_rep_def patch_seek_def patch_only_def)
  qed
  then show "patch_rep fs items [] (writePatchSize cfg (int fs) c)" "patch_only c (writePatchSize cfg (int fs) c)"
    "patch_buf (writePatchSize cfg (int fs) c) = patch_buf c" by blast+
qed

section \<open>The file that the items stand for\<close>

text \<open>\<open>ps\<close> is a patch of the first \<open>m\<close> bytes of the new file, which are \<open>X\<close>.\<close>

definition covers :: "byte list \<Rightarrow> nat \<Rightarrow> (int \<times> byte list) list \<Rightarrow> byte list \<Rightarrow> bool" where
  "covers old m ps X \<longleftrightarrow> patch_fits old m 0 ps \<and> patched_from old m 0 ps = X \<and> length X = m \<and>
     (\<forall>(off, d) \<in> set ps. off \<noteq> - 1 \<longrightarrow> nat off + length d \<le> m) \<and> (\<forall>p \<in> set ps. item_fits p)"

definition old_part :: "byte list \<Rightarrow> nat \<Rightarrow> nat \<Rightarrow> byte list" where
  "old_part old a b = take (b - a) (drop a old)"

lemma old_part_same [simp]: "old_part old a a = []"
  by (simp add: old_part_def)

lemma old_part_append: "a \<le> b \<Longrightarrow> b \<le> c \<Longrightarrow> old_part old a b @ old_part old b c = old_part old a c"
  using take_add[of "b - a" "c - b" "drop a old"] by (simp add: old_part_def add.commute)

lemma length_old_part: "b \<le> length old \<or> a = b \<Longrightarrow> length (old_part old a b) = b - a"
  by (auto simp: old_part_def)

lemma patched_from_extend:
  assumes "patch_fits old m pos ps" "length (patched_from old m pos ps) = m - pos" "pos \<le> m" "m \<le> e"
    and "\<forall>(off, d) \<in> set ps. off \<noteq> - 1 \<longrightarrow> nat off + length d \<le> m"
  shows "patched_from old e pos ps = patched_from old m pos ps @ old_part old m e \<and> patch_fits old e pos ps"
  using assms
proof (induction ps arbitrary: pos)
  case Nil
  show ?case
  proof (cases "m = pos")
    case False
    then have "m \<le> length old" using Nil.prems by (simp add: min_def split: if_splits)
    then show ?thesis
      using take_add[of "m - pos" "e - m" "drop pos old"] Nil.prems by (simp add: old_part_def add.commute)
  qed (simp add: old_part_def)
next
  case (Cons p ps)
  obtain off d where p: "p = (off, d)" by (cases p)
  show ?case
  proof (cases "off = - 1")
    case True
    then show ?thesis using Cons.IH[of pos] Cons.prems by (simp add: p)
  next
    case False
    have f: "item_fits (off, d)" "d \<noteq> []" "pos \<le> nat off" "nat off \<le> length old \<or> nat off = pos" "nat off + length d \<le> m"
      and rest: "patch_fits old m (nat off + length d) ps"
      using Cons.prems(1,5) False by (auto simp: p)
    have dl: "length d \<le> m - nat off" "length d \<le> e - nat off" using f(5) Cons.prems(4) by linarith+
    have l: "length (drop pos (take (nat off) old)) = nat off - pos" "take (m - nat off) d = d" "take (e - nat off) d = d"
      using f(3,4) take_all[OF dl(1)] take_all[OF dl(2)] by auto
    have "patched_from old m pos (p # ps) = drop pos (take (nat off) old) @ d @ patched_from old m (nat off + length d) ps"
      using False f dl by (simp add: p)
    then have "(nat off - pos) + length d + length (patched_from old m (nat off + length d) ps) = m - pos"
      using Cons.prems(2) l(1) by simp
    then have "length (patched_from old m (nat off + length d) ps) = m - (nat off + length d)"
      using f(3,5) by linarith
    then have ih: "patched_from old e (nat off + length d) ps = patched_from old m (nat off + length d) ps @ old_part old m e \<and>
        patch_fits old e (nat off + length d) ps"
      using Cons.IH[of "nat off + length d"] rest f(5) Cons.prems(4,5) by simp
    have "\<not> m < nat off + length d" "\<not> e < nat off + length d" "nat off \<le> e" using f(5) Cons.prems(4) by auto
    then show ?thesis using False f(1-4) dl ih by (simp add: p)
  qed
qed

lemma covers_extend:
  assumes "covers old m ps X" "m \<le> e" "e \<le> length old \<or> e = m"
  shows "covers old e ps (X @ old_part old m e)"
  using patched_from_extend[of old m 0 ps e] length_old_part[of e old m] assms unfolding covers_def by fastforce

lemma patched_from_item:
  assumes "patch_fits old m pos ps" "length (patched_from old m pos ps) = m - pos" "pos \<le> m"
    and "\<forall>(off, d) \<in> set ps. off \<noteq> - 1 \<longrightarrow> nat off + length d \<le> m" and it: "item_fits (int m, d)" "d \<noteq> []"
  shows "patched_from old (m + length d) pos (ps @ [(int m, d)]) = patched_from old m pos ps @ d \<and>
    patch_fits old (m + length d) pos (ps @ [(int m, d)])"
  using assms(1-4)
proof (induction ps arbitrary: pos)
  case Nil
  have "drop pos (take m old) = take (m - pos) (drop pos old)" by (simp add: drop_take)
  moreover have "m \<le> length old \<or> m = pos" using Nil.prems by (auto simp: min_def split: if_splits)
  ultimately show ?case using Nil.prems it by auto
next
  case (Cons p ps)
  obtain off e where p: "p = (off, e)" by (cases p)
  show ?case
  proof (cases "off = - 1")
    case True
    then show ?thesis using Cons.IH[of pos] Cons.prems by (simp add: p)
  next
    case False
    have f: "e \<noteq> []" "pos \<le> nat off" "nat off \<le> length old \<or> nat off = pos" "nat off + length e \<le> m"
      and rest: "patch_fits old m (nat off + length e) ps"
      using Cons.prems(1,4) False by (auto simp: p)
    have l: "length (drop pos (take (nat off) old)) = nat off - pos" "take (m - nat off) e = e" "take (m + length d - nat off) e = e"
      using f by auto
    have "patched_from old m pos (p # ps) = drop pos (take (nat off) old) @ e @ patched_from old m (nat off + length e) ps"
      using False f l by (simp add: p)
    then have "(nat off - pos) + length e + length (patched_from old m (nat off + length e) ps) = m - pos"
      using Cons.prems(2) l(1) by simp
    then have "length (patched_from old m (nat off + length e) ps) = m - (nat off + length e)"
      using f(2,4) by linarith
    then have ih: "patched_from old (m + length d) (nat off + length e) (ps @ [(int m, d)]) = patched_from old m (nat off + length e) ps @ d \<and>
        patch_fits old (m + length d) (nat off + length e) (ps @ [(int m, d)])"
      using Cons.IH[of "nat off + length e"] rest f(4) Cons.prems(4) by simp
    show ?thesis using False f l ih Cons.prems(1) by (simp add: p)
  qed
qed

lemma covers_item:
  assumes "covers old m ps X" "d \<noteq> []" "length d < 2 ^ 32" "m < 2 ^ 63"
  shows "covers old (m + length d) (ps @ [(int m, d)]) (X @ d)"
proof -
  have "item_fits (int m, d)" using assms by (simp add: item_fits_def)
  then show ?thesis using patched_from_item[of old m 0 ps d] assms unfolding covers_def by fastforce
qed

lemma patched_from_dead: "patched_from old m pos (ps @ map invalid qs) = patched_from old m pos ps"
proof (induction ps arbitrary: pos)
  case Nil
  show ?case by (induction qs) (simp_all add: invalid_def)
next
  case (Cons p ps)
  then show ?case by (cases p) simp
qed

lemma patch_fits_dead: "patch_fits old m pos ps \<Longrightarrow> \<forall>q \<in> set qs. length (snd q) < 2 ^ 32 \<Longrightarrow> patch_fits old m pos (ps @ map invalid qs)"
proof (induction ps arbitrary: pos)
  case Nil
  then show ?case by (induction qs) (simp_all add: invalid_def item_fits_def)
next
  case (Cons p ps)
  then show ?case by (cases p) (auto split: if_splits)
qed

lemma covers_dead: "covers old m ps X \<Longrightarrow> \<forall>q \<in> set qs. length (snd q) < 2 ^ 32 \<Longrightarrow> covers old m (ps @ map invalid qs) X"
  by (auto simp: covers_def patched_from_dead patch_fits_dead invalid_def item_fits_def)

text \<open>Items that follow one another.\<close>

fun contig :: "nat \<Rightarrow> (int \<times> byte list) list \<Rightarrow> bool" where
  "contig q [] \<longleftrightarrow> True"
| "contig q ((off, d) # ps) \<longleftrightarrow> off = int q \<and> d \<noteq> [] \<and> length d < 2 ^ 32 \<and> contig (q + length d) ps"

lemma covers_contig:
  "covers old m ps X \<Longrightarrow> contig m cur \<Longrightarrow> m + length (concat (map snd cur)) < 2 ^ 63 \<Longrightarrow>
   covers old (m + length (concat (map snd cur))) (ps @ cur) (X @ concat (map snd cur))"
proof (induction cur arbitrary: m ps X)
  case (Cons p cur)
  obtain off d where p: "p = (off, d)" by (cases p)
  have "covers old (m + length d) (ps @ [(int m, d)]) (X @ d)"
    using Cons.prems by (intro covers_item) (simp_all add: p)
  from Cons.IH[OF this] Cons.prems show ?case by (simp add: p add.assoc)
qed simp

lemma contig_append: "contig q (ps @ qs) \<longleftrightarrow> contig q ps \<and> contig (q + length (concat (map snd ps))) qs"
proof (induction ps arbitrary: q)
  case (Cons p ps)
  then show ?case by (cases p) (auto simp: add.assoc)
qed simp

lemma contig_small: "contig q ps \<Longrightarrow> \<forall>p \<in> set ps. length (snd p) < 2 ^ 32"
proof (induction ps arbitrary: q)
  case (Cons p ps)
  then show ?case by (cases p) auto
qed simp

section \<open>The buffer in front of the patch file\<close>

definition buf_rep :: "nat \<Rightarrow> (int \<times> byte list) list \<Rightarrow> (int \<times> byte list) list \<Rightarrow> nat \<Rightarrow> byte list \<Rightarrow> chunk_client \<Rightarrow> bool" where
  "buf_rep fs items cur pos b c \<longleftrightarrow> patch_rep fs items cur c \<and> patch_buf c = b \<and> length b < 4096 \<and> length b \<le> pos \<and>
     (b \<noteq> [] \<longrightarrow> patch_buf_start c = int (pos - length b))"

lemma patch_rep_frame:
  "m_patchfile d = m_patchfile c \<Longrightarrow> patchfile_pos d = patchfile_pos c \<Longrightarrow> last_chunk_patches d = last_chunk_patches c \<Longrightarrow>
   patch_rep fs items cur d = patch_rep fs items cur c"
  by (simp add: patch_rep_def)

lemma flush_buf:
  assumes "patch_rep fs items cur c" "length b < 2 ^ 32" "q < 2 ^ 63" "patch_buf c = b'" "patch_buf_start c = st"
  shows "patch_rep fs items (cur @ [(int q, b)]) ((writePatchInt cfg (int q) b c)\<lparr>patch_buf := x\<rparr>)"
    "patch_only c ((writePatchInt cfg (int q) b c)\<lparr>patch_buf := x\<rparr>)"
proof -
  have w: "patch_rep fs items (cur @ [(int q, b)]) (writePatchInt cfg (int q) b c)" "patch_only c (writePatchInt cfg (int q) b c)"
    using writePatchInt_rep[OF assms(1,2), of "int q"] assms(3) by simp_all
  show "patch_rep fs items (cur @ [(int q, b)]) ((writePatchInt cfg (int q) b c)\<lparr>patch_buf := x\<rparr>)"
    using w(1) by (simp add: patch_rep_def)
  have "patch_only (writePatchInt cfg (int q) b c) ((writePatchInt cfg (int q) b c)\<lparr>patch_buf := x\<rparr>)" by (simp add: patch_only_def)
  then show "patch_only c ((writePatchInt cfg (int q) b c)\<lparr>patch_buf := x\<rparr>)" using w(2) patch_only_trans by blast
qed

lemma writePatch_rep:
  assumes r: "buf_rep fs items cur pos b c" and d: "d \<noteq> []" "length d < 2 ^ 31" "pos + length d < 2 ^ 63"
  shows "\<exists>cur' b'. buf_rep fs items (cur @ cur') (pos + length d) b' (writePatch cfg (int pos) d is_last c) \<and>
    contig (pos - length b) cur' \<and> concat (map snd cur') @ b' = b @ d \<and> (is_last \<longrightarrow> b' = []) \<and>
    patch_only c (writePatch cfg (int pos) d is_last c)"
proof -
  have p: "patch_rep fs items cur c" "patch_buf c = b" "length b < 4096" "length b \<le> pos" "b \<noteq> [] \<longrightarrow> patch_buf_start c = int (pos - length b)"
    using r by (simp_all add: buf_rep_def)
  define q where "q = pos - length b"
  have q: "pos = q + length b" "q < 2 ^ 63" using p(4) d(3) by (simp_all add: q_def)
  have st: "b = [] \<or> int pos = patch_buf_start c + int (length b)" using p(4,5) by auto
  have bd: "length (b @ d) < 2 ^ 32" using p(3) d(2) by simp
  show ?thesis
  proof (cases "length d \<le> 4096 - length b")
    case True
    let ?c = "c\<lparr>patch_buf_start := int q, patch_buf := b @ d\<rparr>"
    have s: "(if b = [] then int pos else patch_buf_start c) = int q" using p(5) by (auto simp: q)
    have c1: "patch_rep fs items cur ?c" "patch_only c ?c" using p(1) by (simp_all add: patch_rep_def patch_only_def)
    show ?thesis
    proof (cases "is_last \<or> length (b @ d) = 4096")
      case f: True
      have w: "writePatch cfg (int pos) d is_last c = (writePatchInt cfg (int q) (b @ d) ?c)\<lparr>patch_buf := []\<rparr>"
        using True f st s p(2) by (auto simp: writePatch_def c_chunk_size_def Let_def)
      have "patch_rep fs items (cur @ [(int q, b @ d)]) (writePatch cfg (int pos) d is_last c)"
        "patch_only c (writePatch cfg (int pos) d is_last c)"
        using flush_buf[OF c1(1) bd q(2) refl refl, where cfg = cfg and x = "[]"] c1(2) patch_only_trans unfolding w by auto
      moreover have "patch_buf (writePatch cfg (int pos) d is_last c) = []" unfolding w by simp
      ultimately show ?thesis using d bd by (intro exI[of _ "[(int q, b @ d)]"] exI[of _ "[]"]) (simp add: buf_rep_def q)
    next
      case f: False
      have w: "writePatch cfg (int pos) d is_last c = ?c"
        using True f st s p(2) d(1) by (auto simp: writePatch_def c_chunk_size_def Let_def)
      have "length b + length d \<le> 4096" using True p(3) by linarith
      then have "length (b @ d) < 4096" using f by simp
      then show ?thesis unfolding w
        using d c1 f by (intro exI[of _ "[]"] exI[of _ "b @ d"]) (simp add: buf_rep_def q)
    qed
  next
    case False
    define c1 where "c1 = (if b \<noteq> [] then (writePatchInt cfg (int q) b c)\<lparr>patch_buf := []\<rparr> else c)"
    define cur1 where "cur1 = (if b \<noteq> [] then [(int q, b)] else [])"
    have bl: "length b < 2 ^ 32" using p(3) by simp
    have c1: "patch_rep fs items (cur @ cur1) c1" "patch_only c c1" "patch_buf c1 = []"
      using flush_buf[OF p(1) bl q(2) refl refl, where cfg = cfg and x = "[]"] p(1,2) by (auto simp: c1_def cur1_def)
    have k1: "contig q cur1" "concat (map snd cur1) = b" using bl by (auto simp: cur1_def)
    have bs: "b \<noteq> [] \<Longrightarrow> patch_buf_start c = int q" using p(5) by (simp add: q_def)
    have w: "writePatch cfg (int pos) d is_last c =
        (if \<not> is_last \<and> length d < 4096 then c1\<lparr>patch_buf_start := int pos, patch_buf := d\<rparr> else writePatchInt cfg (int pos) d c1)"
      using False p(2) d(1) bs by (auto simp: writePatch_def c_chunk_size_def Let_def c1_def)
    show ?thesis
    proof (cases "\<not> is_last \<and> length d < 4096")
      case True
      have e: "writePatch cfg (int pos) d is_last c = c1\<lparr>patch_buf_start := int pos, patch_buf := d\<rparr>" using True w by simp
      have "patch_only c1 (c1\<lparr>patch_buf_start := int pos, patch_buf := d\<rparr>)" by (simp add: patch_only_def)
      then have "patch_only c (c1\<lparr>patch_buf_start := int pos, patch_buf := d\<rparr>)" using c1(2) patch_only_trans by blast
      then show ?thesis unfolding e
        using True c1(1) k1 d by (intro exI[of _ cur1] exI[of _ d]) (auto simp: buf_rep_def patch_rep_def q)
    next
      case F: False
      have e: "writePatch cfg (int pos) d is_last c = writePatchInt cfg (int pos) d c1" by (simp only: w F if_False)
      have dl: "length d < 2 ^ 32" using d(2) by simp
      have pp: "- 1 \<le> int pos" "int pos < 2 ^ 63" using d(3) by simp_all
      have k: "contig q (cur1 @ [(int pos, d)])" using k1 d by (simp add: contig_append q)
      show ?thesis unfolding e
        using writePatchInt_rep[OF c1(1) dl pp, of cfg] c1(2,3) patch_only_trans k1 k q
        by (intro exI[of _ "cur1 @ [(int pos, d)]"] exI[of _ "[]"]) (auto simp: buf_rep_def)
    qed
  qed
qed

section \<open>The hash file\<close>

definition ho_all :: "(byte list \<Rightarrow> nat \<Rightarrow> bool) \<Rightarrow> chunk_client \<Rightarrow> bool" where
  "ho_all Q c \<longleftrightarrow> (\<forall>f. m_hashoutput c = Some f \<longrightarrow> no_fault f \<and> Q (fbytes f) (fpos f))"

lemma ho_all_mono: "ho_all Q c \<Longrightarrow> (\<And>bs p. Q bs p \<Longrightarrow> R bs p) \<Longrightarrow> ho_all R c"
  by (simp add: ho_all_def)

lemma hash_seek_all: "ho_all (\<lambda>bs q. Q bs) c \<Longrightarrow> 0 \<le> p \<Longrightarrow> ho_all (\<lambda>bs q. Q bs \<and> q = nat p) (hash_seek p c)"
  using seek_at[of _ "nat p"] by (fastforce simp: ho_all_def hash_seek_def file_at_def)

lemma hash_write_all:
  "ho_all Q c \<Longrightarrow> length buf \<le> 2 ^ 32 \<Longrightarrow> (\<And>bs p. Q bs p \<Longrightarrow> R (overwrite bs p buf) (p + length buf)) \<Longrightarrow> ho_all R (hash_write cfg buf c)"
  using write_repeat_at[of _ buf cfg] by (fastforce simp: ho_all_def hash_write_def file_at_def)

definition starts :: "byte list \<Rightarrow> byte list \<Rightarrow> bool" where
  "starts bs A \<longleftrightarrow> take (length A) bs = A"

lemma starts_overwrite:
  assumes "starts bs (A @ B @ C)" "length B = length d"
  shows "starts (overwrite bs (length A) d) (A @ d @ C)"
proof -
  obtain z where z: "bs = (A @ B @ C) @ z" using assms(1) append_take_drop_id[of "length (A @ B @ C)" bs] unfolding starts_def by metis
  have "overwrite bs (length A) d = A @ d @ C @ z"
    unfolding z using assms(2) by (cases "d = []") (auto simp: overwrite_def)
  then show ?thesis by (simp add: starts_def)
qed

lemma starts_append:
  assumes "starts bs A"
  shows "starts (overwrite bs (length A) d) (A @ d)"
proof -
  obtain z where z: "bs = A @ z" using assms append_take_drop_id[of "length A" bs] unfolding starts_def by metis
  show ?thesis unfolding z by (cases "d = []") (simp_all add: overwrite_def starts_def)
qed

lemma starts_prefix:
  assumes "starts bs (A @ B)"
  shows "starts bs A"
proof -
  have "take (length A) (take (length (A @ B)) bs) = take (length A) (A @ B)" using assms by (simp only: starts_def)
  then show ?thesis by (simp add: starts_def take_take)
qed

end
