(* ===== verification/Client_State.thy ===== *)
theory Client_State
  imports Client_Write Chunk_Hash_File
begin

text \<open>
  The states of the server's side of a block difference in terms of the two files: what has been received of the block that
  is being transferred, what the patch and the hash file contain, and which messages are still to come.
\<close>

section \<open>Blocks of a file\<close>

definition nblocks :: "byte list \<Rightarrow> nat" where
  "nblocks data = (length data + c_checkpoint_dist - 1) div c_checkpoint_dist"

abbreviation blockdist :: nat where "blockdist \<equiv> c_checkpoint_dist"

lemma blockdist_pos: "0 < blockdist"
  by (simp add: c_checkpoint_dist_def)

lemma less_nblocks: "k < nblocks data \<longleftrightarrow> blockdist * k < length data"
proof -
  have "k < nblocks data \<longleftrightarrow> Suc k * blockdist \<le> length data + blockdist - 1"
    unfolding nblocks_def by (simp add: less_eq_div_iff_mult_less_eq[OF blockdist_pos] Suc_le_eq[symmetric] del: mult_Suc)
  also have "\<dots> \<longleftrightarrow> blockdist * k < length data" using blockdist_pos by (simp add: mult.commute) linarith
  finally show ?thesis .
qed

lemma chunks_of_map:
  "0 < n \<Longrightarrow> chunks_of n xs = map (\<lambda>k. take n (drop (n * k) xs)) [0..<length (chunks_of n xs)]"
proof (induction n xs rule: chunks_of.induct)
  case (1 n xs)
  show ?case
  proof (cases "xs = []")
    case False
    have c: "chunks_of n xs = take n xs # chunks_of n (drop n xs)" using False 1(2) by (subst chunks_of.simps) simp
    have ih: "chunks_of n (drop n xs) = map (\<lambda>k. take n (drop (n * k) (drop n xs))) [0..<length (chunks_of n (drop n xs))]"
      using 1(1)[OF _ 1(2)] False 1(2) by simp
    have "[0..<Suc (length (chunks_of n (drop n xs)))] = 0 # map Suc [0..<length (chunks_of n (drop n xs))]"
      by (simp only: upt_conv_Cons zero_less_Suc map_Suc_upt)
    then show ?thesis by (subst c, subst ih) (simp add: c add.commute)
  qed simp
qed

lemma hash_file_blocks:
  "hash_file data = le_bytes 8 (of_nat (length data) :: u64) @ concat (map (\<lambda>k. chunk_hash False (block_bytes data (blockdist * k))) [0..<nblocks data])"
proof -
  have "length (chunks_of blockdist data) = nblocks data" by (simp add: length_chunks_of blockdist_pos nblocks_def)
  then have "chunks_of blockdist data = map (\<lambda>k. block_bytes data (blockdist * k)) [0..<nblocks data]"
    using chunks_of_map[OF blockdist_pos, of data] by (simp add: block_bytes_def)
  then show ?thesis by (simp add: hash_file_def comp_def)
qed

text \<open>The hashes of a block: its digest and the checksums of its chunks.\<close>

definition chunk_words :: "byte list \<Rightarrow> byte list" where
  "chunk_words b = words_of False (chunks_of 4096 b)"

lemma chunk_hash_parts: "chunk_hash False b = md5_of b @ chunk_words b"
  by (simp add: chunk_hash_words chunk_words_def)

definition hash_prefix :: "byte list \<Rightarrow> nat \<Rightarrow> byte list" where
  "hash_prefix data k = le_bytes 8 (of_nat (length data) :: u64) @ concat (map (\<lambda>j. chunk_hash False (block_bytes data (blockdist * j))) [0..<k])"

lemma hash_prefix_Suc: "hash_prefix data (Suc k) = hash_prefix data k @ chunk_hash False (block_bytes data (blockdist * k))"
  by (simp add: hash_prefix_def)

lemma hash_prefix_all: "hash_prefix data (nblocks data) = hash_file data"
  by (simp add: hash_prefix_def hash_file_blocks)

lemma block_full: "Suc k < nblocks data \<or> blockdist * Suc k \<le> length data \<Longrightarrow> length (block_bytes data (blockdist * k)) = blockdist"
  by (auto simp: less_nblocks block_bytes_length)

lemma length_block_hash:
  assumes "length b = blockdist"
  shows "length (chunk_hash False b) = 528"
  using assms by (simp add: length_chunk_hash length_chunks_of c_checkpoint_dist_def)

lemma length_hash_prefix: "k \<le> nblocks data \<Longrightarrow> k = 0 \<or> k < nblocks data \<or> blockdist * k \<le> length data \<Longrightarrow> length (hash_prefix data k) = 8 + 528 * k"
proof (induction k)
  case (Suc k)
  have "length (block_bytes data (blockdist * k)) = blockdist" using Suc.prems by (intro block_full) auto
  moreover have "k = 0 \<or> k < nblocks data \<or> blockdist * k \<le> length data" using Suc.prems by auto
  ultimately show ?case using Suc by (simp add: hash_prefix_Suc length_block_hash)
qed (simp add: hash_prefix_def)

lemma length_hash_prefix': "k < nblocks data \<Longrightarrow> length (hash_prefix data k) = 8 + 528 * k"
  using length_hash_prefix[of k data] by simp

text \<open>What the server sends with a request, and the answer.\<close>

definition stored_hashes :: "byte list \<Rightarrow> nat \<Rightarrow> byte list" where
  "stored_hashes old k =
     (if k < nblocks old then
        let h = chunk_hash False (block_bytes old (blockdist * k)) in h @ replicate (528 - length h) 0
      else replicate 528 0)"

definition answer :: "byte list \<Rightarrow> byte list \<Rightarrow> nat \<Rightarrow> block_msg list" where
  "answer old new k =
     (if k < nblocks old then
        block_answer new (length old) (blockdist * k) (take 16 (stored_hashes old k)) (drop 16 (stored_hashes old k))
      else whole_answer new (blockdist * k))"

definition answers :: "byte list \<Rightarrow> byte list \<Rightarrow> nat \<Rightarrow> nat \<Rightarrow> block_msg list" where
  "answers old new k l = concat (map (answer old new) [k..<l])"

lemma answers_Cons: "k < l \<Longrightarrow> answers old new k l = answer old new k @ answers old new (Suc k) l"
  by (simp add: answers_def upt_conv_Cons)

lemma answers_empty [simp]: "answers old new k k = []"
  by (simp add: answers_def)

lemma length_stored_hashes: "length (stored_hashes old k) = 528"
proof -
  have "length (chunks_of 4096 (block_bytes old (blockdist * k))) \<le> 128"
    by (simp add: length_chunks_of block_bytes_def c_checkpoint_dist_def)
  then show ?thesis by (simp add: stored_hashes_def Let_def length_chunk_hash)
qed

section \<open>The updates of a block\<close>

text \<open>The chunks of a new block, the words of their checksums, and the hashes that the server has of the old block.\<close>

definition piece_of :: "byte list \<Rightarrow> nat \<Rightarrow> byte list" where
  "piece_of b i = take 4096 (drop (4096 * i) b)"

definition npieces :: "byte list \<Rightarrow> nat" where
  "npieces b = (length b + 4095) div 4096"

abbreviation small_hashes :: "byte list \<Rightarrow> nat \<Rightarrow> byte list" where
  "small_hashes old k \<equiv> drop 16 (stored_hashes old k)"

text \<open>The words in the hash file when the chunks before \<open>i\<close> are done.\<close>

definition upd_words :: "byte list \<Rightarrow> byte list \<Rightarrow> nat \<Rightarrow> byte list list" where
  "upd_words small b i =
     map (\<lambda>j. if j < i then le_bytes 4 (adler32_of (piece_of b j)) else take 4 (drop (4 * j) small)) [0..<npieces b]"

lemma less_npieces: "j < npieces b \<longleftrightarrow> 4096 * j < length b"
  unfolding npieces_def by linarith

lemma upd_words_done: "length b < 4096 * i \<or> length b \<le> 4096 * i \<Longrightarrow> concat (upd_words small b i) = chunk_words b"
proof -
  assume i: "length b < 4096 * i \<or> length b \<le> 4096 * i"
  have n: "length (chunks_of 4096 b) = npieces b" by (simp add: length_chunks_of npieces_def)
  have "upd_words small b i = map (\<lambda>j. le_bytes 4 (adler32_of (piece_of b j))) [0..<npieces b]"
    unfolding upd_words_def using i by (intro map_cong) (auto simp: less_npieces)
  moreover have "chunks_of 4096 b = map (piece_of b) [0..<npieces b]"
    using chunks_of_map[of 4096 b] by (simp add: n piece_of_def)
  ultimately show ?thesis by (simp add: chunk_words_def words_of_def comp_def mem_of_def)
qed

lemma length_upd_words:
  assumes "length b \<le> blockdist"
  shows "length (concat (upd_words (small_hashes old k) b i)) = 4 * npieces b"
proof -
  have lu: "length (upd_words (small_hashes old k) b i) = npieces b" by (simp add: upd_words_def)
  have "length (upd_words (small_hashes old k) b i ! j) = 4" if j: "j < npieces b" for j
  proof -
    have "j < 128" using j assms by (simp add: less_npieces c_checkpoint_dist_def)
    then have "length (take 4 (drop (4 * j) (small_hashes old k))) = 4" using length_stored_hashes[of old k] by simp
    then show ?thesis using j by (simp add: upd_words_def)
  qed
  then have "map length (upd_words (small_hashes old k) b i) = map (\<lambda>_. 4) [0..<npieces b]"
    by (intro nth_equalityI) (simp_all add: lu)
  then show ?thesis by (simp add: length_concat sum_list_triv mult.commute)
qed

text \<open>The chunks from the \<open>i\<close>-th on as the client reads them, and the messages for them.\<close>

definition rest_pieces :: "byte list \<Rightarrow> nat \<Rightarrow> byte list list" where
  "rest_pieces b i = (if 4096 * i \<le> length b then pieces_from (128 - i) (drop (4096 * i) b) else [])"

lemma rest_pieces_step: "i < 128 \<Longrightarrow> 4096 * i \<le> length b \<Longrightarrow> rest_pieces b i = piece_of b i # rest_pieces b (Suc i)"
proof -
  assume i: "i < 128" "4096 * i \<le> length b"
  then have "128 - i = Suc (128 - Suc i)" by simp
  then show ?thesis using i by (auto simp: rest_pieces_def piece_of_def add.commute)
qed

lemma rest_pieces_end: "128 \<le> i \<or> length b < 4096 * i \<Longrightarrow> rest_pieces b i = []"
  by (auto simp: rest_pieces_def)

abbreviation new_block :: "byte list \<Rightarrow> nat \<Rightarrow> byte list" where
  "new_block new k \<equiv> block_bytes new (blockdist * k)"

definition upd_rest :: "byte list \<Rightarrow> byte list \<Rightarrow> nat \<Rightarrow> nat \<Rightarrow> block_msg list" where
  "upd_rest old new k i =
     piece_updates (length old) (small_hashes old k) (blockdist * k + 4096 * i) i (rest_pieces (new_block new k) i) @
     [Hash (blockdist * k) (md5_of (new_block new k))]"

text \<open>The block as the server puts it together: parts of the old file up to the next update. \<open>w\<close> is what it has so far.\<close>

fun rebuild :: "byte list \<Rightarrow> nat \<Rightarrow> byte list \<Rightarrow> nat \<Rightarrow> byte list \<Rightarrow> byte list list \<Rightarrow> byte list" where
  "rebuild old p small j w [] = w"
| "rebuild old p small j w (c # cs) =
     rebuild old p small (Suc j)
       (if piece_differs (length old) small (p + 4096 * j) j c then w @ old_part old (p + length w) (p + 4096 * j) @ c else w) cs"

definition rebuilt_from :: "byte list \<Rightarrow> byte list \<Rightarrow> nat \<Rightarrow> nat \<Rightarrow> byte list \<Rightarrow> byte list" where
  "rebuilt_from old new k i w =
     (let p = blockdist * k; b = new_block new k; w' = rebuild old p (small_hashes old k) i w (rest_pieces b i)
      in w' @ old_part old (p + length w') (p + length b))"

definition rebuilt :: "byte list \<Rightarrow> byte list \<Rightarrow> nat \<Rightarrow> byte list" where
  "rebuilt old new k = rebuilt_from old new k 0 []"

text \<open>What is not sent is in the old file.\<close>

definition caught_up :: "byte list \<Rightarrow> byte list \<Rightarrow> nat \<Rightarrow> nat \<Rightarrow> nat \<Rightarrow> bool" where
  "caught_up old new k q i \<longleftrightarrow>
     (let e = blockdist * k + min (4096 * i) (length (new_block new k)) in q \<le> e \<and> (e \<le> length old \<or> e = q))"

lemma caught_up_start: "caught_up old new k (blockdist * k) 0"
  by (simp add: caught_up_def)

lemma piece_skipped:
  assumes i: "i < 128" "4096 * i \<le> length (new_block new k)"
    and s: "\<not> piece_differs (length old) (small_hashes old k) (blockdist * k + 4096 * i) i (piece_of (new_block new k) i)"
    and c: "caught_up old new k q i"
  shows "upd_rest old new k i = upd_rest old new k (Suc i)" "caught_up old new k q (Suc i)"
    "upd_words (small_hashes old k) (new_block new k) i = upd_words (small_hashes old k) (new_block new k) (Suc i)"
    "rebuilt_from old new k i w = rebuilt_from old new k (Suc i) w"
proof -
  let ?b = "new_block new k" and ?h = "small_hashes old k"
  have e: "adler32_of (piece_of ?b i) = small_hash_at i ?h" "blockdist * k + 4096 * i + length (piece_of ?b i) \<le> length old"
    using s by (auto simp: piece_differs_def)
  have l: "length (take 4 (drop (4 * i) ?h)) = 4" using i(1) length_stored_hashes[of old k] by simp
  have "le_bytes 4 (adler32_of (piece_of ?b i)) = take 4 (drop (4 * i) ?h)"
    unfolding e(1) small_hash_at_def using le_bytes_le_word[OF l, where 'a = 32] by simp
  then show "upd_words ?h ?b i = upd_words ?h ?b (Suc i)"
    unfolding upd_words_def by (intro map_cong) (auto simp: less_Suc_eq)
  have pos: "blockdist * k + 4096 * i + 4096 = blockdist * k + 4096 * Suc i" by simp
  show "upd_rest old new k i = upd_rest old new k (Suc i)" "rebuilt_from old new k i w = rebuilt_from old new k (Suc i) w"
    unfolding upd_rest_def rebuilt_from_def Let_def rest_pieces_step[OF i] piece_updates.simps rebuild.simps if_not_P[OF s] pos by simp_all
  have m: "min (4096 * i) (length ?b) = 4096 * i" "min (4096 * Suc i) (length ?b) = 4096 * i + length (piece_of ?b i)"
    using i(2) by (simp_all add: piece_of_def)
  have "q \<le> blockdist * k + 4096 * i" using c unfolding caught_up_def Let_def m(1) by simp
  then show "caught_up old new k q (Suc i)" using e(2) unfolding caught_up_def Let_def m(2) by simp
qed

text \<open>The next update: chunks that are not sent are passed over.\<close>

definition all_passed :: "byte list \<Rightarrow> nat \<Rightarrow> nat \<Rightarrow> bool" where
  "all_passed new k i \<longleftrightarrow> 128 \<le> i \<or> length (new_block new k) < 4096 * i"

lemma next_update:
  assumes "caught_up old new k q i"
  shows "\<exists>j. caught_up old new k q j \<and> upd_rest old new k j = upd_rest old new k i \<and>
    upd_words (small_hashes old k) (new_block new k) j = upd_words (small_hashes old k) (new_block new k) i \<and>
    rebuilt_from old new k j w = rebuilt_from old new k i w \<and>
    (all_passed new k j \<or> \<not> all_passed new k j \<and>
       piece_differs (length old) (small_hashes old k) (blockdist * k + 4096 * j) j (piece_of (new_block new k) j))"
  using assms
proof (induction "128 - i" arbitrary: i rule: less_induct)
  case less
  show ?case
  proof (cases "all_passed new k i \<or> piece_differs (length old) (small_hashes old k) (blockdist * k + 4096 * i) i (piece_of (new_block new k) i)")
    case True
    then show ?thesis using less.prems by (intro exI[of _ i]) blast
  next
    case False
    then have i: "i < 128" "4096 * i \<le> length (new_block new k)"
      and s: "\<not> piece_differs (length old) (small_hashes old k) (blockdist * k + 4096 * i) i (piece_of (new_block new k) i)"
      by (auto simp: all_passed_def)
    note p = piece_skipped[OF i s less.prems]
    have "128 - Suc i < 128 - i" using i(1) by simp
    from less.hyps[OF this p(2)] show ?thesis unfolding p(1,3,4) .
  qed
qed

lemma upd_rest_end: "all_passed new k i \<Longrightarrow> upd_rest old new k i = [Hash (blockdist * k) (md5_of (new_block new k))]"
  using rest_pieces_end[of i "new_block new k"] by (simp add: upd_rest_def all_passed_def)

lemma rebuilt_end: "all_passed new k i \<Longrightarrow> rebuilt_from old new k i w = w @ old_part old (blockdist * k + length w) (blockdist * k + length (new_block new k))"
  using rest_pieces_end[of i "new_block new k"] by (simp add: rebuilt_from_def all_passed_def Let_def)

lemma new_block_le: "length (new_block new k) \<le> 4096 * 128"
  by (simp add: block_bytes_length c_checkpoint_dist_def)

lemma words_end: "all_passed new k i \<Longrightarrow> concat (upd_words small (new_block new k) i) = chunk_words (new_block new k)"
  by (rule upd_words_done) (use new_block_le[of new k] in \<open>auto simp: all_passed_def\<close>)

lemma caught_up_end: "all_passed new k i \<Longrightarrow> caught_up old new k q i \<Longrightarrow> q \<le> blockdist * k + length (new_block new k) \<and>
    (blockdist * k + length (new_block new k) \<le> length old \<or> blockdist * k + length (new_block new k) = q)"
proof -
  assume a: "all_passed new k i" "caught_up old new k q i"
  have "min (4096 * i) (length (new_block new k)) = length (new_block new k)"
    using a(1) new_block_le[of new k] by (auto simp: all_passed_def min_def)
  then show ?thesis using a(2) by (simp add: caught_up_def Let_def)
qed

lemma update_next:
  assumes "\<not> all_passed new k i"
    and s: "piece_differs (length old) (small_hashes old k) (blockdist * k + 4096 * i) i (piece_of (new_block new k) i)"
  shows "upd_rest old new k i = Update (blockdist * k + 4096 * i) (piece_of (new_block new k) i) # upd_rest old new k (Suc i)"
    "rebuilt_from old new k i w =
       rebuilt_from old new k (Suc i) (w @ old_part old (blockdist * k + length w) (blockdist * k + 4096 * i) @ piece_of (new_block new k) i)"
proof -
  have i: "i < 128" "4096 * i \<le> length (new_block new k)" using assms(1) by (auto simp: all_passed_def)
  have pos: "blockdist * k + 4096 * i + 4096 = blockdist * k + 4096 * Suc i" by simp
  show "upd_rest old new k i = Update (blockdist * k + 4096 * i) (piece_of (new_block new k) i) # upd_rest old new k (Suc i)"
    "rebuilt_from old new k i w =
       rebuilt_from old new k (Suc i) (w @ old_part old (blockdist * k + length w) (blockdist * k + 4096 * i) @ piece_of (new_block new k) i)"
    unfolding upd_rest_def rebuilt_from_def Let_def rest_pieces_step[OF i] piece_updates.simps rebuild.simps if_P[OF s] pos by simp_all
qed

lemma caught_up_Suc: "\<not> all_passed new k i \<Longrightarrow> caught_up old new k (blockdist * k + 4096 * i + length (piece_of (new_block new k) i)) (Suc i)"
proof -
  assume "\<not> all_passed new k i"
  then have "4096 * i \<le> length (new_block new k)" by (simp add: all_passed_def)
  then have "min (4096 * Suc i) (length (new_block new k)) = 4096 * i + length (piece_of (new_block new k) i)" by (simp add: piece_of_def)
  then show ?thesis by (simp add: caught_up_def Let_def)
qed

end
