(* ===== verification/Client_Step.thy ===== *)
theory Client_Step
  imports Client_State
begin

text \<open>
  The states of the server's side of a block difference in terms of the two files, and what its state machine does in them
  with the messages of an answer.
\<close>

section \<open>States\<close>

definition pending_from :: "byte list \<Rightarrow> nat \<Rightarrow> chunk_client \<Rightarrow> bool" where
  "pending_from old k c \<longleftrightarrow> 0 \<le> next_chunk c \<and> k \<le> nat (next_chunk c) \<and>
     pending_chunks c = map (\<lambda>j. (int (blockdist * j), stored_hashes old j)) [k..<nat (next_chunk c)]"

text \<open>What holds all the time after the size of the file is known; the blocks before \<open>k\<close> are done.\<close>

definition client_base :: "client_config \<Rightarrow> byte list \<Rightarrow> byte list \<Rightarrow> nat \<Rightarrow> chunk_client \<Rightarrow> bool" where
  "client_base cfg old new k c \<longleftrightarrow> patch_mode cfg \<and> no_fault (m_file c) \<and> fbytes (m_file c) = old \<and> length (packet_buf c) = 24 \<and>
     \<not> getfile_done c \<and> \<not> reconnected c \<and> length (buffer (md5_hash c)) = 64 \<and> pending_from old k c \<and>
     nat (next_chunk c) \<le> nblocks new \<and> new \<noteq> [] \<and> length new < 2 ^ 63 \<and> length old < 2 ^ 63 \<and>
     no_fault (m_chunkhashes c) \<and> fbytes (m_chunkhashes c) = hash_file old \<and> num_chunks c = int (nblocks old) \<and>
     curr_sparse_extent c = None"

definition size_known :: "byte list \<Rightarrow> chunk_client \<Rightarrow> bool" where
  "size_known new c \<longleftrightarrow> remote_filesize c = int (length new) \<and> num_total_chunks c = int (nblocks new)"

definition hashes_fit :: "byte list \<Rightarrow> (byte list \<Rightarrow> nat \<Rightarrow> bool) \<Rightarrow> chunk_client \<Rightarrow> bool" where
  "hashes_fit new Q c \<longleftrightarrow> ho_all (\<lambda>bs p. length bs \<le> length (hash_file new) \<and> Q bs p) c"

definition upto_block :: "byte list \<Rightarrow> nat \<Rightarrow> nat" where
  "upto_block new k = min (blockdist * k) (length new)"

definition small_items :: "(int \<times> byte list) list \<Rightarrow> bool" where
  "small_items cur \<longleftrightarrow> (\<forall>p \<in> set cur. length (snd p) < 2 ^ 32)"

definition at_block :: "client_config \<Rightarrow> byte list \<Rightarrow> byte list \<Rightarrow> nat \<Rightarrow> chunk_client \<Rightarrow> bool" where
  "at_block cfg old new k c \<longleftrightarrow> client_base cfg old new k c \<and> size_known new c \<and> patch_buf c = [] \<and>
     (\<exists>items. patch_rep (length new) items [] c \<and> covers old (upto_block new k) items (take (upto_block new k) new)) \<and>
     block_for_chunk_start c < int (blockdist * k) \<and> hashes_fit new (\<lambda>bs p. starts bs (hash_prefix new k)) c"

text \<open>In block \<open>k\<close>; the finished blocks are described by \<open>items\<close>.\<close>

definition in_blk :: "client_config \<Rightarrow> byte list \<Rightarrow> byte list \<Rightarrow> nat \<Rightarrow> (int \<times> byte list) list \<Rightarrow> chunk_client \<Rightarrow> bool" where
  "in_blk cfg old new k items c \<longleftrightarrow> client_base cfg old new k c \<and> size_known new c \<and> k < nat (next_chunk c) \<and>
     covers old (blockdist * k) items (take (blockdist * k) new) \<and> block_for_chunk_start c = int (blockdist * k)"

text \<open>The bytes of the block that the patch has up to \<open>q\<close> are \<open>w\<close>.\<close>

definition have_upto :: "byte list \<Rightarrow> byte list \<Rightarrow> nat \<Rightarrow> (int \<times> byte list) list \<Rightarrow> (int \<times> byte list) list \<Rightarrow> nat \<Rightarrow> byte list \<Rightarrow> bool" where
  "have_upto old new k items cur q w \<longleftrightarrow> covers old q (items @ cur) (take (blockdist * k) new @ w) \<and> q = blockdist * k + length w \<and> small_items cur"

text \<open>The new data \<open>d\<close> from \<open>q\<close> on, part of it still in the buffer in front of the patch.\<close>

definition taking :: "byte list \<Rightarrow> (int \<times> byte list) list \<Rightarrow> (int \<times> byte list) list \<Rightarrow> nat \<Rightarrow> byte list \<Rightarrow> chunk_client \<Rightarrow> bool" where
  "taking new items cur q d c \<longleftrightarrow>
     (\<exists>cur1 b. buf_rep (length new) items (cur @ cur1) (q + length d) b c \<and> contig q cur1 \<and> concat (map snd cur1) @ b = d) \<and>
     fc_file_pos c = int (q + length d)"

text \<open>Between two updates: the next chunk to be looked at is the \<open>i\<close>-th.\<close>

definition slot_words :: "byte list \<Rightarrow> nat \<Rightarrow> byte list \<Rightarrow> byte list \<Rightarrow> bool" where
  "slot_words new k ws bs \<longleftrightarrow> (\<exists>big. length big = 16 \<and> starts bs (hash_prefix new k @ big @ ws))"

definition in_updates :: "client_config \<Rightarrow> byte list \<Rightarrow> byte list \<Rightarrow> nat \<Rightarrow> nat \<Rightarrow> chunk_client \<Rightarrow> bool" where
  "in_updates cfg old new k i c \<longleftrightarrow>
     (\<exists>items cur q w. in_blk cfg old new k items c \<and> have_upto old new k items cur q w \<and> patch_rep (length new) items cur c \<and>
        md5_inv (md5_hash c) w \<and> chunk_start c = int q \<and> caught_up old new k q i \<and> rebuilt_from old new k i w = rebuilt old new k) \<and>
     patch_buf c = [] \<and> \<not> hash_for_whole_block c \<and>
     hashes_fit new (\<lambda>bs p. slot_words new k (concat (upd_words (small_hashes old k) (new_block new k) i)) bs) c"

text \<open>In an update of the \<open>i\<close>-th chunk, of which \<open>d\<close> has arrived.\<close>

definition in_chunk :: "client_config \<Rightarrow> byte list \<Rightarrow> byte list \<Rightarrow> nat \<Rightarrow> nat \<Rightarrow> byte list \<Rightarrow> byte list \<Rightarrow> chunk_client \<Rightarrow> bool" where
  "in_chunk cfg old new k i d r c \<longleftrightarrow> d @ r = piece_of (new_block new k) i \<and> \<not> all_passed new k i \<and>
     (\<exists>items cur w. in_blk cfg old new k items c \<and> have_upto old new k items cur (blockdist * k + 4096 * i) w \<and>
        taking new items cur (blockdist * k + 4096 * i) d c \<and> chunk_start c = int (blockdist * k + 4096 * i + length d) \<and> md5_inv (md5_hash c) (w @ d) \<and>
        rebuilt_from old new k (Suc i) (w @ d @ r) = rebuilt old new k) \<and>
     \<not> hash_for_whole_block c \<and> adler_hash c = adler32_of d \<and> adler_remaining c = length r \<and>
     hashes_fit new (\<lambda>bs p. slot_words new k (concat (upd_words (small_hashes old k) (new_block new k) i)) bs \<and> p = 8 + 528 * k + 16 + 4 * i) c"

text \<open>The words written so far, at whose end the hash file is written next.\<close>

definition at_words :: "byte list \<Rightarrow> nat \<Rightarrow> byte list \<Rightarrow> byte list \<Rightarrow> nat \<Rightarrow> bool" where
  "at_words new k ws bs p \<longleftrightarrow> slot_words new k ws bs \<and> p = 8 + 528 * k + 16 + length ws"

text \<open>In a whole block, of which \<open>d\<close> has arrived: its whole chunks, and the rest.\<close>

definition full_part :: "byte list \<Rightarrow> byte list" where
  "full_part d = take (length d div 4096 * 4096) d"

definition tail_part :: "byte list \<Rightarrow> byte list" where
  "tail_part d = drop (length d div 4096 * 4096) d"

definition full_words :: "byte list \<Rightarrow> byte list" where
  "full_words d = chunk_words (full_part d)"

definition in_whole :: "client_config \<Rightarrow> byte list \<Rightarrow> byte list \<Rightarrow> nat \<Rightarrow> byte list \<Rightarrow> byte list \<Rightarrow> chunk_client \<Rightarrow> bool" where
  "in_whole cfg old new k d r c \<longleftrightarrow> d @ r = new_block new k \<and>
     (\<exists>items. in_blk cfg old new k items c \<and> taking new items [] (blockdist * k) d c) \<and> chunk_start c = int (blockdist * k + length d) \<and> md5_inv (md5_hash c) d \<and>
     whole_block_remaining c = length r \<and> adler_hash c = adler32_of (tail_part d) \<and>
     adler_remaining c = 4096 - length (tail_part d) \<and>
     hashes_fit new (at_words new k (full_words d)) c"

text \<open>The data of a whole block has arrived, its hash has not.\<close>

definition whole_done :: "client_config \<Rightarrow> byte list \<Rightarrow> byte list \<Rightarrow> nat \<Rightarrow> chunk_client \<Rightarrow> bool" where
  "whole_done cfg old new k c \<longleftrightarrow>
     (\<exists>items cur q. in_blk cfg old new k items c \<and> have_upto old new k items cur q (new_block new k) \<and> patch_rep (length new) items cur c) \<and>
     patch_buf c = [] \<and> hash_for_whole_block c \<and> raw_digest_int (md5_hash c) = Some (md5_of (new_block new k)) \<and>
     hashes_fit new (\<lambda>bs p. starts bs (hash_prefix new (Suc k))) c"

section \<open>Writing\<close>

lemma taking_frame:
  "m_patchfile d = m_patchfile c \<Longrightarrow> patchfile_pos d = patchfile_pos c \<Longrightarrow> last_chunk_patches d = last_chunk_patches c \<Longrightarrow>
   patch_buf d = patch_buf c \<Longrightarrow> patch_buf_start d = patch_buf_start c \<Longrightarrow> fc_file_pos d = fc_file_pos c \<Longrightarrow>
   taking new items cur q x d = taking new items cur q x c"
  by (simp add: taking_def buf_rep_def patch_rep_def)

lemma taking_start: "patch_rep (length new) items cur c \<Longrightarrow> patch_buf c = [] \<Longrightarrow> fc_file_pos c = int q \<Longrightarrow> taking new items cur q [] c"
  unfolding taking_def by (intro conjI exI[of _ "[]"] exI[of _ "[]"]) (simp_all add: buf_rep_def)

lemma taking_flushed:
  "taking new items cur q d c \<Longrightarrow> patch_buf c = [] \<Longrightarrow>
   \<exists>cur1. patch_rep (length new) items (cur @ cur1) c \<and> contig q cur1 \<and> concat (map snd cur1) = d"
  by (auto simp: taking_def buf_rep_def)

lemma write_data_taking:
  assumes t: "taking new items cur q d c" and m: "patch_mode cfg" and e: "e \<noteq> []" "length e < 2 ^ 31" "q + length d + length e < 2 ^ 63"
  shows "\<exists>mp pp lp lf co pb ps fp. write_data cfg e is_last c = c\<lparr>m_patchfile := mp, patchfile_pos := pp, last_chunk_patches := lp,
     last_patch_output_fsize := lf, curr_output_fsize := co, patch_buf := pb, patch_buf_start := ps, fc_file_pos := fp\<rparr> \<and>
     taking new items cur q (d @ e) (write_data cfg e is_last c) \<and> (is_last \<longrightarrow> pb = [])"
proof -
  obtain cur1 b where b: "buf_rep (length new) items (cur @ cur1) (q + length d) b c" "contig q cur1" "concat (map snd cur1) @ b = d"
    and fp: "fc_file_pos c = int (q + length d)"
    using t unfolding taking_def by blast
  let ?w = "writePatch cfg (int (q + length d)) e is_last c"
  obtain cur2 b2 where w: "buf_rep (length new) items ((cur @ cur1) @ cur2) (q + length d + length e) b2 ?w"
    "contig (q + length d - length b) cur2" "concat (map snd cur2) @ b2 = b @ e" "is_last \<longrightarrow> b2 = []" "patch_only c ?w"
    using writePatch_rep[OF b(1) e, of cfg is_last] by blast
  obtain mp pp lp lf co pb ps where u: "?w = c\<lparr>m_patchfile := mp, patchfile_pos := pp, last_chunk_patches := lp,
     last_patch_output_fsize := lf, curr_output_fsize := co, patch_buf := pb, patch_buf_start := ps\<rparr>"
    using w(5) unfolding patch_only_iff by blast
  have fw: "fc_file_pos ?w = fc_file_pos c" using u by simp
  have wd: "write_data cfg e is_last c = ?w\<lparr>fc_file_pos := int (q + length d + length e)\<rparr>"
    using m fp fw by (simp add: write_data_def Let_def)
  have l: "length d = length (concat (map snd cur1)) + length b" using arg_cong[OF b(3), of length] by simp
  have "contig q (cur1 @ cur2)" using b(2) w(2) l by (simp add: contig_append)
  moreover have "concat (map snd (cur1 @ cur2)) @ b2 = d @ e" using w(3) b(3) by simp
  moreover have "buf_rep (length new) items (cur @ cur1 @ cur2) (q + length (d @ e)) b2 (write_data cfg e is_last c)"
    using w(1) unfolding wd by (simp add: buf_rep_def patch_rep_def add.assoc)
  ultimately have "taking new items cur q (d @ e) (write_data cfg e is_last c)"
    unfolding taking_def wd by (intro conjI exI[of _ "cur1 @ cur2"] exI[of _ b2]) (simp_all add: add.assoc)
  moreover have "is_last \<longrightarrow> pb = []" using w(1,4) u by (simp add: buf_rep_def)
  moreover have "write_data cfg e is_last c = c\<lparr>m_patchfile := mp, patchfile_pos := pp, last_chunk_patches := lp,
     last_patch_output_fsize := lf, curr_output_fsize := co, patch_buf := pb, patch_buf_start := ps, fc_file_pos := int (q + length d + length e)\<rparr>"
    unfolding wd u by simp
  ultimately show ?thesis by blast
qed

lemma hash_write_ex:
  assumes "ho_all Q c" "length buf \<le> 2 ^ 32" "\<And>bs p. Q bs p \<Longrightarrow> R (overwrite bs p buf) (p + length buf)"
  shows "\<exists>h. hash_write cfg buf c = c\<lparr>m_hashoutput := h\<rparr> \<and> (\<forall>d. m_hashoutput d = h \<longrightarrow> ho_all R d)"
proof -
  have "ho_all R (hash_write cfg buf c)" by (rule hash_write_all[OF assms(1,2)]) (rule assms(3))
  moreover have "hash_write cfg buf c = c\<lparr>m_hashoutput := m_hashoutput (hash_write cfg buf c)\<rparr>" by (simp add: hash_write_def)
  ultimately show ?thesis by (intro exI[of _ "m_hashoutput (hash_write cfg buf c)"]) (simp add: ho_all_def)
qed

lemma hash_seek_ex:
  assumes "ho_all (\<lambda>bs q. Q bs) c" "0 \<le> p"
  shows "\<exists>h. hash_seek p c = c\<lparr>m_hashoutput := h\<rparr> \<and> (\<forall>d. m_hashoutput d = h \<longrightarrow> ho_all (\<lambda>bs q. Q bs \<and> q = nat p) d)"
proof -
  have "ho_all (\<lambda>bs q. Q bs \<and> q = nat p) (hash_seek p c)" using hash_seek_all[OF assms] .
  moreover have "hash_seek p c = c\<lparr>m_hashoutput := m_hashoutput (hash_seek p c)\<rparr>" by (simp add: hash_seek_def)
  ultimately show ?thesis by (intro exI[of _ "m_hashoutput (hash_seek p c)"]) (simp add: ho_all_def)
qed

lemma hash_put_ex:
  assumes "ho_all (\<lambda>bs q. Q bs) c" "0 \<le> p" "length buf \<le> 2 ^ 32" "\<And>bs. Q bs \<Longrightarrow> R (overwrite bs (nat p) buf) (nat p + length buf)"
  shows "\<exists>h. hash_write cfg buf (hash_seek p c) = c\<lparr>m_hashoutput := h\<rparr> \<and> (\<forall>d. m_hashoutput d = h \<longrightarrow> ho_all R d)"
proof -
  obtain h1 where h1: "hash_seek p c = c\<lparr>m_hashoutput := h1\<rparr>" "ho_all (\<lambda>bs q. Q bs \<and> q = nat p) (c\<lparr>m_hashoutput := h1\<rparr>)"
    using hash_seek_ex[OF assms(1,2)] by fastforce
  have "\<exists>h. hash_write cfg buf (c\<lparr>m_hashoutput := h1\<rparr>) = c\<lparr>m_hashoutput := h1\<rparr>\<lparr>m_hashoutput := h\<rparr> \<and> (\<forall>d. m_hashoutput d = h \<longrightarrow> ho_all R d)"
    by (rule hash_write_ex[OF h1(2) assms(3)]) (use assms(4) in auto)
  then show ?thesis unfolding h1(1) by simp
qed

subsection \<open>The slot of a block in the hash file\<close>

lemma length_prefix_Suc: "k < nblocks new \<Longrightarrow> length (hash_prefix new (Suc k)) = 8 + 528 * k + 16 + 4 * npieces (new_block new k)"
  by (simp add: hash_prefix_Suc length_hash_prefix' length_chunk_hash length_chunks_of npieces_def)

lemma hash_prefix_le: "k \<le> l \<Longrightarrow> length (hash_prefix new k) \<le> length (hash_prefix new l)"
proof (induction l)
  case (Suc l)
  then show ?case by (cases "k = Suc l") (auto simp: hash_prefix_Suc)
qed simp

lemma slot_fits: "k < nblocks new \<Longrightarrow> 8 + 528 * k + 16 + 4 * npieces (new_block new k) \<le> length (hash_file new)"
  using hash_prefix_le[of "Suc k" "nblocks new" new] by (simp add: length_prefix_Suc hash_prefix_all)

lemma slot_words_put:
  assumes "k < nblocks new" "slot_words new k (A @ B @ C) bs" "length B = length d"
  shows "slot_words new k (A @ d @ C) (overwrite bs (8 + 528 * k + 16 + length A) d)"
proof -
  obtain big where b: "length big = 16" "starts bs ((hash_prefix new k @ big @ A) @ B @ C)" using assms(2) by (auto simp: slot_words_def)
  have l: "length (hash_prefix new k @ big @ A) = 8 + 528 * k + 16 + length A" using assms(1) b(1) by (simp add: length_hash_prefix')
  have "starts (overwrite bs (length (hash_prefix new k @ big @ A)) d) ((hash_prefix new k @ big @ A) @ d @ C)"
    by (rule starts_overwrite[OF b(2) assms(3)])
  then show ?thesis unfolding l using b(1) by (auto simp: slot_words_def)
qed

lemma length_concat_const: "\<forall>x \<in> set xs. length x = n \<Longrightarrow> length (concat xs) = n * length xs"
  by (induction xs) simp_all

lemma upd_words_split:
  assumes "i < npieces b" "length b \<le> blockdist"
  shows "\<exists>A B C. concat (upd_words (small_hashes old k) b i) = A @ B @ C \<and>
    concat (upd_words (small_hashes old k) b (Suc i)) = A @ le_bytes 4 (adler32_of (piece_of b i)) @ C \<and> length A = 4 * i \<and> length B = 4"
proof -
  let ?s = "small_hashes old k"
  let ?w = "\<lambda>j. le_bytes 4 (adler32_of (piece_of b j))" and ?o = "\<lambda>j. take 4 (drop (4 * j) ?s)"
  have u: "[0..<npieces b] = [0..<i] @ i # [Suc i..<npieces b]" using assms(1) upt_add_eq_append[of 0 i "npieces b - i"] upt_conv_Cons[of i "npieces b"] by simp
  have "upd_words ?s b i = map ?w [0..<i] @ ?o i # map ?o [Suc i..<npieces b]"
    "upd_words ?s b (Suc i) = map ?w [0..<i] @ ?w i # map ?o [Suc i..<npieces b]"
    unfolding upd_words_def u by simp_all
  moreover have "length (concat (map ?w [0..<i])) = 4 * i" by (subst length_concat_const[where n = 4]) simp_all
  moreover have "4 * i + 4 \<le> 512" using assms by (simp add: less_npieces c_checkpoint_dist_def)
  then have "length (?o i) = 4" using length_stored_hashes[of old k] by simp
  ultimately show ?thesis
    by (intro exI[of _ "concat (map ?w [0..<i])"] exI[of _ "?o i"] exI[of _ "concat (map ?o [Suc i..<npieces b])"]) simp
qed

lemma new_block_small: "length (new_block new k) \<le> blockdist"
  by (simp add: block_bytes_length)

lemma slot_word_put:
  assumes k: "k < nblocks new" and i: "i < npieces (new_block new k)"
    and s: "slot_words new k (concat (upd_words (small_hashes old k) (new_block new k) i)) bs"
  shows "slot_words new k (concat (upd_words (small_hashes old k) (new_block new k) (Suc i)))
    (overwrite bs (8 + 528 * k + 16 + 4 * i) (le_bytes 4 (adler32_of (piece_of (new_block new k) i))))"
proof -
  obtain A B C where p: "concat (upd_words (small_hashes old k) (new_block new k) i) = A @ B @ C"
    "concat (upd_words (small_hashes old k) (new_block new k) (Suc i)) = A @ le_bytes 4 (adler32_of (piece_of (new_block new k) i)) @ C"
    "length A = 4 * i" "length B = 4"
    using upd_words_split[OF i new_block_small] by blast
  show ?thesis
    using slot_words_put[OF k s[unfolded p(1)], of "le_bytes 4 (adler32_of (piece_of (new_block new k) i))"] p(3,4) unfolding p(2) by simp
qed

section \<open>Data of an update\<close>

text \<open>How far the buffer has been used.\<close>

definition used :: "byte list \<Rightarrow> nat \<Rightarrow> chunk_client \<Rightarrow> bool" where
  "used buf n c \<longleftrightarrow> bufptr c = buf \<and> bufptr_bytes_done c = n \<and> remaining_bufptr_bytes c = length buf - n"

lemma write_data_ptr [simp]:
  "bufptr (write_data cfg e l c) = bufptr c" "remaining_bufptr_bytes (write_data cfg e l c) = remaining_bufptr_bytes c"
  "bufptr_bytes_done (write_data cfg e l c) = bufptr_bytes_done c" "adler_remaining (write_data cfg e l c) = adler_remaining c"
  by (simp_all add: write_data_def writePatch_def writePatchInt_def patch_write_def Let_def)

lemma in_blk_lengths:
  assumes "in_blk cfg old new k items c"
  shows "k < nblocks new" "blockdist * k < length new" "length new < 2 ^ 63" "length old < 2 ^ 63" "patch_mode cfg"
    "blockdist * k + length (new_block new k) \<le> length new" "new_block new k \<noteq> []"
proof -
  show k: "k < nblocks new" "length new < 2 ^ 63" "length old < 2 ^ 63" "patch_mode cfg" using assms by (auto simp: in_blk_def client_base_def)
  then show l: "blockdist * k < length new" by (simp add: less_nblocks)
  then show "blockdist * k + length (new_block new k) \<le> length new" "new_block new k \<noteq> []"
    by (auto simp: block_bytes_def c_checkpoint_dist_def)
qed

lemma have_upto_take:
  assumes "have_upto old new k items cur q w" "contig q cur1" "q + length (concat (map snd cur1)) < 2 ^ 63"
  shows "have_upto old new k items (cur @ cur1) (q + length (concat (map snd cur1))) (w @ concat (map snd cur1))"
  using assms covers_contig[of old q "items @ cur" "take (blockdist * k) new @ w" cur1] contig_small[of q cur1]
  by (auto simp: have_upto_def small_items_def)

lemma have_upto_old:
  assumes "have_upto old new k items cur q w" "q \<le> e" "e \<le> length old \<or> e = q"
  shows "have_upto old new k items cur e (w @ old_part old q e)"
  using assms covers_extend[of old q "items @ cur" "take (blockdist * k) new @ w" e] length_old_part[of e old q]
  by (auto simp: have_upto_def)

lemma State_Chunk_runs:
  assumes c: "in_chunk cfg old new k i d r c" "cs_state c = CS_CHUNK" and r: "r \<noteq> []"
    and u: "used buf 0 c" and b: "buf \<noteq> []" "length buf < 2 ^ 31" "take (length buf) r = take (length r) buf"
  shows "(length buf < length r \<and> in_chunk cfg old new k i (d @ buf) (drop (length buf) r) (State_Chunk cfg c) \<and> cs_state (State_Chunk cfg c) = CS_CHUNK \<and>
      used buf (length buf) (State_Chunk cfg c)) \<or>
    (length r \<le> length buf \<and> in_updates cfg old new k (Suc i) (State_Chunk cfg c) \<and> cs_state (State_Chunk cfg c) = CS_ID_FIRST \<and>
      used buf (length r) (State_Chunk cfg c))"
proof -
  define n where "n = min (length buf) (length r)"
  define e where "e = take n buf"
  define l where "l \<longleftrightarrow> n = length r"
  let ?p = "blockdist * k + 4096 * i" and ?b = "new_block new k" and ?sm = "small_hashes old k"
  have pc: "d @ r = piece_of ?b i" and np: "\<not> all_passed new k i" using c(1) by (simp_all add: in_chunk_def)
  obtain items cur w where blk: "in_blk cfg old new k items c" and hu: "have_upto old new k items cur ?p w"
    and tk: "taking new items cur ?p d c" and cs: "chunk_start c = int (?p + length d)" and md: "md5_inv (md5_hash c) (w @ d)"
    and rb: "rebuilt_from old new k (Suc i) (w @ d @ r) = rebuilt old new k"
    using c(1) unfolding in_chunk_def by blast
  have hw: "\<not> hash_for_whole_block c" "adler_hash c = adler32_of d" "adler_remaining c = length r"
    and ho: "hashes_fit new (\<lambda>bs p. slot_words new k (concat (upd_words ?sm ?b i)) bs \<and> p = 8 + 528 * k + 16 + 4 * i) c"
    using c(1) by (simp_all add: in_chunk_def)
  note L = in_blk_lengths[OF blk]
  have n: "0 < n" "n \<le> length buf" "n \<le> length r" using r b(1) by (auto simp: n_def)
  have er: "e = take n r" using b(3) by (auto simp: e_def n_def min_def split: if_splits)
  have e: "e \<noteq> []" "length e < 2 ^ 31" "length e = n" using n b(2) by (auto simp: e_def)
  have pl: "4096 * i + length (piece_of ?b i) \<le> length ?b"
    using np unfolding all_passed_def piece_of_def length_take length_drop by linarith
  have il: "i < npieces ?b"
  proof -
    have "0 < length (piece_of ?b i)" using pc r by (metis append_is_Nil_conv length_greater_0_conv)
    then show ?thesis by (simp add: less_npieces piece_of_def)
  qed
  have dr: "length d + length r = length (piece_of ?b i)" using arg_cong[OF pc, of length] by simp
  have e2: "?p + length d + length e < 2 ^ 63" using e(3) n(3) dr pl L(3,6) by linarith
  let ?c1 = "c\<lparr>adler_remaining := length r - n, chunk_start := chunk_start c + int n, adler_hash := adler32_of (d @ e),
    md5_hash := md5_update (md5_hash c) e\<rparr>"
  have tk1: "taking new items cur ?p d ?c1" using tk by (subst taking_frame[of _ c]) simp_all
  obtain mp pp lp lf co pb ps fp where w: "write_data cfg e l ?c1 = ?c1\<lparr>m_patchfile := mp, patchfile_pos := pp, last_chunk_patches := lp,
     last_patch_output_fsize := lf, curr_output_fsize := co, patch_buf := pb, patch_buf_start := ps, fc_file_pos := fp\<rparr>"
     "taking new items cur ?p (d @ e) (write_data cfg e l ?c1)" "l \<longrightarrow> pb = []"
    using write_data_taking[OF tk1 L(5) e(1,2) e2, of l] by blast
  let ?c2 = "(write_data cfg e l ?c1)\<lparr>remaining_bufptr_bytes := length buf - n, bufptr_bytes_done := n\<rparr>"
  have nn: "min (length buf) (adler_remaining c) = n" using hw(3) by (simp add: n_def)
  have st: "State_Chunk cfg c = (if l then (hash_write cfg (le_bytes 4 (adler_hash ?c2)) ?c2)\<lparr>cs_state := CS_ID_FIRST\<rparr> else ?c2)"
  proof -
    have u': "bufptr c = buf" "bufptr_bytes_done c = 0" "remaining_bufptr_bytes c = length buf" using u by (simp_all add: used_def)
    have z: "(length r \<le> n) = l" "adler_remaining c - n = length r - n" using n hw(3) by (auto simp: l_def)
    have a: "urb_adler32 (adler_hash c) (Some e) = adler32_of (d @ e)" by (simp add: hw(2) adler32_update)
    show ?thesis
      unfolding State_Chunk_def Let_def u' nn z(2) e_def[symmetric] by (simp add: n(1) z(1) a u')
  qed
  have tk2: "taking new items cur ?p (d @ e) ?c2" using w(2) by (subst taking_frame[of _ "write_data cfg e l ?c1"]) simp_all
  have md2: "md5_inv (md5_update (md5_hash c) e) (w @ d @ e)" using md5_update_inv[OF md, of e] e(2) by simp
  have blk2: "in_blk cfg old new k items ?c2"
    using blk md5_inv_buffer[OF md2] unfolding w(1) by (simp add: in_blk_def client_base_def size_known_def pending_from_def)
  have f2: "md5_hash ?c2 = md5_update (md5_hash c) e" "chunk_start ?c2 = int (?p + length (d @ e))" "adler_hash ?c2 = adler32_of (d @ e)"
    "adler_remaining ?c2 = length r - n" "\<not> hash_for_whole_block ?c2" "m_hashoutput ?c2 = m_hashoutput c" "used buf n ?c2" "cs_state ?c2 = CS_CHUNK"
    "l \<longrightarrow> patch_buf ?c2 = []"
    unfolding w(1) using cs e(3) hw(1) u c(2) w(3) by (simp_all add: used_def)
  have ho2: "hashes_fit new (\<lambda>bs p. slot_words new k (concat (upd_words ?sm ?b i)) bs \<and> p = 8 + 528 * k + 16 + 4 * i) ?c2"
    using ho f2(6) by (simp add: hashes_fit_def ho_all_def)
  show ?thesis
  proof (cases l)
    case False
    then have lb: "n = length buf" "length buf < length r" "e = buf" using n by (auto simp: l_def n_def e_def min_def split: if_splits)
    have "d @ buf @ drop n r = d @ r" using er lb(1,3) by (metis append_take_drop_id)
    then have "in_chunk cfg old new k i (d @ buf) (drop n r) ?c2"
      unfolding in_chunk_def using pc np blk2 hu tk2 md2 rb f2 ho2 lb(1,3) by (intro conjI exI[of _ items] exI[of _ cur] exI[of _ w]) auto
    then show ?thesis using False st lb(1,2) f2(7,8) by simp
  next
    case True
    then have lr: "n = length r" "e = r" using er by (simp_all add: l_def)
    have lb: "length r \<le> length buf" using lr(1) by (simp add: n_def)
    have de: "d @ e = piece_of ?b i" using pc lr(2) by simp
    obtain cur1 where p1: "patch_rep (length new) items (cur @ cur1) ?c2" "contig ?p cur1" "concat (map snd cur1) = d @ e"
      using taking_flushed[OF tk2] f2(9) True by blast
    have hu2: "have_upto old new k items (cur @ cur1) (?p + length (d @ e)) (w @ d @ e)"
      using have_upto_take[OF hu p1(2)] p1(3) e2 by simp
    have cu: "caught_up old new k (?p + length (d @ e)) (Suc i)" using caught_up_Suc[OF np, of old] dr lr(2) by simp
    have "\<exists>h. hash_write cfg (le_bytes 4 (adler_hash ?c2)) ?c2 = ?c2\<lparr>m_hashoutput := h\<rparr> \<and> (\<forall>x. m_hashoutput x = h \<longrightarrow>
        ho_all (\<lambda>bs p. length bs \<le> length (hash_file new) \<and> slot_words new k (concat (upd_words ?sm ?b (Suc i))) bs) x)"
    proof (rule hash_write_ex[OF ho2[unfolded hashes_fit_def]])
      fix bs p
      assume a: "length bs \<le> length (hash_file new) \<and> slot_words new k (concat (upd_words ?sm ?b i)) bs \<and> p = 8 + 528 * k + 16 + 4 * i"
      have "adler_hash ?c2 = adler32_of (piece_of ?b i)" using f2(3) de by simp
      then show "length (overwrite bs p (le_bytes 4 (adler_hash ?c2))) \<le> length (hash_file new) \<and>
          slot_words new k (concat (upd_words ?sm ?b (Suc i))) (overwrite bs p (le_bytes 4 (adler_hash ?c2)))"
        using a slot_word_put[OF L(1) il, of old bs] slot_fits[OF L(1)] il by (simp add: length_overwrite)
    qed simp
    then obtain h where h: "hash_write cfg (le_bytes 4 (adler_hash ?c2)) ?c2 = ?c2\<lparr>m_hashoutput := h\<rparr>"
      "\<forall>x. m_hashoutput x = h \<longrightarrow> hashes_fit new (\<lambda>bs p. slot_words new k (concat (upd_words ?sm ?b (Suc i))) bs) x"
      unfolding hashes_fit_def by blast
    let ?c3 = "?c2\<lparr>m_hashoutput := h, cs_state := CS_ID_FIRST\<rparr>"
    have sc: "State_Chunk cfg c = ?c3" using st True h(1) by simp
    have "in_blk cfg old new k items ?c3" using blk2 by (simp add: in_blk_def client_base_def size_known_def pending_from_def)
    moreover have "patch_rep (length new) items (cur @ cur1) ?c3" using p1(1) by (subst patch_rep_frame[of _ ?c2]) simp_all
    moreover have "md5_inv (md5_hash ?c3) (w @ d @ e)" "chunk_start ?c3 = int (?p + length (d @ e))" "patch_buf ?c3 = []" "\<not> hash_for_whole_block ?c3"
      using f2 md2 True by simp_all
    moreover have "hashes_fit new (\<lambda>bs p. slot_words new k (concat (upd_words ?sm ?b (Suc i))) bs) ?c3" using h(2) by simp
    ultimately have "in_updates cfg old new k (Suc i) ?c3"
      unfolding in_updates_def using hu2 cu rb lr(2) by blast
    then show ?thesis using sc lb f2(7) lr(1) by (simp add: used_def)
  qed
qed

section \<open>Data of a whole block\<close>

lemma part_split: "length F mod 4096 = 0 \<Longrightarrow> length r < 4096 \<Longrightarrow> full_part (F @ r) = F \<and> tail_part (F @ r) = r"
proof -
  assume a: "length F mod 4096 = 0" "length r < 4096"
  then obtain q where "length F = 4096 * q" by (auto elim: dvdE simp: mod_eq_0_iff_dvd)
  then have "(length F + length r) div 4096 * 4096 = length F" using a(2) by simp
  then show ?thesis by (simp add: full_part_def tail_part_def)
qed

lemma parts: "full_part d @ tail_part d = d" "length (full_part d) mod 4096 = 0" "length (tail_part d) < 4096"
proof -
  have "length d div 4096 * 4096 \<le> length d" by linarith
  then have "length (full_part d) = length d div 4096 * 4096" by (simp add: full_part_def)
  then show "length (full_part d) mod 4096 = 0" by simp
  have "length d - length d div 4096 * 4096 < 4096" by linarith
  then show "length (tail_part d) < 4096" by (simp add: tail_part_def)
qed (simp add: full_part_def tail_part_def)

lemma chunk_words_append: "length F mod 4096 = 0 \<Longrightarrow> chunk_words (F @ r) = chunk_words F @ chunk_words r"
  by (simp add: chunk_words_def chunks_of_append words_of_def)

lemma chunk_words_short: "r \<noteq> [] \<Longrightarrow> length r \<le> 4096 \<Longrightarrow> chunk_words r = le_bytes 4 (adler32_of r)"
  by (simp add: chunk_words_def chunks_of_short words_of_def mem_of_def)

lemma chunk_words_Nil: "chunk_words [] = []"
  by (simp add: chunk_words_def words_of_def)

lemma length_chunk_words: "length (chunk_words b) = 4 * npieces b"
  by (simp add: chunk_words_def length_words_of length_chunks_of npieces_def)

lemma part_more: "length (tail_part d) + length x < 4096 \<Longrightarrow> full_words (d @ x) = full_words d \<and> tail_part (d @ x) = tail_part d @ x"
  using part_split[OF parts(2), of "tail_part d @ x" d] parts(1)[of d] by (simp add: full_words_def append_assoc[symmetric] del: append_assoc)

lemma part_full:
  assumes "length (tail_part d) + length x = 4096"
  shows "full_words (d @ x) = full_words d @ le_bytes 4 (adler32_of (tail_part d @ x))" "tail_part (d @ x) = []"
proof -
  have d: "d @ x = full_part d @ tail_part d @ x" using parts(1)[of d] by (simp add: append_assoc[symmetric] del: append_assoc)
  have l: "length (d @ x) mod 4096 = 0" unfolding d using parts(2)[of d] assms by simp
  then have p: "full_part (d @ x) = d @ x" "tail_part (d @ x) = []" using part_split[OF l, of "[]"] by simp_all
  have "tail_part d @ x \<noteq> []" using assms by auto
  then show "full_words (d @ x) = full_words d @ le_bytes 4 (adler32_of (tail_part d @ x))"
    unfolding full_words_def p(1) unfolding d using chunk_words_append[OF parts(2), of d "tail_part d @ x"] chunk_words_short[of "tail_part d @ x"] assms
    by simp
  show "tail_part (d @ x) = []" by (rule p)
qed

lemma chunk_words_parts: "chunk_words d = full_words d @ (if tail_part d = [] then [] else le_bytes 4 (adler32_of (tail_part d)))"
proof -
  have "chunk_words d = chunk_words (full_part d @ tail_part d)" by (simp add: parts(1))
  then show ?thesis
    using chunk_words_append[OF parts(2), of d "tail_part d"] chunk_words_short[of "tail_part d"] parts(3)[of d]
    by (auto simp: full_words_def chunk_words_Nil)
qed

lemma at_words_put:
  assumes k: "k < nblocks new" and a: "length bs \<le> length (hash_file new) \<and> at_words new k ws bs p" and l: "length ws + length x \<le> 4 * npieces (new_block new k)"
  shows "length (overwrite bs p x) \<le> length (hash_file new) \<and> at_words new k (ws @ x) (overwrite bs p x) (p + length x)"
proof -
  obtain big where b: "length big = 16" "starts bs (hash_prefix new k @ big @ ws)" and p: "p = 8 + 528 * k + 16 + length ws"
    using a by (auto simp: at_words_def slot_words_def)
  have "length (hash_prefix new k @ big @ ws) = p" using k b(1) p by (simp add: length_hash_prefix')
  then have "starts (overwrite bs p x) ((hash_prefix new k @ big @ ws) @ x)" using starts_append[OF b(2), of x] by simp
  then show ?thesis using b(1) p a l slot_fits[OF k] by (auto simp: at_words_def slot_words_def length_overwrite)
qed

lemma adler_loop_Nil: "adler_loop cfg [] c = c"
  by (subst adler_loop.simps) simp

lemma adler_loop_words:
  assumes k: "k < nblocks new" and m: "length (D @ d) \<le> length (new_block new k)"
    and ho: "hashes_fit new (at_words new k (full_words D)) c"
    and a: "adler_hash c = adler32_of (tail_part D)" "adler_remaining c = 4096 - length (tail_part D)"
  shows "\<exists>ah ar h bp. adler_loop cfg d c = c\<lparr>adler_hash := ah, adler_remaining := ar, m_hashoutput := h, block_pos := bp\<rparr> \<and>
    (\<forall>x. m_hashoutput x = h \<longrightarrow>
       hashes_fit new (at_words new k (if whole_block_remaining c = 0 \<and> d \<noteq> [] then chunk_words (D @ d) else full_words (D @ d))) x) \<and>
    (whole_block_remaining c \<noteq> 0 \<longrightarrow> ah = adler32_of (tail_part (D @ d)) \<and> ar = 4096 - length (tail_part (D @ d)))"
  using m ho a
proof (induction "length d" arbitrary: d D c rule: less_induct)
  case less
  show ?case
  proof (cases "d = []")
    case True
    have "adler_loop cfg d c = c" using True by (simp add: adler_loop_Nil)
    then show ?thesis
      using less.prems True
      by (intro exI[of _ "adler_hash c"] exI[of _ "adler_remaining c"] exI[of _ "m_hashoutput c"] exI[of _ "block_pos c"])
        (simp add: hashes_fit_def ho_all_def)
  next
    case False
    define n where "n = min (4096 - length (tail_part D)) (length d)"
    define x where "x = take n d"
    have n: "0 < n" "n \<le> length d" "length (tail_part D) + n \<le> 4096" using False parts(3)[of D] by (auto simp: n_def)
    have x: "length x = n" "x @ drop n d = d" using n(2) by (simp_all add: x_def)
    let ?O = "tail_part D" and ?R = "whole_block_remaining c"
    let ?c1 = "c\<lparr>adler_hash := adler32_of (?O @ x), adler_remaining := 4096 - length ?O - n\<rparr>"
    let ?w = "4096 - length ?O - n = 0 \<or> ?R = 0"
    let ?c2 = "if ?w then (hash_write cfg (le_bytes 4 (adler32_of (?O @ x))) ?c1)\<lparr>adler_hash := urb_adler32 0 None, adler_remaining := 4096\<rparr> else ?c1"
    have st: "adler_loop cfg d c = adler_loop cfg (drop n d) (?c2\<lparr>block_pos := block_pos c + n\<rparr>)"
    proof -
      have nn: "min (4096 - length ?O) (length d) = n" by (simp add: n_def)
      have g: "urb_adler32 (adler32_of ?O) (Some x) = adler32_of (?O @ x)" by (rule adler32_update)
      have b: "block_pos (hash_write cfg y z) = block_pos z" for y z by (simp add: hash_write_def)
      have w: "whole_block_remaining (c\<lparr>adler_hash := y, adler_remaining := z\<rparr>) = ?R" for y z by simp
      show ?thesis
        unfolding adler_loop.simps[of cfg d c] if_not_P[OF False] Let_def less.prems(3,4) nn x_def[symmetric] g c_chunk_size_def
        by (cases "?w") (simp_all add: b)
    qed
    have lw: "length (full_words D) = 4 * (length D div 4096)"
      using parts(2)[of D] by (simp add: full_words_def length_chunk_words npieces_def full_part_def)
    have D1: "D @ d = (D @ x) @ drop n d" using x(2) by (simp add: append_assoc)
    have dl: "length (drop n d) < length d" using n(1,2) by simp
    have DL: "length D = length (full_part D) + length ?O" using parts(1)[of D] by (metis length_append)
    have full: "length D div 4096 * 4096 = length (full_part D)" by (simp add: full_part_def) 
    have room: "length (full_words D) + 4 \<le> 4 * npieces (new_block new k)"
    proof -
      have "length D div 4096 < npieces (new_block new k)"
        using less.prems(1) n(1,2) less_npieces[of "length D div 4096" "new_block new k"] by simp
      then show ?thesis using lw by simp
    qed
    show ?thesis
    proof (cases "?w")
      case w: True
      obtain h where h: "hash_write cfg (le_bytes 4 (adler32_of (?O @ x))) ?c1 = ?c1\<lparr>m_hashoutput := h\<rparr>"
        "\<forall>y. m_hashoutput y = h \<longrightarrow> hashes_fit new (at_words new k (full_words D @ le_bytes 4 (adler32_of (?O @ x)))) y"
      proof -
        have "ho_all (\<lambda>bs p. length bs \<le> length (hash_file new) \<and> at_words new k (full_words D) bs p) ?c1"
          using less.prems(2) by (simp add: hashes_fit_def ho_all_def)
        from hash_write_ex[OF this, of "le_bytes 4 (adler32_of (?O @ x))"
            "\<lambda>bs p. length bs \<le> length (hash_file new) \<and> at_words new k (full_words D @ le_bytes 4 (adler32_of (?O @ x))) bs p" cfg]
        show ?thesis using at_words_put[OF k _, of _ "full_words D" _ "le_bytes 4 (adler32_of (?O @ x))"] room that
          unfolding hashes_fit_def by auto
      qed
      let ?c3 = "c\<lparr>adler_hash := adler32_of [], adler_remaining := 4096, m_hashoutput := h, block_pos := block_pos c + n\<rparr>"
      have c3: "?c2\<lparr>block_pos := block_pos c + n\<rparr> = ?c3" using w h(1) by (simp add: adler32_start)
      have ho3: "hashes_fit new (at_words new k (full_words D @ le_bytes 4 (adler32_of (?O @ x)))) ?c3" using h(2) by simp
      show ?thesis
      proof (cases "length ?O + n = 4096")
        case True
        have p: "full_words (D @ x) = full_words D @ le_bytes 4 (adler32_of (?O @ x))" "tail_part (D @ x) = []"
          using part_full[of D x] True x(1) by simp_all
        have prem: "length ((D @ x) @ drop n d) \<le> length (new_block new k)" "hashes_fit new (at_words new k (full_words (D @ x))) ?c3"
          "adler_hash ?c3 = adler32_of (tail_part (D @ x))" "adler_remaining ?c3 = 4096 - length (tail_part (D @ x))"
          using less.prems(1) ho3 p unfolding D1[symmetric] by simp_all
        obtain ah ar h' bp where r: "adler_loop cfg (drop n d) ?c3 = ?c3\<lparr>adler_hash := ah, adler_remaining := ar, m_hashoutput := h', block_pos := bp\<rparr>"
          "\<forall>y. m_hashoutput y = h' \<longrightarrow>
            hashes_fit new (at_words new k (if ?R = 0 \<and> drop n d \<noteq> [] then chunk_words (D @ d) else full_words (D @ d))) y"
          "?R \<noteq> 0 \<longrightarrow> ah = adler32_of (tail_part (D @ d)) \<and> ar = 4096 - length (tail_part (D @ d))"
          using less.hyps[OF dl prem] unfolding D1[symmetric] by auto
        have e: "(if ?R = 0 \<and> drop n d \<noteq> [] then chunk_words (D @ d) else full_words (D @ d)) =
            (if ?R = 0 \<and> d \<noteq> [] then chunk_words (D @ d) else full_words (D @ d))"
          using p(2) chunk_words_parts[of "D @ d"] D1 False by (cases "drop n d = []") auto
        show ?thesis unfolding st c3 r(1) using r(2,3) unfolding e by (intro exI[of _ ah] exI[of _ ar] exI[of _ h'] exI[of _ bp]) simp
      next
        case F: False
        then have nd: "n = length d" "?R = 0" "length ?O + length x < 4096" using w n(3) x(1) by (auto simp: n_def)
        then have xd: "x = d" by (simp add: x_def)
        have dn: "drop n d = []" using nd(1) by simp
        have p: "full_words (D @ d) = full_words D" "tail_part (D @ d) = ?O @ d" using part_more[OF nd(3)] xd by simp_all
        have "chunk_words (D @ d) = full_words D @ le_bytes 4 (adler32_of (?O @ x))" using chunk_words_parts[of "D @ d"] p False xd by simp
        then show ?thesis
          unfolding st c3 dn adler_loop_Nil using nd(2) False h(2) by (intro exI[of _ "adler32_of []"] exI[of _ 4096] exI[of _ h] exI[of _ "block_pos c + n"]) simp
      qed
    next
      case w: False
      then have nd: "n = length d" "length ?O + length x < 4096" using n(3) x(1) by (auto simp: n_def)
      then have xd: "x = d" by (simp add: x_def)
      have p: "full_words (D @ d) = full_words D" "tail_part (D @ d) = ?O @ d" using part_more[OF nd(2)] xd by simp_all
      have dn: "drop n d = []" using nd(1) by simp
      have e: "?c2\<lparr>block_pos := block_pos c + n\<rparr> = ?c1\<lparr>block_pos := block_pos c + n\<rparr>" using w by simp
      have st2: "adler_loop cfg d c = c\<lparr>adler_hash := adler32_of (?O @ x), adler_remaining := 4096 - length ?O - n,
          m_hashoutput := m_hashoutput c, block_pos := block_pos c + n\<rparr>"
        by (simp only: st e dn adler_loop_Nil) simp
      have "hashes_fit new (at_words new k (full_words D)) y" if "m_hashoutput y = m_hashoutput c" for y
        using less.prems(2) that by (simp add: hashes_fit_def ho_all_def)
      moreover have "?R \<noteq> 0" "4096 - length ?O - n = 4096 - length (?O @ d)" using w nd(1) by simp_all
      ultimately show ?thesis
        unfolding st2 p xd
        by (intro exI[of _ "adler32_of (?O @ d)"] exI[of _ "4096 - length ?O - n"] exI[of _ "m_hashoutput c"] exI[of _ "block_pos c + n"]) simp
    qed
  qed
qed

lemma slot_digest_put:
  assumes "k < nblocks new" "slot_words new k ws bs" "length h = 16"
  shows "starts (overwrite bs (8 + 528 * k) h) (hash_prefix new k @ h @ ws)"
proof -
  obtain big where b: "length big = 16" "starts bs (hash_prefix new k @ big @ ws)" using assms(2) by (auto simp: slot_words_def)
  show ?thesis using starts_overwrite[OF b(2), of h] b(1) assms(1,3) by (simp add: length_hash_prefix')
qed

lemma block_slot_eq: "block_slot (int (blockdist * k)) = int (8 + 528 * k)"
proof -
  have "int (blockdist * k) sdiv int blockdist = int k"
    using blockdist_pos by (cases "k = 0") (simp_all add: signed_divide_int_def sgn_if)
  then show ?thesis by (simp add: block_slot_def chunk_settings)
qed

lemma pos_nat: "nat (int (8 + 528 * k)) = 8 + 528 * k"
  by (rule nat_int)

lemma State_Block_runs:
  assumes c: "in_whole cfg old new k d r c" "cs_state c = CS_BLOCK" and r: "r \<noteq> []"
    and u: "used buf 0 c" and b: "buf \<noteq> []" "length buf < 2 ^ 31" "take (length buf) r = take (length r) buf"
  shows "\<exists>c'. State_Block cfg c = Some c' \<and> next_chunk c' = next_chunk c \<and>
    ((length buf < length r \<and> in_whole cfg old new k (d @ buf) (drop (length buf) r) c' \<and> cs_state c' = CS_BLOCK \<and> used buf (length buf) c') \<or>
     (length r \<le> length buf \<and> whole_done cfg old new k c' \<and> cs_state c' = CS_ID_FIRST \<and> used buf (length r) c'))"
proof -
  define n where "n = min (length buf) (length r)"
  define e where "e = take n buf"
  define l where "l \<longleftrightarrow> length r - n = 0"
  let ?p = "blockdist * k" and ?b = "new_block new k"
  have dr: "d @ r = ?b" and md: "md5_inv (md5_hash c) d" and a: "adler_hash c = adler32_of (tail_part d)" "adler_remaining c = 4096 - length (tail_part d)"
    and ho: "hashes_fit new (at_words new k (full_words d)) c" and wr: "whole_block_remaining c = length r" and cs: "chunk_start c = int (?p + length d)"
    using c(1) by (simp_all add: in_whole_def)
  obtain items where blk: "in_blk cfg old new k items c" and tk: "taking new items [] ?p d c" using c(1) unfolding in_whole_def by blast
  note L = in_blk_lengths[OF blk]
  have n: "0 < n" "n \<le> length buf" "n \<le> length r" using r b(1) by (auto simp: n_def)
  have er: "e = take n r" using b(3) by (auto simp: e_def n_def min_def split: if_splits)
  have e: "e \<noteq> []" "length e < 2 ^ 31" "length e = n" using n b(2) by (auto simp: e_def)
  have dl: "length d + length r = length ?b" using arg_cong[OF dr, of length] by simp
  have e2: "?p + length d + length e < 2 ^ 63" using e(3) n(3) dl L(3,6) by linarith
  let ?c1 = "c\<lparr>remaining_bufptr_bytes := length buf - n, bufptr_bytes_done := n, whole_block_remaining := length r - n,
    md5_hash := md5_update (md5_hash c) e\<rparr>"
  have tk1: "taking new items [] ?p d ?c1" using tk by (subst taking_frame[of _ c]) simp_all
  obtain mp pp lp lf co pb ps fp where w: "write_data cfg e l ?c1 = ?c1\<lparr>m_patchfile := mp, patchfile_pos := pp, last_chunk_patches := lp,
     last_patch_output_fsize := lf, curr_output_fsize := co, patch_buf := pb, patch_buf_start := ps, fc_file_pos := fp\<rparr>"
     "taking new items [] ?p (d @ e) (write_data cfg e l ?c1)" "l \<longrightarrow> pb = []"
    using write_data_taking[OF tk1 L(5) e(1,2) e2, of l] by blast
  define c2 where "c2 = (write_data cfg e l ?c1)\<lparr>chunk_start := chunk_start c + int n\<rparr>"
  have h2: "hashes_fit new (at_words new k (full_words d)) c2" "adler_hash c2 = adler32_of (tail_part d)" "adler_remaining c2 = 4096 - length (tail_part d)"
    using ho a unfolding c2_def w(1) by (simp_all add: hashes_fit_def ho_all_def)
  have de: "length (d @ e) \<le> length ?b" using e(3) n(3) dl by simp
  obtain ah ar h bp where al: "adler_loop cfg e c2 = c2\<lparr>adler_hash := ah, adler_remaining := ar, m_hashoutput := h, block_pos := bp\<rparr>"
    "\<forall>x. m_hashoutput x = h \<longrightarrow>
       hashes_fit new (at_words new k (if whole_block_remaining c2 = 0 \<and> e \<noteq> [] then chunk_words (d @ e) else full_words (d @ e))) x"
    "whole_block_remaining c2 \<noteq> 0 \<longrightarrow> ah = adler32_of (tail_part (d @ e)) \<and> ar = 4096 - length (tail_part (d @ e))"
    using adler_loop_words[OF L(1) de h2, of cfg] by blast
  have wr2: "whole_block_remaining c2 = length r - n" unfolding c2_def w(1) by simp
  let ?c3 = "adler_loop cfg e c2"
  have st: "State_Block cfg c = (if l then
      let x = ?c3\<lparr>md5_hash := md5_finalize (md5_hash ?c3), hash_for_whole_block := True\<rparr>
      in do { dig \<leftarrow> raw_digest_int (md5_hash x);
              Some ((hash_write cfg (take big_hash_size dig) (hash_seek (block_slot (block_for_chunk_start x)) x))\<lparr>cs_state := CS_ID_FIRST\<rparr>) }
    else Some ?c3)"
  proof -
    have u': "bufptr c = buf" "bufptr_bytes_done c = 0" "remaining_bufptr_bytes c = length buf" using u by (simp_all add: used_def)
    have nn: "min (length buf) (length r) = n" by (simp add: n_def)
    have cc: "chunk_start (write_data cfg e l ?c1) = chunk_start c" unfolding w(1) by simp
    have c3r: "whole_block_remaining ?c3 = length r - n" unfolding al(1) using wr2 by simp
    have c1: "c\<lparr>remaining_bufptr_bytes := length buf - n, bufptr_bytes_done := 0 + n, whole_block_remaining := length r - n,
        md5_hash := md5_update (md5_hash c) e\<rparr> = ?c1" by simp
    have zl: "(whole_block_remaining ?c1 = 0) = l" by (simp add: l_def)
    show ?thesis
      unfolding State_Block_def Let_def u' wr nn e_def[symmetric] c1 zl cc c2_def[symmetric] c3r
      by (simp add: l_def)
  qed
  have tk2: "taking new items [] ?p (d @ e) ?c3" using w(2) unfolding al(1) unfolding c2_def by (subst taking_frame[of _ "write_data cfg e l ?c1"]) simp_all
  have md2: "md5_inv (md5_update (md5_hash c) e) (d @ e)" using md5_update_inv[OF md, of e] e(2) by simp
  have blk2: "in_blk cfg old new k items ?c3"
    using blk md5_inv_buffer[OF md2] unfolding al(1) unfolding c2_def w(1) by (simp add: in_blk_def client_base_def size_known_def pending_from_def)
  have f2: "md5_hash ?c3 = md5_update (md5_hash c) e" "chunk_start ?c3 = int (?p + length (d @ e))" "whole_block_remaining ?c3 = length r - n"
    "used buf n ?c3" "cs_state ?c3 = CS_BLOCK" "l \<longrightarrow> patch_buf ?c3 = []" "m_hashoutput ?c3 = h" "adler_hash ?c3 = ah" "adler_remaining ?c3 = ar" "next_chunk ?c3 = next_chunk c"
    unfolding al(1) unfolding c2_def w(1) using cs e(3) u c(2) w(3) by (simp_all add: used_def)
  show ?thesis
  proof (cases l)
    case False
    then have lb: "n = length buf" "length buf < length r" "e = buf" "length r - n \<noteq> 0" using n by (auto simp: l_def n_def e_def min_def split: if_splits)
    have db: "d @ buf @ drop n r = ?b" using er lb(1,3) dr by (metis append_take_drop_id)
    have h3: "hashes_fit new (at_words new k (full_words (d @ e))) ?c3" using al(2) wr2 lb(4) f2(7) by simp
    have "in_whole cfg old new k (d @ buf) (drop (length buf) r) ?c3"
      unfolding in_whole_def using db blk2 tk2 md2 f2 h3 al(3) wr2 lb by auto
    then show ?thesis using False st lb(1,2) f2(4,5,10) by simp
  next
    case True
    then have lr: "n = length r" "e = r" using er n(3) by (simp_all add: l_def)
    have lb: "length r \<le> length buf" using lr(1) by (simp add: n_def)
    have db: "d @ e = ?b" using lr(2) dr by simp
    obtain cur1 where p1: "patch_rep (length new) items cur1 ?c3" "contig ?p cur1" "concat (map snd cur1) = d @ e"
      using taking_flushed[OF tk2] f2(6) True by auto
    have hu0: "have_upto old new k items [] ?p []" using blk by (simp add: have_upto_def in_blk_def small_items_def)
    have hu2: "have_upto old new k items cur1 (?p + length (d @ e)) ?b"
      using have_upto_take[OF hu0 p1(2)] L(3,6) unfolding p1(3) db by simp
    let ?x = "?c3\<lparr>md5_hash := md5_finalize (md5_hash ?c3), hash_for_whole_block := True\<rparr>"
    have md3: "md5_inv (md5_hash ?c3) ?b" using md2 f2(1) db by simp
    have dig: "raw_digest_int (md5_hash ?x) = Some (md5_of ?b)" using md5_finalize_digest[OF md3] by simp
    have bs: "block_slot (block_for_chunk_start ?x) = int (8 + 528 * k)" using blk2 block_slot_eq[of k] by (simp add: in_blk_def)
    have "hashes_fit new (at_words new k (chunk_words ?b)) ?x" using al(2)[rule_format, of ?x] wr2 lr(1) e(1) db f2(7) by simp
    then have hx: "ho_all (\<lambda>bs q. length bs \<le> length (hash_file new) \<and> slot_words new k (chunk_words ?b) bs) ?x"
      unfolding hashes_fit_def by (rule ho_all_mono) (simp add: at_words_def)
    have "\<exists>h. hash_write cfg (md5_of ?b) (hash_seek (int (8 + 528 * k)) ?x) = ?x\<lparr>m_hashoutput := h\<rparr> \<and>
      (\<forall>y. m_hashoutput y = h \<longrightarrow> ho_all (\<lambda>bs p. length bs \<le> length (hash_file new) \<and> starts bs (hash_prefix new (Suc k))) y)"
    proof (rule hash_put_ex[OF hx])
      fix bs assume q: "length bs \<le> length (hash_file new) \<and> slot_words new k (chunk_words ?b) bs"
      have "starts (overwrite bs (8 + 528 * k) (md5_of ?b)) (hash_prefix new k @ md5_of ?b @ chunk_words ?b)"
        using slot_digest_put[OF L(1)] q length_md5_of by blast
      then show "length (overwrite bs (nat (int (8 + 528 * k))) (md5_of ?b)) \<le> length (hash_file new) \<and>
          starts (overwrite bs (nat (int (8 + 528 * k))) (md5_of ?b)) (hash_prefix new (Suc k))"
        unfolding pos_nat hash_prefix_Suc chunk_hash_parts using q slot_fits[OF L(1)] by (simp add: length_overwrite length_md5_of)
    qed (simp_all add: length_md5_of)
    then obtain h' where h': "hash_write cfg (md5_of ?b) (hash_seek (int (8 + 528 * k)) ?x) = ?x\<lparr>m_hashoutput := h'\<rparr>"
      "\<forall>y. m_hashoutput y = h' \<longrightarrow> hashes_fit new (\<lambda>bs p. starts bs (hash_prefix new (Suc k))) y"
      unfolding hashes_fit_def by blast
    let ?y = "?x\<lparr>m_hashoutput := h', cs_state := CS_ID_FIRST\<rparr>"
    have tb: "take big_hash_size (md5_of ?b) = md5_of ?b" by (simp add: big_hash_size_def length_md5_of)
    have sb: "State_Block cfg c = Some ?y"
      unfolding st Let_def if_P[OF True] dig bs Option.bind.simps tb h'(1) by simp
    have "in_blk cfg old new k items ?y"
      using blk2 md5_finalize_buffer[OF md3] by (simp add: in_blk_def client_base_def size_known_def pending_from_def)
    moreover have "patch_rep (length new) items cur1 ?y" using p1(1) by (subst patch_rep_frame[of _ ?c3]) simp_all
    moreover have "hashes_fit new (\<lambda>bs p. starts bs (hash_prefix new (Suc k))) ?y" using h'(2) by simp
    moreover have "raw_digest_int (md5_hash ?y) = Some (md5_of ?b)" using dig by simp
    moreover have "patch_buf ?y = []" "hash_for_whole_block ?y" using f2(6) True by simp_all
    ultimately have "whole_done cfg old new k ?y" unfolding whole_done_def using hu2 by blast
    moreover have "used buf (length r) ?y" "next_chunk ?y = next_chunk c" using f2(4,10) lr(1) by (simp_all add: used_def)
    ultimately show ?thesis using sb lb by (intro exI[of _ ?y]) simp
  qed
qed

end
