(* ===== verification/Client_Message.thy ===== *)
theory Client_Message
  imports Client_Step
begin

text \<open>
  The messages of an answer: what the server's side of a block difference does when a message, or the front of one that is
  followed by data, has arrived.
\<close>

section \<open>Fields\<close>

lemma pkt_int64_le: "p < 2 ^ 63 \<Longrightarrow> pkt_int64 be 0 (le_bytes 8 (of_int (int p) :: u64) @ r) = int p"
  using sint_of_nat64[of p] by (simp add: pkt_int64_def)

lemma pkt_uint_le: "length a = 8 \<Longrightarrow> pkt_uint be 8 (a @ le_bytes 4 (w :: u32) @ r) = w"
  by (simp add: pkt_uint_def)

lemma unat_small32: "n < 2 ^ 32 \<Longrightarrow> unat (of_nat n :: u32) = n"
  by (simp add: unat_of_nat take_bit_nat_eq_self)

lemma unat_diff32: "q \<le> e \<Longrightarrow> e - q < 2 ^ 32 \<Longrightarrow> unat (of_int (int e - int q) :: u32) = e - q"
proof -
  assume a: "q \<le> e" "e - q < 2 ^ 32"
  have "(of_int (int e - int q) :: u32) = of_nat (e - q)" using a(1) by (metis of_int_of_nat_eq of_nat_diff)
  then show ?thesis using unat_small32[OF a(2)] by simp
qed

section \<open>Reading the old file for a hash\<close>

lemma old_part_split: "a \<le> b \<Longrightarrow> b \<le> e \<Longrightarrow> take (b - a) (drop a old) @ old_part old b e = old_part old a e"
  using old_part_append[of a b e old] by (simp add: old_part_def)

lemma hash_upto_loop_ok:
  assumes "file_at (m_file c) old q" "chunk_start c = int q" "md5_inv (md5_hash c) w" "q < e" "e \<le> length old" "e - q < 2 ^ 32"
  shows "\<exists>f m. hash_upto_loop (int e) c = Some (c\<lparr>m_file := f, chunk_start := int e, md5_hash := m\<rparr>) \<and>
    file_at f old e \<and> md5_inv m (w @ old_part old q e)"
  using assms
proof (induction "e - q" arbitrary: q c w rule: less_induct)
  case less
  define n where "n = min fc_buffersize (e - q)"
  have n: "0 < n" "n \<le> e - q" "n \<le> 32768" using less.prems(4) by (auto simp: n_def fc_buffersize_def)
  define d where "d = take n (drop q old)"
  have d: "length d = n" using n less.prems(5) by (simp add: d_def)
  have dp: "d @ old_part old (q + n) e = old_part old q e" using old_part_split[of q "q + n" e old] n by (simp add: d_def)
  obtain g where g: "File_Read n (m_file c) = (d, False, g)" "file_at g old (q + n)"
    using read_at[OF less.prems(1), of n] n(3) d by (auto simp: d_def)
  have un: "unat (of_int (int e - int q) :: u32) = e - q" using unat_diff32[of q e] less.prems(4,6) by simp
  have md: "md5_inv (md5_update (md5_hash c) d) (w @ d)" using md5_update_inv[OF less.prems(3), of d] d n(3) by simp
  let ?c = "c\<lparr>m_file := g, chunk_start := int (q + n), md5_hash := md5_update (md5_hash c) d\<rparr>"
  have tr: "min fc_buffersize (unat (of_int (int e - chunk_start c) :: u32)) = n" unfolding less.prems(2) un n_def ..
  have st: "hash_upto_loop (int e) c = (if q + n < e then hash_upto_loop (int e) ?c else Some ?c)"
    unfolding hash_upto_loop.simps[of _ c] Let_def tr g(1) prod.case using less.prems(2) d by simp
  show ?case
  proof (cases "q + n < e")
    case True
    have "e - (q + n) < e - q" using True n by simp
    moreover have "e - (q + n) < 2 ^ 32" using less.prems(6) by linarith
    moreover have "file_at (m_file ?c) old (q + n)" "chunk_start ?c = int (q + n)" "md5_inv (md5_hash ?c) (w @ d)" using g(2) md by simp_all
    ultimately obtain f m where "hash_upto_loop (int e) ?c = Some (?c\<lparr>m_file := f, chunk_start := int e, md5_hash := m\<rparr>)"
      "file_at f old e" "md5_inv m ((w @ d) @ old_part old (q + n) e)"
      using less.hyps[of "q + n" ?c "w @ d"] True less.prems(5) by blast
    then show ?thesis using True st dp by (intro exI[of _ f] exI[of _ m]) simp
  next
    case False
    then have "q + n = e" using n by simp
    then show ?thesis using st g(2) md dp by (intro exI[of _ g] exI[of _ "md5_update (md5_hash c) d"]) auto
  qed
qed

lemma hash_rest_ok:
  assumes "file_at (m_file c) old q" "chunk_start c = int q" "md5_inv (md5_hash c) w" "q \<le> e" "e \<le> length old \<or> q = e" "e - q < 2 ^ 32"
  shows "\<exists>f m p. hash_rest (int e) c = (False, c\<lparr>m_file := f, chunk_start := int e, md5_hash := m, fc_file_pos := p\<rparr>) \<and>
    file_at f old (if q = e then fpos (m_file c) else e) \<and> md5_inv m (w @ old_part old q e)"
  using assms
proof (induction "e - q" arbitrary: q c w rule: less_induct)
  case less
  show ?case
  proof (cases "q = e")
    case True
    then show ?thesis using less.prems
      by (subst hash_rest.simps) (intro exI[of _ "m_file c"] exI[of _ "md5_hash c"] exI[of _ "fc_file_pos c"], simp add: file_at_def)
  next
    case False
    define n where "n = min fc_buffersize (e - q)"
    have n: "0 < n" "n \<le> e - q" "n \<le> 32768" using less.prems(4) False by (auto simp: n_def fc_buffersize_def)
    define d where "d = take n (drop q old)"
    have d: "length d = n" "d \<noteq> []" using n less.prems(5) False by (auto simp: d_def)
    have dp: "d @ old_part old (q + n) e = old_part old q e" using old_part_split[of q "q + n" e old] n by (simp add: d_def)
    obtain g where g: "File_Read n (m_file c) = (d, False, g)" "file_at g old (q + n)"
      using read_at[OF less.prems(1), of n] n(3) d by (auto simp: d_def)
    have un: "unat (of_int (int e - int q) :: u32) = e - q" using unat_diff32[of q e] less.prems(4,6) by simp
    have md: "md5_inv (md5_update (md5_hash c) d) (w @ d)" using md5_update_inv[OF less.prems(3), of d] d n(3) by simp
    let ?c = "c\<lparr>m_file := g, fc_file_pos := fc_file_pos c + int n, chunk_start := int (q + n), md5_hash := md5_update (md5_hash c) d\<rparr>"
    have tr: "min fc_buffersize (unat (of_int (int e - chunk_start c) :: u32)) = n" unfolding less.prems(2) un n_def ..
    have st: "hash_rest (int e) c = hash_rest (int e) ?c"
      unfolding hash_rest.simps[of _ c] Let_def tr g(1) prod.case using False less.prems(2,4) d by simp
    have "e - (q + n) < e - q" using False less.prems(4) n by simp
    moreover have "e - (q + n) < 2 ^ 32" "q + n \<le> e" "e \<le> length old \<or> q + n = e" using less.prems(4,5,6) n False by linarith+
    moreover have "file_at (m_file ?c) old (q + n)" "chunk_start ?c = int (q + n)" "md5_inv (md5_hash ?c) (w @ d)" using g(2) md by simp_all
    ultimately obtain f m p where "hash_rest (int e) ?c = (False, ?c\<lparr>m_file := f, chunk_start := int e, md5_hash := m, fc_file_pos := p\<rparr>)"
      "file_at f old (if q + n = e then fpos (m_file ?c) else e)" "md5_inv m ((w @ d) @ old_part old (q + n) e)"
      using less.hyps[of "q + n" ?c "w @ d"] by blast
    moreover have "fpos g = q + n" using g(2) by (simp add: file_at_def)
    ultimately show ?thesis unfolding st using False dp by (intro exI[of _ f] exI[of _ m] exI[of _ p]) (auto split: if_splits)
  qed
qed

section \<open>The front of a whole block\<close>

lemma seek_true: "no_fault f \<Longrightarrow> \<exists>g. File_Seek (int p) f = (True, g) \<and> file_at g (fbytes f) p"
  using File_Seek_ok[of f "int p"] no_fault_eq[of "next_op (f\<lparr>fpos := p\<rparr>)" f] by (simp add: file_at_def)

lemma map_of_pending: "inj_on f (set js) \<Longrightarrow> j \<in> set js \<Longrightarrow> map_of (map (\<lambda>j. (f j, g j)) js) (f j) = Some (g j)"
  by (induction js) (auto simp: inj_on_def)

lemma pending_find_at:
  assumes "pending_from old k c" "k \<le> j" "j < nat (next_chunk c)"
  shows "pending_find (int (blockdist * j)) c = Some (stored_hashes old j)"
proof -
  have i: "inj_on (\<lambda>j. int (blockdist * j)) (set [k..<nat (next_chunk c)])" using blockdist_pos by (auto simp: inj_on_def)
  have "pending_chunks c = map (\<lambda>j. (int (blockdist * j), stored_hashes old j)) [k..<nat (next_chunk c)]"
    using assms(1) by (simp add: pending_from_def)
  then show ?thesis unfolding pending_find_def using map_of_pending[OF i, of j "stored_hashes old"] assms(2,3) by simp
qed

lemma upto_block_eq: "k < nblocks new \<Longrightarrow> upto_block new k = blockdist * k"
  by (simp add: upto_block_def less_nblocks)

lemma at_blockE:
  assumes "at_block cfg old new k c" "k < nat (next_chunk c)"
  obtains items where "client_base cfg old new k c" "size_known new c" "patch_buf c = []" "patch_rep (length new) items [] c"
    "covers old (blockdist * k) items (take (blockdist * k) new)" "block_for_chunk_start c < int (blockdist * k)"
    "hashes_fit new (\<lambda>bs p. starts bs (hash_prefix new k)) c" "k < nblocks new"
proof -
  have k: "k < nblocks new" using assms by (auto simp: at_block_def client_base_def)
  show ?thesis using that assms k unfolding at_block_def upto_block_eq[OF k] by blast
qed

lemma prefix_put:
  assumes k: "k < nblocks new" and s: "starts bs (hash_prefix new k)" "length bs \<le> length (hash_file new)"
    and d: "length d \<le> 16 + 4 * npieces (new_block new k)"
  shows "length (overwrite bs (8 + 528 * k) d) \<le> length (hash_file new)" "starts (overwrite bs (8 + 528 * k) d) (hash_prefix new k @ d)"
  using starts_append[OF s(1), of d] slot_fits[OF k] s(2) d k by (simp_all add: length_overwrite length_hash_prefix')

lemma acc_whole_block_runs:
  assumes c: "at_block cfg old new k c" "k < nat (next_chunk c)" and b: "b = new_block new k"
    and m: "msg = le_bytes 8 (of_int (int (blockdist * k)) :: u64) @ le_bytes 4 (of_nat (length b) :: u32)" and u: "used buf n c"
  shows "\<exists>c'. acc_whole_block cfg msg c = Some c' \<and> in_whole cfg old new k [] b c' \<and> cs_state c' = CS_BLOCK \<and> used buf n c' \<and>
    next_chunk c' = next_chunk c"
proof -
  let ?p = "blockdist * k"
  obtain items where cb: "client_base cfg old new k c" "size_known new c" "patch_buf c = []" "patch_rep (length new) items [] c"
    "covers old ?p items (take ?p new)" "hashes_fit new (\<lambda>bs p. starts bs (hash_prefix new k)) c" and k: "k < nblocks new"
    using at_blockE[OF c] .
  have p: "?p < 2 ^ 63" using k cb(1) by (auto simp: client_base_def less_nblocks)
  have bl: "length b < 2 ^ 32" using new_block_small[of new k] b by (simp add: c_checkpoint_dist_def)
  have f1: "pkt_int64 (cl_be cfg) 0 msg = int ?p" unfolding m by (rule pkt_int64_le[OF p])
  have f2: "unat (pkt_uint (cl_be cfg) 8 msg) = length b" unfolding m using pkt_uint_le[of _ _ _ "[]"] unat_small32[OF bl] by simp
  have pf: "pending_find (int ?p) x = Some (stored_hashes old k)" if "pending_chunks x = pending_chunks c" for x
    using pending_find_at[of old k c k] cb(1) c(2) that by (simp add: client_base_def pending_find_def)
  obtain f where sk: "File_Seek (int ?p) (m_file c) = (True, f)" "file_at f (fbytes (m_file c)) ?p"
    using seek_true[of "m_file c" ?p] cb(1) by (auto simp: client_base_def)
  have nf: "no_fault f" "fbytes f = old" using sk(2) cb(1) by (simp_all add: file_at_def client_base_def)
  define d where "d = c\<lparr>chunk_start := int ?p, fc_file_pos := int ?p, m_file := f, block_for_chunk_start := int ?p,
    whole_block_remaining := length b, cs_state := CS_BLOCK, md5_hash := md5_init (md5_hash c), hash_for_whole_block := False,
    adler_hash := adler32_of [], adler_remaining := 4096, block_pos := 0\<rparr>"
  have a: "acc_whole_block cfg msg c = Some (hash_write cfg (replicate 16 0) (hash_seek (int (8 + 528 * k)) d))"
    unfolding acc_whole_block_def f1 Let_def using pf[of "c\<lparr>chunk_start := int ?p\<rparr>"] sk(1) block_slot_eq[of k]
    by (simp add: f2 d_def adler32_start c_chunk_size_def big_hash_size_def)
  have md: "md5_inv (md5_hash d) []" using cb(1) by (auto simp: d_def client_base_def intro: md5_init_inv)
  have h0: "ho_all (\<lambda>bs q. length bs \<le> length (hash_file new) \<and> starts bs (hash_prefix new k)) d"
    using cb(6) by (simp add: d_def hashes_fit_def ho_all_def)
  have "\<exists>h. hash_write cfg (replicate 16 0) (hash_seek (int (8 + 528 * k)) d) = d\<lparr>m_hashoutput := h\<rparr> \<and>
      (\<forall>y. m_hashoutput y = h \<longrightarrow> ho_all (\<lambda>bs p. length bs \<le> length (hash_file new) \<and> at_words new k [] bs p) y)"
  proof (rule hash_put_ex[OF h0])
    fix bs assume q: "length bs \<le> length (hash_file new) \<and> starts bs (hash_prefix new k)"
    show "length (overwrite bs (nat (int (8 + 528 * k))) (replicate 16 0)) \<le> length (hash_file new) \<and>
        at_words new k [] (overwrite bs (nat (int (8 + 528 * k))) (replicate 16 0)) (nat (int (8 + 528 * k)) + length (replicate 16 (0 :: byte)))"
      using prefix_put[OF k, of bs "replicate 16 0"] q unfolding pos_nat at_words_def slot_words_def
      by (auto intro: exI[of _ "replicate 16 0"])
  qed simp_all
  then obtain h where h: "hash_write cfg (replicate 16 0) (hash_seek (int (8 + 528 * k)) d) = d\<lparr>m_hashoutput := h\<rparr>"
    "hashes_fit new (at_words new k []) (d\<lparr>m_hashoutput := h\<rparr>)"
    unfolding hashes_fit_def by fastforce
  let ?d = "d\<lparr>m_hashoutput := h\<rparr>"
  have "in_blk cfg old new k items ?d"
    using cb(1,2,5) c(2) nf md5_inv_buffer[OF md] by (simp add: in_blk_def client_base_def size_known_def pending_from_def d_def)
  moreover have "patch_rep (length new) items [] ?d" using cb(4) by (subst patch_rep_frame[of _ c]) (simp_all add: d_def)
  then have "taking new items [] ?p [] ?d" using cb(3) by (intro taking_start) (simp_all add: d_def)
  moreover have "full_words [] = []" "tail_part [] = []" by (simp_all add: full_words_def full_part_def tail_part_def chunk_words_Nil)
  ultimately have "in_whole cfg old new k [] b ?d"
    unfolding in_whole_def using h(2) md b by (auto simp: d_def)
  moreover have "cs_state ?d = CS_BLOCK" "used buf n ?d" "next_chunk ?d = next_chunk c" using u by (simp_all add: d_def used_def)
  ultimately show ?thesis using a h(1) by (intro exI[of _ ?d]) simp
qed

section \<open>The front of an update\<close>

text \<open>The hash of the block covers what is in front of the \<open>i\<close>-th chunk, which is to be replaced.\<close>

definition at_update :: "client_config \<Rightarrow> byte list \<Rightarrow> byte list \<Rightarrow> nat \<Rightarrow> nat \<Rightarrow> chunk_client \<Rightarrow> bool" where
  "at_update cfg old new k i c \<longleftrightarrow> \<not> all_passed new k i \<and> patch_buf c = [] \<and> \<not> hash_for_whole_block c \<and>
     chunk_start c = int (blockdist * k + 4096 * i) \<and>
     (\<exists>items cur w. in_blk cfg old new k items c \<and> have_upto old new k items cur (blockdist * k + 4096 * i) w \<and>
        patch_rep (length new) items cur c \<and> md5_inv (md5_hash c) w \<and>
        rebuilt_from old new k (Suc i) (w @ piece_of (new_block new k) i) = rebuilt old new k)"

lemma passed_pos:
  assumes "\<not> all_passed new k i"
  shows "i < 128" "4096 * i \<le> length (new_block new k)" "block_of (int (blockdist * k + 4096 * i)) = int (blockdist * k)"
proof -
  show i: "i < 128" "4096 * i \<le> length (new_block new k)" using assms by (auto simp: all_passed_def)
  have "int (blockdist * k + 4096 * i) sdiv int blockdist = int k"
    using i(1) by (simp add: signed_divide_int_def sgn_if c_checkpoint_dist_def)
  then show "block_of (int (blockdist * k + 4096 * i)) = int (blockdist * k)" by (simp add: block_of_def)
qed

lemma upto_reads:
  assumes blk: "in_blk cfg old new k items c" and hu: "have_upto old new k items cur q w" and pr: "patch_rep (length new) items cur c"
    and md: "md5_inv (md5_hash c) w" and cs: "chunk_start c = int q" and cu: "caught_up old new k q i" and np: "\<not> all_passed new k i"
    and df: "piece_differs (length old) (small_hashes old k) (blockdist * k + 4096 * i) i (piece_of (new_block new k) i)"
    and rb: "rebuilt_from old new k i w = rebuilt old new k" and pb: "patch_buf c = []" "\<not> hash_for_whole_block c" and u: "used buf n c"
  defines "e \<equiv> blockdist * k + 4096 * i"
  shows "\<exists>c'. (if chunk_start c \<noteq> int e then
           let (sought, f) = File_Seek (chunk_start c) (m_file c); c = c\<lparr>m_file := f\<rparr>
           in do { c \<leftarrow> (if sought then hash_upto_loop (int e) c else Some (c\<lparr>chunk_start := int e\<rparr>));
                   Some (nb, c\<lparr>fc_file_pos := int e\<rparr>) }
         else Some (nb, c)) = Some (nb :: bool, c') \<and> at_update cfg old new k i c' \<and> m_hashoutput c' = m_hashoutput c \<and> used buf n c' \<and>
    next_chunk c' = next_chunk c"
proof -
  note P = passed_pos[OF np] and L = in_blk_lengths[OF blk]
  have min: "min (4096 * i) (length (new_block new k)) = 4096 * i" using P(2) by simp
  have qe: "q \<le> e" "e \<le> length old \<or> e = q" using cu unfolding caught_up_def Let_def min e_def by auto
  have pq: "q = blockdist * k + length w" using hu by (simp add: have_upto_def)
  have hu2: "have_upto old new k items cur e (w @ old_part old q e)" using have_upto_old[OF hu qe] .
  have rb2: "rebuilt_from old new k (Suc i) ((w @ old_part old q e) @ piece_of (new_block new k) i) = rebuilt old new k"
    using update_next(2)[OF np df, of w] rb pq by (simp add: e_def)
  show ?thesis
  proof (cases "q = e")
    case True
    then have "at_update cfg old new k i c" unfolding at_update_def using np pb cs blk hu2 pr md rb2 e_def by auto
    then show ?thesis using True cs u by simp
  next
    case False
    have nf: "no_fault (m_file c)" "fbytes (m_file c) = old" using blk by (simp_all add: in_blk_def client_base_def)
    obtain f where f: "File_Seek (int q) (m_file c) = (True, f)" "file_at f old q" using seek_true[OF nf(1), of q] nf(2) by auto
    have r: "q < e" "e \<le> length old" using qe False by auto
    have "e - q \<le> 4096 * i" using pq by (simp add: e_def)
    then have r2: "e - q < 2 ^ 32" using P(1) by simp
    obtain g m where g: "hash_upto_loop (int e) (c\<lparr>m_file := f\<rparr>) = Some (c\<lparr>m_file := g, chunk_start := int e, md5_hash := m\<rparr>)"
      "file_at g old e" "md5_inv m (w @ old_part old q e)"
      using hash_upto_loop_ok[of "c\<lparr>m_file := f\<rparr>" old q w e] f(2) cs md r r2 by auto
    let ?c = "c\<lparr>m_file := g, chunk_start := int e, md5_hash := m, fc_file_pos := int e\<rparr>"
    have "in_blk cfg old new k items ?c"
      using blk g(2) md5_inv_buffer[OF g(3)] by (simp add: in_blk_def client_base_def size_known_def pending_from_def file_at_def)
    moreover have "patch_rep (length new) items cur ?c" using pr by (subst patch_rep_frame[of _ c]) simp_all
    ultimately have "at_update cfg old new k i ?c"
      unfolding at_update_def e_def[symmetric] using np pb hu2 g(3) rb2
      by (intro conjI exI[of _ items] exI[of _ cur] exI[of _ "w @ old_part old q e"]) simp_all
    moreover have "used buf n ?c" using u by (simp add: used_def)
    moreover have "(if chunk_start c \<noteq> int e then
           let (sought, f) = File_Seek (chunk_start c) (m_file c); c = c\<lparr>m_file := f\<rparr>
           in do { c \<leftarrow> (if sought then hash_upto_loop (int e) c else Some (c\<lparr>chunk_start := int e\<rparr>));
                   Some (nb, c\<lparr>fc_file_pos := int e\<rparr>) }
         else Some (nb, c)) = Some (nb, ?c)"
      using False cs f(1) g(1) by simp
    ultimately show ?thesis by (intro exI[of _ ?c]) simp
  qed
qed

lemma Hash_upto_first:
  assumes c: "at_block cfg old new k c" "k < nat (next_chunk c)" and i: "caught_up old new k (blockdist * k) i" "\<not> all_passed new k i"
    and df: "piece_differs (length old) (small_hashes old k) (blockdist * k + 4096 * i) i (piece_of (new_block new k) i)"
    and rb: "rebuilt_from old new k i [] = rebuilt old new k" and u: "used buf n c"
  shows "\<exists>c'. Hash_upto (int (blockdist * k + 4096 * i)) c = Some (True, c') \<and> at_update cfg old new k i c' \<and> m_hashoutput c' = m_hashoutput c \<and> used buf n c' \<and>
    next_chunk c' = next_chunk c"
proof -
  let ?p = "blockdist * k"
  obtain items where cb: "client_base cfg old new k c" "size_known new c" "patch_buf c = []" "patch_rep (length new) items [] c"
    "covers old ?p items (take ?p new)" "block_for_chunk_start c < int ?p" and k: "k < nblocks new"
    using at_blockE[OF c] .
  let ?c = "c\<lparr>block_for_chunk_start := int ?p, md5_hash := md5_init (md5_hash c), last_chunk_patches := [], patch_buf := [],
    hash_for_whole_block := False, chunk_start := int ?p\<rparr>"
  have md: "md5_inv (md5_hash ?c) []" using cb(1) by (auto simp: client_base_def intro: md5_init_inv)
  have blk: "in_blk cfg old new k items ?c"
    using cb(1,2,5) c(2) md5_inv_buffer[OF md] by (simp add: in_blk_def client_base_def size_known_def pending_from_def)
  have pr: "patch_rep (length new) items [] ?c" using cb(4) by (simp add: patch_rep_def)
  have hu: "have_upto old new k items [] ?p []" using cb(5) by (simp add: have_upto_def small_items_def)
  have u': "used buf n ?c" using u by (simp add: used_def)
  have nb: "block_of (int (?p + 4096 * i)) \<noteq> block_for_chunk_start c" unfolding passed_pos(3)[OF i(2)] using cb(6) by simp
  have e: "Hash_upto (int (?p + 4096 * i)) c = (if chunk_start ?c \<noteq> int (?p + 4096 * i) then
           let (sought, f) = File_Seek (chunk_start ?c) (m_file ?c); c = ?c\<lparr>m_file := f\<rparr>
           in do { c \<leftarrow> (if sought then hash_upto_loop (int (?p + 4096 * i)) c else Some (c\<lparr>chunk_start := int (?p + 4096 * i)\<rparr>));
                   Some (True, c\<lparr>fc_file_pos := int (?p + 4096 * i)\<rparr>) }
         else Some (True, ?c))"
    unfolding Hash_upto_def Let_def if_P[OF nb] using nb unfolding passed_pos(3)[OF i(2)] by (simp add: split_beta)
  show ?thesis unfolding e using upto_reads[OF blk hu pr md _ i df rb _ _ u', of True] by simp
qed

lemma Hash_upto_next:
  assumes c: "in_updates cfg old new k j c" and i: "\<not> all_passed new k i"
    and nx: "\<And>q w. caught_up old new k q j \<Longrightarrow> caught_up old new k q i \<and> rebuilt_from old new k i w = rebuilt_from old new k j w"
    and df: "piece_differs (length old) (small_hashes old k) (blockdist * k + 4096 * i) i (piece_of (new_block new k) i)" and u: "used buf n c"
  shows "\<exists>c'. Hash_upto (int (blockdist * k + 4096 * i)) c = Some (False, c') \<and> at_update cfg old new k i c' \<and> m_hashoutput c' = m_hashoutput c \<and> used buf n c' \<and>
    next_chunk c' = next_chunk c"
proof -
  let ?p = "blockdist * k"
  obtain items cur q w where s: "in_blk cfg old new k items c" "have_upto old new k items cur q w" "patch_rep (length new) items cur c"
    "md5_inv (md5_hash c) w" "chunk_start c = int q" "caught_up old new k q j" "rebuilt_from old new k j w = rebuilt old new k"
    using c unfolding in_updates_def by blast
  have t: "patch_buf c = []" "\<not> hash_for_whole_block c" using c by (simp_all add: in_updates_def)
  have nb: "\<not> block_of (int (?p + 4096 * i)) \<noteq> block_for_chunk_start c"
    unfolding passed_pos(3)[OF i] using s(1) by (simp add: in_blk_def)
  have rb: "rebuilt_from old new k i w = rebuilt old new k" using nx[OF s(6), of w] s(7) by simp
  have cu: "caught_up old new k q i" using nx[OF s(6)] by simp
  have e: "Hash_upto (int (?p + 4096 * i)) c = (if chunk_start c \<noteq> int (?p + 4096 * i) then
           let (sought, f) = File_Seek (chunk_start c) (m_file c); c = c\<lparr>m_file := f\<rparr>
           in do { c \<leftarrow> (if sought then hash_upto_loop (int (?p + 4096 * i)) c else Some (c\<lparr>chunk_start := int (?p + 4096 * i)\<rparr>));
                   Some (False, c\<lparr>fc_file_pos := int (?p + 4096 * i)\<rparr>) }
         else Some (False, c))"
    unfolding Hash_upto_def Let_def if_not_P[OF nb] using nb by (simp add: split_beta)
  show ?thesis unfolding e using upto_reads[OF s(1-5) cu i df rb t u, of False] by simp
qed

text \<open>The old hashes as far as the new block goes.\<close>

lemma concat_words_take: "concat (map (\<lambda>j. take 4 (drop (4 * j) xs)) [0..<n]) = take (4 * n) xs"
  by (induction n) (simp_all add: take_add[symmetric] add.commute)

lemma upd_words_start: "concat (upd_words small b 0) = take (4 * npieces b) small"
  using concat_words_take[of small "npieces b"] by (simp add: upd_words_def)

lemma stored_front: "take (16 + 4 * npieces b) h = take 16 h @ concat (upd_words (drop 16 h) b 0)"
  by (simp add: upd_words_start take_add)

lemma sdiv_nat: "int a sdiv int b = int (a div b)"
proof (cases "a = 0 \<or> b = 0")
  case False
  then show ?thesis by (simp add: signed_divide_int_def sgn_if zdiv_int)
qed (auto simp: signed_divide_int_def)

lemma missing_words:
  fixes b :: nat
  assumes "b \<le> 524288"
  shows "528 - (524288 - b) div 4096 * 4 = 16 + 4 * ((b + 4095) div 4096)"
proof -
  define q r where "q = b div 4096" and "r = b mod 4096"
  have b: "b = 4096 * q + r" "r < 4096" by (simp_all add: q_def r_def)
  then have q: "q \<le> 128" using assms by linarith
  show ?thesis
  proof (cases "r = 0")
    case True
    then have "524288 - b = 4096 * (128 - q)" using b(1) q by (simp add: diff_mult_distrib2)
    then show ?thesis using b True q by simp
  next
    case False
    then have q': "q \<le> 127" using b assms by linarith
    have "524288 - b = (128 - Suc q) * 4096 + (4096 - r)" using b q' False by (simp add: diff_mult_distrib algebra_simps)
    then have "(524288 - b) div 4096 = 128 - Suc q" using False by simp
    moreover have "(b + 4095) div 4096 = Suc q" using b False by (intro div_nat_eqI) simp_all
    ultimately show ?thesis using q' by simp
  qed
qed

lemma block_hashes_size:
  assumes "size_known new c" "k < nblocks new"
  shows "(if remote_filesize c < int (blockdist * k) + int c_checkpoint_dist
     then chunkhash_single_size - missing_chunks (int (blockdist * k)) c * small_hash_size else chunkhash_single_size) =
    16 + 4 * npieces (new_block new k)"
proof -
  define b where "b = length (new_block new k)"
  have r: "remote_filesize c = int (length new)" using assms(1) by (simp add: size_known_def)
  have p: "blockdist * k < length new" using assms(2) by (simp add: less_nblocks)
  have bl: "b = min 524288 (length new - blockdist * k)" by (simp add: b_def block_bytes_length c_checkpoint_dist_def)
  have e: "chunkhash_single_size = 528" "c_checkpoint_dist = 524288" by (simp_all add: chunk_settings)
  show ?thesis
  proof (cases "remote_filesize c < int (blockdist * k) + int c_checkpoint_dist")
    case True
    then have "int (length new) < int (blockdist * k + blockdist)" by (simp add: r)
    then have "length new < blockdist * k + blockdist" by (simp only: of_nat_less_iff)
    then have lt: "length new - blockdist * k < 524288" "b = length new - blockdist * k" using p bl e(2) by linarith+
    have "int (blockdist * k) + int c_checkpoint_dist - remote_filesize c = int (524288 - b)" using r p lt True by (simp add: e(2))
    then have m: "missing_chunks (int (blockdist * k)) c = (524288 - b) div 4096"
      unfolding missing_chunks_def c_chunk_size_def using sdiv_nat[of "524288 - b" 4096] by simp
    have "528 - (524288 - b) div 4096 * 4 = 16 + 4 * npieces (new_block new k)"
      using missing_words[of b] lt by (simp only: npieces_def b_def[symmetric])
    then show ?thesis unfolding if_P[OF True] m e(1) small_hash_size_def .
  next
    case False
    then have "\<not> int (length new) < int (blockdist * k + blockdist)" by (simp add: r)
    then have "\<not> length new < blockdist * k + blockdist" unfolding of_nat_less_iff .
    then have "b = 524288" using bl e(2) by linarith
    then have "npieces (new_block new k) = 128" by (simp add: npieces_def flip: b_def)
    then show ?thesis unfolding if_not_P[OF False] e(1) by simp
  qed
qed

lemma slot_of_chunk: "i < 128 \<Longrightarrow> block_slot (int (blockdist * k + 4096 * i)) = int (8 + 528 * k)"
proof -
  assume "i < 128"
  then have "(blockdist * k + 4096 * i) div c_checkpoint_dist = k" by (simp add: c_checkpoint_dist_def)
  then show ?thesis unfolding block_slot_def sdiv_nat by (simp add: chunk_settings)
qed

lemma smod_nat: "int a smod int b = int (a mod b)"
  by (cases "a = 0") (simp_all add: signed_modulo_int_def sgn_if zmod_int)

lemma number_of_chunk: "i < 128 \<Longrightarrow> unat (of_int (int (blockdist * k + 4096 * i) smod int c_checkpoint_dist sdiv int c_chunk_size) :: u32) = i"
proof -
  assume i: "i < 128"
  then have "(blockdist * k + 4096 * i) mod c_checkpoint_dist div c_chunk_size = i" by (simp add: c_checkpoint_dist_def c_chunk_size_def)
  then show ?thesis unfolding smod_nat sdiv_nat using i by (simp add: unat_of_nat take_bit_nat_eq_self)
qed

lemma acc_update_chunk_runs:
  assumes up: "Hash_upto (int (blockdist * k + 4096 * i)) c = Some (nb, c1)" and a: "at_update cfg old new k i c1"
    and h: "nb \<longrightarrow> hashes_fit new (\<lambda>bs p. starts bs (hash_prefix new k)) c1"
      "nb \<longrightarrow> upd_words (small_hashes old k) (new_block new k) i = upd_words (small_hashes old k) (new_block new k) 0"
      "\<not> nb \<longrightarrow> hashes_fit new (\<lambda>bs p. slot_words new k (concat (upd_words (small_hashes old k) (new_block new k) i)) bs) c1"
    and m: "msg = le_bytes 8 (of_int (int (blockdist * k + 4096 * i)) :: u64) @ le_bytes 4 (of_nat (length (piece_of (new_block new k) i)) :: u32)"
    and u: "used buf n c1"
  shows "\<exists>c'. acc_update_chunk cfg msg c = Some c' \<and> used buf n c' \<and> next_chunk c' = next_chunk c1 \<and>
    (if piece_of (new_block new k) i \<noteq> [] then in_chunk cfg old new k i [] (piece_of (new_block new k) i) c' \<and> cs_state c' = CS_CHUNK
     else in_updates cfg old new k (Suc i) c' \<and> cs_state c' = CS_ID_FIRST)"
proof -
  define pc where "pc = piece_of (new_block new k) i"
  let ?p = "blockdist * k" and ?b = "new_block new k" and ?e = "blockdist * k + 4096 * i"
  let ?ws = "concat (upd_words (small_hashes old k) ?b i)"
  have np: "\<not> all_passed new k i" and t: "patch_buf c1 = []" "\<not> hash_for_whole_block c1" "chunk_start c1 = int ?e" using a by (simp_all add: at_update_def)
  obtain items cur w where s: "in_blk cfg old new k items c1" "have_upto old new k items cur ?e w" "patch_rep (length new) items cur c1"
    "md5_inv (md5_hash c1) w" "rebuilt_from old new k (Suc i) (w @ pc) = rebuilt old new k"
    using a unfolding at_update_def pc_def by blast
  note P = passed_pos[OF np] and L = in_blk_lengths[OF s(1)]
  have e63: "?e < 2 ^ 63" using P(2) L(3,6) by linarith
  have pl: "length pc \<le> 4096" by (simp add: pc_def piece_of_def)
  have f1: "pkt_int64 (cl_be cfg) 0 msg = int ?e" unfolding m by (rule pkt_int64_le[OF e63])
  have f2: "unat (pkt_uint (cl_be cfg) 8 msg) = length pc" unfolding m pc_def[symmetric] using pkt_uint_le[of _ _ _ "[]"] unat_small32[of "length pc"] pl by simp
  let ?c2 = "c1\<lparr>adler_remaining := length pc, fc_file_pos := int ?e\<rparr>"
  have blk2: "in_blk cfg old new k items ?c2" using s(1) by (simp add: in_blk_def client_base_def size_known_def pending_from_def)
  have pf: "pending_find (int ?p) ?c2 = Some (stored_hashes old k)"
    using pending_find_at[of old k ?c2 k] blk2 by (simp add: in_blk_def client_base_def)
  have sz2: "size_known new ?c2" using blk2 by (simp add: in_blk_def)
  let ?hs = "take (16 + 4 * npieces ?b) (stored_hashes old k)"
  obtain h1 where h1: "(if nb then hash_write cfg ?hs (hash_seek (int (8 + 528 * k)) ?c2) else ?c2) = ?c2\<lparr>m_hashoutput := h1\<rparr>"
    "hashes_fit new (\<lambda>bs p. slot_words new k ?ws bs) (?c2\<lparr>m_hashoutput := h1\<rparr>)"
  proof (cases nb)
    case True
    have hx: "ho_all (\<lambda>bs q. length bs \<le> length (hash_file new) \<and> starts bs (hash_prefix new k)) ?c2"
      using h(1) True by (simp add: hashes_fit_def ho_all_def)
    have hl: "length ?hs \<le> 16 + 4 * npieces ?b" by simp
    have hl32: "length ?hs \<le> 2 ^ 32" using length_stored_hashes[of old k] by simp
    have big: "length (take 16 (stored_hashes old k)) = 16" using length_stored_hashes[of old k] by simp
    have "\<exists>h. hash_write cfg ?hs (hash_seek (int (8 + 528 * k)) ?c2) = ?c2\<lparr>m_hashoutput := h\<rparr> \<and>
      (\<forall>y. m_hashoutput y = h \<longrightarrow> ho_all (\<lambda>bs p. length bs \<le> length (hash_file new) \<and> slot_words new k ?ws bs) y)"
    proof (rule hash_put_ex[OF hx _ hl32])
      fix bs assume q: "length bs \<le> length (hash_file new) \<and> starts bs (hash_prefix new k)"
      have sw: "?hs = take 16 (stored_hashes old k) @ ?ws" using stored_front[of ?b "stored_hashes old k"] h(2) True by simp
      show "length (overwrite bs (nat (int (8 + 528 * k))) ?hs) \<le> length (hash_file new) \<and> slot_words new k ?ws (overwrite bs (nat (int (8 + 528 * k))) ?hs)"
        using prefix_put[OF L(1), of bs ?hs] q hl big unfolding pos_nat slot_words_def by (metis sw)
    qed simp
    then obtain h where "hash_write cfg ?hs (hash_seek (int (8 + 528 * k)) ?c2) = ?c2\<lparr>m_hashoutput := h\<rparr>"
      "hashes_fit new (\<lambda>bs p. slot_words new k ?ws bs) (?c2\<lparr>m_hashoutput := h\<rparr>)"
      unfolding hashes_fit_def by fastforce
    then show ?thesis using that True by simp
  next
    case False
    have "hashes_fit new (\<lambda>bs p. slot_words new k ?ws bs) (?c2\<lparr>m_hashoutput := m_hashoutput c1\<rparr>)" using h(3) False by (simp add: hashes_fit_def ho_all_def)
    then show ?thesis using that[of "m_hashoutput c1"] False by simp
  qed
  obtain g where g: "File_Seek (int ?e) (m_file c1) = (True, g)" "file_at g old ?e"
    using seek_true[of "m_file c1" ?e] s(1) by (auto simp: in_blk_def client_base_def)
  let ?c3 = "?c2\<lparr>m_hashoutput := h1, m_file := g\<rparr>"
  have hx3: "ho_all (\<lambda>bs q. length bs \<le> length (hash_file new) \<and> slot_words new k ?ws bs) ?c3" using h1(2) by (simp add: hashes_fit_def ho_all_def)
  obtain h2 where h2: "hash_seek (int (8 + 528 * k + 16 + 4 * i)) ?c3 = ?c3\<lparr>m_hashoutput := h2\<rparr>"
    "\<forall>d. m_hashoutput d = h2 \<longrightarrow> ho_all (\<lambda>bs q. (length bs \<le> length (hash_file new) \<and> slot_words new k ?ws bs) \<and> q = nat (int (8 + 528 * k + 16 + 4 * i))) d"
    using hash_seek_ex[OF hx3, of "int (8 + 528 * k + 16 + 4 * i)"] by auto
  let ?c4 = "?c3\<lparr>m_hashoutput := h2, cs_state := (if 0 < length pc then CS_CHUNK else CS_ID_FIRST), adler_hash := adler32_of []\<rparr>"
  have st: "acc_update_chunk cfg msg c = Some ?c4"
  proof -
    define E where "E = int ?e"
    define B0 where "B0 = int ?p"
    define S0 where "S0 = int (8 + 528 * k)"
    define S where "S = int (8 + 528 * k + 16 + 4 * i)"
    have sp: "S0 + int (big_hash_size + i * small_hash_size) = S" by (simp add: big_hash_size_def small_hash_size_def S_def S0_def)
    have cs: "chunk_start c1 = E" using t(3) by (simp add: E_def)
    have bo: "block_of E = B0" using P(3) by (simp only: E_def B0_def)
    have sl: "block_slot E = S0" "block_slot B0 = S0" using slot_of_chunk[OF P(1), of k] block_slot_eq[of k] by (simp_all only: E_def B0_def S0_def)
    have nc: "unat (of_int (E smod int c_checkpoint_dist sdiv int c_chunk_size) :: u32) = i" unfolding E_def by (rule number_of_chunk[OF P(1)])
    note bh = block_hashes_size[OF sz2 L(1), folded B0_def E_def] and pf' = pf[folded B0_def E_def] and f1' = f1[folded E_def] and up' = up[folded E_def]
    note h1' = h1(1)[folded S0_def E_def] and g' = g(1)[folded E_def] and h2' = h2(1)[folded S_def E_def]
    let ?d2 = "c1\<lparr>adler_remaining := length pc, fc_file_pos := E\<rparr>"
    have cs2: "chunk_start ?d2 = E" using cs by simp
    have cs3: "chunk_start (?d2\<lparr>m_hashoutput := h1\<rparr>) = E" "m_file (?d2\<lparr>m_hashoutput := h1\<rparr>) = m_file c1"
      "chunk_start (?d2\<lparr>m_hashoutput := h1, m_file := g\<rparr>) = E" using cs by simp_all
    show ?thesis
      unfolding acc_update_chunk_def f1' up' Option.bind.simps prod.case f2 Let_def E_def[symmetric] cs
      by (simp only: cs2 bo pf' option.case bh sl h1' cs3 g' snd_conv nc sp h2') (simp add: adler32_start)
  qed
  have blk4: "in_blk cfg old new k items ?c4"
    using s(1) g(2) by (simp add: in_blk_def client_base_def size_known_def pending_from_def file_at_def)
  have pr4: "patch_rep (length new) items cur ?c4" using s(3) by (subst patch_rep_frame[of _ c1]) simp_all
  have h4: "hashes_fit new (\<lambda>bs p. slot_words new k ?ws bs \<and> p = 8 + 528 * k + 16 + 4 * i) ?c4"
    using h2(2)[rule_format, of ?c4] unfolding nat_int by (simp add: hashes_fit_def ho_all_def)
  have u4: "used buf n ?c4" using u by (simp add: used_def)
  show ?thesis
  proof (cases "pc = []")
    case False
    have "taking new items cur ?e [] ?c4" using pr4 t(1) by (intro taking_start) simp_all
    then have "in_chunk cfg old new k i [] pc ?c4"
      unfolding in_chunk_def append_Nil append_Nil2 using pc_def np blk4 s(2,4,5) t h4
      by (intro conjI exI[of _ items] exI[of _ cur] exI[of _ w]) simp_all
    then show ?thesis using False st u4 by (intro exI[of _ ?c4]) (simp add: pc_def)
  next
    case True
    then have il: "npieces ?b \<le> i" using less_npieces[of i ?b] by (auto simp: pc_def piece_of_def)
    have "upd_words (small_hashes old k) ?b i = upd_words (small_hashes old k) ?b (Suc i)"
      unfolding upd_words_def using il by (intro map_cong) auto
    then have h5: "hashes_fit new (\<lambda>bs p. slot_words new k (concat (upd_words (small_hashes old k) ?b (Suc i))) bs) ?c4"
      using h4 by (simp add: hashes_fit_def ho_all_def)
    have cu: "caught_up old new k ?e (Suc i)" using caught_up_Suc[OF np, of old] True by (simp add: pc_def)
    have rb: "rebuilt_from old new k (Suc i) w = rebuilt old new k" using s(5) True by simp
    have f4: "patch_buf ?c4 = []" "\<not> hash_for_whole_block ?c4" "md5_inv (md5_hash ?c4) w" "chunk_start ?c4 = int ?e"
      using t s(4) by simp_all
    have "in_updates cfg old new k (Suc i) ?c4" unfolding in_updates_def using blk4 s(2) pr4 cu rb f4 h5 by blast
    then show ?thesis using True st u4 by (intro exI[of _ ?c4]) (simp add: pc_def)
  qed
qed

section \<open>The end of a block\<close>

lemma upto_Suc: "k < nblocks new \<Longrightarrow> upto_block new (Suc k) = blockdist * k + length (new_block new k)"
  by (simp add: upto_block_def less_nblocks block_bytes_length)

lemma take_upto_Suc: "k < nblocks new \<Longrightarrow> take (upto_block new (Suc k)) new = take (blockdist * k) new @ new_block new k"
proof -
  assume k: "k < nblocks new"
  have "take (upto_block new (Suc k)) new = take (blockdist * k + blockdist) new" by (simp add: upto_block_def min_def add.commute)
  then show ?thesis by (simp add: take_add block_bytes_def)
qed

lemma received_pending:
  assumes p: "pending_from old k c" "k < nat (next_chunk c)"
  shows "pending_from old (Suc k) (chunk_received (int (blockdist * k)) c)"
proof -
  have u: "[k..<nat (next_chunk c)] = k # [Suc k..<nat (next_chunk c)]" using p(2) by (rule upt_conv_Cons)
  have "filter (\<lambda>it. fst it \<noteq> int (blockdist * k)) (map (\<lambda>j. (int (blockdist * j), stored_hashes old j)) [Suc k..<nat (next_chunk c)]) =
      map (\<lambda>j. (int (blockdist * j), stored_hashes old j)) [Suc k..<nat (next_chunk c)]"
    using blockdist_pos by (intro filter_True) auto
  then show ?thesis using p unfolding pending_from_def u by (simp add: chunk_received_def)
qed

lemma patch_rep_settle: "patch_rep fs items cur c \<Longrightarrow> last_chunk_patches d = [] \<Longrightarrow> m_patchfile d = m_patchfile c \<Longrightarrow> patchfile_pos d = patchfile_pos c \<Longrightarrow>
    patch_rep fs (items @ cur) [] d"
  by (simp add: patch_rep_def)

lemma accept_block_ok:
  assumes b: "client_base cfg old new k c" "size_known new c" "k < nat (next_chunk c)" and pr: "patch_rep (length new) items cur c"
    and cv: "covers old (blockdist * k + length (new_block new k)) (items @ cur) (take (blockdist * k) new @ new_block new k)"
    and f: "patch_buf c = []" "block_for_chunk_start c < int (blockdist * Suc k)"
    and ho: "hashes_fit new (\<lambda>bs p. slot_words new k (chunk_words (new_block new k)) bs) c" and u: "used buf n c"
  shows "\<exists>c'. accept_block cfg (int (blockdist * k)) (md5_of (new_block new k)) c = Some c' \<and>
    at_block cfg old new (Suc k) (c'\<lparr>last_chunk_patches := []\<rparr>) \<and> used buf n c' \<and> next_chunk c' = next_chunk c"
proof -
  let ?b = "new_block new k"
  have k: "k < nblocks new" using b(1,3) by (simp add: client_base_def)
  have pf: "pending_find (int (blockdist * k)) x = Some (stored_hashes old k)" if "pending_chunks x = pending_chunks c" for x
    using pending_find_at[of old k c k] b(1,3) that by (simp add: client_base_def pending_find_def)
  have hx: "ho_all (\<lambda>bs q. length bs \<le> length (hash_file new) \<and> slot_words new k (chunk_words ?b) bs) c" using ho by (simp add: hashes_fit_def)
  have "\<exists>h. hash_write cfg (md5_of ?b) (hash_seek (int (8 + 528 * k)) c) = c\<lparr>m_hashoutput := h\<rparr> \<and>
      (\<forall>y. m_hashoutput y = h \<longrightarrow> ho_all (\<lambda>bs p. length bs \<le> length (hash_file new) \<and> starts bs (hash_prefix new (Suc k))) y)"
  proof (rule hash_put_ex[OF hx])
    fix bs assume q: "length bs \<le> length (hash_file new) \<and> slot_words new k (chunk_words ?b) bs"
    have "starts (overwrite bs (8 + 528 * k) (md5_of ?b)) (hash_prefix new k @ md5_of ?b @ chunk_words ?b)"
      using slot_digest_put[OF k] q length_md5_of by blast
    then show "length (overwrite bs (nat (int (8 + 528 * k))) (md5_of ?b)) \<le> length (hash_file new) \<and>
        starts (overwrite bs (nat (int (8 + 528 * k))) (md5_of ?b)) (hash_prefix new (Suc k))"
      unfolding pos_nat hash_prefix_Suc chunk_hash_parts using q slot_fits[OF k] by (simp add: length_overwrite length_md5_of)
  qed (simp_all add: length_md5_of)
  then obtain h where h: "hash_write cfg (md5_of ?b) (hash_seek (int (8 + 528 * k)) c) = c\<lparr>m_hashoutput := h\<rparr>"
    "\<forall>y. m_hashoutput y = h \<longrightarrow> hashes_fit new (\<lambda>bs p. starts bs (hash_prefix new (Suc k))) y"
    unfolding hashes_fit_def by blast
  let ?m = "max (curr_output_fsize c) (block_end (int (blockdist * k)) (c\<lparr>m_hashoutput := h\<rparr>))"
  let ?d = "chunk_received (int (blockdist * k)) (c\<lparr>m_hashoutput := h, curr_output_fsize := ?m\<rparr>)"
  have tb: "take big_hash_size (md5_of ?b) = md5_of ?b" by (simp add: big_hash_size_def length_md5_of)
  have a: "accept_block cfg (int (blockdist * k)) (md5_of ?b) c = Some ?d"
    unfolding accept_block_def Let_def tb block_slot_eq h(1) using pf[of "c\<lparr>m_hashoutput := h, curr_output_fsize := ?m\<rparr>"] by simp
  let ?e = "?d\<lparr>last_chunk_patches := []\<rparr>"
  have "pending_from old (Suc k) (chunk_received (int (blockdist * k)) c)" using received_pending[of old k c] b(1,3) by (simp add: client_base_def)
  then have pe: "pending_from old (Suc k) ?e" by (simp add: pending_from_def chunk_received_def)
  have "client_base cfg old new (Suc k) ?e" using b(1) pe by (simp add: client_base_def chunk_received_def)
  moreover have "size_known new ?e" using b(2) by (simp add: size_known_def chunk_received_def)
  moreover have "patch_rep (length new) (items @ cur) [] ?e" by (rule patch_rep_settle[OF pr]) (simp_all add: chunk_received_def)
  moreover have "covers old (upto_block new (Suc k)) (items @ cur) (take (upto_block new (Suc k)) new)"
    using cv unfolding take_upto_Suc[OF k, symmetric] upto_Suc[OF k, symmetric] .
  moreover have "patch_buf ?e = []" "block_for_chunk_start ?e < int (blockdist * Suc k)" using f by (simp_all add: chunk_received_def)
  moreover have "hashes_fit new (\<lambda>bs p. starts bs (hash_prefix new (Suc k))) ?e" using h(2) by (simp add: chunk_received_def)
  ultimately have "at_block cfg old new (Suc k) ?e" unfolding at_block_def by blast
  then show ?thesis using a u by (intro exI[of _ ?d]) (simp add: used_def chunk_received_def)
qed

lemma Hash_finalize_whole:
  assumes c: "whole_done cfg old new k c" and u: "used buf n c"
  shows "\<exists>c'. Hash_finalize cfg load (int (blockdist * k)) (md5_of (new_block new k)) c = Some c' \<and> at_block cfg old new (Suc k) c' \<and>
    used buf n c' \<and> next_chunk c' = next_chunk c"
proof -
  let ?b = "new_block new k"
  obtain items cur q where s: "in_blk cfg old new k items c" "have_upto old new k items cur q ?b" "patch_rep (length new) items cur c"
    using c unfolding whole_done_def by blast
  have t: "patch_buf c = []" "hash_for_whole_block c" "raw_digest_int (md5_hash c) = Some (md5_of ?b)"
    and ho: "hashes_fit new (\<lambda>bs p. starts bs (hash_prefix new (Suc k))) c"
    using c by (simp_all add: whole_done_def)
  have bf: "block_for_chunk_start c < int (blockdist * Suc k)" using s(1) blockdist_pos by (simp add: in_blk_def)
  have "hashes_fit new (\<lambda>bs p. slot_words new k (chunk_words ?b) bs) c"
    using ho unfolding hashes_fit_def
    by (rule ho_all_mono) (auto simp: hash_prefix_Suc chunk_hash_parts slot_words_def length_md5_of intro: exI[of _ "md5_of ?b"])
  then obtain c' where "accept_block cfg (int (blockdist * k)) (md5_of ?b) c = Some c'" "at_block cfg old new (Suc k) (c'\<lparr>last_chunk_patches := []\<rparr>)"
    "used buf n c'" "next_chunk c' = next_chunk c"
    using accept_block_ok[of cfg old new k c items cur, OF _ _ _ s(3) _ t(1) bf _ u] s(1,2) by (auto simp: in_blk_def have_upto_def)
  then show ?thesis using t(2,3) by (intro exI[of _ "c'\<lparr>last_chunk_patches := []\<rparr>"]) (simp add: Hash_finalize_def used_def)
qed

text \<open>
  The hash after updates. The rest of the block is read from the old file. When the digest of what has been put together is
  that of the new block, and it is the new block, the block is done; when the digests differ, it is loaded again.
\<close>

lemma finish_updates_hash:
  assumes c: "in_blk cfg old new k items c" "have_upto old new k items cur q w" "patch_rep (length new) items cur c" "md5_inv (md5_hash c) w"
      "chunk_start c = int q" "caught_up old new k q i" "rebuilt_from old new k i w = rebuilt old new k"
    and i: "all_passed new k i" and u: "used buf n c"
  shows "\<exists>f m p. finish_block_hash (int (blockdist * k)) c =
      (False, c\<lparr>m_file := f, chunk_start := int (blockdist * k + length (new_block new k)), md5_hash := md5_finalize m, fc_file_pos := p,
        block_for_chunk_start := - 1\<rparr>) \<and> no_fault f \<and> fbytes f = old \<and> md5_inv m (rebuilt old new k) \<and>
    covers old (blockdist * k + length (new_block new k)) (items @ cur) (take (blockdist * k) new @ rebuilt old new k)"
proof -
  define e where "e = blockdist * k + length (new_block new k)"
  note L = in_blk_lengths[OF c(1)] and ce = caught_up_end[OF i c(6), folded e_def]
  have pq: "q = blockdist * k + length w" using c(2) by (simp add: have_upto_def)
  have rb: "w @ old_part old q e = rebuilt old new k" using rebuilt_end[OF i, of old w] c(7) pq by (simp add: e_def)
  have cv: "covers old e (items @ cur) (take (blockdist * k) new @ rebuilt old new k)"
    using have_upto_old[OF c(2), of e] ce rb by (auto simp: have_upto_def)
  have nf: "no_fault (m_file c)" "fbytes (m_file c) = old" using c(1) by (simp_all add: in_blk_def client_base_def)
  obtain f where f: "File_Seek (int q) (m_file c) = (True, f)" "file_at f old q" using seek_true[OF nf(1), of q] nf(2) by auto
  have el: "e - q < 2 ^ 32" using pq new_block_small[of new k] by (simp add: e_def c_checkpoint_dist_def)
  let ?x = "c\<lparr>m_file := f\<rparr>"
  have x: "file_at (m_file ?x) old q" "chunk_start ?x = int q" "md5_inv (md5_hash ?x) w" "q \<le> e" "e \<le> length old \<or> q = e" using f(2) c(4,5) ce by auto
  obtain g m p where g0: "hash_rest (int e) ?x = (False, ?x\<lparr>m_file := g, chunk_start := int e, md5_hash := m, fc_file_pos := p\<rparr>)"
    "file_at g old (if q = e then fpos (m_file ?x) else e)" "md5_inv m (w @ old_part old q e)"
    using hash_rest_ok[OF x el] by blast
  have g: "hash_rest (int e) ?x = (False, c\<lparr>m_file := g, chunk_start := int e, md5_hash := m, fc_file_pos := p\<rparr>)"
    "no_fault g \<and> fbytes g = old" "md5_inv m (w @ old_part old q e)" using g0 by (simp_all add: file_at_def)
  have be: "block_end (int (blockdist * k)) x = int e" if "remote_filesize x = remote_filesize c" for x
  proof -
    have "remote_filesize x = int (length new)" using that c(1) by (simp add: in_blk_def size_known_def)
    moreover have "e = min (blockdist * k + blockdist) (length new)" using upto_Suc[OF L(1)] by (simp add: e_def upto_block_def add.commute)
    ultimately show ?thesis unfolding block_end_def by (simp add: of_nat_min)
  qed
  have bf: "int (blockdist * k) = block_for_chunk_start c" "int (blockdist * k) \<noteq> - 1"
    using c(1) of_nat_0_le_iff[of "blockdist * k", where 'a = int] by (simp add: in_blk_def, linarith)
  have "finish_block_hash (int (blockdist * k)) c = (False, c\<lparr>m_file := g, chunk_start := int e, md5_hash := md5_finalize m, fc_file_pos := p,
        block_for_chunk_start := - 1\<rparr>)"
    unfolding finish_block_hash_def Let_def c(5) be[OF refl] f(1) using bf g(1) by (simp add: be)
  then show ?thesis using g(2,3) cv rb unfolding e_def by (intro exI[of _ g] exI[of _ m] exI[of _ p]) simp
qed

lemma updates_end:
  assumes "in_updates cfg old new k j c"
  obtains items cur q w i where "in_blk cfg old new k items c" "have_upto old new k items cur q w" "patch_rep (length new) items cur c"
    "md5_inv (md5_hash c) w" "chunk_start c = int q" "caught_up old new k q i" "rebuilt_from old new k i w = rebuilt old new k"
    "upd_rest old new k i = upd_rest old new k j" "upd_words (small_hashes old k) (new_block new k) i = upd_words (small_hashes old k) (new_block new k) j"
    "all_passed new k i \<or> \<not> all_passed new k i \<and> piece_differs (length old) (small_hashes old k) (blockdist * k + 4096 * i) i (piece_of (new_block new k) i)"
proof -
  obtain items cur q w where s: "in_blk cfg old new k items c" "have_upto old new k items cur q w" "patch_rep (length new) items cur c"
    "md5_inv (md5_hash c) w" "chunk_start c = int q" "caught_up old new k q j" "rebuilt_from old new k j w = rebuilt old new k"
    using assms unfolding in_updates_def by blast
  from next_update[OF s(6), of w] show ?thesis using that s by metis
qed

lemma Hash_finalize_updates:
  assumes c: "in_updates cfg old new k j c" and e: "upd_rest old new k j = [Hash (blockdist * k) (md5_of (new_block new k))]"
    and same: "rebuilt old new k = new_block new k" and u: "used buf n c"
  shows "\<exists>c'. Hash_finalize cfg load (int (blockdist * k)) (md5_of (new_block new k)) c = Some c' \<and> at_block cfg old new (Suc k) c' \<and>
    used buf n c' \<and> next_chunk c' = next_chunk c"
proof -
  let ?b = "new_block new k"
  obtain items cur q w i where s: "in_blk cfg old new k items c" "have_upto old new k items cur q w" "patch_rep (length new) items cur c"
    "md5_inv (md5_hash c) w" "chunk_start c = int q" "caught_up old new k q i" "rebuilt_from old new k i w = rebuilt old new k"
    "upd_rest old new k i = upd_rest old new k j" "upd_words (small_hashes old k) ?b i = upd_words (small_hashes old k) ?b j"
    "all_passed new k i \<or> \<not> all_passed new k i \<and> piece_differs (length old) (small_hashes old k) (blockdist * k + 4096 * i) i (piece_of ?b i)"
    using updates_end[OF c] .
  have i: "all_passed new k i" using s(8,10) e update_next(1)[of new k i old] by auto
  have t: "patch_buf c = []" "\<not> hash_for_whole_block c" using c by (simp_all add: in_updates_def)
  have ho: "hashes_fit new (\<lambda>bs p. slot_words new k (chunk_words ?b) bs) c"
    using c words_end[OF i, of "small_hashes old k"] s(9) by (simp add: in_updates_def)
  obtain f m p where h: "finish_block_hash (int (blockdist * k)) c =
      (False, c\<lparr>m_file := f, chunk_start := int (blockdist * k + length ?b), md5_hash := md5_finalize m, fc_file_pos := p, block_for_chunk_start := - 1\<rparr>)"
    "no_fault f" "fbytes f = old" "md5_inv m (rebuilt old new k)"
    "covers old (blockdist * k + length ?b) (items @ cur) (take (blockdist * k) new @ rebuilt old new k)"
    using finish_updates_hash[OF s(1-7) i u] by blast
  let ?d = "c\<lparr>m_file := f, chunk_start := int (blockdist * k + length ?b), md5_hash := md5_finalize m, fc_file_pos := p, block_for_chunk_start := - 1\<rparr>"
  have dig: "raw_digest_int (md5_hash ?d) = Some (md5_of ?b)" using md5_finalize_digest[OF h(4)] same by simp
  have cb: "client_base cfg old new k ?d" "size_known new ?d" "k < nat (next_chunk ?d)"
    using s(1) h(2,3) md5_finalize_buffer[OF h(4)] by (simp_all add: in_blk_def client_base_def size_known_def pending_from_def)
  have pr: "patch_rep (length new) items cur ?d" using s(3) by (subst patch_rep_frame[of _ c]) simp_all
  have "block_for_chunk_start ?d = - 1" by simp
  then have bl: "block_for_chunk_start ?d < int (blockdist * Suc k)" using of_nat_0_le_iff[of "blockdist * Suc k", where 'a = int] by linarith
  have hd: "hashes_fit new (\<lambda>bs p. slot_words new k (chunk_words ?b) bs) ?d" using ho by (simp add: hashes_fit_def ho_all_def)
  have ud: "used buf n ?d" using u by (simp add: used_def)
  have pb: "patch_buf ?d = []" using t by simp
  obtain c' where "accept_block cfg (int (blockdist * k)) (md5_of ?b) ?d = Some c'" "at_block cfg old new (Suc k) (c'\<lparr>last_chunk_patches := []\<rparr>)"
    "used buf n c'" "next_chunk c' = next_chunk c"
    using accept_block_ok[OF cb pr h(5)[unfolded same] pb bl hd ud] by auto
  then show ?thesis using t(2) h(1) dig by (intro exI[of _ "c'\<lparr>last_chunk_patches := []\<rparr>"]) (simp add: Hash_finalize_def used_def)
qed

text \<open>A block that has not changed.\<close>

lemma Hash_nochange_ok:
  assumes c: "at_block cfg old new k c" "k < nat (next_chunk c)" and a: "answer old new k = [No_Change (blockdist * k)]"
    and same: "rebuilt old new k = new_block new k" and u: "used buf n c"
  shows "at_block cfg old new (Suc k) (Hash_nochange cfg (int (blockdist * k)) c) \<and> used buf n (Hash_nochange cfg (int (blockdist * k)) c) \<and>
    next_chunk (Hash_nochange cfg (int (blockdist * k)) c) = next_chunk c"
proof -
  let ?p = "blockdist * k" and ?b = "new_block new k"
  let ?hs = "take (16 + 4 * npieces ?b) (stored_hashes old k)"
  obtain items where cb: "client_base cfg old new k c" "size_known new c" "patch_buf c = []" "patch_rep (length new) items [] c"
    "covers old ?p items (take ?p new)" "block_for_chunk_start c < int ?p" "hashes_fit new (\<lambda>bs p. starts bs (hash_prefix new k)) c" and k: "k < nblocks new"
    using at_blockE[OF c] .
  have ko: "k < nblocks old" using a by (auto simp: answer_def whole_answer_def split: if_splits)
  have us: "piece_updates (length old) (small_hashes old k) ?p 0 (pieces_from 128 ?b) = []" "md5_of ?b = take 16 (stored_hashes old k)"
    using a ko by (auto simp: answer_def block_answer_def Let_def split: if_splits)
  have r0: "upd_rest old new k 0 = [Hash ?p (md5_of ?b)]" using us(1) by (simp add: upd_rest_def rest_pieces_def)
  obtain i where i: "caught_up old new k ?p i" "upd_rest old new k i = upd_rest old new k 0"
    "upd_words (small_hashes old k) ?b i = upd_words (small_hashes old k) ?b 0" "rebuilt_from old new k i [] = rebuilt_from old new k 0 []"
    "all_passed new k i \<or> \<not> all_passed new k i \<and> piece_differs (length old) (small_hashes old k) (?p + 4096 * i) i (piece_of ?b i)"
    using next_update[OF caught_up_start, of old new k "[]"] by blast
  have ap: "all_passed new k i" using i(2,5) r0 update_next(1)[of new k i old] by auto
  have ws: "concat (upd_words (small_hashes old k) ?b 0) = chunk_words ?b" using words_end[OF ap, of "small_hashes old k"] i(3) by simp
  have hs: "?hs = chunk_hash False ?b" using stored_front[of ?b "stored_hashes old k"] us(2) ws by (simp add: chunk_hash_parts)
  have ob: "old_part old ?p (?p + length ?b) = ?b" using rebuilt_end[OF ap, of old "[]"] i(4) same by (simp add: rebuilt_def)
  have ce: "?p + length ?b \<le> length old \<or> ?p + length ?b = ?p" using caught_up_end[OF ap i(1)] by blast
  have cv: "covers old (?p + length ?b) items (take ?p new @ ?b)"
    using covers_extend[OF cb(5), of "?p + length ?b"] ce ob by simp
  have pf: "pending_find (int ?p) c = Some (stored_hashes old k)"
    using pending_find_at[of old k c k] cb(1) c(2) by (simp add: client_base_def)
  have hx: "ho_all (\<lambda>bs q. length bs \<le> length (hash_file new) \<and> starts bs (hash_prefix new k)) c" using cb(7) by (simp add: hashes_fit_def)
  have hl: "length ?hs \<le> 16 + 4 * npieces ?b" by simp
  have hl32: "length ?hs \<le> 2 ^ 32" using length_stored_hashes[of old k] by simp
  have "\<exists>h. hash_write cfg ?hs (hash_seek (int (8 + 528 * k)) c) = c\<lparr>m_hashoutput := h\<rparr> \<and>
      (\<forall>y. m_hashoutput y = h \<longrightarrow> ho_all (\<lambda>bs p. length bs \<le> length (hash_file new) \<and> starts bs (hash_prefix new (Suc k))) y)"
  proof (rule hash_put_ex[OF hx _ hl32])
    fix bs assume q: "length bs \<le> length (hash_file new) \<and> starts bs (hash_prefix new k)"
    show "length (overwrite bs (nat (int (8 + 528 * k))) ?hs) \<le> length (hash_file new) \<and> starts (overwrite bs (nat (int (8 + 528 * k))) ?hs) (hash_prefix new (Suc k))"
      unfolding pos_nat hash_prefix_Suc hs[symmetric] using prefix_put[OF k, of bs ?hs] q hl by blast
  qed simp
  then obtain h where h: "hash_write cfg ?hs (hash_seek (int (8 + 528 * k)) c) = c\<lparr>m_hashoutput := h\<rparr>"
    "\<forall>y. m_hashoutput y = h \<longrightarrow> hashes_fit new (\<lambda>bs p. starts bs (hash_prefix new (Suc k))) y"
    unfolding hashes_fit_def by blast
  obtain m where nc: "Hash_nochange cfg (int ?p) c = chunk_received (int ?p) (c\<lparr>m_hashoutput := h, curr_output_fsize := m\<rparr>)"
  proof (cases "remote_filesize c < int ?p + int c_checkpoint_dist")
    case True
    have sz: "chunkhash_single_size - missing_chunks (int ?p) c * small_hash_size = 16 + 4 * npieces ?b"
      using block_hashes_size[OF cb(2) k] unfolding if_P[OF True] .
    have sc: "missing_chunks (int ?p) (hash_seek x c) = missing_chunks (int ?p) c" "remote_filesize (hash_seek x c) = remote_filesize c" for x
      by (simp_all add: hash_seek_def missing_chunks_def)
    have "Hash_nochange cfg (int ?p) c = chunk_received (int ?p) (c\<lparr>m_hashoutput := h, curr_output_fsize := max (curr_output_fsize (hash_seek (int (8 + 528 * k)) c)) (remote_filesize c)\<rparr>)"
      unfolding Hash_nochange_def pf option.case Let_def block_slot_eq sc sz h(1) using True by (simp add: hash_seek_def)
    then show ?thesis using that by blast
  next
    case False
    have sz: "chunkhash_single_size = 16 + 4 * npieces ?b" using block_hashes_size[OF cb(2) k] unfolding if_not_P[OF False] .
    have sc: "remote_filesize (hash_seek x c) = remote_filesize c" for x by (simp add: hash_seek_def)
    have "Hash_nochange cfg (int ?p) c = chunk_received (int ?p) (c\<lparr>m_hashoutput := h, curr_output_fsize := max (curr_output_fsize (hash_seek (int (8 + 528 * k)) c)) (int ?p + int c_checkpoint_dist)\<rparr>)"
      unfolding Hash_nochange_def pf option.case Let_def block_slot_eq sc using False h(1) sz by (simp add: hash_seek_def)
    then show ?thesis using that by blast
  qed
  let ?d = "chunk_received (int ?p) (c\<lparr>m_hashoutput := h, curr_output_fsize := m\<rparr>)"
  have "pending_from old (Suc k) (chunk_received (int ?p) c)" using received_pending[of old k c] cb(1) c(2) by (simp add: client_base_def)
  then have pe: "pending_from old (Suc k) ?d" by (simp add: pending_from_def chunk_received_def)
  have "client_base cfg old new (Suc k) ?d" using cb(1) pe by (simp add: client_base_def chunk_received_def)
  moreover have "size_known new ?d" using cb(2) by (simp add: size_known_def chunk_received_def)
  moreover have "patch_rep (length new) items [] ?d" using cb(4) by (subst patch_rep_frame[of _ c]) (simp_all add: chunk_received_def)
  moreover have "covers old (upto_block new (Suc k)) items (take (upto_block new (Suc k)) new)"
    using cv unfolding take_upto_Suc[OF k, symmetric] upto_Suc[OF k, symmetric] .
  moreover have "patch_buf ?d = []" "block_for_chunk_start ?d < int (blockdist * Suc k)" using cb(3,6) by (simp_all add: chunk_received_def)
  moreover have "hashes_fit new (\<lambda>bs p. starts bs (hash_prefix new (Suc k))) ?d" using h(2) by (simp add: chunk_received_def)
  ultimately have "at_block cfg old new (Suc k) ?d" unfolding at_block_def by blast
  then show ?thesis using nc u by (simp add: used_def chunk_received_def)
qed

end
