(* ===== verification/Client_Transfer.thy ===== *)
theory Client_Transfer
  imports Client_Message
begin

text \<open>
  The transfer of a file: the loop over the bytes that arrive, in pieces of any size, and the sequence of requests, answers
  and reconnections. At the end the patch and the hash file are those of the new file.
\<close>

section \<open>The size of the file\<close>

lemma sized_chunks: "int n sdiv int c_checkpoint_dist + (if int n smod int c_checkpoint_dist \<noteq> 0 then 1 else 0) = int ((n + c_checkpoint_dist - 1) div c_checkpoint_dist)"
proof -
  define q r where "q = n div 524288" and "r = n mod 524288"
  have n: "n = 524288 * q + r" "r < 524288" by (simp_all add: q_def r_def)
  have "(n + 524288 - 1) div 524288 = q + (if r \<noteq> 0 then 1 else 0)" using n by (intro div_nat_eqI) (auto split: if_splits)
  then show ?thesis unfolding sdiv_nat smod_nat by (simp add: c_checkpoint_dist_def flip: q_def r_def)
qed

lemma calcTotalChunks_size: "remote_filesize c = int (length new) \<Longrightarrow> calcTotalChunks c = c\<lparr>num_total_chunks := int (nblocks new)\<rparr>"
  unfolding calcTotalChunks_def by (simp only: sized_chunks nblocks_def)

text \<open>\<open>get_hashdata_size\<close> is the length of the hash file.\<close>

lemma hash_file_length: "length (hash_file new) = 8 + 528 * (length new div 524288) +
    (if length new mod 524288 \<noteq> 0 then 16 + 4 * ((length new mod 524288 + 4095) div 4096) else 0)"
proof -
  define q r where "q = length new div 524288" and "r = length new mod 524288"
  have n: "length new = 524288 * q + r" "r < 524288" by (simp_all add: q_def r_def)
  have nb: "nblocks new = q + (if r \<noteq> 0 then 1 else 0)"
    unfolding nblocks_def c_checkpoint_dist_def using n by (intro div_nat_eqI) (auto split: if_splits)
  have pq: "length (hash_prefix new q) = 8 + 528 * q"
    using length_hash_prefix[of q new] n nb by (simp add: c_checkpoint_dist_def)
  show ?thesis
  proof (cases "r = 0")
    case True
    then show ?thesis using pq nb hash_prefix_all[of new] by (simp flip: q_def r_def)
  next
    case False
    then have k: "q < nblocks new" "nblocks new = Suc q" using nb by simp_all
    have "length (new_block new q) = r" using n by (simp add: block_bytes_length c_checkpoint_dist_def)
    then show ?thesis using length_prefix_Suc[OF k(1)] k(2) hash_prefix_all[of new] False by (simp add: npieces_def flip: q_def r_def)
  qed
qed

lemma get_hashdata_size_eq: "get_hashdata_size (int (length new)) = int (length (hash_file new))"
proof -
  define r where "r = length new mod 524288"
  have u: "r div 4096 * 4 + (if r mod 4096 \<noteq> 0 then 4 else 0) = 4 * ((r + 4095) div 4096)"
  proof -
    define a b where "a = r div 4096" and "b = r mod 4096"
    have n: "r = 4096 * a + b" "b < 4096" by (simp_all add: a_def b_def)
    have "(r + 4095) div 4096 = a + (if b \<noteq> 0 then 1 else 0)" using n by (intro div_nat_eqI) (auto split: if_splits)
    then show ?thesis by (simp flip: a_def b_def)
  qed
  have e: "int c_checkpoint_dist = int 524288" "int c_chunk_size = int 4096" by (simp_all add: c_checkpoint_dist_def c_chunk_size_def)
  have "int (length new) \<noteq> - 1" by simp
  then show ?thesis
    unfolding get_hashdata_size_def Let_def e sdiv_nat smod_nat hash_file_length r_def[symmetric]
    using u by (cases "r = 0") (auto simp: chunk_settings split: if_splits)
qed

text \<open>Before the size is known, or confirmed.\<close>

definition at_start :: "client_config \<Rightarrow> byte list \<Rightarrow> byte list \<Rightarrow> nat \<Rightarrow> chunk_client \<Rightarrow> bool" where
  "at_start cfg old new k c \<longleftrightarrow> client_base cfg old new k c \<and> k < nblocks new \<and> (size_known new c \<or> remote_filesize c = - 1 \<and> pending_chunks c = []) \<and> patch_buf c = [] \<and>
     (\<exists>items p. (file_at (m_patchfile c) [] p \<and> patchfile_pos c = 0 \<and> items = [] \<and> last_chunk_patches c = [] \<or> patch_rep (length new) items [] c) \<and>
        covers old (upto_block new k) items (take (upto_block new k) new)) \<and>
     block_for_chunk_start c < int (blockdist * k) \<and> ho_all (\<lambda>bs p. k = 0 \<or> starts bs (hash_prefix new k)) c"

lemma hash_resized:
  assumes "ho_all Q c" "\<And>bs p. Q bs p \<Longrightarrow> k = 0 \<or> starts bs (hash_prefix new k)" "k \<le> nblocks new"
  shows "ho_all (\<lambda>bs q. length bs \<le> length (hash_file new) \<and> (k = 0 \<or> starts bs (hash_prefix new k)))
    (c\<lparr>m_hashoutput := map_option (\<lambda>f. let max_hashoutput_size = get_hashdata_size (int (length new)); (size, f) = File_Size f
       in if max_hashoutput_size < size then snd (File_Resize max_hashoutput_size f) else f) (m_hashoutput c)\<rparr>)"
proof -
  have "no_fault g \<and> length (fbytes g) \<le> length (hash_file new) \<and> (k = 0 \<or> starts (fbytes g) (hash_prefix new k))"
    if f: "m_hashoutput c = Some f" and g: "g = (let max_hashoutput_size = get_hashdata_size (int (length new)); (size, f) = File_Size f
       in if max_hashoutput_size < size then snd (File_Resize max_hashoutput_size f) else f)" for f g
  proof -
    have nf: "no_fault f" and q: "k = 0 \<or> starts (fbytes f) (hash_prefix new k)" using assms(1,2) f by (auto simp: ho_all_def)
    have ge: "g = (if int (length (hash_file new)) < int (length (fbytes f)) then snd (File_Resize (int (length (hash_file new))) (next_op f)) else next_op f)"
      unfolding g get_hashdata_size_eq Let_def File_Size_ok[OF nf] by simp
    have nn: "no_fault (next_op f)" by (rule no_fault_next[OF nf])
    show ?thesis
    proof (cases "length (hash_file new) < length (fbytes f)")
      case True
      let ?m = "length (hash_file new)"
      have ge': "g = next_op ((next_op f)\<lparr>fbytes := take ?m (fbytes f)\<rparr>)"
        using ge True no_fault_outcome[OF nn] by (auto simp: File_Resize_def Let_def)
      have "no_fault g" unfolding ge' by (rule iffD2[OF no_fault_eq nf]) simp_all
      moreover have fb: "fbytes g = take ?m (fbytes f)" unfolding ge' by simp
      moreover have "starts (take ?m (fbytes f)) (hash_prefix new k)" if "starts (fbytes f) (hash_prefix new k)"
        using that hash_prefix_le[OF assms(3), of new] by (simp add: starts_def hash_prefix_all min_def)
      ultimately show ?thesis using q by auto
    qed (use ge nn q in auto)
  qed
  then show ?thesis by (auto simp: ho_all_def)
qed

lemma size_put:
  assumes "length bs \<le> length (hash_file new) \<and> (k = 0 \<or> starts bs (hash_prefix new k))"
  shows "length (overwrite bs 0 (le_bytes 8 (of_nat (length new) :: u64))) \<le> length (hash_file new) \<and>
    starts (overwrite bs 0 (le_bytes 8 (of_nat (length new) :: u64))) (hash_prefix new k)"
proof -
  let ?h = "le_bytes 8 (of_nat (length new) :: u64)"
  have l: "8 \<le> length (hash_file new)" using hash_prefix_le[of 0 "nblocks new" new] by (simp add: hash_prefix_all) (simp add: hash_prefix_def)
  have "starts (overwrite bs 0 ?h) (hash_prefix new k)"
  proof (cases "k = 0")
    case True
    have "starts bs []" by (simp add: starts_def)
    then show ?thesis using starts_append[of bs "[]" ?h] True by (simp add: hash_prefix_def)
  next
    case False
    then have "starts bs ([] @ ?h @ drop 8 (hash_prefix new k))" using assms by (simp add: hash_prefix_def)
    from starts_overwrite[OF this, of ?h] show ?thesis by (simp add: hash_prefix_def)
  qed
  then show ?thesis using l assms by (simp add: length_overwrite)
qed

lemma got_filesize_ok:
  assumes c: "at_start cfg old new k c" and u: "used buf n c"
  shows "\<exists>c'. got_filesize cfg al (int (length new)) 0 c = Inr c' \<and> at_block cfg old new k c' \<and> cs_state c' = CS_ID_FIRST \<and>
    used buf n c' \<and> next_chunk c' = next_chunk c"
proof -
  let ?n = "int (length new)" and ?t = "int (nblocks new)"
  have cb: "client_base cfg old new k c" and rs: "size_known new c \<or> remote_filesize c = - 1 \<and> pending_chunks c = []" and pb: "patch_buf c = []"
    and bf: "block_for_chunk_start c < int (blockdist * k)" and ho: "ho_all (\<lambda>bs p. k = 0 \<or> starts bs (hash_prefix new k)) c"
    using c by (simp_all add: at_start_def)
  obtain items p where pt: "file_at (m_patchfile c) [] p \<and> patchfile_pos c = 0 \<and> items = [] \<and> last_chunk_patches c = [] \<or> patch_rep (length new) items [] c"
    "covers old (upto_block new k) items (take (upto_block new k) new)"
    using c unfolding at_start_def by blast
  have k: "k \<le> nblocks new" using cb by (auto simp: client_base_def pending_from_def)
  define h where "h = map_option (\<lambda>f. let max_hashoutput_size = get_hashdata_size ?n; (size, f) = File_Size f
       in if max_hashoutput_size < size then snd (File_Resize max_hashoutput_size f) else f) (m_hashoutput c)"
  let ?c1 = "c\<lparr>remote_filesize := ?n, num_total_chunks := ?t, m_hashoutput := h\<rparr>"
  have rr: "remote_filesize c = - 1 \<or> remote_filesize c = ?n" using rs by (auto simp: size_known_def)
  have "calcTotalChunks (c\<lparr>remote_filesize := ?n\<rparr>) = c\<lparr>remote_filesize := ?n, num_total_chunks := ?t\<rparr>"
    using calcTotalChunks_size[of "c\<lparr>remote_filesize := ?n\<rparr>" new] by simp
  then have s: "set_filesize cfg al ?n c = Inr ?c1" unfolding set_filesize_def using rr by (auto simp: h_def)
  let ?c2 = "?c1\<lparr>cs_state := CS_ID_FIRST\<rparr>"
  have t2: "calcTotalChunks ?c2 = ?c2" using calcTotalChunks_size[of ?c2 new] by simp
  have pt2: "file_at (m_patchfile ?c2) [] p \<and> patchfile_pos ?c2 = 0 \<and> items = [] \<and> last_chunk_patches ?c2 = [] \<or> patch_rep (length new) items [] ?c2"
    using pt(1) by (simp add: patch_rep_def)
  note W = writePatchSize_rep[OF pt2, of cfg]
  obtain mp pp lp lf co pb' ps where w: "writePatchSize cfg ?n ?c2 = ?c2\<lparr>m_patchfile := mp, patchfile_pos := pp, last_chunk_patches := lp,
     last_patch_output_fsize := lf, curr_output_fsize := co, patch_buf := pb', patch_buf_start := ps\<rparr>"
    using W(2) unfolding patch_only_iff by blast
  let ?c3 = "writePatchSize cfg ?n ?c2"
  have h3: "ho_all (\<lambda>bs q. length bs \<le> length (hash_file new) \<and> (k = 0 \<or> starts bs (hash_prefix new k))) ?c3"
    using hash_resized[OF ho _ k] unfolding w h_def[symmetric] by (simp add: ho_all_def)
  have "\<exists>h. hash_write cfg (le_bytes 8 (of_nat (length new) :: u64)) (hash_seek 0 ?c3) = ?c3\<lparr>m_hashoutput := h\<rparr> \<and>
      (\<forall>y. m_hashoutput y = h \<longrightarrow> ho_all (\<lambda>bs p. length bs \<le> length (hash_file new) \<and> starts bs (hash_prefix new k)) y)"
    by (rule hash_put_ex[OF h3]) (use size_put[of _ new k] in auto)
  then obtain h' where h': "hash_write cfg (le_bytes 8 (of_nat (length new) :: u64)) (hash_seek 0 ?c3) = ?c3\<lparr>m_hashoutput := h'\<rparr>"
    "\<forall>y. m_hashoutput y = h' \<longrightarrow> hashes_fit new (\<lambda>bs p. starts bs (hash_prefix new k)) y"
    unfolding hashes_fit_def by blast
  let ?c4 = "?c3\<lparr>m_hashoutput := h'\<rparr>"
  have ne: "?n \<noteq> 0" "patch_mode cfg" using cb by (auto simp: client_base_def)
  have r3: "remote_filesize ?c3 = ?n" unfolding w by simp
  have r2: "remote_filesize ?c2 = ?n" by simp
  have g: "got_filesize cfg al ?n 0 c = Inr ?c4"
    unfolding got_filesize_def s sum.case Let_def t2 if_P[OF ne(2)] r2 r3 using ne(1) h'(1) by simp
  have "client_base cfg old new k ?c4" unfolding w using cb by (simp add: client_base_def pending_from_def)
  moreover have "size_known new ?c4" unfolding w by (simp add: size_known_def)
  moreover have "patch_buf ?c4 = []" using W(3) pb by simp
  moreover have "patch_rep (length new) items [] ?c4" using W(1) by (subst patch_rep_frame[of _ ?c3]) simp_all
  moreover have "block_for_chunk_start ?c4 < int (blockdist * k)" unfolding w using bf by simp
  moreover have "hashes_fit new (\<lambda>bs p. starts bs (hash_prefix new k)) ?c4" using h'(2) by simp
  ultimately have "at_block cfg old new k ?c4" unfolding at_block_def using pt(2) by blast
  moreover have "cs_state ?c4 = CS_ID_FIRST" "used buf n ?c4" "next_chunk ?c4 = next_chunk c" unfolding w using u by (simp_all add: used_def)
  ultimately show ?thesis using g by blast
qed

section \<open>Messages to come\<close>

fun msg_id :: "block_msg \<Rightarrow> byte" where
  "msg_id (File_Size_Msg n) = ID_FILESIZE"
| "msg_id (Whole p d) = ID_WHOLE_BLOCK"
| "msg_id (Update p d) = ID_UPDATE_CHUNK"
| "msg_id (Hash p h) = ID_BLOCK_HASH"
| "msg_id (No_Change p) = ID_NO_CHANGE"

text \<open>The bytes of a message that the receiver wants together, and the data behind them.\<close>

fun msg_head :: "block_msg \<Rightarrow> byte list" where
  "msg_head (File_Size_Msg n) = le_bytes 8 (of_int (int n) :: u64)"
| "msg_head (Whole p d) = le_bytes 8 (of_int (int p) :: u64) @ le_bytes 4 (of_nat (length d) :: u32)"
| "msg_head (Update p d) = le_bytes 8 (of_int (int p) :: u64) @ le_bytes 4 (of_nat (length d) :: u32)"
| "msg_head (Hash p h) = le_bytes 8 (of_int (int p) :: u64) @ h"
| "msg_head (No_Change p) = le_bytes 8 (of_int (int p) :: u64)"

fun msg_data :: "block_msg \<Rightarrow> byte list" where
  "msg_data (Whole p d) = d"
| "msg_data (Update p d) = d"
| "msg_data m = []"

lemma msg_bytes_parts: "msg_bytes m = msg_id m # msg_head m @ msg_data m"
  by (cases m) (simp_all add: data_header_def hash_packet_def)

fun sound_msg :: "block_msg \<Rightarrow> bool" where
  "sound_msg (Hash p h) \<longleftrightarrow> length h = 16"
| "sound_msg m \<longleftrightarrow> True"

lemma msg_size: "sound_msg m \<Longrightarrow> packet_size (msg_id m) = Some (length (msg_head m))"
  by (cases m) (simp_all add: packet_size_def packet_ids big_hash_size_def)

lemma msg_head_size: "sound_msg m \<Longrightarrow> 8 \<le> length (msg_head m) \<and> length (msg_head m) \<le> 24"
  by (cases m) simp_all

text \<open>The blocks that have been asked for, from \<open>k\<close> on, have their answers still to come.\<close>

abbreviation asked :: "chunk_client \<Rightarrow> nat" where
  "asked c \<equiv> nat (next_chunk c)"

definition expects :: "client_config \<Rightarrow> byte list \<Rightarrow> byte list \<Rightarrow> chunk_client \<Rightarrow> block_msg list \<Rightarrow> bool" where
  "expects cfg old new c ms \<longleftrightarrow>
     (\<exists>k. at_start cfg old new k c \<and> ms = File_Size_Msg (length new) # answers old new k (asked c)) \<or>
     (\<exists>k. at_block cfg old new k c \<and> ms = answers old new k (asked c)) \<or>
     (\<exists>k i. in_updates cfg old new k i c \<and> k < nblocks old \<and> ms = upd_rest old new k i @ answers old new (Suc k) (asked c)) \<or>
     (\<exists>k. whole_done cfg old new k c \<and> ms = Hash (blockdist * k) (md5_of (new_block new k)) # answers old new (Suc k) (asked c))"

text \<open>A state of the state machine, with the bytes that are still to come: between messages, in the front of one, or in data.\<close>

definition in_head :: "block_msg \<Rightarrow> nat \<Rightarrow> chunk_client \<Rightarrow> bool" where
  "in_head m off c \<longleftrightarrow> off < length (msg_head m) \<and> curr_id c = msg_id m \<and> packet_buf_off c = off \<and>
     need_bytes c = length (msg_head m) - off \<and> total_need_bytes c = length (msg_head m) \<and>
     take off (packet_buf c) = take off (msg_head m) \<and> sound_msg m"

definition in_phase :: "client_config \<Rightarrow> byte list \<Rightarrow> byte list \<Rightarrow> chunk_client \<Rightarrow> byte list \<Rightarrow> bool" where
  "in_phase cfg old new c bs \<longleftrightarrow>
     (case cs_state c of
        CS_ID_FIRST \<Rightarrow> \<exists>ms. expects cfg old new c ms \<and> bs = msgs_bytes ms
      | CS_ID_ACC \<Rightarrow> \<exists>m ms off. expects cfg old new c (m # ms) \<and> in_head m off c \<and> bs = drop off (msg_head m) @ msg_data m @ msgs_bytes ms
      | CS_CHUNK \<Rightarrow> \<exists>k i d r. in_chunk cfg old new k i d r c \<and> r \<noteq> [] \<and> k < nblocks old \<and>
          bs = r @ msgs_bytes (upd_rest old new k (Suc i) @ answers old new (Suc k) (asked c))
      | CS_BLOCK \<Rightarrow> \<exists>k d r. in_whole cfg old new k d r c \<and> r \<noteq> [] \<and>
          bs = r @ msgs_bytes (Hash (blockdist * k) (md5_of (new_block new k)) # answers old new (Suc k) (asked c))
      | CS_SPARSE_EXTENTS \<Rightarrow> False)"

text \<open>What the handling of fronts changes does not matter to them.\<close>

definition head_upd :: "byte \<Rightarrow> nat \<Rightarrow> nat \<Rightarrow> byte list \<Rightarrow> nat \<Rightarrow> byte list \<Rightarrow> nat \<Rightarrow> nat \<Rightarrow> chunked_state \<Rightarrow> chunk_client \<Rightarrow> chunk_client" where
  "head_upd i nb t pb po bp rb bd st c = c\<lparr>curr_id := i, need_bytes := nb, total_need_bytes := t, packet_buf := pb, packet_buf_off := po,
     bufptr := bp, remaining_bufptr_bytes := rb, bufptr_bytes_done := bd, cs_state := st\<rparr>"

lemma expects_head:
  assumes "expects cfg old new c ms" "length pb = 24"
  shows "expects cfg old new (head_upd i nb t pb po bp rb bd st c) ms"
proof -
  let ?d = "head_upd i nb t pb po bp rb bd st c"
  have b: "client_base cfg old new k c \<Longrightarrow> client_base cfg old new k ?d" "size_known new ?d = size_known new c"
    "hashes_fit new Q ?d = hashes_fit new Q c" "ho_all R ?d = ho_all R c"
    "patch_rep fs items cur ?d = patch_rep fs items cur c" "in_blk cfg old new k items c \<Longrightarrow> in_blk cfg old new k items ?d" for k Q R fs items cur
    using assms(2) by (simp_all add: head_upd_def client_base_def size_known_def hashes_fit_def ho_all_def pending_from_def patch_rep_def in_blk_def)
  have f: "patch_buf ?d = patch_buf c" "block_for_chunk_start ?d = block_for_chunk_start c" "md5_hash ?d = md5_hash c" "chunk_start ?d = chunk_start c"
    "hash_for_whole_block ?d = hash_for_whole_block c" "next_chunk ?d = next_chunk c" "m_patchfile ?d = m_patchfile c" "patchfile_pos ?d = patchfile_pos c"
    "last_chunk_patches ?d = last_chunk_patches c" "remote_filesize ?d = remote_filesize c" "pending_chunks ?d = pending_chunks c"
    by (simp_all add: head_upd_def)
  have "at_start cfg old new k c \<Longrightarrow> at_start cfg old new k ?d" for k unfolding at_start_def b(2-5) f using b(1) by blast
  moreover have "at_block cfg old new k c \<Longrightarrow> at_block cfg old new k ?d" for k unfolding at_block_def b(2-5) f using b(1) by blast
  moreover have "in_updates cfg old new k j c \<Longrightarrow> in_updates cfg old new k j ?d" for k j unfolding in_updates_def b(2-5) f using b(6) by blast
  moreover have "whole_done cfg old new k c \<Longrightarrow> whole_done cfg old new k ?d" for k unfolding whole_done_def b(2-5) f using b(6) by blast
  ultimately show ?thesis using assms(1) unfolding expects_def f by blast
qed

text \<open>No handler asks for blocks.\<close>

lemma hash_next [simp]: "next_chunk (hash_write cfg x c) = next_chunk c" "next_chunk (hash_seek p c) = next_chunk c"
  by (simp_all add: hash_write_def hash_seek_def)

lemma write_data_next [simp]: "next_chunk (write_data cfg e l c) = next_chunk c"
  by (simp add: write_data_def writePatch_def writePatchInt_def patch_write_def Let_def)

lemma State_Chunk_next: "next_chunk (State_Chunk cfg c) = next_chunk c"
  by (simp add: State_Chunk_def Let_def)

end
