(* ===== verification/Client_Phase.thy ===== *)
theory Client_Phase
  imports Client_Transfer
begin

text \<open>
  One step of the state machine of the server's side: wherever the bytes that have arrived end, it takes some of them and is
  then in a state from which the rest of the answers can follow.
\<close>

section \<open>Messages\<close>

text \<open>The updates pass over the chunks that are not sent, whatever has been received so far.\<close>

lemma next_update_all:
  "\<exists>j. (\<forall>q w. caught_up old new k q i \<longrightarrow> caught_up old new k q j \<and> rebuilt_from old new k j w = rebuilt_from old new k i w) \<and>
    upd_rest old new k j = upd_rest old new k i \<and>
    upd_words (small_hashes old k) (new_block new k) j = upd_words (small_hashes old k) (new_block new k) i \<and>
    (all_passed new k j \<or> \<not> all_passed new k j \<and>
       piece_differs (length old) (small_hashes old k) (blockdist * k + 4096 * j) j (piece_of (new_block new k) j))"
proof (induction "128 - i" arbitrary: i rule: less_induct)
  case less
  show ?case
  proof (cases "all_passed new k i \<or> piece_differs (length old) (small_hashes old k) (blockdist * k + 4096 * i) i (piece_of (new_block new k) i)")
    case True
    then show ?thesis by (intro exI[of _ i]) blast
  next
    case False
    then have i: "i < 128" "4096 * i \<le> length (new_block new k)"
      and s: "\<not> piece_differs (length old) (small_hashes old k) (blockdist * k + 4096 * i) i (piece_of (new_block new k) i)"
      by (auto simp: all_passed_def)
    have "caught_up old new k (blockdist * k + min (4096 * i) (length (new_block new k))) i" by (simp add: caught_up_def)
    note p = piece_skipped[OF i s this] and q = piece_skipped(2,4)[OF i s]
    have "128 - Suc i < 128 - i" using i(1) by simp
    from less.hyps[OF this] obtain j where j: "\<And>q w. caught_up old new k q (Suc i) \<Longrightarrow> caught_up old new k q j \<and> rebuilt_from old new k j w = rebuilt_from old new k (Suc i) w"
      "upd_rest old new k j = upd_rest old new k (Suc i)" "upd_words (small_hashes old k) (new_block new k) j = upd_words (small_hashes old k) (new_block new k) (Suc i)"
      "all_passed new k j \<or> \<not> all_passed new k j \<and>
       piece_differs (length old) (small_hashes old k) (blockdist * k + 4096 * j) j (piece_of (new_block new k) j)"
      by blast
    have "caught_up old new k x j \<and> rebuilt_from old new k j w = rebuilt_from old new k i w" if "caught_up old new k x i" for x w
      using j(1)[OF q(1)[OF that], of w] q(2)[OF that, of w] by simp
    then show ?thesis using j(2-4) unfolding p(1,3) by blast
  qed
qed

lemma no_passed_updates: "upd_rest old new k j = m # ms \<Longrightarrow> (\<And>p h. m \<noteq> Hash p h) \<Longrightarrow> \<not> all_passed new k j"
  using upd_rest_end[of new k j old] by auto

text \<open>The checksums and digests tell the chunks of the old file from those of the new one: what is put together is the new block.\<close>

definition told_apart :: "byte list \<Rightarrow> byte list \<Rightarrow> bool" where
  "told_apart old new \<longleftrightarrow> (\<forall>k < nblocks new. k < nblocks old \<longrightarrow> rebuilt old new k = new_block new k)"

lemma at_block_first [simp]: "at_block cfg old new k (c\<lparr>cs_state := s\<rparr>) = at_block cfg old new k c"
proof -
  have "client_base cfg old new k (c\<lparr>cs_state := s\<rparr>) = client_base cfg old new k c" "size_known new (c\<lparr>cs_state := s\<rparr>) = size_known new c"
    "patch_rep (length new) items [] (c\<lparr>cs_state := s\<rparr>) = patch_rep (length new) items [] c" "hashes_fit new Q (c\<lparr>cs_state := s\<rparr>) = hashes_fit new Q c"
    for items Q
    by (simp_all add: client_base_def size_known_def patch_rep_def hashes_fit_def ho_all_def pending_from_def)
  then show ?thesis by (simp add: at_block_def)
qed

lemma used_first [simp]: "used buf n (c\<lparr>cs_state := s\<rparr>) = used buf n c"
  by (simp add: used_def)

lemma base_asked: "client_base cfg old new k c \<Longrightarrow> k \<le> asked c \<and> asked c \<le> nblocks new \<and> length new < 2 ^ 63"
  by (auto simp: client_base_def pending_from_def)

lemma in_blk_base: "in_blk cfg old new k items c \<Longrightarrow> client_base cfg old new k c \<and> k < asked c"
  by (simp add: in_blk_def)

lemma block_base:
  "in_updates cfg old new k i c \<Longrightarrow> client_base cfg old new k c \<and> k < asked c"
  "whole_done cfg old new k c \<Longrightarrow> client_base cfg old new k c \<and> k < asked c"
  "in_chunk cfg old new k i d r c \<Longrightarrow> client_base cfg old new k c \<and> k < asked c"
  "in_whole cfg old new k d r c \<Longrightarrow> client_base cfg old new k c \<and> k < asked c"
  using in_blk_base unfolding in_updates_def whole_done_def in_chunk_def in_whole_def by blast+

lemma base_pending: "client_base cfg old new k c \<Longrightarrow> pending_from old k c"
  by (simp add: client_base_def)

lemma at_block_base: "at_block cfg old new k c \<Longrightarrow> client_base cfg old new k c"
  by (simp add: at_block_def)

lemma answers_some: "answers old new k l \<noteq> [] \<Longrightarrow> k < l"
  by (cases "k < l") (simp_all add: answers_def)

lemma phase_at_block: "at_block cfg old new k c \<Longrightarrow> cs_state c = CS_ID_FIRST \<Longrightarrow> in_phase cfg old new c (msgs_bytes (answers old new k (asked c)))"
  by (auto simp: in_phase_def expects_def)

lemma phase_in_updates: "in_updates cfg old new k i c \<Longrightarrow> k < nblocks old \<Longrightarrow> cs_state c = CS_ID_FIRST \<Longrightarrow>
    in_phase cfg old new c (msgs_bytes (upd_rest old new k i @ answers old new (Suc k) (asked c)))"
  unfolding in_phase_def expects_def by (auto simp del: msgs_bytes_simps)

text \<open>A block that starts: its pieces have their positions in the range of the messages.\<close>

lemma pos_small: "k < nblocks new \<Longrightarrow> length new < 2 ^ 63 \<Longrightarrow> blockdist * k < 2 ^ 63"
  by (simp add: less_nblocks)

definition acc_done :: "client_config \<Rightarrow> byte list \<Rightarrow> byte list \<Rightarrow> int \<Rightarrow> byte list \<Rightarrow> nat \<Rightarrow> byte list \<Rightarrow> chunk_client option \<Rightarrow> bool" where
  "acc_done cfg old new nx buf n bs r \<longleftrightarrow> (\<exists>c'. r = Some c' \<and> used buf n c' \<and> next_chunk c' = nx \<and> in_phase cfg old new c' bs)"

lemma acc_size_done:
  assumes c: "at_start cfg old new k c" and i: "curr_id c = ID_FILESIZE" and u: "used buf n c"
  shows "acc_done cfg old new (next_chunk c) buf n (msgs_bytes (answers old new k (asked c)))
    (acc_packet cfg False al ext load (msg_head (File_Size_Msg (length new))) c)"
proof -
  have l: "length new < 2 ^ 63" using c by (simp add: at_start_def client_base_def)
  have p: "pkt_int64 be 0 (msg_head (File_Size_Msg (length new))) = int (length new)" for be
    using pkt_int64_le[OF l, of be "[]"] by simp
  obtain c' where g: "got_filesize cfg al (int (length new)) 0 c = Inr c'" "at_block cfg old new k c'" "cs_state c' = CS_ID_FIRST"
    "used buf n c'" "next_chunk c' = next_chunk c"
    using got_filesize_ok[OF c u] by blast
  have "acc_packet cfg False al ext load (msg_head (File_Size_Msg (length new))) c = Some c'"
    using g(1) i unfolding acc_packet_def acc_filesize_def Let_def p by (simp add: packet_ids)
  then show ?thesis using g phase_at_block[OF g(2,3)] by (auto simp: acc_done_def)
qed

lemma acc_whole_done:
  assumes c: "at_block cfg old new k c" "k < asked c" and i: "curr_id c = ID_WHOLE_BLOCK" and u: "used buf n c"
  shows "acc_done cfg old new (next_chunk c) buf n (new_block new k @ msgs_bytes (Hash (blockdist * k) (md5_of (new_block new k)) # answers old new (Suc k) (asked c)))
    (acc_packet cfg False al ext load (msg_head (Whole (blockdist * k) (new_block new k))) c)"
proof -
  have ne: "new_block new k \<noteq> []" using base_asked[OF at_block_base[OF c(1)]] c(2) less_nblocks[of k new] by (auto simp: block_bytes_def c_checkpoint_dist_def)
  obtain c' where a: "acc_whole_block cfg (msg_head (Whole (blockdist * k) (new_block new k))) c = Some c'" "in_whole cfg old new k [] (new_block new k) c'"
    "cs_state c' = CS_BLOCK" "used buf n c'" "next_chunk c' = next_chunk c"
    using acc_whole_block_runs[OF c refl _ u, of "msg_head (Whole (blockdist * k) (new_block new k))"] by auto
  have "acc_packet cfg False al ext load (msg_head (Whole (blockdist * k) (new_block new k))) c = Some c'"
    using a(1) i unfolding acc_packet_def Let_def by (simp add: packet_ids)
  moreover have "in_phase cfg old new c' (new_block new k @ msgs_bytes (Hash (blockdist * k) (md5_of (new_block new k)) # answers old new (Suc k) (asked c)))"
    unfolding in_phase_def a(3) chunked_state.case by (intro exI[of _ k] exI[of _ "[]"] exI[of _ "new_block new k"]) (use a ne in simp)
  ultimately show ?thesis using a(4,5) by (auto simp: acc_done_def)
qed

lemma acc_update_done:
  assumes up: "Hash_upto (int (blockdist * k + 4096 * i)) c = Some (nb, c1)" "at_update cfg old new k i c1" and n1: "next_chunk c1 = next_chunk c"
    and h: "nb \<longrightarrow> hashes_fit new (\<lambda>bs p. starts bs (hash_prefix new k)) c1"
      "nb \<longrightarrow> upd_words (small_hashes old k) (new_block new k) i = upd_words (small_hashes old k) (new_block new k) 0"
      "\<not> nb \<longrightarrow> hashes_fit new (\<lambda>bs p. slot_words new k (concat (upd_words (small_hashes old k) (new_block new k) i)) bs) c1"
    and k: "k < nblocks old" and i: "curr_id c = ID_UPDATE_CHUNK" and u: "used buf n c1"
  shows "acc_done cfg old new (next_chunk c) buf n (piece_of (new_block new k) i @ msgs_bytes (upd_rest old new k (Suc i) @ answers old new (Suc k) (asked c)))
    (acc_packet cfg False al ext load (msg_head (Update (blockdist * k + 4096 * i) (piece_of (new_block new k) i))) c)"
proof -
  let ?pc = "piece_of (new_block new k) i" and ?m = "msg_head (Update (blockdist * k + 4096 * i) (piece_of (new_block new k) i))"
  obtain c' where a: "acc_update_chunk cfg ?m c = Some c'" "used buf n c'" "next_chunk c' = next_chunk c1"
    "if ?pc \<noteq> [] then in_chunk cfg old new k i [] ?pc c' \<and> cs_state c' = CS_CHUNK
     else in_updates cfg old new k (Suc i) c' \<and> cs_state c' = CS_ID_FIRST"
    using acc_update_chunk_runs[OF up h, of ?m] u by auto
  have p: "acc_packet cfg False al ext load ?m c = Some c'"
    using a(1) i unfolding acc_packet_def Let_def by (simp add: packet_ids)
  have "in_phase cfg old new c' (?pc @ msgs_bytes (upd_rest old new k (Suc i) @ answers old new (Suc k) (asked c)))"
  proof (cases "?pc = []")
    case True
    then show ?thesis using a(3,4) phase_in_updates[of cfg old new k "Suc i" c'] k n1 by simp
  next
    case False
    then have s: "in_chunk cfg old new k i [] ?pc c'" "cs_state c' = CS_CHUNK" using a(4) by simp_all
    show ?thesis unfolding in_phase_def s(2) chunked_state.case
      by (intro exI[of _ k] exI[of _ i] exI[of _ "[]"] exI[of _ "?pc"]) (use s(1) False k a(3) n1 in simp)
  qed
  then show ?thesis using p a(2,3) n1 by (auto simp: acc_done_def)
qed

lemma acc_hash_done:
  assumes f: "Hash_finalize cfg load (int (blockdist * k)) (md5_of (new_block new k)) c = Some c1" "at_block cfg old new (Suc k) c1"
    "used buf n c1" "next_chunk c1 = next_chunk c" and p: "blockdist * k < 2 ^ 63" and i: "curr_id c = ID_BLOCK_HASH"
  shows "acc_done cfg old new (next_chunk c) buf n (msgs_bytes (answers old new (Suc k) (asked c)))
    (acc_packet cfg False al ext load (msg_head (Hash (blockdist * k) (md5_of (new_block new k)))) c)"
proof -
  have "acc_packet cfg False al ext load (msg_head (Hash (blockdist * k) (md5_of (new_block new k)))) c = Some (c1\<lparr>cs_state := CS_ID_FIRST\<rparr>)"
    using f(1) i pkt_int64_le[OF p] unfolding acc_packet_def Let_def by (simp add: packet_ids)
  moreover have "in_phase cfg old new (c1\<lparr>cs_state := CS_ID_FIRST\<rparr>) (msgs_bytes (answers old new (Suc k) (asked c)))"
    using phase_at_block[of cfg old new "Suc k" "c1\<lparr>cs_state := CS_ID_FIRST\<rparr>"] f(2,4) by simp
  ultimately show ?thesis using f(3,4) by (auto simp: acc_done_def)
qed

text \<open>The first message of a block that is not done.\<close>

lemma acc_first_done:
  assumes c: "at_block cfg old new k c" "answers old new k (asked c) = m # ms" and t: "told_apart old new" and i: "curr_id c = msg_id m" and u: "used buf n c"
  shows "acc_done cfg old new (next_chunk c) buf n (msg_data m @ msgs_bytes ms) (acc_packet cfg False al ext load (msg_head m) c)"
proof -
  let ?p = "blockdist * k" and ?b = "new_block new k"
  note cb = at_block_base[OF c(1)]
  have k: "k < asked c" "k < nblocks new" using answers_some[of old new k "asked c"] c(2) base_asked[OF cb] by auto
  have p: "?p < 2 ^ 63" using pos_small[OF k(2)] base_asked[OF cb] by simp
  have a: "answer old new k @ answers old new (Suc k) (asked c) = m # ms" using c(2) answers_Cons[OF k(1)] by simp
  consider (whole) "answer old new k = [Whole ?p ?b, Hash ?p (md5_of ?b)]" | (same) "k < nblocks old" "answer old new k = [No_Change ?p]" |
    (upd) "k < nblocks old" "answer old new k = upd_rest old new k 0" "piece_updates (length old) (small_hashes old k) ?p 0 (pieces_from 128 ?b) \<noteq> []"
    by (force simp: answer_def whole_answer_def block_answer_def Let_def upd_rest_def rest_pieces_def split: if_splits)
  then show ?thesis
  proof cases
    case whole
    then have m: "m = Whole ?p ?b" "ms = Hash ?p (md5_of ?b) # answers old new (Suc k) (asked c)" using a by simp_all
    show ?thesis using acc_whole_done[OF c(1) k(1) _ u, of al ext load] i unfolding m by simp
  next
    case same
    then have m: "m = No_Change ?p" "ms = answers old new (Suc k) (asked c)" using a by simp_all
    have r: "rebuilt old new k = ?b" using t same(1) k(2) by (simp add: told_apart_def)
    note h = Hash_nochange_ok[OF c(1) k(1) same(2) r u]
    have "acc_packet cfg False al ext load (msg_head m) c = Some ((Hash_nochange cfg (int ?p) c)\<lparr>cs_state := CS_ID_FIRST\<rparr>)"
      using i m(1) pkt_int64_le[OF p, of _ "[]"] unfolding acc_packet_def Let_def by (simp add: packet_ids)
    moreover have "in_phase cfg old new ((Hash_nochange cfg (int ?p) c)\<lparr>cs_state := CS_ID_FIRST\<rparr>) (msgs_bytes ms)"
      using phase_at_block[of cfg old new "Suc k" "(Hash_nochange cfg (int ?p) c)\<lparr>cs_state := CS_ID_FIRST\<rparr>"] h m(2) by simp
    ultimately show ?thesis using h m(1) by (simp add: acc_done_def)
  next
    case upd
    obtain j where j: "\<And>q w. caught_up old new k q 0 \<Longrightarrow> caught_up old new k q j \<and> rebuilt_from old new k j w = rebuilt_from old new k 0 w"
      "upd_rest old new k j = upd_rest old new k 0" "upd_words (small_hashes old k) ?b j = upd_words (small_hashes old k) ?b 0"
      "all_passed new k j \<or> \<not> all_passed new k j \<and> piece_differs (length old) (small_hashes old k) (?p + 4096 * j) j (piece_of ?b j)"
      using next_update_all[of old new k 0] by blast
    have "length (upd_rest old new k 0) \<noteq> 1" using upd(3) by (simp add: upd_rest_def rest_pieces_def)
    then have np: "\<not> all_passed new k j" using upd_rest_end[of new k j old] j(2) by auto
    then have df: "piece_differs (length old) (small_hashes old k) (?p + 4096 * j) j (piece_of ?b j)" using j(4) by blast
    have m: "m = Update (?p + 4096 * j) (piece_of ?b j)" "ms = upd_rest old new k (Suc j) @ answers old new (Suc k) (asked c)"
      using a unfolding upd(2) j(2)[symmetric] update_next(1)[OF np df] by simp_all
    have st: "caught_up old new k ?p j" "rebuilt_from old new k j [] = rebuilt old new k" using j(1)[OF caught_up_start, of "[]"] by (simp_all add: rebuilt_def)
    obtain c1 where c1: "Hash_upto (int (?p + 4096 * j)) c = Some (True, c1)" "at_update cfg old new k j c1" "m_hashoutput c1 = m_hashoutput c"
      "used buf n c1" "next_chunk c1 = next_chunk c"
      using Hash_upto_first[OF c(1) k(1) st(1) np df st(2) u] by blast
    have h: "hashes_fit new (\<lambda>bs p. starts bs (hash_prefix new k)) c1" using c(1) c1(3) by (simp add: at_block_def hashes_fit_def ho_all_def)
    show ?thesis using acc_update_done[OF c1(1,2,5) _ _ _ upd(1) _ c1(4), of al ext load] h j(3) i unfolding m by simp
  qed
qed

lemma acc_next_done:
  assumes c: "in_updates cfg old new k i c" "upd_rest old new k i @ answers old new (Suc k) (asked c) = m # ms" and ko: "k < nblocks old"
    and t: "told_apart old new" and i: "curr_id c = msg_id m" and u: "used buf n c"
  shows "acc_done cfg old new (next_chunk c) buf n (msg_data m @ msgs_bytes ms) (acc_packet cfg False al ext load (msg_head m) c)"
proof -
  let ?p = "blockdist * k" and ?b = "new_block new k"
  have cb: "client_base cfg old new k c" and kn: "k < asked c" using c(1) by (auto simp: in_updates_def in_blk_def)
  have k: "k < nblocks new" using base_asked[OF cb] kn by simp
  have p: "?p < 2 ^ 63" using pos_small[OF k] base_asked[OF cb] by simp
  obtain j where j: "\<And>q w. caught_up old new k q i \<Longrightarrow> caught_up old new k q j \<and> rebuilt_from old new k j w = rebuilt_from old new k i w"
      "upd_rest old new k j = upd_rest old new k i" "upd_words (small_hashes old k) ?b j = upd_words (small_hashes old k) ?b i"
      "all_passed new k j \<or> \<not> all_passed new k j \<and> piece_differs (length old) (small_hashes old k) (?p + 4096 * j) j (piece_of ?b j)"
    using next_update_all[of old new k i] by blast
  from j(4) show ?thesis
  proof
    assume ap: "all_passed new k j"
    have e: "upd_rest old new k i = [Hash ?p (md5_of ?b)]" using upd_rest_end[OF ap] j(2) by simp
    have m: "m = Hash ?p (md5_of ?b)" "ms = answers old new (Suc k) (asked c)" using c(2) e by simp_all
    have r: "rebuilt old new k = ?b" using t ko k by (simp add: told_apart_def)
    obtain c1 where c1: "Hash_finalize cfg load (int ?p) (md5_of ?b) c = Some c1" "at_block cfg old new (Suc k) c1" "used buf n c1" "next_chunk c1 = next_chunk c"
      using Hash_finalize_updates[OF c(1) e r u] by blast
    show ?thesis using acc_hash_done[OF c1 p, of al ext] i unfolding m by simp
  next
    assume d: "\<not> all_passed new k j \<and> piece_differs (length old) (small_hashes old k) (?p + 4096 * j) j (piece_of ?b j)"
    then have np: "\<not> all_passed new k j" and df: "piece_differs (length old) (small_hashes old k) (?p + 4096 * j) j (piece_of ?b j)" by simp_all
    have m: "m = Update (?p + 4096 * j) (piece_of ?b j)" "ms = upd_rest old new k (Suc j) @ answers old new (Suc k) (asked c)"
      using c(2) unfolding j(2)[symmetric] update_next(1)[OF np df] by simp_all
    obtain c1 where c1: "Hash_upto (int (?p + 4096 * j)) c = Some (False, c1)" "at_update cfg old new k j c1" "m_hashoutput c1 = m_hashoutput c"
      "used buf n c1" "next_chunk c1 = next_chunk c"
      using Hash_upto_next[OF c(1) np j(1) df u] by blast
    have h: "hashes_fit new (\<lambda>bs p. slot_words new k (concat (upd_words (small_hashes old k) ?b j)) bs) c1"
      using c(1) c1(3) j(3) by (simp add: in_updates_def hashes_fit_def ho_all_def)
    show ?thesis using acc_update_done[OF c1(1,2,5) _ _ _ ko _ c1(4), of al ext load] h i unfolding m by simp
  qed
qed

lemma acc_packet_ok:
  assumes e: "expects cfg old new c (m # ms)" and t: "told_apart old new" and i: "curr_id c = msg_id m" and u: "used buf n c"
  shows "acc_done cfg old new (next_chunk c) buf n (msg_data m @ msgs_bytes ms) (acc_packet cfg False al ext load (msg_head m) c)"
  using e unfolding expects_def
proof (elim disjE exE conjE)
  fix k assume c: "at_start cfg old new k c" "m # ms = File_Size_Msg (length new) # answers old new k (asked c)"
  then have m: "m = File_Size_Msg (length new)" "ms = answers old new k (asked c)" by simp_all
  show ?thesis using acc_size_done[OF c(1) _ u, of al ext load] i unfolding m by simp
next
  fix k assume c: "at_block cfg old new k c" "m # ms = answers old new k (asked c)"
  show ?thesis by (rule acc_first_done[OF c(1) c(2)[symmetric] t i u])
next
  fix k j assume c: "in_updates cfg old new k j c" "k < nblocks old" "m # ms = upd_rest old new k j @ answers old new (Suc k) (asked c)"
  show ?thesis by (rule acc_next_done[OF c(1) c(3)[symmetric] c(2) t i u])
next
  fix k assume c: "whole_done cfg old new k c" "m # ms = Hash (blockdist * k) (md5_of (new_block new k)) # answers old new (Suc k) (asked c)"
  then have m: "m = Hash (blockdist * k) (md5_of (new_block new k))" "ms = answers old new (Suc k) (asked c)" by simp_all
  have cb: "client_base cfg old new k c" "k < asked c" using c(1) by (auto simp: whole_done_def in_blk_def)
  have p: "blockdist * k < 2 ^ 63" using pos_small[of k new] base_asked[OF cb(1)] cb(2) by simp
  obtain c1 where c1: "Hash_finalize cfg load (int (blockdist * k)) (md5_of (new_block new k)) c = Some c1" "at_block cfg old new (Suc k) c1" "used buf n c1"
    "next_chunk c1 = next_chunk c"
    using Hash_finalize_whole[OF c(1) u] by blast
  show ?thesis using acc_hash_done[OF c1 p, of al ext] i unfolding m by simp
qed

section \<open>Fronts of messages\<close>

lemma piece_updates_sound: "\<forall>m \<in> set (piece_updates hs h p j cs). sound_msg m"
  by (induction hs h p j cs rule: piece_updates.induct) auto

lemma answers_sound: "m \<in> set (answers old new k l) \<Longrightarrow> sound_msg m"
  using piece_updates_sound
  by (fastforce simp: answers_def answer_def whole_answer_def block_answer_def Let_def length_md5_of split: if_splits)

lemma upd_rest_sound: "m \<in> set (upd_rest old new k i) \<Longrightarrow> sound_msg m"
  using piece_updates_sound by (fastforce simp: upd_rest_def length_md5_of)

lemma expects_sound: "expects cfg old new c ms \<Longrightarrow> m \<in> set ms \<Longrightarrow> sound_msg m"
  unfolding expects_def
  by (elim disjE exE conjE) (auto simp: length_md5_of dest: answers_sound upd_rest_sound)

lemma expects_packet_buf: "expects cfg old new c ms \<Longrightarrow> length (packet_buf c) = 24"
  unfolding expects_def by (auto simp: at_start_def at_block_def in_updates_def whole_done_def in_blk_def client_base_def)

definition stepped :: "client_config \<Rightarrow> byte list \<Rightarrow> byte list \<Rightarrow> int \<Rightarrow> byte list \<Rightarrow> byte list \<Rightarrow> chunk_client option \<Rightarrow> bool" where
  "stepped cfg old new nx buf bs r \<longleftrightarrow> (\<exists>c' n. r = Some c' \<and> next_chunk c' = nx \<and> 0 < n \<and> n \<le> length buf \<and> drop (bufptr_bytes_done c') (bufptr c') = drop n buf \<and>
     remaining_bufptr_bytes c' = length buf - n \<and> in_phase cfg old new c' (drop n bs))"

lemma put_front:
  assumes "take off pb = take off h" "off + length d \<le> length pb" "d = take (length d) (drop off h)" "off \<le> length h"
  shows "take (off + length d) (put_bytes pb off d) = take (off + length d) h"
proof -
  have o: "off \<le> length pb" using assms(2) by simp
  have "take (off + length d) (put_bytes pb off d) = take off h @ d"
    using assms(1,4) o by (simp add: put_bytes_def)
  also have "\<dots> = take (off + length d) h" unfolding take_add using assms(3) by simp
  finally show ?thesis .
qed

text \<open>The bytes of a front that are there, and the packet when all of them are.\<close>

lemma State_Acc_ok:
  assumes e: "expects cfg old new c (m # ms)" and t: "told_apart old new" and off: "off < length (msg_head m)" and so: "sound_msg m"
    and c: "curr_id c = msg_id m" "packet_buf_off c = off" "need_bytes c = length (msg_head m) - off" "total_need_bytes c = length (msg_head m)"
    and st: "cs_state c = CS_ID_FIRST \<and> off = 0 \<or> cs_state c = CS_ID_ACC \<and> take off (packet_buf c) = take off (msg_head m)"
    and u: "used buf 0 c" and b: "take (length buf) bs = buf" "bs = drop off (msg_head m) @ msg_data m @ msgs_bytes ms"
  shows "\<exists>c' n. State_Acc cfg False al ext load c = Some c' \<and> n \<le> length buf \<and> (buf \<noteq> [] \<longrightarrow> 0 < n) \<and> used buf n c' \<and> next_chunk c' = next_chunk c \<and>
    in_phase cfg old new c' (drop n bs)"
proof -
  define L where "L = length (msg_head m)"
  have L: "8 \<le> L" "L \<le> 24" using msg_head_size[OF so] by (simp_all add: L_def)
  have pl: "length (packet_buf c) = 24" by (rule expects_packet_buf[OF e])
  have pf: "take off (packet_buf c) = take off (msg_head m)" using st by auto
  have bu: "bufptr c = buf" "bufptr_bytes_done c = 0" "remaining_bufptr_bytes c = length buf" using u by (simp_all add: used_def)
  show ?thesis
  proof (cases "L - off \<le> length buf")
    case True
    let ?new = "take (L - off) buf"
    have ln: "length ?new = L - off" using True by simp
    have hd: "?new = drop off (msg_head m)"
    proof -
      have "?new = take (L - off) (take (length buf) bs)" using b(1) by simp
      also have "\<dots> = drop off (msg_head m)" using True unfolding b(2) by (simp add: L_def)
      finally show ?thesis .
    qed
    let ?pb = "if cs_state c = CS_ID_FIRST then packet_buf c else put_bytes (packet_buf c) off ?new"
    have msg: "(if cs_state c = CS_ID_FIRST then ?new else take L (put_bytes (packet_buf c) off ?new)) = msg_head m"
    proof (cases "cs_state c = CS_ID_FIRST")
      case True
      then have "off = 0" using st by auto
      then show ?thesis using True hd by simp
    next
      case False
      have "take (off + length ?new) (put_bytes (packet_buf c) off ?new) = take (off + length ?new) (msg_head m)"
        by (rule put_front[OF pf]) (use pl L off ln hd in \<open>simp_all add: L_def\<close>)
      then show ?thesis using False off ln by (simp add: L_def)
    qed
    have pbl: "length ?pb = 24" using pl ln L off by (simp add: put_bytes_def L_def)
    let ?d = "head_upd (curr_id c) (L - off) L ?pb off buf (length buf - (L - off)) (L - off) (cs_state c) c"
    have ex: "expects cfg old new ?d (m # ms)" by (rule expects_head[OF e pbl])
    have ud: "used buf (L - off) ?d" by (simp add: used_def head_upd_def)
    have id: "curr_id ?d = msg_id m" using c(1) by (simp add: head_upd_def)
    have "State_Acc cfg False al ext load c = acc_packet cfg False al ext load (msg_head m) ?d"
    proof -
      have n24: "\<not> (cs_state c \<noteq> CS_ID_FIRST \<and> 24 < packet_buf_off c + need_bytes c)" using c(2,3) L off by (auto simp: L_def)
      have q: "need_bytes c \<le> remaining_bufptr_bytes c" using True c(3) bu by (simp add: L_def)
      have dd: "(if cs_state c = CS_ID_FIRST then c else c\<lparr>packet_buf := put_bytes (packet_buf c) (packet_buf_off c) (take (need_bytes c) (bufptr c))\<rparr>)
          \<lparr>bufptr_bytes_done := bufptr_bytes_done c + need_bytes c, remaining_bufptr_bytes := remaining_bufptr_bytes c - need_bytes c\<rparr> = ?d"
        using c bu by (intro chunk_client.equality) (simp_all add: head_upd_def L_def)
      have mm: "(if cs_state c = CS_ID_FIRST then take (need_bytes c) (bufptr c)
          else take (total_need_bytes c) (packet_buf (if cs_state c = CS_ID_FIRST then c
            else c\<lparr>packet_buf := put_bytes (packet_buf c) (packet_buf_off c) (take (need_bytes c) (bufptr c))\<rparr>))) = msg_head m"
        using msg c bu by (auto simp: L_def)
      show ?thesis unfolding State_Acc_def Let_def if_P[OF q] if_not_P[OF n24] dd mm by simp
    qed
    moreover have "drop (L - off) bs = msg_data m @ msgs_bytes ms" using off unfolding b(2) by (simp add: L_def)
    ultimately obtain c' where "State_Acc cfg False al ext load c = Some c'" "used buf (L - off) c'" "next_chunk c' = next_chunk c"
        "in_phase cfg old new c' (drop (L - off) bs)"
      using acc_packet_ok[OF ex t id ud, of al ext load] by (auto simp: acc_done_def head_upd_def)
    then show ?thesis using True off by (intro exI[of _ c'] exI[of _ "L - off"]) (simp add: L_def)
  next
    case False
    let ?n = "length buf"
    let ?pb = "put_bytes (packet_buf c) off buf"
    have bh: "buf = take ?n (drop off (msg_head m))"
    proof -
      have "buf = take ?n bs" using b(1) by simp
      also have "\<dots> = take ?n (drop off (msg_head m))" using False unfolding b(2) by (simp add: L_def)
      finally show ?thesis .
    qed
    have pbl: "length ?pb = 24" using pl False L by (simp add: put_bytes_def)
    let ?d = "head_upd (curr_id c) (L - off - ?n) L ?pb (off + ?n) buf 0 ?n CS_ID_ACC c"
    have ex: "expects cfg old new ?d (m # ms)" by (rule expects_head[OF e pbl])
    have "State_Acc cfg False al ext load c = Some ?d"
    proof -
      have q: "\<not> need_bytes c \<le> remaining_bufptr_bytes c" "\<not> 24 < packet_buf_off c + remaining_bufptr_bytes c" using False c bu L by (auto simp: L_def)
      show ?thesis unfolding State_Acc_def Let_def if_not_P[OF q(1)] if_not_P[OF q(2)]
        by (rule arg_cong[where f = Some], rule chunk_client.equality) (use c bu in \<open>simp_all add: head_upd_def L_def\<close>)
    qed
    moreover have "used buf ?n ?d" "next_chunk ?d = next_chunk c" by (simp_all add: used_def head_upd_def)
    moreover have "in_head m (off + ?n) ?d"
      using put_front[OF pf, of buf] bh False L off pl c(1) so by (simp add: in_head_def head_upd_def L_def)
    then have "in_phase cfg old new ?d (drop (off + ?n) (msg_head m) @ msg_data m @ msgs_bytes ms)"
      using ex unfolding in_phase_def by (auto simp: head_upd_def)
    moreover have "drop ?n bs = drop (off + ?n) (msg_head m) @ msg_data m @ msgs_bytes ms" using False unfolding b(2) by (simp add: L_def add.commute)
    ultimately show ?thesis by (intro exI[of _ ?d] exI[of _ ?n]) simp
  qed
qed

section \<open>Steps\<close>

lemma in_phase_ptr:
  assumes "in_phase cfg old new c bs"
  shows "in_phase cfg old new (c\<lparr>bufptr := b, remaining_bufptr_bytes := r, bufptr_bytes_done := d\<rparr>) bs"
proof -
  let ?d = "c\<lparr>bufptr := b, remaining_bufptr_bytes := r, bufptr_bytes_done := d\<rparr>"
  have e: "expects cfg old new ?d ms = expects cfg old new c ms" for ms
  proof
    assume a: "expects cfg old new c ms"
    show "expects cfg old new ?d ms"
      using expects_head[OF a expects_packet_buf[OF a], of "curr_id c" "need_bytes c" "total_need_bytes c" "packet_buf_off c" b r d "cs_state c"]
      by (simp add: head_upd_def)
  next
    assume a: "expects cfg old new ?d ms"
    show "expects cfg old new c ms"
      using expects_head[OF a expects_packet_buf[OF a], of "curr_id c" "need_bytes c" "total_need_bytes c" "packet_buf_off c" "bufptr c"
        "remaining_bufptr_bytes c" "bufptr_bytes_done c" "cs_state c"]
      by (simp add: head_upd_def)
  qed
  have h: "in_head m off ?d = in_head m off c" for m off by (simp add: in_head_def)
  have f: "client_base cfg old new k ?d = client_base cfg old new k c" "size_known new ?d = size_known new c" "hashes_fit new Q ?d = hashes_fit new Q c"
    "patch_rep fs items cur ?d = patch_rep fs items cur c" for k Q fs items cur
    by (simp_all add: client_base_def size_known_def hashes_fit_def ho_all_def pending_from_def patch_rep_def)
  have tk: "taking new items cur q x ?d = taking new items cur q x c" for items cur q x by (rule taking_frame) simp_all
  have b: "in_blk cfg old new k items ?d = in_blk cfg old new k items c" for k items unfolding in_blk_def f by simp
  have p: "chunk_start ?d = chunk_start c" "md5_hash ?d = md5_hash c" "hash_for_whole_block ?d = hash_for_whole_block c" "adler_hash ?d = adler_hash c"
    "adler_remaining ?d = adler_remaining c" "whole_block_remaining ?d = whole_block_remaining c" by simp_all
  have w: "in_chunk cfg old new k i x y ?d = in_chunk cfg old new k i x y c" "in_whole cfg old new k x y ?d = in_whole cfg old new k x y c" for k i x y
    unfolding in_chunk_def in_whole_def b f tk by (simp_all only: p)
  have g: "cs_state ?d = cs_state c" "next_chunk ?d = next_chunk c" by simp_all
  show ?thesis using assms unfolding in_phase_def h w e g .
qed

lemma prefix_take: "take (length buf) (r @ x) = buf \<Longrightarrow> take (length buf) r = take (length r) buf"
proof -
  assume a: "take (length buf) (r @ x) = buf"
  have "take (length r) (take (length buf) (r @ x)) = take (length buf) (take (length r) (r @ x))" by (simp only: take_take min.commute)
  also have "\<dots> = take (length buf) r" by simp
  finally show ?thesis unfolding a by (rule sym)
qed

lemma state_step_first:
  assumes p: "in_phase cfg old new c bs" and s: "cs_state c = CS_ID_FIRST" and t: "told_apart old new" and u: "used buf 0 c"
    and b: "buf \<noteq> []" "take (length buf) bs = buf"
  shows "stepped cfg old new (next_chunk c) buf bs (state_step cfg False al ext load c)"
proof -
  obtain ms0 where e0: "expects cfg old new c ms0" "bs = msgs_bytes ms0" using p s by (auto simp: in_phase_def)
  obtain m ms where mm: "ms0 = m # ms" using e0(2) b by (cases ms0) auto
  have so: "sound_msg m" using expects_sound[OF e0(1)] mm by simp
  have bs: "bs = msg_id m # msg_head m @ msg_data m @ msgs_bytes ms" using e0(2) mm by (simp add: msg_bytes_parts)
  obtain buf' where bu: "buf = msg_id m # buf'" using b unfolding bs by (cases buf) auto
  let ?L = "length (msg_head m)"
  let ?d = "head_upd (msg_id m) ?L ?L (packet_buf c) 0 buf' (length buf') 0 CS_ID_FIRST c"
  have sf: "State_First c = ?d"
    using u s msg_size[OF so] unfolding State_First_def Let_def
    by (intro chunk_client.equality) (simp_all add: used_def bu head_upd_def)
  have ex: "expects cfg old new ?d (m # ms)" using expects_head[OF e0(1) expects_packet_buf[OF e0(1)]] mm by simp
  have o: "0 < ?L" using msg_head_size[OF so] by linarith
  have ud: "used buf' 0 ?d" by (simp add: used_def head_upd_def)
  have b': "take (length buf') (msg_head m @ msg_data m @ msgs_bytes ms) = buf'" using b(2) unfolding bs bu by simp
  obtain c' n where a: "State_Acc cfg False al ext load ?d = Some c'" "n \<le> length buf'" "used buf' n c'"
    "next_chunk c' = next_chunk c" "in_phase cfg old new c' (drop n (msg_head m @ msg_data m @ msgs_bytes ms))"
    using State_Acc_ok[OF ex t o so _ _ _ _ _ ud b', of al ext load] by (auto simp: head_upd_def)
  have "state_step cfg False al ext load c = Some c'" using a(1) by (simp add: state_step_def s sf)
  then show ?thesis using a(2-5) unfolding stepped_def by (intro exI[of _ c'] exI[of _ "Suc n"]) (simp add: bu bs used_def)
qed

lemma state_step_acc:
  assumes p: "in_phase cfg old new c bs" and s: "cs_state c = CS_ID_ACC" and t: "told_apart old new" and u: "used buf 0 c"
    and b: "buf \<noteq> []" "take (length buf) bs = buf"
  shows "stepped cfg old new (next_chunk c) buf bs (state_step cfg False al ext load c)"
proof -
  obtain m ms off where e: "expects cfg old new c (m # ms)" "in_head m off c" "bs = drop off (msg_head m) @ msg_data m @ msgs_bytes ms"
    using p s unfolding in_phase_def by auto
  have h: "off < length (msg_head m)" "sound_msg m" "curr_id c = msg_id m" "packet_buf_off c = off" "need_bytes c = length (msg_head m) - off"
    "total_need_bytes c = length (msg_head m)" "take off (packet_buf c) = take off (msg_head m)"
    using e(2) by (simp_all add: in_head_def)
  obtain c' n where a: "State_Acc cfg False al ext load c = Some c'" "n \<le> length buf" "buf \<noteq> [] \<longrightarrow> 0 < n" "used buf n c'"
    "next_chunk c' = next_chunk c" "in_phase cfg old new c' (drop n bs)"
    using State_Acc_ok[OF e(1) t h(1-6) _ u b(2) e(3), of al ext load] s h(7) by auto
  have "state_step cfg False al ext load c = Some c'" using a(1) by (simp add: state_step_def s)
  then show ?thesis using a b(1) unfolding stepped_def by (intro exI[of _ c'] exI[of _ n]) (simp add: used_def)
qed

lemma state_step_chunk:
  assumes p: "in_phase cfg old new c bs" and s: "cs_state c = CS_CHUNK" and u: "used buf 0 c"
    and b: "buf \<noteq> []" "take (length buf) bs = buf" "length buf < 2 ^ 31"
  shows "stepped cfg old new (next_chunk c) buf bs (state_step cfg False al ext load c)"
proof -
  obtain k i d r where c: "in_chunk cfg old new k i d r c" "r \<noteq> []" "k < nblocks old"
    "bs = r @ msgs_bytes (upd_rest old new k (Suc i) @ answers old new (Suc k) (asked c))"
    using p s unfolding in_phase_def by auto
  let ?c = "State_Chunk cfg c" and ?x = "msgs_bytes (upd_rest old new k (Suc i) @ answers old new (Suc k) (asked c))"
  have st: "state_step cfg False al ext load c = Some ?c" by (simp add: state_step_def s)
  have pr: "take (length buf) r = take (length r) buf" using b(2) unfolding c(4) by (rule prefix_take)
  from State_Chunk_runs[OF c(1) s c(2) u b(1,3) pr] show ?thesis
  proof (elim disjE conjE)
    assume a: "length buf < length r" "in_chunk cfg old new k i (d @ buf) (drop (length buf) r) ?c" "cs_state ?c = CS_CHUNK" "used buf (length buf) ?c"
    have "in_phase cfg old new ?c (drop (length buf) r @ ?x)" unfolding in_phase_def a(3) chunked_state.case
      by (intro exI[of _ k] exI[of _ i] exI[of _ "d @ buf"] exI[of _ "drop (length buf) r"]) (use a(1,2) c(3) in \<open>simp add: State_Chunk_next\<close>)
    then show ?thesis unfolding st stepped_def using a(1,4) b(1) c(4) by (intro exI[of _ ?c] exI[of _ "length buf"]) (simp add: used_def State_Chunk_next)
  next
    assume a: "length r \<le> length buf" "in_updates cfg old new k (Suc i) ?c" "cs_state ?c = CS_ID_FIRST" "used buf (length r) ?c"
    have "in_phase cfg old new ?c ?x" using phase_in_updates[OF a(2) c(3) a(3)] by (simp add: State_Chunk_next)
    then show ?thesis unfolding st stepped_def using a(1,4) c(2,4) by (intro exI[of _ ?c] exI[of _ "length r"]) (simp add: used_def State_Chunk_next)
  qed
qed

lemma state_step_block:
  assumes p: "in_phase cfg old new c bs" and s: "cs_state c = CS_BLOCK" and u: "used buf 0 c"
    and b: "buf \<noteq> []" "take (length buf) bs = buf" "length buf < 2 ^ 31"
  shows "stepped cfg old new (next_chunk c) buf bs (state_step cfg False al ext load c)"
proof -
  obtain k d r where c: "in_whole cfg old new k d r c" "r \<noteq> []"
    "bs = r @ msgs_bytes (Hash (blockdist * k) (md5_of (new_block new k)) # answers old new (Suc k) (asked c))"
    using p s unfolding in_phase_def by auto
  let ?ms = "Hash (blockdist * k) (md5_of (new_block new k)) # answers old new (Suc k) (asked c)"
  have pr: "take (length buf) r = take (length r) buf" using b(2) unfolding c(3) by (rule prefix_take)
  obtain c' where st: "State_Block cfg c = Some c'" "next_chunk c' = next_chunk c" and r:
    "(length buf < length r \<and> in_whole cfg old new k (d @ buf) (drop (length buf) r) c' \<and> cs_state c' = CS_BLOCK \<and> used buf (length buf) c') \<or>
     (length r \<le> length buf \<and> whole_done cfg old new k c' \<and> cs_state c' = CS_ID_FIRST \<and> used buf (length r) c')"
    using State_Block_runs[OF c(1) s c(2) u b(1,3) pr] by blast
  have ss: "state_step cfg False al ext load c = Some c'" using st(1) by (simp add: state_step_def s)
  from r show ?thesis
  proof (elim disjE conjE)
    assume a: "length buf < length r" "in_whole cfg old new k (d @ buf) (drop (length buf) r) c'" "cs_state c' = CS_BLOCK" "used buf (length buf) c'"
    have "in_phase cfg old new c' (drop (length buf) r @ msgs_bytes ?ms)" unfolding in_phase_def a(3) chunked_state.case
      by (intro exI[of _ k] exI[of _ "d @ buf"] exI[of _ "drop (length buf) r"]) (use a(1,2) st(2) in simp)
    then show ?thesis unfolding ss stepped_def using a(1,4) b(1) c(3) st(2) by (intro exI[of _ c'] exI[of _ "length buf"]) (simp add: used_def State_Chunk_next)
  next
    assume a: "length r \<le> length buf" "whole_done cfg old new k c'" "cs_state c' = CS_ID_FIRST" "used buf (length r) c'"
    have "expects cfg old new c' ?ms" using a(2) st(2) unfolding expects_def by auto
    then have "in_phase cfg old new c' (msgs_bytes ?ms)" using a(3) unfolding in_phase_def by (auto simp del: msgs_bytes_simps)
    then show ?thesis unfolding ss stepped_def using a(1,4) c(2,3) st(2) by (intro exI[of _ c'] exI[of _ "length r"]) (simp add: used_def State_Chunk_next)
  qed
qed

lemma state_step_ok:
  assumes "in_phase cfg old new c bs" "told_apart old new" "used buf 0 c" "buf \<noteq> []" "take (length buf) bs = buf" "length buf < 2 ^ 31"
  shows "stepped cfg old new (next_chunk c) buf bs (state_step cfg False al ext load c)"
proof (cases "cs_state c")
  case CS_ID_FIRST
  show ?thesis by (rule state_step_first[OF assms(1) CS_ID_FIRST assms(2-5)])
next
  case CS_ID_ACC
  show ?thesis by (rule state_step_acc[OF assms(1) CS_ID_ACC assms(2-5)])
next
  case CS_BLOCK
  show ?thesis by (rule state_step_block[OF assms(1) CS_BLOCK assms(3-6)])
next
  case CS_CHUNK
  show ?thesis by (rule state_step_chunk[OF assms(1) CS_CHUNK assms(3-6)])
next
  case CS_SPARSE_EXTENTS
  then show ?thesis using assms(1) by (simp add: in_phase_def)
qed

section \<open>A piece of the data\<close>

lemma msgs_bytes_none: "msgs_bytes ms = [] \<longleftrightarrow> ms = []"
  by (cases ms) (simp_all add: msg_bytes_parts)

lemma answer_some: "answer old new k \<noteq> []"
  by (auto simp: answer_def whole_answer_def block_answer_def Let_def)

lemma answers_none: "answers old new k l = [] \<Longrightarrow> l \<le> k"
  using answers_Cons[of k l old new] answer_some[of old new k] by (cases "k < l") auto

lemma expects_none: "expects cfg old new c [] \<Longrightarrow> at_block cfg old new (asked c) c"
  unfolding expects_def
proof (elim disjE exE conjE)
  fix k assume a: "at_block cfg old new k c" "[] = answers old new k (asked c)"
  then have "k = asked c" using answers_none[OF a(2)[symmetric]] base_asked[OF at_block_base[OF a(1)]] by simp
  then show ?thesis using a(1) by simp
qed (simp_all add: upd_rest_def)

text \<open>Nothing is to come: all that was asked for has been received.\<close>

lemma in_phase_none: "in_phase cfg old new c [] \<Longrightarrow> at_block cfg old new (asked c) c"
proof -
  assume p: "in_phase cfg old new c []"
  show ?thesis
  proof (cases "cs_state c")
    case CS_ID_FIRST
    obtain ms where "expects cfg old new c ms" "[] = msgs_bytes ms" using p unfolding in_phase_def CS_ID_FIRST chunked_state.case by blast
    then show ?thesis using expects_none msgs_bytes_none[of ms] by metis
  next
    case CS_ID_ACC
    obtain m ms off where h: "in_head m off c" "[] = drop off (msg_head m) @ msg_data m @ msgs_bytes ms"
      using p unfolding in_phase_def CS_ID_ACC chunked_state.case by blast
    have "drop off (msg_head m) \<noteq> []" using h(1) by (simp add: in_head_def)
    then show ?thesis using h(2) by blast
  next
    case CS_BLOCK
    have False using p unfolding in_phase_def CS_BLOCK chunked_state.case by blast
    then show ?thesis ..
  next
    case CS_CHUNK
    have False using p unfolding in_phase_def CS_CHUNK chunked_state.case by blast
    then show ?thesis ..
  next
    case CS_SPARSE_EXTENTS
    then show ?thesis using p by (simp add: in_phase_def)
  qed
qed

lemma pending_none: "pending_from old k c \<Longrightarrow> pending_chunks c = [] \<Longrightarrow> k = asked c \<and> next_chunk c = int k"
  by (auto simp: pending_from_def)

lemma at_block_all: "at_block cfg old new (nblocks new) c \<Longrightarrow> all_received c"
proof -
  assume a: "at_block cfg old new (nblocks new) c"
  then have s: "size_known new c" "new \<noteq> []" "pending_from old (nblocks new) c" by (simp_all add: at_block_def client_base_def)
  have n: "asked c = nblocks new" using base_asked[OF at_block_base[OF a]] by simp
  have "0 \<le> next_chunk c" "pending_chunks c = []" using s(3) unfolding pending_from_def n by simp_all
  then show ?thesis using n s(1,2) unfolding all_received_def size_known_def by simp
qed

lemma expects_all:
  assumes "expects cfg old new c ms" "all_received c"
  shows "at_block cfg old new (nblocks new) c \<and> ms = []"
  using assms(1) unfolding expects_def
proof (elim disjE exE conjE)
  fix k assume a: "at_start cfg old new k c"
  then have p: "pending_from old k c" "k < nblocks new" by (auto simp: at_start_def client_base_def)
  have "size_known new c" using a assms(2) by (auto simp: at_start_def all_received_def)
  then have "nblocks new \<le> asked c" using assms(2) by (auto simp: all_received_def size_known_def)
  then show ?thesis using pending_none[OF p(1)] p(2) assms(2) by (auto simp: all_received_def)
next
  fix k assume a: "at_block cfg old new k c" "ms = answers old new k (asked c)"
  then have p: "pending_from old k c" "size_known new c" by (auto simp: at_block_def client_base_def)
  have al: "pending_chunks c = []" "num_total_chunks c \<le> next_chunk c" using assms(2) by (simp_all add: all_received_def)
  have pn: "k = asked c" "next_chunk c = int k" using pending_none[OF p(1) al(1)] by blast+
  have nt: "num_total_chunks c = int (nblocks new)" using p(2) by (simp only: size_known_def)
  have "nblocks new \<le> k" using al(2) unfolding pn(2) nt by (simp only: of_nat_le_iff)
  moreover have "k \<le> nblocks new" using base_asked[OF at_block_base[OF a(1)]] unfolding pn(1)[symmetric] by blast
  ultimately have e: "k = nblocks new" "asked c = nblocks new" using pn(1) by (simp_all only: order_antisym_conv)
  show ?thesis using a unfolding e by simp
next
  fix k i assume w: "in_updates cfg old new k i c"
  have p: "pending_from old k c" "k < asked c" using block_base(1)[OF w] base_pending by blast+
  then show ?thesis using pending_none[OF p(1)] assms(2) by (simp add: all_received_def)
next
  fix k assume w: "whole_done cfg old new k c"
  have p: "pending_from old k c" "k < asked c" using block_base(2)[OF w] base_pending by blast+
  then show ?thesis using pending_none[OF p(1)] assms(2) by (simp add: all_received_def)
qed

lemma in_phase_all:
  assumes p: "in_phase cfg old new c bs" and a: "all_received c"
  shows "at_block cfg old new (nblocks new) c \<and> bs = []"
proof (cases "cs_state c")
  case CS_ID_FIRST
  obtain ms where "expects cfg old new c ms" "bs = msgs_bytes ms" using p unfolding in_phase_def CS_ID_FIRST chunked_state.case by blast
  then show ?thesis using expects_all[OF _ a, of cfg old new ms] by simp
next
  case CS_ID_ACC
  obtain m ms where "expects cfg old new c (m # ms)" using p unfolding in_phase_def CS_ID_ACC chunked_state.case by blast
  then show ?thesis using expects_all[OF _ a, of cfg old new "m # ms"] by simp
next
  case CS_BLOCK
  obtain k d r where w: "in_whole cfg old new k d r c" using p unfolding in_phase_def CS_BLOCK chunked_state.case by blast
  have q: "pending_from old k c" "k < asked c" using block_base(4)[OF w] base_pending by blast+
  then show ?thesis using pending_none[OF q(1)] a by (simp add: all_received_def)
next
  case CS_CHUNK
  obtain k i d r where w: "in_chunk cfg old new k i d r c" using p unfolding in_phase_def CS_CHUNK chunked_state.case by blast
  have q: "pending_from old k c" "k < asked c" using block_base(3)[OF w] base_pending by blast+
  then show ?thesis using pending_none[OF q(1)] a by (simp add: all_received_def)
next
  case CS_SPARSE_EXTENTS
  then show ?thesis using p by (simp add: in_phase_def)
qed

lemma expects_base: "expects cfg old new c ms \<Longrightarrow> \<exists>k. client_base cfg old new k c"
  unfolding expects_def at_start_def at_block_def using block_base by blast

lemma in_phase_base: "in_phase cfg old new c bs \<Longrightarrow> \<exists>k. client_base cfg old new k c"
proof (cases "cs_state c")
  case CS_ID_FIRST
  show "in_phase cfg old new c bs \<Longrightarrow> ?thesis" unfolding in_phase_def CS_ID_FIRST chunked_state.case using expects_base by blast
next
  case CS_ID_ACC
  show "in_phase cfg old new c bs \<Longrightarrow> ?thesis" unfolding in_phase_def CS_ID_ACC chunked_state.case using expects_base by blast
next
  case CS_BLOCK
  show "in_phase cfg old new c bs \<Longrightarrow> ?thesis" unfolding in_phase_def CS_BLOCK chunked_state.case using block_base(4) by blast
next
  case CS_CHUNK
  show "in_phase cfg old new c bs \<Longrightarrow> ?thesis" unfolding in_phase_def CS_CHUNK chunked_state.case using block_base(3) by blast
next
  case CS_SPARSE_EXTENTS
  show "in_phase cfg old new c bs \<Longrightarrow> ?thesis" unfolding in_phase_def CS_SPARSE_EXTENTS chunked_state.case by blast
qed

definition received :: "client_config \<Rightarrow> byte list \<Rightarrow> byte list \<Rightarrow> int \<Rightarrow> byte list \<Rightarrow> byte list \<Rightarrow> (u32 \<times> chunk_client) option \<Rightarrow> bool" where
  "received cfg old new nx buf bs r \<longleftrightarrow>
     (\<exists>rc c'. r = Some (rc, c') \<and> next_chunk c' = nx \<and>
        (rc = ERR_CONTINUE \<and> in_phase cfg old new c' (drop (length buf) bs) \<and> (buf = [] \<or> \<not> all_received c') \<or>
         rc = ERR_SUCCESS \<and> buf = bs \<and> at_block cfg old new (nblocks new) c'))"

lemma fc_run_handle:
  "bufptr c \<noteq> [] \<Longrightarrow> fc_run cfg (Handle ig al ext) c =
     Option.bind (state_step cfg ig al ext (\<lambda>pos. start_load cfg (fc_run cfg (Load pos)) pos) (c\<lparr>bufptr_bytes_done := 0\<rparr>))
       (\<lambda>c. case fst (after_state ig c) of
          Some err \<Rightarrow> Some (err, snd (after_state ig c))
        | None \<Rightarrow> fc_run cfg (Handle ig al ext) (snd (after_state ig c)))"
  by (subst fc_run.simps) simp

lemma fc_run_empty: "bufptr c = [] \<Longrightarrow> fc_run cfg (Handle ig al ext) c = Some (ERR_CONTINUE, c)"
  by (subst fc_run.simps) simp

lemma at_block_ptr: "at_block cfg old new k c \<Longrightarrow> at_block cfg old new k (c\<lparr>bufptr := b\<rparr>)"
proof -
  have f: "client_base cfg old new k (c\<lparr>bufptr := b\<rparr>) = client_base cfg old new k c" "size_known new (c\<lparr>bufptr := b\<rparr>) = size_known new c"
    "hashes_fit new Q (c\<lparr>bufptr := b\<rparr>) = hashes_fit new Q c" "patch_rep fs items cur (c\<lparr>bufptr := b\<rparr>) = patch_rep fs items cur c"
    "patch_buf (c\<lparr>bufptr := b\<rparr>) = patch_buf c" "block_for_chunk_start (c\<lparr>bufptr := b\<rparr>) = block_for_chunk_start c" for Q fs items cur
    by (simp_all add: client_base_def size_known_def hashes_fit_def ho_all_def pending_from_def patch_rep_def)
  show "at_block cfg old new k c \<Longrightarrow> ?thesis" unfolding at_block_def f .
qed

lemma fc_run_ok:
  assumes "in_phase cfg old new c bs" "told_apart old new" "bufptr c = buf" "remaining_bufptr_bytes c = length buf" "take (length buf) bs = buf"
    "length buf < 2 ^ 31"
  shows "received cfg old new (next_chunk c) buf bs (fc_run cfg (Handle False al ext) c)"
  using assms
proof (induction "length buf" arbitrary: buf bs c rule: less_induct)
  case less
  show ?case
  proof (cases "buf = []")
    case True
    then show ?thesis using less.prems(1,3) fc_run_empty[of c cfg False al ext] by (simp add: received_def)
  next
    case False
    let ?c = "c\<lparr>bufptr_bytes_done := 0\<rparr>" and ?load = "\<lambda>pos. start_load cfg (fc_run cfg (Load pos)) pos"
    have ce: "?c = c\<lparr>bufptr := buf, remaining_bufptr_bytes := length buf, bufptr_bytes_done := 0\<rparr>" using less.prems(3,4) by simp
    have p: "in_phase cfg old new ?c bs" unfolding ce by (rule in_phase_ptr[OF less.prems(1)])
    have u: "used buf 0 ?c" using less.prems(3,4) by (simp add: used_def)
    have nc: "next_chunk ?c = next_chunk c" by simp
    obtain c' n where s: "state_step cfg False al ext ?load ?c = Some c'" "0 < n" "n \<le> length buf"
      "drop (bufptr_bytes_done c') (bufptr c') = drop n buf" "remaining_bufptr_bytes c' = length buf - n" "in_phase cfg old new c' (drop n bs)" "next_chunk c' = next_chunk c"
      using state_step_ok[OF p less.prems(2) u False less.prems(5,6), of al ext ?load] unfolding stepped_def nc by blast
    have gd: "\<not> getfile_done c'" "\<not> reconnected c'" using in_phase_base[OF s(6)] by (auto simp: client_base_def)
    let ?d = "c'\<lparr>bufptr := drop n buf\<rparr>"
    have al: "all_received (c'\<lparr>bufptr := x\<rparr>) = all_received c'" for x by (simp add: all_received_def)
    have bl: "length buf \<le> length bs" using less.prems(5) by (metis length_take min.cobounded1)
    show ?thesis
    proof (cases "all_received c'")
      case True
      have a: "at_block cfg old new (nblocks new) c'" "drop n bs = []" using in_phase_all[OF s(6) True] by simp_all
      have n: "n = length buf" "length bs = length buf" using a(2) s(3) bl by simp_all
      have bb: "buf = bs" using less.prems(5) n(2) by simp
      have "after_state False c' = (Some ERR_SUCCESS, ?d)"
        using True gd s(4,5) n(1) by (simp add: after_state_def Let_def al)
      then have "fc_run cfg (Handle False al ext) c = Some (ERR_SUCCESS, ?d)"
        using fc_run_handle[of c cfg False al ext] s(1) less.prems(3) False by simp
      then show ?thesis using at_block_ptr[OF a(1), of "drop n buf"] bb s(7) by (simp add: received_def)
    next
      case False
      have "after_state False c' = (None, ?d)"
        using False gd s(4,5) by (simp add: after_state_def Let_def al)
      then have r: "fc_run cfg (Handle False al ext) c = fc_run cfg (Handle False al ext) ?d"
        using fc_run_handle[of c cfg False al ext] s(1) less.prems(3) \<open>buf \<noteq> []\<close> by simp
      have de: "?d = c'\<lparr>bufptr := drop n buf, remaining_bufptr_bytes := length buf - n, bufptr_bytes_done := bufptr_bytes_done c'\<rparr>" using s(5) by simp
      have pd: "in_phase cfg old new ?d (drop n bs)" by (subst de) (rule in_phase_ptr[OF s(6)])
      have tk: "take (length (drop n buf)) (drop n bs) = drop n buf" using less.prems(5) by (metis drop_take length_drop)
      have nd: "next_chunk ?d = next_chunk c" using s(7) by simp
      have "received cfg old new (next_chunk ?d) (drop n buf) (drop n bs) (fc_run cfg (Handle False al ext) ?d)"
        by (rule less.hyps) (use s(2,3,5) less.prems(2,6) pd tk in simp_all)
      then obtain rc e where e: "fc_run cfg (Handle False al ext) ?d = Some (rc, e)" "next_chunk e = next_chunk c"
        "rc = ERR_CONTINUE \<and> in_phase cfg old new e (drop (length (drop n buf)) (drop n bs)) \<and> (drop n buf = [] \<or> \<not> all_received e) \<or>
         rc = ERR_SUCCESS \<and> drop n buf = drop n bs \<and> at_block cfg old new (nblocks new) e"
        unfolding received_def nd by blast
      have dl: "drop (length (drop n buf)) (drop n bs) = drop (length buf) bs" using s(3) by simp
      have "take n bs = take n buf" using less.prems(5) s(3) by (metis min.absorb1 take_take)
      then have bb: "drop n buf = drop n bs \<Longrightarrow> buf = bs" by (metis append_take_drop_id)
      have "drop n buf = [] \<Longrightarrow> fc_run cfg (Handle False al ext) ?d = Some (ERR_CONTINUE, ?d)" by (rule fc_run_empty) simp
      then have "drop n buf = [] \<Longrightarrow> e = ?d" using e(1) by simp
      then have "drop n buf = [] \<Longrightarrow> \<not> all_received e" using False al by simp
      then show ?thesis unfolding r received_def using e bb unfolding dl by blast
    qed
  qed
qed

text \<open>\<open>handle_data\<close> on a part of what is to come.\<close>

lemma handle_data_ok:
  assumes p: "in_phase cfg old new (c\<lparr>reconnected := False\<rparr>) (buf @ bs)" and t: "told_apart old new" and l: "length buf < 2 ^ 31"
  shows "received cfg old new (next_chunk c) buf (buf @ bs) (handle_data cfg False al ext buf c)"
proof -
  have e: "start_handle buf c = (c\<lparr>reconnected := False\<rparr>)\<lparr>bufptr := buf, remaining_bufptr_bytes := length buf, bufptr_bytes_done := bufptr_bytes_done c\<rparr>"
    by (simp add: start_handle_def)
  have "in_phase cfg old new (start_handle buf c) (buf @ bs)" unfolding e by (rule in_phase_ptr[OF p])
  then have "received cfg old new (next_chunk (start_handle buf c)) buf (buf @ bs) (fc_run cfg (Handle False al ext) (start_handle buf c))"
    by (rule fc_run_ok[OF _ t]) (use l in \<open>simp_all add: start_handle_def\<close>)
  then show ?thesis by (simp add: handle_data_def start_handle_def)
qed

end
