(* ===== verification/Client_Checksums.thy ===== *)
theory Client_Checksums
  imports Client_Phase
begin

text \<open>
  When the client's answer leads to the new block: it is enough that the checksums tell the pieces of the old file from the ones of the new file
  at the same places.
\<close>

text \<open>
  No piece of the new file has the checksum of the piece of the old file at the same place and other bytes. A piece that is shorter than
  the old one is compared to the front of it, as the client reports it as changed only when the checksum differs.
\<close>

definition checksums_tell :: "byte list \<Rightarrow> byte list \<Rightarrow> bool" where
  "checksums_tell old new \<longleftrightarrow>
     (\<forall>k < nblocks old. \<forall>i < 128. let b = piece_of (new_block old k) i; c = piece_of (new_block new k) i in
        length c \<le> length b \<longrightarrow> adler32_of c = adler32_of b \<longrightarrow> c = take (length c) b)"

lemma stored_small_hash:
  assumes k: "k < nblocks old" and i: "4096 * i < length (new_block old k)"
  shows "small_hash_at i (small_hashes old k) = adler32_of (piece_of (new_block old k) i)"
proof -
  let ?b = "new_block old k" let ?cs = "chunks_of 4096 ?b"
  have n: "i < length ?cs" using i by (simp add: length_chunks_of)
  have s: "small_hashes old k = concat (map (\<lambda>c. mem_of False 4 (adler32_of c)) ?cs) @ replicate (528 - length (chunk_hash False ?b)) 0"
    using k by (simp add: stored_hashes_def Let_def chunk_hash_def length_md5_of)
  have t: "take 4 (drop (4 * i) (small_hashes old k)) = mem_of False 4 (adler32_of (?cs ! i))"
    using take_drop_words[OF n, of False adler32_of] n unfolding s by (simp add: length_concat_words)
  have "?cs ! i = (map (\<lambda>k. take 4096 (drop (4096 * k) ?b)) [0..<length ?cs]) ! i"
    using chunks_of_map[of 4096 ?b] by (metis zero_less_numeral)
  then have "?cs ! i = piece_of ?b i" using n by (simp add: piece_of_def)
  then show ?thesis unfolding small_hash_at_def t by (simp add: mem_of_def le_word_le_bytes)
qed

lemma told_piece:
  assumes t: "checksums_tell old new" and k: "k < nblocks old" and i: "i < 128"
    and d: "\<not> piece_differs (length old) (small_hashes old k) (blockdist * k + 4096 * i) i (piece_of (new_block new k) i)"
  shows "old_part old (blockdist * k + 4096 * i) (blockdist * k + 4096 * i + length (piece_of (new_block new k) i)) = piece_of (new_block new k) i"
proof (cases "piece_of (new_block new k) i = []")
  case False
  let ?c = "piece_of (new_block new k) i" and ?b = "new_block old k" and ?p = "blockdist * k"
  have e: "adler32_of ?c = small_hash_at i (small_hashes old k)" "?p + 4096 * i + length ?c \<le> length old"
    using d by (auto simp: piece_differs_def)
  have lc: "0 < length ?c" "length ?c \<le> 4096" "4096 * i + length ?c \<le> blockdist"
    using False new_block_le[of new k] by (auto simp: piece_of_def c_checkpoint_dist_def)
  have lb: "4096 * i + length ?c \<le> length ?b" using e(2) lc(3) by (simp add: block_bytes_length)
  have "length ?c \<le> length (piece_of ?b i)" using lb lc(2) by (simp add: piece_of_def)
  moreover have "adler32_of ?c = adler32_of (piece_of ?b i)" using e(1) stored_small_hash[OF k, of i] lb lc(1) by simp
  ultimately have "?c = take (length ?c) (piece_of ?b i)" using t k i unfolding checksums_tell_def Let_def by blast
  also have "\<dots> = take (length ?c) (drop (?p + 4096 * i) old)"
    using lc by (simp add: piece_of_def block_bytes_def drop_take min_def add.commute)
  finally show ?thesis by (simp add: old_part_def)
qed simp

lemma rebuilt_told:
  assumes t: "checksums_tell old new" and k: "k < nblocks old"
  shows "w @ old_part old (blockdist * k + length w) (blockdist * k + min (4096 * i) (length (new_block new k))) = take (4096 * i) (new_block new k) \<Longrightarrow>
    length w \<le> min (4096 * i) (length (new_block new k)) \<Longrightarrow> rebuilt_from old new k i w = new_block new k"
proof (induction "128 - i" arbitrary: i w rule: less_induct)
  case less
  let ?b = "new_block new k" and ?p = "blockdist * k"
  show ?case
  proof (cases "all_passed new k i")
    case True
    then have "length ?b \<le> 4096 * i" using new_block_le[of new k] by (auto simp: all_passed_def)
    then show ?thesis using rebuilt_end[OF True, of old w] less.prems(1) by (simp add: min_def split: if_splits)
  next
    case False
    let ?c = "piece_of ?b i"
    have i: "i < 128" "4096 * i \<le> length ?b" using False by (auto simp: all_passed_def)
    have e: "min (4096 * i) (length ?b) = 4096 * i" "min (4096 * Suc i) (length ?b) = 4096 * i + length ?c"
      using i by (simp_all add: piece_of_def)
    have tk: "take (4096 * i) ?b @ ?c = take (4096 * Suc i) ?b"
      using take_add[of "4096 * i" 4096 ?b] by (simp add: piece_of_def add.commute)
    have lt: "128 - Suc i < 128 - i" using i(1) by simp
    have w: "w @ old_part old (?p + length w) (?p + 4096 * i) = take (4096 * i) ?b" "length w \<le> 4096 * i" using less.prems e(1) by simp_all
    show ?thesis
    proof (cases "piece_differs (length old) (small_hashes old k) (?p + 4096 * i) i ?c")
      case True
      let ?w = "w @ old_part old (?p + length w) (?p + 4096 * i) @ ?c"
      have q: "?w = take (4096 * Suc i) ?b" using w(1) tk by (metis append.assoc)
      then have "length ?w = min (4096 * Suc i) (length ?b)" unfolding q by (simp only: length_take min.commute)
      then have "rebuilt_from old new k (Suc i) ?w = ?b" using q by (intro less.hyps[OF lt]) simp_all
      then show ?thesis using update_next(2)[OF False True] by simp
    next
      case nd: False
      have "caught_up old new k (?p + 4096 * i) i" using i by (simp add: caught_up_def)
      note s = piece_skipped(4)[OF i nd this, of w]
      have "w @ old_part old (?p + length w) (?p + min (4096 * Suc i) (length ?b)) = take (4096 * Suc i) ?b"
        unfolding e(2) tk[symmetric] w(1)[symmetric]
        using old_part_append[of "?p + length w" "?p + 4096 * i" "?p + 4096 * i + length ?c" old] told_piece[OF t k i(1) nd] w(2)
        by (simp add: add.assoc)
      moreover have "length w \<le> min (4096 * Suc i) (length ?b)" using w(2) e(2) by simp
      ultimately have "rebuilt_from old new k (Suc i) w = ?b" by (rule less.hyps[OF lt])
      then show ?thesis using s by simp
    qed
  qed
qed

lemma checksums_told: "checksums_tell old new \<Longrightarrow> told_apart old new"
  unfolding told_apart_def rebuilt_def using rebuilt_told[of old new _ "[]" 0] by simp

end
