(* ===== verification/Patch_File.thy ===== *)
theory Patch_File
  imports Patch_Run
begin

text \<open>
  Writing the patched file: \<open>BackupServerHash\<close> of \<open>idrivebmrserver/server_hash.cpp\<close> as the callback of its patcher, and
  \<open>patchFile\<close> after its files have been opened. With a reflink the destination starts as the old file and only what has changed is
  written, without one it starts empty and everything is written.
\<close>

section \<open>The callback\<close>

record file_patch =
  chunk_output_fn :: File
  chunk_patch_pos :: nat
  has_reflink :: bool
  cow_filesize :: nat
  chunk_patcher_has_error :: bool

definition patch_file_bytes ::
  "(nat \<Rightarrow> bool) \<Rightarrow> byte list option \<Rightarrow> nat \<Rightarrow> bool \<Rightarrow> bool option \<Rightarrow> file_patch \<Rightarrow> bool option \<times> file_patch" where
  "patch_file_bytes free_space buf bsize changed is_sparse fp =
     (let fp =
            (if \<not> has_reflink fp \<or> changed then
               case buf of
                 None \<Rightarrow> fp
               | Some d \<Rightarrow>
                   let (sought, f) = File_Seek (int (chunk_patch_pos fp)) (chunk_output_fn fp);
                       (b, f) = write_free_space (Some free_space) f d
                   in fp\<lparr>chunk_output_fn := f,
                         chunk_patcher_has_error := (chunk_patcher_has_error fp \<or> \<not> sought \<or> \<not> b)\<rparr>
             else fp);
          fp = fp\<lparr>chunk_patch_pos := chunk_patch_pos fp + bsize\<rparr>;
          fp = (if has_reflink fp \<and> changed then fp\<lparr>cow_filesize := cow_filesize fp + bsize\<rparr> else fp)
      in (is_sparse, fp))"

definition file_callback :: "(nat \<Rightarrow> bool) \<Rightarrow> file_patch patch_callback" where
  "file_callback free_space =
     \<lparr>next_chunk_patcher_bytes = patch_file_bytes free_space, next_sparse_extent_bytes = (\<lambda>_ fp. fp),
      chunk_patcher_pos = (\<lambda>fp. int (chunk_patch_pos fp))\<rparr>"

section \<open>Holes in the destination\<close>

function zero_part :: "(nat \<Rightarrow> bool) \<Rightarrow> int \<Rightarrow> int \<Rightarrow> File \<Rightarrow> bool \<times> File" where
  "zero_part free_space k sz tf =
     (if k < sz then
        let towrite = min (sz - k) 32768; (b, tf) = write_free_space (Some free_space) tf (replicate (nat towrite) 0)
        in if b then zero_part free_space (k + towrite) sz tf else (False, tf)
      else (True, tf))"
  by pat_completeness auto

termination zero_part
  by (relation "measure (\<lambda>(free_space, k, sz, tf). nat (sz - k))") auto

declare zero_part.simps [simp del]

definition punchHoleOrZero :: "(nat \<Rightarrow> bool) \<Rightarrow> File \<Rightarrow> int \<Rightarrow> int \<Rightarrow> bool \<times> File" where
  "punchHoleOrZero free_space tf off sz =
     (let (punched, tf) = File_PunchHole off sz tf
      in if \<not> punched then
           let (sought, tf) = File_Seek off tf in if sought then zero_part free_space 0 sz tf else (False, tf)
         else (True, tf))"

text \<open>\<open>while (sparse_extent.offset != -1)\<close>: the object, the size of the destination and whether it must be resized.\<close>

partial_function (option) punch_extents ::
  "bool \<Rightarrow> (nat \<Rightarrow> bool) \<Rightarrow> (int \<times> int) option \<Rightarrow> ExtentIterator \<Rightarrow> file_patch \<Rightarrow> int \<Rightarrow> bool \<Rightarrow> (file_patch \<times> int \<times> bool) option" where
  "punch_extents be free_space ext it fp dstfsize sparse_resize =
     (case ext of
        None \<Rightarrow> Some (fp, dstfsize, sparse_resize)
      | Some (off, sz) \<Rightarrow>
          let (b, f) = punchHoleOrZero free_space (chunk_output_fn fp) off sz;
              fp = fp\<lparr>chunk_output_fn := f, chunk_patcher_has_error := (chunk_patcher_has_error fp \<or> \<not> b)\<rparr>;
              (ext, it) = iter_nextExtent be it
          in if dstfsize < off + sz then punch_extents be free_space ext it fp (off + sz) True
             else punch_extents be free_space ext it fp dstfsize sparse_resize)"

definition punch_all ::
  "bool \<Rightarrow> (nat \<Rightarrow> bool) \<Rightarrow> ExtentIterator option \<Rightarrow> file_patch \<Rightarrow> int \<Rightarrow> (file_patch \<times> int \<times> bool) option" where
  "punch_all be free_space it fp dstfsize =
     (case it of
        None \<Rightarrow> Some (fp, dstfsize, False)
      | Some it \<Rightarrow> let (ext, it) = iter_nextExtent be (reset_extents it) in punch_extents be free_space ext it fp dstfsize False)"

section \<open>The whole file\<close>

text \<open>After the patch has been applied; \<open>os_file_truncate\<close> resizes the file.\<close>

definition finish_patch :: "int \<Rightarrow> int \<Rightarrow> int \<Rightarrow> File \<Rightarrow> (patch_error + File) option" where
  "finish_patch patched_size tfilesize dstfsize f =
     (if patched_size \<noteq> tfilesize then Some (Inl Assertion_Failed)
      else if patched_size < dstfsize then
        let (b, f) = File_Resize patched_size f in Some (if b then Inr f else Inl Write_Error)
      else if dstfsize \<noteq> tfilesize then Some (Inl Assertion_Failed) else Some (Inr f))"

definition patchFile ::
  "bool \<Rightarrow> (nat \<Rightarrow> bool) \<Rightarrow> bool \<Rightarrow> File \<Rightarrow> File \<Rightarrow> File \<Rightarrow> int \<Rightarrow> ExtentIterator option \<Rightarrow> file_patch patcher \<Rightarrow>
   (patch_error + File) option" where
  "patchFile be free_space reflink dst f_source patch tfilesize it pt =
     (let fp = \<lparr>chunk_output_fn = dst, chunk_patch_pos = 0, has_reflink = reflink, cow_filesize = 0, chunk_patcher_has_error = False\<rparr>
      in and_then
           (ApplyPatch f_source patch it
              (pt\<lparr>cb := file_callback free_space, cbs := fp, host_be := be, require_unchanged := \<not> reflink\<rparr>))
           (\<lambda>st.
             let fp = cbs st; (dstfsize, f) = File_Size (chunk_output_fn fp); fp = fp\<lparr>chunk_output_fn := f\<rparr>
             in Option.bind (punch_all be free_space it fp dstfsize) (\<lambda>(fp, dstfsize, sparse_resize).
                  let (b, f) = (if sparse_resize then File_Resize dstfsize (chunk_output_fn fp) else (True, chunk_output_fn fp))
                  in if \<not> b \<or> chunk_patcher_has_error fp then Some (Inl Write_Error)
                     else finish_patch (filesize st) tfilesize dstfsize f)))"

section \<open>The destination follows the trace\<close>

definition file_told :: "byte list \<Rightarrow> byte list \<Rightarrow> bool \<Rightarrow> patch_event list \<Rightarrow> file_patch \<Rightarrow> bool" where
  "file_told base old reflink tr fp \<longleftrightarrow> chunk_patch_pos fp = trace_size tr \<and> has_reflink fp = reflink \<and> \<not> chunk_patcher_has_error fp \<and>
     no_fault (chunk_output_fn fp) \<and> length (trace_bytes base tr) = trace_size tr \<and>
     fbytes (chunk_output_fn fp) = trace_bytes base tr @ drop (trace_size tr) old"

definition file_accepts :: "byte list \<Rightarrow> bool \<Rightarrow> patch_event list \<Rightarrow> patch_event \<Rightarrow> bool" where
  "file_accepts base reflink tr e =
     (case e of Data d \<Rightarrow> length d \<le> 2 ^ 32 | Kept n \<Rightarrow> reflink \<and> trace_size tr + n \<le> length base | Note s l \<Rightarrow> True | Zeros n \<Rightarrow> False)"

lemma overwrite_next: "length a = p \<Longrightarrow> overwrite (a @ drop p old) p d = (a @ d) @ drop (p + length d) old"
  by (simp add: overwrite_def add.commute)

lemma file_takes_data:
  assumes t: "file_told base old reflink tr fp" and d: "length d \<le> 2 ^ 32" "changed \<or> \<not> reflink"
  shows "file_told base old reflink (tr @ [Data d]) (snd (patch_file_bytes free_space (Some d) (length d) changed None fp))"
proof -
  define f where "f = chunk_output_fn fp"
  define p where "p = trace_size tr"
  have f: "no_fault f" "fbytes f = trace_bytes base tr @ drop p old" "length (trace_bytes base tr) = p" "chunk_patch_pos fp = p"
    using t by (simp_all add: file_told_def f_def p_def)
  define g where "g = next_op (f\<lparr>fpos := p\<rparr>)"
  have sk: "File_Seek (int p) f = (True, g)" using File_Seek_ok[OF f(1), of "int p"] by (simp add: g_def)
  have g: "no_fault g" "fbytes g = fbytes f" "fpos g = p" using f(1) no_fault_eq[of g f] by (simp_all add: g_def)
  define h where "h = next_op (g\<lparr>fbytes := overwrite (fbytes g) (fpos g) d, fpos := fpos g + length d\<rparr>)"
  have w: "write_free_space (Some free_space) g d = (True, h)"
    using File_Write_all[OF g(1) d(1)] by (simp add: write_free_space_def h_def)
  have h: "no_fault h" "fbytes h = (trace_bytes base tr @ d) @ drop (p + length d) old"
    using g no_fault_eq[of h g] f(2,3) overwrite_next by (simp_all add: h_def)
  have "\<not> has_reflink fp \<or> changed" using t d(2) by (auto simp: file_told_def)
  then show ?thesis
    using t h f(3,4) sk w by (simp add: patch_file_bytes_def file_told_def f_def[symmetric] p_def trace_bytes_def Let_def)
qed

lemma file_takes_kept:
  assumes t: "file_told base base True tr fp" and n: "trace_size tr + n \<le> length base"
  shows "file_told base base True (tr @ [Kept n]) (snd (patch_file_bytes free_space None n False (Some False) fp))"
proof -
  have l: "length (trace_bytes base tr) = trace_size tr" using t by (simp add: file_told_def)
  have "drop (trace_size tr) base = take n (drop (trace_size tr) base) @ drop (trace_size tr + n) base"
    using append_take_drop_id[of n "drop (trace_size tr) base"] by (simp add: add.commute)
  then show ?thesis
    using t n l by (simp add: patch_file_bytes_def file_told_def trace_bytes_def)
qed

lemma file_callback_simps [simp]:
  "next_chunk_patcher_bytes (file_callback free_space) = patch_file_bytes free_space"
  "next_sparse_extent_bytes (file_callback free_space) = (\<lambda>_ fp. fp)"
  "chunk_patcher_pos (file_callback free_space) = (\<lambda>fp. int (chunk_patch_pos fp))"
  by (simp_all add: file_callback_def)

lemma file_told_note: "file_told base old reflink tr fp \<Longrightarrow> file_told base old reflink (tr @ [Note s l]) fp"
  by (simp add: file_told_def trace_bytes_def)

lemma fst_patch_file_bytes: "fst (patch_file_bytes free_space buf n changed sp fp) = sp"
  by (simp add: patch_file_bytes_def Let_def)

interpretation reflinked: patch_sink be "file_callback free_space" "file_told base base True" True "file_accepts base True"
  for be free_space base
  by unfold_locales
    (simp_all add: file_accepts_def fst_patch_file_bytes file_takes_data file_takes_kept file_told_note, simp_all add: file_told_def)

interpretation rewritten: patch_sink be "file_callback free_space" "file_told base old False" False "file_accepts base False"
  for be free_space base old
  by unfold_locales
    (simp_all add: file_accepts_def fst_patch_file_bytes file_takes_data file_told_note, simp_all add: file_told_def)

section \<open>Property\<close>

lemma file_told_start:
  assumes "no_fault dst" "fbytes dst = old"
  shows "file_told base old reflink [] \<lparr>chunk_output_fn = dst, chunk_patch_pos = 0, has_reflink = reflink, cow_filesize = 0,
    chunk_patcher_has_error = False\<rparr>"
  using assms by (simp add: file_told_def trace_bytes_def)

lemma finish_patch_told:
  assumes t: "file_told base old reflink tr fp" and b: "trace_bytes base tr = tgt" and fs: "length tgt = fs"
    and sz: "File_Size (chunk_output_fn fp) = (n, f)"
  shows "\<exists>g. finish_patch (int fs) (int fs) n f = Some (Inr g) \<and> fbytes g = tgt"
proof -
  have nf: "no_fault (chunk_output_fn fp)" and fb: "fbytes (chunk_output_fn fp) = tgt @ drop fs old"
    using t b fs by (simp_all add: file_told_def)
  have f: "n = int (length (tgt @ drop fs old))" "fbytes f = tgt @ drop fs old" "no_fault f"
    using File_Size_ok[OF nf] sz nf fb no_fault_eq[of f "chunk_output_fn fp"] by auto
  obtain ok g where r: "File_Resize (int fs) f = (ok, g)" by fastforce
  obtain m where "os_outcome f = Some m" using no_fault_outcome[OF f(3)] by blast
  then have g: "ok" "fbytes g = take fs (tgt @ drop fs old) @ replicate (fs - length (tgt @ drop fs old)) 0"
    using r f(2) by (auto simp: File_Resize_def Let_def)
  show ?thesis
  proof (cases "int fs < n")
    case True
    then show ?thesis using r g fs by (intro exI[of _ g]) (simp add: finish_patch_def)
  next
    case False
    then have "n = int fs" "drop fs old = []" using f(1) fs by simp_all
    then show ?thesis using f(2) by (intro exI[of _ f]) (simp add: finish_patch_def)
  qed
qed

lemma patchFile_run:
  assumes run: "ApplyPatch f_source patch None (pt\<lparr>cb := file_callback free_space, cbs := \<lparr>chunk_output_fn = dst, chunk_patch_pos = 0,
      has_reflink = reflink, cow_filesize = 0, chunk_patcher_has_error = False\<rparr>, host_be := be, require_unchanged := \<not> reflink\<rparr>) = Some (Inr st)"
    and st: "filesize st = int fs" "file_told base old reflink tr (cbs st)" "trace_bytes base tr = tgt" "length tgt = fs"
  shows "\<exists>g. patchFile be free_space reflink dst f_source patch (int fs) None pt = Some (Inr g) \<and> fbytes g = tgt"
proof -
  obtain n f where sz: "File_Size (chunk_output_fn (cbs st)) = (n, f)" by fastforce
  have "\<not> chunk_patcher_has_error (cbs st)" using st(2) by (simp add: file_told_def)
  then show ?thesis
    using finish_patch_told[OF st(2,3,4) sz] run st(1) by (simp add: patchFile_def punch_all_def sz)
qed

lemma patchFile_patched:
  assumes "patch_setup base fs ps f_source patch" "length (patched base fs ps) = fs" "no_fault dst"
    and "fbytes dst = (if reflink then base else [])" "unchanged_align pt = 0" "\<not> with_sparse pt"
  shows "\<exists>g. patchFile False free_space reflink dst f_source patch (int fs) None pt = Some (Inr g) \<and> fbytes g = patched base fs ps"
proof -
  let ?fp = "\<lparr>chunk_output_fn = dst, chunk_patch_pos = 0, has_reflink = reflink, cow_filesize = 0, chunk_patcher_has_error = False\<rparr>"
  let ?pt = "pt\<lparr>cb := file_callback free_space, cbs := ?fp, host_be := False, require_unchanged := \<not> reflink\<rparr>"
  have c: "cb ?pt = file_callback free_space" "host_be ?pt = False" "unchanged_align ?pt = 0" using assms(5) by simp_all
  have bs: "buffer_size \<le> 2 ^ 32" by (simp add: buffer_size_def)
  show ?thesis
  proof (cases reflink)
    case True
    have t: "file_told base base True [] (cbs ?pt)" using file_told_start[OF assms(3,4), of base reflink] True by simp
    have q: "require_unchanged ?pt \<longrightarrow> \<not> True" "require_unchanged ?pt \<or> \<not> with_sparse ?pt" using True assms(6) by simp_all
    have acc: "if with_sparse ?pt then reflinked.blocks_accepted base else reflinked.plain_accepted base base (require_unchanged ?pt)"
      using assms(6) bs by (simp add: reflinked.plain_accepted_def file_accepts_def)
    obtain st tr where r: "ApplyPatch f_source patch None ?pt = Some (Inr st)" "filesize st = int fs"
      "patch_sink.hears False (file_callback free_space) (file_told base base True) tr st" "trace_bytes base tr = patched base fs ps"
      using reflinked.ApplyPatch_told[OF assms(1) c(1,2) t c(3) q acc] assms(6) by auto
    have "file_told base base True tr (cbs st)" using r(3) by (simp add: reflinked.hears_def)
    from patchFile_run[OF r(1,2) _ r(4) assms(2)] this show ?thesis using True by simp
  next
    case False
    have t: "file_told base [] False [] (cbs ?pt)" using file_told_start[OF assms(3,4), of base reflink] False by simp
    have q: "require_unchanged ?pt \<longrightarrow> \<not> False" "require_unchanged ?pt \<or> \<not> with_sparse ?pt" using assms(6) by simp_all
    have acc: "if with_sparse ?pt then rewritten.blocks_accepted base else rewritten.plain_accepted base base (require_unchanged ?pt)"
      using assms(6) bs False by (simp add: rewritten.plain_accepted_def file_accepts_def)
    obtain st tr where r: "ApplyPatch f_source patch None ?pt = Some (Inr st)" "filesize st = int fs"
      "patch_sink.hears False (file_callback free_space) (file_told base [] False) tr st" "trace_bytes base tr = patched base fs ps"
      using rewritten.ApplyPatch_told[OF assms(1) c(1,2) t c(3) q acc] assms(6) by auto
    have "file_told base [] False tr (cbs st)" using r(3) by (simp add: rewritten.hears_def)
    from patchFile_run[OF r(1,2) _ r(4) assms(2)] this show ?thesis using False by simp
  qed
qed

definition sample_file :: "byte list \<Rightarrow> File" where
  "sample_file bs = new_file bs (\<lambda>_. Some (2 ^ 32))"

definition sample_patcher :: "file_patch patcher" where
  "sample_patcher = new_ChunkPatcher False (file_callback (\<lambda>_. False))
     \<lparr>chunk_output_fn = sample_file [], chunk_patch_pos = 7, has_reflink = True, cow_filesize = 0, chunk_patcher_has_error = True\<rparr>
     (sample_file []) 3 []"

lemma sample_no_fault: "no_fault (sample_file bs)" "fbytes (sample_file bs) = bs"
  by (simp_all add: sample_file_def new_file_def no_fault_def)

lemma sample_patcher_fields: "unchanged_align sample_patcher = 0" "\<not> with_sparse sample_patcher"
  by (simp_all add: sample_patcher_def new_ChunkPatcher_def)

text \<open>
  C3: The patched file. With a reflink of the old file or into an empty file, and no faults, \<open>patchFile\<close> reports success and the
  destination is exactly the old file with the patch: the unchanged parts that were only skipped are there, what the old file
  had after the end is cut off, and no assertion fails.
\<close>

theorem patch_file_correct:
  assumes "patch_setup base fs ps f_source patch" "length (patched base fs ps) = fs" "no_fault dst"
    and "fbytes dst = (if reflink then base else [])" "unchanged_align pt = 0" "\<not> with_sparse pt"
  shows "\<exists>g. patchFile False free_space reflink dst f_source patch (int fs) None pt = Some (Inr g) \<and> fbytes g = patched base fs ps"
  by (rule patchFile_patched[OF assms])

theorem patch_file_correct_witness:
  "\<exists>g. patchFile False (\<lambda>_. False) True (sample_file [1, 2, 3, 4]) (sample_file [1, 2, 3, 4])
      (sample_file (patch_bytes 3 [(1, [9])])) 3 None sample_patcher = Some (Inr g) \<and> fbytes g = [1, 9, 3]"
proof -
  have s: "patch_setup [1, 2, 3, 4] 3 [(1, [9])] (sample_file [1, 2, 3, 4]) (sample_file (patch_bytes 3 [(1, [9])]))"
    using sample_no_fault by (simp add: patch_setup_def item_fits_def)
  have p: "patched [1, 2, 3, 4] 3 [(1, [9])] = [1, 9, 3]" by (simp add: patched_def)
  from patch_file_correct[OF s _ sample_no_fault(1) _ sample_patcher_fields, of "[1, 2, 3, 4]" True]
  show ?thesis using p by (simp add: sample_no_fault)
qed

text \<open>
  C40: A patch that is cut off. When the patch file ends inside the data of its first piece, at the start of the file, and no read fails,
  \<open>patchFile\<close> does not return: the loop over the data of the piece reads nothing and asks again, for ever.
\<close>

theorem truncated_patch_hangs:
  assumes "fbytes f_source = base" "no_fault f_source" "no_fault patch" "fbytes patch = take (20 + k) (patch_bytes fs [(0, d)])"
    and "k < length d" "length d \<le> fs" "length d < 2 ^ 32" "fs < 2 ^ 63" "no_fault dst"
    and "fbytes dst = (if reflink then base else [])" "unchanged_align pt = 0" "\<not> with_sparse pt"
  shows "patchFile False free_space reflink dst f_source patch tfilesize None pt = None"
proof -
  let ?fp = "\<lparr>chunk_output_fn = dst, chunk_patch_pos = 0, has_reflink = reflink, cow_filesize = 0, chunk_patcher_has_error = False\<rparr>"
  let ?pt = "pt\<lparr>cb := file_callback free_space, cbs := ?fp, host_be := False, require_unchanged := \<not> reflink\<rparr>"
  have c: "cb ?pt = file_callback free_space" "host_be ?pt = False" "unchanged_align ?pt = 0" "\<not> with_sparse ?pt" using assms(11,12) by simp_all
  have bs: "buffer_size \<le> 2 ^ 32" by (simp add: buffer_size_def)
  have "ApplyPatch f_source patch None ?pt = None"
  proof (cases reflink)
    case True
    have t: "file_told base base True [] (cbs ?pt)" using file_told_start[OF assms(9,10), of base reflink] True by simp
    have "reflinked.plain_accepted base base (require_unchanged ?pt)" using bs by (simp add: reflinked.plain_accepted_def file_accepts_def True)
    from reflinked.ApplyPatch_cut[OF assms(1-8) c(1,2) t c(3,4) this] show ?thesis .
  next
    case False
    have t: "file_told base [] False [] (cbs ?pt)" using file_told_start[OF assms(9,10), of base reflink] False by simp
    have "rewritten.plain_accepted base base (require_unchanged ?pt)" using bs by (simp add: rewritten.plain_accepted_def file_accepts_def False)
    from rewritten.ApplyPatch_cut[OF assms(1-8) c(1,2) t c(3,4) this] show ?thesis .
  qed
  then show ?thesis by (simp add: patchFile_def)
qed

theorem truncated_patch_hangs_witness:
  "patchFile False (\<lambda>_. False) False (sample_file []) (sample_file [1, 2]) (sample_file (take 21 (patch_bytes 4 [(0, [5, 6, 7])]))) 4 None
     sample_patcher = None"
proof -
  have f: "fbytes (sample_file (take 21 (patch_bytes 4 [(0, [5, 6, 7])]))) = take (20 + 1) (patch_bytes 4 [(0, [5, 6, 7])])"
    by (simp add: sample_no_fault)
  show ?thesis
    by (rule truncated_patch_hangs[OF sample_no_fault(2) sample_no_fault(1) sample_no_fault(1) f _ _ _ _ sample_no_fault(1) _ sample_patcher_fields])
      (simp_all add: sample_no_fault)
qed

end
