(* ===== verification/Client_Safe.thy ===== *)
theory Client_Safe
  imports Client_Write Patch_File
begin

text \<open>
  The buffers of the server's side of a block difference, whatever bytes arrive: every front of a message fits into its array, the
  buffer in front of the patch is never full between two steps, and no more bytes are read than there are.
\<close>

section \<open>The buffers\<close>

definition client_safe :: "chunk_client \<Rightarrow> bool" where
  "client_safe c \<longleftrightarrow> length (packet_buf c) = 24 \<and> length (patch_buf c) < c_chunk_size \<and>
     (cs_state c = CS_ID_ACC \<longrightarrow> packet_buf_off c + need_bytes c \<le> 24)"

text \<open>With what does not change at all: whether there is a hash file.\<close>

definition safe_with :: "bool \<Rightarrow> chunk_client \<Rightarrow> bool" where
  "safe_with ho c \<longleftrightarrow> client_safe c \<and> (m_hashoutput c \<noteq> None) = ho"

definition all_unread :: "chunk_client \<Rightarrow> bool" where
  "all_unread c \<longleftrightarrow> remaining_bufptr_bytes c = length (bufptr c)"

definition part_read :: "chunk_client \<Rightarrow> bool" where
  "part_read c \<longleftrightarrow> remaining_bufptr_bytes c + bufptr_bytes_done c = length (bufptr c)"

text \<open>What a handler does not change.\<close>

definition keeps :: "chunk_client \<Rightarrow> chunk_client \<Rightarrow> bool" where
  "keeps c d \<longleftrightarrow> (m_hashoutput d = None) = (m_hashoutput c = None) \<and> length (packet_buf d) = length (packet_buf c) \<and> bufptr d = bufptr c \<and> remaining_bufptr_bytes d = remaining_bufptr_bytes c \<and>
     bufptr_bytes_done d = bufptr_bytes_done c \<and> (length (patch_buf c) < c_chunk_size \<longrightarrow> length (patch_buf d) < c_chunk_size) \<and>
     (cs_state d = CS_ID_ACC \<longrightarrow> cs_state c = CS_ID_ACC \<and> packet_buf_off d = packet_buf_off c \<and> need_bytes d = need_bytes c)"

lemma keeps_refl [simp]: "keeps c c"
  by (simp add: keeps_def)

lemma keeps_trans: "keeps c d \<Longrightarrow> keeps d e \<Longrightarrow> keeps c e"
  by (simp add: keeps_def)

lemma keeps_safe: "keeps c d \<Longrightarrow> safe_with ho c \<Longrightarrow> safe_with ho d"
  by (auto simp: keeps_def safe_with_def client_safe_def)

lemma keeps_read: "keeps c d \<Longrightarrow> part_read c \<Longrightarrow> part_read d"
  by (simp add: keeps_def part_read_def)

section \<open>Writing\<close>

lemma keeps_writePatchInt: "keeps c (writePatchInt cfg pos buf c)"
  by (simp add: keeps_def writePatchInt_def patch_write_def Let_def)

lemma keeps_writePatch: "keeps c (writePatch cfg pos buf is_last c)"
  by (cases "patch_buf c") (auto simp: keeps_def writePatch_def writePatchInt_def patch_write_def Let_def c_chunk_size_def)

lemma keeps_write_data: "keeps c (write_data cfg buf is_last c)"
proof -
  have "keeps c (writePatch cfg (fc_file_pos c) buf is_last c)" by (rule keeps_writePatch)
  then show ?thesis by (simp add: write_data_def keeps_def Let_def)
qed

lemma keeps_hash: "keeps c (hash_write cfg buf c)" "keeps c (hash_seek p c)"
  by (simp_all add: keeps_def hash_write_def hash_seek_def)

lemma keeps_writePatchSize: "keeps c (writePatchSize cfg n c)"
  by (simp add: keeps_def writePatchSize_def patch_write_def patch_seek_def Let_def)

lemma invalidate_fields:
  "\<exists>f. fold (invalidate_at cfg) ps c = c\<lparr>m_patchfile := f\<rparr>"
proof (induction ps arbitrary: c)
  case Nil
  show ?case by (intro exI[of _ "m_patchfile c"]) simp
next
  case (Cons p ps)
  obtain f where "invalidate_at cfg p c = c\<lparr>m_patchfile := f\<rparr>" by (simp add: invalidate_at_def patch_write_def patch_seek_def)
  then show ?case using Cons[of "c\<lparr>m_patchfile := f\<rparr>"] by auto
qed

lemma keeps_invalidate: "keeps c (invalidateLastPatches cfg c)"
proof -
  let ?c = "if last_chunk_patches c \<noteq> [] then c\<lparr>curr_output_fsize := last_patch_output_fsize c\<rparr> else c"
  obtain f where "fold (invalidate_at cfg) (last_chunk_patches c) ?c = ?c\<lparr>m_patchfile := f\<rparr>" using invalidate_fields by blast
  then show ?thesis by (cases "last_chunk_patches c = []") (simp_all add: invalidateLastPatches_def Let_def patch_seek_def keeps_def c_chunk_size_def)
qed

section \<open>Connections\<close>

lemma keeps_connect: "keeps c (snd (connect cfg rr as c))"
proof (induction cfg rr as c rule: connect.induct)
  case (3 cfg rr sent as c)
  let ?r = "reset_connection c"
  obtain d err f where f: "File_Read 8 (snd (File_Seek 0 (m_chunkhashes ?r))) = (d, err, f)" by (cases "File_Read 8 (snd (File_Seek 0 (m_chunkhashes ?r)))") auto
  let ?c = "?r\<lparr>m_chunkhashes := f\<rparr>"
  have r: "keeps c ?c" by (simp add: keeps_def reset_connection_def c_chunk_size_def)
  have i: "keeps c (invalidateLastPatches cfg (?c\<lparr>next_chunk := first_pending ?c\<rparr>))"
    by (rule keeps_trans[OF _ keeps_invalidate]) (use r in \<open>simp add: keeps_def\<close>)
  have u: "keeps c x \<Longrightarrow> keeps c (x\<lparr>attempts := as\<rparr>)" "keeps c x \<Longrightarrow> keeps c (x\<lparr>pending_chunks := [], attempts := as\<rparr>)" for x
    by (simp_all add: keeps_def)
  show ?case
  proof (cases "length d = 8 \<and> rr \<and> \<not> sent")
    case True
    then have "keeps ?c (snd (connect cfg rr as ?c))" using 3 f by simp
    then show ?thesis using True f keeps_trans[OF r] by (simp add: Let_def)
  next
    case False
    then show ?thesis using u(1)[OF r] u(2)[OF r] u(2)[OF i] by (simp add: f Let_def)
  qed
qed (simp_all add: keeps_def)

lemma keeps_Reconnect: "keeps c (snd (fc_Reconnect cfg rr c))"
proof -
  let ?c = "c\<lparr>next_client := None, reconnect_tries := reconnect_tries c - 1\<rparr>"
  have "keeps c ?c" by (simp add: keeps_def)
  then show ?thesis using keeps_trans keeps_connect[of ?c cfg rr "attempts ?c"] by (auto simp: fc_Reconnect_def Let_def)
qed

lemma keeps_reconnect_or_fail: "keeps c (reconnect_or_fail cfg al rr c)"
proof -
  obtain ok d where r: "(if al then fc_Reconnect cfg rr c else (False, c)) = (ok, d)" by fastforce
  have "keeps c d" using r keeps_Reconnect[of c cfg rr] by (cases al) auto
  then show ?thesis unfolding reconnect_or_fail_def r by (simp add: keeps_def)
qed

section \<open>Handlers\<close>

lemma keeps_set_filesize: "set_filesize cfg al n c = r \<Longrightarrow> keeps c (case r of Inl d \<Rightarrow> d | Inr d \<Rightarrow> d)"
proof -
  assume r: "set_filesize cfg al n c = r"
  have t: "keeps c d \<Longrightarrow> keeps c (calcTotalChunks d)" for d by (simp add: keeps_def calcTotalChunks_def)
  have u: "keeps c (c\<lparr>remote_filesize := x\<rparr>)" for x by (simp add: keeps_def)
  have v: "keeps c d \<Longrightarrow> keeps c (d\<lparr>m_hashoutput := map_option h (m_hashoutput d)\<rparr>)" for d h by (simp add: keeps_def)
  have rf: "keeps c d \<Longrightarrow> keeps c (reconnect_or_fail cfg al True d)" for d using keeps_trans keeps_reconnect_or_fail by blast
  show ?thesis using rf[OF keeps_refl] rf[OF t[OF u]] t[OF u] v[OF t[OF u]] unfolding r[symmetric] set_filesize_def Let_def by auto
qed

lemma keeps_got_filesize: "got_filesize cfg al n m c = r \<Longrightarrow> keeps c (case r of Inl d \<Rightarrow> d | Inr d \<Rightarrow> d)"
proof -
  assume r: "got_filesize cfg al n m c = r"
  show ?thesis
  proof (cases "set_filesize cfg al n c")
    case (Inl d)
    show ?thesis using keeps_set_filesize[OF Inl] unfolding r[symmetric] got_filesize_def Inl by simp
  next
    case (Inr d)
    have d: "keeps c d" using keeps_set_filesize[OF Inr] by simp
    let ?e = "calcTotalChunks (d\<lparr>cs_state := CS_ID_FIRST\<rparr>)"
    have e: "keeps c ?e" using d by (simp add: keeps_def calcTotalChunks_def)
    let ?f = "if patch_mode cfg then writePatchSize cfg (remote_filesize ?e) ?e else ?e"
    have f: "keeps c ?f" using e keeps_trans[OF e keeps_writePatchSize] by simp
    have g: "keeps c (hash_write cfg x (hash_seek 0 ?f))" for x using keeps_trans[OF f] keeps_trans keeps_hash by blast
    have h: "keeps c (?f\<lparr>getfile_done := True, retval := v\<rparr>)" for v using f by (simp add: keeps_def)
    show ?thesis using g h unfolding r[symmetric] got_filesize_def Inr sum.case Let_def by (auto split: if_splits)
  qed
qed

lemma keeps_acc_filesize: "acc_filesize cfg ig al ext msg c = Some d \<Longrightarrow> keeps c d"
proof -
  assume a: "acc_filesize cfg ig al ext msg c = Some d"
  have st: "start_extents cfg ext n e = Some d \<Longrightarrow> keeps e d" for n e
    by (auto simp: start_extents_def Let_def keeps_def bind_eq_Some_conv split: if_splits prod.splits)
  let ?n = "pkt_int64 (cl_be cfg) 0 msg" and ?m = "if curr_id c = ID_FILESIZE_AND_EXTENTS then pkt_int64 (cl_be cfg) 8 msg else 0"
  show ?thesis
  proof (cases "if ig then Inr c else got_filesize cfg al ?n ?m c")
    case (Inl e)
    then have "keeps c e" using keeps_got_filesize[of cfg al ?n ?m c "Inl e"] by (simp split: if_splits)
    then show ?thesis using a unfolding acc_filesize_def Let_def Inl by simp
  next
    case (Inr e)
    then have "keeps c e" using keeps_got_filesize[of cfg al ?n ?m c "Inr e"] by (cases ig) simp_all
    then show ?thesis using a keeps_trans[OF _ st] unfolding acc_filesize_def Let_def Inr by (auto split: if_splits)
  qed
qed

lemma keeps_acc_gone: "keeps c (acc_gone cfg al err c)"
proof -
  have g: "keeps c (c\<lparr>getfile_done := True, retval := err\<rparr>)" by (simp add: keeps_def)
  then show ?thesis using keeps_trans[OF g keeps_reconnect_or_fail] by (simp add: acc_gone_def Let_def)
qed

lemma keeps_acc_block_error: "keeps c (acc_block_error cfg al msg c)"
proof -
  let ?c = "c\<lparr>errorcode1 := pkt_uint (cl_be cfg) 0 msg, errorcode2 := pkt_uint (cl_be cfg) 4 msg\<rparr>"
  have "keeps c ?c" by (simp add: keeps_def)
  then show ?thesis using keeps_trans[OF _ keeps_acc_gone] by (simp add: acc_block_error_def)
qed

lemma keeps_acc_whole_block: "acc_whole_block cfg msg c = Some d \<Longrightarrow> keeps c d"
  by (auto simp: acc_whole_block_def Let_def keeps_def hash_write_def hash_seek_def split: if_splits prod.splits)

lemma hash_upto_loop_keeps: "hash_upto_loop e c = Some d \<Longrightarrow> keeps c d"
proof (erule hash_upto_loop.raw_induct[where P = "\<lambda>e c d. keeps c d", rotated])
  fix loop :: "int \<Rightarrow> chunk_client \<Rightarrow> chunk_client option" and e :: int and c d :: chunk_client
  assume ih: "\<And>e c d. loop e c = Some d \<Longrightarrow> keeps c d"
  let ?n = "min fc_buffersize (unat (of_int (e - chunk_start c) :: u32))"
  obtain x err f where r: "File_Read ?n (m_file c) = (x, err, f)" by (cases "File_Read ?n (m_file c)") auto
  assume a: "(let toread = ?n; (d, err, f) = File_Read toread (m_file c); c = c\<lparr>m_file := f\<rparr>
      in if length d < toread then Some (c\<lparr>chunk_start := e\<rparr>)
         else let c = c\<lparr>chunk_start := chunk_start c + int (length d), md5_hash := md5_update (md5_hash c) d\<rparr>
              in if chunk_start c < e then loop e c else Some c) = Some d"
  let ?d = "c\<lparr>m_file := f, chunk_start := chunk_start c + int (length x), md5_hash := md5_update (md5_hash c) x\<rparr>"
  have "keeps c ?d" "keeps c (c\<lparr>m_file := f, chunk_start := e\<rparr>)" by (simp_all add: keeps_def)
  then show "keeps c d" using a ih[of e ?d d] keeps_trans unfolding Let_def r prod.case by (auto split: if_splits)
qed

lemma keeps_Hash_upto: "Hash_upto e c = Some (nb, d) \<Longrightarrow> keeps c d"
proof -
  assume a: "Hash_upto e c = Some (nb, d)"
  let ?b = "block_of e" and ?nb = "block_of e \<noteq> block_for_chunk_start c"
  let ?c = "if ?nb then c\<lparr>block_for_chunk_start := ?b, md5_hash := md5_init (md5_hash c), last_chunk_patches := [],
                 patch_buf := [], hash_for_whole_block := False, chunk_start := ?b\<rparr> else c"
  have k: "keeps c ?c" by (simp add: keeps_def c_chunk_size_def)
  obtain sought f where s: "File_Seek (chunk_start ?c) (m_file ?c) = (sought, f)" by fastforce
  have m: "keeps c (?c\<lparr>m_file := f\<rparr>)" "keeps c (?c\<lparr>m_file := f, chunk_start := e\<rparr>)" using k by (simp_all add: keeps_def)
  have p: "keeps c x \<Longrightarrow> keeps c (x\<lparr>fc_file_pos := e\<rparr>)" for x by (simp add: keeps_def)
  have l: "hash_upto_loop e (?c\<lparr>m_file := f\<rparr>) = Some x \<Longrightarrow> keeps c x" for x using keeps_trans[OF m(1) hash_upto_loop_keeps] .
  show ?thesis
  proof (cases "chunk_start ?c \<noteq> e")
    case True
    then have "Option.bind (if sought then hash_upto_loop e (?c\<lparr>m_file := f\<rparr>) else Some (?c\<lparr>m_file := f, chunk_start := e\<rparr>))
        (\<lambda>c. Some (?nb, c\<lparr>fc_file_pos := e\<rparr>)) = Some (nb, d)"
      using a s by (simp add: Hash_upto_def Let_def)
    then show ?thesis using p m(2) l by (cases sought) (auto simp: bind_eq_Some_conv)
  next
    case False
    then have "d = ?c" using a by (cases ?nb) (simp_all add: Hash_upto_def Let_def)
    then show ?thesis using k by blast
  qed
qed

lemma keeps_hash_rest: "keeps c (snd (hash_rest e c))"
proof (induction e c rule: hash_rest.induct)
  case (1 e c)
  let ?n = "min fc_buffersize (unat (of_int (e - chunk_start c) :: u32))"
  obtain x err f where r: "File_Read ?n (m_file c) = (x, err, f)" by (cases "File_Read ?n (m_file c)") auto
  let ?d = "c\<lparr>m_file := f, fc_file_pos := fc_file_pos c + int (length x), chunk_start := chunk_start c + int (length x), md5_hash := md5_update (md5_hash c) x\<rparr>"
  have k: "keeps c ?d" "keeps c (c\<lparr>m_file := f, fc_file_pos := y, chunk_start := e\<rparr>)" for y by (simp_all add: keeps_def)
  show ?case
  proof (cases "chunk_start c < e \<and> x \<noteq> []")
    case True
    have "keeps ?d (snd (hash_rest e ?d))" using 1 True r by simp
    then have "keeps c (snd (hash_rest e ?d))" by (rule keeps_trans[OF k(1)])
    then show ?thesis unfolding hash_rest.simps[of e c] Let_def r prod.case using True by simp
  next
    case False
    then show ?thesis unfolding hash_rest.simps[of e c] Let_def r prod.case using k(2) by auto
  qed
qed

lemma keeps_finish_block_hash: "keeps c (snd (finish_block_hash cpos c))"
proof -
  obtain sought f where s: "File_Seek (chunk_start c) (m_file c) = (sought, f)" by fastforce
  have m: "keeps c (c\<lparr>m_file := f\<rparr>)" "keeps c (c\<lparr>m_file := f, fc_file_pos := x, chunk_start := y\<rparr>)" for x y by (simp_all add: keeps_def)
  have p: "keeps c x \<Longrightarrow> keeps c (x\<lparr>block_for_chunk_start := - 1, md5_hash := y\<rparr>)" for x y by (simp add: keeps_def)
  have l: "keeps c (snd (hash_rest e (c\<lparr>m_file := f\<rparr>)))" for e using keeps_trans[OF m(1) keeps_hash_rest] .
  show ?thesis unfolding finish_block_hash_def Let_def s prod.case
    using p[OF l] p[OF m(2)] p[OF keeps_refl] by (simp add: split_beta)
qed

lemma keeps_accept_block: "accept_block cfg cpos h c = Some d \<Longrightarrow> keeps c d"
  by (auto simp: accept_block_def Let_def keeps_def hash_write_def hash_seek_def chunk_received_def split: if_splits)

lemma keeps_Hash_nochange: "keeps c (Hash_nochange cfg cpos c)"
  by (auto simp: Hash_nochange_def Let_def keeps_def hash_write_def hash_seek_def chunk_received_def split: option.split)

lemma keeps_acc_update_chunk:
  assumes "acc_update_chunk cfg msg c = Some d"
  shows "keeps c d"
proof -
  obtain nb e where e: "Hash_upto (pkt_int64 (cl_be cfg) 0 msg) c = Some (nb, e)" using assms by (auto simp: acc_update_chunk_def bind_eq_Some_conv)
  have k: "keeps c e" by (rule keeps_Hash_upto[OF e])
  have "keeps e d" using assms unfolding acc_update_chunk_def e
    by (auto simp: Let_def keeps_def hash_write_def hash_seek_def split: option.splits if_splits)
  then show ?thesis by (rule keeps_trans[OF k])
qed

text \<open>Loading a block over the second connection leaves the position in the buffer as it was.\<close>

definition load_safe :: "bool \<Rightarrow> (int \<Rightarrow> chunk_client \<Rightarrow> (u32 \<times> chunk_client) option) \<Rightarrow> bool" where
  "load_safe ho load \<longleftrightarrow> (\<forall>pos c rc d. load pos c = Some (rc, d) \<longrightarrow> safe_with ho c \<longrightarrow> safe_with ho d)"

lemma keeps_load_instead:
  assumes l: "load_safe ho load" and s: "safe_with ho c" and d: "load_instead cfg load cpos c = Some d"
  shows "keeps c (d\<lparr>last_chunk_patches := x, cs_state := CS_ID_FIRST\<rparr>)"
proof -
  let ?c = "(invalidateLastPatches cfg c)\<lparr>remaining_bufptr_bytes := 0, packet_buf_off := 0, cs_state := CS_ID_FIRST\<rparr>"
  have "safe_with ho (invalidateLastPatches cfg c)" by (rule keeps_safe[OF keeps_invalidate s])
  then have sc: "safe_with ho ?c" by (simp add: safe_with_def client_safe_def)
  obtain rc e where e: "load cpos ?c = Some (rc, e)" using d by (auto simp: load_instead_def bind_eq_Some_conv)
  have "safe_with ho e" using l e sc unfolding load_safe_def by blast
  then have h: "(m_hashoutput e = None) = (m_hashoutput c = None)" "length (patch_buf e) < c_chunk_size" "length (packet_buf c) = 24"
    using s by (auto simp: safe_with_def client_safe_def)
  let ?d = "e\<lparr>remaining_bufptr_bytes := remaining_bufptr_bytes c, bufptr := bufptr c, packet_buf_off := packet_buf_off c,
      bufptr_bytes_done := bufptr_bytes_done c, packet_buf := packet_buf c\<rparr>"
  have "d = ?d \<or> d = ?d\<lparr>retval := rc, getfile_done := True\<rparr>"
    using d e by (cases "rc = ERR_SUCCESS") (auto simp: load_instead_def Let_def)
  then show ?thesis using h by (elim disjE) (simp_all add: keeps_def)
qed

lemma keeps_Hash_finalize:
  assumes l: "load_safe ho load" and s: "safe_with ho c" and d: "Hash_finalize cfg load cpos h c = Some d"
  shows "keeps c (d\<lparr>cs_state := CS_ID_FIRST\<rparr>)"
proof -
  obtain lw e where e: "(if \<not> hash_for_whole_block c then finish_block_hash cpos c else (False, c)) = (lw, e)" by fastforce
  have k: "keeps c e" using e keeps_finish_block_hash[of c cpos] by (auto split: if_splits)
  have se: "safe_with ho e" by (rule keeps_safe[OF k s])
  obtain dig g where g: "(if lw \<or> take big_hash_size h \<noteq> take big_hash_size dig then
                if \<not> hash_for_whole_block e then load_instead cfg load cpos e
                else Some (e\<lparr>retval := ERR_HASH, getfile_done := True\<rparr>)
              else accept_block cfg cpos h e) = Some g" "d = g\<lparr>last_chunk_patches := []\<rparr>"
    using d unfolding Hash_finalize_def e Let_def prod.case by (auto simp: bind_eq_Some_conv)
  have "keeps e x \<Longrightarrow> keeps e (x\<lparr>last_chunk_patches := [], cs_state := CS_ID_FIRST\<rparr>)" for x by (simp add: keeps_def)
  moreover have "keeps e (e\<lparr>retval := ERR_HASH, getfile_done := True\<rparr>)" by (simp add: keeps_def)
  ultimately have "keeps e (d\<lparr>cs_state := CS_ID_FIRST\<rparr>)"
    using g keeps_load_instead[OF l se, of cfg cpos] keeps_accept_block[of cfg cpos h e] by (auto split: if_splits)
  then show ?thesis by (rule keeps_trans[OF k])
qed

lemma keeps_acc_packet:
  assumes l: "load_safe ho load" and s: "safe_with ho c" and d: "acc_packet cfg ig al ext load msg c = Some d"
  shows "keeps c d"
proof -
  have f: "keeps c x \<Longrightarrow> keeps c (x\<lparr>cs_state := CS_ID_FIRST\<rparr>)" for x by (simp add: keeps_def)
  show ?thesis using d keeps_acc_filesize[of cfg ig al ext msg c d] keeps_acc_gone[of c cfg al] keeps_acc_whole_block[of cfg msg c d]
    keeps_acc_update_chunk[of cfg msg c d] f[OF keeps_Hash_nochange] keeps_Hash_finalize[OF l s] keeps_acc_block_error[of c cfg al msg]
    unfolding acc_packet_def Let_def by (auto simp: bind_eq_Some_conv split: if_splits)
qed

section \<open>Steps\<close>

lemma packet_size_bound: "packet_size i = Some n \<Longrightarrow> n \<le> 24"
  by (auto simp: packet_size_def big_hash_size_def split: if_splits)

lemma State_First_safe:
  assumes "safe_with ho c" "all_unread c" "bufptr c \<noteq> []" "bufptr_bytes_done c = 0" "cs_state c = CS_ID_FIRST"
  shows "safe_with ho (State_First c)" "all_unread (State_First c)" "bufptr_bytes_done (State_First c) = 0"
    "packet_buf_off (State_First c) + need_bytes (State_First c) \<le> 24" "cs_state (State_First c) = CS_ID_FIRST"
  using assms packet_size_bound by (auto simp: safe_with_def client_safe_def all_unread_def State_First_def Let_def split: option.split)

lemma State_Acc_safe:
  assumes l: "load_safe ho load" and s: "safe_with ho c" "all_unread c" "bufptr_bytes_done c = 0" "packet_buf_off c + need_bytes c \<le> 24"
    and d: "State_Acc cfg ig al ext load c = Some d"
  shows "safe_with ho d \<and> part_read d"
proof (cases "need_bytes c \<le> remaining_bufptr_bytes c")
  case True
  let ?new = "take (need_bytes c) (bufptr c)"
  let ?c = "if cs_state c = CS_ID_FIRST then c else c\<lparr>packet_buf := put_bytes (packet_buf c) (packet_buf_off c) ?new\<rparr>"
  let ?d = "?c\<lparr>bufptr_bytes_done := bufptr_bytes_done c + need_bytes c, remaining_bufptr_bytes := remaining_bufptr_bytes c - need_bytes c\<rparr>"
  have ln: "length ?new = need_bytes c" using True s(2) by (simp add: all_unread_def)
  have lp: "length (put_bytes (packet_buf c) (packet_buf_off c) ?new) = 24"
    using s(1,4) ln by (subst length_put_bytes) (simp_all add: safe_with_def client_safe_def)
  have sd: "safe_with ho ?d" "part_read ?d" using s lp True by (simp_all add: safe_with_def client_safe_def part_read_def all_unread_def)
  obtain msg where "acc_packet cfg ig al ext load msg ?d = Some d" using d True unfolding State_Acc_def Let_def by (auto split: if_splits)
  from keeps_acc_packet[OF l sd(1) this] show ?thesis using sd keeps_safe keeps_read by blast
next
  case False
  then show ?thesis using d s by (auto simp: State_Acc_def Let_def safe_with_def client_safe_def part_read_def all_unread_def put_bytes_def split: if_splits)
qed

lemma keeps_adler_loop: "keeps c (adler_loop cfg d c)"
proof (induction cfg d c rule: adler_loop.induct)
  case (1 cfg d c)
  show ?case
  proof (cases "d = []")
    case True
    then show ?thesis by (subst adler_loop.simps) simp
  next
    case False
    let ?n = "min (adler_remaining c) (length d)"
    let ?a = "c\<lparr>adler_hash := urb_adler32 (adler_hash c) (Some (take ?n d)), adler_remaining := adler_remaining c - ?n\<rparr>"
    let ?b = "if adler_remaining ?a = 0 \<or> whole_block_remaining ?a = 0 then
                   (hash_write cfg (le_bytes 4 (adler_hash ?a)) ?a)\<lparr>adler_hash := urb_adler32 0 None, adler_remaining := c_chunk_size\<rparr>
                 else ?a"
    let ?e = "?b\<lparr>block_pos := block_pos ?b + ?n\<rparr>"
    have b: "keeps c ?e" by (simp add: keeps_def hash_write_def)
    have "keeps ?e (adler_loop cfg (drop ?n d) ?e)" by (rule 1[OF False refl refl refl])
    then have "keeps c (adler_loop cfg (drop ?n d) ?e)" by (rule keeps_trans[OF b])
    then show ?thesis unfolding adler_loop.simps[of cfg d c] Let_def using False by simp
  qed
qed

lemma keeps_block: "keeps c (adler_loop cfg d ((write_data cfg e l c)\<lparr>chunk_start := x\<rparr>))"
proof -
  have "keeps c ((write_data cfg e l c)\<lparr>chunk_start := x\<rparr>)" using keeps_write_data[of c cfg e l] by (simp add: keeps_def)
  then show ?thesis using keeps_trans keeps_adler_loop by blast
qed

lemma State_Block_safe:
  assumes s: "safe_with ho c" "all_unread c" "bufptr_bytes_done c = 0" and d: "State_Block cfg c = Some d"
  shows "safe_with ho d \<and> part_read d"
proof -
  let ?n = "min (remaining_bufptr_bytes c) (whole_block_remaining c)" let ?x = "take ?n (bufptr c)"
  let ?c = "c\<lparr>remaining_bufptr_bytes := remaining_bufptr_bytes c - ?n, bufptr_bytes_done := bufptr_bytes_done c + ?n,
                whole_block_remaining := whole_block_remaining c - ?n, md5_hash := md5_update (md5_hash c) ?x\<rparr>"
  let ?w = "write_data cfg ?x (whole_block_remaining ?c = 0) ?c"
  let ?a = "adler_loop cfg ?x (?w\<lparr>chunk_start := chunk_start ?w + int ?n\<rparr>)"
  have c: "safe_with ho ?c" "part_read ?c" using s by (simp_all add: safe_with_def client_safe_def part_read_def all_unread_def)
  define a where "a = ?a"
  have k: "keeps ?c a" unfolding a_def by (rule keeps_block)
  have b: "State_Block cfg c =
      (if whole_block_remaining a = 0 then
         let c = a\<lparr>md5_hash := md5_finalize (md5_hash a), hash_for_whole_block := True\<rparr>
         in Option.bind (raw_digest_int (md5_hash c))
           (\<lambda>dig. Some ((hash_write cfg (take big_hash_size dig) (hash_seek (block_slot (block_for_chunk_start c)) c))\<lparr>cs_state := CS_ID_FIRST\<rparr>))
       else Some a)"
    unfolding a_def State_Block_def Let_def by (rule refl)
  have g: "keeps a ((hash_write cfg x (hash_seek p (a\<lparr>md5_hash := m, hash_for_whole_block := h\<rparr>)))\<lparr>cs_state := CS_ID_FIRST\<rparr>)" for m h x p
    by (simp add: keeps_def hash_write_def hash_seek_def)
  have "keeps a d" using d g unfolding b Let_def by (auto simp: bind_eq_Some_conv split: if_splits)
  then have "keeps ?c d" by (rule keeps_trans[OF k])
  then show ?thesis using c keeps_safe keeps_read by blast
qed

lemma State_Chunk_safe:
  assumes s: "safe_with ho c" "all_unread c" "bufptr_bytes_done c = 0"
  shows "safe_with ho (State_Chunk cfg c) \<and> part_read (State_Chunk cfg c)"
proof -
  let ?n = "min (remaining_bufptr_bytes c) (adler_remaining c)" let ?x = "take ?n (bufptr c)"
  let ?c = "c\<lparr>adler_remaining := adler_remaining c - ?n, chunk_start := chunk_start c + int ?n\<rparr>"
  let ?m = "?c\<lparr>adler_hash := urb_adler32 (adler_hash ?c) (Some ?x), md5_hash := md5_update (md5_hash ?c) ?x\<rparr>"
  define w where "w = write_data cfg ?x (adler_remaining ?m = 0) ?m"
  let ?d = "w\<lparr>remaining_bufptr_bytes := remaining_bufptr_bytes w - ?n, bufptr_bytes_done := bufptr_bytes_done w + ?n\<rparr>"
  let ?e = "if 0 < ?n then ?d else ?c"
  have m: "safe_with ho ?m" "all_unread ?m" "bufptr_bytes_done ?m = 0" "remaining_bufptr_bytes ?m = remaining_bufptr_bytes c"
    using s by (simp_all add: safe_with_def client_safe_def all_unread_def)
  have k: "keeps ?m w" unfolding w_def by (rule keeps_write_data)
  have kk: "remaining_bufptr_bytes w = remaining_bufptr_bytes ?m" "bufptr_bytes_done w = bufptr_bytes_done ?m" "bufptr w = bufptr ?m"
    using k unfolding keeps_def by blast+
  have w: "safe_with ho w" "all_unread w" "bufptr_bytes_done w = 0" "remaining_bufptr_bytes w = remaining_bufptr_bytes c"
    using keeps_safe[OF k m(1)] m(2) unfolding all_unread_def kk m(3,4) by blast+
  have d: "safe_with ho ?d" "part_read ?d" using w by (simp_all add: safe_with_def client_safe_def part_read_def all_unread_def)
  define e where "e = ?e"
  have e: "safe_with ho e \<and> part_read e"
  proof (cases "0 < ?n")
    case True
    then show ?thesis using d unfolding e_def if_P[OF True] by blast
  next
    case False
    then show ?thesis using s unfolding e_def if_not_P[OF False] by (simp add: safe_with_def client_safe_def part_read_def all_unread_def)
  qed
  have f: "keeps e ((hash_write cfg x e)\<lparr>cs_state := CS_ID_FIRST\<rparr>)" for x by (simp add: keeps_def hash_write_def)
  have "State_Chunk cfg c = (if adler_remaining e = 0 then (hash_write cfg (le_bytes 4 (adler_hash e)) e)\<lparr>cs_state := CS_ID_FIRST\<rparr> else e)"
    unfolding e_def w_def State_Chunk_def Let_def by (rule refl)
  then show ?thesis using e keeps_safe[OF f] keeps_read[OF f] by simp
qed

lemma keeps_finish_extents:
  assumes "finish_extents cfg f c = Some d"
  shows "keeps c d"
proof -
  obtain size g where g: "File_Size f = (size, g)" by fastforce
  obtain h err k where k: "File_Read 16 (snd (File_Seek (size - 16) g)) = (h, err, k)" by (cases "File_Read 16 (snd (File_Seek (size - 16) g))") auto
  obtain ext it where it: "iter_nextExtent (cl_be cfg) (new_ExtentIterator (Some k) 1) = (ext, it)" by fastforce
  obtain dig where "Some ((if take 16 dig \<noteq> h then c\<lparr>retval := ERR_HASH, getfile_done := True\<rparr> else c)
      \<lparr>fc_sparse_extents_f := Some k, fc_extent_iterator := Some it, curr_sparse_extent := ext\<rparr>) = Some d"
    using assms unfolding finish_extents_def Let_def g prod.case k it bind_eq_Some_conv by blast
  then show ?thesis by (cases "take 16 dig = h") (auto simp: keeps_def)
qed

lemma State_SparseExtents_safe:
  assumes s: "safe_with ho c" "all_unread c" "bufptr_bytes_done c = 0" and d: "State_SparseExtents cfg ext c = Some d"
  shows "safe_with ho d \<and> part_read d"
proof -
  define c1 where "c1 = (if big_hash_size < whole_block_remaining c then
                 c\<lparr>md5_hash := md5_update (md5_hash c)
                     (take (min (remaining_bufptr_bytes c) (whole_block_remaining c - big_hash_size)) (bufptr c))\<rparr> else c)"
  define n where "n = min (remaining_bufptr_bytes c1) (whole_block_remaining c1)"
  have c1: "safe_with ho c1" "all_unread c1" "bufptr_bytes_done c1 = 0" using s by (simp_all add: c1_def safe_with_def client_safe_def all_unread_def)
  define wr where "wr = (if ext then
                      case fc_sparse_extents_f c1 of
                        None \<Rightarrow> None
                      | Some f \<Rightarrow> Option.bind (writeFileRetry (take n (bufptr c1)) f)
                          (\<lambda>(ok, f). let c = c1\<lparr>fc_sparse_extents_f := Some f\<rparr>
                            in Some (if ok then c else c\<lparr>retval := ERR_HASH, getfile_done := True\<rparr>))
                    else Some c1)"
  let ?p = "\<lambda>c2. c2\<lparr>remaining_bufptr_bytes := remaining_bufptr_bytes c2 - n, bufptr_bytes_done := bufptr_bytes_done c2 + n,
                        whole_block_remaining := whole_block_remaining c2 - n\<rparr>"
  obtain c2 where c2: "wr = Some c2" and r: "(if whole_block_remaining (?p c2) = 0 then
      Option.bind (if ext then case fc_sparse_extents_f ((?p c2)\<lparr>md5_hash := md5_finalize (md5_hash (?p c2))\<rparr>) of None \<Rightarrow> None
          | Some f \<Rightarrow> finish_extents cfg f ((?p c2)\<lparr>md5_hash := md5_finalize (md5_hash (?p c2))\<rparr>)
        else Some ((?p c2)\<lparr>md5_hash := md5_finalize (md5_hash (?p c2))\<rparr>)) (\<lambda>c. Some (c\<lparr>cs_state := CS_ID_FIRST\<rparr>))
      else Some (?p c2)) = Some d"
    using d unfolding State_SparseExtents_def Let_def c1_def[symmetric] n_def[symmetric] wr_def[symmetric, unfolded Let_def] by (auto simp: bind_eq_Some_conv)
  have k: "keeps c1 c2" using c2 unfolding wr_def by (auto simp: keeps_def bind_eq_Some_conv Let_def split: if_splits option.splits)
  have u: "all_unread c2" "bufptr_bytes_done c2 = 0" "safe_with ho c2" "remaining_bufptr_bytes c2 = remaining_bufptr_bytes c1"
    using k c1 keeps_safe[OF k] by (simp_all add: keeps_def all_unread_def)
  have p: "safe_with ho (?p c2)" "part_read (?p c2)" using u by (simp_all add: safe_with_def client_safe_def part_read_def all_unread_def n_def)
  define e where "e = ?p c2"
  have g: "keeps e (e\<lparr>md5_hash := m\<rparr>)" "keeps e x \<Longrightarrow> keeps e (x\<lparr>cs_state := CS_ID_FIRST\<rparr>)" for m x by (simp_all add: keeps_def)
  have h: "finish_extents cfg f (e\<lparr>md5_hash := m\<rparr>) = Some x \<Longrightarrow> keeps e x" for f m x using keeps_trans[OF g(1) keeps_finish_extents] .
  have "keeps e d" using r g h unfolding e_def[symmetric] by (auto simp: bind_eq_Some_conv split: if_splits option.splits)
  then show ?thesis using p keeps_safe keeps_read unfolding e_def by blast
qed

lemma state_step_safe:
  assumes l: "load_safe ho load" and s: "safe_with ho c" "all_unread c" "bufptr_bytes_done c = 0" "bufptr c \<noteq> []"
    and d: "state_step cfg ig al ext load c = Some d"
  shows "safe_with ho d \<and> part_read d"
proof (cases "cs_state c")
  case CS_ID_FIRST
  note F = State_First_safe[OF s(1,2,4,3) CS_ID_FIRST]
  show ?thesis by (rule State_Acc_safe[OF l F(1-4)]) (use d CS_ID_FIRST in \<open>simp add: state_step_def\<close>)
next
  case CS_ID_ACC
  have "packet_buf_off c + need_bytes c \<le> 24" using s(1) CS_ID_ACC by (simp add: safe_with_def client_safe_def)
  then show ?thesis by (rule State_Acc_safe[OF l s(1-3)]) (use d CS_ID_ACC in \<open>simp add: state_step_def\<close>)
next
  case CS_BLOCK
  show ?thesis by (rule State_Block_safe[OF s(1-3)]) (use d CS_BLOCK in \<open>simp add: state_step_def\<close>)
next
  case CS_CHUNK
  show ?thesis using State_Chunk_safe[OF s(1-3), of cfg] d CS_CHUNK by (simp add: state_step_def)
next
  case CS_SPARSE_EXTENTS
  show ?thesis by (rule State_SparseExtents_safe[OF s(1-3)]) (use d CS_SPARSE_EXTENTS in \<open>simp add: state_step_def\<close>)
qed

lemma holds_if: "Q a \<Longrightarrow> Q b \<Longrightarrow> Q (if p then a else b)"
  by simp

lemma after_state_safe:
  assumes "safe_with ho c" "part_read c"
  shows "safe_with ho (snd (after_state ig c)) \<and> all_unread (snd (after_state ig c))"
  unfolding after_state_def Let_def snd_conv
  by (rule holds_if[where Q = "\<lambda>d. safe_with ho d \<and> all_unread d"]) (use assms in \<open>simp_all add: safe_with_def client_safe_def part_read_def all_unread_def\<close>)

section \<open>The loops\<close>

lemma safe_with_ofb [simp]:
  "safe_with ho (c\<lparr>ofb_pipe := p\<rparr>) = safe_with ho c" "safe_with ho (c\<lparr>ofb_attempts := as\<rparr>) = safe_with ho c" "safe_with ho (c\<lparr>ofb_events := es\<rparr>) = safe_with ho c"
  "safe_with ho (start_handle buf c) = safe_with ho c" "safe_with ho (c\<lparr>bufptr_bytes_done := n\<rparr>) = safe_with ho c"
  by (simp_all add: safe_with_def client_safe_def start_handle_def)

lemma construct_safe: "safe_with ho c \<Longrightarrow> safe_with ho (snd (constructOutOfBandPipe c))"
  by (auto simp: constructOutOfBandPipe_def split: list.split)

lemma request_safe: "safe_with ho c \<Longrightarrow> safe_with ho (requestOfbChunk cfg pos c)"
proof -
  assume "safe_with ho c"
  then have "safe_with ho (c\<lparr>ofb_pipe := map_option (\<lambda>p. p @ ofb_answer cfg pos) (ofb_pipe c), cs_state := CS_ID_FIRST, remaining_bufptr_bytes := 0, packet_buf_off := 0\<rparr>)"
    by (simp add: safe_with_def client_safe_def)
  then show ?thesis unfolding requestOfbChunk_def by (rule keeps_safe[OF keeps_invalidate])
qed

definition loop_safe :: "bool \<Rightarrow> client_loop \<Rightarrow> chunk_client \<Rightarrow> u32 \<times> chunk_client \<Rightarrow> bool" where
  "loop_safe ho which c r \<longleftrightarrow> (safe_with ho c \<and> (case which of Handle ig al ext \<Rightarrow> all_unread c | Load pos \<Rightarrow> True) \<longrightarrow>
     safe_with ho (snd r) \<and> (case which of Handle ig al ext \<Rightarrow> all_unread (snd r) | Load pos \<Rightarrow> True))"

lemma start_load_safe:
  assumes "\<And>c r. loop c = Some r \<Longrightarrow> safe_with ho c \<Longrightarrow> safe_with ho (snd r)"
  shows "start_load cfg loop pos c = Some (rc, d) \<Longrightarrow> safe_with ho c \<Longrightarrow> safe_with ho d"
proof -
  assume a: "start_load cfg loop pos c = Some (rc, d)" "safe_with ho c"
  obtain ok e where e: "(if ofb_pipe c = None then constructOutOfBandPipe c else (True, c)) = (ok, e)" by fastforce
  have "safe_with ho e" using e a(2) construct_safe[of ho c] by (auto split: if_splits)
  then show ?thesis using a(1) assms[of "requestOfbChunk cfg pos e"] request_safe unfolding start_load_def e by (fastforce split: if_splits)
qed

lemma load_again_safe:
  assumes "\<And>c r. loop c = Some r \<Longrightarrow> safe_with ho c \<Longrightarrow> safe_with ho (snd r)"
  shows "load_again cfg err loop pos c = Some r \<Longrightarrow> safe_with ho c \<Longrightarrow> safe_with ho (snd r)"
proof -
  assume a: "load_again cfg err loop pos c = Some r" "safe_with ho c"
  obtain ok e where e: "constructOutOfBandPipe c = (ok, e)" by fastforce
  have "safe_with ho e" using construct_safe[OF a(2)] e by simp
  then show ?thesis using a(1) assms[of "requestOfbChunk cfg pos e"] request_safe unfolding load_again_def e by (fastforce split: if_splits)
qed

lemma load_event_safe:
  assumes l: "\<And>c r. loop c = Some r \<Longrightarrow> safe_with ho c \<Longrightarrow> safe_with ho (snd r)"
    and h: "\<And>c r. handle c = Some r \<Longrightarrow> safe_with ho c \<and> all_unread c \<Longrightarrow> safe_with ho (snd r)"
  shows "load_event cfg handle loop ev pos c = Some r \<Longrightarrow> safe_with ho c \<Longrightarrow> safe_with ho (snd r)"
proof (cases ev)
  case (Arrive n)
  assume a: "load_event cfg handle loop ev pos c = Some r" "safe_with ho c"
  obtain p where p: "ofb_pipe c = Some p" using a(1) Arrive by (auto simp: load_event_def split: option.splits)
  let ?b = "take (min n fc_buffersize) p"
  let ?c = "start_handle ?b (c\<lparr>ofb_pipe := Some (drop (length ?b) p)\<rparr>)"
  have u: "safe_with ho ?c \<and> all_unread ?c" using a(2) by (simp add: safe_with_def client_safe_def all_unread_def start_handle_def)
  have "?b = [] \<and> loop c = Some r \<or> (\<exists>q. handle ?c = Some q \<and> (r = q \<or> loop (snd q) = Some r))"
    using a(1) unfolding load_event_def Arrive p Let_def by (auto simp: bind_eq_Some_conv split: if_splits)
  then show ?thesis using l h u a(2) by blast
qed (auto simp: load_event_def intro: l load_again_safe[OF l])

lemma fc_run_safe: "fc_run cfg which c = Some r \<Longrightarrow> loop_safe ho which c r"
proof (erule fc_run.raw_induct[where P = "\<lambda>cfg which c r. loop_safe ho which c r", rotated])
  fix run :: "client_config \<Rightarrow> client_loop \<Rightarrow> chunk_client \<Rightarrow> (u32 \<times> chunk_client) option" and cfg :: client_config and which :: client_loop
    and c :: chunk_client and r :: "u32 \<times> chunk_client"
  assume ih: "\<And>cfg which c r. run cfg which c = Some r \<Longrightarrow> loop_safe ho which c r"
  assume a: "(case which of
        Handle ignore_filesize allow_reconnect extents \<Rightarrow>
          if bufptr c = [] then Some (ERR_CONTINUE, c)
          else
            Option.bind (state_step cfg ignore_filesize allow_reconnect extents
                (\<lambda>pos. start_load cfg (run cfg (Load pos)) pos) (c\<lparr>bufptr_bytes_done := 0\<rparr>))
              (\<lambda>c. case fst (after_state ignore_filesize c) of
                 Some err \<Rightarrow> Some (err, snd (after_state ignore_filesize c))
               | None \<Rightarrow> run cfg which (snd (after_state ignore_filesize c)))
      | Load chunk_pos \<Rightarrow>
          if pending_find chunk_pos c = None then Some (ERR_SUCCESS, c)
          else case ofb_events c of
            [] \<Rightarrow> Some (ERR_TIMEOUT, c)
          | ev # evs \<Rightarrow>
              load_event cfg (run cfg (Handle True False False)) (run cfg (Load chunk_pos)) ev chunk_pos (c\<lparr>ofb_events := evs\<rparr>)) = Some r"
  have ll: "safe_with ho (snd r)" if "run cfg (Load pos) c = Some r" "safe_with ho c" for pos c r
    using ih[OF that(1)] that(2) by (simp add: loop_safe_def)
  have hh: "safe_with ho (snd r)" if "run cfg (Handle ig al ext) c = Some r" "safe_with ho c \<and> all_unread c" for ig al ext c r
    using ih[OF that(1)] that(2) by (simp add: loop_safe_def)
  show "loop_safe ho which c r"
  proof (cases which)
    case (Load pos)
    then have "pending_find pos c = None \<and> r = (ERR_SUCCESS, c) \<or> r = (ERR_TIMEOUT, c) \<or>
        (\<exists>ev evs. load_event cfg (run cfg (Handle True False False)) (run cfg (Load pos)) ev pos (c\<lparr>ofb_events := evs\<rparr>) = Some r)"
      using a by (auto split: if_splits list.splits)
    moreover have "safe_with ho c \<Longrightarrow> safe_with ho (snd r)"
      if "load_event cfg (run cfg (Handle True False False)) (run cfg (Load pos)) ev pos (c\<lparr>ofb_events := evs\<rparr>) = Some r" for ev evs
      using load_event_safe[OF ll hh that] by simp
    ultimately show ?thesis unfolding Load loop_safe_def by auto
  next
    case (Handle ig al ext)
    let ?load = "\<lambda>pos. start_load cfg (run cfg (Load pos)) pos"
    have "safe_with ho e" if "start_load cfg (run cfg (Load pos)) pos d = Some (rc, e)" "safe_with ho d" for pos d rc e
      by (rule start_load_safe[OF _ that]) (rule ll)
    then have ls: "load_safe ho ?load" unfolding load_safe_def by blast
    show ?thesis
    proof (cases "bufptr c = []")
      case True
      then have "r = (ERR_CONTINUE, c)" using a Handle by simp
      then show ?thesis using Handle by (simp add: loop_safe_def)
    next
      case False
      obtain d where d: "state_step cfg ig al ext ?load (c\<lparr>bufptr_bytes_done := 0\<rparr>) = Some d"
        "(case fst (after_state ig d) of Some err \<Rightarrow> Some (err, snd (after_state ig d)) | None \<Rightarrow> run cfg which (snd (after_state ig d))) = Some r"
        using a False Handle by (auto simp: bind_eq_Some_conv)
      show ?thesis unfolding loop_safe_def
      proof
        assume s: "safe_with ho c \<and> (case which of Handle ig al ext \<Rightarrow> all_unread c | Load pos \<Rightarrow> True)"
        have "safe_with ho d \<and> part_read d"
          by (rule state_step_safe[OF ls _ _ _ _ d(1)]) (use s False Handle in \<open>simp_all add: all_unread_def\<close>)
        then have f: "safe_with ho (snd (after_state ig d)) \<and> all_unread (snd (after_state ig d))"
          using after_state_safe by blast
        show "safe_with ho (snd r) \<and> (case which of Handle ig al ext \<Rightarrow> all_unread (snd r) | Load pos \<Rightarrow> True)"
        proof (cases "fst (after_state ig d)")
          case None
          then have "run cfg which (snd (after_state ig d)) = Some r" using d(2) by simp
          from ih[OF this] show ?thesis using f Handle by (simp add: loop_safe_def)
        next
          case (Some err)
          then have "r = (err, snd (after_state ig d))" using d(2) by simp
          then show ?thesis using f Handle by simp
        qed
      qed
    qed
  qed
qed

section \<open>Requests\<close>

lemma keeps_skip_sparse: "skip_sparse cfg c = Some d \<Longrightarrow> keeps c d"
proof (erule skip_sparse.raw_induct[where P = "\<lambda>cfg c d. keeps c d", rotated])
  fix skip :: "client_config \<Rightarrow> chunk_client \<Rightarrow> chunk_client option" and cfg :: client_config and c d :: chunk_client
  assume ih: "\<And>cfg c d. skip cfg c = Some d \<Longrightarrow> keeps c d"
  assume a: "(case curr_sparse_extent c of None \<Rightarrow> Some c
      | Some (off, sz) \<Rightarrow>
          if next_chunk c * int c_checkpoint_dist < off then
            case fc_extent_iterator c of None \<Rightarrow> None
            | Some it \<Rightarrow> let (ext, it) = iter_nextExtent (cl_be cfg) it
                in skip cfg (c\<lparr>curr_sparse_extent := ext, fc_extent_iterator := Some it\<rparr>)
          else Some c) = Some d"
  have k: "keeps c (c\<lparr>curr_sparse_extent := e, fc_extent_iterator := i\<rparr>)" for e i by (simp add: keeps_def)
  show "keeps c d" using a keeps_trans[OF k ih] by (auto split: option.splits if_splits prod.splits)
qed

lemma keeps_request_block: "keeps c (snd (request_block c))"
proof -
  have r: "keeps c (snd (read_block_hashes c))" by (auto simp: read_block_hashes_def keeps_def split: prod.split)
  have p: "keeps d (pending_insert pos hs d)" for d pos hs by (simp add: pending_insert_def keeps_def)
  show ?thesis using keeps_trans[OF r p] by (simp add: request_block_def Let_def split_beta)
qed

lemma keeps_sparse_blocks: "keeps c (sparse_blocks cfg hashes off sz c)"
proof -
  have f: "keeps d (fold (\<lambda>i c. hash_write cfg hashes c) xs d)" for d and xs :: "nat list"
    by (induction xs arbitrary: d) (auto intro: keeps_trans[OF keeps_hash(1)])
  have w: "keeps c (write_sparse_hashes cfg hashes n c)" for n
    unfolding write_sparse_hashes_def by (rule keeps_trans[OF keeps_hash(2) f])
  then show ?thesis by (simp add: sparse_blocks_def Let_def keeps_def)
qed

lemma keeps_next_request:
  assumes "next_request cfg hashes c = Some (r, d)"
  shows "keeps c d"
proof -
  obtain e where e: "skip_sparse cfg c = Some e" using assms by (auto simp: next_request_def bind_eq_Some_conv)
  have "keeps e d" using assms e keeps_request_block[of e] keeps_sparse_blocks[of e cfg hashes]
    by (auto simp: next_request_def Let_def apfst_def map_prod_def split: option.splits if_splits prod.splits)
  then show ?thesis by (rule keeps_trans[OF keeps_skip_sparse[OF e]])
qed

section \<open>Pieces and failures\<close>

lemma handle_data_safe: "handle_data cfg ig al ext buf c = Some (rc, d) \<Longrightarrow> safe_with ho c \<Longrightarrow> safe_with ho d"
proof -
  assume "handle_data cfg ig al ext buf c = Some (rc, d)" "safe_with ho c"
  moreover have "loop_safe ho (Handle ig al ext) (start_handle buf c) (rc, d)" using calculation(1) fc_run_safe by (simp add: handle_data_def)
  ultimately show ?thesis by (simp add: loop_safe_def all_unread_def start_handle_def safe_with_def client_safe_def)
qed

lemma copy_hash_data_fields:
  assumes "copy_hash_data cfg ho c = Some e"
  shows "\<exists>ho ch. e = c\<lparr>m_hashoutput := Some ho, m_chunkhashes := ch\<rparr>"
proof -
  obtain n1 h1 where 1: "File_Size ho = (n1, h1)" by fastforce
  obtain ok1 h2 where 2: "File_Seek n1 h1 = (ok1, h2)" by fastforce
  obtain n2 h3 where 3: "File_Size h2 = (n2, h3)" by fastforce
  obtain ok2 ch where 4: "File_Seek n2 (m_chunkhashes c) = (ok2, ch)" by fastforce
  show ?thesis
  proof (cases "ok1 \<and> ok2")
    case True
    obtain ch2 h4 where 5: "copy_hashes cfg ch h3 = Some (ch2, h4)"
      using assms True unfolding copy_hash_data_def Let_def 1 2 3 4 prod.case by (cases "copy_hashes cfg ch h3") auto
    obtain n3 h5 where 6: "File_Size h4 = (n3, h5)" by fastforce
    obtain n4 ch3 where 7: "File_Size ch2 = (n4, ch3)" by fastforce
    have "e = c\<lparr>m_hashoutput := Some h5, m_chunkhashes := ch3\<rparr>"
      using assms True unfolding copy_hash_data_def Let_def 1 2 3 4 prod.case 5 by (simp add: 6 7 split: if_splits)
    then show ?thesis by blast
  next
    case False
    have "e = c\<lparr>m_hashoutput := Some h2\<rparr> \<or> e = c\<lparr>m_hashoutput := Some h3, m_chunkhashes := ch\<rparr>"
      using assms False unfolding copy_hash_data_def Let_def 1 2 3 4 prod.case by (cases ok1) simp_all
    moreover have "c\<lparr>m_hashoutput := Some h2\<rparr> = c\<lparr>m_hashoutput := Some h2, m_chunkhashes := m_chunkhashes c\<rparr>" by simp
    ultimately show ?thesis by metis
  qed
qed

lemma keeps_adjust:
  assumes "adjustOutputFilesizeOnFailure cfg c = Some (n, d)"
  shows "keeps c d"
proof -
  have cp: "keeps c e" if "copy_hash_data cfg ho c = Some e" "m_hashoutput c \<noteq> None" for ho e
    using copy_hash_data_fields[OF that(1)] that(2) by (auto simp: keeps_def)
  obtain e where e: "(if curr_output_fsize c < hashfilesize c then
         case m_hashoutput c of None \<Rightarrow> Some c | Some ho \<Rightarrow> copy_hash_data cfg ho c else Some c) = Some e"
    "d = hash_write cfg (le_bytes 8 (of_int n :: u64)) (hash_seek 0 (if patch_mode cfg then writePatchSize cfg n e else e))"
    using assms unfolding adjustOutputFilesizeOnFailure_def Let_def by (auto simp: bind_eq_Some_conv)
  have "keeps c e" using e(1) cp by (auto split: if_splits option.splits)
  moreover have "keeps e (if patch_mode cfg then writePatchSize cfg n e else e)" using keeps_writePatchSize by simp
  ultimately show ?thesis unfolding e(2) using keeps_trans keeps_hash by metis
qed

section \<open>Properties\<close>

text \<open>
  C9: The receiver's buffers. Whatever bytes arrive in whatever state of the state machine, with out-of-band loading and reconnections in between:
  the accumulated front of a packet stays inside its 24 bytes, the buffer in front of the patch file is never full when \<open>handle_data\<close>
  returns, and what counts as remaining is exactly the rest of the data.
\<close>

theorem client_buffers_safe:
  assumes "client_safe c" "handle_data cfg ig al ext buf c = Some (rc, d)"
  shows "client_safe d \<and> remaining_bufptr_bytes d = length (bufptr d)"
proof -
  have "loop_safe (m_hashoutput c \<noteq> None) (Handle ig al ext) (start_handle buf c) (rc, d)" using assms(2) fc_run_safe by (simp add: handle_data_def)
  then show ?thesis using assms(1) by (simp add: loop_safe_def all_unread_def start_handle_def safe_with_def client_safe_def)
qed

subsection \<open>The size of the file on the second connection\<close>

definition in_size_packet :: "chunk_client \<Rightarrow> bool" where
  "in_size_packet c \<longleftrightarrow> cs_state c = CS_ID_ACC \<and> curr_id c = ID_FILESIZE \<and> 0 < need_bytes c \<and> packet_buf_off c + need_bytes c \<le> 24 \<and> \<not> getfile_done c"

lemma ignored_size: "curr_id c = ID_FILESIZE \<Longrightarrow> acc_packet cfg True al ext load msg c = Some c"
  by (simp add: acc_packet_def acc_filesize_def packet_ids Let_def)

lemma size_step:
  assumes s: "in_size_packet c" "\<not> reconnected c" "remaining_bufptr_bytes c = length (bufptr c)" "bufptr c \<noteq> []" "bufptr_bytes_done c = 0"
  shows "\<exists>d. state_step cfg True al ext load c = Some d \<and> in_size_packet d \<and> \<not> reconnected d \<and> pending_chunks d = pending_chunks c \<and> 0 < bufptr_bytes_done d \<and>
    bufptr d = bufptr c \<and> remaining_bufptr_bytes d + bufptr_bytes_done d = length (bufptr d)"
proof -
  have i: "cs_state c = CS_ID_ACC" "curr_id c = ID_FILESIZE" "0 < need_bytes c" "packet_buf_off c + need_bytes c \<le> 24" "\<not> getfile_done c"
    using s(1) by (simp_all add: in_size_packet_def)
  show ?thesis
  proof (cases "need_bytes c \<le> length (bufptr c)")
    case True
    then show ?thesis using i s by (simp add: state_step_def State_Acc_def Let_def ignored_size in_size_packet_def)
  next
    case False
    then show ?thesis using i s by (simp add: state_step_def State_Acc_def Let_def in_size_packet_def)
  qed
qed

lemma size_run:
  assumes "in_size_packet c" "\<not> reconnected c" "remaining_bufptr_bytes c = length (bufptr c)"
  shows "\<exists>d. fc_run cfg (Handle True al ext) c = Some (ERR_CONTINUE, d) \<and> in_size_packet d \<and> pending_chunks d = pending_chunks c"
  using assms
proof (induction "length (bufptr c)" arbitrary: c rule: less_induct)
  case less
  show ?case
  proof (cases "bufptr c = []")
    case True
    then show ?thesis using less.prems by (subst fc_run.simps) simp
  next
    case False
    let ?c = "c\<lparr>bufptr_bytes_done := 0\<rparr>"
    have c: "in_size_packet ?c" "\<not> reconnected ?c" "remaining_bufptr_bytes ?c = length (bufptr ?c)" "bufptr ?c \<noteq> []" "bufptr_bytes_done ?c = 0"
      using less.prems False by (simp_all add: in_size_packet_def)
    obtain d where d: "state_step cfg True al ext (\<lambda>pos. start_load cfg (fc_run cfg (Load pos)) pos) ?c = Some d" "in_size_packet d" "\<not> reconnected d"
      "pending_chunks d = pending_chunks ?c" "0 < bufptr_bytes_done d" "bufptr d = bufptr ?c" "remaining_bufptr_bytes d + bufptr_bytes_done d = length (bufptr d)"
      using size_step[OF c, of cfg al ext "\<lambda>pos. start_load cfg (fc_run cfg (Load pos)) pos"] by blast
    let ?d = "d\<lparr>bufptr := drop (bufptr_bytes_done d) (bufptr d)\<rparr>"
    have a: "after_state True d = (None, ?d)" using d(2,3) by (simp add: after_state_def Let_def in_size_packet_def)
    have u: "length (bufptr ?d) < length (bufptr c)" "in_size_packet ?d" "\<not> reconnected ?d" "remaining_bufptr_bytes ?d = length (bufptr ?d)"
      using d c(4) by (simp_all add: in_size_packet_def)
    obtain e where e: "fc_run cfg (Handle True al ext) ?d = Some (ERR_CONTINUE, e)" "in_size_packet e" "pending_chunks e = pending_chunks ?d"
      using less.hyps[OF u] by blast
    have "fc_run cfg (Handle True al ext) c = Some (ERR_CONTINUE, e)"
      by (subst fc_run.simps) (simp add: False d(1) a e(1))
    then show ?thesis using e(2,3) d(4) by simp
  qed
qed

text \<open>\<open>loadChunkOutOfBand\<close> handles one piece after the other, as long as the result is \<open>ERR_CONTINUE\<close>.\<close>

fun handle_pieces :: "client_config \<Rightarrow> byte list list \<Rightarrow> chunk_client \<Rightarrow> chunk_client option" where
  "handle_pieces cfg [] c = Some c"
| "handle_pieces cfg (buf # bufs) c =
     (case handle_data cfg True False False buf c of
        None \<Rightarrow> None
      | Some (rc, c) \<Rightarrow> if rc = ERR_CONTINUE then handle_pieces cfg bufs c else None)"

lemma size_pieces: "in_size_packet c \<Longrightarrow> \<exists>d. handle_pieces cfg bufs c = Some d \<and> in_size_packet d \<and> pending_chunks d = pending_chunks c"
proof (induction bufs arbitrary: c)
  case (Cons buf bufs)
  have "in_size_packet (start_handle buf c)" "\<not> reconnected (start_handle buf c)" "remaining_bufptr_bytes (start_handle buf c) = length (bufptr (start_handle buf c))"
    using Cons.prems by (simp_all add: start_handle_def in_size_packet_def)
  from size_run[OF this, of cfg False False] obtain d where d: "handle_data cfg True False False buf c = Some (ERR_CONTINUE, d)" "in_size_packet d"
    "pending_chunks d = pending_chunks c"
    by (auto simp: handle_data_def start_handle_def)
  then show ?case using Cons.IH[OF d(2)] by simp
qed simp

lemma size_split:
  assumes "cs_state c = CS_ID_FIRST" "\<not> getfile_done c" "length h < 8"
  shows "\<exists>d. handle_data cfg True False False (ID_FILESIZE # h) c = Some (ERR_CONTINUE, d) \<and> in_size_packet d \<and> pending_chunks d = pending_chunks c"
proof -
  let ?c = "(start_handle (ID_FILESIZE # h) c)\<lparr>bufptr_bytes_done := 0\<rparr>" and ?load = "\<lambda>pos. start_load cfg (fc_run cfg (Load pos)) pos"
  have p: "packet_size ID_FILESIZE = Some 8" by (simp add: packet_size_def)
  obtain d where d: "state_step cfg True False False ?load ?c = Some d" "in_size_packet d" "\<not> reconnected d" "pending_chunks d = pending_chunks c"
    "bufptr d = h" "bufptr_bytes_done d = length h" "remaining_bufptr_bytes d = 0"
    using assms by (simp add: state_step_def State_First_def State_Acc_def start_handle_def Let_def p in_size_packet_def)
  let ?d = "d\<lparr>bufptr := []\<rparr>"
  have a: "after_state True d = (None, ?d)" using d by (simp add: after_state_def Let_def in_size_packet_def)
  have "handle_data cfg True False False (ID_FILESIZE # h) c = fc_run cfg (Handle True False False) ?d"
    unfolding handle_data_def by (subst fc_run.simps) (use d(1) a in \<open>simp add: start_handle_def\<close>)
  also have "\<dots> = Some (ERR_CONTINUE, ?d)" by (subst fc_run.simps) simp
  finally show ?thesis using d(2,4) by (simp add: in_size_packet_def)
qed

text \<open>
  C26: A block that is loaded out of band may never arrive. When the packet with the size of the file, the first one on the second connection,
  comes in two pieces, the state machine stays in that packet, because with \<open>ignore_filesize\<close> the state is not set back: whatever arrives
  afterwards, in whatever pieces, is taken for the end of the size packet, and no pending block is ever received.
\<close>

theorem split_size_packet_stuck:
  assumes "cs_state c = CS_ID_FIRST" "\<not> getfile_done c" "length h < 8"
  shows "\<exists>d. handle_pieces cfg ((ID_FILESIZE # h) # bufs) c = Some d \<and> pending_chunks d = pending_chunks c \<and> cs_state d = CS_ID_ACC"
proof -
  obtain d where d: "handle_data cfg True False False (ID_FILESIZE # h) c = Some (ERR_CONTINUE, d)" "in_size_packet d" "pending_chunks d = pending_chunks c"
    using size_split[OF assms, of cfg] by blast
  obtain e where "handle_pieces cfg bufs d = Some e" "in_size_packet e" "pending_chunks e = pending_chunks d" using size_pieces[OF d(2)] by blast
  then show ?thesis using d by (simp add: in_size_packet_def)
qed

section \<open>Examples\<close>

definition sample_md5 :: MD5 where
  "sample_md5 = \<lparr>state = (0, 0, 0, 0), count0 = 0, count1 = 0, buffer = replicate 64 0, digest = replicate 16 0, finalized = False\<rparr>"

definition sample_config :: client_config where
  "sample_config = \<lparr>cl_be = False, nofreespace = None, ofb_answer = (\<lambda>_. []), want_extents = False, temp_file = sample_file [], patch_mode = True\<rparr>"

definition sample_client :: chunk_client where
  "sample_client = \<lparr>m_file = sample_file [], fc_file_pos = 0, m_patchfile = sample_file [], patchfile_pos = 0, m_chunkhashes = sample_file [],
     m_hashoutput = None, last_chunk_patches = [], last_patch_output_fsize = 0, patch_buf = [], patch_buf_start = 0, next_chunk = 0,
     num_chunks = 0, remote_filesize = - 1, num_total_chunks = 0, curr_output_fsize = 0, queued_chunks = 0, cs_state = CS_ID_FIRST,
     curr_id = 0, need_bytes = 0, total_need_bytes = 0, packet_buf = replicate 24 0, packet_buf_off = 0, whole_block_remaining = 0,
     hash_for_whole_block = False, bufptr = [], remaining_bufptr_bytes = 0, bufptr_bytes_done = 0, chunk_start = 0, block_for_chunk_start = - 1,
     md5_hash = sample_md5, adler_hash = 0, adler_remaining = 0, block_pos = 0, retval = ERR_SUCCESS, getfile_done = False, pending_chunks = [],
     reconnected = False, hashfilesize = 0, errorcode1 = 0, errorcode2 = 0, reconnect_tries = 50, attempts = [Connection True], next_client = None,
     ofb_pipe = None, ofb_events = [], ofb_attempts = [], fc_sparse_extents_f = None, fc_extent_iterator = None, curr_sparse_extent = None\<rparr>"

theorem client_buffers_safe_witness:
  "\<exists>d. handle_data sample_config True False False (ID_FILESIZE # [1, 2]) sample_client = Some (ERR_CONTINUE, d) \<and> client_safe d \<and>
     remaining_bufptr_bytes d = length (bufptr d)"
proof -
  have c: "client_safe sample_client" "cs_state sample_client = CS_ID_FIRST" "\<not> getfile_done sample_client" "length [1, 2 :: byte] < 8"
    by (simp_all add: client_safe_def sample_client_def c_chunk_size_def)
  obtain d where "handle_data sample_config True False False (ID_FILESIZE # [1, 2]) sample_client = Some (ERR_CONTINUE, d)"
    using size_split[OF c(2-4), of sample_config] by blast
  then show ?thesis using client_buffers_safe[OF c(1)] by blast
qed

theorem split_size_packet_stuck_witness:
  "\<exists>d. handle_pieces sample_config [[ID_FILESIZE, 1, 2], [0, 0, 0, 0, 0, 0], [ID_BLOCK_HASH, 0]] (sample_client\<lparr>pending_chunks := [(0, [])]\<rparr>) = Some d \<and>
     pending_chunks d = [(0, [])] \<and> cs_state d = CS_ID_ACC"
  using split_size_packet_stuck[of "sample_client\<lparr>pending_chunks := [(0, [])]\<rparr>" "[1, 2]" sample_config "[[0, 0, 0, 0, 0, 0], [ID_BLOCK_HASH, 0]]"]
  by (simp add: sample_client_def)

end
