(* ===== verification/Client_Session.thy ===== *)
theory Client_Session
  imports Client_Checksums Client_Safe Patch_File
begin

text \<open>
  The transfer of a file from the start to the end: the server asks for blocks, the client answers in the order of the requests, the
  answers arrive in pieces of any size, and the connection may be lost and opened again at any time.
\<close>

section \<open>Requests\<close>

definition request_of :: "byte list \<Rightarrow> nat \<Rightarrow> byte list" where
  "request_of old k = (if k < nblocks old then block_request (int (blockdist * k)) 0 (stored_hashes old k) else block_request (int (blockdist * k)) 1 [])"

lemma hash_file_slot:
  assumes k: "k < nblocks old"
  shows "take 528 (drop (8 + 528 * k) (hash_file old)) = chunk_hash False (new_block old k)"
proof -
  let ?h = "chunk_hash False (new_block old k)"
  have pl: "length (hash_prefix old k) = 8 + 528 * k" by (rule length_hash_prefix'[OF k])
  have hl: "length ?h \<le> 528"
    using new_block_le[of old k] by (simp add: length_chunk_hash length_chunks_of)
  show ?thesis
  proof (cases "Suc k = nblocks old")
    case True
    have "hash_file old = hash_prefix old k @ ?h" unfolding hash_prefix_all[symmetric] True[symmetric] hash_prefix_Suc ..
    then show ?thesis using pl hl by simp
  next
    case False
    then have l: "length ?h = 528" using k by (intro length_block_hash block_full) simp
    have s: "starts (hash_file old) (hash_prefix old (Suc k))"
    proof -
      have "[0..<nblocks old] = [0..<Suc k] @ [Suc k..<nblocks old]" using k upt_add_eq_append[of 0 "Suc k" "nblocks old - Suc k"] by simp
      then have "\<exists>z. hash_file old = hash_prefix old (Suc k) @ z" unfolding hash_prefix_all[symmetric] by (simp add: hash_prefix_def)
      then show ?thesis by (auto simp: starts_def)
    qed
    have "take (length (hash_prefix old k) + 528) (hash_file old) = hash_prefix old k @ ?h"
      using s l unfolding starts_def hash_prefix_Suc by simp
    then have "drop (length (hash_prefix old k)) (take (length (hash_prefix old k) + 528) (hash_file old)) = ?h" by simp
    then show ?thesis unfolding drop_take pl by simp
  qed
qed

lemma slot_nonempty: "chunk_hash False b \<noteq> []"
  using length_chunk_hash[of False b] by (cases "chunk_hash False b") auto

lemma request_block_ok:
  assumes b: "client_base cfg old new k (c\<lparr>reconnected := False\<rparr>)" and j: "asked c = j"
  shows "\<exists>f. request_block c = (request_of old j, pending_insert (int (blockdist * j)) (stored_hashes old j) (c\<lparr>m_chunkhashes := f\<rparr>)) \<and>
    no_fault f \<and> fbytes f = hash_file old"
proof -
  have nf: "no_fault (m_chunkhashes c)" "fbytes (m_chunkhashes c) = hash_file old" and nc: "num_chunks c = int (nblocks old)"
    and nn: "next_chunk c = int j"
    using b j by (auto simp: client_base_def pending_from_def)
  have pos: "next_chunk c * int c_checkpoint_dist = int (blockdist * j)" by (simp add: nn)
  have sz: "chunkhash_single_size = 528" "chunkhash_file_off = 8" by (simp_all add: chunk_settings)
  show ?thesis
  proof (cases "j < nblocks old")
    case True
    let ?h = "chunk_hash False (new_block old j)"
    have p: "int chunkhash_file_off + next_chunk c * int chunkhash_single_size = int (8 + 528 * j)" by (simp add: sz nn)
    obtain g where g: "File_Seek (int (8 + 528 * j)) (m_chunkhashes c) = (True, g)" "file_at g (hash_file old) (8 + 528 * j)"
      using seek_true[OF nf(1), of "8 + 528 * j"] nf(2) by auto
    obtain f where f: "File_Read 528 g = (?h, False, f)" "file_at f (hash_file old) (8 + 528 * j + length ?h)"
      using read_at[OF g(2), of 528] hash_file_slot[OF True] by auto
    have "read_block_hashes c = (?h, c\<lparr>m_chunkhashes := f\<rparr>)"
      unfolding read_block_hashes_def p unfolding sz g(1) Let_def prod.case f(1) using True nn nc by simp
    then have "request_block c = (request_of old j, pending_insert (int (blockdist * j)) (stored_hashes old j) (c\<lparr>m_chunkhashes := f\<rparr>))"
      unfolding request_block_def Let_def pos sz using slot_nonempty True by (simp add: request_of_def stored_hashes_def Let_def)
    then show ?thesis using f(2) by (intro exI[of _ f]) (simp add: file_at_def)
  next
    case False
    have "read_block_hashes c = ([], c)" unfolding read_block_hashes_def using False nn nc by simp
    then have "request_block c = (request_of old j, pending_insert (int (blockdist * j)) (stored_hashes old j) (c\<lparr>m_chunkhashes := m_chunkhashes c\<rparr>))"
      unfolding request_block_def Let_def pos sz using False by (simp add: request_of_def stored_hashes_def)
    then show ?thesis using nf by (intro exI[of _ "m_chunkhashes c"]) simp
  qed
qed

lemma next_request_ok:
  assumes b: "client_base cfg old new k (c\<lparr>reconnected := False\<rparr>)"
  shows "\<exists>c'. next_request cfg sp c = Some (Some (request_of old (asked c)), c') \<and>
    (\<exists>f. block_requested c' = c\<lparr>m_chunkhashes := f, pending_chunks := pending_chunks c @ [(int (blockdist * asked c), stored_hashes old (asked c))],
      queued_chunks := Suc (queued_chunks c), next_chunk := next_chunk c + 1\<rparr> \<and> no_fault f \<and> fbytes f = hash_file old)"
proof -
  obtain f where f: "request_block c = (request_of old (asked c), pending_insert (int (blockdist * asked c)) (stored_hashes old (asked c)) (c\<lparr>m_chunkhashes := f\<rparr>))"
    "no_fault f" "fbytes f = hash_file old"
    using request_block_ok[OF b refl] by blast
  have ce: "curr_sparse_extent c = None" using b by (simp add: client_base_def)
  have sk: "skip_sparse cfg c = Some c" by (subst skip_sparse.simps) (simp add: ce)
  have pe: "pending_chunks c = map (\<lambda>j. (int (blockdist * j), stored_hashes old j)) [k..<asked c]" using b by (simp add: client_base_def pending_from_def)
  have "map_of (pending_chunks c) (int (blockdist * asked c)) = None"
    unfolding pe map_of_eq_None_iff using blockdist_pos by auto
  then have pi: "pending_insert (int (blockdist * asked c)) (stored_hashes old (asked c)) (c\<lparr>m_chunkhashes := f\<rparr>) =
      c\<lparr>m_chunkhashes := f, pending_chunks := pending_chunks c @ [(int (blockdist * asked c), stored_hashes old (asked c))]\<rparr>"
    by (simp add: pending_insert_def pending_find_def)
  have "next_request cfg sp c = Some (Some (request_of old (asked c)), pending_insert (int (blockdist * asked c)) (stored_hashes old (asked c)) (c\<lparr>m_chunkhashes := f\<rparr>))"
    unfolding next_request_def sk using ce f(1) by simp
  then show ?thesis unfolding pi using f(2,3) by (intro exI[of _ "c\<lparr>m_chunkhashes := f, pending_chunks := pending_chunks c @ [(int (blockdist * asked c), stored_hashes old (asked c))]\<rparr>"])
      (auto simp: block_requested_def)
qed

text \<open>A request in the middle of an answer: what is to come is longer.\<close>

definition ask_upd :: "byte list \<Rightarrow> File \<Rightarrow> chunk_client \<Rightarrow> chunk_client" where
  "ask_upd old f c = c\<lparr>m_chunkhashes := f, pending_chunks := pending_chunks c @ [(int (blockdist * asked c), stored_hashes old (asked c))],
     queued_chunks := Suc (queued_chunks c), next_chunk := next_chunk c + 1\<rparr>"

definition may_ask :: "byte list \<Rightarrow> byte list \<Rightarrow> File \<Rightarrow> chunk_client \<Rightarrow> bool" where
  "may_ask old new f c \<longleftrightarrow> no_fault f \<and> fbytes f = hash_file old \<and> asked c < nblocks new \<and> size_known new c"

lemma answers_more: "k \<le> l \<Longrightarrow> answers old new k (Suc l) = answers old new k l @ answer old new l"
  by (simp add: answers_def)

lemma ask_base:
  assumes a: "may_ask old new f c" and b: "client_base cfg old new k c"
  shows "client_base cfg old new k (ask_upd old f c)" "asked (ask_upd old f c) = Suc (asked c)" "k \<le> asked c"
proof -
  have p: "pending_from old k c" "0 \<le> next_chunk c" "k \<le> asked c" using b by (auto simp: client_base_def pending_from_def)
  show n: "asked (ask_upd old f c) = Suc (asked c)" using p(2) by (simp add: ask_upd_def nat_add_distrib)
  show "k \<le> asked c" by (rule p(3))
  have "pending_from old k (ask_upd old f c)"
    unfolding pending_from_def n using p by (simp add: pending_from_def ask_upd_def)
  moreover have "asked (ask_upd old f c) \<le> nblocks new" using a n by (simp add: may_ask_def)
  ultimately show "client_base cfg old new k (ask_upd old f c)"
    unfolding client_base_def using b a by (simp add: client_base_def ask_upd_def may_ask_def)
qed

lemma ask_frame:
  "size_known new (ask_upd old f c) = size_known new c" "hashes_fit new Q (ask_upd old f c) = hashes_fit new Q c" "ho_all R (ask_upd old f c) = ho_all R c"
  "patch_rep fs items cur (ask_upd old f c) = patch_rep fs items cur c"
  by (simp_all add: ask_upd_def size_known_def hashes_fit_def ho_all_def patch_rep_def)

lemma ask_fields:
  "patch_buf (ask_upd old f c) = patch_buf c" "block_for_chunk_start (ask_upd old f c) = block_for_chunk_start c" "md5_hash (ask_upd old f c) = md5_hash c"
  "chunk_start (ask_upd old f c) = chunk_start c" "hash_for_whole_block (ask_upd old f c) = hash_for_whole_block c" "m_patchfile (ask_upd old f c) = m_patchfile c"
  "patchfile_pos (ask_upd old f c) = patchfile_pos c" "last_chunk_patches (ask_upd old f c) = last_chunk_patches c"
  "adler_hash (ask_upd old f c) = adler_hash c" "adler_remaining (ask_upd old f c) = adler_remaining c"
  "whole_block_remaining (ask_upd old f c) = whole_block_remaining c" "cs_state (ask_upd old f c) = cs_state c"
  by (simp_all add: ask_upd_def)

lemma ask_taking: "taking new items cur p d (ask_upd old f c) = taking new items cur p d c"
  by (rule taking_frame) (simp_all add: ask_upd_def)

lemma ask_blk:
  assumes a: "may_ask old new f c" and "in_blk cfg old new k items c"
  shows "in_blk cfg old new k items (ask_upd old f c)"
proof -
  have b: "client_base cfg old new k c" "k < asked c" using assms(2) by (simp_all add: in_blk_def)
  show ?thesis unfolding in_blk_def ask_fields ask_frame using assms(2) ask_base[OF a b(1)] by (simp add: in_blk_def)
qed

lemma ask_states:
  assumes a: "may_ask old new f c"
  shows "at_start cfg old new k c \<Longrightarrow> at_start cfg old new k (ask_upd old f c)"
    "at_block cfg old new k c \<Longrightarrow> at_block cfg old new k (ask_upd old f c)"
    "in_updates cfg old new k i c \<Longrightarrow> in_updates cfg old new k i (ask_upd old f c)"
    "whole_done cfg old new k c \<Longrightarrow> whole_done cfg old new k (ask_upd old f c)"
    "in_chunk cfg old new k i d r c \<Longrightarrow> in_chunk cfg old new k i d r (ask_upd old f c)"
    "in_whole cfg old new k d r c \<Longrightarrow> in_whole cfg old new k d r (ask_upd old f c)"
proof -
  have "size_known new c" using a by (simp add: may_ask_def)
  then show "at_start cfg old new k (ask_upd old f c)" if "at_start cfg old new k c"
    using that unfolding at_start_def ask_frame ask_fields using ask_base(1)[OF a] by blast
  show "at_block cfg old new k (ask_upd old f c)" if "at_block cfg old new k c"
    using that unfolding at_block_def ask_frame ask_fields ask_taking using ask_base(1)[OF a] ask_blk[OF a] by blast
  show "in_updates cfg old new k i (ask_upd old f c)" if "in_updates cfg old new k i c"
    using that unfolding in_updates_def ask_frame ask_fields ask_taking using ask_base(1)[OF a] ask_blk[OF a] by blast
  show "whole_done cfg old new k (ask_upd old f c)" if "whole_done cfg old new k c"
    using that unfolding whole_done_def ask_frame ask_fields ask_taking using ask_base(1)[OF a] ask_blk[OF a] by blast
  show "in_chunk cfg old new k i d r (ask_upd old f c)" if "in_chunk cfg old new k i d r c"
    using that unfolding in_chunk_def ask_frame ask_fields ask_taking using ask_base(1)[OF a] ask_blk[OF a] by blast
  show "in_whole cfg old new k d r (ask_upd old f c)" if "in_whole cfg old new k d r c"
    using that unfolding in_whole_def ask_frame ask_fields ask_taking using ask_base(1)[OF a] ask_blk[OF a] by blast
qed

lemma ask_answers:
  assumes "may_ask old new f c" "client_base cfg old new k c" "j \<le> asked c"
  shows "answers old new j (asked (ask_upd old f c)) = answers old new j (asked c) @ answer old new (asked c)"
  unfolding ask_base(2)[OF assms(1,2)] by (rule answers_more[OF assms(3)])

lemma ask_expects:
  assumes a: "may_ask old new f c" and e: "expects cfg old new c ms"
  shows "expects cfg old new (ask_upd old f c) (ms @ answer old new (asked c))"
  using e[unfolded expects_def]
proof (elim disjE exE conjE)
  fix k assume c: "at_start cfg old new k c" "ms = File_Size_Msg (length new) # answers old new k (asked c)"
  have b: "client_base cfg old new k c" using c(1) by (simp add: at_start_def)
  have "ms @ answer old new (asked c) = File_Size_Msg (length new) # answers old new k (asked (ask_upd old f c))"
    using c(2) ask_answers[OF a b] ask_base(3)[OF a b] by simp
  then show "expects cfg old new (ask_upd old f c) (ms @ answer old new (asked c))" unfolding expects_def using ask_states(1)[OF a c(1)] by blast
next
  fix k assume c: "at_block cfg old new k c" "ms = answers old new k (asked c)"
  have b: "client_base cfg old new k c" using c(1) by (simp add: at_block_def)
  have "ms @ answer old new (asked c) = answers old new k (asked (ask_upd old f c))"
    using c(2) ask_answers[OF a b] ask_base(3)[OF a b] by simp
  then show "expects cfg old new (ask_upd old f c) (ms @ answer old new (asked c))" unfolding expects_def using ask_states(2)[OF a c(1)] by blast
next
  fix k i assume c: "in_updates cfg old new k i c" "k < nblocks old" "ms = upd_rest old new k i @ answers old new (Suc k) (asked c)"
  have b: "client_base cfg old new k c" "Suc k \<le> asked c" using block_base(1)[OF c(1)] by simp_all
  have "ms @ answer old new (asked c) = upd_rest old new k i @ answers old new (Suc k) (asked (ask_upd old f c))"
    using c(3) ask_answers[OF a b(1)] b(2) by simp
  then show "expects cfg old new (ask_upd old f c) (ms @ answer old new (asked c))" unfolding expects_def using ask_states(3)[OF a c(1)] c(2) by blast
next
  fix k assume c: "whole_done cfg old new k c" "ms = Hash (blockdist * k) (md5_of (new_block new k)) # answers old new (Suc k) (asked c)"
  have b: "client_base cfg old new k c" "Suc k \<le> asked c" using block_base(2)[OF c(1)] by simp_all
  have "ms @ answer old new (asked c) = Hash (blockdist * k) (md5_of (new_block new k)) # answers old new (Suc k) (asked (ask_upd old f c))"
    using c(2) ask_answers[OF a b(1)] b(2) by simp
  then show "expects cfg old new (ask_upd old f c) (ms @ answer old new (asked c))" unfolding expects_def using ask_states(4)[OF a c(1)] by blast
qed

lemma ask_phase:
  assumes a: "may_ask old new f c" and p: "in_phase cfg old new c bs"
  shows "in_phase cfg old new (ask_upd old f c) (bs @ msgs_bytes (answer old new (asked c)))"
proof (cases "cs_state c")
  case CS_ID_FIRST
  obtain ms where e: "expects cfg old new c ms" "bs = msgs_bytes ms" using p unfolding in_phase_def CS_ID_FIRST chunked_state.case by blast
  have "bs @ msgs_bytes (answer old new (asked c)) = msgs_bytes (ms @ answer old new (asked c))" using e(2) by simp
  then show ?thesis unfolding in_phase_def ask_fields CS_ID_FIRST chunked_state.case using ask_expects[OF a e(1)] by blast
next
  case CS_ID_ACC
  obtain m ms off where e: "expects cfg old new c (m # ms)" "in_head m off c" "bs = drop off (msg_head m) @ msg_data m @ msgs_bytes ms"
    using p unfolding in_phase_def CS_ID_ACC chunked_state.case by blast
  have x: "expects cfg old new (ask_upd old f c) (m # ms @ answer old new (asked c))" using ask_expects[OF a e(1)] by simp
  have h: "in_head m off (ask_upd old f c)" using e(2) by (simp add: in_head_def ask_upd_def)
  have "bs @ msgs_bytes (answer old new (asked c)) = drop off (msg_head m) @ msg_data m @ msgs_bytes (ms @ answer old new (asked c))" using e(3) by simp
  then show ?thesis unfolding in_phase_def ask_fields CS_ID_ACC chunked_state.case using x h by blast
next
  case CS_BLOCK
  obtain k d r where c: "in_whole cfg old new k d r c" "r \<noteq> []"
    "bs = r @ msgs_bytes (Hash (blockdist * k) (md5_of (new_block new k)) # answers old new (Suc k) (asked c))"
    using p unfolding in_phase_def CS_BLOCK chunked_state.case by blast
  have b: "client_base cfg old new k c" "Suc k \<le> asked c" using block_base(4)[OF c(1)] by simp_all
  have "bs @ msgs_bytes (answer old new (asked c)) =
      r @ msgs_bytes (Hash (blockdist * k) (md5_of (new_block new k)) # answers old new (Suc k) (asked (ask_upd old f c)))"
    using c(3) ask_answers[OF a b(1)] b(2) by simp
  then show ?thesis unfolding in_phase_def ask_fields CS_BLOCK chunked_state.case using ask_states(6)[OF a c(1)] c(2) by blast
next
  case CS_CHUNK
  obtain k i d r where c: "in_chunk cfg old new k i d r c" "r \<noteq> []" "k < nblocks old"
    "bs = r @ msgs_bytes (upd_rest old new k (Suc i) @ answers old new (Suc k) (asked c))"
    using p unfolding in_phase_def CS_CHUNK chunked_state.case by blast
  have b: "client_base cfg old new k c" "Suc k \<le> asked c" using block_base(3)[OF c(1)] by simp_all
  have "bs @ msgs_bytes (answer old new (asked c)) =
      r @ msgs_bytes (upd_rest old new k (Suc i) @ answers old new (Suc k) (asked (ask_upd old f c)))"
    using c(4) ask_answers[OF a b(1)] b(2) by simp
  then show ?thesis unfolding in_phase_def ask_fields CS_CHUNK chunked_state.case using ask_states(5)[OF a c(1)] c(2,3) by blast
next
  case CS_SPARSE_EXTENTS
  then show ?thesis using p by (simp add: in_phase_def)
qed

section \<open>Requests at the other side\<close>

text \<open>
  \<open>CClientThread::ProcessPacket\<close> for a request in the state \<open>CS_BLOCKHASH\<close>, which \<open>GetFileBlockdiff\<close> has set; other packets are not
  part of a transfer.
\<close>

definition process_request :: "bool \<Rightarrow> byte list \<Rightarrow> SChunk option" where
  "process_request be msg =
     (case getUChar (cr_set msg (of_nat (length msg)) False) of
        (None, data) \<Rightarrow> None
      | (Some ident, data) \<Rightarrow> if ident = ID_BLOCK_REQUEST then Handle_ID_BLOCK_REQUEST be data else None)"

lemma getRaw_at:
  assumes "streampos r = of_nat k" "datalen r = of_nat n" "rd_data r = msg" "length msg = n" "k + m \<le> n" "n < 1000"
  shows "getRaw m r = (Some (take m (drop k msg)), r\<lparr>streampos := of_nat (k + m)\<rparr>)"
proof -
  have u: "unat (of_nat x :: u64) = x" if "x < 1000" for x using that by (simp add: unat_of_nat take_bit_nat_eq_self)
  have "\<not> (of_nat k + of_nat m :: u64) > of_nat n" using assms(5,6) u[of "k + m"] u[of n] by (simp add: word_less_nat_alt)
  then show ?thesis using assms u[of k] by (simp add: getRaw_def)
qed

lemma process_block_request:
  assumes l: "length hs = 528 \<or> hs = [] \<and> all \<noteq> 0" and p: "p < 2 ^ 63"
  shows "process_request be (block_request (int p) all hs) =
    Some \<lparr>startpos = int p, transfer_all = all, sent_big_hash = take 16 hs, sent_small_hash = drop 16 hs\<rparr>"
proof -
  define msg where "msg = block_request (int p) all hs"
  define n where "n = length msg"
  have n: "n = 10 + length hs" "n < 1000" using l by (auto simp: n_def msg_def block_request_def)
  define r where "r = cr_set msg (of_nat (length msg)) False"
  have r: "streampos r = of_nat 0" "datalen r = of_nat n" "rd_data r = msg"
    using n(2) by (simp_all add: r_def cr_set_def n_def min_def word_le_nat_alt unat_of_nat take_bit_nat_eq_self)
  have lm: "length msg = n" by (simp add: n_def)
  have ms: "take 1 (drop 0 msg) = [ID_BLOCK_REQUEST]" "take 8 (drop 1 msg) = le_bytes 8 (of_int (int p) :: u64)"
    "take 1 (drop 9 msg) = [all]" "drop 10 msg = hs"
    by (simp_all add: msg_def block_request_def numeral_eq_Suc)
  let ?r1 = "r\<lparr>streampos := of_nat (0 + 1)\<rparr>" let ?r2 = "?r1\<lparr>streampos := of_nat (1 + 8)\<rparr>" let ?r3 = "?r2\<lparr>streampos := of_nat (9 + 1)\<rparr>"
  have g1: "getUChar r = (Some ID_BLOCK_REQUEST, ?r1)"
    using getRaw_at[OF r lm, of 1] n ms(1) by (simp add: getUChar_def)
  have "getRaw 8 ?r1 = (Some (le_bytes 8 (of_int (int p) :: u64)), ?r2)"
    using getRaw_at[of ?r1 1 n msg 8] r lm n ms(2) by simp
  then have g2: "getInt64 be ?r1 = (Some (of_int (int p)), ?r2)" by (simp add: getInt64_def)
  have g3: "getChar ?r2 = (Some all, ?r3)"
    using getRaw_at[of ?r2 9 n msg 1] r lm n ms(3) by (simp add: getChar_def)
  have sp: "unat (streampos ?r3) = 10" by simp
  have lf: "getLeft ?r3 = of_nat (length hs)"
    using r(2) n(1) l by (auto simp: getLeft_def)
  have sz: "big_hash_size + small_hash_size * (c_checkpoint_dist div c_small_hash_dist) = 528" "small_hash_size * (c_checkpoint_dist div c_small_hash_dist) = 512"
    by (simp_all add: chunk_settings)
  have si: "sint (of_int (int p) :: u64) = int p" using sint_of_nat64[OF p] by simp
  have hs: "take 512 (drop 16 hs) = drop 16 hs" using l by auto
  have "Handle_ID_BLOCK_REQUEST be ?r1 = Some \<lparr>startpos = int p, transfer_all = all, sent_big_hash = take 16 hs, sent_small_hash = drop 16 hs\<rparr>"
    unfolding Handle_ID_BLOCK_REQUEST_def g2 prod.case option.case g3 Let_def sp sz lf si
    using l hs r(3) ms(4) by (auto simp: big_hash_size_def)
  then show ?thesis using g1 by (simp add: process_request_def r_def[symmetric] msg_def[symmetric])
qed

lemma process_request_of:
  assumes j: "j < nblocks new" and l: "length new < 2 ^ 63"
  shows "\<exists>chunk. process_request be (request_of old j) = Some chunk \<and> startpos chunk = int (blockdist * j) \<and>
    (transfer_all chunk = 0 \<longrightarrow> length (sent_small_hash chunk) = 512) \<and> request_answer new (length old) chunk = answer old new j"
proof -
  have p: "blockdist * j < 2 ^ 63" by (rule pos_small[OF j l])
  have pn: "nat (int blockdist * int j) = blockdist * j" by (metis nat_int of_nat_mult)
  show ?thesis
  proof (cases "j < nblocks old")
    case True
    have "length (stored_hashes old j) = 528 \<or> stored_hashes old j = [] \<and> (0 :: byte) \<noteq> 0" using length_stored_hashes[of old j] by simp
    from process_block_request[OF this p, of be] show ?thesis
      using True length_stored_hashes[of old j] by (simp add: request_of_def request_answer_def answer_def pn)
  next
    case False
    have "length [] = 528 \<or> [] = [] \<and> (1 :: byte) \<noteq> 0" by simp
    from process_block_request[OF this p, of be] show ?thesis
      using False by (simp add: request_of_def request_answer_def answer_def pn)
  qed
qed

lemma request_served:
  assumes j: "j < nblocks new" and l: "length new < 2 ^ 63" and s: "sender_ok new (length old) s"
  shows "\<exists>chunk s'. process_request be (request_of old j) = Some chunk \<and> sendChunk be chunk s = Some (True, s') \<and> sender_ok new (length old) s' \<and>
    sent_data s' = sent_data s @ msgs_bytes (answer old new j)"
proof -
  obtain chunk where c: "process_request be (request_of old j) = Some chunk" "startpos chunk = int (blockdist * j)"
    "transfer_all chunk = 0 \<longrightarrow> length (sent_small_hash chunk) = 512" "request_answer new (length old) chunk = answer old new j"
    using process_request_of[OF j l, of be old] by blast
  have "in_block new (blockdist * j)" using j l by (simp add: in_block_def less_nblocks)
  from sendChunk_answer[OF s this c(2,3), of be] show ?thesis using c(1,4) by auto
qed

section \<open>Reconnecting\<close>

text \<open>What a new connection does not lose: the finished blocks.\<close>

definition kept :: "client_config \<Rightarrow> byte list \<Rightarrow> byte list \<Rightarrow> nat \<Rightarrow> chunk_client \<Rightarrow> bool" where
  "kept cfg old new k c \<longleftrightarrow> client_base cfg old new k (c\<lparr>reconnected := False\<rparr>) \<and> k < nblocks new \<and>
     (\<exists>items cur p. (file_at (m_patchfile c) [] p \<and> patchfile_pos c = 0 \<and> items = [] \<and> cur = [] \<and> last_chunk_patches c = [] \<or>
        patch_rep (length new) items cur c) \<and> small_items cur \<and> covers old (upto_block new k) items (take (upto_block new k) new)) \<and>
     ho_all (\<lambda>bs p. k = 0 \<or> starts bs (hash_prefix new k)) c"

lemma kept_blk:
  assumes b: "in_blk cfg old new k items c" and p: "patch_rep (length new) items cur c" "small_items cur"
    and h: "hashes_fit new Q c" "\<And>bs p. Q bs p \<Longrightarrow> starts bs (hash_prefix new k)"
  shows "kept cfg old new k c"
proof -
  have cb: "client_base cfg old new k c" "k < asked c" and cv: "covers old (blockdist * k) items (take (blockdist * k) new)"
    using b by (simp_all add: in_blk_def)
  have k: "k < nblocks new" using base_asked[OF cb(1)] cb(2) by simp
  have "ho_all (\<lambda>bs p. k = 0 \<or> starts bs (hash_prefix new k)) c"
    using h(1) unfolding hashes_fit_def by (rule ho_all_mono) (use h(2) in blast)
  moreover have "client_base cfg old new k (c\<lparr>reconnected := False\<rparr>)" using cb(1) by (simp add: client_base_def pending_from_def)
  ultimately show ?thesis unfolding kept_def upto_block_eq[OF k] using k p cv by blast
qed

lemma slot_words_prefix: "slot_words new k ws bs \<Longrightarrow> starts bs (hash_prefix new k)"
  unfolding slot_words_def by (auto intro: starts_prefix)

lemma at_words_prefix: "at_words new k ws bs p \<Longrightarrow> starts bs (hash_prefix new k)"
  unfolding at_words_def using slot_words_prefix by blast

lemma taking_rep: "taking new items cur q d c \<Longrightarrow> small_items cur \<Longrightarrow> \<exists>cur'. patch_rep (length new) items cur' c \<and> small_items cur'"
proof -
  assume t: "taking new items cur q d c" and s: "small_items cur"
  obtain cur1 b where c: "buf_rep (length new) items (cur @ cur1) (q + length d) b c" "contig q cur1" using t unfolding taking_def by blast
  have "small_items (cur @ cur1)" using s contig_small[OF c(2)] by (auto simp: small_items_def)
  then show ?thesis using c(1) by (auto simp: buf_rep_def)
qed

lemma kept_chunk:
  assumes "in_chunk cfg old new k i d r c"
  shows "kept cfg old new k c"
proof -
  obtain items cur w where b: "in_blk cfg old new k items c" "have_upto old new k items cur (blockdist * k + 4096 * i) w"
    "taking new items cur (blockdist * k + 4096 * i) d c"
    using assms unfolding in_chunk_def by blast
  have "small_items cur" using b(2) by (simp add: have_upto_def)
  from taking_rep[OF b(3) this] obtain cur' where p: "patch_rep (length new) items cur' c" "small_items cur'" by blast
  have h: "hashes_fit new (\<lambda>bs p. slot_words new k (concat (upd_words (small_hashes old k) (new_block new k) i)) bs \<and> p = 8 + 528 * k + 16 + 4 * i) c"
    using assms unfolding in_chunk_def by blast
  show ?thesis by (rule kept_blk[OF b(1) p h]) (use slot_words_prefix in blast)
qed

lemma kept_whole:
  assumes "in_whole cfg old new k d r c"
  shows "kept cfg old new k c"
proof -
  obtain items where b: "in_blk cfg old new k items c" "taking new items [] (blockdist * k) d c" using assms unfolding in_whole_def by blast
  have "small_items []" by (simp add: small_items_def)
  from taking_rep[OF b(2) this] obtain cur' where p: "patch_rep (length new) items cur' c" "small_items cur'" by blast
  have h: "hashes_fit new (at_words new k (full_words d)) c" using assms unfolding in_whole_def by blast
  show ?thesis by (rule kept_blk[OF b(1) p h at_words_prefix])
qed

lemma kept_expects:
  assumes e: "expects cfg old new c ms" and n: "\<not> all_received c"
  shows "\<exists>k. kept cfg old new k c"
  using e[unfolded expects_def]
proof (elim disjE exE conjE)
  fix k assume c: "at_start cfg old new k c"
  then have b: "client_base cfg old new k (c\<lparr>reconnected := False\<rparr>)" "k < nblocks new"
    by (auto simp: at_start_def client_base_def pending_from_def)
  obtain items p where pt: "file_at (m_patchfile c) [] p \<and> patchfile_pos c = 0 \<and> items = [] \<and> last_chunk_patches c = [] \<or> patch_rep (length new) items [] c"
    "covers old (upto_block new k) items (take (upto_block new k) new)"
    using c unfolding at_start_def by blast
  have ho: "ho_all (\<lambda>bs p. k = 0 \<or> starts bs (hash_prefix new k)) c" using c unfolding at_start_def by blast
  have "small_items []" by (simp add: small_items_def)
  then have "kept cfg old new k c" unfolding kept_def using b pt ho by blast
  then show ?thesis ..
next
  fix k assume c: "at_block cfg old new k c"
  then have cb: "client_base cfg old new k c" by (simp add: at_block_def)
  then have b: "client_base cfg old new k (c\<lparr>reconnected := False\<rparr>)" by (simp add: client_base_def pending_from_def)
  have "k \<noteq> nblocks new" using at_block_all[of cfg old new c] c n by blast
  then have k: "k < nblocks new" using base_asked[OF cb] by simp
  obtain items where it: "patch_rep (length new) items [] c" "covers old (upto_block new k) items (take (upto_block new k) new)" using c unfolding at_block_def by blast
  have "hashes_fit new (\<lambda>bs p. starts bs (hash_prefix new k)) c" using c unfolding at_block_def by blast
  then have ho: "ho_all (\<lambda>bs p. k = 0 \<or> starts bs (hash_prefix new k)) c" unfolding hashes_fit_def by (rule ho_all_mono) blast
  have "small_items []" by (simp add: small_items_def)
  then have "kept cfg old new k c" unfolding kept_def using b k it ho by blast
  then show ?thesis ..
next
  fix k i assume c: "in_updates cfg old new k i c"
  obtain items cur q w where b: "in_blk cfg old new k items c" "have_upto old new k items cur q w" "patch_rep (length new) items cur c"
    using c unfolding in_updates_def by blast
  have h: "hashes_fit new (\<lambda>bs p. slot_words new k (concat (upd_words (small_hashes old k) (new_block new k) i)) bs) c" using c unfolding in_updates_def by blast
  have "small_items cur" using b(2) by (simp add: have_upto_def)
  then have "kept cfg old new k c" by (rule kept_blk[OF b(1,3) _ h slot_words_prefix])
  then show ?thesis ..
next
  fix k assume c: "whole_done cfg old new k c"
  obtain items cur q where b: "in_blk cfg old new k items c" "have_upto old new k items cur q (new_block new k)" "patch_rep (length new) items cur c"
    using c unfolding whole_done_def by blast
  have h: "hashes_fit new (\<lambda>bs p. starts bs (hash_prefix new (Suc k))) c" using c unfolding whole_done_def by blast
  have "small_items cur" using b(2) by (simp add: have_upto_def)
  then have "kept cfg old new k c" by (rule kept_blk[OF b(1,3) _ h]) (auto simp: hash_prefix_Suc intro: starts_prefix)
  then show ?thesis ..
qed

lemma kept_phase:
  assumes p: "in_phase cfg old new c bs" and n: "\<not> all_received c"
  shows "\<exists>k. kept cfg old new k c"
proof (cases "cs_state c")
  case CS_ID_FIRST
  show ?thesis using p kept_expects[OF _ n] unfolding in_phase_def CS_ID_FIRST chunked_state.case by blast
next
  case CS_ID_ACC
  show ?thesis using p kept_expects[OF _ n] unfolding in_phase_def CS_ID_ACC chunked_state.case by blast
next
  case CS_BLOCK
  show ?thesis using p kept_whole unfolding in_phase_def CS_BLOCK chunked_state.case by blast
next
  case CS_CHUNK
  show ?thesis using p kept_chunk unfolding in_phase_def CS_CHUNK chunked_state.case by blast
next
  case CS_SPARSE_EXTENTS
  then show ?thesis using p by (simp add: in_phase_def)
qed

lemma first_pending_kept: "pending_from old k c \<Longrightarrow> first_pending c = int k"
proof -
  assume p: "pending_from old k c"
  have n: "k \<le> asked c" "next_chunk c = int (asked c)" using p by (auto simp: pending_from_def)
  have d: "int (blockdist * j) sdiv int c_checkpoint_dist = int j" for j unfolding sdiv_nat using blockdist_pos by simp
  have "fold (\<lambda>it n. if fst it sdiv int c_checkpoint_dist < n then fst it sdiv int c_checkpoint_dist else n)
      (map (\<lambda>j. (int (blockdist * j), stored_hashes old j)) js) m = fold (\<lambda>j n. min (int j) n) js m" for js m
    unfolding fold_map comp_def fst_conv d by (rule fold_cong) (auto simp: min_def)
  then have "first_pending c = fold (\<lambda>j n. min (int j) n) [k..<asked c] (int (asked c))"
    using p unfolding first_pending_def n(2)[symmetric] by (simp add: pending_from_def)
  moreover have "fold (\<lambda>j n. min (int j) n) [k..<l] (int m) = int k" if "k < l" "l \<le> m" for l m
    using that
  proof (induction l)
    case (Suc l)
    then show ?case by (cases "k = l") auto
  qed simp
  moreover have "fold (\<lambda>j n. min (int j) n) [k..<asked c] (int (asked c)) = int k" if "\<not> k < asked c" using that n(1) by simp
  ultimately show ?thesis by (metis order_refl)
qed

lemma kept_frame:
  assumes "kept cfg old new k c" "client_base cfg old new k (d\<lparr>reconnected := False\<rparr>)" "m_patchfile d = m_patchfile c" "patchfile_pos d = patchfile_pos c"
    "last_chunk_patches d = last_chunk_patches c" "m_hashoutput d = m_hashoutput c"
  shows "kept cfg old new k d"
proof -
  have p: "patch_rep fs items cur d = patch_rep fs items cur c" for fs items cur by (rule patch_rep_frame) (use assms in simp_all)
  show ?thesis using assms unfolding kept_def p by (simp add: ho_all_def)
qed

lemma kept_reset: "kept cfg old new k c \<Longrightarrow> no_fault f \<Longrightarrow> fbytes f = hash_file old \<Longrightarrow> kept cfg old new k ((reset_connection c)\<lparr>m_chunkhashes := f\<rparr>)"
  by (rule kept_frame) (auto simp: kept_def client_base_def pending_from_def reset_connection_def md5_init_def)

text \<open>The patches of a block that is not finished are invalidated, and the transfer starts again with that block.\<close>

lemma kept_rerequest:
  assumes kp: "kept cfg old new k c"
  defines "d \<equiv> (invalidateLastPatches cfg (c\<lparr>next_chunk := first_pending c\<rparr>))\<lparr>pending_chunks := []\<rparr>"
  shows "client_base cfg old new k (d\<lparr>reconnected := False\<rparr>)" "next_chunk d = int k" "pending_chunks d = []" "patch_buf d = []"
    "\<exists>items p. (file_at (m_patchfile d) [] p \<and> patchfile_pos d = 0 \<and> items = [] \<and> last_chunk_patches d = [] \<or> patch_rep (length new) items [] d) \<and>
       covers old (upto_block new k) items (take (upto_block new k) new)"
    "m_hashoutput d = m_hashoutput c" "remote_filesize d = remote_filesize c" "block_for_chunk_start d = block_for_chunk_start c" "cs_state d = cs_state c"
    "num_total_chunks d = num_total_chunks c"
proof -
  let ?c = "c\<lparr>next_chunk := first_pending c\<rparr>"
  let ?i = "invalidateLastPatches cfg ?c"
  have cb: "client_base cfg old new k (c\<lparr>reconnected := False\<rparr>)" and kn: "k < nblocks new" using kp by (simp_all add: kept_def)
  then have pm: "patch_mode cfg" and pe: "pending_from old k (c\<lparr>reconnected := False\<rparr>)" by (simp_all add: client_base_def)
  have "pending_from old k c" using pe by (simp add: pending_from_def)
  then have fp: "first_pending c = int k" by (rule first_pending_kept)
  obtain items cur p where pt: "file_at (m_patchfile c) [] p \<and> patchfile_pos c = 0 \<and> items = [] \<and> cur = [] \<and> last_chunk_patches c = [] \<or>
      patch_rep (length new) items cur c" "small_items cur" "covers old (upto_block new k) items (take (upto_block new k) new)"
    using kp unfolding kept_def by blast
  have res: "patch_only ?c ?i \<and> patch_buf ?i = [] \<and>
    (\<exists>items p. (file_at (m_patchfile ?i) [] p \<and> patchfile_pos ?i = 0 \<and> items = [] \<and> last_chunk_patches ?i = [] \<or> patch_rep (length new) items [] ?i) \<and>
       covers old (upto_block new k) items (take (upto_block new k) new))"
  proof (cases "patch_rep (length new) items cur c")
    case True
    then have r: "patch_rep (length new) items cur ?c" by (simp add: patch_rep_def)
    note I = invalidate_rep[OF r pm]
    have "covers old (upto_block new k) (items @ map invalid cur) (take (upto_block new k) new)"
      by (rule covers_dead[OF pt(3)]) (use pt(2) in \<open>simp add: small_items_def\<close>)
    then show ?thesis using I by blast
  next
    case False
    then have s: "file_at (m_patchfile c) [] p" "patchfile_pos c = 0" "items = []" "last_chunk_patches c = []" using pt(1) by blast+
    let ?f = "snd (File_Seek 0 (m_patchfile c))"
    have ie: "?i = ?c\<lparr>m_patchfile := ?f, patch_buf := [], last_chunk_patches := []\<rparr>"
      unfolding invalidateLastPatches_def Let_def using pm s(2,4) by (simp add: patch_seek_def)
    have "file_at ?f [] 0" using seek_at[of "m_patchfile c" 0] s(1) by (simp add: file_at_def)
    moreover have "patch_only ?c ?i" unfolding patch_only_iff ie
      by (intro exI[of _ ?f] exI[of _ "patchfile_pos c"] exI[of _ "[]"] exI[of _ "last_patch_output_fsize c"] exI[of _ "curr_output_fsize c"]
        exI[of _ "patch_buf_start c"]) (simp add: s(4))
    ultimately show ?thesis using s(2,3) pt(3) unfolding ie by auto
  qed
  then obtain mp pp lp lf co pb ps where ue: "?i = ?c\<lparr>m_patchfile := mp, patchfile_pos := pp, last_chunk_patches := lp,
     last_patch_output_fsize := lf, curr_output_fsize := co, patch_buf := pb, patch_buf_start := ps\<rparr>"
    unfolding patch_only_iff by blast
  have de: "d = ?i\<lparr>pending_chunks := []\<rparr>" by (simp add: d_def)
  show "client_base cfg old new k (d\<lparr>reconnected := False\<rparr>)"
    unfolding de ue using cb kn fp by (simp add: client_base_def pending_from_def)
  show "next_chunk d = int k" "m_hashoutput d = m_hashoutput c" "remote_filesize d = remote_filesize c" "block_for_chunk_start d = block_for_chunk_start c"
    "cs_state d = cs_state c" "num_total_chunks d = num_total_chunks c"
    unfolding de ue using fp by simp_all
  show "pending_chunks d = []" "patch_buf d = []" using res by (simp_all add: de)
  have f: "patch_rep (length new) its [] d = patch_rep (length new) its [] ?i" for its by (rule patch_rep_frame) (simp_all add: de)
  have g: "m_patchfile d = m_patchfile ?i" "patchfile_pos d = patchfile_pos ?i" "last_chunk_patches d = last_chunk_patches ?i" by (simp_all add: de)
  show "\<exists>items p. (file_at (m_patchfile d) [] p \<and> patchfile_pos d = 0 \<and> items = [] \<and> last_chunk_patches d = [] \<or> patch_rep (length new) items [] d) \<and>
       covers old (upto_block new k) items (take (upto_block new k) new)"
    unfolding f g using res by blast
qed

lemma at_start_later:
  "at_start cfg old new k (c\<lparr>attempts := as, reconnected := False\<rparr>) = at_start cfg old new k (c\<lparr>reconnected := False\<rparr>)"
proof -
  have f: "client_base cfg old new k (c\<lparr>attempts := as, reconnected := False\<rparr>) = client_base cfg old new k (c\<lparr>reconnected := False\<rparr>)"
    "patch_rep fs items cur (c\<lparr>attempts := as, reconnected := False\<rparr>) = patch_rep fs items cur (c\<lparr>reconnected := False\<rparr>)"
    "size_known new (c\<lparr>attempts := as, reconnected := False\<rparr>) = size_known new (c\<lparr>reconnected := False\<rparr>)"
    "ho_all Q (c\<lparr>attempts := as, reconnected := False\<rparr>) = ho_all Q (c\<lparr>reconnected := False\<rparr>)" for fs items cur Q
    by (simp_all add: client_base_def pending_from_def patch_rep_def size_known_def ho_all_def)
  show ?thesis unfolding at_start_def f by simp
qed

lemma connect_kept:
  assumes "kept cfg old new k c" "connect cfg True as c = (True, c')"
  shows "at_start cfg old new k (c'\<lparr>reconnected := False\<rparr>) \<and> cs_state c' = CS_ID_FIRST \<and> asked c' = k \<and> remote_filesize c' = - 1"
  using assms
proof (induction as arbitrary: c)
  case Nil
  then show ?case by simp
next
  case (Cons a as)
  show ?case
  proof (cases a)
    case No_Connection
    then show ?thesis using Cons by simp
  next
    case (Connection sent)
    let ?r = "reset_connection c"
    have cb: "client_base cfg old new k (c\<lparr>reconnected := False\<rparr>)" using Cons.prems(1) by (simp add: kept_def)
    then have ch: "no_fault (m_chunkhashes c)" "fbytes (m_chunkhashes c) = hash_file old" by (simp_all add: client_base_def)
    have mr: "m_chunkhashes ?r = m_chunkhashes c" by (simp add: reset_connection_def)
    have "file_at (snd (File_Seek 0 (m_chunkhashes ?r))) (hash_file old) 0" using seek_at[OF ch(1), of 0] ch(2) mr by simp
    then obtain f where f: "File_Read 8 (snd (File_Seek 0 (m_chunkhashes ?r))) = (take 8 (drop 0 (hash_file old)), False, f)" "no_fault f" "fbytes f = hash_file old"
      using read_at[of "snd (File_Seek 0 (m_chunkhashes ?r))" "hash_file old" 0 8] by (auto simp: file_at_def)
    have l8: "length (take 8 (drop 0 (hash_file old))) = 8"
      using hash_prefix_le[of 0 "nblocks old" old] by (simp add: hash_prefix_all) (simp add: hash_prefix_def)
    let ?c = "?r\<lparr>m_chunkhashes := f\<rparr>"
    have kp: "kept cfg old new k ?c" by (rule kept_reset[OF Cons.prems(1) f(2,3)])
    show ?thesis
    proof (cases sent)
      case False
      then have "connect cfg True as ?c = (True, c')" using Cons.prems(2) l8 unfolding Connection connect.simps Let_def f(1) prod.case by simp
      then show ?thesis by (rule Cons.IH[OF kp])
    next
      case True
      let ?d = "(invalidateLastPatches cfg (?c\<lparr>next_chunk := first_pending ?c\<rparr>))\<lparr>pending_chunks := []\<rparr>"
      have c': "c' = ?d\<lparr>attempts := as\<rparr>"
        using Cons.prems(2) l8 True unfolding Connection connect.simps Let_def f(1) prod.case by simp
      note K = kept_rerequest[OF kp]
      have x: "remote_filesize ?d = - 1" "block_for_chunk_start ?d = - 1" "cs_state ?d = CS_ID_FIRST" "m_hashoutput ?d = m_hashoutput c"
        unfolding K(6-9) by (simp_all add: reset_connection_def)
      have kn: "k < nblocks new" and ho: "ho_all (\<lambda>bs p. k = 0 \<or> starts bs (hash_prefix new k)) c" using Cons.prems(1) by (simp_all add: kept_def)
      have pr: "patch_rep (length new) items [] (?d\<lparr>reconnected := False\<rparr>) = patch_rep (length new) items [] ?d" for items by (rule patch_rep_frame) simp_all
      have ho': "ho_all (\<lambda>bs p. k = 0 \<or> starts bs (hash_prefix new k)) (?d\<lparr>reconnected := False\<rparr>)" using ho x(4) by (simp add: ho_all_def)
      have n: "- 1 < int (blockdist * k)" using of_nat_0_le_iff[of "blockdist * k"] by linarith
      have fl: "remote_filesize (?d\<lparr>reconnected := False\<rparr>) = - 1" "pending_chunks (?d\<lparr>reconnected := False\<rparr>) = []" "patch_buf (?d\<lparr>reconnected := False\<rparr>) = []"
        "m_patchfile (?d\<lparr>reconnected := False\<rparr>) = m_patchfile ?d" "patchfile_pos (?d\<lparr>reconnected := False\<rparr>) = patchfile_pos ?d"
        "last_chunk_patches (?d\<lparr>reconnected := False\<rparr>) = last_chunk_patches ?d" "block_for_chunk_start (?d\<lparr>reconnected := False\<rparr>) < int (blockdist * k)"
        using x K(3,4) n by (simp_all del: of_nat_mult)
      have "at_start cfg old new k (?d\<lparr>reconnected := False\<rparr>)"
        unfolding at_start_def pr fl(4-6) using K(1,5) kn fl(1-3,7) ho' by blast
      then have "at_start cfg old new k (c'\<lparr>reconnected := False\<rparr>)" unfolding c' at_start_later .
      then show ?thesis using x K(2) unfolding c' by simp
    qed
  qed
qed

lemma reconnect_kept:
  assumes k: "kept cfg old new k c" and r: "fc_Reconnect cfg True c = (True, c')"
  shows "at_start cfg old new k (c'\<lparr>reconnected := False\<rparr>) \<and> cs_state c' = CS_ID_FIRST \<and> asked c' = k \<and> remote_filesize c' = - 1"
proof -
  let ?c = "c\<lparr>next_client := None, reconnect_tries := reconnect_tries c - 1\<rparr>"
  have "client_base cfg old new k (?c\<lparr>reconnected := False\<rparr>)" using k by (simp add: kept_def client_base_def pending_from_def)
  then have "kept cfg old new k ?c" by (rule kept_frame[OF k]) simp_all
  moreover have "connect cfg True (attempts ?c) ?c = (True, c')" using r by (simp add: fc_Reconnect_def Let_def split: if_splits)
  ultimately show ?thesis by (rule connect_kept)
qed

section \<open>Sessions\<close>

text \<open>
  Both sides and what is on the way: the requests that the client has not answered yet, and how many bytes of what it has sent the
  server has taken. \<open>tr_result\<close> is what \<open>GetFile\<close> returns, \<open>None\<close> while it runs, and \<open>tr_filesize\<close> its \<open>filesize_out\<close>.
\<close>

record transfer =
  tr_client :: chunk_client
  tr_sender :: chunk_sender
  tr_requests :: "byte list list"
  tr_taken :: nat
  tr_result :: "u32 option"
  tr_filesize :: int

definition wire :: "transfer \<Rightarrow> byte list" where
  "wire s = drop (tr_taken s) (sent_data (tr_sender s))"

text \<open>
  The steps, as in the loop of \<open>GetFile\<close>. \<open>Ask\<close>: a request is sent; \<open>Skip\<close>: blocks inside a hole are passed over; \<open>Serve\<close>: the client answers
  the first request; \<open>Deliver\<close>: a piece of what has been sent is read, of at most the size of the buffer, and handled; on success the
  transfer ends, on an error (\<open>Deliver_error\<close>) the output is adjusted before. When the pipe has an error or there was no data for
  too long, the server reconnects: \<open>Again\<close> is a \<open>Reconnect\<close> that succeeds, after which the client sends the size of the file again, and \<open>Lost\<close> one
  that fails, which ends the transfer with \<open>ERR_CONN_LOST\<close> for an error of the pipe and with \<open>ERR_TIMEOUT\<close> after the time limit. The same
  for a request that cannot be sent: \<open>Ask_again\<close> and \<open>Ask_lost\<close>. A pipe may fail at any time, and how many requests may be
  open at a time is left free. A program stopped by an assertion takes no step.
\<close>

inductive transfer_step :: "client_config \<Rightarrow> bool \<Rightarrow> bool \<Rightarrow> byte list \<Rightarrow> transfer \<Rightarrow> transfer \<Rightarrow> bool" for cfg be ext sp where
  Ask: "tr_result s = None \<Longrightarrow> remote_filesize (tr_client s) \<noteq> - 1 \<Longrightarrow> next_chunk (tr_client s) < num_total_chunks (tr_client s) \<Longrightarrow>
    next_request cfg sp (tr_client s) = Some (Some r, c) \<Longrightarrow>
    transfer_step cfg be ext sp s (s\<lparr>tr_client := block_requested c, tr_requests := tr_requests s @ [r]\<rparr>)"
| Ask_again: "tr_result s = None \<Longrightarrow> remote_filesize (tr_client s) \<noteq> - 1 \<Longrightarrow> next_chunk (tr_client s) < num_total_chunks (tr_client s) \<Longrightarrow>
    next_request cfg sp (tr_client s) = Some (Some r, c) \<Longrightarrow> fc_Reconnect cfg True c = (True, e) \<Longrightarrow>
    send_file_info be garbage [] ((tr_sender s)\<lparr>sent_data := [], sends := 0, pipe_shut := False\<rparr>) = Some (ok, d) \<Longrightarrow>
    transfer_step cfg be ext sp s (s\<lparr>tr_client := e, tr_sender := d, tr_requests := [], tr_taken := 0\<rparr>)"
| Ask_lost: "tr_result s = None \<Longrightarrow> remote_filesize (tr_client s) \<noteq> - 1 \<Longrightarrow> next_chunk (tr_client s) < num_total_chunks (tr_client s) \<Longrightarrow>
    next_request cfg sp (tr_client s) = Some (Some r, c) \<Longrightarrow> fc_Reconnect cfg True c = (False, e) \<Longrightarrow>
    adjustOutputFilesizeOnFailure cfg e = Some (n, e') \<Longrightarrow>
    transfer_step cfg be ext sp s (s\<lparr>tr_client := e', tr_result := Some ERR_TIMEOUT, tr_filesize := n\<rparr>)"
| Skip: "tr_result s = None \<Longrightarrow> remote_filesize (tr_client s) \<noteq> - 1 \<Longrightarrow> next_chunk (tr_client s) < num_total_chunks (tr_client s) \<Longrightarrow>
    next_request cfg sp (tr_client s) = Some (None, c) \<Longrightarrow> transfer_step cfg be ext sp s (s\<lparr>tr_client := c\<rparr>)"
| Serve: "tr_requests s = r # rs \<Longrightarrow> process_request be r = Some chunk \<Longrightarrow> sendChunk be chunk (tr_sender s) = Some (ok, d) \<Longrightarrow>
    transfer_step cfg be ext sp s (s\<lparr>tr_sender := d, tr_requests := rs\<rparr>)"
| Deliver: "tr_result s = None \<Longrightarrow> wire s = buf @ later \<Longrightarrow> buf \<noteq> [] \<Longrightarrow> length buf \<le> fc_buffersize \<Longrightarrow>
    handle_data cfg False True ext buf (tr_client s) = Some (rc, c) \<Longrightarrow> rc = ERR_CONTINUE \<or> rc = ERR_SUCCESS \<Longrightarrow>
    transfer_step cfg be ext sp s
      (s\<lparr>tr_client := c, tr_taken := tr_taken s + length buf, tr_result := (if rc = ERR_CONTINUE then None else Some rc),
         tr_filesize := (if rc = ERR_SUCCESS then remote_filesize c else tr_filesize s)\<rparr>)"
| Deliver_error: "tr_result s = None \<Longrightarrow> wire s = buf @ later \<Longrightarrow> buf \<noteq> [] \<Longrightarrow> length buf \<le> fc_buffersize \<Longrightarrow>
    handle_data cfg False True ext buf (tr_client s) = Some (rc, c) \<Longrightarrow> rc \<noteq> ERR_CONTINUE \<Longrightarrow> rc \<noteq> ERR_SUCCESS \<Longrightarrow>
    adjustOutputFilesizeOnFailure cfg c = Some (n, c') \<Longrightarrow>
    transfer_step cfg be ext sp s
      (s\<lparr>tr_client := c', tr_taken := tr_taken s + length buf, tr_result := Some rc, tr_filesize := n\<rparr>)"
| Again: "tr_result s = None \<Longrightarrow> fc_Reconnect cfg True (tr_client s) = (True, c) \<Longrightarrow>
    send_file_info be garbage [] ((tr_sender s)\<lparr>sent_data := [], sends := 0, pipe_shut := False\<rparr>) = Some (ok, d) \<Longrightarrow>
    transfer_step cfg be ext sp s (s\<lparr>tr_client := c, tr_sender := d, tr_requests := [], tr_taken := 0\<rparr>)"
| Lost: "tr_result s = None \<Longrightarrow> fc_Reconnect cfg True (tr_client s) = (False, c) \<Longrightarrow>
    adjustOutputFilesizeOnFailure cfg c = Some (n, c') \<Longrightarrow> rc = ERR_CONN_LOST \<or> rc = ERR_TIMEOUT \<Longrightarrow>
    transfer_step cfg be ext sp s (s\<lparr>tr_client := c', tr_result := Some rc, tr_filesize := n\<rparr>)"

text \<open>What holds all the time.\<close>

definition transfer_inv :: "client_config \<Rightarrow> byte list \<Rightarrow> byte list \<Rightarrow> transfer \<Rightarrow> bool" where
  "transfer_inv cfg old new s \<longleftrightarrow>
     (case tr_result s of
        None \<Rightarrow> sender_ok new (length old) (tr_sender s) \<and> tr_taken s \<le> length (sent_data (tr_sender s)) \<and>
          \<not> all_received (tr_client s) \<and> (\<exists>j \<le> asked (tr_client s). tr_requests s = map (request_of old) [j..<asked (tr_client s)] \<and>
          in_phase cfg old new ((tr_client s)\<lparr>reconnected := False\<rparr>) (wire s @ msgs_bytes (answers old new j (asked (tr_client s)))))
      | Some rc \<Rightarrow> rc = ERR_SUCCESS \<and> at_block cfg old new (nblocks new) (tr_client s) \<and> tr_filesize s = int (length new) \<or>
          rc = ERR_CONN_LOST \<or> rc = ERR_TIMEOUT)"

lemma phase_size:
  assumes p: "in_phase cfg old new c bs" and r: "remote_filesize c \<noteq> - 1"
  shows "size_known new c"
proof -
  have b: "in_blk cfg old new k items c \<Longrightarrow> size_known new c" for k items by (simp add: in_blk_def)
  have e: "expects cfg old new c ms \<Longrightarrow> size_known new c" for ms
    unfolding expects_def at_start_def at_block_def in_updates_def whole_done_def using b r by blast
  show ?thesis
  proof (cases "cs_state c")
    case CS_ID_FIRST
    show ?thesis using p e unfolding in_phase_def CS_ID_FIRST chunked_state.case by blast
  next
    case CS_ID_ACC
    show ?thesis using p e unfolding in_phase_def CS_ID_ACC chunked_state.case by blast
  next
    case CS_BLOCK
    show ?thesis using p b unfolding in_phase_def CS_BLOCK chunked_state.case in_whole_def by blast
  next
    case CS_CHUNK
    show ?thesis using p b unfolding in_phase_def CS_CHUNK chunked_state.case in_chunk_def by blast
  next
    case CS_SPARSE_EXTENTS
    then show ?thesis using p by (simp add: in_phase_def)
  qed
qed

lemma phase_plain: "in_phase cfg old new c bs \<Longrightarrow> c\<lparr>reconnected := False\<rparr> = c"
proof -
  assume "in_phase cfg old new c bs"
  then obtain k where "client_base cfg old new k c" using in_phase_base by blast
  then have "\<not> reconnected c" by (simp add: client_base_def)
  then show ?thesis by simp
qed

lemma received_plain [simp]: "all_received (c\<lparr>reconnected := x\<rparr>) = all_received c"
  by (simp add: all_received_def)

lemma inv_ask:
  assumes p: "in_phase cfg old new (c\<lparr>reconnected := False\<rparr>) bs" and r: "remote_filesize c \<noteq> - 1" "next_chunk c < num_total_chunks c"
  shows "\<exists>c1 c'. next_request cfg sp c = Some (Some (request_of old (asked c)), c1) \<and> block_requested c1 = c' \<and> asked c' = Suc (asked c) \<and>
    \<not> all_received c' \<and> in_phase cfg old new (c'\<lparr>reconnected := False\<rparr>) (bs @ msgs_bytes (answer old new (asked c)))"
proof -
  let ?c = "c\<lparr>reconnected := False\<rparr>"
  obtain k where b: "client_base cfg old new k ?c" using in_phase_base[OF p] by blast
  obtain c1 f where n: "next_request cfg sp c = Some (Some (request_of old (asked c)), c1)" "block_requested c1 = ask_upd old f c" "no_fault f" "fbytes f = hash_file old"
    using next_request_ok[OF b, of sp] unfolding ask_upd_def by blast
  have sk: "size_known new ?c" using phase_size[OF p] r(1) by simp
  have "0 \<le> next_chunk c" using b by (simp add: client_base_def pending_from_def)
  then have "asked c < nblocks new" using r(2) sk by (simp add: size_known_def nat_less_iff)
  then have m: "may_ask old new f ?c" using n(3,4) sk by (simp add: may_ask_def)
  have u: "(ask_upd old f c)\<lparr>reconnected := False\<rparr> = ask_upd old f ?c" by (simp add: ask_upd_def)
  have a: "asked (ask_upd old f c) = Suc (asked c)" using ask_base(2)[OF m b] by (simp add: ask_upd_def)
  have "\<not> all_received (ask_upd old f c)" by (simp add: all_received_def ask_upd_def)
  moreover have "in_phase cfg old new ((ask_upd old f c)\<lparr>reconnected := False\<rparr>) (bs @ msgs_bytes (answer old new (asked c)))"
    unfolding u using ask_phase[OF m p] by simp
  ultimately show ?thesis using n(1,2) a by blast
qed

lemma info_sent:
  assumes "sender_ok new hsize s" "sent_data s = []"
  shows "\<exists>d. send_file_info be garbage [] s = Some (True, d) \<and> sender_ok new hsize d \<and> sent_data d = msgs_bytes [File_Size_Msg (length new)]"
  using assms by (auto simp: send_file_info_def SendInt_def sender_ok_def)

lemma step_ask:
  assumes i: "transfer_inv cfg old new s" and n: "tr_result s = None" and r: "remote_filesize (tr_client s) \<noteq> - 1" "next_chunk (tr_client s) < num_total_chunks (tr_client s)"
  shows "\<exists>c. next_request cfg sp (tr_client s) = Some (Some (request_of old (asked (tr_client s))), c) \<and> asked (block_requested c) = Suc (asked (tr_client s)) \<and>
    transfer_inv cfg old new (s\<lparr>tr_client := block_requested c, tr_requests := tr_requests s @ [request_of old (asked (tr_client s))]\<rparr>)"
proof -
  let ?c = "tr_client s"
  obtain j where j: "j \<le> asked ?c" "tr_requests s = map (request_of old) [j..<asked ?c]"
    "in_phase cfg old new (?c\<lparr>reconnected := False\<rparr>) (wire s @ msgs_bytes (answers old new j (asked ?c)))"
    using i n unfolding transfer_inv_def by auto
  obtain c1 c' where c: "next_request cfg sp ?c = Some (Some (request_of old (asked ?c)), c1)" "block_requested c1 = c'" "asked c' = Suc (asked ?c)"
    "\<not> all_received c'" "in_phase cfg old new (c'\<lparr>reconnected := False\<rparr>) ((wire s @ msgs_bytes (answers old new j (asked ?c))) @ msgs_bytes (answer old new (asked ?c)))"
    using inv_ask[OF j(3) r, of sp] by blast
  let ?s = "s\<lparr>tr_client := c', tr_requests := tr_requests s @ [request_of old (asked ?c)]\<rparr>"
  have w: "wire ?s = wire s" by (simp add: wire_def)
  have "j \<le> asked c'" using j(1) c(3) by simp
  moreover have "tr_requests ?s = map (request_of old) [j..<asked c']" using j(1,2) c(3) by simp
  moreover have "in_phase cfg old new (c'\<lparr>reconnected := False\<rparr>) (wire ?s @ msgs_bytes (answers old new j (asked c')))"
    unfolding w c(3) answers_more[OF j(1)] using c(5) by simp
  ultimately have "transfer_inv cfg old new ?s" using i n c(4) unfolding transfer_inv_def by auto
  then show ?thesis using c(1-3) by blast
qed

lemma step_serve:
  assumes i: "transfer_inv cfg old new s" and n: "tr_result s = None" and r: "tr_requests s = r # rs"
  shows "\<exists>chunk d. process_request be r = Some chunk \<and> sendChunk be chunk (tr_sender s) = Some (True, d) \<and>
    transfer_inv cfg old new (s\<lparr>tr_sender := d, tr_requests := rs\<rparr>)"
proof -
  let ?c = "tr_client s"
  obtain j where j: "j \<le> asked ?c" "tr_requests s = map (request_of old) [j..<asked ?c]"
    "in_phase cfg old new (?c\<lparr>reconnected := False\<rparr>) (wire s @ msgs_bytes (answers old new j (asked ?c)))"
    using i n unfolding transfer_inv_def by auto
  have l: "j < asked ?c" using r j(2) by (cases "j < asked ?c") auto
  then have rr: "r = request_of old j" "rs = map (request_of old) [Suc j..<asked ?c]" using r j(2) by (simp_all add: upt_conv_Cons)
  obtain k where "client_base cfg old new k (?c\<lparr>reconnected := False\<rparr>)" using in_phase_base[OF j(3)] by blast
  from base_asked[OF this] have b: "j < nblocks new" "length new < 2 ^ 63" using l by auto
  have so: "sender_ok new (length old) (tr_sender s)" and tk: "tr_taken s \<le> length (sent_data (tr_sender s))" using i n by (simp_all add: transfer_inv_def)
  obtain chunk d where d: "process_request be r = Some chunk" "sendChunk be chunk (tr_sender s) = Some (True, d)" "sender_ok new (length old) d"
    "sent_data d = sent_data (tr_sender s) @ msgs_bytes (answer old new j)"
    using request_served[OF b so, of be] unfolding rr(1) by blast
  let ?s = "s\<lparr>tr_sender := d, tr_requests := rs\<rparr>"
  have w: "wire ?s = wire s @ msgs_bytes (answer old new j)" using tk d(4) by (simp add: wire_def)
  have ph: "in_phase cfg old new (?c\<lparr>reconnected := False\<rparr>) (wire ?s @ msgs_bytes (answers old new (Suc j) (asked ?c)))"
    using j(3) unfolding w answers_Cons[OF l] by simp
  have "Suc j \<le> asked ?c" using l by simp
  moreover have "tr_taken s \<le> length (sent_data d)" using tk d(4) by simp
  ultimately have "transfer_inv cfg old new ?s" using i n d(3) rr(2) ph unfolding transfer_inv_def by auto
  then show ?thesis using d(1,2) by blast
qed

lemma step_deliver:
  assumes i: "transfer_inv cfg old new s" and t: "told_apart old new" and n: "tr_result s = None" and w: "wire s = buf @ later" "buf \<noteq> []" "length buf \<le> fc_buffersize"
  shows "\<exists>rc c. handle_data cfg False True ext buf (tr_client s) = Some (rc, c) \<and> (rc = ERR_CONTINUE \<or> rc = ERR_SUCCESS) \<and> asked c = asked (tr_client s) \<and>
    transfer_inv cfg old new (s\<lparr>tr_client := c, tr_taken := tr_taken s + length buf, tr_result := (if rc = ERR_CONTINUE then None else Some rc),
      tr_filesize := (if rc = ERR_SUCCESS then remote_filesize c else tr_filesize s)\<rparr>)"
proof -
  let ?c = "tr_client s"
  obtain j where j: "j \<le> asked ?c" "tr_requests s = map (request_of old) [j..<asked ?c]"
    "in_phase cfg old new (?c\<lparr>reconnected := False\<rparr>) (buf @ later @ msgs_bytes (answers old new j (asked ?c)))"
    using i n w(1) unfolding transfer_inv_def by auto
  have l: "length buf < 2 ^ 31" using w(3) by (simp add: fc_buffersize_def)
  obtain rc c where d: "handle_data cfg False True ext buf ?c = Some (rc, c)" "next_chunk c = next_chunk ?c" and
    r: "rc = ERR_CONTINUE \<and> in_phase cfg old new c (drop (length buf) (buf @ later @ msgs_bytes (answers old new j (asked ?c)))) \<and> (buf = [] \<or> \<not> all_received c) \<or>
        rc = ERR_SUCCESS \<and> at_block cfg old new (nblocks new) c"
    using handle_data_ok[OF j(3) t l, of True ext] unfolding received_def by blast
  have a: "asked c = asked ?c" using d(2) by simp
  let ?s = "s\<lparr>tr_client := c, tr_taken := tr_taken s + length buf, tr_result := (if rc = ERR_CONTINUE then None else Some rc),
      tr_filesize := (if rc = ERR_SUCCESS then remote_filesize c else tr_filesize s)\<rparr>"
  have so: "sender_ok new (length old) (tr_sender s)" using i n by (simp add: transfer_inv_def)
  have "length (wire s) = length buf + length later" using w(1) by simp
  then have tk: "tr_taken s + length buf \<le> length (sent_data (tr_sender s))" using i n w(2) by (auto simp: wire_def transfer_inv_def)
  have wr: "wire ?s = later"
  proof -
    have "wire ?s = drop (length buf) (wire s)" by (simp add: wire_def add.commute)
    then show ?thesis using w(1) by simp
  qed
  have "buf = [] \<or> \<not> all_received c \<Longrightarrow> \<not> all_received c" using w(2) by blast
  then consider (more) "rc = ERR_CONTINUE" "in_phase cfg old new c (drop (length buf) (buf @ later @ msgs_bytes (answers old new j (asked ?c))))" "\<not> all_received c" |
    (all) "rc = ERR_SUCCESS" "at_block cfg old new (nblocks new) c"
    using r by blast
  then show ?thesis
  proof cases
    case c: more
    have ph: "in_phase cfg old new (c\<lparr>reconnected := False\<rparr>) (wire ?s @ msgs_bytes (answers old new j (asked c)))"
      using c(2) unfolding phase_plain[OF c(2)] wr a by simp
    have "transfer_inv cfg old new ?s" using so tk c(1,3) ph j(1,2) a unfolding transfer_inv_def by auto
    then show ?thesis using d(1) a c(1) by blast
  next
    case c: all
    have "remote_filesize c = int (length new)" using c(2) by (simp add: at_block_def size_known_def)
    then have "transfer_inv cfg old new ?s" using so tk c unfolding transfer_inv_def by (simp add: ERR_CONTINUE_def ERR_SUCCESS_def)
    then show ?thesis using d(1) a c(1) by blast
  qed
qed

lemma step_again:
  assumes i: "transfer_inv cfg old new s" and n: "tr_result s = None" and r: "fc_Reconnect cfg True (tr_client s) = (True, c)"
    and f: "send_file_info be garbage [] ((tr_sender s)\<lparr>sent_data := [], sends := 0, pipe_shut := False\<rparr>) = Some (ok, d)"
  shows "transfer_inv cfg old new (s\<lparr>tr_client := c, tr_sender := d, tr_requests := [], tr_taken := 0\<rparr>)"
proof -
  let ?c = "tr_client s"
  obtain bs where p: "in_phase cfg old new (?c\<lparr>reconnected := False\<rparr>) bs" "\<not> all_received ?c" using i n unfolding transfer_inv_def by auto
  obtain k where k: "kept cfg old new k (?c\<lparr>reconnected := False\<rparr>)" using kept_phase[OF p(1)] p(2) by auto
  then have "client_base cfg old new k (?c\<lparr>reconnected := False\<rparr>)" by (simp add: kept_def)
  then have "kept cfg old new k ?c" by (rule kept_frame[OF k]) simp_all
  from reconnect_kept[OF this r] have st: "at_start cfg old new k (c\<lparr>reconnected := False\<rparr>)" "cs_state c = CS_ID_FIRST" "asked c = k" "remote_filesize c = - 1"
    by blast+
  have "sender_ok new (length old) ((tr_sender s)\<lparr>sent_data := [], sends := 0, pipe_shut := False\<rparr>)"
    using i n by (simp add: transfer_inv_def sender_ok_def)
  from info_sent[OF this, of be garbage] f have d: "sender_ok new (length old) d" "sent_data d = msgs_bytes [File_Size_Msg (length new)]" by auto
  let ?s = "s\<lparr>tr_client := c, tr_sender := d, tr_requests := [], tr_taken := 0\<rparr>"
  have "expects cfg old new (c\<lparr>reconnected := False\<rparr>) [File_Size_Msg (length new)]" unfolding expects_def using st(1,3) by auto
  then have "in_phase cfg old new (c\<lparr>reconnected := False\<rparr>) (msgs_bytes [File_Size_Msg (length new)])"
    unfolding in_phase_def using st(2) by (auto simp del: msgs_bytes_simps)
  then have ph: "in_phase cfg old new (c\<lparr>reconnected := False\<rparr>) (wire ?s @ msgs_bytes (answers old new k (asked c)))"
    using d(2) st(3) by (simp add: wire_def)
  have "\<not> all_received c" using st(4) by (simp add: all_received_def)
  then show ?thesis using d(1) n ph st(3) unfolding transfer_inv_def by auto
qed

text \<open>When a request could not be sent, reconnecting does the same as if it had been sent.\<close>

lemma connect_next:
  "first_pending (c\<lparr>next_chunk := m, queued_chunks := q\<rparr>) = first_pending c \<Longrightarrow> connect cfg True as c = (True, d) \<Longrightarrow>
   connect cfg True as (c\<lparr>next_chunk := m, queued_chunks := q\<rparr>) = (True, d)"
proof (induction as arbitrary: c q)
  case (Cons a as)
  show ?case
  proof (cases a)
    case No_Connection
    then show ?thesis using Cons by simp
  next
    case (Connection sent)
    let ?c = "c\<lparr>next_chunk := m, queued_chunks := q\<rparr>" let ?r = "reset_connection c"
    have r: "reset_connection ?c = ?r\<lparr>next_chunk := m, queued_chunks := 0\<rparr>" by (simp add: reset_connection_def)
    obtain x err f where f: "File_Read 8 (snd (File_Seek 0 (m_chunkhashes ?r))) = (x, err, f)" by (cases "File_Read 8 (snd (File_Seek 0 (m_chunkhashes ?r)))") auto
    have f': "File_Read 8 (snd (File_Seek 0 (m_chunkhashes (?r\<lparr>next_chunk := m, queued_chunks := 0\<rparr>)))) = (x, err, f)" using f by simp
    let ?e = "?r\<lparr>m_chunkhashes := f\<rparr>"
    have fp: "first_pending (?e\<lparr>next_chunk := m, queued_chunks := 0\<rparr>) = first_pending ?e"
      using Cons.prems(1) by (simp add: first_pending_def reset_connection_def)
    have e: "?r\<lparr>next_chunk := m, queued_chunks := 0, m_chunkhashes := f\<rparr> = ?e\<lparr>next_chunk := m, queued_chunks := 0\<rparr>" by simp
    show ?thesis
    proof (cases "length x = 8 \<and> \<not> sent")
      case True
      then have "connect cfg True as ?e = (True, d)" using Cons.prems(2) unfolding Connection connect.simps Let_def f prod.case by simp
      from Cons.IH[OF fp this] show ?thesis unfolding Connection connect.simps r Let_def f' prod.case e using True by simp
    next
      case False
      have q: "?e\<lparr>next_chunk := m, queued_chunks := 0, next_chunk := k\<rparr> = ?e\<lparr>next_chunk := k\<rparr>" for k by (simp add: reset_connection_def)
      have l: "length x = 8" using Cons.prems(2) unfolding Connection connect.simps Let_def f prod.case by (rule contrapos_pp) simp
      then have t: sent using False by simp
      have "(True, (invalidateLastPatches cfg (?e\<lparr>next_chunk := first_pending ?e\<rparr>))\<lparr>pending_chunks := [], attempts := as\<rparr>) = (True, d)"
        using Cons.prems(2) l t unfolding Connection connect.simps Let_def f prod.case by simp
      then show ?thesis unfolding Connection connect.simps r Let_def f' prod.case e fp q using l t by simp
    qed
  qed
qed simp

lemma fold_least: "fold (\<lambda>x n. if v x < n then v x else n) xs (min a b) = min (a :: int) (fold (\<lambda>x n. if v x < n then v x else n) xs b)"
proof (induction xs arbitrary: b)
  case (Cons x xs)
  have "(if v x < min a b then v x else min a b) = min a (if v x < b then v x else b)" by (simp add: min_def)
  then show ?case using Cons by simp
qed simp

lemma reconnect_unsent:
  assumes p: "pending_chunks c = ps @ [(pos, hs)]" "pos sdiv int c_checkpoint_dist = next_chunk c" and r: "fc_Reconnect cfg True c = (True, d)"
  shows "fc_Reconnect cfg True (block_requested c) = (True, d)"
proof -
  let ?v = "\<lambda>it :: int \<times> byte list. fst it sdiv int c_checkpoint_dist" and ?n = "next_chunk c"
  let ?f = "\<lambda>n. fold (\<lambda>it n. if ?v it < n then ?v it else n) ps n"
  have "?f ?n = min ?n (?f (?n + 1))" using fold_least[of ?v ps ?n "?n + 1"] by (simp add: min_def)
  then have fp: "first_pending (c\<lparr>next_chunk := ?n + 1\<rparr>) = first_pending c" using p by (simp add: first_pending_def min_def)
  let ?c = "c\<lparr>next_client := None, reconnect_tries := reconnect_tries c - 1\<rparr>"
  have c: "0 < reconnect_tries c" "connect cfg True (attempts c) ?c = (True, d)" using r by (auto simp: fc_Reconnect_def Let_def split: if_splits)
  have "first_pending (?c\<lparr>next_chunk := ?n + 1, queued_chunks := Suc (queued_chunks c)\<rparr>) = first_pending ?c" using fp by (simp add: first_pending_def)
  from connect_next[OF this c(2)]
  have n: "connect cfg True (attempts c) (?c\<lparr>next_chunk := ?n + 1, queued_chunks := Suc (queued_chunks c)\<rparr>) = (True, d)" .
  have e: "(block_requested c)\<lparr>next_client := None, reconnect_tries := reconnect_tries (block_requested c) - 1\<rparr> =
      ?c\<lparr>next_chunk := ?n + 1, queued_chunks := Suc (queued_chunks c)\<rparr>"
    "reconnect_tries (block_requested c) = reconnect_tries c" "attempts (block_requested c) = attempts c"
    by (simp_all add: block_requested_def)
  show ?thesis unfolding fc_Reconnect_def Let_def e(1) using n c(1) e(2,3) by simp
qed

lemma step_ask_again:
  assumes i: "transfer_inv cfg old new s" and n: "tr_result s = None" and r: "remote_filesize (tr_client s) \<noteq> - 1" "next_chunk (tr_client s) < num_total_chunks (tr_client s)"
    and q: "next_request cfg sp (tr_client s) = Some (Some r, c)" and e: "fc_Reconnect cfg True c = (True, e)"
    and f: "send_file_info be garbage [] ((tr_sender s)\<lparr>sent_data := [], sends := 0, pipe_shut := False\<rparr>) = Some (ok, d)"
  shows "transfer_inv cfg old new (s\<lparr>tr_client := e, tr_sender := d, tr_requests := [], tr_taken := 0\<rparr>)"
proof -
  let ?c = "tr_client s"
  obtain bs where "in_phase cfg old new (?c\<lparr>reconnected := False\<rparr>) bs" using i n unfolding transfer_inv_def by auto
  then obtain k where b: "client_base cfg old new k (?c\<lparr>reconnected := False\<rparr>)" using in_phase_base by blast
  obtain c' g where c': "next_request cfg sp ?c = Some (Some (request_of old (asked ?c)), c')"
    "block_requested c' = ask_upd old g ?c"
    using next_request_ok[OF b, of sp] unfolding ask_upd_def by blast
  have cc: "c' = c" using q c'(1) by simp
  have nn: "0 \<le> next_chunk ?c" using b by (simp add: client_base_def pending_from_def)
  have "next_chunk (block_requested c) = next_chunk ?c + 1" using c'(2) unfolding cc by (simp add: ask_upd_def)
  then have nx: "next_chunk c = int (asked ?c)" using nn by (simp add: block_requested_def)
  have "pending_chunks (block_requested c) = pending_chunks ?c @ [(int (blockdist * asked ?c), stored_hashes old (asked ?c))]"
    using c'(2) unfolding cc by (simp add: ask_upd_def)
  then have pe: "pending_chunks c = pending_chunks ?c @ [(int (blockdist * asked ?c), stored_hashes old (asked ?c))]" by (simp add: block_requested_def)
  have "int (blockdist * asked ?c) sdiv int c_checkpoint_dist = next_chunk c" unfolding nx sdiv_nat using blockdist_pos by simp
  from reconnect_unsent[OF pe this e] have re: "fc_Reconnect cfg True (block_requested c) = (True, e)" .
  let ?s = "s\<lparr>tr_client := block_requested c, tr_requests := tr_requests s @ [request_of old (asked ?c)]\<rparr>"
  have iv: "transfer_inv cfg old new ?s" using step_ask[OF i n r, of sp] q by auto
  have "fc_Reconnect cfg True (tr_client ?s) = (True, e)" "tr_result ?s = None"
    "send_file_info be garbage [] ((tr_sender ?s)\<lparr>sent_data := [], sends := 0, pipe_shut := False\<rparr>) = Some (ok, d)"
    using re n f by simp_all
  from step_again[OF iv this(2,1,3)] show ?thesis by simp
qed

lemma transfer_step_inv:
  assumes "transfer_step cfg be ext sp s s'" "told_apart old new" "transfer_inv cfg old new s"
  shows "transfer_inv cfg old new s'"
  using assms
proof (induction rule: transfer_step.induct)
  case (Ask s r c)
  then show ?case using step_ask[OF Ask(6) Ask(1-3), of sp] by auto
next
  case (Ask_again s r c e garbage ok d)
  show ?case by (rule step_ask_again[OF Ask_again(8) Ask_again(1-6)])
next
  case (Skip s c)
  then show ?case using step_ask[OF Skip(6) Skip(1-3), of sp] by auto
next
  case (Serve s r rs chunk ok d)
  show ?case
  proof (cases "tr_result s")
    case None
    then show ?thesis using step_serve[OF Serve(5) None Serve(1), of be] Serve(2,3) by auto
  next
    case (Some rc)
    then show ?thesis using Serve(5) by (simp add: transfer_inv_def)
  qed
next
  case (Deliver s buf later rc c)
  then show ?case using step_deliver[OF Deliver(8,7,1-4), of ext] by auto
next
  case (Deliver_error s buf later rc c n c')
  then show ?case using step_deliver[OF Deliver_error(10,9,1-4), of ext] by auto
next
  case (Again s c garbage ok d)
  show ?case by (rule step_again[OF Again(5) Again(1-3)])
qed (auto simp: transfer_inv_def)

section \<open>The start and the end\<close>

text \<open>The object before \<open>GetFilePatch\<close>: its containers are empty.\<close>

definition new_client :: "chunk_client \<Rightarrow> bool" where
  "new_client m \<longleftrightarrow> last_chunk_patches m = [] \<and> pending_chunks m = [] \<and> length (packet_buf m) = 24 \<and> length (buffer (md5_hash m)) = 64 \<and> \<not> reconnected m"

text \<open>
  The start of a transfer: what \<open>GetFilePatch\<close> does before its loop, and the size of the file from the other side.
\<close>

definition start_transfer ::
  "client_config \<Rightarrow> bool \<Rightarrow> MD5 \<Rightarrow> File \<Rightarrow> File \<Rightarrow> File \<Rightarrow> File option \<Rightarrow> int \<Rightarrow> chunk_client \<Rightarrow> chunk_sender \<Rightarrow> transfer option" where
  "start_transfer cfg be garbage orig_file patchfile chunkhashes hashoutput predicted_filesize m d =
     (case begin_transfer cfg (init_transfer cfg orig_file patchfile chunkhashes hashoutput predicted_filesize m) of
        Inl err \<Rightarrow> None
      | Inr c \<Rightarrow> Option.bind (send_file_info be garbage [] d)
          (\<lambda>(ok, d). Some \<lparr>tr_client = c, tr_sender = d, tr_requests = [], tr_taken = 0, tr_result = None, tr_filesize = 0\<rparr>))"

text \<open>
  The files: the server has the old file and its hash file and begins an empty patch, the client reads the new file; the size
  of the new file is not known or predicted right. There are no holes, and no operation on a file and no sending fails.
\<close>

definition transfer_setup ::
  "client_config \<Rightarrow> byte list \<Rightarrow> byte list \<Rightarrow> File \<Rightarrow> File \<Rightarrow> File \<Rightarrow> File option \<Rightarrow> int \<Rightarrow> chunk_client \<Rightarrow> chunk_sender \<Rightarrow> bool" where
  "transfer_setup cfg old new orig_file patchfile chunkhashes hashoutput predicted_filesize m d \<longleftrightarrow>
     patch_mode cfg \<and> new_client m \<and> new \<noteq> [] \<and> length new < 2 ^ 63 \<and> length old < 2 ^ 63 \<and>
     no_fault orig_file \<and> fbytes orig_file = old \<and> no_fault patchfile \<and> fbytes patchfile = [] \<and>
     no_fault chunkhashes \<and> fbytes chunkhashes = hash_file old \<and> (\<forall>f. hashoutput = Some f \<longrightarrow> no_fault f) \<and>
     (predicted_filesize = - 1 \<or> predicted_filesize = int (length new)) \<and> sender_ok new (length old) d \<and> sent_data d = []"

lemma hash_file_front: "take 8 (hash_file data) = le_bytes 8 (of_nat (length data) :: u64)" "8 \<le> length (hash_file data)"
  by (simp_all add: hash_file_def)

lemma begin_ok:
  assumes "transfer_setup cfg old new orig_file patchfile chunkhashes hashoutput predicted_filesize m d"
  shows "\<exists>c. begin_transfer cfg (init_transfer cfg orig_file patchfile chunkhashes hashoutput predicted_filesize m) = Inr c \<and>
    at_start cfg old new 0 c \<and> cs_state c = CS_ID_FIRST \<and> asked c = 0 \<and> safe_with (hashoutput \<noteq> None) c"
proof -
  let ?i = "init_transfer cfg orig_file patchfile chunkhashes hashoutput predicted_filesize m"
  let ?c = "?i\<lparr>getfile_done := False, retval := ERR_SUCCESS\<rparr>"
  have a: "patch_mode cfg" "new_client m" "new \<noteq> []" "length new < 2 ^ 63" "length old < 2 ^ 63" "no_fault orig_file" "fbytes orig_file = old"
    "no_fault patchfile" "fbytes patchfile = []" "no_fault chunkhashes" "fbytes chunkhashes = hash_file old" "\<forall>f. hashoutput = Some f \<longrightarrow> no_fault f"
    "predicted_filesize = - 1 \<or> predicted_filesize = int (length new)"
    using assms by (simp_all add: transfer_setup_def)
  have ic: "?i = m\<lparr>m_file := orig_file, m_chunkhashes := chunkhashes, m_hashoutput := hashoutput, m_patchfile := patchfile,
      remote_filesize := predicted_filesize, curr_output_fsize := 0, fc_file_pos := 0, fc_extent_iterator := None,
      curr_sparse_extent := None, patchfile_pos := 0, patch_buf := []\<rparr>"
    using a(1) by (simp add: init_transfer_def)
  have mc: "m_chunkhashes ?c = chunkhashes" "m_file ?c = orig_file" and mi: "m_file ?i = orig_file" "md5_hash ?i = md5_hash m"
    "remote_filesize ?i = predicted_filesize" by (simp_all add: ic)
  have md: "md5_hash (init_transfer cfg orig_file patchfile chunkhashes hashoutput z m) = md5_hash m" for z by (simp add: init_transfer_def Let_def)
  have "file_at (snd (File_Seek 0 chunkhashes)) (hash_file old) 0" using seek_at[OF a(10), of 0] a(11) by simp
  then obtain f where f: "File_Read 8 (snd (File_Seek 0 chunkhashes)) = (take 8 (hash_file old), False, f)" "no_fault f" "fbytes f = hash_file old"
    using read_at[of "snd (File_Seek 0 chunkhashes)" "hash_file old" 0 8] by (auto simp: file_at_def)
  have hp: "pkt_int64 (cl_be cfg) 0 (take 8 (hash_file old)) = int (length old)" and l8: "length (take 8 (hash_file old)) = 8"
    using pkt_int64_le[OF a(5), of "cl_be cfg" "[]"] hash_file_front[of old] by simp_all
  have fs: "File_Size orig_file = (int (length old), next_op orig_file)" using File_Size_ok[OF a(6)] a(7) by simp
  have nf: "no_fault (next_op orig_file)" "fbytes (next_op orig_file) = old" using no_fault_next[OF a(6)] a(7) by simp_all
  let ?r = "?c\<lparr>m_chunkhashes := f, hashfilesize := int (length old), m_file := next_op orig_file\<rparr>"
  have rd: "read_hashfilesize cfg ?c = Inr ?r"
    unfolding read_hashfilesize_def mc Let_def f(1) prod.case hp l8 using fs by (simp add: mi)
  let ?b = "?r\<lparr>reconnect_tries := 50, next_chunk := 0, num_chunks := int (nblocks old), block_for_chunk_start := - 1,
      md5_hash := md5_init (md5_hash m), cs_state := CS_ID_FIRST, num_total_chunks := (if predicted_filesize = - 1 then 0 else int (nblocks new))\<rparr>"
  have nc: "int (length old) sdiv int c_checkpoint_dist + (if int (length old) smod int c_checkpoint_dist \<noteq> 0 then 1 else 0) = int (nblocks old)"
    unfolding sized_chunks nblocks_def ..
  have bt: "begin_transfer cfg ?i = Inr ?b"
  proof (cases "predicted_filesize = - 1")
    case True
    then have "remote_filesize ?i = - 1" using mi(3) by simp
    then show ?thesis unfolding begin_transfer_def rd sum.case Let_def using True by (simp add: nc md)
  next
    case False
    let ?e = "?r\<lparr>reconnect_tries := 50, next_chunk := 0, num_chunks := int (nblocks old), block_for_chunk_start := - 1,
      md5_hash := md5_init (md5_hash m), cs_state := CS_ID_FIRST\<rparr>"
    have rf: "remote_filesize (init_transfer cfg orig_file patchfile chunkhashes hashoutput z m) = z" for z by (simp add: init_transfer_def Let_def)
    have "remote_filesize ?e = int (length new)" using False a(13) by (auto simp: rf)
    then have "calcTotalChunks ?e = ?e\<lparr>num_total_chunks := int (nblocks new)\<rparr>" by (rule calcTotalChunks_size)
    then show ?thesis using False unfolding begin_transfer_def rd sum.case Let_def by (simp add: nc md rf)
  qed
  have nb: "0 < nblocks new" using a(3) by (simp add: less_nblocks)
  have cb: "client_base cfg old new 0 ?b"
    using a nf f(2,3) by (simp add: client_base_def ic pending_from_def new_client_def md5_init_def)
  have sk: "size_known new ?b \<or> remote_filesize ?b = - 1 \<and> pending_chunks ?b = []"
    using a(2,13) by (auto simp: size_known_def ic new_client_def)
  have pt: "file_at (m_patchfile ?b) [] (fpos patchfile) \<and> patchfile_pos ?b = 0 \<and> [] = [] \<and> last_chunk_patches ?b = []"
    using a(2,8,9) by (simp add: ic new_client_def file_at_def)
  have cv: "covers old (upto_block new 0) [] (take (upto_block new 0) new)" by (simp add: covers_def upto_block_def)
  have ho: "ho_all (\<lambda>bs p. (0 :: nat) = 0 \<or> starts bs (hash_prefix new 0)) ?b" using a(12) by (simp add: ho_all_def ic)
  have "at_start cfg old new 0 ?b"
    unfolding at_start_def using cb nb sk pt cv ho by (intro conjI exI[of _ "[]"] exI[of _ "fpos patchfile"]) (simp_all add: ic)
  moreover have "safe_with (hashoutput \<noteq> None) ?b"
    using a(2) by (simp add: safe_with_def client_safe_def ic new_client_def c_chunk_size_def)
  ultimately show ?thesis using bt by (intro exI[of _ ?b]) simp
qed

lemma start_transfer_ok:
  assumes s: "transfer_setup cfg old new orig_file patchfile chunkhashes hashoutput predicted_filesize m d"
  shows "\<exists>s. start_transfer cfg be garbage orig_file patchfile chunkhashes hashoutput predicted_filesize m d = Some s \<and> transfer_inv cfg old new s \<and>
    tr_result s = None \<and> safe_with (hashoutput \<noteq> None) (tr_client s)"
proof -
  obtain c where c: "begin_transfer cfg (init_transfer cfg orig_file patchfile chunkhashes hashoutput predicted_filesize m) = Inr c"
    "at_start cfg old new 0 c" "cs_state c = CS_ID_FIRST" "asked c = 0" "safe_with (hashoutput \<noteq> None) c"
    using begin_ok[OF s] by blast
  have "sender_ok new (length old) d" "sent_data d = []" using s by (simp_all add: transfer_setup_def)
  from info_sent[OF this, of be garbage] obtain e where e: "send_file_info be garbage [] d = Some (True, e)" "sender_ok new (length old) e"
    "sent_data e = msgs_bytes [File_Size_Msg (length new)]"
    by blast
  let ?s = "\<lparr>tr_client = c, tr_sender = e, tr_requests = [], tr_taken = 0, tr_result = None, tr_filesize = 0\<rparr>"
  have "expects cfg old new c [File_Size_Msg (length new)]" unfolding expects_def using c(2,4) by auto
  then have ph: "in_phase cfg old new c (msgs_bytes [File_Size_Msg (length new)])" unfolding in_phase_def using c(3) by (auto simp del: msgs_bytes_simps)
  have "\<not> all_received c"
  proof
    assume "all_received c"
    from in_phase_all[OF ph this] show False by (simp add: msg_bytes_parts)
  qed
  then have "transfer_inv cfg old new ?s"
    using e(2,3) ph c(4) unfolding transfer_inv_def by (simp add: phase_plain[OF ph] wire_def)
  then show ?thesis using c(1,5) e(1) by (simp add: start_transfer_def)
qed

text \<open>The end: the patch stands for the new file, and the hash file is the one of the new file.\<close>

lemma upto_all: "upto_block new (nblocks new) = length new"
proof -
  have "\<not> blockdist * nblocks new < length new" using less_nblocks[of "nblocks new" new] by simp
  then show ?thesis by (simp add: upto_block_def)
qed

lemma received_hashes:
  assumes "at_block cfg old new (nblocks new) c" "m_hashoutput c = Some f"
  shows "fbytes f = hash_file new"
proof -
  have "length (fbytes f) \<le> length (hash_file new)" "starts (fbytes f) (hash_prefix new (nblocks new))"
    using assms by (auto simp: at_block_def hashes_fit_def ho_all_def)
  then show ?thesis by (simp add: hash_prefix_all starts_def)
qed

lemma received_patch:
  assumes c: "at_block cfg old new (nblocks new) c" and s: "fbytes f_source = old" "no_fault f_source" and d: "no_fault dst" "fbytes dst = (if reflink then old else [])"
    and pt: "unchanged_align pt = 0" "\<not> with_sparse pt"
  shows "\<exists>g. patchFile False free_space reflink dst f_source (m_patchfile c) (int (length new)) None pt = Some (Inr g) \<and> fbytes g = new"
proof -
  obtain items where it: "patch_rep (length new) items [] c" "covers old (length new) items new"
    using c unfolding at_block_def upto_all by auto
  have l: "length new < 2 ^ 63" using c by (simp add: at_block_def client_base_def)
  have p: "patch_setup old (length new) items f_source (m_patchfile c)"
    using s it l by (simp add: patch_setup_def patch_rep_def file_at_def covers_def)
  have q: "patched old (length new) items = new" using it(2) by (simp add: patched_def covers_def)
  from patchFile_patched[OF p _ d pt, of free_space] show ?thesis using q by simp
qed

section \<open>Progress\<close>

text \<open>Without further reconnections every step comes closer to the end.\<close>

definition transfer_left :: "byte list \<Rightarrow> (transfer \<times> transfer) set" where
  "transfer_left new = measures [\<lambda>s. nblocks new - asked (tr_client s), \<lambda>s. length (tr_requests s), \<lambda>s. length (wire s)]"

lemma transfer_progress:
  assumes i: "transfer_inv cfg old new s" and t: "told_apart old new" and n: "tr_result s = None"
  shows "\<exists>u. transfer_step cfg be ext sp s u \<and> transfer_inv cfg old new u \<and> (tr_result u = Some ERR_SUCCESS \<or> tr_result u = None \<and> (u, s) \<in> transfer_left new)"
proof -
  let ?c = "tr_client s"
  obtain j where j: "j \<le> asked ?c" "tr_requests s = map (request_of old) [j..<asked ?c]" "\<not> all_received ?c"
    "in_phase cfg old new (?c\<lparr>reconnected := False\<rparr>) (wire s @ msgs_bytes (answers old new j (asked ?c)))"
    using i n unfolding transfer_inv_def by auto
  show ?thesis
  proof (cases "wire s = []")
    case False
    let ?buf = "take fc_buffersize (wire s)"
    have w: "wire s = ?buf @ drop fc_buffersize (wire s)" "?buf \<noteq> []" "length ?buf \<le> fc_buffersize" using False by (simp_all add: fc_buffersize_def)
    obtain rc c where d: "handle_data cfg False True ext ?buf ?c = Some (rc, c)" "rc = ERR_CONTINUE \<or> rc = ERR_SUCCESS" "asked c = asked ?c"
      "transfer_inv cfg old new (s\<lparr>tr_client := c, tr_taken := tr_taken s + length ?buf, tr_result := (if rc = ERR_CONTINUE then None else Some rc),
      tr_filesize := (if rc = ERR_SUCCESS then remote_filesize c else tr_filesize s)\<rparr>)"
      using step_deliver[OF i t n w, of ext] by blast
    let ?u = "s\<lparr>tr_client := c, tr_taken := tr_taken s + length ?buf, tr_result := (if rc = ERR_CONTINUE then None else Some rc),
      tr_filesize := (if rc = ERR_SUCCESS then remote_filesize c else tr_filesize s)\<rparr>"
    have st: "transfer_step cfg be ext sp s ?u" by (rule transfer_step.Deliver[OF n w d(1,2)])
    have "length (wire ?u) < length (wire s)" using w(2) by (simp add: wire_def) (simp add: fc_buffersize_def wire_def[symmetric])
    then have "(?u, s) \<in> transfer_left new" using d(3) by (simp add: transfer_left_def)
    then show ?thesis using st d(2,4) by (intro exI[of _ ?u]) auto
  next
    case w: True
    show ?thesis
    proof (cases "tr_requests s")
      case (Cons r rs)
      obtain chunk d where d: "process_request be r = Some chunk" "sendChunk be chunk (tr_sender s) = Some (True, d)"
        "transfer_inv cfg old new (s\<lparr>tr_sender := d, tr_requests := rs\<rparr>)"
        using step_serve[OF i n Cons, of be] by blast
      have "transfer_step cfg be ext sp s (s\<lparr>tr_sender := d, tr_requests := rs\<rparr>)" by (rule transfer_step.Serve[OF Cons d(1,2)])
      then show ?thesis using d(3) n Cons by (intro exI[of _ "s\<lparr>tr_sender := d, tr_requests := rs\<rparr>"]) (simp add: transfer_left_def)
    next
      case Nil
      have "length (tr_requests s) = asked ?c - j" unfolding j(2) by simp
      then have "j = asked ?c" using Nil j(1) by simp
      then have p: "in_phase cfg old new (?c\<lparr>reconnected := False\<rparr>) []" using j(4) w by simp
      have a: "at_block cfg old new (asked ?c) (?c\<lparr>reconnected := False\<rparr>)" using in_phase_none[OF p] by simp
      have sk: "size_known new ?c" using a by (simp add: at_block_def size_known_def)
      have b: "0 \<le> next_chunk ?c" "asked ?c \<le> nblocks new" using base_asked[OF at_block_base[OF a]] a by (auto simp: at_block_def client_base_def pending_from_def)
      have "asked ?c \<noteq> nblocks new" using at_block_all[of cfg old new "?c\<lparr>reconnected := False\<rparr>"] a j(3) by auto
      then have an: "asked ?c < nblocks new" using b(2) by simp
      have r: "remote_filesize ?c \<noteq> - 1" "next_chunk ?c < num_total_chunks ?c" using sk an b(1) by (auto simp: size_known_def nat_less_iff)
      obtain c where c: "next_request cfg sp ?c = Some (Some (request_of old (asked ?c)), c)" "asked (block_requested c) = Suc (asked ?c)"
        "transfer_inv cfg old new (s\<lparr>tr_client := block_requested c, tr_requests := tr_requests s @ [request_of old (asked ?c)]\<rparr>)"
        using step_ask[OF i n r, of sp] by blast
      let ?u = "s\<lparr>tr_client := block_requested c, tr_requests := tr_requests s @ [request_of old (asked ?c)]\<rparr>"
      have "transfer_step cfg be ext sp s ?u" by (rule transfer_step.Ask[OF n r c(1)])
      moreover have "(?u, s) \<in> transfer_left new" using c(2) an by (simp add: transfer_left_def)
      ultimately show ?thesis using c(3) n by (intro exI[of _ ?u]) simp
    qed
  qed
qed

lemma transfer_finishes:
  assumes "transfer_inv cfg old new s" "told_apart old new" "tr_result s = None"
  shows "\<exists>u. (transfer_step cfg be ext sp)\<^sup>*\<^sup>* s u \<and> tr_result u = Some ERR_SUCCESS"
proof -
  have "wf (transfer_left new)" by (simp add: transfer_left_def)
  then show ?thesis using assms(1,3)
  proof (induction s rule: wf_induct_rule)
    case (less s)
    obtain u where u: "transfer_step cfg be ext sp s u" "transfer_inv cfg old new u"
      "tr_result u = Some ERR_SUCCESS \<or> tr_result u = None \<and> (u, s) \<in> transfer_left new"
      using transfer_progress[OF less.prems(1) assms(2) less.prems(2), of be ext sp] by blast
    then show ?case using less.IH[of u] by (meson converse_rtranclp_into_rtranclp r_into_rtranclp)
  qed
qed

lemma transfer_inv_reached:
  assumes "(transfer_step cfg be ext sp)\<^sup>*\<^sup>* s t" "told_apart old new" "transfer_inv cfg old new s"
  shows "transfer_inv cfg old new t"
  using assms(1,3) by (induction rule: rtranclp_induct) (use transfer_step_inv[OF _ assms(2)] in blast)+

lemma transfer_step_safe:
  "transfer_step cfg be ext sp s t \<Longrightarrow> safe_with ho (tr_client s) \<Longrightarrow> safe_with ho (tr_client t)"
proof (induction rule: transfer_step.induct)
  case (Ask s r c)
  then have "safe_with ho c" using keeps_safe keeps_next_request by blast
  then show ?case by (simp add: block_requested_def safe_with_def client_safe_def)
next
  case (Ask_again s r c e garbage ok d)
  have "keeps c e" using keeps_Reconnect[of c cfg True] Ask_again(5) by simp
  then show ?case using Ask_again keeps_safe keeps_next_request by simp blast
next
  case (Ask_lost s r c e n e')
  have "keeps c e" "keeps e e'" using keeps_Reconnect[of c cfg True] Ask_lost(5) keeps_adjust[OF Ask_lost(6)] by simp_all
  then show ?case using Ask_lost keeps_safe keeps_next_request by simp blast
next
  case (Skip s c)
  then show ?case using keeps_safe keeps_next_request by simp blast
next
  case (Deliver s buf later rc c)
  then show ?case using handle_data_safe by simp
next
  case (Deliver_error s buf later rc c n c')
  then show ?case using handle_data_safe keeps_safe[OF keeps_adjust[OF Deliver_error(8)]] by simp
next
  case (Again s c garbage ok d)
  then show ?case using keeps_safe[OF keeps_Reconnect[of "tr_client s" cfg True], of ho] by simp
next
  case (Lost s c n c' rc)
  have "keeps (tr_client s) c" "keeps c c'" using keeps_Reconnect[of "tr_client s" cfg True] Lost(2) keeps_adjust[OF Lost(3)] by simp_all
  then show ?case using Lost keeps_safe by simp
qed simp_all

lemma transfer_safe_reached:
  assumes "(transfer_step cfg be ext sp)\<^sup>*\<^sup>* s t" "safe_with ho (tr_client s)"
  shows "safe_with ho (tr_client t)"
  using assms by (induction rule: rtranclp_induct) (use transfer_step_safe in blast)+

lemma transfer_started:
  assumes "transfer_setup cfg old new orig_file patchfile chunkhashes hashoutput predicted_filesize m d"
    and "start_transfer cfg be garbage orig_file patchfile chunkhashes hashoutput predicted_filesize m d = Some s"
    and "checksums_tell old new" and "(transfer_step cfg be ext sp)\<^sup>*\<^sup>* s t"
  shows "transfer_inv cfg old new t" "safe_with (hashoutput \<noteq> None) (tr_client t)"
proof -
  have s: "transfer_inv cfg old new s" "safe_with (hashoutput \<noteq> None) (tr_client s)"
    using start_transfer_ok[OF assms(1), of be garbage] assms(2) by auto
  show "transfer_inv cfg old new t" by (rule transfer_inv_reached[OF assms(4) checksums_told[OF assms(3)] s(1)])
  show "safe_with (hashoutput \<noteq> None) (tr_client t)" by (rule transfer_safe_reached[OF assms(4) s(2)])
qed

section \<open>Properties\<close>

text \<open>
  C1: A transfer that ends with \<open>ERR_SUCCESS\<close> has transferred the file. Under \<open>transfer_setup\<close> (the server has the old file, its hash file and an
  empty patch; no operation on a file and no sending at the client fails; there are no holes) and \<open>checksums_tell\<close> (no piece of 4096 bytes
  changes while its Adler-32 checksum stays the same): whatever the order of requests, answers and deliveries, in pieces of any size, and however often the
  connection breaks, the result is \<open>ERR_SUCCESS\<close>, or \<open>ERR_CONN_LOST\<close> or \<open>ERR_TIMEOUT\<close> after a \<open>Reconnect\<close> that failed. With \<open>ERR_SUCCESS\<close> the
  size returned is the one of the new file, the hash file is the one of the new file, and applying
  the patch that has been written to the old file, with \<open>ChunkPatcher\<close>, gives the new file.
\<close>

theorem transfer_correct:
  assumes "transfer_setup cfg old new orig_file patchfile chunkhashes hashoutput predicted_filesize m d"
    and "start_transfer cfg be garbage orig_file patchfile chunkhashes hashoutput predicted_filesize m d = Some s"
    and "checksums_tell old new"
    and "(transfer_step cfg be ext sp)\<^sup>*\<^sup>* s t" and "tr_result t = Some rc"
    and "fbytes f_source = old" "no_fault f_source" "no_fault dst" "fbytes dst = (if reflink then old else [])"
    and "unchanged_align pt = 0" "\<not> with_sparse pt"
  shows "rc = ERR_CONN_LOST \<or> rc = ERR_TIMEOUT \<or>
    rc = ERR_SUCCESS \<and> tr_filesize t = int (length new) \<and>
    (hashoutput = None \<or> (\<exists>f. m_hashoutput (tr_client t) = Some f \<and> fbytes f = hash_file new)) \<and>
    (\<exists>g. patchFile False free_space reflink dst f_source (m_patchfile (tr_client t)) (tr_filesize t) None pt = Some (Inr g) \<and> fbytes g = new)"
proof (cases "rc = ERR_SUCCESS")
  case True
  have b: "at_block cfg old new (nblocks new) (tr_client t)" "tr_filesize t = int (length new)"
    using transfer_started(1)[OF assms(1-4)] assms(5) True by (auto simp: transfer_inv_def ERR_SUCCESS_def ERR_CONN_LOST_def ERR_TIMEOUT_def)
  moreover have "hashoutput = None \<or> (\<exists>f. m_hashoutput (tr_client t) = Some f)"
    using transfer_started(2)[OF assms(1-4)] by (auto simp: safe_with_def)
  ultimately show ?thesis using True received_hashes[OF b(1)] received_patch[OF b(1) assms(6-11), of free_space] by auto
next
  case False
  then show ?thesis using transfer_started(1)[OF assms(1-4)] assms(5) by (simp add: transfer_inv_def)
qed


text \<open>
  C14: A block request is understood and answered. The bytes of the request for a block, decoded by \<open>ProcessPacket\<close> and given to \<open>sendChunk\<close>, make
  the sender send the messages for that block: the whole block with its checksums, or one update for every piece whose checksum is not
  the stored one and the digest of the block at the end, or one message that nothing has changed.
\<close>

theorem block_request_answered:
  assumes "j < nblocks new" "length new < 2 ^ 63" "sender_ok new (length old) s"
  shows "\<exists>chunk s'. process_request be (request_of old j) = Some chunk \<and> sendChunk be chunk s = Some (True, s') \<and> sender_ok new (length old) s' \<and>
    sent_data s' = sent_data s @ msgs_bytes (answer old new j)"
  by (rule request_served[OF assms])

section \<open>Examples\<close>

definition sample_sender :: "byte list \<Rightarrow> nat \<Rightarrow> chunk_sender" where
  "sample_sender data hsize = \<lparr>send_file = Some (sample_file data), curr_hash_size = int hsize, curr_file_size = int (length data), send_md5 = sample_md5,
     sent_data = [], sends = 0, send_ok = (\<lambda>_. True), sys_error = (\<lambda>_. 0), pipe_shut = False\<rparr>"

lemma sample_sender_ok: "sender_ok data hsize (sample_sender data hsize)" "sent_data (sample_sender data hsize) = []"
  by (simp_all add: sender_ok_def sample_sender_def sample_no_fault sample_md5_def)

abbreviation sample_start :: "transfer option" where
  "sample_start \<equiv> start_transfer sample_config False sample_md5 (sample_file [1]) (sample_file []) (sample_file (hash_file [1])) (Some (sample_file [])) (- 1)
     sample_client (sample_sender [1, 2] 1)"

lemma sample_setup:
  "transfer_setup sample_config [1] [1, 2] (sample_file [1]) (sample_file []) (sample_file (hash_file [1])) (Some (sample_file [])) (- 1)
     sample_client (sample_sender [1, 2] 1)"
  using sample_sender_ok[of "[1, 2]" 1]
  by (simp add: transfer_setup_def sample_no_fault new_client_def) (simp add: sample_config_def sample_client_def sample_md5_def)

lemma sample_tell: "checksums_tell [1] [1, 2]"
proof -
  have b: "new_block [1] 0 = [1]" "new_block [1, 2] 0 = [1, 2]" by (simp_all add: block_bytes_def c_checkpoint_dist_def)
  have n: "k < nblocks [1 :: byte] \<Longrightarrow> k = 0" for k by (simp add: less_nblocks c_checkpoint_dist_def)
  have p: "piece_of [1] i = [] \<and> piece_of [1, 2] i = [] \<or> i = 0" for i :: nat by (cases i) (simp_all add: piece_of_def)
  have z: "piece_of [1] 0 = [1]" "piece_of [1, 2] 0 = [1, 2]" by (simp_all add: piece_of_def)
  show ?thesis unfolding checksums_tell_def Let_def
  proof (intro allI impI)
    fix k i assume k: "k < nblocks [1 :: byte]" and l: "length (piece_of (new_block [1, 2] k) i) \<le> length (piece_of (new_block [1] k) i)"
    have "k = 0" by (rule n[OF k])
    moreover have "i \<noteq> 0"
    proof
      assume "i = 0"
      then show False using l \<open>k = 0\<close> b z by simp
    qed
    ultimately show "piece_of (new_block [1, 2] k) i = take (length (piece_of (new_block [1, 2] k) i)) (piece_of (new_block [1] k) i)"
      using p[of i] b by simp
  qed
qed

lemma sample_run:
  "\<exists>s t. sample_start = Some s \<and> (transfer_step sample_config False False [])\<^sup>*\<^sup>* s t \<and> tr_result s = None \<and> tr_result t = Some ERR_SUCCESS"
proof -
  obtain s where s: "sample_start = Some s" "transfer_inv sample_config [1] [1, 2] s" "tr_result s = None"
    using start_transfer_ok[OF sample_setup, of False sample_md5] by blast
  show ?thesis using transfer_finishes[OF s(2) checksums_told[OF sample_tell] s(3), of False False "[]"] s by blast
qed

theorem transfer_correct_witness:
  "\<exists>s t f g. sample_start = Some s \<and> (transfer_step sample_config False False [])\<^sup>*\<^sup>* s t \<and> m_hashoutput (tr_client t) = Some f \<and>
     fbytes f = hash_file [1, 2] \<and>
     tr_result t = Some ERR_SUCCESS \<and> tr_filesize t = 2 \<and>
     patchFile False (\<lambda>_. False) True (sample_file [1]) (sample_file [1]) (m_patchfile (tr_client t)) 2 None sample_patcher = Some (Inr g) \<and> fbytes g = [1, 2]"
proof -
  obtain s t where r: "sample_start = Some s" "(transfer_step sample_config False False [])\<^sup>*\<^sup>* s t" "tr_result t = Some ERR_SUCCESS" using sample_run by blast
  from transfer_correct[OF sample_setup r(1) sample_tell r(2,3) sample_no_fault(2) sample_no_fault(1) sample_no_fault(1) _ sample_patcher_fields,
      of "[1]" True "\<lambda>_. False"] show ?thesis using r by (auto simp: sample_no_fault ERR_SUCCESS_def ERR_CONN_LOST_def ERR_TIMEOUT_def)
qed


theorem block_request_answered_witness:
  "\<exists>chunk s'. process_request False (request_of [1] 0) = Some chunk \<and> sendChunk False chunk (sample_sender [1, 2] 1) = Some (True, s') \<and>
     sent_data s' = msgs_bytes (answer [1] [1, 2] 0)"
proof -
  have n: "0 < nblocks [1, 2 :: byte]" "length [1, 2 :: byte] < 2 ^ 63" by (simp_all add: less_nblocks)
  have "sender_ok [1, 2] (length [1 :: byte]) (sample_sender [1, 2] 1)" using sample_sender_ok(1) by simp
  from block_request_answered[OF n this, of False] show ?thesis by (auto simp: sample_sender_ok)
qed

end
